(* ===== verification/Kernel_Prelude.thy ===== *)
theory Kernel_Prelude
  imports Main "HOL-Library.Word" "HOL-Library.Monad_Syntax"
begin

text \<open>
  Shared vocabulary of the development: the C integer types of the kernel, byte buffers with
  checked access, and the generic lemmas on buffers, flag words and lists that the component
  theories use.

  A C pointer to constant data is an optional byte list, \<^term>\<open>None\<close> for the null pointer and
  the bytes readable from the address otherwise; pointer arithmetic is \<^const>\<open>drop\<close>. A pointer
  to memory a function writes is the whole buffer, returned updated. A read or a write outside
  the buffer is the value \<^term>\<open>None\<close> of the surrounding option monad, so that "no
  out-of-bounds access" is the statement that the result is not \<^term>\<open>None\<close>. Multi-byte fields are
  little-endian, as on x86-64.
\<close>

unbundle bit_operations_syntax

type_synonym u8 = "8 word"
type_synonym u16 = "16 word"
type_synonym u32 = "32 word"
type_synonym u64 = "64 word"
type_synonym bytes = "8 word list"

named_theorems mem_simps \<open>reads and writes of byte buffers\<close>
named_theorems mem_bounds \<open>when an access stays inside its buffer\<close>

section \<open>Widths\<close>

lemma unat_u8_less: "unat (w :: u8) < 256"
  using unsigned_less [of w, where 'a = nat] by simp

lemma unat_u16_less: "unat (w :: u16) < 65536"
  using unsigned_less [of w, where 'a = nat] by simp

lemma unat_u32_less: "unat (w :: u32) < 4294967296"
  using unsigned_less [of w, where 'a = nat] by simp

lemma unat_ucast_8_16 [simp]: "unat (ucast (w :: u8) :: u16) = unat w"
  by (simp add: unsigned_ucast_eq take_bit_nat_eq_self order.strict_trans [OF unat_u8_less])

lemma unat_ucast_8_32 [simp]: "unat (ucast (w :: u8) :: u32) = unat w"
  by (simp add: unsigned_ucast_eq take_bit_nat_eq_self order.strict_trans [OF unat_u8_less])

lemma unat_ucast_16_32 [simp]: "unat (ucast (w :: u16) :: u32) = unat w"
  by (simp add: unsigned_ucast_eq take_bit_nat_eq_self order.strict_trans [OF unat_u16_less])

lemma unat_ucast_32_64 [simp]: "unat (ucast (w :: u32) :: u64) = unat w"
  by (simp add: unsigned_ucast_eq take_bit_nat_eq_self order.strict_trans [OF unat_u32_less])

lemma unat_of_nat_u32: "n < 2 ^ 32 \<Longrightarrow> unat (of_nat n :: u32) = n"
  by (simp add: unsigned_of_nat take_bit_nat_eq_self)

lemma unat_of_nat_u16: "n < 2 ^ 16 \<Longrightarrow> unat (of_nat n :: u16) = n"
  by (simp add: unsigned_of_nat take_bit_nat_eq_self)

lemma unat_of_nat_u64: "n < 2 ^ 64 \<Longrightarrow> unat (of_nat n :: u64) = n"
  by (simp add: unsigned_of_nat take_bit_nat_eq_self)

section \<open>Little-endian fields\<close>

definition dec16 :: "u8 \<Rightarrow> u8 \<Rightarrow> u16" where
  "dec16 a b = ucast a OR push_bit 8 (ucast b)"

definition enc16 :: "u16 \<Rightarrow> bytes" where
  "enc16 v = [ucast v, ucast (drop_bit 8 v)]"

definition dec32 :: "u8 \<Rightarrow> u8 \<Rightarrow> u8 \<Rightarrow> u8 \<Rightarrow> u32" where
  "dec32 a b c d =
     ucast a OR push_bit 8 (ucast b) OR push_bit 16 (ucast c) OR push_bit 24 (ucast d)"

definition enc32 :: "u32 \<Rightarrow> bytes" where
  "enc32 v = [ucast v, ucast (drop_bit 8 v), ucast (drop_bit 16 v), ucast (drop_bit 24 v)]"

lemma length_enc16 [simp]: "length (enc16 v) = 2"
  by (simp add: enc16_def)

lemma length_enc32 [simp]: "length (enc32 v) = 4"
  by (simp add: enc32_def)

lemma dec16_enc16: "dec16 (enc16 v ! 0) (enc16 v ! 1) = v"
  unfolding dec16_def enc16_def
  by (rule bit_word_eqI) (auto simp: bit_simps)

lemma dec32_enc32: "dec32 (enc32 v ! 0) (enc32 v ! 1) (enc32 v ! 2) (enc32 v ! 3) = v"
proof (rule bit_word_eqI)
  fix n assume "n < LENGTH(32)"
  then consider "n < 8" | "8 \<le> n" "n < 16" | "16 \<le> n" "n < 24" | "24 \<le> n" "n < 32"
    by fastforce
  then show "bit (dec32 (enc32 v ! 0) (enc32 v ! 1) (enc32 v ! 2) (enc32 v ! 3)) n = bit v n"
    by cases (auto simp: dec32_def enc32_def bit_simps)
qed

section \<open>Checked access to byte buffers\<close>

definition rd8 :: "bytes \<Rightarrow> nat \<Rightarrow> u8 option" where
  "rd8 m i = (if i < length m then Some (m ! i) else None)"

definition rd16 :: "bytes \<Rightarrow> nat \<Rightarrow> u16 option" where
  "rd16 m i = (if i + 2 \<le> length m then Some (dec16 (m ! i) (m ! (i + 1))) else None)"

definition rd32 :: "bytes \<Rightarrow> nat \<Rightarrow> u32 option" where
  "rd32 m i =
     (if i + 4 \<le> length m
      then Some (dec32 (m ! i) (m ! (i + 1)) (m ! (i + 2)) (m ! (i + 3))) else None)"

text \<open>\<open>memcpy\<close> of \<open>n\<close> bytes out of a buffer, and into it at an offset.\<close>

definition rd_bytes :: "bytes \<Rightarrow> nat \<Rightarrow> nat \<Rightarrow> bytes option" where
  "rd_bytes m i n = (if i + n \<le> length m then Some (take n (drop i m)) else None)"

definition wr_bytes :: "bytes \<Rightarrow> nat \<Rightarrow> bytes \<Rightarrow> bytes option" where
  "wr_bytes m i bs =
     (if i + length bs \<le> length m
      then Some (take i m @ bs @ drop (i + length bs) m) else None)"

definition wr8 :: "bytes \<Rightarrow> nat \<Rightarrow> u8 \<Rightarrow> bytes option" where
  "wr8 m i v = wr_bytes m i [v]"

definition wr16 :: "bytes \<Rightarrow> nat \<Rightarrow> u16 \<Rightarrow> bytes option" where
  "wr16 m i v = wr_bytes m i (enc16 v)"

definition wr32 :: "bytes \<Rightarrow> nat \<Rightarrow> u32 \<Rightarrow> bytes option" where
  "wr32 m i v = wr_bytes m i (enc32 v)"

text \<open>\<open>memcmp(a, b, n) == 0\<close>: both operands must be readable for \<open>n\<close> bytes.\<close>

definition c_memeq :: "bytes \<Rightarrow> bytes \<Rightarrow> nat \<Rightarrow> bool option" where
  "c_memeq a b n =
     (if n \<le> length a \<and> n \<le> length b then Some (take n a = take n b) else None)"

subsection \<open>When an access succeeds\<close>

lemma rd8_ok [mem_bounds]: "i < length m \<Longrightarrow> rd8 m i = Some (m ! i)"
  by (simp add: rd8_def)

lemma rd8_None_iff [simp]: "rd8 m i = None \<longleftrightarrow> length m \<le> i"
  by (auto simp: rd8_def)

lemma rd16_None_iff [simp]: "rd16 m i = None \<longleftrightarrow> length m < i + 2"
  by (auto simp: rd16_def)

lemma rd32_None_iff [simp]: "rd32 m i = None \<longleftrightarrow> length m < i + 4"
  by (auto simp: rd32_def)

lemma rd_bytes_None_iff [simp]: "rd_bytes m i n = None \<longleftrightarrow> length m < i + n"
  by (auto simp: rd_bytes_def)

lemma wr_bytes_None_iff [simp]: "wr_bytes m i bs = None \<longleftrightarrow> length m < i + length bs"
  by (auto simp: wr_bytes_def)

lemma rd8_bound [dest]: "rd8 m i = Some v \<Longrightarrow> i < length m"
  by (auto simp: rd8_def split: if_splits)

lemma rd16_bound [dest]: "rd16 m i = Some v \<Longrightarrow> i + 2 \<le> length m"
  by (auto simp: rd16_def split: if_splits)

lemma rd32_bound [dest]: "rd32 m i = Some v \<Longrightarrow> i + 4 \<le> length m"
  by (auto simp: rd32_def split: if_splits)

lemma rd_bytes_Some_iff:
  "rd_bytes m i n = Some bs \<longleftrightarrow> i + n \<le> length m \<and> bs = take n (drop i m)"
  by (auto simp: rd_bytes_def)

lemma wr_bytes_length: "wr_bytes m i bs = Some m' \<Longrightarrow> length m' = length m"
  by (auto simp: wr_bytes_def split: if_splits)

subsection \<open>Reads through \<open>take\<close>, \<open>drop\<close> and append\<close>

lemma rd8_drop [mem_simps]: "rd8 (drop n m) i = rd8 m (n + i)"
  by (auto simp: rd8_def)

lemma rd16_drop [mem_simps]: "rd16 (drop n m) i = rd16 m (n + i)"
  by (auto simp: rd16_def add.assoc)

lemma rd32_drop [mem_simps]: "rd32 (drop n m) i = rd32 m (n + i)"
  by (auto simp: rd32_def add.assoc)

lemma rd8_take [mem_simps]: "rd8 (take n m) i = (if i < n then rd8 m i else None)"
  by (auto simp: rd8_def)

lemma rd16_take [mem_simps]: "rd16 (take n m) i = (if i + 2 \<le> n then rd16 m i else None)"
  by (auto simp: rd16_def)

lemma rd32_take [mem_simps]: "rd32 (take n m) i = (if i + 4 \<le> n then rd32 m i else None)"
  by (auto simp: rd32_def)

lemma rd8_append: "rd8 (xs @ ys) i = (if i < length xs then rd8 xs i else rd8 ys (i - length xs))"
  by (auto simp: rd8_def nth_append)

lemma rd16_append_left: "i + 2 \<le> length xs \<Longrightarrow> rd16 (xs @ ys) i = rd16 xs i"
  by (auto simp: rd16_def nth_append)

lemma rd16_append_right: "length xs \<le> i \<Longrightarrow> rd16 (xs @ ys) i = rd16 ys (i - length xs)"
  by (auto simp: rd16_def nth_append Suc_diff_le)

lemma rd32_append_left: "i + 4 \<le> length xs \<Longrightarrow> rd32 (xs @ ys) i = rd32 xs i"
  by (auto simp: rd32_def nth_append)

lemma rd32_append_right: "length xs \<le> i \<Longrightarrow> rd32 (xs @ ys) i = rd32 ys (i - length xs)"
  by (auto simp: rd32_def nth_append Suc_diff_le algebra_simps)

lemma rd16_enc16: "rd16 (enc16 v @ ys) 0 = Some v"
  using dec16_enc16 [of v] by (simp add: rd16_def nth_append)

lemma rd32_enc32: "rd32 (enc32 v @ ys) 0 = Some v"
  using dec32_enc32 [of v] by (simp add: rd32_def nth_append numeral_2_eq_2)

subsection \<open>Writes\<close>

lemma wr_bytes_at:
  "i = length xs \<Longrightarrow> length bs \<le> length ys \<Longrightarrow>
     wr_bytes (xs @ ys) i bs = Some (xs @ bs @ drop (length bs) ys)"
  by (simp add: wr_bytes_def)

lemma wr8_at:
  "i = length xs \<Longrightarrow> 1 \<le> length ys \<Longrightarrow> wr8 (xs @ ys) i v = Some (xs @ v # drop 1 ys)"
  by (simp add: wr8_def wr_bytes_at)

lemma wr32_at:
  "i = length xs \<Longrightarrow> 4 \<le> length ys \<Longrightarrow> wr32 (xs @ ys) i v = Some (xs @ enc32 v @ drop 4 ys)"
  by (simp add: wr32_def wr_bytes_at)

lemma wr_bytes_0: "length bs \<le> length m \<Longrightarrow> wr_bytes m 0 bs = Some (bs @ drop (length bs) m)"
  by (simp add: wr_bytes_def)

lemma wr16_at:
  "i = length xs \<Longrightarrow> 2 \<le> length ys \<Longrightarrow> wr16 (xs @ ys) i v = Some (xs @ enc16 v @ drop 2 ys)"
  by (simp add: wr16_def wr_bytes_at)

text \<open>Adjacent writes are one write.\<close>

lemma wr_bytes_seq:
  "Option.bind (wr_bytes m i xs) (\<lambda>m1. wr_bytes m1 (i + length xs) ys) = wr_bytes m i (xs @ ys)"
proof (cases "i + length xs + length ys \<le> length m")
  case True
  then show ?thesis by (simp add: wr_bytes_def ac_simps)
qed (auto simp: wr_bytes_def)

lemma wr_bytes_nth:
  assumes "wr_bytes m i bs = Some m'"
  shows "j < length m \<Longrightarrow> m' ! j = (if i \<le> j \<and> j < i + length bs then bs ! (j - i) else m ! j)"
  using assms by (auto simp: wr_bytes_def nth_append min_def split: if_splits)

section \<open>Counted loops\<close>

text \<open>
  \<open>for (k = i; k < n; k++) s = f(k, s)\<close>, stopping at the first memory fault.
\<close>

function for_upto :: "nat \<Rightarrow> nat \<Rightarrow> (nat \<Rightarrow> 's \<Rightarrow> 's option) \<Rightarrow> 's \<Rightarrow> 's option" where
  "for_upto i n f s =
     (if i < n then (case f i s of None \<Rightarrow> None | Some s' \<Rightarrow> for_upto (Suc i) n f s') else Some s)"
  by pat_completeness auto
termination
  by (relation "measure (\<lambda>(i, n, f, s). n - i)") auto

declare for_upto.simps [simp del]

lemma for_upto_done [simp]: "n \<le> i \<Longrightarrow> for_upto i n f s = Some s"
  by (simp add: for_upto.simps)

lemma for_upto_step:
  "i < n \<Longrightarrow> for_upto i n f s = (case f i s of None \<Rightarrow> None | Some s' \<Rightarrow> for_upto (Suc i) n f s')"
  by (simp add: for_upto.simps [of i n f s])

text \<open>The Hoare rule of the loop: an invariant that every iteration keeps.\<close>

lemma for_upto_inv:
  assumes "i \<le> n" and "P i s"
    and "\<And>k t. i \<le> k \<Longrightarrow> k < n \<Longrightarrow> P k t \<Longrightarrow> \<exists>t'. f k t = Some t' \<and> P (Suc k) t'"
  shows "\<exists>s'. for_upto i n f s = Some s' \<and> P n s'"
  using assms
proof (induction "n - i" arbitrary: i s)
  case 0
  then show ?case by auto
next
  case (Suc d)
  then have "i < n" by simp
  with Suc.prems obtain t where "f i s = Some t" and "P (Suc i) t"
    by blast
  moreover have "\<exists>s'. for_upto (Suc i) n f t = Some s' \<and> P n s'"
    using Suc.hyps(2) \<open>i < n\<close> \<open>P (Suc i) t\<close> Suc.prems(3)
    by (intro Suc.hyps(1)) auto
  ultimately show ?case
    using \<open>i < n\<close> by (simp add: for_upto_step)
qed

lemma find_append: "List.find P (xs @ ys) = (case List.find P xs of None \<Rightarrow> List.find P ys | Some x \<Rightarrow> Some x)"
  by (induction xs) auto

end
