(* ===== verification/Libc_Format.thy ===== *)
theory Libc_Format
  imports Kernel_Prelude
begin

text \<open>
  The part of \<open>src/libc/string.c\<close> (\<open>vsnprintf\<close>) that the security formatters use: unsigned
  conversion in base 10 and 16, and the bounded store of the \<open>PUTC\<close> macro with its final NUL.
  Flags, width, precision and the remaining conversions are not used by the modelled callers.
\<close>

section \<open>Unsigned conversion\<close>

text \<open>\<open>digits[d]\<close> of the lower-case digit table.\<close>

definition fmt_digit :: "nat \<Rightarrow> char" where
  "fmt_digit d = ''0123456789abcdef'' ! d"

text \<open>The loop \<open>while (v > 0) { tmp[n++] = digits[v % base]; v /= base; }\<close>: \<open>tmp\<close> is
  filled from the least significant digit.\<close>

function fmt_tmp :: "nat \<Rightarrow> nat \<Rightarrow> string" where
  "fmt_tmp base v =
     (if v > 0 \<and> 1 < base then fmt_digit (v mod base) # fmt_tmp base (v div base) else [])"
  by pat_completeness auto
termination
  by (relation "measure snd") auto

declare fmt_tmp.simps [simp del]

definition fmt_unsigned :: "nat \<Rightarrow> nat \<Rightarrow> string" where
  "fmt_unsigned base v = (if v = 0 then ''0'' else rev (fmt_tmp base v))"

abbreviation fmt_u :: "nat \<Rightarrow> string" where "fmt_u \<equiv> fmt_unsigned 10"
abbreviation fmt_x :: "nat \<Rightarrow> string" where "fmt_x \<equiv> fmt_unsigned 16"

section \<open>The bounded store\<close>

text \<open>
  \<open>snprintf(buf + pos, size, ...)\<close> of an already expanded text: the characters that fit before
  \<open>size - 1\<close> are stored, a NUL follows them when \<open>size > 0\<close>, and the result is the length the
  text would have had. A store outside the buffer is a fault.
\<close>

definition c_snprintf :: "string \<Rightarrow> nat \<Rightarrow> nat \<Rightarrow> string \<Rightarrow> (string \<times> nat) option" where
  "c_snprintf buf pos sz text =
     (let out = (if sz = 0 then [] else take (sz - 1) text @ [CHR 0x00])
      in if pos + length out \<le> length buf
         then Some (take pos buf @ out @ drop (pos + length out) buf, length text) else None)"

section \<open>Facts\<close>

lemma fmt_tmp_0 [simp]: "fmt_tmp base 0 = []"
  by (simp add: fmt_tmp.simps [of base 0])

lemma fmt_tmp_nonempty: "0 < v \<Longrightarrow> 1 < base \<Longrightarrow> fmt_tmp base v \<noteq> []"
  by (simp add: fmt_tmp.simps [of base v])

lemma fmt_unsigned_nonempty: "1 < base \<Longrightarrow> fmt_unsigned base v \<noteq> []"
  by (simp add: fmt_unsigned_def fmt_tmp_nonempty)

lemma length_fmt_tmp: "1 < base \<Longrightarrow> v < base ^ n \<Longrightarrow> length (fmt_tmp base v) \<le> n"
proof (induction n arbitrary: v)
  case 0
  then show ?case by simp
next
  case (Suc n)
  then have "v div base < base ^ n"
    by (simp add: less_mult_imp_div_less mult.commute)
  with Suc show ?case
    by (simp add: fmt_tmp.simps [of base v])
qed

lemma length_fmt_unsigned:
  "1 < base \<Longrightarrow> v < base ^ n \<Longrightarrow> 0 < n \<Longrightarrow> length (fmt_unsigned base v) \<le> n"
  using length_fmt_tmp [of base v n] by (simp add: fmt_unsigned_def)

text \<open>Reading the digits back: the positional value of the text is the number.\<close>

definition digit_val :: "char \<Rightarrow> nat" where
  "digit_val c = (if of_char c \<ge> (97::nat) then of_char c - 87 else of_char c - 48)"

definition text_val :: "nat \<Rightarrow> string \<Rightarrow> nat" where
  "text_val base cs = foldl (\<lambda>a c. a * base + digit_val c) 0 cs"

lemma digit_val_fmt_digit: "d < 16 \<Longrightarrow> digit_val (fmt_digit d) = d"
proof -
  have "list_all (\<lambda>d. digit_val (fmt_digit d) = d) [0..<16]"
    by code_simp
  then show "d < 16 \<Longrightarrow> digit_val (fmt_digit d) = d"
    by (simp add: list_all_iff)
qed

lemma text_val_snoc: "text_val base (cs @ [c]) = text_val base cs * base + digit_val c"
  by (simp add: text_val_def)

lemma text_val_fmt_tmp:
  "1 < base \<Longrightarrow> base \<le> 16 \<Longrightarrow> text_val base (rev (fmt_tmp base v)) = v"
proof (induction v rule: less_induct)
  case (less v)
  show ?case
  proof (cases "v = 0")
    case True
    then show ?thesis by (simp add: text_val_def)
  next
    case False
    with less.prems have "v div base < v" by simp
    moreover have "v mod base < 16"
      using mod_less_divisor [of base v] less.prems by linarith
    ultimately have "text_val base (rev (fmt_tmp base (v div base))) = v div base"
      and "v mod base < 16" using less by auto
    with False less show ?thesis
      by (simp add: fmt_tmp.simps [of base v] text_val_snoc digit_val_fmt_digit)
  qed
qed

lemma text_val_fmt_unsigned:
  "1 < base \<Longrightarrow> base \<le> 16 \<Longrightarrow> text_val base (fmt_unsigned base v) = v"
  by (auto simp: fmt_unsigned_def text_val_fmt_tmp)
    (simp add: text_val_def digit_val_def)

lemma fmt_unsigned_inj:
  "1 < base \<Longrightarrow> base \<le> 16 \<Longrightarrow> fmt_unsigned base v = fmt_unsigned base w \<longleftrightarrow> v = w"
  by (metis text_val_fmt_unsigned)

end
