(* ===== verification/Sec_Sid.thy ===== *)
theory Sec_Sid
  imports Libc_Format
begin

text \<open>
  \<open>src/kernel/security/sid.c\<close>: security identifiers. A SID is \<open>Revision\<close> (1 byte),
  \<open>SubAuthorityCount\<close> (1 byte), a 6-byte big-endian authority and \<open>SubAuthorityCount\<close>
  32-bit sub-authorities; it is kept here as the bytes of that layout, so that the functions that
  take a SID from an untrusted buffer are modelled with the reads they really make.
\<close>

section \<open>Constants and the static SIDs\<close>

definition SID_REVISION :: u8 where "SID_REVISION = 1"
definition SID_MAX_SUB_AUTHORITIES :: u8 where "SID_MAX_SUB_AUTHORITIES = 15"

text \<open>The static initialisers \<open>{ 1, n, {authority}, {sub-authorities} }\<close>.\<close>

definition mk_sid :: "bytes \<Rightarrow> u32 list \<Rightarrow> bytes" where
  "mk_sid authority subs = [SID_REVISION, of_nat (length subs)] @ authority @ concat (map enc32 subs)"

definition SECURITY_NT_AUTHORITY :: bytes where "SECURITY_NT_AUTHORITY = [0, 0, 0, 0, 0, 5]"
definition SECURITY_MANDATORY_LABEL_AUTHORITY :: bytes where
  "SECURITY_MANDATORY_LABEL_AUTHORITY = [0, 0, 0, 0, 0, 16]"

definition SeNullSid :: bytes where "SeNullSid = mk_sid [0, 0, 0, 0, 0, 0] [0]"
definition SeWorldSid :: bytes where "SeWorldSid = mk_sid [0, 0, 0, 0, 0, 1] [0]"
definition SeCreatorOwnerSid :: bytes where "SeCreatorOwnerSid = mk_sid [0, 0, 0, 0, 0, 3] [0]"
definition SeNtAuthoritySid :: bytes where "SeNtAuthoritySid = mk_sid [0, 0, 0, 0, 0, 5] []"
definition SeInteractiveSid :: bytes where "SeInteractiveSid = mk_sid [0, 0, 0, 0, 0, 5] [4]"
definition SeServiceSid :: bytes where "SeServiceSid = mk_sid [0, 0, 0, 0, 0, 5] [6]"
definition SeAnonymousLogonSid :: bytes where "SeAnonymousLogonSid = mk_sid [0, 0, 0, 0, 0, 5] [7]"
definition SeLocalSystemSid :: bytes where "SeLocalSystemSid = mk_sid [0, 0, 0, 0, 0, 5] [18]"
definition SeLocalServiceSid :: bytes where "SeLocalServiceSid = mk_sid [0, 0, 0, 0, 0, 5] [19]"
definition SeNetworkServiceSid :: bytes where "SeNetworkServiceSid = mk_sid [0, 0, 0, 0, 0, 5] [20]"
definition SeBuiltinAdministratorsSid :: bytes where
  "SeBuiltinAdministratorsSid = mk_sid [0, 0, 0, 0, 0, 5] [32, 544]"
definition SeBuiltinUsersSid :: bytes where
  "SeBuiltinUsersSid = mk_sid [0, 0, 0, 0, 0, 5] [32, 545]"
definition SeBuiltinGuestsSid :: bytes where
  "SeBuiltinGuestsSid = mk_sid [0, 0, 0, 0, 0, 5] [32, 546]"
definition SeILUntrusted :: bytes where "SeILUntrusted = mk_sid [0, 0, 0, 0, 0, 16] [0]"
definition SeILLow :: bytes where "SeILLow = mk_sid [0, 0, 0, 0, 0, 16] [4096]"
definition SeILMedium :: bytes where "SeILMedium = mk_sid [0, 0, 0, 0, 0, 16] [8192]"
definition SeILHigh :: bytes where "SeILHigh = mk_sid [0, 0, 0, 0, 0, 16] [12288]"
definition SeILSystem :: bytes where "SeILSystem = mk_sid [0, 0, 0, 0, 0, 16] [16384]"

section \<open>Length, validity, comparison, copy\<close>

definition RtlLengthSid :: "bytes option \<Rightarrow> u32 option" where
  "RtlLengthSid sid =
     (case sid of
        None \<Rightarrow> Some 0
      | Some s \<Rightarrow> do { count \<leftarrow> rd8 s 1; Some (8 + 4 * ucast count) })"

definition RtlLengthSidBounded :: "bytes option \<Rightarrow> u32 \<Rightarrow> u32 option" where
  "RtlLengthSidBounded sid avail =
     (case sid of
        None \<Rightarrow> Some 0
      | Some s \<Rightarrow>
          if avail < 8 then Some 0
          else do {
            r \<leftarrow> rd8 s 0;
            if r \<noteq> SID_REVISION then Some 0
            else do {
              c \<leftarrow> rd8 s 1;
              let count = (ucast c :: u32);
              if count > ucast SID_MAX_SUB_AUTHORITIES then Some 0
              else (let len = 8 + 4 * count in if len > avail then Some 0 else Some len) } })"

definition RtlValidSid :: "bytes option \<Rightarrow> bool option" where
  "RtlValidSid sid =
     (case sid of
        None \<Rightarrow> Some False
      | Some s \<Rightarrow> do {
          r \<leftarrow> rd8 s 0;
          if r \<noteq> SID_REVISION then Some False
          else do { c \<leftarrow> rd8 s 1; Some (\<not> c > SID_MAX_SUB_AUTHORITIES) } })"

definition RtlEqualSid :: "bytes option \<Rightarrow> bytes option \<Rightarrow> bool option" where
  "RtlEqualSid a b =
     (case (a, b) of
        (Some x, Some y) \<Rightarrow> do {
          va \<leftarrow> RtlValidSid a;
          if \<not> va then Some False
          else do {
            vb \<leftarrow> RtlValidSid b;
            if \<not> vb then Some False
            else do {
              len_a \<leftarrow> RtlLengthSid a;
              len_b \<leftarrow> RtlLengthSid b;
              if len_a \<noteq> len_b then Some False
              else c_memeq x y (unat len_a) } } }
      | _ \<Rightarrow> Some False)"

text \<open>The result is the C return value and the destination buffer afterwards.\<close>

definition RtlCopySid :: "bytes option \<Rightarrow> u32 \<Rightarrow> bytes option \<Rightarrow> (int \<times> bytes option) option" where
  "RtlCopySid buf buf_size src =
     (case (buf, src) of
        (Some b, Some s) \<Rightarrow> do {
          v \<leftarrow> RtlValidSid src;
          if \<not> v then Some (-1, buf)
          else do {
            len \<leftarrow> RtlLengthSid src;
            if buf_size < len then Some (-1, buf)
            else do {
              bs \<leftarrow> rd_bytes s 0 (unat len);
              b' \<leftarrow> wr_bytes b 0 bs;
              Some (0, Some b') } } }
      | _ \<Rightarrow> Some (-1, buf))"

section \<open>Initialisation and sub-authorities\<close>

definition RtlInitializeSid :: "bytes option \<Rightarrow> bytes option \<Rightarrow> u8 \<Rightarrow> bytes option option" where
  "RtlInitializeSid sid authority count =
     (case (sid, authority) of
        (Some m, Some auth) \<Rightarrow> do {
          let count = (if count > SID_MAX_SUB_AUTHORITIES then SID_MAX_SUB_AUTHORITIES else count);
          m \<leftarrow> wr8 m 0 SID_REVISION;
          m \<leftarrow> wr8 m 1 count;
          m \<leftarrow> for_upto 0 6 (\<lambda>i m. do { a \<leftarrow> rd8 auth i; wr8 m (2 + i) a }) m;
          m \<leftarrow> for_upto 0 (unat count) (\<lambda>i m. wr32 m (8 + 4 * i) 0) m;
          Some (Some m) }
      | _ \<Rightarrow> Some sid)"

text \<open>The address of a sub-authority is its byte offset in the SID; \<^term>\<open>None\<close> inside is null.\<close>

definition RtlSubAuthoritySid :: "bytes option \<Rightarrow> u32 \<Rightarrow> nat option option" where
  "RtlSubAuthoritySid sid n =
     (case sid of
        None \<Rightarrow> Some None
      | Some s \<Rightarrow> do {
          c \<leftarrow> rd8 s 1;
          if n \<ge> ucast c then Some None else Some (Some (8 + 4 * unat n)) })"

section \<open>Text form\<close>

definition sid_authority :: "bytes \<Rightarrow> u64 option" where
  "sid_authority s =
     for_upto 0 6 (\<lambda>i a. do { b \<leftarrow> rd8 s (2 + i); Some (push_bit 8 a OR ucast b) }) 0"

text \<open>The loop that appends \<open>"-%u"\<close> for every sub-authority; \<open>fuel\<close> counts the remaining ones.\<close>

primrec sid_string_loop ::
  "nat \<Rightarrow> nat \<Rightarrow> bytes \<Rightarrow> u32 \<Rightarrow> string \<Rightarrow> u32 \<Rightarrow> (int \<times> string option) option" where
  "sid_string_loop 0 i s buf_size b pos = Some (int (unat pos), Some b)"
| "sid_string_loop (Suc fuel) i s buf_size b pos = do {
     v \<leftarrow> rd32 s (8 + 4 * i);
     (b', written) \<leftarrow> c_snprintf b (unat pos) (unat (buf_size - pos)) (''-'' @ fmt_u (unat v));
     if pos + of_nat written \<ge> buf_size then Some (-1, Some b')
     else sid_string_loop fuel (Suc i) s buf_size b' (pos + of_nat written) }"

definition RtlConvertSidToString ::
  "string option \<Rightarrow> u32 \<Rightarrow> bytes option \<Rightarrow> (int \<times> string option) option" where
  "RtlConvertSidToString buf buf_size sid =
     (case (buf, sid) of
        (Some b, Some s) \<Rightarrow>
          if buf_size < 8 then Some (-1, buf)
          else do {
            v \<leftarrow> RtlValidSid sid;
            if \<not> v then Some (-1, buf)
            else do {
              authority \<leftarrow> sid_authority s;
              r \<leftarrow> rd8 s 0;
              let text = (if authority > 0xFFFFFFFF
                          then ''S-'' @ fmt_u (unat r) @ ''-0x'' @ fmt_x (unat authority)
                          else ''S-'' @ fmt_u (unat r) @ ''-'' @ fmt_u (unat (ucast authority :: u32)));
              (b', written) \<leftarrow> c_snprintf b 0 (unat buf_size) text;
              if (of_nat written :: u32) \<ge> buf_size then Some (-1, Some b')
              else do {
                c \<leftarrow> rd8 s 1;
                sid_string_loop (unat c) 0 s buf_size b' (of_nat written) } } }
      | _ \<Rightarrow> Some (-1, buf))"

section \<open>Service SIDs\<close>

definition fnv1a_step :: "u32 \<Rightarrow> u8 \<Rightarrow> u32" where
  "fnv1a_step hash c = (hash XOR ucast c) * 0x01000193"

definition fnv1a_spread :: "u32 \<Rightarrow> u32" where
  "fnv1a_spread hash = (hash XOR drop_bit 16 hash) * 0x01000193"

text \<open>\<open>out[0]\<close> is the hash of the name, \<open>out[i]\<close> the \<open>i\<close>-th re-hash of it.\<close>

definition fnv1a_hash_name :: "string \<Rightarrow> u32 list" where
  "fnv1a_hash_name name =
     (let h0 = foldl (\<lambda>h c. fnv1a_step h (of_char c)) 0x811c9dc5 name;
          h1 = fnv1a_spread h0; h2 = fnv1a_spread h1;
          h3 = fnv1a_spread h2; h4 = fnv1a_spread h3
      in [h0, h1, h2, h3, h4])"

text \<open>Result, SID buffer and \<open>*sid_len\<close> afterwards; a null \<open>sid_len\<close> stays null.\<close>

definition RtlCreateServiceSid ::
  "string option \<Rightarrow> bytes option \<Rightarrow> u32 option \<Rightarrow> (int \<times> bytes option \<times> u32 option) option" where
  "RtlCreateServiceSid service_name sid_buf sid_len =
     (case (service_name, sid_buf, sid_len) of
        (Some name, Some m, Some len) \<Rightarrow>
          (let needed = 8 + 4 * 6 in
           if len < needed then Some (-1, sid_buf, Some needed)
           else do {
             let hash = fnv1a_hash_name name;
             m1 \<leftarrow> RtlInitializeSid sid_buf (Some SECURITY_NT_AUTHORITY) 6;
             m2 \<leftarrow> (case m1 of None \<Rightarrow> None | Some m \<Rightarrow> wr32 m 8 80);
             m3 \<leftarrow> for_upto 0 5 (\<lambda>i m. wr32 m (8 + 4 * (i + 1)) (hash ! i)) m2;
             Some (0, Some m3, Some needed) })
      | _ \<Rightarrow> Some (-1, sid_buf, sid_len))"

section \<open>What a well-formed SID is\<close>

definition sid_size :: "bytes \<Rightarrow> nat" where
  "sid_size s = 8 + 4 * unat (s ! 1)"

definition sid_ok :: "bytes \<Rightarrow> bool" where
  "sid_ok s \<longleftrightarrow>
     8 \<le> length s \<and> s ! 0 = SID_REVISION \<and> s ! 1 \<le> SID_MAX_SUB_AUTHORITIES \<and> sid_size s \<le> length s"

text \<open>The bytes of the SID itself, without what follows it in memory.\<close>

definition sid_body :: "bytes \<Rightarrow> bytes" where
  "sid_body s = take (sid_size s) s"

lemma unat_length_word [simp]: "unat (8 + 4 * ucast (c :: u8) :: u32) = 8 + 4 * unat c"
  using unat_u8_less [of c] by (simp add: unat_word_ariths)

lemma sid_size_ge [simp]: "8 \<le> sid_size s"
  by (simp add: sid_size_def)

lemma sid_ok_size_le: "sid_ok s \<Longrightarrow> sid_size s \<le> 68"
  by (auto simp: sid_ok_def sid_size_def SID_MAX_SUB_AUTHORITIES_def word_le_nat_alt)

lemma sid_ok_lengthD [dest]: "sid_ok s \<Longrightarrow> sid_size s \<le> length s"
  by (simp add: sid_ok_def)

lemma sid_size_take [simp]: "2 \<le> n \<Longrightarrow> sid_size (take n s) = sid_size s"
  by (simp add: sid_size_def)

lemma sid_size_append [simp]: "2 \<le> length s \<Longrightarrow> sid_size (s @ t) = sid_size s"
  by (simp add: sid_size_def nth_append)

lemma length_sid_body: "sid_ok s \<Longrightarrow> length (sid_body s) = sid_size s"
  by (simp add: sid_body_def sid_ok_def)

lemma sid_ok_append: "sid_ok s \<Longrightarrow> sid_ok (s @ t)"
  by (auto simp: sid_ok_def nth_append)

lemma sid_ok_take_iff: "sid_ok (take n s) \<longleftrightarrow> sid_ok s \<and> sid_size s \<le> n"
  by (cases "8 \<le> n") (auto simp: sid_ok_def sid_size_def)

lemma sid_ok_body: "sid_ok s \<Longrightarrow> sid_ok (sid_body s)"
  by (simp add: sid_body_def sid_ok_take_iff)

lemma sid_size_body [simp]: "sid_size (sid_body s) = sid_size s"
  by (simp add: sid_body_def sid_size_def)

lemma sid_body_append: "sid_ok s \<Longrightarrow> sid_body (s @ t) = sid_body s"
  by (auto simp: sid_body_def sid_ok_def)

lemma sid_body_idem [simp]: "sid_body (sid_body s) = sid_body s"
  using sid_size_body [of s] by (simp add: sid_body_def del: sid_size_body)

subsection \<open>The length and validity functions\<close>

lemma RtlLengthSid_eq: "2 \<le> length s \<Longrightarrow> RtlLengthSid (Some s) = Some (8 + 4 * ucast (s ! 1))"
  by (simp add: RtlLengthSid_def rd8_ok)

lemma RtlLengthSid_size: "2 \<le> length s \<Longrightarrow> \<exists>n. RtlLengthSid (Some s) = Some n \<and> unat n = sid_size s"
  by (simp add: RtlLengthSid_eq sid_size_def)

lemma RtlLengthSid_ok: "sid_ok s \<Longrightarrow> \<exists>n. RtlLengthSid (Some s) = Some n \<and> unat n = sid_size s"
  by (simp add: RtlLengthSid_size sid_ok_def)

lemma RtlValidSid_eq:
  "2 \<le> length s \<Longrightarrow>
     RtlValidSid (Some s) = Some (s ! 0 = SID_REVISION \<and> s ! 1 \<le> SID_MAX_SUB_AUTHORITIES)"
  by (cases s; cases "tl s") (auto simp: RtlValidSid_def rd8_def not_less)

lemma RtlValidSid_ok: "sid_ok s \<Longrightarrow> RtlValidSid (Some s) = Some True"
  by (auto simp: sid_ok_def RtlValidSid_eq)

lemma RtlValidSid_True_iff:
  "sid_size s \<le> length s \<Longrightarrow> RtlValidSid (Some s) = Some True \<longleftrightarrow> sid_ok s"
  using sid_size_ge [of s] by (auto simp: sid_ok_def RtlValidSid_eq simp del: sid_size_ge)

lemma RtlLengthSidBounded_eq:
  assumes "unat avail \<le> length s"
  shows "RtlLengthSidBounded (Some s) avail =
    Some (if sid_ok (take (unat avail) s) then 8 + 4 * ucast (s ! 1) else 0)"
proof (cases "avail < 8")
  case True
  then have "unat avail < 8" by (simp add: word_less_nat_alt)
  then have "\<not> sid_ok (take (unat avail) s)" by (simp add: sid_ok_def)
  with True show ?thesis by (simp add: RtlLengthSidBounded_def)
next
  case False
  then have av: "8 \<le> unat avail" by (simp add: word_less_nat_alt)
  have sz: "8 + 4 * ucast (s ! 1) > avail \<longleftrightarrow> sid_size s > unat avail"
    by (simp add: word_less_nat_alt sid_size_def)
  have c: "(ucast (s ! 1) :: u32) > ucast SID_MAX_SUB_AUTHORITIES \<longleftrightarrow>
      \<not> s ! 1 \<le> SID_MAX_SUB_AUTHORITIES"
    by (simp add: word_less_nat_alt word_le_nat_alt SID_MAX_SUB_AUTHORITIES_def not_le)
  have "sid_ok (take (unat avail) s) \<longleftrightarrow>
      s ! 0 = SID_REVISION \<and> s ! 1 \<le> SID_MAX_SUB_AUTHORITIES \<and> sid_size s \<le> unat avail"
    using av assms by (auto simp: sid_ok_take_iff) (auto simp: sid_ok_def)
  moreover have "rd8 s 0 = Some (s ! 0)" and "rd8 s 1 = Some (s ! 1)"
    using av assms by (auto intro!: rd8_ok)
  ultimately show ?thesis
    using False sz c by (auto simp: RtlLengthSidBounded_def Let_def not_less)
qed

lemma RtlLengthSidBounded_nonzero:
  assumes "unat avail \<le> length s" and "RtlLengthSidBounded (Some s) avail = Some n" and "n \<noteq> 0"
  shows "sid_ok s" and "unat n = sid_size s" and "sid_size s \<le> unat avail"
  using assms by (auto simp: RtlLengthSidBounded_eq sid_ok_take_iff sid_size_def split: if_splits)

subsection \<open>Comparison and copy\<close>

lemma RtlEqualSid_eq:
  assumes "sid_size a \<le> length a" and "sid_size b \<le> length b"
  shows "RtlEqualSid (Some a) (Some b) = Some (sid_ok a \<and> sid_ok b \<and> sid_body a = sid_body b)"
proof -
  have la: "8 \<le> length a" and lb: "8 \<le> length b"
    using assms sid_size_ge [of a] sid_size_ge [of b] by linarith+
  have body: "sid_body a = sid_body b \<longleftrightarrow>
      sid_size a = sid_size b \<and> take (sid_size a) a = take (sid_size a) b"
    using assms by (auto simp: sid_body_def) (metis length_take min.absorb2)+
  have va: "RtlValidSid (Some a) = Some (sid_ok a)" and vb: "RtlValidSid (Some b) = Some (sid_ok b)"
    using assms la lb by (auto simp: RtlValidSid_eq sid_ok_def)
  obtain na nb where "RtlLengthSid (Some a) = Some na" "unat na = sid_size a"
      "RtlLengthSid (Some b) = Some nb" "unat nb = sid_size b"
    using RtlLengthSid_size [of a] RtlLengthSid_size [of b] la lb by auto
  then show ?thesis
    using assms by (auto simp: RtlEqualSid_def va vb word_unat_eq_iff c_memeq_def body)
qed

lemma RtlCopySid_eq:
  assumes "sid_ok s" and "unat n \<le> length b"
  shows "RtlCopySid (Some b) n (Some s) =
    Some (if unat n < sid_size s then (-1, Some b)
          else (0, Some (sid_body s @ drop (sid_size s) b)))"
proof -
  have l: "8 \<le> length s" "sid_size s \<le> length s"
    using assms(1) by (auto simp: sid_ok_def)
  have "n < 8 + 4 * ucast (s ! 1) \<longleftrightarrow> unat n < sid_size s"
    by (simp add: word_less_nat_alt sid_size_def)
  moreover have "rd_bytes s 0 (unat (8 + 4 * ucast (s ! 1) :: u32)) = Some (sid_body s)"
    using l by (simp add: rd_bytes_Some_iff sid_body_def sid_size_def)
  moreover have "sid_size s \<le> unat n \<Longrightarrow>
      wr_bytes b 0 (sid_body s) = Some (sid_body s @ drop (sid_size s) b)"
    using assms length_sid_body [OF assms(1)] by (simp add: wr_bytes_0)
  ultimately show ?thesis
    using l by (simp add: RtlCopySid_def RtlValidSid_ok [OF assms(1)] RtlLengthSid_eq del: unat_length_word)
qed

subsection \<open>Initialisation\<close>

lemma enc32_0: "enc32 0 = replicate 4 0"
  by (simp add: enc32_def numeral_eq_Suc)

lemma init_authority_loop:
  assumes "6 \<le> length a" and "length pre = 2" and "6 \<le> length ys"
  shows "for_upto 0 6 (\<lambda>i m. do { c \<leftarrow> rd8 a i; wr8 m (2 + i) c }) (pre @ ys) =
    Some (pre @ take 6 a @ drop 6 ys)"
proof -
  have "\<exists>t. for_upto 0 6 (\<lambda>i m. do { c \<leftarrow> rd8 a i; wr8 m (2 + i) c }) (pre @ ys) = Some t
      \<and> t = pre @ take 6 a @ drop 6 ys"
  proof (rule for_upto_inv [where P = "\<lambda>k t. t = pre @ take k a @ drop k ys"])
    fix k t assume k: "k < 6" and t: "t = pre @ take k a @ drop k ys"
    have "wr8 ((pre @ take k a) @ drop k ys) (2 + k) (a ! k) =
        Some ((pre @ take k a) @ a ! k # drop 1 (drop k ys))"
      using assms k by (intro wr8_at) auto
    then show "\<exists>t'. do { c \<leftarrow> rd8 a k; wr8 t (2 + k) c } = Some t' \<and>
        t' = pre @ take (Suc k) a @ drop (Suc k) ys"
      using assms k t by (simp add: rd8_ok take_Suc_conv_app_nth)
  qed simp_all
  then show ?thesis by simp
qed

lemma write_words_loop:
  assumes "length pre = base" and "4 * n \<le> length ys"
  shows "for_upto 0 n (\<lambda>i m. wr32 m (base + 4 * i) (f i)) (pre @ ys) =
    Some (pre @ concat (map (\<lambda>i. enc32 (f i)) [0..<n]) @ drop (4 * n) ys)"
proof -
  let ?c = "\<lambda>k. concat (map (\<lambda>i. enc32 (f i)) [0..<k])"
  have lc: "length (?c k) = 4 * k" for k by (induction k) auto
  have "\<exists>t. for_upto 0 n (\<lambda>i m. wr32 m (base + 4 * i) (f i)) (pre @ ys) = Some t
      \<and> t = pre @ ?c n @ drop (4 * n) ys"
  proof (rule for_upto_inv [where P = "\<lambda>k t. t = pre @ ?c k @ drop (4 * k) ys"])
    fix k t assume k: "k < n" and t: "t = pre @ ?c k @ drop (4 * k) ys"
    have "wr32 ((pre @ ?c k) @ drop (4 * k) ys) (base + 4 * k) (f k) =
        Some ((pre @ ?c k) @ enc32 (f k) @ drop 4 (drop (4 * k) ys))"
      using assms k lc by (intro wr32_at) auto
    then show "\<exists>t'. wr32 t (base + 4 * k) (f k) = Some t' \<and>
        t' = pre @ ?c (Suc k) @ drop (4 * Suc k) ys"
      using t by (simp add: add.commute)
  qed simp_all
  then show ?thesis by simp
qed

lemma RtlInitializeSid_eq:
  assumes "6 \<le> length a" and "c \<le> SID_MAX_SUB_AUTHORITIES" and "8 + 4 * unat c \<le> length m"
  shows "RtlInitializeSid (Some m) (Some a) c =
    Some (Some ([SID_REVISION, c] @ take 6 a @ concat (replicate (unat c) (enc32 0)) @
                drop (8 + 4 * unat c) m))"
proof -
  obtain x y ys where m: "m = x # y # ys" and ys: "6 + 4 * unat c \<le> length ys"
    using assms(3) by (cases m; cases "tl m") auto
  have w: "wr8 m 0 SID_REVISION = Some (SID_REVISION # y # ys)"
      "wr8 (SID_REVISION # y # ys) 1 c = Some ([SID_REVISION, c] @ ys)"
    by (simp_all add: m wr8_def wr_bytes_def)
  have r: "concat (map (\<lambda>i. enc32 0) [0..<k]) = concat (replicate k (enc32 0))" for k
    by (simp add: map_replicate_const)
  have "for_upto 0 (unat c) (\<lambda>i m. wr32 m (8 + 4 * i) 0)
      (([SID_REVISION, c] @ take 6 a) @ drop 6 ys) =
      Some (([SID_REVISION, c] @ take 6 a) @ concat (replicate (unat c) (enc32 0)) @
        drop (4 * unat c) (drop 6 ys))"
    using write_words_loop [of "[SID_REVISION, c] @ take 6 a" 8 "unat c" "drop 6 ys" "\<lambda>_. 0"] assms ys
    by (simp add: r)
  moreover have "drop (4 * unat c) (drop 6 ys) = drop (8 + 4 * unat c) m"
    by (simp add: m add.commute [of _ 6] drop_Cons')
  moreover have "(if c > SID_MAX_SUB_AUTHORITIES then SID_MAX_SUB_AUTHORITIES else c) = c"
    using assms(2) by auto
  ultimately show ?thesis
    using init_authority_loop [of a "[SID_REVISION, c]" ys] assms ys w
    by (simp add: RtlInitializeSid_def)
qed

subsection \<open>The text form\<close>

definition be_val :: "bytes \<Rightarrow> nat" where
  "be_val bs = foldl (\<lambda>a b. a * 256 + unat b) 0 bs"

definition sid_authority_val :: "bytes \<Rightarrow> nat" where
  "sid_authority_val s = be_val (take 6 (drop 2 s))"

definition sub_authority :: "bytes \<Rightarrow> nat \<Rightarrow> u32" where
  "sub_authority s i = dec32 (s ! (8 + 4 * i)) (s ! (9 + 4 * i)) (s ! (10 + 4 * i)) (s ! (11 + 4 * i))"

definition sub_text :: "bytes \<Rightarrow> nat \<Rightarrow> string" where
  "sub_text s i = ''-'' @ fmt_u (unat (sub_authority s i))"

text \<open>The \<open>S-R-A-S1-S2-...\<close> form of a SID.\<close>

definition sid_head_text :: "bytes \<Rightarrow> string" where
  "sid_head_text s =
     ''S-'' @ fmt_u (unat (s ! 0)) @
     (if sid_authority_val s > 0xFFFFFFFF then ''-0x'' @ fmt_x (sid_authority_val s)
      else ''-'' @ fmt_u (sid_authority_val s))"

definition sid_text :: "bytes \<Rightarrow> string" where
  "sid_text s = sid_head_text s @ concat (map (sub_text s) [0..<unat (s ! 1)])"

lemma be_val_snoc: "be_val (bs @ [b]) = be_val bs * 256 + unat b"
  by (simp add: be_val_def)

lemma be_val_less: "be_val bs < 256 ^ length bs"
proof (induction bs rule: rev_induct)
  case Nil
  then show ?case by (simp add: be_val_def)
next
  case (snoc b bs)
  then show ?case using unat_u8_less [of b] by (simp add: be_val_snoc)
qed

lemma unat_shift_in:
  assumes "unat (a :: u64) < 2 ^ 48"
  shows "unat (push_bit 8 a OR ucast (b :: u8)) = unat a * 256 + unat b"
proof -
  have "push_bit 8 a AND ucast b = 0"
    by (rule bit_word_eqI) (auto simp: bit_simps dest: bit_imp_le_length)
  then have "push_bit 8 a OR ucast b = push_bit 8 a + ucast b"
    by (simp add: disjunctive_add_eq_or)
  moreover have "unat (push_bit 8 a) = unat a * 256"
    using assms by (simp add: push_bit_eq_mult unat_word_ariths)
  moreover have "unat (ucast b :: u64) = unat b"
    using unat_u8_less [of b] by (simp add: unsigned_ucast_eq take_bit_nat_eq_self)
  ultimately show ?thesis
    using assms unat_u8_less [of b] by (simp add: unat_word_ariths)
qed

lemma sid_authority_eq:
  assumes "8 \<le> length s"
  shows "\<exists>a. sid_authority s = Some a \<and> unat a = sid_authority_val s"
proof -
  let ?bs = "take 6 (drop 2 s)"
  have "\<exists>a. sid_authority s = Some a \<and> unat a = be_val (take 6 ?bs)"
    unfolding sid_authority_def
  proof (rule for_upto_inv [where P = "\<lambda>k a. unat a = be_val (take k ?bs)"])
    fix k and t :: u64 assume k: "k < 6" and t: "unat t = be_val (take k ?bs)"
    have l: "length (take k ?bs) = k" using assms k by simp
    then have "be_val (take k ?bs) < 256 ^ k" using be_val_less [of "take k ?bs"] by simp
    also have "(256::nat) ^ k \<le> 256 ^ 5" using k by (intro power_increasing) auto
    finally have "unat t < 2 ^ 48" using t by simp
    moreover have "take (Suc k) ?bs = take k ?bs @ [s ! (2 + k)]"
      using assms k by (simp add: take_Suc_conv_app_nth)
    ultimately show "\<exists>t'. do { b \<leftarrow> rd8 s (2 + k); Some (push_bit 8 t OR ucast b) } = Some t' \<and>
        unat t' = be_val (take (Suc k) ?bs)"
      using assms k t by (simp add: rd8_ok unat_shift_in be_val_snoc)
  qed (simp_all add: be_val_def)
  then show ?thesis by (simp add: sid_authority_val_def)
qed

lemma length_sub_text: "length (sub_text s i) \<le> 11"
proof -
  have "unat (sub_authority s i) < 10 ^ 10"
    using unat_u32_less [of "sub_authority s i"] by simp
  then have "length (fmt_u (unat (sub_authority s i))) \<le> 10"
    by (intro length_fmt_unsigned) auto
  then show ?thesis by (simp add: sub_text_def)
qed

lemma length_sid_head_text: "8 \<le> length s \<Longrightarrow> length (sid_head_text s) \<le> 30"
proof -
  assume l: "8 \<le> length s"
  have r: "length (fmt_u (unat (s ! 0))) \<le> 3"
    using unat_u8_less [of "s ! 0"] by (intro length_fmt_unsigned) auto
  have "sid_authority_val s < 256 ^ 6"
    using be_val_less [of "take 6 (drop 2 s)"] l by (simp add: sid_authority_val_def)
  then have x: "length (fmt_x (sid_authority_val s)) \<le> 12"
    by (intro length_fmt_unsigned) auto
  have "sid_authority_val s \<le> 0xFFFFFFFF \<Longrightarrow> length (fmt_u (sid_authority_val s)) \<le> 10"
    by (intro length_fmt_unsigned) auto
  with r x show ?thesis by (auto simp: sid_head_text_def)
qed

lemma c_snprintf_store:
  assumes "take (length pre) b = pre" and "length pre < sz" and "sz \<le> length b"
    and "length pre + length text < sz"
  shows "\<exists>b'. c_snprintf b (length pre) (sz - length pre) text = Some (b', length text) \<and>
    length b' = length b \<and> take (length pre + length text + 1) b' = pre @ text @ [CHR 0x00]"
  using assms
  by (auto simp: c_snprintf_def Let_def min_def)

lemma c_snprintf_total:
  assumes "pos + sz \<le> length b"
  shows "\<exists>b'. c_snprintf b pos sz text = Some (b', length text) \<and> length b' = length b"
  using assms by (cases sz) (auto simp: c_snprintf_def Let_def min_def)

lemma rd32_sub_authority: "12 + 4 * i \<le> length s \<Longrightarrow> rd32 s (8 + 4 * i) = Some (sub_authority s i)"
  by (simp add: rd32_def sub_authority_def add.assoc add.commute [of "4 * i"])

lemma sid_string_loop_eq:
  assumes "12 + 4 * (i + n) \<le> length s + 4" and "take (length pre) b = pre"
    and "length pre < unat sz" and "unat sz \<le> length b" and "length pre + 11 * n < 2 ^ 32"
    and "take (length pre + 1) b = pre @ [CHR 0x00]"
    and "rest = concat (map (sub_text s) [i..<i + n])"
  shows "\<exists>b'. sid_string_loop n i s sz b (of_nat (length pre)) =
      Some (if length pre + length rest < unat sz then int (length pre + length rest) else -1, Some b') \<and>
    (length pre + length rest < unat sz \<longrightarrow>
      take (length pre + length rest + 1) b' = pre @ rest @ [CHR 0x00])"
  using assms
proof (induction n arbitrary: i pre b rest)
  case 0
  then show ?case by (simp add: unat_of_nat_u32)
next
  case (Suc n)
  let ?pos = "of_nat (length pre) :: u32" and ?t = "sub_text s i"
  define r where "r = concat (map (sub_text s) [Suc i..<Suc i + n])"
  have st: "CHR ''-'' # fmt_u (unat (sub_authority s i)) = ?t"
    by (simp add: sub_text_def)
  have "[i..<i + Suc n] = i # [Suc i..<Suc i + n]"
    by (simp add: upt_conv_Cons del: upt_Suc)
  then have rest: "rest = ?t @ r"
    using Suc.prems(7) by (simp only: list.map concat.simps r_def)
  have pos: "unat ?pos = length pre" and le: "length ?t \<le> 11"
    using Suc.prems(3,5) by (auto simp: unat_of_nat_u32 length_sub_text)
  then have sub: "unat (sz - ?pos) = unat sz - length pre"
    using Suc.prems(3) by (simp add: unat_sub_if')
  have add: "unat (?pos + of_nat (length ?t)) = length pre + length ?t"
    using pos le Suc.prems(5) by (simp add: unat_word_ariths unat_of_nat_u32)
  have rd: "rd32 s (8 + 4 * i) = Some (sub_authority s i)"
    using Suc.prems(1) by (intro rd32_sub_authority) simp
  show ?case
  proof (cases "length pre + length ?t < unat sz")
    case True
    obtain b' where b': "c_snprintf b (length pre) (unat sz - length pre) ?t = Some (b', length ?t)"
        "length b' = length b" "take (length pre + length ?t + 1) b' = pre @ ?t @ [CHR 0x00]"
      using c_snprintf_store [OF Suc.prems(2,3,4) True] by blast
    let ?pre = "pre @ ?t"
    have tk: "take (length ?pre) b' = ?pre"
      using arg_cong [OF b'(3), of "take (length ?pre)"] by (simp add: min_def)
    have "\<exists>b''. sid_string_loop n (Suc i) s sz b' (of_nat (length ?pre)) =
        Some (if length ?pre + length r < unat sz then int (length ?pre + length r) else -1, Some b'') \<and>
      (length ?pre + length r < unat sz \<longrightarrow>
        take (length ?pre + length r + 1) b'' = ?pre @ r @ [CHR 0x00])"
      using Suc.prems(1,4,5) True le b' tk by (intro Suc.IH) (auto simp: r_def)
    moreover have "\<not> ?pos + of_nat (length ?t) \<ge> sz"
      using True add by (simp add: word_le_nat_alt)
    ultimately show ?thesis
      using rd b' sub pos rest by (auto simp: st add.assoc)
  next
    case False
    obtain b' where "c_snprintf b (length pre) (unat sz - length pre) ?t = Some (b', length ?t)"
      using c_snprintf_total [of "length pre" "unat sz - length pre" b ?t] Suc.prems(3,4) by auto
    moreover have "?pos + of_nat (length ?t) \<ge> sz"
      using False add by (simp add: word_le_nat_alt)
    ultimately show ?thesis
      using rd sub pos rest False by (simp add: st)
  qed
qed

subsection \<open>Service SIDs\<close>

lemma length_fnv1a_hash_name [simp]: "length (fnv1a_hash_name name) = 5"
  by (simp add: fnv1a_hash_name_def Let_def)

lemma RtlCreateServiceSid_eq:
  assumes "32 \<le> unat len" and "32 \<le> length m"
  shows "RtlCreateServiceSid (Some name) (Some m) (Some len) =
    Some (0, Some (mk_sid SECURITY_NT_AUTHORITY (80 # fnv1a_hash_name name) @ drop 32 m), Some 32)"
proof -
  let ?h = "fnv1a_hash_name name" and ?a = "SECURITY_NT_AUTHORITY"
  let ?z = "concat (replicate 5 (enc32 0)) @ drop 32 m"
  have r6: "concat (replicate 6 (enc32 0)) = enc32 0 @ concat (replicate 5 (enc32 0))"
    by (simp add: numeral_eq_Suc)
  have r5: "length (concat (replicate 5 (enc32 0))) = 20"
    by (simp add: length_concat sum_list_replicate)
  have i: "RtlInitializeSid (Some m) (Some ?a) 6 = Some (Some (([SID_REVISION, 6] @ ?a) @ enc32 0 @ ?z))"
    using RtlInitializeSid_eq [of ?a 6 m] assms
    by (simp add: SECURITY_NT_AUTHORITY_def SID_MAX_SUB_AUTHORITIES_def r6)
  have w: "wr32 (([SID_REVISION, 6] @ ?a) @ enc32 0 @ ?z) 8 80 = Some ((([SID_REVISION, 6] @ ?a) @ enc32 80) @ ?z)"
    by (subst wr32_at) (simp_all add: SECURITY_NT_AUTHORITY_def)
  have f: "(\<lambda>i m. wr32 m (8 + 4 * (i + 1)) (?h ! i)) = (\<lambda>i m. wr32 m (12 + 4 * i) (?h ! i))"
    by simp
  have hs: "map (\<lambda>i. enc32 (?h ! i)) [0..<5] = map enc32 ?h"
    by (rule nth_equalityI) auto
  have l: "for_upto 0 5 (\<lambda>i m. wr32 m (12 + 4 * i) (?h ! i)) ((([SID_REVISION, 6] @ ?a) @ enc32 80) @ ?z) =
      Some ((([SID_REVISION, 6] @ ?a) @ enc32 80) @ concat (map enc32 ?h) @ drop 32 m)"
    by (subst write_words_loop) (simp_all add: SECURITY_NT_AUTHORITY_def hs r5)
  have "\<not> len < 32" using assms by (simp add: word_less_nat_alt)
  then show ?thesis
    using i w l unfolding RtlCreateServiceSid_def f
    by (simp add: mk_sid_def)
qed

section \<open>Properties\<close>

text \<open>
  \<open>RtlLengthSidBounded\<close> is safe on untrusted bytes. Whatever the buffer holds, as long as the
  \<open>avail\<close> bytes the caller vouches for are readable, the function reads nothing else; it returns
  0 exactly when those bytes do not start with a well-formed SID, and otherwise the length of
  that SID, which lies between 8 and 68 and never exceeds \<open>avail\<close>.
\<close>

theorem RtlLengthSidBounded_safe:
  assumes "unat avail \<le> length s"
  shows "\<exists>n. RtlLengthSidBounded (Some s) avail = Some n \<and>
    (n = 0 \<longleftrightarrow> \<not> sid_ok (take (unat avail) s)) \<and>
    (n \<noteq> 0 \<longrightarrow> unat n = sid_size s \<and> 8 \<le> unat n \<and> unat n \<le> 68 \<and> unat n \<le> unat avail)"
proof -
  have "(8 + 4 * ucast (s ! 1) :: u32) \<noteq> 0"
    by (simp add: word_unat_eq_iff)
  then show ?thesis
    using assms sid_ok_size_le [of s]
    by (auto simp: RtlLengthSidBounded_eq sid_ok_take_iff sid_size_def simp del: One_nat_def)
qed

theorem RtlLengthSidBounded_safe_witness:
  "\<exists>n. RtlLengthSidBounded (Some (SeLocalSystemSid @ [9, 9])) 12 = Some n \<and>
    (n = 0 \<longleftrightarrow> \<not> sid_ok (take (unat (12 :: u32)) (SeLocalSystemSid @ [9, 9]))) \<and>
    (n \<noteq> 0 \<longrightarrow> unat n = sid_size (SeLocalSystemSid @ [9, 9]) \<and> 8 \<le> unat n \<and> unat n \<le> 68 \<and>
      unat n \<le> unat (12 :: u32))"
  by (rule RtlLengthSidBounded_safe) (simp add: SeLocalSystemSid_def mk_sid_def)

text \<open>
  \<open>RtlEqualSid\<close> decides equality of SIDs: on two SIDs whose declared extents are readable it
  reads within those extents and answers true exactly when both are well formed and their bytes
  agree; what follows a SID in memory plays no part.
\<close>

theorem RtlEqualSid_correct:
  assumes "sid_size a \<le> length a" and "sid_size b \<le> length b"
  shows "RtlEqualSid (Some a) (Some b) = Some (sid_ok a \<and> sid_ok b \<and> sid_body a = sid_body b)"
  using assms by (rule RtlEqualSid_eq)

theorem RtlEqualSid_correct_witness:
  "RtlEqualSid (Some SeWorldSid) (Some (SeWorldSid @ [7])) =
    Some (sid_ok SeWorldSid \<and> sid_ok (SeWorldSid @ [7]) \<and> sid_body SeWorldSid = sid_body (SeWorldSid @ [7]))
   \<and> sid_ok SeWorldSid \<and> sid_body SeWorldSid = sid_body (SeWorldSid @ [7])"
proof -
  have l: "sid_size SeWorldSid \<le> length SeWorldSid" by code_simp
  have l': "sid_size (SeWorldSid @ [7]) \<le> length (SeWorldSid @ [7])" by code_simp
  have "sid_ok SeWorldSid \<and> sid_body SeWorldSid = sid_body (SeWorldSid @ [7])" by code_simp
  then show ?thesis using RtlEqualSid_correct [OF l l'] by simp
qed

text \<open>
  \<open>RtlConvertSidToString\<close> prints the \<open>S-R-A-S1-...\<close> form. For a well-formed SID and a buffer of
  at least 8 bytes it never writes outside the buffer; if the text with its NUL fits, it returns
  the length of the text and leaves exactly the text and a NUL at the start of the buffer;
  otherwise it returns -1.
\<close>

theorem RtlConvertSidToString_correct:
  assumes "sid_ok s" and "8 \<le> unat sz" and "unat sz \<le> length b"
  shows "\<exists>b'. RtlConvertSidToString (Some b) sz (Some s) =
      Some (if length (sid_text s) < unat sz then int (length (sid_text s)) else -1, Some b') \<and>
    (length (sid_text s) < unat sz \<longrightarrow> take (length (sid_text s) + 1) b' = sid_text s @ [CHR 0x00])"
proof -
  have l: "8 \<le> length s" and sz8: "\<not> sz < 8" and size: "sid_size s \<le> length s"
    using assms by (auto simp: sid_ok_def word_less_nat_alt)
  obtain a where a: "sid_authority s = Some a" "unat a = sid_authority_val s"
    using sid_authority_eq [OF l] by blast
  have gt: "a > 0xFFFFFFFF \<longleftrightarrow> sid_authority_val s > 0xFFFFFFFF"
    by (simp add: word_less_nat_alt a(2))
  have lo: "sid_authority_val s \<le> 0xFFFFFFFF \<Longrightarrow> unat (ucast a :: u32) = sid_authority_val s"
    using a(2) by (simp add: unsigned_ucast_eq take_bit_nat_eq_self)
  let ?h = "sid_head_text s"
  let ?rest = "concat (map (sub_text s) [0..<unat (s ! 1)])"
  have head: "(if a > 0xFFFFFFFF then ''S-'' @ fmt_u (unat (s ! 0)) @ ''-0x'' @ fmt_x (unat a)
      else ''S-'' @ fmt_u (unat (s ! 0)) @ ''-'' @ fmt_u (unat (ucast a :: u32))) = ?h"
    using gt lo a(2) by (auto simp: sid_head_text_def)
  have hl: "length ?h \<le> 30" by (rule length_sid_head_text [OF l])
  have nh: "unat (of_nat (length ?h) :: u32) = length ?h"
    using hl by (simp add: unat_of_nat_u32)
  have rd: "rd8 s 0 = Some (s ! 0)" "rd8 s 1 = Some (s ! 1)"
    using l by (auto intro!: rd8_ok)
  have nsub: "unat (s ! 1) \<le> 15"
    using assms(1) by (simp add: sid_ok_def SID_MAX_SUB_AUTHORITIES_def word_le_nat_alt)
  note unf = RtlConvertSidToString_def RtlValidSid_ok [OF assms(1)] a(1) rd head sz8 Let_def
  show ?thesis
  proof (cases "length ?h < unat sz")
    case True
    obtain b1 where b1: "c_snprintf b 0 (unat sz) ?h = Some (b1, length ?h)" "length b1 = length b"
        "take (length ?h + 1) b1 = ?h @ [CHR 0x00]"
      using c_snprintf_store [of "[]" b "unat sz" ?h] assms True by auto
    have tk: "take (length ?h) b1 = ?h"
      using arg_cong [OF b1(3), of "take (length ?h)"] by (simp add: min_def)
    obtain b2 where "sid_string_loop (unat (s ! 1)) 0 s sz b1 (of_nat (length ?h)) =
        Some (if length ?h + length ?rest < unat sz then int (length ?h + length ?rest) else -1, Some b2)"
        "length ?h + length ?rest < unat sz \<longrightarrow>
          take (length ?h + length ?rest + 1) b2 = ?h @ ?rest @ [CHR 0x00]"
      using sid_string_loop_eq [of 0 "unat (s ! 1)" s ?h b1 sz ?rest] tk True assms(3) b1 hl nsub size
      by (auto simp: sid_size_def)
    moreover have "\<not> (of_nat (length ?h) :: u32) \<ge> sz"
      using True nh by (simp add: word_le_nat_alt)
    ultimately show ?thesis
      using b1(1) by (simp add: unf sid_text_def del: One_nat_def)
  next
    case False
    obtain b1 where "c_snprintf b 0 (unat sz) ?h = Some (b1, length ?h)"
      using c_snprintf_total [of 0 "unat sz" b ?h] assms by auto
    moreover have "(of_nat (length ?h) :: u32) \<ge> sz"
      using False nh by (simp add: word_le_nat_alt)
    ultimately show ?thesis
      using False by (simp add: unf sid_text_def del: One_nat_def)
  qed
qed

theorem RtlConvertSidToString_correct_witness:
  "\<exists>b'. RtlConvertSidToString (Some (replicate 40 CHR 0x00)) 40 (Some SeBuiltinAdministratorsSid) =
      Some (if length (sid_text SeBuiltinAdministratorsSid) < unat (40 :: u32)
            then int (length (sid_text SeBuiltinAdministratorsSid)) else -1, Some b') \<and>
    (length (sid_text SeBuiltinAdministratorsSid) < unat (40 :: u32) \<longrightarrow>
      take (length (sid_text SeBuiltinAdministratorsSid) + 1) b' =
        sid_text SeBuiltinAdministratorsSid @ [CHR 0x00])"
  by (rule RtlConvertSidToString_correct) (code_simp, simp, simp)

end
