(* ===== verification/Sec_Acl.thy ===== *)
theory Sec_Acl
  imports Sec_Sid
begin

text \<open>
  \<open>src/kernel/security/acl.c\<close>: security descriptors, access control lists and access control
  entries. An ACL is the bytes of its buffer: an 8-byte header (\<open>AclRevision\<close> at 0, \<open>AclSize\<close>
  at 2, \<open>AceCount\<close> at 4) and the ACEs one after the other, each with \<open>AceType\<close> at 0,
  \<open>AceFlags\<close> at 1, \<open>AceSize\<close> at 2, the mask at 4 and the SID at 8. A pointer to an ACE is the
  byte offset of the ACE in its ACL.
\<close>

section \<open>Constants\<close>

definition SE_OWNER_DEFAULTED :: u16 where "SE_OWNER_DEFAULTED = 0x0001"
definition SE_GROUP_DEFAULTED :: u16 where "SE_GROUP_DEFAULTED = 0x0002"
definition SE_DACL_PRESENT :: u16 where "SE_DACL_PRESENT = 0x0004"
definition SE_DACL_DEFAULTED :: u16 where "SE_DACL_DEFAULTED = 0x0008"
definition SE_SACL_PRESENT :: u16 where "SE_SACL_PRESENT = 0x0010"
definition SE_SACL_DEFAULTED :: u16 where "SE_SACL_DEFAULTED = 0x0020"
definition SE_DACL_AUTO_INHERITED :: u16 where "SE_DACL_AUTO_INHERITED = 0x0400"
definition SE_DACL_PROTECTED :: u16 where "SE_DACL_PROTECTED = 0x1000"
definition SE_SELF_RELATIVE :: u16 where "SE_SELF_RELATIVE = 0x8000"

definition SECURITY_DESCRIPTOR_REVISION :: u8 where "SECURITY_DESCRIPTOR_REVISION = 1"
definition ACL_REVISION :: u8 where "ACL_REVISION = 2"
definition ACL_REVISION_DS :: u8 where "ACL_REVISION_DS = 4"

definition ACCESS_ALLOWED_ACE_TYPE :: u8 where "ACCESS_ALLOWED_ACE_TYPE = 0x00"
definition ACCESS_DENIED_ACE_TYPE :: u8 where "ACCESS_DENIED_ACE_TYPE = 0x01"
definition SYSTEM_AUDIT_ACE_TYPE :: u8 where "SYSTEM_AUDIT_ACE_TYPE = 0x02"
definition SYSTEM_ALARM_ACE_TYPE :: u8 where "SYSTEM_ALARM_ACE_TYPE = 0x03"
definition SYSTEM_MANDATORY_LABEL_ACE_TYPE :: u8 where "SYSTEM_MANDATORY_LABEL_ACE_TYPE = 0x11"
definition ACCESS_ALLOWED_CALLBACK_ACE_TYPE :: u8 where "ACCESS_ALLOWED_CALLBACK_ACE_TYPE = 0x09"
definition ACCESS_DENIED_CALLBACK_ACE_TYPE :: u8 where "ACCESS_DENIED_CALLBACK_ACE_TYPE = 0x0A"
definition SYSTEM_AUDIT_CALLBACK_ACE_TYPE :: u8 where "SYSTEM_AUDIT_CALLBACK_ACE_TYPE = 0x0D"
definition SYSTEM_ALARM_CALLBACK_ACE_TYPE :: u8 where "SYSTEM_ALARM_CALLBACK_ACE_TYPE = 0x0E"

lemmas ace_type_defs =
  ACCESS_ALLOWED_ACE_TYPE_def ACCESS_DENIED_ACE_TYPE_def SYSTEM_AUDIT_ACE_TYPE_def
  SYSTEM_ALARM_ACE_TYPE_def SYSTEM_MANDATORY_LABEL_ACE_TYPE_def
  ACCESS_ALLOWED_CALLBACK_ACE_TYPE_def ACCESS_DENIED_CALLBACK_ACE_TYPE_def
  SYSTEM_AUDIT_CALLBACK_ACE_TYPE_def SYSTEM_ALARM_CALLBACK_ACE_TYPE_def

section \<open>The absolute security descriptor\<close>

record SECURITY_DESCRIPTOR =
  sd_Revision :: u8
  sd_Sbz1 :: u8
  sd_Control :: u16
  sd_Owner :: "bytes option"
  sd_Group :: "bytes option"
  sd_Sacl :: "bytes option"
  sd_Dacl :: "bytes option"

definition RtlCreateSecurityDescriptor ::
  "SECURITY_DESCRIPTOR option \<Rightarrow> u8 \<Rightarrow> int \<times> SECURITY_DESCRIPTOR option" where
  "RtlCreateSecurityDescriptor sd r =
     (case sd of
        None \<Rightarrow> (-1, None)
      | Some _ \<Rightarrow> (0, Some \<lparr>sd_Revision = r, sd_Sbz1 = 0, sd_Control = 0,
                           sd_Owner = None, sd_Group = None, sd_Sacl = None, sd_Dacl = None\<rparr>))"

text \<open>\<open>Control |= flag\<close> or \<open>Control &= ~flag\<close>, as every setter ends.\<close>

definition sd_flag :: "bool \<Rightarrow> u16 \<Rightarrow> SECURITY_DESCRIPTOR \<Rightarrow> SECURITY_DESCRIPTOR" where
  "sd_flag on flag sd =
     sd\<lparr>sd_Control := (if on then sd_Control sd OR flag else sd_Control sd AND NOT flag)\<rparr>"

definition RtlSetOwnerSecurityDescriptor ::
  "SECURITY_DESCRIPTOR option \<Rightarrow> bytes option \<Rightarrow> bool \<Rightarrow> int \<times> SECURITY_DESCRIPTOR option" where
  "RtlSetOwnerSecurityDescriptor sd owner defaulted =
     (case sd of
        None \<Rightarrow> (-1, None)
      | Some d \<Rightarrow> (0, Some (sd_flag defaulted SE_OWNER_DEFAULTED (d\<lparr>sd_Owner := owner\<rparr>))))"

text \<open>The getters write through their non-null out-pointers; the result lists what they wrote.\<close>

definition RtlGetOwnerSecurityDescriptor ::
  "SECURITY_DESCRIPTOR option \<Rightarrow> bool \<Rightarrow> bool \<Rightarrow> int \<times> bytes option option \<times> bool option" where
  "RtlGetOwnerSecurityDescriptor sd owner_ptr defaulted_ptr =
     (case sd of
        Some d \<Rightarrow>
          if \<not> owner_ptr then (-1, None, None)
          else (0, Some (sd_Owner d),
                if defaulted_ptr then Some (sd_Control d AND SE_OWNER_DEFAULTED \<noteq> 0) else None)
      | None \<Rightarrow> (-1, None, None))"

definition RtlSetGroupSecurityDescriptor ::
  "SECURITY_DESCRIPTOR option \<Rightarrow> bytes option \<Rightarrow> bool \<Rightarrow> int \<times> SECURITY_DESCRIPTOR option" where
  "RtlSetGroupSecurityDescriptor sd grp defaulted =
     (case sd of
        None \<Rightarrow> (-1, None)
      | Some d \<Rightarrow> (0, Some (sd_flag defaulted SE_GROUP_DEFAULTED (d\<lparr>sd_Group := grp\<rparr>))))"

definition RtlSetDaclSecurityDescriptor ::
  "SECURITY_DESCRIPTOR option \<Rightarrow> bool \<Rightarrow> bytes option \<Rightarrow> bool \<Rightarrow> int \<times> SECURITY_DESCRIPTOR option" where
  "RtlSetDaclSecurityDescriptor sd present dacl defaulted =
     (case sd of
        None \<Rightarrow> (-1, None)
      | Some d \<Rightarrow>
          (let d = (sd_flag present SE_DACL_PRESENT d)\<lparr>sd_Dacl := (if present then dacl else None)\<rparr>
           in (0, Some (sd_flag defaulted SE_DACL_DEFAULTED d))))"

definition RtlGetDaclSecurityDescriptor ::
  "SECURITY_DESCRIPTOR option \<Rightarrow> bool \<Rightarrow> bool \<Rightarrow> bool \<Rightarrow>
   int \<times> bool option \<times> bytes option option \<times> bool option" where
  "RtlGetDaclSecurityDescriptor sd present_ptr dacl_ptr defaulted_ptr =
     (case sd of
        Some d \<Rightarrow>
          if \<not> present_ptr then (-1, None, None, None)
          else (0, Some (sd_Control d AND SE_DACL_PRESENT \<noteq> 0),
                if dacl_ptr then Some (sd_Dacl d) else None,
                if defaulted_ptr then Some (sd_Control d AND SE_DACL_DEFAULTED \<noteq> 0) else None)
      | None \<Rightarrow> (-1, None, None, None))"

definition RtlSetSaclSecurityDescriptor ::
  "SECURITY_DESCRIPTOR option \<Rightarrow> bool \<Rightarrow> bytes option \<Rightarrow> bool \<Rightarrow> int \<times> SECURITY_DESCRIPTOR option" where
  "RtlSetSaclSecurityDescriptor sd present sacl defaulted =
     (case sd of
        None \<Rightarrow> (-1, None)
      | Some d \<Rightarrow>
          (let d = (sd_flag present SE_SACL_PRESENT d)\<lparr>sd_Sacl := (if present then sacl else None)\<rparr>
           in (0, Some (sd_flag defaulted SE_SACL_DEFAULTED d))))"

section \<open>Bounded validation of an ACL\<close>

definition ace_is_sid_bearing :: "u8 \<Rightarrow> bool" where
  "ace_is_sid_bearing t \<longleftrightarrow>
     t = ACCESS_ALLOWED_ACE_TYPE \<or> t = ACCESS_DENIED_ACE_TYPE \<or> t = SYSTEM_AUDIT_ACE_TYPE \<or>
     t = SYSTEM_ALARM_ACE_TYPE \<or> t = SYSTEM_MANDATORY_LABEL_ACE_TYPE \<or>
     t = ACCESS_ALLOWED_CALLBACK_ACE_TYPE \<or> t = ACCESS_DENIED_CALLBACK_ACE_TYPE \<or>
     t = SYSTEM_AUDIT_CALLBACK_ACE_TYPE \<or> t = SYSTEM_ALARM_CALLBACK_ACE_TYPE"

text \<open>\<open>hdr\<close> is the memory from the ACE header on.\<close>

definition ace_body_valid :: "bytes \<Rightarrow> u32 \<Rightarrow> u32 option" where
  "ace_body_valid hdr remaining =
     (if remaining < 4 then Some 0
      else do {
        sz \<leftarrow> rd16 hdr 2;
        let ace_size = (ucast sz :: u32);
        if ace_size < 4 \<or> ace_size > remaining then Some 0
        else do {
          t \<leftarrow> rd8 hdr 0;
          if \<not> ace_is_sid_bearing t then Some 0
          else if ace_size < 8 then Some 0
          else do {
            len \<leftarrow> RtlLengthSidBounded (Some (drop 8 hdr)) (ace_size - 8);
            if len = 0 then Some 0 else Some ace_size } } })"

definition acl_header_valid :: "bytes option \<Rightarrow> u32 \<Rightarrow> u32 option" where
  "acl_header_valid acl avail =
     (case acl of
        None \<Rightarrow> Some 0
      | Some m \<Rightarrow>
          if avail < 8 then Some 0
          else do {
            r \<leftarrow> rd8 m 0;
            if r \<noteq> ACL_REVISION \<and> r \<noteq> ACL_REVISION_DS then Some 0
            else do {
              sz \<leftarrow> rd16 m 2;
              let acl_size = (ucast sz :: u32);
              if acl_size < 8 \<or> acl_size > avail then Some 0 else Some acl_size } })"

text \<open>
  The walk over the ACEs; \<open>n\<close> counts the ACEs left. \<open>p\<close> and \<open>cursor\<close> of the source advance
  together, so \<open>p\<close> is the memory at \<open>cursor\<close>. The value is the cursor behind the last ACE, or
  \<^term>\<open>None\<close> inside when an ACE is refused.
\<close>

primrec acl_walk :: "nat \<Rightarrow> bytes \<Rightarrow> u32 \<Rightarrow> u32 \<Rightarrow> u32 option option" where
  "acl_walk 0 m acl_size cursor = Some (Some cursor)"
| "acl_walk (Suc n) m acl_size cursor = do {
     ace_size \<leftarrow> ace_body_valid (drop (unat cursor) m) (acl_size - cursor);
     if ace_size = 0 then Some None
     else acl_walk n m acl_size (cursor + ace_size) }"

definition RtlValidAcl :: "bytes option \<Rightarrow> u32 \<Rightarrow> bool option" where
  "RtlValidAcl acl avail = do {
     acl_size \<leftarrow> acl_header_valid acl avail;
     if acl_size = 0 then Some False
     else (case acl of
             None \<Rightarrow> Some False
           | Some m \<Rightarrow> do {
               ace_count \<leftarrow> rd16 m 4;
               r \<leftarrow> acl_walk (unat ace_count) m acl_size 8;
               Some (r \<noteq> None) }) }"

text \<open>Result and the ACE offset written to \<open>*ace\<close>; \<open>ace_ptr\<close> says whether \<open>ace\<close> is non-null.\<close>

definition RtlGetAceEx :: "bytes option \<Rightarrow> u32 \<Rightarrow> bool \<Rightarrow> u32 \<Rightarrow> (int \<times> nat option) option" where
  "RtlGetAceEx acl index ace_ptr avail =
     (if \<not> ace_ptr then Some (-1, None)
      else do {
        acl_size \<leftarrow> acl_header_valid acl avail;
        if acl_size = 0 then Some (-1, None)
        else (case acl of
                None \<Rightarrow> Some (-1, None)
              | Some m \<Rightarrow> do {
                  ace_count \<leftarrow> rd16 m 4;
                  if index \<ge> ucast ace_count then Some (-1, None)
                  else do {
                    r \<leftarrow> acl_walk (unat index) m acl_size 8;
                    case r of
                      None \<Rightarrow> Some (-1, None)
                    | Some cursor \<Rightarrow> do {
                        v \<leftarrow> ace_body_valid (drop (unat cursor) m) (acl_size - cursor);
                        if v = 0 then Some (-1, None) else Some (0, Some (unat cursor)) } } }) })"

section \<open>Construction of an ACL\<close>

definition RtlCreateAcl :: "bytes option \<Rightarrow> u16 \<Rightarrow> u8 \<Rightarrow> (int \<times> bytes option) option" where
  "RtlCreateAcl acl sz r =
     (case acl of
        None \<Rightarrow> Some (-1, None)
      | Some m \<Rightarrow>
          if sz < 8 then Some (-1, acl)
          else do {
            m \<leftarrow> wr_bytes m 0 (replicate (unat sz) 0);
            m \<leftarrow> wr8 m 0 r;
            m \<leftarrow> wr16 m 2 sz;
            m \<leftarrow> wr16 m 4 0;
            Some (0, Some m) })"

text \<open>\<open>for (i = 0; i < n; i++) p += ((ACE_HEADER *)p)->AceSize;\<close> from the first ACE on.\<close>

definition ace_skip :: "bytes \<Rightarrow> nat \<Rightarrow> nat option" where
  "ace_skip m n = for_upto 0 n (\<lambda>_ p. do { sz \<leftarrow> rd16 m (p + 2); Some (p + unat sz) }) 8"

definition acl_append_ace ::
  "bytes option \<Rightarrow> u8 \<Rightarrow> u8 \<Rightarrow> u32 \<Rightarrow> bytes option \<Rightarrow> (int \<times> bytes option) option" where
  "acl_append_ace acl ace_type ace_flags amask sid =
     (case (acl, sid) of
        (Some m, Some s) \<Rightarrow> do {
          sid_len \<leftarrow> RtlLengthSid sid;
          let ace_size = 4 + 4 + sid_len;
          count \<leftarrow> rd16 m 4;
          p \<leftarrow> ace_skip m (unat count);
          acl_size \<leftarrow> rd16 m 2;
          let used = (of_nat p :: u32);
          let avail = ucast acl_size - used;
          if ace_size > avail then Some (-1, acl)
          else do {
            m \<leftarrow> wr8 m p ace_type;
            m \<leftarrow> wr8 m (p + 1) ace_flags;
            m \<leftarrow> wr16 m (p + 2) (ucast ace_size);
            m \<leftarrow> wr32 m (p + 4) amask;
            bs \<leftarrow> rd_bytes s 0 (unat sid_len);
            m \<leftarrow> wr_bytes m (p + 8) bs;
            c \<leftarrow> rd16 m 4;
            m \<leftarrow> wr16 m 4 (c + 1);
            Some (0, Some m) } }
      | _ \<Rightarrow> Some (-1, acl))"

definition RtlAddAccessAllowedAce ::
  "bytes option \<Rightarrow> u8 \<Rightarrow> u32 \<Rightarrow> bytes option \<Rightarrow> (int \<times> bytes option) option" where
  "RtlAddAccessAllowedAce acl r amask sid = acl_append_ace acl ACCESS_ALLOWED_ACE_TYPE 0 amask sid"

definition RtlAddAccessDeniedAce ::
  "bytes option \<Rightarrow> u8 \<Rightarrow> u32 \<Rightarrow> bytes option \<Rightarrow> (int \<times> bytes option) option" where
  "RtlAddAccessDeniedAce acl r amask sid = acl_append_ace acl ACCESS_DENIED_ACE_TYPE 0 amask sid"

definition RtlAddMandatoryAce ::
  "bytes option \<Rightarrow> u8 \<Rightarrow> u8 \<Rightarrow> u32 \<Rightarrow> u8 \<Rightarrow> bytes option \<Rightarrow> (int \<times> bytes option) option" where
  "RtlAddMandatoryAce acl r ace_flags amask t integrity_sid =
     acl_append_ace acl SYSTEM_MANDATORY_LABEL_ACE_TYPE ace_flags amask integrity_sid"

definition RtlGetAce :: "bytes option \<Rightarrow> u32 \<Rightarrow> bool \<Rightarrow> (int \<times> nat option) option" where
  "RtlGetAce acl index ace_ptr =
     (case acl of
        None \<Rightarrow> Some (-1, None)
      | Some m \<Rightarrow>
          if \<not> ace_ptr then Some (-1, None)
          else do {
            count \<leftarrow> rd16 m 4;
            if index \<ge> ucast count then Some (-1, None)
            else do { p \<leftarrow> ace_skip m (unat index); Some (0, Some p) } })"

section \<open>Self-relative descriptors\<close>

text \<open>
  \<open>SECURITY_DESCRIPTOR_RELATIVE\<close> is 20 bytes: \<open>Revision\<close> at 0, \<open>Control\<close> at 2, and the offsets
  of owner, group, SACL and DACL at 4, 8, 12 and 16.

  \<open>rel_put\<close> is one of the four blocks that place a component: the offset field is written and the
  component copied when it is non-null and not empty.
\<close>

definition rel_put :: "nat \<Rightarrow> bytes option \<Rightarrow> u32 \<Rightarrow> bytes \<times> u32 \<Rightarrow> (bytes \<times> u32) option" where
  "rel_put field cmpnt len st =
     (case st of (m, off) \<Rightarrow>
       (case cmpnt of
          Some c \<Rightarrow>
            if len \<noteq> 0 then do {
              m \<leftarrow> wr32 m field off;
              bs \<leftarrow> rd_bytes c 0 (unat len);
              m \<leftarrow> wr_bytes m (unat off) bs;
              Some (m, off + len) }
            else Some st
        | None \<Rightarrow> Some st))"

definition acl_size_or_0 :: "bytes option \<Rightarrow> u32 option" where
  "acl_size_or_0 acl =
     (case acl of None \<Rightarrow> Some 0 | Some m \<Rightarrow> do { sz \<leftarrow> rd16 m 2; Some (ucast sz) })"

text \<open>Result, output buffer and \<open>*rel_len\<close> afterwards.\<close>

definition RtlAbsoluteToSelfRelativeSD ::
  "SECURITY_DESCRIPTOR option \<Rightarrow> bytes option \<Rightarrow> u32 option \<Rightarrow>
   (int \<times> bytes option \<times> u32 option) option" where
  "RtlAbsoluteToSelfRelativeSD abs_sd rel_buf rel_len =
     (case (abs_sd, rel_len) of
        (Some sd, Some len) \<Rightarrow> do {
          owner_len \<leftarrow> RtlLengthSid (sd_Owner sd);
          group_len \<leftarrow> RtlLengthSid (sd_Group sd);
          sacl_len \<leftarrow> acl_size_or_0 (sd_Sacl sd);
          dacl_len \<leftarrow> acl_size_or_0 (sd_Dacl sd);
          let needed = 20 + owner_len + group_len + sacl_len + dacl_len;
          (case rel_buf of
             None \<Rightarrow> Some (-1, rel_buf, Some needed)
           | Some m \<Rightarrow>
               if len < needed then Some (-1, rel_buf, Some needed)
               else do {
                 m \<leftarrow> wr_bytes m 0 (replicate (unat needed) 0);
                 m \<leftarrow> wr8 m 0 (sd_Revision sd);
                 m \<leftarrow> wr16 m 2 (sd_Control sd OR SE_SELF_RELATIVE);
                 st \<leftarrow> rel_put 4 (sd_Owner sd) owner_len (m, 20);
                 st \<leftarrow> rel_put 8 (sd_Group sd) group_len st;
                 st \<leftarrow> rel_put 12 (sd_Sacl sd) sacl_len st;
                 st \<leftarrow> rel_put 16 (sd_Dacl sd) dacl_len st;
                 Some (0, Some (fst st), Some needed) }) }
      | _ \<Rightarrow> Some (-1, rel_buf, rel_len))"

definition sr_offset_avail :: "u32 \<Rightarrow> u32 \<Rightarrow> u32" where
  "sr_offset_avail off rel_len = (if off < 20 \<or> off \<ge> rel_len then 0 else rel_len - off)"

text \<open>
  One of the four copying blocks: validate the component at \<open>off\<close>, then append it to the workspace.
  \<open>complen\<close> is the bounded length of the component kind, 0 for a malformed one. The state is the
  workspace and the bytes used in it; the value holds the workspace offset of the copy, or is
  \<^term>\<open>None\<close> inside where the function returns -1.
\<close>

definition sr_copy ::
  "(bytes option \<Rightarrow> u32 \<Rightarrow> u32 option) \<Rightarrow> bytes \<Rightarrow> u32 \<Rightarrow> u32 \<Rightarrow> u32 \<Rightarrow> bytes \<times> u32 \<Rightarrow>
   (nat option \<times> bytes \<times> u32) option option" where
  "sr_copy complen rel rel_len abs_buf_len off st =
     (case st of (wp, used) \<Rightarrow>
        if off = 0 then Some (Some (None, wp, used))
        else (let avail = sr_offset_avail off rel_len in
          if avail = 0 then Some None
          else do {
            len \<leftarrow> complen (Some (drop (unat off) rel)) avail;
            if len = 0 then Some None
            else if len > abs_buf_len - used then Some None
            else do {
              bs \<leftarrow> rd_bytes rel (unat off) (unat len);
              wp \<leftarrow> wr_bytes wp (unat used) bs;
              Some (Some (Some (unat used), wp, used + len)) } }))"

definition acl_complen :: "bytes option \<Rightarrow> u32 \<Rightarrow> u32 option" where
  "acl_complen src avail = do {
     v \<leftarrow> RtlValidAcl src avail;
     if \<not> v then Some 0 else acl_size_or_0 src }"

text \<open>The descriptor whose pointers are the given offsets into the workspace.\<close>

definition sr_descr ::
  "u8 \<Rightarrow> u16 \<Rightarrow> bytes \<Rightarrow> nat option \<Rightarrow> nat option \<Rightarrow> nat option \<Rightarrow> nat option \<Rightarrow> SECURITY_DESCRIPTOR" where
  "sr_descr r ctl wp po pg ps pd =
     (let ptr = map_option (\<lambda>o1. drop o1 wp) in
      \<lparr>sd_Revision = r, sd_Sbz1 = 0, sd_Control = ctl AND NOT SE_SELF_RELATIVE,
       sd_Owner = ptr po, sd_Group = ptr pg, sd_Sacl = ptr ps, sd_Dacl = ptr pd\<rparr>)"

text \<open>
  Result, \<open>*abs\<close> and workspace afterwards. The four blocks run in the source's order; each failing
  block returns -1 with the components placed so far.
\<close>

definition RtlSelfRelativeToAbsoluteSD ::
  "bytes option \<Rightarrow> u32 \<Rightarrow> SECURITY_DESCRIPTOR option \<Rightarrow> bytes option \<Rightarrow> u32 \<Rightarrow>
   (int \<times> SECURITY_DESCRIPTOR option \<times> bytes option) option" where
  "RtlSelfRelativeToAbsoluteSD rel rel_len abs_sd abs_buf abs_buf_len =
     (case (rel, abs_sd, abs_buf) of
        (Some r, Some sd, Some wp) \<Rightarrow>
          if rel_len < 20 then Some (-1, abs_sd, abs_buf)
          else do {
            rv \<leftarrow> rd8 r 0;
            if rv \<noteq> SECURITY_DESCRIPTOR_REVISION then Some (-1, abs_sd, abs_buf)
            else do {
              ctl \<leftarrow> rd16 r 2;
              if ctl AND SE_SELF_RELATIVE = 0 then Some (-1, abs_sd, abs_buf)
              else do {
                oo \<leftarrow> rd32 r 4;
                ro \<leftarrow> sr_copy RtlLengthSidBounded r rel_len abs_buf_len oo (wp, 0);
                case ro of
                  None \<Rightarrow> Some (-1, Some (sr_descr rv ctl wp None None None None), Some wp)
                | Some (po, w1, u1) \<Rightarrow> do {
                    og \<leftarrow> rd32 r 8;
                    rg \<leftarrow> sr_copy RtlLengthSidBounded r rel_len abs_buf_len og (w1, u1);
                    case rg of
                      None \<Rightarrow> Some (-1, Some (sr_descr rv ctl w1 po None None None), Some w1)
                    | Some (pg, w2, u2) \<Rightarrow> do {
                        osa \<leftarrow> rd32 r 12;
                        rs \<leftarrow> sr_copy acl_complen r rel_len abs_buf_len osa (w2, u2);
                        case rs of
                          None \<Rightarrow> Some (-1, Some (sr_descr rv ctl w2 po pg None None), Some w2)
                        | Some (ps, w3, u3) \<Rightarrow> do {
                            od \<leftarrow> rd32 r 16;
                            rda \<leftarrow> sr_copy acl_complen r rel_len abs_buf_len od (w3, u3);
                            case rda of
                              None \<Rightarrow> Some (-1, Some (sr_descr rv ctl w3 po pg ps None), Some w3)
                            | Some (pd, w4, u4) \<Rightarrow>
                                Some (0, Some (sr_descr rv ctl w4 po pg ps pd), Some w4) } } } } } }
      | _ \<Rightarrow> Some (-1, abs_sd, abs_buf))"

section \<open>Text form of an ACL\<close>

text \<open>The alias of a well-known SID; \<^term>\<open>Some None\<close> is the null result. The reads follow the
  source's short-circuit order.\<close>

definition sid_to_alias :: "bytes option \<Rightarrow> string option option" where
  "sid_to_alias sid =
     (case sid of
        None \<Rightarrow> Some (Some ''??'')
      | Some s \<Rightarrow> do {
          a5 \<leftarrow> rd8 s 7;
          c \<leftarrow> rd8 s 1;
          nt \<leftarrow> (if a5 = 5 \<and> c = 1 then do {
                  s0 \<leftarrow> rd32 s 8;
                  Some (if s0 = 18 then Some ''SY'' else if s0 = 19 then Some ''LS''
                        else if s0 = 20 then Some ''NS'' else None) }
                else if a5 = 5 \<and> c = 2 then do {
                  s0 \<leftarrow> rd32 s 8;
                  if s0 = 32 then do {
                    s1 \<leftarrow> rd32 s 12;
                    Some (if s1 = 544 then Some ''BA'' else if s1 = 545 then Some ''BU''
                          else if s1 = 546 then Some ''BG'' else None) }
                  else Some None }
                else Some None);
          (case nt of
             Some al \<Rightarrow> Some (Some al)
           | None \<Rightarrow>
               if (a5 = 1 \<or> a5 = 3) \<and> c = 1 then do {
                 s0 \<leftarrow> rd32 s 8;
                 Some (if s0 = 0 then Some (if a5 = 1 then ''WD'' else ''CO'') else None) }
               else Some None) })"

definition ace_type_str :: "u8 \<Rightarrow> string" where
  "ace_type_str t =
     (if t = ACCESS_ALLOWED_ACE_TYPE then ''A''
      else if t = ACCESS_DENIED_ACE_TYPE then ''D''
      else if t = SYSTEM_AUDIT_ACE_TYPE then ''AU''
      else if t = SYSTEM_MANDATORY_LABEL_ACE_TYPE then ''ML''
      else ''?'')"

text \<open>The SID field of one entry: its alias, or its text in the local \<open>sid_str[80]\<close>.\<close>

definition acl_sid_str :: "bytes \<Rightarrow> string option" where
  "acl_sid_str s = do {
     alias \<leftarrow> sid_to_alias (Some s);
     case alias of
       Some al \<Rightarrow> Some al
     | None \<Rightarrow> do {
         (w, buf) \<leftarrow> RtlConvertSidToString (Some (replicate 80 CHR 0x00)) 80 (Some s);
         if w < 0 then Some ''<invalid-sid>''
         else Some (case buf of None \<Rightarrow> [] | Some b \<Rightarrow> takeWhile (\<lambda>c. c \<noteq> CHR 0x00) b) } }"

primrec acl_str_loop ::
  "nat \<Rightarrow> u32 \<Rightarrow> bytes \<Rightarrow> u32 \<Rightarrow> string \<Rightarrow> u32 \<Rightarrow> (int \<times> string option) option" where
  "acl_str_loop 0 i m len b pos = Some (int (unat pos), Some b)"
| "acl_str_loop (Suc n) i m len b pos =
     (if \<not> pos < len - 1 then Some (int (unat pos), Some b)
      else do {
        (rc, ace) \<leftarrow> RtlGetAce (Some m) i True;
        case ace of
          None \<Rightarrow> Some (int (unat pos), Some b)
        | Some p \<Rightarrow> do {
            t \<leftarrow> rd8 m p;
            amask \<leftarrow> rd32 m (p + 4);
            sid_str \<leftarrow> acl_sid_str (drop (p + 8) m);
            (b', w) \<leftarrow> c_snprintf b (unat pos) (unat (len - pos))
              (''('' @ ace_type_str t @ '';;0x'' @ fmt_x (unat amask) @ '';;;'' @ sid_str @ '')'');
            if pos + of_nat w \<ge> len then Some (int (unat pos), Some b')
            else acl_str_loop n (i + 1) m len b' (pos + of_nat w) } })"

definition RtlAclToCStr :: "bytes option \<Rightarrow> string option \<Rightarrow> u32 \<Rightarrow> (int \<times> string option) option" where
  "RtlAclToCStr acl buf len =
     (case (acl, buf) of
        (Some m, Some b) \<Rightarrow>
          if len < 4 then Some (-1, buf)
          else (case b of
                  [] \<Rightarrow> None
                | _ # bs \<Rightarrow> do {
                    count \<leftarrow> rd16 m 4;
                    acl_str_loop (unat count) 0 m len (CHR 0x00 # bs) 0 })
      | _ \<Rightarrow> Some (-1, buf))"

section \<open>What a well-formed ACL is\<close>

text \<open>\<open>AceSize\<close> of the entry that starts the given bytes, and when that entry is well formed.\<close>

definition ace_len :: "bytes \<Rightarrow> nat" where
  "ace_len b = unat (dec16 (b ! 2) (b ! 3))"

definition ace_ok :: "bytes \<Rightarrow> bool" where
  "ace_ok b \<longleftrightarrow>
     8 \<le> ace_len b \<and> ace_len b \<le> length b \<and> ace_is_sid_bearing (b ! 0) \<and>
     sid_ok (take (ace_len b - 8) (drop 8 b))"

text \<open>The first \<open>n\<close> entries of the bytes behind an ACL header, each as its own bytes.\<close>

primrec split_aces :: "nat \<Rightarrow> bytes \<Rightarrow> bytes list option" where
  "split_aces 0 b = Some []"
| "split_aces (Suc n) b =
     (if ace_ok b
      then map_option ((#) (take (ace_len b) b)) (split_aces n (drop (ace_len b) b)) else None)"

definition acl_size :: "bytes \<Rightarrow> nat" where
  "acl_size m = unat (dec16 (m ! 2) (m ! 3))"

definition acl_count :: "bytes \<Rightarrow> nat" where
  "acl_count m = unat (dec16 (m ! 4) (m ! 5))"

definition acl_hdr_ok :: "bytes \<Rightarrow> bool" where
  "acl_hdr_ok m \<longleftrightarrow>
     8 \<le> length m \<and> (m ! 0 = ACL_REVISION \<or> m ! 0 = ACL_REVISION_DS) \<and>
     8 \<le> acl_size m \<and> acl_size m \<le> length m"

text \<open>The entries of an ACL; \<^term>\<open>None\<close> for bytes that are not a well-formed ACL.\<close>

definition acl_aces :: "bytes \<Rightarrow> bytes list option" where
  "acl_aces m =
     (if acl_hdr_ok m then split_aces (acl_count m) (drop 8 (take (acl_size m) m)) else None)"

text \<open>The fields of a well-formed entry, and the entry with given fields.\<close>

definition ace_mask :: "bytes \<Rightarrow> u32" where
  "ace_mask a = dec32 (a ! 4) (a ! 5) (a ! 6) (a ! 7)"

definition ace_sid :: "bytes \<Rightarrow> bytes" where
  "ace_sid a = sid_body (drop 8 a)"

definition mk_ace :: "u8 \<Rightarrow> u8 \<Rightarrow> u32 \<Rightarrow> bytes \<Rightarrow> bytes" where
  "mk_ace t f k sid = [t, f] @ enc16 (of_nat (8 + length sid)) @ enc32 k @ sid"

definition aces_len :: "bytes list \<Rightarrow> nat" where
  "aces_len as = sum_list (map length as)"

lemma aces_len_simps [simp]:
  "aces_len [] = 0" "aces_len (a # as) = length a + aces_len as"
  "aces_len (as @ bs) = aces_len as + aces_len bs"
  by (simp_all add: aces_len_def)

lemma length_concat_aces: "length (concat as) = aces_len as"
  by (simp add: aces_len_def length_concat)

lemma ace_len_less: "ace_len b < 65536"
  by (simp add: ace_len_def unat_u16_less)

lemma acl_size_less: "acl_size m < 65536"
  by (simp add: acl_size_def unat_u16_less)

lemma ace_ok_sid: "ace_ok b \<Longrightarrow> sid_ok (drop 8 b) \<and> 8 + sid_size (drop 8 b) \<le> ace_len b"
  by (auto simp: ace_ok_def sid_ok_take_iff)

lemma ace_ok_ge_16: "ace_ok b \<Longrightarrow> 16 \<le> ace_len b"
  using ace_ok_sid [of b] sid_size_ge [of "drop 8 b"] by linarith

lemma ace_len_append: "4 \<le> length b \<Longrightarrow> ace_len (b @ c) = ace_len b"
  by (simp add: ace_len_def nth_append)

lemma ace_ok_lengthD: "ace_ok b \<Longrightarrow> ace_len b \<le> length b"
  by (simp add: ace_ok_def)

lemma ace_ok_append: "ace_ok b \<Longrightarrow> ace_ok (b @ c)"
  using ace_ok_ge_16 [of b] ace_ok_lengthD [of b] by (auto simp: ace_ok_def ace_len_append nth_append)

lemma ace_ok_take:
  "ace_ok b \<Longrightarrow> ace_ok (take (ace_len b) b) \<and> ace_len (take (ace_len b) b) = ace_len b"
  using ace_ok_ge_16 [of b] by (auto simp: ace_ok_def ace_len_def drop_take)

lemma split_aces_append:
  "split_aces n b = Some as \<Longrightarrow> split_aces n (b @ c) = Some as"
proof (induction n arbitrary: b as)
  case (Suc n)
  then have ok: "ace_ok b" by (auto split: if_splits)
  then have l: "16 \<le> ace_len b" "ace_len b \<le> length b"
    using ace_ok_ge_16 ace_ok_lengthD by auto
  then have "ace_len (b @ c) = ace_len b" by (intro ace_len_append) simp
  with Suc ok l show ?case by (auto simp: ace_ok_append)
qed simp

lemma split_aces_add:
  "split_aces (n + k) b =
     (case split_aces n b of
        None \<Rightarrow> None
      | Some as \<Rightarrow> map_option ((@) as) (split_aces k (drop (aces_len as) b)))"
proof (induction n arbitrary: b)
  case (Suc n)
  show ?case
  proof (cases "ace_ok b")
    case True
    then have "length (take (ace_len b) b) = ace_len b"
      using ace_ok_lengthD by simp
    moreover have "(@) (a # x) = (\<lambda>y. a # x @ y)" for a :: bytes and x
      by (simp add: fun_eq_iff)
    ultimately show ?thesis using True
      by (auto simp: Suc.IH option.map_comp comp_def add.commute [of _ "ace_len b"] split: option.splits)
  qed simp
next
  case 0
  show ?case by (cases "split_aces k b") simp_all
qed

lemma split_aces_props:
  assumes "split_aces n b = Some as"
  shows "length as = n" and "aces_len as \<le> length b" and "take (aces_len as) b = concat as"
    and "\<forall>a \<in> set as. ace_ok a \<and> ace_len a = length a"
  using assms
proof (induction n arbitrary: b as)
  case (Suc n)
  case 1 with Suc show ?case by (auto split: if_splits)
next
  case (Suc n)
  case 2 with Suc show ?case by (fastforce split: if_splits dest: ace_ok_lengthD)
next
  case (Suc n)
  case 3 with Suc show ?case
    by (auto split: if_splits dest!: ace_ok_lengthD simp: take_add)
next
  case (Suc n)
  case 4 with Suc show ?case
    by (auto split: if_splits simp: ace_ok_take min_absorb2 [OF ace_ok_lengthD])
qed simp_all

lemma split_aces_nth:
  assumes "split_aces n b = Some as" and "i < n"
  shows "take (length (as ! i)) (drop (aces_len (take i as)) b) = as ! i"
proof -
  have i: "i < length as" and le: "aces_len as \<le> length b"
    and cat: "take (aces_len as) b = concat as"
    using split_aces_props [OF assms(1)] assms(2) by auto
  have "as = take i as @ as ! i # drop (Suc i) as"
    using i by (simp add: id_take_nth_drop)
  then have "concat as = concat (take i as) @ as ! i @ concat (drop (Suc i) as)"
    by (metis concat.simps(2) concat_append)
  moreover have "b = concat as @ drop (aces_len as) b"
    using cat by (metis append_take_drop_id)
  ultimately have "b = concat (take i as) @ as ! i @ concat (drop (Suc i) as) @ drop (aces_len as) b"
    by (metis append_assoc)
  then show ?thesis
    by (metis append_eq_conv_conj length_concat_aces)
qed

lemma split_aces_concat:
  "\<forall>a \<in> set as. ace_ok a \<and> ace_len a = length a \<Longrightarrow> split_aces (length as) (concat as @ c) = Some as"
proof (induction as)
  case (Cons a as)
  then have "16 \<le> length a" using ace_ok_ge_16 [of a] by simp
  then have "ace_len (a @ d) = length a" for d
    using Cons.prems by (simp add: ace_len_append)
  with Cons show ?case by (simp add: ace_ok_append)
qed simp

subsection \<open>The validators compute it\<close>

lemma rd8_first: "8 \<le> length m \<Longrightarrow> rd8 m 0 = Some (m ! 0)"
  by (auto simp: rd8_def)

lemma rd16_eq: "i + 2 \<le> length m \<Longrightarrow> rd16 m i = Some (dec16 (m ! i) (m ! (i + 1)))"
  by (simp add: rd16_def)

lemma ace_body_valid_eq:
  assumes "unat remaining \<le> length b"
  shows "ace_body_valid b remaining =
    Some (if ace_ok (take (unat remaining) b) then ucast (dec16 (b ! 2) (b ! 3)) else 0)"
proof (cases "unat remaining < 4")
  case True
  then have "length (take (unat remaining) b) < 4" by simp
  then have "\<not> ace_ok (take (unat remaining) b)"
    using ace_ok_ge_16 [of "take (unat remaining) b"] ace_ok_lengthD [of "take (unat remaining) b"]
    by linarith
  with True show ?thesis
    by (simp add: ace_body_valid_def word_less_nat_alt)
next
  case False
  let ?t = "take (unat remaining) b" and ?w = "dec16 (b ! 2) (b ! 3)"
  have len: "ace_len ?t = unat ?w" using False by (simp add: ace_len_def)
  have r: "rd16 b 2 = Some ?w" "rd8 b 0 = Some (b ! 0)"
    using False assms by (auto simp: rd16_eq intro!: rd8_ok)
  have ok: "ace_ok ?t \<longleftrightarrow> 8 \<le> unat ?w \<and> unat ?w \<le> unat remaining \<and> ace_is_sid_bearing (b ! 0) \<and>
      sid_ok (take (unat ?w - 8) (drop 8 b))"
    using False assms by (auto simp: ace_ok_def len drop_take min_def)
  have sub: "8 \<le> unat ?w \<Longrightarrow> unat ((ucast ?w :: u32) - 8) = unat ?w - 8"
    by (simp add: unat_sub_if')
  have nz: "(8 + 4 * ucast (x :: u8) :: u32) \<noteq> 0" for x
    by (simp add: word_unat_eq_iff)
  have bnd: "8 \<le> unat ?w \<Longrightarrow> unat ?w \<le> unat remaining \<Longrightarrow>
      RtlLengthSidBounded (Some (drop 8 b)) (ucast ?w - 8) =
      Some (if sid_ok (take (unat ?w - 8) (drop 8 b)) then 8 + 4 * ucast (drop 8 b ! 1) else 0)"
    using assms by (subst RtlLengthSidBounded_eq) (simp_all add: sub)
  show ?thesis
    using False r bnd nz
    by (auto simp: ace_body_valid_def word_less_nat_alt Let_def ok not_le not_less simp del: One_nat_def)
qed

lemma acl_walk_eq:
  assumes "unat cursor \<le> unat sz" and "unat sz \<le> length m"
  shows "acl_walk n m sz cursor =
    Some (map_option (\<lambda>as. cursor + of_nat (aces_len as))
      (split_aces n (drop (unat cursor) (take (unat sz) m))))"
  using assms(1)
proof (induction n arbitrary: cursor)
  case (Suc n)
  let ?d = "drop (unat cursor) m" and ?b = "drop (unat cursor) (take (unat sz) m)"
  have rem: "unat (sz - cursor) = unat sz - unat cursor"
    using Suc.prems by (simp add: unat_sub_if')
  then have b: "take (unat (sz - cursor)) ?d = ?b" by (simp add: drop_take)
  have "unat (sz - cursor) \<le> length ?d" using assms(2) by (simp add: rem)
  note v = ace_body_valid_eq [OF this, unfolded b]
  show ?case
  proof (cases "ace_ok ?b")
    case True
    let ?w = "ucast (dec16 (?d ! 2) (?d ! 3)) :: u32"
    have l16: "16 \<le> ace_len ?b" and le: "ace_len ?b \<le> length ?b"
      using True by (rule ace_ok_ge_16, rule ace_ok_lengthD)
    then have "4 \<le> length ?b" by simp
    then have "4 \<le> unat (sz - cursor)" using assms(2) by (simp add: rem)
    then have w: "unat ?w = ace_len ?b"
      using b by (simp add: ace_len_def flip: b)
    have "unat cursor + ace_len ?b \<le> unat sz" using le assms(2) Suc.prems by simp
    moreover have "unat sz < 2 ^ 32" using unat_u32_less [of sz] by simp
    ultimately have c: "unat (cursor + ?w) = unat cursor + ace_len ?b"
      by (simp add: unat_word_ariths w [unfolded unat_ucast_16_32])
    have "drop (unat (cursor + ?w)) (take (unat sz) m) = drop (ace_len ?b) ?b"
      by (simp add: c add.commute)
    moreover have "unat (cursor + ?w) \<le> unat sz" by (simp add: c \<open>unat cursor + ace_len ?b \<le> unat sz\<close>)
    ultimately have "acl_walk n m sz (cursor + ?w) = Some (map_option
        (\<lambda>as. cursor + ?w + of_nat (aces_len as)) (split_aces n (drop (ace_len ?b) ?b)))"
      using Suc.IH [of "cursor + ?w"] by simp
    moreover have "?w \<noteq> 0" using w l16 by (auto simp: word_unat_eq_iff)
    moreover have "of_nat (length (take (ace_len ?b) ?b)) = ?w"
      using le w by (metis length_take min.absorb2 of_nat_unat ucast_id)
    ultimately show ?thesis using True v
      by (simp add: option.map_comp comp_def add.assoc del: length_take length_drop)
  qed (simp add: v)
qed simp

lemma acl_header_valid_eq:
  assumes "unat avail \<le> length m"
  shows "acl_header_valid (Some m) avail =
    Some (if acl_hdr_ok (take (unat avail) m) then ucast (dec16 (m ! 2) (m ! 3)) else 0)"
proof (cases "unat avail < 8")
  case False
  have "acl_size (take (unat avail) m) = unat (dec16 (m ! 2) (m ! 3))"
    using False by (simp add: acl_size_def)
  moreover have "rd8 m 0 = Some (m ! 0)" "rd16 m 2 = Some (dec16 (m ! 2) (m ! 3))"
    using False assms by (auto simp: rd16_eq rd8_first)
  ultimately show ?thesis using False assms
    by (auto simp: acl_header_valid_def acl_hdr_ok_def word_less_nat_alt Let_def not_less)
qed (simp add: acl_header_valid_def acl_hdr_ok_def word_less_nat_alt)

end
