(* ===== verification/Sec_Acl_Facts.thy ===== *)
theory Sec_Acl_Facts
  imports Sec_Acl
begin

text \<open>
  What the functions of \<open>acl.c\<close> do, stated over the abstract view of an ACL as its list of
  entries (\<open>acl_aces\<close>): validation and indexing on untrusted bytes, construction, conversion
  between absolute and self-relative descriptors, and the text form.
\<close>

section \<open>Validation and indexing\<close>

lemma acl_hdr_ok_take_iff:
  "acl_hdr_ok (take n m) \<longleftrightarrow> acl_hdr_ok m \<and> 8 \<le> n \<and> acl_size m \<le> n"
  by (cases "8 \<le> n") (auto simp: acl_hdr_ok_def acl_size_def)

lemma acl_aces_take_iff:
  "acl_aces (take n m) = (if 8 \<le> n \<and> acl_size m \<le> n then acl_aces m else None)"
  by (auto simp: acl_aces_def acl_hdr_ok_take_iff acl_size_def acl_count_def min_def)

lemma rd16_hdr:
  assumes "8 \<le> length m"
  shows "rd16 m 2 = Some (dec16 (m ! 2) (m ! 3))" and "rd16 m 4 = Some (dec16 (m ! 4) (m ! 5))"
  using assms by (simp_all add: rd16_eq)

lemma acl_hdr_okD:
  "acl_hdr_ok m \<Longrightarrow> 8 \<le> length m" "acl_hdr_ok m \<Longrightarrow> 8 \<le> acl_size m"
  "acl_hdr_ok m \<Longrightarrow> acl_size m \<le> length m"
  by (auto simp: acl_hdr_ok_def)

lemma acl_size_word: "unat (ucast (dec16 (m ! 2) (m ! 3)) :: u32) = acl_size m"
  by (simp add: acl_size_def)

lemma acl_size_nonzero: "acl_hdr_ok m \<Longrightarrow> (ucast (dec16 (m ! 2) (m ! 3)) :: u32) \<noteq> 0"
  using acl_hdr_okD(2) [of m] by (auto simp: word_unat_eq_iff acl_size_def)

lemma acl_walk_body:
  assumes "acl_hdr_ok m"
  shows "acl_walk n m (ucast (dec16 (m ! 2) (m ! 3))) 8 =
    Some (map_option (\<lambda>as. 8 + of_nat (aces_len as)) (split_aces n (drop 8 (take (acl_size m) m))))"
  using acl_hdr_okD [OF assms] acl_walk_eq [of 8 "ucast (dec16 (m ! 2) (m ! 3))" m n]
  by (simp add: acl_size_def)

lemma RtlValidAcl_eq:
  assumes "unat avail \<le> length m"
  shows "RtlValidAcl (Some m) avail = Some (acl_aces (take (unat avail) m) \<noteq> None)"
proof (cases "acl_hdr_ok (take (unat avail) m)")
  case True
  then have h: "acl_hdr_ok m" "8 \<le> unat avail" "acl_size m \<le> unat avail"
    by (auto simp: acl_hdr_ok_take_iff)
  moreover have "acl_aces (take (unat avail) m) = split_aces (acl_count m) (drop 8 (take (acl_size m) m))"
    using h by (simp add: acl_aces_take_iff) (simp add: acl_aces_def)
  ultimately show ?thesis
    using True assms
    by (auto simp: RtlValidAcl_def acl_header_valid_eq acl_size_nonzero rd16_hdr acl_hdr_okD
        acl_walk_body acl_count_def)
qed (use assms in \<open>simp add: RtlValidAcl_def acl_header_valid_eq acl_aces_def\<close>)

text \<open>The offset of the \<open>i\<close>-th entry.\<close>

definition ace_off :: "bytes list \<Rightarrow> nat \<Rightarrow> nat" where
  "ace_off as i = 8 + aces_len (take i as)"

lemma acl_aces_split:
  assumes "acl_aces m = Some as"
  shows "split_aces (length as) (drop 8 (take (acl_size m) m)) = Some as" and "acl_hdr_ok m"
    and "length as = acl_count m" and "8 + aces_len as \<le> acl_size m"
    and "\<forall>a \<in> set as. ace_ok a \<and> ace_len a = length a"
  using assms split_aces_props [of "acl_count m" "drop 8 (take (acl_size m) m)" as]
    acl_hdr_okD [of m]
  by (auto simp: acl_aces_def split: if_splits)

lemma aces_len_take_le: "aces_len (take i as) \<le> aces_len as"
  by (metis aces_len_simps(3) append_take_drop_id le_add1)

lemma aces_len_take_Suc: "i < length as \<Longrightarrow> aces_len (take (Suc i) as) = aces_len (take i as) + length (as ! i)"
  by (simp add: take_Suc_conv_app_nth)

lemma ace_off_bound:
  assumes "acl_aces m = Some as" and "i < length as"
  shows "ace_off as i + length (as ! i) \<le> acl_size m"
  using acl_aces_split(4) [OF assms(1)] aces_len_take_Suc [OF assms(2)] aces_len_take_le [of "Suc i" as]
  by (simp add: ace_off_def)

lemma take_drop_take: "i + n \<le> k \<Longrightarrow> take n (drop i (take k m)) = take n (drop i m)"
  by (simp add: drop_take min_def)

lemma ace_at_off:
  assumes "acl_aces m = Some as" and "i < length as"
  shows "take (length (as ! i)) (drop (ace_off as i) m) = as ! i"
proof -
  have "take (length (as ! i)) (drop (aces_len (take i as)) (drop 8 (take (acl_size m) m))) = as ! i"
    using split_aces_nth [OF acl_aces_split(1) [OF assms(1)]] assms(2) by simp
  then show ?thesis
    using ace_off_bound [OF assms]
    by (simp add: ace_off_def take_drop_take add.commute [of 8])
qed

lemma split_aces_prefix:
  assumes "split_aces n b = Some as" and "i \<le> n"
  shows "split_aces i b = Some (take i as)"
proof -
  have "split_aces (i + (n - i)) b = Some as" using assms by simp
  then obtain bs cs where bs: "split_aces i b = Some bs" and "as = bs @ cs"
    by (auto simp only: split_aces_add split: option.splits)
  moreover have "length bs = i" using bs by (rule split_aces_props)
  ultimately show ?thesis by simp
qed

lemma split_aces_Some_suffix:
  assumes "split_aces n b = Some as" and "i < n"
  shows "ace_ok (drop (aces_len (take i as)) b)"
proof -
  obtain k where n: "n = i + Suc k" using assms(2) less_imp_Suc_add by fastforce
  then have "split_aces i b = Some (take i as)" using split_aces_prefix [OF assms(1)] by simp
  then have "split_aces (Suc k) (drop (aces_len (take i as)) b) \<noteq> None"
    using assms(1) unfolding n split_aces_add by (auto simp del: split_aces.simps)
  then show ?thesis by (auto split: if_splits)
qed

lemma unat_cursor:
  assumes "split_aces n (drop 8 (take (acl_size m) m)) = Some as" and "acl_hdr_ok m"
  shows "unat (8 + of_nat (aces_len as) :: u32) = 8 + aces_len as" and "8 + aces_len as \<le> acl_size m"
proof -
  show le: "8 + aces_len as \<le> acl_size m"
    using split_aces_props(2) [OF assms(1)] acl_hdr_okD [OF assms(2)] by simp
  then show "unat (8 + of_nat (aces_len as) :: u32) = 8 + aces_len as"
    using acl_size_less [of m] by (simp add: unat_word_ariths unat_of_nat_u32)
qed

text \<open>Indexing needs only the entries up to the requested one to be well formed.\<close>

lemma RtlGetAceEx_eq:
  assumes "unat avail \<le> length m"
  shows "RtlGetAceEx (Some m) i True avail =
    Some (if acl_hdr_ok (take (unat avail) m) \<and> unat i < acl_count m then
            (case split_aces (Suc (unat i)) (drop 8 (take (acl_size m) m)) of
               None \<Rightarrow> (-1, None)
             | Some as \<Rightarrow> (0, Some (ace_off as (unat i))))
          else (-1, None))"
proof (cases "acl_hdr_ok (take (unat avail) m) \<and> unat i < acl_count m")
  case True
  then have h: "acl_hdr_ok m" and i: "\<not> i \<ge> ucast (dec16 (m ! 4) (m ! 5))"
    by (auto simp: acl_hdr_ok_take_iff word_le_nat_alt acl_count_def)
  let ?b = "drop 8 (take (acl_size m) m)" and ?sz = "ucast (dec16 (m ! 2) (m ! 3)) :: u32"
  note unf = RtlGetAceEx_def acl_header_valid_eq [OF assms] rd16_hdr [OF acl_hdr_okD(1) [OF h]]
    acl_size_nonzero [OF h] acl_walk_body [OF h]
  show ?thesis
  proof (cases "split_aces (unat i) ?b")
    case None
    then have "split_aces (unat i + 1) ?b = None" unfolding split_aces_add by simp
    with None True i show ?thesis by (simp add: unf)
  next
    case (Some as)
    let ?c = "8 + of_nat (aces_len as) :: u32"
    have c: "unat ?c = 8 + aces_len as" and le: "8 + aces_len as \<le> acl_size m"
      using unat_cursor [OF Some h] by auto
    have rem: "unat (?sz - ?c) = acl_size m - (8 + aces_len as)"
      using c le by (simp add: unat_sub_if' acl_size_def)
    have d: "drop (aces_len as) ?b = take (acl_size m - (8 + aces_len as)) (drop (8 + aces_len as) m)"
      by (simp add: drop_take add.commute)
    have "ace_body_valid (drop (unat ?c) m) (?sz - ?c) =
        Some (if ace_ok (drop (aces_len as) ?b)
              then ucast (dec16 (drop (unat ?c) m ! 2) (drop (unat ?c) m ! 3)) else 0)"
      using acl_hdr_okD [OF h] by (subst ace_body_valid_eq) (simp_all add: rem c drop_take add.commute [of _ "8 :: nat"])
    moreover have "ace_ok (drop (aces_len as) ?b) \<Longrightarrow>
        (ucast (dec16 (drop (unat ?c) m ! 2) (drop (unat ?c) m ! 3)) :: u32) \<noteq> 0"
    proof -
      assume ok: "ace_ok (drop (aces_len as) ?b)"
      then have l: "4 \<le> length (drop (aces_len as) ?b)"
        using ace_ok_ge_16 [OF ok] ace_ok_lengthD [OF ok] by linarith
      have "unat (dec16 (drop (unat ?c) m ! 2) (drop (unat ?c) m ! 3)) = ace_len (drop (aces_len as) ?b)"
        using l le acl_hdr_okD(3) [OF h] unfolding ace_len_def c by (simp add: add.commute min_absorb2)
      then show ?thesis using ace_ok_ge_16 [OF ok] by (auto simp: word_unat_eq_iff)
    qed
    moreover have "length as = unat i" using Some by (rule split_aces_props)
    moreover have "split_aces (Suc (unat i)) ?b =
        (if ace_ok (drop (aces_len as) ?b)
         then Some (as @ [take (ace_len (drop (aces_len as) ?b)) (drop (aces_len as) ?b)]) else None)"
      using split_aces_add [of "unat i" 1 ?b] Some by simp
    ultimately show ?thesis using True i Some c by (auto simp: unf ace_off_def)
  qed
next
  case False
  then show ?thesis
    using assms rd16_hdr(2) [OF acl_hdr_okD(1), of m] acl_size_nonzero [of m]
    by (auto simp: RtlGetAceEx_def acl_header_valid_eq acl_hdr_ok_take_iff word_le_nat_alt acl_count_def)
qed

lemma ace_skip_eq:
  assumes "acl_aces m = Some as" and "n \<le> length as"
  shows "ace_skip m n = Some (ace_off as n)"
proof -
  have "\<exists>p. ace_skip m n = Some p \<and> p = ace_off as n"
    unfolding ace_skip_def
  proof (rule for_upto_inv [where P = "\<lambda>k p. p = ace_off as k"])
    fix k p assume k: "k < n" and p: "p = ace_off as k"
    let ?a = "as ! k"
    have "?a \<in> set as" using k assms(2) by simp
    then have a: "ace_ok ?a" "ace_len ?a = length ?a"
      using acl_aces_split(5) [OF assms(1)] by auto
    then have l: "16 \<le> length ?a" using ace_ok_ge_16 [of ?a] by simp
    have at: "take (length ?a) (drop (ace_off as k) m) = ?a"
      using ace_at_off [OF assms(1)] k assms(2) by simp
    have "rd16 ?a 2 = Some (dec16 (?a ! 2) (?a ! 3))" using l by (simp add: rd16_eq)
    moreover have "rd16 ?a 2 = rd16 m (ace_off as k + 2)"
      using l arg_cong [OF at, of "\<lambda>x. rd16 x 2"] by (simp add: rd16_take rd16_drop)
    ultimately show "\<exists>t'. do { sz \<leftarrow> rd16 m (p + 2); Some (p + unat sz) } = Some t' \<and>
        t' = ace_off as (Suc k)"
      using a(2) k p assms(2) by (simp add: ace_len_def ace_off_def aces_len_take_Suc)
  qed (simp_all add: ace_off_def)
  then show ?thesis by simp
qed

lemma RtlGetAce_eq:
  assumes "acl_aces m = Some as"
  shows "RtlGetAce (Some m) i True =
    Some (if unat i < length as then (0, Some (ace_off as (unat i))) else (-1, None))"
  using acl_aces_split [OF assms] ace_skip_eq [OF assms, of "unat i"]
  by (auto simp: RtlGetAce_def rd16_hdr acl_hdr_okD word_le_nat_alt acl_count_def)

lemma RtlGetAceEx_valid:
  assumes "unat avail \<le> length m" and "acl_aces (take (unat avail) m) = Some as"
  shows "RtlGetAceEx (Some m) i True avail = RtlGetAce (Some m) i True"
proof -
  have m: "acl_aces m = Some as" "acl_hdr_ok (take (unat avail) m)"
    using assms(2) acl_aces_split(2) [OF assms(2)] by (auto simp: acl_aces_take_iff split: if_splits)
  have "split_aces (Suc (unat i)) (drop 8 (take (acl_size m) m)) = Some (take (Suc (unat i)) as)"
    if "unat i < length as"
    using split_aces_prefix [OF acl_aces_split(1) [OF m(1)]] that by (simp del: split_aces.simps)
  then show ?thesis
    using m acl_aces_split(3) [OF m(1)]
    by (auto simp: RtlGetAceEx_eq [OF assms(1)] RtlGetAce_eq [OF m(1)] ace_off_def)
qed

text \<open>Reading the fields of the \<open>i\<close>-th entry in place.\<close>

lemma ace_nth_ok:
  assumes "acl_aces m = Some as" and "i < length as"
  shows "ace_ok (as ! i)" and "ace_len (as ! i) = length (as ! i)" and "16 \<le> length (as ! i)"
    and "sid_ok (drop 8 (as ! i))"
proof -
  show ok: "ace_ok (as ! i)" and len: "ace_len (as ! i) = length (as ! i)"
    using acl_aces_split(5) [OF assms(1)] assms(2) by auto
  show "16 \<le> length (as ! i)" using ace_ok_ge_16 [OF ok] len by simp
  show "sid_ok (drop 8 (as ! i))" using ace_ok_sid [OF ok] by simp
qed

lemma ace_in_place:
  assumes "acl_aces m = Some as" and "i < length as"
  obtains rest where "drop (ace_off as i) m = as ! i @ rest"
  using ace_at_off [OF assms] append_take_drop_id by metis

lemma ace_reads:
  assumes "acl_aces m = Some as" and "i < length as"
  shows "rd8 m (ace_off as i) = Some (as ! i ! 0)"
    and "rd8 m (ace_off as i + 1) = Some (as ! i ! 1)"
    and "rd16 m (ace_off as i + 2) = Some (of_nat (length (as ! i)))"
    and "rd32 m (ace_off as i + 4) = Some (ace_mask (as ! i))"
proof -
  let ?a = "as ! i"
  note ok = ace_nth_ok [OF assms]
  obtain rest where d: "drop (ace_off as i) m = ?a @ rest" by (rule ace_in_place [OF assms])
  have at: "rd8 m (ace_off as i + k) = rd8 (?a @ rest) k" "rd16 m (ace_off as i + k) = rd16 (?a @ rest) k"
      "rd32 m (ace_off as i + k) = rd32 (?a @ rest) k" for k
    by (simp_all add: d [symmetric] mem_simps)
  have "dec16 (?a ! 2) (?a ! 3) = of_nat (length ?a)"
    using ok(2) by (simp add: ace_len_def flip: ok(2))
  then show "rd16 m (ace_off as i + 2) = Some (of_nat (length ?a))"
    unfolding at using ok(3) by (simp add: rd16_eq nth_append)
  show "rd8 m (ace_off as i + 1) = Some (?a ! 1)"
    unfolding at using ok(3) by (simp add: rd8_def nth_append)
  show "rd8 m (ace_off as i) = Some (?a ! 0)"
    using at(1) [of 0] ok(3) by (cases ?a) (simp_all add: rd8_def)
  show "rd32 m (ace_off as i + 4) = Some (ace_mask ?a)"
    unfolding at using ok(3) by (simp add: rd32_def ace_mask_def nth_append)
qed

section \<open>Construction\<close>

lemma length_mk_ace [simp]: "length (mk_ace t f k sid) = 8 + length sid"
  by (simp add: mk_ace_def)

lemma mk_ace_fields:
  assumes "length sid < 65528"
  shows "mk_ace t f k sid ! 0 = t" "mk_ace t f k sid ! 1 = f" "ace_len (mk_ace t f k sid) = 8 + length sid"
    "ace_mask (mk_ace t f k sid) = k" "drop 8 (mk_ace t f k sid) = sid"
proof -
  have "dec16 (mk_ace t f k sid ! 2) (mk_ace t f k sid ! 3) = of_nat (8 + length sid)"
    using dec16_enc16 [of "of_nat (8 + length sid)"] by (simp add: mk_ace_def nth_append)
  then show "ace_len (mk_ace t f k sid) = 8 + length sid"
    using assms unat_of_nat_u16 [of "8 + length sid"] by (simp add: ace_len_def)
  show "ace_mask (mk_ace t f k sid) = k"
    using dec32_enc32 [of k] by (simp add: mk_ace_def ace_mask_def nth_append numeral_2_eq_2)
qed (simp_all add: mk_ace_def)

lemma mk_ace_ok:
  assumes "ace_is_sid_bearing t" and "sid_ok sid" and "length sid < 65528"
  shows "ace_ok (mk_ace t f k sid)" and "ace_sid (mk_ace t f k sid) = sid_body sid"
  using assms mk_ace_fields [OF assms(3), of t f k] by (auto simp: ace_ok_def ace_sid_def)

text \<open>An ACL image: header fields, entries, free space.\<close>

lemma acl_aces_image:
  assumes "m = [r, x] @ enc16 sz @ enc16 c @ [y, z] @ concat as @ rest"
    and "r = ACL_REVISION \<or> r = ACL_REVISION_DS" and "unat c = length as"
    and "\<forall>a \<in> set as. ace_ok a \<and> ace_len a = length a"
    and "8 + aces_len as \<le> unat sz" and "unat sz \<le> length m"
  shows "acl_aces m = Some as" and "acl_size m = unat sz"
proof -
  show s: "acl_size m = unat sz"
    using dec16_enc16 [of sz] by (simp add: acl_size_def assms(1) nth_append)
  have "acl_count m = length as"
    using dec16_enc16 [of c] assms(3) by (simp add: acl_count_def assms(1) nth_append)
  moreover have "drop 8 (take (unat sz) m) = concat as @ take (unat sz - 8 - aces_len as) rest"
    using assms(5) by (simp add: assms(1) length_concat_aces take_Cons' drop_Cons' eval_nat_numeral)
  ultimately show "acl_aces m = Some as"
    using s assms(2,5,6) split_aces_concat [OF assms(4)]
    by (auto simp: acl_aces_def acl_hdr_ok_def assms(1))
qed

lemma RtlCreateAcl_aces:
  assumes "8 \<le> unat sz" and "unat sz \<le> length m" and "r = ACL_REVISION \<or> r = ACL_REVISION_DS"
  obtains m' where "RtlCreateAcl (Some m) sz r = Some (0, Some m')" and "length m' = length m"
    and "acl_aces m' = Some []" and "acl_size m' = unat sz"
proof -
  obtain k where k: "unat sz = 8 + k" using assms(1) le_Suc_ex by blast
  let ?z = "replicate k (0 :: u8) @ drop (unat sz) m"
  let ?m = "[r, 0] @ enc16 sz @ enc16 0 @ [0, 0] @ ?z"
  have r8: "replicate (unat sz) (0 :: u8) = [0, 0, 0, 0, 0, 0, 0, 0] @ replicate k 0"
    by (simp add: k replicate_add numeral_eq_Suc)
  have w: "wr_bytes m 0 (replicate (unat sz) 0) = Some ([0, 0, 0, 0, 0, 0, 0, 0] @ ?z)"
    using assms(2) by (simp add: wr_bytes_0) (simp add: r8)
  have w2: "wr8 ([0, 0, 0, 0, 0, 0, 0, 0] @ ?z) 0 r = Some ([r, 0] @ [0, 0, 0, 0, 0, 0] @ ?z)"
    by (simp add: wr8_def wr_bytes_def)
  have w3: "wr16 ([r, 0] @ [0, 0, 0, 0, 0, 0] @ ?z) 2 sz = Some (([r, 0] @ enc16 sz) @ [0, 0, 0, 0] @ ?z)"
    by (subst wr16_at) simp_all
  have w4: "wr16 (([r, 0] @ enc16 sz) @ [0, 0, 0, 0] @ ?z) 4 0 = Some ?m"
    by (subst wr16_at) simp_all
  have "\<not> sz < 8" using assms(1) by (simp add: word_less_nat_alt)
  then have "RtlCreateAcl (Some m) sz r = Some (0, Some ?m)"
    using w w2 w3 w4 by (simp add: RtlCreateAcl_def)
  moreover have "length ?m = length m" using assms(2) k by simp
  moreover have "acl_aces ?m = Some []" "acl_size ?m = unat sz"
    using k assms(2,3) acl_aces_image [of ?m r 0 sz 0 0 0 "[]" ?z] by auto
  ultimately show ?thesis by (intro that)
qed

lemma aces_len_ge: "\<forall>a \<in> set as. ace_ok a \<and> ace_len a = length a \<Longrightarrow> 16 * length as \<le> aces_len as"
proof (induction as)
  case (Cons a as)
  then show ?case using ace_ok_ge_16 [of a] by simp
qed simp

lemma acl_aces_image_ex:
  assumes "acl_aces m = Some as"
  obtains r x sz c y z rest where "m = [r, x] @ enc16 sz @ enc16 c @ [y, z] @ concat as @ rest"
    and "r = ACL_REVISION \<or> r = ACL_REVISION_DS" and "unat c = length as" and "unat sz = acl_size m"
proof -
  have h: "8 \<le> length m" "m ! 0 = ACL_REVISION \<or> m ! 0 = ACL_REVISION_DS"
    using acl_aces_split(2) [OF assms] by (auto simp: acl_hdr_ok_def)
  have e: "enc16 (dec16 a b) = [a, b]" for a b
    using bit_imp_le_length [of a] unfolding dec16_def enc16_def
    by (fastforce intro!: bit_word_eqI simp: bit_simps)
  obtain a0 a1 a2 a3 a4 a5 a6 a7 rest where m: "m = [a0, a1, a2, a3, a4, a5, a6, a7] @ rest"
    using h(1) by (auto simp: numeral_eq_Suc Suc_le_length_iff)
  have "aces_len as \<le> length rest" "take (aces_len as) rest = concat as"
    using split_aces_props(2,3) [OF acl_aces_split(1) [OF assms]] acl_aces_split(4) [OF assms]
    by (auto simp: m drop_take)
  then have "rest = concat as @ drop (aces_len as) rest" by (metis append_take_drop_id)
  then have "m = [a0, a1] @ enc16 (dec16 a2 a3) @ enc16 (dec16 a4 a5) @ [a6, a7] @ concat as @ drop (aces_len as) rest"
    by (simp add: m e)
  moreover have "unat (dec16 a4 a5) = length as" "unat (dec16 a2 a3) = acl_size m"
    using acl_aces_split(3) [OF assms] by (simp_all add: acl_count_def acl_size_def m)
  moreover have "a0 = ACL_REVISION \<or> a0 = ACL_REVISION_DS" using h(2) by (simp add: m)
  ultimately show ?thesis by (intro that)
qed

lemma acl_append_writes:
  assumes "p + (8 + length bs) \<le> length m"
  shows "do { m \<leftarrow> wr8 m p t; m \<leftarrow> wr8 m (p + 1) f; m \<leftarrow> wr16 m (p + 2) n; m \<leftarrow> wr32 m (p + 4) k;
              wr_bytes m (p + 8) bs } = wr_bytes m p ([t, f] @ enc16 n @ enc32 k @ bs)"
proof -
  have "do { m \<leftarrow> wr8 m p t; m \<leftarrow> wr8 m (p + 1) f; m \<leftarrow> wr16 m (p + 2) n; m \<leftarrow> wr32 m (p + 4) k;
      wr_bytes m (p + 8) bs } =
    do { m \<leftarrow> do { m \<leftarrow> do { m \<leftarrow> do { m \<leftarrow> wr_bytes m p [t]; wr_bytes m (p + length [t]) [f] };
      wr_bytes m (p + length [t, f]) (enc16 n) };
      wr_bytes m (p + length ([t, f] @ enc16 n)) (enc32 k) };
      wr_bytes m (p + length ([t, f] @ enc16 n @ enc32 k)) bs }"
    by (simp add: wr8_def wr16_def wr32_def)
  also have "\<dots> = wr_bytes m p ([t, f] @ enc16 n @ enc32 k @ bs)"
    using wr_bytes_seq by (simp only: wr_bytes_seq append_assoc append_Cons append_Nil)
  finally show ?thesis .
qed


text \<open>
  Appending an entry to a well-formed ACL: the entry goes behind the last one when there is room,
  and nothing changes when there is not.
\<close>

lemma acl_append_ace_eq:
  assumes "acl_aces m = Some as" and "ace_is_sid_bearing t" and "sid_ok s"
  shows "8 + aces_len as + (8 + sid_size s) \<le> acl_size m \<Longrightarrow>
      \<exists>m'. acl_append_ace (Some m) t f k (Some s) = Some (0, Some m') \<and>
        acl_aces m' = Some (as @ [mk_ace t f k (sid_body s)]) \<and>
        acl_size m' = acl_size m \<and> length m' = length m"
    and "acl_size m < 8 + aces_len as + (8 + sid_size s) \<Longrightarrow>
      acl_append_ace (Some m) t f k (Some s) = Some (-1, Some m)"
proof -
  let ?p = "8 + aces_len as" and ?a = "mk_ace t f k (sid_body s)"
  have hdr: "acl_hdr_ok m" and le: "?p \<le> acl_size m" and ok: "\<forall>a \<in> set as. ace_ok a \<and> ace_len a = length a"
    using acl_aces_split [OF assms(1)] by auto
  obtain sl where sl: "RtlLengthSid (Some s) = Some sl" "unat sl = sid_size s"
    using RtlLengthSid_ok [OF assms(3)] by blast
  have s68: "sid_size s \<le> 68" by (rule sid_ok_size_le [OF assms(3)])
  have skip: "ace_skip m (unat (dec16 (m ! 4) (m ! 5))) = Some ?p"
    using ace_skip_eq [OF assms(1), of "length as"] acl_aces_split(3) [OF assms(1)]
    by (simp add: acl_count_def ace_off_def)
  have asz: "unat (4 + 4 + sl) = 8 + sid_size s"
    using s68 sl(2) by (simp add: unat_word_ariths)
  have up: "unat (of_nat ?p :: u32) = ?p"
    using le acl_size_less [of m] by (intro unat_of_nat_u32) simp
  have "unat (ucast (dec16 (m ! 2) (m ! 3)) - of_nat ?p :: u32) = acl_size m - ?p"
    using le up by (simp add: unat_sub_if' acl_size_def del: of_nat_add)
  then have cmp: "4 + 4 + sl > ucast (dec16 (m ! 2) (m ! 3)) - of_nat ?p \<longleftrightarrow>
      acl_size m < ?p + (8 + sid_size s)"
    using le asz by (auto simp: word_less_nat_alt)
  note rds = rd16_hdr [OF acl_hdr_okD(1) [OF hdr]]
  show "acl_append_ace (Some m) t f k (Some s) = Some (-1, Some m)" if "acl_size m < ?p + (8 + sid_size s)"
    using that cmp by (simp add: acl_append_ace_def sl rds skip del: of_nat_add)
  assume fits: "?p + (8 + sid_size s) \<le> acl_size m"
  have u16: "ucast (4 + 4 + sl) = (of_nat (8 + length (sid_body s)) :: u16)"
    using asz s68 length_sid_body [OF assms(3)]
    by (simp add: word_unat_eq_iff unsigned_ucast_eq take_bit_nat_eq_self unsigned_of_nat unat_word_ariths)
  obtain r x sz c y z rest where m: "m = [r, x] @ enc16 sz @ enc16 c @ [y, z] @ concat as @ rest"
    and r: "r = ACL_REVISION \<or> r = ACL_REVISION_DS" and c: "unat c = length as" and sz: "unat sz = acl_size m"
    by (rule acl_aces_image_ex [OF assms(1)])
  let ?pre = "[r, x] @ enc16 sz @ enc16 c @ [y, z] @ concat as"
  let ?m1 = "?pre @ ?a @ drop (length ?a) rest"
  let ?m2 = "[r, x] @ enc16 sz @ enc16 (c + 1) @ [y, z] @ concat (as @ [?a]) @ drop (length ?a) rest"
  have lp: "length ?pre = ?p" by (simp add: length_concat_aces)
  have la: "length ?a = 8 + sid_size s" by (simp add: length_sid_body [OF assms(3)])
  have rest: "length ?a \<le> length rest"
    using fits acl_hdr_okD(3) [OF hdr] la lp by (simp add: m)
  have bs: "rd_bytes s 0 (unat sl) = Some (sid_body s)"
    using assms(3) sl(2) by (auto simp: rd_bytes_Some_iff sid_body_def)
  have w: "do { m \<leftarrow> wr8 m ?p t; m \<leftarrow> wr8 m (?p + 1) f; m \<leftarrow> wr16 m (?p + 2) (ucast (4 + 4 + sl));
      m \<leftarrow> wr32 m (?p + 4) k; wr_bytes m (?p + 8) (sid_body s) } = Some ?m1"
  proof -
    have "?p + (8 + length (sid_body s)) \<le> length m"
      using fits acl_hdr_okD(3) [OF hdr] la by simp
    note join = acl_append_writes [OF this]
    have "m = ?pre @ rest" by (simp add: m)
    then have "wr_bytes m ?p ?a = Some ?m1"
      using wr_bytes_at [of ?p ?pre ?a rest] lp rest by (simp only: append_assoc)
    then show ?thesis unfolding join u16 mk_ace_def .
  qed
  have w2: "rd16 ?m1 4 = Some c" "wr16 ?m1 4 (c + 1) = Some ?m2"
  proof -
    have m1: "?m1 = ([r, x] @ enc16 sz) @ enc16 c @ [y, z] @ concat as @ ?a @ drop (length ?a) rest" by simp
    show "rd16 ?m1 4 = Some c"
      unfolding m1 by (subst rd16_append_right) (simp_all add: rd16_enc16)
    show "wr16 ?m1 4 (c + 1) = Some ?m2"
      unfolding m1 by (subst wr16_at) simp_all
  qed
  have run: "acl_append_ace (Some m) t f k (Some s) = Some (0, Some ?m2)"
  proof -
    obtain a1 a2 a3 a4 where "wr8 m ?p t = Some a1" "wr8 a1 (?p + 1) f = Some a2"
        "wr16 a2 (?p + 2) (ucast (4 + 4 + sl)) = Some a3" "wr32 a3 (?p + 4) k = Some a4"
        "wr_bytes a4 (?p + 8) (sid_body s) = Some ?m1"
      using w by (auto simp only: bind_eq_Some_conv)
    moreover have "\<not> 4 + 4 + sl > ucast (dec16 (m ! 2) (m ! 3)) - of_nat ?p"
      using cmp fits by simp
    ultimately show ?thesis
      using w2 unfolding acl_append_ace_def sl(1) rds skip Let_def
      by (simp only: prod.case option.case bind.bind_lunit if_False bs rds skip)
  qed
  show "\<exists>m'. acl_append_ace (Some m) t f k (Some s) = Some (0, Some m') \<and>
        acl_aces m' = Some (as @ [?a]) \<and> acl_size m' = acl_size m \<and> length m' = length m"
  proof (intro exI conjI, rule run)
    have "16 * length as < 65536"
      using aces_len_ge [OF ok] le acl_size_less [of m] by linarith
    then have c1: "unat (c + 1) = length (as @ [?a])"
      using c by (simp add: unat_word_ariths)
    have ok1: "\<forall>a \<in> set (as @ [?a]). ace_ok a \<and> ace_len a = length a"
      using ok mk_ace_ok [of t "sid_body s" f k] mk_ace_fields [of "sid_body s"] assms(2,3) s68
      by (auto simp: sid_ok_body length_sid_body)
    show "length ?m2 = length m" using rest by (simp add: m)
    then show "acl_aces ?m2 = Some (as @ [?a])" "acl_size ?m2 = acl_size m"
      using acl_aces_image [OF refl r c1 ok1, where x = x and sz = sz and y = y and z = z and rest = "drop (length ?a) rest"] fits la sz
        acl_hdr_okD(3) [OF hdr] by auto
  qed
qed

section \<open>Properties\<close>

text \<open>
  C14: \<open>RtlValidAcl\<close> is safe and exact on untrusted bytes. If the \<open>avail\<close> bytes the caller vouches
  for are readable, it never reads outside them, and it accepts exactly the well-formed ACLs: a
  known revision, a size between 8 and \<open>avail\<close>, and \<open>AceCount\<close> entries that lie one after the
  other inside that size, each of one of the nine types with a SID behind the mask and with a complete well-formed SID there. An entry
  of any other type, an object ACE too, makes the whole ACL invalid.
\<close>

theorem RtlValidAcl_safe:
  assumes "unat avail \<le> length m"
  shows "RtlValidAcl (Some m) avail = Some (acl_aces (take (unat avail) m) \<noteq> None) \<and>
    (RtlValidAcl (Some m) avail = Some True \<longrightarrow>
      (\<exists>as. acl_aces (take (unat avail) m) = Some as \<and> (\<forall>a \<in> set as. ace_is_sid_bearing (a ! 0))))"
proof -
  have "\<forall>a \<in> set as. ace_is_sid_bearing (a ! 0)" if "acl_aces (take (unat avail) m) = Some as" for as
    using acl_aces_split(5) [OF that] by (auto simp: ace_ok_def)
  then show ?thesis using RtlValidAcl_eq [OF assms] by auto
qed

definition sample_acl :: bytes where
  "sample_acl = [2, 0, 48, 0, 1, 0, 0, 0] @ mk_ace 0 0 7 SeLocalSystemSid @ replicate 20 0"

theorem RtlValidAcl_safe_witness:
  "RtlValidAcl (Some sample_acl) 48 = Some True \<and>
   acl_aces (take (unat (48 :: u32)) sample_acl) = Some [mk_ace 0 0 7 SeLocalSystemSid]"
proof -
  have l: "unat (48 :: u32) \<le> length sample_acl" by code_simp
  have a: "acl_aces (take (unat (48 :: u32)) sample_acl) = Some [mk_ace 0 0 7 SeLocalSystemSid]" by code_simp
  show ?thesis using RtlValidAcl_safe [OF l] unfolding a by simp
qed

text \<open>An object ACE (type 5) is not only checked for its bounds, as a comment in \<open>acl.c\<close> has it: it is refused.\<close>

lemma object_ace_refused:
  "RtlValidAcl (Some ([4, 0, 48, 0, 1, 0, 0, 0] @ mk_ace 5 0 7 SeLocalSystemSid @ replicate 20 0)) 48 = Some False"
  by code_simp

text \<open>
  Once an ACL has been validated, the unbounded \<open>RtlGetAce\<close> and the bounded \<open>RtlGetAceEx\<close> agree
  and are exact: for an index below \<open>AceCount\<close> both return 0 and the address where exactly that
  entry's bytes lie, inside the ACL; for any other index both return -1.
\<close>

theorem RtlGetAce_RtlGetAceEx_agree:
  assumes "unat avail \<le> length m" and "acl_aces (take (unat avail) m) = Some as"
  shows "RtlGetAceEx (Some m) i True avail =
      Some (if unat i < length as then (0, Some (ace_off as (unat i))) else (-1, None)) \<and>
    RtlGetAce (Some m) i True = RtlGetAceEx (Some m) i True avail \<and>
    (unat i < length as \<longrightarrow>
      take (length (as ! unat i)) (drop (ace_off as (unat i)) m) = as ! unat i \<and>
      ace_off as (unat i) + length (as ! unat i) \<le> unat avail \<and> ace_ok (as ! unat i))"
proof (intro conjI impI)
  have m: "acl_aces m = Some as" "acl_size m \<le> unat avail"
    using assms(2) by (auto simp: acl_aces_take_iff split: if_splits)
  show "RtlGetAce (Some m) i True = RtlGetAceEx (Some m) i True avail"
    using RtlGetAceEx_valid [OF assms] by simp
  then show "RtlGetAceEx (Some m) i True avail =
      Some (if unat i < length as then (0, Some (ace_off as (unat i))) else (-1, None))"
    using RtlGetAce_eq [OF m(1)] by simp
  assume i: "unat i < length as"
  show "take (length (as ! unat i)) (drop (ace_off as (unat i)) m) = as ! unat i"
    using ace_at_off [OF m(1) i] .
  show "ace_off as (unat i) + length (as ! unat i) \<le> unat avail"
    using ace_off_bound [OF m(1) i] m(2) by simp
  show "ace_ok (as ! unat i)" using acl_aces_split(5) [OF m(1)] i by simp
qed

theorem RtlGetAce_RtlGetAceEx_agree_witness:
  "RtlGetAceEx (Some sample_acl) 0 True 48 = Some (0, Some 8) \<and>
   RtlGetAce (Some sample_acl) 0 True = RtlGetAceEx (Some sample_acl) 0 True 48"
proof -
  have l: "unat (48 :: u32) \<le> length sample_acl" by code_simp
  have a: "acl_aces (take (unat (48 :: u32)) sample_acl) = Some [mk_ace 0 0 7 SeLocalSystemSid]" by code_simp
  show ?thesis using RtlGetAce_RtlGetAceEx_agree [OF l a, of 0] by (simp add: ace_off_def)
qed

text \<open>
  \<open>RtlGetAceEx\<close> is safe on bytes that were never validated: it never reads outside the \<open>avail\<close>
  bytes, and when it returns 0 the address it hands out is that of a well-formed entry that lies
  entirely inside the ACL's own size and inside \<open>avail\<close>.
\<close>

theorem RtlGetAceEx_safe:
  assumes "unat avail \<le> length m"
  shows "RtlGetAceEx (Some m) i True avail = Some (-1, None) \<or>
    (\<exists>off. RtlGetAceEx (Some m) i True avail = Some (0, Some off) \<and>
      8 \<le> off \<and> ace_ok (drop off (take (acl_size m) m)) \<and>
      off + ace_len (drop off m) \<le> acl_size m \<and> acl_size m \<le> unat avail)"
proof -
  let ?b = "drop 8 (take (acl_size m) m)"
  {
    fix as assume h: "acl_hdr_ok (take (unat avail) m)"
      and s: "split_aces (Suc (unat i)) ?b = Some as"
    let ?o = "ace_off as (unat i)"
    have ok: "ace_ok (drop (aces_len (take (unat i) as)) ?b)"
      by (rule split_aces_Some_suffix [OF s]) simp
    then have ok': "ace_ok (drop ?o (take (acl_size m) m))" by (simp add: ace_off_def add.commute)
    have a: "acl_size m \<le> unat avail" "acl_size m \<le> length m"
      using h assms by (auto simp: acl_hdr_ok_take_iff)
    have l: "16 \<le> ace_len (drop ?o (take (acl_size m) m))"
        "ace_len (drop ?o (take (acl_size m) m)) \<le> acl_size m - ?o"
      using ace_ok_ge_16 [OF ok'] ace_ok_lengthD [OF ok'] a(2) by auto
    then have e: "ace_len (drop ?o m) = ace_len (drop ?o (take (acl_size m) m))"
      by (simp add: ace_len_def drop_take)
    have "8 \<le> ?o \<and> ace_ok (drop ?o (take (acl_size m) m)) \<and> ?o + ace_len (drop ?o m) \<le> acl_size m \<and>
        acl_size m \<le> unat avail"
      using l ok' a(1) unfolding e by (auto simp: ace_off_def)
  }
  then show ?thesis
    unfolding RtlGetAceEx_eq [OF assms] by (auto split: option.splits simp del: split_aces.simps)
qed

theorem RtlGetAceEx_safe_witness:
  "RtlGetAceEx (Some sample_acl) 0 True 48 = Some (-1, None) \<or>
    (\<exists>off. RtlGetAceEx (Some sample_acl) 0 True 48 = Some (0, Some off) \<and>
      8 \<le> off \<and> ace_ok (drop off (take (acl_size sample_acl) sample_acl)) \<and>
      off + ace_len (drop off sample_acl) \<le> acl_size sample_acl \<and> acl_size sample_acl \<le> unat (48 :: u32))"
  by (rule RtlGetAceEx_safe) code_simp

text \<open>
  Appending an entry (\<open>acl_append_ace\<close>, behind \<open>RtlAddAccessAllowedAce\<close>, \<open>RtlAddAccessDeniedAce\<close>
  and \<open>RtlAddMandatoryAce\<close>) to a well-formed ACL: if the free space holds the entry, the call
  returns 0 and the ACL decodes to its former entries followed by the new one, with its size field
  and the buffer length unchanged; if it does not, the call returns -1 and changes nothing. No
  byte outside the buffer is touched in either case.
\<close>

theorem acl_append_ace_correct:
  assumes "acl_aces m = Some as" and "ace_is_sid_bearing t" and "sid_ok s"
  shows "if 8 + aces_len as + (8 + sid_size s) \<le> acl_size m then
      \<exists>m'. acl_append_ace (Some m) t f k (Some s) = Some (0, Some m') \<and>
        acl_aces m' = Some (as @ [mk_ace t f k (sid_body s)]) \<and>
        acl_size m' = acl_size m \<and> length m' = length m
    else acl_append_ace (Some m) t f k (Some s) = Some (-1, Some m)"
  using acl_append_ace_eq [OF assms] by auto

theorem acl_append_ace_correct_witness:
  "if 8 + aces_len [mk_ace 0 0 7 SeLocalSystemSid] + (8 + sid_size SeWorldSid) \<le> acl_size sample_acl then
      \<exists>m'. acl_append_ace (Some sample_acl) 1 0 5 (Some SeWorldSid) = Some (0, Some m') \<and>
        acl_aces m' = Some ([mk_ace 0 0 7 SeLocalSystemSid] @ [mk_ace 1 0 5 (sid_body SeWorldSid)]) \<and>
        acl_size m' = acl_size sample_acl \<and> length m' = length sample_acl
    else acl_append_ace (Some sample_acl) 1 0 5 (Some SeWorldSid) = Some (-1, Some sample_acl)"
proof (rule acl_append_ace_correct)
  show "acl_aces sample_acl = Some [mk_ace 0 0 7 SeLocalSystemSid]" by code_simp
qed (code_simp, code_simp)

end
