(* ===== verification/Sec_Sd.thy ===== *)
theory Sec_Sd
  imports Sec_Acl_Facts
begin

text \<open>
  Conversion between absolute and self-relative security descriptors. A self-relative
  descriptor comes from untrusted memory; \<open>RtlSelfRelativeToAbsoluteSD\<close> copies each of its four
  components into a workspace after a bounded length function has accepted it. What it needs of
  those length functions is the locale \<open>bounded_component\<close>, interpreted for SIDs and for ACLs.
\<close>

section \<open>Components with a bounded length function\<close>

text \<open>A pointer into the used part of the workspace that designates the given bytes.\<close>

definition placed :: "bytes \<Rightarrow> u32 \<Rightarrow> nat option \<Rightarrow> bytes option \<Rightarrow> bool" where
  "placed wp used po b \<longleftrightarrow>
     (case po of
        None \<Rightarrow> b = None
      | Some p \<Rightarrow> \<exists>x. b = Some x \<and> p + length x \<le> unat used \<and> take (length x) (drop p wp) = x)"

lemma placed_mono:
  assumes "placed wp used po b" and "take (unat used) wp' = take (unat used) wp"
    and "unat used \<le> unat used'"
  shows "placed wp' used' po b"
proof (cases po)
  case (Some p)
  then obtain x where x: "b = Some x" "p + length x \<le> unat used" "take (length x) (drop p wp) = x"
    using assms(1) by (auto simp: placed_def)
  have "take (length x) (drop p (take (unat used) wp')) = take (length x) (drop p (take (unat used) wp))"
    by (simp add: assms(2))
  then have "take (length x) (drop p wp') = take (length x) (drop p wp)"
    using x(2) by (simp add: take_drop_take)
  with Some x assms(3) show ?thesis by (simp add: placed_def)
qed (use assms(1) in \<open>simp add: placed_def\<close>)

text \<open>The bytes outside the \<open>n\<close>-byte workspace are untouched.\<close>

definition same_outside :: "nat \<Rightarrow> bytes \<Rightarrow> bytes \<Rightarrow> bool" where
  "same_outside n wp wp' \<longleftrightarrow> length wp' = length wp \<and> drop n wp' = drop n wp"

locale bounded_component =
  fixes complen :: "bytes option \<Rightarrow> u32 \<Rightarrow> u32 option"
    and wf :: "bytes \<Rightarrow> bool"
    and extent :: "bytes \<Rightarrow> nat"
  assumes complen_eq: "unat avail \<le> length m \<Longrightarrow>
      \<exists>n. complen (Some m) avail = Some n \<and>
        (if wf (take (unat avail) m) then unat n = extent m \<and> n \<noteq> 0 else n = 0)"
    and wf_take_iff: "wf (take n m) \<longleftrightarrow> wf m \<and> extent m \<le> n"
    and extent_le: "wf m \<Longrightarrow> extent m \<le> length m"
    and extent_less: "extent m < 65536"
    and extent_take: "8 \<le> n \<Longrightarrow> extent (take n m) = extent m"
    and extent_ge: "wf m \<Longrightarrow> 8 \<le> extent m"
begin

definition body :: "bytes \<Rightarrow> bytes" where
  "body m = take (extent m) m"

lemma wf_body: "wf m \<Longrightarrow> wf (body m)"
  by (simp add: body_def wf_take_iff)

lemma length_body: "wf m \<Longrightarrow> length (body m) = extent m"
  by (simp add: body_def extent_le)

lemma extent_body: "wf m \<Longrightarrow> extent (body m) = extent m"
  by (simp add: body_def extent_take extent_ge)

lemma wf_append:
  assumes "wf b" and "extent b = length b"
  shows "wf (b @ c)" and "extent (b @ c) = length b" and "body (b @ c) = b"
proof -
  have "8 \<le> length b" using assms extent_ge by metis
  then show e: "extent (b @ c) = length b"
    using extent_take [of "length b" "b @ c"] assms(2) by simp
  show "wf (b @ c)" using assms(1) wf_take_iff [of "length b" "b @ c"] by simp
  show "body (b @ c) = b" by (simp add: body_def e)
qed

text \<open>The exact effect of one copying block.\<close>

lemma sr_copy_eq:
  assumes rel: "unat rel_len \<le> length rel" and wp: "unat alen \<le> length wp" and used: "unat used \<le> unat alen"
  shows "off = 0 \<Longrightarrow> sr_copy complen rel rel_len alen off (wp, used) = Some (Some (None, wp, used))"
    and "off \<noteq> 0 \<Longrightarrow>
      \<not> (20 \<le> unat off \<and> unat off < unat rel_len \<and> wf (drop (unat off) (take (unat rel_len) rel)) \<and>
         extent (drop (unat off) rel) \<le> unat alen - unat used) \<Longrightarrow>
      sr_copy complen rel rel_len alen off (wp, used) = Some None"
    and "off \<noteq> 0 \<Longrightarrow> 20 \<le> unat off \<Longrightarrow> unat off < unat rel_len \<Longrightarrow>
      wf (drop (unat off) (take (unat rel_len) rel)) \<Longrightarrow>
      extent (drop (unat off) rel) \<le> unat alen - unat used \<Longrightarrow>
      \<exists>n. sr_copy complen rel rel_len alen off (wp, used) =
        Some (Some (Some (unat used),
          take (unat used) wp @ body (drop (unat off) rel) @ drop (unat used + extent (drop (unat off) rel)) wp,
          used + n)) \<and> unat n = extent (drop (unat off) rel) \<and>
        unat (used + n) = unat used + extent (drop (unat off) rel)"
proof -
  let ?d = "drop (unat off) rel"
  show "off = 0 \<Longrightarrow> sr_copy complen rel rel_len alen off (wp, used) = Some (Some (None, wp, used))"
    by (simp add: sr_copy_def)
  have bad: "\<not> (20 \<le> unat off \<and> unat off < unat rel_len) \<Longrightarrow> sr_offset_avail off rel_len = 0"
    by (auto simp: sr_offset_avail_def word_less_nat_alt word_le_nat_alt)
  have good: "sr_offset_avail off rel_len \<noteq> 0 \<and>
      (\<exists>n. complen (Some ?d) (sr_offset_avail off rel_len) = Some n \<and>
        (if wf (drop (unat off) (take (unat rel_len) rel)) then unat n = extent ?d \<and> n \<noteq> 0 else n = 0))"
    if r: "20 \<le> unat off" "unat off < unat rel_len"
  proof -
    have av: "unat (sr_offset_avail off rel_len) = unat rel_len - unat off"
      using r by (auto simp: sr_offset_avail_def word_less_nat_alt word_le_nat_alt unat_sub_if')
    then have nz: "sr_offset_avail off rel_len \<noteq> 0" using r by (auto simp: word_unat_eq_iff)
    have tk: "take (unat (sr_offset_avail off rel_len)) ?d = drop (unat off) (take (unat rel_len) rel)"
      by (simp add: av drop_take)
    have "unat (sr_offset_avail off rel_len) \<le> length ?d" using rel r by (simp add: av)
    from complen_eq [OF this] nz show ?thesis unfolding tk by blast
  qed
  have sub: "unat (alen - used) = unat alen - unat used" using used by (simp add: unat_sub_if')
  show "sr_copy complen rel rel_len alen off (wp, used) = Some None"
    if "off \<noteq> 0" and f: "\<not> (20 \<le> unat off \<and> unat off < unat rel_len \<and>
      wf (drop (unat off) (take (unat rel_len) rel)) \<and> extent ?d \<le> unat alen - unat used)"
  proof (cases "20 \<le> unat off \<and> unat off < unat rel_len")
    case True
    with good f that show ?thesis
      by (auto simp: sr_copy_def Let_def word_less_nat_alt sub split: if_splits)
  qed (use bad that in \<open>auto simp: sr_copy_def\<close>)
  assume o: "off \<noteq> 0" and r: "20 \<le> unat off" "unat off < unat rel_len"
    and w: "wf (drop (unat off) (take (unat rel_len) rel))" and fit: "extent ?d \<le> unat alen - unat used"
  from good [OF r] obtain n where n: "complen (Some ?d) (sr_offset_avail off rel_len) = Some n"
      "unat n = extent ?d" "n \<noteq> 0" and nz: "sr_offset_avail off rel_len \<noteq> 0"
    using w by auto
  have "wf ?d" using w wf_take_iff [of "unat rel_len - unat off" ?d] by (simp add: drop_take)
  then have le: "extent ?d \<le> length ?d" by (rule extent_le)
  then have rd: "rd_bytes rel (unat off) (unat n) = Some (body ?d)"
    using r rel by (auto simp: rd_bytes_Some_iff n(2) body_def)
  have wr: "wr_bytes wp (unat used) (body ?d) =
      Some (take (unat used) wp @ body ?d @ drop (unat used + extent ?d) wp)"
    using fit wp used le by (auto simp: wr_bytes_def body_def)
  have "unat (used + n) = unat used + extent ?d"
    using fit used n(2) unat_u32_less [of alen] by (simp add: unat_word_ariths)
  then show "\<exists>n. sr_copy complen rel rel_len alen off (wp, used) =
        Some (Some (Some (unat used),
          take (unat used) wp @ body ?d @ drop (unat used + extent ?d) wp, used + n)) \<and>
        unat n = extent ?d \<and> unat (used + n) = unat used + extent ?d"
    using o r n nz rd wr fit
    by (intro exI [of _ n]) (simp add: sr_copy_def Let_def word_less_nat_alt sub)
qed

definition comp_at :: "bytes \<Rightarrow> u32 \<Rightarrow> bytes option" where
  "comp_at rel off = (if off = 0 then None else Some (body (drop (unat off) rel)))"

text \<open>When the block accepts the component, and how much of the workspace it takes.\<close>

definition part_ok :: "bytes \<Rightarrow> u32 \<Rightarrow> u32 \<Rightarrow> bool" where
  "part_ok rel rel_len off \<longleftrightarrow>
     off = 0 \<or> 20 \<le> unat off \<and> unat off < unat rel_len \<and> wf (drop (unat off) (take (unat rel_len) rel))"

definition part_size :: "bytes \<Rightarrow> u32 \<Rightarrow> nat" where
  "part_size rel off = (if off = 0 then 0 else extent (drop (unat off) rel))"

lemma sr_copy_step:
  assumes rel: "unat rel_len \<le> length rel" and wp: "unat alen \<le> length wp" and used: "unat used \<le> unat alen"
  shows "if part_ok rel rel_len off \<and> unat used + part_size rel off \<le> unat alen then
      \<exists>po wp' used'. sr_copy complen rel rel_len alen off (wp, used) = Some (Some (po, wp', used')) \<and>
        unat used' = unat used + part_size rel off \<and> same_outside (unat alen) wp wp' \<and>
        take (unat used) wp' = take (unat used) wp \<and> placed wp' used' po (comp_at rel off) \<and>
        (off \<noteq> 0 \<longrightarrow> wf (drop (unat off) rel))
    else sr_copy complen rel rel_len alen off (wp, used) = Some None"
proof -
  let ?d = "drop (unat off) rel"
  consider "off = 0" | "off \<noteq> 0" "\<not> (part_ok rel rel_len off \<and> unat used + part_size rel off \<le> unat alen)"
    | "off \<noteq> 0" "20 \<le> unat off" "unat off < unat rel_len" "wf (drop (unat off) (take (unat rel_len) rel))"
      "extent ?d \<le> unat alen - unat used"
    using used by (fastforce simp: part_ok_def part_size_def)
  then show ?thesis
  proof cases
    case 2
    have "extent ?d \<le> unat alen - unat used \<longleftrightarrow> unat used + extent ?d \<le> unat alen"
      using used by linarith
    with 2 show ?thesis
      using sr_copy_eq(2) [OF assms 2(1)] by (auto simp: part_ok_def part_size_def)
  next
    case 3
    have w: "wf ?d" using 3(4) wf_take_iff [of "unat rel_len - unat off" ?d] by (simp add: drop_take)
    then have l: "length (body ?d) = extent ?d" by (rule length_body)
    have acc: "part_ok rel rel_len off" "unat used + part_size rel off \<le> unat alen"
      using 3 used by (auto simp: part_ok_def part_size_def)
    from sr_copy_eq(3) [OF assms 3] show ?thesis
      using w l wp used 3(1,5) acc
      by (fastforce simp: placed_def comp_at_def same_outside_def part_size_def)
  qed (use sr_copy_eq(1) [OF assms] used in
      \<open>simp_all add: placed_def comp_at_def same_outside_def part_ok_def part_size_def\<close>)
qed

lemma placed_view:
  assumes "placed wp used po (comp_at rel off)" and "off \<noteq> 0 \<longrightarrow> wf (drop (unat off) rel)"
  shows "pred_option wf (map_option (\<lambda>p. drop p wp) po)"
    and "map_option (\<lambda>p. body (drop p wp)) po = comp_at rel off"
proof -
  let ?b = "body (drop (unat off) rel)"
  have "wf (drop p wp) \<and> body (drop p wp) = ?b \<and> off \<noteq> 0" if "po = Some p" for p
  proof -
    have o: "off \<noteq> 0" and t: "take (length ?b) (drop p wp) = ?b"
      using assms(1) that by (auto simp: placed_def comp_at_def split: if_splits)
    then have "wf ?b" "extent ?b = length ?b" using assms(2) wf_body extent_body length_body by auto
    then have "wf (?b @ c) \<and> body (?b @ c) = ?b" for c using wf_append by blast
    then show ?thesis using t o by (metis append_take_drop_id)
  qed
  then show "pred_option wf (map_option (\<lambda>p. drop p wp) po)"
    and "map_option (\<lambda>p. body (drop p wp)) po = comp_at rel off"
    using assms(1) by (cases po; auto simp: placed_def comp_at_def split: if_splits)+
qed

lemma part_at:
  assumes R: "R = pre @ body c @ post" and "wf c" and off: "unat off = length pre" and "20 \<le> length pre"
    and len: "length pre + extent c \<le> unat rel_len" and "unat rel_len \<le> length R"
  shows "part_ok R rel_len off" and "part_size R off = extent c" and "comp_at R off = Some (body c)"
proof -
  let ?b = "body c"
  have b: "wf ?b" "extent ?b = length ?b" "length ?b = extent c"
    using \<open>wf c\<close> by (simp_all add: wf_body length_body extent_body)
  note ap = wf_append [OF b(1,2)]
  have nz: "off \<noteq> 0" using off assms(4) by auto
  have "8 \<le> extent c" using \<open>wf c\<close> by (rule extent_ge)
  moreover have "drop (unat off) (take (unat rel_len) R) = ?b @ take (unat rel_len - length pre - extent c) post"
    using len b(3) by (simp add: R off)
  moreover have d: "drop (unat off) R = ?b @ post" by (simp add: R off)
  ultimately show "part_ok R rel_len off" using nz off assms(4) len ap(1) by (simp add: part_ok_def)
  show "part_size R off = extent c" using nz d ap(2) b(3) by (simp add: part_size_def)
  show "comp_at R off = Some (body c)" using nz d ap(3) by (simp add: comp_at_def)
qed

lemma part_null: "part_ok R rel_len 0" "part_size R 0 = 0" "comp_at R 0 = None"
  by (simp_all add: part_ok_def part_size_def comp_at_def)

text \<open>The same for a component that may be missing.\<close>

definition opt_body :: "bytes option \<Rightarrow> bytes" where
  "opt_body c = (case c of None \<Rightarrow> [] | Some x \<Rightarrow> body x)"

lemma opt_part_at:
  assumes "R = pre @ opt_body c @ post" and "pred_option wf c" and "off = (if c = None then 0 else o1)"
    and "unat o1 = length pre" and "20 \<le> length pre"
    and "length pre + length (opt_body c) \<le> unat rel_len" and "unat rel_len \<le> length R"
  shows "part_ok R rel_len off" and "part_size R off = length (opt_body c)"
    and "comp_at R off = map_option body c"
  using assms part_null part_at [of R pre "the c" post off rel_len]
  by (auto simp: opt_body_def length_body split: option.splits)

lemma length_opt_body: "pred_option wf c \<Longrightarrow> length (opt_body c) < 65536"
  using extent_less by (auto simp: opt_body_def length_body split: option.splits)

end

interpretation sid_comp: bounded_component RtlLengthSidBounded sid_ok sid_size
proof unfold_locales
  fix avail :: u32 and m :: bytes assume l: "unat avail \<le> length m"
  show "\<exists>n. RtlLengthSidBounded (Some m) avail = Some n \<and>
      (if sid_ok (take (unat avail) m) then unat n = sid_size m \<and> n \<noteq> 0 else n = 0)"
  proof (intro exI conjI, rule RtlLengthSidBounded_eq [OF l])
    have "(8 + 4 * ucast (m ! 1) :: u32) \<noteq> 0" by (simp add: word_unat_eq_iff)
    then show "if sid_ok (take (unat avail) m)
      then unat (if sid_ok (take (unat avail) m) then 8 + 4 * ucast (m ! 1) else 0 :: u32) = sid_size m \<and>
        (if sid_ok (take (unat avail) m) then 8 + 4 * ucast (m ! 1) else 0 :: u32) \<noteq> 0
      else (if sid_ok (take (unat avail) m) then 8 + 4 * ucast (m ! 1) else 0 :: u32) = 0"
      by (simp add: sid_size_def)
  qed
next
  fix m :: bytes show "sid_size m < 65536" using unat_u8_less [of "m ! 1"] by (simp add: sid_size_def)
qed (simp_all add: sid_ok_take_iff sid_ok_lengthD)

definition acl_ok :: "bytes \<Rightarrow> bool" where
  "acl_ok m \<longleftrightarrow> acl_aces m \<noteq> None"

lemma acl_okD: "acl_ok m \<Longrightarrow> acl_hdr_ok m"
  by (auto simp: acl_ok_def dest: acl_aces_split)

interpretation acl_comp: bounded_component acl_complen acl_ok acl_size
proof unfold_locales
  fix avail :: u32 and m :: bytes assume l: "unat avail \<le> length m"
  show "\<exists>n. acl_complen (Some m) avail = Some n \<and>
      (if acl_ok (take (unat avail) m) then unat n = acl_size m \<and> n \<noteq> 0 else n = 0)"
  proof (cases "acl_ok (take (unat avail) m)")
    case True
    then have "acl_hdr_ok m" using acl_okD [OF True] by (simp add: acl_hdr_ok_take_iff)
    with True show ?thesis
      using l by (simp add: acl_complen_def RtlValidAcl_eq acl_ok_def acl_size_or_0_def
          rd16_hdr acl_hdr_okD acl_size_def acl_size_nonzero)
  qed (use l in \<open>simp add: acl_complen_def RtlValidAcl_eq acl_ok_def\<close>)
next
  fix n and m :: bytes show "acl_ok (take n m) \<longleftrightarrow> acl_ok m \<and> acl_size m \<le> n"
    using acl_okD [of m] acl_hdr_okD [of m] by (auto simp: acl_ok_def acl_aces_take_iff)
next
  fix n :: nat and m :: bytes assume "8 \<le> n"
  then show "acl_size (take n m) = acl_size m" by (simp add: acl_size_def)
qed (auto simp: acl_size_less intro: acl_hdr_okD acl_okD)

section \<open>From self-relative to absolute\<close>

definition acl_body :: "bytes \<Rightarrow> bytes" where
  "acl_body m = take (acl_size m) m"

lemma comp_bodies: "sid_comp.body = sid_body" "acl_comp.body = acl_body"
  by (simp_all add: fun_eq_iff sid_comp.body_def sid_body_def acl_comp.body_def acl_body_def)

text \<open>Every component a descriptor points to is well formed; the components themselves.\<close>

definition sd_wf :: "SECURITY_DESCRIPTOR \<Rightarrow> bool" where
  "sd_wf d \<longleftrightarrow> pred_option sid_ok (sd_Owner d) \<and> pred_option sid_ok (sd_Group d) \<and>
     pred_option acl_ok (sd_Sacl d) \<and> pred_option acl_ok (sd_Dacl d)"

type_synonym sd_parts = "bytes option \<times> bytes option \<times> bytes option \<times> bytes option"

definition sd_comps :: "SECURITY_DESCRIPTOR \<Rightarrow> sd_parts" where
  "sd_comps d = (map_option sid_body (sd_Owner d), map_option sid_body (sd_Group d),
     map_option acl_body (sd_Sacl d), map_option acl_body (sd_Dacl d))"

definition rel_off :: "bytes \<Rightarrow> nat \<Rightarrow> u32" where
  "rel_off r i = dec32 (r ! i) (r ! (i + 1)) (r ! (i + 2)) (r ! (i + 3))"

definition rel_control :: "bytes \<Rightarrow> u16" where
  "rel_control r = dec16 (r ! 2) (r ! 3)"

definition rel_part :: "(bytes \<Rightarrow> bytes) \<Rightarrow> bytes \<Rightarrow> nat \<Rightarrow> bytes option" where
  "rel_part bdy r i = (if rel_off r i = 0 then None else Some (bdy (drop (unat (rel_off r i)) r)))"

definition rel_comps :: "bytes \<Rightarrow> sd_parts" where
  "rel_comps r = (rel_part sid_body r 4, rel_part sid_body r 8, rel_part acl_body r 12, rel_part acl_body r 16)"

lemma comp_at_part:
  "sid_comp.comp_at r (rel_off r i) = rel_part sid_body r i"
  "acl_comp.comp_at r (rel_off r i) = rel_part acl_body r i"
  by (simp_all add: sid_comp.comp_at_def acl_comp.comp_at_def rel_part_def comp_bodies)

lemma rel_fields:
  assumes "20 \<le> length r"
  shows "rd8 r 0 = Some (r ! 0)" "rd16 r 2 = Some (rel_control r)" "rd32 r 4 = Some (rel_off r 4)"
    "rd32 r 8 = Some (rel_off r 8)" "rd32 r 12 = Some (rel_off r 12)" "rd32 r 16 = Some (rel_off r 16)"
  using assms by (simp_all add: rd8_first rd16_hdr rd32_def rel_control_def rel_off_def)

lemma same_outside_trans:
  "same_outside n a b \<Longrightarrow> same_outside n b c \<Longrightarrow> same_outside n a c"
  by (simp add: same_outside_def)

lemma same_outside_refl [simp]: "same_outside n a a"
  by (simp add: same_outside_def)

lemma sr_descr_view:
  assumes "placed wp u po (sid_comp.comp_at r o1)" "o1 \<noteq> 0 \<longrightarrow> sid_ok (drop (unat o1) r)"
    and "placed wp u pg (sid_comp.comp_at r o2)" "o2 \<noteq> 0 \<longrightarrow> sid_ok (drop (unat o2) r)"
    and "placed wp u ps (acl_comp.comp_at r o3)" "o3 \<noteq> 0 \<longrightarrow> acl_ok (drop (unat o3) r)"
    and "placed wp u pd (acl_comp.comp_at r o4)" "o4 \<noteq> 0 \<longrightarrow> acl_ok (drop (unat o4) r)"
  shows "sd_wf (sr_descr rv ctl wp po pg ps pd)"
    and "sd_comps (sr_descr rv ctl wp po pg ps pd) =
      (sid_comp.comp_at r o1, sid_comp.comp_at r o2, acl_comp.comp_at r o3, acl_comp.comp_at r o4)"
  using sid_comp.placed_view [OF assms(1,2)] sid_comp.placed_view [OF assms(3,4)]
    acl_comp.placed_view [OF assms(5,6)] acl_comp.placed_view [OF assms(7,8)]
  by (simp_all add: sd_wf_def sd_comps_def sr_descr_def Let_def option.map_comp comp_def comp_bodies)

text \<open>The self-relative descriptors the function accepts, for a workspace of \<open>alen\<close> bytes.\<close>

definition rel_accepts :: "bytes \<Rightarrow> u32 \<Rightarrow> u32 \<Rightarrow> bool" where
  "rel_accepts r rel_len alen \<longleftrightarrow>
     20 \<le> rel_len \<and> r ! 0 = SECURITY_DESCRIPTOR_REVISION \<and> rel_control r AND SE_SELF_RELATIVE \<noteq> 0 \<and>
     sid_comp.part_ok r rel_len (rel_off r 4) \<and> sid_comp.part_ok r rel_len (rel_off r 8) \<and>
     acl_comp.part_ok r rel_len (rel_off r 12) \<and> acl_comp.part_ok r rel_len (rel_off r 16) \<and>
     sid_comp.part_size r (rel_off r 4) + sid_comp.part_size r (rel_off r 8) +
     acl_comp.part_size r (rel_off r 12) + acl_comp.part_size r (rel_off r 16) \<le> unat alen"

text \<open>What the caller may rely on, whatever the outcome.\<close>

definition rel_outcome :: "bytes \<Rightarrow> u32 \<Rightarrow> u32 \<Rightarrow> bytes \<Rightarrow> (int \<times> SECURITY_DESCRIPTOR option \<times> bytes option) option \<Rightarrow> bool" where
  "rel_outcome r rel_len alen wp res \<longleftrightarrow>
     (\<exists>rc d wp'. res = Some (rc, Some d, Some wp') \<and> same_outside (unat alen) wp wp' \<and>
        (if rel_accepts r rel_len alen then
           rc = 0 \<and> sd_wf d \<and> sd_comps d = rel_comps r \<and> sd_Revision d = SECURITY_DESCRIPTOR_REVISION \<and>
           sd_Control d = rel_control r AND NOT SE_SELF_RELATIVE
         else rc = -1))"

lemma rel_outcome_reject:
  "\<not> rel_accepts r rel_len alen \<Longrightarrow> same_outside (unat alen) wp wp' \<Longrightarrow>
     rel_outcome r rel_len alen wp (Some (-1, Some d, Some wp'))"
  by (simp add: rel_outcome_def)

lemma RtlSelfRelativeToAbsoluteSD_outcome:
  assumes "unat rel_len \<le> length r" and "unat alen \<le> length wp"
  shows "rel_outcome r rel_len alen wp (RtlSelfRelativeToAbsoluteSD (Some r) rel_len (Some d) (Some wp) alen)"
proof (cases "20 \<le> rel_len \<and> r ! 0 = SECURITY_DESCRIPTOR_REVISION \<and> rel_control r AND SE_SELF_RELATIVE \<noteq> 0")
  case False
  consider "rel_len < 20"
    | "20 \<le> length r" "r ! 0 \<noteq> SECURITY_DESCRIPTOR_REVISION \<or> rel_control r AND SE_SELF_RELATIVE = 0"
    using False assms(1) by (cases "rel_len < 20") (auto simp: word_less_nat_alt word_le_nat_alt not_less)
  then show ?thesis using False
    by cases (auto simp: RtlSelfRelativeToAbsoluteSD_def rel_fields rel_accepts_def intro!: rel_outcome_reject)
next
  case True
  then have l: "20 \<le> length r" and n20: "\<not> rel_len < 20"
    using assms(1) by (auto simp: word_le_nat_alt word_less_nat_alt)
  note unf = RtlSelfRelativeToAbsoluteSD_def rel_fields [OF l] n20 True
  note sid_step = sid_comp.sr_copy_step [OF assms(1)]
  note acl_step = acl_comp.sr_copy_step [OF assms(1)]
  let ?n = "unat alen" and ?o = "\<lambda>i. rel_off r i"
  show ?thesis
  proof (cases "sid_comp.part_ok r rel_len (?o 4) \<and> sid_comp.part_size r (?o 4) \<le> ?n")
    case t1: True
    with sid_step [OF assms(2), of 0 "?o 4"] obtain po w1 u1 where
      s1: "sr_copy RtlLengthSidBounded r rel_len alen (?o 4) (wp, 0) = Some (Some (po, w1, u1))"
        "unat u1 = sid_comp.part_size r (?o 4)" "same_outside ?n wp w1"
        "placed w1 u1 po (sid_comp.comp_at r (?o 4))" "?o 4 \<noteq> 0 \<longrightarrow> sid_ok (drop (unat (?o 4)) r)"
      by auto
    have l1: "?n \<le> length w1" "unat u1 \<le> ?n" using assms(2) s1 t1 by (auto simp: same_outside_def)
    show ?thesis
    proof (cases "sid_comp.part_ok r rel_len (?o 8) \<and> unat u1 + sid_comp.part_size r (?o 8) \<le> ?n")
      case t2: True
      with sid_step [OF l1, of "?o 8"] obtain pg w2 u2 where
        s2: "sr_copy RtlLengthSidBounded r rel_len alen (?o 8) (w1, u1) = Some (Some (pg, w2, u2))"
          "unat u2 = unat u1 + sid_comp.part_size r (?o 8)" "same_outside ?n w1 w2"
          "take (unat u1) w2 = take (unat u1) w1"
          "placed w2 u2 pg (sid_comp.comp_at r (?o 8))" "?o 8 \<noteq> 0 \<longrightarrow> sid_ok (drop (unat (?o 8)) r)"
        by auto
      have o2: "same_outside ?n wp w2" using s1(3) s2(3) by (rule same_outside_trans)
      have l2: "?n \<le> length w2" "unat u2 \<le> ?n" using l1 s2 t2 by (auto simp: same_outside_def)
      show ?thesis
      proof (cases "acl_comp.part_ok r rel_len (?o 12) \<and> unat u2 + acl_comp.part_size r (?o 12) \<le> ?n")
        case t3: True
        with acl_step [OF l2, of "?o 12"] obtain ps w3 u3 where
          s3: "sr_copy acl_complen r rel_len alen (?o 12) (w2, u2) = Some (Some (ps, w3, u3))"
            "unat u3 = unat u2 + acl_comp.part_size r (?o 12)" "same_outside ?n w2 w3"
            "take (unat u2) w3 = take (unat u2) w2"
            "placed w3 u3 ps (acl_comp.comp_at r (?o 12))" "?o 12 \<noteq> 0 \<longrightarrow> acl_ok (drop (unat (?o 12)) r)"
          by auto
        have o3: "same_outside ?n wp w3" using o2 s3(3) by (rule same_outside_trans)
        have l3: "?n \<le> length w3" "unat u3 \<le> ?n" using l2 s3 t3 by (auto simp: same_outside_def)
        show ?thesis
        proof (cases "acl_comp.part_ok r rel_len (?o 16) \<and> unat u3 + acl_comp.part_size r (?o 16) \<le> ?n")
          case t4: True
          with acl_step [OF l3, of "?o 16"] obtain pd w4 u4 where
            s4: "sr_copy acl_complen r rel_len alen (?o 16) (w3, u3) = Some (Some (pd, w4, u4))"
              "unat u4 = unat u3 + acl_comp.part_size r (?o 16)" "same_outside ?n w3 w4"
              "take (unat u3) w4 = take (unat u3) w3"
              "placed w4 u4 pd (acl_comp.comp_at r (?o 16))" "?o 16 \<noteq> 0 \<longrightarrow> acl_ok (drop (unat (?o 16)) r)"
            by auto
          have u: "unat u1 \<le> unat u2" "unat u2 \<le> unat u3" "unat u3 \<le> unat u4" using s2 s3 s4 by auto
          have p3: "placed w4 u4 ps (acl_comp.comp_at r (?o 12))" by (rule placed_mono [OF s3(5) s4(4) u(3)])
          have p2: "placed w4 u4 pg (sid_comp.comp_at r (?o 8))"
            by (rule placed_mono [OF placed_mono [OF s2(5) s3(4) u(2)] s4(4) u(3)])
          have p1: "placed w4 u4 po (sid_comp.comp_at r (?o 4))"
            by (rule placed_mono [OF placed_mono [OF placed_mono [OF s1(4) s2(4) u(1)] s3(4) u(2)] s4(4) u(3)])
          have acc: "rel_accepts r rel_len alen"
            using True t1 t2 t3 t4 s1(2) s2(2) s3(2) s4(2) by (simp add: rel_accepts_def)
          from sr_descr_view [OF p1 s1(5) p2 s2(6) p3 s3(6) s4(5,6)] same_outside_trans [OF o3 s4(3)] acc
          show ?thesis using True s1(1) s2(1) s3(1) s4(1)
            by (auto simp: unf rel_outcome_def rel_comps_def comp_at_part sr_descr_def Let_def)
        next
          case False
          then have "sr_copy acl_complen r rel_len alen (?o 16) (w3, u3) = Some None"
            using acl_step [OF l3, of "?o 16"] by auto
          moreover have "\<not> rel_accepts r rel_len alen"
            using False s1(2) s2(2) s3(2) by (auto simp: rel_accepts_def)
          ultimately show ?thesis using o3 s1(1) s2(1) s3(1) True by (simp add: unf rel_outcome_reject)
        qed
      next
        case False
        then have "sr_copy acl_complen r rel_len alen (?o 12) (w2, u2) = Some None"
          using acl_step [OF l2, of "?o 12"] by auto
        moreover have "\<not> rel_accepts r rel_len alen"
          using False s1(2) s2(2) by (auto simp: rel_accepts_def)
        ultimately show ?thesis using o2 s1(1) s2(1) True by (simp add: unf rel_outcome_reject)
      qed
    next
      case False
      then have "sr_copy RtlLengthSidBounded r rel_len alen (?o 8) (w1, u1) = Some None"
        using sid_step [OF l1, of "?o 8"] by auto
      moreover have "\<not> rel_accepts r rel_len alen" using False s1(2) by (auto simp: rel_accepts_def)
      ultimately show ?thesis using s1(1,3) True by (simp add: unf rel_outcome_reject)
    qed
  next
    case False
    then have "sr_copy RtlLengthSidBounded r rel_len alen (?o 4) (wp, 0) = Some None"
      using sid_step [OF assms(2), of 0 "?o 4"] by auto
    moreover have "\<not> rel_accepts r rel_len alen" using False by (auto simp: rel_accepts_def)
    ultimately show ?thesis using True by (simp add: unf rel_outcome_reject)
  qed
qed

section \<open>From absolute to self-relative\<close>

definition part_of :: "bytes option \<Rightarrow> u32 \<Rightarrow> bytes" where
  "part_of c len = (case c of None \<Rightarrow> [] | Some x \<Rightarrow> take (unat len) x)"

definition part_len_ok :: "bytes option \<Rightarrow> u32 \<Rightarrow> bool" where
  "part_len_ok c len \<longleftrightarrow> (case c of None \<Rightarrow> len = 0 | Some x \<Rightarrow> len \<noteq> 0 \<and> unat len \<le> length x)"

lemma length_part_of: "part_len_ok c len \<Longrightarrow> length (part_of c len) = unat len"
  by (auto simp: part_of_def part_len_ok_def split: option.splits)

lemma rel_put_eq:
  assumes "length H = field" and "unat off = field + 4 + length M" and "unat len \<le> length rest"
    and "part_len_ok c len"
  shows "rel_put field c len (H @ enc32 0 @ M @ rest, off) =
    Some (H @ enc32 (if c = None then 0 else off) @ M @ part_of c len @ drop (unat len) rest, off + len)"
proof (cases c)
  case (Some x)
  then have x: "len \<noteq> 0" "unat len \<le> length x" using assms(4) by (auto simp: part_len_ok_def)
  have "wr32 (H @ enc32 0 @ M @ rest) field off = Some (H @ enc32 off @ M @ rest)"
    using assms(1) by (subst wr32_at) simp_all
  moreover have "rd_bytes x 0 (unat len) = Some (part_of c len)"
    using x Some by (simp add: rd_bytes_Some_iff part_of_def)
  moreover have "wr_bytes ((H @ enc32 off @ M) @ rest) (unat off) (part_of c len) =
      Some ((H @ enc32 off @ M) @ part_of c len @ drop (unat len) rest)"
    using assms length_part_of [OF assms(4)] by (subst wr_bytes_at) simp_all
  ultimately show ?thesis using Some x by (simp add: rel_put_def)
qed (use assms(4) in \<open>simp add: rel_put_def part_of_def part_len_ok_def\<close>)

lemma rel_off_at: "i = length H \<Longrightarrow> rel_off (H @ enc32 v @ T) i = v"
  using dec32_enc32 [of v] by (simp add: rel_off_def nth_append numeral_2_eq_2)

lemma sid_part_len:
  assumes "pred_option sid_ok c"
  obtains n where "RtlLengthSid c = Some n" and "part_len_ok c n" and "unat n \<le> 68"
    and "part_of c n = sid_comp.opt_body c"
proof (cases c)
  case None
  then show ?thesis
    using that [of 0] by (simp add: RtlLengthSid_def part_len_ok_def part_of_def sid_comp.opt_body_def)
next
  case (Some s)
  then have ok: "sid_ok s" using assms by simp
  obtain n where n: "RtlLengthSid (Some s) = Some n" "unat n = sid_size s"
    using RtlLengthSid_ok [OF ok] by blast
  show ?thesis
  proof (rule that [of n])
    show "part_len_ok c n"
      using n(2) ok Some sid_size_ge [of s] by (auto simp: part_len_ok_def simp del: sid_size_ge)
  qed (use n Some sid_ok_size_le [OF ok] in \<open>simp_all add: part_of_def sid_comp.opt_body_def sid_comp.body_def\<close>)
qed

lemma acl_part_len:
  assumes "pred_option acl_ok c"
  obtains n where "acl_size_or_0 c = Some n" and "part_len_ok c n" and "unat n < 65536"
    and "part_of c n = acl_comp.opt_body c"
proof (cases c)
  case None
  then show ?thesis
    using that [of 0] by (simp add: acl_size_or_0_def part_len_ok_def part_of_def acl_comp.opt_body_def)
next
  case (Some m)
  then have h: "acl_hdr_ok m" using assms acl_okD by simp
  let ?n = "ucast (dec16 (m ! 2) (m ! 3)) :: u32"
  have "unat ?n = acl_size m" by (rule acl_size_word)
  then show ?thesis
    using that [of ?n] Some acl_hdr_okD [OF h] acl_size_nonzero [OF h] acl_size_less [of m]
    by (simp add: acl_size_or_0_def part_len_ok_def part_of_def acl_comp.opt_body_def acl_comp.body_def
        rd16_hdr acl_size_def)
qed

text \<open>The image the function writes: the 20-byte header and the components one after the other.\<close>

definition sd_image :: "SECURITY_DESCRIPTOR \<Rightarrow> bytes" where
  "sd_image d =
     (let b1 = sid_comp.opt_body (sd_Owner d); b2 = sid_comp.opt_body (sd_Group d);
          b3 = acl_comp.opt_body (sd_Sacl d); b4 = acl_comp.opt_body (sd_Dacl d);
          at = (\<lambda>c n. enc32 (if c = None then 0 else of_nat n))
      in [sd_Revision d, 0] @ enc16 (sd_Control d OR SE_SELF_RELATIVE) @
         at (sd_Owner d) 20 @ at (sd_Group d) (20 + length b1) @
         at (sd_Sacl d) (20 + length b1 + length b2) @
         at (sd_Dacl d) (20 + length b1 + length b2 + length b3) @ b1 @ b2 @ b3 @ b4)"

lemma length_sd_image:
  "length (sd_image d) = 20 + length (sid_comp.opt_body (sd_Owner d)) + length (sid_comp.opt_body (sd_Group d)) +
     length (acl_comp.opt_body (sd_Sacl d)) + length (acl_comp.opt_body (sd_Dacl d))"
  by (simp add: sd_image_def Let_def)

lemma rel_header_writes:
  assumes "unat needed = 20 + k" and "unat needed \<le> length m"
  shows "do { m \<leftarrow> wr_bytes m 0 (replicate (unat needed) 0); m \<leftarrow> wr8 m 0 r; wr16 m 2 c } =
    Some (([r, 0] @ enc16 c) @ enc32 0 @ (enc32 0 @ enc32 0 @ enc32 0) @ replicate k 0 @ drop (unat needed) m)"
proof -
  let ?z = "enc32 0 @ (enc32 0 @ enc32 0 @ enc32 0) @ replicate k 0 @ drop (unat needed) m"
  have "replicate (unat needed) (0 :: u8) = [0, 0] @ [0, 0] @ enc32 0 @ enc32 0 @ enc32 0 @ enc32 0 @ replicate k 0"
    unfolding assms(1) replicate_add by (simp add: enc32_0 numeral_eq_Suc)
  moreover have "wr_bytes m 0 (replicate (unat needed) 0) = Some (replicate (unat needed) 0 @ drop (unat needed) m)"
    using assms(2) by (simp add: wr_bytes_0)
  ultimately have "wr_bytes m 0 (replicate (unat needed) 0) = Some ([0, 0] @ [0, 0] @ ?z)" by simp
  moreover have "wr8 ([0, 0] @ [0, 0] @ ?z) 0 r = Some ([r, 0] @ [0, 0] @ ?z)"
    by (simp add: wr8_def wr_bytes_def)
  moreover have "wr16 ([r, 0] @ [0, 0] @ ?z) 2 c = Some (([r, 0] @ enc16 c) @ ?z)"
    by (subst wr16_at) simp_all
  ultimately show ?thesis by simp
qed

lemma RtlAbsoluteToSelfRelativeSD_image:
  assumes "sd_wf d" and "length (sd_image d) \<le> unat len" and "unat len \<le> length m"
  shows "RtlAbsoluteToSelfRelativeSD (Some d) (Some m) (Some len) =
    Some (0, Some (sd_image d @ drop (length (sd_image d)) m), Some (of_nat (length (sd_image d))))"
proof -
  have wf: "pred_option sid_ok (sd_Owner d)" "pred_option sid_ok (sd_Group d)"
      "pred_option acl_ok (sd_Sacl d)" "pred_option acl_ok (sd_Dacl d)"
    using assms(1) by (simp_all add: sd_wf_def)
  obtain n1 where n1: "RtlLengthSid (sd_Owner d) = Some n1" "part_len_ok (sd_Owner d) n1" "unat n1 \<le> 68"
      "part_of (sd_Owner d) n1 = sid_comp.opt_body (sd_Owner d)"
    by (rule sid_part_len [OF wf(1)])
  obtain n2 where n2: "RtlLengthSid (sd_Group d) = Some n2" "part_len_ok (sd_Group d) n2" "unat n2 \<le> 68"
      "part_of (sd_Group d) n2 = sid_comp.opt_body (sd_Group d)"
    by (rule sid_part_len [OF wf(2)])
  obtain n3 where n3: "acl_size_or_0 (sd_Sacl d) = Some n3" "part_len_ok (sd_Sacl d) n3" "unat n3 < 65536"
      "part_of (sd_Sacl d) n3 = acl_comp.opt_body (sd_Sacl d)"
    by (rule acl_part_len [OF wf(3)])
  obtain n4 where n4: "acl_size_or_0 (sd_Dacl d) = Some n4" "part_len_ok (sd_Dacl d) n4" "unat n4 < 65536"
      "part_of (sd_Dacl d) n4 = acl_comp.opt_body (sd_Dacl d)"
    by (rule acl_part_len [OF wf(4)])
  note lens = length_part_of [OF n1(2)] length_part_of [OF n2(2)] length_part_of [OF n3(2)] length_part_of [OF n4(2)]
  let ?N = "20 + n1 + n2 + n3 + n4"
  have u: "unat (20 + n1) = 20 + unat n1" "unat (20 + n1 + n2) = 20 + unat n1 + unat n2"
      "unat (20 + n1 + n2 + n3) = 20 + unat n1 + unat n2 + unat n3"
      "unat ?N = 20 + (unat n1 + unat n2 + unat n3 + unat n4)"
    using n1(3) n2(3) n3(3) n4(3) by (simp_all add: unat_word_ariths)
  have L: "length (sd_image d) = unat ?N"
    using lens u(4) by (simp add: length_sd_image n1(4) n2(4) n3(4) n4(4))
  then have le: "unat ?N \<le> length m" and fit: "\<not> len < ?N"
    using assms(2,3) by (auto simp: word_less_nat_alt)
  let ?w = "\<lambda>c n. if c = None then 0 else n"
  let ?H = "[sd_Revision d, 0] @ enc16 (sd_Control d OR SE_SELF_RELATIVE)"
  let ?P1 = "part_of (sd_Owner d) n1" and ?P2 = "part_of (sd_Group d) n2"
  let ?P3 = "part_of (sd_Sacl d) n3" and ?P4 = "part_of (sd_Dacl d) n4"
  let ?o1 = "enc32 (?w (sd_Owner d) 20)" and ?o2 = "enc32 (?w (sd_Group d) (20 + n1))"
  let ?o3 = "enc32 (?w (sd_Sacl d) (20 + n1 + n2))" and ?o4 = "enc32 (?w (sd_Dacl d) (20 + n1 + n2 + n3))"
  let ?r0 = "replicate (unat n1 + unat n2 + unat n3 + unat n4) (0 :: u8) @ drop (unat ?N) m"
  let ?r1 = "drop (unat n1) ?r0" let ?r2 = "drop (unat n2) ?r1"
  let ?r3 = "drop (unat n3) ?r2" let ?r4 = "drop (unat n4) ?r3"
  have r: "unat n1 \<le> length ?r0" "unat n2 \<le> length ?r1" "unat n3 \<le> length ?r2" "unat n4 \<le> length ?r3"
    by simp_all
  have p1: "rel_put 4 (sd_Owner d) n1 (?H @ enc32 0 @ (enc32 0 @ enc32 0 @ enc32 0) @ ?r0, 20) =
      Some (?H @ ?o1 @ (enc32 0 @ enc32 0 @ enc32 0) @ ?P1 @ ?r1, 20 + n1)"
    using r(1) n1(2) by (intro rel_put_eq) simp_all
  have p2: "rel_put 8 (sd_Group d) n2 ((?H @ ?o1) @ enc32 0 @ (enc32 0 @ enc32 0 @ ?P1) @ ?r1, 20 + n1) =
      Some ((?H @ ?o1) @ ?o2 @ (enc32 0 @ enc32 0 @ ?P1) @ ?P2 @ ?r2, 20 + n1 + n2)"
    using r(2) n2(2) u(1) lens by (intro rel_put_eq) simp_all
  have p3: "rel_put 12 (sd_Sacl d) n3 ((?H @ ?o1 @ ?o2) @ enc32 0 @ (enc32 0 @ ?P1 @ ?P2) @ ?r2, 20 + n1 + n2) =
      Some ((?H @ ?o1 @ ?o2) @ ?o3 @ (enc32 0 @ ?P1 @ ?P2) @ ?P3 @ ?r3, 20 + n1 + n2 + n3)"
    using r(3) n3(2) u(2) lens by (intro rel_put_eq) simp_all
  have p4: "rel_put 16 (sd_Dacl d) n4 ((?H @ ?o1 @ ?o2 @ ?o3) @ enc32 0 @ (?P1 @ ?P2 @ ?P3) @ ?r3, 20 + n1 + n2 + n3) =
      Some ((?H @ ?o1 @ ?o2 @ ?o3) @ ?o4 @ (?P1 @ ?P2 @ ?P3) @ ?P4 @ ?r4, ?N)"
    using r(4) n4(2) u(3) lens by (intro rel_put_eq) simp_all
  have "?r4 = drop (unat ?N) m" by simp
  moreover have "sd_image d = ?H @ ?o1 @ ?o2 @ ?o3 @ ?o4 @ ?P1 @ ?P2 @ ?P3 @ ?P4"
  proof -
    have "of_nat (20 + length ?P1) = 20 + n1" "of_nat (20 + length ?P1 + length ?P2) = 20 + n1 + n2"
      "of_nat (20 + length ?P1 + length ?P2 + length ?P3) = 20 + n1 + n2 + n3"
      using lens u(1-3) by simp_all
    then show ?thesis
      unfolding sd_image_def Let_def n1(4) [symmetric] n2(4) [symmetric] n3(4) [symmetric] n4(4) [symmetric]
      by (simp only: of_nat_numeral append_assoc)
  qed
  ultimately have img: "(?H @ ?o1 @ ?o2 @ ?o3) @ ?o4 @ (?P1 @ ?P2 @ ?P3) @ ?P4 @ ?r4 =
      sd_image d @ drop (length (sd_image d)) m"
    unfolding L by simp
  obtain a1 a2 where h: "wr_bytes m 0 (replicate (unat ?N) 0) = Some a1" "wr8 a1 0 (sd_Revision d) = Some a2"
      "wr16 a2 2 (sd_Control d OR SE_SELF_RELATIVE) =
        Some (?H @ enc32 0 @ (enc32 0 @ enc32 0 @ enc32 0) @ ?r0)"
    using rel_header_writes [OF u(4) le, of "sd_Revision d" "sd_Control d OR SE_SELF_RELATIVE"]
    by (auto simp only: bind_eq_Some_conv)
  have "of_nat (length (sd_image d)) = ?N" by (simp add: L)
  then show ?thesis
    using fit p1 p2 p3 p4 h unfolding img
    by (simp only: RtlAbsoluteToSelfRelativeSD_def n1(1) n2(1) n3(1) n4(1) prod.case option.case
        bind.bind_lunit Let_def if_False append_assoc fst_conv)
qed

lemma sd_image_parts:
  assumes "sd_wf d" and R: "R = sd_image d @ T" and n: "n = of_nat (length (sd_image d))"
  shows "rel_comps R = sd_comps d" and "unat n = length (sd_image d)"
    and "sd_Revision d = SECURITY_DESCRIPTOR_REVISION \<Longrightarrow>
      rel_accepts R n alen \<longleftrightarrow> length (sd_image d) \<le> 20 + unat alen"
    and "rel_control R = sd_Control d OR SE_SELF_RELATIVE"
proof -
  let ?c1 = "sd_Owner d" and ?c2 = "sd_Group d" and ?c3 = "sd_Sacl d" and ?c4 = "sd_Dacl d"
  let ?b1 = "sid_comp.opt_body ?c1" and ?b2 = "sid_comp.opt_body ?c2"
  let ?b3 = "acl_comp.opt_body ?c3" and ?b4 = "acl_comp.opt_body ?c4"
  let ?H = "[sd_Revision d, 0] @ enc16 (sd_Control d OR SE_SELF_RELATIVE)"
  let ?n1 = "20 :: nat" let ?n2 = "20 + length ?b1" let ?n3 = "20 + length ?b1 + length ?b2"
  let ?n4 = "20 + length ?b1 + length ?b2 + length ?b3"
  let ?w = "\<lambda>c k. if c = None then 0 else (of_nat k :: u32)"
  let ?e1 = "enc32 (?w ?c1 ?n1)" and ?e2 = "enc32 (?w ?c2 ?n2)"
  let ?e3 = "enc32 (?w ?c3 ?n3)" and ?e4 = "enc32 (?w ?c4 ?n4)"
  have wf: "pred_option sid_ok ?c1" "pred_option sid_ok ?c2" "pred_option acl_ok ?c3" "pred_option acl_ok ?c4"
    using assms(1) by (simp_all add: sd_wf_def)
  note small = sid_comp.length_opt_body [OF wf(1)] sid_comp.length_opt_body [OF wf(2)]
    acl_comp.length_opt_body [OF wf(3)] acl_comp.length_opt_body [OF wf(4)]
  have Req: "R = ?H @ ?e1 @ ?e2 @ ?e3 @ ?e4 @ ?b1 @ ?b2 @ ?b3 @ ?b4 @ T"
    by (simp only: R sd_image_def Let_def append_assoc)
  have off: "rel_off R 4 = ?w ?c1 ?n1" "rel_off R 8 = ?w ?c2 ?n2" "rel_off R 12 = ?w ?c3 ?n3" "rel_off R 16 = ?w ?c4 ?n4"
    using rel_off_at [of 4 ?H "?w ?c1 ?n1"] rel_off_at [of 8 "?H @ ?e1" "?w ?c2 ?n2"]
      rel_off_at [of 12 "?H @ ?e1 @ ?e2" "?w ?c3 ?n3"] rel_off_at [of 16 "?H @ ?e1 @ ?e2 @ ?e3" "?w ?c4 ?n4"]
    unfolding Req by (simp_all only: append_assoc) simp_all
  have u: "unat (of_nat ?n1 :: u32) = ?n1" "unat (of_nat ?n2 :: u32) = ?n2" "unat (of_nat ?n3 :: u32) = ?n3"
      "unat (of_nat ?n4 :: u32) = ?n4"
    using small by (intro unat_of_nat_u32; simp)+
  show un: "unat n = length (sd_image d)"
    unfolding n using small by (intro unat_of_nat_u32) (simp add: length_sd_image)
  have nR: "unat n \<le> length R" and un': "unat n = ?n4 + length ?b4"
    by (simp_all add: un R length_sd_image)
  define h where "h = ?H @ ?e1 @ ?e2 @ ?e3 @ ?e4"
  have Rh: "R = h @ ?b1 @ ?b2 @ ?b3 @ ?b4 @ T" by (simp only: Req h_def append_assoc)
  have h: "length h = 20" by (simp add: h_def)
  have r: "R = h @ ?b1 @ (?b2 @ ?b3 @ ?b4 @ T)" "R = (h @ ?b1) @ ?b2 @ (?b3 @ ?b4 @ T)"
      "R = (h @ ?b1 @ ?b2) @ ?b3 @ (?b4 @ T)" "R = (h @ ?b1 @ ?b2 @ ?b3) @ ?b4 @ T"
    using Rh by simp_all
  have pl: "unat (of_nat ?n1 :: u32) = length h" "unat (of_nat ?n2 :: u32) = length (h @ ?b1)"
      "unat (of_nat ?n3 :: u32) = length (h @ ?b1 @ ?b2)" "unat (of_nat ?n4 :: u32) = length (h @ ?b1 @ ?b2 @ ?b3)"
    unfolding u by (simp_all add: h)
  have ge: "20 \<le> length h" "20 \<le> length (h @ ?b1)" "20 \<le> length (h @ ?b1 @ ?b2)" "20 \<le> length (h @ ?b1 @ ?b2 @ ?b3)"
    by (simp_all add: h)
  have le: "length h + length ?b1 \<le> unat n" "length (h @ ?b1) + length ?b2 \<le> unat n"
      "length (h @ ?b1 @ ?b2) + length ?b3 \<le> unat n" "length (h @ ?b1 @ ?b2 @ ?b3) + length ?b4 \<le> unat n"
    unfolding un' by (simp_all add: h)
  note q1 = sid_comp.opt_part_at [OF r(1) wf(1) off(1) pl(1) ge(1) le(1) nR]
  note q2 = sid_comp.opt_part_at [OF r(2) wf(2) off(2) pl(2) ge(2) le(2) nR]
  note q3 = acl_comp.opt_part_at [OF r(3) wf(3) off(3) pl(3) ge(3) le(3) nR]
  note q4 = acl_comp.opt_part_at [OF r(4) wf(4) off(4) pl(4) ge(4) le(4) nR]
  show "rel_comps R = sd_comps d"
    using q1(3) q2(3) q3(3) q4(3) by (simp add: rel_comps_def sd_comps_def comp_at_part comp_bodies)
  show "rel_control R = sd_Control d OR SE_SELF_RELATIVE"
    using dec16_enc16 [of "sd_Control d OR SE_SELF_RELATIVE"] by (simp add: rel_control_def Req nth_append)
  then have "rel_control R AND SE_SELF_RELATIVE \<noteq> 0"
    by (simp add: SE_SELF_RELATIVE_def bit.conj_disj_distrib2)
  moreover have "20 \<le> n" "R ! 0 = sd_Revision d" by (simp_all add: word_le_nat_alt un' Req)
  ultimately show "rel_accepts R n alen \<longleftrightarrow> length (sd_image d) \<le> 20 + unat alen"
    if "sd_Revision d = SECURITY_DESCRIPTOR_REVISION"
    using that q1(1,2) q2(1,2) q3(1,2) q4(1,2) by (simp add: rel_accepts_def length_sd_image add.assoc)
qed

text \<open>The size of the self-relative form.\<close>

definition sd_size :: "SECURITY_DESCRIPTOR \<Rightarrow> nat" where
  "sd_size d = 20 + (case sd_Owner d of None \<Rightarrow> 0 | Some s \<Rightarrow> sid_size s) +
     (case sd_Group d of None \<Rightarrow> 0 | Some s \<Rightarrow> sid_size s) +
     (case sd_Sacl d of None \<Rightarrow> 0 | Some a \<Rightarrow> acl_size a) + (case sd_Dacl d of None \<Rightarrow> 0 | Some a \<Rightarrow> acl_size a)"

lemma length_sd_image_size: "sd_wf d \<Longrightarrow> length (sd_image d) = sd_size d"
  by (auto simp: sd_wf_def length_sd_image sd_size_def sid_comp.opt_body_def acl_comp.opt_body_def
      sid_comp.length_body acl_comp.length_body split: option.splits)

section \<open>Properties\<close>

text \<open>
  C17: \<open>RtlSelfRelativeToAbsoluteSD\<close> is safe on untrusted bytes. For any \<open>rel_len\<close> readable input
  bytes and any workspace of \<open>abs_buf_len\<close> bytes it reads and writes only inside them. It
  returns 0 exactly for the descriptors with the right revision and control flag whose four
  components are null or well formed inside the input and fit together in the workspace, and then
  every pointer of the result designates a well-formed component equal to the one in the input;
  otherwise it returns -1.
\<close>

theorem RtlSelfRelativeToAbsoluteSD_safe:
  assumes "unat rel_len \<le> length r" and "unat alen \<le> length wp"
  shows "\<exists>rc d' wp'.
    RtlSelfRelativeToAbsoluteSD (Some r) rel_len (Some d) (Some wp) alen = Some (rc, Some d', Some wp') \<and>
    length wp' = length wp \<and> drop (unat alen) wp' = drop (unat alen) wp \<and>
    rc = (if rel_accepts r rel_len alen then 0 else -1) \<and>
    (rc = 0 \<longrightarrow> sd_wf d' \<and> sd_comps d' = rel_comps r \<and> sd_Revision d' = SECURITY_DESCRIPTOR_REVISION \<and>
      sd_Control d' = rel_control r AND NOT SE_SELF_RELATIVE)"
  using RtlSelfRelativeToAbsoluteSD_outcome [OF assms, of d]
  by (cases "rel_accepts r rel_len alen") (fastforce simp: rel_outcome_def same_outside_def)+

definition sample_abs :: SECURITY_DESCRIPTOR where
  "sample_abs = \<lparr>sd_Revision = 1, sd_Sbz1 = 0, sd_Control = 0, sd_Owner = None, sd_Group = None,
     sd_Sacl = None, sd_Dacl = None\<rparr>"

definition sample_rel :: bytes where
  "sample_rel = [1, 0, 0, 128] @ enc32 20 @ enc32 0 @ enc32 0 @ enc32 0 @ SeLocalSystemSid"

theorem RtlSelfRelativeToAbsoluteSD_safe_witness:
  "\<exists>rc d' wp'.
    RtlSelfRelativeToAbsoluteSD (Some sample_rel) 32 (Some sample_abs) (Some (replicate 16 0)) 12 =
      Some (rc, Some d', Some wp') \<and>
    length wp' = length (replicate 16 (0 :: u8)) \<and>
    drop (unat (12 :: u32)) wp' = drop (unat (12 :: u32)) (replicate 16 0) \<and>
    rc = (if rel_accepts sample_rel 32 12 then 0 else -1) \<and>
    (rc = 0 \<longrightarrow> sd_wf d' \<and> sd_comps d' = rel_comps sample_rel \<and> sd_Revision d' = SECURITY_DESCRIPTOR_REVISION \<and>
      sd_Control d' = rel_control sample_rel AND NOT SE_SELF_RELATIVE)"
  by (rule RtlSelfRelativeToAbsoluteSD_safe) (simp_all add: sample_rel_def SeLocalSystemSid_def mk_sid_def)

text \<open>
  C18: The two descriptor formats round-trip. An absolute descriptor of revision 1 whose components
  are well formed, written by \<open>RtlAbsoluteToSelfRelativeSD\<close> into a buffer that is large enough,
  takes exactly its size, and \<open>RtlSelfRelativeToAbsoluteSD\<close> on those bytes with a workspace for the
  components succeeds and yields the same owner, group, SACL and DACL, and the same control flags
  up to \<open>SE_SELF_RELATIVE\<close>.
\<close>

theorem sd_round_trip:
  assumes "sd_wf d" and "sd_Revision d = SECURITY_DESCRIPTOR_REVISION"
    and "sd_size d \<le> unat len" and "unat len \<le> length m"
    and "sd_size d \<le> 20 + unat alen" and "unat alen \<le> length wp"
  shows "\<exists>m' n d' wp'. RtlAbsoluteToSelfRelativeSD (Some d) (Some m) (Some len) = Some (0, Some m', Some n) \<and>
    unat n = sd_size d \<and>
    RtlSelfRelativeToAbsoluteSD (Some m') n (Some d0) (Some wp) alen = Some (0, Some d', Some wp') \<and>
    sd_wf d' \<and> sd_comps d' = sd_comps d \<and> sd_Control d' = sd_Control d AND NOT SE_SELF_RELATIVE"
proof -
  let ?R = "sd_image d @ drop (length (sd_image d)) m" and ?n = "of_nat (length (sd_image d)) :: u32"
  note L = length_sd_image_size [OF assms(1)]
  note im = sd_image_parts [OF assms(1), of ?R "drop (length (sd_image d)) m" ?n, OF refl refl]
  have acc: "rel_accepts ?R ?n alen" using im(3) [OF assms(2)] assms(5) L by simp
  have "unat ?n \<le> length ?R" by (simp add: im(2))
  from RtlSelfRelativeToAbsoluteSD_outcome [OF this assms(6), of d0] acc im(1,4)
  obtain d' wp' where "RtlSelfRelativeToAbsoluteSD (Some ?R) ?n (Some d0) (Some wp) alen = Some (0, Some d', Some wp')"
      "sd_wf d'" "sd_comps d' = sd_comps d" "sd_Control d' = (sd_Control d OR SE_SELF_RELATIVE) AND NOT SE_SELF_RELATIVE"
    by (auto simp: rel_outcome_def)
  moreover have "(sd_Control d OR SE_SELF_RELATIVE) AND NOT SE_SELF_RELATIVE = sd_Control d AND NOT SE_SELF_RELATIVE"
    by (simp add: bit.conj_disj_distrib2)
  moreover have "RtlAbsoluteToSelfRelativeSD (Some d) (Some m) (Some len) = Some (0, Some ?R, Some ?n)"
    using assms(3,4) L by (intro RtlAbsoluteToSelfRelativeSD_image [OF assms(1)]) simp_all
  ultimately show ?thesis using im(2) L by auto
qed

theorem sd_round_trip_witness:
  "\<exists>m' n d' wp'. RtlAbsoluteToSelfRelativeSD (Some (sample_abs\<lparr>sd_Owner := Some SeLocalSystemSid\<rparr>))
      (Some (replicate 40 0)) (Some 40) = Some (0, Some m', Some n) \<and>
    unat n = sd_size (sample_abs\<lparr>sd_Owner := Some SeLocalSystemSid\<rparr>) \<and>
    RtlSelfRelativeToAbsoluteSD (Some m') n (Some sample_abs) (Some (replicate 16 0)) 16 = Some (0, Some d', Some wp') \<and>
    sd_wf d' \<and> sd_comps d' = sd_comps (sample_abs\<lparr>sd_Owner := Some SeLocalSystemSid\<rparr>) \<and>
    sd_Control d' = sd_Control (sample_abs\<lparr>sd_Owner := Some SeLocalSystemSid\<rparr>) AND NOT SE_SELF_RELATIVE"
proof (rule sd_round_trip)
  have "sid_ok SeLocalSystemSid" by code_simp
  then show "sd_wf (sample_abs\<lparr>sd_Owner := Some SeLocalSystemSid\<rparr>)" by (simp add: sd_wf_def sample_abs_def)
  have "sid_size SeLocalSystemSid = 12" by code_simp
  then show "sd_size (sample_abs\<lparr>sd_Owner := Some SeLocalSystemSid\<rparr>) \<le> unat (40 :: u32)"
    "sd_size (sample_abs\<lparr>sd_Owner := Some SeLocalSystemSid\<rparr>) \<le> 20 + unat (16 :: u32)"
    by (simp_all add: sd_size_def sample_abs_def)
qed (simp_all add: sample_abs_def SECURITY_DESCRIPTOR_REVISION_def)

end
