(* ===== verification/Sec_Privileges.thy ===== *)
theory Sec_Privileges
  imports Libc_Format
begin

text \<open>
  \<open>src/kernel/security/luid.c\<close> and \<open>privileges.c\<close>: locally unique identifiers, privilege sets and
  the privilege check that guards privileged system calls, with the \<open>ACCESS_TOKEN\<close> structure of
  \<open>token.h\<close> they read. A fixed C array is a list whose length is the array's; reading outside
  it is a fault.
\<close>

section \<open>LUIDs\<close>

record LUID =
  LowPart :: u32
  HighPart :: "32 word"   \<comment> \<open>\<open>int32_t\<close>, by its bits\<close>

definition mk_luid :: "u32 \<Rightarrow> LUID" where
  "mk_luid n = \<lparr>LowPart = n, HighPart = 0\<rparr>"

definition RtlEqualLuid :: "LUID \<Rightarrow> LUID \<Rightarrow> bool" where
  "RtlEqualLuid a b \<longleftrightarrow> LowPart a = LowPart b \<and> HighPart a = HighPart b"

definition RtlIsZeroLuid :: "LUID \<Rightarrow> bool" where
  "RtlIsZeroLuid l \<longleftrightarrow> LowPart l = 0 \<and> HighPart l = 0"

definition RtlLuidFromValue :: "u64 \<Rightarrow> LUID" where
  "RtlLuidFromValue value = \<lparr>LowPart = ucast value, HighPart = ucast (drop_bit 32 value)\<rparr>"

definition g_next_luid_init :: u64 where "g_next_luid_init = 1000"

text \<open>The counter before and after; \<open>atomic64_fetch_add\<close> returns the previous value.\<close>

definition NtAllocateLocallyUniqueId :: "u64 \<Rightarrow> LUID \<times> u64" where
  "NtAllocateLocallyUniqueId g = (RtlLuidFromValue (g + 1), g + 1)"

section \<open>Privileges and tokens\<close>

record LUID_AND_ATTRIBUTES =
  la_Luid :: LUID
  la_Attributes :: u32

record PRIVILEGE_SET =
  ps_PrivilegeCount :: u32
  ps_Control :: u32
  ps_Privilege :: "LUID_AND_ATTRIBUTES list"

record SID_AND_ATTRIBUTES =
  sa_Sid :: "bytes option"
  sa_Attributes :: u32

datatype TOKEN_TYPE = TokenPrimary | TokenImpersonation

datatype SECURITY_IMPERSONATION_LEVEL =
  SecurityAnonymous | SecurityIdentification | SecurityImpersonation | SecurityDelegation

datatype TOKEN_ELEVATION_TYPE =
  TokenElevationTypeDefault | TokenElevationTypeFull | TokenElevationTypeLimited

definition TOKEN_MAX_GROUPS :: nat where "TOKEN_MAX_GROUPS = 32"
definition TOKEN_MAX_PRIVS :: nat where "TOKEN_MAX_PRIVS = 36"

record ACCESS_TOKEN =
  t_UserSid :: "bytes option"
  t_GroupCount :: u32
  t_Groups :: "SID_AND_ATTRIBUTES list"
  t_PrivilegeCount :: u32
  t_Privileges :: "LUID_AND_ATTRIBUTES list"
  t_PrimaryGroup :: "bytes option"
  t_DefaultDacl :: "bytes option"
  t_TokenType :: TOKEN_TYPE
  t_ImpersonationLevel :: SECURITY_IMPERSONATION_LEVEL
  t_TokenId :: LUID
  t_AuthenticationId :: LUID
  t_ModifiedId :: LUID
  t_SessionId :: u32
  t_IntegrityLevelSid :: "bytes option"
  t_IntegrityPolicy :: u32
  t_IsElevated :: u32
  t_LinkedTokenId :: LUID
  t_ElevationType :: TOKEN_ELEVATION_TYPE
  t_RestrictedSids :: "bytes option"
  t_RestrictedSidCount :: u32
  t_Flags :: u32
  t_QuotaBlock :: "nat option"

definition SE_PRIVILEGE_ENABLED_BY_DEFAULT :: u32 where "SE_PRIVILEGE_ENABLED_BY_DEFAULT = 0x1"
definition SE_PRIVILEGE_ENABLED :: u32 where "SE_PRIVILEGE_ENABLED = 0x2"
definition SE_PRIVILEGE_REMOVED :: u32 where "SE_PRIVILEGE_REMOVED = 0x4"
definition SE_PRIVILEGE_USED_FOR_ACCESS :: u32 where "SE_PRIVILEGE_USED_FOR_ACCESS = 0x80000000"
definition PRIVILEGE_SET_ALL_NECESSARY :: u32 where "PRIVILEGE_SET_ALL_NECESSARY = 1"
definition SE_KERNEL_MODE :: u32 where "SE_KERNEL_MODE = 0"

definition SeCreateTokenPrivilege :: LUID where "SeCreateTokenPrivilege = mk_luid 2"
definition SeAssignPrimaryTokenPrivilege :: LUID where "SeAssignPrimaryTokenPrivilege = mk_luid 3"
definition SeLockMemoryPrivilege :: LUID where "SeLockMemoryPrivilege = mk_luid 4"
definition SeIncreaseQuotaPrivilege :: LUID where "SeIncreaseQuotaPrivilege = mk_luid 5"
definition SeTcbPrivilege :: LUID where "SeTcbPrivilege = mk_luid 7"
definition SeSecurityPrivilege :: LUID where "SeSecurityPrivilege = mk_luid 8"
definition SeTakeOwnershipPrivilege :: LUID where "SeTakeOwnershipPrivilege = mk_luid 9"
definition SeLoadDriverPrivilege :: LUID where "SeLoadDriverPrivilege = mk_luid 10"
definition SeSystemProfilePrivilege :: LUID where "SeSystemProfilePrivilege = mk_luid 11"
definition SeSystemtimePrivilege :: LUID where "SeSystemtimePrivilege = mk_luid 12"
definition SeProfileSingleProcessPrivilege :: LUID where "SeProfileSingleProcessPrivilege = mk_luid 13"
definition SeIncreaseBasePriorityPrivilege :: LUID where "SeIncreaseBasePriorityPrivilege = mk_luid 14"
definition SeCreatePagefilePrivilege :: LUID where "SeCreatePagefilePrivilege = mk_luid 15"
definition SeCreatePermanentPrivilege :: LUID where "SeCreatePermanentPrivilege = mk_luid 16"
definition SeBackupPrivilege :: LUID where "SeBackupPrivilege = mk_luid 17"
definition SeRestorePrivilege :: LUID where "SeRestorePrivilege = mk_luid 18"
definition SeShutdownPrivilege :: LUID where "SeShutdownPrivilege = mk_luid 19"
definition SeDebugPrivilege :: LUID where "SeDebugPrivilege = mk_luid 20"
definition SeAuditPrivilege :: LUID where "SeAuditPrivilege = mk_luid 21"
definition SeChangeNotifyPrivilege :: LUID where "SeChangeNotifyPrivilege = mk_luid 23"
definition SeUndockPrivilege :: LUID where "SeUndockPrivilege = mk_luid 25"
definition SeManageVolumePrivilege :: LUID where "SeManageVolumePrivilege = mk_luid 28"
definition SeImpersonatePrivilege :: LUID where "SeImpersonatePrivilege = mk_luid 29"
definition SeCreateGlobalPrivilege :: LUID where "SeCreateGlobalPrivilege = mk_luid 30"
definition SeCreateSymbolicLinkPrivilege :: LUID where "SeCreateSymbolicLinkPrivilege = mk_luid 35"

section \<open>Names\<close>

text \<open>The table up to, and without, its terminating null name.\<close>

definition g_priv_names :: "(u32 \<times> string) list" where
  "g_priv_names =
    [( 2, ''SeCreateTokenPrivilege''),
     ( 3, ''SeAssignPrimaryTokenPrivilege''),
     ( 4, ''SeLockMemoryPrivilege''),
     ( 5, ''SeIncreaseQuotaPrivilege''),
     ( 7, ''SeTcbPrivilege''),
     ( 8, ''SeSecurityPrivilege''),
     ( 9, ''SeTakeOwnershipPrivilege''),
     (10, ''SeLoadDriverPrivilege''),
     (11, ''SeSystemProfilePrivilege''),
     (12, ''SeSystemtimePrivilege''),
     (13, ''SeProfileSingleProcessPrivilege''),
     (14, ''SeIncreaseBasePriorityPrivilege''),
     (15, ''SeCreatePagefilePrivilege''),
     (16, ''SeCreatePermanentPrivilege''),
     (17, ''SeBackupPrivilege''),
     (18, ''SeRestorePrivilege''),
     (19, ''SeShutdownPrivilege''),
     (20, ''SeDebugPrivilege''),
     (21, ''SeAuditPrivilege''),
     (23, ''SeChangeNotifyPrivilege''),
     (25, ''SeUndockPrivilege''),
     (28, ''SeManageVolumePrivilege''),
     (29, ''SeImpersonatePrivilege''),
     (30, ''SeCreateGlobalPrivilege''),
     (35, ''SeCreateSymbolicLinkPrivilege'')]"

definition RtlPrivilegeLuidToName :: "LUID option \<Rightarrow> string option" where
  "RtlPrivilegeLuidToName luid =
     (case luid of
        None \<Rightarrow> None
      | Some l \<Rightarrow>
          if HighPart l \<noteq> 0 then None
          else map_option snd (find (\<lambda>e. fst e = LowPart l) g_priv_names))"

primrec priv_str_loop ::
  "nat \<Rightarrow> u32 \<Rightarrow> LUID_AND_ATTRIBUTES list \<Rightarrow> u32 \<Rightarrow> string \<Rightarrow> u32 \<Rightarrow> (int \<times> string option) option" where
  "priv_str_loop 0 i ps len b pos = Some (int (unat pos), Some b)"
| "priv_str_loop (Suc n) i ps len b pos =
     (if \<not> pos < len - 1 then Some (int (unat pos), Some b)
      else if length ps \<le> unat i then None
      else do {
        let p = ps ! unat i;
        let remaining = len - pos;
        let flag = (if la_Attributes p AND SE_PRIVILEGE_REMOVED \<noteq> 0 then ''R''
                    else if la_Attributes p AND SE_PRIVILEGE_ENABLED \<noteq> 0 then ''E'' else ''D'');
        let sep = (if i > 0 then '' '' else '''');
        let text = (case RtlPrivilegeLuidToName (Some (la_Luid p)) of
                      Some name \<Rightarrow> sep @ name @ ''('' @ flag @ '')''
                    | None \<Rightarrow> sep @ ''Priv'' @ fmt_u (unat (LowPart (la_Luid p))) @ ''('' @ flag @ '')'');
        (b', written) \<leftarrow> c_snprintf b (unat pos) (unat remaining) text;
        if (of_nat written :: u32) \<ge> remaining then Some (int (unat pos), Some b')
        else priv_str_loop n (i + 1) ps len b' (pos + of_nat written) })"

definition RtlPrivilegeSetToString ::
  "PRIVILEGE_SET option \<Rightarrow> string option \<Rightarrow> u32 \<Rightarrow> (int \<times> string option) option" where
  "RtlPrivilegeSetToString ps buf len =
     (case (ps, buf) of
        (Some s, Some b) \<Rightarrow>
          if len < 4 then Some (-1, buf)
          else if ps_PrivilegeCount s > of_nat TOKEN_MAX_PRIVS then Some (-1, buf)
          else (case b of
                  [] \<Rightarrow> None
                | _ # bs \<Rightarrow>
                    if len < 8 then Some (0, Some (CHR 0x00 # bs))
                    else priv_str_loop (unat (ps_PrivilegeCount s)) 0 (ps_Privilege s) len (CHR 0x00 # bs) 0)
      | _ \<Rightarrow> Some (-1, buf))"

section \<open>Privilege checks\<close>

text \<open>\<open>thread_current()\<close> with its impersonation token and \<open>task_current()\<close> with its primary token.\<close>

type_synonym subject = "ACCESS_TOKEN option option \<times> ACCESS_TOKEN option option"

definition sep_effective_token :: "subject \<Rightarrow> ACCESS_TOKEN option" where
  "sep_effective_token sb =
     (case sb of (thr, cur) \<Rightarrow>
        let tok = (case thr of Some t \<Rightarrow> t | None \<Rightarrow> None) in
        if tok = None then (case cur of Some t \<Rightarrow> t | None \<Rightarrow> None) else tok)"

primrec sep_scan :: "nat \<Rightarrow> nat \<Rightarrow> LUID_AND_ATTRIBUTES list \<Rightarrow> LUID \<Rightarrow> bool option" where
  "sep_scan 0 i ps luid = Some False"
| "sep_scan (Suc n) i ps luid =
     (if length ps \<le> i then None
      else if RtlEqualLuid (la_Luid (ps ! i)) luid \<and> la_Attributes (ps ! i) AND SE_PRIVILEGE_ENABLED \<noteq> 0
           then Some True
      else sep_scan n (Suc i) ps luid)"

definition sep_token_holds :: "ACCESS_TOKEN option \<Rightarrow> LUID option \<Rightarrow> bool option" where
  "sep_token_holds tok luid =
     (case (tok, luid) of
        (Some t, Some l) \<Rightarrow>
          if t_PrivilegeCount t > of_nat TOKEN_MAX_PRIVS then Some False
          else sep_scan (unat (t_PrivilegeCount t)) 0 (t_Privileges t) l
      | _ \<Rightarrow> Some False)"

text \<open>The marking loop; its state is the set's array and the number held.\<close>

definition priv_mark ::
  "ACCESS_TOKEN \<Rightarrow> nat \<Rightarrow> LUID_AND_ATTRIBUTES list \<times> u32 \<Rightarrow> (LUID_AND_ATTRIBUTES list \<times> u32) option" where
  "priv_mark tok i st =
     (case st of (ps, held) \<Rightarrow>
       if length ps \<le> i then None
       else do {
         h \<leftarrow> sep_token_holds (Some tok) (Some (la_Luid (ps ! i)));
         if h then Some (ps[i := (ps ! i)\<lparr>la_Attributes := la_Attributes (ps ! i) OR SE_PRIVILEGE_USED_FOR_ACCESS\<rparr>],
                         held + 1)
         else Some (ps, held) })"

text \<open>Result and the privilege set afterwards.\<close>

definition SePrivilegeCheckToken ::
  "ACCESS_TOKEN option \<Rightarrow> PRIVILEGE_SET option \<Rightarrow> u32 \<Rightarrow> (bool \<times> PRIVILEGE_SET option) option" where
  "SePrivilegeCheckToken token ps access_mode =
     (if access_mode = SE_KERNEL_MODE then Some (True, ps)
      else case ps of
        None \<Rightarrow> Some (False, ps)
      | Some s \<Rightarrow>
          (case token of
             None \<Rightarrow> Some (False, ps)
           | Some tok \<Rightarrow>
               if ps_PrivilegeCount s > of_nat TOKEN_MAX_PRIVS then Some (False, ps)
               else let all_necessary = (ps_Control s AND PRIVILEGE_SET_ALL_NECESSARY \<noteq> 0) in
                 if ps_PrivilegeCount s = 0 then Some (all_necessary, ps)
                 else do {
                   (ps', held) \<leftarrow> for_upto 0 (unat (ps_PrivilegeCount s)) (priv_mark tok) (ps_Privilege s, 0);
                   Some (if all_necessary then held = ps_PrivilegeCount s else held > 0,
                         Some (s\<lparr>ps_Privilege := ps'\<rparr>)) }))"

definition SePrivilegeCheck ::
  "subject \<Rightarrow> PRIVILEGE_SET option \<Rightarrow> u32 \<Rightarrow> (bool \<times> PRIVILEGE_SET option) option" where
  "SePrivilegeCheck sb ps access_mode =
     (if access_mode = SE_KERNEL_MODE then Some (True, ps)
      else SePrivilegeCheckToken (sep_effective_token sb) ps access_mode)"

definition SeSinglePrivilegeCheck :: "subject \<Rightarrow> LUID option \<Rightarrow> u32 \<Rightarrow> bool option" where
  "SeSinglePrivilegeCheck sb privilege access_mode =
     (if access_mode = SE_KERNEL_MODE then Some True
      else case privilege of
        None \<Rightarrow> Some False
      | Some _ \<Rightarrow> sep_token_holds (sep_effective_token sb) privilege)"

section \<open>What a token holds\<close>

definition token_wf :: "ACCESS_TOKEN \<Rightarrow> bool" where
  "token_wf t \<longleftrightarrow>
     length (t_Privileges t) = TOKEN_MAX_PRIVS \<and> length (t_Groups t) = TOKEN_MAX_GROUPS \<and>
     unat (t_PrivilegeCount t) \<le> TOKEN_MAX_PRIVS \<and> unat (t_GroupCount t) \<le> TOKEN_MAX_GROUPS"

text \<open>The privileges and groups in use: the first \<open>Count\<close> elements of the arrays.\<close>

definition token_privs :: "ACCESS_TOKEN \<Rightarrow> LUID_AND_ATTRIBUTES list" where
  "token_privs t = take (unat (t_PrivilegeCount t)) (t_Privileges t)"

definition token_groups :: "ACCESS_TOKEN \<Rightarrow> SID_AND_ATTRIBUTES list" where
  "token_groups t = take (unat (t_GroupCount t)) (t_Groups t)"

definition priv_enabled :: "LUID_AND_ATTRIBUTES \<Rightarrow> bool" where
  "priv_enabled p \<longleftrightarrow> la_Attributes p AND SE_PRIVILEGE_ENABLED \<noteq> 0"

definition holds :: "ACCESS_TOKEN \<Rightarrow> LUID \<Rightarrow> bool" where
  "holds t l \<longleftrightarrow> (\<exists>p \<in> set (token_privs t). la_Luid p = l \<and> priv_enabled p)"

lemma RtlEqualLuid_iff [simp]: "RtlEqualLuid a b \<longleftrightarrow> a = b"
  by (cases a; cases b) (auto simp: RtlEqualLuid_def)

lemma sep_scan_eq:
  "i + n \<le> length ps \<Longrightarrow>
     sep_scan n i ps l = Some (\<exists>p \<in> set (take n (drop i ps)). la_Luid p = l \<and> priv_enabled p)"
proof (induction n arbitrary: i)
  case (Suc n)
  then have "take (Suc n) (drop i ps) = ps ! i # take n (drop (Suc i) ps)"
    by (simp add: Cons_nth_drop_Suc [symmetric])
  with Suc show ?case by (auto simp: priv_enabled_def)
qed simp

lemma sep_token_holds_eq:
  assumes "token_wf t"
  shows "sep_token_holds (Some t) (Some l) = Some (holds t l)"
  using assms
  by (simp add: sep_token_holds_def token_wf_def word_less_nat_alt TOKEN_MAX_PRIVS_def sep_scan_eq
      holds_def token_privs_def)

text \<open>The set's array after the check: held privileges of the first \<open>n\<close> are marked as used.\<close>

definition mark_used :: "ACCESS_TOKEN \<Rightarrow> LUID_AND_ATTRIBUTES \<Rightarrow> LUID_AND_ATTRIBUTES" where
  "mark_used tok p =
     (if holds tok (la_Luid p) then p\<lparr>la_Attributes := la_Attributes p OR SE_PRIVILEGE_USED_FOR_ACCESS\<rparr> else p)"

definition held_in :: "ACCESS_TOKEN \<Rightarrow> LUID_AND_ATTRIBUTES list \<Rightarrow> nat" where
  "held_in tok ps = length (filter (\<lambda>p. holds tok (la_Luid p)) ps)"

lemma priv_mark_loop:
  assumes "token_wf tok" and "n \<le> length ps"
  shows "for_upto 0 n (priv_mark tok) (ps, 0) =
    Some (map (mark_used tok) (take n ps) @ drop n ps, of_nat (held_in tok (take n ps)))"
proof -
  let ?P = "\<lambda>k st. st = (map (mark_used tok) (take k ps) @ drop k ps, of_nat (held_in tok (take k ps)) :: u32)"
  have "\<exists>st. for_upto 0 n (priv_mark tok) (ps, 0) = Some st \<and> ?P n st"
  proof (rule for_upto_inv [where P = ?P])
    fix k st assume k: "k < n" and st: "?P k st"
    let ?xs = "map (mark_used tok) (take k ps) @ drop k ps"
    have kl: "k < length ps" using k assms(2) by simp
    then have nth: "?xs ! k = ps ! k" and lx: "k < length ?xs" by (simp_all add: nth_append)
    have tk: "take (Suc k) ps = take k ps @ [ps ! k]" by (rule take_Suc_conv_app_nth [OF kl])
    have up: "?xs[k := x] = map (mark_used tok) (take k ps) @ x # drop (Suc k) ps" for x
      using kl by (simp add: list_update_append Cons_nth_drop_Suc [symmetric])
    have same: "?xs = map (mark_used tok) (take k ps) @ ps ! k # drop (Suc k) ps"
      using kl by (simp add: Cons_nth_drop_Suc)
    show "\<exists>st'. priv_mark tok k st = Some st' \<and> ?P (Suc k) st'"
      using st nth lx up tk same
      by (auto simp: priv_mark_def sep_token_holds_eq [OF assms(1)] mark_used_def held_in_def)
  qed (simp_all add: held_in_def)
  then show ?thesis by simp
qed

lemma held_in_all: "held_in tok ps = length ps \<longleftrightarrow> (\<forall>p \<in> set ps. holds tok (la_Luid p))"
proof (induction ps)
  case (Cons p ps)
  have "length (filter (\<lambda>p. holds tok (la_Luid p)) ps) \<noteq> Suc (length ps)"
    using length_filter_le [of "\<lambda>p. holds tok (la_Luid p)" ps] by linarith
  with Cons show ?case by (auto simp: held_in_def)
qed (simp add: held_in_def)

lemma held_in_pos: "held_in tok ps = 0 \<longleftrightarrow> \<not> (\<exists>p \<in> set ps. holds tok (la_Luid p))"
  by (simp add: held_in_def filter_empty_conv)

lemma held_in_le: "held_in tok ps \<le> length ps"
  by (simp add: held_in_def)

section \<open>Properties\<close>

text \<open>
  C16: The privilege check decides exactly what it documents. For a caller that is not in kernel mode,
  a well-formed token and a set whose declared privileges are readable, a set with more than
  \<open>TOKEN_MAX_PRIVS\<close> entries is refused untouched; otherwise the check passes exactly when every
  requested privilege (\<open>PRIVILEGE_SET_ALL_NECESSARY\<close>) or some requested privilege is held enabled by
  the token, and exactly the held ones are marked \<open>SE_PRIVILEGE_USED_FOR_ACCESS\<close>. No array is read
  or written outside its bounds.
\<close>

theorem SePrivilegeCheckToken_correct:
  assumes "access_mode \<noteq> SE_KERNEL_MODE" and "token_wf tok"
    and "unat (ps_PrivilegeCount s) \<le> length (ps_Privilege s)"
  shows "SePrivilegeCheckToken (Some tok) (Some s) access_mode =
    (let n = unat (ps_PrivilegeCount s); req = take n (ps_Privilege s) in
     if n > TOKEN_MAX_PRIVS then Some (False, Some s)
     else Some (if ps_Control s AND PRIVILEGE_SET_ALL_NECESSARY \<noteq> 0
                then \<forall>p \<in> set req. holds tok (la_Luid p) else \<exists>p \<in> set req. holds tok (la_Luid p),
                Some (s\<lparr>ps_Privilege := map (mark_used tok) req @ drop n (ps_Privilege s)\<rparr>)))"
proof -
  let ?n = "unat (ps_PrivilegeCount s)"
  let ?req = "take ?n (ps_Privilege s)"
  have le: "held_in tok ?req \<le> ?n" using held_in_le [of tok ?req] by simp
  then have u: "unat (of_nat (held_in tok ?req) :: u32) = held_in tok ?req"
    using unat_u32_less [of "ps_PrivilegeCount s"] by (intro unat_of_nat_u32) simp
  have all: "of_nat (held_in tok ?req) = ps_PrivilegeCount s \<longleftrightarrow> (\<forall>p \<in> set ?req. holds tok (la_Luid p))"
    using held_in_all [of tok ?req] assms(3) by (simp add: word_unat_eq_iff u)
  have ex: "(of_nat (held_in tok ?req) :: u32) > 0 \<longleftrightarrow> (\<exists>p \<in> set ?req. holds tok (la_Luid p))"
    using held_in_pos [of tok ?req] by (auto simp: word_less_nat_alt u)
  have cap: "ps_PrivilegeCount s > of_nat TOKEN_MAX_PRIVS \<longleftrightarrow> ?n > TOKEN_MAX_PRIVS"
    by (simp add: word_less_nat_alt TOKEN_MAX_PRIVS_def)
  show ?thesis
  proof (cases "?n = 0")
    case True
    then show ?thesis
      using assms(1) cap by (simp add: SePrivilegeCheckToken_def word_unat_eq_iff Let_def)
  next
    case False
    then show ?thesis
      using assms(1) cap all ex priv_mark_loop [OF assms(2,3)]
      by (simp add: SePrivilegeCheckToken_def word_unat_eq_iff Let_def)
  qed
qed

text \<open>
  The privilege check fails closed: outside kernel mode it is refused, and the set left alone,
  whenever there is no effective token or no set, and \<open>SeSinglePrivilegeCheck\<close> passes only if the
  effective token (the impersonation token of the thread if it has one, the primary token of the
  task otherwise) holds the privilege enabled.
\<close>

theorem SePrivilegeCheck_fails_closed:
  assumes "access_mode \<noteq> SE_KERNEL_MODE" and "pred_option token_wf (sep_effective_token sb)"
  shows "SePrivilegeCheckToken None ps access_mode = Some (False, ps) \<and>
    SePrivilegeCheckToken tok None access_mode = Some (False, None) \<and>
    SeSinglePrivilegeCheck sb pr access_mode =
      Some (\<exists>t l. sep_effective_token sb = Some t \<and> pr = Some l \<and> holds t l)"
proof -
  have "sep_token_holds None l = Some False" for l by (simp add: sep_token_holds_def)
  then show ?thesis
    using assms
    by (cases "sep_effective_token sb") (auto simp: SePrivilegeCheckToken_def SeSinglePrivilegeCheck_def sep_token_holds_eq
        split: option.splits)
qed

definition sample_token :: ACCESS_TOKEN where
  "sample_token =
     \<lparr>t_UserSid = None, t_GroupCount = 0,
      t_Groups = replicate TOKEN_MAX_GROUPS \<lparr>sa_Sid = None, sa_Attributes = 0\<rparr>, t_PrivilegeCount = 1,
      t_Privileges = \<lparr>la_Luid = SeShutdownPrivilege, la_Attributes = 2\<rparr> #
        replicate (TOKEN_MAX_PRIVS - 1) \<lparr>la_Luid = mk_luid 0, la_Attributes = 0\<rparr>,
      t_PrimaryGroup = None, t_DefaultDacl = None, t_TokenType = TokenPrimary,
      t_ImpersonationLevel = SecurityImpersonation, t_TokenId = mk_luid 0, t_AuthenticationId = mk_luid 0,
      t_ModifiedId = mk_luid 0, t_SessionId = 0, t_IntegrityLevelSid = None, t_IntegrityPolicy = 0,
      t_IsElevated = 0, t_LinkedTokenId = mk_luid 0, t_ElevationType = TokenElevationTypeDefault,
      t_RestrictedSids = None, t_RestrictedSidCount = 0, t_Flags = 0, t_QuotaBlock = None\<rparr>"

definition sample_set :: PRIVILEGE_SET where
  "sample_set = \<lparr>ps_PrivilegeCount = 2, ps_Control = 1,
     ps_Privilege = [\<lparr>la_Luid = SeShutdownPrivilege, la_Attributes = 0\<rparr>,
                     \<lparr>la_Luid = SeDebugPrivilege, la_Attributes = 0\<rparr>]\<rparr>"

lemma sample_token_wf: "token_wf sample_token"
  by (simp add: token_wf_def sample_token_def TOKEN_MAX_PRIVS_def TOKEN_MAX_GROUPS_def)

theorem SePrivilegeCheckToken_correct_witness:
  "SePrivilegeCheckToken (Some sample_token) (Some sample_set) 1 =
    (let n = unat (ps_PrivilegeCount sample_set); req = take n (ps_Privilege sample_set) in
     if n > TOKEN_MAX_PRIVS then Some (False, Some sample_set)
     else Some (if ps_Control sample_set AND PRIVILEGE_SET_ALL_NECESSARY \<noteq> 0
                then \<forall>p \<in> set req. holds sample_token (la_Luid p) else \<exists>p \<in> set req. holds sample_token (la_Luid p),
                Some (sample_set\<lparr>ps_Privilege := map (mark_used sample_token) req @ drop n (ps_Privilege sample_set)\<rparr>)))"
  by (rule SePrivilegeCheckToken_correct) (simp_all add: SE_KERNEL_MODE_def sample_token_wf sample_set_def)

theorem SePrivilegeCheck_fails_closed_witness:
  "SePrivilegeCheckToken None (Some sample_set) 1 = Some (False, Some sample_set) \<and>
   SePrivilegeCheckToken (Some sample_token) None 1 = Some (False, None) \<and>
   SeSinglePrivilegeCheck (Some None, Some (Some sample_token)) (Some SeShutdownPrivilege) 1 =
     Some (\<exists>t l. sep_effective_token (Some None, Some (Some sample_token)) = Some t \<and>
       Some SeShutdownPrivilege = Some l \<and> holds t l)"
  by (rule SePrivilegeCheck_fails_closed) (simp_all add: SE_KERNEL_MODE_def sep_effective_token_def sample_token_wf)

section \<open>Uniqueness of LUIDs\<close>

text \<open>The results of \<open>n\<close> allocations one after the other, and the counter afterwards. The counter is
  only changed by an atomic addition, so calls from several CPUs take effect in some such order.\<close>

primrec luid_allocs :: "nat \<Rightarrow> u64 \<Rightarrow> LUID list \<times> u64" where
  "luid_allocs 0 g = ([], g)"
| "luid_allocs (Suc n) g =
     (let (l, g1) = NtAllocateLocallyUniqueId g; (ls, g2) = luid_allocs n g1 in (l # ls, g2))"

lemma RtlLuidFromValue_inj: "RtlLuidFromValue a = RtlLuidFromValue b \<Longrightarrow> a = b"
proof (rule bit_word_eqI)
  fix n assume eq: "RtlLuidFromValue a = RtlLuidFromValue b" and "n < LENGTH(64)"
  then have lo: "(ucast a :: u32) = ucast b" and hi: "(ucast (drop_bit 32 a) :: 32 word) = ucast (drop_bit 32 b)"
    by (auto simp: RtlLuidFromValue_def)
  show "bit a n = bit b n"
  proof (cases "n < 32")
    case True
    then show ?thesis using arg_cong [OF lo, of "\<lambda>w. bit w n"] by (simp add: bit_simps)
  next
    case False
    then have "n - 32 < 32" "32 + (n - 32) = n" using \<open>n < LENGTH(64)\<close> by auto
    then show ?thesis using arg_cong [OF hi, of "\<lambda>w. bit w (n - 32)"] by (simp add: bit_simps)
  qed
qed

lemma luid_allocs_eq:
  "luid_allocs n g = (map (\<lambda>i. RtlLuidFromValue (g + of_nat (Suc i))) [0..<n], g + of_nat n)"
proof (induction n arbitrary: g)
  case (Suc n)
  have "[0..<Suc n] = 0 # map Suc [0..<n]" by (simp add: map_Suc_upt upt_conv_Cons del: upt_Suc)
  then show ?case
    by (simp add: NtAllocateLocallyUniqueId_def Suc comp_def add.assoc del: upt_Suc)
qed simp

text \<open>
  LUIDs do not repeat within a boot: of any fewer than \<open>2^64\<close> consecutive allocations no two
  return the same LUID, and the first \<open>2^64 - 1001\<close> allocations after start-up avoid every LUID with a
  value up to 1000, so all the well-known privilege LUIDs and \<open>SYSTEM_LUID\<close>.
\<close>

theorem NtAllocateLocallyUniqueId_unique:
  assumes "n < 2 ^ 64 - 1000"
  shows "distinct (fst (luid_allocs n g)) \<and>
    (\<forall>l \<in> set (fst (luid_allocs n g_next_luid_init)). HighPart l = 0 \<longrightarrow> 1000 < LowPart l)"
proof
  have "inj_on (\<lambda>i. RtlLuidFromValue (g + of_nat (Suc i))) {0..<n}"
  proof (rule inj_onI)
    fix i j assume i: "i \<in> {0..<n}" and j: "j \<in> {0..<n}"
      and eq: "RtlLuidFromValue (g + of_nat (Suc i)) = RtlLuidFromValue (g + of_nat (Suc j))"
    then have "(of_nat (Suc i) :: u64) = of_nat (Suc j)" using RtlLuidFromValue_inj by fastforce
    then have "unat (of_nat (Suc i) :: u64) = unat (of_nat (Suc j) :: u64)" by simp
    then show "i = j"
      using i j assms by (subst (asm) (1 2) unat_of_nat_u64) auto
  qed
  then show "distinct (fst (luid_allocs n g))" by (simp add: luid_allocs_eq distinct_map)
  show "\<forall>l \<in> set (fst (luid_allocs n g_next_luid_init)). HighPart l = 0 \<longrightarrow> 1000 < LowPart l"
  proof (intro ballI impI)
    fix l assume "l \<in> set (fst (luid_allocs n g_next_luid_init))" and hi: "HighPart l = 0"
    then obtain i where i: "i < n" and l: "l = RtlLuidFromValue (1000 + of_nat (Suc i))"
      by (auto simp: luid_allocs_eq g_next_luid_init_def)
    let ?v = "1000 + of_nat (Suc i) :: u64"
    have v: "unat ?v = 1000 + Suc i"
      using i assms by (simp add: unat_word_ariths unat_of_nat_u64 del: of_nat_Suc)
    have "drop_bit 32 ?v = 0"
    proof -
      have "bit ?v (32 + k) = bit (HighPart l) k" for k
        by (cases "k < 32") (auto simp: l RtlLuidFromValue_def bit_simps dest: bit_imp_le_length)
      then show ?thesis using hi by (intro bit_word_eqI) (simp add: bit_simps)
    qed
    then have "unat ?v div 2 ^ 32 = 0" by (simp add: drop_bit_eq_div word_unat_eq_iff unat_div)
    then have "unat ?v < 2 ^ 32" by (simp add: div_eq_0_iff)
    then have "unat (LowPart l) = unat ?v"
      by (simp add: l RtlLuidFromValue_def unsigned_ucast_eq take_bit_nat_eq_self)
    then show "1000 < LowPart l" using v by (simp add: word_less_nat_alt)
  qed
qed

theorem NtAllocateLocallyUniqueId_unique_witness:
  "distinct (fst (luid_allocs 3 7)) \<and> 1000 < LowPart (hd (fst (luid_allocs 3 g_next_luid_init)))"
proof -
  note u = NtAllocateLocallyUniqueId_unique [of 3 7]
  have "hd (fst (luid_allocs 3 g_next_luid_init)) \<in> set (fst (luid_allocs 3 g_next_luid_init))"
    "HighPart (hd (fst (luid_allocs 3 g_next_luid_init))) = 0"
    by code_simp+
  with u show ?thesis by simp
qed

end
