(* ===== verification/Nt_Types.thy ===== *)
theory Nt_Types
  imports Kernel_Prelude
begin

text \<open>
  The status codes of \<open>include/kernel/nt/ntstatus.h\<close> and the access rights of
  \<open>include/kernel/nt/nt_types.h\<close> that the modelled functions use. An \<open>NTSTATUS\<close> is its 32 bits.
\<close>

type_synonym NTSTATUS = u32
type_synonym ACCESS_MASK = u32

definition STATUS_SUCCESS :: NTSTATUS where "STATUS_SUCCESS = 0x00000000"
definition STATUS_NOT_ALL_ASSIGNED :: NTSTATUS where "STATUS_NOT_ALL_ASSIGNED = 0x00000106"
definition STATUS_INVALID_INFO_CLASS :: NTSTATUS where "STATUS_INVALID_INFO_CLASS = 0xC0000003"
definition STATUS_INVALID_HANDLE :: NTSTATUS where "STATUS_INVALID_HANDLE = 0xC0000008"
definition STATUS_INVALID_PARAMETER :: NTSTATUS where "STATUS_INVALID_PARAMETER = 0xC000000D"
definition STATUS_NO_MEMORY :: NTSTATUS where "STATUS_NO_MEMORY = 0xC0000017"
definition STATUS_ACCESS_DENIED :: NTSTATUS where "STATUS_ACCESS_DENIED = 0xC0000022"
definition STATUS_BUFFER_TOO_SMALL :: NTSTATUS where "STATUS_BUFFER_TOO_SMALL = 0xC0000023"
definition STATUS_NO_TOKEN :: NTSTATUS where "STATUS_NO_TOKEN = 0xC000007C"
definition STATUS_INSUFFICIENT_RESOURCES :: NTSTATUS where "STATUS_INSUFFICIENT_RESOURCES = 0xC000009A"

lemmas status_defs =
  STATUS_SUCCESS_def STATUS_NOT_ALL_ASSIGNED_def STATUS_INVALID_INFO_CLASS_def STATUS_INVALID_HANDLE_def
  STATUS_INVALID_PARAMETER_def STATUS_NO_MEMORY_def STATUS_ACCESS_DENIED_def STATUS_BUFFER_TOO_SMALL_def
  STATUS_NO_TOKEN_def STATUS_INSUFFICIENT_RESOURCES_def

definition GENERIC_READ :: ACCESS_MASK where "GENERIC_READ = 0x80000000"
definition GENERIC_WRITE :: ACCESS_MASK where "GENERIC_WRITE = 0x40000000"
definition GENERIC_EXECUTE :: ACCESS_MASK where "GENERIC_EXECUTE = 0x20000000"
definition GENERIC_ALL :: ACCESS_MASK where "GENERIC_ALL = 0x10000000"
definition DELETE :: ACCESS_MASK where "DELETE = 0x00010000"
definition READ_CONTROL :: ACCESS_MASK where "READ_CONTROL = 0x00020000"
definition WRITE_DAC :: ACCESS_MASK where "WRITE_DAC = 0x00040000"
definition WRITE_OWNER :: ACCESS_MASK where "WRITE_OWNER = 0x00080000"
definition MAXIMUM_ALLOWED :: ACCESS_MASK where "MAXIMUM_ALLOWED = 0x02000000"

record GENERIC_MAPPING =
  GenericRead :: ACCESS_MASK
  GenericWrite :: ACCESS_MASK
  GenericExecute :: ACCESS_MASK
  GenericAll :: ACCESS_MASK

end
