(* ===== verification/Sec_Mic.thy ===== *)
theory Sec_Mic
  imports Sec_Sd Sec_Privileges Nt_Types
begin

text \<open>
  \<open>src/kernel/security/mic.c\<close>: mandatory integrity control. The integrity label of an object is
  the first \<open>SYSTEM_MANDATORY_LABEL_ACE\<close> of its SACL; a subject of lower integrity is denied the
  access classes the label's policy guards.
\<close>

section \<open>The code\<close>

definition SECURITY_MANDATORY_MEDIUM_RID :: u32 where "SECURITY_MANDATORY_MEDIUM_RID = 0x2000"
definition SECURITY_MANDATORY_SYSTEM_RID :: u32 where "SECURITY_MANDATORY_SYSTEM_RID = 0x4000"
definition SYSTEM_MANDATORY_LABEL_NO_WRITE_UP :: u32 where "SYSTEM_MANDATORY_LABEL_NO_WRITE_UP = 0x01"
definition SYSTEM_MANDATORY_LABEL_NO_READ_UP :: u32 where "SYSTEM_MANDATORY_LABEL_NO_READ_UP = 0x02"
definition SYSTEM_MANDATORY_LABEL_NO_EXECUTE_UP :: u32 where "SYSTEM_MANDATORY_LABEL_NO_EXECUTE_UP = 0x04"

definition MIC_WRITE_MASK :: ACCESS_MASK where
  "MIC_WRITE_MASK = GENERIC_WRITE OR GENERIC_ALL OR WRITE_DAC OR WRITE_OWNER OR DELETE OR MAXIMUM_ALLOWED"
definition MIC_READ_MASK :: ACCESS_MASK where
  "MIC_READ_MASK = GENERIC_READ OR GENERIC_ALL OR READ_CONTROL OR MAXIMUM_ALLOWED"
definition MIC_EXECUTE_MASK :: ACCESS_MASK where
  "MIC_EXECUTE_MASK = GENERIC_EXECUTE OR GENERIC_ALL OR MAXIMUM_ALLOWED"

text \<open>The comparison loop over the six authority bytes; \<open>n\<close> counts the bytes left.\<close>

primrec auth_cmp :: "nat \<Rightarrow> nat \<Rightarrow> bytes \<Rightarrow> bool option" where
  "auth_cmp 0 i s = Some True"
| "auth_cmp (Suc n) i s = do {
     b \<leftarrow> rd8 s (2 + i);
     if b \<noteq> SECURITY_MANDATORY_LABEL_AUTHORITY ! i then Some False else auth_cmp n (Suc i) s }"

definition sid_is_integrity_label :: "bytes option \<Rightarrow> bool option" where
  "sid_is_integrity_label sid =
     (case sid of
        None \<Rightarrow> Some False
      | Some s \<Rightarrow> do {
          r \<leftarrow> rd8 s 0;
          if r \<noteq> SID_REVISION then Some False
          else do {
            c \<leftarrow> rd8 s 1;
            if c \<noteq> 1 then Some False else auth_cmp 6 0 s } })"

text \<open>The walk over the SACL from the entry at \<open>p\<close>; result, \<open>*il\<close> and \<open>*policy\<close>.\<close>

primrec label_walk :: "nat \<Rightarrow> bytes \<Rightarrow> nat \<Rightarrow> (int \<times> u32 \<times> u32) option" where
  "label_walk 0 m p = Some (0, SECURITY_MANDATORY_MEDIUM_RID, SYSTEM_MANDATORY_LABEL_NO_WRITE_UP)"
| "label_walk (Suc n) m p = do {
     t \<leftarrow> rd8 m p;
     if t \<noteq> SYSTEM_MANDATORY_LABEL_ACE_TYPE then do {
       sz \<leftarrow> rd16 m (p + 2);
       label_walk n m (p + unat sz) }
     else do {
       ok \<leftarrow> sid_is_integrity_label (Some (drop (p + 8) m));
       if \<not> ok then Some (-1, SECURITY_MANDATORY_MEDIUM_RID, SYSTEM_MANDATORY_LABEL_NO_WRITE_UP)
       else do {
         il \<leftarrow> rd32 m (p + 16);
         policy \<leftarrow> rd32 m (p + 4);
         Some (0, il, policy) } } }"

definition find_mandatory_label :: "SECURITY_DESCRIPTOR option \<Rightarrow> (int \<times> u32 \<times> u32) option" where
  "find_mandatory_label sd =
     (case Option.bind sd sd_Sacl of
        None \<Rightarrow> Some (0, SECURITY_MANDATORY_MEDIUM_RID, SYSTEM_MANDATORY_LABEL_NO_WRITE_UP)
      | Some m \<Rightarrow> do {
          sz \<leftarrow> rd16 m 2;
          v \<leftarrow> RtlValidAcl (Some m) (ucast sz);
          if \<not> v then Some (-1, SECURITY_MANDATORY_MEDIUM_RID, SYSTEM_MANDATORY_LABEL_NO_WRITE_UP)
          else do {
            count \<leftarrow> rd16 m 4;
            label_walk (unat count) m 8 } })"

definition SeGetTokenIntegrityLevel :: "ACCESS_TOKEN option \<Rightarrow> u32 option" where
  "SeGetTokenIntegrityLevel token =
     (case token of
        None \<Rightarrow> Some SECURITY_MANDATORY_MEDIUM_RID
      | Some t \<Rightarrow> do {
          ok \<leftarrow> sid_is_integrity_label (t_IntegrityLevelSid t);
          if \<not> ok then Some SECURITY_MANDATORY_MEDIUM_RID
          else (case t_IntegrityLevelSid t of None \<Rightarrow> None | Some s \<Rightarrow> rd32 s 8) })"

text \<open>Result and what is written to a non-null \<open>*out_il\<close>.\<close>

definition SeTryGetTokenIntegrityLevel :: "ACCESS_TOKEN option \<Rightarrow> bool \<Rightarrow> (bool \<times> u32 option) option" where
  "SeTryGetTokenIntegrityLevel token out_ptr =
     (case token of
        None \<Rightarrow> Some (False, None)
      | Some t \<Rightarrow> do {
          ok \<leftarrow> sid_is_integrity_label (t_IntegrityLevelSid t);
          if \<not> ok then Some (False, None)
          else if \<not> out_ptr then Some (True, None)
          else (case t_IntegrityLevelSid t of
                  None \<Rightarrow> None
                | Some s \<Rightarrow> do { il \<leftarrow> rd32 s 8; Some (True, Some il) }) })"

definition SeGetObjectIntegrityLevel :: "SECURITY_DESCRIPTOR option \<Rightarrow> u32 option" where
  "SeGetObjectIntegrityLevel sd = do {
     (rc, il, policy) \<leftarrow> find_mandatory_label sd;
     Some (if rc \<noteq> 0 then SECURITY_MANDATORY_SYSTEM_RID else il) }"

definition SeCompareMandatoryLevels :: "u32 \<Rightarrow> u32 \<Rightarrow> int" where
  "SeCompareMandatoryLevels subject_il object_il =
     (if subject_il < object_il then -1 else if subject_il > object_il then 1 else 0)"

definition SeCheckMandatoryAccess ::
  "ACCESS_TOKEN option \<Rightarrow> SECURITY_DESCRIPTOR option \<Rightarrow> ACCESS_MASK \<Rightarrow> GENERIC_MAPPING option \<Rightarrow> NTSTATUS option" where
  "SeCheckMandatoryAccess token sd desired mapping = do {
     (rc, object_il, policy) \<leftarrow> find_mandatory_label sd;
     if rc \<noteq> 0 then Some STATUS_ACCESS_DENIED
     else do {
       subject_il \<leftarrow> SeGetTokenIntegrityLevel token;
       if SeCompareMandatoryLevels subject_il object_il \<ge> 0 then Some STATUS_SUCCESS
       else let fold_in = (\<lambda>base f. case mapping of None \<Rightarrow> base | Some g \<Rightarrow> base OR f g);
                write_bits = fold_in MIC_WRITE_MASK GenericWrite;
                read_bits = fold_in MIC_READ_MASK GenericRead;
                exec_bits = fold_in MIC_EXECUTE_MASK GenericExecute
            in if policy AND SYSTEM_MANDATORY_LABEL_NO_WRITE_UP \<noteq> 0 \<and> desired AND write_bits \<noteq> 0
               then Some STATUS_ACCESS_DENIED
               else if policy AND SYSTEM_MANDATORY_LABEL_NO_READ_UP \<noteq> 0 \<and> desired AND read_bits \<noteq> 0
               then Some STATUS_ACCESS_DENIED
               else if policy AND SYSTEM_MANDATORY_LABEL_NO_EXECUTE_UP \<noteq> 0 \<and> desired AND exec_bits \<noteq> 0
               then Some STATUS_ACCESS_DENIED
               else Some STATUS_SUCCESS } }"

section \<open>What the label of an object is\<close>

definition is_label_sid :: "bytes \<Rightarrow> bool" where
  "is_label_sid s \<longleftrightarrow> s ! 0 = SID_REVISION \<and> s ! 1 = 1 \<and> take 6 (drop 2 s) = SECURITY_MANDATORY_LABEL_AUTHORITY"

text \<open>Level and policy of an object; \<^term>\<open>None\<close> for a malformed SACL or label.\<close>

definition object_label :: "SECURITY_DESCRIPTOR option \<Rightarrow> (u32 \<times> u32) option" where
  "object_label sd =
     (case Option.bind sd sd_Sacl of
        None \<Rightarrow> Some (SECURITY_MANDATORY_MEDIUM_RID, SYSTEM_MANDATORY_LABEL_NO_WRITE_UP)
      | Some m \<Rightarrow>
          (case acl_aces m of
             None \<Rightarrow> None
           | Some as \<Rightarrow>
               (case find (\<lambda>a. a ! 0 = SYSTEM_MANDATORY_LABEL_ACE_TYPE) as of
                  None \<Rightarrow> Some (SECURITY_MANDATORY_MEDIUM_RID, SYSTEM_MANDATORY_LABEL_NO_WRITE_UP)
                | Some a \<Rightarrow>
                    if is_label_sid (drop 8 a) then Some (sub_authority (drop 8 a) 0, ace_mask a) else None)))"

text \<open>The SACL of a kernel-owned descriptor: as many bytes are readable as its size field says.\<close>

definition sacl_readable :: "SECURITY_DESCRIPTOR option \<Rightarrow> bool" where
  "sacl_readable sd \<longleftrightarrow>
     (case Option.bind sd sd_Sacl of None \<Rightarrow> True | Some m \<Rightarrow> 4 \<le> length m \<and> acl_size m \<le> length m)"

definition token_label_wf :: "ACCESS_TOKEN option \<Rightarrow> bool" where
  "token_label_wf token \<longleftrightarrow>
     (case Option.bind token t_IntegrityLevelSid of None \<Rightarrow> True | Some s \<Rightarrow> 8 \<le> length s \<and> sid_size s \<le> length s)"

definition token_level :: "ACCESS_TOKEN option \<Rightarrow> u32" where
  "token_level token =
     (case Option.bind token t_IntegrityLevelSid of
        None \<Rightarrow> SECURITY_MANDATORY_MEDIUM_RID
      | Some s \<Rightarrow> if is_label_sid s then sub_authority s 0 else SECURITY_MANDATORY_MEDIUM_RID)"

lemma auth_cmp_eq:
  "2 + i + n \<le> length s \<Longrightarrow> i + n = 6 \<Longrightarrow>
     auth_cmp n i s = Some (take n (drop (2 + i) s) = drop i SECURITY_MANDATORY_LABEL_AUTHORITY)"
proof (induction n arbitrary: i)
  case 0
  then show ?case by (simp add: SECURITY_MANDATORY_LABEL_AUTHORITY_def)
next
  case (Suc n)
  let ?A = SECURITY_MANDATORY_LABEL_AUTHORITY
  have l: "2 + i < length s" "i < length ?A"
    using Suc.prems by (auto simp: SECURITY_MANDATORY_LABEL_AUTHORITY_def)
  have "drop (2 + i) s = s ! (2 + i) # drop (2 + Suc i) s" "drop i ?A = ?A ! i # drop (Suc i) ?A"
    using l by (simp_all add: Cons_nth_drop_Suc)
  with Suc l show ?case by (simp add: rd8_ok)
qed

lemma sid_is_integrity_label_eq:
  "8 \<le> length s \<Longrightarrow> sid_is_integrity_label (Some s) = Some (is_label_sid s)"
  by (auto simp: sid_is_integrity_label_def rd8_ok auth_cmp_eq is_label_sid_def rd8_first simp del: One_nat_def)

lemma label_sid_size: "is_label_sid s \<Longrightarrow> sid_size s = 12"
  by (simp add: is_label_sid_def sid_size_def)

lemma label_rid:
  assumes "is_label_sid s" and "sid_size s \<le> length s"
  shows "rd32 s 8 = Some (sub_authority s 0)"
  using assms rd32_sub_authority [of 0 s] by (simp add: is_label_sid_def sid_size_def)

text \<open>What the walk finds, over the entries of a well-formed SACL.\<close>

definition label_result :: "bytes option \<Rightarrow> int \<times> u32 \<times> u32" where
  "label_result a =
     (case a of
        None \<Rightarrow> (0, SECURITY_MANDATORY_MEDIUM_RID, SYSTEM_MANDATORY_LABEL_NO_WRITE_UP)
      | Some a \<Rightarrow>
          if is_label_sid (drop 8 a) then (0, sub_authority (drop 8 a) 0, ace_mask a)
          else (-1, SECURITY_MANDATORY_MEDIUM_RID, SYSTEM_MANDATORY_LABEL_NO_WRITE_UP))"

lemma is_label_sid_append:
  assumes "8 \<le> length s"
  shows "is_label_sid (s @ t) = is_label_sid s"
proof -
  have "(s @ t) ! 0 = s ! 0" "(s @ t) ! 1 = s ! 1" "take 6 (drop 2 (s @ t)) = take 6 (drop 2 s)"
    using assms by (auto simp: nth_append)
  then show ?thesis by (simp only: is_label_sid_def)
qed

lemma label_walk_eq:
  assumes "acl_aces m = Some as"
  shows "i + n = length as \<Longrightarrow> label_walk n m (ace_off as i) =
    Some (label_result (find (\<lambda>a. a ! 0 = SYSTEM_MANDATORY_LABEL_ACE_TYPE) (drop i as)))"
proof (induction n arbitrary: i)
  case 0
  then show ?case by (simp add: label_result_def)
next
  case (Suc n)
  then have i: "i < length as" by simp
  let ?a = "as ! i" and ?p = "ace_off as i"
  note ok = ace_nth_ok [OF assms i] and rd = ace_reads [OF assms i]
  have d: "drop i as = ?a # drop (Suc i) as" using i by (simp add: Cons_nth_drop_Suc)
  have nxt: "?p + unat (of_nat (length ?a) :: u16) = ace_off as (Suc i)"
    using ok(2) ace_len_less [of ?a] i by (simp add: unat_of_nat_u16 ace_off_def aces_len_take_Suc)
  obtain rest where pl: "drop ?p m = ?a @ rest" by (rule ace_in_place [OF assms i])
  then have sid: "drop (?p + 8) m = drop 8 ?a @ rest"
    using ok(3) by (simp add: drop_drop [symmetric] add.commute [of _ 8])
  have lab: "sid_is_integrity_label (Some (drop (?p + 8) m)) = Some (is_label_sid (drop 8 ?a))"
    using ok(3) unfolding sid by (subst sid_is_integrity_label_eq) (simp_all add: is_label_sid_append)
  have rid: "rd32 m (?p + 16) = Some (sub_authority (drop 8 ?a) 0)" if "is_label_sid (drop 8 ?a)"
  proof -
    have le: "sid_size (drop 8 ?a) \<le> length (drop 8 ?a)" using ok(4) by auto
    then have "12 \<le> length (drop 8 ?a)" using label_sid_size [OF that] by simp
    moreover have "rd32 m (?p + 16) = rd32 (drop 8 ?a @ rest) 8"
      using sid rd32_drop [of "?p + 8" m 8] by (simp add: add.assoc)
    ultimately show ?thesis
      using label_rid [OF that le] by (simp add: rd32_append_left)
  qed
  show ?case
    using Suc nxt rd lab rid d by (simp add: label_result_def)
qed

lemma find_mandatory_label_eq:
  assumes "sacl_readable sd"
  shows "find_mandatory_label sd =
    Some (case object_label sd of
            Some (il, policy) \<Rightarrow> (0, il, policy)
          | None \<Rightarrow> (-1, SECURITY_MANDATORY_MEDIUM_RID, SYSTEM_MANDATORY_LABEL_NO_WRITE_UP))"
proof (cases "Option.bind sd sd_Sacl")
  case None
  then show ?thesis by (simp add: find_mandatory_label_def object_label_def)
next
  case (Some m)
  let ?sz = "dec16 (m ! 2) (m ! 3)"
  have l: "4 \<le> length m" "acl_size m \<le> length m" using assms Some by (simp_all add: sacl_readable_def)
  have rd: "rd16 m 2 = Some ?sz" using l by (simp add: rd16_eq)
  have av: "unat (ucast ?sz :: u32) = acl_size m" by (rule acl_size_word)
  have v: "RtlValidAcl (Some m) (ucast ?sz) = Some (acl_aces m \<noteq> None)"
  proof (cases "8 \<le> acl_size m")
    case True
    then show ?thesis using l RtlValidAcl_eq [of "ucast ?sz" m] by (simp only: av) (simp add: acl_aces_take_iff)
  next
    case False
    then show ?thesis
      using l RtlValidAcl_eq [of "ucast ?sz" m]
      by (simp only: av) (simp add: acl_aces_take_iff acl_aces_def acl_hdr_ok_def)
  qed
  show ?thesis
  proof (cases "acl_aces m")
    case None
    then show ?thesis using Some rd v by (simp add: find_mandatory_label_def object_label_def)
  next
    case as: (Some as)
    have "rd16 m 4 = Some (dec16 (m ! 4) (m ! 5))" "unat (dec16 (m ! 4) (m ! 5)) = length as"
      using acl_aces_split [OF as] by (auto simp: rd16_hdr acl_hdr_okD acl_count_def)
    moreover have "ace_off as 0 = 8" by (simp add: ace_off_def)
    ultimately show ?thesis
      using Some rd v as label_walk_eq [OF as, of 0 "length as"]
      by (auto simp: find_mandatory_label_def object_label_def label_result_def split: option.splits)
  qed
qed

lemma SeGetTokenIntegrityLevel_eq:
  assumes "token_label_wf token"
  shows "SeGetTokenIntegrityLevel token = Some (token_level token)"
proof (cases "Option.bind token t_IntegrityLevelSid")
  case None
  then show ?thesis
    by (cases token) (simp_all add: SeGetTokenIntegrityLevel_def token_level_def sid_is_integrity_label_def)
next
  case (Some s)
  then obtain t where "token = Some t" "t_IntegrityLevelSid t = Some s" by (auto simp: bind_eq_Some_conv)
  then show ?thesis
    using assms label_rid [of s]
    by (simp add: SeGetTokenIntegrityLevel_def token_level_def token_label_wf_def sid_is_integrity_label_eq)
qed

section \<open>Properties\<close>

text \<open>
  C13: \<open>SeCheckMandatoryAccess\<close> is exactly the mandatory policy. With a readable SACL and integrity
  SID it denies access precisely when the SACL or its label is malformed (fail closed), or when the
  subject's level is strictly below the object's and the request meets an access class (the generic
  and standard bits of the class plus what the object type maps onto it) that the label's policy
  guards; an object without a label counts as medium integrity with no-write-up.
\<close>

theorem SeCheckMandatoryAccess_correct:
  assumes "sacl_readable sd" and "token_label_wf token"
  shows "SeCheckMandatoryAccess token sd desired mapping =
    Some (case object_label sd of
            None \<Rightarrow> STATUS_ACCESS_DENIED
          | Some (il, policy) \<Rightarrow>
              if token_level token < il \<and>
                 (policy AND SYSTEM_MANDATORY_LABEL_NO_WRITE_UP \<noteq> 0 \<and>
                    desired AND (MIC_WRITE_MASK OR (case mapping of None \<Rightarrow> 0 | Some g \<Rightarrow> GenericWrite g)) \<noteq> 0 \<or>
                  policy AND SYSTEM_MANDATORY_LABEL_NO_READ_UP \<noteq> 0 \<and>
                    desired AND (MIC_READ_MASK OR (case mapping of None \<Rightarrow> 0 | Some g \<Rightarrow> GenericRead g)) \<noteq> 0 \<or>
                  policy AND SYSTEM_MANDATORY_LABEL_NO_EXECUTE_UP \<noteq> 0 \<and>
                    desired AND (MIC_EXECUTE_MASK OR (case mapping of None \<Rightarrow> 0 | Some g \<Rightarrow> GenericExecute g)) \<noteq> 0)
              then STATUS_ACCESS_DENIED else STATUS_SUCCESS)"
proof (cases "object_label sd")
  case None
  then show ?thesis by (simp add: SeCheckMandatoryAccess_def find_mandatory_label_eq [OF assms(1)])
next
  case (Some lp)
  obtain il policy where lp: "lp = (il, policy)" by (cases lp)
  have fold: "(case mapping of None \<Rightarrow> base | Some g \<Rightarrow> base OR f g) =
      base OR (case mapping of None \<Rightarrow> 0 | Some g \<Rightarrow> f g)" for base :: u32 and f
    by (cases mapping) simp_all
  show ?thesis
    using Some lp
    by (auto simp: SeCheckMandatoryAccess_def find_mandatory_label_eq [OF assms(1)]
        SeGetTokenIntegrityLevel_eq [OF assms(2)] SeCompareMandatoryLevels_def Let_def fold)
qed

definition labelled_sacl :: bytes where
  "labelled_sacl = [2, 0, 28, 0, 1, 0, 0, 0] @ mk_ace 0x11 0 1 SeILHigh"

definition labelled_sd :: SECURITY_DESCRIPTOR where
  "labelled_sd = sample_abs\<lparr>sd_Sacl := Some labelled_sacl\<rparr>"

theorem SeCheckMandatoryAccess_correct_witness:
  "SeCheckMandatoryAccess (Some sample_token) (Some labelled_sd) WRITE_DAC None = Some STATUS_ACCESS_DENIED"
proof -
  have r: "sacl_readable (Some labelled_sd)" by code_simp
  have t: "token_label_wf (Some sample_token)" by (simp add: token_label_wf_def sample_token_def)
  have il: "token_level (Some sample_token) = 0x2000"
    by (simp add: token_level_def sample_token_def SECURITY_MANDATORY_MEDIUM_RID_def)
  have ol: "object_label (Some labelled_sd) = Some (0x3000, 1)" by code_simp
  have "(WRITE_DAC AND (MIC_WRITE_MASK OR 0) \<noteq> 0)" by code_simp
  then show ?thesis
    using SeCheckMandatoryAccess_correct [OF r t, of WRITE_DAC None]
    by (simp add: il ol SYSTEM_MANDATORY_LABEL_NO_WRITE_UP_def)
qed

text \<open>
  A malformed SACL never lets a subject through: the object counts as system integrity for
  \<open>SeGetObjectIntegrityLevel\<close>, and \<open>SeCheckMandatoryAccess\<close> denies every request of every token.
\<close>

theorem malformed_sacl_fails_closed:
  assumes "sacl_readable sd" and "object_label sd = None"
  shows "SeGetObjectIntegrityLevel sd = Some SECURITY_MANDATORY_SYSTEM_RID \<and>
    SeCheckMandatoryAccess token sd desired mapping = Some STATUS_ACCESS_DENIED"
  by (simp add: SeGetObjectIntegrityLevel_def SeCheckMandatoryAccess_def
      find_mandatory_label_eq [OF assms(1)] assms(2))

theorem malformed_sacl_fails_closed_witness:
  "SeGetObjectIntegrityLevel (Some (sample_abs\<lparr>sd_Sacl := Some [2, 0, 4, 0]\<rparr>)) = Some SECURITY_MANDATORY_SYSTEM_RID \<and>
   SeCheckMandatoryAccess None (Some (sample_abs\<lparr>sd_Sacl := Some [2, 0, 4, 0]\<rparr>)) 0 None = Some STATUS_ACCESS_DENIED"
  by (rule malformed_sacl_fails_closed) (code_simp, code_simp)

end
