(* ===== verification/Sec_Assign.thy ===== *)
theory Sec_Assign
  imports Sec_Mic
begin

text \<open>
  \<open>src/kernel/security/assign_security.c\<close> and \<open>default_sds.c\<close>: the security descriptor of a new
  object, inherited from its container, and the built-in default descriptors. The single heap block
  of the source is modelled region by region (DACL, owner, group), each a buffer of exactly the size
  the code reserves for it, so that a write that left its region would be a fault.
\<close>

section \<open>Inheritance flags\<close>

definition OBJECT_INHERIT_ACE :: u8 where "OBJECT_INHERIT_ACE = 0x01"
definition CONTAINER_INHERIT_ACE :: u8 where "CONTAINER_INHERIT_ACE = 0x02"
definition NO_PROPAGATE_INHERIT_ACE :: u8 where "NO_PROPAGATE_INHERIT_ACE = 0x04"
definition INHERIT_ONLY_ACE :: u8 where "INHERIT_ONLY_ACE = 0x08"
definition INHERITED_ACE :: u8 where "INHERITED_ACE = 0x10"

definition ROUND4 :: "u32 \<Rightarrow> u32" where
  "ROUND4 n = (n + 3) AND NOT 3"

definition SE_ASSIGN_MAX_SD :: u32 where "SE_ASSIGN_MAX_SD = 4096"

definition sizeof_SECURITY_DESCRIPTOR :: u32 where "sizeof_SECURITY_DESCRIPTOR = 40"

definition ace_is_dacl_type :: "u8 \<Rightarrow> bool" where
  "ace_is_dacl_type t \<longleftrightarrow> t = ACCESS_ALLOWED_ACE_TYPE \<or> t = ACCESS_DENIED_ACE_TYPE"

definition dacl_shape_ok :: "bytes option \<Rightarrow> bool option" where
  "dacl_shape_ok acl =
     (case acl of
        None \<Rightarrow> Some False
      | Some m \<Rightarrow> do {
          sz \<leftarrow> rd16 m 2;
          if \<not> sz \<ge> 8 then Some False else RtlValidAcl acl (ucast sz) })"

text \<open>The child flags, or \<^term>\<open>None\<close> where the entry is not inherited.\<close>

definition inherit_child_flags :: "u8 \<Rightarrow> bool \<Rightarrow> u8 option" where
  "inherit_child_flags pf is_dir =
     (let np = (pf AND NO_PROPAGATE_INHERIT_ACE \<noteq> 0) in
      if \<not> is_dir then (if pf AND OBJECT_INHERIT_ACE = 0 then None else Some INHERITED_ACE)
      else if pf AND CONTAINER_INHERIT_ACE \<noteq> 0 then
        Some (if np then INHERITED_ACE
              else INHERITED_ACE OR (pf AND (OBJECT_INHERIT_ACE OR CONTAINER_INHERIT_ACE)))
      else if pf AND OBJECT_INHERIT_ACE \<noteq> 0 then
        (if np then None else Some (INHERITED_ACE OR INHERIT_ONLY_ACE OR OBJECT_INHERIT_ACE))
      else None)"

section \<open>Scanning the parent's DACL\<close>

text \<open>\<open>type test && inherit_child_flags(ace->AceFlags, ...)\<close>: the flags are only read if the type
  matches.\<close>

definition child_flags_at :: "bytes \<Rightarrow> nat \<Rightarrow> bool \<Rightarrow> bool \<Rightarrow> u8 option option" where
  "child_flags_at m p matches is_dir =
     (if matches then do { f \<leftarrow> rd8 m (p + 1); Some (inherit_child_flags f is_dir) } else Some None)"

text \<open>The loop of both \<open>parent_has_\<close> functions: \<open>n\<close> entries left, the next one at index \<open>i\<close>.\<close>

primrec any_inheritable :: "nat \<Rightarrow> u32 \<Rightarrow> (u8 \<Rightarrow> bool) \<Rightarrow> bool \<Rightarrow> bytes \<Rightarrow> bool option" where
  "any_inheritable 0 i typ is_dir m = Some False"
| "any_inheritable (Suc n) i typ is_dir m = do {
     (rc, ace) \<leftarrow> RtlGetAce (Some m) i True;
     case ace of
       None \<Rightarrow> Some False
     | Some p \<Rightarrow> do {
         t \<leftarrow> rd8 m p;
         cf \<leftarrow> child_flags_at m p (typ t) is_dir;
         if cf \<noteq> None then Some True
         else any_inheritable n (i + 1) typ is_dir m } }"

definition scan_parent :: "(u8 \<Rightarrow> bool) \<Rightarrow> SECURITY_DESCRIPTOR option \<Rightarrow> bool \<Rightarrow> bool option" where
  "scan_parent typ parent is_dir =
     (case parent of
        None \<Rightarrow> Some False
      | Some d \<Rightarrow> do {
          ok \<leftarrow> dacl_shape_ok (sd_Dacl d);
          if \<not> ok then Some False
          else (case sd_Dacl d of
                  None \<Rightarrow> Some False
                | Some m \<Rightarrow> do { count \<leftarrow> rd16 m 4; any_inheritable (unat count) 0 typ is_dir m }) })"

definition parent_has_inheritable :: "SECURITY_DESCRIPTOR option \<Rightarrow> bool \<Rightarrow> bool option" where
  "parent_has_inheritable = scan_parent ace_is_dacl_type"

definition ace_is_callback_type :: "u8 \<Rightarrow> bool" where
  "ace_is_callback_type t \<longleftrightarrow>
     t = ACCESS_ALLOWED_CALLBACK_ACE_TYPE \<or> t = ACCESS_DENIED_CALLBACK_ACE_TYPE \<or>
     t = SYSTEM_AUDIT_CALLBACK_ACE_TYPE \<or> t = SYSTEM_ALARM_CALLBACK_ACE_TYPE"

definition parent_has_inheritable_callback :: "SECURITY_DESCRIPTOR option \<Rightarrow> bool \<Rightarrow> bool option" where
  "parent_has_inheritable_callback = scan_parent ace_is_callback_type"

primrec inherited_bytes_loop :: "nat \<Rightarrow> u32 \<Rightarrow> bool \<Rightarrow> bytes \<Rightarrow> u32 \<Rightarrow> u32 option" where
  "inherited_bytes_loop 0 i is_dir m acc = Some acc"
| "inherited_bytes_loop (Suc n) i is_dir m acc = do {
     (rc, ace) \<leftarrow> RtlGetAce (Some m) i True;
     case ace of
       None \<Rightarrow> Some acc
     | Some p \<Rightarrow> do {
         t \<leftarrow> rd8 m p;
         cf \<leftarrow> child_flags_at m p (ace_is_dacl_type t) is_dir;
         if cf \<noteq> None
         then do { len \<leftarrow> RtlLengthSid (Some (drop (p + 8) m));
                   inherited_bytes_loop n (i + 1) is_dir m (acc + (8 + len)) }
         else inherited_bytes_loop n (i + 1) is_dir m acc } }"

definition inherited_dacl_bytes :: "bytes \<Rightarrow> bool \<Rightarrow> u32 option" where
  "inherited_dacl_bytes m is_dir = do { count \<leftarrow> rd16 m 4; inherited_bytes_loop (unat count) 0 is_dir m 8 }"

text \<open>One pass over the parent: the destination afterwards, or \<^term>\<open>Some None\<close> where the pass
  returns -1.\<close>

primrec emit_inherited_pass :: "nat \<Rightarrow> u32 \<Rightarrow> bytes \<Rightarrow> bool \<Rightarrow> u8 \<Rightarrow> bytes \<Rightarrow> bytes option option" where
  "emit_inherited_pass 0 i m is_dir want dst = Some (Some dst)"
| "emit_inherited_pass (Suc n) i m is_dir want dst = do {
     (rc, ace) \<leftarrow> RtlGetAce (Some m) i True;
     case ace of
       None \<Rightarrow> Some None
     | Some p \<Rightarrow> do {
         t \<leftarrow> rd8 m p;
         cf \<leftarrow> child_flags_at m p (t = want) is_dir;
         case cf of
           None \<Rightarrow> emit_inherited_pass n (i + 1) m is_dir want dst
         | Some cf \<Rightarrow> do {
             k \<leftarrow> rd32 m (p + 4);
             let sid = Some (drop (p + 8) m);
             (rc2, dst2) \<leftarrow> (if want = ACCESS_DENIED_ACE_TYPE
                            then RtlAddAccessDeniedAce (Some dst) ACL_REVISION k sid
                            else RtlAddAccessAllowedAce (Some dst) ACL_REVISION k sid);
             case dst2 of
               None \<Rightarrow> Some None
             | Some d2 \<Rightarrow>
                 if rc2 \<noteq> 0 then Some None
                 else do {
                   c \<leftarrow> rd16 d2 4;
                   (rc3, added) \<leftarrow> RtlGetAce (Some d2) (ucast c - 1) True;
                   case added of
                     None \<Rightarrow> Some None
                   | Some q \<Rightarrow> do {
                       d3 \<leftarrow> wr8 d2 (q + 1) cf;
                       emit_inherited_pass n (i + 1) m is_dir want d3 } } } } }"

section \<open>The fallback DACL\<close>

text \<open>A sequence of \<open>RtlAddAccessAllowedAce\<close> calls joined by \<open>||\<close>: it stops at the first failure.\<close>

primrec add_allowed_aces :: "(u32 \<times> bytes) list \<Rightarrow> bytes option \<Rightarrow> (int \<times> bytes option) option" where
  "add_allowed_aces [] m = Some (0, m)"
| "add_allowed_aces (g # gs) m = do {
     (rc, m2) \<leftarrow> RtlAddAccessAllowedAce m ACL_REVISION (fst g) (Some (snd g));
     if rc \<noteq> 0 then Some (-1, m2) else add_allowed_aces gs m2 }"

definition build_fallback_dacl :: "bytes \<Rightarrow> u16 \<Rightarrow> bytes \<Rightarrow> (int \<times> bytes option) option" where
  "build_fallback_dacl dst cap owner = do {
     (rc, m) \<leftarrow> RtlCreateAcl (Some dst) cap ACL_REVISION;
     if rc \<noteq> 0 then Some (-1, m)
     else add_allowed_aces
       [(GENERIC_ALL, owner), (GENERIC_ALL, SeLocalSystemSid), (READ_CONTROL, SeWorldSid)] m }"

section \<open>SeAssignSecurity\<close>

datatype dacl_source =
  DACL_EXPLICIT_COPY bytes | DACL_EXPLICIT_NULL | DACL_INHERIT bytes | DACL_TOKEN_DEFAULT bytes | DACL_FALLBACK

text \<open>Source selection with the size of the DACL, or the status of an early return.\<close>

definition dacl_size_of :: "bytes \<Rightarrow> u32 option" where
  "dacl_size_of m = do { sz \<leftarrow> rd16 m 2; Some (ucast sz) }"

definition select_dacl_source ::
  "SECURITY_DESCRIPTOR option \<Rightarrow> SECURITY_DESCRIPTOR option \<Rightarrow> bool \<Rightarrow> ACCESS_TOKEN option \<Rightarrow> bytes \<Rightarrow>
   (NTSTATUS + dacl_source \<times> u32) option" where
  "select_dacl_source ParentSD CreatorSD is_dir tok owner_sid =
     (let ctl = (case CreatorSD of None \<Rightarrow> 0 | Some d \<Rightarrow> sd_Control d);
          creator_explicit = (ctl AND SE_DACL_PRESENT \<noteq> 0 \<and> ctl AND SE_DACL_DEFAULTED = 0);
          child_protected = (ctl AND SE_DACL_PROTECTED \<noteq> 0) in do {
      cb \<leftarrow> (if \<not> creator_explicit \<and> \<not> child_protected
            then parent_has_inheritable_callback ParentSD is_dir else Some False);
      if cb then Some (Inl STATUS_INVALID_PARAMETER)
      else if creator_explicit then
        (case Option.bind CreatorSD sd_Dacl of
           None \<Rightarrow> Some (Inr (DACL_EXPLICIT_NULL, 0))
         | Some m \<Rightarrow> do {
             ok \<leftarrow> dacl_shape_ok (Some m);
             if \<not> ok then Some (Inl STATUS_INVALID_PARAMETER)
             else do { sz \<leftarrow> dacl_size_of m; Some (Inr (DACL_EXPLICIT_COPY m, sz)) } })
      else do {
        inh \<leftarrow> (if child_protected then Some False else parent_has_inheritable ParentSD is_dir);
        case (if inh then Option.bind ParentSD sd_Dacl else None) of
          Some pm \<Rightarrow> do { n \<leftarrow> inherited_dacl_bytes pm is_dir; Some (Inr (DACL_INHERIT pm, n)) }
        | None \<Rightarrow> do {
            tok_dacl \<leftarrow> Some (Option.bind tok t_DefaultDacl);
            tok_ok \<leftarrow> dacl_shape_ok tok_dacl;
            case (if tok_ok then tok_dacl else None) of
              Some m \<Rightarrow> do { sz \<leftarrow> dacl_size_of m; Some (Inr (DACL_TOKEN_DEFAULT m, sz)) }
            | None \<Rightarrow> do {
                l1 \<leftarrow> RtlLengthSid (Some owner_sid);
                l2 \<leftarrow> RtlLengthSid (Some SeLocalSystemSid);
                l3 \<leftarrow> RtlLengthSid (Some SeWorldSid);
                Some (Inr (DACL_FALLBACK, 8 + 3 * 8 + l1 + l2 + l3)) } } } })"

text \<open>The DACL built in its zeroed region of \<open>dacl_region\<close> bytes; \<^term>\<open>Inl\<close> is the status after the
  block has been freed.\<close>

definition build_dacl ::
  "dacl_source \<Rightarrow> u32 \<Rightarrow> bool \<Rightarrow> bytes \<Rightarrow> (NTSTATUS + bytes option) option" where
  "build_dacl src dacl_region is_dir owner_sid =
     (let region = replicate (unat dacl_region) 0;
          copy = (\<lambda>m. do {
            sz \<leftarrow> rd16 m 2;
            bs \<leftarrow> rd_bytes m 0 (unat sz);
            d \<leftarrow> wr_bytes region 0 bs;
            Some (Inr (Some d)) }) in
      case src of
        DACL_EXPLICIT_COPY m \<Rightarrow> copy m
      | DACL_TOKEN_DEFAULT m \<Rightarrow> copy m
      | DACL_EXPLICIT_NULL \<Rightarrow> Some (Inr None)
      | DACL_INHERIT pm \<Rightarrow> do {
          (rc, d0) \<leftarrow> RtlCreateAcl (Some region) (ucast dacl_region) ACL_REVISION;
          case d0 of
            None \<Rightarrow> Some (Inl STATUS_INSUFFICIENT_RESOURCES)
          | Some d0 \<Rightarrow>
              if rc \<noteq> 0 then Some (Inl STATUS_INSUFFICIENT_RESOURCES)
              else do {
                count \<leftarrow> rd16 pm 4;
                r1 \<leftarrow> emit_inherited_pass (unat count) 0 pm is_dir ACCESS_DENIED_ACE_TYPE d0;
                case r1 of
                  None \<Rightarrow> Some (Inl STATUS_INSUFFICIENT_RESOURCES)
                | Some d1 \<Rightarrow> do {
                    r2 \<leftarrow> emit_inherited_pass (unat count) 0 pm is_dir ACCESS_ALLOWED_ACE_TYPE d1;
                    case r2 of
                      None \<Rightarrow> Some (Inl STATUS_INSUFFICIENT_RESOURCES)
                    | Some d2 \<Rightarrow> Some (Inr (Some d2)) } } }
      | DACL_FALLBACK \<Rightarrow> do {
          (rc, d) \<leftarrow> build_fallback_dacl region (ucast dacl_region) owner_sid;
          if rc \<noteq> 0 then Some (Inl STATUS_INSUFFICIENT_RESOURCES) else Some (Inr d) })"

definition dacl_source_defaulted :: "dacl_source \<Rightarrow> bool" where
  "dacl_source_defaulted src = (case src of DACL_TOKEN_DEFAULT _ \<Rightarrow> True | DACL_FALLBACK \<Rightarrow> True | _ \<Rightarrow> False)"

text \<open>Status and \<open>*NewSD\<close>; \<open>allocated\<close> says whether \<open>kmalloc_zeroed\<close> returned the block.\<close>

definition SeAssignSecurity ::
  "bool \<Rightarrow> SECURITY_DESCRIPTOR option \<Rightarrow> SECURITY_DESCRIPTOR option \<Rightarrow> bool \<Rightarrow> ACCESS_TOKEN option \<Rightarrow> bool \<Rightarrow>
   (NTSTATUS \<times> SECURITY_DESCRIPTOR option) option" where
  "SeAssignSecurity allocated ParentSD CreatorSD is_dir tok new_ptr =
     (if \<not> new_ptr then Some (STATUS_INVALID_PARAMETER, None)
      else (let pick = (\<lambda>f g. case Option.bind CreatorSD f of Some s \<Rightarrow> Some s | None \<Rightarrow> Option.bind tok g) in
      case pick sd_Owner t_UserSid of
        None \<Rightarrow> Some (STATUS_INVALID_PARAMETER, None)
      | Some owner_sid \<Rightarrow> do {
          let group_sid = pick sd_Group t_PrimaryGroup;
          vo \<leftarrow> RtlValidSid (Some owner_sid);
          if \<not> vo then Some (STATUS_INVALID_PARAMETER, None)
          else do {
            vg \<leftarrow> (case group_sid of None \<Rightarrow> Some True | Some _ \<Rightarrow> RtlValidSid group_sid);
            if \<not> vg then Some (STATUS_INVALID_PARAMETER, None)
            else do {
              sel \<leftarrow> select_dacl_source ParentSD CreatorSD is_dir tok owner_sid;
              case sel of
                Inl status \<Rightarrow> Some (status, None)
              | Inr (src, dacl_bytes) \<Rightarrow>
                  if dacl_bytes > 0xFFFF then Some (STATUS_INSUFFICIENT_RESOURCES, None)
                  else do {
                    owner_len \<leftarrow> RtlLengthSid (Some owner_sid);
                    group_len \<leftarrow> RtlLengthSid group_sid;
                    let dacl_region = ROUND4 dacl_bytes;
                    let owner_region = ROUND4 owner_len;
                    let group_region = ROUND4 group_len;
                    let total = ROUND4 sizeof_SECURITY_DESCRIPTOR + dacl_region + owner_region + group_region;
                    if total > SE_ASSIGN_MAX_SD then Some (STATUS_INSUFFICIENT_RESOURCES, None)
                    else if \<not> allocated then Some (STATUS_NO_MEMORY, None)
                    else do {
                      r \<leftarrow> build_dacl src dacl_region is_dir owner_sid;
                      case r of
                        Inl status \<Rightarrow> Some (status, None)
                      | Inr dacl \<Rightarrow> do {
                          (rc, ob) \<leftarrow> RtlCopySid (Some (replicate (unat owner_region) 0)) owner_len (Some owner_sid);
                          if rc \<noteq> 0 then Some (STATUS_INVALID_PARAMETER, None)
                          else do {
                            (rg, gb) \<leftarrow> (case group_sid of
                              None \<Rightarrow> Some (0, None)
                            | Some _ \<Rightarrow> RtlCopySid (Some (replicate (unat group_region) 0)) group_len group_sid);
                            if rg \<noteq> 0 then Some (STATUS_INVALID_PARAMETER, None)
                            else do {
                              let sd0 = Some \<lparr>sd_Revision = 0, sd_Sbz1 = 0, sd_Control = 0, sd_Owner = None,
                                               sd_Group = None, sd_Sacl = None, sd_Dacl = None\<rparr>;
                              let sd1 = snd (RtlCreateSecurityDescriptor sd0 SECURITY_DESCRIPTOR_REVISION);
                              let sd2 = snd (RtlSetOwnerSecurityDescriptor sd1 ob False);
                              let sd3 = (if group_sid = None then sd2
                                         else snd (RtlSetGroupSecurityDescriptor sd2 gb False));
                              let sd4 = snd (RtlSetDaclSecurityDescriptor sd3 True dacl (dacl_source_defaulted src));
                              let sd5 = (case src of
                                           DACL_INHERIT _ \<Rightarrow> map_option (sd_flag True SE_DACL_AUTO_INHERITED) sd4
                                         | _ \<Rightarrow> sd4);
                              let prot = (case CreatorSD of None \<Rightarrow> False
                                          | Some c \<Rightarrow> sd_Control c AND SE_DACL_PROTECTED \<noteq> 0);
                              Some (STATUS_SUCCESS,
                                    if prot then map_option (sd_flag True SE_DACL_PROTECTED) sd5 else sd5) } } } } } } } }))"

text \<open>\<open>SeDeassignSecurity\<close>: the descriptor pointer afterwards and the block that is freed, if any.\<close>

definition SeDeassignSecurity :: "'a option option \<Rightarrow> 'a option option \<times> 'a option" where
  "SeDeassignSecurity NewSD =
     (case NewSD of Some (Some sd) \<Rightarrow> (Some None, Some sd) | _ \<Rightarrow> (NewSD, None))"

section \<open>The built-in descriptors\<close>

definition SD_BLOB_SIZE :: u32 where "SD_BLOB_SIZE = 256"
definition SD_TYPE_COUNT :: nat where "SD_TYPE_COUNT = 4"

definition build_sd :: "bytes \<Rightarrow> u32 \<Rightarrow> bytes \<Rightarrow> bytes \<Rightarrow> (u32 \<times> bytes) option" where
  "build_sd out out_len owner dacl = do {
     let sd0 = Some \<lparr>sd_Revision = 0, sd_Sbz1 = 0, sd_Control = 0, sd_Owner = None, sd_Group = None,
                     sd_Sacl = None, sd_Dacl = None\<rparr>;
     let sd1 = snd (RtlCreateSecurityDescriptor sd0 SECURITY_DESCRIPTOR_REVISION);
     let sd2 = snd (RtlSetOwnerSecurityDescriptor sd1 (Some owner) False);
     let sd3 = snd (RtlSetDaclSecurityDescriptor sd2 True (Some dacl) False);
     (rc, out', rel_len) \<leftarrow> RtlAbsoluteToSelfRelativeSD sd3 (Some out) (Some out_len);
     case (out', rel_len) of
       (Some o1, Some n) \<Rightarrow> Some (if rc \<noteq> 0 then 0 else n, o1)
     | _ \<Rightarrow> Some (0, out) }"

text \<open>The grants the four builders add, in order; they ignore the results of the additions.\<close>

primrec add_grants :: "(u32 \<times> bytes) list \<Rightarrow> bytes option \<Rightarrow> bytes option option" where
  "add_grants [] m = Some m"
| "add_grants (g # gs) m = do {
     (rc, m) \<leftarrow> RtlAddAccessAllowedAce m ACL_REVISION (fst g) (Some (snd g));
     add_grants gs m }"

text \<open>\<open>acl_buf\<close> is the uninitialised local array the builders start from.\<close>

definition build_type :: "(u32 \<times> bytes) list \<Rightarrow> bytes \<Rightarrow> bytes \<Rightarrow> (u32 \<times> bytes) option" where
  "build_type grants acl_buf blob = do {
     (rc, m) \<leftarrow> RtlCreateAcl (Some acl_buf) 128 ACL_REVISION;
     m \<leftarrow> add_grants grants m;
     dacl \<leftarrow> m;
     build_sd blob SD_BLOB_SIZE SeLocalSystemSid dacl }"

definition grants_default :: "(u32 \<times> bytes) list" where
  "grants_default = [(GENERIC_ALL, SeLocalSystemSid), (GENERIC_ALL, SeBuiltinAdministratorsSid), (READ_CONTROL, SeWorldSid)]"

definition grants_process :: "(u32 \<times> bytes) list" where
  "grants_process = [(GENERIC_ALL, SeLocalSystemSid), (0x001FFFFF, SeBuiltinAdministratorsSid), (0x00001000, SeWorldSid)]"

definition grants_token :: "(u32 \<times> bytes) list" where
  "grants_token = [(GENERIC_ALL, SeLocalSystemSid), (0x00000008, SeCreatorOwnerSid)]"

definition grants_registry :: "(u32 \<times> bytes) list" where
  "grants_registry = [(GENERIC_ALL, SeLocalSystemSid), (GENERIC_ALL, SeBuiltinAdministratorsSid), (READ_CONTROL, SeBuiltinUsersSid)]"

definition sd_grants :: "(u32 \<times> bytes) list list" where
  "sd_grants = [grants_default, grants_process, grants_token, grants_registry]"

text \<open>\<open>g_sd_blobs\<close>, \<open>g_sd_sizes\<close> and \<open>g_sd_inited\<close>.\<close>

record default_sds =
  sd_blobs :: "bytes list"
  sd_sizes :: "u32 list"
  sd_inited :: bool

primrec build_all :: "nat \<Rightarrow> (u32 \<times> bytes) list list \<Rightarrow> bytes \<Rightarrow> default_sds \<Rightarrow> default_sds option" where
  "build_all t [] acl_buf g = Some g"
| "build_all t (gr # grs) acl_buf g =
     (if length (sd_blobs g) \<le> t \<or> length (sd_sizes g) \<le> t then None
      else do {
        (n, blob) \<leftarrow> build_type gr acl_buf (sd_blobs g ! t);
        build_all (Suc t) grs acl_buf
          (g\<lparr>sd_blobs := (sd_blobs g)[t := blob], sd_sizes := (sd_sizes g)[t := n]\<rparr>) })"

definition se_default_sds_init :: "bytes \<Rightarrow> default_sds \<Rightarrow> default_sds option" where
  "se_default_sds_init acl_buf g =
     (if sd_inited g then Some g
      else do {
        let g = g\<lparr>sd_blobs := replicate SD_TYPE_COUNT (replicate (unat SD_BLOB_SIZE) 0),
                  sd_sizes := replicate SD_TYPE_COUNT 0\<rparr>;
        g \<leftarrow> build_all 0 sd_grants acl_buf g;
        Some (g\<lparr>sd_inited := True\<rparr>) })"

definition SeCreateDefaultSD :: "bytes \<Rightarrow> u32 \<Rightarrow> default_sds \<Rightarrow> (bytes option \<times> default_sds) option" where
  "SeCreateDefaultSD acl_buf type g = do {
     g \<leftarrow> (if \<not> sd_inited g then se_default_sds_init acl_buf g else Some g);
     if type \<ge> of_nat SD_TYPE_COUNT \<or> sd_sizes g ! unat type = 0 then Some (None, g)
     else Some (Some (sd_blobs g ! unat type), g) }"

definition SeGetDefaultSDSize :: "bytes \<Rightarrow> u32 \<Rightarrow> default_sds \<Rightarrow> (u32 \<times> default_sds) option" where
  "SeGetDefaultSDSize acl_buf type g = do {
     g \<leftarrow> (if \<not> sd_inited g then se_default_sds_init acl_buf g else Some g);
     if type \<ge> of_nat SD_TYPE_COUNT then Some (0, g) else Some (sd_sizes g ! unat type, g) }"

text \<open>Result, \<open>*sd_out\<close> and DACL buffer afterwards.\<close>

definition SeCreateCreatorSD ::
  "SECURITY_DESCRIPTOR option \<Rightarrow> bytes option \<Rightarrow> bytes option \<Rightarrow> u32 \<Rightarrow>
   (int \<times> SECURITY_DESCRIPTOR option \<times> bytes option) option" where
  "SeCreateCreatorSD sd_out creator_sid dacl_buf dacl_buf_size =
     (case (sd_out, creator_sid, dacl_buf) of
        (Some sd, Some c, Some buf) \<Rightarrow> do {
          l1 \<leftarrow> RtlLengthSid (Some c);
          l2 \<leftarrow> RtlLengthSid (Some SeLocalSystemSid);
          l3 \<leftarrow> RtlLengthSid (Some SeWorldSid);
          let need = 8 + 8 + l1 + 8 + l2 + 8 + l3;
          if dacl_buf_size < need then Some (-1, sd_out, dacl_buf)
          else do {
            (rc, m) \<leftarrow> RtlCreateAcl (Some buf) (ucast dacl_buf_size) ACL_REVISION;
            (rc2, d) \<leftarrow> add_allowed_aces
              [(GENERIC_ALL, c), (GENERIC_ALL, SeLocalSystemSid), (READ_CONTROL, SeWorldSid)] m;
            if rc2 \<noteq> 0 then Some (-1, sd_out, d)
            else do {
              let sd1 = snd (RtlCreateSecurityDescriptor sd_out SECURITY_DESCRIPTOR_REVISION);
              let sd2 = snd (RtlSetOwnerSecurityDescriptor sd1 creator_sid False);
              let sd3 = snd (RtlSetDaclSecurityDescriptor sd2 True d False);
              Some (0, sd3, d) } } }
      | _ \<Rightarrow> Some (-1, sd_out, dacl_buf))"

section \<open>What is inherited\<close>

text \<open>The copy of one parent entry of the wanted type, if it is inherited at all.\<close>

definition inherit_ace :: "bool \<Rightarrow> u8 \<Rightarrow> bytes \<Rightarrow> bytes option" where
  "inherit_ace is_dir want a =
     (if a ! 0 = want
      then map_option (\<lambda>cf. mk_ace want cf (ace_mask a) (ace_sid a)) (inherit_child_flags (a ! 1) is_dir)
      else None)"

definition inherit_aces :: "bool \<Rightarrow> u8 \<Rightarrow> bytes list \<Rightarrow> bytes list" where
  "inherit_aces is_dir want as = List.map_filter (inherit_ace is_dir want) as"

text \<open>The inherited DACL: the denials first, then the grants.\<close>

definition inherited_dacl :: "bool \<Rightarrow> bytes list \<Rightarrow> bytes list" where
  "inherited_dacl is_dir as =
     inherit_aces is_dir ACCESS_DENIED_ACE_TYPE as @ inherit_aces is_dir ACCESS_ALLOWED_ACE_TYPE as"

lemma inherit_aces_simps [simp]:
  "inherit_aces is_dir want [] = []"
  "inherit_aces is_dir want (a # as) =
     (case inherit_ace is_dir want a of None \<Rightarrow> [] | Some b \<Rightarrow> [b]) @ inherit_aces is_dir want as"
  by (simp_all add: inherit_aces_def List.map_filter_simps split: option.splits)

lemma child_flags_at_eq:
  assumes "acl_aces m = Some as" and "i < length as"
  shows "child_flags_at m (ace_off as i) b is_dir =
    Some (if b then inherit_child_flags (as ! i ! 1) is_dir else None)"
  using ace_reads(2) [OF assms] by (simp add: child_flags_at_def)

lemma unat_Suc_u32: "unat i + 1 < 2 ^ 32 \<Longrightarrow> unat (i + 1 :: u32) = Suc (unat i)"
  by (simp add: unat_word_ariths)

lemma any_inheritable_eq:
  assumes "acl_aces m = Some as"
  shows "unat i + n = length as \<Longrightarrow> any_inheritable n i typ is_dir m =
    Some (\<exists>a \<in> set (drop (unat i) as). typ (a ! 0) \<and> inherit_child_flags (a ! 1) is_dir \<noteq> None)"
proof (induction n arbitrary: i)
  case (Suc n)
  then have i: "unat i < length as" by simp
  have "length as < 65536" using acl_aces_split(3) [OF assms] unat_u16_less by (simp add: acl_count_def)
  then have si: "unat (i + 1) = Suc (unat i)" using i by (intro unat_Suc_u32) simp
  have d: "drop (unat i) as = as ! unat i # drop (Suc (unat i)) as" using i by (simp add: Cons_nth_drop_Suc)
  show ?case
    using Suc.IH [of "i + 1"] Suc.prems i si
    by (simp add: RtlGetAce_eq [OF assms] ace_reads [OF assms i] child_flags_at_eq [OF assms i] d)
qed simp

end
