(* ===== verification/Sec_Assign_Facts.thy ===== *)
theory Sec_Assign_Facts
  imports Sec_Assign
begin

text \<open>
  The descriptor built by \<open>SeAssignSecurity\<close> decodes to the inherited access rules, and the built-in
  default descriptors decode to the grants their builders list.
\<close>

section \<open>Rounding\<close>

lemma and_not_mask_2: "(x :: u32) AND NOT (mask 2) = push_bit 2 (drop_bit 2 x)"
proof (rule bit_word_eqI)
  fix n assume "n < LENGTH(32)"
  show "bit (x AND NOT (mask 2)) n = bit (push_bit 2 (drop_bit 2 x)) n"
  proof (cases "n < 2")
    case False
    then obtain k where "n = 2 + k" using le_Suc_ex by (metis not_less)
    then show ?thesis
      using \<open>n < LENGTH(32)\<close> by (simp add: bit_and_iff bit_not_iff bit_mask_iff bit_push_bit_iff bit_drop_bit_eq)
  qed (simp add: bit_and_iff bit_not_iff bit_mask_iff bit_push_bit_iff)
qed

lemma three_mask: "(3 :: u32) = mask 2"
  by (simp add: mask_eq_exp_minus_1)

lemma unat_ROUND4:
  assumes "unat n < 2 ^ 32 - 4"
  shows "unat (ROUND4 n) = 4 * ((unat n + 3) div 4)"
proof -
  have s: "unat (n + 3) = unat n + 3" using assms by (simp add: unat_word_ariths)
  have "ROUND4 n = push_bit 2 (drop_bit 2 (n + 3))"
    unfolding ROUND4_def by (subst (2) three_mask) (rule and_not_mask_2)
  then have "ROUND4 n = 4 * ((n + 3) div 4)"
    by (simp add: push_bit_eq_mult drop_bit_eq_div mult.commute)
  moreover have "unat ((n + 3) div 4) = (unat n + 3) div 4" by (simp add: unat_div s)
  ultimately show ?thesis using assms by (simp add: unat_word_ariths)
qed

lemma ROUND4_ge: "unat n < 2 ^ 32 - 4 \<Longrightarrow> unat n \<le> unat (ROUND4 n) \<and> unat (ROUND4 n) < unat n + 4"
  unfolding unat_ROUND4 by linarith

section \<open>Building ACLs entry by entry\<close>

lemma allowed_denied_bearing:
  "ace_is_sid_bearing ACCESS_ALLOWED_ACE_TYPE" "ace_is_sid_bearing ACCESS_DENIED_ACE_TYPE"
  by (simp_all add: ace_is_sid_bearing_def)

lemma add_allowed_aces_eq:
  assumes "acl_aces m = Some as" and "\<forall>g \<in> set gs. sid_ok (snd g)"
    and "8 + aces_len as + sum_list (map (\<lambda>g. 8 + sid_size (snd g)) gs) \<le> acl_size m"
  shows "\<exists>m'. add_allowed_aces gs (Some m) = Some (0, Some m') \<and>
    acl_aces m' = Some (as @ map (\<lambda>g. mk_ace ACCESS_ALLOWED_ACE_TYPE 0 (fst g) (sid_body (snd g))) gs) \<and>
    acl_size m' = acl_size m \<and> length m' = length m"
  using assms
proof (induction gs arbitrary: m as)
  case (Cons g gs)
  let ?a = "mk_ace ACCESS_ALLOWED_ACE_TYPE 0 (fst g) (sid_body (snd g))"
  have ok: "sid_ok (snd g)" using Cons.prems by simp
  obtain m1 where m1: "acl_append_ace (Some m) ACCESS_ALLOWED_ACE_TYPE 0 (fst g) (Some (snd g)) = Some (0, Some m1)"
      "acl_aces m1 = Some (as @ [?a])" "acl_size m1 = acl_size m" "length m1 = length m"
    using acl_append_ace_eq(1) [OF Cons.prems(1) allowed_denied_bearing(1) ok, of 0 "fst g"] Cons.prems(3) by auto
  have "8 + aces_len (as @ [?a]) + sum_list (map (\<lambda>g. 8 + sid_size (snd g)) gs) \<le> acl_size m1"
    using Cons.prems(3) m1(3) length_sid_body [OF ok] by simp
  from Cons.IH [OF m1(2) _ this] Cons.prems(2) m1 show ?case
    by (auto simp: RtlAddAccessAllowedAce_def)
qed simp

lemma add_grants_eq:
  assumes "acl_aces m = Some as" and "\<forall>g \<in> set gs. sid_ok (snd g)"
    and "8 + aces_len as + sum_list (map (\<lambda>g. 8 + sid_size (snd g)) gs) \<le> acl_size m"
  shows "\<exists>m'. add_grants gs (Some m) = Some (Some m') \<and>
    acl_aces m' = Some (as @ map (\<lambda>g. mk_ace ACCESS_ALLOWED_ACE_TYPE 0 (fst g) (sid_body (snd g))) gs) \<and>
    acl_size m' = acl_size m \<and> length m' = length m"
  using assms
proof (induction gs arbitrary: m as)
  case (Cons g gs)
  let ?a = "mk_ace ACCESS_ALLOWED_ACE_TYPE 0 (fst g) (sid_body (snd g))"
  have ok: "sid_ok (snd g)" using Cons.prems by simp
  obtain m1 where m1: "acl_append_ace (Some m) ACCESS_ALLOWED_ACE_TYPE 0 (fst g) (Some (snd g)) = Some (0, Some m1)"
      "acl_aces m1 = Some (as @ [?a])" "acl_size m1 = acl_size m" "length m1 = length m"
    using acl_append_ace_eq(1) [OF Cons.prems(1) allowed_denied_bearing(1) ok, of 0 "fst g"] Cons.prems(3) by auto
  have "8 + aces_len (as @ [?a]) + sum_list (map (\<lambda>g. 8 + sid_size (snd g)) gs) \<le> acl_size m1"
    using Cons.prems(3) m1(3) length_sid_body [OF ok] by simp
  from Cons.IH [OF m1(2) _ this] Cons.prems(2) m1 show ?case
    by (auto simp: RtlAddAccessAllowedAce_def)
qed simp

text \<open>Stamping the flags of the last entry.\<close>

lemma stamp_flags:
  assumes "acl_aces m = Some (as @ [mk_ace t 0 k s])" and "ace_is_sid_bearing t" and "sid_ok s" and "length s \<le> 68"
  shows "\<exists>m'. wr8 m (8 + aces_len as + 1) cf = Some m' \<and> acl_aces m' = Some (as @ [mk_ace t cf k s]) \<and>
    acl_size m' = acl_size m \<and> length m' = length m"
proof -
  let ?a = "\<lambda>f. mk_ace t f k s"
  obtain r x sz c y z rest where m: "m = [r, x] @ enc16 sz @ enc16 c @ [y, z] @ concat (as @ [?a 0]) @ rest"
    and r: "r = ACL_REVISION \<or> r = ACL_REVISION_DS" and c: "unat c = length (as @ [?a 0])" and sz: "unat sz = acl_size m"
    by (rule acl_aces_image_ex [OF assms(1)])
  let ?m' = "[r, x] @ enc16 sz @ enc16 c @ [y, z] @ concat (as @ [?a cf]) @ rest"
  let ?tl = "enc16 (of_nat (8 + length s)) @ enc32 k @ s @ rest"
  have ml: "m = ([r, x] @ enc16 sz @ enc16 c @ [y, z] @ concat as @ [t]) @ 0 # ?tl"
    by (simp add: m mk_ace_def)
  have "wr8 m (8 + aces_len as + 1) cf = Some (([r, x] @ enc16 sz @ enc16 c @ [y, z] @ concat as @ [t]) @ cf # ?tl)"
    unfolding ml by (subst wr8_at) (simp_all add: length_concat_aces)
  then have w: "wr8 m (8 + aces_len as + 1) cf = Some ?m'" by (simp add: mk_ace_def)
  have ok: "\<forall>a \<in> set (as @ [?a cf]). ace_ok a \<and> ace_len a = length a"
    using acl_aces_split(5) [OF assms(1)] mk_ace_ok [OF assms(2,3), of cf k] mk_ace_fields [of s] assms(4) by auto
  have len: "length ?m' = length m" by (simp add: m)
  have c': "unat c = length (as @ [?a cf])" using c by simp
  have le: "8 + aces_len (as @ [?a cf]) \<le> unat sz" "unat sz \<le> length ?m'"
    using acl_aces_split(4) [OF assms(1)] acl_hdr_okD(3) [OF acl_aces_split(2) [OF assms(1)]] sz len by auto
  show ?thesis
    using w len sz acl_aces_image [OF refl r c' ok le] by auto
qed

section \<open>The inherited DACL\<close>

definition inherit_bytes :: "bool \<Rightarrow> bytes list \<Rightarrow> nat" where
  "inherit_bytes is_dir as = aces_len (inherited_dacl is_dir as)"

lemma length_inherit_ace:
  "sid_ok (drop 8 a) \<Longrightarrow> inherit_ace is_dir want a = Some b \<Longrightarrow> length b = 8 + sid_size (drop 8 a)"
  by (auto simp: inherit_ace_def ace_sid_def length_sid_body split: if_splits)

lemma inherit_bytes_Cons:
  assumes "sid_ok (drop 8 a)"
  shows "inherit_bytes is_dir (a # as) = inherit_bytes is_dir as +
    (if ace_is_dacl_type (a ! 0) \<and> inherit_child_flags (a ! 1) is_dir \<noteq> None then 8 + sid_size (drop 8 a) else 0)"
proof -
  have ne: "ACCESS_DENIED_ACE_TYPE \<noteq> ACCESS_ALLOWED_ACE_TYPE" by (simp add: ace_type_defs)
  show ?thesis
    using assms ne
    by (auto simp: inherit_bytes_def inherited_dacl_def inherit_ace_def ace_is_dacl_type_def ace_sid_def length_sid_body
        split: option.splits)
qed

lemma inherit_bytes_le:
  assumes "\<forall>a \<in> set as. ace_ok a \<and> ace_len a = length a"
  shows "inherit_bytes is_dir as \<le> aces_len as"
  using assms
proof (induction as)
  case (Cons a as)
  then have "sid_ok (drop 8 a)" "8 + sid_size (drop 8 a) \<le> length a" using ace_ok_sid [of a] by auto
  with Cons show ?case by (simp add: inherit_bytes_Cons)
qed (simp add: inherit_bytes_def inherited_dacl_def)

lemma RtlLengthSid_inline:
  assumes "acl_aces m = Some as" and "i < length as"
  shows "\<exists>n. RtlLengthSid (Some (drop (ace_off as i + 8) m)) = Some n \<and> unat n = sid_size (drop 8 (as ! i))"
    and "sid_ok (drop (ace_off as i + 8) m)" and "sid_body (drop (ace_off as i + 8) m) = ace_sid (as ! i)"
    and "sid_size (drop (ace_off as i + 8) m) = sid_size (drop 8 (as ! i))"
proof -
  note ok = ace_nth_ok [OF assms]
  obtain rest where pl: "drop (ace_off as i) m = as ! i @ rest" by (rule ace_in_place [OF assms])
  then have sid: "drop (ace_off as i + 8) m = drop 8 (as ! i) @ rest"
    using ok(3) by (simp add: drop_drop [symmetric] add.commute [of _ 8])
  show so: "sid_ok (drop (ace_off as i + 8) m)" unfolding sid by (rule sid_ok_append [OF ok(4)])
  show ss: "sid_size (drop (ace_off as i + 8) m) = sid_size (drop 8 (as ! i))"
    unfolding sid using ok(3) by (intro sid_size_append) simp
  show "sid_body (drop (ace_off as i + 8) m) = ace_sid (as ! i)"
    unfolding sid ace_sid_def by (rule sid_body_append [OF ok(4)])
  show "\<exists>n. RtlLengthSid (Some (drop (ace_off as i + 8) m)) = Some n \<and> unat n = sid_size (drop 8 (as ! i))"
    using RtlLengthSid_ok [OF so] ss by simp
qed

lemma inherited_bytes_loop_eq:
  assumes "acl_aces m = Some as"
  shows "unat i + n = length as \<Longrightarrow> unat acc + inherit_bytes is_dir (drop (unat i) as) < 2 ^ 32 \<Longrightarrow>
    \<exists>r. inherited_bytes_loop n i is_dir m acc = Some r \<and> unat r = unat acc + inherit_bytes is_dir (drop (unat i) as)"
proof (induction n arbitrary: i acc)
  case 0
  then show ?case by (simp add: inherit_bytes_def inherited_dacl_def)
next
  case (Suc n)
  then have i: "unat i < length as" by simp
  have "length as < 65536" using acl_aces_split(3) [OF assms] unat_u16_less by (simp add: acl_count_def)
  then have si: "unat (i + 1) = Suc (unat i)" using i by (intro unat_Suc_u32) simp
  let ?a = "as ! unat i"
  have d: "drop (unat i) as = ?a # drop (Suc (unat i)) as" using i by (simp add: Cons_nth_drop_Suc)
  obtain len where len: "RtlLengthSid (Some (drop (ace_off as (unat i) + 8) m)) = Some len"
      "unat len = sid_size (drop 8 ?a)"
    using RtlLengthSid_inline(1) [OF assms i] by blast
  note ok = ace_nth_ok [OF assms i]
  have b: "inherit_bytes is_dir (drop (unat i) as) = inherit_bytes is_dir (drop (Suc (unat i)) as) +
      (if ace_is_dacl_type (?a ! 0) \<and> inherit_child_flags (?a ! 1) is_dir \<noteq> None then 8 + sid_size (drop 8 ?a) else 0)"
    unfolding d by (rule inherit_bytes_Cons [OF ok(4)])
  note rds = RtlGetAce_eq [OF assms] ace_reads [OF assms i] child_flags_at_eq [OF assms i]
  show ?case
  proof (cases "ace_is_dacl_type (?a ! 0) \<and> inherit_child_flags (?a ! 1) is_dir \<noteq> None")
    case True
    have "sid_size (drop 8 ?a) \<le> 68" by (rule sid_ok_size_le [OF ok(4)])
    then have "unat (acc + (8 + len)) = unat acc + (8 + sid_size (drop 8 ?a))"
      using Suc.prems(2) b True len(2) by (simp add: unat_word_ariths)
    then show ?thesis
      using Suc.IH [of "i + 1" "acc + (8 + len)"] Suc.prems b True len si i by (auto simp: rds)
  next
    case False
    then show ?thesis
      using Suc.IH [of "i + 1" acc] Suc.prems b len si i by (auto simp: rds)
  qed
qed

lemma emit_one:
  assumes "acl_aces dst = Some pre" and "want = ACCESS_ALLOWED_ACE_TYPE \<or> want = ACCESS_DENIED_ACE_TYPE"
    and "sid_ok s" and "8 + aces_len pre + (8 + sid_size s) \<le> acl_size dst"
  obtains d2 d3 c where
    "(if want = ACCESS_DENIED_ACE_TYPE then RtlAddAccessDeniedAce (Some dst) ACL_REVISION k (Some s)
      else RtlAddAccessAllowedAce (Some dst) ACL_REVISION k (Some s)) = Some (0, Some d2)"
    and "rd16 d2 4 = Some c"
    and "RtlGetAce (Some d2) (ucast c - 1) True = Some (0, Some (8 + aces_len pre))"
    and "wr8 d2 (8 + aces_len pre + 1) cf = Some d3"
    and "acl_aces d3 = Some (pre @ [mk_ace want cf k (sid_body s)])"
    and "acl_size d3 = acl_size dst" and "length d3 = length dst"
proof -
  have b: "ace_is_sid_bearing want" using assms(2) allowed_denied_bearing by auto
  obtain d2 where d2: "acl_append_ace (Some dst) want 0 k (Some s) = Some (0, Some d2)"
      "acl_aces d2 = Some (pre @ [mk_ace want 0 k (sid_body s)])" "acl_size d2 = acl_size dst" "length d2 = length dst"
    using acl_append_ace_eq(1) [OF assms(1) b assms(3,4)] by blast
  have sb: "sid_ok (sid_body s)" "length (sid_body s) \<le> 68"
    using sid_ok_body [OF assms(3)] length_sid_body [OF assms(3)] sid_ok_size_le [OF assms(3)] by auto
  obtain d3 where d3: "wr8 d2 (8 + aces_len pre + 1) cf = Some d3"
      "acl_aces d3 = Some (pre @ [mk_ace want cf k (sid_body s)])" "acl_size d3 = acl_size d2" "length d3 = length d2"
    using stamp_flags [OF d2(2) b sb] by blast
  let ?c = "dec16 (d2 ! 4) (d2 ! 5)"
  have c: "rd16 d2 4 = Some ?c" "unat ?c = Suc (length pre)"
    using acl_aces_split(2,3) [OF d2(2)] rd16_hdr [of d2] acl_hdr_okD by (auto simp: acl_count_def)
  then have "unat (ucast ?c - 1 :: u32) = length pre" by (subst unat_sub) (auto simp: word_le_nat_alt)
  then have "RtlGetAce (Some d2) (ucast ?c - 1) True = Some (0, Some (8 + aces_len pre))"
    by (simp add: RtlGetAce_eq [OF d2(2)] ace_off_def)
  with c d2 d3 that show thesis
    by (metis (full_types) RtlAddAccessAllowedAce_def RtlAddAccessDeniedAce_def assms(2))
qed

lemma emit_inherited_pass_eq:
  assumes "acl_aces pm = Some as" and "want = ACCESS_ALLOWED_ACE_TYPE \<or> want = ACCESS_DENIED_ACE_TYPE"
  shows "unat i + n = length as \<Longrightarrow> acl_aces dst = Some pre \<Longrightarrow>
    8 + aces_len pre + aces_len (inherit_aces is_dir want (drop (unat i) as)) \<le> acl_size dst \<Longrightarrow>
    \<exists>dst'. emit_inherited_pass n i pm is_dir want dst = Some (Some dst') \<and>
      acl_aces dst' = Some (pre @ inherit_aces is_dir want (drop (unat i) as)) \<and>
      acl_size dst' = acl_size dst \<and> length dst' = length dst"
proof (induction n arbitrary: i dst pre)
  case 0
  then show ?case by simp
next
  case (Suc n)
  then have i: "unat i < length as" by simp
  have "length as < 65536" using acl_aces_split(3) [OF assms(1)] unat_u16_less by (simp add: acl_count_def)
  then have si: "unat (i + 1) = Suc (unat i)" using i by (intro unat_Suc_u32) simp
  let ?a = "as ! unat i" and ?s = "drop (ace_off as (unat i) + 8) pm"
  have d: "drop (unat i) as = ?a # drop (Suc (unat i)) as" using i by (simp add: Cons_nth_drop_Suc)
  note sid = RtlLengthSid_inline(2-4) [OF assms(1) i]
  note rds = RtlGetAce_eq [OF assms(1)] ace_reads [OF assms(1) i] child_flags_at_eq [OF assms(1) i]
  show ?case
  proof (cases "if ?a ! 0 = want then inherit_child_flags (?a ! 1) is_dir else None")
    case None
    then show ?thesis
      using Suc.IH [of "i + 1" dst pre] Suc.prems si i
      by (auto simp: rds d inherit_ace_def split: if_splits)
  next
    case (Some cf)
    then have w: "?a ! 0 = want" "inherit_child_flags (?a ! 1) is_dir = Some cf" by (auto split: if_splits)
    let ?b = "mk_ace want cf (ace_mask ?a) (ace_sid ?a)"
    have ia: "inherit_ace is_dir want ?a = Some ?b" using w by (simp add: inherit_ace_def)
    have lb: "length ?b = 8 + sid_size ?s"
      using length_inherit_ace [OF ace_nth_ok(4) [OF assms(1) i] ia] sid(3) by simp
    have room: "8 + aces_len pre + (8 + sid_size ?s) \<le> acl_size dst"
      using Suc.prems(3) lb by (simp add: d ia)
    obtain d2 d3 c where e: "(if want = ACCESS_DENIED_ACE_TYPE
        then RtlAddAccessDeniedAce (Some dst) ACL_REVISION (ace_mask ?a) (Some ?s)
        else RtlAddAccessAllowedAce (Some dst) ACL_REVISION (ace_mask ?a) (Some ?s)) = Some (0, Some d2)"
      "rd16 d2 4 = Some c" "RtlGetAce (Some d2) (ucast c - 1) True = Some (0, Some (8 + aces_len pre))"
      "wr8 d2 (8 + aces_len pre + 1) cf = Some d3" "acl_aces d3 = Some (pre @ [?b])"
      "acl_size d3 = acl_size dst" "length d3 = length dst"
      using emit_one [OF Suc.prems(2) assms(2) sid(1) room, of "ace_mask ?a" cf] unfolding sid(2) by metis
    have le: "8 + aces_len (pre @ [?b]) + aces_len (inherit_aces is_dir want (drop (unat (i + 1)) as)) \<le> acl_size d3"
      using Suc.prems(3) e(6) by (simp add: d ia si)
    obtain dst' where r: "emit_inherited_pass n (i + 1) pm is_dir want d3 = Some (Some dst')"
        "acl_aces dst' = Some ((pre @ [?b]) @ inherit_aces is_dir want (drop (unat (i + 1)) as))"
        "acl_size dst' = acl_size d3" "length dst' = length d3"
      using Suc.IH [OF _ e(5) le] si Suc.prems(1) by auto
    have "emit_inherited_pass (Suc n) i pm is_dir want dst = Some (Some dst')"
      using i w r(1) e(1-4) by (simp add: rds)
    then show ?thesis using r(2-4) e(6,7) si by (simp add: d ia)
  qed
qed

section \<open>Choosing the DACL\<close>

text \<open>The ACL header is readable and so are as many bytes as it claims.\<close>

definition acl_mapped :: "bytes \<Rightarrow> bool" where
  "acl_mapped m \<longleftrightarrow> 8 \<le> length m \<and> acl_size m \<le> length m"

lemma dacl_shape_ok_eq:
  assumes "acl_mapped m"
  shows "dacl_shape_ok (Some m) = Some (acl_aces m \<noteq> None)"
proof (cases "acl_size m < 8")
  case True
  then have "acl_aces m = None" using acl_hdr_okD(2) [of m] by (auto simp: acl_aces_def)
  with True assms show ?thesis
    by (simp add: dacl_shape_ok_def acl_mapped_def rd16_hdr word_le_nat_alt acl_size_def)
next
  case False
  let ?sz = "ucast (dec16 (m ! 2) (m ! 3)) :: u32"
  have "unat ?sz = acl_size m" by (simp add: acl_size_def)
  then have "RtlValidAcl (Some m) ?sz = Some (acl_aces m \<noteq> None)"
    using False assms RtlValidAcl_eq [of ?sz m] by (simp add: acl_mapped_def acl_aces_take_iff)
  with False assms show ?thesis
    by (simp add: dacl_shape_ok_def acl_mapped_def rd16_hdr word_le_nat_alt acl_size_def)
qed

lemma dacl_shape_ok_None: "dacl_shape_ok None = Some False"
  by (simp add: dacl_shape_ok_def)

text \<open>The entries of the container's DACL, none if it has no well-formed one.\<close>

definition parent_aces :: "SECURITY_DESCRIPTOR option \<Rightarrow> bytes list" where
  "parent_aces P = (case Option.bind (Option.bind P sd_Dacl) acl_aces of None \<Rightarrow> [] | Some as \<Rightarrow> as)"

definition inheritable :: "(u8 \<Rightarrow> bool) \<Rightarrow> bool \<Rightarrow> bytes list \<Rightarrow> bool" where
  "inheritable typ is_dir as \<longleftrightarrow> (\<exists>a \<in> set as. typ (a ! 0) \<and> inherit_child_flags (a ! 1) is_dir \<noteq> None)"

lemma scan_parent_eq:
  assumes "\<And>m. Option.bind P sd_Dacl = Some m \<Longrightarrow> acl_mapped m"
  shows "scan_parent typ P is_dir = Some (inheritable typ is_dir (parent_aces P))"
proof (cases "Option.bind (Option.bind P sd_Dacl) acl_aces")
  case None
  then show ?thesis
    using assms
    by (cases "Option.bind P sd_Dacl")
      (auto simp: scan_parent_def parent_aces_def inheritable_def dacl_shape_ok_eq dacl_shape_ok_None split: option.splits)
next
  case (Some as)
  then obtain d m where P: "P = Some d" "sd_Dacl d = Some m" and as: "acl_aces m = Some as"
    by (auto simp: bind_eq_Some_conv)
  have "acl_mapped m" using assms P by simp
  moreover have "length as = unat (dec16 (m ! 4) (m ! 5))" using acl_aces_split(3) [OF as] by (simp add: acl_count_def)
  ultimately show ?thesis
    using any_inheritable_eq [OF as, of 0] P as dacl_shape_ok_eq [of m]
    by (simp add: scan_parent_def parent_aces_def inheritable_def acl_mapped_def rd16_hdr)
qed

definition fallback_aces :: "bytes \<Rightarrow> bytes list" where
  "fallback_aces owner = map (\<lambda>g. mk_ace ACCESS_ALLOWED_ACE_TYPE 0 (fst g) (sid_body (snd g)))
     [(GENERIC_ALL, owner), (GENERIC_ALL, SeLocalSystemSid), (READ_CONTROL, SeWorldSid)]"

text \<open>
  The access rules a new object gets, as entries, with the bytes the DACL needs: the creator's
  explicit DACL; else, unless the creator asked for protection, what the container passes on (never
  when it would pass on a conditional entry); else the token's default; else the owner and the system
  with full access and everyone with \<open>READ_CONTROL\<close>.
\<close>

definition assigned_dacl ::
  "SECURITY_DESCRIPTOR option \<Rightarrow> SECURITY_DESCRIPTOR option \<Rightarrow> bool \<Rightarrow> ACCESS_TOKEN option \<Rightarrow> bytes \<Rightarrow>
   NTSTATUS + bytes list option \<times> nat \<times> u16" where
  "assigned_dacl P C is_dir tok owner =
     (let ctl = (case C of None \<Rightarrow> 0 | Some d \<Rightarrow> sd_Control d);
          prot = (ctl AND SE_DACL_PROTECTED \<noteq> 0);
          from_parent = (if prot then [] else parent_aces P) in
      if ctl AND SE_DACL_PRESENT \<noteq> 0 \<and> ctl AND SE_DACL_DEFAULTED = 0 then
        (case Option.bind C sd_Dacl of
           None \<Rightarrow> Inr (None, 0, SE_DACL_PRESENT)
         | Some m \<Rightarrow> (case acl_aces m of None \<Rightarrow> Inl STATUS_INVALID_PARAMETER | Some as \<Rightarrow> Inr (Some as, acl_size m, SE_DACL_PRESENT)))
      else if inheritable ace_is_callback_type is_dir from_parent then Inl STATUS_INVALID_PARAMETER
      else if inheritable ace_is_dacl_type is_dir from_parent then
        Inr (Some (inherited_dacl is_dir from_parent), 8 + aces_len (inherited_dacl is_dir from_parent),
             SE_DACL_PRESENT OR SE_DACL_AUTO_INHERITED)
      else (case Option.bind (Option.bind tok t_DefaultDacl) (\<lambda>m. map_option (\<lambda>as. (as, acl_size m)) (acl_aces m)) of
              Some (as, n) \<Rightarrow> Inr (Some as, n, SE_DACL_PRESENT OR SE_DACL_DEFAULTED)
            | None \<Rightarrow> Inr (Some (fallback_aces owner), 8 + aces_len (fallback_aces owner),
                           SE_DACL_PRESENT OR SE_DACL_DEFAULTED)))"

text \<open>What a source stands for: the entries its DACL will have, the bytes it takes, the control flags.\<close>

definition source_aces :: "bool \<Rightarrow> bytes \<Rightarrow> dacl_source \<Rightarrow> bytes list option \<times> nat \<times> u16 \<Rightarrow> bool" where
  "source_aces is_dir owner src r \<longleftrightarrow>
     (case src of
        DACL_EXPLICIT_NULL \<Rightarrow> r = (None, 0, SE_DACL_PRESENT)
      | DACL_EXPLICIT_COPY m \<Rightarrow> \<exists>as. acl_aces m = Some as \<and> r = (Some as, acl_size m, SE_DACL_PRESENT)
      | DACL_TOKEN_DEFAULT m \<Rightarrow> \<exists>as. acl_aces m = Some as \<and>
          r = (Some as, acl_size m, SE_DACL_PRESENT OR SE_DACL_DEFAULTED)
      | DACL_INHERIT m \<Rightarrow> \<exists>as. acl_aces m = Some as \<and>
          r = (Some (inherited_dacl is_dir as), 8 + aces_len (inherited_dacl is_dir as),
               SE_DACL_PRESENT OR SE_DACL_AUTO_INHERITED)
      | DACL_FALLBACK \<Rightarrow> r = (Some (fallback_aces owner), 8 + aces_len (fallback_aces owner),
                               SE_DACL_PRESENT OR SE_DACL_DEFAULTED))"

lemma inherited_dacl_bytes_eq:
  assumes "acl_aces m = Some as"
  shows "\<exists>w. inherited_dacl_bytes m is_dir = Some w \<and> unat w = 8 + aces_len (inherited_dacl is_dir as)"
proof -
  have le: "8 + inherit_bytes is_dir as < 2 ^ 16"
    using inherit_bytes_le [OF acl_aces_split(5) [OF assms], of is_dir] acl_aces_split(4) [OF assms]
      unat_u16_less [of "dec16 (m ! 2) (m ! 3)"]
    by (simp add: acl_size_def)
  have "rd16 m 4 = Some (dec16 (m ! 4) (m ! 5))"
    using acl_aces_split(2) [OF assms] by (simp add: rd16_hdr acl_hdr_okD)
  then show ?thesis
    using inherited_bytes_loop_eq [OF assms, of 0 "length as" 8 is_dir] le acl_aces_split(3) [OF assms]
    by (auto simp: inherited_dacl_bytes_def inherit_bytes_def acl_count_def)
qed

lemma well_known_lengths:
  "RtlLengthSid (Some SeLocalSystemSid) = Some 12" "RtlLengthSid (Some SeWorldSid) = Some 12"
  "sid_ok SeLocalSystemSid" "sid_ok SeWorldSid" "sid_size SeLocalSystemSid = 12" "sid_size SeWorldSid = 12"
  by code_simp+

lemma aces_len_fallback: "sid_ok owner \<Longrightarrow> aces_len (fallback_aces owner) = 48 + sid_size owner"
  using length_sid_body [of owner] length_sid_body [OF well_known_lengths(3)] length_sid_body [OF well_known_lengths(4)]
  by (simp add: fallback_aces_def well_known_lengths)

lemma dacl_size_of_eq: "acl_mapped m \<Longrightarrow> \<exists>w. dacl_size_of m = Some w \<and> unat w = acl_size m"
  by (simp add: dacl_size_of_def acl_mapped_def rd16_hdr acl_size_def)

lemma select_fallback:
  assumes "sid_ok owner"
  shows "\<exists>w. do { l1 \<leftarrow> RtlLengthSid (Some owner); l2 \<leftarrow> RtlLengthSid (Some SeLocalSystemSid);
      l3 \<leftarrow> RtlLengthSid (Some SeWorldSid); Some (Inr (DACL_FALLBACK, 8 + 3 * 8 + l1 + l2 + l3)) } =
      Some (Inr (DACL_FALLBACK, w) :: NTSTATUS + dacl_source \<times> u32) \<and>
    unat w = 8 + aces_len (fallback_aces owner)"
proof -
  obtain n where n: "RtlLengthSid (Some owner) = Some n" "unat n = sid_size owner" using RtlLengthSid_ok [OF assms] by blast
  have "unat (8 + 3 * 8 + n + 12 + 12) = 56 + sid_size owner"
    using n(2) sid_ok_size_le [OF assms] by (simp add: unat_word_ariths)
  then show ?thesis using n(1) by (simp add: well_known_lengths aces_len_fallback [OF assms])
qed

lemma select_dacl_source_eq:
  assumes "\<And>m. Option.bind P sd_Dacl = Some m \<Longrightarrow> acl_mapped m"
    and "\<And>m. Option.bind C sd_Dacl = Some m \<Longrightarrow> acl_mapped m"
    and "\<And>m. Option.bind tok t_DefaultDacl = Some m \<Longrightarrow> acl_mapped m"
    and "sid_ok owner"
  shows "case assigned_dacl P C is_dir tok owner of
      Inl st \<Rightarrow> select_dacl_source P C is_dir tok owner = Some (Inl st)
    | Inr r \<Rightarrow> \<exists>src w. select_dacl_source P C is_dir tok owner = Some (Inr (src, w)) \<and>
        unat w = fst (snd r) \<and> source_aces is_dir owner src r"
proof -
  define ctl where "ctl = (case C of None \<Rightarrow> 0 | Some d \<Rightarrow> sd_Control d)"
  define expl where "expl \<longleftrightarrow> ctl AND SE_DACL_PRESENT \<noteq> 0 \<and> ctl AND SE_DACL_DEFAULTED = 0"
  define prot where "prot \<longleftrightarrow> ctl AND SE_DACL_PROTECTED \<noteq> 0"
  note defs = assigned_dacl_def select_dacl_source_def Let_def ctl_def [symmetric] expl_def [symmetric] prot_def [symmetric]
  have has: "parent_has_inheritable P is_dir = Some (inheritable ace_is_dacl_type is_dir (parent_aces P))"
    "parent_has_inheritable_callback P is_dir = Some (inheritable ace_is_callback_type is_dir (parent_aces P))"
    using scan_parent_eq [OF assms(1)] by (simp_all add: parent_has_inheritable_def parent_has_inheritable_callback_def)
  have none: "\<not> inheritable q is_dir []" for q by (simp add: inheritable_def)
  obtain wf where wf: "do { l1 \<leftarrow> RtlLengthSid (Some owner); l2 \<leftarrow> RtlLengthSid (Some SeLocalSystemSid);
      l3 \<leftarrow> RtlLengthSid (Some SeWorldSid); Some (Inr (DACL_FALLBACK, 8 + 3 * 8 + l1 + l2 + l3)) } =
      Some (Inr (DACL_FALLBACK, wf) :: NTSTATUS + dacl_source \<times> u32)" "unat wf = 8 + aces_len (fallback_aces owner)"
    using select_fallback [OF assms(4)] by blast
  consider (expl) "expl" | (cb) "\<not> expl" "\<not> prot" "inheritable ace_is_callback_type is_dir (parent_aces P)"
    | (inh) "\<not> expl" "\<not> prot" "\<not> inheritable ace_is_callback_type is_dir (parent_aces P)"
        "inheritable ace_is_dacl_type is_dir (parent_aces P)"
    | (dflt) "\<not> expl" "prot \<or> \<not> inheritable ace_is_callback_type is_dir (parent_aces P) \<and>
        \<not> inheritable ace_is_dacl_type is_dir (parent_aces P)"
    by blast
  then show ?thesis
  proof cases
    case expl
    show ?thesis
    proof (cases "Option.bind C sd_Dacl")
      case (Some m)
      with assms(2) have "acl_mapped m" by simp
      then show ?thesis
        using expl Some dacl_size_of_eq [of m]
        unfolding defs by (cases "acl_aces m") (auto simp: dacl_shape_ok_eq source_aces_def)
    qed (use expl in \<open>unfold defs, simp add: source_aces_def\<close>)
  next
    case cb
    then show ?thesis unfolding defs by (simp add: has)
  next
    case inh
    then have "parent_aces P \<noteq> []" using none by auto
    then obtain m as where m: "Option.bind P sd_Dacl = Some m" "acl_aces m = Some as" "parent_aces P = as"
      by (auto simp: parent_aces_def bind_eq_Some_conv split: option.splits)
    then show ?thesis
      using inh inherited_dacl_bytes_eq [OF m(2), of is_dir] has
      unfolding defs by (auto simp: source_aces_def)
  next
    case dflt
    show ?thesis
    proof (cases "Option.bind tok t_DefaultDacl")
      case (Some m)
      with assms(3) have "acl_mapped m" by simp
      then show ?thesis
        using dflt Some dacl_size_of_eq [of m] wf none has
        unfolding defs by (cases "acl_aces m") (auto simp: dacl_shape_ok_eq source_aces_def)
    qed (use dflt wf none has in \<open>unfold defs, auto simp: dacl_shape_ok_None source_aces_def\<close>)
  qed
qed

section \<open>Building the chosen DACL\<close>

definition round4 :: "nat \<Rightarrow> nat" where
  "round4 n = 4 * ((n + 3) div 4)"

lemma round4_ge: "n \<le> round4 n" "round4 n < n + 4"
  unfolding round4_def by linarith+

lemma unat_ROUND4_16: "unat w < 65536 \<Longrightarrow> unat (ROUND4 w) = round4 (unat w)"
  by (simp add: unat_ROUND4 round4_def)

lemma source_aces_bound:
  assumes "source_aces is_dir owner src r" and "sid_ok owner"
  shows "fst (snd r) < 65536" and "\<And>as. fst r = Some as \<Longrightarrow> 8 + aces_len as \<le> fst (snd r)"
proof -
  have sz: "acl_size m < 65536" for m by (simp add: acl_size_def unat_u16_less)
  have inh: "8 + aces_len (inherited_dacl is_dir as) < 65536" if "acl_aces m = Some as" for m as
    using inherit_bytes_le [OF acl_aces_split(5) [OF that], of is_dir] acl_aces_split(4) [OF that] sz [of m]
    by (simp add: inherit_bytes_def)
  show "fst (snd r) < 65536"
    using assms sz inh sid_ok_size_le [OF assms(2)]
    by (auto simp: source_aces_def aces_len_fallback split: dacl_source.splits)
  show "\<And>as. fst r = Some as \<Longrightarrow> 8 + aces_len as \<le> fst (snd r)"
    using assms acl_aces_split(4) by (auto simp: source_aces_def split: dacl_source.splits)
qed

lemma copy_region:
  assumes "acl_aces m = Some as" and "acl_size m \<le> n"
  obtains d where "rd16 m 2 = Some (dec16 (m ! 2) (m ! 3))"
    and "rd_bytes m 0 (unat (dec16 (m ! 2) (m ! 3))) = Some (take (acl_size m) m)"
    and "wr_bytes (replicate n 0) 0 (take (acl_size m) m) = Some d" and "acl_aces d = Some as"
proof -
  have h: "8 \<le> length m" "8 \<le> acl_size m" "acl_size m \<le> length m"
    using acl_hdr_okD [OF acl_aces_split(2) [OF assms(1)]] by auto
  let ?d = "take (acl_size m) m @ replicate (n - acl_size m) 0"
  have "acl_aces (take (acl_size m) ?d) = Some as" using assms(1) h by (simp add: acl_aces_take_iff)
  then have "acl_aces ?d = Some as" unfolding acl_aces_take_iff by (simp split: if_splits)
  moreover have "wr_bytes (replicate n 0) 0 (take (acl_size m) m) = Some ?d"
    using h assms(2) by (simp add: wr_bytes_0)
  ultimately show thesis
    using that h by (simp add: rd16_hdr rd_bytes_def acl_size_def)
qed

lemma fresh_acl:
  assumes "8 \<le> unat (w :: u32)" and "unat w < 65536"
  obtains d where "RtlCreateAcl (Some (replicate (unat w) 0)) (ucast w) ACL_REVISION = Some (0, Some d)"
    and "acl_aces d = Some []" and "acl_size d = unat w"
proof -
  have u: "unat (ucast w :: u16) = unat w"
    using assms(2) by (simp add: unsigned_ucast_eq take_bit_nat_eq_self)
  show thesis
    by (rule RtlCreateAcl_aces [of "ucast w" "replicate (unat w) 0" ACL_REVISION])
      (use assms u that in auto)
qed

lemma build_inherited:
  assumes "acl_aces pm = Some as" and "8 + aces_len (inherited_dacl is_dir as) \<le> unat w" and "unat w < 65536"
  shows "\<exists>d. build_dacl (DACL_INHERIT pm) w is_dir owner = Some (Inr (Some d)) \<and> acl_aces d = Some (inherited_dacl is_dir as)"
proof -
  let ?D = "inherit_aces is_dir ACCESS_DENIED_ACE_TYPE as" and ?A = "inherit_aces is_dir ACCESS_ALLOWED_ACE_TYPE as"
  obtain d0 where d0: "RtlCreateAcl (Some (replicate (unat w) 0)) (ucast w) ACL_REVISION = Some (0, Some d0)"
      "acl_aces d0 = Some []" "acl_size d0 = unat w"
    using fresh_acl assms(2,3) by (metis add_leD1)
  have c: "rd16 pm 4 = Some (dec16 (pm ! 4) (pm ! 5))" "unat (dec16 (pm ! 4) (pm ! 5)) = length as"
    using acl_aces_split(2,3) [OF assms(1)] by (auto simp: rd16_hdr acl_hdr_okD acl_count_def)
  have fit: "8 + aces_len ?D + aces_len ?A \<le> unat w" using assms(2) by (simp add: inherited_dacl_def)
  obtain d1 where d1: "emit_inherited_pass (length as) 0 pm is_dir ACCESS_DENIED_ACE_TYPE d0 = Some (Some d1)"
      "acl_aces d1 = Some ?D" "acl_size d1 = unat w"
    using emit_inherited_pass_eq [OF assms(1), of ACCESS_DENIED_ACE_TYPE 0 "length as" d0 "[]" is_dir] d0 fit by auto
  obtain d2 where d2: "emit_inherited_pass (length as) 0 pm is_dir ACCESS_ALLOWED_ACE_TYPE d1 = Some (Some d2)"
      "acl_aces d2 = Some (?D @ ?A)"
    using emit_inherited_pass_eq [OF assms(1), of ACCESS_ALLOWED_ACE_TYPE 0 "length as" d1 ?D is_dir] d1 fit by auto
  show ?thesis using d0(1) d1(1) d2 c by (simp add: build_dacl_def Let_def inherited_dacl_def)
qed

lemma build_fallback:
  assumes "sid_ok owner" and "8 + aces_len (fallback_aces owner) \<le> unat w" and "unat w < 65536"
  shows "\<exists>d. build_dacl DACL_FALLBACK w is_dir owner = Some (Inr (Some d)) \<and> acl_aces d = Some (fallback_aces owner)"
proof -
  let ?gs = "[(GENERIC_ALL, owner), (GENERIC_ALL, SeLocalSystemSid), (READ_CONTROL, SeWorldSid)]"
  obtain d0 where d0: "RtlCreateAcl (Some (replicate (unat w) 0)) (ucast w) ACL_REVISION = Some (0, Some d0)"
      "acl_aces d0 = Some []" "acl_size d0 = unat w"
    using fresh_acl assms(2,3) by (metis add_leD1)
  have "\<forall>g \<in> set ?gs. sid_ok (snd g)" using assms(1) by (simp add: well_known_lengths)
  moreover have "8 + aces_len [] + sum_list (map (\<lambda>g. 8 + sid_size (snd g)) ?gs) \<le> acl_size d0"
    using assms(2) d0(3) by (simp add: well_known_lengths aces_len_fallback [OF assms(1)])
  ultimately show ?thesis
    using add_allowed_aces_eq [OF d0(2)] d0(1)
    by (fastforce simp: build_dacl_def build_fallback_dacl_def Let_def fallback_aces_def)
qed

lemma build_dacl_eq:
  assumes "source_aces is_dir owner src r" and "sid_ok owner" and "fst (snd r) \<le> unat w" and "unat w < 65536"
  shows "\<exists>d. build_dacl src w is_dir owner = Some (Inr d) \<and>
    (case fst r of None \<Rightarrow> d = None | Some as \<Rightarrow> \<exists>m. d = Some m \<and> acl_aces m = Some as)"
proof (cases src)
  case (DACL_EXPLICIT_COPY m)
  then obtain as where "acl_aces m = Some as" "fst r = Some as" "fst (snd r) = acl_size m" using assms(1) by (auto simp: source_aces_def)
  with assms(3) show ?thesis
    using copy_region [of m as "unat w"] by (fastforce simp: build_dacl_def Let_def DACL_EXPLICIT_COPY)
next
  case (DACL_TOKEN_DEFAULT m)
  then obtain as where "acl_aces m = Some as" "fst r = Some as" "fst (snd r) = acl_size m" using assms(1) by (auto simp: source_aces_def)
  with assms(3) show ?thesis
    using copy_region [of m as "unat w"] by (fastforce simp: build_dacl_def Let_def DACL_TOKEN_DEFAULT)
next
  case (DACL_INHERIT pm)
  then show ?thesis using assms(1,3,4) build_inherited by (fastforce simp: source_aces_def)
next
  case DACL_FALLBACK
  then show ?thesis using assms build_fallback by (fastforce simp: source_aces_def)
qed (use assms(1) in \<open>simp add: source_aces_def build_dacl_def\<close>)

section \<open>The new descriptor\<close>

text \<open>Owner and group: the creator's, else the token's.\<close>

definition assigned_owner :: "SECURITY_DESCRIPTOR option \<Rightarrow> ACCESS_TOKEN option \<Rightarrow> bytes option" where
  "assigned_owner C tok = (case Option.bind C sd_Owner of Some s \<Rightarrow> Some s | None \<Rightarrow> Option.bind tok t_UserSid)"

definition assigned_group :: "SECURITY_DESCRIPTOR option \<Rightarrow> ACCESS_TOKEN option \<Rightarrow> bytes option" where
  "assigned_group C tok = (case Option.bind C sd_Group of Some s \<Rightarrow> Some s | None \<Rightarrow> Option.bind tok t_PrimaryGroup)"

definition opt_sid_size :: "bytes option \<Rightarrow> nat" where
  "opt_sid_size s = (case s of None \<Rightarrow> 0 | Some s \<Rightarrow> sid_size s)"

text \<open>The descriptor carries these flags and entries, this owner and this group, each in memory of its own.\<close>

definition sd_carries :: "SECURITY_DESCRIPTOR \<Rightarrow> u16 \<Rightarrow> bytes list option \<Rightarrow> bytes \<Rightarrow> bytes option \<Rightarrow> bool" where
  "sd_carries sd ctl aces owner grp \<longleftrightarrow>
     sd_Control sd = ctl \<and>
     map_option acl_aces (sd_Dacl sd) = map_option Some aces \<and>
     map_option sid_body (sd_Owner sd) = Some (sid_body owner) \<and>
     map_option sid_body (sd_Group sd) = map_option sid_body grp"

lemma copy_sid_region:
  assumes "sid_ok s"
  obtains n where "RtlLengthSid (Some s) = Some n" and "unat n = sid_size s" and "unat (ROUND4 n) = round4 (sid_size s)"
    and "RtlCopySid (Some (replicate (unat (ROUND4 n)) 0)) n (Some s) =
      Some (0, Some (sid_body s @ replicate (round4 (sid_size s) - sid_size s) 0))"
proof -
  obtain n where n: "RtlLengthSid (Some s) = Some n" "unat n = sid_size s" using RtlLengthSid_ok [OF assms] by blast
  then have r: "unat (ROUND4 n) = round4 (sid_size s)"
    using unat_ROUND4_16 [of n] sid_ok_size_le [OF assms] by simp
  show thesis
    using that n r RtlCopySid_eq [OF assms, of n "replicate (unat (ROUND4 n)) 0"] round4_ge(1) [of "sid_size s"] by simp
qed

lemma sid_body_region: "sid_ok s \<Longrightarrow> sid_body (sid_body s @ t) = sid_body s"
  using sid_body_append [OF sid_ok_body] by simp

text \<open>The tail of \<open>SeAssignSecurity\<close>: the control flags follow from the source alone.\<close>

abbreviation blank_sd :: "bytes option \<Rightarrow> bytes option \<Rightarrow> SECURITY_DESCRIPTOR" where
  "blank_sd ow grp \<equiv> \<lparr>sd_Revision = SECURITY_DESCRIPTOR_REVISION, sd_Sbz1 = 0, sd_Control = 0, sd_Owner = ow,
     sd_Group = grp, sd_Sacl = None, sd_Dacl = None\<rparr>"

lemma assigned_control:
  assumes "source_aces is_dir owner src r"
  obtains sd where "(let sd4 = snd (RtlSetDaclSecurityDescriptor (Some (blank_sd ow grp)) True dacl (dacl_source_defaulted src))
      in case src of DACL_INHERIT _ \<Rightarrow> map_option (sd_flag True SE_DACL_AUTO_INHERITED) sd4 | _ \<Rightarrow> sd4) = Some sd"
    and "sd_Control sd = snd (snd r)" and "sd_Dacl sd = dacl" and "sd_Owner sd = ow" and "sd_Group sd = grp"
  using assms
  by (cases src) (auto simp: source_aces_def RtlSetDaclSecurityDescriptor_def Let_def sd_flag_def
      dacl_source_defaulted_def SE_DACL_PRESENT_def SE_DACL_DEFAULTED_def SE_DACL_AUTO_INHERITED_def)

lemma assign_total:
  assumes "unat w < 65536" and "unat a \<le> 68" and "unat b \<le> 68"
  shows "ROUND4 sizeof_SECURITY_DESCRIPTOR + ROUND4 w + ROUND4 a + ROUND4 b > SE_ASSIGN_MAX_SD \<longleftrightarrow>
    4096 < 40 + round4 (unat w) + round4 (unat a) + round4 (unat b)"
proof -
  have "ROUND4 sizeof_SECURITY_DESCRIPTOR = 40" by code_simp
  moreover have "unat (40 + ROUND4 w + ROUND4 a + ROUND4 b) = 40 + round4 (unat w) + round4 (unat a) + round4 (unat b)"
    using assms unat_ROUND4_16 [of w] unat_ROUND4_16 [of a] unat_ROUND4_16 [of b] round4_ge(2) [of "unat w"]
      round4_ge(2) [of "unat a"] round4_ge(2) [of "unat b"]
    by (simp add: unat_word_ariths)
  ultimately show ?thesis by (simp add: word_less_nat_alt SE_ASSIGN_MAX_SD_def)
qed

lemma copy_group_region:
  assumes "\<forall>g. grp = Some g \<longrightarrow> sid_ok g"
  obtains n gb where "RtlLengthSid grp = Some n" and "unat n = opt_sid_size grp" and "unat n \<le> 68"
    and "(case grp of None \<Rightarrow> Some (0, None)
          | Some _ \<Rightarrow> RtlCopySid (Some (replicate (unat (ROUND4 n)) 0)) n grp) = Some (0 :: int, gb)"
    and "map_option sid_body gb = map_option sid_body grp" and "gb = None \<longleftrightarrow> grp = None"
proof (cases grp)
  case None
  then show ?thesis using that [of 0 None] by (simp add: RtlLengthSid_def opt_sid_size_def)
next
  case (Some g)
  then have ok: "sid_ok g" using assms by simp
  obtain n where n: "RtlLengthSid (Some g) = Some n" "unat n = sid_size g"
      "RtlCopySid (Some (replicate (unat (ROUND4 n)) 0)) n (Some g) =
        Some (0, Some (sid_body g @ replicate (round4 (sid_size g) - sid_size g) 0))"
    using copy_sid_region [OF ok] by metis
  show ?thesis
    by (rule that) (use n Some sid_ok_size_le [OF ok] in \<open>auto simp: opt_sid_size_def sid_body_region [OF ok]\<close>)
qed

definition creator_protected :: "SECURITY_DESCRIPTOR option \<Rightarrow> bool" where
  "creator_protected C \<longleftrightarrow> (case C of None \<Rightarrow> False | Some c \<Rightarrow> sd_Control c AND SE_DACL_PROTECTED \<noteq> 0)"

lemma SeAssignSecurity_source:
  assumes "assigned_owner C tok = Some owner" and "sid_ok owner"
    and "\<forall>g. assigned_group C tok = Some g \<longrightarrow> sid_ok g"
    and "select_dacl_source P C is_dir tok owner = Some (Inr (src, w))"
    and "unat w = fst (snd r)" and "source_aces is_dir owner src r"
    and fits: "40 + round4 (unat w) + round4 (sid_size owner) + round4 (opt_sid_size (assigned_group C tok)) \<le> 4096"
  shows "\<exists>sd. SeAssignSecurity True P C is_dir tok True = Some (STATUS_SUCCESS, Some sd) \<and>
    sd_carries sd (snd (snd r) OR (if creator_protected C then SE_DACL_PROTECTED else 0))
      (fst r) owner (assigned_group C tok)"
proof -
  have w: "unat w < 65536" using source_aces_bound(1) [OF assms(6,2)] assms(5) by simp
  then have r4: "unat (ROUND4 w) = round4 (unat w)" by (rule unat_ROUND4_16)
  obtain n where n: "RtlLengthSid (Some owner) = Some n" "unat n = sid_size owner"
      "RtlCopySid (Some (replicate (unat (ROUND4 n)) 0)) n (Some owner) =
        Some (0, Some (sid_body owner @ replicate (round4 (sid_size owner) - sid_size owner) 0))"
    using copy_sid_region [OF assms(2)] by metis
  obtain k gb where k: "RtlLengthSid (assigned_group C tok) = Some k" "unat k = opt_sid_size (assigned_group C tok)" "unat k \<le> 68"
    "(case assigned_group C tok of None \<Rightarrow> Some (0, None)
      | Some _ \<Rightarrow> RtlCopySid (Some (replicate (unat (ROUND4 k)) 0)) k (assigned_group C tok)) = Some (0 :: int, gb)"
    "map_option sid_body gb = map_option sid_body (assigned_group C tok)" "gb = None \<longleftrightarrow> assigned_group C tok = None"
    using copy_group_region [OF assms(3)] by metis
  obtain d where d: "build_dacl src (ROUND4 w) is_dir owner = Some (Inr d)" "map_option acl_aces d = map_option Some (fst r)"
    using build_dacl_eq [OF assms(6,2), of "ROUND4 w"] r4 round4_ge [of "unat w"] assms(5) fits
    by (auto split: option.splits)
  have valid: "(case assigned_group C tok of None \<Rightarrow> Some True | Some _ \<Rightarrow> RtlValidSid (assigned_group C tok)) = Some True"
    using assms(3) RtlValidSid_ok by (auto split: option.splits)
  have guards: "\<not> (0xFFFF :: u32) < w" using w by (simp add: word_less_nat_alt)
  have total: "\<not> ROUND4 sizeof_SECURITY_DESCRIPTOR + ROUND4 w + ROUND4 n + ROUND4 k > SE_ASSIGN_MAX_SD"
    using assign_total [OF w, of n k] n(2) k(2,3) sid_ok_size_le [OF assms(2)] fits by simp
  let ?ob = "Some (sid_body owner @ replicate (round4 (sid_size owner) - sid_size owner) 0)"
  obtain sd where sd: "(let sd4 = snd (RtlSetDaclSecurityDescriptor (Some (blank_sd ?ob gb)) True d (dacl_source_defaulted src))
      in case src of DACL_INHERIT _ \<Rightarrow> map_option (sd_flag True SE_DACL_AUTO_INHERITED) sd4 | _ \<Rightarrow> sd4) = Some sd"
    "sd_Control sd = snd (snd r)" "sd_Dacl sd = d" "sd_Owner sd = ?ob" "sd_Group sd = gb"
    using assigned_control [OF assms(6)] by blast
  have "SeAssignSecurity True P C is_dir tok True = Some (STATUS_SUCCESS,
      Some (if creator_protected C then sd_flag True SE_DACL_PROTECTED sd else sd))"
    unfolding SeAssignSecurity_def Let_def assigned_owner_def [symmetric] assigned_group_def [symmetric]
      creator_protected_def [symmetric]
    using assms(1,4) RtlValidSid_ok [OF assms(2)] valid n guards total d(1) k(1,4) sd(1) [unfolded Let_def]
    by (cases "assigned_group C tok") (use k(6) in \<open>simp_all add: RtlCreateSecurityDescriptor_def
        RtlSetOwnerSecurityDescriptor_def RtlSetGroupSecurityDescriptor_def sd_flag_def cong: dacl_source.case_cong\<close>)
  then show ?thesis
    using sd(2-) d(2) k(5) sid_body_region [OF assms(2)] by (auto simp: sd_carries_def sd_flag_def)
qed

section \<open>The default descriptors\<close>

definition grant_ace :: "u32 \<times> bytes \<Rightarrow> bytes" where
  "grant_ace g = mk_ace ACCESS_ALLOWED_ACE_TYPE 0 (fst g) (sid_body (snd g))"

text \<open>A self-relative descriptor owned by the system that grants exactly these rights.\<close>

definition default_blob_ok :: "(u32 \<times> bytes) list \<Rightarrow> u32 \<Rightarrow> bytes \<Rightarrow> bool" where
  "default_blob_ok gs n blob \<longleftrightarrow> n \<noteq> 0 \<and> unat n \<le> length blob \<and> length blob = 256 \<and> rel_accepts blob n n \<and>
     rel_control blob = SE_DACL_PRESENT OR SE_SELF_RELATIVE \<and>
     (\<exists>dacl. rel_comps blob = (Some SeLocalSystemSid, None, None, Some dacl) \<and> acl_aces dacl = Some (map grant_ace gs))"

lemma build_sd_ok:
  assumes "acl_aces dacl = Some as" and "acl_size dacl = 128" and "length out = 256"
  shows "\<exists>n b. build_sd out SD_BLOB_SIZE SeLocalSystemSid dacl = Some (n, b) \<and> unat n = 160 \<and> length b = 256 \<and> rel_accepts b n n \<and>
    rel_control b = SE_DACL_PRESENT OR SE_SELF_RELATIVE \<and>
    rel_comps b = (Some SeLocalSystemSid, None, None, Some (take 128 dacl))"
proof -
  let ?d = "\<lparr>sd_Revision = SECURITY_DESCRIPTOR_REVISION, sd_Sbz1 = 0, sd_Control = SE_DACL_PRESENT,
    sd_Owner = Some SeLocalSystemSid, sd_Group = None, sd_Sacl = None, sd_Dacl = Some dacl\<rparr>"
  have wf: "sd_wf ?d" using assms(1) by (simp add: sd_wf_def well_known_lengths acl_ok_def)
  have len: "length (sd_image ?d) = 160"
    using length_sd_image_size [OF wf] assms(2) by (simp add: sd_size_def well_known_lengths)
  let ?b = "sd_image ?d @ drop (length (sd_image ?d)) out" and ?n = "of_nat (length (sd_image ?d)) :: u32"
  have sd: "snd (RtlSetDaclSecurityDescriptor (snd (RtlSetOwnerSecurityDescriptor (snd (RtlCreateSecurityDescriptor
      (Some sd0) SECURITY_DESCRIPTOR_REVISION)) (Some SeLocalSystemSid) False)) True (Some dacl) False) = Some ?d" for sd0
    by (simp add: RtlCreateSecurityDescriptor_def RtlSetOwnerSecurityDescriptor_def RtlSetDaclSecurityDescriptor_def
        sd_flag_def SE_OWNER_DEFAULTED_def SE_DACL_PRESENT_def SE_DACL_DEFAULTED_def)
  have "RtlAbsoluteToSelfRelativeSD (Some ?d) (Some out) (Some SD_BLOB_SIZE) = Some (0, Some ?b, Some ?n)"
    using len assms(3) by (intro RtlAbsoluteToSelfRelativeSD_image [OF wf]) (simp_all add: SD_BLOB_SIZE_def)
  then have "build_sd out SD_BLOB_SIZE SeLocalSystemSid dacl = Some (?n, ?b)"
    unfolding build_sd_def Let_def sd by simp
  moreover note im = sd_image_parts [OF wf, of ?b "drop (length (sd_image ?d)) out" ?n, OF refl refl]
  moreover have "sid_body SeLocalSystemSid = SeLocalSystemSid" by code_simp
  then have "sd_comps ?d = (Some SeLocalSystemSid, None, None, Some (take 128 dacl))"
    using assms(2) by (simp add: sd_comps_def acl_body_def)
  ultimately show ?thesis using len assms(3) by (auto simp: SECURITY_DESCRIPTOR_REVISION_def)
qed

lemma build_type_ok:
  assumes "\<forall>g \<in> set gs. sid_ok (snd g)" and "8 + sum_list (map (\<lambda>g. 8 + sid_size (snd g)) gs) \<le> 128"
    and "length acl_buf = 128" and "length blob = 256"
  shows "\<exists>n b. build_type gs acl_buf blob = Some (n, b) \<and> default_blob_ok gs n b"
proof -
  obtain m0 where m0: "RtlCreateAcl (Some acl_buf) 128 ACL_REVISION = Some (0, Some m0)" "acl_aces m0 = Some []" "acl_size m0 = 128"
    using RtlCreateAcl_aces [of 128 acl_buf ACL_REVISION] assms(3) by auto
  then obtain m where m: "add_grants gs (Some m0) = Some (Some m)" "acl_aces m = Some (map grant_ace gs)" "acl_size m = 128"
    using add_grants_eq [OF m0(2) assms(1)] assms(2) by (auto simp: grant_ace_def [abs_def])
  obtain n b where nb: "build_sd blob SD_BLOB_SIZE SeLocalSystemSid m = Some (n, b)" "unat n = 160" "length b = 256"
      "rel_accepts b n n" "rel_control b = SE_DACL_PRESENT OR SE_SELF_RELATIVE"
      "rel_comps b = (Some SeLocalSystemSid, None, None, Some (take 128 m))"
    using build_sd_ok [OF m(2,3) assms(4)] by blast
  have "acl_aces (take 128 m) = Some (map grant_ace gs)" using m by (simp add: acl_aces_take_iff)
  moreover have "n \<noteq> 0" using nb(2) by auto
  ultimately show ?thesis
    using m0(1) m(1) nb by (auto simp: build_type_def default_blob_ok_def)
qed

lemma grants_fit:
  "gs \<in> set sd_grants \<Longrightarrow> (\<forall>g \<in> set gs. sid_ok (snd g)) \<and> 8 + sum_list (map (\<lambda>g. 8 + sid_size (snd g)) gs) \<le> 128"
proof -
  have "\<forall>gs \<in> set sd_grants. (\<forall>g \<in> set gs. sid_ok (snd g)) \<and> 8 + sum_list (map (\<lambda>g. 8 + sid_size (snd g)) gs) \<le> 128"
    by code_simp
  then show "gs \<in> set sd_grants \<Longrightarrow> ?thesis" by blast
qed

lemma build_all_ok:
  assumes "set grs \<subseteq> set sd_grants" and "length acl_buf = 128" and "length (sd_blobs g) = t + length grs"
    and "length (sd_sizes g) = t + length grs" and "\<forall>b \<in> set (sd_blobs g). length b = 256"
  shows "\<exists>g'. build_all t grs acl_buf g = Some g' \<and> length (sd_blobs g') = length (sd_blobs g) \<and>
    length (sd_sizes g') = length (sd_sizes g) \<and>
    (\<forall>i < t. sd_blobs g' ! i = sd_blobs g ! i \<and> sd_sizes g' ! i = sd_sizes g ! i) \<and>
    (\<forall>i < length grs. default_blob_ok (grs ! i) (sd_sizes g' ! (t + i)) (sd_blobs g' ! (t + i)))"
  using assms
proof (induction grs arbitrary: t g)
  case (Cons gr grs)
  have t: "t < length (sd_blobs g)" "t < length (sd_sizes g)" using Cons.prems by auto
  obtain n b where nb: "build_type gr acl_buf (sd_blobs g ! t) = Some (n, b)" "default_blob_ok gr n b"
    using build_type_ok [of gr acl_buf "sd_blobs g ! t"] grants_fit [of gr] Cons.prems t by auto
  let ?g = "g\<lparr>sd_blobs := (sd_blobs g)[t := b], sd_sizes := (sd_sizes g)[t := n]\<rparr>"
  have "\<forall>x \<in> set (sd_blobs ?g). length x = 256"
    using Cons.prems(5) nb(2) set_update_subset_insert [of "sd_blobs g" t b] by (auto simp: default_blob_ok_def)
  then obtain g' where g': "build_all (Suc t) grs acl_buf ?g = Some g'" "length (sd_blobs g') = length (sd_blobs ?g)"
      "length (sd_sizes g') = length (sd_sizes ?g)"
      "\<forall>i < Suc t. sd_blobs g' ! i = sd_blobs ?g ! i \<and> sd_sizes g' ! i = sd_sizes ?g ! i"
      "\<forall>i < length grs. default_blob_ok (grs ! i) (sd_sizes g' ! (Suc t + i)) (sd_blobs g' ! (Suc t + i))"
    using Cons.IH [where t = "Suc t" and g = ?g] Cons.prems by auto
  have "default_blob_ok ((gr # grs) ! i) (sd_sizes g' ! (t + i)) (sd_blobs g' ! (t + i))" if "i < length (gr # grs)" for i
    using that g'(4,5) nb(2) t by (cases i) auto
  then show ?case using g' nb(1) t by (auto simp: not_le)
qed auto

lemma se_default_sds_init_ok:
  assumes "length acl_buf = 128" and "\<not> sd_inited g"
  obtains g' where "se_default_sds_init acl_buf g = Some g'" and "sd_inited g'"
    and "\<And>i. i < 4 \<Longrightarrow> default_blob_ok (sd_grants ! i) (sd_sizes g' ! i) (sd_blobs g' ! i)"
proof -
  let ?g = "g\<lparr>sd_blobs := replicate SD_TYPE_COUNT (replicate (unat SD_BLOB_SIZE) 0), sd_sizes := replicate SD_TYPE_COUNT 0\<rparr>"
  have l: "length sd_grants = 4" by (simp add: sd_grants_def)
  obtain g' where "build_all 0 sd_grants acl_buf ?g = Some g'"
      "\<forall>i < length sd_grants. default_blob_ok (sd_grants ! i) (sd_sizes g' ! i) (sd_blobs g' ! i)"
    using build_all_ok [where grs = sd_grants and acl_buf = acl_buf and g = ?g and t = 0] assms(1) l
    by (auto simp: SD_TYPE_COUNT_def SD_BLOB_SIZE_def)
  then show thesis
    using that [of "g'\<lparr>sd_inited := True\<rparr>"] assms(2) l unfolding se_default_sds_init_def Let_def by simp
qed

section \<open>Properties\<close>

text \<open>
  C15: a new object's security descriptor. With the memory its arguments point to mapped and a
  well-formed owner (and group, if there is one), \<open>SeAssignSecurity\<close> never leaves its buffers and
  returns the descriptor the rules of \<^const>\<open>assigned_dacl\<close> prescribe: the creator's explicit DACL, or
  what the container passes on with every denial before every grant, or the token's default, or the
  closed fallback, with exactly these control flags, the creator's owner and group copied; a container
  that would pass on a conditional entry and a malformed explicit DACL are refused, and a descriptor
  larger than 4096 bytes is \<open>STATUS_INSUFFICIENT_RESOURCES\<close>.
\<close>

theorem SeAssignSecurity_correct:
  assumes "pred_option acl_mapped (Option.bind P sd_Dacl)" and "pred_option acl_mapped (Option.bind C sd_Dacl)"
    and "pred_option acl_mapped (Option.bind tok t_DefaultDacl)"
    and "assigned_owner C tok = Some owner" and "sid_ok owner"
    and "\<forall>g. assigned_group C tok = Some g \<longrightarrow> sid_ok g"
  shows "case assigned_dacl P C is_dir tok owner of
      Inl st \<Rightarrow> SeAssignSecurity True P C is_dir tok True = Some (st, None)
    | Inr (aces, n, ctl) \<Rightarrow>
        if 40 + round4 n + round4 (sid_size owner) + round4 (opt_sid_size (assigned_group C tok)) \<le> 4096
        then \<exists>sd. SeAssignSecurity True P C is_dir tok True = Some (STATUS_SUCCESS, Some sd) \<and>
          sd_carries sd (ctl OR (if creator_protected C then SE_DACL_PROTECTED else 0)) aces owner (assigned_group C tok)
        else SeAssignSecurity True P C is_dir tok True = Some (STATUS_INSUFFICIENT_RESOURCES, None)"
proof -
  have sel: "case assigned_dacl P C is_dir tok owner of
      Inl st \<Rightarrow> select_dacl_source P C is_dir tok owner = Some (Inl st)
    | Inr r \<Rightarrow> \<exists>src w. select_dacl_source P C is_dir tok owner = Some (Inr (src, w)) \<and>
        unat w = fst (snd r) \<and> source_aces is_dir owner src r"
    using assms(1-3,5) by (intro select_dacl_source_eq) auto
  obtain nw where nw: "RtlLengthSid (Some owner) = Some nw" "unat nw = sid_size owner"
    using copy_sid_region [OF assms(5)] by metis
  obtain k where k: "RtlLengthSid (assigned_group C tok) = Some k" "unat k = opt_sid_size (assigned_group C tok)" "unat k \<le> 68"
    using copy_group_region [OF assms(6)] by metis
  have valid: "RtlValidSid (Some owner) = Some True"
    "(case assigned_group C tok of None \<Rightarrow> Some True | Some _ \<Rightarrow> RtlValidSid (assigned_group C tok)) = Some True"
    using assms(5,6) RtlValidSid_ok by (auto split: option.splits)
  note start = SeAssignSecurity_def Let_def assigned_owner_def [symmetric] assigned_group_def [symmetric]
  show ?thesis
  proof (cases "assigned_dacl P C is_dir tok owner")
    case (Inl st)
    then have "select_dacl_source P C is_dir tok owner = Some (Inl st)" using sel by simp
    then have "SeAssignSecurity True P C is_dir tok True = Some (st, None)"
      unfolding start using assms(4) valid by simp
    with Inl show ?thesis by simp
  next
    case (Inr r)
    then obtain src w where w: "select_dacl_source P C is_dir tok owner = Some (Inr (src, w))"
        "unat w = fst (snd r)" "source_aces is_dir owner src r"
      using sel by auto
    have w16: "unat w < 65536" using source_aces_bound(1) [OF w(3) assms(5)] w(2) by simp
    show ?thesis
    proof (cases "40 + round4 (unat w) + round4 (sid_size owner) + round4 (opt_sid_size (assigned_group C tok)) \<le> 4096")
      case True
      then show ?thesis
        using SeAssignSecurity_source [OF assms(4-6) w True] Inr w(2) by (auto split: prod.splits)
    next
      case False
      then have "ROUND4 sizeof_SECURITY_DESCRIPTOR + ROUND4 w + ROUND4 nw + ROUND4 k > SE_ASSIGN_MAX_SD"
        using assign_total [OF w16, of nw k] nw(2) k(2,3) sid_ok_size_le [OF assms(5)] by simp
      then have "SeAssignSecurity True P C is_dir tok True = Some (STATUS_INSUFFICIENT_RESOURCES, None)"
        unfolding start using assms(4) valid w(1) nw(1) k(1) by simp
      with False Inr w(2) show ?thesis by (auto split: prod.splits)
    qed
  qed
qed

definition sample_container :: SECURITY_DESCRIPTOR where
  "sample_container = sample_abs\<lparr>sd_Control := SE_DACL_PRESENT, sd_Dacl := Some
     ([2, 0, 48, 0, 2, 0, 0, 0] @ mk_ace ACCESS_ALLOWED_ACE_TYPE 3 7 SeLocalSystemSid @ mk_ace ACCESS_DENIED_ACE_TYPE 2 5 SeWorldSid)\<rparr>"

theorem SeAssignSecurity_correct_witness:
  "\<exists>sd. SeAssignSecurity True (Some sample_container) None True (Some (sample_token\<lparr>t_UserSid := Some SeLocalSystemSid\<rparr>)) True =
      Some (STATUS_SUCCESS, Some sd) \<and>
    sd_carries sd (SE_DACL_PRESENT OR SE_DACL_AUTO_INHERITED)
      (Some [mk_ace ACCESS_DENIED_ACE_TYPE 0x12 5 SeWorldSid, mk_ace ACCESS_ALLOWED_ACE_TYPE 0x13 7 SeLocalSystemSid])
      SeLocalSystemSid None"
proof -
  let ?tok = "Some (sample_token\<lparr>t_UserSid := Some SeLocalSystemSid\<rparr>)" and ?P = "Some sample_container"
  have "acl_mapped (the (sd_Dacl sample_container))" by code_simp
  then have m: "pred_option acl_mapped (Option.bind ?P sd_Dacl)" by (simp add: sample_container_def)
  have n: "pred_option acl_mapped (Option.bind None sd_Dacl)" "pred_option acl_mapped (Option.bind ?tok t_DefaultDacl)"
    by (simp_all add: sample_token_def)
  have ow: "assigned_owner None ?tok = Some SeLocalSystemSid" "assigned_group None ?tok = None"
    by (simp_all add: assigned_owner_def assigned_group_def sample_token_def)
  have g: "\<forall>g. assigned_group None ?tok = Some g \<longrightarrow> sid_ok g" by (simp add: ow)
  have d: "assigned_dacl ?P None True ?tok SeLocalSystemSid = Inr
      (Some [mk_ace ACCESS_DENIED_ACE_TYPE 0x12 5 SeWorldSid, mk_ace ACCESS_ALLOWED_ACE_TYPE 0x13 7 SeLocalSystemSid],
       48, SE_DACL_PRESENT OR SE_DACL_AUTO_INHERITED)"
    by code_simp
  show ?thesis
    using SeAssignSecurity_correct [OF m n ow(1) well_known_lengths(3) g, where is_dir = True]
    by (simp add: d ow well_known_lengths round4_def opt_sid_size_def creator_protected_def)
qed

text \<open>
  The built-in default descriptors. From the uninitialised state, whatever the scratch array
  holds, \<open>SeCreateDefaultSD\<close> returns for each of the four object types a self-relative descriptor that
  \<open>RtlSelfRelativeToAbsoluteSD\<close> accepts, owned by the system, with a DACL that consists of exactly the
  grants of that type; \<open>SeGetDefaultSDSize\<close> reports its length, later calls return the same bytes and
  change nothing, and an unknown type gets a null pointer and the size 0.
\<close>

theorem SeCreateDefaultSD_correct:
  assumes "length acl_buf = 128" and "\<not> sd_inited g"
  shows "\<exists>g'. se_default_sds_init acl_buf g = Some g' \<and>
    (\<forall>type. unat type < 4 \<longrightarrow> (\<exists>blob n. default_blob_ok (sd_grants ! unat type) n blob \<and>
       SeCreateDefaultSD acl_buf type g = Some (Some blob, g') \<and>
       SeCreateDefaultSD acl_buf2 type g' = Some (Some blob, g') \<and> SeGetDefaultSDSize acl_buf2 type g' = Some (n, g'))) \<and>
    (\<forall>type. 4 \<le> unat type \<longrightarrow> SeCreateDefaultSD acl_buf type g = Some (None, g') \<and>
       SeGetDefaultSDSize acl_buf type g = Some (0, g'))"
proof -
  obtain g' where g': "se_default_sds_init acl_buf g = Some g'" "sd_inited g'"
      "\<And>i. i < 4 \<Longrightarrow> default_blob_ok (sd_grants ! i) (sd_sizes g' ! i) (sd_blobs g' ! i)"
    using se_default_sds_init_ok [OF assms] by metis
  have nz: "sd_sizes g' ! i \<noteq> 0" if "i < 4" for i using g'(3) [OF that] by (simp add: default_blob_ok_def)
  show ?thesis
    using g' nz assms(2) by (auto simp: SeCreateDefaultSD_def SeGetDefaultSDSize_def SD_TYPE_COUNT_def word_le_nat_alt)
qed

definition fresh_sds :: default_sds where
  "fresh_sds = \<lparr>sd_blobs = [], sd_sizes = [], sd_inited = False\<rparr>"

theorem SeCreateDefaultSD_correct_witness:
  "\<exists>blob n g'. SeCreateDefaultSD (replicate 128 0) 2 fresh_sds = Some (Some blob, g') \<and>
     default_blob_ok [(GENERIC_ALL, SeLocalSystemSid), (8, SeCreatorOwnerSid)] n blob"
proof -
  have "length (replicate 128 0 :: bytes) = 128" "\<not> sd_inited fresh_sds" by (simp_all add: fresh_sds_def)
  from SeCreateDefaultSD_correct [OF this, of "[]"]
  obtain g' where "\<forall>type. unat type < 4 \<longrightarrow> (\<exists>blob n. default_blob_ok (sd_grants ! unat type) n blob \<and>
      SeCreateDefaultSD (replicate 128 0) type fresh_sds = Some (Some blob, g'))"
    by blast
  from this [rule_format, of 2] show ?thesis by (auto simp: sd_grants_def grants_token_def)
qed

end
