(* ===== verification/Sec_Token.thy ===== *)
theory Sec_Token
  imports Sec_Mic
begin

text \<open>
  \<open>src/kernel/security/token.c\<close>: creation, duplication, adjustment and querying of access tokens.
  The state the functions share is the LUID counter and the reference counts of the quota blocks;
  \<open>ob_alloc_object\<close> (a zeroed body or null) and \<open>quota_user_block_acquire\<close> of \<open>kernel/quota\<close> are
  parameters.
\<close>

section \<open>Constants and state\<close>

definition SE_GROUP_MANDATORY :: u32 where "SE_GROUP_MANDATORY = 0x01"
definition SE_GROUP_ENABLED_BY_DEFAULT :: u32 where "SE_GROUP_ENABLED_BY_DEFAULT = 0x02"
definition SE_GROUP_ENABLED :: u32 where "SE_GROUP_ENABLED = 0x04"
definition SE_GROUP_OWNER :: u32 where "SE_GROUP_OWNER = 0x08"
definition SE_GROUP_USE_FOR_DENY_ONLY :: u32 where "SE_GROUP_USE_FOR_DENY_ONLY = 0x10"
definition SE_GROUP_INTEGRITY :: u32 where "SE_GROUP_INTEGRITY = 0x20"
definition SE_GROUP_INTEGRITY_ENABLED :: u32 where "SE_GROUP_INTEGRITY_ENABLED = 0x40"
definition TOKEN_MANDATORY_POLICY_NO_WRITE_UP :: u32 where "TOKEN_MANDATORY_POLICY_NO_WRITE_UP = 0x1"

record se_state =
  g_next_luid :: u64
  quota_refs :: "nat \<Rightarrow> int"

definition new_luid :: "se_state \<Rightarrow> LUID \<times> se_state" where
  "new_luid st = (let (l, g) = NtAllocateLocallyUniqueId (g_next_luid st) in (l, st\<lparr>g_next_luid := g\<rparr>))"

definition quota_block_ref :: "nat option \<Rightarrow> se_state \<Rightarrow> se_state" where
  "quota_block_ref b st =
     (case b of None \<Rightarrow> st | Some q \<Rightarrow> st\<lparr>quota_refs := (quota_refs st)(q := quota_refs st q + 1)\<rparr>)"

text \<open>The counter part of \<open>quota_block_deref\<close>; releasing a block at zero is \<open>kernel/quota\<close>'s business.\<close>

definition quota_block_deref :: "nat option \<Rightarrow> se_state \<Rightarrow> se_state" where
  "quota_block_deref b st =
     (case b of None \<Rightarrow> st | Some q \<Rightarrow> st\<lparr>quota_refs := (quota_refs st)(q := quota_refs st q - 1)\<rparr>)"

type_synonym quota_acquire = "bytes \<Rightarrow> u32 \<Rightarrow> (nat \<Rightarrow> int) \<Rightarrow> nat option \<times> (nat \<Rightarrow> int)"

definition token_on_delete :: "ACCESS_TOKEN option \<Rightarrow> se_state \<Rightarrow> ACCESS_TOKEN option \<times> se_state" where
  "token_on_delete body st =
     (case body of
        None \<Rightarrow> (None, st)
      | Some tok \<Rightarrow>
          if t_QuotaBlock tok \<noteq> None
          then (Some (tok\<lparr>t_QuotaBlock := None\<rparr>), quota_block_deref (t_QuotaBlock tok) st)
          else (Some tok, st))"

definition token_attach_quota :: "quota_acquire \<Rightarrow> ACCESS_TOKEN \<Rightarrow> se_state \<Rightarrow> (ACCESS_TOKEN \<times> se_state) option" where
  "token_attach_quota acquire tok st =
     (case t_UserSid tok of
        None \<Rightarrow> Some (tok\<lparr>t_QuotaBlock := None\<rparr>, st)
      | Some s \<Rightarrow> do {
          len \<leftarrow> RtlLengthSid (t_UserSid tok);
          let (q, refs) = acquire s len (quota_refs st);
          Some (tok\<lparr>t_QuotaBlock := q\<rparr>, st\<lparr>quota_refs := refs\<rparr>) })"

text \<open>The body \<open>ob_alloc_object\<close> hands out: all bytes zero. The two enumerations have no constructor
  for 0; both creators assign these fields before the token is returned.\<close>

definition zero_token :: ACCESS_TOKEN where
  "zero_token =
     \<lparr>t_UserSid = None, t_GroupCount = 0,
      t_Groups = replicate TOKEN_MAX_GROUPS \<lparr>sa_Sid = None, sa_Attributes = 0\<rparr>, t_PrivilegeCount = 0,
      t_Privileges = replicate TOKEN_MAX_PRIVS \<lparr>la_Luid = mk_luid 0, la_Attributes = 0\<rparr>,
      t_PrimaryGroup = None, t_DefaultDacl = None, t_TokenType = TokenPrimary,
      t_ImpersonationLevel = SecurityAnonymous, t_TokenId = mk_luid 0, t_AuthenticationId = mk_luid 0,
      t_ModifiedId = mk_luid 0, t_SessionId = 0, t_IntegrityLevelSid = None, t_IntegrityPolicy = 0,
      t_IsElevated = 0, t_LinkedTokenId = mk_luid 0, t_ElevationType = TokenElevationTypeDefault,
      t_RestrictedSids = None, t_RestrictedSidCount = 0, t_Flags = 0, t_QuotaBlock = None\<rparr>"

section \<open>Creation\<close>

text \<open>The guard keeps the written index inside the fixed array.\<close>

definition token_add_priv :: "ACCESS_TOKEN \<Rightarrow> LUID \<Rightarrow> u32 \<Rightarrow> ACCESS_TOKEN" where
  "token_add_priv tok luid attrs =
     (if t_PrivilegeCount tok \<ge> of_nat TOKEN_MAX_PRIVS then tok
      else tok\<lparr>t_Privileges := (t_Privileges tok)[unat (t_PrivilegeCount tok) :=
                                 \<lparr>la_Luid = luid, la_Attributes = attrs\<rparr>],
               t_PrivilegeCount := t_PrivilegeCount tok + 1\<rparr>)"

definition token_add_group :: "ACCESS_TOKEN \<Rightarrow> bytes \<Rightarrow> u32 \<Rightarrow> ACCESS_TOKEN" where
  "token_add_group tok sid attrs =
     (if t_GroupCount tok \<ge> of_nat TOKEN_MAX_GROUPS then tok
      else tok\<lparr>t_Groups := (t_Groups tok)[unat (t_GroupCount tok) :=
                             \<lparr>sa_Sid = Some sid, sa_Attributes = attrs\<rparr>],
               t_GroupCount := t_GroupCount tok + 1\<rparr>)"

definition add_privs :: "u32 \<Rightarrow> LUID list \<Rightarrow> ACCESS_TOKEN \<Rightarrow> ACCESS_TOKEN" where
  "add_privs attrs ls tok = fold (\<lambda>l t. token_add_priv t l attrs) ls tok"

text \<open>\<open>allocated\<close> says whether \<open>ob_alloc_object\<close> returned a body.\<close>

definition SeCreateSystemToken :: "bool \<Rightarrow> quota_acquire \<Rightarrow> se_state \<Rightarrow> (ACCESS_TOKEN option \<times> se_state) option" where
  "SeCreateSystemToken allocated acquire st =
     (let enabled = SE_PRIVILEGE_ENABLED OR SE_PRIVILEGE_ENABLED_BY_DEFAULT;
          grp = SE_GROUP_ENABLED OR SE_GROUP_ENABLED_BY_DEFAULT OR SE_GROUP_MANDATORY in
      if \<not> allocated then Some (None, st)
      else do {
        let (tid, st) = new_luid st;
        let (mid, st) = new_luid st;
        let tok = zero_token\<lparr>
          t_UserSid := Some SeLocalSystemSid, t_PrimaryGroup := Some SeBuiltinAdministratorsSid,
          t_DefaultDacl := None, t_TokenType := TokenPrimary,
          t_ImpersonationLevel := SecurityImpersonation, t_TokenId := tid,
          t_AuthenticationId := mk_luid 999, t_ModifiedId := mid, t_SessionId := 0,
          t_IntegrityLevelSid := Some SeILSystem,
          t_IntegrityPolicy := TOKEN_MANDATORY_POLICY_NO_WRITE_UP, t_IsElevated := 1,
          t_LinkedTokenId := mk_luid 0, t_ElevationType := TokenElevationTypeDefault,
          t_RestrictedSids := None, t_RestrictedSidCount := 0, t_Flags := 0\<rparr>;
        let tok = token_add_group tok SeBuiltinAdministratorsSid (grp OR SE_GROUP_OWNER);
        let tok = token_add_group tok SeWorldSid grp;
        let tok = add_privs enabled
          [SeCreateTokenPrivilege, SeAssignPrimaryTokenPrivilege, SeLockMemoryPrivilege,
           SeIncreaseQuotaPrivilege, SeTcbPrivilege, SeSecurityPrivilege, SeTakeOwnershipPrivilege,
           SeLoadDriverPrivilege, SeSystemProfilePrivilege, SeSystemtimePrivilege,
           SeProfileSingleProcessPrivilege, SeIncreaseBasePriorityPrivilege, SeCreatePagefilePrivilege,
           SeBackupPrivilege, SeRestorePrivilege, SeShutdownPrivilege, SeDebugPrivilege,
           SeAuditPrivilege, SeChangeNotifyPrivilege, SeUndockPrivilege, SeManageVolumePrivilege,
           SeImpersonatePrivilege, SeCreateGlobalPrivilege, SeCreateSymbolicLinkPrivilege] tok;
        (tok, st) \<leftarrow> token_attach_quota acquire tok st;
        Some (Some tok, st) })"

definition SeCreateUserToken ::
  "bool \<Rightarrow> quota_acquire \<Rightarrow> bytes option \<Rightarrow> bool \<Rightarrow> se_state \<Rightarrow> (ACCESS_TOKEN option \<times> se_state) option" where
  "SeCreateUserToken allocated acquire user_sid admin st =
     (let enabled = SE_PRIVILEGE_ENABLED OR SE_PRIVILEGE_ENABLED_BY_DEFAULT;
          disabled = SE_PRIVILEGE_ENABLED_BY_DEFAULT;
          grp = SE_GROUP_ENABLED OR SE_GROUP_ENABLED_BY_DEFAULT OR SE_GROUP_MANDATORY in
      if user_sid = None then Some (None, st)
      else if \<not> allocated then Some (None, st)
      else do {
        let (tid, st) = new_luid st;
        let (aid, st) = new_luid st;
        let (mid, st) = new_luid st;
        let tok = zero_token\<lparr>
          t_UserSid := user_sid, t_PrimaryGroup := Some SeBuiltinUsersSid,
          t_DefaultDacl := None, t_TokenType := TokenPrimary,
          t_ImpersonationLevel := SecurityImpersonation, t_TokenId := tid,
          t_AuthenticationId := aid, t_ModifiedId := mid, t_SessionId := 1,
          t_IntegrityPolicy := TOKEN_MANDATORY_POLICY_NO_WRITE_UP,
          t_RestrictedSids := None, t_RestrictedSidCount := 0, t_Flags := 0\<rparr>;
        let tok = token_add_group tok SeWorldSid grp;
        let tok = token_add_group tok SeInteractiveSid grp;
        let tok = token_add_group tok SeBuiltinUsersSid grp;
        let tok = (if admin then
            (let tok = tok\<lparr>t_IntegrityLevelSid := Some SeILHigh, t_IsElevated := 1,
                            t_ElevationType := TokenElevationTypeFull\<rparr>;
                 tok = token_add_group tok SeBuiltinAdministratorsSid (grp OR SE_GROUP_OWNER);
                 tok = add_privs enabled
                   [SeChangeNotifyPrivilege, SeShutdownPrivilege, SeUndockPrivilege,
                    SeIncreaseBasePriorityPrivilege] tok
             in add_privs disabled
                  [SeBackupPrivilege, SeRestorePrivilege, SeLoadDriverPrivilege, SeDebugPrivilege,
                   SeSystemtimePrivilege, SeSecurityPrivilege, SeTakeOwnershipPrivilege,
                   SeManageVolumePrivilege, SeImpersonatePrivilege, SeCreateGlobalPrivilege,
                   SeCreateSymbolicLinkPrivilege] tok)
          else
            (let tok = tok\<lparr>t_IntegrityLevelSid := Some SeILMedium, t_IsElevated := 0,
                            t_ElevationType := TokenElevationTypeDefault\<rparr>
             in add_privs enabled
                  [SeChangeNotifyPrivilege, SeShutdownPrivilege, SeUndockPrivilege] tok));
        let tok = tok\<lparr>t_LinkedTokenId := mk_luid 0\<rparr>;
        (tok, st) \<leftarrow> token_attach_quota acquire tok st;
        Some (Some tok, st) })"

section \<open>Duplication\<close>

text \<open>\<open>for (i = 0; i < count && j < cap; i++)\<close> of both copying loops: \<open>n\<close> counts the source elements
  left, \<open>keep\<close> is the effective-only filter.\<close>

primrec dup_loop :: "('a \<Rightarrow> bool) \<Rightarrow> nat \<Rightarrow> nat \<Rightarrow> nat \<Rightarrow> nat \<Rightarrow> 'a list \<Rightarrow> 'a list \<Rightarrow> ('a list \<times> nat) option" where
  "dup_loop keep cap 0 i j src dst = Some (dst, j)"
| "dup_loop keep cap (Suc n) i j src dst =
     (if \<not> j < cap then Some (dst, j)
      else if length src \<le> i then None
      else if \<not> keep (src ! i) then dup_loop keep cap n (Suc i) j src dst
      else if length dst \<le> j then None
      else dup_loop keep cap n (Suc i) (Suc j) src (dst[j := src ! i]))"

definition NtDuplicateToken ::
  "bool \<Rightarrow> ACCESS_TOKEN option \<Rightarrow> u32 \<Rightarrow> bool \<Rightarrow> TOKEN_TYPE \<Rightarrow> se_state \<Rightarrow> (ACCESS_TOKEN option \<times> se_state) option" where
  "NtDuplicateToken allocated existing desired_access effective_only new_type st =
     (case existing of
        None \<Rightarrow> Some (None, st)
      | Some ex \<Rightarrow>
          if \<not> allocated then Some (None, st)
          else do {
            let (tid, st) = new_luid st;
            let (mid, st) = new_luid st;
            let dup = zero_token\<lparr>
              t_UserSid := t_UserSid ex, t_PrimaryGroup := t_PrimaryGroup ex,
              t_DefaultDacl := t_DefaultDacl ex, t_TokenType := new_type,
              t_ImpersonationLevel := t_ImpersonationLevel ex, t_TokenId := tid,
              t_AuthenticationId := t_AuthenticationId ex, t_ModifiedId := mid,
              t_SessionId := t_SessionId ex, t_IntegrityLevelSid := t_IntegrityLevelSid ex,
              t_IntegrityPolicy := t_IntegrityPolicy ex, t_IsElevated := t_IsElevated ex,
              t_LinkedTokenId := t_LinkedTokenId ex, t_ElevationType := t_ElevationType ex,
              t_RestrictedSids := t_RestrictedSids ex, t_RestrictedSidCount := t_RestrictedSidCount ex,
              t_Flags := t_Flags ex, t_QuotaBlock := t_QuotaBlock ex\<rparr>;
            let st = quota_block_ref (t_QuotaBlock dup) st;
            (gs, j) \<leftarrow> dup_loop (\<lambda>g. \<not> (effective_only \<and> sa_Attributes g AND SE_GROUP_ENABLED = 0))
              TOKEN_MAX_GROUPS (unat (t_GroupCount ex)) 0 0 (t_Groups ex) (t_Groups dup);
            (ps, k) \<leftarrow> dup_loop (\<lambda>p. \<not> (effective_only \<and> la_Attributes p AND SE_PRIVILEGE_ENABLED = 0))
              TOKEN_MAX_PRIVS (unat (t_PrivilegeCount ex)) 0 0 (t_Privileges ex) (t_Privileges dup);
            Some (Some (dup\<lparr>t_Groups := gs, t_GroupCount := of_nat j,
                            t_Privileges := ps, t_PrivilegeCount := of_nat k\<rparr>), st) })"

section \<open>Adjusting privileges\<close>

text \<open>\<open>if (previous_state && prev_idx < (prev_count ? *prev_count : 0))\<close>: keep the old element.\<close>

definition prev_save :: "u32 option \<Rightarrow> 'a \<Rightarrow> 'a list option \<times> u32 \<Rightarrow> ('a list option \<times> u32) option" where
  "prev_save prev_count x pv =
     (case pv of
        (None, k) \<Rightarrow> Some pv
      | (Some xs, k) \<Rightarrow>
          if k < (case prev_count of None \<Rightarrow> 0 | Some c \<Rightarrow> c)
          then (if unat k < length xs then Some (Some (xs[unat k := x]), k + 1) else None)
          else Some pv)"

type_synonym priv_pv = "LUID_AND_ATTRIBUTES list option \<times> u32"

definition priv_disable :: "u32 option \<Rightarrow> nat \<Rightarrow> LUID_AND_ATTRIBUTES list \<times> priv_pv \<Rightarrow>
    (LUID_AND_ATTRIBUTES list \<times> priv_pv) option" where
  "priv_disable prev_count i s =
     (case s of (ps, pv) \<Rightarrow>
       if length ps \<le> i then None
       else do {
         pv \<leftarrow> prev_save prev_count (ps ! i) pv;
         Some (ps[i := (ps ! i)\<lparr>la_Attributes := la_Attributes (ps ! i) AND NOT SE_PRIVILEGE_ENABLED\<rparr>], pv) })"

text \<open>The inner search; \<^term>\<open>Some None\<close> when no privilege has the LUID.\<close>

primrec priv_index :: "nat \<Rightarrow> nat \<Rightarrow> LUID_AND_ATTRIBUTES list \<Rightarrow> LUID \<Rightarrow> nat option option" where
  "priv_index 0 i ps l = Some None"
| "priv_index (Suc n) i ps l =
     (if length ps \<le> i then None
      else if RtlEqualLuid (la_Luid (ps ! i)) l then Some (Some i) else priv_index n (Suc i) ps l)"

text \<open>\<open>for (k = i; k + 1 < count; k++) Privileges[k] = Privileges[k + 1];\<close>\<close>

definition priv_shift :: "nat \<Rightarrow> nat \<Rightarrow> LUID_AND_ATTRIBUTES list \<Rightarrow> LUID_AND_ATTRIBUTES list option" where
  "priv_shift i count ps =
     for_upto i (count - 1) (\<lambda>k xs. if length xs \<le> Suc k then None else Some (xs[k := xs ! Suc k])) ps"

record adj_st =
  adj_privs :: "LUID_AND_ATTRIBUTES list"
  adj_count :: u32
  adj_pv :: priv_pv
  adj_all_found :: bool

definition priv_apply ::
  "LUID_AND_ATTRIBUTES list \<Rightarrow> u32 option \<Rightarrow> nat \<Rightarrow> adj_st \<Rightarrow> adj_st option" where
  "priv_apply new_state prev_count j s =
     (if length new_state \<le> j then None
      else do {
        let ns = new_state ! j;
        r \<leftarrow> priv_index (unat (adj_count s)) 0 (adj_privs s) (la_Luid ns);
        case r of
          None \<Rightarrow> Some (s\<lparr>adj_all_found := False\<rparr>)
        | Some i \<Rightarrow> do {
            let p = adj_privs s ! i;
            pv \<leftarrow> prev_save prev_count p (adj_pv s);
            if la_Attributes ns AND SE_PRIVILEGE_REMOVED \<noteq> 0 then do {
              ps \<leftarrow> priv_shift i (unat (adj_count s)) (adj_privs s);
              Some (s\<lparr>adj_privs := ps, adj_count := adj_count s - 1, adj_pv := pv\<rparr>) }
            else if la_Attributes ns AND SE_PRIVILEGE_ENABLED \<noteq> 0
            then Some (s\<lparr>adj_privs := (adj_privs s)[i := p\<lparr>la_Attributes := la_Attributes p OR SE_PRIVILEGE_ENABLED\<rparr>],
                         adj_pv := pv\<rparr>)
            else Some (s\<lparr>adj_privs := (adj_privs s)[i := p\<lparr>la_Attributes := la_Attributes p AND NOT SE_PRIVILEGE_ENABLED\<rparr>],
                         adj_pv := pv\<rparr>) } })"

text \<open>Status, token, \<open>previous_state\<close>, \<open>*prev_count\<close> and the shared state afterwards.\<close>

definition NtAdjustPrivilegesToken ::
  "ACCESS_TOKEN option \<Rightarrow> bool \<Rightarrow> LUID_AND_ATTRIBUTES list option \<Rightarrow> u32 \<Rightarrow>
   LUID_AND_ATTRIBUTES list option \<Rightarrow> u32 option \<Rightarrow> se_state \<Rightarrow>
   (NTSTATUS \<times> ACCESS_TOKEN option \<times> LUID_AND_ATTRIBUTES list option \<times> u32 option \<times> se_state) option" where
  "NtAdjustPrivilegesToken token disable_all new_state new_count previous_state prev_count st =
     (case token of
        None \<Rightarrow> Some (STATUS_INVALID_HANDLE, None, previous_state, prev_count, st)
      | Some t \<Rightarrow>
          if disable_all then do {
            (ps, pv) \<leftarrow> for_upto 0 (unat (t_PrivilegeCount t)) (priv_disable prev_count)
              (t_Privileges t, previous_state, 0);
            let (mid, st) = new_luid st;
            Some (STATUS_SUCCESS, Some (t\<lparr>t_Privileges := ps, t_ModifiedId := mid\<rparr>), fst pv,
                  map_option (\<lambda>_. snd pv) prev_count, st) }
          else (case new_state of
            None \<Rightarrow> Some (STATUS_INVALID_PARAMETER, token, previous_state, prev_count, st)
          | Some ns \<Rightarrow> do {
              s \<leftarrow> for_upto 0 (unat new_count) (priv_apply ns prev_count)
                \<lparr>adj_privs = t_Privileges t, adj_count = t_PrivilegeCount t,
                 adj_pv = (previous_state, 0), adj_all_found = True\<rparr>;
              let (mid, st) = new_luid st;
              Some (if adj_all_found s then STATUS_SUCCESS else STATUS_NOT_ALL_ASSIGNED,
                    Some (t\<lparr>t_Privileges := adj_privs s, t_PrivilegeCount := adj_count s, t_ModifiedId := mid\<rparr>),
                    fst (adj_pv s), map_option (\<lambda>_. snd (adj_pv s)) prev_count, st) }))"

section \<open>Adjusting groups\<close>

type_synonym grp_st = "SID_AND_ATTRIBUTES list \<times> SID_AND_ATTRIBUTES list option \<times> u32"

definition grp_reset :: "u32 option \<Rightarrow> nat \<Rightarrow> grp_st \<Rightarrow> grp_st option" where
  "grp_reset prev_count i s =
     (case s of (gs, pv) \<Rightarrow>
       if length gs \<le> i then None
       else do {
         pv \<leftarrow> prev_save prev_count (gs ! i) pv;
         let a = sa_Attributes (gs ! i);
         Some (if a AND SE_GROUP_USE_FOR_DENY_ONLY \<noteq> 0 then gs
               else gs[i := (gs ! i)\<lparr>sa_Attributes :=
                        (if a AND SE_GROUP_ENABLED_BY_DEFAULT \<noteq> 0 then a OR SE_GROUP_ENABLED
                         else a AND NOT SE_GROUP_ENABLED)\<rparr>], pv) })"

primrec grp_inner :: "nat \<Rightarrow> nat \<Rightarrow> u32 option \<Rightarrow> SID_AND_ATTRIBUTES \<Rightarrow> grp_st \<Rightarrow> grp_st option" where
  "grp_inner 0 i prev_count ns s = Some s"
| "grp_inner (Suc n) i prev_count ns s =
     (case s of (gs, pv) \<Rightarrow>
       if length gs \<le> i then None
       else do {
         eq \<leftarrow> RtlEqualSid (sa_Sid (gs ! i)) (sa_Sid ns);
         if \<not> eq then grp_inner n (Suc i) prev_count ns s
         else if sa_Attributes (gs ! i) AND SE_GROUP_USE_FOR_DENY_ONLY \<noteq> 0 \<and>
                 sa_Attributes ns AND SE_GROUP_ENABLED \<noteq> 0
         then grp_inner n (Suc i) prev_count ns s
         else do {
           pv \<leftarrow> prev_save prev_count (gs ! i) pv;
           Some (gs[i := (gs ! i)\<lparr>sa_Attributes :=
                     (if sa_Attributes ns AND SE_GROUP_ENABLED \<noteq> 0
                      then sa_Attributes (gs ! i) OR SE_GROUP_ENABLED
                      else sa_Attributes (gs ! i) AND NOT SE_GROUP_ENABLED)\<rparr>], pv) } })"

definition NtAdjustGroupsToken ::
  "ACCESS_TOKEN option \<Rightarrow> bool \<Rightarrow> SID_AND_ATTRIBUTES list option \<Rightarrow> u32 \<Rightarrow>
   SID_AND_ATTRIBUTES list option \<Rightarrow> u32 option \<Rightarrow> se_state \<Rightarrow>
   (NTSTATUS \<times> ACCESS_TOKEN option \<times> SID_AND_ATTRIBUTES list option \<times> u32 option \<times> se_state) option" where
  "NtAdjustGroupsToken token reset_to_default new_state new_count previous_state prev_count st =
     (case token of
        None \<Rightarrow> Some (STATUS_INVALID_HANDLE, None, previous_state, prev_count, st)
      | Some t \<Rightarrow>
          (let finish = (\<lambda>(gs, pv). let (mid, st) = new_luid st in
                 Some (STATUS_SUCCESS, Some (t\<lparr>t_Groups := gs, t_ModifiedId := mid\<rparr>), fst pv,
                       map_option (\<lambda>_. snd pv) prev_count, st)) in
           if reset_to_default then
             for_upto 0 (unat (t_GroupCount t)) (grp_reset prev_count) (t_Groups t, previous_state, 0) \<bind> finish
           else (case new_state of
             None \<Rightarrow> Some (STATUS_INVALID_PARAMETER, token, previous_state, prev_count, st)
           | Some ns \<Rightarrow>
               for_upto 0 (unat new_count)
                 (\<lambda>j s. if length ns \<le> j then None
                        else grp_inner (unat (t_GroupCount t)) 0 prev_count (ns ! j) s)
                 (t_Groups t, previous_state, 0) \<bind> finish)))"

section \<open>Querying\<close>

datatype TOKEN_INFORMATION_CLASS =
  TokenUser | TokenGroups | TokenPrivileges | TokenOwner | TokenPrimaryGroup | TokenDefaultDacl | TokenSource
| TokenTypeInfo | TokenImpersonationLevelInfo | TokenStatistics | TokenElevationTypeInfo | TokenLinkedToken
| TokenIsElevatedInfo | TokenIntegrityLevel | TokenClassValue u32

text \<open>The C value that is stored in the caller's buffer, by kind.\<close>

datatype token_info =
  InfoSid SID_AND_ATTRIBUTES | InfoGroups u32 "SID_AND_ATTRIBUTES list"
| InfoPrivileges u32 "LUID_AND_ATTRIBUTES list" | InfoPointer "bytes option" | InfoTokenType TOKEN_TYPE
| InfoLevel SECURITY_IMPERSONATION_LEVEL | InfoStatistics LUID LUID LUID u32 u32
| InfoElevation TOKEN_ELEVATION_TYPE | InfoLuid LUID | InfoU32 u32

text \<open>\<open>needed\<close> and the value a class yields; the value is a fault where the copy would read behind its
  array.\<close>

definition token_info_of :: "ACCESS_TOKEN \<Rightarrow> TOKEN_INFORMATION_CLASS \<Rightarrow> (u32 \<times> token_info option) option" where
  "token_info_of t cls =
     (case cls of
        TokenUser \<Rightarrow> Some (16, Some (InfoSid \<lparr>sa_Sid = t_UserSid t, sa_Attributes = 0\<rparr>))
      | TokenGroups \<Rightarrow> Some (4 + t_GroupCount t * 16,
          if unat (t_GroupCount t) \<le> length (t_Groups t) then Some (InfoGroups (t_GroupCount t) (token_groups t)) else None)
      | TokenPrivileges \<Rightarrow> Some (4 + t_PrivilegeCount t * 12,
          if unat (t_PrivilegeCount t) \<le> length (t_Privileges t) then Some (InfoPrivileges (t_PrivilegeCount t) (token_privs t)) else None)
      | TokenOwner \<Rightarrow> Some (8, Some (InfoPointer (t_UserSid t)))
      | TokenPrimaryGroup \<Rightarrow> Some (8, Some (InfoPointer (t_PrimaryGroup t)))
      | TokenDefaultDacl \<Rightarrow> Some (8, Some (InfoPointer (t_DefaultDacl t)))
      | TokenTypeInfo \<Rightarrow> Some (4, Some (InfoTokenType (t_TokenType t)))
      | TokenImpersonationLevelInfo \<Rightarrow> Some (4, Some (InfoLevel (t_ImpersonationLevel t)))
      | TokenStatistics \<Rightarrow> Some (3 * 8 + 2 * 4, Some (InfoStatistics (t_TokenId t) (t_AuthenticationId t)
          (t_ModifiedId t) (t_GroupCount t) (t_PrivilegeCount t)))
      | TokenIntegrityLevel \<Rightarrow> Some (16, Some (InfoSid \<lparr>sa_Sid = t_IntegrityLevelSid t,
          sa_Attributes = SE_GROUP_INTEGRITY OR SE_GROUP_INTEGRITY_ENABLED\<rparr>))
      | TokenElevationTypeInfo \<Rightarrow> Some (4, Some (InfoElevation (t_ElevationType t)))
      | TokenLinkedToken \<Rightarrow> Some (8, Some (InfoLuid (t_LinkedTokenId t)))
      | TokenIsElevatedInfo \<Rightarrow> Some (4, Some (InfoU32 (t_IsElevated t)))
      | _ \<Rightarrow> None)"

text \<open>Status, \<open>*ret_len\<close> if it was written, and the value stored in the buffer if one was.\<close>

definition NtQueryInformationToken ::
  "ACCESS_TOKEN option \<Rightarrow> TOKEN_INFORMATION_CLASS \<Rightarrow> bool \<Rightarrow> u32 \<Rightarrow> bool \<Rightarrow>
   (NTSTATUS \<times> u32 option \<times> token_info option) option" where
  "NtQueryInformationToken token cls buf_ptr buf_len ret_ptr =
     (case token of
        None \<Rightarrow> Some (STATUS_INVALID_HANDLE, None, None)
      | Some t \<Rightarrow>
          (let buf_len = (if buf_ptr then buf_len else 0) in
           case token_info_of t cls of
             None \<Rightarrow> Some (STATUS_INVALID_INFO_CLASS, None, None)
           | Some (needed, info) \<Rightarrow>
               (let ret = (if ret_ptr then Some needed else None) in
                if buf_len < needed then Some (STATUS_BUFFER_TOO_SMALL, ret, None)
                else do { v \<leftarrow> info; Some (STATUS_SUCCESS, ret, Some v) })))"

section \<open>Facts\<close>

subsection \<open>Adding privileges and groups\<close>

lemma token_add_priv_view:
  assumes "token_wf t" and "length (token_privs t) < TOKEN_MAX_PRIVS"
  shows "token_wf (token_add_priv t l a)"
    and "token_privs (token_add_priv t l a) = token_privs t @ [\<lparr>la_Luid = l, la_Attributes = a\<rparr>]"
    and "token_groups (token_add_priv t l a) = token_groups t"
proof -
  have n: "unat (t_PrivilegeCount t) < TOKEN_MAX_PRIVS" "unat (t_PrivilegeCount t) < length (t_Privileges t)"
    using assms by (auto simp: token_wf_def token_privs_def)
  then have "unat (t_PrivilegeCount t + 1) = unat (t_PrivilegeCount t) + 1"
    by (simp add: unat_word_ariths TOKEN_MAX_PRIVS_def)
  moreover have "\<not> t_PrivilegeCount t \<ge> of_nat TOKEN_MAX_PRIVS"
    using n by (simp add: word_le_nat_alt TOKEN_MAX_PRIVS_def)
  ultimately show "token_wf (token_add_priv t l a)"
    and "token_privs (token_add_priv t l a) = token_privs t @ [\<lparr>la_Luid = l, la_Attributes = a\<rparr>]"
    and "token_groups (token_add_priv t l a) = token_groups t"
    using assms(1) n
    by (auto simp: token_add_priv_def token_wf_def token_privs_def token_groups_def take_Suc_conv_app_nth)
qed

lemma token_add_group_view:
  assumes "token_wf t" and "length (token_groups t) < TOKEN_MAX_GROUPS"
  shows "token_wf (token_add_group t s a)"
    and "token_groups (token_add_group t s a) = token_groups t @ [\<lparr>sa_Sid = Some s, sa_Attributes = a\<rparr>]"
    and "token_privs (token_add_group t s a) = token_privs t"
proof -
  have n: "unat (t_GroupCount t) < TOKEN_MAX_GROUPS" "unat (t_GroupCount t) < length (t_Groups t)"
    using assms by (auto simp: token_wf_def token_groups_def)
  then have "unat (t_GroupCount t + 1) = unat (t_GroupCount t) + 1"
    by (simp add: unat_word_ariths TOKEN_MAX_GROUPS_def)
  moreover have "\<not> t_GroupCount t \<ge> of_nat TOKEN_MAX_GROUPS"
    using n by (simp add: word_le_nat_alt TOKEN_MAX_GROUPS_def)
  ultimately show "token_wf (token_add_group t s a)"
    and "token_groups (token_add_group t s a) = token_groups t @ [\<lparr>sa_Sid = Some s, sa_Attributes = a\<rparr>]"
    and "token_privs (token_add_group t s a) = token_privs t"
    using assms(1) n
    by (auto simp: token_add_group_def token_wf_def token_privs_def token_groups_def take_Suc_conv_app_nth)
qed

lemma add_privs_view:
  "token_wf t \<Longrightarrow> length (token_privs t) + length ls \<le> TOKEN_MAX_PRIVS \<Longrightarrow>
     token_wf (add_privs a ls t) \<and>
     token_privs (add_privs a ls t) = token_privs t @ map (\<lambda>l. \<lparr>la_Luid = l, la_Attributes = a\<rparr>) ls \<and>
     token_groups (add_privs a ls t) = token_groups t"
proof (induction ls arbitrary: t)
  case (Cons l ls)
  then show ?case
    using token_add_priv_view [of t l a] by (simp add: add_privs_def)
qed (simp add: add_privs_def)

subsection \<open>Duplication\<close>

lemma dup_loop_eq:
  assumes "cap = length dst" and "i + n \<le> length src" and "j + n \<le> cap"
  shows "dup_loop keep cap n i j src dst =
    Some (take j dst @ filter keep (take n (drop i src)) @
            drop (j + length (filter keep (take n (drop i src)))) dst,
          j + length (filter keep (take n (drop i src))))"
  using assms
proof (induction n arbitrary: i j dst)
  case (Suc n)
  have d: "drop i src = src ! i # drop (Suc i) src" using Suc.prems by (simp add: Cons_nth_drop_Suc)
  show ?case
  proof (cases "keep (src ! i)")
    case True
    have "take (Suc j) (dst[j := src ! i]) = take j dst @ [src ! i]"
      using Suc.prems by (simp add: take_Suc_conv_app_nth)
    then show ?thesis
      using Suc.prems True Suc.IH [of "dst[j := src ! i]" "Suc i" "Suc j"] by (simp add: d)
  next
    case False
    then show ?thesis using Suc.prems Suc.IH [of dst "Suc i" j] by (simp add: d)
  qed
qed simp

text \<open>What a duplicate shares with its source and what it does not.\<close>

lemma NtDuplicateToken_eq:
  fixes eff :: bool
  assumes "token_wf ex" and "token_wf zero_token"
  defines "gs \<equiv> filter (\<lambda>g. \<not> (eff \<and> sa_Attributes g AND SE_GROUP_ENABLED = 0)) (token_groups ex)"
    and "ps \<equiv> filter (\<lambda>p. \<not> (eff \<and> la_Attributes p AND SE_PRIVILEGE_ENABLED = 0)) (token_privs ex)"
  shows "\<exists>d st'. NtDuplicateToken True (Some ex) da eff ty st = Some (Some d, st') \<and>
    token_wf d \<and> token_groups d = gs \<and> token_privs d = ps \<and>
    set (t_Groups d) \<subseteq> set gs \<union> set (t_Groups zero_token) \<and>
    t_TokenType d = ty \<and> t_TokenId d = RtlLuidFromValue (g_next_luid st + 1) \<and>
    t_UserSid d = t_UserSid ex \<and> t_IntegrityLevelSid d = t_IntegrityLevelSid ex \<and>
    t_AuthenticationId d = t_AuthenticationId ex \<and> t_QuotaBlock d = t_QuotaBlock ex \<and>
    g_next_luid st' = g_next_luid st + 2 \<and> quota_refs st' = quota_refs (quota_block_ref (t_QuotaBlock ex) st)"
proof -
  let ?G = "\<lambda>g. \<not> (eff \<and> sa_Attributes g AND SE_GROUP_ENABLED = 0)"
  let ?P = "\<lambda>p. \<not> (eff \<and> la_Attributes p AND SE_PRIVILEGE_ENABLED = 0)"
  have z: "length (t_Groups zero_token) = TOKEN_MAX_GROUPS" "length (t_Privileges zero_token) = TOKEN_MAX_PRIVS"
    using assms(2) by (auto simp: token_wf_def)
  have wf: "unat (t_GroupCount ex) \<le> length (t_Groups ex)" "unat (t_GroupCount ex) \<le> TOKEN_MAX_GROUPS"
      "unat (t_PrivilegeCount ex) \<le> length (t_Privileges ex)" "unat (t_PrivilegeCount ex) \<le> TOKEN_MAX_PRIVS"
    using assms(1) by (auto simp: token_wf_def)
  have lg: "length gs \<le> TOKEN_MAX_GROUPS" and lp: "length ps \<le> TOKEN_MAX_PRIVS"
    using wf length_filter_le [of ?G "token_groups ex"] length_filter_le [of ?P "token_privs ex"]
    by (auto simp: gs_def ps_def token_groups_def token_privs_def)
  have "dup_loop ?G TOKEN_MAX_GROUPS (unat (t_GroupCount ex)) 0 0 (t_Groups ex) (t_Groups zero_token) =
      Some (gs @ drop (length gs) (t_Groups zero_token), length gs)"
    using wf z by (subst dup_loop_eq) (simp_all add: gs_def token_groups_def)
  moreover have "dup_loop ?P TOKEN_MAX_PRIVS (unat (t_PrivilegeCount ex)) 0 0 (t_Privileges ex) (t_Privileges zero_token) =
      Some (ps @ drop (length ps) (t_Privileges zero_token), length ps)"
    using wf z by (subst dup_loop_eq) (simp_all add: ps_def token_privs_def)
  moreover have "unat (of_nat (length gs) :: u32) = length gs" "unat (of_nat (length ps) :: u32) = length ps"
    using lg lp by (simp_all add: unat_of_nat_u32 TOKEN_MAX_GROUPS_def TOKEN_MAX_PRIVS_def)
  moreover have "set (drop (length gs) (t_Groups zero_token)) \<subseteq> set (t_Groups zero_token)"
    by (rule set_drop_subset)
  ultimately show ?thesis
    using z lg lp
    by (simp add: le_supI2 NtDuplicateToken_def new_luid_def NtAllocateLocallyUniqueId_def token_wf_def
        token_groups_def token_privs_def quota_block_ref_def split: option.splits)
qed

lemma zero_token_wf: "token_wf zero_token"
  by (simp add: token_wf_def zero_token_def TOKEN_MAX_GROUPS_def TOKEN_MAX_PRIVS_def)

end
