(* ===== verification/Sec_Token_Facts.thy ===== *)
theory Sec_Token_Facts
  imports Sec_Token
begin

text \<open>
  What the token operations do to the privileges and groups of a token: the array loops of
  \<open>token.c\<close> refine simple functions on the lists of privileges and groups in use.
\<close>

section \<open>Saving the previous state\<close>

definition pv_ok :: "u32 option \<Rightarrow> 'a list option \<Rightarrow> bool" where
  "pv_ok prev_count xs \<longleftrightarrow>
     (case (xs, prev_count) of (Some l, Some c) \<Rightarrow> unat c \<le> length l | _ \<Rightarrow> True)"

lemma prev_save_total:
  assumes "pv_ok prev_count (fst pv)"
  shows "\<exists>pv'. prev_save prev_count x pv = Some pv' \<and> pv_ok prev_count (fst pv')"
  using assms
  by (cases pv; cases prev_count; cases "fst pv")
    (auto simp: prev_save_def pv_ok_def word_less_nat_alt)

text \<open>The buffer and the count that a sequence of saved elements leaves: as many as the count admits, from the start of the buffer, none
  if one of the two pointers is null.\<close>

definition prev_fill :: "u32 option \<Rightarrow> 'a list option \<Rightarrow> 'a list \<Rightarrow> 'a list option \<times> u32" where
  "prev_fill prev_count xs saved =
     (case (xs, prev_count) of
        (Some l, Some c) \<Rightarrow> let k = min (length saved) (unat c) in (Some (take k saved @ drop k l), of_nat k)
      | _ \<Rightarrow> (xs, 0))"

lemma prev_fill_nil [simp]: "prev_fill prev_count xs [] = (xs, 0)"
  by (auto simp: prev_fill_def split: option.splits)

lemma prev_fill_ok: "pv_ok prev_count xs \<Longrightarrow> pv_ok prev_count (fst (prev_fill prev_count xs saved))"
  by (auto simp: prev_fill_def pv_ok_def Let_def split: option.splits)

lemma prev_save_fill:
  assumes "pv_ok prev_count xs"
  shows "prev_save prev_count x (prev_fill prev_count xs saved) = Some (prev_fill prev_count xs (saved @ [x]))"
proof (cases "xs = None \<or> prev_count = None")
  case True
  then show ?thesis by (auto simp: prev_fill_def prev_save_def split: option.splits)
next
  case False
  then obtain l c where lc: "xs = Some l" "prev_count = Some c" by auto
  let ?n = "length saved"
  have le: "unat c \<le> length l" using assms lc by (simp add: pv_ok_def)
  show ?thesis
  proof (cases "?n < unat c")
    case True
    then have n: "unat (of_nat ?n :: u32) = ?n" using unat_u32_less [of c] by (simp add: unat_of_nat_u32)
    have "(saved @ drop ?n l)[?n := x] = saved @ [x] @ drop (Suc ?n) l"
      using True le by (simp add: list_update_append Cons_nth_drop_Suc [symmetric])
    then show ?thesis using True n le lc by (simp add: prev_fill_def prev_save_def Let_def word_less_nat_alt min_def)
  next
    case False
    then show ?thesis using lc by (simp add: prev_fill_def prev_save_def Let_def min_def)
  qed
qed

section \<open>Privileges\<close>

definition set_priv :: "bool \<Rightarrow> LUID_AND_ATTRIBUTES \<Rightarrow> LUID_AND_ATTRIBUTES" where
  "set_priv on p = p\<lparr>la_Attributes := (if on then la_Attributes p OR SE_PRIVILEGE_ENABLED
                                        else la_Attributes p AND NOT SE_PRIVILEGE_ENABLED)\<rparr>"

text \<open>One requested change on the list of privileges: the first one with the LUID is removed, enabled
  or disabled.\<close>

primrec adj1 :: "LUID_AND_ATTRIBUTES \<Rightarrow> LUID_AND_ATTRIBUTES list \<Rightarrow> LUID_AND_ATTRIBUTES list" where
  "adj1 ns [] = []"
| "adj1 ns (p # ps) =
     (if la_Luid p = la_Luid ns then
        (if la_Attributes ns AND SE_PRIVILEGE_REMOVED \<noteq> 0 then ps else set_priv (priv_enabled ns) p # ps)
      else p # adj1 ns ps)"

definition has_luid :: "LUID \<Rightarrow> LUID_AND_ATTRIBUTES list \<Rightarrow> bool" where
  "has_luid l ps \<longleftrightarrow> (\<exists>p \<in> set ps. la_Luid p = l)"

primrec adj_all :: "LUID_AND_ATTRIBUTES list \<Rightarrow> LUID_AND_ATTRIBUTES list \<Rightarrow> LUID_AND_ATTRIBUTES list \<times> bool" where
  "adj_all [] ps = (ps, True)"
| "adj_all (ns # nss) ps = (let (qs, ok) = adj_all nss (adj1 ns ps) in (qs, has_luid (la_Luid ns) ps \<and> ok))"

text \<open>What the requests find, in their order: the old value of each privilege that is changed.\<close>

primrec adj_saved :: "LUID_AND_ATTRIBUTES list \<Rightarrow> LUID_AND_ATTRIBUTES list \<Rightarrow> LUID_AND_ATTRIBUTES list" where
  "adj_saved [] ps = []"
| "adj_saved (ns # nss) ps =
     (case find (\<lambda>p. la_Luid p = la_Luid ns) ps of None \<Rightarrow> [] | Some p \<Rightarrow> [p]) @ adj_saved nss (adj1 ns ps)"

lemma find_at:
  "k < length ps \<Longrightarrow> P (ps ! k) \<Longrightarrow> \<forall>j<k. \<not> P (ps ! j) \<Longrightarrow> find P ps = Some (ps ! k)"
  by (auto simp: find_Some_iff)

lemma find_none: "\<not> has_luid l ps \<Longrightarrow> find (\<lambda>p. la_Luid p = l) ps = None"
  by (auto simp: find_None_iff has_luid_def)

lemma adj1_at:
  "k < length ps \<Longrightarrow> la_Luid (ps ! k) = la_Luid ns \<Longrightarrow> \<forall>j<k. la_Luid (ps ! j) \<noteq> la_Luid ns \<Longrightarrow>
     adj1 ns ps = (if la_Attributes ns AND SE_PRIVILEGE_REMOVED \<noteq> 0 then take k ps @ drop (Suc k) ps
                   else ps[k := set_priv (priv_enabled ns) (ps ! k)])"
proof (induction ps arbitrary: k)
  case (Cons p ps)
  show ?case
  proof (cases k)
    case 0
    then show ?thesis using Cons.prems by simp
  next
    case (Suc k')
    then have "la_Luid p \<noteq> la_Luid ns" using Cons.prems(3) by auto
    moreover have "\<forall>j<k'. la_Luid (ps ! j) \<noteq> la_Luid ns" using Cons.prems(3) Suc by auto
    ultimately show ?thesis using Cons Suc by simp
  qed
qed simp

lemma adj1_none: "\<not> has_luid (la_Luid ns) ps \<Longrightarrow> adj1 ns ps = ps"
  by (induction ps) (auto simp: has_luid_def)

lemma priv_index_eq:
  "i + n \<le> length ps \<Longrightarrow>
     \<exists>r. priv_index n i ps l = Some r \<and>
       (case r of
          None \<Rightarrow> \<forall>k. i \<le> k \<and> k < i + n \<longrightarrow> la_Luid (ps ! k) \<noteq> l
        | Some k \<Rightarrow> i \<le> k \<and> k < i + n \<and> la_Luid (ps ! k) = l \<and>
                   (\<forall>j. i \<le> j \<and> j < k \<longrightarrow> la_Luid (ps ! j) \<noteq> l))"
proof (induction n arbitrary: i)
  case (Suc n)
  show ?case
  proof (cases "la_Luid (ps ! i) = l")
    case True
    then show ?thesis using Suc.prems by auto
  next
    case False
    from Suc.IH [of "Suc i"] Suc.prems obtain r where r: "priv_index n (Suc i) ps l = Some r"
        "case r of None \<Rightarrow> \<forall>k. Suc i \<le> k \<and> k < Suc i + n \<longrightarrow> la_Luid (ps ! k) \<noteq> l
         | Some k \<Rightarrow> Suc i \<le> k \<and> k < Suc i + n \<and> la_Luid (ps ! k) = l \<and>
                   (\<forall>j. Suc i \<le> j \<and> j < k \<longrightarrow> la_Luid (ps ! j) \<noteq> l)"
      by auto
    have le: "i \<le> k \<longleftrightarrow> k = i \<or> Suc i \<le> k" for k by auto
    show ?thesis using Suc.prems False r by (auto simp: le split: option.splits)
  qed
qed auto

lemma priv_shift_eq:
  assumes "i < count" and "count \<le> length ps"
  shows "priv_shift i count ps = Some (take i ps @ take (count - 1 - i) (drop (Suc i) ps) @ drop (count - 1) ps)"
proof -
  let ?P = "\<lambda>k xs. xs = take i ps @ take (k - i) (drop (Suc i) ps) @ drop k ps"
  let ?f = "\<lambda>k xs. if length xs \<le> Suc k then None else Some (xs[k := xs ! Suc k])"
  have "\<exists>xs. for_upto i (count - 1) ?f ps = Some xs \<and> ?P (count - 1) xs"
  proof (rule for_upto_inv [where P = ?P])
    fix k xs assume k: "i \<le> k" "k < count - 1" and xs: "?P k xs"
    have kl: "Suc k < length ps" using k assms(2) by simp
    define A where "A = take i ps @ take (k - i) (drop (Suc i) ps)"
    have l1: "length A = k" using k kl by (auto simp: A_def)
    have d: "drop k ps = ps ! k # ps ! Suc k # drop (Suc (Suc k)) ps"
      using kl by (simp add: Cons_nth_drop_Suc)
    have x: "xs = A @ ps ! k # ps ! Suc k # drop (Suc (Suc k)) ps"
      using xs d by (simp add: A_def)
    have "xs[k := xs ! Suc k] = A @ ps ! Suc k # ps ! Suc k # drop (Suc (Suc k)) ps"
      unfolding x using l1 by (simp add: list_update_append nth_append)
    moreover have "take (Suc k - i) (drop (Suc i) ps) = take (k - i) (drop (Suc i) ps) @ [ps ! Suc k]"
      using k kl by (simp add: Suc_diff_le take_Suc_conv_app_nth)
    ultimately have "?P (Suc k) (xs[k := xs ! Suc k])"
      using kl by (simp add: Cons_nth_drop_Suc A_def)
    moreover have "Suc k < length xs" unfolding x using l1 by simp
    ultimately show "\<exists>t'. ?f k xs = Some t' \<and> ?P (Suc k) t'" by simp
  qed (use assms in auto)
  then show ?thesis by (simp add: priv_shift_def)
qed

text \<open>The invariant of the applying loop, and its effect on the privileges in use.\<close>

definition adj_inv :: "u32 option \<Rightarrow> adj_st \<Rightarrow> bool" where
  "adj_inv prev_count s \<longleftrightarrow>
     unat (adj_count s) \<le> length (adj_privs s) \<and> pv_ok prev_count (fst (adj_pv s))"

definition adj_view :: "adj_st \<Rightarrow> LUID_AND_ATTRIBUTES list" where
  "adj_view s = take (unat (adj_count s)) (adj_privs s)"

lemma priv_apply_eq:
  assumes "adj_inv prev_count s" and "j < length ns"
  shows "\<exists>s'. priv_apply ns prev_count j s = Some s' \<and> adj_inv prev_count s' \<and>
    length (adj_privs s') = length (adj_privs s) \<and> unat (adj_count s') \<le> unat (adj_count s) \<and>
    adj_view s' = adj1 (ns ! j) (adj_view s) \<and>
    adj_all_found s' = (adj_all_found s \<and> has_luid (la_Luid (ns ! j)) (adj_view s))"
proof -
  let ?n = "unat (adj_count s)" and ?ps = "adj_privs s" and ?q = "ns ! j"
  have le: "?n \<le> length ?ps" and pv: "pv_ok prev_count (fst (adj_pv s))"
    using assms(1) by (auto simp: adj_inv_def)
  obtain r where r: "priv_index ?n 0 ?ps (la_Luid ?q) = Some r"
      "case r of None \<Rightarrow> \<forall>k. k < ?n \<longrightarrow> la_Luid (?ps ! k) \<noteq> la_Luid ?q
       | Some k \<Rightarrow> k < ?n \<and> la_Luid (?ps ! k) = la_Luid ?q \<and> (\<forall>j<k. la_Luid (?ps ! j) \<noteq> la_Luid ?q)"
    using priv_index_eq [of 0 ?n ?ps "la_Luid ?q"] le by (auto split: option.splits)
  show ?thesis
  proof (cases r)
    case None
    then have "\<not> has_luid (la_Luid ?q) (adj_view s)"
      using r(2) le by (auto simp: has_luid_def adj_view_def in_set_conv_nth)
    then show ?thesis
      using r None assms by (simp add: priv_apply_def adj_inv_def adj_view_def adj1_none)
  next
    case (Some k)
    then have k: "k < ?n" "la_Luid (?ps ! k) = la_Luid ?q" "\<forall>j<k. la_Luid (?ps ! j) \<noteq> la_Luid ?q"
      using r(2) by auto
    obtain pv' where pv': "prev_save prev_count (?ps ! k) (adj_pv s) = Some pv'" "pv_ok prev_count (fst pv')"
      using prev_save_total [OF pv] by blast
    have a: "adj1 ?q (adj_view s) = (if la_Attributes ?q AND SE_PRIVILEGE_REMOVED \<noteq> 0
        then take k (adj_view s) @ drop (Suc k) (adj_view s)
        else (adj_view s)[k := set_priv (priv_enabled ?q) (adj_view s ! k)])"
      using k le by (intro adj1_at) (auto simp: adj_view_def)
    have vk: "adj_view s ! k = ?ps ! k" and "k < length (adj_view s)" using k(1) le by (simp_all add: adj_view_def)
    then have h: "has_luid (la_Luid ?q) (adj_view s)"
      using k(2) nth_mem unfolding has_luid_def by metis
    have c: "unat (adj_count s - 1) = ?n - 1"
      using k(1) by (simp add: unat_sub_if')
    have sh: "priv_shift k ?n ?ps = Some (take k ?ps @ take (?n - 1 - k) (drop (Suc k) ?ps) @ drop (?n - 1) ?ps)"
      by (rule priv_shift_eq [OF k(1) le])
    have v1: "take (?n - 1) (take k ?ps @ take (?n - 1 - k) (drop (Suc k) ?ps) @ drop (?n - 1) ?ps) =
        take k (adj_view s) @ drop (Suc k) (adj_view s)"
    proof -
      have "length (take k ?ps @ take (?n - 1 - k) (drop (Suc k) ?ps)) = ?n - 1" using k(1) le by auto
      moreover have "take k (adj_view s) = take k ?ps" "drop (Suc k) (adj_view s) = take (?n - 1 - k) (drop (Suc k) ?ps)"
        using k(1) by (simp_all add: adj_view_def drop_take min_def)
      ultimately show ?thesis by (metis append_assoc append_eq_conv_conj)
    qed
    show ?thesis
      using r(1) Some pv' a h c sh v1 vk k(1) le assms(2)
      by (cases "la_Attributes ?q AND SE_PRIVILEGE_REMOVED = 0"; cases "priv_enabled ?q")
        (auto simp: priv_apply_def adj_inv_def adj_view_def set_priv_def priv_enabled_def take_update_swap Let_def)
  qed
qed

lemma priv_apply_pv:
  assumes "adj_inv prev_count s" and "priv_apply ns prev_count j s = Some s'" and "pv_ok prev_count xs"
    and "adj_pv s = prev_fill prev_count xs saved"
  shows "adj_pv s' = prev_fill prev_count xs
    (saved @ (case find (\<lambda>p. la_Luid p = la_Luid (ns ! j)) (adj_view s) of None \<Rightarrow> [] | Some p \<Rightarrow> [p]))"
proof -
  let ?n = "unat (adj_count s)" and ?ps = "adj_privs s" and ?q = "ns ! j"
  have le: "?n \<le> length ?ps" using assms(1) by (simp add: adj_inv_def)
  obtain r where r: "priv_index ?n 0 ?ps (la_Luid ?q) = Some r"
      "case r of None \<Rightarrow> \<forall>k. k < ?n \<longrightarrow> la_Luid (?ps ! k) \<noteq> la_Luid ?q
       | Some k \<Rightarrow> k < ?n \<and> la_Luid (?ps ! k) = la_Luid ?q \<and> (\<forall>j<k. la_Luid (?ps ! j) \<noteq> la_Luid ?q)"
    using priv_index_eq [of 0 ?n ?ps "la_Luid ?q"] le by (auto split: option.splits)
  show ?thesis
  proof (cases r)
    case None
    then have "\<not> has_luid (la_Luid ?q) (adj_view s)"
      using r(2) le by (auto simp: has_luid_def adj_view_def in_set_conv_nth)
    then show ?thesis using r(1) None assms(2,4) find_none by (auto simp: priv_apply_def split: if_splits)
  next
    case (Some k)
    then have k: "k < ?n" "la_Luid (?ps ! k) = la_Luid ?q" "\<forall>j<k. la_Luid (?ps ! j) \<noteq> la_Luid ?q"
      using r(2) by auto
    have "find (\<lambda>p. la_Luid p = la_Luid ?q) (adj_view s) = Some (adj_view s ! k)"
      by (rule find_at) (use k le in \<open>simp_all add: adj_view_def\<close>)
    moreover have "adj_view s ! k = ?ps ! k" using k(1) by (simp add: adj_view_def)
    moreover have "prev_save prev_count (?ps ! k) (adj_pv s) = Some (prev_fill prev_count xs (saved @ [?ps ! k]))"
      using prev_save_fill [OF assms(3)] assms(4) by simp
    ultimately show ?thesis
      using r(1) Some assms(2) by (auto simp: priv_apply_def Let_def bind_eq_Some_conv split: if_splits)
  qed
qed

lemma adj_all_snoc:
  "adj_all (nss @ [q]) ps =
     (adj1 q (fst (adj_all nss ps)), snd (adj_all nss ps) \<and> has_luid (la_Luid q) (fst (adj_all nss ps)))"
  by (induction nss arbitrary: ps) (auto simp: Let_def split_beta)

lemma adj_saved_snoc:
  "adj_saved (nss @ [q]) ps =
     adj_saved nss ps @ (case find (\<lambda>p. la_Luid p = la_Luid q) (fst (adj_all nss ps)) of None \<Rightarrow> [] | Some p \<Rightarrow> [p])"
  by (induction nss arbitrary: ps) (auto simp: Let_def split_beta)

lemma priv_apply_loop:
  assumes "adj_inv prev_count s" and "n \<le> length ns" and "adj_all_found s" and "pv_ok prev_count xs" and "adj_pv s = (xs, 0)"
  shows "\<exists>s'. for_upto 0 n (priv_apply ns prev_count) s = Some s' \<and>
    (adj_inv prev_count s' \<and> length (adj_privs s') = length (adj_privs s) \<and>
     unat (adj_count s') \<le> unat (adj_count s) \<and>
     (adj_view s', adj_all_found s') = adj_all (take n ns) (adj_view s) \<and>
     adj_pv s' = prev_fill prev_count xs (adj_saved (take n ns) (adj_view s)))"
proof (rule for_upto_inv [where P = "\<lambda>k t. adj_inv prev_count t \<and> length (adj_privs t) = length (adj_privs s) \<and>
    unat (adj_count t) \<le> unat (adj_count s) \<and> (adj_view t, adj_all_found t) = adj_all (take k ns) (adj_view s) \<and>
    adj_pv t = prev_fill prev_count xs (adj_saved (take k ns) (adj_view s))"])
  fix k t assume k: "k < n" and t: "adj_inv prev_count t \<and> length (adj_privs t) = length (adj_privs s) \<and>
    unat (adj_count t) \<le> unat (adj_count s) \<and> (adj_view t, adj_all_found t) = adj_all (take k ns) (adj_view s) \<and>
    adj_pv t = prev_fill prev_count xs (adj_saved (take k ns) (adj_view s))"
  have e: "fst (adj_all (take k ns) (adj_view s)) = adj_view t" "snd (adj_all (take k ns) (adj_view s)) = adj_all_found t"
    using t by (metis fst_conv snd_conv)+
  have "take (Suc k) ns = take k ns @ [ns ! k]" using k assms(2) by (simp add: take_Suc_conv_app_nth)
  with priv_apply_eq [of prev_count t k ns] priv_apply_pv [of prev_count t ns k] t k assms(2,4) e
  show "\<exists>t'. priv_apply ns prev_count k t = Some t' \<and> adj_inv prev_count t' \<and>
      length (adj_privs t') = length (adj_privs s) \<and> unat (adj_count t') \<le> unat (adj_count s) \<and>
      (adj_view t', adj_all_found t') = adj_all (take (Suc k) ns) (adj_view s) \<and>
      adj_pv t' = prev_fill prev_count xs (adj_saved (take (Suc k) ns) (adj_view s))"
    by (fastforce simp: adj_all_snoc adj_saved_snoc)
qed (use assms in auto)

subsection \<open>Disabling all\<close>

lemma priv_disable_loop:
  fixes pv :: priv_pv
  assumes "n \<le> length ps" and "pv_ok prev_count (fst pv)"
  shows "\<exists>pv'. for_upto 0 n (priv_disable prev_count) (ps, pv) =
    Some (map (set_priv False) (take n ps) @ drop n ps, pv')"
proof -
  let ?P = "\<lambda>k (s :: LUID_AND_ATTRIBUTES list \<times> priv_pv).
    fst s = map (set_priv False) (take k ps) @ drop k ps \<and> pv_ok prev_count (fst (snd s))"
  have "\<exists>s. for_upto 0 n (priv_disable prev_count) (ps, pv) = Some s \<and> ?P n s"
  proof (rule for_upto_inv [where P = ?P])
    fix k s assume k: "k < n" and s: "?P k s"
    obtain xs v where xs: "s = (xs, v)" by (cases s)
    have kl: "k < length ps" using k assms(1) by simp
    have e: "xs = map (set_priv False) (take k ps) @ ps ! k # drop (Suc k) ps"
      using s xs kl by (simp add: Cons_nth_drop_Suc)
    then have "xs ! k = ps ! k" and l: "k < length xs"
      and up: "xs[k := y] = map (set_priv False) (take k ps) @ y # drop (Suc k) ps" for y
      using kl by (simp_all add: nth_append list_update_append)
    moreover have "pv_ok prev_count (fst v)" using s xs by simp
    from prev_save_total [OF this] obtain v' where
      "prev_save prev_count (ps ! k) v = Some v'" "pv_ok prev_count (fst v')"
      by blast
    moreover have "take (Suc k) ps = take k ps @ [ps ! k]" using kl by (simp add: take_Suc_conv_app_nth)
    ultimately show "\<exists>s'. priv_disable prev_count k s = Some s' \<and> ?P (Suc k) s'"
      by (simp add: xs priv_disable_def set_priv_def)
  qed (use assms in auto)
  then show ?thesis by (auto simp: prod_eq_iff)
qed

lemma set_priv_fields [simp]: "la_Luid (set_priv on p) = la_Luid p"
  by (simp add: set_priv_def)

lemma set_priv_enabled: "priv_enabled (set_priv on p) = on"
  by (auto simp: set_priv_def priv_enabled_def SE_PRIVILEGE_ENABLED_def bit.conj_disj_distrib2 and.assoc)

lemma adj1_luids: "set (map la_Luid (adj1 ns ps)) \<subseteq> set (map la_Luid ps)"
  by (induction ps) auto

lemma adj_all_luids: "set (map la_Luid (fst (adj_all nss ps))) \<subseteq> set (map la_Luid ps)"
proof (induction nss arbitrary: ps)
  case (Cons ns nss)
  show ?case using Cons.IH [of "adj1 ns ps"] adj1_luids [of ns ps] by (simp add: Let_def split_beta)
qed simp

lemma adj1_distinct: "distinct (map la_Luid ps) \<Longrightarrow> distinct (map la_Luid (adj1 ns ps))"
proof (induction ps)
  case (Cons p ps)
  then show ?case using adj1_luids [of ns ps] by auto
qed simp

lemma adj1_removed:
  "distinct (map la_Luid ps) \<Longrightarrow> la_Attributes ns AND SE_PRIVILEGE_REMOVED \<noteq> 0 \<Longrightarrow>
     \<not> has_luid (la_Luid ns) (adj1 ns ps)"
  by (induction ps) (auto simp: has_luid_def image_iff)

lemma adj_all_removed:
  assumes "distinct (map la_Luid ps)" and "ns \<in> set nss" and "la_Attributes ns AND SE_PRIVILEGE_REMOVED \<noteq> 0"
  shows "\<not> has_luid (la_Luid ns) (fst (adj_all nss ps))"
  using assms
proof (induction nss arbitrary: ps)
  case (Cons q nss)
  show ?case
  proof (cases "ns = q")
    case True
    then have "\<not> has_luid (la_Luid ns) (adj1 q ps)" using adj1_removed Cons.prems by blast
    then show ?thesis
      using adj_all_luids [of nss "adj1 q ps"] by (fastforce simp: has_luid_def Let_def split_beta)
  next
    case False
    then show ?thesis
      using Cons.IH [OF adj1_distinct [OF Cons.prems(1)]] Cons.prems by (simp add: Let_def split_beta)
  qed
qed simp

text \<open>The two modes of the call on a well-formed token.\<close>

lemma NtAdjustPrivilegesToken_apply:
  assumes "token_wf t" and "unat nc \<le> length ns" and "pv_ok pc pst"
  shows "\<exists>t'. NtAdjustPrivilegesToken (Some t) False (Some ns) nc pst pc st =
      Some (if snd (adj_all (take (unat nc) ns) (token_privs t)) then STATUS_SUCCESS else STATUS_NOT_ALL_ASSIGNED,
            Some t', fst (prev_fill pc pst (adj_saved (take (unat nc) ns) (token_privs t))),
            map_option (\<lambda>_. snd (prev_fill pc pst (adj_saved (take (unat nc) ns) (token_privs t)))) pc,
            st\<lparr>g_next_luid := g_next_luid st + 1\<rparr>) \<and>
    token_wf t' \<and> token_privs t' = fst (adj_all (take (unat nc) ns) (token_privs t)) \<and>
    t' = t\<lparr>t_Privileges := t_Privileges t', t_PrivilegeCount := t_PrivilegeCount t',
           t_ModifiedId := RtlLuidFromValue (g_next_luid st + 1)\<rparr>"
proof -
  let ?s = "\<lparr>adj_privs = t_Privileges t, adj_count = t_PrivilegeCount t, adj_pv = (pst, 0), adj_all_found = True\<rparr>"
  have "adj_inv pc ?s" using assms by (simp add: adj_inv_def token_wf_def)
  from priv_apply_loop [OF this assms(2) _ assms(3)] obtain s' where s':
    "for_upto 0 (unat nc) (priv_apply ns pc) ?s = Some s'" "adj_inv pc s'"
    "length (adj_privs s') = length (t_Privileges t)" "unat (adj_count s') \<le> unat (t_PrivilegeCount t)"
    "(adj_view s', adj_all_found s') = adj_all (take (unat nc) ns) (token_privs t)"
    "adj_pv s' = prev_fill pc pst (adj_saved (take (unat nc) ns) (token_privs t))"
    by (auto simp: adj_view_def token_privs_def)
  have v: "fst (adj_all (take (unat nc) ns) (token_privs t)) = adj_view s'" "snd (adj_all (take (unat nc) ns) (token_privs t)) = adj_all_found s'"
    using s'(5) by (metis fst_conv snd_conv)+
  show ?thesis
    unfolding v using assms(1) s'(1-4,6)
    by (auto simp: NtAdjustPrivilegesToken_def new_luid_def NtAllocateLocallyUniqueId_def token_wf_def token_privs_def
        adj_view_def split_beta Let_def)
qed

lemma NtAdjustPrivilegesToken_disable:
  assumes "token_wf t" and "pv_ok pc pst"
  shows "\<exists>t' pst' pc' st'. NtAdjustPrivilegesToken (Some t) True nst nc pst pc st =
      Some (STATUS_SUCCESS, Some t', pst', pc', st') \<and>
    token_wf t' \<and> token_privs t' = map (set_priv False) (token_privs t) \<and>
    token_groups t' = token_groups t"
proof -
  have n: "unat (t_PrivilegeCount t) \<le> length (t_Privileges t)" using assms(1) by (simp add: token_wf_def)
  from priv_disable_loop [OF n, of pc "(pst, 0)"] assms(2) obtain pv' where
    "for_upto 0 (unat (t_PrivilegeCount t)) (priv_disable pc) (t_Privileges t, pst, 0) =
      Some (map (set_priv False) (token_privs t) @ drop (unat (t_PrivilegeCount t)) (t_Privileges t), pv')"
    by (auto simp: token_privs_def)
  then show ?thesis
    using assms(1) n
    by (simp add: NtAdjustPrivilegesToken_def new_luid_def token_wf_def token_privs_def token_groups_def split_beta Let_def)
qed

section \<open>Groups\<close>

definition grp_enabled :: "SID_AND_ATTRIBUTES \<Rightarrow> bool" where
  "grp_enabled g \<longleftrightarrow> sa_Attributes g AND SE_GROUP_ENABLED \<noteq> 0"

definition grp_deny_only :: "SID_AND_ATTRIBUTES \<Rightarrow> bool" where
  "grp_deny_only g \<longleftrightarrow> sa_Attributes g AND SE_GROUP_USE_FOR_DENY_ONLY \<noteq> 0"

text \<open>What adjusting may do to one group: only the enabled bit changes, and it is never set on a
  deny-only group.\<close>

definition grp_le :: "SID_AND_ATTRIBUTES \<Rightarrow> SID_AND_ATTRIBUTES \<Rightarrow> bool" where
  "grp_le g g' \<longleftrightarrow> sa_Sid g' = sa_Sid g \<and>
     sa_Attributes g' AND NOT SE_GROUP_ENABLED = sa_Attributes g AND NOT SE_GROUP_ENABLED \<and>
     (grp_deny_only g \<and> grp_enabled g' \<longrightarrow> grp_enabled g)"

lemma grp_le_refl [simp]: "grp_le g g"
  by (simp add: grp_le_def)

lemma deny_only_masked: "(a AND NOT SE_GROUP_ENABLED) AND SE_GROUP_USE_FOR_DENY_ONLY = a AND SE_GROUP_USE_FOR_DENY_ONLY"
  by (simp add: SE_GROUP_ENABLED_def SE_GROUP_USE_FOR_DENY_ONLY_def and.assoc)

lemma grp_le_deny: "grp_le g g' \<Longrightarrow> grp_deny_only g' = grp_deny_only g"
  unfolding grp_le_def grp_deny_only_def by (metis deny_only_masked)

lemma grp_le_trans: "grp_le a b \<Longrightarrow> grp_le b c \<Longrightarrow> grp_le a c"
  using grp_le_deny [of a b] by (auto simp: grp_le_def)

lemma grp_le_set:
  assumes "\<not> (grp_deny_only g \<and> on)"
  shows "grp_le g (g\<lparr>sa_Attributes := (if on then sa_Attributes g OR SE_GROUP_ENABLED
                                      else sa_Attributes g AND NOT SE_GROUP_ENABLED)\<rparr>)"
  using assms
  by (auto simp: grp_le_def grp_enabled_def bit.conj_disj_distrib2 SE_GROUP_ENABLED_def and.assoc)

definition sid_readable :: "bytes option \<Rightarrow> bool" where
  "sid_readable s \<longleftrightarrow> (case s of None \<Rightarrow> True | Some b \<Rightarrow> sid_size b \<le> length b)"

lemma RtlEqualSid_total: "sid_readable a \<Longrightarrow> sid_readable b \<Longrightarrow> \<exists>r. RtlEqualSid a b = Some r"
  by (cases a; cases b) (auto simp: sid_readable_def RtlEqualSid_eq simp del: not_None_eq intro!: exI [of _ False] simp: RtlEqualSid_def [of None] RtlEqualSid_def [of _ None])

lemma grp_inner_total:
  assumes "i + n \<le> length gs" and "\<forall>g \<in> set gs. sid_readable (sa_Sid g)" and "sid_readable (sa_Sid ns)"
    and "pv_ok pc (fst pv)"
  shows "\<exists>gs' pv'. grp_inner n i pc ns (gs, pv) = Some (gs', pv') \<and> list_all2 grp_le gs gs' \<and> pv_ok pc (fst pv')"
  using assms
proof (induction n arbitrary: i)
  case 0
  then show ?case by (simp add: list_all2_refl)
next
  case (Suc n)
  then have i: "i < length gs" by simp
  then obtain r where r: "RtlEqualSid (sa_Sid (gs ! i)) (sa_Sid ns) = Some r"
    using RtlEqualSid_total Suc.prems(2,3) nth_mem by blast
  obtain pv' where pv': "prev_save pc (gs ! i) pv = Some pv'" "pv_ok pc (fst pv')"
    using prev_save_total [OF Suc.prems(4)] by blast
  have up: "list_all2 grp_le gs (gs[i := g'])" if "grp_le (gs ! i) g'" for g'
    using that i by (simp add: list_all2_conv_all_nth nth_list_update)
  obtain p1 p2 where "pv' = (p1, p2)" by (cases pv')
  then show ?case
    using Suc.IH [of "Suc i"] Suc.prems i r pv' up [OF grp_le_set, of "grp_enabled ns"]
    by (auto simp: grp_deny_only_def grp_enabled_def)
qed

lemma list_all2_grp_trans:
  "list_all2 grp_le a b \<Longrightarrow> list_all2 grp_le b c \<Longrightarrow> list_all2 grp_le a c"
  by (rule list_all2_trans [of grp_le grp_le grp_le]) (auto intro: grp_le_trans)

lemma grp_le_readable:
  "list_all2 grp_le gs gs' \<Longrightarrow> \<forall>g \<in> set gs. sid_readable (sa_Sid g) \<Longrightarrow> \<forall>g \<in> set gs'. sid_readable (sa_Sid g)"
  by (induction rule: list_all2_induct) (auto simp: grp_le_def)

lemma grp_reset_step:
  assumes "i < length gs" and "pv_ok pc (fst pv)"
  shows "\<exists>gs' pv'. grp_reset pc i (gs, pv) = Some (gs', pv') \<and> list_all2 grp_le gs gs' \<and> pv_ok pc (fst pv')"
proof -
  obtain pv' where pv': "prev_save pc (gs ! i) pv = Some pv'" "pv_ok pc (fst pv')"
    using prev_save_total [OF assms(2)] by blast
  have up: "list_all2 grp_le gs (gs[i := g'])" if "grp_le (gs ! i) g'" for g'
    using that assms(1) by (simp add: list_all2_conv_all_nth nth_list_update)
  show ?thesis
  proof (cases "grp_deny_only (gs ! i)")
    case True
    then show ?thesis
      using assms(1) pv' by (cases pv') (simp add: grp_reset_def grp_deny_only_def list_all2_refl)
  next
    case False
    then show ?thesis
      using assms(1) pv' up [OF grp_le_set, of "sa_Attributes (gs ! i) AND SE_GROUP_ENABLED_BY_DEFAULT \<noteq> 0"]
      by (cases pv') (auto simp: grp_reset_def grp_deny_only_def Let_def)
  qed
qed

text \<open>Any loop whose steps only do what is allowed to one group.\<close>

lemma grp_loop:
  fixes f :: "nat \<Rightarrow> grp_st \<Rightarrow> grp_st option"
  assumes "pv_ok pc (fst pv)" and "\<forall>g \<in> set gs. sid_readable (sa_Sid g)"
    and "\<And>k gs' pv'. k < n \<Longrightarrow> length gs' = length gs \<Longrightarrow> \<forall>g \<in> set gs'. sid_readable (sa_Sid g) \<Longrightarrow>
      pv_ok pc (fst pv') \<Longrightarrow>
      \<exists>gs'' pv''. f k (gs', pv') = Some (gs'', pv'') \<and> list_all2 grp_le gs' gs'' \<and> pv_ok pc (fst pv'')"
  shows "\<exists>gs' pv'. for_upto 0 n f (gs, pv) = Some (gs', pv') \<and> list_all2 grp_le gs gs'"
proof -
  let ?P = "\<lambda>k (s :: grp_st). list_all2 grp_le gs (fst s) \<and> pv_ok pc (fst (snd s))"
  have "\<exists>s. for_upto 0 n f (gs, pv) = Some s \<and> ?P n s"
  proof (rule for_upto_inv [where P = ?P])
    fix k s assume k: "k < n" and s: "?P k s"
    obtain gs' pv' where e: "s = (gs', pv')" by (cases s)
    have l: "length gs' = length gs" "\<forall>g \<in> set gs'. sid_readable (sa_Sid g)"
      using s e grp_le_readable [OF _ assms(2)] by (auto dest: list_all2_lengthD)
    have "pv_ok pc (fst pv')" and le: "list_all2 grp_le gs gs'" using s e by auto
    from assms(3) [OF k l this(1)] obtain gs'' pv'' where
      "f k (gs', pv') = Some (gs'', pv'')" "list_all2 grp_le gs' gs''" "pv_ok pc (fst pv'')" by blast
    then show "\<exists>s'. f k s = Some s' \<and> ?P (Suc k) s'"
      using e list_all2_grp_trans [OF le] by simp
  qed (use assms in \<open>auto simp: list_all2_refl\<close>)
  then show ?thesis by (auto simp: split_paired_Ex)
qed

lemma NtAdjustGroupsToken_eq:
  assumes "token_wf t" and "unat nc \<le> length ns" and "pv_ok pc pst"
    and "\<forall>g \<in> set (t_Groups t). sid_readable (sa_Sid g)" and "\<forall>g \<in> set ns. sid_readable (sa_Sid g)"
  shows "\<exists>t' pst' pc' st'. NtAdjustGroupsToken (Some t) rst (Some ns) nc pst pc st =
      Some (STATUS_SUCCESS, Some t', pst', pc', st') \<and>
    token_wf t' \<and> token_privs t' = token_privs t \<and> t_GroupCount t' = t_GroupCount t \<and>
    list_all2 grp_le (t_Groups t) (t_Groups t')"
proof -
  have n: "unat (t_GroupCount t) \<le> length (t_Groups t)" using assms(1) by (simp add: token_wf_def)
  have r: "\<exists>gs' pv'. for_upto 0 (unat (t_GroupCount t)) (grp_reset pc) (t_Groups t, pst, 0) = Some (gs', pv') \<and>
      list_all2 grp_le (t_Groups t) gs'"
  proof (rule grp_loop [of pc])
    fix k and gs' :: "SID_AND_ATTRIBUTES list" and pv' :: "SID_AND_ATTRIBUTES list option \<times> u32"
    assume "k < unat (t_GroupCount t)" "length gs' = length (t_Groups t)" "pv_ok pc (fst pv')"
    then show "\<exists>gs'' pv''. grp_reset pc k (gs', pv') = Some (gs'', pv'') \<and> list_all2 grp_le gs' gs'' \<and> pv_ok pc (fst pv'')"
      using n by (intro grp_reset_step) auto
  qed (use assms in auto)
  have a: "\<exists>gs' pv'. for_upto 0 (unat nc) (\<lambda>j s. if length ns \<le> j then None
        else grp_inner (unat (t_GroupCount t)) 0 pc (ns ! j) s) (t_Groups t, pst, 0) = Some (gs', pv') \<and>
      list_all2 grp_le (t_Groups t) gs'"
  proof (rule grp_loop [of pc])
    fix k and gs' :: "SID_AND_ATTRIBUTES list" and pv' :: "SID_AND_ATTRIBUTES list option \<times> u32"
    assume "k < unat nc" "length gs' = length (t_Groups t)" "\<forall>g \<in> set gs'. sid_readable (sa_Sid g)" "pv_ok pc (fst pv')"
    then show "\<exists>gs'' pv''. (if length ns \<le> k then None else grp_inner (unat (t_GroupCount t)) 0 pc (ns ! k) (gs', pv')) =
        Some (gs'', pv'') \<and> list_all2 grp_le gs' gs'' \<and> pv_ok pc (fst pv'')"
      using grp_inner_total [of 0 "unat (t_GroupCount t)" gs' "ns ! k" pc pv'] n assms(2,5) by simp
  qed (use assms in auto)
  show ?thesis
  proof (cases rst)
    case True
    from r obtain gs' pv' where "for_upto 0 (unat (t_GroupCount t)) (grp_reset pc) (t_Groups t, pst, 0) = Some (gs', pv')"
        "list_all2 grp_le (t_Groups t) gs'" by blast
    then show ?thesis
      using True assms(1)
      by (auto simp: NtAdjustGroupsToken_def new_luid_def token_wf_def token_privs_def Let_def split_beta
          dest: list_all2_lengthD)
  next
    case False
    from a obtain gs' pv' where "for_upto 0 (unat nc) (\<lambda>j s. if length ns \<le> j then None
        else grp_inner (unat (t_GroupCount t)) 0 pc (ns ! j) s) (t_Groups t, pst, 0) = Some (gs', pv')"
        "list_all2 grp_le (t_Groups t) gs'" by blast
    then show ?thesis
      using False assms(1)
      by (auto simp: NtAdjustGroupsToken_def new_luid_def token_wf_def token_privs_def Let_def split_beta
          dest: list_all2_lengthD)
  qed
qed

section \<open>Tokens derived from a token\<close>

text \<open>
  The tokens a subject can reach from one it has: by any sequence of adjustments of privileges and
  groups, in any mode and with any arguments whose buffers are as large as their counts say, and of
  duplications.
\<close>

definition adjust_args :: "'a list \<Rightarrow> u32 \<Rightarrow> 'a list option \<Rightarrow> u32 option \<Rightarrow> bool" where
  "adjust_args ns nc pst pc \<longleftrightarrow> unat nc \<le> length ns \<and> pv_ok pc pst"

definition groups_readable :: "ACCESS_TOKEN \<Rightarrow> bool" where
  "groups_readable t \<longleftrightarrow> (\<forall>g \<in> set (t_Groups t). sid_readable (sa_Sid g))"

inductive derives :: "ACCESS_TOKEN \<Rightarrow> ACCESS_TOKEN \<Rightarrow> bool" for t where
  derives_self: "derives t t"
| derives_privs: "derives t u \<Longrightarrow> adjust_args ns nc pst pc \<Longrightarrow>
    NtAdjustPrivilegesToken (Some u) all (Some ns) nc pst pc st = Some (rc, Some v, rest) \<Longrightarrow> derives t v"
| derives_groups: "derives t u \<Longrightarrow> adjust_args ns nc pst pc \<Longrightarrow> \<forall>g \<in> set ns. sid_readable (sa_Sid g) \<Longrightarrow>
    NtAdjustGroupsToken (Some u) reset (Some ns) nc pst pc st = Some (rc, Some v, rest) \<Longrightarrow> derives t v"
| derives_dup: "derives t u \<Longrightarrow>
    NtDuplicateToken True (Some u) da eff ty st = Some (Some v, st') \<Longrightarrow> derives t v"

text \<open>What never grows along a derivation.\<close>

definition no_more_than :: "ACCESS_TOKEN \<Rightarrow> ACCESS_TOKEN \<Rightarrow> bool" where
  "no_more_than t v \<longleftrightarrow>
     (\<forall>p \<in> set (token_privs v). has_luid (la_Luid p) (token_privs t)) \<and>
     (\<forall>g' \<in> set (token_groups v). \<exists>g \<in> set (token_groups t). grp_le g g')"

lemma no_more_than_refl: "no_more_than t t"
  by (auto simp: no_more_than_def has_luid_def intro: grp_le_refl)

lemma no_more_than_trans: "no_more_than t u \<Longrightarrow> no_more_than u v \<Longrightarrow> no_more_than t v"
  unfolding no_more_than_def has_luid_def by (metis grp_le_trans)

lemma no_more_thanI:
  assumes "set (map la_Luid (token_privs v)) \<subseteq> set (map la_Luid (token_privs u))"
    and "\<And>g'. g' \<in> set (token_groups v) \<Longrightarrow> \<exists>g \<in> set (token_groups u). grp_le g g'"
  shows "no_more_than u v"
  using assms by (fastforce simp: no_more_than_def has_luid_def)

lemma list_all2_take_groups:
  assumes "list_all2 grp_le (t_Groups u) (t_Groups v)" and "t_GroupCount v = t_GroupCount u"
    and "g' \<in> set (token_groups v)"
  shows "\<exists>g \<in> set (token_groups u). grp_le g g'"
proof -
  have "list_all2 grp_le (token_groups u) (token_groups v)"
    using assms(1,2) by (simp add: token_groups_def list_all2_takeI)
  then show ?thesis using assms(3) by (metis in_set_conv_nth list_all2_conv_all_nth)
qed

lemma step_privs:
  assumes "token_wf u" and "adjust_args ns nc pst pc"
    and "NtAdjustPrivilegesToken (Some u) all (Some ns) nc pst pc st = Some (rc, Some v, rest)"
  shows "token_wf v" and "no_more_than u v" and "t_Groups v = t_Groups u"
proof -
  have gr: "t_Groups v = t_Groups u"
    using assms(3)
    by (auto simp: NtAdjustPrivilegesToken_def bind_eq_Some_conv Let_def split_beta split: if_splits)
  have gc: "t_GroupCount v = t_GroupCount u"
    using assms(3)
    by (auto simp: NtAdjustPrivilegesToken_def bind_eq_Some_conv Let_def split_beta split: if_splits)
  have *: "token_wf v \<and> token_groups v = token_groups u \<and>
      set (map la_Luid (token_privs v)) \<subseteq> set (map la_Luid (token_privs u))"
  proof (cases all)
    case True
    then show ?thesis
      using NtAdjustPrivilegesToken_disable [of u pc pst "Some ns" nc st] assms by (auto simp: adjust_args_def)
  next
    case False
    then show ?thesis
      using NtAdjustPrivilegesToken_apply [of u nc ns pc pst st] assms
        adj_all_luids [of "take (unat nc) ns" "token_privs u"] gr gc
      by (auto simp: adjust_args_def token_groups_def)
  qed
  show "t_Groups v = t_Groups u" by (rule gr)
  show "token_wf v" using * by simp
  show "no_more_than u v"
    by (rule no_more_thanI) (use * grp_le_refl in \<open>auto simp only:\<close>)
qed

lemma step_groups:
  assumes "token_wf u" and "groups_readable u" and "adjust_args ns nc pst pc"
    and "\<forall>g \<in> set ns. sid_readable (sa_Sid g)"
    and "NtAdjustGroupsToken (Some u) reset (Some ns) nc pst pc st = Some (rc, Some v, rest)"
  shows "token_wf v" and "no_more_than u v" and "groups_readable v"
proof -
  have *: "token_wf v \<and> token_privs v = token_privs u \<and> t_GroupCount v = t_GroupCount u \<and>
      list_all2 grp_le (t_Groups u) (t_Groups v)"
    using NtAdjustGroupsToken_eq [of u nc ns pc pst reset st] assms
    by (auto simp: adjust_args_def groups_readable_def)
  then show "token_wf v" and "no_more_than u v"
    using list_all2_take_groups by (auto intro!: no_more_thanI)
  show "groups_readable v"
    using * assms(2) grp_le_readable by (auto simp: groups_readable_def)
qed

lemma step_dup:
  assumes "token_wf u" and "NtDuplicateToken True (Some u) da eff ty st = Some (Some v, st')"
  shows "token_wf v" and "no_more_than u v" and "groups_readable u \<Longrightarrow> groups_readable v"
proof -
  have *: "token_wf v \<and> set (token_groups v) \<subseteq> set (token_groups u) \<and> set (token_privs v) \<subseteq> set (token_privs u) \<and>
      set (t_Groups v) \<subseteq> set (token_groups u) \<union> set (t_Groups zero_token)"
    using NtDuplicateToken_eq [OF assms(1) zero_token_wf, where eff = eff and da = da and ty = ty and st = st] assms(2)
    by auto
  show "token_wf v" using * by simp
  show "no_more_than u v"
  proof (rule no_more_thanI)
    show "\<exists>g \<in> set (token_groups u). grp_le g g'" if "g' \<in> set (token_groups v)" for g'
      using * that grp_le_refl by blast
  qed (use * in auto)
  show "groups_readable v" if "groups_readable u"
    unfolding groups_readable_def
  proof
    fix g assume "g \<in> set (t_Groups v)"
    then consider "g \<in> set (token_groups u)" | "g \<in> set (t_Groups zero_token)" using * by blast
    then show "sid_readable (sa_Sid g)"
    proof cases
      case 1
      then show ?thesis using that by (auto simp: groups_readable_def token_groups_def dest: in_set_takeD)
    qed (simp add: zero_token_def sid_readable_def)
  qed
qed

lemma derives_inv:
  assumes "derives t v" and "token_wf t" and "groups_readable t"
  shows "token_wf v \<and> groups_readable v \<and> no_more_than t v"
  using assms(1)
proof (induction rule: derives.induct)
  case derives_self
  then show ?case using assms no_more_than_refl by blast
next
  case (derives_privs u ns nc pst pc all st rc v rest)
  then show ?case
    using step_privs [of u ns nc pst pc all st rc v rest] no_more_than_trans by (auto simp: groups_readable_def)
next
  case (derives_groups u ns nc pst pc reset st rc v rest)
  then show ?case
    using step_groups [of u ns nc pst pc reset st rc v rest] no_more_than_trans by blast
next
  case (derives_dup u da eff ty st v st')
  then show ?case using step_dup [of u da eff ty st v st'] no_more_than_trans by blast
qed

text \<open>What no derivation touches: everything but the groups, the privileges, the type and the two ids of the token.\<close>

definition identity :: "ACCESS_TOKEN \<Rightarrow> ACCESS_TOKEN" where
  "identity t = t\<lparr>t_GroupCount := 0, t_Groups := [], t_PrivilegeCount := 0, t_Privileges := [], t_TokenType := TokenPrimary,
     t_TokenId := mk_luid 0, t_ModifiedId := mk_luid 0\<rparr>"

lemma identity_privs:
  "NtAdjustPrivilegesToken (Some u) all (Some ns) nc pst pc st = Some (rc, Some v, rest) \<Longrightarrow> identity v = identity u"
  by (auto simp: NtAdjustPrivilegesToken_def identity_def bind_eq_Some_conv Let_def split_beta split: if_splits)

lemma identity_groups:
  "NtAdjustGroupsToken (Some u) reset (Some ns) nc pst pc st = Some (rc, Some v, rest) \<Longrightarrow> identity v = identity u"
  by (auto simp: NtAdjustGroupsToken_def identity_def bind_eq_Some_conv Let_def split_beta split: if_splits)

lemma NtDuplicateToken_fields:
  assumes "NtDuplicateToken True (Some u) da eff ty st = Some (Some v, st')"
  shows "v = u\<lparr>t_GroupCount := t_GroupCount v, t_Groups := t_Groups v, t_PrivilegeCount := t_PrivilegeCount v,
     t_Privileges := t_Privileges v, t_TokenType := ty, t_TokenId := RtlLuidFromValue (g_next_luid st + 1),
     t_ModifiedId := RtlLuidFromValue (g_next_luid st + 2)\<rparr>"
  using assms
  by (auto simp: NtDuplicateToken_def new_luid_def NtAllocateLocallyUniqueId_def zero_token_def bind_eq_Some_conv Let_def split_beta add.assoc)

lemma identity_dup: "NtDuplicateToken True (Some u) da eff ty st = Some (Some v, st') \<Longrightarrow> identity v = identity u"
  by (drule NtDuplicateToken_fields, erule ssubst) (simp add: identity_def)

lemma derives_identity: "derives t v \<Longrightarrow> identity v = identity t"
  by (induction rule: derives.induct) (auto dest: identity_privs identity_groups identity_dup)

lemma identityD:
  assumes "identity v = identity t"
  shows "t_UserSid v = t_UserSid t" "t_PrimaryGroup v = t_PrimaryGroup t" "t_IntegrityLevelSid v = t_IntegrityLevelSid t"
    "t_IntegrityPolicy v = t_IntegrityPolicy t" "t_IsElevated v = t_IsElevated t" "t_ElevationType v = t_ElevationType t"
    "t_LinkedTokenId v = t_LinkedTokenId t" "t_AuthenticationId v = t_AuthenticationId t" "t_SessionId v = t_SessionId t"
    "t_RestrictedSids v = t_RestrictedSids t" "t_RestrictedSidCount v = t_RestrictedSidCount t" "t_Flags v = t_Flags t"
    "t_ImpersonationLevel v = t_ImpersonationLevel t" "t_DefaultDacl v = t_DefaultDacl t" "t_QuotaBlock v = t_QuotaBlock t"
  using assms by (cases v; cases t; simp add: identity_def)+

section \<open>Properties\<close>

text \<open>
  C1: No derivation gains rights. Whatever sequence of \<open>NtAdjustPrivilegesToken\<close>,
  \<open>NtAdjustGroupsToken\<close> and \<open>NtDuplicateToken\<close> calls leads from a well-formed token to another, the
  result is well formed, every privilege it carries was carried by the original token, and every
  group of it comes from a group of the original with the same SID and the same attributes up to
  the enabled bit; a group the original has for deny-only and disabled is never enabled. Its user and
  primary group, integrity level and policy, elevation, linked token, logon session, restricting SIDs, flags and
  impersonation level are those of the original.
\<close>

theorem derived_token_gains_nothing:
  assumes "derives t v" and "token_wf t" and "groups_readable t"
  shows "token_wf v \<and>
    (\<forall>p \<in> set (token_privs v). has_luid (la_Luid p) (token_privs t)) \<and>
    (\<forall>g' \<in> set (token_groups v). \<exists>g \<in> set (token_groups t). sa_Sid g' = sa_Sid g \<and>
       sa_Attributes g' AND NOT SE_GROUP_ENABLED = sa_Attributes g AND NOT SE_GROUP_ENABLED \<and>
       (grp_deny_only g \<and> \<not> grp_enabled g \<longrightarrow> \<not> grp_enabled g')) \<and>
    t_UserSid v = t_UserSid t \<and> t_PrimaryGroup v = t_PrimaryGroup t \<and>
    t_IntegrityLevelSid v = t_IntegrityLevelSid t \<and> t_IntegrityPolicy v = t_IntegrityPolicy t \<and>
    t_IsElevated v = t_IsElevated t \<and> t_ElevationType v = t_ElevationType t \<and> t_LinkedTokenId v = t_LinkedTokenId t \<and>
    t_AuthenticationId v = t_AuthenticationId t \<and> t_SessionId v = t_SessionId t \<and>
    t_RestrictedSids v = t_RestrictedSids t \<and> t_RestrictedSidCount v = t_RestrictedSidCount t \<and> t_Flags v = t_Flags t \<and>
    t_ImpersonationLevel v = t_ImpersonationLevel t"
proof -
  have inv: "token_wf v" "no_more_than t v" using derives_inv [OF assms] by simp_all
  have grp: "\<forall>g' \<in> set (token_groups v). \<exists>g \<in> set (token_groups t). sa_Sid g' = sa_Sid g \<and>
       sa_Attributes g' AND NOT SE_GROUP_ENABLED = sa_Attributes g AND NOT SE_GROUP_ENABLED \<and>
       (grp_deny_only g \<and> \<not> grp_enabled g \<longrightarrow> \<not> grp_enabled g')"
    using inv(2) by (fastforce simp: no_more_than_def grp_le_def)
  show ?thesis using inv grp identityD [OF derives_identity [OF assms(1)]] by (simp add: no_more_than_def)
qed

theorem derived_token_gains_nothing_witness:
  "\<exists>v. derives sample_token v \<and> v \<noteq> sample_token \<and> token_wf v \<and>
    (\<forall>p \<in> set (token_privs v). has_luid (la_Luid p) (token_privs sample_token)) \<and>
    t_IntegrityLevelSid v = t_IntegrityLevelSid sample_token"
proof -
  let ?st = "\<lparr>g_next_luid = 1000, quota_refs = (\<lambda>_. 0)\<rparr>"
  obtain v st' where v: "NtDuplicateToken True (Some sample_token) 0 True TokenImpersonation ?st = Some (Some v, st')"
      "t_TokenType v = TokenImpersonation"
    using NtDuplicateToken_eq [OF sample_token_wf zero_token_wf, where eff = True and da = 0 and
        ty = TokenImpersonation and st = ?st] by auto
  have d: "derives sample_token v" by (rule derives_dup [OF derives_self v(1)])
  have g: "groups_readable sample_token"
    by (simp add: groups_readable_def sample_token_def sid_readable_def)
  have "t_TokenType sample_token = TokenPrimary" by (simp add: sample_token_def)
  then have "v \<noteq> sample_token" using v(2) by auto
  with derived_token_gains_nothing [OF d sample_token_wf g] d show ?thesis by auto
qed

text \<open>
  C19: \<open>NtAdjustPrivilegesToken\<close> applies the requested changes exactly. For buffers as large as their
  counts, it reads and writes only inside them; the privileges afterwards are the result of the
  requests one after the other on the list in use (the first privilege with the LUID removed,
  enabled or disabled), the status is \<open>STATUS_NOT_ALL_ASSIGNED\<close> exactly if some request found no
  privilege, and a privilege requested as removed is gone if the token had it once. The previous state is the old
  values of the privileges that the requests found, in that order, as many as the caller has room for, and the
  count is their number; the rest of the caller's buffer is kept. Of the rest of the token only \<open>ModifiedId\<close> changes, to a
  fresh id.
\<close>

theorem NtAdjustPrivilegesToken_correct:
  assumes "token_wf t" and "unat nc \<le> length ns" and "pv_ok pc pst"
  shows "\<exists>t' pst' pc'. NtAdjustPrivilegesToken (Some t) False (Some ns) nc pst pc st =
      Some (if snd (adj_all (take (unat nc) ns) (token_privs t)) then STATUS_SUCCESS else STATUS_NOT_ALL_ASSIGNED,
            Some t', pst', pc', st\<lparr>g_next_luid := g_next_luid st + 1\<rparr>) \<and>
    token_wf t' \<and> token_privs t' = fst (adj_all (take (unat nc) ns) (token_privs t)) \<and>
    t' = t\<lparr>t_Privileges := t_Privileges t', t_PrivilegeCount := t_PrivilegeCount t',
           t_ModifiedId := RtlLuidFromValue (g_next_luid st + 1)\<rparr> \<and>
    (case (pst, pc) of
       (Some xs, Some c) \<Rightarrow>
         (let saved = take (unat c) (adj_saved (take (unat nc) ns) (token_privs t))
          in pst' = Some (saved @ drop (length saved) xs) \<and> pc' = Some (of_nat (length saved)))
     | _ \<Rightarrow> pst' = pst \<and> pc' = map_option (\<lambda>_. 0) pc) \<and>
    (distinct (map la_Luid (token_privs t)) \<longrightarrow>
      (\<forall>q \<in> set (take (unat nc) ns). la_Attributes q AND SE_PRIVILEGE_REMOVED \<noteq> 0 \<longrightarrow>
        \<not> has_luid (la_Luid q) (token_privs t')))"
proof -
  let ?sv = "adj_saved (take (unat nc) ns) (token_privs t)"
  let ?f = "prev_fill pc pst ?sv"
  obtain t' where t': "NtAdjustPrivilegesToken (Some t) False (Some ns) nc pst pc st =
      Some (if snd (adj_all (take (unat nc) ns) (token_privs t)) then STATUS_SUCCESS else STATUS_NOT_ALL_ASSIGNED,
            Some t', fst ?f, map_option (\<lambda>_. snd ?f) pc, st\<lparr>g_next_luid := g_next_luid st + 1\<rparr>)"
    "token_wf t'" "token_privs t' = fst (adj_all (take (unat nc) ns) (token_privs t))"
    "t' = t\<lparr>t_Privileges := t_Privileges t', t_PrivilegeCount := t_PrivilegeCount t',
           t_ModifiedId := RtlLuidFromValue (g_next_luid st + 1)\<rparr>"
    using NtAdjustPrivilegesToken_apply [OF assms, of st] by blast
  moreover have "case (pst, pc) of
       (Some xs, Some c) \<Rightarrow>
         (let saved = take (unat c) ?sv in fst ?f = Some (saved @ drop (length saved) xs) \<and> map_option (\<lambda>_. snd ?f) pc = Some (of_nat (length saved)))
     | _ \<Rightarrow> fst ?f = pst \<and> map_option (\<lambda>_. snd ?f) pc = map_option (\<lambda>_. 0) pc"
    by (cases pst; cases pc) (auto simp: prev_fill_def Let_def min_def)
  moreover have "\<not> has_luid (la_Luid q) (token_privs t')"
    if "distinct (map la_Luid (token_privs t))" "q \<in> set (take (unat nc) ns)" "la_Attributes q AND SE_PRIVILEGE_REMOVED \<noteq> 0" for q
    unfolding t'(3) by (rule adj_all_removed [OF that])
  ultimately show ?thesis by blast
qed

theorem NtAdjustPrivilegesToken_correct_witness:
  "\<exists>t' st'. NtAdjustPrivilegesToken (Some sample_token) False
      (Some [\<lparr>la_Luid = SeShutdownPrivilege, la_Attributes = 4\<rparr>]) 1 (Some [\<lparr>la_Luid = mk_luid 0, la_Attributes = 0\<rparr>]) (Some 1)
      \<lparr>g_next_luid = 1000, quota_refs = (\<lambda>_. 0)\<rparr> =
      Some (STATUS_SUCCESS, Some t', Some [\<lparr>la_Luid = SeShutdownPrivilege, la_Attributes = 2\<rparr>], Some 1, st') \<and>
    token_privs t' = []"
proof -
  let ?ns = "[\<lparr>la_Luid = SeShutdownPrivilege, la_Attributes = 4\<rparr>] :: LUID_AND_ATTRIBUTES list"
  let ?pst = "Some [\<lparr>la_Luid = mk_luid 0, la_Attributes = 0\<rparr>] :: LUID_AND_ATTRIBUTES list option"
  have l: "unat (1 :: u32) \<le> length ?ns" by simp
  have p: "pv_ok (Some 1) ?pst" by (simp add: pv_ok_def)
  have a: "adj_all (take (unat (1 :: u32)) ?ns) (token_privs sample_token) = ([], True)" by code_simp
  have v: "adj_saved (take (unat (1 :: u32)) ?ns) (token_privs sample_token) = [\<lparr>la_Luid = SeShutdownPrivilege, la_Attributes = 2\<rparr>]" by code_simp
  from NtAdjustPrivilegesToken_correct [OF sample_token_wf l p, of "\<lparr>g_next_luid = 1000, quota_refs = (\<lambda>_. 0)\<rparr>"]
  show ?thesis unfolding a v by (auto simp: Let_def)
qed

text \<open>
  Disabling all privileges leaves nothing held: after \<open>NtAdjustPrivilegesToken\<close> with
  \<open>disable_all\<close> the token still lists the same privileges, but holds none of them, so every privilege
  check that is not from kernel mode and asks for at least one privilege fails.
\<close>

theorem NtAdjustPrivilegesToken_disable_all:
  assumes "token_wf t" and "pv_ok pc pst"
  shows "\<exists>t' pst' pc' st'. NtAdjustPrivilegesToken (Some t) True nst nc pst pc st =
      Some (STATUS_SUCCESS, Some t', pst', pc', st') \<and> token_wf t' \<and>
    map la_Luid (token_privs t') = map la_Luid (token_privs t) \<and> (\<forall>l. \<not> holds t' l)"
proof -
  obtain t' pst' pc' st' where t': "NtAdjustPrivilegesToken (Some t) True nst nc pst pc st =
      Some (STATUS_SUCCESS, Some t', pst', pc', st')" "token_wf t'"
      "token_privs t' = map (set_priv False) (token_privs t)"
    using NtAdjustPrivilegesToken_disable [OF assms, of nst nc st] by blast
  moreover have "\<not> holds t' l" for l using t'(3) by (auto simp: holds_def set_priv_enabled)
  ultimately show ?thesis by (auto simp: comp_def)
qed

theorem NtAdjustPrivilegesToken_disable_all_witness:
  "\<exists>t' pst' pc' st'. NtAdjustPrivilegesToken (Some sample_token) True None 0 None None
      \<lparr>g_next_luid = 1000, quota_refs = (\<lambda>_. 0)\<rparr> = Some (STATUS_SUCCESS, Some t', pst', pc', st') \<and> token_wf t' \<and>
    map la_Luid (token_privs t') = map la_Luid (token_privs sample_token) \<and> (\<forall>l. \<not> holds t' l)"
  by (rule NtAdjustPrivilegesToken_disable_all) (simp_all add: sample_token_wf pv_ok_def)

text \<open>
  C20: \<open>NtDuplicateToken\<close> copies a well-formed token without faulting: the duplicate has exactly the groups
  and privileges of the source, or exactly the enabled ones when \<open>effective_only\<close> is set, the requested type, and
  the next two ids of the counter, which are different, as \<open>TokenId\<close> and \<open>ModifiedId\<close>, the counter being moved past both; every other field is the
  source's. The quota block of the source, and no other, has one more reference. Without a source or memory
  there is no duplicate and nothing changes.
\<close>

theorem NtDuplicateToken_correct:
  assumes "token_wf ex"
  shows "(\<exists>d st'. NtDuplicateToken True (Some ex) da eff ty st = Some (Some d, st') \<and> token_wf d \<and>
    token_groups d = filter (\<lambda>g. eff \<longrightarrow> grp_enabled g) (token_groups ex) \<and>
    token_privs d = filter (\<lambda>p. eff \<longrightarrow> priv_enabled p) (token_privs ex) \<and>
    d = ex\<lparr>t_GroupCount := t_GroupCount d, t_Groups := t_Groups d, t_PrivilegeCount := t_PrivilegeCount d,
      t_Privileges := t_Privileges d, t_TokenType := ty, t_TokenId := RtlLuidFromValue (g_next_luid st + 1),
      t_ModifiedId := RtlLuidFromValue (g_next_luid st + 2)\<rparr> \<and> t_TokenId d \<noteq> t_ModifiedId d \<and>
    g_next_luid st' = g_next_luid st + 2 \<and>
    (\<forall>q. quota_refs st' q = quota_refs st q + (if t_QuotaBlock ex = Some q then 1 else 0))) \<and>
    NtDuplicateToken False (Some ex) da eff ty st = Some (None, st) \<and> NtDuplicateToken al None da eff ty st = Some (None, st)"
proof -
  have e: "(\<lambda>g. \<not> (eff \<and> sa_Attributes g AND SE_GROUP_ENABLED = 0)) = (\<lambda>g. eff \<longrightarrow> grp_enabled g)"
      "(\<lambda>p. \<not> (eff \<and> la_Attributes p AND SE_PRIVILEGE_ENABLED = 0)) = (\<lambda>p. eff \<longrightarrow> priv_enabled p)"
    by (auto simp: fun_eq_iff grp_enabled_def priv_enabled_def)
  obtain d st' where d: "NtDuplicateToken True (Some ex) da eff ty st = Some (Some d, st')" "token_wf d"
    "token_groups d = filter (\<lambda>g. eff \<longrightarrow> grp_enabled g) (token_groups ex)" "token_privs d = filter (\<lambda>p. eff \<longrightarrow> priv_enabled p) (token_privs ex)"
    "g_next_luid st' = g_next_luid st + 2" "quota_refs st' = quota_refs (quota_block_ref (t_QuotaBlock ex) st)"
    using NtDuplicateToken_eq [OF assms zero_token_wf, where eff = eff and da = da and ty = ty and st = st]
    unfolding e by blast
  have f: "t_TokenId d = RtlLuidFromValue (g_next_luid st + 1)" "t_ModifiedId d = RtlLuidFromValue (g_next_luid st + 2)"
    by (simp_all add: arg_cong [OF NtDuplicateToken_fields [OF d(1)], of t_TokenId] arg_cong [OF NtDuplicateToken_fields [OF d(1)], of t_ModifiedId])
  then have "t_TokenId d \<noteq> t_ModifiedId d" using RtlLuidFromValue_inj [of "g_next_luid st + 1" "g_next_luid st + 2"] by auto
  moreover have "quota_refs st' q = quota_refs st q + (if t_QuotaBlock ex = Some q then 1 else 0)" for q
    using d(6) by (auto simp: quota_block_ref_def split: option.splits)
  moreover have "NtDuplicateToken False (Some ex) da eff ty st = Some (None, st)" "NtDuplicateToken al None da eff ty st = Some (None, st)"
    by (simp_all add: NtDuplicateToken_def)
  ultimately show ?thesis using d(1-5) NtDuplicateToken_fields [OF d(1)] by blast
qed

theorem NtDuplicateToken_correct_witness:
  "\<exists>d st'. NtDuplicateToken True (Some sample_token) 0 True TokenImpersonation
      \<lparr>g_next_luid = 1000, quota_refs = (\<lambda>_. 0)\<rparr> = Some (Some d, st') \<and>
    token_privs d = filter (\<lambda>p. True \<longrightarrow> priv_enabled p) (token_privs sample_token) \<and> g_next_luid st' = 1002"
  using NtDuplicateToken_correct [OF sample_token_wf, where eff = True and da = 0 and ty = TokenImpersonation and al = True and
      st = "\<lparr>g_next_luid = 1000, quota_refs = (\<lambda>_. 0)\<rparr>"]
  by fastforce

lemma token_attach_quota_view:
  assumes "t_UserSid t = Some u" and "2 \<le> length u"
  shows "\<exists>t' st'. token_attach_quota acq t st = Some (t', st') \<and> token_privs t' = token_privs t \<and>
    token_groups t' = token_groups t \<and> token_wf t' = token_wf t \<and>
    t_IntegrityLevelSid t' = t_IntegrityLevelSid t \<and> t_UserSid t' = t_UserSid t \<and>
    t_IsElevated t' = t_IsElevated t"
  using assms
  by (auto simp: token_attach_quota_def RtlLengthSid_eq token_privs_def token_groups_def token_wf_def split_beta)

lemmas priv_luid_defs =
  SeCreateTokenPrivilege_def SeAssignPrimaryTokenPrivilege_def SeLockMemoryPrivilege_def
  SeIncreaseQuotaPrivilege_def SeTcbPrivilege_def SeSecurityPrivilege_def SeTakeOwnershipPrivilege_def
  SeLoadDriverPrivilege_def SeSystemProfilePrivilege_def SeSystemtimePrivilege_def
  SeProfileSingleProcessPrivilege_def SeIncreaseBasePriorityPrivilege_def SeCreatePagefilePrivilege_def
  SeCreatePermanentPrivilege_def SeBackupPrivilege_def SeRestorePrivilege_def SeShutdownPrivilege_def
  SeDebugPrivilege_def SeAuditPrivilege_def SeChangeNotifyPrivilege_def SeUndockPrivilege_def
  SeManageVolumePrivilege_def SeImpersonatePrivilege_def SeCreateGlobalPrivilege_def
  SeCreateSymbolicLinkPrivilege_def mk_luid_def

text \<open>A token whose arrays are still empty, as the creators have it before they add to it.\<close>

definition empty_token :: "ACCESS_TOKEN \<Rightarrow> bool" where
  "empty_token t \<longleftrightarrow> token_wf t \<and> token_privs t = [] \<and> token_groups t = []"

lemma empty_tokenI:
  "t_Privileges t = t_Privileges zero_token \<Longrightarrow> t_PrivilegeCount t = 0 \<Longrightarrow>
   t_Groups t = t_Groups zero_token \<Longrightarrow> t_GroupCount t = 0 \<Longrightarrow> empty_token t"
  using zero_token_wf by (simp add: empty_token_def token_wf_def token_privs_def token_groups_def)

lemma add_group_other [simp]:
  "t_UserSid (token_add_group t s a) = t_UserSid t"
  "t_IntegrityLevelSid (token_add_group t s a) = t_IntegrityLevelSid t"
  "t_IsElevated (token_add_group t s a) = t_IsElevated t"
  by (simp_all add: token_add_group_def)

lemma add_privs_other [simp]:
  "t_UserSid (add_privs a ls t) = t_UserSid t"
  "t_IntegrityLevelSid (add_privs a ls t) = t_IntegrityLevelSid t"
  "t_IsElevated (add_privs a ls t) = t_IsElevated t"
  by (induction ls arbitrary: t) (simp_all add: add_privs_def token_add_priv_def)

lemma enabled_attrs:
  "priv_enabled \<lparr>la_Luid = l, la_Attributes = SE_PRIVILEGE_ENABLED OR SE_PRIVILEGE_ENABLED_BY_DEFAULT\<rparr>"
  "\<not> priv_enabled \<lparr>la_Luid = l, la_Attributes = SE_PRIVILEGE_ENABLED_BY_DEFAULT\<rparr>"
  by (simp_all add: priv_enabled_def SE_PRIVILEGE_ENABLED_def SE_PRIVILEGE_ENABLED_BY_DEFAULT_def)

text \<open>The 24 privileges of the SYSTEM token.\<close>

definition system_privs :: "LUID list" where
  "system_privs =
     [SeCreateTokenPrivilege, SeAssignPrimaryTokenPrivilege, SeLockMemoryPrivilege,
      SeIncreaseQuotaPrivilege, SeTcbPrivilege, SeSecurityPrivilege, SeTakeOwnershipPrivilege,
      SeLoadDriverPrivilege, SeSystemProfilePrivilege, SeSystemtimePrivilege,
      SeProfileSingleProcessPrivilege, SeIncreaseBasePriorityPrivilege, SeCreatePagefilePrivilege,
      SeBackupPrivilege, SeRestorePrivilege, SeShutdownPrivilege, SeDebugPrivilege,
      SeAuditPrivilege, SeChangeNotifyPrivilege, SeUndockPrivilege, SeManageVolumePrivilege,
      SeImpersonatePrivilege, SeCreateGlobalPrivilege, SeCreateSymbolicLinkPrivilege]"

lemma SeLocalSystemSid_length: "2 \<le> length SeLocalSystemSid"
  by (simp add: SeLocalSystemSid_def mk_sid_def)

text \<open>
  The SYSTEM token. When the object body can be allocated, \<open>SeCreateSystemToken\<close> returns a
  well-formed token at system integrity for the local system user that holds, enabled, exactly the 24
  listed privileges; \<open>SeCreatePermanentPrivilege\<close>, a well-known privilege of the kernel's own name
  table, is not among them.
\<close>

theorem SeCreateSystemToken_correct:
  "\<exists>t st'. SeCreateSystemToken True acq st = Some (Some t, st') \<and> token_wf t \<and>
    t_UserSid t = Some SeLocalSystemSid \<and> token_level (Some t) = SECURITY_MANDATORY_SYSTEM_RID \<and>
    (\<forall>l. holds t l \<longleftrightarrow> l \<in> set system_privs) \<and> \<not> holds t SeCreatePermanentPrivilege \<and>
    RtlPrivilegeLuidToName (Some SeCreatePermanentPrivilege) = Some ''SeCreatePermanentPrivilege''"
proof -
  let ?grp = "SE_GROUP_ENABLED OR SE_GROUP_ENABLED_BY_DEFAULT OR SE_GROUP_MANDATORY"
  let ?en = "SE_PRIVILEGE_ENABLED OR SE_PRIVILEGE_ENABLED_BY_DEFAULT"
  define t0 where "t0 = zero_token\<lparr>
          t_UserSid := Some SeLocalSystemSid, t_PrimaryGroup := Some SeBuiltinAdministratorsSid,
          t_DefaultDacl := None, t_TokenType := TokenPrimary,
          t_ImpersonationLevel := SecurityImpersonation, t_TokenId := RtlLuidFromValue (g_next_luid st + 1),
          t_AuthenticationId := mk_luid 999, t_ModifiedId := RtlLuidFromValue (g_next_luid st + 1 + 1), t_SessionId := 0,
          t_IntegrityLevelSid := Some SeILSystem,
          t_IntegrityPolicy := TOKEN_MANDATORY_POLICY_NO_WRITE_UP, t_IsElevated := 1,
          t_LinkedTokenId := mk_luid 0, t_ElevationType := TokenElevationTypeDefault,
          t_RestrictedSids := None, t_RestrictedSidCount := 0, t_Flags := 0\<rparr>"
  define t1 where "t1 = token_add_group t0 SeBuiltinAdministratorsSid (?grp OR SE_GROUP_OWNER)"
  define t2 where "t2 = token_add_group t1 SeWorldSid ?grp"
  define t3 where "t3 = add_privs ?en system_privs t2"
  have e: "empty_token t0" by (rule empty_tokenI) (simp_all add: t0_def zero_token_def)
  have w1: "token_wf t1" "length (token_groups t1) = 1" "token_privs t1 = []"
    using e token_add_group_view [of t0 SeBuiltinAdministratorsSid "?grp OR SE_GROUP_OWNER"]
    by (simp_all add: t1_def empty_token_def TOKEN_MAX_GROUPS_def)
  have w2: "token_wf t2" "token_privs t2 = []"
    using w1 token_add_group_view [of t1 SeWorldSid ?grp] by (simp_all add: t2_def TOKEN_MAX_GROUPS_def)
  have w3: "token_wf t3" "token_privs t3 = map (\<lambda>l. \<lparr>la_Luid = l, la_Attributes = ?en\<rparr>) system_privs"
    using w2 add_privs_view [of t2 system_privs ?en] by (simp_all add: t3_def system_privs_def TOKEN_MAX_PRIVS_def)
  have u3: "t_UserSid t3 = Some SeLocalSystemSid" "t_IntegrityLevelSid t3 = Some SeILSystem"
    by (simp_all add: t3_def t2_def t1_def t0_def)
  obtain t st' where t: "token_attach_quota acq t3 (st\<lparr>g_next_luid := g_next_luid st + 1 + 1\<rparr>) = Some (t, st')"
      "token_privs t = token_privs t3" "token_wf t" "t_UserSid t = Some SeLocalSystemSid"
      "t_IntegrityLevelSid t = Some SeILSystem"
    using token_attach_quota_view [OF u3(1) SeLocalSystemSid_length] w3(1) u3 by metis
  have "SeCreateSystemToken True acq st = Some (Some t, st')"
    using t(1) by (simp add: SeCreateSystemToken_def new_luid_def NtAllocateLocallyUniqueId_def Let_def
        t3_def t2_def t1_def t0_def system_privs_def)
  moreover have h: "holds t l \<longleftrightarrow> l \<in> set system_privs" for l
    by (auto simp: holds_def t(2) w3(2) enabled_attrs)
  moreover have "\<not> holds t SeCreatePermanentPrivilege"
    unfolding h by (simp add: system_privs_def priv_luid_defs)
  moreover have "token_level (Some t) = SECURITY_MANDATORY_SYSTEM_RID"
  proof -
    have "is_label_sid SeILSystem" "sub_authority SeILSystem 0 = SECURITY_MANDATORY_SYSTEM_RID" by code_simp+
    then show ?thesis by (simp add: token_level_def t(5))
  qed
  moreover have "RtlPrivilegeLuidToName (Some SeCreatePermanentPrivilege) = Some ''SeCreatePermanentPrivilege''"
    by code_simp
  ultimately show ?thesis using t(3,4) by blast
qed

end
