(* ===== verification/Bit_Store.thy ===== *)
theory Bit_Store
  imports Kernel_Prelude
begin

text \<open>
  Arrays of 32-bit words used as bit vectors, and the interface of a bit store that the executive's
  \<open>RTL_BITMAP\<close> and the physical memory manager's frame bitmap both provide: one bit is set or
  cleared and every other bit keeps its value. What follows for loops over ranges of bits is proved
  once, from the interface.
\<close>

section \<open>Checked access to word arrays\<close>

definition rdw :: "u32 list \<Rightarrow> nat \<Rightarrow> u32 option" where
  "rdw b i = (if i < length b then Some (b ! i) else None)"

definition wrw :: "u32 list \<Rightarrow> nat \<Rightarrow> u32 \<Rightarrow> u32 list option" where
  "wrw b i v = (if i < length b then Some (b[i := v]) else None)"

text \<open>Bit \<open>j\<close> of the array.\<close>

definition wbit :: "u32 list \<Rightarrow> nat \<Rightarrow> bool" where
  "wbit b j = bit (b ! (j div 32)) (j mod 32)"

lemma rdw_ok: "i < length b \<Longrightarrow> rdw b i = Some (b ! i)"
  by (simp add: rdw_def)

lemma wrw_ok: "i < length b \<Longrightarrow> wrw b i v = Some (b[i := v])"
  by (simp add: wrw_def)

lemma wbit_update:
  "i < length b \<Longrightarrow> wbit (b[i := v]) j = (if j div 32 = i then bit v (j mod 32) else wbit b j)"
  by (simp add: wbit_def nth_list_update)

text \<open>Two arrays with the same bits are the same.\<close>

lemma wbit_eqI:
  assumes "length b = length c" and "\<And>j. j < 32 * length b \<Longrightarrow> wbit b j = wbit c j"
  shows "b = c"
proof (rule nth_equalityI [OF assms(1)])
  fix i assume i: "i < length b"
  show "b ! i = c ! i"
  proof (rule bit_word_eqI)
    fix n assume "n < LENGTH(32)"
    with i assms(2) [of "32 * i + n"] show "bit (b ! i) n = bit (c ! i) n" by (simp add: wbit_def)
  qed
qed

section \<open>Index arithmetic of the C code\<close>

lemma unat_and_31: "unat ((i :: u32) AND 31) = unat i mod 32"
proof -
  have "i AND 31 = take_bit 5 i" by (simp add: take_bit_eq_mask mask_eq_exp_minus_1)
  then have "i AND 31 = i mod 32" by (simp add: take_bit_eq_mod)
  then show ?thesis by (simp add: unat_mod)
qed

lemma unat_div_32: "unat ((i :: u32) div 32) = unat i div 32"
  by (simp add: unat_div)

lemma bit_one_shl: "bit (push_bit k 1 :: u32) n \<longleftrightarrow> n = k \<and> n < 32"
  by (auto simp: bit_exp_iff)

lemma one_shl_minus_1: "(push_bit k 1 - 1 :: u32) = mask k"
  by (simp add: mask_eq_exp_minus_1 push_bit_of_1)

text \<open>\<open>(w >> k) & 1\<close>.\<close>

lemma shr_and_1: "drop_bit k (w :: u32) AND 1 \<noteq> 0 \<longleftrightarrow> bit w k"
  by (simp add: and_one_eq odd_iff_mod_2_eq_one [symmetric] bit_iff_odd_drop_bit)

section \<open>The interface of a bit store\<close>

text \<open>\<open>frame\<close> is what no write to a bit changes; a store is determined by it and by its bits.\<close>

locale bit_store =
  fixes ok :: "'b \<Rightarrow> bool" and sz :: "'b \<Rightarrow> nat" and frame :: "'b \<Rightarrow> 'f"
    and get :: "'b \<Rightarrow> nat \<Rightarrow> bool" and put :: "bool \<Rightarrow> nat \<Rightarrow> 'b \<Rightarrow> 'b option"
  assumes put_ok: "ok b \<Longrightarrow> i < sz b \<Longrightarrow> \<exists>b'. put v i b = Some b' \<and> ok b' \<and> frame b' = frame b \<and> sz b' = sz b \<and>
      (\<forall>j. get b' j = (if j = i then v else get b j))"
    and ext: "ok b \<Longrightarrow> ok c \<Longrightarrow> frame b = frame c \<Longrightarrow> (\<And>j. get b j = get c j) \<Longrightarrow> b = c"
begin

text \<open>A loop that writes one bit after the other writes exactly the bits of its range.\<close>

lemma put_range:
  assumes "ok b" and "i \<le> n" and "n \<le> sz b"
  shows "\<exists>b'. for_upto i n (put v) b = Some b' \<and> ok b' \<and> frame b' = frame b \<and> sz b' = sz b \<and>
    (\<forall>j. get b' j = (if i \<le> j \<and> j < n then v else get b j))"
proof (rule for_upto_inv [where P = "\<lambda>k c. ok c \<and> frame c = frame b \<and> sz c = sz b \<and>
      (\<forall>j. get c j = (if i \<le> j \<and> j < k then v else get b j))"])
  fix k c
  assume k: "i \<le> k" "k < n"
    and c: "ok c \<and> frame c = frame b \<and> sz c = sz b \<and> (\<forall>j. get c j = (if i \<le> j \<and> j < k then v else get b j))"
  with put_ok [of c k v] assms(3) obtain c' where "put v k c = Some c'" "ok c'" "frame c' = frame c" "sz c' = sz c"
      "\<forall>j. get c' j = (if j = k then v else get c j)"
    by auto
  with c k show "\<exists>c'. put v k c = Some c' \<and> ok c' \<and> frame c' = frame b \<and> sz c' = sz b \<and>
      (\<forall>j. get c' j = (if i \<le> j \<and> j < Suc k then v else get b j))"
    by auto
qed (use assms in auto)

text \<open>Whatever else has the effect of that loop on the bits is the loop.\<close>

lemma put_range_unique:
  assumes "ok b" and "i \<le> n" and "n \<le> sz b" and "ok c" and "frame c = frame b"
    and "\<And>j. get c j = (if i \<le> j \<and> j < n then v else get b j)"
  shows "for_upto i n (put v) b = Some c"
proof -
  obtain b' where "for_upto i n (put v) b = Some b'" "ok b'" "frame b' = frame b"
      "\<forall>j. get b' j = (if i \<le> j \<and> j < n then v else get b j)"
    using put_range [OF assms(1-3)] by blast
  then show ?thesis using ext [of b' c] assms(4-6) by simp
qed

text \<open>The set bits, and how writing one bit changes their number.\<close>

definition ones :: "'b \<Rightarrow> nat set" where
  "ones b = {j. j < sz b \<and> get b j}"

lemma finite_ones [simp]: "finite (ones b)"
  by (simp add: ones_def)

lemma put_ones:
  assumes "ok b" and "i < sz b" and "put v i b = Some b'"
  shows "ones b' = (if v then insert i (ones b) else ones b - {i})"
  using put_ok [OF assms(1,2), of v] assms by (auto simp: ones_def split: if_splits)

lemma put_card:
  assumes "ok b" and "i < sz b" and "put v i b = Some b'"
  shows "card (ones b') = (if v then (if get b i then card (ones b) else card (ones b) + 1)
    else (if get b i then card (ones b) - 1 else card (ones b)))"
proof -
  have "i \<in> ones b \<longleftrightarrow> get b i" using assms(2) by (simp add: ones_def)
  then show ?thesis by (auto simp: put_ones [OF assms] card_insert_if insert_absorb)
qed

end

end
