(* ===== verification/Ex_Bitmap.thy ===== *)
theory Ex_Bitmap
  imports Bit_Store
begin

text \<open>
  \<open>src/kernel/ex/ex_bitmap.c\<close>: \<open>RTL_BITMAP\<close>, a bit vector over a caller-owned array of 32-bit words.
  Every access to the array is checked; a function on a \<open>RTL_BITMAP *\<close> takes an optional bitmap and
  the ones that write return it updated.
\<close>

section \<open>The bitmap and its masks\<close>

record RTL_BITMAP =
  SizeOfBitMap :: u32
  Buffer :: "u32 list option"

definition BPW :: u32 where "BPW = 32"

definition RTL_BITMAP_NOT_FOUND :: u32 where "RTL_BITMAP_NOT_FOUND = 0xFFFFFFFF"

definition RTL_BITMAP_WORDS :: "u32 \<Rightarrow> u32" where
  "RTL_BITMAP_WORDS bits = bits div BPW + (if bits AND (BPW - 1) \<noteq> 0 then 1 else 0)"

definition word_count :: "u32 \<Rightarrow> u32" where
  "word_count n = RTL_BITMAP_WORDS n"

definition tail_mask :: "u32 \<Rightarrow> u32" where
  "tail_mask n = (let r = n AND (BPW - 1) in if r \<noteq> 0 then push_bit (unat r) 1 - 1 else 0xFFFFFFFF)"

definition range_mask :: "u32 \<Rightarrow> u32 \<Rightarrow> u32" where
  "range_mask lo hi =
     (let low = (if lo = 0 then 0xFFFFFFFF else NOT (push_bit (unat lo) 1 - 1));
          high = (if hi \<ge> 31 then 0xFFFFFFFF else push_bit (unat (hi + 1)) 1 - 1)
      in low AND high)"

text \<open>First word and bit, last word and bit of a non-empty request inside the bitmap.\<close>

definition valid_range :: "RTL_BITMAP \<Rightarrow> u32 \<Rightarrow> u32 \<Rightarrow> (u32 \<times> u32 \<times> u32 \<times> u32) option" where
  "valid_range bm start count =
     (if count = 0 \<or> start \<ge> SizeOfBitMap bm \<or> count > SizeOfBitMap bm - start then None
      else let last = start + count - 1 in
        Some (start div BPW, start AND (BPW - 1), last div BPW, last AND (BPW - 1)))"

section \<open>Writing\<close>

definition RtlInitializeBitMap :: "RTL_BITMAP option \<Rightarrow> u32 list option \<Rightarrow> u32 \<Rightarrow> RTL_BITMAP option" where
  "RtlInitializeBitMap bm buffer size_bits =
     map_option (\<lambda>b. b\<lparr>SizeOfBitMap := size_bits, Buffer := buffer\<rparr>) bm"

text \<open>The guard \<open>if (!bm || !bm->Buffer) return\<close> that opens the writers.\<close>

definition with_buffer :: "(RTL_BITMAP \<Rightarrow> u32 list \<Rightarrow> u32 list option) \<Rightarrow> RTL_BITMAP option \<Rightarrow> RTL_BITMAP option option" where
  "with_buffer f bm =
     (case bm of
        None \<Rightarrow> Some None
      | Some b \<Rightarrow> (case Buffer b of
                    None \<Rightarrow> Some bm
                  | Some buf \<Rightarrow> map_option (\<lambda>c. Some (b\<lparr>Buffer := Some c\<rparr>)) (f b buf)))"

definition RtlClearAllBits :: "RTL_BITMAP option \<Rightarrow> RTL_BITMAP option option" where
  "RtlClearAllBits = with_buffer (\<lambda>b buf.
     let n = unat (word_count (SizeOfBitMap b)) in
     if n \<le> length buf then Some (replicate n 0 @ drop n buf) else None)"

definition RtlSetAllBits :: "RTL_BITMAP option \<Rightarrow> RTL_BITMAP option option" where
  "RtlSetAllBits = with_buffer (\<lambda>b buf.
     if SizeOfBitMap b = 0 then Some buf
     else let wc = word_count (SizeOfBitMap b) in do {
       buf \<leftarrow> for_upto 0 (unat wc - 1) (\<lambda>i c. wrw c i 0xFFFFFFFF) buf;
       wrw buf (unat (wc - 1)) (tail_mask (SizeOfBitMap b)) })"

definition RtlSetBit :: "RTL_BITMAP option \<Rightarrow> u32 \<Rightarrow> RTL_BITMAP option option" where
  "RtlSetBit bm i = with_buffer (\<lambda>b buf.
     if i \<ge> SizeOfBitMap b then Some buf
     else do { w \<leftarrow> rdw buf (unat (i div BPW)); wrw buf (unat (i div BPW)) (w OR push_bit (unat (i AND (BPW - 1))) 1) }) bm"

definition RtlClearBit :: "RTL_BITMAP option \<Rightarrow> u32 \<Rightarrow> RTL_BITMAP option option" where
  "RtlClearBit bm i = with_buffer (\<lambda>b buf.
     if i \<ge> SizeOfBitMap b then Some buf
     else do { w \<leftarrow> rdw buf (unat (i div BPW)); wrw buf (unat (i div BPW)) (w AND NOT (push_bit (unat (i AND (BPW - 1))) 1)) }) bm"

definition RtlSetBits :: "RTL_BITMAP option \<Rightarrow> u32 \<Rightarrow> u32 \<Rightarrow> RTL_BITMAP option option" where
  "RtlSetBits bm start count = with_buffer (\<lambda>b buf.
     case valid_range b start count of
       None \<Rightarrow> Some buf
     | Some (fw, fb, lw, lb) \<Rightarrow>
         if fw = lw then do { w \<leftarrow> rdw buf (unat fw); wrw buf (unat fw) (w OR range_mask fb lb) }
         else do {
           w \<leftarrow> rdw buf (unat fw);
           buf \<leftarrow> wrw buf (unat fw) (w OR range_mask fb (BPW - 1));
           buf \<leftarrow> for_upto (unat fw + 1) (unat lw) (\<lambda>i c. wrw c i 0xFFFFFFFF) buf;
           w \<leftarrow> rdw buf (unat lw);
           wrw buf (unat lw) (w OR range_mask 0 lb) }) bm"

definition RtlClearBits :: "RTL_BITMAP option \<Rightarrow> u32 \<Rightarrow> u32 \<Rightarrow> RTL_BITMAP option option" where
  "RtlClearBits bm start count = with_buffer (\<lambda>b buf.
     case valid_range b start count of
       None \<Rightarrow> Some buf
     | Some (fw, fb, lw, lb) \<Rightarrow>
         if fw = lw then do { w \<leftarrow> rdw buf (unat fw); wrw buf (unat fw) (w AND NOT (range_mask fb lb)) }
         else do {
           w \<leftarrow> rdw buf (unat fw);
           buf \<leftarrow> wrw buf (unat fw) (w AND NOT (range_mask fb (BPW - 1)));
           buf \<leftarrow> for_upto (unat fw + 1) (unat lw) (\<lambda>i c. wrw c i 0) buf;
           w \<leftarrow> rdw buf (unat lw);
           wrw buf (unat lw) (w AND NOT (range_mask 0 lb)) }) bm"

section \<open>Reading\<close>

text \<open>Readers of a null bitmap or a bitmap without a buffer return a fixed value.\<close>

definition read_buffer :: "'a \<Rightarrow> (RTL_BITMAP \<Rightarrow> u32 list \<Rightarrow> 'a option) \<Rightarrow> RTL_BITMAP option \<Rightarrow> 'a option" where
  "read_buffer d f bm =
     (case bm of None \<Rightarrow> Some d | Some b \<Rightarrow> (case Buffer b of None \<Rightarrow> Some d | Some buf \<Rightarrow> f b buf))"

definition bit_at :: "u32 list \<Rightarrow> u32 \<Rightarrow> bool option" where
  "bit_at buf i = do { w \<leftarrow> rdw buf (unat (i div BPW)); Some (drop_bit (unat (i AND (BPW - 1))) w AND 1 \<noteq> 0) }"

definition RtlTestBit :: "RTL_BITMAP option \<Rightarrow> u32 \<Rightarrow> bool option" where
  "RtlTestBit bm i = read_buffer False (\<lambda>b buf. if i \<ge> SizeOfBitMap b then Some False else bit_at buf i) bm"

text \<open>The early exits of the loop over the inner words of a range, as a loop on a flag.\<close>

definition inner_words :: "bool \<Rightarrow> u32 list \<Rightarrow> nat \<Rightarrow> nat \<Rightarrow> bool option" where
  "inner_words want_set buf i n =
     for_upto i n (\<lambda>k r. if \<not> r then Some r
       else do { w \<leftarrow> rdw buf k; Some (if want_set then w = 0xFFFFFFFF else w = 0) }) True"

definition masked_ok :: "bool \<Rightarrow> u32 \<Rightarrow> u32 \<Rightarrow> bool" where
  "masked_ok want_set w m = (if want_set then w AND m = m else w AND m = 0)"

definition are_bits :: "RTL_BITMAP option \<Rightarrow> u32 \<Rightarrow> u32 \<Rightarrow> bool \<Rightarrow> bool option" where
  "are_bits bm start count want_set = read_buffer False (\<lambda>b buf.
     if count = 0 then Some True
     else if start \<ge> SizeOfBitMap b \<or> count > SizeOfBitMap b - start then Some False
     else
       let fw = start div BPW; fb = start AND (BPW - 1);
           lw = (start + count - 1) div BPW; lb = (start + count - 1) AND (BPW - 1) in
       if fw = lw then do { w \<leftarrow> rdw buf (unat fw); Some (masked_ok want_set w (range_mask fb lb)) }
       else do {
         w \<leftarrow> rdw buf (unat fw);
         if \<not> masked_ok want_set w (range_mask fb (BPW - 1)) then Some False
         else do {
           r \<leftarrow> inner_words want_set buf (unat fw + 1) (unat lw);
           if \<not> r then Some False
           else do { w \<leftarrow> rdw buf (unat lw); Some (masked_ok want_set w (range_mask 0 lb)) } } }) bm"

definition RtlAreBitsSet :: "RTL_BITMAP option \<Rightarrow> u32 \<Rightarrow> u32 \<Rightarrow> bool option" where
  "RtlAreBitsSet bm start count = are_bits bm start count True"

definition RtlAreBitsClear :: "RTL_BITMAP option \<Rightarrow> u32 \<Rightarrow> u32 \<Rightarrow> bool option" where
  "RtlAreBitsClear bm start count = are_bits bm start count False"

text \<open>\<open>__builtin_popcount\<close>.\<close>

definition popcount :: "u32 \<Rightarrow> u32" where
  "popcount w = of_nat (length (filter (bit w) [0..<32]))"

definition RtlNumberOfSetBits :: "RTL_BITMAP option \<Rightarrow> u32 option" where
  "RtlNumberOfSetBits = read_buffer 0 (\<lambda>b buf.
     if SizeOfBitMap b = 0 then Some 0
     else let wc = word_count (SizeOfBitMap b) in do {
       n \<leftarrow> for_upto 0 (unat wc - 1) (\<lambda>i n. do { w \<leftarrow> rdw buf i; Some (n + popcount w) }) 0;
       w \<leftarrow> rdw buf (unat (wc - 1));
       Some (n + popcount (w AND tail_mask (SizeOfBitMap b))) })"

definition RtlNumberOfClearBits :: "RTL_BITMAP option \<Rightarrow> u32 option" where
  "RtlNumberOfClearBits bm =
     (case bm of None \<Rightarrow> Some 0
      | Some b \<Rightarrow> do { n \<leftarrow> RtlNumberOfSetBits bm; Some (SizeOfBitMap b - n) })"

section \<open>Searching\<close>

lemma unat_step:
  "(i :: u32) < n \<Longrightarrow> unat (i + 1) = unat i + 1"
  "(i :: u32) < n \<Longrightarrow> n - i \<ge> BPW \<Longrightarrow> unat (i + BPW) = unat i + 32 \<and> unat i + 32 \<le> unat n"
proof -
  show "i < n \<Longrightarrow> unat (i + 1) = unat i + 1"
    using unat_u32_less [of n] by (simp add: word_less_nat_alt unat_word_ariths)
  assume "i < n" "n - i \<ge> BPW"
  then have "unat i + 32 \<le> unat n" by (simp add: BPW_def word_le_nat_alt word_less_nat_alt unat_sub)
  then show "unat (i + BPW) = unat i + 32 \<and> unat i + 32 \<le> unat n"
    using unat_u32_less [of n] by (simp add: BPW_def unat_word_ariths)
qed

text \<open>The \<open>while (i < size)\<close> loop of \<open>find_run\<close>.\<close>

function find_run_loop :: "u32 list \<Rightarrow> u32 \<Rightarrow> u32 \<Rightarrow> u32 \<Rightarrow> bool \<Rightarrow> u32 \<Rightarrow> u32 \<Rightarrow> u32 \<Rightarrow> u32 option" where
  "find_run_loop buf sz count max_start want_set i run run_start =
     (if \<not> i < sz then Some RTL_BITMAP_NOT_FOUND
      else if run = 0 \<and> i \<ge> max_start then Some RTL_BITMAP_NOT_FOUND
      else if i AND (BPW - 1) = 0 \<and> sz - i \<ge> BPW \<and> rdw buf (unat (i div BPW)) = None then None
      else if i AND (BPW - 1) = 0 \<and> sz - i \<ge> BPW \<and>
              rdw buf (unat (i div BPW)) = Some (if want_set then 0 else 0xFFFFFFFF) then
        find_run_loop buf sz count max_start want_set (i + BPW) 0 run_start
      else if i AND (BPW - 1) = 0 \<and> sz - i \<ge> BPW \<and>
              rdw buf (unat (i div BPW)) = Some (if want_set then 0xFFFFFFFF else 0) then
        (let run_start = (if run = 0 then i else run_start) in
         if run + BPW \<ge> count
         then Some (if run_start < max_start then run_start else RTL_BITMAP_NOT_FOUND)
         else find_run_loop buf sz count max_start want_set (i + BPW) (run + BPW) run_start)
      else case bit_at buf i of
        None \<Rightarrow> None
      | Some b \<Rightarrow>
          if b = want_set then
            (let run_start = (if run = 0 then i else run_start) in
             if run + 1 = count
             then Some (if run_start < max_start then run_start else RTL_BITMAP_NOT_FOUND)
             else find_run_loop buf sz count max_start want_set (i + 1) (run + 1) run_start)
          else find_run_loop buf sz count max_start want_set (i + 1) 0 run_start)"
  by pat_completeness auto

termination
  by (relation "measure (\<lambda>(buf, sz, count, mx, want, i, run, rs). unat sz - unat i)")
    (auto simp: unat_step word_less_nat_alt dest: unat_step(2))

declare find_run_loop.simps [simp del]

definition find_run :: "RTL_BITMAP \<Rightarrow> u32 list \<Rightarrow> u32 \<Rightarrow> u32 \<Rightarrow> u32 \<Rightarrow> bool \<Rightarrow> u32 option" where
  "find_run b buf count frm max_start want_set =
     (if count > SizeOfBitMap b \<or> frm \<ge> SizeOfBitMap b then Some RTL_BITMAP_NOT_FOUND
      else find_run_loop buf (SizeOfBitMap b) count max_start want_set frm 0 frm)"

definition find_bits :: "RTL_BITMAP option \<Rightarrow> u32 \<Rightarrow> u32 \<Rightarrow> bool \<Rightarrow> u32 option" where
  "find_bits bm count hint want_set = read_buffer RTL_BITMAP_NOT_FOUND (\<lambda>b buf.
     if count = 0 then Some (if hint \<le> SizeOfBitMap b then hint else SizeOfBitMap b)
     else let h = (if hint < SizeOfBitMap b then hint else 0) in do {
       r \<leftarrow> find_run b buf count h (SizeOfBitMap b) want_set;
       if r \<noteq> RTL_BITMAP_NOT_FOUND \<or> h = 0 then Some r
       else find_run b buf count 0 h want_set }) bm"

definition RtlFindClearBits :: "RTL_BITMAP option \<Rightarrow> u32 \<Rightarrow> u32 \<Rightarrow> u32 option" where
  "RtlFindClearBits bm count hint = find_bits bm count hint False"

definition RtlFindSetBits :: "RTL_BITMAP option \<Rightarrow> u32 \<Rightarrow> u32 \<Rightarrow> u32 option" where
  "RtlFindSetBits bm count hint = find_bits bm count hint True"

definition RtlFindClearBitsAndSet :: "RTL_BITMAP option \<Rightarrow> u32 \<Rightarrow> u32 \<Rightarrow> (u32 \<times> RTL_BITMAP option) option" where
  "RtlFindClearBitsAndSet bm count hint = do {
     r \<leftarrow> find_bits bm count hint False;
     bm' \<leftarrow> (if r \<noteq> RTL_BITMAP_NOT_FOUND \<and> count \<noteq> 0 then RtlSetBits bm r count else Some bm);
     Some (r, bm') }"

definition RtlFindSetBitsAndClear :: "RTL_BITMAP option \<Rightarrow> u32 \<Rightarrow> u32 \<Rightarrow> (u32 \<times> RTL_BITMAP option) option" where
  "RtlFindSetBitsAndClear bm count hint = do {
     r \<leftarrow> find_bits bm count hint True;
     bm' \<leftarrow> (if r \<noteq> RTL_BITMAP_NOT_FOUND \<and> count \<noteq> 0 then RtlClearBits bm r count else Some bm);
     Some (r, bm') }"

end
