(* ===== verification/Ex_Bitmap_Facts.thy ===== *)
theory Ex_Bitmap_Facts
  imports Ex_Bitmap
begin

text \<open>
  What the operations of \<open>RTL_BITMAP\<close> do to the bits: the masks, the single-bit writes as a
  \<open>bit_store\<close>, the word-wise range operations as loops of single-bit writes, the counts, and the
  search for runs.
\<close>

section \<open>Masks\<close>

lemma div_round_up: "(n + 31) div 32 = n div 32 + (if n mod 32 = 0 then 0 else (1 :: nat))"
proof -
  have n: "(n + 31) div 32 = n div 32 + (n mod 32 + 31) div 32"
    using div_mult_self1 [of 32 "n mod 32 + 31" "n div 32"] by (simp add: add.assoc [symmetric])
  have "(n mod 32 + 31) div 32 = 1" if "n mod 32 \<noteq> 0" using that by (intro div_nat_eqI) auto
  with n show ?thesis by simp
qed

lemma div_less_words: "j < n \<Longrightarrow> j div 32 < (n + 31) div (32 :: nat)"
  using div_le_mono [of "j + 32" "n + 31" 32] by simp

lemma unat_low_bits: "unat (n AND (BPW - 1)) = unat n mod 32"
  by (simp add: BPW_def unat_and_31)

lemma unat_div_BPW: "unat (n div BPW) = unat n div 32"
  by (simp add: BPW_def unat_div_32)

lemma low_bits_zero: "n AND (BPW - 1) = 0 \<longleftrightarrow> unat n mod 32 = 0"
  unfolding unat_low_bits [symmetric] by (simp only: unat_eq_zero)

lemma unat_words: "unat (RTL_BITMAP_WORDS n) = (unat n + 31) div 32"
proof -
  have "unat n div 32 + 1 < 2 ^ 32" using unat_u32_less [of n] by simp
  then have "unat (n div BPW + 1) = unat n div 32 + 1" unfolding BPW_def by (simp add: unat_word_ariths(1) unat_div_32)
  then show ?thesis
    unfolding RTL_BITMAP_WORDS_def low_bits_zero div_round_up by (simp add: BPW_def unat_div_32)
qed

lemma ones_mask: "(0xFFFFFFFF :: u32) = mask 32"
  by (simp add: mask_eq_exp_minus_1)

lemma bit_ones: "bit (0xFFFFFFFF :: u32) n \<longleftrightarrow> n < 32"
  unfolding ones_mask by (simp add: bit_mask_iff)

lemma bit_tail_mask: "bit (tail_mask n) k \<longleftrightarrow> k < 32 \<and> (unat n mod 32 = 0 \<or> k < unat n mod 32)"
  unfolding tail_mask_def Let_def low_bits_zero unat_low_bits one_shl_minus_1 ones_mask by (simp add: bit_mask_iff)

lemma bit_range_mask:
  assumes "unat hi < 32"
  shows "bit (range_mask lo hi) k \<longleftrightarrow> k < 32 \<and> unat lo \<le> k \<and> k \<le> unat hi"
proof -
  have h: "hi \<ge> 31 \<longleftrightarrow> unat hi = 31" using assms by (auto simp: word_le_nat_alt)
  have h1: "unat (hi + 1) = unat hi + 1" using assms by (simp add: unat_word_ariths)
  have l: "lo = 0 \<longleftrightarrow> unat lo = 0" by (simp add: unat_eq_zero)
  show ?thesis
    unfolding range_mask_def Let_def h h1 l one_shl_minus_1 ones_mask
    by (auto simp: bit_and_iff bit_not_iff bit_mask_iff)
qed

section \<open>Well-formed bitmaps\<close>

text \<open>The buffer holds the words that the size asks for.\<close>

definition bm_ok :: "RTL_BITMAP \<Rightarrow> bool" where
  "bm_ok b \<longleftrightarrow> (case Buffer b of None \<Rightarrow> False | Some buf \<Rightarrow> unat (RTL_BITMAP_WORDS (SizeOfBitMap b)) \<le> length buf)"

definition bm_size :: "RTL_BITMAP \<Rightarrow> nat" where
  "bm_size b = unat (SizeOfBitMap b)"

definition bm_get :: "RTL_BITMAP \<Rightarrow> nat \<Rightarrow> bool" where
  "bm_get b j = wbit (the (Buffer b)) j"

definition bm_frame :: "RTL_BITMAP \<Rightarrow> u32 \<times> nat" where
  "bm_frame b = (SizeOfBitMap b, length (the (Buffer b)))"

lemma bm_okE:
  assumes "bm_ok b"
  obtains buf where "Buffer b = Some buf" and "\<And>j. j < bm_size b \<Longrightarrow> j div 32 < length buf"
proof -
  obtain buf where "Buffer b = Some buf" "(bm_size b + 31) div 32 \<le> length buf"
    using assms by (auto simp: bm_ok_def unat_words bm_size_def split: option.splits)
  then show thesis using that div_less_words by (metis order.strict_trans2)
qed

lemma with_buffer_ok:
  "Buffer b = Some buf \<Longrightarrow> f b buf = Some c \<Longrightarrow> with_buffer f (Some b) = Some (Some (b\<lparr>Buffer := Some c\<rparr>))"
  by (simp add: with_buffer_def)

lemma bm_upd:
  assumes "bm_ok b" and "Buffer b = Some buf" and "length c = length buf"
  shows "bm_ok (b\<lparr>Buffer := Some c\<rparr>)" and "bm_frame (b\<lparr>Buffer := Some c\<rparr>) = bm_frame b"
    and "bm_size (b\<lparr>Buffer := Some c\<rparr>) = bm_size b" and "bm_get (b\<lparr>Buffer := Some c\<rparr>) j = wbit c j"
  using assms by (simp_all add: bm_ok_def bm_frame_def bm_size_def bm_get_def)

lemma bm_ext:
  assumes "bm_ok b" and "bm_ok c" and "bm_frame b = bm_frame c" and "\<And>j. bm_get b j = bm_get c j"
  shows "b = c"
proof -
  obtain x y where xy: "Buffer b = Some x" "Buffer c = Some y" using assms(1,2) by (auto simp: bm_ok_def split: option.splits)
  with assms(3,4) have "x = y" by (intro wbit_eqI) (auto simp: bm_frame_def bm_get_def)
  with xy assms(3) show ?thesis by (simp add: bm_frame_def)
qed

section \<open>Single bits\<close>

text \<open>\<open>RtlSetBit\<close> and \<open>RtlClearBit\<close> on a bitmap that is not null.\<close>

definition bm_put :: "bool \<Rightarrow> nat \<Rightarrow> RTL_BITMAP \<Rightarrow> RTL_BITMAP option" where
  "bm_put v i b = Option.bind ((if v then RtlSetBit else RtlClearBit) (Some b) (of_nat i)) id"

lemma write_bit:
  assumes "bm_ok b" and "i < SizeOfBitMap b"
  shows "\<exists>b'. (if v then RtlSetBit else RtlClearBit) (Some b) i = Some (Some b') \<and> bm_ok b' \<and> bm_frame b' = bm_frame b \<and>
    bm_size b' = bm_size b \<and> (\<forall>j. bm_get b' j = (if j = unat i then v else bm_get b j))"
proof -
  obtain buf where buf: "Buffer b = Some buf" "\<And>j. j < bm_size b \<Longrightarrow> j div 32 < length buf" using bm_okE [OF assms(1)] by metis
  have d: "unat i div 32 < length buf" using buf(2) assms(2) by (simp add: bm_size_def word_less_nat_alt)
  let ?w = "buf ! (unat i div 32)" and ?m = "push_bit (unat i mod 32) 1 :: u32"
  let ?c = "buf[unat i div 32 := (if v then ?w OR ?m else ?w AND NOT ?m)]"
  have eq: "j div 32 = unat i div 32 \<and> j mod 32 = unat i mod 32 \<longleftrightarrow> j = unat i" for j
    by (metis div_mult_mod_eq)
  have bits: "wbit ?c j = (if j = unat i then v else wbit buf j)" for j
    using eq [of j] unfolding wbit_update [OF d] by (auto simp: wbit_def bit_or_iff bit_and_iff bit_not_iff bit_one_shl
        simp del: push_bit_of_1)
  have "(if v then RtlSetBit else RtlClearBit) (Some b) i = Some (Some (b\<lparr>Buffer := Some ?c\<rparr>))"
    using assms(2) d buf(1)
    by (auto simp: RtlSetBit_def RtlClearBit_def with_buffer_def BPW_def unat_div_32 unat_and_31 rdw_ok wrw_ok not_le
        simp del: push_bit_of_1)
  then show ?thesis
    using bits bm_upd [OF assms(1) buf(1), of ?c] buf(1) by (auto simp: bm_get_def)
qed

interpretation rtl: bit_store bm_ok bm_size bm_frame bm_get bm_put
proof
  fix b i v assume "bm_ok b" "i < bm_size b"
  moreover from this have "unat (of_nat i :: u32) = i"
    using unat_u32_less [of "SizeOfBitMap b"] by (intro unat_of_nat_u32) (simp add: bm_size_def)
  ultimately show "\<exists>b'. bm_put v i b = Some b' \<and> bm_ok b' \<and> bm_frame b' = bm_frame b \<and> bm_size b' = bm_size b \<and>
      (\<forall>j. bm_get b' j = (if j = i then v else bm_get b j))"
    using write_bit [of b "of_nat i" v] by (fastforce simp: bm_put_def bm_size_def word_less_nat_alt)
qed (rule bm_ext)

lemma bit_at_eq: "unat i div 32 < length buf \<Longrightarrow> bit_at buf i = Some (wbit buf (unat i))"
  unfolding bit_at_def BPW_def by (simp add: unat_div_32 unat_and_31 rdw_ok shr_and_1 wbit_def)

section \<open>Ranges\<close>

lemma le_word_order: "S \<le> j \<longleftrightarrow> S div 32 < j div 32 \<or> S div 32 = j div 32 \<and> S mod 32 \<le> j mod (32 :: nat)"
proof (cases "S div 32 = j div 32")
  case True
  then show ?thesis
    using div_mult_mod_eq [of S 32] div_mult_mod_eq [of j 32] by linarith
next
  case False
  then show ?thesis by (metis div_le_mono le_neq_implies_less linorder_not_less nat_less_le)
qed

text \<open>Writing \<open>v\<close> under a mask, and the words of a range that are written whole.\<close>

definition fill :: "bool \<Rightarrow> u32 \<Rightarrow> u32 \<Rightarrow> u32" where
  "fill v w m = (if v then w OR m else w AND NOT m)"

definition whole :: "bool \<Rightarrow> u32" where
  "whole v = (if v then 0xFFFFFFFF else 0)"

lemma bit_fill: "bit (fill v w m) k = (if bit m k then v else bit w k)"
  by (auto simp: fill_def bit_or_iff bit_and_iff bit_not_iff dest: bit_imp_le_length)

lemma bit_whole: "k < 32 \<Longrightarrow> bit (whole v) k = v"
  unfolding whole_def by (cases v) (simp_all only: if_True if_False bit_ones bit_0_eq bot_apply bot_bool_def)

definition range_write :: "bool \<Rightarrow> u32 list \<Rightarrow> u32 \<times> u32 \<times> u32 \<times> u32 \<Rightarrow> u32 list option" where
  "range_write v buf r = (case r of (fw, fb, lw, lb) \<Rightarrow>
     if fw = lw then do { w \<leftarrow> rdw buf (unat fw); wrw buf (unat fw) (fill v w (range_mask fb lb)) }
     else do {
       w \<leftarrow> rdw buf (unat fw);
       buf \<leftarrow> wrw buf (unat fw) (fill v w (range_mask fb (BPW - 1)));
       buf \<leftarrow> for_upto (unat fw + 1) (unat lw) (\<lambda>i c. wrw c i (whole v)) buf;
       w \<leftarrow> rdw buf (unat lw);
       wrw buf (unat lw) (fill v w (range_mask 0 lb)) })"

lemma range_ops_write:
  "RtlSetBits bm start count = with_buffer (\<lambda>b buf.
     case valid_range b start count of None \<Rightarrow> Some buf | Some r \<Rightarrow> range_write True buf r) bm"
  "RtlClearBits bm start count = with_buffer (\<lambda>b buf.
     case valid_range b start count of None \<Rightarrow> Some buf | Some r \<Rightarrow> range_write False buf r) bm"
  unfolding RtlSetBits_def RtlClearBits_def range_write_def fill_def whole_def if_True if_False by (rule refl)+

lemma fill_words:
  assumes "F \<le> G" and "G \<le> length buf"
  shows "\<exists>c. for_upto F G (\<lambda>i c. wrw c i x) buf = Some c \<and> length c = length buf \<and>
    (\<forall>k. c ! k = (if F \<le> k \<and> k < G then x else buf ! k))"
proof (rule for_upto_inv [where P = "\<lambda>i c. length c = length buf \<and> (\<forall>k. c ! k = (if F \<le> k \<and> k < i then x else buf ! k))"])
  fix k t
  assume "F \<le> k" "k < G" "length t = length buf \<and> (\<forall>j. t ! j = (if F \<le> j \<and> j < k then x else buf ! j))"
  with assms(2) show "\<exists>t'. wrw t k x = Some t' \<and> length t' = length buf \<and>
      (\<forall>j. t' ! j = (if F \<le> j \<and> j < Suc k then x else buf ! j))"
    by (auto simp: wrw_ok nth_list_update)
qed (use assms in auto)

lemma range_write_bits:
  assumes "S \<le> L" and "L div 32 < length buf" and "unat fw = S div 32" and "unat fb = S mod 32"
    and "unat lw = L div 32" and "unat lb = L mod 32"
  shows "\<exists>c. range_write v buf (fw, fb, lw, lb) = Some c \<and> length c = length buf \<and>
    (\<forall>j. wbit c j = (if S \<le> j \<and> j \<le> L then v else wbit buf j))"
proof (cases "S div 32 = L div 32")
  case True
  let ?c = "buf[S div 32 := fill v (buf ! (S div 32)) (range_mask fb lb)]"
  have "fw = lw" using True assms(3,5) by (simp add: word_unat_eq_iff)
  then have "range_write v buf (fw, fb, lw, lb) = Some ?c"
    using True assms(2,3) by (simp add: range_write_def rdw_ok wrw_ok)
  moreover have "wbit ?c j = (if S \<le> j \<and> j \<le> L then v else wbit buf j)" for j
    unfolding wbit_update [OF assms(2) [folded True]] bit_fill le_word_order [of S j] le_word_order [of j L]
    using True assms(4,6) by (auto simp: bit_range_mask wbit_def)
  ultimately show ?thesis by auto
next
  case False
  let ?F = "S div 32" and ?G = "L div 32"
  have FG: "?F < ?G" using False assms(1) by (meson div_le_mono le_neq_implies_less)
  then have ne: "fw \<noteq> lw" using assms(3,5) by auto
  let ?c1 = "buf[?F := fill v (buf ! ?F) (range_mask fb (BPW - 1))]"
  have F: "?F < length buf" using FG assms(2) by simp
  obtain c2 where c2: "for_upto (?F + 1) ?G (\<lambda>i c. wrw c i (whole v)) ?c1 = Some c2" "length c2 = length buf"
      "\<forall>k. c2 ! k = (if ?F + 1 \<le> k \<and> k < ?G then whole v else ?c1 ! k)"
    using fill_words [of "?F + 1" ?G ?c1 "whole v"] FG assms(2) by auto
  let ?c3 = "c2[?G := fill v (c2 ! ?G) (range_mask 0 lb)]"
  have r: "range_write v buf (fw, fb, lw, lb) = Some ?c3"
    using ne F c2(1,2) assms(2,3,5) by (simp add: range_write_def rdw_ok wrw_ok)
  have "wbit ?c3 j = (if S \<le> j \<and> j \<le> L then v else wbit buf j)" for j
  proof -
    have G: "?G < length c2" using assms(2) c2(2) by simp
    have cg: "c2 ! ?G = buf ! ?G" using c2(3) FG by simp
    have b31: "unat (BPW - 1) = 31" by (simp add: BPW_def)
    consider "j div 32 < ?F" | "j div 32 = ?F" | "?F < j div 32" "j div 32 < ?G" | "j div 32 = ?G" | "?G < j div 32" by linarith
    then show ?thesis
      unfolding wbit_update [OF G] bit_fill le_word_order [of S j] le_word_order [of j L]
      by cases (use FG F c2(3) cg assms(4,6) b31 in
        \<open>auto simp: wbit_def bit_fill bit_range_mask bit_whole nth_list_update\<close>)
  qed
  with r c2(2) show ?thesis by auto
qed

text \<open>The requests the range operations accept: not empty and entirely inside.\<close>

definition in_range :: "RTL_BITMAP \<Rightarrow> u32 \<Rightarrow> u32 \<Rightarrow> bool" where
  "in_range b start count \<longleftrightarrow> count \<noteq> 0 \<and> unat start + unat count \<le> bm_size b"

lemma range_guard:
  "start \<ge> n \<or> count > n - start \<longleftrightarrow> unat (n :: u32) < unat start + unat count \<or> unat n \<le> unat start"
proof (cases "start \<ge> n")
  case False
  then have "unat (n - start) = unat n - unat start" by (simp add: unat_sub word_le_nat_alt)
  with False show ?thesis by (auto simp: word_le_nat_alt word_less_nat_alt)
qed (simp add: word_le_nat_alt)

lemma not_in_range: "in_range b start count \<longleftrightarrow>
    \<not> (count = 0 \<or> start \<ge> SizeOfBitMap b \<or> count > SizeOfBitMap b - start)"
  unfolding range_guard using unat_gt_0 [of count] by (auto simp: in_range_def bm_size_def)

lemma unat_last:
  assumes "in_range b start count"
  shows "unat (start + count - 1) = unat start + unat count - 1"
proof -
  have n: "1 \<le> unat count" "unat start + unat count < 2 ^ 32"
    using assms unat_u32_less [of "SizeOfBitMap b"] by (auto simp: in_range_def bm_size_def Suc_le_eq unat_gt_0)
  then have "unat (start + count) = unat start + unat count" by (simp add: unat_word_ariths(1))
  then show ?thesis using n by (subst unat_sub) (auto simp: word_le_nat_alt)
qed

lemma valid_range_eq:
  "valid_range b start count = (if in_range b start count then
     Some (start div BPW, start AND (BPW - 1), (start + count - 1) div BPW, (start + count - 1) AND (BPW - 1)) else None)"
  unfolding not_in_range by (simp add: valid_range_def Let_def)

lemma write_range:
  assumes "bm_ok b" and "in_range b start count"
  shows "\<exists>b'. (if v then RtlSetBits else RtlClearBits) (Some b) start count = Some (Some b') \<and> bm_ok b' \<and>
    bm_frame b' = bm_frame b \<and>
    (\<forall>j. bm_get b' j = (if unat start \<le> j \<and> j < unat start + unat count then v else bm_get b j))"
proof -
  obtain buf where buf: "Buffer b = Some buf" "\<And>j. j < bm_size b \<Longrightarrow> j div 32 < length buf" using bm_okE [OF assms(1)] by metis
  let ?S = "unat start" and ?L = "unat start + unat count - 1"
  have c: "0 < unat count" "?L < bm_size b" using assms(2) unat_gt_0 [of count] by (auto simp: in_range_def)
  have sl: "?S \<le> ?L" using c(1) by linarith
  obtain c where c: "range_write v buf (start div BPW, start AND (BPW - 1), (start + count - 1) div BPW,
        (start + count - 1) AND (BPW - 1)) = Some c" "length c = length buf"
      "\<forall>j. wbit c j = (if ?S \<le> j \<and> j \<le> ?L then v else wbit buf j)"
    using range_write_bits [of ?S ?L buf "start div BPW" "start AND (BPW - 1)" "(start + count - 1) div BPW"
        "(start + count - 1) AND (BPW - 1)" v] buf(2) [OF c(2)] sl
    unfolding unat_low_bits unat_div_BPW unat_last [OF assms(2)] by auto
  have "(if v then RtlSetBits else RtlClearBits) (Some b) start count = Some (Some (b\<lparr>Buffer := Some c\<rparr>))"
    using buf(1) c(1) assms(2) by (cases v) (simp_all add: range_ops_write with_buffer_def valid_range_eq)
  moreover have "(?S \<le> j \<and> j \<le> ?L) = (?S \<le> j \<and> j < ?S + unat count)" for j using \<open>0 < unat count\<close> by auto
  ultimately show ?thesis
    using bm_upd [OF assms(1) buf(1) c(2)] c(3) buf(1) by (auto simp: bm_get_def)
qed

lemma write_range_outside:
  assumes "bm_ok b" and "\<not> in_range b start count"
  shows "(if v then RtlSetBits else RtlClearBits) (Some b) start count = Some (Some b)"
proof -
  obtain buf where "Buffer b = Some buf" using bm_okE [OF assms(1)] by metis
  then show ?thesis using assms(2) by (simp add: range_ops_write with_buffer_def valid_range_eq)
qed

section \<open>Tests of ranges\<close>

lemma masked_ok_iff: "masked_ok v w m \<longleftrightarrow> (\<forall>k. bit m k \<longrightarrow> bit w k = v)"
proof -
  have "k < 32" if "bit m k" for k using bit_imp_le_length [OF that] by simp
  then show ?thesis unfolding masked_ok_def by (cases v) (auto simp: bit_eq_iff bit_and_iff)
qed

lemma whole_iff: "w = whole v \<longleftrightarrow> (\<forall>k < 32. bit w k = v)"
proof
  assume "\<forall>k < 32. bit w k = v"
  then show "w = whole v" by (intro bit_word_eqI) (simp add: bit_whole)
qed (simp add: bit_whole)

lemma inner_words_eq:
  assumes "i \<le> n" and "n \<le> length buf"
  shows "inner_words v buf i n = Some (\<forall>k. i \<le> k \<and> k < n \<longrightarrow> buf ! k = whole v)"
proof -
  have "\<exists>r. inner_words v buf i n = Some r \<and> (r \<longleftrightarrow> (\<forall>k. i \<le> k \<and> k < n \<longrightarrow> buf ! k = whole v))"
    unfolding inner_words_def
  proof (rule for_upto_inv [where P = "\<lambda>m r. r \<longleftrightarrow> (\<forall>k. i \<le> k \<and> k < m \<longrightarrow> buf ! k = whole v)"])
    fix k r assume "i \<le> k" "k < n" "r \<longleftrightarrow> (\<forall>j. i \<le> j \<and> j < k \<longrightarrow> buf ! j = whole v)"
    with assms(2) show "\<exists>r'. (if \<not> r then Some r else do { w \<leftarrow> rdw buf k; Some (if v then w = 0xFFFFFFFF else w = 0) }) = Some r' \<and>
        (r' \<longleftrightarrow> (\<forall>j. i \<le> j \<and> j < Suc k \<longrightarrow> buf ! j = whole v))"
      by (cases v) (auto simp: rdw_ok whole_def less_Suc_eq)
  qed (use assms in auto)
  then show ?thesis by auto
qed

lemma three_zones:
  assumes "F < (G :: nat)"
  shows "(\<forall>m. \<forall>k < 32. (F < m \<or> F = m \<and> s \<le> k) \<and> (m < G \<or> m = G \<and> k \<le> l) \<longrightarrow> Q m k) \<longleftrightarrow>
    (\<forall>k < 32. s \<le> k \<longrightarrow> Q F k) \<and> (\<forall>m. F + 1 \<le> m \<and> m < G \<longrightarrow> (\<forall>k < 32. Q m k)) \<and> (\<forall>k < (32::nat). k \<le> l \<longrightarrow> Q G k)"
    (is "?A \<longleftrightarrow> ?B")
proof
  assume ?A with assms show ?B by auto
next
  assume b: ?B
  show ?A
  proof (intro allI impI, elim conjE)
    fix m k :: nat
    assume "k < 32" "F < m \<or> F = m \<and> s \<le> k" "m < G \<or> m = G \<and> k \<le> l"
    with b assms show "Q m k" by (cases "m = F"; cases "m = G") auto
  qed
qed

lemma are_bits_words:
  assumes "S \<le> L" and "L div 32 < length buf" and "unat fw = S div 32" and "unat fb = S mod 32"
    and "unat lw = L div 32" and "unat lb = L mod 32"
  shows "(if fw = lw then do { w \<leftarrow> rdw buf (unat fw); Some (masked_ok v w (range_mask fb lb)) }
     else do {
       w \<leftarrow> rdw buf (unat fw);
       if \<not> masked_ok v w (range_mask fb (BPW - 1)) then Some False
       else do {
         r \<leftarrow> inner_words v buf (unat fw + 1) (unat lw);
         if \<not> r then Some False
         else do { w \<leftarrow> rdw buf (unat lw); Some (masked_ok v w (range_mask 0 lb)) } } }) =
    Some (\<forall>j. S \<le> j \<and> j \<le> L \<longrightarrow> wbit buf j = v)"
proof -
  let ?F = "S div 32" and ?G = "L div 32"
  have b31: "unat (BPW - 1) = 31" by (simp add: BPW_def)
  have F: "?F < length buf" using assms(1,2) by (meson div_le_mono order.strict_trans1)
  have split: "(\<forall>j. P (j div 32) (j mod 32)) \<longleftrightarrow> (\<forall>m. \<forall>k < 32. P m k)" for P :: "nat \<Rightarrow> nat \<Rightarrow> bool"
  proof
    assume all: "\<forall>j. P (j div 32) (j mod 32)"
    show "\<forall>m. \<forall>k < 32. P m k"
    proof (intro allI impI)
      fix m k :: nat assume "k < 32"
      with all [rule_format, of "32 * m + k"] show "P m k" by simp
    qed
  qed simp
  have all: "(\<forall>j. S \<le> j \<and> j \<le> L \<longrightarrow> wbit buf j = v) \<longleftrightarrow>
    (\<forall>m. \<forall>k < 32. (?F < m \<or> ?F = m \<and> S mod 32 \<le> k) \<and> (m < ?G \<or> m = ?G \<and> k \<le> L mod 32) \<longrightarrow> bit (buf ! m) k = v)"
    unfolding le_word_order [of S] le_word_order [of _ L] wbit_def
    by (rule split [of "\<lambda>m k. (?F < m \<or> ?F = m \<and> S mod 32 \<le> k) \<and> (m < ?G \<or> m = ?G \<and> k \<le> L mod 32) \<longrightarrow> bit (buf ! m) k = v"])
  show ?thesis
  proof (cases "?F = ?G")
    case True
    then have "fw = lw" using assms(3,5) by (simp add: word_unat_eq_iff)
    then show ?thesis
      using True F assms(3,4,6) unfolding all by (auto simp: rdw_ok masked_ok_iff bit_range_mask)
  next
    case False
    then have ne: "fw \<noteq> lw" "?F < ?G" using assms(1,3,5) by (auto simp: div_le_mono le_neq_implies_less)
    then show ?thesis
      using F assms(2-6) b31 unfolding all three_zones [OF ne(2)]
      by (auto simp: rdw_ok masked_ok_iff bit_range_mask inner_words_eq whole_iff)
  qed
qed

lemma are_bits_eq:
  assumes "bm_ok b"
  shows "are_bits (Some b) start count v =
    Some (count = 0 \<or> in_range b start count \<and> (\<forall>j. unat start \<le> j \<and> j < unat start + unat count \<longrightarrow> bm_get b j = v))"
proof -
  obtain buf where buf: "Buffer b = Some buf" "\<And>j. j < bm_size b \<Longrightarrow> j div 32 < length buf" using bm_okE [OF assms(1)] by metis
  show ?thesis
  proof (cases "in_range b start count")
    case False
    then show ?thesis using buf(1) not_in_range [of b start count] by (auto simp: are_bits_def read_buffer_def)
  next
    case True
    let ?S = "unat start" and ?L = "unat start + unat count - 1"
    have c: "0 < unat count" "?L < bm_size b" using True unat_gt_0 [of count] by (auto simp: in_range_def)
    have sl: "?S \<le> ?L" using c(1) by linarith
    have r: "(?S \<le> j \<and> j \<le> ?L) = (?S \<le> j \<and> j < ?S + unat count)" for j using c(1) by auto
    have l: "unat ((start + count - 1) div BPW) = ?L div 32" "unat ((start + count - 1) AND (BPW - 1)) = ?L mod 32"
      by (simp_all only: unat_div_BPW unat_low_bits unat_last [OF True])
    note w = are_bits_words [OF sl buf(2) [OF c(2)] unat_div_BPW unat_low_bits l, of v]
    have "are_bits (Some b) start count v = Some (\<forall>j. ?S \<le> j \<and> j \<le> ?L \<longrightarrow> wbit buf j = v)"
      unfolding w [symmetric] are_bits_def read_buffer_def Let_def
      using True buf(1) not_in_range [of b start count] by simp
    then show ?thesis using True buf(1) unfolding r by (auto simp: bm_get_def in_range_def)
  qed
qed

section \<open>Counting\<close>

lemma unat_popcount: "unat (popcount w) = card {k. k < 32 \<and> bit w k}"
proof -
  have "length (filter (bit w) [0..<32]) = card (set (filter (bit w) [0..<32]))"
    by (rule distinct_card [symmetric]) simp
  also have "set (filter (bit w) [0..<32]) = {k. k < 32 \<and> bit w k}" by auto
  finally have e: "length (filter (bit w) [0..<32]) = card {k. k < 32 \<and> bit w k}" .
  have "length (filter (bit w) [0..<32]) \<le> 32" using length_filter_le [of "bit w" "[0..<32]"] by simp
  then show ?thesis unfolding popcount_def e [symmetric] by (intro unat_of_nat_u32) simp
qed

text \<open>The bits of the first \<open>n\<close> words, and the bits of the next one.\<close>

lemma word_bits_Suc:
  "{j. j < 32 * Suc n \<and> wbit buf j} = {j. j < 32 * n \<and> wbit buf j} \<union> (\<lambda>k. 32 * n + k) ` {k. k < 32 \<and> bit (buf ! n) k}"
proof (intro equalityI subsetI)
  fix j assume j: "j \<in> {j. j < 32 * Suc n \<and> wbit buf j}"
  show "j \<in> {j. j < 32 * n \<and> wbit buf j} \<union> (\<lambda>k. 32 * n + k) ` {k. k < 32 \<and> bit (buf ! n) k}"
  proof (cases "j < 32 * n")
    case False
    then have e: "j = 32 * n + (j - 32 * n)" "j - 32 * n < 32" using j by auto
    then have "j div 32 = n" "j mod 32 = j - 32 * n" by (metis div_mult_self4 div_less add_0_right numeral_neq_zero, metis mod_mult_self4 mod_less)
    with e j have "j - 32 * n \<in> {k. k < 32 \<and> bit (buf ! n) k}" by (simp add: wbit_def)
    with e(1) show ?thesis by blast
  qed (use j in auto)
qed (auto simp: wbit_def)

lemma card_word_bits:
  "card {j. j < 32 * Suc n \<and> wbit buf j} = card {j. j < 32 * n \<and> wbit buf j} + card {k. k < 32 \<and> bit (buf ! n) k}"
proof -
  have "inj_on (\<lambda>k. 32 * n + k) X" for X by (simp add: inj_on_def)
  then show ?thesis unfolding word_bits_Suc by (subst card_Un_disjoint) (auto simp: card_image)
qed

lemma count_words:
  assumes "n \<le> length buf" and "32 * n < 2 ^ 32"
  shows "\<exists>r. for_upto 0 n (\<lambda>i r. do { w \<leftarrow> rdw buf i; Some (r + popcount w) }) 0 = Some r \<and>
    unat r = card {j. j < 32 * n \<and> wbit buf j}"
proof (rule for_upto_inv [where P = "\<lambda>i r. unat r = card {j. j < 32 * i \<and> wbit buf j}"])
  fix k r assume k: "k < n" "unat (r :: u32) = card {j. j < 32 * k \<and> wbit buf j}"
  have "card {j. j < 32 * Suc k \<and> wbit buf j} \<le> card {j. j < 32 * Suc k}" by (rule card_mono) auto
  then have le: "card {j. j < 32 * Suc k \<and> wbit buf j} < 2 ^ 32" using k(1) assms(2) by simp
  have "unat (r + popcount (buf ! k)) = card {j. j < 32 * Suc k \<and> wbit buf j}"
    using le k(2) unfolding card_word_bits by (simp add: unat_word_ariths(1) unat_popcount)
  then show "\<exists>t'. do { w \<leftarrow> rdw buf k; Some (r + popcount w) } = Some t' \<and> unat t' = card {j. j < 32 * Suc k \<and> wbit buf j}"
    using k(1) assms(1) by (simp add: rdw_ok)
qed auto

lemma last_word:
  "32 * q + r = n - 1 \<Longrightarrow> r < 32 \<Longrightarrow> 0 < n \<Longrightarrow> n \<le> 32 * Suc q"
  "32 * q + r = n - 1 \<Longrightarrow> r < 32 \<Longrightarrow> 0 < n \<Longrightarrow> j < 32 * q \<Longrightarrow> j < (n :: nat)"
  by simp_all

lemma tail_bit:
  assumes "0 < n" and "j div 32 = (n - 1) div (32 :: nat)"
  shows "(n mod 32 = 0 \<or> j mod 32 < n mod 32) \<longleftrightarrow> j < n"
proof -
  let ?q = "(n - 1) div 32" and ?s = "(n - 1) mod 32" and ?t = "j mod 32"
  have n: "n = 32 * ?q + (?s + 1)" using assms(1) mult_div_mod_eq [of 32 "n - 1"] by linarith
  have j: "j = 32 * ?q + ?t" using assms(2) mult_div_mod_eq [of 32 j] by simp
  have m: "n mod 32 = (?s + 1) mod 32" by (metis n mod_mult_self4)
  have "?s < 32" "?t < 32" by simp_all
  then have "(n mod 32 = 0 \<or> ?t < n mod 32) \<longleftrightarrow> ?t \<le> ?s"
    unfolding m by (cases "?s = 31") auto
  also have "\<dots> \<longleftrightarrow> j < n" using n j by linarith
  finally show ?thesis .
qed

lemma RtlNumberOfSetBits_eq:
  assumes "bm_ok b"
  shows "\<exists>n. RtlNumberOfSetBits (Some b) = Some n \<and> unat n = card (rtl.ones b)"
proof (cases "SizeOfBitMap b = 0")
  case True
  then show ?thesis
    using assms by (auto simp: RtlNumberOfSetBits_def read_buffer_def rtl.ones_def bm_size_def bm_ok_def split: option.splits)
next
  case False
  obtain buf where buf: "Buffer b = Some buf" "\<And>j. j < bm_size b \<Longrightarrow> j div 32 < length buf" using bm_okE [OF assms] by metis
  let ?n = "bm_size b" and ?wc = "word_count (SizeOfBitMap b)"
  have n: "0 < ?n" "?n < 2 ^ 32" using False unat_u32_less [of "SizeOfBitMap b"] by (auto simp: bm_size_def unat_gt_0)
  have wc: "unat ?wc = (?n - 1) div 32 + 1"
    using n(1) unfolding word_count_def unat_words bm_size_def by simp
  let ?m = "(?n - 1) div 32"
  have m: "?m < length buf" "unat (?wc - 1) = ?m" "32 * ?m < 2 ^ 32"
  proof -
    show "?m < length buf" using buf(2) [of "?n - 1"] n(1) by simp
    show "unat (?wc - 1) = ?m" using wc by (subst unat_sub) (auto simp: word_le_nat_alt)
    show "32 * ?m < 2 ^ 32" using n by (metis div_times_less_eq_dividend less_imp_diff_less mult.commute order.strict_trans1)
  qed
  obtain r where r: "for_upto 0 ?m (\<lambda>i r. do { w \<leftarrow> rdw buf i; Some (r + popcount w) }) 0 = Some r"
      "unat r = card {j. j < 32 * ?m \<and> wbit buf j}"
    using count_words [of ?m buf] m by auto
  let ?last = "buf ! ?m AND tail_mask (SizeOfBitMap b)"
  let ?c = "buf[?m := ?last]"
  have c: "wbit ?c j = (wbit buf j \<and> (j div 32 = ?m \<longrightarrow> j < ?n))" for j
    using tail_bit [OF n(1), of j] unfolding wbit_update [OF m(1)]
    by (auto simp: wbit_def bit_and_iff bit_tail_mask bm_size_def)
  have dm: "32 * ?m + (?n - 1) mod 32 = ?n - 1" "(?n - 1) mod 32 < 32" by simp_all
  have end32: "?n \<le> 32 * Suc ?m" by (rule last_word(1) [OF dm n(1)])
  have low: "j < ?n" if "j < 32 * ?m" for j by (rule last_word(2) [OF dm n(1) that])
  have in_last: "j div 32 = ?m" if "j < 32 * Suc ?m" "\<not> j < ?n" for j
    using that low [of j] by (intro div_nat_eqI) auto
  have "rtl.ones b = {j. j < 32 * Suc ?m \<and> wbit ?c j}"
    using buf(1) end32 in_last unfolding rtl.ones_def bm_get_def c by auto
  then have "card (rtl.ones b) = card {j. j < 32 * ?m \<and> wbit ?c j} + card {k. k < 32 \<and> bit ?last k}"
    using card_word_bits [of ?m ?c] m(1) by (simp only: nth_list_update_eq)
  moreover have "{j. j < 32 * ?m \<and> wbit ?c j} = {j. j < 32 * ?m \<and> wbit buf j}" unfolding c using low by auto
  ultimately have k: "card (rtl.ones b) = unat r + unat (popcount ?last)" by (simp add: r(2) unat_popcount)
  have "card (rtl.ones b) \<le> card {j. j < ?n}" by (rule card_mono) (auto simp: rtl.ones_def)
  then have "unat (r + popcount ?last) = card (rtl.ones b)" using k n(2) by (simp add: unat_word_ariths(1))
  then show ?thesis
    using False buf(1) r(1) m wc by (simp add: RtlNumberOfSetBits_def read_buffer_def Let_def rdw_ok)
qed

section \<open>Searching\<close>

text \<open>A run of \<open>n\<close> bits with value \<open>v\<close> inside the first \<open>sz\<close> bits, starting at \<open>t\<close>.\<close>

definition run_at :: "u32 list \<Rightarrow> nat \<Rightarrow> bool \<Rightarrow> nat \<Rightarrow> nat \<Rightarrow> bool" where
  "run_at buf sz v n t \<longleftrightarrow> t + n \<le> sz \<and> (\<forall>j. t \<le> j \<and> j < t + n \<longrightarrow> wbit buf j = v)"

text \<open>The result of a search of the starts in \<open>[lo, hi)\<close>: the first run, or the sentinel.\<close>

definition first_run :: "u32 list \<Rightarrow> nat \<Rightarrow> bool \<Rightarrow> nat \<Rightarrow> nat \<Rightarrow> nat \<Rightarrow> u32 \<Rightarrow> bool" where
  "first_run buf sz v n lo hi res \<longleftrightarrow>
     (if res = RTL_BITMAP_NOT_FOUND then \<forall>t. lo \<le> t \<and> t < hi \<longrightarrow> \<not> run_at buf sz v n t
      else lo \<le> unat res \<and> unat res < hi \<and> run_at buf sz v n (unat res) \<and>
        (\<forall>t. lo \<le> t \<and> t < unat res \<longrightarrow> \<not> run_at buf sz v n t))"

text \<open>
  The loop invariant: the \<open>run\<close> bits before \<open>i\<close> have the wanted value and are fewer than asked for,
  they start at \<open>run_start\<close> below the limit, and no run starts before them.
\<close>

definition run_inv :: "u32 list \<Rightarrow> nat \<Rightarrow> bool \<Rightarrow> nat \<Rightarrow> nat \<Rightarrow> nat \<Rightarrow> nat \<Rightarrow> nat \<Rightarrow> nat \<Rightarrow> bool" where
  "run_inv buf sz v n lo hi i r rs \<longleftrightarrow>
     lo + r \<le> i \<and> i \<le> sz \<and> r < n \<and> (0 < r \<longrightarrow> rs + r = i \<and> rs < hi) \<and>
     (\<forall>j. i - r \<le> j \<and> j < i \<longrightarrow> wbit buf j = v) \<and>
     (\<forall>t. lo \<le> t \<and> t < i - r \<longrightarrow> \<not> run_at buf sz v n t)"

lemma run_inv_reset:
  assumes "run_inv buf sz v n lo hi i r rs" and "i < i'" and "i' \<le> sz" and "\<forall>j. i \<le> j \<and> j < i' \<longrightarrow> wbit buf j \<noteq> v"
  shows "run_inv buf sz v n lo hi i' 0 rs'"
proof -
  have "\<not> run_at buf sz v n t" if "lo \<le> t" "t < i'" for t
  proof (cases "t < i - r")
    case True
    with that assms(1) show ?thesis by (simp add: run_inv_def)
  next
    case False
    then have "i < t + n" "0 < n" using assms(1) by (auto simp: run_inv_def)
    then have "t \<le> max t i" "max t i < t + n" "wbit buf (max t i) \<noteq> v" using assms(2,4) that by auto
    then show ?thesis unfolding run_at_def by blast
  qed
  then show ?thesis using assms(1-3) by (auto simp: run_inv_def)
qed

lemma run_inv_extend:
  assumes "run_inv buf sz v n lo hi i r rs" and "i + k \<le> sz" and "0 < k" and "\<forall>j. i \<le> j \<and> j < i + k \<longrightarrow> wbit buf j = v"
    and "r = 0 \<longrightarrow> i < hi" and "rs' = (if r = 0 then i else rs)"
  shows "r + k < n \<Longrightarrow> run_inv buf sz v n lo hi (i + k) (r + k) rs'"
    and "rs' = i - r" and "rs' < hi" and "lo \<le> rs'"
    and "n \<le> r + k \<Longrightarrow> run_at buf sz v n rs' \<and> (\<forall>t. lo \<le> t \<and> t < rs' \<longrightarrow> \<not> run_at buf sz v n t)"
proof -
  have all: "\<forall>j. i - r \<le> j \<and> j < i + k \<longrightarrow> wbit buf j = v"
    using assms(1,4) unfolding run_inv_def by (metis linorder_not_less)
  show "r + k < n \<Longrightarrow> run_inv buf sz v n lo hi (i + k) (r + k) rs'"
    using assms all by (auto simp: run_inv_def)
  show rs: "rs' = i - r" and "rs' < hi" and "lo \<le> rs'" using assms by (auto simp: run_inv_def)
  have "rs' + n \<le> i + k" if "n \<le> r + k" using that rs assms(1) by (auto simp: run_inv_def)
  then show "n \<le> r + k \<Longrightarrow> run_at buf sz v n rs' \<and> (\<forall>t. lo \<le> t \<and> t < rs' \<longrightarrow> \<not> run_at buf sz v n t)"
    using all rs assms(1,2) unfolding run_at_def run_inv_def by (metis order.strict_trans2 order_trans)
qed

lemma run_inv_end:
  assumes "run_inv buf sz v n lo hi i r rs" and "sz \<le> i \<or> r = 0 \<and> hi \<le> i"
  shows "first_run buf sz v n lo hi RTL_BITMAP_NOT_FOUND"
proof -
  have "\<not> run_at buf sz v n t" if "lo \<le> t" "t < hi" for t
  proof (cases "t < i - r")
    case True
    with that assms(1) show ?thesis by (simp add: run_inv_def)
  next
    case False
    then have "sz < t + n" using assms that by (auto simp: run_inv_def)
    then show ?thesis by (simp add: run_at_def)
  qed
  then show ?thesis by (simp add: first_run_def)
qed

lemma aligned_word_bits:
  assumes "i mod 32 = 0" and "i \<le> j" and "j < i + 32"
  shows "wbit buf j = bit (buf ! (i div 32)) (j mod 32)"
proof -
  obtain q where q: "i = 32 * q" using assms(1) by (auto simp: mod_eq_0_iff_dvd elim: dvdE)
  then have "j div 32 = q" using assms(2,3) by (intro div_nat_eqI) auto
  then show ?thesis using q by (simp add: wbit_def)
qed

lemma first_run_found:
  assumes "rs < mx" and "lo \<le> unat rs"
    and "run_at buf sz v n (unat rs) \<and> (\<forall>t. lo \<le> t \<and> t < unat rs \<longrightarrow> \<not> run_at buf sz v n t)"
  shows "first_run buf sz v n lo (unat mx) (if rs < mx then rs else RTL_BITMAP_NOT_FOUND)"
proof -
  have "rs \<noteq> RTL_BITMAP_NOT_FOUND"
    using assms(1) unat_u32_less [of mx] by (auto simp: RTL_BITMAP_NOT_FOUND_def word_less_nat_alt)
  then show ?thesis using assms by (simp add: first_run_def word_less_nat_alt)
qed

text \<open>One iteration that does not stop at once, over the bits of the array.\<close>

lemma find_run_loop_step:
  fixes buf sz mx v i run rs
  defines "w \<equiv> buf ! (unat i div 32)" and "fast \<equiv> i AND (BPW - 1) = 0 \<and> sz - i \<ge> BPW"
    and "rs' \<equiv> if run = 0 then i else rs"
  defines "found \<equiv> Some (if rs' < mx then rs' else RTL_BITMAP_NOT_FOUND)"
  assumes "i < sz" and "\<not> (run = 0 \<and> i \<ge> mx)" and "unat i div 32 < length buf"
  shows "fast \<Longrightarrow> w = whole (\<not> v) \<Longrightarrow>
      find_run_loop buf sz count mx v i run rs = find_run_loop buf sz count mx v (i + BPW) 0 rs"
    and "fast \<Longrightarrow> w \<noteq> whole (\<not> v) \<Longrightarrow> w = whole v \<Longrightarrow> find_run_loop buf sz count mx v i run rs =
      (if run + BPW \<ge> count then found else find_run_loop buf sz count mx v (i + BPW) (run + BPW) rs')"
    and "\<not> (fast \<and> w = whole (\<not> v)) \<Longrightarrow> \<not> (fast \<and> w = whole v) \<Longrightarrow> wbit buf (unat i) = v \<Longrightarrow>
      find_run_loop buf sz count mx v i run rs =
      (if run + 1 = count then found else find_run_loop buf sz count mx v (i + 1) (run + 1) rs')"
    and "\<not> (fast \<and> w = whole (\<not> v)) \<Longrightarrow> \<not> (fast \<and> w = whole v) \<Longrightarrow> wbit buf (unat i) \<noteq> v \<Longrightarrow>
      find_run_loop buf sz count mx v i run rs = find_run_loop buf sz count mx v (i + 1) 0 rs"
proof -
  have guards: "(\<not> i < sz) = False" "(run = 0 \<and> i \<ge> mx) = False" using assms(5,6) by auto
  have rd: "rdw buf (unat (i div BPW)) = Some w" using assms(7) by (simp add: w_def unat_div_BPW rdw_ok)
  have imp: "(if v then 0 else 0xFFFFFFFF :: u32) = whole (\<not> v)" "(if v then 0xFFFFFFFF else 0 :: u32) = whole v"
    by (simp_all add: whole_def)
  have conj: "i AND (BPW - 1) = 0 \<and> sz - i \<ge> BPW \<and> P \<longleftrightarrow> fast \<and> P" for P by (simp add: fast_def)
  note unf = find_run_loop.simps [of buf sz count mx v i run rs, unfolded rd imp bit_at_eq [OF assms(7)] Let_def guards if_False
    conj rs'_def [symmetric] found_def [symmetric] option.inject option.case option.distinct(2) simp_thms]
  show "fast \<Longrightarrow> w = whole (\<not> v) \<Longrightarrow>
      find_run_loop buf sz count mx v i run rs = find_run_loop buf sz count mx v (i + BPW) 0 rs"
    and "fast \<Longrightarrow> w \<noteq> whole (\<not> v) \<Longrightarrow> w = whole v \<Longrightarrow> find_run_loop buf sz count mx v i run rs =
      (if run + BPW \<ge> count then found else find_run_loop buf sz count mx v (i + BPW) (run + BPW) rs')"
    and "\<not> (fast \<and> w = whole (\<not> v)) \<Longrightarrow> \<not> (fast \<and> w = whole v) \<Longrightarrow> wbit buf (unat i) = v \<Longrightarrow>
      find_run_loop buf sz count mx v i run rs =
      (if run + 1 = count then found else find_run_loop buf sz count mx v (i + 1) (run + 1) rs')"
    and "\<not> (fast \<and> w = whole (\<not> v)) \<Longrightarrow> \<not> (fast \<and> w = whole v) \<Longrightarrow> wbit buf (unat i) \<noteq> v \<Longrightarrow>
      find_run_loop buf sz count mx v i run rs = find_run_loop buf sz count mx v (i + 1) 0 rs"
    by (subst unf; simp only: if_True if_False simp_thms option.distinct)+
qed

lemma take_bits:
  assumes "run_inv buf sz v n lo (unat mx) (unat i) (unat run) (unat rs)" and "unat i + k \<le> sz" and "0 < k"
    and "\<forall>j. unat i \<le> j \<and> j < unat i + k \<longrightarrow> wbit buf j = v" and "unat run = 0 \<longrightarrow> unat i < unat mx"
  shows "n \<le> unat run + k \<Longrightarrow> first_run buf sz v n lo (unat mx)
      (if (if run = 0 then i else rs) < mx then (if run = 0 then i else rs) else RTL_BITMAP_NOT_FOUND)"
    and "unat run + k < n \<Longrightarrow> run_inv buf sz v n lo (unat mx) (unat i + k) (unat run + k) (unat (if run = 0 then i else rs))"
proof -
  let ?rs = "if run = 0 then i else rs"
  have rs: "unat ?rs = (if unat run = 0 then unat i else unat rs)" by (auto simp: unat_eq_zero)
  note e = run_inv_extend [OF assms rs]
  show "unat run + k < n \<Longrightarrow> run_inv buf sz v n lo (unat mx) (unat i + k) (unat run + k) (unat ?rs)" by (rule e(1))
  show "first_run buf sz v n lo (unat mx) (if ?rs < mx then ?rs else RTL_BITMAP_NOT_FOUND)" if "n \<le> unat run + k"
    using e(3,4) e(5) [OF that] by (intro first_run_found) (auto simp only: word_less_nat_alt)
qed

lemma find_run_loop_spec:
  assumes buf: "\<And>j. j < unat sz \<Longrightarrow> j div 32 < length buf"
  shows "run_inv buf (unat sz) v (unat count) lo (unat mx) (unat i) (unat run) (unat rs) \<Longrightarrow>
    \<exists>res. find_run_loop buf sz count mx v i run rs = Some res \<and> first_run buf (unat sz) v (unat count) lo (unat mx) res"
proof (induction "unat sz - unat i" arbitrary: i run rs rule: less_induct)
  case less
  note inv = less.prems
  show ?case
  proof (cases "\<not> i < sz \<or> run = 0 \<and> i \<ge> mx")
    case True
    then have "find_run_loop buf sz count mx v i run rs = Some RTL_BITMAP_NOT_FOUND"
      by (auto simp: find_run_loop.simps [of buf sz count mx v i run rs])
    moreover have "unat sz \<le> unat i \<or> unat run = 0 \<and> unat mx \<le> unat i" using True by (auto simp: word_less_nat_alt word_le_nat_alt)
    ultimately show ?thesis using run_inv_end [OF inv] by auto
  next
    case False
    then have lt: "i < sz" "unat i < unat sz" and hi: "unat run = 0 \<longrightarrow> unat i < unat mx"
      by (auto simp: word_less_nat_alt word_le_nat_alt unat_eq_zero)
    let ?w = "buf ! (unat i div 32)" and ?fast = "i AND (BPW - 1) = 0 \<and> sz - i \<ge> BPW"
    let ?rs = "if run = 0 then i else rs"
    have run_le: "unat run \<le> unat i" using inv by (simp add: run_inv_def)
    have nz: "\<not> (run = 0 \<and> i \<ge> mx)" using False by blast
    note step = find_run_loop_step [OF lt(1) nz buf [OF lt(2)], where v = v and count = count and rs = rs]
    have fast: "unat (i + BPW) = unat i + 32 \<and> unat i + 32 \<le> unat sz \<and> unat (run + BPW) = unat run + 32 \<and>
        (\<forall>j. unat i \<le> j \<and> j < unat i + 32 \<longrightarrow> wbit buf j = x)" if "?fast" "?w = whole x" for x
      using that unat_step(2) [OF lt(1)] aligned_word_bits [of "unat i"] low_bits_zero [of i] run_le unat_u32_less [of sz]
      by (auto simp: bit_whole BPW_def unat_word_ariths(1))
    have one: "j = unat i" if "unat i \<le> j \<and> j < unat i + 1" for j using that by simp
    have slow: "unat (i + 1) = unat i + 1" "unat (run + 1) = unat run + 1"
      using lt run_le unat_u32_less [of sz] by (auto simp: unat_word_ariths(1))
    consider (skip) "?fast" "?w = whole (\<not> v)" | (absorb) "?fast" "?w = whole v" "?w \<noteq> whole (\<not> v)"
      | (take1) "\<not> (?fast \<and> ?w = whole (\<not> v))" "\<not> (?fast \<and> ?w = whole v)" "wbit buf (unat i) = v"
      | (reset1) "\<not> (?fast \<and> ?w = whole (\<not> v))" "\<not> (?fast \<and> ?w = whole v)" "wbit buf (unat i) \<noteq> v"
      by blast
    then show ?thesis
    proof cases
      case skip
      then have "run_inv buf (unat sz) v (unat count) lo (unat mx) (unat (i + BPW)) (unat (0 :: u32)) (unat rs)"
        using run_inv_reset [OF inv, of "unat i + 32" "unat rs"] fast by auto
      moreover have "unat sz - unat (i + BPW) < unat sz - unat i" using fast [OF skip] lt(2) by linarith
      ultimately show ?thesis unfolding step(1) [OF skip] by (intro less.hyps)
    next
      case absorb
      note f = fast [OF absorb(1,2)]
      note e = take_bits [OF inv f [THEN conjunct2, THEN conjunct1] _ f [THEN conjunct2, THEN conjunct2, THEN conjunct2] hi]
      show ?thesis
      proof (cases "run + BPW \<ge> count")
        case True
        then have "first_run buf (unat sz) v (unat count) lo (unat mx) (if ?rs < mx then ?rs else RTL_BITMAP_NOT_FOUND)"
          using e(1) f by (simp add: word_le_nat_alt)
        with True show ?thesis unfolding step(2) [OF absorb(1,3,2)] by (simp only: if_True) blast
      next
        case more: False
        then have "run_inv buf (unat sz) v (unat count) lo (unat mx) (unat (i + BPW)) (unat (run + BPW)) (unat ?rs)"
          using e(2) f by (simp add: word_le_nat_alt)
        moreover have "unat sz - unat (i + BPW) < unat sz - unat i" using f lt(2) by linarith
        ultimately have "\<exists>res. find_run_loop buf sz count mx v (i + BPW) (run + BPW) ?rs = Some res \<and>
            first_run buf (unat sz) v (unat count) lo (unat mx) res"
          by (intro less.hyps)
        with more show ?thesis unfolding step(2) [OF absorb(1,3,2)] by (simp only: if_False)
      qed
    next
      case take1
      have w: "\<forall>j. unat i \<le> j \<and> j < unat i + 1 \<longrightarrow> wbit buf j = v" using take1(3) one by blast
      have le: "unat i + 1 \<le> unat sz" using lt by simp
      note e = take_bits [OF inv le _ w hi]
      have rc: "unat run + 1 \<le> unat count" using inv by (simp add: run_inv_def)
      show ?thesis
      proof (cases "run + 1 = count")
        case True
        then have "first_run buf (unat sz) v (unat count) lo (unat mx) (if ?rs < mx then ?rs else RTL_BITMAP_NOT_FOUND)"
          using e(1) slow(2) by simp
        with True show ?thesis unfolding step(3) [OF take1] by (simp only: simp_thms if_True) blast
      next
        case more: False
        then have "unat count \<noteq> unat run + 1" using slow(2) by (metis word_unat_eq_iff)
        then have "run_inv buf (unat sz) v (unat count) lo (unat mx) (unat (i + 1)) (unat (run + 1)) (unat ?rs)"
          using e(2) slow rc by simp
        moreover have "unat sz - unat (i + 1) < unat sz - unat i" using slow(1) lt(2) by linarith
        ultimately have "\<exists>res. find_run_loop buf sz count mx v (i + 1) (run + 1) ?rs = Some res \<and>
            first_run buf (unat sz) v (unat count) lo (unat mx) res"
          by (intro less.hyps)
        with more show ?thesis unfolding step(3) [OF take1] by (simp only: if_False)
      qed
    next
      case reset1
      then have "run_inv buf (unat sz) v (unat count) lo (unat mx) (unat (i + 1)) (unat (0 :: u32)) (unat rs)"
        using run_inv_reset [OF inv, of "unat i + 1" "unat rs"] one slow(1) lt(2) by (metis Suc_eq_plus1 Suc_leI less_add_one unat_0)
      moreover have "unat sz - unat (i + 1) < unat sz - unat i" using slow(1) lt(2) by linarith
      ultimately show ?thesis unfolding step(4) [OF reset1] by (intro less.hyps)
    qed
  qed
qed

text \<open>The search as a search of a list of candidate starts.\<close>

definition found_at :: "nat option \<Rightarrow> u32" where
  "found_at r = (case r of None \<Rightarrow> RTL_BITMAP_NOT_FOUND | Some t \<Rightarrow> of_nat t)"

lemma first_run_find:
  assumes "first_run buf sz v n lo hi res"
  shows "res = found_at (List.find (run_at buf sz v n) [lo..<hi])"
    and "res = RTL_BITMAP_NOT_FOUND \<longleftrightarrow> List.find (run_at buf sz v n) [lo..<hi] = None"
proof -
  have none: "List.find (run_at buf sz v n) [lo..<hi] = None" if "res = RTL_BITMAP_NOT_FOUND"
    using assms that by (auto simp: find_None_iff first_run_def)
  moreover have some: "List.find (run_at buf sz v n) [lo..<hi] = Some (unat res)" if "res \<noteq> RTL_BITMAP_NOT_FOUND"
    using assms that unfolding find_Some_iff
    by (intro exI [of _ "unat res - lo"]) (auto simp: first_run_def)
  ultimately show "res = found_at (List.find (run_at buf sz v n) [lo..<hi])"
    and "res = RTL_BITMAP_NOT_FOUND \<longleftrightarrow> List.find (run_at buf sz v n) [lo..<hi] = None"
    by (cases "res = RTL_BITMAP_NOT_FOUND"; simp add: found_at_def)+
qed

text \<open>The starts in the order of the search: from the hint to the end, then from 0 to the hint.\<close>

definition search_order :: "RTL_BITMAP \<Rightarrow> u32 \<Rightarrow> nat list" where
  "search_order b hint =
     (let h = (if unat hint < bm_size b then unat hint else 0) in [h..<bm_size b] @ [0..<h])"

definition bm_run :: "RTL_BITMAP \<Rightarrow> bool \<Rightarrow> nat \<Rightarrow> nat \<Rightarrow> bool" where
  "bm_run b v n t \<longleftrightarrow> t + n \<le> bm_size b \<and> (\<forall>j. t \<le> j \<and> j < t + n \<longrightarrow> bm_get b j = v)"

lemma find_run_spec:
  assumes "bm_ok b" and "count \<noteq> 0" and "unat mx \<le> bm_size b" and "Buffer b = Some buf"
  shows "\<exists>r. find_run b buf count frm mx v = Some r \<and>
    r = found_at (List.find (bm_run b v (unat count)) [unat frm..<unat mx]) \<and>
    (r = RTL_BITMAP_NOT_FOUND \<longleftrightarrow> List.find (bm_run b v (unat count)) [unat frm..<unat mx] = None)"
proof -
  have rn: "bm_run b v n = run_at buf (bm_size b) v n" for n
    using assms(4) by (simp add: fun_eq_iff bm_run_def run_at_def bm_get_def)
  have "\<exists>r. find_run b buf count frm mx v = Some r \<and> first_run buf (bm_size b) v (unat count) (unat frm) (unat mx) r"
  proof (cases "count > SizeOfBitMap b \<or> frm \<ge> SizeOfBitMap b")
    case True
    then have "\<forall>t. unat frm \<le> t \<and> t < unat mx \<longrightarrow> \<not> run_at buf (bm_size b) v (unat count) t"
      using assms(3) by (auto simp: run_at_def bm_size_def word_le_nat_alt word_less_nat_alt)
    with True show ?thesis by (auto simp: find_run_def first_run_def)
  next
    case False
    obtain x where "Buffer b = Some x" "\<And>j. j < bm_size b \<Longrightarrow> j div 32 < length x" using bm_okE [OF assms(1)] by metis
    moreover have "run_inv buf (bm_size b) v (unat count) (unat frm) (unat mx) (unat frm) (unat (0 :: u32)) (unat frm)"
      using False assms(2) unat_gt_0 [of count] by (auto simp: run_inv_def bm_size_def word_le_nat_alt)
    ultimately show ?thesis
      using find_run_loop_spec [of "SizeOfBitMap b" buf v count "unat frm" mx frm 0 frm] False assms(4)
      by (simp add: find_run_def bm_size_def)
  qed
  then show ?thesis unfolding rn using first_run_find by blast
qed

lemma find_bits_spec:
  assumes "bm_ok b" and "count \<noteq> 0"
  shows "find_bits (Some b) count hint v = Some (found_at (List.find (bm_run b v (unat count)) (search_order b hint)))"
proof -
  obtain buf where buf: "Buffer b = Some buf" using bm_okE [OF assms(1)] by metis
  let ?h = "if hint < SizeOfBitMap b then hint else 0" and ?P = "bm_run b v (unat count)"
  have h: "unat ?h = (if unat hint < bm_size b then unat hint else 0)" by (simp add: bm_size_def word_less_nat_alt)
  have hle: "unat ?h \<le> bm_size b" by (simp add: bm_size_def word_less_nat_alt)
  obtain r where r: "find_run b buf count ?h (SizeOfBitMap b) v = Some r" "r = found_at (List.find ?P [unat ?h..<bm_size b])"
      "r = RTL_BITMAP_NOT_FOUND \<longleftrightarrow> List.find ?P [unat ?h..<bm_size b] = None"
    using find_run_spec [OF assms _ buf, of "SizeOfBitMap b" ?h v] by (auto simp: bm_size_def)
  obtain r2 where r2: "find_run b buf count 0 ?h v = Some r2" "r2 = found_at (List.find ?P [0..<unat ?h])"
    using find_run_spec [OF assms hle buf, of 0 v] by auto
  have so: "search_order b hint = [unat ?h..<bm_size b] @ [0..<unat ?h]" unfolding search_order_def Let_def h by (rule refl)
  show ?thesis
  proof (cases "r \<noteq> RTL_BITMAP_NOT_FOUND \<or> ?h = 0")
    case True
    then have "find_bits (Some b) count hint v = Some r"
      using assms(2) buf r(1) by (simp add: find_bits_def read_buffer_def Let_def)
    moreover have "List.find ?P ([unat ?h..<bm_size b] @ [0..<unat ?h]) = List.find ?P [unat ?h..<bm_size b]"
      using True r(3) by (auto simp: find_append split: option.splits)
    ultimately show ?thesis unfolding so using r(2) by (simp only:)
  next
    case False
    then have "find_bits (Some b) count hint v = Some r2"
      using assms(2) buf r(1) r2(1) by (simp add: find_bits_def read_buffer_def Let_def)
    moreover have "List.find ?P ([unat ?h..<bm_size b] @ [0..<unat ?h]) = List.find ?P [0..<unat ?h]"
      using False r(3) by (simp only: find_append) simp
    ultimately show ?thesis unfolding so using r2(2) by (simp only:)
  qed
qed

section \<open>Properties\<close>

text \<open>
  the word-wise range operations are the obvious bit-wise ones. On a bitmap whose buffer holds its
  words, \<open>RtlSetBits\<close> and \<open>RtlClearBits\<close> do what a loop of \<open>RtlSetBit\<close> (\<open>RtlClearBit\<close>) over the range
  does, padding bits and further words of the buffer included; an empty request or one that is not
  entirely inside the bitmap changes nothing. No word outside the buffer is accessed.
\<close>

theorem RtlSetBits_is_loop:
  assumes "bm_ok b"
  shows "(if v then RtlSetBits else RtlClearBits) (Some b) start count =
    (if in_range b start count
     then map_option Some (for_upto (unat start) (unat start + unat count) (bm_put v) b) else Some (Some b))"
proof (cases "in_range b start count")
  case True
  obtain b' where "(if v then RtlSetBits else RtlClearBits) (Some b) start count = Some (Some b')" "bm_ok b'"
      "bm_frame b' = bm_frame b"
      "\<And>j. bm_get b' j = (if unat start \<le> j \<and> j < unat start + unat count then v else bm_get b j)"
    using write_range [OF assms True, of v] by blast
  moreover from this have "for_upto (unat start) (unat start + unat count) (bm_put v) b = Some b'"
    using True by (intro rtl.put_range_unique [OF assms]) (auto simp: in_range_def)
  ultimately show ?thesis using True by simp
qed (use write_range_outside [OF assms] in simp)

definition sample_bitmap :: RTL_BITMAP where
  "sample_bitmap = \<lparr>SizeOfBitMap = 70, Buffer = Some [0xFFFFFFFF, 0x0000000F, 0xFFFFFFC0]\<rparr>"

lemma sample_bitmap_ok: "bm_ok sample_bitmap"
  by code_simp

theorem RtlSetBits_is_loop_witness:
  "RtlSetBits (Some sample_bitmap) 30 10 = map_option Some (for_upto 30 40 (bm_put True) sample_bitmap) \<and>
   RtlClearBits (Some sample_bitmap) 64 7 = Some (Some sample_bitmap)"
  using RtlSetBits_is_loop [OF sample_bitmap_ok, of True 30 10] RtlSetBits_is_loop [OF sample_bitmap_ok, of False 64 7]
  by (simp add: in_range_def bm_size_def sample_bitmap_def)

text \<open>
  C21: the index allocator \<open>RtlFindClearBitsAndSet\<close>. For a non-empty request it returns the first start,
  in the order from the hint to the end and then from 0 to the hint, of a run of \<open>count\<close> clear bits
  that lies inside the bitmap, and exactly those bits become set; only when no such run exists
  does it return \<open>RTL_BITMAP_NOT_FOUND\<close>, and then nothing changes. The search, which skips and absorbs
  whole words, ends and stays inside the buffer.
\<close>

theorem RtlFindClearBitsAndSet_correct:
  assumes "bm_ok b" and "count \<noteq> 0"
  shows "case List.find (bm_run b False (unat count)) (search_order b hint) of
      None \<Rightarrow> RtlFindClearBitsAndSet (Some b) count hint = Some (RTL_BITMAP_NOT_FOUND, Some b)
    | Some t \<Rightarrow> \<exists>b'. RtlFindClearBitsAndSet (Some b) count hint = Some (of_nat t, Some b') \<and> bm_ok b' \<and>
        bm_frame b' = bm_frame b \<and> t + unat count \<le> bm_size b \<and>
        (\<forall>j. bm_get b' j = (t \<le> j \<and> j < t + unat count \<or> bm_get b j))"
proof (cases "List.find (bm_run b False (unat count)) (search_order b hint)")
  case None
  then show ?thesis
    using find_bits_spec [OF assms, of hint False] by (simp add: RtlFindClearBitsAndSet_def found_at_def)
next
  case (Some t)
  then have t: "bm_run b False (unat count) t" by (auto simp: find_Some_iff)
  have b32: "bm_size b < 2 ^ 32" "0 < unat count"
    using unat_u32_less [of "SizeOfBitMap b"] assms(2) unat_gt_0 [of count] by (auto simp: bm_size_def)
  have u: "unat (of_nat t :: u32) = t" using t b32 by (intro unat_of_nat_u32) (simp add: bm_run_def)
  then have r: "in_range b (of_nat t) count" using t assms(2) by (simp add: in_range_def bm_run_def)
  have "(of_nat t :: u32) \<noteq> RTL_BITMAP_NOT_FOUND"
    using u t b32 by (auto simp: RTL_BITMAP_NOT_FOUND_def bm_run_def dest!: arg_cong [of _ _ unat])
  then show ?thesis
    using write_range [OF assms(1) r, of True] u t Some assms(2) find_bits_spec [OF assms, of hint False]
    by (auto simp: RtlFindClearBitsAndSet_def found_at_def bm_run_def)
qed

theorem RtlFindClearBitsAndSet_correct_witness:
  "\<exists>b'. RtlFindClearBitsAndSet (Some sample_bitmap) 20 40 = Some (40, Some b') \<and> bm_get b' 59 \<and> \<not> bm_get b' 60"
proof -
  have f: "List.find (bm_run sample_bitmap False (unat (20 :: u32))) (search_order sample_bitmap 40) = Some 40"
  proof -
    have "\<forall>j \<in> set [40..<60]. \<not> bm_get sample_bitmap j" by code_simp
    then have "\<forall>j \<in> {40..<60}. \<not> bm_get sample_bitmap j" by (simp only: set_upt)
    moreover have "bm_size sample_bitmap = 70" by (simp add: bm_size_def sample_bitmap_def)
    ultimately have "bm_run sample_bitmap False 20 40" by (simp add: bm_run_def)
    moreover have "search_order sample_bitmap 40 = 40 # [41..<70] @ [0..<40]" by (simp add: search_order_def bm_size_def sample_bitmap_def upt_conv_Cons)
    ultimately show ?thesis by simp
  qed
  have "\<not> bm_get sample_bitmap 60" by code_simp
  then show ?thesis using RtlFindClearBitsAndSet_correct [OF sample_bitmap_ok, of 20 40] unfolding f by auto
qed

text \<open>
  counting and testing. \<open>RtlNumberOfSetBits\<close> is the number of set bits below \<open>SizeOfBitMap\<close>,
  padding never counted, \<open>RtlNumberOfClearBits\<close> the rest; \<open>RtlAreBitsSet\<close> and \<open>RtlAreBitsClear\<close> decide
  whether every bit of the range has the value, with an empty range accepted and a range that is
  not entirely inside refused.
\<close>

theorem RtlNumberOfSetBits_correct:
  assumes "bm_ok b"
  shows "(\<exists>n c. RtlNumberOfSetBits (Some b) = Some n \<and> RtlNumberOfClearBits (Some b) = Some c \<and>
      unat n = card {j. j < bm_size b \<and> bm_get b j} \<and> unat c = card {j. j < bm_size b \<and> \<not> bm_get b j}) \<and>
    RtlAreBitsSet (Some b) start count = Some (count = 0 \<or> in_range b start count \<and>
      (\<forall>j \<in> {unat start..<unat start + unat count}. bm_get b j)) \<and>
    RtlAreBitsClear (Some b) start count = Some (count = 0 \<or> in_range b start count \<and>
      (\<forall>j \<in> {unat start..<unat start + unat count}. \<not> bm_get b j))"
proof -
  obtain n where n: "RtlNumberOfSetBits (Some b) = Some n" "unat n = card (rtl.ones b)"
    using RtlNumberOfSetBits_eq [OF assms] by blast
  have "{j. j < bm_size b \<and> \<not> bm_get b j} = {j. j < bm_size b} - rtl.ones b" by (auto simp: rtl.ones_def)
  then have c: "card {j. j < bm_size b \<and> \<not> bm_get b j} = bm_size b - unat n"
    by (simp add: n(2) card_Diff_subset rtl.ones_def subset_eq)
  have "unat n \<le> bm_size b"
    unfolding n(2) using card_mono [of "{j. j < bm_size b}" "rtl.ones b"] by (simp add: rtl.ones_def subset_eq)
  then have "unat (SizeOfBitMap b - n) = bm_size b - unat n" by (simp add: bm_size_def unat_sub word_le_nat_alt)
  then show ?thesis
    using n c are_bits_eq [OF assms, of start count]
    by (simp add: RtlNumberOfClearBits_def RtlAreBitsSet_def RtlAreBitsClear_def rtl.ones_def Ball_def)
qed

theorem RtlNumberOfSetBits_correct_witness:
  "RtlNumberOfSetBits (Some sample_bitmap) = Some 36 \<and> RtlAreBitsSet (Some sample_bitmap) 0 36 = Some True \<and>
   RtlAreBitsClear (Some sample_bitmap) 36 35 = Some False"
proof -
  have "RtlNumberOfSetBits (Some sample_bitmap) = Some 36" by code_simp
  moreover have "in_range sample_bitmap 0 36" "\<not> in_range sample_bitmap 36 35" by code_simp+
  moreover have "\<forall>j \<in> {unat (0 :: u32)..<unat (0 :: u32) + unat (36 :: u32)}. bm_get sample_bitmap j"
  proof -
    have "\<forall>j \<in> set [0..<36]. bm_get sample_bitmap j" by code_simp
    then have "\<forall>j \<in> {0..<36}. bm_get sample_bitmap j" by (simp only: set_upt)
    then show ?thesis by simp
  qed
  ultimately show ?thesis
    using RtlNumberOfSetBits_correct [OF sample_bitmap_ok, of 0 36] RtlNumberOfSetBits_correct [OF sample_bitmap_ok, of 36 35]
    by auto
qed

end
