(* ===== verification/Ob_Callback.thy ===== *)
theory Ob_Callback
  imports Kernel_Prelude
begin

text \<open>
  \<open>src/kernel/ob/ob_callback.c\<close>: callbacks that filter handle operations. The registry is the array
  \<open>g_callbacks\<close> of 16 nodes, of which the first \<open>g_callback_count\<close> are in use, sorted by altitude.
  Object, type and context pointers are numbers. A pre-callback is the function from what it is
  told to the access mask it leaves; whatever it leaves is admitted. A post-callback is named by
  its address, and dispatching returns the calls that are made. What a pre-callback does to the state of the object manager
  is not part of the dispatcher; \<open>NtDuplicateObject\<close> takes it as an argument. The spin lock is not modelled:
  each operation is one step.
\<close>

section \<open>Registrations\<close>

datatype OB_OPERATION = OB_OPERATION_HANDLE_CREATE | OB_OPERATION_HANDLE_DUPLICATE

definition op_bit :: "OB_OPERATION \<Rightarrow> u32" where
  "op_bit op = (case op of OB_OPERATION_HANDLE_CREATE \<Rightarrow> 1 | OB_OPERATION_HANDLE_DUPLICATE \<Rightarrow> 2)"

record OB_PRE_OPERATION_INFORMATION =
  pre_operation :: OB_OPERATION
  pre_object :: nat
  pre_object_type :: nat
  pre_desired_access :: u32
  pre_context :: nat

record OB_POST_OPERATION_INFORMATION =
  post_operation :: OB_OPERATION
  post_object :: nat
  post_object_type :: nat
  post_granted_access :: u32
  post_context :: nat

type_synonym OB_PRE_OPERATION_CALLBACK = "OB_PRE_OPERATION_INFORMATION \<Rightarrow> u32"

record OB_OPERATION_REGISTRATION =
  or_object_type :: nat
  or_operations :: u32
  or_pre_callback :: "OB_PRE_OPERATION_CALLBACK option"
  or_post_callback :: "nat option"

definition OB_CALLBACK_VERSION :: u16 where "OB_CALLBACK_VERSION = 1"
definition OB_MAX_CALLBACK_OPS :: u16 where "OB_MAX_CALLBACK_OPS = 4"
definition OB_MAX_CALLBACKS :: nat where "OB_MAX_CALLBACKS = 16"
definition OB_CB_ID_MAX :: int where "OB_CB_ID_MAX = 0x7FFFFFFF"
definition OB_MAX_CALLBACK_MATCHES :: nat where
  "OB_MAX_CALLBACK_MATCHES = OB_MAX_CALLBACKS * unat OB_MAX_CALLBACK_OPS"

record OB_CALLBACK_REGISTRATION =
  cr_version :: u16
  cr_operation_count :: u16
  cr_altitude :: u32
  cr_context :: nat
  cr_operations :: "OB_OPERATION_REGISTRATION list"

record ob_callback_node =
  cb_id :: int
  cb_active :: bool
  cb_altitude :: u32
  cb_context :: nat
  cb_op_count :: u16
  cb_ops :: "OB_OPERATION_REGISTRATION list"

record cb_registry =
  g_callbacks :: "ob_callback_node list"
  g_callback_count :: nat
  g_next_cb_id :: int

section \<open>Registering\<close>

text \<open>\<open>for (i = 0; i < count; i++) if (altitude < g_callbacks[i].altitude) { pos = i; break; }\<close>\<close>

primrec insert_pos :: "u32 \<Rightarrow> ob_callback_node list \<Rightarrow> nat" where
  "insert_pos alt [] = 0"
| "insert_pos alt (n # ns) = (if alt < cb_altitude n then 0 else Suc (insert_pos alt ns))"

text \<open>\<open>for (j = count; j > pos; j--) g_callbacks[j] = g_callbacks[j - 1];\<close>\<close>

primrec shift_up :: "nat \<Rightarrow> nat \<Rightarrow> 'a list \<Rightarrow> 'a list option" where
  "shift_up 0 pos a = Some a"
| "shift_up (Suc j) pos a =
     (if pos < Suc j
      then if Suc j < length a then shift_up j pos (a[Suc j := a ! j]) else None
      else Some a)"

text \<open>\<open>for (j = pos; j + 1 < count; j++) g_callbacks[j] = g_callbacks[j + 1];\<close>\<close>

definition shift_down :: "nat \<Rightarrow> nat \<Rightarrow> 'a list \<Rightarrow> 'a list option" where
  "shift_down pos count a =
     for_upto pos (count - 1) (\<lambda>j a. if Suc j < length a then Some (a[j := a ! Suc j]) else None) a"

text \<open>The \<open>ops\<close> array of the node keeps what lay there beyond the operations copied.\<close>

definition copy_ops :: "nat \<Rightarrow> OB_OPERATION_REGISTRATION list \<Rightarrow> OB_OPERATION_REGISTRATION list \<Rightarrow>
    OB_OPERATION_REGISTRATION list option" where
  "copy_ops n src dst = (if n \<le> length src \<and> n \<le> length dst then Some (take n src @ drop n dst) else None)"

text \<open>Result and \<open>*out_handle\<close> if it is written.\<close>

definition ObRegisterCallbacks ::
  "OB_CALLBACK_REGISTRATION option \<Rightarrow> bool \<Rightarrow> cb_registry \<Rightarrow> (int \<times> int option \<times> cb_registry) option" where
  "ObRegisterCallbacks reg out_ptr g =
     (case reg of
        None \<Rightarrow> Some (-1, None, g)
      | Some r \<Rightarrow>
          if \<not> out_ptr then Some (-1, None, g)
          else if cr_version r \<noteq> OB_CALLBACK_VERSION then Some (-1, None, g)
          else if cr_operation_count r = 0 \<or> cr_operation_count r > OB_MAX_CALLBACK_OPS then Some (-1, None, g)
          else if g_callback_count g \<ge> OB_MAX_CALLBACKS then Some (-1, None, g)
          else if g_next_cb_id g = OB_CB_ID_MAX then Some (-1, None, g)
          else do {
            let count = g_callback_count g;
            let pos = insert_pos (cr_altitude r) (take count (g_callbacks g));
            a \<leftarrow> shift_up count pos (g_callbacks g);
            if length a \<le> pos then None
            else do {
              ops \<leftarrow> copy_ops (unat (cr_operation_count r)) (cr_operations r) (cb_ops (a ! pos));
              let node = \<lparr>cb_id = g_next_cb_id g, cb_active = True, cb_altitude = cr_altitude r,
                          cb_context = cr_context r, cb_op_count = cr_operation_count r, cb_ops = ops\<rparr>;
              Some (0, Some (g_next_cb_id g),
                    g\<lparr>g_callbacks := a[pos := node], g_callback_count := count + 1,
                      g_next_cb_id := g_next_cb_id g + 1\<rparr>) } })"

text \<open>The index of the active node with the given id, \<open>count\<close> if there is none.\<close>

primrec find_cb :: "int \<Rightarrow> ob_callback_node list \<Rightarrow> nat" where
  "find_cb h [] = 0"
| "find_cb h (n # ns) = (if cb_active n \<and> cb_id n = h then 0 else Suc (find_cb h ns))"

definition ObUnRegisterCallbacks :: "int \<Rightarrow> cb_registry \<Rightarrow> cb_registry option" where
  "ObUnRegisterCallbacks h g =
     (if h \<le> 0 then Some g
      else
        let count = g_callback_count g; pos = find_cb h (take count (g_callbacks g)) in
        if pos \<ge> count then Some g
        else do {
          a \<leftarrow> shift_down pos count (g_callbacks g);
          let freed = count - 1;
          if length a \<le> freed then None
          else Some (g\<lparr>g_callbacks := a[freed := (a ! freed)\<lparr>cb_active := False, cb_id := 0\<rparr>],
                       g_callback_count := freed\<rparr>) })"

section \<open>Dispatching\<close>

text \<open>
  The snapshot of the matching callbacks: the nodes in order, of each active one the operations in
  order that concern this type and operation and have a callback, at most
  \<^const>\<open>OB_MAX_CALLBACK_MATCHES\<close> in all. \<open>sel\<close> picks the pre- or the post-callback.
\<close>

definition op_matches :: "OB_OPERATION \<Rightarrow> nat \<Rightarrow> OB_OPERATION_REGISTRATION \<Rightarrow> bool" where
  "op_matches op type r \<longleftrightarrow> or_object_type r = type \<and> or_operations r AND op_bit op \<noteq> 0"

primrec snap_ops :: "(OB_OPERATION_REGISTRATION \<Rightarrow> 'c option) \<Rightarrow> OB_OPERATION \<Rightarrow> nat \<Rightarrow> nat \<Rightarrow>
    OB_OPERATION_REGISTRATION list \<Rightarrow> ('c \<times> nat) list \<Rightarrow> ('c \<times> nat) list" where
  "snap_ops sel op type ctx [] snap = snap"
| "snap_ops sel op type ctx (r # rs) snap =
     (if \<not> length snap < OB_MAX_CALLBACK_MATCHES then snap
      else snap_ops sel op type ctx rs
        (if op_matches op type r then (case sel r of None \<Rightarrow> snap | Some c \<Rightarrow> snap @ [(c, ctx)]) else snap))"

primrec snap_nodes :: "(OB_OPERATION_REGISTRATION \<Rightarrow> 'c option) \<Rightarrow> OB_OPERATION \<Rightarrow> nat \<Rightarrow>
    ob_callback_node list \<Rightarrow> ('c \<times> nat) list \<Rightarrow> ('c \<times> nat) list" where
  "snap_nodes sel op type [] snap = snap"
| "snap_nodes sel op type (n # ns) snap =
     (if \<not> length snap < OB_MAX_CALLBACK_MATCHES then snap
      else snap_nodes sel op type ns
        (if cb_active n then snap_ops sel op type (cb_context n) (take (unat (cb_op_count n)) (cb_ops n)) snap else snap))"

definition snapshot :: "(OB_OPERATION_REGISTRATION \<Rightarrow> 'c option) \<Rightarrow> OB_OPERATION \<Rightarrow> nat \<Rightarrow> cb_registry \<Rightarrow> ('c \<times> nat) list" where
  "snapshot sel op type g = snap_nodes sel op type (take (g_callback_count g) (g_callbacks g)) []"

text \<open>Phase 2: each callback sees the surviving mask and can only strip bits from it.\<close>

primrec run_pre :: "OB_OPERATION \<Rightarrow> nat \<Rightarrow> nat \<Rightarrow> (OB_PRE_OPERATION_CALLBACK \<times> nat) list \<Rightarrow> u32 \<Rightarrow> int \<times> u32" where
  "run_pre op object type [] access = (0, access)"
| "run_pre op object type (c # cs) access =
     (let prior = access;
          access = fst c \<lparr>pre_operation = op, pre_object = object, pre_object_type = type,
                          pre_desired_access = access, pre_context = snd c\<rparr> AND prior
      in if access = 0 \<and> prior \<noteq> 0 then (-1, access) else run_pre op object type cs access)"

definition ob_dispatch_pre :: "OB_OPERATION \<Rightarrow> nat \<Rightarrow> nat \<Rightarrow> u32 \<Rightarrow> cb_registry \<Rightarrow> int \<times> u32" where
  "ob_dispatch_pre op object type access g =
     run_pre op object type (snapshot or_pre_callback op type g) access"

definition ob_invoke_pre_callbacks :: "OB_OPERATION \<Rightarrow> nat \<Rightarrow> nat \<Rightarrow> u32 \<Rightarrow> cb_registry \<Rightarrow> int \<times> u32" where
  "ob_invoke_pre_callbacks op object type access g =
     (if g_callback_count g = 0 then (0, access) else ob_dispatch_pre op object type access g)"

definition ob_dispatch_post :: "OB_OPERATION \<Rightarrow> nat \<Rightarrow> nat \<Rightarrow> u32 \<Rightarrow> cb_registry \<Rightarrow> (nat \<times> OB_POST_OPERATION_INFORMATION) list" where
  "ob_dispatch_post op object type granted g =
     map (\<lambda>(c, ctx). (c, \<lparr>post_operation = op, post_object = object, post_object_type = type,
                          post_granted_access = granted, post_context = ctx\<rparr>))
       (snapshot or_post_callback op type g)"

definition ob_invoke_post_callbacks :: "OB_OPERATION \<Rightarrow> nat \<Rightarrow> nat \<Rightarrow> u32 \<Rightarrow> cb_registry \<Rightarrow> (nat \<times> OB_POST_OPERATION_INFORMATION) list" where
  "ob_invoke_post_callbacks op object type granted g =
     (if g_callback_count g = 0 then [] else ob_dispatch_post op object type granted g)"

end
