(* ===== verification/Mm_Pmm.thy ===== *)
theory Mm_Pmm
  imports Bit_Store
begin

text \<open>
  \<open>src/kernel/mm/pmm.c\<close>: the physical memory manager, one bit per 4 KiB frame, 1 for a frame in use. The bitmap is the
  list of its bytes, and an access outside it is the value \<^term>\<open>None\<close>. Frame numbers, which the code bounds by \<open>total_frames\<close>
  before it uses them, are natural numbers; addresses, lengths and counts are 64-bit words. The build is the one without
  \<open>KERNEL_TESTS\<close>, so there is no fault injection. \<open>pmm_init\<close> is in the theory of the boot handoff.
\<close>

section \<open>The bitmap\<close>

definition PMM_FRAME_SIZE :: u64 where "PMM_FRAME_SIZE = 4096"
definition PMM_PHYS_ADDR_CAP :: u64 where "PMM_PHYS_ADDR_CAP = 0x100000000"

record pmm_state =
  bitmap :: bytes
  bitmap_size :: u64
  total_frames :: u64
  used_frames :: u64

definition bitmap_set :: "nat \<Rightarrow> pmm_state \<Rightarrow> pmm_state option" where
  "bitmap_set f s = do {
     b \<leftarrow> rd8 (bitmap s) (f div 8);
     m \<leftarrow> wr8 (bitmap s) (f div 8) (b OR push_bit (f mod 8) 1);
     Some (s\<lparr>bitmap := m\<rparr>) }"

definition bitmap_clear :: "nat \<Rightarrow> pmm_state \<Rightarrow> pmm_state option" where
  "bitmap_clear f s = do {
     b \<leftarrow> rd8 (bitmap s) (f div 8);
     m \<leftarrow> wr8 (bitmap s) (f div 8) (b AND NOT (push_bit (f mod 8) 1));
     Some (s\<lparr>bitmap := m\<rparr>) }"

definition bitmap_test :: "nat \<Rightarrow> pmm_state \<Rightarrow> u8 option" where
  "bitmap_test f s = do {
     b \<leftarrow> rd8 (bitmap s) (f div 8);
     Some (b AND push_bit (f mod 8) 1) }"

text \<open>The bodies of the two marking loops.\<close>

definition mark_frame_used :: "nat \<Rightarrow> pmm_state \<Rightarrow> pmm_state option" where
  "mark_frame_used f s = do {
     t \<leftarrow> bitmap_test f s;
     if t = 0 then do { s \<leftarrow> bitmap_set f s; Some (s\<lparr>used_frames := used_frames s + 1\<rparr>) } else Some s }"

definition mark_frame_free :: "nat \<Rightarrow> pmm_state \<Rightarrow> pmm_state option" where
  "mark_frame_free f s = do {
     t \<leftarrow> bitmap_test f s;
     if t \<noteq> 0 then do { s \<leftarrow> bitmap_clear f s; Some (s\<lparr>used_frames := used_frames s - 1\<rparr>) } else Some s }"

definition pmm_mark_region_used :: "u64 \<Rightarrow> u64 \<Rightarrow> pmm_state \<Rightarrow> pmm_state option" where
  "pmm_mark_region_used base len s =
     (let frame_start = base div PMM_FRAME_SIZE;
          frame_end = (base + len + PMM_FRAME_SIZE - 1) div PMM_FRAME_SIZE;
          frame_end = (if frame_end > total_frames s then total_frames s else frame_end)
      in for_upto (unat frame_start) (unat frame_end) mark_frame_used s)"

definition pmm_mark_region_free :: "u64 \<Rightarrow> u64 \<Rightarrow> pmm_state \<Rightarrow> pmm_state option" where
  "pmm_mark_region_free base len s =
     (let frame_start = base div PMM_FRAME_SIZE;
          frame_end = (base + len) div PMM_FRAME_SIZE;
          frame_end = (if frame_end > total_frames s then total_frames s else frame_end)
      in for_upto (unat frame_start) (unat frame_end) mark_frame_free s)"

section \<open>Allocation\<close>

text \<open>The search for a free bit in byte \<open>i\<close>, from \<open>bit\<close> on: \<^term>\<open>None\<close> when the loop runs out, else what the function returns.\<close>

function alloc_bit :: "nat \<Rightarrow> nat \<Rightarrow> pmm_state \<Rightarrow> (u64 \<times> pmm_state) option option" where
  "alloc_bit i b s =
     (if b < 8 then
        let f = i * 8 + b in
        if f \<ge> unat (total_frames s) then Some (Some (0, s))
        else (case bitmap_test f s of
            None \<Rightarrow> None
          | Some t \<Rightarrow>
              if t = 0 then do {
                s \<leftarrow> bitmap_set f s;
                Some (Some (of_nat f * PMM_FRAME_SIZE, s\<lparr>used_frames := used_frames s + 1\<rparr>)) }
              else alloc_bit i (Suc b) s)
      else Some None)"
  by pat_completeness auto
termination
  by (relation "measure (\<lambda>(i, b, s). 8 - b)") auto

function alloc_byte :: "nat \<Rightarrow> pmm_state \<Rightarrow> (u64 \<times> pmm_state) option" where
  "alloc_byte i s =
     (if i < unat (bitmap_size s) then
        (case rd8 (bitmap s) i of
            None \<Rightarrow> None
          | Some b \<Rightarrow>
              if b = 0xFF then alloc_byte (Suc i) s
              else (case alloc_bit i 0 s of
                  None \<Rightarrow> None
                | Some (Some r) \<Rightarrow> Some r
                | Some None \<Rightarrow> alloc_byte (Suc i) s))
      else Some (0, s))"
  by pat_completeness auto
termination
  by (relation "measure (\<lambda>(i, s). unat (bitmap_size s) - i)") auto

definition pmm_alloc_frame :: "pmm_state \<Rightarrow> (u64 \<times> pmm_state) option" where
  "pmm_alloc_frame s = alloc_byte 0 s"

text \<open>The scan for a run; the body of the loop that claims it.\<close>

definition claim_frame :: "nat \<Rightarrow> nat \<Rightarrow> pmm_state \<Rightarrow> pmm_state option" where
  "claim_frame run_start i s = do { s \<leftarrow> bitmap_set (run_start + i) s; Some (s\<lparr>used_frames := used_frames s + 1\<rparr>) }"

function scan_run :: "nat \<Rightarrow> nat \<Rightarrow> nat \<Rightarrow> nat \<Rightarrow> pmm_state \<Rightarrow> (u64 \<times> pmm_state) option" where
  "scan_run n f run_start run_len s =
     (if f < unat (total_frames s) then
        (case bitmap_test f s of
            None \<Rightarrow> None
          | Some t \<Rightarrow>
              if t \<noteq> 0 then scan_run n (Suc f) (Suc f) 0 s
              else if Suc run_len \<ge> n then do {
                s \<leftarrow> for_upto 0 n (claim_frame run_start) s;
                Some (of_nat run_start * PMM_FRAME_SIZE, s) }
              else scan_run n (Suc f) run_start (Suc run_len) s)
      else Some (0, s))"
  by pat_completeness auto
termination
  by (relation "measure (\<lambda>(n, f, rs, rl, s). unat (total_frames s) - f)") auto

declare alloc_bit.simps [simp del] alloc_byte.simps [simp del] scan_run.simps [simp del]

definition pmm_alloc_contiguous :: "u64 \<Rightarrow> pmm_state \<Rightarrow> (u64 \<times> pmm_state) option" where
  "pmm_alloc_contiguous n s =
     (if n = 0 then Some (0, s)
      else if n = 1 then pmm_alloc_frame s
      else scan_run (unat n) 0 0 0 s)"

section \<open>Release\<close>

definition pmm_free_frame :: "u64 \<Rightarrow> pmm_state \<Rightarrow> pmm_state option" where
  "pmm_free_frame addr s =
     (let f = addr div PMM_FRAME_SIZE
      in if f \<ge> total_frames s then Some s else mark_frame_free (unat f) s)"

definition pmm_free_contiguous :: "u64 \<Rightarrow> u64 \<Rightarrow> pmm_state \<Rightarrow> pmm_state option" where
  "pmm_free_contiguous base n s =
     (if base = 0 \<or> n = 0 then Some s
      else for_upto 0 (unat n) (\<lambda>i. pmm_free_frame (base + of_nat i * PMM_FRAME_SIZE)) s)"

section \<open>The direct map\<close>

definition MM_HHDM_BASE :: u64 where "MM_HHDM_BASE = 0xffff888000000000"
definition MM_HHDM_SIZE :: u64 where "MM_HHDM_SIZE = 0x0000400000000000"

definition mm_phys_in_hhdm :: "u64 \<Rightarrow> bool" where
  "mm_phys_in_hhdm phys \<longleftrightarrow> phys \<noteq> 0 \<and> phys < MM_HHDM_SIZE"

definition mm_phys_extent_in_hhdm :: "u64 \<Rightarrow> u64 \<Rightarrow> bool" where
  "mm_phys_extent_in_hhdm phys n \<longleftrightarrow>
     (if \<not> mm_phys_in_hhdm phys \<or> n = 0 then False
      else if phys + n < phys then False
      else phys + n \<le> MM_HHDM_SIZE)"

definition mm_phys_to_hhdm :: "u64 \<Rightarrow> u64" where
  "mm_phys_to_hhdm phys = (if \<not> mm_phys_in_hhdm phys then 0 else phys + MM_HHDM_BASE)"

text \<open>The result is the returned pointer, the values of \<open>*out_phys\<close> and \<open>*out_pages\<close> if they are written, and the state.\<close>

definition pmm_alloc_pages_hhdm :: "u64 \<Rightarrow> pmm_state \<Rightarrow> (u64 \<times> (u64 \<times> u64) option \<times> pmm_state) option" where
  "pmm_alloc_pages_hhdm n s =
     (if n = 0 then Some (0, None, s)
      else if n > -1 - (PMM_FRAME_SIZE - 1) then Some (0, None, s)
      else do {
        let pages = (n + PMM_FRAME_SIZE - 1) div PMM_FRAME_SIZE;
        (phys, s) \<leftarrow> pmm_alloc_contiguous pages s;
        if phys = 0 then Some (0, None, s)
        else if \<not> mm_phys_extent_in_hhdm phys (pages * PMM_FRAME_SIZE) then do {
          s \<leftarrow> pmm_free_contiguous phys pages s;
          Some (0, None, s) }
        else do {
          let virt = mm_phys_to_hhdm phys;
          if virt = 0 then do {
            s \<leftarrow> pmm_free_contiguous phys pages s;
            Some (0, None, s) }
          else Some (virt, Some (phys, pages), s) } })"

section \<open>Queries\<close>

definition pmm_frame_is_free :: "u64 \<Rightarrow> pmm_state \<Rightarrow> bool option" where
  "pmm_frame_is_free addr s =
     (let f = addr div PMM_FRAME_SIZE
      in if f \<ge> total_frames s then Some False
         else do { t \<leftarrow> bitmap_test (unat f) s; Some (t = 0) })"

definition pmm_get_total_frames :: "pmm_state \<Rightarrow> u64" where "pmm_get_total_frames s = total_frames s"
definition pmm_get_used_frames :: "pmm_state \<Rightarrow> u64" where "pmm_get_used_frames s = used_frames s"
definition pmm_get_free_frames :: "pmm_state \<Rightarrow> u64" where "pmm_get_free_frames s = total_frames s - used_frames s"

end
