(* ===== verification/Ob_Object.thy ===== *)
theory Ob_Object
  imports Sec_Assign Sec_Privileges Ob_Callback Mm_Pmm
begin

text \<open>
  \<open>src/kernel/ob/ob.c\<close>: the type registry, allocation of objects and their reference counts.

  Pointers are numbers, 0 the null pointer. Pointers to type descriptors count rows of
  \<open>g_ob_types\<close>: row \<open>i\<close> is \<open>i + 1\<close>, and any larger number is a descriptor outside the table, kept in
  \<open>other_types\<close>. The headers of the live objects are a map from body addresses; a header is reached through its body
  (\<open>OB_HEADER_FROM_BODY\<close>), a freed one is no longer in the map, and using it is the value \<^term>\<open>None\<close>.
  What the type's own routines \<open>on_close\<close> and \<open>on_delete\<close> do to the body is outside the object manager: a
  call is an entry of the event log, as are the blocks taken from and returned to the allocators.
  Results of the allocators are arguments. Each function is one step: atomics act on the one state,
  and messages to the kernel log are left out.
\<close>

section \<open>Types, headers and handle tables\<close>

record OBJECT_TYPE =
  ty_name :: "string option"
  ty_body_size :: u64
  ty_on_close :: bool
  ty_on_delete :: bool
  ty_on_open :: "(nat \<Rightarrow> u32 \<Rightarrow> int) option"
  ty_on_parse :: bool
  ty_total_objects :: u32
  ty_total_handles :: u32
  ty_peak_objects :: u32
  ty_peak_handles :: u32
  ty_tracing_enabled :: bool

text \<open>What \<open>hdr->security\<close> points to: nothing, the creator descriptor in the tail of the block, a
  self-relative default descriptor, or a descriptor of the caller.\<close>

datatype SD_PTR = SD_null | SD_tail SECURITY_DESCRIPTOR | SD_blob bytes | SD_at nat

record OBJECT_HEADER =
  ref_count :: u32
  handle_count :: u32
  hdr_type :: nat
  hdr_name :: "string option"
  hdr_security :: SD_PTR
  hdr_trace :: nat
  hdr_flags :: u32

definition OB_FLAG_PERMANENT :: u32 where "OB_FLAG_PERMANENT = 1"
definition OB_FLAG_KERNEL_ONLY :: u32 where "OB_FLAG_KERNEL_ONLY = 2"
definition OB_FLAG_NAMED :: u32 where "OB_FLAG_NAMED = 4"
definition OB_FLAG_PMM_ALLOC :: u32 where "OB_FLAG_PMM_ALLOC = 8"
definition OB_FLAG_TAIL_SD :: u32 where "OB_FLAG_TAIL_SD = 16"
definition OB_MAX_TYPES :: nat where "OB_MAX_TYPES = 64"
definition sizeof_OBJECT_HEADER :: u64 where "sizeof_OBJECT_HEADER = 48"
definition sizeof_ob_creator_sd :: u64 where "sizeof_ob_creator_sd = 168"
definition SE_SD_TYPE_DEFAULT :: u32 where "SE_SD_TYPE_DEFAULT = 0"

record HANDLE_TABLE_ENTRY =
  e_object :: nat
  granted_access :: u32
  attributes :: u32

text \<open>\<open>entries\<close> is the array the pointer of that name points to, \<open>entries_at\<close> its address.\<close>

record HANDLE_TABLE =
  entries :: "HANDLE_TABLE_ENTRY list option"
  entries_at :: nat
  capacity :: u32
  ht_count :: u32
  handle_limit :: u32
  quota_warned :: bool

record ob_task =
  task_token :: "ACCESS_TOKEN option"
  total_handles_created :: u64

datatype ob_event =
    Kmalloc nat u64
  | PmmAlloc nat u64
  | Kfree nat
  | PmmFreeFrame nat
  | OnDelete nat
  | OnClose nat
  | PostCallback nat OB_POST_OPERATION_INFORMATION

record ob_state =
  g_ob_types :: "OBJECT_TYPE list"
  g_ob_type_count :: u32
  other_types :: "nat \<rightharpoonup> OBJECT_TYPE"
  ob_heap :: "nat \<rightharpoonup> OBJECT_HEADER"
  ob_tables :: "nat \<rightharpoonup> HANDLE_TABLE"
  ob_callbacks :: cb_registry
  ob_default_sds :: default_sds
  task_current :: "ob_task option"
  ob_log :: "ob_event list"

definition log_event :: "ob_event \<Rightarrow> ob_state \<Rightarrow> ob_state" where
  "log_event e s = s\<lparr>ob_log := ob_log s @ [e]\<rparr>"

section \<open>The type registry\<close>

definition type_at :: "nat \<Rightarrow> ob_state \<Rightarrow> OBJECT_TYPE option" where
  "type_at t s =
     (if t = 0 then None
      else if t \<le> length (g_ob_types s) then Some (g_ob_types s ! (t - 1)) else other_types s t)"

definition ob_create_type :: "OBJECT_TYPE \<Rightarrow> ob_state \<Rightarrow> (nat \<times> ob_state) option" where
  "ob_create_type tmpl s =
     (let n = unat (g_ob_type_count s) in
      if n \<ge> OB_MAX_TYPES then Some (0, s)
      else if length (g_ob_types s) \<le> n then None
      else
        let slot = (g_ob_types s ! n)\<lparr>ty_name := ty_name tmpl, ty_body_size := ty_body_size tmpl,
              ty_on_close := ty_on_close tmpl, ty_on_delete := ty_on_delete tmpl,
              ty_on_open := ty_on_open tmpl, ty_on_parse := ty_on_parse tmpl\<rparr>
        in Some (n + 1, s\<lparr>g_ob_types := (g_ob_types s)[n := slot], g_ob_type_count := g_ob_type_count s + 1\<rparr>))"

definition ob_get_types :: "ob_state \<Rightarrow> OBJECT_TYPE list \<times> u32" where
  "ob_get_types s = (g_ob_types s, g_ob_type_count s)"

text \<open>The row a type pointer selects for statistics: none for the null pointer and for a descriptor outside the
  registered rows.\<close>

definition ob_type_stats_slot :: "nat \<Rightarrow> ob_state \<Rightarrow> nat option" where
  "ob_type_stats_slot t s =
     (if t = 0 then None
      else let base = 1; endp = base + unat (g_ob_type_count s) in
        if t < base \<or> t \<ge> endp then None else Some (t - base))"

text \<open>The compare-and-swap loop of \<open>ob_stat_lift_peak\<close>, with nobody else writing.\<close>

definition ob_stat_lift_peak :: "u32 \<Rightarrow> u32 \<Rightarrow> u32" where
  "ob_stat_lift_peak peak cur = (if sint cur \<le> 0 then peak else if cur > peak then cur else peak)"

definition stat_update :: "(OBJECT_TYPE \<Rightarrow> OBJECT_TYPE) \<Rightarrow> nat \<Rightarrow> ob_state \<Rightarrow> ob_state" where
  "stat_update f t s =
     (case ob_type_stats_slot t s of
        None \<Rightarrow> s
      | Some i \<Rightarrow> s\<lparr>g_ob_types := (g_ob_types s)[i := f (g_ob_types s ! i)]\<rparr>)"

definition count_object :: "OBJECT_TYPE \<Rightarrow> OBJECT_TYPE" where
  "count_object ty = (let cur = ty_total_objects ty + 1 in
     ty\<lparr>ty_total_objects := cur, ty_peak_objects := ob_stat_lift_peak (ty_peak_objects ty) cur\<rparr>)"

definition uncount_object :: "OBJECT_TYPE \<Rightarrow> OBJECT_TYPE" where
  "uncount_object ty = ty\<lparr>ty_total_objects := ty_total_objects ty - 1\<rparr>"

definition count_handle :: "OBJECT_TYPE \<Rightarrow> OBJECT_TYPE" where
  "count_handle ty = (let cur = ty_total_handles ty + 1 in
     ty\<lparr>ty_total_handles := cur, ty_peak_handles := ob_stat_lift_peak (ty_peak_handles ty) cur\<rparr>)"

definition uncount_handle :: "OBJECT_TYPE \<Rightarrow> OBJECT_TYPE" where
  "uncount_handle ty = ty\<lparr>ty_total_handles := ty_total_handles ty - 1\<rparr>"

section \<open>Allocation\<close>

definition frames_for :: "u64 \<Rightarrow> u64" where
  "frames_for sz = (sz + PMM_FRAME_SIZE - 1) div PMM_FRAME_SIZE"

text \<open>
  The descriptor of a new object. The creator's is built in the zeroed tail of the block; \<open>acl_buf\<close> is
  the uninitialised stack array of the default descriptor builders.
\<close>

definition attach_security :: "bytes \<Rightarrow> ACCESS_TOKEN option \<Rightarrow> ob_state \<Rightarrow> (SD_PTR \<times> ob_state) option" where
  "attach_security acl_buf tok s =
     (let fallback = do {
        (blob, g) \<leftarrow> SeCreateDefaultSD acl_buf SE_SD_TYPE_DEFAULT (ob_default_sds s);
        Some (case blob of None \<Rightarrow> SD_null | Some b \<Rightarrow> SD_blob b, s\<lparr>ob_default_sds := g\<rparr>) } in
      case tok of
        None \<Rightarrow> fallback
      | Some t \<Rightarrow> do {
          let zero_sd = \<lparr>sd_Revision = 0, sd_Sbz1 = 0, sd_Control = 0, sd_Owner = None, sd_Group = None,
                         sd_Sacl = None, sd_Dacl = None\<rparr>;
          (rc, sd, d) \<leftarrow> SeCreateCreatorSD (Some zero_sd) (t_UserSid t) (Some (replicate 128 0)) 128;
          if rc = 0 then Some (case sd of None \<Rightarrow> SD_null | Some d' \<Rightarrow> SD_tail d', s) else fallback })"

text \<open>\<open>blk\<close> is the address \<open>kmalloc\<close> or \<open>pmm_alloc_contiguous\<close> returns, \<open>trc\<close> what \<open>ob_trace_alloc\<close> returns.
  The result is the body address.\<close>

definition ob_alloc_object :: "nat \<Rightarrow> nat \<Rightarrow> bytes \<Rightarrow> nat \<Rightarrow> ob_state \<Rightarrow> (nat \<times> ob_state) option" where
  "ob_alloc_object blk trc acl_buf type s =
     (if type = 0 then Some (0, s)
      else do {
        ty \<leftarrow> type_at type s;
        if ty_body_size ty > -1 - sizeof_OBJECT_HEADER then Some (0, s)
        else do {
          let sz = sizeof_OBJECT_HEADER + ty_body_size ty;
          let tok = (case task_current s of None \<Rightarrow> None | Some c \<Rightarrow> task_token c);
          if tok \<noteq> None \<and> sizeof_ob_creator_sd > -1 - sz then Some (0, s)
          else do {
            let sz = (if tok \<noteq> None then sz + sizeof_ob_creator_sd else sz);
            if blk = 0 then Some (0, s)
            else do {
              let s = log_event (if sz \<le> PMM_FRAME_SIZE then Kmalloc blk sz else PmmAlloc blk (frames_for sz)) s;
              let flags = (if sz > PMM_FRAME_SIZE then OB_FLAG_PMM_ALLOC else 0) OR
                          (if tok \<noteq> None then OB_FLAG_TAIL_SD else 0);
              (sec, s) \<leftarrow> attach_security acl_buf tok s;
              let trace = (if ty_tracing_enabled ty then trc else 0);
              let body = blk + unat sizeof_OBJECT_HEADER;
              let s = s\<lparr>ob_heap := (ob_heap s)(body \<mapsto>
                \<lparr>ref_count = 1, handle_count = 0, hdr_type = type, hdr_name = None, hdr_security = sec,
                 hdr_trace = trace, hdr_flags = flags\<rparr>)\<rparr>;
              Some (body, stat_update count_object type s) } } } })"

section \<open>Reference counts\<close>

definition put_header :: "nat \<Rightarrow> OBJECT_HEADER \<Rightarrow> ob_state \<Rightarrow> ob_state" where
  "put_header body h s = s\<lparr>ob_heap := (ob_heap s)(body \<mapsto> h)\<rparr>"

definition ObReferenceObject :: "nat \<Rightarrow> ob_state \<Rightarrow> ob_state option" where
  "ObReferenceObject body s = do {
     h \<leftarrow> ob_heap s body;
     Some (put_header body (h\<lparr>ref_count := ref_count h + 1\<rparr>) s) }"

definition ObReferenceObjectSafe :: "nat \<Rightarrow> ob_state \<Rightarrow> (int \<times> ob_state) option" where
  "ObReferenceObjectSafe body s = do {
     h \<leftarrow> ob_heap s body;
     Some (if sint (ref_count h) > 0 then (0, put_header body (h\<lparr>ref_count := ref_count h + 1\<rparr>) s) else (-1, s)) }"

definition ob_free_object :: "nat \<Rightarrow> ob_state \<Rightarrow> ob_state option" where
  "ob_free_object body s = do {
     h \<leftarrow> ob_heap s body;
     let s = stat_update uncount_object (hdr_type h) s;
     let s = (if hdr_trace h \<noteq> 0 then log_event (Kfree (hdr_trace h)) s else s);
     let block = body - unat sizeof_OBJECT_HEADER;
     if hdr_flags h AND OB_FLAG_PMM_ALLOC \<noteq> 0 then do {
       ty \<leftarrow> type_at (hdr_type h) s;
       let sz = sizeof_OBJECT_HEADER + ty_body_size ty;
       let sz = (if hdr_flags h AND OB_FLAG_TAIL_SD \<noteq> 0 then sz + sizeof_ob_creator_sd else sz);
       let freed = map (\<lambda>i. PmmFreeFrame (block + i * unat PMM_FRAME_SIZE)) [0..<unat (frames_for sz)];
       Some (s\<lparr>ob_log := ob_log s @ freed, ob_heap := (ob_heap s)(body := None)\<rparr>) }
     else Some (log_event (Kfree block) (s\<lparr>ob_heap := (ob_heap s)(body := None)\<rparr>)) }"

definition ObDereferenceObject :: "nat \<Rightarrow> ob_state \<Rightarrow> (u32 \<times> ob_state) option" where
  "ObDereferenceObject body s = do {
     h \<leftarrow> ob_heap s body;
     let h = h\<lparr>ref_count := ref_count h - 1\<rparr>;
     let s = put_header body h s;
     if ref_count h = 0 then
       if hdr_flags h AND OB_FLAG_PERMANENT \<noteq> 0
       then Some (1, put_header body (h\<lparr>ref_count := 1\<rparr>) s)
       else do {
         ty \<leftarrow> type_at (hdr_type h) s;
         let s = (if ty_on_delete ty then log_event (OnDelete body) s else s);
         s \<leftarrow> ob_free_object body s;
         Some (0, s) }
     else Some (ref_count h, s) }"

definition ObReferenceObjectByPointer :: "nat \<Rightarrow> nat \<Rightarrow> u32 \<Rightarrow> ob_state \<Rightarrow> (int \<times> ob_state) option" where
  "ObReferenceObjectByPointer body expected_type access s = do {
     h \<leftarrow> ob_heap s body;
     if hdr_type h \<noteq> expected_type then Some (-1, s) else ObReferenceObjectSafe body s }"

definition ObMakeTemporaryObject :: "nat \<Rightarrow> ob_state \<Rightarrow> ob_state option" where
  "ObMakeTemporaryObject body s = do {
     h \<leftarrow> ob_heap s body;
     Some (put_header body (h\<lparr>hdr_flags := hdr_flags h AND NOT OB_FLAG_PERMANENT\<rparr>) s) }"

definition ObSetSecurityDescriptor :: "nat \<Rightarrow> SD_PTR \<Rightarrow> ob_state \<Rightarrow> ob_state option" where
  "ObSetSecurityDescriptor body sd s =
     (if body = 0 then Some s
      else do { h \<leftarrow> ob_heap s body; Some (put_header body (h\<lparr>hdr_security := sd\<rparr>) s) })"

definition ObGetSecurityDescriptor :: "nat \<Rightarrow> ob_state \<Rightarrow> SD_PTR option" where
  "ObGetSecurityDescriptor body s =
     (if body = 0 then Some SD_null else do { h \<leftarrow> ob_heap s body; Some (hdr_security h) })"

end
