(* ===== verification/Ob_Handle.thy ===== *)
theory Ob_Handle
  imports Ob_Object
begin

text \<open>
  \<open>src/kernel/ob/handle_table.c\<close> and the handle services of \<open>ob.c\<close> and \<open>token.c\<close>. A
  handle table is named by the number of its \<open>HANDLE_TABLE\<close> structure in \<open>ob_tables\<close>, so that two arguments may
  name the same table. A handle is the 32-bit signed number, four times the slot index. \<open>mem\<close> answers
  the requests for entry arrays: the address for an array of that many slots, 0 when there is no memory.
\<close>

section \<open>The entry array\<close>

definition OBJ_INHERIT :: u32 where "OBJ_INHERIT = 2"
definition OBJ_PROTECT_CLOSE :: u32 where "OBJ_PROTECT_CLOSE = 1"
definition INVALID_HANDLE_VALUE :: int where "INVALID_HANDLE_VALUE = -1"
definition HANDLE_TABLE_INIT_CAP :: u32 where "HANDLE_TABLE_INIT_CAP = 64"
definition HANDLE_TABLE_DEFAULT_LIMIT :: u32 where "HANDLE_TABLE_DEFAULT_LIMIT = 16384"
definition HANDLE_TABLE_ABSOLUTE_MAX :: u32 where "HANDLE_TABLE_ABSOLUTE_MAX = 1048576"
definition sizeof_HANDLE_TABLE_ENTRY :: u64 where "sizeof_HANDLE_TABLE_ENTRY = 16"

definition zero_entry :: HANDLE_TABLE_ENTRY where
  "zero_entry = \<lparr>e_object = 0, granted_access = 0, attributes = 0\<rparr>"

definition slot :: "HANDLE_TABLE_ENTRY list \<Rightarrow> nat \<Rightarrow> HANDLE_TABLE_ENTRY option" where
  "slot es i = (if i < length es then Some (es ! i) else None)"

definition put_table :: "nat \<Rightarrow> HANDLE_TABLE \<Rightarrow> ob_state \<Rightarrow> ob_state" where
  "put_table t ht s = s\<lparr>ob_tables := (ob_tables s)(t \<mapsto> ht)\<rparr>"

text \<open>Write slot \<open>i\<close> of the array of table \<open>t\<close>.\<close>

definition put_slot :: "nat \<Rightarrow> nat \<Rightarrow> HANDLE_TABLE_ENTRY \<Rightarrow> ob_state \<Rightarrow> ob_state option" where
  "put_slot t i e s = do {
     ht \<leftarrow> ob_tables s t;
     es \<leftarrow> entries ht;
     if i < length es then Some (put_table t (ht\<lparr>entries := Some (es[i := e])\<rparr>) s) else None }"

definition handle_of :: "nat \<Rightarrow> int" where
  "handle_of i = sint (of_nat i * 4 :: u32)"

definition handle_table_free_entries :: "nat \<Rightarrow> u32 \<Rightarrow> ob_state \<Rightarrow> ob_state" where
  "handle_table_free_entries addr cap s =
     (let sz = ucast cap * sizeof_HANDLE_TABLE_ENTRY in
      if addr = 0 then s
      else if sz \<le> PMM_FRAME_SIZE then log_event (Kfree addr) s
      else s\<lparr>ob_log := ob_log s @
             map (\<lambda>i. PmmFreeFrame (addr + i * unat PMM_FRAME_SIZE)) [0..<unat (frames_for sz)]\<rparr>)"

text \<open>\<open>quota\<close> is the value of the tunable \<open>handle.quota_default\<close>.\<close>

definition ob_handle_table_init :: "nat \<Rightarrow> u64 \<Rightarrow> nat \<Rightarrow> ob_state \<Rightarrow> (int \<times> ob_state) option" where
  "ob_handle_table_init blk quota t s = do {
     ht \<leftarrow> ob_tables s t;
     let sz = ucast HANDLE_TABLE_INIT_CAP * sizeof_HANDLE_TABLE_ENTRY;
     if blk = 0 then Some (-1, put_table t (ht\<lparr>entries := None, entries_at := 0\<rparr>) s)
     else Some (0, put_table t
       \<lparr>entries = Some (replicate (unat HANDLE_TABLE_INIT_CAP) zero_entry), entries_at = blk,
        capacity = HANDLE_TABLE_INIT_CAP, ht_count = 0, handle_limit = ucast quota, quota_warned = False\<rparr>
       (log_event (Kmalloc blk sz) s)) }"

definition handle_table_grow :: "(u32 \<Rightarrow> nat) \<Rightarrow> nat \<Rightarrow> ob_state \<Rightarrow> (int \<times> ob_state) option" where
  "handle_table_grow mem t s = do {
     ht \<leftarrow> ob_tables s t;
     let new_cap = capacity ht * 2;
     let cap_ceiling = (if handle_limit ht > 0 then handle_limit ht + 1 else HANDLE_TABLE_ABSOLUTE_MAX + 1);
     if capacity ht \<ge> cap_ceiling then Some (-1, s)
     else do {
       let new_cap = (if new_cap > cap_ceiling then cap_ceiling else new_cap);
       let new_sz = ucast new_cap * sizeof_HANDLE_TABLE_ENTRY;
       let blk = mem new_cap;
       if blk = 0 then Some (-1, s)
       else do {
         es \<leftarrow> entries ht;
         if length es < unat (capacity ht) then None
         else do {
           let s = log_event (if new_sz \<le> PMM_FRAME_SIZE then Kmalloc blk new_sz else PmmAlloc blk (frames_for new_sz)) s;
           let new_entries = take (unat (capacity ht)) es @
                 replicate (unat (new_cap - capacity ht)) zero_entry;
           let s = handle_table_free_entries (entries_at ht) (capacity ht) s;
           Some (0, put_table t (ht\<lparr>entries := Some new_entries, entries_at := blk, capacity := new_cap\<rparr>) s) } } } }"

section \<open>Allocating a handle\<close>

text \<open>\<open>for (i = 1; i < table->capacity; i++) if (!table->entries[i].object) goto found;\<close>\<close>

function scan_free :: "HANDLE_TABLE_ENTRY list \<Rightarrow> nat \<Rightarrow> nat \<Rightarrow> nat option" where
  "scan_free es i n =
     (if i < n
      then case slot es i of
        None \<Rightarrow> None
      | Some e \<Rightarrow> if e_object e = 0 then Some i else scan_free es (Suc i) n
      else Some i)"
  by pat_completeness auto
termination
  by (relation "measure (\<lambda>(es, i, n). n - i)") auto

declare scan_free.simps [simp del]

definition log_posts :: "OB_OPERATION \<Rightarrow> nat \<Rightarrow> nat \<Rightarrow> u32 \<Rightarrow> ob_state \<Rightarrow> ob_state" where
  "log_posts op object type access s = s\<lparr>ob_log := ob_log s @
     map (\<lambda>(c, info). PostCallback c info) (ob_invoke_post_callbacks op object type access (ob_callbacks s))\<rparr>"

text \<open>The guards before the slot is looked for: the access that is left, or \<^term>\<open>None\<close> for a denial.\<close>

definition open_access :: "bool \<Rightarrow> nat \<Rightarrow> u32 \<Rightarrow> ob_state \<Rightarrow> u32 option option" where
  "open_access fire_create_cb object access s = do {
     h \<leftarrow> ob_heap s object;
     let (st, access) = (if fire_create_cb \<and> hdr_type h \<noteq> 0
       then ob_invoke_pre_callbacks OB_OPERATION_HANDLE_CREATE object (hdr_type h) access (ob_callbacks s)
       else (0, access));
     if st \<noteq> 0 then Some None
     else if hdr_security h \<noteq> SD_null \<and> hdr_type h \<noteq> 0 then do {
       ty \<leftarrow> type_at (hdr_type h) s;
       Some (case ty_on_open ty of
               None \<Rightarrow> Some access
             | Some f \<Rightarrow> if f object access \<noteq> 0 then None else Some access) }
     else Some (Some access) }"

text \<open>From the label \<open>found\<close> on: claim slot \<open>i\<close>.\<close>

definition claim_slot :: "bool \<Rightarrow> nat \<Rightarrow> nat \<Rightarrow> nat \<Rightarrow> u32 \<Rightarrow> u32 \<Rightarrow> ob_state \<Rightarrow> (int \<times> ob_state) option" where
  "claim_slot fire_create_cb t i object access attrs s = do {
     s \<leftarrow> put_slot t i \<lparr>e_object = object, granted_access = access, attributes = attrs\<rparr> s;
     ht \<leftarrow> ob_tables s t;
     let s = put_table t (ht\<lparr>ht_count := ht_count ht + 1\<rparr>) s;
     s \<leftarrow> ObReferenceObject object s;
     h \<leftarrow> ob_heap s object;
     let s = put_header object (h\<lparr>handle_count := handle_count h + 1\<rparr>) s;
     let s = stat_update count_handle (hdr_type h) s;
     let s = (if fire_create_cb \<and> hdr_type h \<noteq> 0
              then log_posts OB_OPERATION_HANDLE_CREATE object (hdr_type h) access s else s);
     let s = s\<lparr>task_current := map_option (\<lambda>c. c\<lparr>total_handles_created := total_handles_created c + 1\<rparr>) (task_current s)\<rparr>;
     Some (handle_of i, s) }"

definition obp_allocate_handle_inner ::
  "(u32 \<Rightarrow> nat) \<Rightarrow> nat \<Rightarrow> nat \<Rightarrow> u32 \<Rightarrow> u32 \<Rightarrow> bool \<Rightarrow> ob_state \<Rightarrow> (int \<times> ob_state) option" where
  "obp_allocate_handle_inner mem t object access attrs fire_create_cb s = do {
     ht \<leftarrow> ob_tables s t;
     case entries ht of
       None \<Rightarrow> Some (INVALID_HANDLE_VALUE, s)
     | Some es \<Rightarrow>
         if object = 0 then Some (INVALID_HANDLE_VALUE, s)
         else do {
           a \<leftarrow> open_access fire_create_cb object access s;
           case a of
             None \<Rightarrow> Some (INVALID_HANDLE_VALUE, s)
           | Some access \<Rightarrow>
               if handle_limit ht > 0 \<and> ht_count ht \<ge> handle_limit ht then
                 Some (INVALID_HANDLE_VALUE, put_table t (ht\<lparr>quota_warned := True\<rparr>) s)
               else do {
                 i \<leftarrow> scan_free es 1 (unat (capacity ht));
                 if i < unat (capacity ht) then claim_slot fire_create_cb t i object access attrs s
                 else do {
                   (rc, s) \<leftarrow> handle_table_grow mem t s;
                   if rc < 0 then Some (INVALID_HANDLE_VALUE, s)
                   else claim_slot fire_create_cb t i object access attrs s } } } }"

definition ObpAllocateHandle :: "(u32 \<Rightarrow> nat) \<Rightarrow> nat \<Rightarrow> nat \<Rightarrow> u32 \<Rightarrow> u32 \<Rightarrow> ob_state \<Rightarrow> (int \<times> ob_state) option" where
  "ObpAllocateHandle mem t object access attrs s = obp_allocate_handle_inner mem t object access attrs True s"

definition ObpAllocateHandleNoCreateCb :: "(u32 \<Rightarrow> nat) \<Rightarrow> nat \<Rightarrow> nat \<Rightarrow> u32 \<Rightarrow> u32 \<Rightarrow> ob_state \<Rightarrow> (int \<times> ob_state) option" where
  "ObpAllocateHandleNoCreateCb mem t object access attrs s = obp_allocate_handle_inner mem t object access attrs False s"

section \<open>Freeing and looking up\<close>

text \<open>Everything after the checks: clear the slot, then drop the handle and its reference.\<close>

definition release_slot :: "nat \<Rightarrow> nat \<Rightarrow> nat \<Rightarrow> ob_state \<Rightarrow> ob_state option" where
  "release_slot t idx body s = do {
     h \<leftarrow> ob_heap s body;
     s \<leftarrow> put_slot t idx zero_entry s;
     ht \<leftarrow> ob_tables s t;
     let ht = ht\<lparr>ht_count := ht_count ht - 1\<rparr>;
     let ht = (if ht_count ht < handle_limit ht then ht\<lparr>quota_warned := False\<rparr> else ht);
     let s = put_table t ht s;
     let h = (if handle_count h > 0 then h\<lparr>handle_count := handle_count h - 1\<rparr> else h);
     let s = put_header body h s;
     s \<leftarrow> (if handle_count h = 0 then do {
             ty \<leftarrow> type_at (hdr_type h) s;
             Some (if ty_on_close ty then log_event (OnClose body) s else s) }
           else Some s);
     let s = stat_update uncount_handle (hdr_type h) s;
     (r, s) \<leftarrow> ObDereferenceObject body s;
     Some s }"

definition ObpFreeHandle :: "nat \<Rightarrow> int \<Rightarrow> ob_state \<Rightarrow> (int \<times> ob_state) option" where
  "ObpFreeHandle t handle s =
     (if handle < 0 then Some (-1, s)
      else do {
        ht \<leftarrow> ob_tables s t;
        case entries ht of
          None \<Rightarrow> Some (-1, s)
        | Some es \<Rightarrow>
            if handle AND 3 \<noteq> 0 then Some (-1, s)
            else
              let idx = nat handle div 4 in
              if idx \<ge> unat (capacity ht) then Some (-1, s)
              else do {
                entry \<leftarrow> slot es idx;
                if e_object entry = 0 then Some (-1, s)
                else if attributes entry AND OBJ_PROTECT_CLOSE \<noteq> 0 then Some (-1, s)
                else do {
                  s \<leftarrow> release_slot t idx (e_object entry) s;
                  Some (0, s) } } })"

text \<open>The index of the entry the handle names.\<close>

definition ObpLookupHandle :: "nat \<Rightarrow> int \<Rightarrow> ob_state \<Rightarrow> nat option option" where
  "ObpLookupHandle t handle s =
     (if handle < 0 then Some None
      else if handle AND 3 \<noteq> 0 then Some None
      else do {
        ht \<leftarrow> ob_tables s t;
        case entries ht of
          None \<Rightarrow> Some None
        | Some es \<Rightarrow>
            let idx = nat handle div 4 in
            if idx \<ge> unat (capacity ht) then Some None
            else do {
              entry \<leftarrow> slot es idx;
              Some (if e_object entry = 0 then None else Some idx) } })"

text \<open>The entry at an index, for the reads and writes through an entry pointer.\<close>

definition entry_at :: "nat \<Rightarrow> nat \<Rightarrow> ob_state \<Rightarrow> HANDLE_TABLE_ENTRY option" where
  "entry_at t i s = do { ht \<leftarrow> ob_tables s t; es \<leftarrow> entries ht; slot es i }"

section \<open>Whole tables\<close>

definition destroy_slot :: "nat \<Rightarrow> nat \<Rightarrow> ob_state \<Rightarrow> ob_state option" where
  "destroy_slot t i s = do {
     e \<leftarrow> entry_at t i s;
     if e_object e \<noteq> 0 then do {
       s \<leftarrow> put_slot t i (e\<lparr>attributes := attributes e AND NOT OBJ_PROTECT_CLOSE\<rparr>) s;
       (rc, s) \<leftarrow> ObpFreeHandle t (handle_of i) s;
       Some s }
     else Some s }"

definition ob_handle_table_destroy :: "nat \<Rightarrow> ob_state \<Rightarrow> ob_state option" where
  "ob_handle_table_destroy t s = do {
     ht \<leftarrow> ob_tables s t;
     if entries ht = None then Some s
     else do {
       s \<leftarrow> for_upto 0 (unat (capacity ht)) (destroy_slot t) s;
       ht \<leftarrow> ob_tables s t;
       let s = handle_table_free_entries (entries_at ht) (capacity ht) s;
       Some (put_table t (ht\<lparr>entries := None, entries_at := 0, capacity := 0, ht_count := 0\<rparr>) s) } }"

definition inheritable :: "HANDLE_TABLE_ENTRY \<Rightarrow> bool" where
  "inheritable e \<longleftrightarrow> e_object e \<noteq> 0 \<and> attributes e AND OBJ_INHERIT \<noteq> 0"

text \<open>\<open>max_inherit_idx\<close>, \<^term>\<open>None\<close> while \<open>any_inheritable\<close> is 0.\<close>

definition max_inherit :: "HANDLE_TABLE_ENTRY list \<Rightarrow> nat \<Rightarrow> nat option option" where
  "max_inherit es n = for_upto 0 n (\<lambda>i m. do { e \<leftarrow> slot es i; Some (if inheritable e then Some i else m) }) None"

text \<open>\<open>while (child->capacity <= max_inherit_idx) if (handle_table_grow(child) < 0) break;\<close> Each growth at least
  adds a slot, so that as many rounds as the index is large are enough.\<close>

primrec grow_to :: "nat \<Rightarrow> (u32 \<Rightarrow> nat) \<Rightarrow> nat \<Rightarrow> nat \<Rightarrow> ob_state \<Rightarrow> ob_state option" where
  "grow_to 0 mem t m s = None"
| "grow_to (Suc k) mem t m s = do {
     ht \<leftarrow> ob_tables s t;
     if unat (capacity ht) \<le> m then do {
       (rc, s) \<leftarrow> handle_table_grow mem t s;
       if rc < 0 then Some s else grow_to k mem t m s }
     else Some s }"

definition inherit_slot :: "nat \<Rightarrow> nat \<Rightarrow> nat \<Rightarrow> ob_state \<times> nat \<Rightarrow> (ob_state \<times> nat) option" where
  "inherit_slot parent child i sc = do {
     let (s, count) = sc;
     e \<leftarrow> entry_at parent i s;
     if \<not> inheritable e then Some (s, count)
     else do {
       s \<leftarrow> put_slot child i e s;
       ht \<leftarrow> ob_tables s child;
       let s = put_table child (ht\<lparr>ht_count := ht_count ht + 1\<rparr>) s;
       s \<leftarrow> ObReferenceObject (e_object e) s;
       h \<leftarrow> ob_heap s (e_object e);
       let s = put_header (e_object e) (h\<lparr>handle_count := handle_count h + 1\<rparr>) s;
       let s = stat_update count_handle (hdr_type h) s;
       Some (s, Suc count) } }"

definition ob_handle_table_inherit :: "(u32 \<Rightarrow> nat) \<Rightarrow> nat \<Rightarrow> nat \<Rightarrow> ob_state \<Rightarrow> (int \<times> ob_state) option" where
  "ob_handle_table_inherit mem parent child s =
     (if parent = 0 \<or> child = 0 then Some (-1, s)
      else do {
        pt \<leftarrow> ob_tables s parent;
        ct \<leftarrow> ob_tables s child;
        case (entries pt, entries ct) of
          (Some pes, Some ces) \<Rightarrow> do {
            mx \<leftarrow> max_inherit pes (unat (capacity pt));
            case mx of
              None \<Rightarrow> Some (0, s)
            | Some m \<Rightarrow> do {
                s \<leftarrow> grow_to (m + 2) mem child m s;
                ct \<leftarrow> ob_tables s child;
                (s, count) \<leftarrow> for_upto 0 (min (m + 1) (unat (capacity ct))) (inherit_slot parent child) (s, 0);
                Some (int count, s) } }
        | _ \<Rightarrow> Some (-1, s) })"

definition ob_handle_table_set_limit :: "nat \<Rightarrow> u32 \<Rightarrow> ob_state \<Rightarrow> ob_state option" where
  "ob_handle_table_set_limit t new_limit s =
     (if t = 0 then Some s
      else do {
        ht \<leftarrow> ob_tables s t;
        let new_limit = (if new_limit > HANDLE_TABLE_ABSOLUTE_MAX then HANDLE_TABLE_ABSOLUTE_MAX else new_limit);
        Some (put_table t (ht\<lparr>handle_limit := new_limit, quota_warned := False\<rparr>) s) })"

section \<open>The services\<close>

definition DUPLICATE_CLOSE_SOURCE :: u32 where "DUPLICATE_CLOSE_SOURCE = 1"
definition DUPLICATE_SAME_ACCESS :: u32 where "DUPLICATE_SAME_ACCESS = 2"

definition NtClose :: "nat \<Rightarrow> int \<Rightarrow> ob_state \<Rightarrow> (int \<times> ob_state) option" where
  "NtClose t handle s = (if t = 0 \<or> handle < 0 then Some (-1, s) else ObpFreeHandle t handle s)"

definition request_ceiling :: "u32 \<Rightarrow> u32 \<Rightarrow> u32 \<Rightarrow> u32" where
  "request_ceiling options desired_access src_granted =
     (if options AND DUPLICATE_SAME_ACCESS \<noteq> 0 then src_granted
      else if desired_access AND MAXIMUM_ALLOWED \<noteq> 0 then src_granted
      else desired_access AND src_granted)"

text \<open>Drop the pin and fail.\<close>

definition dup_fail :: "nat \<Rightarrow> ob_state \<Rightarrow> (int \<times> int option \<times> ob_state) option" where
  "dup_fail src_obj s = do { (r, s) \<leftarrow> ObDereferenceObject src_obj s; Some (-1, None, s) }"

text \<open>From the allocation of the destination on. \<open>others\<close> is what other processors do to the state before the source is closed.\<close>

definition dup_commit :: "(u32 \<Rightarrow> nat) \<Rightarrow> (ob_state \<Rightarrow> ob_state) \<Rightarrow> nat \<Rightarrow> int \<Rightarrow> nat \<Rightarrow> nat \<Rightarrow> nat \<Rightarrow> u32 \<Rightarrow> u32 \<Rightarrow> u32 \<Rightarrow> u32 \<Rightarrow> ob_state \<Rightarrow>
    (int \<times> int option \<times> ob_state) option" where
  "dup_commit mem others src_t src_handle dst_t src_obj src_type access ceiling attrs options s = do {
     (new_h, s) \<leftarrow> ObpAllocateHandleNoCreateCb mem dst_t src_obj access attrs s;
     if new_h = INVALID_HANDLE_VALUE then dup_fail src_obj s
     else do {
       de \<leftarrow> ObpLookupHandle dst_t new_h s;
       (final_access, s) \<leftarrow> (case de of
           None \<Rightarrow> Some (access AND ceiling, s)
         | Some i \<Rightarrow> do {
             e \<leftarrow> entry_at dst_t i s;
             let e = e\<lparr>granted_access := granted_access e AND ceiling\<rparr>;
             s \<leftarrow> put_slot dst_t i e s;
             Some (granted_access e, s) });
       let s = others s;
       (rc, s) \<leftarrow> (if options AND DUPLICATE_CLOSE_SOURCE \<noteq> 0 then ObpFreeHandle src_t src_handle s else Some (0, s));
       if rc \<noteq> 0 then do {
         de \<leftarrow> ObpLookupHandle dst_t new_h s;
         s \<leftarrow> (case de of None \<Rightarrow> Some s | Some i \<Rightarrow> do {
                 e \<leftarrow> entry_at dst_t i s;
                 put_slot dst_t i (e\<lparr>attributes := attributes e AND NOT OBJ_PROTECT_CLOSE\<rparr>) s });
         (rc2, s) \<leftarrow> ObpFreeHandle dst_t new_h s;
         dup_fail src_obj s }
       else do {
         let s = (if src_type \<noteq> 0 then log_posts OB_OPERATION_HANDLE_DUPLICATE src_obj src_type final_access s else s);
         (r, s) \<leftarrow> ObDereferenceObject src_obj s;
         Some (0, Some new_h, s) } } }"

text \<open>Status and \<open>*dst_handle\<close> if it is written. Pre-callbacks are kernel code that may re-enter the object manager: \<open>callbacks\<close> is what they have
  done to the state when their dispatch returns.\<close>

definition NtDuplicateObject :: "(u32 \<Rightarrow> nat) \<Rightarrow> (ob_state \<Rightarrow> ob_state) \<Rightarrow> (ob_state \<Rightarrow> ob_state) \<Rightarrow> nat \<Rightarrow> int \<Rightarrow> nat \<Rightarrow> bool \<Rightarrow> u32 \<Rightarrow> u32 \<Rightarrow> u32 \<Rightarrow> ob_state \<Rightarrow>
    (int \<times> int option \<times> ob_state) option" where
  "NtDuplicateObject mem callbacks others src_t src_handle dst_t dst_ptr desired_access attrs options s =
     (if src_t = 0 \<or> dst_t = 0 \<or> \<not> dst_ptr then Some (-1, None, s)
      else do {
        en \<leftarrow> ObpLookupHandle src_t src_handle s;
        case en of
          None \<Rightarrow> Some (-1, None, s)
        | Some i \<Rightarrow> do {
            entry \<leftarrow> entry_at src_t i s;
            let src_obj = e_object entry;
            if src_obj = 0 then Some (-1, None, s)
            else do {
              h \<leftarrow> ob_heap s src_obj;
              let src_type = hdr_type h;
              if options AND DUPLICATE_CLOSE_SOURCE \<noteq> 0 \<and> attributes entry AND OBJ_PROTECT_CLOSE \<noteq> 0
              then Some (-1, None, s)
              else do {
                let access = request_ceiling options desired_access (granted_access entry);
                let ceiling = access;
                s \<leftarrow> ObReferenceObject src_obj s;
                let (st, access) = (if src_type \<noteq> 0
                  then ob_invoke_pre_callbacks OB_OPERATION_HANDLE_DUPLICATE src_obj src_type access (ob_callbacks s)
                  else (0, access));
                let s = (if src_type \<noteq> 0 then callbacks s else s);
                if st \<noteq> 0 then dup_fail src_obj s
                else do {
                  let access = access AND ceiling;
                  re \<leftarrow> ObpLookupHandle src_t src_handle s;
                  case re of
                    None \<Rightarrow> dup_fail src_obj s
                  | Some j \<Rightarrow> do {
                      e2 \<leftarrow> entry_at src_t j s;
                      if e_object e2 \<noteq> src_obj \<or>
                         (options AND DUPLICATE_CLOSE_SOURCE \<noteq> 0 \<and> attributes e2 AND OBJ_PROTECT_CLOSE \<noteq> 0)
                      then dup_fail src_obj s
                      else dup_commit mem others src_t src_handle dst_t src_obj src_type access ceiling attrs options s } } } } } })"

text \<open>The token services of \<open>token.c\<close> on the token objects: status and \<open>*out_handle\<close> if it is written.\<close>

definition NtOpenProcessToken :: "(u32 \<Rightarrow> nat) \<Rightarrow> nat \<Rightarrow> nat \<Rightarrow> u32 \<Rightarrow> bool \<Rightarrow> ob_state \<Rightarrow> (NTSTATUS \<times> int option \<times> ob_state) option" where
  "NtOpenProcessToken mem process_token t desired_access out_ptr s =
     (if process_token = 0 \<or> t = 0 \<or> \<not> out_ptr then Some (STATUS_INVALID_PARAMETER, None, s)
      else do {
        (h, s) \<leftarrow> ObpAllocateHandle mem t process_token desired_access 0 s;
        if h = INVALID_HANDLE_VALUE then Some (STATUS_INVALID_HANDLE, None, s)
        else Some (STATUS_SUCCESS, Some h, s) })"

definition NtOpenThreadToken :: "(u32 \<Rightarrow> nat) \<Rightarrow> nat \<Rightarrow> nat \<Rightarrow> u32 \<Rightarrow> bool \<Rightarrow> ob_state \<Rightarrow> (NTSTATUS \<times> int option \<times> ob_state) option" where
  "NtOpenThreadToken mem impersonation_token t desired_access out_ptr s =
     (if t = 0 \<or> \<not> out_ptr then Some (STATUS_INVALID_PARAMETER, None, s)
      else if impersonation_token = 0 then Some (STATUS_NO_TOKEN, None, s)
      else do {
        (h, s) \<leftarrow> ObpAllocateHandle mem t impersonation_token desired_access 0 s;
        if h = INVALID_HANDLE_VALUE then Some (STATUS_INVALID_HANDLE, None, s)
        else Some (STATUS_SUCCESS, Some h, s) })"

end
