(* ===== verification/Ob_Callback_Facts.thy ===== *)
theory Ob_Callback_Facts
  imports Ob_Callback
begin

text \<open>
  The callback registry keeps its array sorted by altitude under any sequence of registrations and
  removals, a handle names one registration whatever shifts happen, and dispatching runs every
  matching pre-callback in altitude order and can only take rights away.
\<close>

section \<open>The array shifts\<close>

lemma insert_pos_eq: "insert_pos alt ns = length (takeWhile (\<lambda>n. cb_altitude n \<le> alt) ns)"
  by (induction ns) auto

lemma insert_pos_split:
  "take (insert_pos alt ns) ns = takeWhile (\<lambda>n. cb_altitude n \<le> alt) ns"
  "drop (insert_pos alt ns) ns = dropWhile (\<lambda>n. cb_altitude n \<le> alt) ns"
  by (simp_all add: insert_pos_eq takeWhile_eq_take [symmetric] dropWhile_eq_drop [symmetric])

lemma insert_pos_le: "insert_pos alt ns \<le> length ns"
  by (simp add: insert_pos_eq length_takeWhile_le)

lemma shift_up_eq:
  assumes "pos \<le> j" "j < length a"
  shows "shift_up j pos a = Some (take (Suc pos) a @ drop pos (take j a) @ drop (Suc j) a)"
  using assms
proof (induction j arbitrary: a)
  case 0
  then show ?case by (simp add: take_Suc_conv_app_nth Cons_nth_drop_Suc)
next
  case (Suc j)
  show ?case
  proof (cases "pos < Suc j")
    case True
    with Suc.prems Suc.IH [of "a[Suc j := a ! j]"] have
      "shift_up (Suc j) pos a = Some (take (Suc pos) (a[Suc j := a ! j]) @ drop pos (take j a) @ drop (Suc j) (a[Suc j := a ! j]))"
      by simp
    with True Suc.prems show ?thesis
      by (auto simp: take_Suc_conv_app_nth drop_update_swap Cons_nth_drop_Suc [symmetric]) 
  next
    case False
    with Suc.prems have "pos = Suc j" by simp
    with Suc.prems show ?thesis by (simp add: id_take_nth_drop [symmetric])
  qed
qed

lemma shift_down_eq:
  assumes "pos < count" "count \<le> length a"
  shows "\<exists>b. shift_down pos count a = Some b \<and> length b = length a \<and>
           take (count - 1) b = take pos a @ drop (Suc pos) (take count a) \<and> drop count b = drop count a \<and>
           b ! (count - 1) = a ! (count - 1)"
proof -
  have "\<exists>b. shift_down pos count a = Some b \<and>
      (length b = length a \<and> (\<forall>i < length a. b ! i = (if pos \<le> i \<and> i < count - 1 then a ! Suc i else a ! i)))"
    unfolding shift_down_def using assms
    by (intro for_upto_inv [where P = "\<lambda>k b. length b = length a \<and>
          (\<forall>i < length a. b ! i = (if pos \<le> i \<and> i < k then a ! Suc i else a ! i))"])
      (auto simp: nth_list_update less_Suc_eq)
  then obtain b where b: "shift_down pos count a = Some b" "length b = length a"
    and nth: "\<And>i. i < length a \<Longrightarrow> b ! i = (if pos \<le> i \<and> i < count - 1 then a ! Suc i else a ! i)" by blast
  have "take (count - 1) b = take pos a @ drop (Suc pos) (take count a)"
    using assms b(2) by (auto intro!: nth_equalityI simp: nth nth_append min_absorb1 min_absorb2)
  moreover have "drop count b = drop count a"
    using assms b(2) by (auto intro!: nth_equalityI simp: nth)
  moreover have "b ! (count - 1) = a ! (count - 1)"
    using assms by (simp add: nth)
  ultimately show ?thesis using b by blast
qed

section \<open>The invariant of the registry\<close>

definition live :: "cb_registry \<Rightarrow> ob_callback_node list" where
  "live g = take (g_callback_count g) (g_callbacks g)"

definition node_ok :: "ob_callback_node \<Rightarrow> bool" where
  "node_ok n \<longleftrightarrow> cb_active n \<and> 0 < cb_id n \<and> cb_op_count n \<le> OB_MAX_CALLBACK_OPS"

definition cb_ok :: "cb_registry \<Rightarrow> bool" where
  "cb_ok g \<longleftrightarrow> length (g_callbacks g) = OB_MAX_CALLBACKS \<and> g_callback_count g \<le> OB_MAX_CALLBACKS \<and>
     (\<forall>n \<in> set (g_callbacks g). length (cb_ops n) = unat OB_MAX_CALLBACK_OPS) \<and>
     (\<forall>n \<in> set (live g). node_ok n \<and> cb_id n < g_next_cb_id g) \<and>
     distinct (map cb_id (live g)) \<and> sorted (map cb_altitude (live g)) \<and>
     0 < g_next_cb_id g \<and> g_next_cb_id g \<le> OB_CB_ID_MAX"

text \<open>The zero-initialised globals.\<close>

definition zero_op :: OB_OPERATION_REGISTRATION where
  "zero_op = \<lparr>or_object_type = 0, or_operations = 0, or_pre_callback = None, or_post_callback = None\<rparr>"

definition cb_init :: cb_registry where
  "cb_init = \<lparr>g_callbacks = replicate OB_MAX_CALLBACKS
       \<lparr>cb_id = 0, cb_active = False, cb_altitude = 0, cb_context = 0, cb_op_count = 0,
        cb_ops = replicate (unat OB_MAX_CALLBACK_OPS) zero_op\<rparr>,
     g_callback_count = 0, g_next_cb_id = 1\<rparr>"

text \<open>What registering and unregistering reach; every registration passed in is a whole structure.\<close>

inductive cb_reach :: "cb_registry \<Rightarrow> bool" where
  cb_start: "cb_reach cb_init"
| cb_register: "cb_reach g \<Longrightarrow> (\<forall>r. reg = Some r \<longrightarrow> length (cr_operations r) = unat OB_MAX_CALLBACK_OPS) \<Longrightarrow>
    ObRegisterCallbacks reg out g = Some (st, h, g') \<Longrightarrow> cb_reach g'"
| cb_unregister: "cb_reach g \<Longrightarrow> ObUnRegisterCallbacks h g = Some g' \<Longrightarrow> cb_reach g'"

lemmas cb_consts = OB_MAX_CALLBACKS_def OB_MAX_CALLBACK_OPS_def OB_CB_ID_MAX_def OB_CALLBACK_VERSION_def

lemma cb_ok_init: "cb_ok cb_init"
  by (simp add: cb_ok_def cb_init_def live_def cb_consts)

section \<open>Registering and unregistering\<close>

text \<open>The requests that \<open>ObRegisterCallbacks\<close> turns down.\<close>

definition reg_refused :: "OB_CALLBACK_REGISTRATION option \<Rightarrow> bool \<Rightarrow> cb_registry \<Rightarrow> bool" where
  "reg_refused reg out g \<longleftrightarrow> (case reg of None \<Rightarrow> True | Some r \<Rightarrow>
     \<not> out \<or> cr_version r \<noteq> OB_CALLBACK_VERSION \<or> cr_operation_count r = 0 \<or> cr_operation_count r > OB_MAX_CALLBACK_OPS) \<or>
     length (live g) = OB_MAX_CALLBACKS \<or> g_next_cb_id g = OB_CB_ID_MAX"

lemma length_live: "cb_ok g \<Longrightarrow> length (live g) = g_callback_count g"
  by (simp add: cb_ok_def live_def)

lemma reg_refused: "cb_ok g \<Longrightarrow> reg_refused reg out g \<Longrightarrow> ObRegisterCallbacks reg out g = Some (-1, None, g)"
  by (auto simp: reg_refused_def ObRegisterCallbacks_def length_live split: option.splits)

definition node_of :: "OB_CALLBACK_REGISTRATION \<Rightarrow> int \<Rightarrow> ob_callback_node \<Rightarrow> bool" where
  "node_of r h n \<longleftrightarrow> cb_id n = h \<and> cb_active n \<and> cb_altitude n = cr_altitude r \<and> cb_context n = cr_context r \<and>
     cb_op_count n = cr_operation_count r \<and>
     take (unat (cb_op_count n)) (cb_ops n) = take (unat (cr_operation_count r)) (cr_operations r)"

lemma reg_accepted:
  assumes ok: "cb_ok g" and acc: "\<not> reg_refused (Some r) out g"
    and len: "length (cr_operations r) = unat OB_MAX_CALLBACK_OPS"
  shows "\<exists>node g'. ObRegisterCallbacks (Some r) out g = Some (0, Some (g_next_cb_id g), g') \<and>
     node_of r (g_next_cb_id g) node \<and> length (cb_ops node) = unat OB_MAX_CALLBACK_OPS \<and>
     live g' = takeWhile (\<lambda>n. cb_altitude n \<le> cr_altitude r) (live g) @ node #
               dropWhile (\<lambda>n. cb_altitude n \<le> cr_altitude r) (live g) \<and>
     set (g_callbacks g') \<subseteq> insert node (set (g_callbacks g)) \<and>
     length (g_callbacks g') = OB_MAX_CALLBACKS \<and>
     g_callback_count g' = Suc (g_callback_count g) \<and> g_next_cb_id g' = g_next_cb_id g + 1"
proof -
  define c where "c = g_callback_count g"
  define a where "a = g_callbacks g"
  define pos where "pos = insert_pos (cr_altitude r) (live g)"
  define b where "b = take (Suc pos) a @ drop pos (take c a) @ drop (Suc c) a"
  have c: "c < length a" "length a = OB_MAX_CALLBACKS" "c < OB_MAX_CALLBACKS"
    using ok acc length_live [OF ok] by (auto simp: c_def a_def cb_ok_def reg_refused_def)
  have pos: "pos \<le> c" using insert_pos_le [of "cr_altitude r" "live g"] length_live [OF ok] by (simp add: pos_def c_def)
  have b: "shift_up c pos a = Some b" using pos c by (simp add: b_def shift_up_eq)
  have lenb: "length b = length a" using pos c by (simp add: b_def)
  have setb: "set b \<subseteq> set a" using set_take_subset [of _ a] set_drop_subset [of _ a] 
    by (auto simp: b_def dest!: in_set_takeD in_set_dropD)
  have opc: "unat (cr_operation_count r) \<le> 4" using acc by (auto simp: reg_refused_def cb_consts word_less_nat_alt)
  have "b ! pos \<in> set a" using setb lenb pos c nth_mem [of pos b] by auto
  then have lops: "length (cb_ops (b ! pos)) = 4" using ok by (simp add: cb_ok_def a_def cb_consts)
  define ops where "ops = take (unat (cr_operation_count r)) (cr_operations r) @ drop (unat (cr_operation_count r)) (cb_ops (b ! pos))"
  define node where "node = \<lparr>cb_id = g_next_cb_id g, cb_active = True, cb_altitude = cr_altitude r,
      cb_context = cr_context r, cb_op_count = cr_operation_count r, cb_ops = ops\<rparr>"
  define g' where "g' = g\<lparr>g_callbacks := b[pos := node], g_callback_count := c + 1, g_next_cb_id := g_next_cb_id g + 1\<rparr>"
  have cp: "copy_ops (unat (cr_operation_count r)) (cr_operations r) (cb_ops (b ! pos)) = Some ops"
    using opc lops len by (simp add: copy_ops_def ops_def cb_consts)
  have "ObRegisterCallbacks (Some r) out g = Some (0, Some (g_next_cb_id g), g')"
    using acc b cp pos c lenb length_live [OF ok]
    by (auto simp: ObRegisterCallbacks_def reg_refused_def c_def [symmetric] a_def [symmetric] live_def
        pos_def g'_def node_def Let_def)
  moreover have "node_of r (g_next_cb_id g) node" "length (cb_ops node) = unat OB_MAX_CALLBACK_OPS"
    using opc lops len by (simp_all add: node_of_def node_def ops_def cb_consts)
  moreover have upd: "b[pos := node] = take pos a @ node # drop pos (take c a) @ drop (Suc c) a"
    using pos c by (simp add: b_def list_update_append take_Suc_conv_app_nth)
  then have "live g' = take pos (live g) @ node # drop pos (live g)"
    using pos c by (simp add: live_def g'_def c_def [symmetric] a_def [symmetric] min_def Suc_diff_le)
  then have "live g' = takeWhile (\<lambda>n. cb_altitude n \<le> cr_altitude r) (live g) @ node #
               dropWhile (\<lambda>n. cb_altitude n \<le> cr_altitude r) (live g)"
    by (simp add: pos_def insert_pos_split)
  moreover have "set (g_callbacks g') \<subseteq> insert node (set (g_callbacks g))"
    unfolding g'_def using upd by (auto simp: a_def dest: in_set_takeD in_set_dropD)
  ultimately show ?thesis using c lenb by (auto simp: g'_def c_def)
qed

lemma set_insert_while: "set (takeWhile P ns @ m # dropWhile P ns) = insert m (set ns)"
  by (metis Un_insert_right list.simps(15) set_append takeWhile_dropWhile_id)

lemma sorted_insert:
  "sorted (map cb_altitude ns) \<Longrightarrow> sorted (map cb_altitude
     (takeWhile (\<lambda>n. cb_altitude n \<le> cb_altitude m) ns @ m # dropWhile (\<lambda>n. cb_altitude n \<le> cb_altitude m) ns))"
proof (induction ns)
  case (Cons n ns)
  let ?P = "\<lambda>n. cb_altitude n \<le> cb_altitude m"
  show ?case
  proof (cases "?P n")
    case True
    have "\<forall>x \<in> set (takeWhile ?P ns @ m # dropWhile ?P ns). cb_altitude n \<le> cb_altitude x"
      unfolding set_insert_while using Cons.prems True by simp
    with Cons True show ?thesis by auto
  next
    case False
    with Cons.prems show ?thesis by fastforce
  qed
qed simp

lemma distinct_insert:
  assumes "distinct (map f ns)" "f m \<notin> f ` set ns"
  shows "distinct (map f (takeWhile P ns @ m # dropWhile P ns))"
proof -
  have "distinct (map f (takeWhile P ns) @ map f (dropWhile P ns))"
    "f m \<notin> set (map f (takeWhile P ns) @ map f (dropWhile P ns))"
    using assms by (simp_all add: map_append [symmetric] image_Un [symmetric] set_append [symmetric] del: map_append set_append)
  then show ?thesis by auto
qed

lemma filter_insert_while: "\<not> Q m \<Longrightarrow> filter Q (takeWhile P ns @ m # dropWhile P ns) = filter Q ns"
  by (metis filter.simps(2) filter_append takeWhile_dropWhile_id)

lemma cb_ok_register:
  assumes ok: "cb_ok g" and len: "\<forall>r. reg = Some r \<longrightarrow> length (cr_operations r) = unat OB_MAX_CALLBACK_OPS"
  shows "\<exists>st h g'. ObRegisterCallbacks reg out g = Some (st, h, g') \<and> cb_ok g'"
proof (cases "reg_refused reg out g")
  case True
  then show ?thesis using reg_refused [OF ok] ok by blast
next
  case False
  then obtain r where r: "reg = Some r" by (cases reg) (auto simp: reg_refused_def)
  with False len reg_accepted [OF ok, of r out] obtain node g' where
    eq: "ObRegisterCallbacks reg out g = Some (0, Some (g_next_cb_id g), g')"
    and node: "node_of r (g_next_cb_id g) node" "length (cb_ops node) = unat OB_MAX_CALLBACK_OPS"
    and live: "live g' = takeWhile (\<lambda>n. cb_altitude n \<le> cr_altitude r) (live g) @ node #
               dropWhile (\<lambda>n. cb_altitude n \<le> cr_altitude r) (live g)"
    and arr: "set (g_callbacks g') \<subseteq> insert node (set (g_callbacks g))" "length (g_callbacks g') = OB_MAX_CALLBACKS"
    and cnt: "g_callback_count g' = Suc (g_callback_count g)" "g_next_cb_id g' = g_next_cb_id g + 1"
    by blast
  have set: "set (live g') = insert node (set (live g))"
    by (simp only: live set_insert_while)
  have "cb_id node \<notin> cb_id ` set (live g)" using ok node(1) by (force simp: cb_ok_def node_of_def)
  then have "distinct (map cb_id (live g'))"
    using ok unfolding live cb_ok_def by (intro distinct_insert) simp_all
  moreover have "sorted (map cb_altitude (live g'))"
    using ok sorted_insert [of "live g" node] node(1) unfolding live by (simp add: cb_ok_def node_of_def)
  moreover have "g_callback_count g' \<le> OB_MAX_CALLBACKS"
    using False ok cnt(1) length_live [OF ok] by (simp add: reg_refused_def cb_ok_def)
  moreover have "node_ok node" using node(1) ok False r by (auto simp: node_ok_def node_of_def cb_ok_def reg_refused_def)
  ultimately have "cb_ok g'"
    using ok arr cnt node False by (auto simp: cb_ok_def set node_of_def reg_refused_def)
  then show ?thesis using eq by blast
qed

lemma find_cb_eq: "find_cb h ns = length (takeWhile (\<lambda>n. \<not> (cb_active n \<and> cb_id n = h)) ns)"
  by (induction ns) auto

lemma find_cb_less:
  assumes "\<forall>n \<in> set ns. cb_active n" "distinct (map cb_id ns)" "find_cb h ns < length ns"
  shows "cb_id (ns ! find_cb h ns) = h \<and>
    take (find_cb h ns) ns @ drop (Suc (find_cb h ns)) ns = filter (\<lambda>n. cb_id n \<noteq> h) ns"
  using assms
proof (induction ns)
  case (Cons n ns)
  show ?case
  proof (cases "cb_id n = h")
    case True
    with Cons.prems have "filter (\<lambda>n. cb_id n \<noteq> h) ns = ns" by (intro filter_True) (auto simp: image_iff)
    with True Cons.prems show ?thesis by simp
  qed (use Cons in auto)
qed simp

lemma find_cb_ge:
  "\<forall>n \<in> set ns. cb_active n \<Longrightarrow> length ns \<le> find_cb h ns \<Longrightarrow> filter (\<lambda>n. cb_id n \<noteq> h) ns = ns"
  by (induction ns) (auto split: if_splits)

lemma unregister_eq:
  assumes ok: "cb_ok g"
  shows "\<exists>g'. ObUnRegisterCallbacks h g = Some g' \<and> live g' = filter (\<lambda>n. cb_id n \<noteq> h) (live g) \<and>
     length (g_callbacks g') = OB_MAX_CALLBACKS \<and> g_next_cb_id g' = g_next_cb_id g \<and>
     g_callback_count g' \<le> g_callback_count g \<and>
     cb_ops ` set (g_callbacks g') \<subseteq> cb_ops ` set (g_callbacks g)"
proof -
  define c where "c = g_callback_count g"
  define a where "a = g_callbacks g"
  define pos where "pos = find_cb h (live g)"
  have len: "length a = OB_MAX_CALLBACKS" "c \<le> length a" "length (live g) = c"
    using ok length_live [OF ok] by (simp_all add: cb_ok_def a_def c_def)
  have act: "\<forall>n \<in> set (live g). cb_active n \<and> 0 < cb_id n" using ok by (simp add: cb_ok_def node_ok_def)
  consider "h \<le> 0" | "0 < h" "c \<le> pos" | "0 < h" "pos < c" by linarith
  then show ?thesis
  proof cases
    case 1
    with act have "filter (\<lambda>n. cb_id n \<noteq> h) (live g) = live g" by (intro filter_True) auto
    with 1 len show ?thesis by (simp add: ObUnRegisterCallbacks_def a_def)
  next
    case 2
    with act find_cb_ge [of "live g" h] len have "filter (\<lambda>n. cb_id n \<noteq> h) (live g) = live g" by (simp add: pos_def)
    with 2 len show ?thesis
      by (simp add: ObUnRegisterCallbacks_def live_def a_def c_def pos_def Let_def)
  next
    case 3
    obtain b where b: "shift_down pos c a = Some b" "length b = length a"
      "take (c - 1) b = take pos a @ drop (Suc pos) (take c a)" "drop c b = drop c a" "b ! (c - 1) = a ! (c - 1)"
      using shift_down_eq [of pos c a] 3 len by blast
    define g' where "g' = g\<lparr>g_callbacks := b[c - 1 := (b ! (c - 1))\<lparr>cb_active := False, cb_id := 0\<rparr>], g_callback_count := c - 1\<rparr>"
    have fnd: "find_cb h (take c a) = pos" by (simp add: pos_def live_def a_def c_def)
    have eq: "ObUnRegisterCallbacks h g = Some g'"
      using 3 b len by (simp add: ObUnRegisterCallbacks_def c_def [symmetric] a_def [symmetric] fnd g'_def Let_def)
    have "live g' = take pos (live g) @ drop (Suc pos) (live g)"
      using b(3) 3 by (simp add: live_def g'_def a_def c_def min_def)
    then have "live g' = filter (\<lambda>n. cb_id n \<noteq> h) (live g)"
      using find_cb_less [of "live g" h] act ok 3 len by (simp add: pos_def cb_ok_def)
    moreover have "b = take (c - 1) b @ b ! (c - 1) # drop c b"
      using 3 len b(2) by (metis One_nat_def Suc_pred id_take_nth_drop gr_zeroI not_less_zero less_le_trans diff_less zero_less_one)
    then have "set b \<subseteq> set a"
      using b(3-5) 3 len by (auto dest!: arg_cong [where f = set] dest: in_set_takeD in_set_dropD)
    then have "cb_ops ` set (g_callbacks g') \<subseteq> cb_ops ` set (g_callbacks g)"
      using set_update_subset_insert [of b "c - 1"] nth_mem [of "c - 1" b] b(2) 3 len by (fastforce simp: g'_def a_def)
    ultimately show ?thesis using eq b(2) len by (simp add: g'_def c_def)
  qed
qed

lemma cb_ok_unregister:
  assumes ok: "cb_ok g"
  shows "\<exists>g'. ObUnRegisterCallbacks h g = Some g' \<and> cb_ok g'"
proof -
  obtain g' where g': "ObUnRegisterCallbacks h g = Some g'" "live g' = filter (\<lambda>n. cb_id n \<noteq> h) (live g)"
    "length (g_callbacks g') = OB_MAX_CALLBACKS" "g_next_cb_id g' = g_next_cb_id g"
    "g_callback_count g' \<le> g_callback_count g" "cb_ops ` set (g_callbacks g') \<subseteq> cb_ops ` set (g_callbacks g)"
    using unregister_eq [OF ok] by blast
  have "\<forall>n \<in> set (g_callbacks g'). length (cb_ops n) = unat OB_MAX_CALLBACK_OPS"
    using g'(6) ok by (fastforce simp: cb_ok_def)
  then have "cb_ok g'"
    using ok g'(2-5) by (auto simp: cb_ok_def distinct_map_filter sorted_filter)
  then show ?thesis using g'(1) by blast
qed

lemma cb_reach_ok: "cb_reach g \<Longrightarrow> cb_ok g"
proof (induction rule: cb_reach.induct)
  case (cb_register g reg out st h g')
  then show ?case using cb_ok_register [of g reg out] by auto
next
  case (cb_unregister g h g')
  then show ?case using cb_ok_unregister [of g h] by auto
qed (rule cb_ok_init)

section \<open>Dispatching\<close>

text \<open>What is to be called, with no bound on the number of matches.\<close>

definition op_match_list :: "(OB_OPERATION_REGISTRATION \<Rightarrow> 'c option) \<Rightarrow> OB_OPERATION \<Rightarrow> nat \<Rightarrow> ob_callback_node \<Rightarrow> ('c \<times> nat) list" where
  "op_match_list sel op type n =
     [(c, cb_context n). r \<leftarrow> take (unat (cb_op_count n)) (cb_ops n), op_matches op type r, Some c \<leftarrow> [sel r]]"

definition matches :: "(OB_OPERATION_REGISTRATION \<Rightarrow> 'c option) \<Rightarrow> OB_OPERATION \<Rightarrow> nat \<Rightarrow> cb_registry \<Rightarrow> ('c \<times> nat) list" where
  "matches sel op type g = concat (map (op_match_list sel op type) (live g))"

lemma snap_ops_eq:
  "length snap \<le> OB_MAX_CALLBACK_MATCHES \<Longrightarrow> snap_ops sel op type ctx rs snap =
     take OB_MAX_CALLBACK_MATCHES (snap @ [(c, ctx). r \<leftarrow> rs, op_matches op type r, Some c \<leftarrow> [sel r]])"
  by (induction rs arbitrary: snap) (auto split: option.splits)

lemma take_take_append: "take n (take n xs @ ys) = take n (xs @ ys)"
  by (cases "n \<le> length xs") simp_all

lemma snap_nodes_eq:
  "length snap \<le> OB_MAX_CALLBACK_MATCHES \<Longrightarrow> \<forall>n \<in> set ns. cb_active n \<Longrightarrow> snap_nodes sel op type ns snap =
     take OB_MAX_CALLBACK_MATCHES (snap @ concat (map (op_match_list sel op type) ns))"
proof (induction ns arbitrary: snap)
  case (Cons n ns)
  let ?m = "op_match_list sel op type n"
  have "snap_ops sel op type (cb_context n) (take (unat (cb_op_count n)) (cb_ops n)) snap = take OB_MAX_CALLBACK_MATCHES (snap @ ?m)"
    using Cons.prems by (simp only: snap_ops_eq op_match_list_def)
  then have "snap_nodes sel op type (n # ns) snap = (if length snap < OB_MAX_CALLBACK_MATCHES
      then snap_nodes sel op type ns (take OB_MAX_CALLBACK_MATCHES (snap @ ?m)) else snap)"
    using Cons.prems by simp
  also have "\<dots> = take OB_MAX_CALLBACK_MATCHES (snap @ ?m @ concat (map (op_match_list sel op type) ns))"
    using Cons.prems Cons.IH [of "take OB_MAX_CALLBACK_MATCHES (snap @ ?m)"]
    by (cases "length snap < OB_MAX_CALLBACK_MATCHES") (simp_all add: take_take_append del: take_append, simp)
  finally show ?case by simp
qed simp

lemma length_matches_ops:
  "length [(c, ctx). r \<leftarrow> rs, op_matches op type r, Some c \<leftarrow> [sel r]] \<le> length rs"
  by (induction rs) (auto split: option.splits)

lemma length_concat_le: "\<forall>x \<in> set xs. length (f x) \<le> k \<Longrightarrow> length (concat (map f xs)) \<le> length xs * k"
  by (induction xs) auto

text \<open>The snapshot array is never too small.\<close>

lemma snapshot_eq:
  assumes ok: "cb_ok g"
  shows "snapshot sel op type g = matches sel op type g"
proof -
  have "\<forall>n \<in> set (live g). length (op_match_list sel op type n) \<le> 4"
  proof
    fix n assume "n \<in> set (live g)"
    then have "unat (cb_op_count n) \<le> 4" using ok by (auto simp: cb_ok_def node_ok_def cb_consts word_le_nat_alt)
    then show "length (op_match_list sel op type n) \<le> 4"
      unfolding op_match_list_def by (rule order_trans [OF length_matches_ops, OF order_trans, rotated]) simp
  qed
  then have "length (concat (map (op_match_list sel op type) (live g))) \<le> OB_MAX_CALLBACK_MATCHES"
    using length_concat_le [of "live g" "op_match_list sel op type" 4] ok length_live [OF ok]
    by (auto simp: OB_MAX_CALLBACK_MATCHES_def cb_consts cb_ok_def)
  moreover have "\<forall>n \<in> set (live g). cb_active n" using ok by (simp add: cb_ok_def node_ok_def)
  ultimately show ?thesis
    by (simp add: snapshot_def live_def [symmetric] snap_nodes_eq matches_def)
qed

text \<open>The running mask only loses bits, and a denial is exactly the loss of the last one.\<close>

lemma run_pre_strips: "run_pre op object type cs access = (st, acc) \<Longrightarrow>
    acc AND access = acc \<and> (st = -1 \<longleftrightarrow> access \<noteq> 0 \<and> acc = 0) \<and> (st = 0 \<or> st = -1)"
proof (induction cs arbitrary: access)
  case (Cons c cs)
  let ?a = "fst c \<lparr>pre_operation = op, pre_object = object, pre_object_type = type,
      pre_desired_access = access, pre_context = snd c\<rparr> AND access"
  have sub: "x AND ?a = x \<Longrightarrow> x AND access = x" for x
    by (metis and.assoc and.idem)
  show ?case
  proof (cases "?a = 0 \<and> access \<noteq> 0")
    case True
    with Cons.prems show ?thesis by (auto simp: Let_def)
  next
    case False
    with Cons.prems have "run_pre op object type cs ?a = (st, acc)" by (auto simp: Let_def)
    from Cons.IH [OF this] sub [of acc] False show ?thesis by auto
  qed
qed auto

text \<open>What is left of a mask when one callback has seen it.\<close>

definition strip :: "OB_OPERATION \<Rightarrow> nat \<Rightarrow> nat \<Rightarrow> OB_PRE_OPERATION_CALLBACK \<times> nat \<Rightarrow> u32 \<Rightarrow> u32" where
  "strip op object type c m =
     fst c \<lparr>pre_operation = op, pre_object = object, pre_object_type = type, pre_desired_access = m, pre_context = snd c\<rparr> AND m"

text \<open>The masks of a dispatch, from the request on: each callback in turn strips the mask before it, and the dispatch stops with a denial
  behind the first that strips the last right, else behind the last callback.\<close>

definition pre_chain :: "OB_OPERATION \<Rightarrow> nat \<Rightarrow> nat \<Rightarrow> (OB_PRE_OPERATION_CALLBACK \<times> nat) list \<Rightarrow> u32 \<Rightarrow> u32 list \<Rightarrow> int \<Rightarrow> bool" where
  "pre_chain op object type cs access ms st \<longleftrightarrow>
     0 < length ms \<and> length ms \<le> Suc (length cs) \<and> ms ! 0 = access \<and>
     (\<forall>i. Suc i < length ms \<longrightarrow> ms ! Suc i = strip op object type (cs ! i) (ms ! i)) \<and>
     (\<forall>i. Suc (Suc i) < length ms \<longrightarrow> \<not> (ms ! Suc i = 0 \<and> ms ! i \<noteq> 0)) \<and>
     (if st = 0 then length ms = Suc (length cs) \<and> (access \<noteq> 0 \<longrightarrow> ms ! (length ms - 1) \<noteq> 0)
      else 1 < length ms \<and> ms ! (length ms - 1) = 0 \<and> ms ! (length ms - 2) \<noteq> 0)"

lemma pre_chain_Cons:
  assumes "pre_chain op object type cs a ms st" "a = strip op object type c access" "\<not> (a = 0 \<and> access \<noteq> 0)"
  shows "pre_chain op object type (c # cs) access (access # ms) st"
proof -
  have ms: "0 < length ms" "ms ! 0 = a" using assms(1) by (simp_all add: pre_chain_def)
  have step: "\<And>i. Suc i < length ms \<Longrightarrow> ms ! Suc i = strip op object type (cs ! i) (ms ! i)"
    and keep: "\<And>i. Suc (Suc i) < length ms \<Longrightarrow> \<not> (ms ! Suc i = 0 \<and> ms ! i \<noteq> 0)" using assms(1) unfolding pre_chain_def by blast+
  have s: "(access # ms) ! Suc i = strip op object type ((c # cs) ! i) ((access # ms) ! i)" if "Suc i < length (access # ms)" for i
    using that assms(2) ms step by (cases i) simp_all
  have z: "\<not> ((access # ms) ! Suc i = 0 \<and> (access # ms) ! i \<noteq> 0)" if "Suc (Suc i) < length (access # ms)" for i
    using that assms(3) ms keep by (cases i) simp_all
  have l: "(access # ms) ! (length (access # ms) - 1) = ms ! (length ms - 1)" using ms(1) by (cases "length ms") auto
  have l2: "1 < length ms \<Longrightarrow> (access # ms) ! (length (access # ms) - 2) = ms ! (length ms - 2)"
    using nth_Cons_pos [of "length ms - 1" access ms] by (simp add: numeral_2_eq_2)
  have e: "if st = 0 then length (access # ms) = Suc (length (c # cs)) \<and> (access \<noteq> 0 \<longrightarrow> (access # ms) ! (length (access # ms) - 1) \<noteq> 0)
      else 1 < length (access # ms) \<and> (access # ms) ! (length (access # ms) - 1) = 0 \<and> (access # ms) ! (length (access # ms) - 2) \<noteq> 0"
  proof (cases "st = 0")
    case True
    then show ?thesis using assms(1,3) unfolding l pre_chain_def by (metis Suc_eq_plus1 length_Cons)
  next
    case False
    then show ?thesis using assms(1) l2 unfolding l by (simp add: pre_chain_def)
  qed
  have "length ms \<le> Suc (length cs)" using assms(1) by (simp add: pre_chain_def)
  then show ?thesis unfolding pre_chain_def using s z e by (intro conjI allI impI) simp_all
qed

lemma run_pre_chain: "run_pre op object type cs access = (st, acc) \<Longrightarrow>
    \<exists>ms. pre_chain op object type cs access ms st \<and> acc = ms ! (length ms - 1)"
proof (induction cs arbitrary: access)
  case Nil
  then show ?case by (auto simp: pre_chain_def intro!: exI [of _ "[access]"])
next
  case (Cons c cs)
  let ?a = "strip op object type c access"
  show ?case
  proof (cases "?a = 0 \<and> access \<noteq> 0")
    case True
    then have "st = -1" "acc = ?a" using Cons.prems by (auto simp: strip_def Let_def)
    then show ?thesis using True by (auto simp: pre_chain_def intro!: exI [of _ "[access, ?a]"])
  next
    case False
    then have "run_pre op object type cs ?a = (st, acc)" using Cons.prems by (auto simp: strip_def Let_def)
    from Cons.IH [OF this] obtain ms where ms: "pre_chain op object type cs ?a ms st" "acc = ms ! (length ms - 1)" by blast
    then have "acc = (access # ms) ! (length (access # ms) - 1)" by (cases "length ms") (auto simp: pre_chain_def)
    with pre_chain_Cons [OF ms(1) refl False] show ?thesis by blast
  qed
qed

lemma invoke_pre_eq:
  "cb_ok g \<Longrightarrow> ob_invoke_pre_callbacks op object type access g = run_pre op object type (matches or_pre_callback op type g) access"
  by (auto simp: ob_invoke_pre_callbacks_def ob_dispatch_pre_def snapshot_eq matches_def live_def)

section \<open>Properties\<close>

text \<open>C22: in every state that registrations and removals reach, the registered callbacks are active, sorted by
  altitude and carry distinct positive ids below the next one, at most 16 of them with at most 4 operations each,
  and neither operation leaves the array, whatever its arguments.\<close>

theorem cb_registry_invariant:
  assumes "cb_reach g" and "length (cr_operations r) = unat OB_MAX_CALLBACK_OPS"
  shows "cb_ok g \<and> (\<exists>g'. ObUnRegisterCallbacks h g = Some g') \<and>
     (\<exists>st h' g'. ObRegisterCallbacks None out g = Some (st, h', g')) \<and>
     (\<exists>st h' g'. ObRegisterCallbacks (Some r) out g = Some (st, h', g'))"
  using cb_reach_ok [OF assms(1)] cb_ok_register [OF cb_reach_ok [OF assms(1)], of None out]
    cb_ok_register [OF cb_reach_ok [OF assms(1)], of "Some r" out] assms(2)
    cb_ok_unregister [OF cb_reach_ok [OF assms(1)], of h]
  by auto

definition sample_reg :: "u32 \<Rightarrow> OB_CALLBACK_REGISTRATION" where
  "sample_reg alt = \<lparr>cr_version = 1, cr_operation_count = 1, cr_altitude = alt, cr_context = 7,
     cr_operations = replicate 4 (zero_op\<lparr>or_operations := 1, or_pre_callback := Some (\<lambda>i. pre_desired_access i AND 0xF)\<rparr>)\<rparr>"

theorem cb_registry_invariant_witness:
  "cb_ok cb_init \<and> (\<exists>st h' g'. ObRegisterCallbacks (Some (sample_reg 5)) True cb_init = Some (st, h', g'))"
  using cb_registry_invariant [of cb_init "sample_reg 5" _ True] cb_start
  by (simp add: sample_reg_def cb_consts)

text \<open>Registering inserts the new callbacks after every one of lower or equal altitude and before the others,
  under an id no registered callback has, and unregistering an id removes the callbacks registered under it
  and no other, whatever the array position; so unregistering the handle just returned restores the registry.\<close>

theorem ObRegisterCallbacks_roundtrip:
  assumes "cb_reach g" and "length (cr_operations r) = unat OB_MAX_CALLBACK_OPS" and "\<not> reg_refused (Some r) out g"
  shows "\<exists>h g1 g2 g3 node. ObRegisterCallbacks (Some r) out g = Some (0, Some h, g1) \<and> node_of r h node \<and>
     h \<notin> cb_id ` set (live g) \<and>
     live g1 = takeWhile (\<lambda>n. cb_altitude n \<le> cr_altitude r) (live g) @ node #
               dropWhile (\<lambda>n. cb_altitude n \<le> cr_altitude r) (live g) \<and>
     ObUnRegisterCallbacks k g1 = Some g2 \<and> live g2 = filter (\<lambda>n. cb_id n \<noteq> k) (live g1) \<and>
     ObUnRegisterCallbacks h g1 = Some g3 \<and> live g3 = live g"
proof -
  let ?h = "g_next_cb_id g"
  have ok: "cb_ok g" using assms(1) by (rule cb_reach_ok)
  obtain node g1 where reg: "ObRegisterCallbacks (Some r) out g = Some (0, Some ?h, g1)" "node_of r ?h node"
     "live g1 = takeWhile (\<lambda>n. cb_altitude n \<le> cr_altitude r) (live g) @ node #
               dropWhile (\<lambda>n. cb_altitude n \<le> cr_altitude r) (live g)"
    using reg_accepted [OF ok assms(3,2)] by blast
  have ok1: "cb_ok g1" using cb_ok_register [OF ok, of "Some r" out] assms(2) reg(1) by auto
  obtain g2 where g2: "ObUnRegisterCallbacks k g1 = Some g2" "live g2 = filter (\<lambda>n. cb_id n \<noteq> k) (live g1)"
    using unregister_eq [OF ok1] by blast
  obtain g3 where g3: "ObUnRegisterCallbacks ?h g1 = Some g3" "live g3 = filter (\<lambda>n. cb_id n \<noteq> ?h) (live g1)"
    using unregister_eq [OF ok1] by blast
  have fresh: "?h \<notin> cb_id ` set (live g)" using ok by (force simp: cb_ok_def)
  then have "filter (\<lambda>n. cb_id n \<noteq> ?h) (live g) = live g" by (intro filter_True) (auto simp: image_iff)
  then have "live g3 = live g"
    using g3(2) reg(2,3) by (simp add: node_of_def filter_insert_while del: filter_append)
  then show ?thesis using reg g2 g3(1) fresh by blast
qed

theorem ObRegisterCallbacks_roundtrip_witness:
  "\<exists>h g1 g3. ObRegisterCallbacks (Some (sample_reg 5)) True cb_init = Some (0, Some h, g1) \<and>
     ObUnRegisterCallbacks h g1 = Some g3 \<and> live g3 = live cb_init"
  using ObRegisterCallbacks_roundtrip [of cb_init "sample_reg 5" True 0] cb_start
  by (auto simp: sample_reg_def cb_consts reg_refused_def live_def cb_init_def)

text \<open>C23: for every registry the operations reach, dispatching runs the registered pre-callbacks of the type and operation one after the other in the order of
  the registry, none being cut off by the snapshot array: the first is shown the request, each next one exactly the rights that the one before it left of what it was
  shown, and it goes on until one strips the last right, which denies the request, or until all have run. What is returned is exactly what the last one left; it is a subset of the request,
  and a request is denied exactly when rights were asked for and none survives. So a request that is not denied has been seen by every such callback.\<close>

theorem ob_invoke_pre_callbacks_strips:
  assumes "cb_reach g" and "ob_invoke_pre_callbacks op object type access g = (st, acc)"
  shows "acc AND access = acc \<and> (st = -1 \<longleftrightarrow> access \<noteq> 0 \<and> acc = 0) \<and> (st = 0 \<or> st = -1) \<and>
     (\<exists>cs ms. cs = concat (map (\<lambda>n. [(c, cb_context n). r \<leftarrow> take (unat (cb_op_count n)) (cb_ops n), op_matches op type r, Some c \<leftarrow> [or_pre_callback r]])
          (take (g_callback_count g) (g_callbacks g))) \<and>
        0 < length ms \<and> length ms \<le> Suc (length cs) \<and> ms ! 0 = access \<and> acc = ms ! (length ms - 1) \<and>
        (\<forall>i. Suc i < length ms \<longrightarrow> ms ! Suc i = strip op object type (cs ! i) (ms ! i)) \<and>
        (\<forall>i. Suc (Suc i) < length ms \<longrightarrow> \<not> (ms ! Suc i = 0 \<and> ms ! i \<noteq> 0)) \<and>
        (st = 0 \<longrightarrow> length ms = Suc (length cs)) \<and> (st = -1 \<longrightarrow> 1 < length ms \<and> ms ! (length ms - 2) \<noteq> 0))"
proof -
  let ?cs = "matches or_pre_callback op type g"
  have run: "run_pre op object type ?cs access = (st, acc)"
    using assms(2) invoke_pre_eq [OF cb_reach_ok [OF assms(1)]] by simp
  obtain ms where ms: "pre_chain op object type ?cs access ms st" "acc = ms ! (length ms - 1)" using run_pre_chain [OF run] by blast
  moreover have "?cs = concat (map (\<lambda>n. [(c, cb_context n). r \<leftarrow> take (unat (cb_op_count n)) (cb_ops n), op_matches op type r, Some c \<leftarrow> [or_pre_callback r]])
      (take (g_callback_count g) (g_callbacks g)))"
    unfolding matches_def live_def by (rule arg_cong [where f = "\<lambda>f. concat (map f _)"]) (rule ext, rule op_match_list_def)
  ultimately have "\<exists>cs ms. cs = concat (map (\<lambda>n. [(c, cb_context n). r \<leftarrow> take (unat (cb_op_count n)) (cb_ops n), op_matches op type r, Some c \<leftarrow> [or_pre_callback r]])
          (take (g_callback_count g) (g_callbacks g))) \<and>
        0 < length ms \<and> length ms \<le> Suc (length cs) \<and> ms ! 0 = access \<and> acc = ms ! (length ms - 1) \<and>
        (\<forall>i. Suc i < length ms \<longrightarrow> ms ! Suc i = strip op object type (cs ! i) (ms ! i)) \<and>
        (\<forall>i. Suc (Suc i) < length ms \<longrightarrow> \<not> (ms ! Suc i = 0 \<and> ms ! i \<noteq> 0)) \<and>
        (st = 0 \<longrightarrow> length ms = Suc (length cs)) \<and> (st = -1 \<longrightarrow> 1 < length ms \<and> ms ! (length ms - 2) \<noteq> 0)"
    by (intro exI [of _ ?cs] exI [of _ ms]) (cases "st = 0", simp_all add: pre_chain_def)
  then show ?thesis using run_pre_strips [OF run] by blast
qed

definition sample_registry :: cb_registry where
  "sample_registry = snd (snd (the (ObRegisterCallbacks (Some (sample_reg 5)) True cb_init)))"

lemma sample_register: "ObRegisterCallbacks (Some (sample_reg 5)) True cb_init = Some (0, Some 1, sample_registry)"
  by (simp add: sample_registry_def ObRegisterCallbacks_def sample_reg_def cb_init_def cb_consts copy_ops_def Let_def)

lemma sample_invoke: "ob_invoke_pre_callbacks OB_OPERATION_HANDLE_CREATE 3 0 0xFC sample_registry = (0, 0xC)"
  by code_simp

theorem ob_invoke_pre_callbacks_strips_witness:
  "ob_invoke_pre_callbacks OB_OPERATION_HANDLE_CREATE 3 0 0xFC sample_registry = (0, 0xC) \<and>
   (0xC :: u32) AND 0xFC = 0xC"
proof -
  have "cb_reach sample_registry"
    by (rule cb_register [OF cb_start _ sample_register]) (simp add: sample_reg_def cb_consts)
  from ob_invoke_pre_callbacks_strips [OF this sample_invoke] sample_invoke show ?thesis by blast
qed

end
