(* ===== verification/Ob_Handle_Facts.thy ===== *)
theory Ob_Handle_Facts
  imports Ob_Handle Ob_Callback_Facts
begin

text \<open>
  Handles never dangle. In every state that the object manager's operations reach, each occupied
  slot of each handle table names a live object, the handle count of an object is the number of slots
  that name it, and its reference count is at least that; so no operation touches a freed header, whatever handle
  it is given.
\<close>

section \<open>Slots and the invariant\<close>

definition slots :: "(nat \<rightharpoonup> HANDLE_TABLE) \<Rightarrow> nat \<Rightarrow> (nat \<times> nat) set" where
  "slots T b = {(t, i). \<exists>ht es. T t = Some ht \<and> entries ht = Some es \<and> i < length es \<and> e_object (es ! i) = b}"

definition occupied :: "HANDLE_TABLE_ENTRY list \<Rightarrow> nat" where
  "occupied es = length (filter (\<lambda>e. e_object e \<noteq> 0) es)"

text \<open>The capacity never exceeds the absolute limit and the reserved slot 0, which is never taken.\<close>

definition table_ok :: "HANDLE_TABLE \<Rightarrow> bool" where
  "table_ok ht \<longleftrightarrow> (case entries ht of None \<Rightarrow> True | Some es \<Rightarrow>
     length es = unat (capacity ht) \<and> 1 \<le> length es \<and> length es \<le> 1048577 \<and>
     unat (ht_count ht) = occupied es \<and> e_object (es ! 0) = 0 \<and> unat (handle_limit ht) \<le> 1048576)"

definition tabs_ok :: "(nat \<rightharpoonup> HANDLE_TABLE) \<Rightarrow> bool" where
  "tabs_ok T \<longleftrightarrow> finite (dom T) \<and> (\<forall>t ht. T t = Some ht \<longrightarrow> table_ok ht)"

definition header_ok :: "(nat \<Rightarrow> bool) \<Rightarrow> nat \<Rightarrow> OBJECT_HEADER \<Rightarrow> bool" where
  "header_ok typed n h \<longleftrightarrow> typed (hdr_type h) \<and> unat (handle_count h) = n \<and> n \<le> unat (ref_count h) \<and>
     0 < unat (ref_count h) \<and> unat (ref_count h) < 2 ^ 31"

definition heap_ok :: "(nat \<Rightarrow> bool) \<Rightarrow> (nat \<rightharpoonup> OBJECT_HEADER) \<Rightarrow> (nat \<rightharpoonup> HANDLE_TABLE) \<Rightarrow> bool" where
  "heap_ok typed H T \<longleftrightarrow> H 0 = None \<and> (\<forall>b. b \<noteq> 0 \<longrightarrow>
     (case H b of None \<Rightarrow> slots T b = {} | Some h \<Rightarrow> header_ok typed (card (slots T b)) h))"

definition typed :: "ob_state \<Rightarrow> nat \<Rightarrow> bool" where
  "typed s t \<longleftrightarrow> type_at t s \<noteq> None"

definition ob_inv :: "ob_state \<Rightarrow> bool" where
  "ob_inv s \<longleftrightarrow> tabs_ok (ob_tables s) \<and> heap_ok (typed s) (ob_heap s) (ob_tables s)"

subsection \<open>What the small updates leave alone\<close>

lemma frame_simps [simp]:
  "ob_tables (put_header b h s) = ob_tables s" "ob_heap (put_header b h s) = (ob_heap s)(b \<mapsto> h)"
  "ob_tables (put_table t ht s) = (ob_tables s)(t \<mapsto> ht)" "ob_heap (put_table t ht s) = ob_heap s"
  "ob_tables (log_event e s) = ob_tables s" "ob_heap (log_event e s) = ob_heap s"
  "ob_tables (stat_update f u s) = ob_tables s" "ob_heap (stat_update f u s) = ob_heap s"
  "ob_tables (log_posts op b u a s) = ob_tables s" "ob_heap (log_posts op b u a s) = ob_heap s"
  "ob_callbacks (put_header b h s) = ob_callbacks s" "ob_callbacks (put_table t ht s) = ob_callbacks s"
  "ob_callbacks (log_event e s) = ob_callbacks s" "ob_callbacks (stat_update f u s) = ob_callbacks s"
  "ob_callbacks (log_posts op b u a s) = ob_callbacks s"
  "ob_tables (handle_table_free_entries x c s) = ob_tables s" "ob_heap (handle_table_free_entries x c s) = ob_heap s"
  "ob_callbacks (handle_table_free_entries x c s) = ob_callbacks s"
  by (simp_all add: put_header_def put_table_def log_event_def stat_update_def log_posts_def
      handle_table_free_entries_def Let_def split: option.splits)

lemma typed_frame [simp]:
  "typed (put_header b h s) = typed s" "typed (put_table t ht s) = typed s" "typed (log_event e s) = typed s"
  "typed (stat_update f u s) = typed s" "typed (log_posts op b u a s) = typed s"
  "typed (handle_table_free_entries x c s) = typed s" "typed (s\<lparr>task_current := tc\<rparr>) = typed s"
  "typed (s\<lparr>ob_log := l, ob_heap := g\<rparr>) = typed s" "typed (s\<lparr>ob_heap := g\<rparr>) = typed s" "typed (s\<lparr>ob_log := l\<rparr>) = typed s"
  by (rule ext, simp add: typed_def type_at_def put_header_def put_table_def log_event_def stat_update_def log_posts_def
      handle_table_free_entries_def Let_def split: option.splits)+

lemma typedE: "typed s t \<Longrightarrow> (\<And>ty. type_at t s = Some ty \<Longrightarrow> P) \<Longrightarrow> P"
  by (auto simp: typed_def)

subsection \<open>Counting slots\<close>

lemma table_okD:
  assumes "tabs_ok T" "T t = Some ht" "entries ht = Some es"
  shows "length es = unat (capacity ht)" "1 \<le> length es" "length es \<le> 1048577" "unat (ht_count ht) = occupied es"
    "e_object (es ! 0) = 0" "unat (handle_limit ht) \<le> 1048576"
proof -
  have "table_ok ht" using assms(1,2) by (simp add: tabs_ok_def)
  then show "length es = unat (capacity ht)" "1 \<le> length es" "length es \<le> 1048577" "unat (ht_count ht) = occupied es"
    "e_object (es ! 0) = 0" "unat (handle_limit ht) \<le> 1048576"
    using assms(3) by (simp_all add: table_ok_def)
qed

lemma cap_length:
  assumes "ob_inv s" "ob_tables s t = Some ht" "entries ht = Some es" shows "length es = unat (capacity ht)"
proof -
  have "tabs_ok (ob_tables s)" using assms(1) by (simp add: ob_inv_def)
  from table_okD(1) [OF this assms(2,3)] show ?thesis .
qed

lemma finite_slots: assumes "tabs_ok T" shows "finite (slots T b)"
proof -
  have "slots T b \<subseteq> dom T \<times> {..<1048577}"
    using table_okD(3) [OF assms] by (fastforce simp: slots_def)
  then show ?thesis
    by (rule finite_subset) (use assms in \<open>auto simp: tabs_ok_def\<close>)
qed

lemma slots_update:
  assumes "T t = Some ht" "entries ht = Some es" "entries ht' = Some (es[i := e])" "i < length es"
  shows "slots (T(t \<mapsto> ht')) b = (if e_object e = b then insert (t, i) (slots T b) else slots T b - {(t, i)})"
  using assms by (auto simp: slots_def nth_list_update split: if_splits)

lemma slots_same_entries:
  assumes "T t = Some ht" "entries ht' = entries ht" shows "slots (T(t \<mapsto> ht')) b = slots T b"
proof -
  have "(\<exists>g es. (T(t \<mapsto> ht')) u = Some g \<and> entries g = Some es \<and> i < length es \<and> e_object (es ! i) = b) \<longleftrightarrow>
      (\<exists>g es. T u = Some g \<and> entries g = Some es \<and> i < length es \<and> e_object (es ! i) = b)" for u i
    using assms by (cases "u = t") simp_all
  then show ?thesis by (simp add: slots_def)
qed

lemma occupied_update:
  assumes "i < length es"
  shows "occupied (es[i := e]) + of_bool (e_object (es ! i) \<noteq> 0) = occupied es + of_bool (e_object e \<noteq> 0)"
proof -
  have es: "es = take i es @ es ! i # drop (Suc i) es" using assms by (rule id_take_nth_drop)
  have up: "es[i := e] = take i es @ e # drop (Suc i) es" using assms by (rule upd_conv_take_nth_drop)
  have "occupied es = occupied (take i es @ es ! i # drop (Suc i) es)" using es by simp
  then show ?thesis unfolding up by (simp add: occupied_def)
qed

lemma occupied_le: "e_object (es ! 0) = 0 \<Longrightarrow> es \<noteq> [] \<Longrightarrow> occupied es < length es"
  unfolding occupied_def by (rule length_filter_less [of "es ! 0"]) simp_all

lemma heap_okD:
  "heap_ok P H T \<Longrightarrow> b \<noteq> 0 \<Longrightarrow> H b = Some h \<Longrightarrow> header_ok P (card (slots T b)) h"
  "heap_ok P H T \<Longrightarrow> b \<noteq> 0 \<Longrightarrow> H b = None \<Longrightarrow> slots T b = {}"
  "heap_ok P H T \<Longrightarrow> H 0 = None"
proof -
  show "heap_ok P H T \<Longrightarrow> H 0 = None" by (simp add: heap_ok_def)
  assume ok: "heap_ok P H T" "b \<noteq> 0"
  then have "case H b of None \<Rightarrow> slots T b = {} | Some h \<Rightarrow> header_ok P (card (slots T b)) h" by (simp add: heap_ok_def)
  then show "H b = Some h \<Longrightarrow> header_ok P (card (slots T b)) h" "H b = None \<Longrightarrow> slots T b = {}" by simp_all
qed

lemma heap_ok_same_slots:
  assumes "heap_ok P H T" and "\<And>b. b \<noteq> 0 \<Longrightarrow> slots T' b = slots T b"
  shows "heap_ok P H T'"
  unfolding heap_ok_def
proof (intro conjI allI impI)
  fix b :: nat assume "b \<noteq> 0"
  then show "case H b of None \<Rightarrow> slots T' b = {} | Some h \<Rightarrow> header_ok P (card (slots T' b)) h"
    using heap_okD(1,2) [OF assms(1) \<open>b \<noteq> 0\<close>] assms(2) [OF \<open>b \<noteq> 0\<close>] by (auto split: option.split)
qed (rule heap_okD(3) [OF assms(1)])

text \<open>An operation that touches one object.\<close>

lemma heap_ok_update:
  assumes "heap_ok P H T" "b \<noteq> 0" and "\<And>c. c \<noteq> 0 \<Longrightarrow> c \<noteq> b \<Longrightarrow> slots T' c = slots T c"
    and "case x of None \<Rightarrow> slots T' b = {} | Some h \<Rightarrow> header_ok P (card (slots T' b)) h"
  shows "heap_ok P (H(b := x)) T'"
proof -
  have "case (H(b := x)) c of None \<Rightarrow> slots T' c = {} | Some h \<Rightarrow> header_ok P (card (slots T' c)) h" if "c \<noteq> 0" for c
    using that assms heap_okD(1,2) [OF assms(1) that] by (cases "c = b") (auto split: option.split)
  then show ?thesis using assms(2) heap_okD(3) [OF assms(1)] by (simp add: heap_ok_def)
qed

lemma slot_live:
  assumes "ob_inv s" "ob_tables s t = Some ht" "entries ht = Some es" "i < length es" "e_object (es ! i) \<noteq> 0"
  obtains h where "ob_heap s (e_object (es ! i)) = Some h"
    "header_ok (typed s) (card (slots (ob_tables s) (e_object (es ! i)))) h"
    "(t, i) \<in> slots (ob_tables s) (e_object (es ! i))" "0 < card (slots (ob_tables s) (e_object (es ! i)))"
proof -
  let ?b = "e_object (es ! i)"
  have mem: "(t, i) \<in> slots (ob_tables s) ?b" using assms by (auto simp: slots_def)
  moreover have "finite (slots (ob_tables s) ?b)" using assms(1) by (simp add: ob_inv_def finite_slots)
  ultimately have "0 < card (slots (ob_tables s) ?b)" by (auto simp: card_gt_0_iff)
  moreover obtain h where "ob_heap s ?b = Some h"
    using heap_okD(2) [of "typed s" "ob_heap s" "ob_tables s" ?b] assms mem by (cases "ob_heap s ?b") (auto simp: ob_inv_def)
  ultimately show ?thesis
    using that mem heap_okD(1) [of "typed s" "ob_heap s" "ob_tables s" ?b] assms by (auto simp: ob_inv_def)
qed

section \<open>Claiming and releasing a slot\<close>

lemma word_Suc: "unat (w :: u32) < 2 ^ 32 - 1 \<Longrightarrow> unat (w + 1) = Suc (unat w)"
  by (simp add: unat_word_ariths)

lemma word_pred: "0 < unat (w :: u32) \<Longrightarrow> unat (w - 1) = unat w - 1"
  by (metis One_nat_def Suc_leI unat_1 unat_sub word_le_nat_alt)

lemma word_gt_0_unat: "(0 < (w :: u32)) = (0 < unat w)"
  by (simp add: word_less_nat_alt)

lemma table_ok_claim:
  assumes "table_ok ht" "entries ht = Some es" "0 < i" "i < length es" "e_object (es ! i) = 0" "e_object e \<noteq> 0"
  shows "table_ok (ht\<lparr>entries := Some (es[i := e]), ht_count := ht_count ht + 1\<rparr>)"
proof -
  have occ: "occupied (es[i := e]) = Suc (occupied es)" using occupied_update [OF assms(4), of e] assms(5,6) by simp
  have "es \<noteq> []" using assms(4) by auto
  then have "occupied es < length es" "length es \<le> 1048577" using assms occupied_le [of es] by (simp_all add: table_ok_def)
  then show ?thesis using assms occ by (simp add: table_ok_def word_Suc)
qed

text \<open>The state after a free slot has been given to an object.\<close>

lemma claim_inv:
  assumes inv: "ob_inv s" and ht: "ob_tables s t = Some ht" "entries ht = Some es"
    and i: "0 < i" "i < length es" "e_object (es ! i) = 0"
    and obj: "e_object e \<noteq> 0" "ob_heap s (e_object e) = Some h" "unat (ref_count h) < 2 ^ 31 - 1"
    and s': "ob_tables s' = (ob_tables s)(t \<mapsto> ht\<lparr>entries := Some (es[i := e]), ht_count := ht_count ht + 1\<rparr>)"
      "ob_heap s' = (ob_heap s)(e_object e \<mapsto> h\<lparr>ref_count := ref_count h + 1, handle_count := handle_count h + 1\<rparr>)"
      "typed s' = typed s"
  shows "ob_inv s'"
proof -
  let ?T = "ob_tables s"
  let ?ht = "ht\<lparr>entries := Some (es[i := e]), ht_count := ht_count ht + 1\<rparr>"
  let ?h = "h\<lparr>ref_count := ref_count h + 1, handle_count := handle_count h + 1\<rparr>"
  have tabs: "tabs_ok ?T" "table_ok ht" using inv ht by (auto simp: ob_inv_def tabs_ok_def)
  have hok: "header_ok (typed s) (card (slots ?T (e_object e))) h" using inv obj heap_okD(1) by (auto simp: ob_inv_def)
  have notin: "(t, i) \<notin> slots ?T (e_object e)" using ht i obj(1) by (auto simp: slots_def)
  have sl: "slots (?T(t \<mapsto> ?ht)) c = (if c = e_object e then insert (t, i) (slots ?T c) else slots ?T c - {(t, i)})" for c
    using slots_update [of ?T t ht es ?ht i e c] ht i by auto
  have other: "slots (?T(t \<mapsto> ?ht)) c = slots ?T c" if "c \<noteq> 0" "c \<noteq> e_object e" for c
    using sl [of c] that ht i by (auto simp: slots_def)
  have "card (slots (?T(t \<mapsto> ?ht)) (e_object e)) = Suc (card (slots ?T (e_object e)))"
    using sl [of "e_object e"] notin finite_slots [OF tabs(1)] by simp
  then have "header_ok (typed s) (card (slots (?T(t \<mapsto> ?ht)) (e_object e))) ?h"
    using hok obj(3) by (auto simp: header_ok_def word_Suc)
  then have "heap_ok (typed s) (ob_heap s') (?T(t \<mapsto> ?ht))"
    unfolding s'(2) using inv obj(1) other by (intro heap_ok_update) (auto simp: ob_inv_def)
  moreover have "tabs_ok (?T(t \<mapsto> ?ht))"
    using tabs table_ok_claim [OF tabs(2) ht(2) i obj(1)] by (auto simp: tabs_ok_def)
  ultimately show "ob_inv s'" using s' by (simp add: ob_inv_def)
qed

lemma claim_slot_eq:
  assumes inv: "ob_inv s" and ht: "ob_tables s t = Some ht" "entries ht = Some es"
    and i: "0 < i" "i < length es" "e_object (es ! i) = 0"
    and obj: "object \<noteq> 0" "ob_heap s object = Some h" "unat (ref_count h) < 2 ^ 31 - 1"
  shows "\<exists>s'. claim_slot fire t i object access attrs s = Some (handle_of i, s') \<and> ob_inv s' \<and>
     ob_tables s' = (ob_tables s)(t \<mapsto> ht\<lparr>entries := Some (es[i := \<lparr>e_object = object, granted_access = access, attributes = attrs\<rparr>]),
                                         ht_count := ht_count ht + 1\<rparr>) \<and>
     ob_heap s' = (ob_heap s)(object \<mapsto> h\<lparr>ref_count := ref_count h + 1, handle_count := handle_count h + 1\<rparr>) \<and>
     typed s' = typed s \<and> ob_callbacks s' = ob_callbacks s"
proof -
  let ?e = "\<lparr>e_object = object, granted_access = access, attributes = attrs\<rparr>"
  obtain s' where s': "claim_slot fire t i object access attrs s = Some (handle_of i, s')"
    "ob_tables s' = (ob_tables s)(t \<mapsto> ht\<lparr>entries := Some (es[i := ?e]), ht_count := ht_count ht + 1\<rparr>)"
    "ob_heap s' = (ob_heap s)(object \<mapsto> h\<lparr>ref_count := ref_count h + 1, handle_count := handle_count h + 1\<rparr>)"
    "typed s' = typed s" "ob_callbacks s' = ob_callbacks s"
    using ht i obj by (simp add: claim_slot_def put_slot_def ObReferenceObject_def Let_def)
  with claim_inv [OF inv ht i, of ?e h s'] obj show ?thesis by simp
qed

text \<open>Dropping one reference: the header that is left.\<close>

definition dropped :: "OBJECT_HEADER \<Rightarrow> OBJECT_HEADER option" where
  "dropped h = (if ref_count h = 1 then if hdr_flags h AND OB_FLAG_PERMANENT \<noteq> 0 then Some h else None
     else Some (h\<lparr>ref_count := ref_count h - 1\<rparr>))"

lemma ob_free_object_eq:
  assumes "ob_heap s b = Some h" "typed s (hdr_type h)"
  shows "\<exists>s'. ob_free_object b s = Some s' \<and> ob_tables s' = ob_tables s \<and> ob_heap s' = (ob_heap s)(b := None) \<and>
     typed s' = typed s \<and> ob_callbacks s' = ob_callbacks s"
proof -
  have "typed (if hdr_trace h \<noteq> 0 then log_event (Kfree (hdr_trace h)) (stat_update uncount_object (hdr_type h) s)
      else stat_update uncount_object (hdr_type h) s) (hdr_type h)" using assms(2) by simp
  then obtain ty where "type_at (hdr_type h) (if hdr_trace h \<noteq> 0
      then log_event (Kfree (hdr_trace h)) (stat_update uncount_object (hdr_type h) s)
      else stat_update uncount_object (hdr_type h) s) = Some ty" by (rule typedE)
  then show ?thesis using assms(1)
    by (auto simp: ob_free_object_def Let_def)
qed

lemma ObDereferenceObject_eq:
  assumes "ob_heap s b = Some h" "typed s (hdr_type h)"
  shows "\<exists>r s'. ObDereferenceObject b s = Some (r, s') \<and> ob_tables s' = ob_tables s \<and>
     ob_heap s' = (ob_heap s)(b := dropped h) \<and> typed s' = typed s \<and> ob_callbacks s' = ob_callbacks s"
proof -
  let ?h = "h\<lparr>ref_count := ref_count h - 1\<rparr>"
  let ?s = "put_header b ?h s"
  have z: "ref_count h - 1 = 0 \<longleftrightarrow> ref_count h = 1" by auto
  obtain ty where ty: "type_at (hdr_type h) ?s = Some ty" using assms(2) typedE [of ?s "hdr_type h"] by auto
  have h: "ob_heap (if ty_on_delete ty then log_event (OnDelete b) ?s else ?s) b = Some ?h" by simp
  have t: "typed (if ty_on_delete ty then log_event (OnDelete b) ?s else ?s) (hdr_type ?h)" using assms(2) by simp
  obtain s' where s': "ob_free_object b (if ty_on_delete ty then log_event (OnDelete b) ?s else ?s) = Some s'"
    "ob_tables s' = ob_tables s" "ob_heap s' = (ob_heap s)(b := None)" "typed s' = typed s" "ob_callbacks s' = ob_callbacks s"
    using ob_free_object_eq [OF h t] by auto
  show ?thesis
  proof (cases "ref_count h = 1")
    case True
    then have "h\<lparr>ref_count := 1\<rparr> = h" by simp
    with True s' ty assms show ?thesis
      by (auto simp: ObDereferenceObject_def Let_def dropped_def)
  next
    case False
    with assms show ?thesis by (simp add: ObDereferenceObject_def Let_def dropped_def z)
  qed
qed

lemma header_ok_dropped:
  assumes "header_ok P n h" "m < unat (ref_count h)" "unat (handle_count h') = m"
    "ref_count h' = ref_count h" "hdr_type h' = hdr_type h"
  shows "case dropped h' of None \<Rightarrow> m = 0 | Some g \<Rightarrow> header_ok P m g"
proof (cases "ref_count h = 1")
  case True
  with assms show ?thesis by (auto simp: dropped_def header_ok_def)
next
  case False
  then have "unat (ref_count h) \<noteq> 1" by (metis unat_1 word_unat_eq_iff)
  with False assms show ?thesis by (auto simp: dropped_def header_ok_def word_pred)
qed

lemma table_ok_release:
  assumes "table_ok ht" "entries ht = Some es" "i < length es" "e_object (es ! i) \<noteq> 0"
  shows "table_ok (ht\<lparr>entries := Some (es[i := zero_entry]), ht_count := ht_count ht - 1, quota_warned := q\<rparr>)"
proof -
  have occ: "Suc (occupied (es[i := zero_entry])) = occupied es"
    using occupied_update [OF assms(3), of zero_entry] assms(4) by (simp add: zero_entry_def)
  have "0 < i" using assms by (cases i) (auto simp: table_ok_def)
  then show ?thesis using assms occ by (auto simp: table_ok_def word_pred)
qed

lemma release_slot_eq:
  assumes inv: "ob_inv s" and ht: "ob_tables s t = Some ht" "entries ht = Some es"
    and i: "i < length es" "e_object (es ! i) = b" "b \<noteq> 0" and h: "ob_heap s b = Some h"
  shows "\<exists>s' q. release_slot t i b s = Some s' \<and> ob_inv s' \<and>
     ob_tables s' = (ob_tables s)(t \<mapsto> ht\<lparr>entries := Some (es[i := zero_entry]), ht_count := ht_count ht - 1, quota_warned := q\<rparr>) \<and>
     ob_heap s' = (ob_heap s)(b := dropped (h\<lparr>handle_count := handle_count h - 1\<rparr>)) \<and>
     typed s' = typed s \<and> ob_callbacks s' = ob_callbacks s"
proof -
  let ?T = "ob_tables s"
  define q where "q = (if ht_count ht - 1 < handle_limit ht then False else quota_warned ht)"
  let ?ht = "ht\<lparr>entries := Some (es[i := zero_entry]), ht_count := ht_count ht - 1, quota_warned := q\<rparr>"
  let ?h = "h\<lparr>handle_count := handle_count h - 1\<rparr>"
  have hok: "header_ok (typed s) (card (slots ?T b)) h" and mem: "(t, i) \<in> slots ?T b" and pos: "0 < card (slots ?T b)"
    using slot_live [OF inv ht i(1)] i h by auto
  have tabs: "tabs_ok ?T" "table_ok ht" using inv ht by (auto simp: ob_inv_def tabs_ok_def)
  have hc: "handle_count h > 0" using hok pos by (simp add: header_ok_def word_gt_0_unat)
  define s1 where "s1 = put_header b ?h (put_table t ?ht (put_table t (ht\<lparr>entries := Some (es[i := zero_entry])\<rparr>) s))"
  have tyd: "typed s1 (hdr_type ?h)" using hok by (simp add: s1_def header_ok_def)
  then obtain ty where ty: "type_at (hdr_type h) s1 = Some ty" using typedE [OF tyd] by auto
  define s2 where "s2 = stat_update uncount_handle (hdr_type h)
      (if handle_count ?h = 0 \<and> ty_on_close ty then log_event (OnClose b) s1 else s1)"
  have s2: "ob_heap s2 b = Some ?h" "typed s2 (hdr_type ?h)" "ob_tables s2 = ?T(t \<mapsto> ?ht)"
    "ob_heap s2 = (ob_heap s)(b \<mapsto> ?h)" "typed s2 = typed s" "ob_callbacks s2 = ob_callbacks s"
    using tyd by (simp_all add: s2_def s1_def)
  obtain r s' where s': "ObDereferenceObject b s2 = Some (r, s')" "ob_tables s' = ?T(t \<mapsto> ?ht)"
    "ob_heap s' = (ob_heap s)(b := dropped ?h)" "typed s' = typed s" "ob_callbacks s' = ob_callbacks s"
    using ObDereferenceObject_eq [OF s2(1,2)] s2 by auto
  have rel: "release_slot t i b s = Some s'"
    using h ht i(1) hc ty s'(1)
    by (auto simp: release_slot_def put_slot_def Let_def s2_def s1_def q_def split: if_splits)
  have sl: "slots (?T(t \<mapsto> ?ht)) c = (if c = 0 then insert (t, i) (slots ?T c) else slots ?T c - {(t, i)})" for c
    using slots_update [of ?T t ht es ?ht i zero_entry c] ht i by (auto simp: zero_entry_def)
  have other: "slots (?T(t \<mapsto> ?ht)) c = slots ?T c" if "c \<noteq> 0" "c \<noteq> b" for c
    using sl [of c] that ht i by (auto simp: slots_def)
  have fin: "finite (slots ?T b)" by (rule finite_slots [OF tabs(1)])
  have card: "card (slots (?T(t \<mapsto> ?ht)) b) = card (slots ?T b) - 1"
    using sl [of b] mem fin i(3) by simp
  have "case dropped ?h of None \<Rightarrow> card (slots (?T(t \<mapsto> ?ht)) b) = 0 | Some g \<Rightarrow> header_ok (typed s) (card (slots (?T(t \<mapsto> ?ht)) b)) g"
    using hok pos by (intro header_ok_dropped [OF hok]) (auto simp: card header_ok_def word_pred)
  moreover have "finite (slots (?T(t \<mapsto> ?ht)) b)" using sl [of b] fin i(3) by simp
  ultimately have "heap_ok (typed s) (ob_heap s') (?T(t \<mapsto> ?ht))"
    unfolding s'(3) using inv i(3) other by (intro heap_ok_update) (auto simp: ob_inv_def split: option.splits)
  moreover have "tabs_ok (?T(t \<mapsto> ?ht))"
    using tabs table_ok_release [OF tabs(2) ht(2) i(1)] i(2,3) by (auto simp: tabs_ok_def)
  ultimately have "ob_inv s'" using s' by (simp add: ob_inv_def)
  then show ?thesis using s' rel by blast
qed

section \<open>Growing and scanning\<close>

lemma scan_free_eq:
  assumes "n \<le> length es" "i \<le> n"
  shows "\<exists>j. scan_free es i n = Some j \<and> i \<le> j \<and> j \<le> n \<and> (j < n \<longrightarrow> e_object (es ! j) = 0) \<and>
     (\<forall>k. i \<le> k \<and> k < j \<longrightarrow> e_object (es ! k) \<noteq> 0)"
  using assms
proof (induction es i n rule: scan_free.induct)
  case (1 es i n)
  show ?case
  proof (cases "i < n \<and> e_object (es ! i) \<noteq> 0")
    case True
    with 1 obtain j where j: "scan_free es (Suc i) n = Some j" "Suc i \<le> j" "j \<le> n"
      "j < n \<longrightarrow> e_object (es ! j) = 0" "\<forall>k. Suc i \<le> k \<and> k < j \<longrightarrow> e_object (es ! k) \<noteq> 0"
      by (auto simp: slot_def)
    moreover have "e_object (es ! k) \<noteq> 0" if "i \<le> k" "k < j" for k
      using that j(5) True by (cases "k = i") auto
    ultimately show ?thesis using True 1(2) by (auto simp: scan_free.simps [of es i] slot_def)
  next
    case False
    with 1 show ?thesis by (auto simp: scan_free.simps [of es i] slot_def)
  qed
qed

lemma occupied_full: "\<forall>k. 1 \<le> k \<and> k < length es \<longrightarrow> e_object (es ! k) \<noteq> 0 \<Longrightarrow> e_object (es ! 0) = 0 \<Longrightarrow> es \<noteq> [] \<Longrightarrow>
    Suc (occupied es) = length es"
proof (cases es)
  case (Cons e fs)
  assume *: "\<forall>k. 1 \<le> k \<and> k < length es \<longrightarrow> e_object (es ! k) \<noteq> 0" "e_object (es ! 0) = 0"
  have "\<forall>x \<in> set fs. e_object x \<noteq> 0"
  proof
    fix x assume "x \<in> set fs"
    then obtain k where "k < length fs" "x = fs ! k" by (auto simp: in_set_conv_nth)
    with *(1) Cons show "e_object x \<noteq> 0" by (auto dest: spec [of _ "Suc k"])
  qed
  then have "filter (\<lambda>x. e_object x \<noteq> 0) fs = fs" by (rule filter_True)
  with *(2) Cons show ?thesis by (simp add: occupied_def)
qed auto

definition cap_ceiling :: "HANDLE_TABLE \<Rightarrow> nat" where
  "cap_ceiling ht = (if handle_limit ht = 0 then 1048577 else unat (handle_limit ht) + 1)"

lemma slots_grow:
  assumes "T t = Some ht" "entries ht = Some es" "entries ht' = Some (es @ replicate n zero_entry)" "b \<noteq> 0"
  shows "slots (T(t \<mapsto> ht')) b = slots T b"
proof -
  have "(\<exists>g fs. (T(t \<mapsto> ht')) u = Some g \<and> entries g = Some fs \<and> i < length fs \<and> e_object (fs ! i) = b) \<longleftrightarrow>
      (\<exists>g fs. T u = Some g \<and> entries g = Some fs \<and> i < length fs \<and> e_object (fs ! i) = b)" for u i
    using assms by (cases "u = t") (auto simp: nth_append zero_entry_def)
  then show ?thesis by (simp add: slots_def)
qed

text \<open>Growth succeeds exactly below the ceiling with memory at hand, and appends at least one free slot.\<close>

lemma handle_table_grow_eq:
  assumes inv: "ob_inv s" and ht: "ob_tables s t = Some ht" "entries ht = Some es"
  shows "(handle_table_grow mem t s = Some (-1, s) \<and>
      (cap_ceiling ht \<le> length es \<or> mem (of_nat (min (2 * length es) (cap_ceiling ht))) = 0)) \<or>
    (\<exists>s' ht' n. handle_table_grow mem t s = Some (0, s') \<and> length es < cap_ceiling ht \<and>
      mem (of_nat (min (2 * length es) (cap_ceiling ht))) \<noteq> 0 \<and> 0 < n \<and>
      entries ht' = Some (es @ replicate n zero_entry) \<and> length es + n \<le> cap_ceiling ht \<and>
      ht_count ht' = ht_count ht \<and> handle_limit ht' = handle_limit ht \<and>
      ob_tables s' = (ob_tables s)(t \<mapsto> ht') \<and> ob_heap s' = ob_heap s \<and> typed s' = typed s \<and>
      ob_callbacks s' = ob_callbacks s \<and> ob_inv s')"
proof -
  have tabs: "tabs_ok (ob_tables s)" using inv by (simp add: ob_inv_def)
  note tok = table_okD [OF tabs ht]
  define ce where "ce = (if handle_limit ht > 0 then handle_limit ht + 1 else HANDLE_TABLE_ABSOLUTE_MAX + 1)"
  have ce: "unat ce = cap_ceiling ht" "cap_ceiling ht \<le> 1048577"
    using tok(6) by (auto simp: ce_def cap_ceiling_def HANDLE_TABLE_ABSOLUTE_MAX_def word_Suc word_gt_0_unat unat_eq_zero)
  have dbl: "unat (capacity ht * 2) = 2 * length es" using tok(1,3) by (simp add: unat_word_ariths)
  define nc where "nc = (if capacity ht * 2 > ce then ce else capacity ht * 2)"
  have nc: "unat nc = min (2 * length es) (cap_ceiling ht)"
    using ce dbl by (auto simp: nc_def word_less_nat_alt)
  have ncw: "nc = of_nat (min (2 * length es) (cap_ceiling ht))" using nc [symmetric] by (simp only: of_nat_unat ucast_id)
  define n where "n = unat (nc - capacity ht)"
  define ht' where "ht' = ht\<lparr>entries := Some (es @ replicate n zero_entry), entries_at := mem nc, capacity := nc\<rparr>"
  define s' where "s' = put_table t ht' (handle_table_free_entries (entries_at ht) (capacity ht)
      (log_event (if ucast nc * sizeof_HANDLE_TABLE_ENTRY \<le> PMM_FRAME_SIZE
         then Kmalloc (mem nc) (ucast nc * sizeof_HANDLE_TABLE_ENTRY)
         else PmmAlloc (mem nc) (frames_for (ucast nc * sizeof_HANDLE_TABLE_ENTRY))) s))"
  have eq: "handle_table_grow mem t s = (if capacity ht \<ge> ce \<or> mem nc = 0 then Some (-1, s) else Some (0, s'))"
    unfolding handle_table_grow_def Let_def s'_def ht'_def n_def nc_def ce_def using ht tok(1) by simp
  show ?thesis
  proof (cases "capacity ht \<ge> ce \<or> mem nc = 0")
    case True
    moreover have "capacity ht \<ge> ce \<longleftrightarrow> cap_ceiling ht \<le> length es" using tok(1) ce by (simp add: word_le_nat_alt)
    ultimately show ?thesis using eq ncw by auto
  next
    case False
    then have lt: "length es < cap_ceiling ht" using tok(1) ce by (simp add: word_le_nat_alt)
    have n: "n = min (2 * length es) (cap_ceiling ht) - length es"
      using nc tok(1,2) lt by (simp add: n_def unat_sub word_le_nat_alt)
    have n0: "0 < n" "length es + n \<le> cap_ceiling ht" using n lt tok(2) by auto
    have "occupied (es @ replicate n zero_entry) = occupied es" by (simp add: occupied_def zero_entry_def)
    moreover have "length es + n = unat nc" using n nc lt by simp
    ultimately have "table_ok ht'" using tok ce(2) n0(2) by (simp add: table_ok_def ht'_def nth_append)
    then have "tabs_ok ((ob_tables s)(t \<mapsto> ht'))" using tabs by (auto simp: tabs_ok_def)
    moreover have sg: "slots ((ob_tables s)(t \<mapsto> ht')) b = slots (ob_tables s) b" if "b \<noteq> 0" for b
      by (rule slots_grow [of "ob_tables s" t ht es ht' n]) (use ht that in \<open>simp_all add: ht'_def\<close>)
    have "heap_ok (typed s) (ob_heap s) ((ob_tables s)(t \<mapsto> ht'))"
      by (rule heap_ok_same_slots [of _ _ "ob_tables s"]) (use inv sg in \<open>simp_all add: ob_inv_def\<close>)
    ultimately have "ob_inv s'" by (simp add: s'_def ob_inv_def)
    then show ?thesis using eq False lt n0 ncw by (intro disjI2 exI [of _ s'] exI [of _ ht'] exI [of _ n]) (simp add: s'_def ht'_def)
  qed
qed

section \<open>A table as a finite map\<close>

text \<open>The abstract view of a handle table: what each handle names.\<close>

definition hmap :: "nat \<Rightarrow> ob_state \<Rightarrow> int \<rightharpoonup> HANDLE_TABLE_ENTRY" where
  "hmap t s h = (case ob_tables s t of None \<Rightarrow> None | Some ht \<Rightarrow> (case entries ht of None \<Rightarrow> None | Some es \<Rightarrow>
     if 0 \<le> h \<and> h mod 4 = 0 \<and> nat h div 4 < length es \<and> e_object (es ! (nat h div 4)) \<noteq> 0
     then Some (es ! (nat h div 4)) else None))"

lemma and_3_int: "(h :: int) AND 3 = h mod 4"
  using take_bit_eq_mask [of 2 h] by (simp add: take_bit_eq_mod mask_eq_exp_minus_1)

lemma handle_of_eq: assumes "i < 2 ^ 29" shows "handle_of i = 4 * int i"
proof -
  have "handle_of i = sint (of_nat (4 * i) :: u32)" by (simp add: handle_of_def mult.commute)
  also have "\<dots> = int (4 * i)" using assms
    by (simp only: signed_of_nat) (simp add: signed_take_bit_int_eq_self)
  finally show ?thesis by simp
qed

lemma canonical_handle: assumes "0 \<le> h" "h mod 4 = 0" shows "h = 4 * int (nat h div 4)"
proof -
  have "int (nat h div 4) = h div 4" using assms(1) by (simp add: zdiv_int)
  then show ?thesis using assms(2) by (metis add.right_neutral mult_div_mod_eq)
qed

lemma hmap_other: "ob_tables s' = (ob_tables s)(t \<mapsto> ht') \<Longrightarrow> u \<noteq> t \<Longrightarrow> hmap u s' = hmap u s"
  by (rule ext) (simp add: hmap_def)

lemma hmap_same:
  assumes "ob_tables s' = (ob_tables s)(t \<mapsto> ht')" "ob_tables s t = Some ht" "entries ht' = entries ht"
  shows "hmap u s' = hmap u s"
  by (rule ext, cases "u = t") (simp_all add: hmap_def assms)

lemma hmap_tables: "ob_tables s' = ob_tables s \<Longrightarrow> hmap u s' = hmap u s"
  by (rule ext) (simp add: hmap_def)

lemma hmap_grow:
  assumes "ob_tables s' = (ob_tables s)(t \<mapsto> ht')" "ob_tables s t = Some ht" "entries ht = Some es"
    "entries ht' = Some (es @ replicate n zero_entry)"
  shows "hmap u s' = hmap u s"
  by (rule ext, cases "u = t") (auto simp: hmap_def assms nth_append zero_entry_def)

lemma hmap_put:
  assumes "ob_tables s' = (ob_tables s)(t \<mapsto> ht')" "ob_tables s t = Some ht" "entries ht = Some es"
    "entries ht' = Some (es[i := e])" "i < length es"
  shows "hmap t s' = (hmap t s)(4 * int i := if e_object e = 0 then None else Some e)"
proof
  fix h :: int
  have q: "nat h div 4 = i \<longleftrightarrow> h = 4 * int i" if "0 \<le> h" "h mod 4 = 0" using canonical_handle [OF that] by auto
  show "hmap t s' h = ((hmap t s)(4 * int i := if e_object e = 0 then None else Some e)) h"
  proof (cases "0 \<le> h \<and> h mod 4 = 0")
    case True
    with q show ?thesis using assms(5) by (cases "h = 4 * int i") (auto simp: hmap_def assms(1-4) nth_list_update)
  next
    case False
    then have "h \<noteq> 4 * int i" by auto
    with False show ?thesis by (auto simp: hmap_def assms(1-4))
  qed
qed

lemma hmap_at: "ob_tables s t = Some ht \<Longrightarrow> entries ht = Some es \<Longrightarrow> i < length es \<Longrightarrow>
    hmap t s (4 * int i) = (if e_object (es ! i) = 0 then None else Some (es ! i))"
  by (simp add: hmap_def nat_mult_distrib)

section \<open>The operations on one handle\<close>

lemma ObpLookupHandle_eq:
  assumes "ob_inv s" "ob_tables s t = Some ht"
  shows "ObpLookupHandle t h s = Some (if hmap t s h = None then None else Some (nat h div 4))"
proof (cases "entries ht")
  case (Some es)
  have "length es = unat (capacity ht)" by (rule cap_length [OF assms(1,2) Some])
  with Some assms(2) show ?thesis
    by (auto simp: ObpLookupHandle_def hmap_def slot_def and_3_int Let_def)
qed (auto simp: ObpLookupHandle_def hmap_def assms(2))

lemma hmap_Some:
  assumes "hmap t s h = Some e"
  obtains ht es i where "ob_tables s t = Some ht" "entries ht = Some es" "i < length es" "es ! i = e" "e_object e \<noteq> 0" "h = 4 * int i"
    "i = nat h div 4"
proof -
  obtain ht es where "ob_tables s t = Some ht" "entries ht = Some es" "0 \<le> h" "h mod 4 = 0" "nat h div 4 < length es"
    "es ! (nat h div 4) = e" "e_object e \<noteq> 0"
    using assms by (auto simp: hmap_def split: option.splits if_splits)
  then show ?thesis using that [of ht es "nat h div 4"] canonical_handle [of h] by simp
qed

definition closable :: "HANDLE_TABLE_ENTRY \<Rightarrow> bool" where
  "closable e \<longleftrightarrow> attributes e AND OBJ_PROTECT_CLOSE = 0"

lemma ObpFreeHandle_refused:
  assumes "ob_inv s" "ob_tables s t = Some ht" "case hmap t s h of None \<Rightarrow> True | Some e \<Rightarrow> \<not> closable e"
  shows "ObpFreeHandle t h s = Some (-1, s)"
proof (cases "entries ht")
  case (Some es)
  have "length es = unat (capacity ht)" by (rule cap_length [OF assms(1,2) Some])
  with Some assms(2,3) show ?thesis
    by (auto simp: ObpFreeHandle_def hmap_def slot_def and_3_int Let_def closable_def split: if_splits)
qed (auto simp: ObpFreeHandle_def assms(2))

lemma ObpFreeHandle_done:
  assumes inv: "ob_inv s" and e: "hmap t s h = Some e" "closable e"
  obtains s' hd where "ObpFreeHandle t h s = Some (0, s')" "ob_inv s'" "hmap t s' = (hmap t s)(h := None)"
    "\<And>u. u \<noteq> t \<Longrightarrow> hmap u s' = hmap u s" "ob_heap s (e_object e) = Some hd"
    "ob_heap s' = (ob_heap s)(e_object e := dropped (hd\<lparr>handle_count := handle_count hd - 1\<rparr>))"
    "typed s' = typed s" "ob_callbacks s' = ob_callbacks s" "dom (ob_tables s') = dom (ob_tables s)"
    "\<And>u ht. ob_tables s u = Some ht \<Longrightarrow> \<exists>ht'. ob_tables s' u = Some ht' \<and> capacity ht' = capacity ht \<and>
       (entries ht' = None) = (entries ht = None)"
proof -
  obtain ht es i where ht: "ob_tables s t = Some ht" "entries ht = Some es"
    and i: "i < length es" "es ! i = e" "e_object e \<noteq> 0" "h = 4 * int i" "i = nat h div 4"
    using hmap_Some [OF e(1)] .
  have len: "length es = unat (capacity ht)" by (rule cap_length [OF inv ht])
  obtain hd where hd: "ob_heap s (e_object e) = Some hd" using slot_live [OF inv ht i(1)] i(2,3) by auto
  obtain s' q where s': "release_slot t i (e_object e) s = Some s'" "ob_inv s'"
    "ob_tables s' = (ob_tables s)(t \<mapsto> ht\<lparr>entries := Some (es[i := zero_entry]), ht_count := ht_count ht - 1, quota_warned := q\<rparr>)"
    "ob_heap s' = (ob_heap s)(e_object e := dropped (hd\<lparr>handle_count := handle_count hd - 1\<rparr>))"
    "typed s' = typed s" "ob_callbacks s' = ob_callbacks s"
    using release_slot_eq [OF inv ht i(1), of "e_object e" hd] i(2,3) hd by blast
  have "ObpFreeHandle t h s = Some (0, s')"
    using ht i(1-4) len e(2) s'(1) by (simp add: ObpFreeHandle_def nat_mult_distrib slot_def and_3_int Let_def closable_def)
  moreover have "hmap t s' = (hmap t s)(h := None)"
    using hmap_put [OF s'(3) ht _ i(1), of zero_entry] i(4) by (simp add: zero_entry_def)
  moreover have "hmap u s' = hmap u s" if "u \<noteq> t" for u using hmap_other [OF s'(3) that] .
  moreover have "dom (ob_tables s') = dom (ob_tables s)" using s'(3) ht(1) by auto
  moreover have "\<exists>ht'. ob_tables s' u = Some ht' \<and> capacity ht' = capacity g \<and> (entries ht' = None) = (entries g = None)"
    if "ob_tables s u = Some g" for u g
    using s'(3) ht that by (cases "u = t") auto
  ultimately show ?thesis using that s'(2,4-6) hd by blast
qed

text \<open>When an allocation is turned down.\<close>

definition full_and_stuck :: "(u32 \<Rightarrow> nat) \<Rightarrow> HANDLE_TABLE \<Rightarrow> HANDLE_TABLE_ENTRY list \<Rightarrow> bool" where
  "full_and_stuck mem ht es \<longleftrightarrow> Suc (occupied es) = length es \<and>
     (cap_ceiling ht \<le> length es \<or> mem (of_nat (min (2 * length es) (cap_ceiling ht))) = 0)"

definition alloc_refused :: "(u32 \<Rightarrow> nat) \<Rightarrow> nat \<Rightarrow> u32 option \<Rightarrow> ob_state \<Rightarrow> bool" where
  "alloc_refused mem t a s \<longleftrightarrow> a = None \<or> (case ob_tables s t of None \<Rightarrow> False | Some ht \<Rightarrow>
     (case entries ht of None \<Rightarrow> True | Some es \<Rightarrow>
        (handle_limit ht > 0 \<and> ht_count ht \<ge> handle_limit ht) \<or> full_and_stuck mem ht es))"

lemma open_access_total:
  "ob_heap s object = Some h \<Longrightarrow> typed s (hdr_type h) \<Longrightarrow> \<exists>a. open_access fire object access s = Some a"
  by (auto simp: open_access_def typed_def Let_def split: prod.split)

text \<open>The slot an allocation takes: a free one of the array, which may have grown.\<close>

lemma claim_in:
  assumes "ob_inv s" "ob_tables s t = Some ht" "entries ht = Some es"
    "0 < i" "i < length es" "e_object (es ! i) = 0" "object \<noteq> 0" "ob_heap s object = Some h" "unat (ref_count h) < 2 ^ 31 - 1"
  obtains s' where "claim_slot fire t i object access attrs s = Some (4 * int i, s')" "ob_inv s'"
    "hmap t s (4 * int i) = None"
    "hmap t s' = (hmap t s)(4 * int i \<mapsto> \<lparr>e_object = object, granted_access = access, attributes = attrs\<rparr>)"
    "\<And>u. u \<noteq> t \<Longrightarrow> hmap u s' = hmap u s"
    "ob_heap s' = (ob_heap s)(object \<mapsto> h\<lparr>ref_count := ref_count h + 1, handle_count := handle_count h + 1\<rparr>)"
    "typed s' = typed s" "ob_callbacks s' = ob_callbacks s" "dom (ob_tables s') = dom (ob_tables s)"
proof -
  obtain s' where s': "claim_slot fire t i object access attrs s = Some (handle_of i, s')" "ob_inv s'"
    and T: "ob_tables s' = (ob_tables s)(t \<mapsto> ht\<lparr>entries := Some (es[i := \<lparr>e_object = object, granted_access = access, attributes = attrs\<rparr>]),
                                         ht_count := ht_count ht + 1\<rparr>)"
    and rest: "ob_heap s' = (ob_heap s)(object \<mapsto> h\<lparr>ref_count := ref_count h + 1, handle_count := handle_count h + 1\<rparr>)"
     "typed s' = typed s" "ob_callbacks s' = ob_callbacks s"
    using claim_slot_eq [OF assms] by blast
  have tabs: "tabs_ok (ob_tables s)" using assms(1) by (simp add: ob_inv_def)
  have "i < 2 ^ 29" using assms(5) table_okD(3) [OF tabs assms(2,3)] by simp
  then have "claim_slot fire t i object access attrs s = Some (4 * int i, s')" using s'(1) by (simp add: handle_of_eq)
  moreover have "hmap t s (4 * int i) = None" using hmap_at [OF assms(2,3,5)] assms(6) by simp
  moreover have "hmap t s' = (hmap t s)(4 * int i \<mapsto> \<lparr>e_object = object, granted_access = access, attributes = attrs\<rparr>)"
    using hmap_put [OF T assms(2,3) _ assms(5)] assms(7) by simp
  moreover have "hmap u s' = hmap u s" if "u \<noteq> t" for u using hmap_other [OF T that] .
  moreover have "dom (ob_tables s') = dom (ob_tables s)" using T assms(2) by auto
  ultimately show ?thesis using that s'(2) rest by blast
qed

definition kept :: "ob_state \<Rightarrow> ob_state \<Rightarrow> bool" where
  "kept s s' \<longleftrightarrow> ob_inv s' \<and> typed s' = typed s \<and> ob_callbacks s' = ob_callbacks s \<and> dom (ob_tables s') = dom (ob_tables s)"

lemma kept_trans: "kept s s' \<Longrightarrow> kept s' s'' \<Longrightarrow> kept s s''"
  by (simp add: kept_def)

text \<open>What an allocation does: either it is refused and changes nothing that a handle can see, or the map of the
  table gains one canonical handle, new to it, for the object with the access that the guards left.\<close>

definition alloc_spec ::
  "(u32 \<Rightarrow> nat) \<Rightarrow> nat \<Rightarrow> nat \<Rightarrow> u32 option \<Rightarrow> u32 \<Rightarrow> ob_state \<Rightarrow> int \<Rightarrow> ob_state \<Rightarrow> bool" where
  "alloc_spec mem t object a attrs s r s' \<longleftrightarrow> kept s s' \<and> (\<forall>u. u \<noteq> t \<longrightarrow> hmap u s' = hmap u s) \<and>
     (if alloc_refused mem t a s then r = -1 \<and> hmap t s' = hmap t s \<and> ob_heap s' = ob_heap s
      else 4 \<le> r \<and> r mod 4 = 0 \<and> hmap t s r = None \<and>
        hmap t s' = (hmap t s)(r \<mapsto> \<lparr>e_object = object, granted_access = the a, attributes = attrs\<rparr>) \<and>
        ob_heap s' = (ob_heap s)(object := map_option (\<lambda>h. h\<lparr>ref_count := ref_count h + 1, handle_count := handle_count h + 1\<rparr>)
                                              (ob_heap s object)))"

lemma table_ok_quota [simp]: "table_ok (ht\<lparr>quota_warned := q\<rparr>) = table_ok ht"
  by (simp add: table_ok_def cong: option.case_cong)

lemma put_table_same_entries:
  assumes "ob_inv s" "ob_tables s t = Some ht" "entries ht' = entries ht" "table_ok ht'"
  shows "kept s (put_table t ht' s)" "hmap u (put_table t ht' s) = hmap u s"
proof -
  let ?s = "put_table t ht' s"
  have T: "ob_tables ?s = (ob_tables s)(t \<mapsto> ht')" by simp
  show "hmap u ?s = hmap u s" using hmap_same [OF T assms(2,3)] .
  have "tabs_ok (ob_tables ?s)" using assms(1,4) by (auto simp: tabs_ok_def ob_inv_def)
  moreover have "heap_ok (typed s) (ob_heap s) (ob_tables ?s)"
    by (rule heap_ok_same_slots [of _ _ "ob_tables s"])
      (use assms(1-3) slots_same_entries [of "ob_tables s" t ht ht'] in \<open>simp_all add: ob_inv_def\<close>)
  ultimately show "kept s ?s" using assms(2) by (auto simp: kept_def ob_inv_def)
qed

lemma occupied_free_slot:
  assumes "0 < i" "i < length es" "e_object (es ! i) = 0" "e_object (es ! 0) = 0"
  shows "Suc (occupied es) \<noteq> length es"
proof -
  have "occupied es = occupied (es[i := \<lparr>e_object = 1, granted_access = 0, attributes = 0\<rparr>]) - 1"
    using occupied_update [OF assms(2), of "\<lparr>e_object = 1, granted_access = 0, attributes = 0\<rparr>"] assms(3) by simp
  moreover have "occupied (es[i := \<lparr>e_object = 1, granted_access = 0, attributes = 0\<rparr>]) < length es"
    using occupied_le [of "es[i := \<lparr>e_object = 1, granted_access = 0, attributes = 0\<rparr>]"] assms by fastforce
  ultimately show ?thesis using assms(1,2) by linarith
qed

lemma claim_spec:
  assumes "ob_inv s" "ob_tables s t = Some ht" "entries ht = Some es"
    "0 < i" "i < length es" "e_object (es ! i) = 0" "object \<noteq> 0" "ob_heap s object = Some h" "unat (ref_count h) < 2 ^ 31 - 1"
    and s0: "kept s0 s" "\<And>u. hmap u s = hmap u s0" "ob_heap s = ob_heap s0" "\<not> alloc_refused mem t a s0"
  shows "\<exists>r s'. claim_slot fire t i object (the a) attrs s = Some (r, s') \<and> alloc_spec mem t object a attrs s0 r s'"
proof -
  obtain s' where s': "claim_slot fire t i object (the a) attrs s = Some (4 * int i, s')" "ob_inv s'"
    "hmap t s (4 * int i) = None"
    "hmap t s' = (hmap t s)(4 * int i \<mapsto> \<lparr>e_object = object, granted_access = the a, attributes = attrs\<rparr>)"
    "\<And>u. u \<noteq> t \<Longrightarrow> hmap u s' = hmap u s"
    "ob_heap s' = (ob_heap s)(object \<mapsto> h\<lparr>ref_count := ref_count h + 1, handle_count := handle_count h + 1\<rparr>)"
    "typed s' = typed s" "ob_callbacks s' = ob_callbacks s" "dom (ob_tables s') = dom (ob_tables s)"
    using claim_in [OF assms(1-9), of fire "the a" attrs] by metis
  have "kept s0 s'" using kept_trans [OF s0(1), of s'] s' by (simp add: kept_def)
  then have "alloc_spec mem t object a attrs s0 (4 * int i) s'"
    using s' s0(2-4) assms(4,8) by (auto simp: alloc_spec_def)
  then show ?thesis using s'(1) by blast
qed

lemma allocate_scan:
  assumes inv: "ob_inv s" and ht: "ob_tables s t = Some ht" "entries ht = Some es"
    and obj: "object \<noteq> 0" "ob_heap s object = Some h" "unat (ref_count h) < 2 ^ 31 - 1"
    and a: "open_access fire object access s = Some (Some acc)" and q: "\<not> (handle_limit ht > 0 \<and> ht_count ht \<ge> handle_limit ht)"
  shows "\<exists>r s'. obp_allocate_handle_inner mem t object access attrs fire s = Some (r, s') \<and> alloc_spec mem t object (Some acc) attrs s r s'"
proof -
  have tabs: "tabs_ok (ob_tables s)" using inv by (simp add: ob_inv_def)
  note tok = table_okD [OF tabs ht]
  obtain i where i: "scan_free es 1 (length es) = Some i" "1 \<le> i" "i \<le> length es" "i < length es \<longrightarrow> e_object (es ! i) = 0"
    "\<forall>k. 1 \<le> k \<and> k < i \<longrightarrow> e_object (es ! k) \<noteq> 0" using scan_free_eq [of "length es" es 1] tok(2) by auto
  have eq: "obp_allocate_handle_inner mem t object access attrs fire s =
    (if i < length es then claim_slot fire t i object acc attrs s
     else do { (rc, s) \<leftarrow> handle_table_grow mem t s;
               if rc < 0 then Some (-1, s) else claim_slot fire t i object acc attrs s })"
    unfolding obp_allocate_handle_inner_def INVALID_HANDLE_VALUE_def using ht a q obj i(1) tok(1) by auto
  have refused: "alloc_refused mem t (Some acc) s \<longleftrightarrow> full_and_stuck mem ht es" using ht q by (auto simp: alloc_refused_def)
  have kept: "kept s s" using inv by (simp add: kept_def)
  show ?thesis
  proof (cases "i < length es")
    case True
    then have nr: "\<not> alloc_refused mem t (Some acc) s"
      using refused occupied_free_slot [of i es] i tok(5) by (simp add: full_and_stuck_def)
    show ?thesis unfolding eq using claim_spec [OF inv ht _ True _ obj kept _ _ nr] True i by simp
  next
    case False
    have ne: "es \<noteq> []" using tok(2) by auto
    then have full: "i = length es" "Suc (occupied es) = length es"
      using False i tok(5) occupied_full [of es] by auto
    from handle_table_grow_eq [OF inv ht, of mem] show ?thesis
    proof
      assume "handle_table_grow mem t s = Some (-1, s) \<and>
        (cap_ceiling ht \<le> length es \<or> mem (of_nat (min (2 * length es) (cap_ceiling ht))) = 0)"
      then show ?thesis unfolding eq using False full refused kept by (simp add: full_and_stuck_def alloc_spec_def)
    next
      assume "\<exists>s' ht' n. handle_table_grow mem t s = Some (0, s') \<and> length es < cap_ceiling ht \<and>
      mem (of_nat (min (2 * length es) (cap_ceiling ht))) \<noteq> 0 \<and> 0 < n \<and>
        entries ht' = Some (es @ replicate n zero_entry) \<and> length es + n \<le> cap_ceiling ht \<and>
        ht_count ht' = ht_count ht \<and> handle_limit ht' = handle_limit ht \<and>
        ob_tables s' = (ob_tables s)(t \<mapsto> ht') \<and> ob_heap s' = ob_heap s \<and> typed s' = typed s \<and>
        ob_callbacks s' = ob_callbacks s \<and> ob_inv s'"
      then obtain s' ht' n where g: "handle_table_grow mem t s = Some (0, s')" "length es < cap_ceiling ht" "mem (of_nat (min (2 * length es) (cap_ceiling ht))) \<noteq> 0" "0 < n"
        "entries ht' = Some (es @ replicate n zero_entry)" "ob_tables s' = (ob_tables s)(t \<mapsto> ht')" "ob_heap s' = ob_heap s"
        "typed s' = typed s" "ob_callbacks s' = ob_callbacks s" "ob_inv s'" by blast
      have nr: "\<not> alloc_refused mem t (Some acc) s" using g(2,3) refused by (simp add: full_and_stuck_def)
      have "kept s s'" using g ht by (auto simp: kept_def)
      then show ?thesis
        using claim_spec [of s' t ht' "es @ replicate n zero_entry" i object h s mem "Some acc" fire attrs]
          g hmap_grow [OF g(6) ht g(5)] obj nr full ne i(2) False tok(2) unfolding eq
        by (simp add: nth_append zero_entry_def)
    qed
  qed
qed

lemma allocate_eq:
  assumes inv: "ob_inv s" and t: "t \<in> dom (ob_tables s)"
    and obj: "object \<noteq> 0" "ob_heap s object = Some h" "unat (ref_count h) < 2 ^ 31 - 1"
    and a: "open_access fire object access s = Some a"
  shows "\<exists>r s'. obp_allocate_handle_inner mem t object access attrs fire s = Some (r, s') \<and> alloc_spec mem t object a attrs s r s'"
proof -
  obtain ht where ht: "ob_tables s t = Some ht" using t by auto
  have kept: "kept s s" using inv by (simp add: kept_def)
  consider (denied) "entries ht = None \<or> a = None"
    | (quota) es acc where "entries ht = Some es" "a = Some acc" "handle_limit ht > 0 \<and> ht_count ht \<ge> handle_limit ht"
    | (scan) es acc where "entries ht = Some es" "a = Some acc" "\<not> (handle_limit ht > 0 \<and> ht_count ht \<ge> handle_limit ht)"
    by (cases "entries ht"; cases a; blast)
  then show ?thesis
  proof cases
    case denied
    then have "alloc_refused mem t a s" using ht by (auto simp: alloc_refused_def)
    moreover have "obp_allocate_handle_inner mem t object access attrs fire s = Some (-1, s)"
      using denied ht a obj by (auto simp: obp_allocate_handle_inner_def INVALID_HANDLE_VALUE_def split: option.split)
    ultimately show ?thesis using kept by (simp add: alloc_spec_def)
  next
    case quota
    then have "alloc_refused mem t a s" using ht by (auto simp: alloc_refused_def)
    moreover have "obp_allocate_handle_inner mem t object access attrs fire s = Some (-1, put_table t (ht\<lparr>quota_warned := True\<rparr>) s)"
      using quota ht a obj by (simp add: obp_allocate_handle_inner_def INVALID_HANDLE_VALUE_def)
    moreover have "table_ok ht" using inv ht by (auto simp: ob_inv_def tabs_ok_def)
    ultimately show ?thesis
      using put_table_same_entries [OF inv ht, of "ht\<lparr>quota_warned := True\<rparr>"] by (simp add: alloc_spec_def)
  next
    case scan
    then show ?thesis using allocate_scan [OF inv ht scan(1) obj, of fire access acc] a by simp
  qed
qed

end
