(* ===== verification/Ob_Reach.thy ===== *)
theory Ob_Reach
  imports Ob_Handle_Facts
begin

text \<open>
  The rest of the object manager's operations keep the invariant, so that it holds in every reachable
  state: objects, references, whole tables, and the duplication of handles between tables.
\<close>

section \<open>Objects and references\<close>

lemma kept_refl: "ob_inv s \<Longrightarrow> kept s s"
  by (simp add: kept_def)

text \<open>A new value for the header of one live object.\<close>

lemma put_header_inv:
  assumes "ob_inv s" "ob_heap s b = Some h" "header_ok (typed s) (card (slots (ob_tables s) b)) h'"
  shows "kept s (put_header b h' s)"
proof -
  have "b \<noteq> 0" using assms(1,2) heap_okD(3) by (metis ob_inv_def option.distinct(1))
  then have "heap_ok (typed s) ((ob_heap s)(b \<mapsto> h')) (ob_tables s)"
    using assms by (intro heap_ok_update) (auto simp: ob_inv_def)
  then show ?thesis using assms(1) by (simp add: kept_def ob_inv_def)
qed

lemma heap_nonzero: "ob_inv s \<Longrightarrow> ob_heap s b = Some h \<Longrightarrow> b \<noteq> 0"
  using heap_okD(3) by (metis ob_inv_def option.distinct(1))

lemma header_of: "ob_inv s \<Longrightarrow> ob_heap s b = Some h \<Longrightarrow> header_ok (typed s) (card (slots (ob_tables s) b)) h"
  using heap_okD(1) heap_nonzero by (metis ob_inv_def)

lemma ObReferenceObject_inv:
  assumes "ob_inv s" "ob_heap s b = Some h" "unat (ref_count h) < 2 ^ 31 - 1"
  shows "ObReferenceObject b s = Some (put_header b (h\<lparr>ref_count := ref_count h + 1\<rparr>) s) \<and>
    kept s (put_header b (h\<lparr>ref_count := ref_count h + 1\<rparr>) s)"
proof -
  have "header_ok (typed s) (card (slots (ob_tables s) b)) (h\<lparr>ref_count := ref_count h + 1\<rparr>)"
    using header_of [OF assms(1,2)] assms(3) by (auto simp: header_ok_def word_Suc)
  then show ?thesis using assms put_header_inv by (simp add: ObReferenceObject_def)
qed

text \<open>Someone holds a reference that is not that of a handle.\<close>

definition pinned :: "nat \<Rightarrow> ob_state \<Rightarrow> bool" where
  "pinned b s \<longleftrightarrow> (\<exists>h. ob_heap s b = Some h \<and> unat (handle_count h) < unat (ref_count h))"

lemma ObDereferenceObject_inv:
  assumes "ob_inv s" "pinned b s"
  shows "\<exists>r s' h. ObDereferenceObject b s = Some (r, s') \<and> kept s s' \<and> ob_tables s' = ob_tables s \<and>
     ob_heap s b = Some h \<and> ob_heap s' = (ob_heap s)(b := dropped h)"
proof -
  obtain h where h: "ob_heap s b = Some h" "unat (handle_count h) < unat (ref_count h)" using assms(2) by (auto simp: pinned_def)
  note hok = header_of [OF assms(1) h(1)]
  obtain r s' where s': "ObDereferenceObject b s = Some (r, s')" "ob_tables s' = ob_tables s"
    "ob_heap s' = (ob_heap s)(b := dropped h)" "typed s' = typed s" "ob_callbacks s' = ob_callbacks s"
    using ObDereferenceObject_eq [OF h(1)] hok by (auto simp: header_ok_def)
  have "case dropped h of None \<Rightarrow> card (slots (ob_tables s) b) = 0 | Some g \<Rightarrow> header_ok (typed s) (card (slots (ob_tables s) b)) g"
    using hok h(2) by (intro header_ok_dropped [OF hok]) (auto simp: header_ok_def)
  moreover have "finite (slots (ob_tables s) b)" using assms(1) by (simp add: ob_inv_def finite_slots)
  ultimately have "heap_ok (typed s) (ob_heap s') (ob_tables s)"
    unfolding s'(3) using assms(1) heap_nonzero [OF assms(1) h(1)]
    by (intro heap_ok_update) (auto simp: ob_inv_def split: option.splits)
  then show ?thesis using s' h(1) assms(1) by (auto simp: kept_def ob_inv_def)
qed

lemma ob_create_type_inv:
  assumes "ob_inv s" "ob_create_type tmpl s = Some (t, s')" shows "kept s s'"
proof -
  have "ob_tables s' = ob_tables s" "ob_heap s' = ob_heap s" "typed s' = typed s" "ob_callbacks s' = ob_callbacks s"
    using assms(2) by (auto simp: ob_create_type_def Let_def typed_def type_at_def fun_eq_iff split: if_splits)
  then show ?thesis using assms(1) by (simp add: kept_def ob_inv_def)
qed

lemma attach_security_state:
  assumes "attach_security acl_buf tok s = Some (sec, s')"
  shows "\<exists>g. s' = s\<lparr>ob_default_sds := g\<rparr>"
proof -
  define fb where "fb = do {
        (blob, g) \<leftarrow> SeCreateDefaultSD acl_buf SE_SD_TYPE_DEFAULT (ob_default_sds s);
        Some (case blob of None \<Rightarrow> SD_null | Some b \<Rightarrow> SD_blob b, s\<lparr>ob_default_sds := g\<rparr>) }"
  have fb: "fb = Some (x, y) \<Longrightarrow> \<exists>g. y = s\<lparr>ob_default_sds := g\<rparr>" for x y
    by (cases "SeCreateDefaultSD acl_buf SE_SD_TYPE_DEFAULT (ob_default_sds s)") (auto simp: fb_def)
  show ?thesis
  proof (cases tok)
    case None
    with assms fb show ?thesis unfolding attach_security_def fb_def [symmetric] Let_def by simp
  next
    case (Some t)
    then have "s' = s \<or> fb = Some (sec, s')"
      using assms unfolding attach_security_def fb_def [symmetric] Let_def
      by (auto simp: Option.bind_eq_Some_conv split: if_splits)
    then show ?thesis using fb by (auto intro: exI [of _ "ob_default_sds s"])
  qed
qed

lemma attach_security_frame:
  assumes "attach_security acl_buf tok s = Some (sec, s')"
  shows "ob_tables s' = ob_tables s \<and> ob_heap s' = ob_heap s \<and> typed s' = typed s \<and> ob_callbacks s' = ob_callbacks s"
proof -
  obtain g where "s' = s\<lparr>ob_default_sds := g\<rparr>" using attach_security_state [OF assms] by blast
  then show ?thesis by (simp add: typed_def type_at_def fun_eq_iff)
qed

lemma ob_alloc_object_inv:
  assumes inv: "ob_inv s" and eq: "ob_alloc_object blk trc acl_buf type s = Some (b, s')"
    and fresh: "ob_heap s (blk + 48) = None"
  shows "kept s s' \<and> (b = 0 \<longrightarrow> s' = s) \<and> (b \<noteq> 0 \<longrightarrow> b = blk + 48 \<and> (\<exists>h. ob_heap s' = (ob_heap s)(b \<mapsto> h) \<and>
     ref_count h = 1 \<and> handle_count h = 0 \<and> hdr_type h = type) \<and> ob_tables s' = ob_tables s)"
proof (cases "b = 0")
  case True
  with eq have "s' = s"
    by (auto simp: ob_alloc_object_def Let_def sizeof_OBJECT_HEADER_def Option.bind_eq_Some_conv split: if_splits prod.splits)
  with inv True show ?thesis by (simp add: kept_refl)
next
  case False
  then obtain s1 s2 sec ty ev h where a: "attach_security acl_buf (case task_current s of None \<Rightarrow> None | Some c \<Rightarrow> task_token c) (log_event ev s) = Some (sec, s1)"
    and ty: "type_at type s = Some ty" and b: "b = blk + 48"
    and s': "s' = stat_update count_object type (s1\<lparr>ob_heap := (ob_heap s1)(b \<mapsto> h)\<rparr>)"
    and h: "ref_count h = 1" "handle_count h = 0" "hdr_type h = type"
    using eq by (auto simp: ob_alloc_object_def Let_def sizeof_OBJECT_HEADER_def Option.bind_eq_Some_conv split: if_splits prod.splits)
  have f: "ob_tables s1 = ob_tables s" "ob_heap s1 = ob_heap s" "typed s1 = typed s" "ob_callbacks s1 = ob_callbacks s"
    using attach_security_frame [OF a] by simp_all
  have "slots (ob_tables s) b = {}" using inv fresh False b heap_okD(2) by (auto simp: ob_inv_def)
  then have "header_ok (typed s) (card (slots (ob_tables s) b)) h" using h ty by (simp add: header_ok_def typed_def)
  then have "heap_ok (typed s) ((ob_heap s)(b \<mapsto> h)) (ob_tables s)"
    using inv False by (intro heap_ok_update) (auto simp: ob_inv_def)
  moreover have "ob_tables s' = ob_tables s" "ob_heap s' = (ob_heap s)(b \<mapsto> h)" "typed s' = typed s" "ob_callbacks s' = ob_callbacks s"
    using s' f by simp_all
  ultimately show ?thesis using inv h b False by (auto simp: kept_def ob_inv_def)
qed

section \<open>Whole tables\<close>

text \<open>A table that no slot of another object depends on may be replaced.\<close>

lemma replace_table:
  assumes inv: "ob_inv s" and ht: "ob_tables s t = Some ht" and "table_ok ht'"
    and empty: "\<And>es i. entries ht = Some es \<Longrightarrow> i < length es \<Longrightarrow> e_object (es ! i) = 0"
      "\<And>es i. entries ht' = Some es \<Longrightarrow> i < length es \<Longrightarrow> e_object (es ! i) = 0"
  shows "kept s (put_table t ht' s)" "hmap t (put_table t ht' s) = Map.empty" "u \<noteq> t \<Longrightarrow> hmap u (put_table t ht' s) = hmap u s"
proof -
  have sl: "slots ((ob_tables s)(t \<mapsto> ht')) b = slots (ob_tables s) b" if "b \<noteq> 0" for b
    using that ht empty by (auto simp: slots_def split: if_splits)
  have "heap_ok (typed s) (ob_heap s) ((ob_tables s)(t \<mapsto> ht'))"
    by (rule heap_ok_same_slots [of _ _ "ob_tables s"]) (use inv sl in \<open>simp_all add: ob_inv_def\<close>)
  then show "kept s (put_table t ht' s)"
    using inv ht assms(3) by (auto simp: kept_def ob_inv_def tabs_ok_def)
  show "hmap t (put_table t ht' s) = Map.empty"
    using empty(2) by (auto simp: hmap_def fun_eq_iff split: option.splits)
  show "u \<noteq> t \<Longrightarrow> hmap u (put_table t ht' s) = hmap u s" by (rule hmap_other [of _ _ t ht']) simp_all
qed

lemma ob_inv_log [simp]: "ob_inv (log_event e s) = ob_inv s" "hmap t (log_event e s) = hmap t s"
  "kept s (log_event e s') = kept s s'" "kept (log_event e s) s' = kept s s'"
  by (auto simp: ob_inv_def hmap_def kept_def fun_eq_iff)

text \<open>The tunable \<open>handle.quota_default\<close> is registered with the range 64 to 1048576.\<close>

lemma ob_handle_table_init_inv:
  assumes inv: "ob_inv s" and ht: "ob_tables s t = Some ht" "entries ht = None" and q: "unat quota \<le> 1048576"
  shows "\<exists>st s'. ob_handle_table_init blk quota t s = Some (st, s') \<and> kept s s' \<and> hmap t s' = Map.empty \<and>
    (\<forall>u. u \<noteq> t \<longrightarrow> hmap u s' = hmap u s) \<and> ob_heap s' = ob_heap s \<and> (st = 0 \<longleftrightarrow> blk \<noteq> 0)"
proof (cases "blk = 0")
  case True
  let ?ht = "ht\<lparr>entries := None, entries_at := 0\<rparr>"
  have "table_ok ?ht" by (simp add: table_ok_def)
  from replace_table [OF inv ht(1) this] ht True show ?thesis by (simp add: ob_handle_table_init_def)
next
  case False
  let ?s = "log_event (Kmalloc blk (ucast HANDLE_TABLE_INIT_CAP * sizeof_HANDLE_TABLE_ENTRY)) s"
  let ?ht = "\<lparr>entries = Some (replicate (unat HANDLE_TABLE_INIT_CAP) zero_entry), entries_at = blk,
        capacity = HANDLE_TABLE_INIT_CAP, ht_count = 0, handle_limit = ucast quota, quota_warned = False\<rparr>"
  have "unat (ucast quota :: u32) = unat quota" using q by (simp add: unsigned_ucast_eq take_bit_nat_eq_self)
  then have "table_ok ?ht"
    using q by (simp add: table_ok_def HANDLE_TABLE_INIT_CAP_def occupied_def zero_entry_def)
  moreover have "ob_inv ?s" "ob_tables ?s t = Some ht" using inv ht by simp_all
  moreover have "e_object (es ! i) = 0" if "entries ?ht = Some es" "i < length es" for es i
    using that by (auto simp: zero_entry_def)
  ultimately have r: "kept ?s (put_table t ?ht ?s)" "hmap t (put_table t ?ht ?s) = Map.empty"
    "\<And>u. u \<noteq> t \<Longrightarrow> hmap u (put_table t ?ht ?s) = hmap u ?s"
    using replace_table [of ?s t ht ?ht] ht(2) by auto
  have "ob_handle_table_init blk quota t s = Some (0, put_table t ?ht ?s)"
    using ht False by (simp add: ob_handle_table_init_def)
  then show ?thesis using r False by auto
qed

lemma ob_handle_table_set_limit_inv:
  assumes inv: "ob_inv s" and ht: "ob_tables s t = Some ht"
  shows "\<exists>s'. ob_handle_table_set_limit t lim s = Some s' \<and> kept s s' \<and> (\<forall>u. hmap u s' = hmap u s) \<and> ob_heap s' = ob_heap s"
proof (cases "t = 0")
  case True
  then show ?thesis using inv by (simp add: ob_handle_table_set_limit_def kept_refl)
next
  case False
  let ?l = "if lim > HANDLE_TABLE_ABSOLUTE_MAX then HANDLE_TABLE_ABSOLUTE_MAX else lim"
  let ?ht = "ht\<lparr>handle_limit := ?l, quota_warned := False\<rparr>"
  have "unat ?l \<le> 1048576" by (auto simp: HANDLE_TABLE_ABSOLUTE_MAX_def word_less_nat_alt)
  moreover have "table_ok ht" using inv ht by (auto simp: ob_inv_def tabs_ok_def)
  ultimately have "table_ok ?ht" by (auto simp: table_ok_def split: option.splits)
  then show ?thesis using put_table_same_entries [OF inv ht, of ?ht] ht False
    by (auto simp: ob_handle_table_set_limit_def Let_def)
qed

text \<open>Rewriting the rights or the attributes of an occupied slot.\<close>

lemma put_slot_same_object:
  assumes inv: "ob_inv s" and e: "hmap t s h = Some e" and e': "e_object e' = e_object e"
  shows "\<exists>s'. put_slot t (nat h div 4) e' s = Some s' \<and> kept s s' \<and> hmap t s' = (hmap t s)(h \<mapsto> e') \<and>
    (\<forall>u. u \<noteq> t \<longrightarrow> hmap u s' = hmap u s) \<and> ob_heap s' = ob_heap s \<and> entry_at t (nat h div 4) s = Some e \<and>
    (\<forall>u ht. ob_tables s u = Some ht \<longrightarrow> (\<exists>ht'. ob_tables s' u = Some ht' \<and> capacity ht' = capacity ht \<and>
       (entries ht' = None) = (entries ht = None)))"
proof -
  obtain ht es i where ht: "ob_tables s t = Some ht" "entries ht = Some es"
    and i: "i < length es" "es ! i = e" "e_object e \<noteq> 0" "h = 4 * int i" "i = nat h div 4"
    using hmap_Some [OF e] .
  let ?ht = "ht\<lparr>entries := Some (es[i := e'])\<rparr>"
  let ?s = "put_table t ?ht s"
  have T: "ob_tables ?s = (ob_tables s)(t \<mapsto> ?ht)" by simp
  have "occupied (es[i := e']) = occupied es" using occupied_update [OF i(1), of e'] i(2) e' by simp
  moreover have "table_ok ht" using inv ht by (auto simp: ob_inv_def tabs_ok_def)
  ultimately have "table_ok ?ht" using ht(2) i(1,2) e' by (cases i) (auto simp: table_ok_def)
  moreover have sl: "slots ((ob_tables s)(t \<mapsto> ?ht)) b = slots (ob_tables s) b" for b
    using slots_update [of "ob_tables s" t ht es ?ht i e' b] ht i(1,2) e' by (auto simp: slots_def)
  have "heap_ok (typed s) (ob_heap s) (ob_tables ?s)"
    by (rule heap_ok_same_slots [of _ _ "ob_tables s"]) (use inv sl in \<open>simp_all add: ob_inv_def\<close>)
  ultimately have "kept s ?s" using inv ht by (auto simp: kept_def ob_inv_def tabs_ok_def)
  moreover have "hmap t ?s = (hmap t s)(h \<mapsto> e')" using hmap_put [OF T ht _ i(1), of e'] i(3,4) e' by simp
  moreover have "put_slot t (nat h div 4) e' s = Some ?s" "entry_at t (nat h div 4) s = Some e"
    using ht i(1,2,5) by (simp_all add: put_slot_def entry_at_def slot_def)
  ultimately show ?thesis using hmap_other [OF T] ht by (intro exI [of _ ?s]) auto
qed

text \<open>Table \<open>t\<close> exists and has an array, of the same capacity in both states.\<close>

definition same_shape :: "nat \<Rightarrow> ob_state \<Rightarrow> ob_state \<Rightarrow> bool" where
  "same_shape t s s' \<longleftrightarrow> (\<exists>ht ht' es es'. ob_tables s t = Some ht \<and> ob_tables s' t = Some ht' \<and> entries ht = Some es \<and>
     entries ht' = Some es' \<and> capacity ht' = capacity ht)"

lemma same_shape_trans: "same_shape t s s' \<Longrightarrow> same_shape t s' s'' \<Longrightarrow> same_shape t s s''"
  by (auto simp: same_shape_def)

lemma closable_cleared [simp]: "closable (e\<lparr>attributes := attributes e AND NOT OBJ_PROTECT_CLOSE\<rparr>)"
  by (simp add: closable_def and.assoc)

lemma destroy_slot_eq:
  assumes inv: "ob_inv s" and ht: "ob_tables s t = Some ht" "entries ht = Some es" and i: "i < length es"
  shows "\<exists>s'. destroy_slot t i s = Some s' \<and> kept s s' \<and> hmap t s' = (hmap t s)(4 * int i := None) \<and>
    (\<forall>u. u \<noteq> t \<longrightarrow> hmap u s' = hmap u s) \<and> same_shape t s s'"
proof (cases "e_object (es ! i) = 0")
  case True
  then show ?thesis using inv ht i hmap_at [OF ht i]
    by (auto simp: destroy_slot_def entry_at_def slot_def kept_refl same_shape_def fun_upd_idem)
next
  case False
  let ?e = "es ! i" and ?h = "4 * int i"
  let ?e' = "?e\<lparr>attributes := attributes ?e AND NOT OBJ_PROTECT_CLOSE\<rparr>"
  have h: "hmap t s ?h = Some ?e" "nat ?h div 4 = i" using hmap_at [OF ht i] False by (auto simp: nat_mult_distrib)
  have tabs: "tabs_ok (ob_tables s)" using inv by (simp add: ob_inv_def)
  have hi: "handle_of i = ?h" using i table_okD(3) [OF tabs ht] by (intro handle_of_eq) simp
  obtain s1 where s1: "put_slot t i ?e' s = Some s1" "kept s s1" "hmap t s1 = (hmap t s)(?h \<mapsto> ?e')"
    "\<And>u. u \<noteq> t \<Longrightarrow> hmap u s1 = hmap u s" "entry_at t i s = Some ?e"
    "\<exists>ht'. ob_tables s1 t = Some ht' \<and> capacity ht' = capacity ht \<and> (entries ht' = None) = (entries ht = None)"
    using put_slot_same_object [OF inv h(1), of ?e'] h(2) ht(1) by auto
  have "ob_inv s1" "hmap t s1 ?h = Some ?e'" using s1(2,3) by (simp_all add: kept_def)
  then obtain s' where s': "ObpFreeHandle t ?h s1 = Some (0, s')" "ob_inv s'" "hmap t s' = (hmap t s1)(?h := None)"
    "\<And>u. u \<noteq> t \<Longrightarrow> hmap u s' = hmap u s1" "typed s' = typed s1" "ob_callbacks s' = ob_callbacks s1"
    "dom (ob_tables s') = dom (ob_tables s1)"
    "\<And>u ht. ob_tables s1 u = Some ht \<Longrightarrow> \<exists>ht'. ob_tables s' u = Some ht' \<and> capacity ht' = capacity ht \<and>
       (entries ht' = None) = (entries ht = None)"
    using ObpFreeHandle_done [of s1 t ?h ?e'] closable_cleared by metis
  have "same_shape t s s'" using s1(6) s'(8) ht by (fastforce simp: same_shape_def)
  moreover have "kept s s'" using kept_trans [OF s1(2), of s'] s' by (simp add: kept_def)
  moreover have "destroy_slot t i s = Some s'" using s1(1,5) s'(1) hi False by (simp add: destroy_slot_def)
  ultimately show ?thesis using s' s1 by auto
qed

lemma hmap_empty_slots:
  assumes "hmap t s = Map.empty" "ob_tables s t = Some ht" "entries ht = Some es" "i < length es"
  shows "e_object (es ! i) = 0"
  using hmap_at [OF assms(2-4)] assms(1) by (auto split: if_splits)

lemma hmap_bound:
  assumes "ob_inv s" "ob_tables s t = Some ht" "hmap t s h = Some e" shows "h < 4 * int (unat (capacity ht))"
proof -
  obtain ht' es i where i: "ob_tables s t = Some ht'" "entries ht' = Some es" "i < length es" "h = 4 * int i"
    using hmap_Some [OF assms(3)] by metis
  then have "i < unat (capacity ht)" using cap_length [OF assms(1) i(1,2)] assms(2) by simp
  then have "int i < int (unat (capacity ht))" by (simp only: of_nat_less_iff)
  then show ?thesis using i(4) by linarith
qed

lemma destroy_loop:
  assumes inv: "ob_inv s" and ht: "ob_tables s t = Some ht" "entries ht = Some es"
  shows "\<exists>s'. for_upto 0 (unat (capacity ht)) (destroy_slot t) s = Some s' \<and> kept s s' \<and>
    (\<forall>u. u \<noteq> t \<longrightarrow> hmap u s' = hmap u s) \<and> same_shape t s s' \<and> hmap t s' = Map.empty"
proof -
  let ?P = "\<lambda>k s'. kept s s' \<and> (\<forall>u. u \<noteq> t \<longrightarrow> hmap u s' = hmap u s) \<and> same_shape t s s' \<and>
      (\<forall>h. hmap t s' h = (if h < 4 * int k then None else hmap t s h))"
  have neg: "hmap t s h = None" if "h < 0" for h using that by (auto simp: hmap_def split: option.splits)
  have "\<exists>s'. for_upto 0 (unat (capacity ht)) (destroy_slot t) s = Some s' \<and> ?P (unat (capacity ht)) s'"
  proof (rule for_upto_inv [where P = ?P])
    show "?P 0 s" using inv ht neg by (auto simp: kept_refl same_shape_def)
    fix k s' assume k: "k < unat (capacity ht)" and P: "?P k s'"
    then obtain ht' es' where ht': "ob_tables s' t = Some ht'" "entries ht' = Some es'" "capacity ht' = capacity ht" "ob_inv s'"
      using ht by (auto simp: same_shape_def kept_def)
    then have "k < length es'" using k cap_length [OF ht'(4,1,2)] by simp
    from destroy_slot_eq [OF ht'(4,1,2) this] obtain s'' where s'': "destroy_slot t k s' = Some s''" "kept s' s''"
      "hmap t s'' = (hmap t s')(4 * int k := None)" "\<forall>u. u \<noteq> t \<longrightarrow> hmap u s'' = hmap u s'" "same_shape t s' s''" by blast
    have "hmap t s'' h = (if h < 4 * int (Suc k) then None else hmap t s h)" for h
    proof -
      have "hmap t s h = None" if "4 * int k < h" "h < 4 * int (Suc k)"
      proof -
        have "h mod 4 \<noteq> 0" using that by presburger
        then show ?thesis by (auto simp: hmap_def split: option.splits)
      qed
      then show ?thesis using s''(3) P by (cases "h = 4 * int k") auto
    qed
    then show "\<exists>s''. destroy_slot t k s' = Some s'' \<and> ?P (Suc k) s''"
      using s'' P kept_trans same_shape_trans by (metis (no_types, lifting))
  qed simp
  then obtain s1 where s1: "for_upto 0 (unat (capacity ht)) (destroy_slot t) s = Some s1" "?P (unat (capacity ht)) s1" by blast
  then have "hmap t s1 = Map.empty" using hmap_bound [OF inv ht(1)] by (fastforce simp: fun_eq_iff)
  then show ?thesis using s1 by blast
qed

lemma ob_handle_table_destroy_inv:
  assumes inv: "ob_inv s" and ht: "ob_tables s t = Some ht"
  shows "\<exists>s'. ob_handle_table_destroy t s = Some s' \<and> kept s s' \<and> hmap t s' = Map.empty \<and>
     (\<forall>u. u \<noteq> t \<longrightarrow> hmap u s' = hmap u s) \<and> (\<exists>ht'. ob_tables s' t = Some ht' \<and> entries ht' = None)"
proof (cases "entries ht")
  case None
  then show ?thesis using inv ht by (auto simp: ob_handle_table_destroy_def kept_refl hmap_def)
next
  case (Some es)
  obtain s1 where s1: "for_upto 0 (unat (capacity ht)) (destroy_slot t) s = Some s1" "kept s s1"
    "\<forall>u. u \<noteq> t \<longrightarrow> hmap u s1 = hmap u s" "same_shape t s s1" "hmap t s1 = Map.empty"
    using destroy_loop [OF inv ht Some] by blast
  obtain ht1 es1 where ht1: "ob_tables s1 t = Some ht1" "entries ht1 = Some es1" "ob_inv s1"
    using s1(2,4) by (auto simp: same_shape_def kept_def)
  let ?ht = "ht1\<lparr>entries := None, entries_at := 0, capacity := 0, ht_count := 0\<rparr>"
  let ?s = "handle_table_free_entries (entries_at ht1) (capacity ht1) s1"
  have same: "ob_tables ?s = ob_tables s1" "ob_heap ?s = ob_heap s1" "typed ?s = typed s1" "ob_callbacks ?s = ob_callbacks s1" by simp_all
  then have "ob_inv ?s" "kept s ?s" using ht1(3) s1(2) by (simp_all add: ob_inv_def kept_def)
  have r: "kept ?s (put_table t ?ht ?s)" "hmap t (put_table t ?ht ?s) = Map.empty"
    "\<And>u. u \<noteq> t \<Longrightarrow> hmap u (put_table t ?ht ?s) = hmap u ?s"
    using replace_table [OF \<open>ob_inv ?s\<close>, of t ht1 ?ht] ht1 hmap_empty_slots [OF s1(5) ht1(1)] by (auto simp: table_ok_def)
  moreover have "ob_handle_table_destroy t s = Some (put_table t ?ht ?s)"
    using ht Some s1(1) ht1 by (simp add: ob_handle_table_destroy_def)
  ultimately show ?thesis
    using kept_trans [OF \<open>kept s ?s\<close> r(1)] s1(3) hmap_tables [OF same(1)] by auto
qed

subsection \<open>Inheritance\<close>

lemma grow_to_eq:
  assumes "ob_inv s" "ob_tables s t = Some ht" "entries ht = Some es" "m < k + length es"
  shows "\<exists>s' ht' es'. grow_to (Suc k) mem t m s = Some s' \<and> kept s s' \<and> (\<forall>u. hmap u s' = hmap u s) \<and> ob_heap s' = ob_heap s \<and>
     (\<forall>u. u \<noteq> t \<longrightarrow> ob_tables s' u = ob_tables s u) \<and> ob_tables s' t = Some ht' \<and> entries ht' = Some es' \<and>
     cap_ceiling ht' = cap_ceiling ht \<and> length es \<le> length es' \<and>
     (m < length es' \<or> cap_ceiling ht \<le> length es' \<or> mem (of_nat (min (2 * length es') (cap_ceiling ht))) = 0)"
  using assms
proof (induction k arbitrary: s ht es)
  case 0
  then show ?case using cap_length [OF 0(1-3)] by (auto simp: kept_refl)
next
  case (Suc k)
  note len = cap_length [OF Suc.prems(1-3)]
  show ?case
  proof (cases "length es \<le> m")
    case False
    then show ?thesis using Suc.prems len by (auto simp: kept_refl)
  next
    case True
    from handle_table_grow_eq [OF Suc.prems(1-3), of mem] show ?thesis
    proof
      assume "handle_table_grow mem t s = Some (-1, s) \<and>
        (cap_ceiling ht \<le> length es \<or> mem (of_nat (min (2 * length es) (cap_ceiling ht))) = 0)"
      then show ?thesis using Suc.prems len True by (intro exI [of _ s] exI [of _ ht] exI [of _ es]) (auto simp: kept_refl)
    next
      assume "\<exists>s' ht' n. handle_table_grow mem t s = Some (0, s') \<and> length es < cap_ceiling ht \<and>
        mem (of_nat (min (2 * length es) (cap_ceiling ht))) \<noteq> 0 \<and> 0 < n \<and>
        entries ht' = Some (es @ replicate n zero_entry) \<and> length es + n \<le> cap_ceiling ht \<and>
        ht_count ht' = ht_count ht \<and> handle_limit ht' = handle_limit ht \<and>
        ob_tables s' = (ob_tables s)(t \<mapsto> ht') \<and> ob_heap s' = ob_heap s \<and> typed s' = typed s \<and>
        ob_callbacks s' = ob_callbacks s \<and> ob_inv s'"
      then obtain s1 h1 n where g: "handle_table_grow mem t s = Some (0, s1)" "0 < n" "handle_limit h1 = handle_limit ht"
        "entries h1 = Some (es @ replicate n zero_entry)" "ob_tables s1 = (ob_tables s)(t \<mapsto> h1)" "ob_heap s1 = ob_heap s"
        "typed s1 = typed s" "ob_callbacks s1 = ob_callbacks s" "ob_inv s1" by blast
      have "kept s s1" "cap_ceiling h1 = cap_ceiling ht" using g Suc.prems(2) by (auto simp: kept_def cap_ceiling_def)
      moreover have "hmap u s1 = hmap u s" for u using hmap_grow [OF g(5) Suc.prems(2,3) g(4)] .
      moreover have "grow_to (Suc (Suc k)) mem t m s = grow_to (Suc k) mem t m s1"
        using g(1) Suc.prems(2) len True by (simp del: grow_to.simps add: grow_to.simps(2) [of "Suc k"])
      moreover obtain s' ht' es' where "grow_to (Suc k) mem t m s1 = Some s'" "kept s1 s'" "\<forall>u. hmap u s' = hmap u s1" "ob_heap s' = ob_heap s1"
        "\<forall>u. u \<noteq> t \<longrightarrow> ob_tables s' u = ob_tables s1 u" "ob_tables s' t = Some ht'" "entries ht' = Some es'" "cap_ceiling ht' = cap_ceiling h1"
        "length es + n \<le> length es'" "m < length es' \<or> cap_ceiling h1 \<le> length es' \<or> mem (of_nat (min (2 * length es') (cap_ceiling h1))) = 0"
        using Suc.IH [OF g(9) _ g(4)] g(2,5) Suc.prems(4) by auto
      ultimately show ?thesis using g(5,6) kept_trans [of s s1 s'] by (intro exI [of _ s'] exI [of _ ht'] exI [of _ es']) auto
    qed
  qed
qed

lemma max_inherit_eq:
  assumes "n \<le> length es"
  shows "\<exists>r. max_inherit es n = Some r \<and> (case r of None \<Rightarrow> \<forall>i < n. \<not> inheritable (es ! i)
     | Some m \<Rightarrow> m < n \<and> inheritable (es ! m) \<and> (\<forall>i. m < i \<and> i < n \<longrightarrow> \<not> inheritable (es ! i)))"
proof -
  let ?P = "\<lambda>k r. case r of None \<Rightarrow> \<forall>i < k. \<not> inheritable (es ! i)
     | Some m \<Rightarrow> m < k \<and> inheritable (es ! m) \<and> (\<forall>i. m < i \<and> i < k \<longrightarrow> \<not> inheritable (es ! i))"
  have "\<exists>r. for_upto 0 n (\<lambda>i m. do { e \<leftarrow> slot es i; Some (if inheritable e then Some i else m) }) None = Some r \<and> ?P n r"
    using assms by (intro for_upto_inv [where P = ?P]) (auto simp: slot_def less_Suc_eq split: option.splits)
  then show ?thesis by (simp add: max_inherit_def)
qed

lemma inherit_slot_eq:
  assumes inv: "ob_inv s" and pc: "parent \<noteq> child"
    and pt: "ob_tables s parent = Some pt" "entries pt = Some pes" "i < length pes"
    and ct: "ob_tables s child = Some ct" "entries ct = Some ces" "i < length ces" "e_object (ces ! i) = 0"
    and refs: "\<And>h. ob_heap s (e_object (pes ! i)) = Some h \<Longrightarrow> unat (ref_count h) < 2 ^ 31 - 1"
  shows "\<exists>s'. inherit_slot parent child i (s, c) = Some (s', if inheritable (pes ! i) then Suc c else c) \<and> kept s s' \<and>
     hmap child s' = (if inheritable (pes ! i) then (hmap child s)(4 * int i \<mapsto> pes ! i) else hmap child s) \<and>
     (\<forall>u. u \<noteq> child \<longrightarrow> ob_tables s' u = ob_tables s u) \<and> same_shape child s s' \<and>
     (\<forall>b h'. ob_heap s' b = Some h' \<longrightarrow> (\<exists>h. ob_heap s b = Some h \<and> unat (ref_count h') \<le> Suc (unat (ref_count h))))"
proof (cases "inheritable (pes ! i)")
  case False
  then show ?thesis using inv pt ct
    by (auto simp: inherit_slot_def entry_at_def slot_def kept_refl same_shape_def)
next
  case True
  let ?e = "pes ! i"
  have obj: "e_object ?e \<noteq> 0" using True by (simp add: inheritable_def)
  obtain h where h: "ob_heap s (e_object ?e) = Some h" using slot_live [OF inv pt obj] by auto
  have tabs: "tabs_ok (ob_tables s)" using inv by (simp add: ob_inv_def)
  have i0: "0 < i" using obj table_okD(5) [OF tabs pt(1,2)] by (cases i) auto
  let ?ht = "ct\<lparr>entries := Some (ces[i := ?e]), ht_count := ht_count ct + 1\<rparr>"
  let ?h = "h\<lparr>ref_count := ref_count h + 1, handle_count := handle_count h + 1\<rparr>"
  obtain s' where s': "inherit_slot parent child i (s, c) = Some (s', Suc c)" "ob_tables s' = (ob_tables s)(child \<mapsto> ?ht)"
    "ob_heap s' = (ob_heap s)(e_object ?e \<mapsto> ?h)" "typed s' = typed s" "ob_callbacks s' = ob_callbacks s"
    using True pt ct h by (simp add: inherit_slot_def entry_at_def slot_def put_slot_def ObReferenceObject_def Let_def)
  have "ob_inv s'" using claim_inv [OF inv ct(1,2) i0 ct(3,4) obj h refs [OF h] s'(2-4)] .
  then have "kept s s'" using s' ct(1) by (auto simp: kept_def)
  moreover have "hmap child s' = (hmap child s)(4 * int i \<mapsto> ?e)" using hmap_put [OF s'(2) ct(1,2) _ ct(3), of ?e] obj by simp
  moreover have "unat (ref_count ?h) \<le> Suc (unat (ref_count h))" using refs [OF h] by (simp add: word_Suc)
  ultimately show ?thesis using s' True ct h by (auto simp: same_shape_def)
qed

text \<open>What a child inherits of an entry of its parent.\<close>

definition inherited :: "HANDLE_TABLE_ENTRY option \<Rightarrow> HANDLE_TABLE_ENTRY option" where
  "inherited x = (case x of None \<Rightarrow> None | Some e \<Rightarrow> if attributes e AND OBJ_INHERIT \<noteq> 0 then Some e else None)"

lemma hmap_between: "4 * int k < h \<Longrightarrow> h < 4 * int (Suc k) \<Longrightarrow> hmap t s h = None"
proof -
  assume "4 * int k < h" "h < 4 * int (Suc k)"
  then have "h mod 4 \<noteq> 0" by presburger
  then show ?thesis by (auto simp: hmap_def split: option.splits)
qed

lemma inherit_loop:
  assumes inv: "ob_inv s" and pc: "parent \<noteq> child"
    and pt: "ob_tables s parent = Some pt" "entries pt = Some pes" "n \<le> length pes"
    and ct: "ob_tables s child = Some ct" "entries ct = Some ces" "n \<le> length ces" "hmap child s = Map.empty"
    and refs: "\<And>b h. ob_heap s b = Some h \<Longrightarrow> unat (ref_count h) + n < 2 ^ 31"
  shows "\<exists>s' c. for_upto 0 n (inherit_slot parent child) (s, 0) = Some (s', c) \<and> kept s s' \<and>
    (\<forall>u. u \<noteq> child \<longrightarrow> ob_tables s' u = ob_tables s u) \<and> same_shape child s s' \<and> c = card (dom (hmap child s')) \<and>
    (\<forall>h. hmap child s' h = (if h < 4 * int n then inherited (hmap parent s h) else None))"
proof -
  let ?P = "\<lambda>k (s', c). kept s s' \<and> (\<forall>u. u \<noteq> child \<longrightarrow> ob_tables s' u = ob_tables s u) \<and> same_shape child s s' \<and>
    finite (dom (hmap child s')) \<and> c = card (dom (hmap child s')) \<and>
    (\<forall>h. hmap child s' h = (if h < 4 * int k then inherited (hmap parent s h) else None)) \<and>
    (\<forall>b h. ob_heap s' b = Some h \<longrightarrow> unat (ref_count h) + (n - k) < 2 ^ 31)"
  have "\<exists>sc. for_upto 0 n (inherit_slot parent child) (s, 0) = Some sc \<and> ?P n sc"
  proof (rule for_upto_inv [where P = ?P])
    have "hmap parent s h = None" if "h < 0" for h using that by (auto simp: hmap_def split: option.splits)
    then show "?P 0 (s, 0)" using inv ct refs by (auto simp: kept_refl same_shape_def inherited_def)
    fix k sc assume k: "k < n" and P: "?P k sc"
    obtain s' c where sc: "sc = (s', c)" by force
    from P obtain ct' ces' where s': "ob_inv s'" "ob_tables s' parent = Some pt" "ob_tables s' child = Some ct'" "entries ct' = Some ces'"
      "capacity ct' = capacity ct" using pc pt ct by (auto simp: sc kept_def same_shape_def)
    have kl: "k < length pes" "k < length ces'"
      using k pt ct s' cap_length [OF inv ct(1,2)] cap_length [OF s'(1,3,4)] by auto
    have none: "hmap child s' (4 * int k) = None" using P by (simp add: sc)
    then have free: "e_object (ces' ! k) = 0" using hmap_at [OF s'(3,4) kl(2)] by (auto split: if_splits)
    have rc: "ob_heap s' (e_object (pes ! k)) = Some h \<Longrightarrow> unat (ref_count h) < 2 ^ 31 - 1" for h using P k by (fastforce simp: sc)
    let ?c = "if inheritable (pes ! k) then Suc c else c"
    obtain s'' where s'': "inherit_slot parent child k (s', c) = Some (s'', ?c)" "kept s' s''"
     "hmap child s'' = (if inheritable (pes ! k) then (hmap child s')(4 * int k \<mapsto> pes ! k) else hmap child s')"
     "\<forall>u. u \<noteq> child \<longrightarrow> ob_tables s'' u = ob_tables s' u" "same_shape child s' s''"
     "\<forall>b h'. ob_heap s'' b = Some h' \<longrightarrow> (\<exists>h. ob_heap s' b = Some h \<and> unat (ref_count h') \<le> Suc (unat (ref_count h)))"
      using inherit_slot_eq [OF s'(1) pc s'(2) pt(2) kl(1) s'(3,4) kl(2) free rc] by blast
    have at: "hmap parent s (4 * int k) = (if e_object (pes ! k) = 0 then None else Some (pes ! k))"
      by (rule hmap_at [OF pt(1,2) kl(1)])
    have "hmap child s'' h = (if h < 4 * int (Suc k) then inherited (hmap parent s h) else None)" for h
    proof (cases "h = 4 * int k")
      case True
      then show ?thesis using s''(3) none at by (auto simp: inherited_def inheritable_def)
    next
      case False
      then have "hmap child s'' h = hmap child s' h" using s''(3) by auto
      then show ?thesis using P False hmap_between [of k h parent s] by (auto simp: sc inherited_def)
    qed
    moreover have "finite (dom (hmap child s''))" "?c = card (dom (hmap child s''))"
      using P s''(3) none by (auto simp: sc domIff)
    moreover have "unat (ref_count h') + (n - Suc k) < 2 ^ 31" if h': "ob_heap s'' b = Some h'" for b h'
    proof -
      obtain h where "ob_heap s' b = Some h" "unat (ref_count h') \<le> Suc (unat (ref_count h))" using s''(6) h' by blast
      moreover from this have "unat (ref_count h) + (n - k) < 2 ^ 31" using P by (auto simp: sc)
      ultimately show ?thesis using k by simp
    qed
    moreover have "kept s s''" "same_shape child s s''" using P s''(2,5) kept_trans same_shape_trans by (auto simp: sc)
    ultimately show "\<exists>sc'. inherit_slot parent child k sc = Some sc' \<and> ?P (Suc k) sc'"
      using s''(1,4) P by (intro exI [of _ "(s'', ?c)"]) (auto simp: sc)
  qed simp
  then show ?thesis by auto
qed

lemma inherited_slot:
  assumes "inherited (hmap t s h) = Some e" "ob_tables s t = Some ht" "entries ht = Some es"
  obtains i where "i < length es" "h = 4 * int i" "es ! i = e" "inheritable e"
proof -
  have "hmap t s h = Some e" and att: "attributes e AND OBJ_INHERIT \<noteq> 0"
    using assms(1) by (auto simp: inherited_def split: option.splits if_splits)
  from hmap_Some [OF this(1)] obtain ht' es' i where "ob_tables s t = Some ht'" "entries ht' = Some es'" "i < length es'" "es' ! i = e"
    "e_object e \<noteq> 0" "h = 4 * int i" by metis
  with att assms(2,3) show ?thesis by (intro that [of i]) (auto simp: inheritable_def)
qed

lemma inherited_below:
  assumes "inherited (hmap t s h) = Some e" "ob_tables s t = Some ht" "entries ht = Some es"
    "\<And>i. m < i \<Longrightarrow> i < length es \<Longrightarrow> \<not> inheritable (es ! i)"
  shows "h \<le> 4 * int m"
proof -
  obtain i where i: "i < length es" "h = 4 * int i" "es ! i = e" "inheritable e" using inherited_slot [OF assms(1-3)] by metis
  then have "i \<le> m" using assms(4) [of i] by force
  then show ?thesis using i(2) by simp
qed

text \<open>A table of capacity \<open>cap\<close> cannot grow: it is at its ceiling, or there is no memory for the next array.\<close>

definition stuck :: "(u32 \<Rightarrow> nat) \<Rightarrow> HANDLE_TABLE \<Rightarrow> nat \<Rightarrow> bool" where
  "stuck mem ht cap \<longleftrightarrow> cap_ceiling ht \<le> cap \<or> mem (of_nat (min (2 * cap) (cap_ceiling ht))) = 0"

lemma ob_handle_table_inherit_eq:
  assumes inv: "ob_inv s" and pc: "parent \<noteq> child" "parent \<noteq> 0" "child \<noteq> 0"
    and pt: "ob_tables s parent = Some pt" "entries pt = Some pes"
    and ct: "ob_tables s child = Some ct" "entries ct = Some ces" "hmap child s = Map.empty"
    and refs: "\<forall>b h. ob_heap s b = Some h \<longrightarrow> unat (ref_count h) + length pes < 2 ^ 31"
  shows "\<exists>n s' ct'. ob_handle_table_inherit mem parent child s = Some (int n, s') \<and> kept s s' \<and>
    (\<forall>u. u \<noteq> child \<longrightarrow> hmap u s' = hmap u s) \<and> n = card (dom (hmap child s')) \<and>
    ob_tables s' child = Some ct' \<and> unat (capacity ct) \<le> unat (capacity ct') \<and>
    (\<forall>h. hmap child s' h = (if h < 4 * int (unat (capacity ct')) then inherited (hmap parent s h) else None)) \<and>
    ((\<exists>h. inherited (hmap parent s h) \<noteq> None \<and> 4 * int (unat (capacity ct')) \<le> h) \<longrightarrow> stuck mem ct (unat (capacity ct')))"
proof -
  have lens: "length pes = unat (capacity pt)" "length ces = unat (capacity ct)" by (rule cap_length [OF inv pt], rule cap_length [OF inv ct(1,2)])
  obtain r where r: "max_inherit pes (unat (capacity pt)) = Some r" "case r of None \<Rightarrow> \<forall>i < length pes. \<not> inheritable (pes ! i)
     | Some m \<Rightarrow> m < length pes \<and> inheritable (pes ! m) \<and> (\<forall>i. m < i \<and> i < length pes \<longrightarrow> \<not> inheritable (pes ! i))"
    using max_inherit_eq [of "length pes" pes] lens by auto
  show ?thesis
  proof (cases r)
    case None
    have "inherited (hmap parent s h) = None" for h
    proof (rule ccontr)
      assume "inherited (hmap parent s h) \<noteq> None"
      then obtain e where "inherited (hmap parent s h) = Some e" by blast
      from inherited_slot [OF this pt] r(2) None show False by auto
    qed
    then show ?thesis using inv pc pt ct r(1) None
      by (intro exI [of _ 0] exI [of _ s]) (simp add: ob_handle_table_inherit_def kept_refl)
  next
    case (Some m)
    with r(2) have m: "m < length pes" "inheritable (pes ! m)" "\<And>i. m < i \<Longrightarrow> i < length pes \<Longrightarrow> \<not> inheritable (pes ! i)" by auto
    obtain s1 ct1 ces1 where s1: "grow_to (m + 2) mem child m s = Some s1" "kept s s1" "\<And>u. hmap u s1 = hmap u s" "ob_heap s1 = ob_heap s"
      "\<And>u. u \<noteq> child \<Longrightarrow> ob_tables s1 u = ob_tables s u" "ob_tables s1 child = Some ct1" "entries ct1 = Some ces1"
      "length ces \<le> length ces1" "m < length ces1 \<or> stuck mem ct (length ces1)"
      using grow_to_eq [OF inv ct(1,2), of m "m + 1" mem] by (auto simp: stuck_def)
    define n where "n = min (m + 1) (length ces1)"
    have inv1: "ob_inv s1" "ob_tables s1 parent = Some pt" using s1(2,5) pc(1) pt(1) by (auto simp: kept_def)
    obtain s' c where s': "for_upto 0 n (inherit_slot parent child) (s1, 0) = Some (s', c)" "kept s1 s'"
      "\<forall>u. u \<noteq> child \<longrightarrow> ob_tables s' u = ob_tables s1 u" "same_shape child s1 s'" "c = card (dom (hmap child s'))"
      "\<forall>h. hmap child s' h = (if h < 4 * int n then inherited (hmap parent s1 h) else None)"
      using inherit_loop [OF inv1(1) pc(1) inv1(2) pt(2) _ s1(6,7), of n] refs s1(3,4) ct(3) m(1)
      by (fastforce simp: n_def)
    have len1: "length ces1 = unat (capacity ct1)" by (rule cap_length [OF inv1(1) s1(6,7)])
    obtain ct' where ct': "ob_tables s' child = Some ct'" "unat (capacity ct') = length ces1"
      using s'(4) s1(6) len1 by (auto simp: same_shape_def)
    have "ob_handle_table_inherit mem parent child s = Some (int c, s')"
      using pc pt ct r(1) Some s1(1,6) s'(1) len1 by (simp add: ob_handle_table_inherit_def n_def)
    moreover have "hmap u s' = hmap u s" if "u \<noteq> child" for u
      using s'(3) s1(3) [of u] that by (auto simp: hmap_def fun_eq_iff)
    moreover have below: "h \<le> 4 * int m" if "inherited (hmap parent s h) = Some e" for h e
      using inherited_below [OF that pt, of m] m(3) by auto
    have "hmap child s' h = (if h < 4 * int (unat (capacity ct')) then inherited (hmap parent s h) else None)" for h
    proof (cases "inherited (hmap parent s h)")
      case (Some e)
      then have "h < 4 * int n \<longleftrightarrow> h < 4 * int (length ces1)" using below [OF Some] by (simp add: n_def min_def)
      then show ?thesis using s'(6) s1(3) ct'(2) by simp
    qed (use s'(6) s1(3) in simp)
    moreover have "stuck mem ct (unat (capacity ct'))" if "inherited (hmap parent s h) \<noteq> None" "4 * int (unat (capacity ct')) \<le> h" for h
      using that s1(9) ct'(2) below by fastforce
    ultimately show ?thesis using kept_trans [OF s1(2) s'(2)] s'(5) s1(8) ct' lens(2)
      by (intro exI [of _ c] exI [of _ s'] exI [of _ ct']) auto
  qed
qed

end
