(* ===== verification/Ob_Duplicate.thy ===== *)
theory Ob_Duplicate
  imports Ob_Reach
begin

text \<open>
  \<open>NtDuplicateObject\<close>: a duplicate never holds a right that its source or the request did not, closing the source is
  atomic with creating the destination, and a failure takes back everything the call did, whatever callbacks that re-enter the object
  manager and other processors do meanwhile.
\<close>

section \<open>The pin\<close>

lemma dropped_pinned:
  assumes "unat (handle_count h) < unat (ref_count h)" "0 < unat (handle_count h)"
  shows "dropped (h\<lparr>handle_count := handle_count h - 1\<rparr>) = Some (h\<lparr>handle_count := handle_count h - 1, ref_count := ref_count h - 1\<rparr>)"
    "unat (handle_count h - 1) < unat (ref_count h - 1)"
proof -
  have "ref_count h \<noteq> 1" using assms by auto
  then show "dropped (h\<lparr>handle_count := handle_count h - 1\<rparr>) = Some (h\<lparr>handle_count := handle_count h - 1, ref_count := ref_count h - 1\<rparr>)"
    by (simp add: dropped_def)
  show "unat (handle_count h - 1) < unat (ref_count h - 1)" using assms by (simp add: word_pred)
qed

lemma handle_count_pos:
  assumes "ob_inv s" "hmap t s h = Some e" "ob_heap s (e_object e) = Some hh"
  shows "0 < unat (handle_count hh)"
proof -
  obtain ht es i where ht: "ob_tables s t = Some ht" "entries ht = Some es" and i: "i < length es" "es ! i = e" "e_object e \<noteq> 0"
    using hmap_Some [OF assms(2)] by metis
  then have "e_object (es ! i) \<noteq> 0" by simp
  from slot_live [OF assms(1) ht i(1) this] obtain g where "ob_heap s (e_object (es ! i)) = Some g"
    "header_ok (typed s) (card (slots (ob_tables s) (e_object (es ! i)))) g"
    "0 < card (slots (ob_tables s) (e_object (es ! i)))" by metis
  then show ?thesis using assms(3) i(2) by (simp add: header_ok_def)
qed

lemma handle_live:
  assumes "ob_inv s" "hmap t s h = Some e" shows "\<exists>hh. ob_heap s (e_object e) = Some hh"
proof -
  obtain ht es i where t: "ob_tables s t = Some ht" "entries ht = Some es" "i < length es" "es ! i = e" "e_object e \<noteq> 0"
    using hmap_Some [OF assms(2)] by metis
  then have "e_object (es ! i) \<noteq> 0" by simp
  from slot_live [OF assms(1) t(1-3) this] t(4) show ?thesis by metis
qed

text \<open>The headers when a reference to \<open>b\<close> has been dropped, and when a handle has been closed.\<close>

definition unpinned :: "nat \<Rightarrow> (nat \<rightharpoonup> OBJECT_HEADER) \<Rightarrow> nat \<rightharpoonup> OBJECT_HEADER" where
  "unpinned b H = H(b := dropped (the (H b)))"

definition closed_heap :: "nat \<Rightarrow> int \<Rightarrow> ob_state \<Rightarrow> nat \<rightharpoonup> OBJECT_HEADER" where
  "closed_heap t h s = (case hmap t s h of
     None \<Rightarrow> ob_heap s
   | Some e \<Rightarrow> (let g = the (ob_heap s (e_object e)) in (ob_heap s)(e_object e := dropped (g\<lparr>handle_count := handle_count g - 1\<rparr>))))"

text \<open>The handles of all tables without one of them.\<close>

definition without :: "nat \<Rightarrow> int \<Rightarrow> (nat \<Rightarrow> int \<rightharpoonup> HANDLE_TABLE_ENTRY) \<Rightarrow> nat \<Rightarrow> int \<rightharpoonup> HANDLE_TABLE_ENTRY" where
  "without t h m = m(t := (m t)(h := None))"

definition handles :: "ob_state \<Rightarrow> nat \<Rightarrow> int \<rightharpoonup> HANDLE_TABLE_ENTRY" where
  "handles s = (\<lambda>t. hmap t s)"

lemma handles_eq: "hmap t s' = (hmap t s)(h := x) \<Longrightarrow> (\<And>u. u \<noteq> t \<Longrightarrow> hmap u s' = hmap u s) \<Longrightarrow>
    handles s' = (handles s)(t := (hmap t s)(h := x))"
  unfolding handles_def
proof
  fix u
  assume "hmap t s' = (hmap t s)(h := x)" "\<And>u. u \<noteq> t \<Longrightarrow> hmap u s' = hmap u s"
  then show "hmap u s' = ((\<lambda>t. hmap t s)(t := (hmap t s)(h := x))) u" by (cases "u = t") (simp_all only: fun_upd_same fun_upd_other not_False_eq_True)
qed

lemma handles_tables: "ob_tables s' = ob_tables s \<Longrightarrow> handles s' = handles s"
  unfolding handles_def by (rule ext) (rule hmap_tables)

text \<open>A state in which the object \<open>b\<close> is pinned and the tables are those of \<open>s\<close>: what a step of somebody else leaves.\<close>

definition steady :: "nat \<Rightarrow> ob_state \<Rightarrow> ob_state \<Rightarrow> bool" where
  "steady b s s' \<longleftrightarrow> ob_inv s' \<and> pinned b s' \<and> dom (ob_tables s') = dom (ob_tables s)"

lemma steady_trans: "steady b s s' \<Longrightarrow> steady b s' s'' \<Longrightarrow> steady b s s''"
  by (simp add: steady_def)

lemma steady_kept: "kept s s' \<Longrightarrow> pinned b s' \<Longrightarrow> steady b s s'"
  by (simp add: kept_def steady_def)

lemma dup_fail_eq:
  assumes "ob_inv s" "pinned b s"
  shows "\<exists>s'. dup_fail b s = Some (-1, None, s') \<and> kept s s' \<and> handles s' = handles s \<and> ob_heap s' = unpinned b (ob_heap s)"
proof -
  obtain r s' h where s': "ObDereferenceObject b s = Some (r, s')" "kept s s'" "ob_tables s' = ob_tables s"
     "ob_heap s b = Some h" "ob_heap s' = (ob_heap s)(b := dropped h)" using ObDereferenceObject_inv [OF assms] by blast
  then show ?thesis using handles_tables [OF s'(3)] by (simp add: dup_fail_def unpinned_def)
qed

lemma open_access_quiet: "open_access False b access s = Some (Some acc) \<Longrightarrow> acc = access"
  by (auto simp: open_access_def Let_def Option.bind_eq_Some_conv split: if_splits option.splits)

section \<open>From the allocation on\<close>

lemma ObpFreeHandle_kept:
  assumes "ob_inv s" "hmap t s h = Some e" "closable e"
  shows "\<exists>s' g. ObpFreeHandle t h s = Some (0, s') \<and> kept s s' \<and> hmap t s' = (hmap t s)(h := None) \<and>
    (\<forall>u. u \<noteq> t \<longrightarrow> hmap u s' = hmap u s) \<and> ob_heap s (e_object e) = Some g \<and>
    ob_heap s' = (ob_heap s)(e_object e := dropped (g\<lparr>handle_count := handle_count g - 1\<rparr>))"
proof (rule ObpFreeHandle_done [OF assms])
  fix s' g assume "ObpFreeHandle t h s = Some (0, s')" "ob_inv s'" "hmap t s' = (hmap t s)(h := None)"
    "\<And>u. u \<noteq> t \<Longrightarrow> hmap u s' = hmap u s" "ob_heap s (e_object e) = Some g"
    "ob_heap s' = (ob_heap s)(e_object e := dropped (g\<lparr>handle_count := handle_count g - 1\<rparr>))"
    "typed s' = typed s" "ob_callbacks s' = ob_callbacks s" "dom (ob_tables s') = dom (ob_tables s)"
  then show ?thesis by (simp add: kept_def)
qed

text \<open>Closing a handle of a pinned or of another object leaves the pin.\<close>

lemma close_pinned:
  assumes inv: "ob_inv s" and p: "pinned b s" and e: "hmap t s h = Some e" "closable e"
  shows "\<exists>s'. ObpFreeHandle t h s = Some (0, s') \<and> steady b s s' \<and> handles s' = without t h (handles s) \<and> ob_heap s' = closed_heap t h s"
proof -
  obtain s' g where s': "ObpFreeHandle t h s = Some (0, s')" "kept s s'" "hmap t s' = (hmap t s)(h := None)"
    "\<And>u. u \<noteq> t \<Longrightarrow> hmap u s' = hmap u s" "ob_heap s (e_object e) = Some g"
    "ob_heap s' = (ob_heap s)(e_object e := dropped (g\<lparr>handle_count := handle_count g - 1\<rparr>))"
    using ObpFreeHandle_kept [OF inv e] by blast
  have "pinned b s'"
  proof (cases "e_object e = b")
    case True
    then have "unat (handle_count g) < unat (ref_count g)" using p s'(5) by (simp add: pinned_def)
    from dropped_pinned [OF this handle_count_pos [OF inv e(1) s'(5)]] True s'(6) show ?thesis by (simp add: pinned_def)
  next
    case False
    then show ?thesis using p s'(6) by (simp add: pinned_def)
  qed
  moreover have "handles s' = without t h (handles s)" using handles_eq [OF s'(3,4)] by (simp add: without_def handles_def)
  ultimately show ?thesis using s'(1,2,5,6) e(1) steady_kept by (auto simp: closed_heap_def)
qed

text \<open>The destination is taken back, protected or not, whatever became of it.\<close>

lemma rollback_eq:
  assumes inv: "ob_inv s" and p: "pinned b s" and t: "t \<in> dom (ob_tables s)"
  shows "\<exists>s'. do {
      de \<leftarrow> ObpLookupHandle t h s;
      s \<leftarrow> (case de of None \<Rightarrow> Some s | Some i \<Rightarrow> do {
              e \<leftarrow> entry_at t i s;
              put_slot t i (e\<lparr>attributes := attributes e AND NOT OBJ_PROTECT_CLOSE\<rparr>) s });
      (rc2, s) \<leftarrow> ObpFreeHandle t h s;
      dup_fail b s } = Some (-1, None, s') \<and> ob_inv s' \<and> dom (ob_tables s') = dom (ob_tables s) \<and>
    handles s' = without t h (handles s) \<and> ob_heap s' = unpinned b (closed_heap t h s)"
proof -
  obtain ht where ht: "ob_tables s t = Some ht" using t by auto
  note look = ObpLookupHandle_eq [OF inv ht, of h]
  show ?thesis
  proof (cases "hmap t s h")
    case None
    have "ObpFreeHandle t h s = Some (-1, s)" by (rule ObpFreeHandle_refused [OF inv ht]) (simp add: None)
    moreover have "without t h (handles s) = handles s" using None by (auto simp: without_def handles_def fun_eq_iff)
    ultimately show ?thesis using None look dup_fail_eq [OF inv p] by (auto simp: closed_heap_def kept_def)
  next
    case (Some e)
    let ?e = "e\<lparr>attributes := attributes e AND NOT OBJ_PROTECT_CLOSE\<rparr>"
    obtain s1 where s1: "put_slot t (nat h div 4) ?e s = Some s1" "kept s s1" "hmap t s1 = (hmap t s)(h \<mapsto> ?e)"
      "\<And>u. u \<noteq> t \<Longrightarrow> hmap u s1 = hmap u s" "ob_heap s1 = ob_heap s" "entry_at t (nat h div 4) s = Some e"
      using put_slot_same_object [OF inv Some, of ?e] by auto
    have i1: "ob_inv s1" "pinned b s1" "hmap t s1 h = Some ?e" using s1(2,3,5) p by (simp_all add: kept_def pinned_def)
    obtain s2 where s2: "ObpFreeHandle t h s1 = Some (0, s2)" "steady b s1 s2" "handles s2 = without t h (handles s1)" "ob_heap s2 = closed_heap t h s1"
      using close_pinned [OF i1 closable_cleared] by blast
    have "ob_inv s2" "pinned b s2" using s2(2) by (simp_all add: steady_def)
    from dup_fail_eq [OF this] obtain s3 where s3: "dup_fail b s2 = Some (-1, None, s3)" "kept s2 s3" "handles s3 = handles s2" "ob_heap s3 = unpinned b (ob_heap s2)"
      by blast
    have "without t h (handles s1) = without t h (handles s)" using handles_eq [OF s1(3,4)] by (simp add: without_def handles_def)
    moreover have "closed_heap t h s1 = closed_heap t h s" using i1(3) Some s1(5) by (simp add: closed_heap_def Let_def)
    ultimately show ?thesis using Some look s1(1,2,6) s2 s3 by (auto simp: kept_def steady_def)
  qed
qed

lemma log_posts_frame [simp]: "ob_inv (log_posts op b ty acc s) = ob_inv s" "pinned c (log_posts op b ty acc s) = pinned c s"
  "ob_tables (log_posts op b ty acc s) = ob_tables s" "ob_heap (log_posts op b ty acc s) = ob_heap s"
  by (auto simp: ob_inv_def pinned_def)

text \<open>The allocation of the destination, with its grant capped.\<close>

definition dup_made :: "nat \<Rightarrow> int \<Rightarrow> HANDLE_TABLE_ENTRY \<Rightarrow> ob_state \<Rightarrow> ob_state \<Rightarrow> bool" where
  "dup_made t new e x y \<longleftrightarrow> 0 < new \<and> new mod 4 = 0 \<and> hmap t x new = None \<and> ob_inv y \<and> dom (ob_tables y) = dom (ob_tables x) \<and>
     handles y = (handles x)(t := (hmap t x)(new \<mapsto> e)) \<and>
     (\<exists>h. ob_heap x (e_object e) = Some h \<and>
        ob_heap y = (ob_heap x)(e_object e \<mapsto> h\<lparr>ref_count := ref_count h + 1, handle_count := handle_count h + 1\<rparr>))"

text \<open>What is left of the state \<open>x\<close> when the call fails without a destination, and of the state \<open>z\<close> in which others leave the destination \<open>new\<close>.\<close>

definition dup_undone :: "nat \<Rightarrow> ob_state \<Rightarrow> int \<Rightarrow> int option \<Rightarrow> ob_state \<Rightarrow> bool" where
  "dup_undone b x st out s' \<longleftrightarrow> st = -1 \<and> out = None \<and> handles s' = handles x \<and> ob_heap s' = unpinned b (ob_heap x)"

definition dup_finished :: "bool \<Rightarrow> nat \<Rightarrow> int \<Rightarrow> nat \<Rightarrow> int \<Rightarrow> nat \<Rightarrow> ob_state \<Rightarrow> int \<Rightarrow> int option \<Rightarrow> ob_state \<Rightarrow> bool" where
  "dup_finished close src_t sh dst_t new b z st out s' \<longleftrightarrow>
     (if close \<and> \<not> (\<exists>e. hmap src_t z sh = Some e \<and> closable e)
      then st = -1 \<and> out = None \<and> handles s' = without dst_t new (handles z) \<and> ob_heap s' = unpinned b (closed_heap dst_t new z)
      else st = 0 \<and> out = Some new \<and> handles s' = (if close then without src_t sh (handles z) else handles z) \<and>
        ob_heap s' = unpinned b (if close then closed_heap src_t sh z else ob_heap z))"

lemma dup_publish:
  assumes "ob_inv s" "pinned b s"
  shows "\<exists>q s'. ObDereferenceObject b (if type \<noteq> 0 then log_posts op b type acc s else s) = Some (q, s') \<and> ob_inv s' \<and>
    dom (ob_tables s') = dom (ob_tables s) \<and> handles s' = handles s \<and> ob_heap s' = unpinned b (ob_heap s)"
proof -
  let ?s = "if type \<noteq> 0 then log_posts op b type acc s else s"
  have "ob_inv ?s" "pinned b ?s" using assms by simp_all
  from ObDereferenceObject_inv [OF this] obtain q s' h where s': "ObDereferenceObject b ?s = Some (q, s')" "kept ?s s'" "ob_tables s' = ob_tables ?s"
     "ob_heap ?s b = Some h" "ob_heap s' = (ob_heap ?s)(b := dropped h)" by blast
  moreover have "ob_tables ?s = ob_tables s" "ob_heap ?s = ob_heap s" by simp_all
  ultimately show ?thesis using handles_tables [of s' s] by (auto simp: kept_def unpinned_def)
qed

lemma dup_commit_eq:
  fixes options attrs access :: u32 and b :: nat
  assumes inv: "ob_inv x" and t: "src_t \<in> dom (ob_tables x)" "dst_t \<in> dom (ob_tables x)"
    and h: "ob_heap x b = Some h" "unat (handle_count h) < unat (ref_count h)" "unat (ref_count h) < 2 ^ 31 - 1"
    and acc: "access AND ceiling = access" and env: "\<And>y. steady b x y \<Longrightarrow> steady b y (others y)"
  defines "close \<equiv> options AND DUPLICATE_CLOSE_SOURCE \<noteq> 0" and "e1 \<equiv> \<lparr>e_object = b, granted_access = access, attributes = attrs\<rparr>"
  shows "\<exists>st out s'. dup_commit mem others src_t sh dst_t b type access ceiling attrs options x = Some (st, out, s') \<and> ob_inv s' \<and>
    dom (ob_tables s') = dom (ob_tables x) \<and>
    (if alloc_refused mem dst_t (the (open_access False b access x)) x then dup_undone b x st out s'
     else \<exists>new y. dup_made dst_t new e1 x y \<and> dup_finished close src_t sh dst_t new b (others y) st out s')"
proof -
  note hok = header_of [OF inv h(1)]
  obtain a where a: "open_access False b access x = Some a" using open_access_total [OF h(1)] hok by (auto simp: header_ok_def)
  obtain r s1 where s1: "ObpAllocateHandleNoCreateCb mem dst_t b access attrs x = Some (r, s1)" "alloc_spec mem dst_t b a attrs x r s1"
    using allocate_eq [OF inv t(2) heap_nonzero [OF inv h(1)] h(1,3) a, of mem attrs] by (auto simp: ObpAllocateHandleNoCreateCb_def)
  have k1: "kept x s1" "ob_inv s1" using s1(2) by (simp_all add: alloc_spec_def kept_def)
  show ?thesis
  proof (cases "alloc_refused mem dst_t a x")
    case True
    then have r: "r = -1" "\<forall>u. hmap u s1 = hmap u x" "ob_heap s1 = ob_heap x" using s1(2) by (auto simp: alloc_spec_def)
    then have "pinned b s1" "handles s1 = handles x" using h by (simp_all add: pinned_def handles_def)
    with dup_fail_eq [OF k1(2)] True r s1(1) a k1(1) show ?thesis
      by (fastforce simp: dup_commit_def INVALID_HANDLE_VALUE_def dup_undone_def kept_def)
  next
    case False
    have "the a = access" using False a open_access_quiet by (cases a) (auto simp: alloc_refused_def)
    then have r: "4 \<le> r" "r mod 4 = 0" "hmap dst_t x r = None" "hmap dst_t s1 = (hmap dst_t x)(r \<mapsto> e1)"
      "\<And>u. u \<noteq> dst_t \<Longrightarrow> hmap u s1 = hmap u x"
      "ob_heap s1 = (ob_heap x)(b \<mapsto> h\<lparr>ref_count := ref_count h + 1, handle_count := handle_count h + 1\<rparr>)"
      using s1(2) False h(1) by (auto simp: alloc_spec_def e1_def)
    obtain ht1 where ht1: "ob_tables s1 dst_t = Some ht1" using t(2) k1(1) by (auto simp: kept_def)
    have look: "ObpLookupHandle dst_t r s1 = Some (Some (nat r div 4))" "hmap dst_t s1 r = Some e1"
      using ObpLookupHandle_eq [OF k1(2) ht1] r(4) by auto
    have cap: "e1\<lparr>granted_access := granted_access e1 AND ceiling\<rparr> = e1" "granted_access e1 AND ceiling = granted_access e1" using acc by (simp_all add: e1_def)
    from put_slot_same_object [OF k1(2) look(2) refl] obtain y where y: "put_slot dst_t (nat r div 4) e1 s1 = Some y" "kept s1 y"
      "hmap dst_t y = (hmap dst_t s1)(r \<mapsto> e1)" "\<forall>u. u \<noteq> dst_t \<longrightarrow> hmap u y = hmap u s1" "ob_heap y = ob_heap s1"
      "entry_at dst_t (nat r div 4) s1 = Some e1" by auto
    have m: "dup_made dst_t r e1 x y"
      using r y(3-5) h(1) handles_eq [of dst_t y x r "Some e1"] kept_trans [OF k1(1) y(2)] by (auto simp: dup_made_def kept_def e1_def)
    have "pinned b y" using y(5) r(6) h(2,3) by (simp add: pinned_def word_Suc)
    then have st: "steady b x y" using steady_kept [OF kept_trans [OF k1(1) y(2)]] by blast
    define z where "z = others y"
    have z: "ob_inv z" "pinned b z" "dom (ob_tables z) = dom (ob_tables x)" using steady_trans [OF st env [OF st]] by (simp_all add: steady_def z_def)
    have eq: "dup_commit mem others src_t sh dst_t b type access ceiling attrs options x = do {
       (rc, s) \<leftarrow> (if close then ObpFreeHandle src_t sh z else Some (0, z));
       if rc \<noteq> 0 then do {
         de \<leftarrow> ObpLookupHandle dst_t r s;
         s \<leftarrow> (case de of None \<Rightarrow> Some s | Some i \<Rightarrow> do {
                 e \<leftarrow> entry_at dst_t i s;
                 put_slot dst_t i (e\<lparr>attributes := attributes e AND NOT OBJ_PROTECT_CLOSE\<rparr>) s });
         (rc2, s) \<leftarrow> ObpFreeHandle dst_t r s;
         dup_fail b s }
       else do {
         let s = (if type \<noteq> 0 then log_posts OB_OPERATION_HANDLE_DUPLICATE b type (granted_access e1) s else s);
         (q, s) \<leftarrow> ObDereferenceObject b s;
         Some (0, Some r, s) } }"
      using s1(1) r(1) look(1) y(1,6) cap by (simp add: dup_commit_def INVALID_HANDLE_VALUE_def z_def close_def)
    have "\<exists>st out s'. dup_commit mem others src_t sh dst_t b type access ceiling attrs options x = Some (st, out, s') \<and> ob_inv s' \<and>
      dom (ob_tables s') = dom (ob_tables z) \<and> dup_finished close src_t sh dst_t r b z st out s'"
    proof (cases "close \<and> \<not> (\<exists>e. hmap src_t z sh = Some e \<and> closable e)")
      case True
      obtain ht where "ob_tables z src_t = Some ht" using t(1) z(3) by auto
      then have "ObpFreeHandle src_t sh z = Some (-1, z)" using True by (intro ObpFreeHandle_refused [OF z(1)]) (auto split: option.splits)
      then show ?thesis unfolding eq using True rollback_eq [OF z(1,2), of dst_t r] t(2) z(3) by (auto simp: dup_finished_def)
    next
      case False
      obtain s2 where s2: "(if close then ObpFreeHandle src_t sh z else Some (0, z)) = Some (0, s2)" "steady b z s2"
        "handles s2 = (if close then without src_t sh (handles z) else handles z)" "ob_heap s2 = (if close then closed_heap src_t sh z else ob_heap z)"
      proof (cases close)
        case True
        with False obtain e where "hmap src_t z sh = Some e" "closable e" by blast
        from close_pinned [OF z(1,2) this] True that show ?thesis by auto
      qed (use z(1,2) that in \<open>simp add: steady_def\<close>)
      have i2: "ob_inv s2" "pinned b s2" "dom (ob_tables s2) = dom (ob_tables z)" using s2(2) by (simp_all add: steady_def)
      from dup_publish [OF i2(1,2), of type OB_OPERATION_HANDLE_DUPLICATE "granted_access e1"] show ?thesis
        unfolding eq using False s2 i2(3) by (auto simp: dup_finished_def Let_def)
    qed
    then show ?thesis using False a m z(3) unfolding z_def by simp blast
  qed
qed

section \<open>The whole service\<close>

text \<open>The rights the duplicate ends up with, \<^term>\<open>None\<close> where a callback stripped the last one.\<close>

definition dup_access :: "u32 \<Rightarrow> u32 \<Rightarrow> HANDLE_TABLE_ENTRY \<Rightarrow> ob_state \<Rightarrow> u32 option" where
  "dup_access options desired e s =
     (let ceiling = request_ceiling options desired (granted_access e);
          type = hdr_type (the (ob_heap s (e_object e)));
          (st, acc) = (if type \<noteq> 0 then ob_invoke_pre_callbacks OB_OPERATION_HANDLE_DUPLICATE (e_object e) type ceiling (ob_callbacks s)
                       else (0, ceiling))
      in if st \<noteq> 0 then None else Some (acc AND ceiling))"

lemma request_ceiling_le: "request_ceiling options desired g AND g = request_ceiling options desired g"
  by (simp add: request_ceiling_def and.assoc)

lemma dup_access_le: "dup_access options desired e s = Some a \<Longrightarrow> a AND request_ceiling options desired (granted_access e) = a"
  by (auto simp: dup_access_def Let_def and.assoc split: if_splits prod.splits)

lemma dup_access_bounds:
  assumes "dup_access options desired e s = Some a"
  shows "a AND granted_access e = a"
    "options AND DUPLICATE_SAME_ACCESS = 0 \<and> desired AND MAXIMUM_ALLOWED = 0 \<longrightarrow> a AND desired = a"
proof -
  have c: "a AND request_ceiling options desired (granted_access e) = a" by (rule dup_access_le [OF assms])
  then show "a AND granted_access e = a" using request_ceiling_le by (metis and.assoc)
  show "options AND DUPLICATE_SAME_ACCESS = 0 \<and> desired AND MAXIMUM_ALLOWED = 0 \<longrightarrow> a AND desired = a"
  proof
    assume "options AND DUPLICATE_SAME_ACCESS = 0 \<and> desired AND MAXIMUM_ALLOWED = 0"
    then have "a AND (desired AND granted_access e) = a" using c by (simp add: request_ceiling_def)
    then show "a AND desired = a" by (metis and.assoc and.commute and.right_idem)
  qed
qed

lemma entry_at_hmap: "hmap t s h = Some e \<Longrightarrow> entry_at t (nat h div 4) s = Some e"
  using hmap_Some [of t s h e] by (metis (no_types, lifting) bind.bind_lunit entry_at_def slot_def)

text \<open>The state with a reference for the call, which the callbacks see.\<close>

definition pin :: "nat \<Rightarrow> ob_state \<Rightarrow> ob_state" where
  "pin b s = put_header b ((the (ob_heap s b))\<lparr>ref_count := ref_count (the (ob_heap s b)) + 1\<rparr>) s"

lemma pin_steady:
  assumes "ob_inv s" "ob_heap s b = Some h" "unat (ref_count h) < 2 ^ 31 - 1"
  shows "ObReferenceObject b s = Some (pin b s)" "steady b s (pin b s)" "handles (pin b s) = handles s" "ob_callbacks (pin b s) = ob_callbacks s"
proof -
  have k: "ObReferenceObject b s = Some (pin b s)" "kept s (pin b s)"
    using ObReferenceObject_inv [OF assms] assms(2) by (auto simp: pin_def)
  then show "ObReferenceObject b s = Some (pin b s)" "ob_callbacks (pin b s) = ob_callbacks s" by (simp_all add: kept_def)
  have "unat (handle_count h) < unat (ref_count h + 1)" using header_of [OF assms(1,2)] assms(3) by (simp add: header_ok_def word_Suc)
  then have "pinned b (pin b s)" using assms(2) by (simp add: pinned_def pin_def)
  then show "steady b s (pin b s)" using steady_kept [OF k(2)] by blast
  show "handles (pin b s) = handles s" by (rule handles_tables) (simp add: pin_def)
qed

text \<open>The source handle still names the object after the callbacks, and may be closed if that is asked for.\<close>

definition revalidated :: "bool \<Rightarrow> nat \<Rightarrow> int \<Rightarrow> nat \<Rightarrow> ob_state \<Rightarrow> bool" where
  "revalidated close t h b x \<longleftrightarrow> (\<exists>e. hmap t x h = Some e \<and> e_object e = b \<and> (close \<longrightarrow> closable e))"

lemma NtDuplicateObject_eq:
  fixes options :: u32
  assumes inv: "ob_inv s" and t: "src_t \<noteq> 0" "dst_t \<noteq> 0" "src_t \<in> dom (ob_tables s)"
    and e: "hmap src_t s sh = Some e" and h: "ob_heap s (e_object e) = Some h" "unat (ref_count h) < 2 ^ 31 - 1"
  defines "close \<equiv> options AND DUPLICATE_CLOSE_SOURCE \<noteq> 0" and "b \<equiv> e_object e"
  assumes cl: "close \<longrightarrow> closable e" and cb: "steady b s (callbacks (pin b s))"
  defines "x \<equiv> callbacks (pin b s)"
  shows "NtDuplicateObject mem callbacks others src_t sh dst_t True desired attrs options s =
     (case dup_access options desired e s of
        None \<Rightarrow> dup_fail b x
      | Some a \<Rightarrow> if revalidated close src_t sh b x
                  then dup_commit mem others src_t sh dst_t b (hdr_type h) a (request_ceiling options desired (granted_access e)) attrs options x
                  else dup_fail b x)"
proof -
  obtain ht where ht: "ob_tables s src_t = Some ht" using t(3) by auto
  note p = pin_steady [OF inv h, folded b_def]
  have x: "ob_inv x" "dom (ob_tables x) = dom (ob_tables s)" using cb by (simp_all add: steady_def x_def)
  obtain hx where hx: "ob_tables x src_t = Some hx" using t(3) x(2) by auto
  have ty: "hdr_type h \<noteq> 0" using header_of [OF inv h(1)] by (auto simp: header_ok_def typed_def type_at_def split: if_splits)
  have obj: "e_object e \<noteq> 0" by (rule heap_nonzero [OF inv h(1)])
  let ?c = "request_ceiling options desired (granted_access e)"
  obtain st acc where pre: "ob_invoke_pre_callbacks OB_OPERATION_HANDLE_DUPLICATE b (hdr_type h) ?c (ob_callbacks s) = (st, acc)" by fastforce
  have da: "dup_access options desired e s = (if st \<noteq> 0 then None else Some (acc AND ?c))"
    using pre h(1) ty by (simp add: dup_access_def b_def)
  have look: "ObpLookupHandle src_t sh s = Some (Some (nat sh div 4))" "entry_at src_t (nat sh div 4) s = Some e"
    using ObpLookupHandle_eq [OF inv ht, of sh] e entry_at_hmap [OF e] by simp_all
  have run: "NtDuplicateObject mem callbacks others src_t sh dst_t True desired attrs options s =
     (if st \<noteq> 0 then dup_fail b x else do {
        re \<leftarrow> ObpLookupHandle src_t sh x;
        case re of None \<Rightarrow> dup_fail b x
        | Some j \<Rightarrow> do {
            e2 \<leftarrow> entry_at src_t j x;
            if e_object e2 \<noteq> b \<or> close \<and> attributes e2 AND OBJ_PROTECT_CLOSE \<noteq> 0 then dup_fail b x
            else dup_commit mem others src_t sh dst_t b (hdr_type h) (acc AND ?c) ?c attrs options x } })"
    using t(1,2) look h(1) obj cl p(1,4) ty pre
    unfolding close_def b_def x_def by (auto simp: NtDuplicateObject_def Let_def closable_def)
  show ?thesis
  proof (cases "hmap src_t x sh")
    case None
    then show ?thesis using run da ObpLookupHandle_eq [OF x(1) hx, of sh] by (simp add: revalidated_def)
  next
    case (Some e2)
    then show ?thesis using run da ObpLookupHandle_eq [OF x(1) hx, of sh] entry_at_hmap [OF Some]
      by (simp add: revalidated_def closable_def)
  qed
qed

text \<open>The call on every branch.\<close>

definition dup_result :: "(u32 \<Rightarrow> nat) \<Rightarrow> (ob_state \<Rightarrow> ob_state) \<Rightarrow> (ob_state \<Rightarrow> ob_state) \<Rightarrow> nat \<Rightarrow> int \<Rightarrow> nat \<Rightarrow> u32 \<Rightarrow> u32 \<Rightarrow> u32 \<Rightarrow> ob_state \<Rightarrow>
    int \<Rightarrow> int option \<Rightarrow> ob_state \<Rightarrow> bool" where
  "dup_result mem callbacks others src_t sh dst_t desired attrs options s st out s' \<longleftrightarrow>
     (let close = options AND DUPLICATE_CLOSE_SOURCE \<noteq> 0 in
      case hmap src_t s sh of
        None \<Rightarrow> st = -1 \<and> out = None \<and> s' = s
      | Some e \<Rightarrow>
          if close \<and> \<not> closable e then st = -1 \<and> out = None \<and> s' = s
          else
            let b = e_object e; x = callbacks (pin b s) in
            case dup_access options desired e s of
              None \<Rightarrow> dup_undone b x st out s'
            | Some a \<Rightarrow>
                if \<not> revalidated close src_t sh b x \<or> alloc_refused mem dst_t (the (open_access False b a x)) x then dup_undone b x st out s'
                else \<exists>new y. dup_made dst_t new \<lparr>e_object = b, granted_access = a, attributes = attrs\<rparr> x y \<and>
                       dup_finished close src_t sh dst_t new b (others y) st out s')"

lemma dup_spec:
  fixes options :: u32
  assumes inv: "ob_inv s" and t: "src_t \<noteq> 0" "dst_t \<noteq> 0" "src_t \<in> dom (ob_tables s)" "dst_t \<in> dom (ob_tables s)"
    and refs: "\<And>b h. ob_heap s b = Some h \<Longrightarrow> unat (ref_count h) < 2 ^ 31 - 1"
    and cb: "\<And>e. hmap src_t s sh = Some e \<Longrightarrow> steady (e_object e) s (callbacks (pin (e_object e) s)) \<and>
      (\<forall>h. ob_heap (callbacks (pin (e_object e) s)) (e_object e) = Some h \<longrightarrow> unat (ref_count h) < 2 ^ 31 - 1)"
    and ot: "\<And>e y. hmap src_t s sh = Some e \<Longrightarrow> steady (e_object e) s y \<Longrightarrow> steady (e_object e) y (others y)"
  shows "\<exists>st out s'. NtDuplicateObject mem callbacks others src_t sh dst_t True desired attrs options s = Some (st, out, s') \<and> ob_inv s' \<and>
    dom (ob_tables s') = dom (ob_tables s) \<and> dup_result mem callbacks others src_t sh dst_t desired attrs options s st out s'"
proof (cases "hmap src_t s sh")
  case None
  obtain ht where ht: "ob_tables s src_t = Some ht" using t(3) by auto
  then show ?thesis using None inv ObpLookupHandle_eq [OF inv ht, of sh] by (simp add: NtDuplicateObject_def dup_result_def)
next
  case (Some e)
  let ?cl = "options AND DUPLICATE_CLOSE_SOURCE \<noteq> 0" and ?b = "e_object e"
  let ?x = "callbacks (pin ?b s)"
  obtain h where h: "ob_heap s ?b = Some h" "unat (ref_count h) < 2 ^ 31 - 1" using handle_live [OF inv Some] refs by blast
  show ?thesis
  proof (cases "?cl \<and> \<not> closable e")
    case True
    obtain ht where ht: "ob_tables s src_t = Some ht" using t(3) by auto
    show ?thesis using True Some h(1) inv ObpLookupHandle_eq [OF inv ht, of sh] entry_at_hmap [OF Some]
        heap_nonzero [OF inv h(1)] by (simp add: NtDuplicateObject_def dup_result_def closable_def Let_def)
  next
    case False
    then have cl: "?cl \<longrightarrow> closable e" by blast
    have x: "steady ?b s ?x" "ob_inv ?x" "pinned ?b ?x" "dom (ob_tables ?x) = dom (ob_tables s)" using cb [OF Some] by (simp_all add: steady_def)
    note eq = NtDuplicateObject_eq [where callbacks = callbacks and mem = mem and others = others and desired = desired and attrs = attrs, OF inv t(1-3) Some h cl x(1)]
    have fail: "\<exists>s'. dup_fail ?b ?x = Some (-1, None, s') \<and> ob_inv s' \<and> dom (ob_tables s') = dom (ob_tables s) \<and> dup_undone ?b ?x (-1) None s'"
      using dup_fail_eq [OF x(2,3)] x(4) by (auto simp: dup_undone_def kept_def)
    show ?thesis
    proof (cases "dup_access options desired e s")
      case None
      then show ?thesis using eq fail Some False by (auto simp: dup_result_def Let_def)
    next
      case a: (Some a)
      show ?thesis
      proof (cases "revalidated ?cl src_t sh ?b ?x")
        case False
        then show ?thesis using eq fail Some cl a by (auto simp: dup_result_def Let_def)
      next
        case True
        obtain h' where h': "ob_heap ?x ?b = Some h'" "unat (handle_count h') < unat (ref_count h')" "unat (ref_count h') < 2 ^ 31 - 1"
          using x(3) cb [OF Some] by (auto simp: pinned_def)
        have env: "steady ?b y (others y)" if "steady ?b ?x y" for y using ot [OF Some steady_trans [OF x(1) that]] .
        from dup_commit_eq [OF x(2) _ _ h' dup_access_le [OF a] env, of src_t dst_t mem sh "hdr_type h" attrs options]
        obtain st out s' where c: "dup_commit mem others src_t sh dst_t ?b (hdr_type h) a (request_ceiling options desired (granted_access e)) attrs options ?x = Some (st, out, s')"
          "ob_inv s'" "dom (ob_tables s') = dom (ob_tables s)"
          "if alloc_refused mem dst_t (the (open_access False ?b a ?x)) ?x then dup_undone ?b ?x st out s'
           else \<exists>new y. dup_made dst_t new \<lparr>e_object = ?b, granted_access = a, attributes = attrs\<rparr> ?x y \<and> dup_finished ?cl src_t sh dst_t new ?b (others y) st out s'"
          using t(3,4) x(4) by auto
        have "dup_result mem callbacks others src_t sh dst_t desired attrs options s st out s'"
          unfolding dup_result_def Let_def Some option.case(2) if_not_P [OF False] a using True c(4) by (simp only: if_False not_True_eq_False simp_thms)
        then show ?thesis using eq True a c(1-3) by auto
      qed
    qed
  qed
qed

section \<open>Without interference\<close>

text \<open>When a duplication that nobody disturbs goes through.\<close>

definition dup_ok :: "(u32 \<Rightarrow> nat) \<Rightarrow> nat \<Rightarrow> int \<Rightarrow> nat \<Rightarrow> u32 \<Rightarrow> u32 \<Rightarrow> ob_state \<Rightarrow> bool" where
  "dup_ok mem src_t sh dst_t desired options s \<longleftrightarrow> (case hmap src_t s sh of None \<Rightarrow> False | Some e \<Rightarrow>
     (options AND DUPLICATE_CLOSE_SOURCE \<noteq> 0 \<longrightarrow> closable e) \<and>
     (case dup_access options desired e s of None \<Rightarrow> False
      | Some a \<Rightarrow> \<not> alloc_refused mem dst_t (the (open_access False (e_object e) a s)) s))"

lemma alloc_refused_tables: "ob_tables s' = ob_tables s \<Longrightarrow> alloc_refused mem t a s' = alloc_refused mem t a s"
  by (simp add: alloc_refused_def)

lemma open_access_pin: "ob_heap s b = Some h \<Longrightarrow> open_access False b a (pin b s) = open_access False b a s"
  by (simp add: open_access_def type_at_def put_header_def pin_def)

lemma unpinned_pin:
  assumes "ob_heap s b = Some h" "0 < unat (ref_count h)" "unat (ref_count h) < 2 ^ 31 - 2"
  shows "unpinned b (ob_heap (pin b s)) = ob_heap s"
proof -
  have "ref_count h \<noteq> 0" using assms(2) by auto
  then have "dropped (h\<lparr>ref_count := ref_count h + 1\<rparr>) = Some h" by (auto simp: dropped_def)
  then show ?thesis using assms(1) by (simp add: pin_def unpinned_def fun_upd_idem)
qed

lemma unpinned_made:
  assumes "ob_heap s b = Some h" "0 < unat (ref_count h)" "unat (ref_count h) < 2 ^ 31 - 2"
    "ob_heap y = (ob_heap (pin b s))(b \<mapsto> h\<lparr>ref_count := ref_count h + 1 + 1, handle_count := handle_count h + 1\<rparr>)"
  shows "unpinned b (ob_heap y) = (ob_heap s)(b \<mapsto> h\<lparr>ref_count := ref_count h + 1, handle_count := handle_count h + 1\<rparr>)"
    "hmap t y sh = Some e \<Longrightarrow> e_object e = b \<Longrightarrow> unpinned b (closed_heap t sh y) = ob_heap s"
proof -
  have z: "ref_count h \<noteq> 0" using assms(2) by auto
  have n: "ref_count h + 1 + 1 \<noteq> 1"
  proof
    assume "ref_count h + 1 + 1 = 1"
    then have "ref_count h + 1 = 0" by (simp add: add.commute)
    moreover have "unat (ref_count h + 1) = Suc (unat (ref_count h))" using assms(3) by (simp add: word_Suc)
    ultimately show False by simp
  qed
  have d: "dropped (h\<lparr>ref_count := ref_count h + 1 + 1, handle_count := c\<rparr>) = Some (h\<lparr>ref_count := ref_count h + 1, handle_count := c\<rparr>)" for c
    using n by (simp add: dropped_def)
  show "unpinned b (ob_heap y) = (ob_heap s)(b \<mapsto> h\<lparr>ref_count := ref_count h + 1, handle_count := handle_count h + 1\<rparr>)"
    using d [of "handle_count h + 1"] by (simp add: unpinned_def assms(4) pin_def)
  assume "hmap t y sh = Some e" "e_object e = b"
  then have "closed_heap t sh y = (ob_heap s)(b \<mapsto> h\<lparr>ref_count := ref_count h + 1\<rparr>)"
    using d [of "handle_count h"] by (simp add: closed_heap_def assms(4) pin_def Let_def)
  moreover have "dropped (h\<lparr>ref_count := ref_count h + 1\<rparr>) = Some h" using z by (auto simp: dropped_def)
  ultimately show "unpinned b (closed_heap t sh y) = ob_heap s" using assms(1) by (simp add: unpinned_def fun_upd_idem)
qed

lemma dup_quiet:
  fixes options :: u32
  assumes inv: "ob_inv s" and refs: "\<And>b h. ob_heap s b = Some h \<Longrightarrow> unat (ref_count h) < 2 ^ 31 - 2"
    and d: "dup_result mem (\<lambda>x. x) (\<lambda>y. y) src_t sh dst_t desired attrs options s st out s'"
  defines "close \<equiv> options AND DUPLICATE_CLOSE_SOURCE \<noteq> 0"
  shows "if dup_ok mem src_t sh dst_t desired options s
    then st = 0 \<and> (\<exists>e a new h m. hmap src_t s sh = Some e \<and> dup_access options desired e s = Some a \<and> out = Some new \<and> 0 < new \<and> new mod 4 = 0 \<and>
      hmap dst_t s new = None \<and> m = (handles s)(dst_t := (hmap dst_t s)(new \<mapsto> \<lparr>e_object = e_object e, granted_access = a, attributes = attrs\<rparr>)) \<and>
      handles s' = (if close then without src_t sh m else m) \<and> ob_heap s (e_object e) = Some h \<and>
      ob_heap s' = (if close then ob_heap s
                    else (ob_heap s)(e_object e \<mapsto> h\<lparr>ref_count := ref_count h + 1, handle_count := handle_count h + 1\<rparr>)))
    else st = -1 \<and> out = None \<and> handles s' = handles s \<and> ob_heap s' = ob_heap s"
proof (cases "hmap src_t s sh")
  case None
  then show ?thesis using d by (simp add: dup_result_def dup_ok_def)
next
  case (Some e)
  let ?b = "e_object e" and ?x = "pin (e_object e) s"
  obtain h where h: "ob_heap s ?b = Some h" using handle_live [OF inv Some] by blast
  have rc: "0 < unat (ref_count h)" "unat (ref_count h) < 2 ^ 31 - 2" using refs [OF h] header_of [OF inv h] by (simp_all add: header_ok_def)
  have hx: "handles ?x = handles s" "\<And>u. hmap u ?x = hmap u s" "ob_tables ?x = ob_tables s" "ob_heap ?x ?b = Some (h\<lparr>ref_count := ref_count h + 1\<rparr>)"
    using handles_tables [of ?x s] hmap_tables [of ?x s] h by (simp_all add: pin_def)
  have undone: "st = -1 \<and> out = None \<and> handles s' = handles s \<and> ob_heap s' = ob_heap s" if "dup_undone ?b ?x st out s'"
    using that unpinned_pin [OF h rc] hx(1) by (simp add: dup_undone_def)
  show ?thesis
  proof (cases "close \<and> \<not> closable e")
    case True
    then show ?thesis using d Some by (simp add: dup_result_def dup_ok_def close_def)
  next
    case False
    then have rv: "revalidated close src_t sh ?b ?x" using Some hx(2) by (auto simp: revalidated_def)
    note no = d [unfolded dup_result_def Let_def Some option.case(2) close_def [symmetric] if_not_P [OF False]]
    show ?thesis
    proof (cases "dup_access options desired e s")
      case None
      then show ?thesis using no undone Some by (simp add: dup_ok_def)
    next
      case a: (Some a)
      have al: "alloc_refused mem dst_t (the (open_access False ?b a ?x)) ?x = alloc_refused mem dst_t (the (open_access False ?b a s)) s"
        using alloc_refused_tables [OF hx(3)] open_access_pin [OF h] by simp
      show ?thesis
      proof (cases "alloc_refused mem dst_t (the (open_access False ?b a s)) s")
        case True
        then show ?thesis using no undone Some a al by (simp add: dup_ok_def)
      next
        case ok: False
        then have dok: "dup_ok mem src_t sh dst_t desired options s" using Some a False by (auto simp: dup_ok_def close_def)
        let ?e = "\<lparr>e_object = ?b, granted_access = a, attributes = attrs\<rparr>"
        obtain new y where y: "dup_made dst_t new ?e ?x y" "dup_finished close src_t sh dst_t new ?b y st out s'" using no a al ok rv by auto
        have m: "0 < new" "new mod 4 = 0" "hmap dst_t s new = None" "handles y = (handles s)(dst_t := (hmap dst_t s)(new \<mapsto> ?e))"
          "ob_heap y = (ob_heap ?x)(?b \<mapsto> h\<lparr>ref_count := ref_count h + 1 + 1, handle_count := handle_count h + 1\<rparr>)"
          using y(1) hx by (auto simp: dup_made_def)
        have src: "hmap src_t y sh = Some e" using fun_cong [OF m(4), of src_t] Some m(3) by (auto simp: handles_def split: if_splits)
        note um = unpinned_made [OF h rc m(5)]
        have f: "st = 0 \<and> out = Some new \<and> handles s' = (if close then without src_t sh (handles y) else handles y) \<and>
            ob_heap s' = (if close then ob_heap s else (ob_heap s)(?b \<mapsto> h\<lparr>ref_count := ref_count h + 1, handle_count := handle_count h + 1\<rparr>))"
          using y(2) False src um(1) um(2) [OF src refl] by (auto simp: dup_finished_def)
        show ?thesis unfolding if_P [OF dok]
          using f Some a m(1-4) h by (intro conjI exI [of _ e] exI [of _ a] exI [of _ new] exI [of _ h] exI [of _ "handles y"]) simp_all
      qed
    qed
  qed
qed

end
