(* ===== verification/Ob_Manager.thy ===== *)
theory Ob_Manager
  imports Ob_Duplicate
begin

text \<open>
  The object manager as a whole. The interface that its clients rely on, a store of handles, is a locale; the
  handle tables implement it. The states that any sequence of operations reaches satisfy the invariant, and the
  properties of the handle operations hold in all of them.
\<close>

section \<open>The interface of a handle store\<close>

text \<open>Close a sequence of handles, ignoring the results.\<close>

primrec run_close :: "(int \<Rightarrow> 's \<Rightarrow> (int \<times> 's) option) \<Rightarrow> int list \<Rightarrow> 's \<Rightarrow> 's option" where
  "run_close f [] s = Some s"
| "run_close f (h # hs) s = do { (rc, s) \<leftarrow> f h s; run_close f hs s }"

text \<open>What is left of a map of handles when those of a set have been closed.\<close>

definition closed :: "('e \<Rightarrow> bool) \<Rightarrow> int set \<Rightarrow> (int \<rightharpoonup> 'e) \<Rightarrow> int \<rightharpoonup> 'e" where
  "closed guarded H m h = (case m h of None \<Rightarrow> None | Some e \<Rightarrow> if h \<in> H \<and> \<not> guarded e then None else Some e)"

locale handle_store =
  fixes ok :: "'s \<Rightarrow> bool" and table :: "'t \<Rightarrow> 's \<Rightarrow> bool" and view :: "'t \<Rightarrow> 's \<Rightarrow> int \<Rightarrow> 'e option"
    and guarded :: "'e \<Rightarrow> bool" and free :: "'t \<Rightarrow> int \<Rightarrow> 's \<Rightarrow> (int \<times> 's) option"
    and opened :: "'t \<Rightarrow> 'e \<Rightarrow> 's \<Rightarrow> int \<Rightarrow> 's \<Rightarrow> bool"
  assumes free_done: "ok s \<Longrightarrow> view t s h = Some e \<Longrightarrow> \<not> guarded e \<Longrightarrow>
      \<exists>s'. free t h s = Some (0, s') \<and> ok s' \<and> view t s' = (view t s)(h := None) \<and>
        (\<forall>u. u \<noteq> t \<longrightarrow> view u s' = view u s) \<and> (\<forall>u. table u s' = table u s)"
    and free_refused: "ok s \<Longrightarrow> table t s \<Longrightarrow> (case view t s h of None \<Rightarrow> True | Some e \<Rightarrow> guarded e) \<Longrightarrow>
      free t h s = Some (-1, s)"
    and opened_view: "ok s \<Longrightarrow> opened t e s h s' \<Longrightarrow> ok s' \<and> view t s h = None \<and> view t s' = (view t s)(h \<mapsto> e) \<and>
        (\<forall>u. u \<noteq> t \<longrightarrow> view u s' = view u s) \<and> (\<forall>u. table u s' = table u s)"
begin

lemma free_twice:
  assumes "ok s" "table t s" "view t s h = Some e" "\<not> guarded e"
  shows "\<exists>s'. free t h s = Some (0, s') \<and> free t h s' = Some (-1, s')"
  using free_done [OF assms(1,3,4)] assms(2) free_refused by (metis fun_upd_same option.simps(4))

lemma open_free:
  assumes "ok s" "opened t e s h s'" "\<not> guarded e"
  shows "\<exists>s''. free t h s' = Some (0, s'') \<and> ok s'' \<and> (\<forall>u. view u s'' = view u s)"
proof -
  note o = opened_view [OF assms(1,2)]
  then obtain s'' where "free t h s' = Some (0, s'')" "ok s''" "view t s'' = (view t s')(h := None)"
    "\<forall>u. u \<noteq> t \<longrightarrow> view u s'' = view u s'" using free_done [of s' t h e] assms(3) by auto
  moreover have "(view t s')(h := None) = view t s" using o by (auto simp: fun_eq_iff)
  ultimately show ?thesis using o by metis
qed

lemma run_close_view:
  assumes "ok s" "table t s"
  shows "\<exists>s'. run_close (free t) hs s = Some s' \<and> ok s' \<and> table t s' \<and> view t s' = closed guarded (set hs) (view t s) \<and>
    (\<forall>u. u \<noteq> t \<longrightarrow> view u s' = view u s)"
  using assms
proof (induction hs arbitrary: s)
  case Nil
  then show ?case by (auto simp: closed_def fun_eq_iff split: option.split)
next
  case (Cons h hs)
  obtain rc s1 where s1: "free t h s = Some (rc, s1)" "ok s1" "table t s1" "view t s1 = closed guarded {h} (view t s)"
    "\<forall>u. u \<noteq> t \<longrightarrow> view u s1 = view u s"
  proof (cases "case view t s h of None \<Rightarrow> True | Some e \<Rightarrow> guarded e")
    case True
    then have "closed guarded {h} (view t s) = view t s" by (auto simp: closed_def fun_eq_iff split: option.splits)
    with True show ?thesis using that free_refused [OF Cons.prems True] Cons.prems by simp
  next
    case False
    then obtain e where e: "view t s h = Some e" "\<not> guarded e" by (cases "view t s h") auto
    then have "closed guarded {h} (view t s) = (view t s)(h := None)" by (auto simp: closed_def fun_eq_iff split: option.splits)
    with e show ?thesis using that free_done [OF Cons.prems(1) e] Cons.prems(2) by auto
  qed
  have "closed guarded (set hs) (closed guarded {h} (view t s)) = closed guarded (set (h # hs)) (view t s)"
    by (auto simp: closed_def fun_eq_iff split: option.split)
  then show ?case using Cons.IH [OF s1(2,3)] s1 by auto
qed

end

text \<open>The handle tables of the object manager are such a store.\<close>

definition ob_table :: "nat \<Rightarrow> ob_state \<Rightarrow> bool" where
  "ob_table t s \<longleftrightarrow> t \<in> dom (ob_tables s)"

definition ob_opened :: "nat \<Rightarrow> HANDLE_TABLE_ENTRY \<Rightarrow> ob_state \<Rightarrow> int \<Rightarrow> ob_state \<Rightarrow> bool" where
  "ob_opened t e s h s' \<longleftrightarrow> ob_table t s \<and> h \<noteq> INVALID_HANDLE_VALUE \<and>
     (\<exists>hd. ob_heap s (e_object e) = Some hd \<and> unat (ref_count hd) < 2 ^ 31 - 1) \<and>
     (\<exists>mem fire access. open_access fire (e_object e) access s = Some (Some (granted_access e)) \<and>
        obp_allocate_handle_inner mem t (e_object e) access (attributes e) fire s = Some (h, s'))"

lemma ob_opened_view:
  assumes inv: "ob_inv s" and op: "ob_opened t e s h s'"
  shows "kept s s' \<and> hmap t s h = None \<and> hmap t s' = (hmap t s)(h \<mapsto> e) \<and> (\<forall>u. u \<noteq> t \<longrightarrow> hmap u s' = hmap u s)"
proof -
  obtain hh mem fire access where t: "t \<in> dom (ob_tables s)" and h: "h \<noteq> -1"
    and hh: "ob_heap s (e_object e) = Some hh" "unat (ref_count hh) < 2 ^ 31 - 1"
    and a: "open_access fire (e_object e) access s = Some (Some (granted_access e))"
    and eq: "obp_allocate_handle_inner mem t (e_object e) access (attributes e) fire s = Some (h, s')"
    using op by (auto simp: ob_opened_def ob_table_def INVALID_HANDLE_VALUE_def)
  have "alloc_spec mem t (e_object e) (Some (granted_access e)) (attributes e) s h s'"
    using allocate_eq [OF inv t heap_nonzero [OF inv hh(1)] hh a, of mem "attributes e"] eq by auto
  then show ?thesis using h by (auto simp: alloc_spec_def split: if_splits)
qed

interpretation ob: handle_store ob_inv ob_table hmap "\<lambda>e. \<not> closable e" ObpFreeHandle ob_opened
proof
  fix s t h e assume "ob_inv s" "hmap t s h = Some e" "\<not> \<not> closable e"
  then show "\<exists>s'. ObpFreeHandle t h s = Some (0, s') \<and> ob_inv s' \<and> hmap t s' = (hmap t s)(h := None) \<and>
        (\<forall>u. u \<noteq> t \<longrightarrow> hmap u s' = hmap u s) \<and> (\<forall>u. ob_table u s' = ob_table u s)"
    using ObpFreeHandle_kept [of s t h e] by (auto simp: kept_def ob_table_def)
next
  fix s t h assume "ob_inv s" "ob_table t s" "case hmap t s h of None \<Rightarrow> True | Some e \<Rightarrow> \<not> closable e"
  then show "ObpFreeHandle t h s = Some (-1, s)" using ObpFreeHandle_refused by (auto simp: ob_table_def)
next
  fix s t e h s' assume "ob_inv s" "ob_opened t e s h s'"
  then show "ob_inv s' \<and> hmap t s h = None \<and> hmap t s' = (hmap t s)(h \<mapsto> e) \<and>
        (\<forall>u. u \<noteq> t \<longrightarrow> hmap u s' = hmap u s) \<and> (\<forall>u. ob_table u s' = ob_table u s)"
    using ob_opened_view by (auto simp: kept_def ob_table_def)
qed

section \<open>Reachable states\<close>

text \<open>
  A client may reference an object that is alive, may drop a reference that is not a handle's, hands a live
  object to the handle functions, initialises a table that has no array and lets a child inherit into an empty table. An
  address that an allocator returns is not in use. Reference counts stay below \<open>2^31\<close>. While a duplication runs its callbacks, and before it closes the source, the
  object manager may be taken to any reachable state with the same tables in which the reference of the call is still there. Everything else is unrestricted: any
  handle value, any table, any access, callbacks that come and go, and the task that runs.
\<close>

definition room :: "nat \<Rightarrow> ob_state \<Rightarrow> bool" where
  "room k s \<longleftrightarrow> (\<forall>b h. ob_heap s b = Some h \<longrightarrow> unat (ref_count h) + k < 2 ^ 31)"

inductive ob_reach :: "ob_state \<Rightarrow> bool" where
  reach_start: "ob_heap s = Map.empty \<Longrightarrow> finite (dom (ob_tables s)) \<Longrightarrow>
    (\<And>t ht. ob_tables s t = Some ht \<Longrightarrow> entries ht = None) \<Longrightarrow> ob_reach s"
| reach_type: "ob_reach s \<Longrightarrow> ob_create_type tmpl s = Some (p, s') \<Longrightarrow> ob_reach s'"
| reach_object: "ob_reach s \<Longrightarrow> ob_alloc_object blk trc acl_buf type s = Some (b, s') \<Longrightarrow> ob_heap s (blk + 48) = None \<Longrightarrow> ob_reach s'"
| reach_ref: "ob_reach s \<Longrightarrow> room 1 s \<Longrightarrow> ObReferenceObject b s = Some s' \<Longrightarrow> ob_reach s'"
| reach_ref_safe: "ob_reach s \<Longrightarrow> room 1 s \<Longrightarrow> ObReferenceObjectByPointer b type access s = Some (st, s') \<Longrightarrow> ob_reach s'"
| reach_deref: "ob_reach s \<Longrightarrow> pinned b s \<Longrightarrow> ObDereferenceObject b s = Some (r, s') \<Longrightarrow> ob_reach s'"
| reach_temporary: "ob_reach s \<Longrightarrow> ObMakeTemporaryObject b s = Some s' \<Longrightarrow> ob_reach s'"
| reach_permanent: "ob_reach s \<Longrightarrow> ob_heap s b = Some h \<Longrightarrow>
    ob_reach (put_header b (h\<lparr>hdr_flags := hdr_flags h OR OB_FLAG_PERMANENT\<rparr>) s)"
| reach_security: "ob_reach s \<Longrightarrow> ObSetSecurityDescriptor b sd s = Some s' \<Longrightarrow> ob_reach s'"
| reach_callbacks: "ob_reach s \<Longrightarrow> ob_reach (s\<lparr>ob_callbacks := g\<rparr>)"
| reach_task: "ob_reach s \<Longrightarrow> ob_reach (s\<lparr>task_current := c\<rparr>)"
| reach_init: "ob_reach s \<Longrightarrow> ob_tables s t = Some ht \<Longrightarrow> entries ht = None \<Longrightarrow> unat quota \<le> 1048576 \<Longrightarrow>
    ob_handle_table_init blk quota t s = Some (st, s') \<Longrightarrow> ob_reach s'"
| reach_destroy: "ob_reach s \<Longrightarrow> ob_handle_table_destroy t s = Some s' \<Longrightarrow> ob_reach s'"
| reach_limit: "ob_reach s \<Longrightarrow> ob_handle_table_set_limit t lim s = Some s' \<Longrightarrow> ob_reach s'"
| reach_handle: "ob_reach s \<Longrightarrow> room 1 s \<Longrightarrow> ob_heap s b \<noteq> None \<Longrightarrow>
    obp_allocate_handle_inner mem t b access attrs fire s = Some (h, s') \<Longrightarrow> ob_reach s'"
| reach_free: "ob_reach s \<Longrightarrow> ObpFreeHandle t h s = Some (st, s') \<Longrightarrow> ob_reach s'"
| reach_duplicate: "ob_reach s \<Longrightarrow> room 2 s \<Longrightarrow> src_t \<in> dom (ob_tables s) \<Longrightarrow> dst_t \<in> dom (ob_tables s) \<Longrightarrow>
    ob_reach x \<Longrightarrow> room 1 x \<Longrightarrow> dom (ob_tables x) = dom (ob_tables s) \<Longrightarrow> ob_reach z \<Longrightarrow> dom (ob_tables z) = dom (ob_tables s) \<Longrightarrow>
    (\<And>e. hmap src_t s sh = Some e \<Longrightarrow> pinned (e_object e) x \<and> pinned (e_object e) z) \<Longrightarrow>
    NtDuplicateObject mem (\<lambda>_. x) (\<lambda>_. z) src_t sh dst_t dst_ptr desired attrs options s = Some (st, out, s') \<Longrightarrow> ob_reach s'"
| reach_inherit: "ob_reach s \<Longrightarrow> room 1048577 s \<Longrightarrow> parent \<noteq> child \<Longrightarrow> hmap child s = Map.empty \<Longrightarrow>
    ob_handle_table_inherit mem parent child s = Some (n, s') \<Longrightarrow> ob_reach s'"

lemma room_at: "room k s \<Longrightarrow> ob_heap s b = Some h \<Longrightarrow> unat (ref_count h) + k < 2 ^ 31"
  by (simp add: room_def)

lemma keptD: "kept s s' \<Longrightarrow> ob_inv s'"
  by (simp add: kept_def)

subsection \<open>The invariant of every reachable state\<close>

lemma header_same_counts:
  "header_ok P n h \<Longrightarrow> ref_count h' = ref_count h \<Longrightarrow> handle_count h' = handle_count h \<Longrightarrow> hdr_type h' = hdr_type h \<Longrightarrow>
   header_ok P n h'"
  by (simp add: header_ok_def)

lemma put_same_counts:
  assumes "ob_inv s" "ob_heap s b = Some h" "ref_count h' = ref_count h" "handle_count h' = handle_count h" "hdr_type h' = hdr_type h"
  shows "ob_inv (put_header b h' s)"
  using put_header_inv [OF assms(1,2) header_same_counts [OF header_of [OF assms(1,2)] assms(3-5)]] by (rule keptD)

lemma ob_inv_reference:
  assumes "ob_inv s" "room 1 s" "ob_heap s b = Some h"
  shows "ob_inv (put_header b (h\<lparr>ref_count := ref_count h + 1\<rparr>) s)"
  using ObReferenceObject_inv [OF assms(1,3)] room_at [OF assms(2,3)] by (auto dest: keptD)

lemma ob_inv_allocate:
  assumes "ob_inv s" "room 1 s" "ob_heap s b \<noteq> None" "obp_allocate_handle_inner mem t b access attrs fire s = Some (h, s')"
  shows "ob_inv s'"
proof -
  obtain hh where hh: "ob_heap s b = Some hh" "unat (ref_count hh) < 2 ^ 31 - 1" using assms(3) room_at [OF assms(2)] by fastforce
  obtain a where a: "open_access fire b access s = Some a"
    using open_access_total [OF hh(1)] header_of [OF assms(1) hh(1)] by (auto simp: header_ok_def)
  have "t \<in> dom (ob_tables s)" using assms(4) by (auto simp: obp_allocate_handle_inner_def Option.bind_eq_Some_conv)
  from allocate_eq [OF assms(1) this heap_nonzero [OF assms(1) hh(1)] hh a, of mem attrs] assms(4)
  show ?thesis by (auto simp: alloc_spec_def kept_def)
qed

lemma ob_inv_duplicate:
  assumes "ob_inv s" "room 2 s" "src_t \<in> dom (ob_tables s)" "dst_t \<in> dom (ob_tables s)"
    and x: "ob_inv x" "room 1 x" "dom (ob_tables x) = dom (ob_tables s)" and z: "ob_inv z" "dom (ob_tables z) = dom (ob_tables s)"
    and p: "\<And>e. hmap src_t s sh = Some e \<Longrightarrow> pinned (e_object e) x \<and> pinned (e_object e) z"
    and eq: "NtDuplicateObject mem (\<lambda>_. x) (\<lambda>_. z) src_t sh dst_t dst_ptr desired attrs options s = Some (st, out, s')"
  shows "ob_inv s'"
proof (cases "src_t = 0 \<or> dst_t = 0 \<or> \<not> dst_ptr")
  case True
  then show ?thesis using assms(1) eq by (auto simp: NtDuplicateObject_def)
next
  case False
  then have nz: "src_t \<noteq> 0" "dst_t \<noteq> 0" and True: "dst_ptr" by auto
  have "unat (ref_count h) < 2 ^ 31 - 1" if "ob_heap s b = Some h" for b h using room_at [OF assms(2) that] by simp
  moreover have "steady (e_object e) s x \<and> (\<forall>h. ob_heap x (e_object e) = Some h \<longrightarrow> unat (ref_count h) < 2 ^ 31 - 1)"
    if "hmap src_t s sh = Some e" for e using x p [OF that] room_at [OF x(2)] by (fastforce simp: steady_def)
  moreover have "steady (e_object e) y z" if "hmap src_t s sh = Some e" "steady (e_object e) s y" for e y
    using z p [OF that(1)] that(2) by (simp add: steady_def)
  ultimately show ?thesis
    using dup_spec [OF assms(1) nz assms(3,4), of sh "\<lambda>_. x" "\<lambda>_. z" mem desired attrs options] eq True by force
qed

lemma ob_inv_free:
  assumes "ob_inv s" "ObpFreeHandle t h s = Some (st, s')" shows "ob_inv s'"
proof (cases "ob_tables s t")
  case None
  then show ?thesis using assms by (auto simp: ObpFreeHandle_def split: if_splits)
next
  case (Some ht)
  show ?thesis
  proof (cases "case hmap t s h of None \<Rightarrow> True | Some e \<Rightarrow> \<not> closable e")
    case True
    then show ?thesis using ObpFreeHandle_refused [OF assms(1) Some] assms by auto
  next
    case False
    then obtain e where "hmap t s h = Some e" "closable e" by (auto split: option.splits)
    from ObpFreeHandle_kept [OF assms(1) this] assms(2) show ?thesis by (auto dest: keptD)
  qed
qed

lemma ob_inv_inherit:
  assumes "ob_inv s" "room 1048577 s" "parent \<noteq> child" "hmap child s = Map.empty"
    "ob_handle_table_inherit mem parent child s = Some (n, s')"
  shows "ob_inv s'"
proof (cases "parent = 0 \<or> child = 0")
  case True
  then show ?thesis using assms by (auto simp: ob_handle_table_inherit_def)
next
  case False
  then obtain pt ct where t: "ob_tables s parent = Some pt" "ob_tables s child = Some ct"
    using assms(5) by (auto simp: ob_handle_table_inherit_def Option.bind_eq_Some_conv)
  show ?thesis
  proof (cases "entries pt = None \<or> entries ct = None")
    case True
    then show ?thesis using assms(1,5) t False by (auto simp: ob_handle_table_inherit_def split: option.splits)
  next
    case no: False
    then obtain pes ces where es: "entries pt = Some pes" "entries ct = Some ces" by auto
    have "tabs_ok (ob_tables s)" using assms(1) by (simp add: ob_inv_def)
    then have "length pes \<le> 1048577" using table_okD(3) t(1) es(1) by blast
    then have refs: "\<forall>b h. ob_heap s b = Some h \<longrightarrow> unat (ref_count h) + length pes < 2 ^ 31"
      using room_at [OF assms(2)] by fastforce
    have nz: "parent \<noteq> 0" "child \<noteq> 0" using False by auto
    from ob_handle_table_inherit_eq [of s parent child pt pes ct ces mem, OF assms(1,3) nz t(1) es(1) t(2) es(2) assms(4) refs] assms(5)
    show ?thesis by (auto dest: keptD)
  qed
qed

lemma ob_reach_inv: "ob_reach s \<Longrightarrow> ob_inv s"
proof (induction rule: ob_reach.induct)
  case (reach_start s)
  have "slots (ob_tables s) b = {}" for b using reach_start(3) by (fastforce simp: slots_def)
  then show ?case using reach_start by (auto simp: ob_inv_def tabs_ok_def table_ok_def heap_ok_def)
next
  case (reach_type s tmpl p s')
  then show ?case using ob_create_type_inv keptD by blast
next
  case (reach_object s blk trc acl_buf type b s')
  then show ?case using ob_alloc_object_inv keptD by blast
next
  case (reach_ref s b s')
  then show ?case using ob_inv_reference [of s b] by (auto simp: ObReferenceObject_def Option.bind_eq_Some_conv)
next
  case (reach_ref_safe s b type access st s')
  then show ?case using ob_inv_reference [of s b]
    by (auto simp: ObReferenceObjectByPointer_def ObReferenceObjectSafe_def Option.bind_eq_Some_conv split: if_splits)
next
  case (reach_deref s b r s')
  then show ?case using ObDereferenceObject_inv [of s b] keptD by fastforce
next
  case (reach_temporary s b s')
  then show ?case using put_same_counts [of s b] by (auto simp: ObMakeTemporaryObject_def Option.bind_eq_Some_conv)
next
  case (reach_permanent s b h)
  then show ?case using put_same_counts [of s b] by auto
next
  case (reach_security s b sd s')
  then show ?case using put_same_counts [of s b] by (auto simp: ObSetSecurityDescriptor_def Option.bind_eq_Some_conv split: if_splits)
next
  case (reach_callbacks s g)
  moreover have "typed (s\<lparr>ob_callbacks := g\<rparr>) = typed s" by (simp add: typed_def type_at_def fun_eq_iff)
  ultimately show ?case by (simp add: ob_inv_def)
next
  case (reach_task s c)
  then show ?case by (simp add: ob_inv_def)
next
  case (reach_init s t ht quota blk st s')
  then show ?case using ob_handle_table_init_inv [of s t ht quota blk] keptD by fastforce
next
  case (reach_destroy s t s')
  then obtain ht where "ob_tables s t = Some ht" by (auto simp: ob_handle_table_destroy_def Option.bind_eq_Some_conv)
  then show ?case using reach_destroy ob_handle_table_destroy_inv [of s t ht] keptD by fastforce
next
  case (reach_limit s t lim s')
  show ?case
  proof (cases "t = 0")
    case False
    then obtain ht where "ob_tables s t = Some ht" using reach_limit by (auto simp: ob_handle_table_set_limit_def Option.bind_eq_Some_conv)
    then show ?thesis using reach_limit ob_handle_table_set_limit_inv [of s t ht lim] keptD by fastforce
  qed (use reach_limit in \<open>simp add: ob_handle_table_set_limit_def\<close>)
next
  case (reach_handle s b mem t access attrs fire h s')
  then show ?case using ob_inv_allocate by blast
next
  case (reach_free s t h st s')
  then show ?case using ob_inv_free by blast
next
  case (reach_duplicate s src_t dst_t x z sh mem dst_ptr desired attrs options st out s')
  then show ?case
    using ob_inv_duplicate [of s src_t dst_t x z sh mem dst_ptr desired attrs options st out s'] by blast
next
  case (reach_inherit s parent child mem n s')
  then show ?case using ob_inv_inherit by blast
qed

end
