(* ===== verification/Ob_Properties.thy ===== *)
theory Ob_Properties
  imports Ob_Manager
begin

text \<open>
  The properties of the object manager, over the states its operations reach, and a concrete reachable state
  with one object and one open handle at which they apply.
\<close>

section \<open>A sample state\<close>

definition sample_type :: OBJECT_TYPE where
  "sample_type = \<lparr>ty_name = Some ''File'', ty_body_size = 64, ty_on_close = True, ty_on_delete = True, ty_on_open = None,
     ty_on_parse = False, ty_total_objects = 0, ty_total_handles = 0, ty_peak_objects = 0, ty_peak_handles = 0,
     ty_tracing_enabled = False\<rparr>"

definition no_table :: HANDLE_TABLE where
  "no_table = \<lparr>entries = None, entries_at = 0, capacity = 0, ht_count = 0, handle_limit = 0, quota_warned = False\<rparr>"

text \<open>One registered type, two tables without an array, no object.\<close>

definition w0 :: ob_state where
  "w0 = \<lparr>g_ob_types = [sample_type], g_ob_type_count = 1, other_types = Map.empty, ob_heap = Map.empty,
     ob_tables = [7 \<mapsto> no_table, 8 \<mapsto> no_table], ob_callbacks = cb_init,
     ob_default_sds = \<lparr>sd_blobs = replicate 4 [1], sd_sizes = replicate 4 0, sd_inited = True\<rparr>,
     task_current = None, ob_log = []\<rparr>"

text \<open>An object, then an array for each table, then a handle to the object in the first.\<close>

definition new_table :: "nat \<Rightarrow> HANDLE_TABLE" where
  "new_table blk = \<lparr>entries = Some (replicate 64 zero_entry), entries_at = blk, capacity = 64, ht_count = 0,
     handle_limit = 64, quota_warned = False\<rparr>"

definition new_header :: OBJECT_HEADER where
  "new_header = \<lparr>ref_count = 1, handle_count = 0, hdr_type = 1, hdr_name = None, hdr_security = SD_null,
     hdr_trace = 0, hdr_flags = 0\<rparr>"

definition w1 :: ob_state where "w1 = snd (the (ob_alloc_object 1000 0 [] 1 w0))"
definition w3 :: ob_state where
  "w3 = w1\<lparr>ob_log := ob_log w1 @ [Kmalloc 5000 1024, Kmalloc 6000 1024], ob_tables := [7 \<mapsto> new_table 5000, 8 \<mapsto> new_table 6000]\<rparr>"

lemmas w1_unfold = w1_def ob_alloc_object_def w0_def type_at_def sample_type_def sizeof_OBJECT_HEADER_def Let_def
  PMM_FRAME_SIZE_def attach_security_def SeCreateDefaultSD_def SE_SD_TYPE_DEFAULT_def SD_TYPE_COUNT_def log_event_def

lemma w1_eq: "ob_alloc_object 1000 0 [] 1 w0 = Some (1048, w1)"
  by (simp add: w1_unfold)

lemma w1_facts: "ob_tables w1 = [7 \<mapsto> no_table, 8 \<mapsto> no_table]" "ob_heap w1 = [1048 \<mapsto> new_header]" "ob_callbacks w1 = cb_init"
  by (simp_all add: w1_unfold new_header_def)

definition w2 :: ob_state where
  "w2 = w1\<lparr>ob_log := ob_log w1 @ [Kmalloc 5000 1024], ob_tables := [7 \<mapsto> new_table 5000, 8 \<mapsto> no_table]\<rparr>"

lemmas init_unfold = ob_handle_table_init_def put_table_def log_event_def HANDLE_TABLE_INIT_CAP_def
  sizeof_HANDLE_TABLE_ENTRY_def new_table_def

lemma w2_eq: "ob_handle_table_init 5000 64 7 w1 = Some (0, w2)"
  by (simp add: init_unfold w1_facts w2_def fun_upd_twist)

lemma w3_eq: "ob_handle_table_init 6000 64 8 w2 = Some (0, w3)"
  by (simp add: init_unfold w2_def w3_def fun_upd_twist)

lemma reach_w3: "ob_reach w3"
proof -
  have "ob_reach w0" by (rule reach_start) (auto simp: w0_def no_table_def split: if_splits)
  then have "ob_reach w1" by (rule reach_object [OF _ w1_eq]) (simp add: w0_def)
  then have "ob_reach w2" by (rule reach_init [where ht = no_table, OF _ _ _ _ w2_eq]) (simp_all add: w1_facts no_table_def)
  then show ?thesis by (rule reach_init [where ht = no_table, OF _ _ _ _ w3_eq]) (simp_all add: w2_def no_table_def)
qed

lemma w3_facts: "ob_tables w3 7 = Some (new_table 5000)" "ob_tables w3 8 = Some (new_table 6000)" "ob_heap w3 = [1048 \<mapsto> new_header]"
  "ob_callbacks w3 = cb_init"
  by (simp_all add: w3_def w1_facts)

lemma w3_access: "open_access True 1048 0x1F w3 = Some (Some 0x1F)"
  by (simp add: open_access_def w3_facts new_header_def ob_invoke_pre_callbacks_def cb_init_def)

definition w4 :: ob_state where "w4 = snd (the (ObpAllocateHandle (\<lambda>_. 0) 7 1048 0x1F 2 w3))"

definition sample_entry :: HANDLE_TABLE_ENTRY where
  "sample_entry = \<lparr>e_object = 1048, granted_access = 0x1F, attributes = 2\<rparr>"

lemma room_w3: "room 1048577 w3"
  by (simp add: room_def w3_facts new_header_def)

lemma w3_not_refused: "\<not> alloc_refused mem 7 (Some a) w3" "\<not> alloc_refused mem 8 (Some a) w3"
  by (simp_all add: alloc_refused_def w3_facts new_table_def full_and_stuck_def occupied_def zero_entry_def)

lemma w4_claim: "ObpAllocateHandle (\<lambda>_. 0) 7 1048 0x1F 2 w3 = claim_slot True 7 1 1048 0x1F 2 w3"
  by (simp add: ObpAllocateHandle_def obp_allocate_handle_inner_def w3_facts w3_access new_table_def
      scan_free.simps [of _ "Suc 0"] slot_def zero_entry_def)

lemma w4_eq: "ObpAllocateHandle (\<lambda>_. 0) 7 1048 0x1F 2 w3 = Some (4, w4)" "ob_reach w4" "hmap 7 w4 = [4 \<mapsto> sample_entry]" "hmap 8 w4 = Map.empty"
  "ob_heap w4 = [1048 \<mapsto> new_header\<lparr>ref_count := 2, handle_count := 1\<rparr>]" "ob_callbacks w4 = cb_init" "kept w3 w4"
proof -
  let ?es = "replicate 64 zero_entry"
  have inv: "ob_inv w3" by (rule ob_reach_inv [OF reach_w3])
  have es: "entries (new_table 5000) = Some ?es" by (simp add: new_table_def)
  have h: "ob_heap w3 1048 = Some new_header" "unat (ref_count new_header) < 2 ^ 31 - 1" by (simp_all add: w3_facts new_header_def)
  have i: "0 < (1 :: nat)" "1 < length ?es" "e_object (?es ! 1) = 0" "(1048 :: nat) \<noteq> 0" by (simp_all add: zero_entry_def)
  obtain s' where s': "claim_slot True 7 1 1048 0x1F 2 w3 = Some (4 * int 1, s')"
    "hmap 7 s' = (hmap 7 w3)(4 * int 1 \<mapsto> sample_entry)" "\<And>u. u \<noteq> 7 \<Longrightarrow> hmap u s' = hmap u w3"
    "ob_heap s' = (ob_heap w3)(1048 \<mapsto> new_header\<lparr>ref_count := ref_count new_header + 1, handle_count := handle_count new_header + 1\<rparr>)"
    "ob_inv s'" "typed s' = typed w3" "ob_callbacks s' = ob_callbacks w3" "dom (ob_tables s') = dom (ob_tables w3)"
    using claim_in [OF inv w3_facts(1) es i h, of True "0x1F" 2] unfolding sample_entry_def by metis
  have empty: "hmap 7 w3 = Map.empty" "hmap 8 w3 = Map.empty"
    by (auto simp: hmap_def w3_facts new_table_def zero_entry_def fun_eq_iff)
  have w4: "w4 = s'" using w4_claim s'(1) by (simp add: w4_def)
  then show eq: "ObpAllocateHandle (\<lambda>_. 0) 7 1048 0x1F 2 w3 = Some (4, w4)" using w4_claim s'(1) by simp
  show "ob_reach w4"
    by (rule reach_handle [OF reach_w3 _ _ eq [unfolded ObpAllocateHandle_def]])
      (simp_all add: room_def w3_facts new_header_def)
  show "hmap 7 w4 = [4 \<mapsto> sample_entry]" "hmap 8 w4 = Map.empty" using w4 s'(2,3) empty by simp_all
  show "ob_heap w4 = [1048 \<mapsto> new_header\<lparr>ref_count := 2, handle_count := 1\<rparr>]" "ob_callbacks w4 = cb_init" "kept w3 w4"
    using w4 s'(4-8) w3_facts(3,4) by (simp_all add: new_header_def kept_def)
qed

lemma w4_table_8: "ob_tables w4 8 = Some (new_table 6000)"
proof -
  have inv: "ob_inv w3" by (rule ob_reach_inv [OF reach_w3])
  have es: "entries (new_table 5000) = Some (replicate 64 zero_entry)" by (simp add: new_table_def)
  have h: "ob_heap w3 1048 = Some new_header" "unat (ref_count new_header) < 2 ^ 31 - 1" by (simp_all add: w3_facts new_header_def)
  have "0 < (1 :: nat)" "1 < length (replicate 64 zero_entry)" "e_object (replicate 64 zero_entry ! 1) = 0" "(1048 :: nat) \<noteq> 0"
    by (simp_all add: zero_entry_def)
  from claim_slot_eq [OF inv w3_facts(1) es this h, of True "0x1F" 2] w4_claim w3_facts(2) show ?thesis by (auto simp: w4_def)
qed

lemma w4_tables: "7 \<in> dom (ob_tables w4)" "8 \<in> dom (ob_tables w4)"
  using w4_eq(7) by (auto simp: kept_def w3_facts domIff)

lemma room_w4: "room 1048577 w4" "room 2 w4"
  by (simp_all add: room_def w4_eq(5))

section \<open>Handles and objects\<close>

text \<open>C2: handles never dangle. In every reachable state, looking up any handle value in any table either finds
  nothing or an entry whose object is alive, with a handle count that is exactly the number of slots that name
  the object and a reference count that is at least that; and closing any handle value and tearing down any table
  run to the end without touching a freed header or leaving an array.\<close>

theorem no_dangling_handles:
  assumes "ob_reach s" and "t \<in> dom (ob_tables s)"
  shows "(\<exists>r. ObpLookupHandle t h s = Some r \<and>
      (r = None \<or> (\<exists>e hh. entry_at t (the r) s = Some e \<and> ob_heap s (e_object e) = Some hh \<and>
         unat (handle_count hh) = card (slots (ob_tables s) (e_object e)) \<and> 0 < unat (handle_count hh) \<and>
         unat (handle_count hh) \<le> unat (ref_count hh)))) \<and>
    (\<exists>st s'. ObpFreeHandle t h s = Some (st, s')) \<and> (\<exists>s'. ob_handle_table_destroy t s = Some s')"
proof -
  note inv = ob_reach_inv [OF assms(1)]
  obtain ht where ht: "ob_tables s t = Some ht" using assms(2) by auto
  have "\<exists>st s'. ObpFreeHandle t h s = Some (st, s')"
    using ob.run_close_view [OF inv, of t "[h]"] assms(2) by (auto simp: ob_table_def Option.bind_eq_Some_conv)
  moreover have "\<exists>s'. ob_handle_table_destroy t s = Some s'" using ob_handle_table_destroy_inv [OF inv ht] by blast
  moreover have "\<exists>hh. entry_at t (nat h div 4) s = Some e \<and> ob_heap s (e_object e) = Some hh \<and>
      unat (handle_count hh) = card (slots (ob_tables s) (e_object e)) \<and> 0 < unat (handle_count hh) \<and>
      unat (handle_count hh) \<le> unat (ref_count hh)" if e: "hmap t s h = Some e" for e
  proof -
    obtain hh where hh: "ob_heap s (e_object e) = Some hh" using handle_live [OF inv e] by blast
    then show ?thesis using entry_at_hmap [OF e] handle_count_pos [OF inv e hh] header_of [OF inv hh] by (auto simp: header_ok_def)
  qed
  ultimately show ?thesis using ObpLookupHandle_eq [OF inv ht, of h] by (cases "hmap t s h") auto
qed

theorem no_dangling_handles_witness:
  "ob_reach w4 \<and> (\<exists>i. ObpLookupHandle 7 4 w4 = Some (Some i)) \<and> (\<exists>st s'. ObpFreeHandle 7 5 w4 = Some (st, s'))"
  using no_dangling_handles [OF w4_eq(2) w4_tables(1), of 5] w4_eq(2,3) w4_tables(1)
    ObpLookupHandle_eq [OF ob_reach_inv [OF w4_eq(2)], of 7 _ 4] by auto

lemma NtClose_eq: "t \<noteq> 0 \<Longrightarrow> NtClose t = ObpFreeHandle t"
  by (auto simp: fun_eq_iff NtClose_def ObpFreeHandle_def)

text \<open>C6: \<open>NtClose\<close> refines removal from a finite map. From any reachable state, closing any sequence of values in one
  table, valid or not, repeated or not, in any order, removes from the map of that table exactly the named
  handles that are not protected from close; a protected handle stays, and no other table changes. For one value, the result is 0 exactly if
  it names a handle that is not protected, and otherwise -1 with nothing changed.\<close>

theorem close_refines_map:
  assumes "ob_reach s" and "t \<in> dom (ob_tables s)" and "t \<noteq> 0"
  shows "(\<exists>s'. run_close (NtClose t) hs s = Some s' \<and> ob_inv s' \<and>
      hmap t s' = closed (\<lambda>e. attributes e AND OBJ_PROTECT_CLOSE \<noteq> 0) (set hs) (hmap t s) \<and>
      (\<forall>u. u \<noteq> t \<longrightarrow> hmap u s' = hmap u s)) \<and>
    (\<exists>st s'. NtClose t h s = Some (st, s') \<and>
      (if \<exists>e. hmap t s h = Some e \<and> attributes e AND OBJ_PROTECT_CLOSE = 0 then st = 0 else st = -1 \<and> s' = s))"
proof -
  note inv = ob_reach_inv [OF assms(1)]
  have e: "(\<lambda>e. \<not> closable e) = (\<lambda>e. attributes e AND OBJ_PROTECT_CLOSE \<noteq> 0)" by (simp add: closable_def)
  have t: "ob_table t s" using assms(2) by (simp add: ob_table_def)
  have "\<exists>st s'. ObpFreeHandle t h s = Some (st, s') \<and>
      (if \<exists>e. hmap t s h = Some e \<and> attributes e AND OBJ_PROTECT_CLOSE = 0 then st = 0 else st = -1 \<and> s' = s)"
  proof (cases "\<exists>e. hmap t s h = Some e \<and> closable e")
    case True
    then show ?thesis using ob.free_done [OF inv] by (fastforce simp: closable_def)
  next
    case False
    then show ?thesis using ob.free_refused [OF inv t, of h] by (auto simp: closable_def split: option.splits)
  qed
  then show ?thesis using ob.run_close_view [OF inv t, of hs] unfolding NtClose_eq [OF assms(3)] e by blast
qed

theorem close_refines_map_witness:
  "\<exists>s'. run_close (NtClose 7) [5, 4, 4] w4 = Some s' \<and> hmap 7 s' = Map.empty"
proof -
  have "closed (\<lambda>e. attributes e AND OBJ_PROTECT_CLOSE \<noteq> 0) (set [5, 4, 4]) (hmap 7 w4) = Map.empty"
    by (auto simp: closed_def w4_eq(3) sample_entry_def OBJ_PROTECT_CLOSE_def fun_eq_iff)
  then show ?thesis using close_refines_map [OF w4_eq(2) w4_tables(1), of "[5, 4, 4]" 4] by auto
qed

text \<open>C24: a process can use its whole quota. In a reachable state, if the guards grant access to a live object,
  memory is available and the table holds fewer handles than its limit (than 1048576 where it has none),
  then \<open>ObpAllocateHandle\<close> returns a handle: a positive multiple of four, at most 4194304, that was free, and from then on names the
  object with the access the guards left, every other handle being what it was.\<close>

theorem handle_quota_reachable:
  assumes "ob_reach s" and "room 1 s" and "ob_heap s b \<noteq> None" and "ob_tables s t = Some ht" and "entries ht \<noteq> None"
    and "open_access True b access s = Some (Some acc)" and "\<And>c. mem c \<noteq> 0"
    and "unat (ht_count ht) < (if handle_limit ht = 0 then 1048576 else unat (handle_limit ht))"
  shows "\<exists>r s'. ObpAllocateHandle mem t b access attrs s = Some (r, s') \<and> 0 < r \<and> r mod 4 = 0 \<and> r \<le> 4194304 \<and>
    hmap t s r = None \<and> hmap t s' = (hmap t s)(r \<mapsto> \<lparr>e_object = b, granted_access = acc, attributes = attrs\<rparr>) \<and>
    (\<forall>u. u \<noteq> t \<longrightarrow> hmap u s' = hmap u s)"
proof -
  note inv = ob_reach_inv [OF assms(1)]
  obtain hh where hh: "ob_heap s b = Some hh" "unat (ref_count hh) < 2 ^ 31 - 1" using assms(2,3) room_at [of 1 s b] by fastforce
  obtain es where es: "entries ht = Some es" using assms(5) by auto
  have tabs: "tabs_ok (ob_tables s)" using inv by (simp add: ob_inv_def)
  note tok = table_okD [OF tabs assms(4) es]
  have "\<not> alloc_refused mem t (Some acc) s"
    using assms(4,7,8) es tok(4) by (auto simp: alloc_refused_def full_and_stuck_def cap_ceiling_def word_le_nat_alt word_gt_0_unat split: if_splits)
  moreover obtain r s' where a: "ObpAllocateHandle mem t b access attrs s = Some (r, s')" "alloc_spec mem t b (Some acc) attrs s r s'"
    using allocate_eq [OF inv _ heap_nonzero [OF inv hh(1)] hh assms(6), of t mem attrs] assms(4) by (auto simp: ObpAllocateHandle_def)
  ultimately have r: "kept s s'" "4 \<le> r" "r mod 4 = 0" "hmap t s r = None" "\<forall>u. u \<noteq> t \<longrightarrow> hmap u s' = hmap u s"
    "hmap t s' = (hmap t s)(r \<mapsto> \<lparr>e_object = b, granted_access = acc, attributes = attrs\<rparr>)" by (auto simp: alloc_spec_def)
  have "r \<le> 4194304"
  proof -
    obtain ht' es' i where h: "ob_tables s' t = Some ht'" "entries ht' = Some es'" "i < length es'" "r = 4 * int i"
      using hmap_Some [of t s' r] r(6) by (metis fun_upd_same)
    have "tabs_ok (ob_tables s')" using r(1) by (simp add: kept_def ob_inv_def)
    from table_okD(3) [OF this h(1,2)] h(3,4) show ?thesis by simp
  qed
  then show ?thesis using a(1) r by (intro exI [of _ r] exI [of _ s']) auto
qed

theorem handle_quota_reachable_witness:
  "\<exists>r s'. ObpAllocateHandle (\<lambda>_. 9000) 7 1048 0x1F 2 w3 = Some (r, s') \<and> 0 < r \<and> hmap 7 s' r = Some sample_entry"
proof -
  have "room 1 w3" "ob_heap w3 1048 \<noteq> None" "entries (new_table 5000) \<noteq> None"
    "unat (ht_count (new_table 5000)) < (if handle_limit (new_table 5000) = 0 then 1048576 else unat (handle_limit (new_table 5000)))"
    "\<And>c. (\<lambda>_. 9000 :: nat) c \<noteq> 0"
    by (simp_all add: room_def w3_facts new_header_def new_table_def)
  from handle_quota_reachable [OF reach_w3 this(1,2) w3_facts(1) this(3) w3_access this(5,4), of 2]
  show ?thesis by (auto simp: sample_entry_def)
qed

section \<open>Duplication, inheritance and rundown\<close>




text \<open>C25: inheritance at process creation. Into a child whose table is empty, \<open>ob_handle_table_inherit\<close> copies, at the same
  handle value and with the same rights, exactly the handles of the parent that carry \<open>OBJ_INHERIT\<close> and lie below the
  capacity of the child's table, which never shrinks; it returns how many they are, and the parent and all other tables keep what they
  had. A handle is left out only if the child's table cannot grow any further, being at its ceiling or without memory for the next array. So with memory available, and a ceiling of the child
  above every inheritable handle, none is left out.\<close>

theorem ob_handle_table_inherit_correct:
  assumes "ob_reach s" and "room 1048577 s" and "parent \<noteq> child" "parent \<noteq> 0" "child \<noteq> 0"
    and "ob_tables s parent = Some pt" "entries pt \<noteq> None" and "ob_tables s child = Some ct" "entries ct \<noteq> None" "hmap child s = Map.empty"
  shows "\<exists>n s' ct'. ob_handle_table_inherit mem parent child s = Some (int n, s') \<and> ob_inv s' \<and>
    (\<forall>u. u \<noteq> child \<longrightarrow> hmap u s' = hmap u s) \<and> n = card (dom (hmap child s')) \<and>
    ob_tables s' child = Some ct' \<and> unat (capacity ct) \<le> unat (capacity ct') \<and>
    (\<forall>h. hmap child s' h = (if h < 4 * int (unat (capacity ct')) then inherited (hmap parent s h) else None)) \<and>
    ((\<exists>h. inherited (hmap parent s h) \<noteq> None \<and> 4 * int (unat (capacity ct')) \<le> h) \<longrightarrow>
       cap_ceiling ct \<le> unat (capacity ct') \<or> mem (of_nat (min (2 * unat (capacity ct')) (cap_ceiling ct))) = 0) \<and>
    ((\<forall>c. mem c \<noteq> 0) \<and> (\<forall>h e. inherited (hmap parent s h) = Some e \<longrightarrow> h < 4 * int (cap_ceiling ct)) \<longrightarrow>
       hmap child s' = (\<lambda>h. inherited (hmap parent s h)))"
proof -
  note inv = ob_reach_inv [OF assms(1)]
  obtain pes ces where es: "entries pt = Some pes" "entries ct = Some ces" using assms(7,9) by auto
  have "tabs_ok (ob_tables s)" using inv by (simp add: ob_inv_def)
  from table_okD(3) [OF this assms(6) es(1)]
  have refs: "\<forall>b h. ob_heap s b = Some h \<longrightarrow> unat (ref_count h) + length pes < 2 ^ 31"
    using room_at [OF assms(2)] by fastforce
  obtain n s' ct' where r: "ob_handle_table_inherit mem parent child s = Some (int n, s')" "kept s s'"
    "\<forall>u. u \<noteq> child \<longrightarrow> hmap u s' = hmap u s" "n = card (dom (hmap child s'))"
    "ob_tables s' child = Some ct'" "unat (capacity ct) \<le> unat (capacity ct')"
    "\<forall>h. hmap child s' h = (if h < 4 * int (unat (capacity ct')) then inherited (hmap parent s h) else None)"
    "(\<exists>h. inherited (hmap parent s h) \<noteq> None \<and> 4 * int (unat (capacity ct')) \<le> h) \<longrightarrow> stuck mem ct (unat (capacity ct'))"
    using ob_handle_table_inherit_eq [OF inv assms(3-6) es(1) assms(8) es(2) assms(10) refs, of mem] by blast
  have "hmap child s' = (\<lambda>h. inherited (hmap parent s h))"
    if "\<forall>c. mem c \<noteq> 0" "\<forall>h e. inherited (hmap parent s h) = Some e \<longrightarrow> h < 4 * int (cap_ceiling ct)"
  proof
    fix h
    show "hmap child s' h = inherited (hmap parent s h)"
    proof (cases "inherited (hmap parent s h)")
      case (Some e)
      have "h < 4 * int (unat (capacity ct'))"
      proof (rule ccontr)
        assume n: "\<not> ?thesis"
        then have "stuck mem ct (unat (capacity ct'))" using r(8) Some by fastforce
        then have "cap_ceiling ct \<le> unat (capacity ct')" using that(1) by (simp add: stuck_def)
        moreover have "h < 4 * int (cap_ceiling ct)" using that(2) Some by blast
        ultimately show False using n by linarith
      qed
      then show ?thesis using r(7) by simp
    qed (use r(7) in simp)
  qed
  then have "(\<forall>c. mem c \<noteq> 0) \<and> (\<forall>h e. inherited (hmap parent s h) = Some e \<longrightarrow> h < 4 * int (cap_ceiling ct)) \<longrightarrow>
       hmap child s' = (\<lambda>h. inherited (hmap parent s h))" by blast
  from this r(1,3-7) keptD [OF r(2)] r(8) [unfolded stuck_def] show ?thesis
    by (intro exI [of _ n] exI [of _ s'] exI [of _ ct'] conjI)
qed

theorem ob_handle_table_inherit_correct_witness:
  "\<exists>s'. ob_handle_table_inherit (\<lambda>_. 9000) 7 8 w4 = Some (1, s') \<and> hmap 8 s' = [4 \<mapsto> sample_entry]"
proof -
  have ne: "(7 :: nat) \<noteq> 8" "(7 :: nat) \<noteq> 0" "(8 :: nat) \<noteq> 0" by simp_all
  have inh: "(\<lambda>h. inherited (hmap 7 w4 h)) = [4 \<mapsto> sample_entry]"
    by (auto simp: inherited_def w4_eq(3) sample_entry_def OBJ_INHERIT_def fun_eq_iff)
  obtain pt where pt: "ob_tables w4 7 = Some pt" "entries pt \<noteq> None" by (rule hmap_Some [of 7 w4 4 sample_entry]) (auto simp: w4_eq(3))
  have ct: "entries (new_table 6000) \<noteq> None" "cap_ceiling (new_table 6000) = 65" by (simp_all add: new_table_def cap_ceiling_def)
  have bnd: "(\<forall>c. (\<lambda>_. 9000 :: nat) c \<noteq> 0) \<and> (\<forall>h e. inherited (hmap 7 w4 h) = Some e \<longrightarrow> h < 4 * int (cap_ceiling (new_table 6000)))"
    using fun_cong [OF inh] ct(2) by auto
  obtain n s' where s': "ob_handle_table_inherit (\<lambda>_. 9000) 7 8 w4 = Some (int n, s')" "n = card (dom (hmap 8 s'))"
      "hmap 8 s' = (\<lambda>h. inherited (hmap 7 w4 h))"
    using ob_handle_table_inherit_correct [OF w4_eq(2) room_w4(1) ne pt w4_table_8 ct(1) w4_eq(4), of "\<lambda>_. 9000"]
    by (elim exE conjE) (rule that, assumption, assumption, erule mp, rule bnd)
  then show ?thesis using inh by simp
qed

text \<open>Process rundown. Tearing down a table in a reachable state closes every handle in it, protected ones too, and drops
  the array; the handles of all other tables stay as they were and still name live objects, and a second
  call changes nothing.\<close>

theorem ob_handle_table_destroy_correct:
  assumes "ob_reach s" and "t \<in> dom (ob_tables s)"
  shows "\<exists>s'. ob_handle_table_destroy t s = Some s' \<and> ob_inv s' \<and> hmap t s' = Map.empty \<and>
    (\<forall>u. u \<noteq> t \<longrightarrow> hmap u s' = hmap u s) \<and> (\<forall>u h e. hmap u s' h = Some e \<longrightarrow> e_object e \<in> dom (ob_heap s')) \<and>
    ob_handle_table_destroy t s' = Some s'"
proof -
  obtain ht where ht: "ob_tables s t = Some ht" using assms(2) by auto
  obtain s' ht' where s': "ob_handle_table_destroy t s = Some s'" "kept s s'" "hmap t s' = Map.empty" "\<forall>u. u \<noteq> t \<longrightarrow> hmap u s' = hmap u s"
      "ob_tables s' t = Some ht'" "entries ht' = None"
    using ob_handle_table_destroy_inv [OF ob_reach_inv [OF assms(1)] ht] by blast
  then show ?thesis using keptD [OF s'(2)] handle_live [OF keptD [OF s'(2)]]
    by (intro exI [of _ s']) (auto simp: ob_handle_table_destroy_def)
qed

theorem ob_handle_table_destroy_correct_witness:
  "\<exists>s'. ob_handle_table_destroy 7 w4 = Some s' \<and> hmap 7 s' = Map.empty \<and> hmap 7 w4 4 = Some sample_entry"
  using ob_handle_table_destroy_correct [OF w4_eq(2) w4_tables(1)] w4_eq(3) by auto

end
