(* ===== verification/Kcodec.thy ===== *)
theory Kcodec
  imports Kernel_Prelude
begin

text \<open>
  \<open>src/kernel/kcodec.c\<close>: the base64 and hexadecimal codecs. Buffers are byte lists, the null pointer is
  \<^term>\<open>None\<close>, characters are bytes; an access outside a buffer is the value \<^term>\<open>None\<close>. The
  result is the returned \<open>int\<close> and the destination buffer. Sizes are 64-bit where the code computes with them before its guards; the loop
  counters, bounded by the buffers, are natural numbers. \<open>char\<close> is signed, as on the target.
\<close>

section \<open>Alphabets\<close>

definition KCODEC_INT_MAX :: u64 where "KCODEC_INT_MAX = 0x7FFFFFFF"

definition B64_ALPHABET :: string where
  "B64_ALPHABET = ''ABCDEFGHIJKLMNOPQRSTUVWXYZabcdefghijklmnopqrstuvwxyz0123456789+/''"

definition HEX_ALPHABET :: string where
  "HEX_ALPHABET = ''0123456789abcdef''"

abbreviation byte_of :: "char \<Rightarrow> u8" where "byte_of \<equiv> of_char"
abbreviation PAD :: u8 where "PAD \<equiv> byte_of (CHR ''='')"

definition b64_char :: "u32 \<Rightarrow> u8" where
  "b64_char v = byte_of (B64_ALPHABET ! unat v)"

definition b64_val :: "u8 \<Rightarrow> int" where
  "b64_val c = (let x = sint c in
     if x \<ge> of_char (CHR ''A'') \<and> x \<le> of_char (CHR ''Z'') then x - of_char (CHR ''A'')
     else if x \<ge> of_char (CHR ''a'') \<and> x \<le> of_char (CHR ''z'') then x - of_char (CHR ''a'') + 26
     else if x \<ge> of_char (CHR ''0'') \<and> x \<le> of_char (CHR ''9'') then x - of_char (CHR ''0'') + 52
     else if x = of_char (CHR ''+'') then 62
     else if x = of_char (CHR ''/'') then 63
     else -1)"

definition hex_val :: "u8 \<Rightarrow> int" where
  "hex_val c = (let x = sint c in
     if x \<ge> of_char (CHR ''0'') \<and> x \<le> of_char (CHR ''9'') then x - of_char (CHR ''0'')
     else if x \<ge> of_char (CHR ''a'') \<and> x \<le> of_char (CHR ''f'') then x - of_char (CHR ''a'') + 10
     else if x \<ge> of_char (CHR ''A'') \<and> x \<le> of_char (CHR ''F'') then x - of_char (CHR ''A'') + 10
     else -1)"

section \<open>Base64 encoding\<close>

text \<open>\<open>while (i + 3 <= src_len)\<close>: the whole groups; the result is the final \<open>i\<close>, \<open>o\<close> and destination.\<close>

function b64_enc_groups :: "bytes \<Rightarrow> nat \<Rightarrow> nat \<Rightarrow> nat \<Rightarrow> bytes \<Rightarrow> (nat \<times> nat \<times> bytes) option" where
  "b64_enc_groups p n i k m =
     (if i + 3 \<le> n then
        case (rd8 p i, rd8 p (i + 1), rd8 p (i + 2)) of
          (Some a, Some b, Some c) \<Rightarrow>
            (let v = push_bit 16 (ucast a :: u32) OR push_bit 8 (ucast b) OR ucast c in
             case wr_bytes m k [b64_char (drop_bit 18 v AND 63), b64_char (drop_bit 12 v AND 63),
                                b64_char (drop_bit 6 v AND 63), b64_char (v AND 63)] of
               None \<Rightarrow> None
             | Some m' \<Rightarrow> b64_enc_groups p n (i + 3) (k + 4) m')
        | _ \<Rightarrow> None
      else Some (i, k, m))"
  by pat_completeness auto
termination
  by (relation "measure (\<lambda>(p, n, i, k, m). n - i)") auto

declare b64_enc_groups.simps [simp del]

text \<open>The last one or two bytes, padded.\<close>

definition b64_enc_tail :: "bytes \<Rightarrow> nat \<Rightarrow> nat \<Rightarrow> nat \<Rightarrow> bytes \<Rightarrow> (nat \<times> bytes) option" where
  "b64_enc_tail p n i k m =
     (if n - i = 1 then do {
        a \<leftarrow> rd8 p i;
        let v = push_bit 16 (ucast a :: u32);
        m \<leftarrow> wr_bytes m k [b64_char (drop_bit 18 v AND 63), b64_char (drop_bit 12 v AND 63), PAD, PAD];
        Some (k + 4, m) }
      else if n - i = 2 then do {
        a \<leftarrow> rd8 p i;
        b \<leftarrow> rd8 p (i + 1);
        let v = push_bit 16 (ucast a :: u32) OR push_bit 8 (ucast b);
        m \<leftarrow> wr_bytes m k [b64_char (drop_bit 18 v AND 63), b64_char (drop_bit 12 v AND 63),
                          b64_char (drop_bit 6 v AND 63), PAD];
        Some (k + 4, m) }
      else Some (k, m))"

definition base64_encode :: "bytes option \<Rightarrow> u64 \<Rightarrow> bytes option \<Rightarrow> u64 \<Rightarrow> (int \<times> bytes option) option" where
  "base64_encode dst dst_cap src src_len =
     (case dst of
        None \<Rightarrow> Some (-1, dst)
      | Some m \<Rightarrow>
          if src = None \<and> src_len \<noteq> 0 then Some (-1, dst)
          else if src_len > 3 * (KCODEC_INT_MAX div 4) then Some (-1, dst)
          else
            let groups = (src_len + 2) div 3; out_len = groups * 4 in
            if out_len > dst_cap then Some (-1, dst)
            else do {
              let p = (case src of None \<Rightarrow> [] | Some p \<Rightarrow> p);
              (i, k, m) \<leftarrow> b64_enc_groups p (unat src_len) 0 0 m;
              (k, m) \<leftarrow> b64_enc_tail p (unat src_len) i k m;
              Some (int k, Some m) })"

section \<open>Base64 decoding\<close>

record b64_dec =
  d_o :: nat
  d_acc :: u32
  d_quad :: nat
  d_pad :: nat
  d_done :: bool
  d_out :: bytes

definition b64_space :: "u8 \<Rightarrow> bool" where
  "b64_space c \<longleftrightarrow> c = byte_of (CHR '' '') \<or> c = 9 \<or> c = 13 \<or> c = 10"

text \<open>The end of an iteration: nothing yet, or a full quad to be checked and stored. \<open>Inl\<close> is \<open>return -1\<close>, with the
  buffer as it is then.\<close>

definition b64_flush :: "u64 \<Rightarrow> b64_dec \<Rightarrow> (bytes + b64_dec) option" where
  "b64_flush dst_cap d =
     (if d_quad d \<noteq> 4 then Some (Inr d)
      else
        let nbytes = 3 - d_pad d; acc = d_acc d in
        if d_pad d = 1 \<and> acc AND 0xFF \<noteq> 0 then Some (Inl (d_out d))
        else if d_pad d = 2 \<and> acc AND 0xFFFF \<noteq> 0 then Some (Inl (d_out d))
        else if of_nat nbytes > dst_cap - of_nat (d_o d) then Some (Inl (d_out d))
        else do {
          m \<leftarrow> wr_bytes (d_out d) (d_o d) (take nbytes [ucast (drop_bit 16 acc), ucast (drop_bit 8 acc), ucast acc]);
          Some (Inr \<lparr>d_o = d_o d + nbytes, d_acc = 0, d_quad = 0, d_pad = 0, d_done = (d_done d \<or> d_pad d \<noteq> 0), d_out = m\<rparr>) })"

text \<open>One iteration of the loop over the input.\<close>

definition b64_dec_char :: "bool \<Rightarrow> u64 \<Rightarrow> u8 \<Rightarrow> b64_dec \<Rightarrow> (bytes + b64_dec) option" where
  "b64_dec_char mime dst_cap ch d =
     (if mime \<and> b64_space ch then Some (Inr d)
      else if d_done d then Some (Inl (d_out d))
      else if ch = PAD then
        if d_quad d < 2 then Some (Inl (d_out d))
        else
          let d = d\<lparr>d_acc := push_bit 6 (d_acc d), d_pad := d_pad d + 1, d_quad := d_quad d + 1\<rparr> in
          if d_pad d > 2 then Some (Inl (d_out d)) else b64_flush dst_cap d
      else if d_pad d \<noteq> 0 then Some (Inl (d_out d))
      else
        let v = b64_val ch in
        if v < 0 then Some (Inl (d_out d))
        else b64_flush dst_cap (d\<lparr>d_acc := push_bit 6 (d_acc d) OR of_int v, d_quad := d_quad d + 1\<rparr>))"

function b64_dec_loop :: "bool \<Rightarrow> u64 \<Rightarrow> bytes \<Rightarrow> nat \<Rightarrow> nat \<Rightarrow> b64_dec \<Rightarrow> (bytes + b64_dec) option" where
  "b64_dec_loop mime dst_cap src i n d =
     (if i < n then
        case rd8 src i of
          None \<Rightarrow> None
        | Some ch \<Rightarrow>
            (case b64_dec_char mime dst_cap ch d of
               None \<Rightarrow> None
             | Some (Inl m) \<Rightarrow> Some (Inl m)
             | Some (Inr d') \<Rightarrow> b64_dec_loop mime dst_cap src (Suc i) n d')
      else Some (Inr d))"
  by pat_completeness auto
termination
  by (relation "measure (\<lambda>(mime, cap, src, i, n, d). n - i)") auto

declare b64_dec_loop.simps [simp del]

definition base64_decode :: "bytes option \<Rightarrow> u64 \<Rightarrow> bytes option \<Rightarrow> u64 \<Rightarrow> bool \<Rightarrow> (int \<times> bytes option) option" where
  "base64_decode dst dst_cap src src_len mime =
     (case dst of
        None \<Rightarrow> Some (-1, dst)
      | Some out \<Rightarrow>
          if src = None \<and> src_len \<noteq> 0 then Some (-1, dst)
          else do {
            let dst_cap = (if dst_cap > KCODEC_INT_MAX then KCODEC_INT_MAX else dst_cap);
            let p = (case src of None \<Rightarrow> [] | Some p \<Rightarrow> p);
            r \<leftarrow> b64_dec_loop mime dst_cap p 0 (unat src_len)
                  \<lparr>d_o = 0, d_acc = 0, d_quad = 0, d_pad = 0, d_done = False, d_out = out\<rparr>;
            case r of
              Inl m \<Rightarrow> Some (-1, Some m)
            | Inr d \<Rightarrow>
                if d_quad d \<noteq> 0 then Some (-1, Some (d_out d))
                else if int (d_o d) > uint KCODEC_INT_MAX then Some (-1, Some (d_out d))
                else Some (int (d_o d), Some (d_out d)) })"

section \<open>Hexadecimal\<close>

definition hex_char :: "u8 \<Rightarrow> u8" where
  "hex_char v = byte_of (HEX_ALPHABET ! unat v)"

definition hex_encode :: "bytes option \<Rightarrow> u64 \<Rightarrow> bytes option \<Rightarrow> u64 \<Rightarrow> (int \<times> bytes option) option" where
  "hex_encode dst dst_cap src src_len =
     (case dst of
        None \<Rightarrow> Some (-1, dst)
      | Some m \<Rightarrow>
          if src = None \<and> src_len \<noteq> 0 then Some (-1, dst)
          else if src_len > KCODEC_INT_MAX div 2 then Some (-1, dst)
          else if src_len * 2 > dst_cap then Some (-1, dst)
          else do {
            let p = (case src of None \<Rightarrow> [] | Some p \<Rightarrow> p);
            m \<leftarrow> for_upto 0 (unat src_len) (\<lambda>i m. do {
                   b \<leftarrow> rd8 p i;
                   m \<leftarrow> wr8 m (i * 2) (hex_char (drop_bit 4 b));
                   wr8 m (i * 2 + 1) (hex_char (b AND 0x0F)) }) m;
            Some (int (unat src_len * 2), Some m) })"

text \<open>The loop of \<open>hex_decode\<close>; \<open>Inl\<close> is \<open>return -1\<close>.\<close>

function hex_dec_loop :: "bytes \<Rightarrow> nat \<Rightarrow> nat \<Rightarrow> bytes \<Rightarrow> (bytes + bytes) option" where
  "hex_dec_loop src i n m =
     (if i < n then
        case (rd8 src (i * 2), rd8 src (i * 2 + 1)) of
          (Some a, Some b) \<Rightarrow>
            (let hi = hex_val a; lo = hex_val b in
             if hi < 0 \<or> lo < 0 then Some (Inl m)
             else case wr8 m i (of_int (push_bit 4 hi OR lo)) of
                    None \<Rightarrow> None
                  | Some m' \<Rightarrow> hex_dec_loop src (Suc i) n m')
        | _ \<Rightarrow> None
      else Some (Inr m))"
  by pat_completeness auto
termination
  by (relation "measure (\<lambda>(src, i, n, m). n - i)") auto

declare hex_dec_loop.simps [simp del]

definition hex_decode :: "bytes option \<Rightarrow> u64 \<Rightarrow> bytes option \<Rightarrow> u64 \<Rightarrow> (int \<times> bytes option) option" where
  "hex_decode dst dst_cap src src_len =
     (case dst of
        None \<Rightarrow> Some (-1, dst)
      | Some out \<Rightarrow>
          if src = None \<and> src_len \<noteq> 0 then Some (-1, dst)
          else if src_len AND 1 \<noteq> 0 then Some (-1, dst)
          else
            let out_len = src_len div 2 in
            if out_len > KCODEC_INT_MAX then Some (-1, dst)
            else if out_len > dst_cap then Some (-1, dst)
            else do {
              let p = (case src of None \<Rightarrow> [] | Some p \<Rightarrow> p);
              r \<leftarrow> hex_dec_loop p 0 (unat out_len) out;
              Some (case r of Inl m \<Rightarrow> (-1, Some m) | Inr m \<Rightarrow> (int (unat out_len), Some m)) })"

end
