(* ===== verification/Kcodec_Facts.thy ===== *)
theory Kcodec_Facts
  imports Kcodec
begin

text \<open>
  What the codecs of \<open>kcodec.c\<close> compute: the encoder writes the RFC 4648 text of its input, the decoder accepts exactly the texts the
  encoder can write, and the two are inverse to each other; likewise for hexadecimal.
\<close>

section \<open>The text of a byte string\<close>

text \<open>Three bytes are a number below \<open>2\<^sup>2\<^sup>4\<close>, written with four digits in base 64.\<close>

definition b64_digit :: "nat \<Rightarrow> u8" where
  "b64_digit d = byte_of (B64_ALPHABET ! d)"

definition sextets :: "nat \<Rightarrow> bytes" where
  "sextets x = [b64_digit (x div 262144 mod 64), b64_digit (x div 4096 mod 64), b64_digit (x div 64 mod 64), b64_digit (x mod 64)]"

definition group3 :: "u8 \<Rightarrow> u8 \<Rightarrow> u8 \<Rightarrow> nat" where
  "group3 a b c = 65536 * unat a + 256 * unat b + unat c"

fun b64_text :: "bytes \<Rightarrow> bytes" where
  "b64_text (a # b # c # xs) = sextets (group3 a b c) @ b64_text xs"
| "b64_text [a, b] = take 3 (sextets (group3 a b 0)) @ [PAD]"
| "b64_text [a] = take 2 (sextets (group3 a 0 0)) @ [PAD, PAD]"
| "b64_text [] = []"

lemma length_sextets [simp]: "length (sextets x) = 4"
  by (simp add: sextets_def)

lemma length_b64_text: "length (b64_text bs) = 4 * ((length bs + 2) div 3)"
proof (induction bs rule: b64_text.induct)
  case (1 a b c xs)
  then show ?case using div_add_self2 [of 3 "length xs + 2"] by simp
qed (simp_all add: sextets_def)

lemma group3_less: "group3 a b c < 16777216"
  using unat_u8_less [of a] unat_u8_less [of b] unat_u8_less [of c] by (simp add: group3_def)

section \<open>Digits\<close>

lemma digits_ok: "\<forall>d \<in> set [0..<64]. b64_val (b64_digit d) = int d \<and> b64_digit d \<noteq> PAD \<and> \<not> b64_space (b64_digit d)"
  by code_simp

lemma digit_codes: "\<forall>d \<in> set [0..<64]. sint (b64_digit d) =
    (if d < 26 then 65 + int d else if d < 52 then 71 + int d else if d < 62 then int d - 4 else if d = 62 then 43 else 47)"
  by code_simp

lemma hex_digits_ok: "\<forall>n \<in> set [0..<16]. hex_val (hex_char (of_nat n)) = int n"
  by code_simp

lemma b64_digit_val: "d < 64 \<Longrightarrow> b64_val (b64_digit d) = int d" "d < 64 \<Longrightarrow> b64_digit d \<noteq> PAD"
  "d < 64 \<Longrightarrow> \<not> b64_space (b64_digit d)"
  using digits_ok by (simp_all add: Ball_def)

lemma b64_digitI:
  assumes "d < 64" "sint c = sint (b64_digit d)"
  shows "d < 64 \<and> b64_val c = int d \<and> c = b64_digit d"
proof -
  have "c = b64_digit d" by (rule signed_word_eqI) (rule assms(2))
  then show ?thesis using assms(1) b64_digit_val(1) [OF assms(1)] by simp
qed

lemma b64_val_digit:
  assumes "b64_val c \<noteq> -1"
  shows "nat (b64_val c) < 64 \<and> b64_val c = int (nat (b64_val c)) \<and> c = b64_digit (nat (b64_val c))"
proof -
  let ?d = "nat (b64_val c)"
  have d: "?d < 64" "sint c = (if ?d < 26 then 65 + int ?d else if ?d < 52 then 71 + int ?d else if ?d < 62 then int ?d - 4 else if ?d = 62 then 43 else 47)"
    using assms by (auto simp: b64_val_def Let_def split: if_splits)
  then have "sint c = sint (b64_digit ?d)" using bspec [OF digit_codes, of ?d] by simp
  from b64_digitI [OF d(1) this] show ?thesis .
qed

lemma b64_val_cases:
  obtains (bad) "b64_val c = -1" | (digit) d where "d < 64" "b64_val c = int d" "c = b64_digit d"
  using b64_val_digit [of c] by blast

lemma b64_val_PAD: "b64_val PAD = -1"
  by code_simp

lemma or_shift: "v < 2 ^ n \<Longrightarrow> push_bit n (of_nat x :: u32) OR of_nat v = of_nat (2 ^ n * x + v)"
proof -
  assume v: "v < 2 ^ n"
  have "push_bit n (int x) OR int v = int (2 ^ n * x + v)"
    using v concat_bit_eq [of n "int v" "int x"]
    by (simp add: concat_bit_def take_bit_int_eq_self or.commute push_bit_eq_mult ac_simps)
  then have "(of_int (push_bit n (int x) OR int v) :: u32) = of_int (int (2 ^ n * x + v))" by (rule arg_cong)
  then show ?thesis by (simp add: of_int_or_eq push_bit_eq_mult)
qed

lemma b64_char_digit: "x < 4294967296 \<Longrightarrow> b64_char (drop_bit k (of_nat x) AND 63) = b64_digit (x div 2 ^ k mod 64)"
proof -
  assume x: "x < 4294967296"
  have "(63 :: u32) = mask 6" by (simp add: mask_eq_exp_minus_1)
  then have "unat (drop_bit k (of_nat x :: u32) AND 63) = take_bit 6 (unat (drop_bit k (of_nat x :: u32)))"
    by (simp only: take_bit_eq_mask [symmetric] unsigned_take_bit_eq)
  also have "\<dots> = x div 2 ^ k mod 64"
    unfolding unat_drop_bit_eq using x by (simp add: unat_of_nat_u32 drop_bit_eq_div take_bit_eq_mod)
  finally have "unat (drop_bit k (of_nat x :: u32) AND 63) = x div 2 ^ k mod 64" .
  then show ?thesis by (simp add: b64_char_def b64_digit_def)
qed

lemma enc_v: "push_bit 16 (ucast a :: u32) OR push_bit 8 (ucast b) OR ucast c = of_nat (group3 a b c)"
proof -
  have u: "(ucast (w :: u8) :: u32) = of_nat (unat w)" for w by (simp add: unat_ucast_8_32 word_unat_eq_iff unat_of_nat_u32)
  have "push_bit 16 (of_nat (unat a)) OR push_bit 8 (of_nat (unat b)) = (push_bit 8 (push_bit 8 (of_nat (unat a)) OR of_nat (unat b)) :: u32)"
    by (simp only: push_bit_or push_bit_push_bit) simp
  also have "push_bit 8 (of_nat (unat a)) OR of_nat (unat b) = (of_nat (256 * unat a + unat b) :: u32)"
    using or_shift [of "unat b" 8 "unat a"] unat_u8_less [of b] by simp
  finally have "push_bit 16 (of_nat (unat a)) OR push_bit 8 (of_nat (unat b)) = (push_bit 8 (of_nat (256 * unat a + unat b)) :: u32)" .
  then show ?thesis
    using or_shift [of "unat c" 8 "256 * unat a + unat b"] unat_u8_less [of c]
    unfolding u by (simp add: group3_def or.assoc [symmetric] algebra_simps)
qed

lemma enc_v2: "push_bit 16 (ucast a :: u32) OR push_bit 8 (ucast b) = of_nat (group3 a b 0)"
  using enc_v [of a b 0] by simp

lemma enc_v1: "push_bit 16 (ucast a :: u32) = of_nat (group3 a 0 0)"
  using enc_v2 [of a 0] by simp

lemma sextet_chars:
  assumes "x < 16777216"
  shows "b64_char (drop_bit 18 (of_nat x) AND 63) = sextets x ! 0" "b64_char (drop_bit 12 (of_nat x) AND 63) = sextets x ! 1"
    "b64_char (drop_bit 6 (of_nat x) AND 63) = sextets x ! 2" "b64_char (of_nat x AND 63) = sextets x ! 3"
  using assms b64_char_digit [of x 18] b64_char_digit [of x 12] b64_char_digit [of x 6] b64_char_digit [of x 0]
  by (simp_all add: sextets_def)

section \<open>The encoder\<close>

text \<open>A buffer with a text stored at position \<open>k\<close>.\<close>

definition stored :: "bytes \<Rightarrow> nat \<Rightarrow> bytes \<Rightarrow> bytes" where
  "stored m k bs = take k m @ bs @ drop (k + length bs) m"

lemma wr_bytes_stored: "k + length bs \<le> length m \<Longrightarrow> wr_bytes m k bs = Some (stored m k bs)"
  by (simp add: wr_bytes_def stored_def)

lemma length_stored [simp]: "k + length bs \<le> length m \<Longrightarrow> length (stored m k bs) = length m"
  by (simp add: stored_def)

lemma stored_append: "k + length as + length bs \<le> length m \<Longrightarrow> stored (stored m k as) (k + length as) bs = stored m k (as @ bs)"
  by (simp add: stored_def ac_simps)

lemma stored_Nil [simp]: "stored m k [] = m"
  by (simp add: stored_def)

lemma take_step: "i < n \<Longrightarrow> n \<le> length p \<Longrightarrow> take (n - i) (drop i p) = p ! i # take (n - Suc i) (drop (Suc i) p)"
  by (metis Cons_nth_drop_Suc Suc_diff_Suc order_less_le_trans take_Suc_Cons)

lemma b64_enc_loops:
  assumes "i \<le> n" "n \<le> length p" "k + 4 * ((n - i + 2) div 3) \<le> length m"
  shows "Option.bind (b64_enc_groups p n i k m) (\<lambda>(i, k, m). b64_enc_tail p n i k m) =
    Some (k + 4 * ((n - i + 2) div 3), stored m k (b64_text (take (n - i) (drop i p))))"
  using assms
proof (induction "n - i" arbitrary: i k m rule: less_induct)
  case less
  note prems = less.prems
  show ?case
  proof (cases "i + 3 \<le> n")
    case True
    let ?x = "group3 (p ! i) (p ! (i + 1)) (p ! (i + 2))"
    let ?m = "stored m k (sextets ?x)"
    have len: "4 * ((n - i + 2) div 3) = 4 + 4 * ((n - (i + 3) + 2) div 3)"
      using True div_add_self2 [of 3 "n - (i + 3) + 2"] by simp
    have rd: "rd8 p i = Some (p ! i)" "rd8 p (i + 1) = Some (p ! (i + 1))" "rd8 p (i + 2) = Some (p ! (i + 2))"
      using True prems by (simp_all add: rd8_ok)
    have "[sextets ?x ! 0, sextets ?x ! 1, sextets ?x ! 2, sextets ?x ! 3] = sextets ?x" by (simp add: sextets_def)
    then have step: "b64_enc_groups p n i k m = b64_enc_groups p n (i + 3) (k + 4) ?m"
      using True rd prems len wr_bytes_stored [of k "sextets ?x" m]
      by (simp add: b64_enc_groups.simps [of p n i k m] enc_v sextet_chars [OF group3_less])
    have "take (n - i) (drop i p) = p ! i # p ! (i + 1) # p ! (i + 2) # take (n - (i + 3)) (drop (i + 3) p)"
      using True prems(2) by (simp add: take_step eval_nat_numeral)
    moreover have "length (b64_text (take (n - (i + 3)) (drop (i + 3) p))) = 4 * ((n - (i + 3) + 2) div 3)"
      using prems(2) by (simp add: length_b64_text)
    moreover have "n - (i + 3) < n - i" using True by arith
    ultimately show ?thesis
      using less.hyps [of "i + 3" "k + 4" ?m] True prems len step stored_append [of k "sextets ?x" "b64_text (take (n - (i + 3)) (drop (i + 3) p))" m]
      by simp
  next
    case False
    then have "b64_enc_groups p n i k m = Some (i, k, m)" by (simp add: b64_enc_groups.simps)
    moreover consider "n = i" | "n = i + 1" | "n = i + 2" using False prems(1) by linarith
    then have "b64_enc_tail p n i k m = Some (k + 4 * ((n - i + 2) div 3), stored m k (b64_text (take (n - i) (drop i p))))"
    proof cases
      case 2
      then have "take (n - i) (drop i p) = [p ! i]" using prems(2) by (subst take_step) simp_all
      then show ?thesis using 2 prems group3_less [of _ 0 0]
        by (simp add: b64_enc_tail_def rd8_ok enc_v1 sextet_chars wr_bytes_stored) (simp add: sextets_def)
    next
      case 3
      then have "take (n - i) (drop i p) = [p ! i, p ! (i + 1)]" using prems(2) by (subst take_step, simp, simp, subst take_step) simp_all
      then show ?thesis using 3 prems group3_less [of _ _ 0]
        by (simp add: b64_enc_tail_def rd8_ok enc_v2 sextet_chars wr_bytes_stored) (simp add: sextets_def)
    qed (simp add: b64_enc_tail_def)
    ultimately show ?thesis by simp
  qed
qed


section \<open>The decoder\<close>

text \<open>The loop over a list of characters.\<close>

primrec dec_list :: "bool \<Rightarrow> u64 \<Rightarrow> bytes \<Rightarrow> b64_dec \<Rightarrow> (bytes + b64_dec) option" where
  "dec_list mime cap [] d = Some (Inr d)"
| "dec_list mime cap (c # cs) d = (case b64_dec_char mime cap c d of
     None \<Rightarrow> None | Some (Inl m) \<Rightarrow> Some (Inl m) | Some (Inr d') \<Rightarrow> dec_list mime cap cs d')"

lemma b64_dec_loop_list: "n \<le> length src \<Longrightarrow> b64_dec_loop mime cap src i n d = dec_list mime cap (take (n - i) (drop i src)) d"
proof (induction "n - i" arbitrary: i d)
  case 0
  then show ?case by (simp add: b64_dec_loop.simps)
next
  case (Suc k)
  then have "i < n" by simp
  with Suc show ?case
    by (simp add: b64_dec_loop.simps [of mime cap src i] take_step rd8_ok split: option.splits sum.splits)
qed

lemma dec_list_mime: "dec_list True cap cs d = dec_list False cap (filter (\<lambda>c. \<not> b64_space c) cs) d"
  by (induction cs arbitrary: d) (auto simp: b64_dec_char_def split: option.splits sum.splits)

text \<open>Between two quads.\<close>

definition at_quad :: "nat \<Rightarrow> bool \<Rightarrow> bytes \<Rightarrow> b64_dec" where
  "at_quad k dn m = \<lparr>d_o = k, d_acc = 0, d_quad = 0, d_pad = 0, d_done = dn, d_out = m\<rparr>"

text \<open>What a quad of characters stands for.\<close>

definition quad_acc :: "int \<Rightarrow> int \<Rightarrow> int \<Rightarrow> int \<Rightarrow> u32" where
  "quad_acc va vb vc vd = push_bit 6 (push_bit 6 (push_bit 6 (of_int va) OR of_int vb) OR of_int vc) OR of_int vd"

definition acc_bytes :: "u32 \<Rightarrow> bytes" where
  "acc_bytes acc = [ucast (drop_bit 16 acc), ucast (drop_bit 8 acc), ucast acc]"

definition quad :: "u8 \<Rightarrow> u8 \<Rightarrow> u8 \<Rightarrow> u8 \<Rightarrow> bytes option" where
  "quad a b c d =
     (if b64_val a < 0 \<or> b64_val b < 0 then None
      else if c = PAD then
        let acc = quad_acc (b64_val a) (b64_val b) 0 0 in
        if d = PAD \<and> acc AND 0xFFFF = 0 then Some (take 1 (acc_bytes acc)) else None
      else if b64_val c < 0 then None
      else if d = PAD then
        let acc = quad_acc (b64_val a) (b64_val b) (b64_val c) 0 in
        if acc AND 0xFF = 0 then Some (take 2 (acc_bytes acc)) else None
      else if b64_val d < 0 then None
      else Some (acc_bytes (quad_acc (b64_val a) (b64_val b) (b64_val c) (b64_val d))))"

lemma not_PAD: "0 \<le> b64_val c \<Longrightarrow> c \<noteq> PAD"
  using b64_val_PAD by auto

lemma cap_check: "k \<le> unat cap \<Longrightarrow> n < 4 \<Longrightarrow> (of_nat n > cap - of_nat k) = (unat cap < k + n)" for cap :: u64
proof -
  assume k: "k \<le> unat cap" and n: "n < 4"
  have "unat cap < 2 ^ LENGTH(64)" by (rule unsigned_less)
  then have "k < 2 ^ 64" using k by simp
  then have u: "unat (of_nat k :: u64) = k" by (rule unat_of_nat_u64)
  then have "(of_nat k :: u64) \<le> cap" using k by (simp add: word_le_nat_alt)
  then have "unat (cap - of_nat k) = unat cap - k" using u by (simp add: unat_sub)
  moreover have "unat (of_nat n :: u64) = n" using n by (intro unat_of_nat_u64) simp
  ultimately show ?thesis using k by (auto simp: word_less_nat_alt)
qed

lemma b64_flush_partial: "d_quad d \<noteq> 4 \<Longrightarrow> b64_flush cap d = Some (Inr d)"
  by (simp add: b64_flush_def)

lemma b64_flush_full:
  assumes "d_quad d = 4" "d_pad d < 3" "d_o d \<le> unat cap" "unat cap \<le> length (d_out d)"
  shows "b64_flush cap d =
    (if d_pad d = 1 \<and> d_acc d AND 0xFF \<noteq> 0 \<or> d_pad d = 2 \<and> d_acc d AND 0xFFFF \<noteq> 0 \<or> unat cap < d_o d + (3 - d_pad d)
     then Some (Inl (d_out d))
     else Some (Inr (at_quad (d_o d + (3 - d_pad d)) (d_done d \<or> d_pad d \<noteq> 0)
       (stored (d_out d) (d_o d) (take (3 - d_pad d) (acc_bytes (d_acc d)))))))"
proof -
  have "3 - d_pad d < 4" using assms(2) by simp
  note cc = cap_check [OF assms(3) this]
  have "wr_bytes (d_out d) (d_o d) (take (3 - d_pad d) (acc_bytes (d_acc d))) =
      Some (stored (d_out d) (d_o d) (take (3 - d_pad d) (acc_bytes (d_acc d))))" if "\<not> unat cap < d_o d + (3 - d_pad d)"
    by (rule wr_bytes_stored) (use that assms(4) in \<open>simp add: acc_bytes_def\<close>)
  then show ?thesis
    unfolding b64_flush_def Let_def cc acc_bytes_def [symmetric] at_quad_def using assms(1) by auto
qed

lemma dec_quad:
  assumes "k \<le> unat cap" "unat cap \<le> length m"
  shows "dec_list False cap (a # b # c # d # xs) (at_quad k False m) =
    (case quad a b c d of
       None \<Rightarrow> Some (Inl m)
     | Some bs \<Rightarrow> if unat cap < k + length bs then Some (Inl m)
         else dec_list False cap xs (at_quad (k + length bs) (length bs < 3) (stored m k bs)))"
proof -
  note [simp] = b64_dec_char_def quad_def Let_def quad_acc_def b64_flush_partial b64_flush_full
  have [simp]: "at_quad k False m = \<lparr>d_o = k, d_acc = 0, d_quad = 0, d_pad = 0, d_done = False, d_out = m\<rparr>"
    by (simp add: at_quad_def)
  have [simp]: "length (acc_bytes x) = 3" for x by (simp add: acc_bytes_def)
  consider "b64_val a < 0 \<or> b64_val b < 0" | "0 \<le> b64_val a" "0 \<le> b64_val b" by linarith
  then show ?thesis
  proof cases
    case 1
    then show ?thesis using b64_val_PAD by auto
  next
    case 2
    note ab = 2 not_PAD [OF 2(1)] not_PAD [OF 2(2)]
    consider "c = PAD" | "c \<noteq> PAD" "b64_val c < 0" | "c \<noteq> PAD" "0 \<le> b64_val c" by linarith
    then show ?thesis
    proof cases
      case 1
      then show ?thesis using ab assms by (cases "d = PAD") auto
    next
      case 2
      then show ?thesis using ab by simp
    next
      case 3
      then show ?thesis using ab assms by (cases "d = PAD") auto
    qed
  qed
qed

subsection \<open>Quads are the groups of the text\<close>

definition val4 :: "nat \<Rightarrow> nat \<Rightarrow> nat \<Rightarrow> nat \<Rightarrow> nat" where
  "val4 va vb vc vd = 64 * (64 * (64 * va + vb) + vc) + vd"

lemma val4_less: "va < 64 \<Longrightarrow> vb < 64 \<Longrightarrow> vc < 64 \<Longrightarrow> vd < 64 \<Longrightarrow> val4 va vb vc vd < 16777216"
  by (simp add: val4_def)

lemma quad_acc_nat:
  "va < 64 \<Longrightarrow> vb < 64 \<Longrightarrow> vc < 64 \<Longrightarrow> vd < 64 \<Longrightarrow> quad_acc (int va) (int vb) (int vc) (int vd) = of_nat (val4 va vb vc vd)"
  using or_shift [of vb 6 va] or_shift [of vc 6 "64 * va + vb"] or_shift [of vd 6 "64 * (64 * va + vb) + vc"]
  by (simp add: quad_acc_def val4_def)

lemma acc_bytes_nat: "x < 16777216 \<Longrightarrow> acc_bytes (of_nat x) = [of_nat (x div 65536), of_nat (x div 256), of_nat x]"
proof -
  assume x: "x < 16777216"
  have "ucast (drop_bit n (of_nat x :: u32)) = (of_nat (x div 2 ^ n) :: u8)" for n
  proof -
    have "unat (drop_bit n (of_nat x :: u32)) = x div 2 ^ n"
      unfolding unat_drop_bit_eq using x by (simp add: unat_of_nat_u32 drop_bit_eq_div)
    then have "(of_nat (unat (drop_bit n (of_nat x :: u32))) :: u8) = of_nat (x div 2 ^ n)" by (rule arg_cong)
    then show ?thesis unfolding of_nat_unat .
  qed
  from this [of 16] this [of 8] this [of 0] show ?thesis by (simp add: acc_bytes_def)
qed

lemma low_zero: "x < 16777216 \<Longrightarrow> (of_nat x :: u32) AND 0xFF = 0 \<longleftrightarrow> x mod 256 = 0"
  "x < 16777216 \<Longrightarrow> (of_nat x :: u32) AND 0xFFFF = 0 \<longleftrightarrow> x mod 65536 = 0"
proof -
  assume x: "x < 16777216"
  have "unat ((of_nat x :: u32) AND mask n) = x mod 2 ^ n" for n
    unfolding take_bit_eq_mask [symmetric] unsigned_take_bit_eq using x by (simp add: unat_of_nat_u32 take_bit_eq_mod)
  from this [of 8] this [of 16]
  show "(of_nat x :: u32) AND 0xFF = 0 \<longleftrightarrow> x mod 256 = 0" "(of_nat x :: u32) AND 0xFFFF = 0 \<longleftrightarrow> x mod 65536 = 0"
    by (simp_all add: mask_eq_exp_minus_1 word_unat_eq_iff [of _ "0 :: u32"])
qed

lemma group3_of_nat: "x < 16777216 \<Longrightarrow> group3 (of_nat (x div 65536)) (of_nat (x div 256)) (of_nat x) = x"
proof -
  assume x: "x < 16777216"
  have "unat (of_nat n :: u8) = n mod 256" for n by (simp add: unat_of_nat)
  moreover have "x div 65536 = x div 256 div 256" by (simp add: div_mult2_eq [symmetric])
  moreover have "x div 65536 < 256" using x by (simp add: less_mult_imp_div_less)
  moreover have "65536 * (x div 256 div 256) + 256 * (x div 256 mod 256) + x mod 256 = x"
    using mult_div_mod_eq [of 256 x] mult_div_mod_eq [of 256 "x div 256"] by linarith
  ultimately show ?thesis by (simp add: group3_def)
qed

lemma group3_of_nat_short: "x < 16777216 \<Longrightarrow> x mod 65536 = 0 \<Longrightarrow> group3 (of_nat (x div 65536)) 0 0 = x"
  "x < 16777216 \<Longrightarrow> x mod 256 = 0 \<Longrightarrow> group3 (of_nat (x div 65536)) (of_nat (x div 256)) 0 = x"
proof -
  have u: "unat (of_nat n :: u8) = n mod 256" for n by (simp add: unat_of_nat)
  have z: "(of_nat n :: u8) = 0" if "n mod 256 = 0" for n using that by (simp add: word_unat_eq_iff u)
  assume x: "x < 16777216"
  show two: "group3 (of_nat (x div 65536)) (of_nat (x div 256)) 0 = x" if "x mod 256 = 0"
    using group3_of_nat [OF x] z [OF that] by simp
  assume m: "x mod 65536 = 0"
  then obtain y where "x = 65536 * y" by auto
  then have "x mod 256 = 0" "x div 256 mod 256 = 0" by (simp_all add: mod_eq_0_iff_dvd)
  then show "group3 (of_nat (x div 65536)) 0 0 = x" using two z [of "x div 256"] by simp
qed

lemma sextets_val4: "va < 64 \<Longrightarrow> vb < 64 \<Longrightarrow> vc < 64 \<Longrightarrow> vd < 64 \<Longrightarrow>
  sextets (val4 va vb vc vd) = [b64_digit va, b64_digit vb, b64_digit vc, b64_digit vd]"
proof -
  assume *: "va < 64" "vb < 64" "vc < 64" "vd < 64"
  have step: "(64 * y + v) div 64 = y" "(64 * y + v) mod 64 = v" if "v < 64" for y v :: nat
    using that by (simp_all only: div_mult_self4 mod_mult_self4 mod_less div_less)
  have "y div 4096 = y div 64 div 64" "y div 262144 = y div 64 div 64 div 64" for y :: nat by (simp_all add: div_mult2_eq [symmetric])
  then show ?thesis using * by (simp only: sextets_def val4_def step mod_less)
qed

text \<open>A quad is accepted exactly if it is the text of one to three bytes, and then it yields these.\<close>

lemma quad_text: "quad a b c d = Some bs \<Longrightarrow> b64_text bs = [a, b, c, d] \<and> 0 < length bs \<and> length bs \<le> 3"
proof -
  assume q: "quad a b c d = Some bs"
  then have "\<not> b64_val a < 0" "\<not> b64_val b < 0" by (auto simp: quad_def split: if_splits)
  then obtain va vb where a: "va < 64" "b64_val a = int va" "a = b64_digit va" and b: "vb < 64" "b64_val b = int vb" "b = b64_digit vb"
    using b64_val_digit [of a] b64_val_digit [of b] by fastforce
  consider (one) "c = PAD" "d = PAD" | (two) vc where "vc < 64" "b64_val c = int vc" "c = b64_digit vc" "d = PAD"
    | (three) vc vd where "vc < 64" "b64_val c = int vc" "c = b64_digit vc" "vd < 64" "b64_val d = int vd" "d = b64_digit vd"
    using q b64_val_digit [of c] b64_val_digit [of d] by (fastforce simp: quad_def Let_def split: if_splits)
  then show ?thesis
  proof cases
    case one
    let ?x = "val4 va vb 0 0"
    have x: "?x < 16777216" using a(1) b(1) by (simp add: val4_less)
    have "?x mod 65536 = 0" "bs = [of_nat (?x div 65536)]"
      using q one a(1,2) b(1,2) quad_acc_nat [of va vb 0 0] low_zero [OF x] acc_bytes_nat [OF x]
      by (auto simp: quad_def Let_def split: if_splits)
    then show ?thesis using one a b x sextets_val4 [of va vb 0 0] by (simp add: group3_of_nat_short)
  next
    case two
    let ?x = "val4 va vb vc 0"
    have x: "?x < 16777216" using a(1) b(1) two(1) by (simp add: val4_less)
    have "?x mod 256 = 0" "bs = [of_nat (?x div 65536), of_nat (?x div 256)]"
      using q two not_PAD [of c] a(1,2) b(1,2) quad_acc_nat [of va vb vc 0] low_zero [OF x] acc_bytes_nat [OF x]
      by (auto simp: quad_def Let_def split: if_splits)
    then show ?thesis using two a b x sextets_val4 [of va vb vc 0] by (simp add: group3_of_nat_short)
  next
    case three
    let ?x = "val4 va vb vc vd"
    have x: "?x < 16777216" using a(1) b(1) three by (simp add: val4_less)
    have "bs = [of_nat (?x div 65536), of_nat (?x div 256), of_nat ?x]"
      using q three not_PAD [of c] not_PAD [of d] a(1,2) b(1,2) quad_acc_nat [of va vb vc vd] acc_bytes_nat [OF x] by (simp add: quad_def)
    then show ?thesis using three a b x sextets_val4 [of va vb vc vd] by (simp add: group3_of_nat)
  qed
qed

text \<open>Conversely, by the same equations read from the bytes.\<close>

lemma nat_val4: "x < 16777216 \<Longrightarrow> val4 (x div 262144 mod 64) (x div 4096 mod 64) (x div 64 mod 64) (x mod 64) = x"
proof -
  assume "x < 16777216"
  then have "x div 262144 mod 64 = x div 262144" by (simp add: less_mult_imp_div_less)
  moreover have "x div 4096 = x div 64 div 64" "x div 262144 = x div 64 div 64 div 64" by (simp_all add: div_mult2_eq [symmetric])
  ultimately show ?thesis unfolding val4_def by (simp add: mult_div_mod_eq)
qed

lemma group3_bytes: "of_nat (group3 a b c div 65536) = a" "of_nat (group3 a b c div 256) = b" "of_nat (group3 a b c) = c"
proof -
  have u: "unat a < 256" "unat b < 256" "unat c < 256" using unat_u8_less by blast+
  have z: "256 * w = 0" "65536 * w = 0" for w :: u8
    by (simp_all add: word_unat_eq_iff unat_word_ariths)
  have "group3 a b c div 65536 = unat a" "group3 a b c div 256 = 256 * unat a + unat b"
    using u by (simp_all add: group3_def)
  then show "of_nat (group3 a b c div 65536) = a" "of_nat (group3 a b c div 256) = b" "of_nat (group3 a b c) = c"
    using z by (simp_all add: group3_def)
qed

lemma quad_digits:
  assumes "x < 16777216"
  shows "quad (sextets x ! 0) (sextets x ! 1) (sextets x ! 2) (sextets x ! 3) = Some [of_nat (x div 65536), of_nat (x div 256), of_nat x]"
    "x mod 256 = 0 \<Longrightarrow> quad (sextets x ! 0) (sextets x ! 1) (sextets x ! 2) PAD = Some [of_nat (x div 65536), of_nat (x div 256)]"
    "x mod 65536 = 0 \<Longrightarrow> quad (sextets x ! 0) (sextets x ! 1) PAD PAD = Some [of_nat (x div 65536)]"
proof -
  let ?a = "x div 262144 mod 64" and ?b = "x div 4096 mod 64" and ?c = "x div 64 mod 64" and ?d = "x mod 64"
  have v: "val4 ?a ?b ?c ?d = x" by (rule nat_val4 [OF assms])
  have q: "quad_acc (int ?a) (int ?b) (int ?c) (int ?d) = of_nat x" using quad_acc_nat [of ?a ?b ?c ?d] v by simp
  have d61: "b64_digit d \<noteq> 61" if "d < 64" for d using b64_digit_val(2) [OF that] by simp
  note simps = b64_digit_val(1) d61 sextets_def quad_def Let_def acc_bytes_nat [OF assms] low_zero [OF assms]
  show "quad (sextets x ! 0) (sextets x ! 1) (sextets x ! 2) (sextets x ! 3) = Some [of_nat (x div 65536), of_nat (x div 256), of_nat x]"
    using q by (simp add: simps)
  show "quad (sextets x ! 0) (sextets x ! 1) (sextets x ! 2) PAD = Some [of_nat (x div 65536), of_nat (x div 256)]" if "x mod 256 = 0"
  proof -
    have "x = 256 * (x div 256)" using that mult_div_mod_eq [of 256 x] by simp
    then obtain y where "x = 256 * y" by blast
    then have "?d = 0" by (simp add: mod_eq_0_iff_dvd)
    then show ?thesis using q that by (simp add: simps)
  qed
  show "quad (sextets x ! 0) (sextets x ! 1) PAD PAD = Some [of_nat (x div 65536)]" if "x mod 65536 = 0"
  proof -
    have "x = 65536 * (x div 65536)" using that mult_div_mod_eq [of 65536 x] by simp
    then obtain y where "x = 65536 * y" by blast
    then have "?d = 0" "?c = 0" by (simp_all add: mod_eq_0_iff_dvd)
    then show ?thesis using q that by (simp add: simps)
  qed
qed

lemma quad_complete:
  assumes "0 < length bs" "length bs \<le> 3" "b64_text bs = [a, b, c, d]"
  shows "quad a b c d = Some bs"
proof -
  consider x where "bs = [x]" | x y where "bs = [x, y]" | x y z where "bs = [x, y, z]"
    using assms(1,2) by (cases bs rule: b64_text.cases) auto
  then show ?thesis
  proof cases
    case 1
    then show ?thesis using assms(3) quad_digits(3) [OF group3_less, of x 0 0] group3_bytes [of x 0 0] by (simp add: sextets_def group3_def)
  next
    case 2
    then show ?thesis using assms(3) quad_digits(2) [OF group3_less, of x y 0] group3_bytes [of x y 0] by (simp add: sextets_def group3_def)
  next
    case 3
    then show ?thesis using assms(3) quad_digits(1) [OF group3_less, of x y z] group3_bytes [of x y z] by (simp add: sextets_def)
  qed
qed

subsection \<open>The decoder accepts exactly the texts\<close>

lemma b64_text_append: "length bs = 3 \<Longrightarrow> b64_text (bs @ cs) = b64_text bs @ b64_text cs"
  by (cases bs rule: b64_text.cases) auto

lemma b64_text_quad:
  assumes "b64_text bs = a # b # c # d # cs"
  obtains b1 b2 where "bs = b1 @ b2" "quad a b c d = Some b1" "b64_text b2 = cs" "length b1 = 3 \<or> b2 = [] \<and> cs = []"
proof (cases bs rule: b64_text.cases)
  case (1 x y z xs)
  then have "b64_text [x, y, z] = [a, b, c, d]" "b64_text xs = cs" using assms by (simp_all add: sextets_def)
  then show thesis using that [of "[x, y, z]" xs] 1 quad_complete [of "[x, y, z]"] by simp
next
  case (2 x y)
  then show thesis using that [of bs "[]"] assms quad_complete [of bs a b c d] by (simp add: sextets_def)
next
  case (3 x)
  then show thesis using that [of bs "[]"] assms quad_complete [of bs a b c d] by (simp add: sextets_def)
next
  case 4
  then show thesis using assms by simp
qed

text \<open>What the loop leaves behind: the buffer, and the number of bytes and the buffer if it ends between quads.\<close>

definition dec_buffer :: "bytes + b64_dec \<Rightarrow> bytes" where
  "dec_buffer r = (case r of Inl m \<Rightarrow> m | Inr d \<Rightarrow> d_out d)"

definition accepted :: "bytes + b64_dec \<Rightarrow> nat option" where
  "accepted r = (case r of Inl m \<Rightarrow> None | Inr d \<Rightarrow> if d_quad d = 0 then Some (d_o d) else None)"

text \<open>The outcome for the remaining characters \<open>cs\<close> at output position \<open>k\<close>.\<close>

definition decoded :: "u64 \<Rightarrow> bytes \<Rightarrow> nat \<Rightarrow> bytes \<Rightarrow> bytes + b64_dec \<Rightarrow> bool" where
  "decoded cap cs k m r \<longleftrightarrow> length (dec_buffer r) = length m \<and> drop (unat cap) (dec_buffer r) = drop (unat cap) m \<and>
     (case accepted r of
        None \<Rightarrow> \<forall>bs. cs = b64_text bs \<longrightarrow> unat cap < k + length bs
      | Some n \<Rightarrow> \<exists>bs. cs = b64_text bs \<and> n = k + length bs \<and> n \<le> unat cap \<and> dec_buffer r = stored m k bs)"

lemma drop_stored: "k + length bs \<le> c \<Longrightarrow> c \<le> length m \<Longrightarrow> drop c (stored m k bs) = drop c m"
  by (simp add: stored_def)

lemma decoded_prefix:
  assumes "decoded cap cs (k + 3) (stored m k bs) r" "length bs = 3" "k + 3 \<le> unat cap" "unat cap \<le> length m" "quad a b c d = Some bs"
  shows "decoded cap (a # b # c # d # cs) k m r"
proof -
  have t: "b64_text bs = [a, b, c, d]" using quad_text [OF assms(5)] by simp
  have fr: "length (dec_buffer r) = length m" "drop (unat cap) (dec_buffer r) = drop (unat cap) m"
    using assms(1-4) drop_stored [of k bs "unat cap" m] by (simp_all add: decoded_def)
  show ?thesis
  proof (cases "accepted r")
    case None
    have "unat cap < k + length xs" if "a # b # c # d # cs = b64_text xs" for xs
      by (rule b64_text_quad [OF that [symmetric]]) (use assms(1,2,5) None in \<open>auto simp: decoded_def\<close>)
    then show ?thesis using fr None by (simp add: decoded_def)
  next
    case (Some n)
    then obtain xs where xs: "cs = b64_text xs" "n = k + 3 + length xs" "n \<le> unat cap" "dec_buffer r = stored (stored m k bs) (k + 3) xs"
      using assms(1) by (auto simp: decoded_def)
    then have "a # b # c # d # cs = b64_text (bs @ xs)" "n = k + length (bs @ xs)" "dec_buffer r = stored m k (bs @ xs)"
      using t assms(2,4) b64_text_append [OF assms(2), of xs] stored_append [of k bs xs m] by simp_all
    then show ?thesis using fr Some xs(3) unfolding decoded_def by auto
  qed
qed

lemma dec_short:
  "d_quad d + length cs < 4 \<Longrightarrow> \<exists>r. dec_list False cap cs d = Some r \<and> dec_buffer r = d_out d \<and>
     (\<forall>d'. r = Inr d' \<longrightarrow> d_quad d' = d_quad d + length cs)"
proof (induction cs arbitrary: d)
  case Nil
  then show ?case by (simp add: dec_buffer_def)
next
  case (Cons c cs)
  have "\<exists>r. b64_dec_char False cap c d = Some r \<and> (r = Inl (d_out d) \<or> (\<exists>d'. r = Inr d' \<and> d_quad d' = Suc (d_quad d) \<and> d_out d' = d_out d))"
    using Cons.prems by (auto simp: b64_dec_char_def Let_def b64_flush_partial)
  then consider "b64_dec_char False cap c d = Some (Inl (d_out d))"
    | d' where "b64_dec_char False cap c d = Some (Inr d')" "d_quad d' = Suc (d_quad d)" "d_out d' = d_out d" by blast
  then show ?case
  proof cases
    case 1
    then show ?thesis by (simp add: dec_buffer_def)
  next
    case 2
    then show ?thesis using Cons.IH [of d'] Cons.prems by auto
  qed
qed

lemma dec_list_text:
  assumes "k \<le> unat cap" "unat cap \<le> length m"
  shows "\<exists>r. dec_list False cap cs (at_quad k False m) = Some r \<and> decoded cap cs k m r"
  using assms
proof (induction "length cs" arbitrary: cs k m rule: less_induct)
  case less
  consider "cs = []" | "cs \<noteq> []" "length cs < 4" | a b c d xs where "cs = a # b # c # d # xs"
    by (cases cs rule: b64_text.cases; cases "drop 3 cs") auto
  then show ?case
  proof cases
    case 1
    then show ?thesis using less.prems by (auto simp: decoded_def accepted_def dec_buffer_def at_quad_def intro!: exI [of _ "[] :: bytes"])
  next
    case 2
    obtain r where r: "dec_list False cap cs (at_quad k False m) = Some r" "dec_buffer r = m" "\<forall>d'. r = Inr d' \<longrightarrow> d_quad d' = length cs"
      using dec_short [of "at_quad k False m" cs cap] 2(2) by (auto simp: at_quad_def)
    have "accepted r = None" using r(3) 2(1) by (auto simp: accepted_def split: sum.split)
    moreover have "cs \<noteq> b64_text bs" for bs
    proof
      assume "cs = b64_text bs"
      with 2 have "4 * ((length bs + 2) div 3) < 4" "4 * ((length bs + 2) div 3) \<noteq> 0" by (metis length_b64_text, metis length_0_conv length_b64_text)
      then show False by simp
    qed
    ultimately show ?thesis using r by (auto simp: decoded_def)
  next
    case 3
    show ?thesis
    proof (cases "quad a b c d")
      case None
      have "a # b # c # d # xs \<noteq> b64_text ys" for ys
        using b64_text_quad [of ys a b c d xs] None by (metis option.distinct(1))
      then show ?thesis
        unfolding 3 dec_quad [OF less.prems] using None by (auto simp: decoded_def accepted_def dec_buffer_def)
    next
      case (Some bs)
      note bs = quad_text [OF Some]
      have pre: "length bs \<le> length ys \<and> (length bs < 3 \<longrightarrow> xs = [])" if "a # b # c # d # xs = b64_text ys" for ys
        by (rule b64_text_quad [OF that [symmetric]]) (use Some in auto)
      consider (full) "unat cap < k + length bs" | (last) "k + length bs \<le> unat cap" "length bs < 3" | (more) "k + 3 \<le> unat cap" "length bs = 3"
        using bs by linarith
      then show ?thesis
      proof cases
        case full
        then show ?thesis unfolding 3 dec_quad [OF less.prems] using Some pre by (fastforce simp: decoded_def accepted_def dec_buffer_def)
      next
        case last
        then have step: "dec_list False cap cs (at_quad k False m) = dec_list False cap xs (at_quad (k + length bs) True (stored m k bs))"
          unfolding 3 dec_quad [OF less.prems] using Some by simp
        have fr: "length (stored m k bs) = length m" "drop (unat cap) (stored m k bs) = drop (unat cap) m"
          using last(1) less.prems drop_stored [of k bs "unat cap" m] by simp_all
        show ?thesis
        proof (cases xs)
          case Nil
          have "cs = b64_text bs" using 3 Nil bs by simp
          then show ?thesis unfolding step using Nil last(1) fr by (auto simp: decoded_def accepted_def dec_buffer_def at_quad_def)
        next
          case (Cons y ys)
          then have "dec_list False cap cs (at_quad k False m) = Some (Inl (stored m k bs))"
            unfolding step by (simp add: b64_dec_char_def at_quad_def)
          moreover have "cs \<noteq> b64_text zs" for zs using pre [of zs] 3 Cons last(2) by auto
          ultimately show ?thesis using fr by (auto simp: decoded_def accepted_def dec_buffer_def)
        qed
      next
        case more
        have "\<exists>r. dec_list False cap xs (at_quad (k + 3) False (stored m k bs)) = Some r \<and> decoded cap xs (k + 3) (stored m k bs) r"
          by (rule less.hyps) (use 3 more less.prems in simp_all)
        then show ?thesis unfolding 3 dec_quad [OF less.prems] using Some more decoded_prefix [OF _ more(2,1) less.prems(2) Some] by auto
      qed
    qed
  qed
qed

section \<open>The codecs\<close>

text \<open>The characters a decoder looks at.\<close>

definition significant :: "bool \<Rightarrow> bytes \<Rightarrow> bytes" where
  "significant mime cs = (if mime then filter (\<lambda>c. \<not> b64_space c) cs else cs)"

lemma dec_list_significant: "dec_list mime cap cs d = dec_list False cap (significant mime cs) d"
  by (cases mime) (simp_all add: significant_def dec_list_mime)

lemma b64_text_no_space: "c \<in> set (b64_text bs) \<Longrightarrow> \<not> b64_space c"
proof -
  have "\<not> b64_space 61" by (simp add: b64_space_def)
  then show "c \<in> set (b64_text bs) \<Longrightarrow> \<not> b64_space c"
    by (induction bs rule: b64_text.induct) (auto simp: sextets_def b64_digit_val(3))
qed

lemma significant_text: "significant mime (b64_text bs) = b64_text bs"
  by (auto simp: significant_def filter_id_conv b64_text_no_space)

lemma b64_text_Nil: "b64_text bs = [] \<longleftrightarrow> bs = []"
  by (cases bs rule: b64_text.cases) (simp_all add: sextets_def)

lemma b64_text_inj: "b64_text as = b64_text bs \<Longrightarrow> as = bs"
proof (induction "length as" arbitrary: as bs rule: less_induct)
  case less
  consider "b64_text as = []" | a b c d cs where "b64_text as = a # b # c # d # cs"
    by (cases as rule: b64_text.cases) (auto simp: sextets_def)
  then show ?case
  proof cases
    case 1
    then show ?thesis using less.prems by (simp add: b64_text_Nil)
  next
    case 2
    obtain a1 a2 where a: "as = a1 @ a2" "quad a b c d = Some a1" "b64_text a2 = cs" using b64_text_quad [OF 2] by metis
    obtain b1 b2 where b: "bs = b1 @ b2" "quad a b c d = Some b1" "b64_text b2 = cs" using b64_text_quad [of bs] 2 less.prems by metis
    have "0 < length a1" using quad_text [OF a(2)] by simp
    then have "a2 = b2" using less.hyps [of a2 b2] a b by simp
    then show ?thesis using a b by simp
  qed
qed

lemma base64_decode_eq:
  assumes "unat dst_cap \<le> length m" and "unat src_len \<le> length src"
  shows "\<exists>r cap. base64_decode (Some m) dst_cap (Some src) src_len mime =
      Some (case accepted r of None \<Rightarrow> -1 | Some n \<Rightarrow> int n, Some (dec_buffer r)) \<and>
    unat cap = min (unat dst_cap) 2147483647 \<and> decoded cap (significant mime (take (unat src_len) src)) 0 m r"
proof -
  let ?cap = "if dst_cap > KCODEC_INT_MAX then KCODEC_INT_MAX else dst_cap" and ?cs = "significant mime (take (unat src_len) src)"
  have cap: "unat ?cap = min (unat dst_cap) 2147483647" by (simp add: KCODEC_INT_MAX_def word_less_nat_alt min_def)
  then have "unat ?cap \<le> length m" using assms(1) by simp
  then obtain r where r: "dec_list False ?cap ?cs (at_quad 0 False m) = Some r" "decoded ?cap ?cs 0 m r"
    using dec_list_text [of 0 ?cap m ?cs] by auto
  have loop: "b64_dec_loop mime ?cap src 0 (unat src_len) (at_quad 0 False m) = Some r"
    using r(1) b64_dec_loop_list [OF assms(2), of mime ?cap 0 "at_quad 0 False m"] dec_list_significant [of mime ?cap "take (unat src_len) src"] by simp
  have fits: "n \<le> 2147483647" if "accepted r = Some n" for n using r(2) that cap by (auto simp: decoded_def)
  have "base64_decode (Some m) dst_cap (Some src) src_len mime =
      Some (case accepted r of None \<Rightarrow> -1 | Some n \<Rightarrow> int n, Some (dec_buffer r))"
  proof (cases r)
    case (Inr d)
    then have "d_quad d \<noteq> 0 \<or> d_o d \<le> 2147483647" using fits [of "d_o d"] by (cases "d_quad d = 0") (simp_all add: accepted_def)
    then show ?thesis using loop Inr unfolding base64_decode_def Let_def at_quad_def [symmetric]
      by (auto simp: accepted_def dec_buffer_def KCODEC_INT_MAX_def split: if_splits)
  qed (use loop in \<open>simp add: base64_decode_def Let_def at_quad_def accepted_def dec_buffer_def\<close>)
  with cap r(2) show ?thesis by blast
qed

text \<open>C26: base64 decoding of arbitrary input. With a destination of \<open>dst_cap\<close> bytes the decoder never touches memory outside the two buffers
  and never a byte at or beyond \<open>dst_cap\<close>. It succeeds exactly if the input, without its whitespace in MIME mode, is the RFC 4648
  text of some byte string that fits; it then stores this string and returns its length, and otherwise returns -1. So in strict mode
  no two texts decode to the same bytes.\<close>

theorem base64_decode_correct:
  assumes "unat dst_cap \<le> length m" and "unat src_len \<le> length src"
  shows "\<exists>r m'. base64_decode (Some m) dst_cap (Some src) src_len mime = Some (r, Some m') \<and> length m' = length m \<and>
    drop (unat dst_cap) m' = drop (unat dst_cap) m \<and>
    ((\<exists>bs. significant mime (take (unat src_len) src) = b64_text bs \<and> length bs \<le> unat dst_cap \<and> length bs \<le> 2147483647 \<and>
        r = int (length bs) \<and> m' = bs @ drop (length bs) m) \<or>
     r = -1 \<and> (\<nexists>bs. significant mime (take (unat src_len) src) = b64_text bs \<and> length bs \<le> unat dst_cap \<and> length bs \<le> 2147483647))"
proof -
  let ?cs = "significant mime (take (unat src_len) src)"
  obtain r cap where r: "base64_decode (Some m) dst_cap (Some src) src_len mime =
      Some (case accepted r of None \<Rightarrow> -1 | Some n \<Rightarrow> int n, Some (dec_buffer r))"
    and cap: "unat cap = min (unat dst_cap) 2147483647" and dec: "decoded cap ?cs 0 m r"
    using base64_decode_eq [OF assms] by blast
  have "length (dec_buffer r) = length m" using dec by (simp add: decoded_def)
  moreover have "drop (unat dst_cap) (dec_buffer r) = drop (unat dst_cap) m"
  proof -
    have "drop (unat cap) (dec_buffer r) = drop (unat cap) m" using dec by (simp add: decoded_def)
    then have "drop (unat dst_cap - unat cap) (drop (unat cap) (dec_buffer r)) = drop (unat dst_cap - unat cap) (drop (unat cap) m)" by simp
    then show ?thesis using cap by simp
  qed
  moreover have "(\<exists>bs. ?cs = b64_text bs \<and> length bs \<le> unat dst_cap \<and> length bs \<le> 2147483647 \<and>
        (case accepted r of None \<Rightarrow> -1 | Some n \<Rightarrow> int n) = int (length bs) \<and> dec_buffer r = bs @ drop (length bs) m) \<or>
     (case accepted r of None \<Rightarrow> -1 | Some n \<Rightarrow> int n) = -1 \<and> (\<nexists>bs. ?cs = b64_text bs \<and> length bs \<le> unat dst_cap \<and> length bs \<le> 2147483647)"
  proof (cases "accepted r")
    case None
    then have "\<forall>bs. ?cs = b64_text bs \<longrightarrow> \<not> (length bs \<le> unat dst_cap \<and> length bs \<le> 2147483647)"
      using dec cap by (simp add: decoded_def) fastforce
    then show ?thesis using None by simp
  next
    case (Some n)
    then obtain bs where "?cs = b64_text bs" "n = length bs" "n \<le> unat cap" "dec_buffer r = stored m 0 bs"
      using dec by (auto simp: decoded_def)
    then show ?thesis using Some cap by (intro disjI1 exI [of _ bs]) (simp add: stored_def)
  qed
  ultimately show ?thesis using r by (intro exI conjI; assumption?)
qed

lemma sample_text: "b64_text [77, 97, 110, 77] = map of_char ''TWFuTQ==''"
  by (simp add: sextets_def group3_def b64_digit_def B64_ALPHABET_def)

theorem base64_decode_correct_witness:
  "\<exists>m'. base64_decode (Some (replicate 8 0)) 8 (Some (map of_char ''TWFu TQ=='')) 9 True = Some (4, Some ([77, 97, 110, 77] @ m'))"
proof -
  let ?s = "map of_char ''TWFu TQ==''"
  have s: "significant True (take (unat (9 :: u64)) ?s) = b64_text [77, 97, 110, 77]"
    unfolding sample_text by (simp add: significant_def b64_space_def)
  obtain r m' where d: "base64_decode (Some (replicate 8 0)) 8 (Some ?s) 9 True = Some (r, Some m')"
      "\<exists>bs. b64_text [77, 97, 110, 77] = b64_text bs \<and> r = int (length bs) \<and> m' = bs @ drop (length bs) (replicate 8 0)"
    using base64_decode_correct [of 8 "replicate 8 0" 9 ?s True] unfolding s by (fastforce simp del: b64_text.simps)
  then show ?thesis using b64_text_inj by fastforce
qed

lemma enc_out_len: "unat src_len \<le> 1610612733 \<Longrightarrow> unat ((src_len + 2) div 3 * 4 :: u64) = 4 * ((unat src_len + 2) div 3)"
  by (simp add: unat_word_ariths unat_div)

lemma base64_encode_fits:
  assumes "unat dst_cap \<le> length m" and "unat src_len \<le> length src"
    and "unat src_len \<le> 1610612733" and "4 * ((unat src_len + 2) div 3) \<le> unat dst_cap"
  shows "base64_encode (Some m) dst_cap (Some src) src_len =
    Some (int (4 * ((unat src_len + 2) div 3)), Some (stored m 0 (b64_text (take (unat src_len) src))))"
proof -
  have "\<not> src_len > 3 * (KCODEC_INT_MAX div 4)" using assms(3) by (simp add: KCODEC_INT_MAX_def word_less_nat_alt)
  moreover have "\<not> (src_len + 2) div 3 * 4 > dst_cap" using assms(4) enc_out_len [OF assms(3)] by (simp add: word_less_nat_alt)
  moreover have "Option.bind (b64_enc_groups src (unat src_len) 0 0 m) (\<lambda>(i, k, m). b64_enc_tail src (unat src_len) i k m) =
      Some (4 * ((unat src_len + 2) div 3), stored m 0 (b64_text (take (unat src_len) src)))"
    using b64_enc_loops [of 0 "unat src_len" src 0 m] assms by simp
  ultimately show ?thesis by (auto simp: base64_encode_def Let_def Option.bind_eq_Some_conv split: prod.splits)
qed

text \<open>Base64 encoding. With a destination of \<open>dst_cap\<close> bytes the encoder stores exactly the RFC 4648 text of the input and returns its
  length if it fits and that length is an \<open>int\<close>; otherwise it returns -1 and writes nothing. The size computations do not wrap for any
  64-bit length, and no byte behind the text is written.\<close>

theorem base64_encode_correct:
  assumes "unat dst_cap \<le> length m" and "unat src_len \<le> length src"
  shows "base64_encode (Some m) dst_cap (Some src) src_len =
    (let t = b64_text (take (unat src_len) src) in
     if unat src_len \<le> 1610612733 \<and> length t \<le> unat dst_cap then Some (int (length t), Some (t @ drop (length t) m)) else Some (-1, Some m))"
proof -
  have t: "length (b64_text (take (unat src_len) src)) = 4 * ((unat src_len + 2) div 3)" using assms(2) by (simp add: length_b64_text)
  consider (big) "unat src_len > 1610612733" | (small) "unat src_len \<le> 1610612733" "4 * ((unat src_len + 2) div 3) > unat dst_cap"
    | (fits) "unat src_len \<le> 1610612733" "4 * ((unat src_len + 2) div 3) \<le> unat dst_cap" by linarith
  then show ?thesis
  proof cases
    case big
    then have "src_len > 3 * (KCODEC_INT_MAX div 4)" by (simp add: KCODEC_INT_MAX_def word_less_nat_alt)
    then show ?thesis using big by (simp add: base64_encode_def Let_def)
  next
    case small
    then have "(src_len + 2) div 3 * 4 > dst_cap" using enc_out_len by (simp add: word_less_nat_alt)
    then show ?thesis using small t by (simp add: base64_encode_def Let_def)
  next
    case fits
    then show ?thesis using base64_encode_fits [OF assms fits] t by (simp add: Let_def stored_def)
  qed
qed

theorem base64_encode_correct_witness:
  "base64_encode (Some (replicate 10 0)) 10 (Some [77, 97, 110, 77]) 4 = Some (8, Some (map of_char ''TWFuTQ=='' @ replicate 2 0))"
proof -
  show ?thesis
    using base64_encode_correct [of 10 "replicate 10 0" 4 "[77, 97, 110, 77]"]
    by (simp add: sample_text del: b64_text.simps)
qed

text \<open>C40: base64 round trip. What \<open>base64_encode\<close> writes for any byte string, \<open>base64_decode\<close> turns back into that byte string, in both
  modes.\<close>

theorem base64_round_trip:
  assumes "length bs \<le> 1610612733" and "4 * ((length bs + 2) div 3) \<le> unat cap" "unat cap \<le> length m"
    and "length bs \<le> unat cap'" "unat cap' \<le> length m'"
  shows "\<exists>n t. base64_encode (Some m) cap (Some bs) (of_nat (length bs)) = Some (int n, Some t) \<and>
    base64_decode (Some m') cap' (Some t) (of_nat n) mime = Some (int (length bs), Some (bs @ drop (length bs) m'))"
proof -
  let ?t = "b64_text bs" and ?n = "4 * ((length bs + 2) div 3)"
  have n: "length ?t = ?n" "?n < 2 ^ 64" using assms(1) by (simp_all add: length_b64_text)
  have u: "unat (of_nat (length bs) :: u64) = length bs" "unat (of_nat ?n :: u64) = ?n"
    using assms(1) n(2) by (intro unat_of_nat_u64; simp)+
  have enc: "base64_encode (Some m) cap (Some bs) (of_nat (length bs)) = Some (int ?n, Some (stored m 0 ?t))"
    using base64_encode_fits [of cap m "of_nat (length bs)" bs] assms(1-3) u by simp
  have t: "take ?n (stored m 0 ?t) = ?t" "?n \<le> length (stored m 0 ?t)" using n(1) by (simp_all add: stored_def)
  obtain r c where dec: "base64_decode (Some m') cap' (Some (stored m 0 ?t)) (of_nat ?n) mime =
      Some (case accepted r of None \<Rightarrow> -1 | Some k \<Rightarrow> int k, Some (dec_buffer r))" and c: "unat c = min (unat cap') 2147483647" "decoded c ?t 0 m' r"
    using base64_decode_eq [OF assms(5), of "of_nat ?n" "stored m 0 ?t" mime] t u(2) by (auto simp: significant_text)
  then have "accepted r = Some (length bs)" "dec_buffer r = bs @ drop (length bs) m'"
    using assms(1,4) by (auto simp: decoded_def stored_def dest: b64_text_inj split: option.splits)
  then show ?thesis using enc dec by (intro exI [of _ ?n] exI [of _ "stored m 0 ?t"]) simp
qed

theorem base64_round_trip_witness:
  "\<exists>n t. base64_encode (Some (replicate 8 0)) 8 (Some [1, 2, 255]) 3 = Some (int n, Some t) \<and>
     base64_decode (Some (replicate 3 0)) 3 (Some t) (of_nat n) False = Some (3, Some [1, 2, 255])"
  using base64_round_trip [of "[1, 2, 255]" 8 "replicate 8 0" 3 "replicate 3 0" False] by simp

section \<open>Hexadecimal\<close>

definition hex_text :: "bytes \<Rightarrow> bytes" where
  "hex_text bs = concat (map (\<lambda>b. [hex_char (drop_bit 4 b), hex_char (b AND 0x0F)]) bs)"

lemma length_hex_text [simp]: "length (hex_text bs) = 2 * length bs"
  by (induction bs) (simp_all add: hex_text_def)

lemma hex_text_snoc: "hex_text (bs @ [b]) = hex_text bs @ [hex_char (drop_bit 4 b), hex_char (b AND 0x0F)]"
  by (simp add: hex_text_def)

lemma hex_text_Cons: "hex_text (b # bs) = hex_char (drop_bit 4 b) # hex_char (b AND 0x0F) # hex_text bs"
  by (simp add: hex_text_def)

lemma hex_text_nth: "i < length bs \<Longrightarrow> hex_text bs ! (2 * i) = hex_char (drop_bit 4 (bs ! i)) \<and> hex_text bs ! (2 * i + 1) = hex_char (bs ! i AND 0x0F)"
proof (induction bs arbitrary: i)
  case (Cons b bs)
  then show ?case by (cases i) (simp_all add: hex_text_Cons)
qed simp

lemma hex_halves: "hex_val (hex_char (drop_bit 4 b)) = uint b div 16" "hex_val (hex_char (b AND 0x0F)) = uint b mod 16"
proof -
  have v: "hex_val (hex_char w) = int (unat w)" if "unat w < 16" for w :: u8
    using bspec [OF hex_digits_ok, of "unat w"] that by simp
  have hi: "unat (drop_bit 4 b) = unat b div 16" unfolding unat_drop_bit_eq by (simp add: drop_bit_eq_div)
  have "(15 :: u8) = mask 4" by (simp add: mask_eq_exp_minus_1)
  then have lo: "unat (b AND 0x0F) = unat b mod 16"
    by (simp only: take_bit_eq_mask [symmetric] unsigned_take_bit_eq) (simp add: take_bit_eq_mod)
  show "hex_val (hex_char (drop_bit 4 b)) = uint b div 16"
    using v [of "drop_bit 4 b"] hi unat_u8_less [of b] by (simp add: zdiv_int)
  show "hex_val (hex_char (b AND 0x0F)) = uint b mod 16"
    using v [of "b AND 0x0F"] lo by (simp add: zmod_int)
qed

lemma hex_byte: "of_int (push_bit 4 (uint b div 16) OR uint b mod 16) = (b :: u8)"
proof -
  have "take_bit 4 (uint b) OR push_bit 4 (uint b div 16) = uint b"
    using concat_bit_eq [of 4 "uint b" "uint b div 16"] by (simp add: concat_bit_def take_bit_eq_mod push_bit_eq_mult)
  then show ?thesis by (simp add: or.commute take_bit_eq_mod)
qed

lemma hex_encode_eq:
  assumes "unat dst_cap \<le> length m" "unat src_len \<le> length src" "unat src_len \<le> 1073741823" "2 * unat src_len \<le> unat dst_cap"
  shows "hex_encode (Some m) dst_cap (Some src) src_len =
    Some (int (unat src_len * 2), Some (stored m 0 (hex_text (take (unat src_len) src))))"
proof -
  let ?f = "\<lambda>i m. do { b \<leftarrow> rd8 src i; m \<leftarrow> wr8 m (i * 2) (hex_char (drop_bit 4 b)); wr8 m (i * 2 + 1) (hex_char (b AND 0x0F)) }"
  have "\<exists>m'. for_upto 0 (unat src_len) ?f m = Some m' \<and> m' = stored m 0 (hex_text (take (unat src_len) src))"
  proof (rule for_upto_inv)
    show "m = stored m 0 (hex_text (take 0 src))" by (simp add: hex_text_def)
    fix k t assume k: "0 \<le> k" "k < unat src_len" and t: "t = stored m 0 (hex_text (take k src))"
    have "take (Suc k) src = take k src @ [src ! k]" using k(2) assms(2) by (simp add: take_Suc_conv_app_nth)
    then show "\<exists>t'. ?f k t = Some t' \<and> t' = stored m 0 (hex_text (take (Suc k) src))"
      using k(2) assms t wr_bytes_seq [of t "k * 2" "[hex_char (drop_bit 4 (src ! k))]" "[hex_char (src ! k AND 0x0F)]"]
        stored_append [of 0 "hex_text (take k src)" "[hex_char (drop_bit 4 (src ! k)), hex_char (src ! k AND 0x0F)]" m]
      by (simp add: rd8_ok wr8_def hex_text_snoc wr_bytes_stored mult.commute)
  qed simp
  moreover have "\<not> src_len > KCODEC_INT_MAX div 2" "\<not> src_len * 2 > dst_cap"
    using assms(3,4) by (simp_all add: KCODEC_INT_MAX_def word_less_nat_alt unat_word_ariths)
  ultimately show ?thesis by (simp add: hex_encode_def)
qed

lemma hex_dec_loop_text:
  assumes "i \<le> length bs" "length bs \<le> length m"
  shows "hex_dec_loop (hex_text bs @ rest) i (length bs) (stored m 0 (take i bs)) = Some (Inr (stored m 0 bs))"
  using assms
proof (induction "length bs - i" arbitrary: i)
  case 0
  then show ?case by (simp add: hex_dec_loop.simps)
next
  case (Suc k)
  then have i: "i < length bs" by simp
  then have nth: "hex_text bs ! (2 * i) = hex_char (drop_bit 4 (bs ! i))" "hex_text bs ! (2 * i + 1) = hex_char (bs ! i AND 0x0F)"
    using hex_text_nth [of i bs] by simp_all
  have "take (Suc i) bs = take i bs @ [bs ! i]" using i by (simp add: take_Suc_conv_app_nth)
  then have "wr8 (stored m 0 (take i bs)) i (bs ! i) = Some (stored m 0 (take (Suc i) bs))"
    using i Suc.prems stored_append [of 0 "take i bs" "[bs ! i]" m] by (simp add: wr8_def wr_bytes_stored)
  then show ?case
    using Suc i nth by (simp add: hex_dec_loop.simps [of _ i] rd8_ok nth_append hex_halves hex_byte mult.commute Let_def
        pos_imp_zdiv_neg_iff)
qed

text \<open>Hexadecimal round trip. \<open>hex_encode\<close> writes two lower-case digits per byte, whatever the bytes, and \<open>hex_decode\<close> of that
  text returns the bytes; neither writes behind its result.\<close>

theorem hex_round_trip:
  assumes "length bs \<le> 1073741823" and "2 * length bs \<le> unat cap" "unat cap \<le> length m"
    and "length bs \<le> unat cap'" "unat cap' \<le> length m'"
  shows "\<exists>t. hex_encode (Some m) cap (Some bs) (of_nat (length bs)) = Some (int (2 * length bs), Some t) \<and>
    drop (2 * length bs) t = drop (2 * length bs) m \<and>
    hex_decode (Some m') cap' (Some t) (of_nat (2 * length bs)) = Some (int (length bs), Some (bs @ drop (length bs) m'))"
proof -
  let ?n = "length bs" and ?t = "stored m 0 (hex_text bs)"
  have u: "unat (of_nat ?n :: u64) = ?n" "unat (of_nat (2 * ?n) :: u64) = 2 * ?n" using assms(1) by (intro unat_of_nat_u64; simp)+
  have enc: "hex_encode (Some m) cap (Some bs) (of_nat ?n) = Some (int (2 * ?n), Some ?t)"
    using hex_encode_eq [of cap m "of_nat ?n" bs] assms u(1) by (simp add: mult.commute)
  have half: "unat (of_nat (2 * ?n) div 2 :: u64) = ?n" using u(2) by (simp add: unat_div)
  have even: "(of_nat (2 * ?n) :: u64) AND 1 = 0" by (simp only: and_one_eq word_unat_eq_iff unat_mod u(2)) simp
  have "hex_dec_loop ?t 0 ?n m' = Some (Inr (stored m' 0 bs))"
    using hex_dec_loop_text [of 0 bs m' "drop (2 * ?n) m"] assms(4,5) by (simp add: stored_def)
  moreover have "\<not> of_nat (2 * ?n) div 2 > KCODEC_INT_MAX" "\<not> of_nat (2 * ?n) div 2 > cap'"
    using half assms(1,4) by (simp_all add: KCODEC_INT_MAX_def word_less_nat_alt)
  ultimately have "hex_decode (Some m') cap' (Some ?t) (of_nat (2 * ?n)) = Some (int ?n, Some (bs @ drop ?n m'))"
    using half even by (simp add: hex_decode_def Let_def stored_def)
  then show ?thesis using enc by (intro exI [of _ ?t]) (simp add: stored_def)
qed

theorem hex_round_trip_witness:
  "\<exists>t. hex_encode (Some (replicate 8 0)) 8 (Some [1, 2, 255]) 3 = Some (6, Some t) \<and>
     hex_decode (Some (replicate 3 0)) 3 (Some t) 6 = Some (3, Some [1, 2, 255])"
  using hex_round_trip [of "[1, 2, 255]" 8 "replicate 8 0" 3 "replicate 3 0"] by auto

end
