(* ===== verification/Kchecksum_Facts.thy ===== *)
theory Kchecksum_Facts
  imports Kchecksum
begin

text \<open>
  The checksums against their definition, the division of the message by the generator polynomial one bit at a time (least significant bit first).
\<close>

section \<open>The definition\<close>

definition crc_bit :: "u32 \<Rightarrow> u32 \<Rightarrow> u32" where
  "crc_bit poly c = drop_bit 1 c XOR (if bit c 0 then poly else 0)"

fun crc_bits :: "u32 \<Rightarrow> nat \<Rightarrow> u32 \<Rightarrow> u32" where
  "crc_bits poly 0 c = c"
| "crc_bits poly (Suc n) c = crc_bits poly n (crc_bit poly c)"

definition crc_byte :: "u32 \<Rightarrow> u32 \<Rightarrow> u8 \<Rightarrow> u32" where
  "crc_byte poly c b = crc_bits poly 8 (c XOR ucast b)"

definition crc_bytes :: "u32 \<Rightarrow> u32 \<Rightarrow> bytes \<Rightarrow> u32" where
  "crc_bytes poly c bs = foldl (crc_byte poly) c bs"

definition IEEE :: u32 where "IEEE = 0xEDB88320"
definition CASTAGNOLI :: u32 where "CASTAGNOLI = 0x82F63B78"

definition crc_of :: "u32 \<Rightarrow> u32 \<Rightarrow> bytes \<Rightarrow> u32" where
  "crc_of poly crc bs = crc_bytes poly (crc XOR 0xFFFFFFFF) bs XOR 0xFFFFFFFF"

section \<open>Linearity\<close>

lemma crc_bit_xor: "crc_bit poly (c XOR d) = crc_bit poly c XOR crc_bit poly d"
  by (rule bit_word_eqI) (auto simp: crc_bit_def bit_simps)

lemma crc_bits_xor: "crc_bits poly n (c XOR d) = crc_bits poly n c XOR crc_bits poly n d"
  by (induction n arbitrary: c d) (simp_all add: crc_bit_xor)

lemma crc_bits_8: "crc_bits poly 8 c = crc_bit poly (crc_bit poly (crc_bit poly (crc_bit poly (crc_bit poly (crc_bit poly (crc_bit poly (crc_bit poly c)))))))"
  by (simp add: numeral_eq_Suc)

text \<open>While the low bits are zero, the division only shifts.\<close>

lemma crc_bits_shift: "(\<And>i. i < n \<Longrightarrow> \<not> bit c i) \<Longrightarrow> crc_bits poly n c = drop_bit n c"
proof (induction n arbitrary: c)
  case (Suc n)
  have "crc_bit poly c = drop_bit 1 c" using Suc.prems [of 0] by (simp add: crc_bit_def)
  moreover have "\<not> bit (drop_bit 1 c) i" if "i < n" for i using Suc.prems [of "Suc i"] that by (simp add: bit_simps)
  ultimately show ?case using Suc.IH [of "drop_bit 1 c"] by (simp add: ac_simps)
qed simp

lemma crc_bits_low: "crc_bits poly 8 c = drop_bit 8 c XOR crc_bits poly 8 (c AND 0xFF)"
proof -
  have m: "(0xFF :: u32) = mask 8" by (simp add: mask_eq_exp_minus_1)
  have "c = (c AND NOT 0xFF) XOR (c AND 0xFF)" by (rule bit_word_eqI) (auto simp: bit_simps)
  then have "crc_bits poly 8 c = crc_bits poly 8 (c AND NOT 0xFF) XOR crc_bits poly 8 (c AND 0xFF)" by (metis crc_bits_xor)
  also have "crc_bits poly 8 (c AND NOT 0xFF) = drop_bit 8 (c AND NOT 0xFF)" unfolding m by (rule crc_bits_shift) (simp add: bit_simps)
  also have "drop_bit 8 (c AND NOT 0xFF) = drop_bit 8 c" unfolding m by (rule bit_word_eqI) (auto simp: bit_simps dest: bit_imp_le_length)
  finally show ?thesis .
qed

section \<open>The tables\<close>

text \<open>A table of a linear function is built by doubling from the values at the powers of two.\<close>

definition dbl :: "u32 \<Rightarrow> u32 list \<Rightarrow> u32 list" where "dbl t xs = xs @ map (\<lambda>x. x XOR t) xs"

definition tab_of :: "u32 \<Rightarrow> nat \<Rightarrow> u32 list \<Rightarrow> bool" where
  "tab_of poly k xs \<longleftrightarrow> length xs = 2 ^ k \<and> (\<forall>i < 2 ^ k. xs ! i = crc_bits poly 8 (of_nat i))"

lemma pow_xor:
  assumes "j < 2 ^ k" "k < 32"
  shows "(of_nat (2 ^ k + j) :: u32) = of_nat j XOR 2 ^ k"
proof -
  have "of_nat j AND (2 ^ k :: u32) = 0"
  proof (rule bit_word_eqI)
    fix n
    have "\<not> bit j k" using assms(1) by (simp add: bit_iff_odd)
    then show "bit (of_nat j AND (2 ^ k :: u32)) n = bit 0 n" by (auto simp: bit_simps bit_of_nat_iff)
  qed
  then show ?thesis using disjunctive_add_eq_xor [of "of_nat j" "2 ^ k :: u32"] by (simp add: add.commute)
qed

lemma tab_of_dbl:
  assumes "tab_of poly k xs" "crc_bits poly 8 (2 ^ k) = t" "k < 32" "n = Suc k"
  shows "tab_of poly n (dbl t xs)"
proof -
  have "dbl t xs ! i = crc_bits poly 8 (of_nat i)" if i: "i < 2 ^ Suc k" for i
  proof (cases "i < 2 ^ k")
    case True
    then show ?thesis using assms(1) by (simp add: dbl_def tab_of_def nth_append)
  next
    case False
    define j where "j = i - 2 ^ k"
    have j: "i = 2 ^ k + j" "j < 2 ^ k" using False i by (simp_all add: j_def)
    then show ?thesis using assms pow_xor [OF j(2) assms(3)] by (simp add: dbl_def tab_of_def nth_append crc_bits_xor del: of_nat_add)
  qed
  then show ?thesis using assms(1,4) by (simp add: tab_of_def dbl_def)
qed

lemma crc_bits_zero [simp]: "crc_bits poly n 0 = 0"
  by (induction n) (simp_all add: crc_bit_def)

lemma tab_of_single: "tab_of poly 0 [0]"
  by (simp add: tab_of_def)

lemma ieee_dbl: "k_crc32_ieee = dbl 0xEDB88320 (dbl 0x76DC4190 (dbl 0x3B6E20C8 (dbl 0x1DB71064 (dbl 0x0EDB8832 (dbl 0x076DC419 (dbl 0xEE0E612C (dbl 0x77073096 [0])))))))"
  by (simp add: k_crc32_ieee_def dbl_def)

lemma ieee_basis: "crc_bits IEEE 8 (2 ^ 0) = 0x77073096" "crc_bits IEEE 8 (2 ^ 1) = 0xEE0E612C" "crc_bits IEEE 8 (2 ^ 2) = 0x076DC419" "crc_bits IEEE 8 (2 ^ 3) = 0x0EDB8832" "crc_bits IEEE 8 (2 ^ 4) = 0x1DB71064" "crc_bits IEEE 8 (2 ^ 5) = 0x3B6E20C8" "crc_bits IEEE 8 (2 ^ 6) = 0x76DC4190" "crc_bits IEEE 8 (2 ^ 7) = 0xEDB88320"
  by (simp_all add: crc_bits_8 crc_bit_def IEEE_def)

lemma castagnoli_dbl: "k_crc32c_tab = dbl 0x82F63B78 (dbl 0x417B1DBC (dbl 0x20BD8EDE (dbl 0x105EC76F (dbl 0x8AD958CF (dbl 0xC79A971F (dbl 0xE13B70F7 (dbl 0xF26B8303 [0])))))))"
  by (simp add: k_crc32c_tab_def dbl_def)

lemma castagnoli_basis: "crc_bits CASTAGNOLI 8 (2 ^ 0) = 0xF26B8303" "crc_bits CASTAGNOLI 8 (2 ^ 1) = 0xE13B70F7" "crc_bits CASTAGNOLI 8 (2 ^ 2) = 0xC79A971F" "crc_bits CASTAGNOLI 8 (2 ^ 3) = 0x8AD958CF" "crc_bits CASTAGNOLI 8 (2 ^ 4) = 0x105EC76F" "crc_bits CASTAGNOLI 8 (2 ^ 5) = 0x20BD8EDE" "crc_bits CASTAGNOLI 8 (2 ^ 6) = 0x417B1DBC" "crc_bits CASTAGNOLI 8 (2 ^ 7) = 0x82F63B78"
  by (simp_all add: crc_bits_8 crc_bit_def CASTAGNOLI_def)

lemma tables: "tab_of IEEE 8 k_crc32_ieee" "tab_of CASTAGNOLI 8 k_crc32c_tab"
  unfolding ieee_dbl castagnoli_dbl
  by (rule tab_of_dbl [OF _ ieee_basis(8)], rule tab_of_dbl [OF _ ieee_basis(7)], rule tab_of_dbl [OF _ ieee_basis(6)], rule tab_of_dbl [OF _ ieee_basis(5)], rule tab_of_dbl [OF _ ieee_basis(4)], rule tab_of_dbl [OF _ ieee_basis(3)], rule tab_of_dbl [OF _ ieee_basis(2)], rule tab_of_dbl [OF _ ieee_basis(1)],
      rule tab_of_single; simp)
    (rule tab_of_dbl [OF _ castagnoli_basis(8)], rule tab_of_dbl [OF _ castagnoli_basis(7)], rule tab_of_dbl [OF _ castagnoli_basis(6)], rule tab_of_dbl [OF _ castagnoli_basis(5)], rule tab_of_dbl [OF _ castagnoli_basis(4)], rule tab_of_dbl [OF _ castagnoli_basis(3)], rule tab_of_dbl [OF _ castagnoli_basis(2)], rule tab_of_dbl [OF _ castagnoli_basis(1)],
      rule tab_of_single; simp)

section \<open>The loops\<close>

lemma unat_low: "unat (c AND 0xFF :: u32) < 256"
proof -
  have "(0xFF :: u32) = mask 8" by (simp add: mask_eq_exp_minus_1)
  then have "c AND 0xFF = take_bit 8 c" by (simp add: take_bit_eq_mask)
  also have "\<dots> = c mod 256" by (simp add: take_bit_eq_mod)
  finally have "unat (c AND 0xFF) = unat c mod 256" by (simp add: unat_mod)
  then show ?thesis by simp
qed

lemma tab_step_eq:
  assumes "tab_of poly 8 tab" "i < length p"
  shows "tab_step tab p i c = Some (crc_byte poly c (p ! i))"
proof -
  let ?d = "c XOR ucast (p ! i)"
  have k: "unat (?d AND 0xFF) < 256" by (rule unat_low)
  have t: "length tab = 256" "tab ! unat (?d AND 0xFF) = crc_bits poly 8 (?d AND 0xFF)"
    using assms(1) k by (simp_all add: tab_of_def)
  have "drop_bit 8 ?d = drop_bit 8 c" by (rule bit_word_eqI) (auto simp: bit_simps dest: bit_imp_le_length)
  then show ?thesis using assms(2) k t crc_bits_low [of poly ?d] by (simp add: tab_step_def rd8_ok crc_byte_def Let_def)
qed

lemma tab_loop:
  assumes "tab_of poly 8 tab" "n \<le> length p"
  shows "for_upto 0 n (tab_step tab p) c = Some (crc_bytes poly c (take n p))"
proof -
  have "\<exists>d. for_upto 0 n (tab_step tab p) c = Some d \<and> d = crc_bytes poly c (take n p)"
  proof (rule for_upto_inv)
    fix k t assume "k < n" and t: "t = crc_bytes poly c (take k p)"
    then have k: "k < length p" using assms(2) by simp
    then show "\<exists>t'. tab_step tab p k t = Some t' \<and> t' = crc_bytes poly c (take (Suc k) p)"
      using tab_step_eq [OF assms(1) k] t by (simp add: take_Suc_conv_app_nth crc_bytes_def)
  qed (simp_all add: crc_bytes_def)
  then show ?thesis by simp
qed

text \<open>What the manual of the processor says of the two instructions: they divide by the Castagnoli polynomial, the bytes of a word in the order of memory.\<close>

definition bytes_of :: "u64 \<Rightarrow> bytes" where
  "bytes_of v = enc32 (ucast v) @ enc32 (ucast (drop_bit 32 v))"

definition sse42_ok :: "sse42 \<Rightarrow> bool" where
  "sse42_ok cpu \<longleftrightarrow> (\<forall>c v. crc32q cpu (ucast (c :: u32)) v = ucast (crc_bytes CASTAGNOLI c (bytes_of v))) \<and> (\<forall>c b. crc32b cpu c b = crc_byte CASTAGNOLI c b)"

lemma crc_bytes_append: "crc_bytes poly c (xs @ ys) = crc_bytes poly (crc_bytes poly c xs) ys"
  by (simp add: crc_bytes_def)

lemma ucast_32_64: "ucast (ucast (w :: u32) :: u64) = w"
  by (rule bit_word_eqI) (auto simp: bit_simps)

lemma enc_dec_at:
  assumes "i + 4 \<le> length p"
  shows "\<exists>v. rd32 p i = Some v \<and> enc32 v = take 4 (drop i p)"
proof -
  have "enc32 (dec32 a b c d) = [a, b, c, d]" for a b c d
  proof -
    have "ucast (dec32 a b c d) = a" by (rule bit_word_eqI) (auto simp: dec32_def bit_simps dest: bit_imp_le_length)
    moreover have "ucast (drop_bit 8 (dec32 a b c d)) = b" by (rule bit_word_eqI) (auto simp: dec32_def bit_simps dest: bit_imp_le_length)
    moreover have "ucast (drop_bit 16 (dec32 a b c d)) = c" by (rule bit_word_eqI) (auto simp: dec32_def bit_simps dest: bit_imp_le_length)
    moreover have "ucast (drop_bit 24 (dec32 a b c d)) = d" by (rule bit_word_eqI) (auto simp: dec32_def bit_simps dest: bit_imp_le_length)
    ultimately show ?thesis by (simp add: enc32_def)
  qed
  moreover have "take 4 (drop i p) = [p ! i, p ! (i + 1), p ! (i + 2), p ! (i + 3)]"
    using assms by (intro nth_equalityI) (auto simp: less_Suc_eq numeral_eq_Suc nth_Cons split: nat.splits)
  ultimately show ?thesis using assms by (simp add: rd32_def)
qed

lemma load64_eq:
  assumes "i + 8 \<le> length p"
  shows "\<exists>v. load64 p i = Some v \<and> bytes_of v = take 8 (drop i p)"
proof -
  obtain lo where lo: "rd32 p i = Some lo" "enc32 lo = take 4 (drop i p)" using enc_dec_at [of i p] assms by auto
  obtain hi where hi: "rd32 p (i + 4) = Some hi" "enc32 hi = take 4 (drop (i + 4) p)" using enc_dec_at [of "i + 4" p] assms by auto
  have "ucast (ucast lo OR push_bit 32 (ucast hi) :: u64) = lo" by (rule bit_word_eqI) (auto simp: bit_simps)
  moreover have "ucast (drop_bit 32 (ucast lo OR push_bit 32 (ucast hi) :: u64)) = hi" by (rule bit_word_eqI) (auto simp: bit_simps dest: bit_imp_le_length)
  moreover have "take 8 (drop i p) = take 4 (drop i p) @ take 4 (drop (i + 4) p)"
    using take_add [of 4 4 "drop i p"] by (simp add: add.commute)
  ultimately show ?thesis using lo hi by (simp add: load64_def bytes_of_def)
qed

lemma hw_eq:
  assumes "sse42_ok cpu" "i + n \<le> length p"
  shows "k_crc32c_hw cpu c p i n = Some (crc_bytes CASTAGNOLI c (take n (drop i p)))"
  using assms(2)
proof (induction n arbitrary: c i rule: less_induct)
  case (less n)
  consider "8 \<le> n" | "n < 8" "0 < n" | "n = 0" by linarith
  then show ?case
  proof cases
    case 1
    obtain v where v: "load64 p i = Some v" "bytes_of v = take 8 (drop i p)" using load64_eq [of i p] less.prems 1 by auto
    have "take n (drop i p) = take 8 (drop i p) @ take (n - 8) (drop (i + 8) p)" using take_add [of 8 "n - 8" "drop i p"] 1 by (simp add: add.commute)
    moreover have "ucast (crc32q cpu (ucast c) v) = crc_bytes CASTAGNOLI c (take 8 (drop i p))" using assms(1) v(2) by (simp add: sse42_ok_def ucast_32_64)
    ultimately show ?thesis using 1 v(1) less.IH [of "n - 8" "i + 8"] less.prems by (subst k_crc32c_hw.simps) (simp add: crc_bytes_append Let_def)
  next
    case 2
    have "take n (drop i p) = p ! i # take (n - 1) (drop (i + 1) p)" using 2 less.prems by (cases n) (simp_all add: Cons_nth_drop_Suc [symmetric])
    moreover have "crc32b cpu c (p ! i) = crc_byte CASTAGNOLI c (p ! i)" using assms(1) by (simp add: sse42_ok_def)
    ultimately show ?thesis using 2 less.IH [of "n - 1" "i + 1"] less.prems by (subst k_crc32c_hw.simps) (simp add: rd8_ok crc_bytes_def)
  next
    case 3
    then show ?thesis by (subst k_crc32c_hw.simps) (simp add: crc_bytes_def)
  qed
qed

section \<open>Detection of errors\<close>

lemma xor_cancel: "(x XOR z = y XOR z) \<longleftrightarrow> x = (y :: u32)" "(z XOR x = z XOR y) \<longleftrightarrow> x = (y :: u32)"
  by (auto simp: bit_eq_iff bit_simps)

lemma crc_bit_inj: "bit poly 31 \<Longrightarrow> inj (crc_bit poly)"
proof (rule injI)
  fix c d assume p: "bit poly 31" and e: "crc_bit poly c = crc_bit poly d"
  have top: "bit (crc_bit poly x) 31 \<longleftrightarrow> bit x 0" for x using p by (auto simp: crc_bit_def bit_simps dest: bit_imp_le_length)
  then have b0: "bit c 0 \<longleftrightarrow> bit d 0" using e by metis
  have "drop_bit 1 c = drop_bit 1 d" using e b0 by (simp add: crc_bit_def xor_cancel split: if_splits)
  show "c = d"
  proof (rule bit_word_eqI)
    fix n assume "n < LENGTH(32)"
    show "bit c n = bit d n"
    proof (cases n)
      case (Suc m)
      then show ?thesis using arg_cong [OF \<open>drop_bit 1 c = drop_bit 1 d\<close>, of "\<lambda>x. bit x m"] by (simp add: bit_simps)
    qed (use b0 in simp)
  qed
qed

lemma crc_bits_inj: "bit poly 31 \<Longrightarrow> crc_bits poly n c = crc_bits poly n d \<Longrightarrow> c = d"
proof (induction n arbitrary: c d)
  case (Suc n)
  then have "crc_bit poly c = crc_bit poly d" using Suc.IH [OF Suc.prems(1)] by simp
  then show ?case by (rule injD [OF crc_bit_inj [OF Suc.prems(1)]])
qed simp

lemma crc_byte_inj:
  assumes "bit poly 31" "crc_byte poly c b = crc_byte poly d b"
  shows "c = d"
  using crc_bits_inj [OF assms(1) assms(2) [unfolded crc_byte_def]] by (simp only: xor_cancel)

lemma crc_byte_differs:
  assumes "bit poly 31" "crc_byte poly c a = crc_byte poly c b"
  shows "a = b"
proof -
  have "(ucast a :: u32) = ucast b" using crc_bits_inj [OF assms(1) assms(2) [unfolded crc_byte_def]] by (simp only: xor_cancel)
  then show "a = b" by (metis unat_ucast_8_32 unsigned_word_eqI)
qed

lemma crc_bytes_inj: "bit poly 31 \<Longrightarrow> crc_bytes poly c bs = crc_bytes poly d bs \<Longrightarrow> c = d"
  proof (induction bs arbitrary: c d)
  case (Cons b bs)
  then have "crc_byte poly c b = crc_byte poly d b" by (simp add: crc_bytes_def)
  then show ?case by (rule crc_byte_inj [OF Cons.prems(1)])
qed (simp add: crc_bytes_def)

lemma crc_bytes_change:
  assumes "bit poly 31" "i < length bs" "v \<noteq> bs ! i"
  shows "crc_bytes poly c (bs[i := v]) \<noteq> crc_bytes poly c bs"
proof
  assume e: "crc_bytes poly c (bs[i := v]) = crc_bytes poly c bs"
  have "bs = take i bs @ bs ! i # drop (Suc i) bs" using assms(2) by (rule id_take_nth_drop)
  moreover have "bs[i := v] = take i bs @ v # drop (Suc i) bs" using assms(2) by (rule upd_conv_take_nth_drop)
  ultimately have "crc_bytes poly (crc_bytes poly c (take i bs)) (v # drop (Suc i) bs) = crc_bytes poly (crc_bytes poly c (take i bs)) (bs ! i # drop (Suc i) bs)"
    using e by (metis crc_bytes_append)
  then have "crc_byte poly (crc_bytes poly c (take i bs)) v = crc_byte poly (crc_bytes poly c (take i bs)) (bs ! i)"
    using crc_bytes_inj [OF assms(1)] by (simp add: crc_bytes_def)
  then show False using crc_byte_differs [OF assms(1)] assms(3) by blast
qed

section \<open>The checksums\<close>

lemma kcrc32_cont_eq: "n \<le> length p \<Longrightarrow> kcrc32_cont crc p n = Some (crc_of IEEE crc (take n p))"
  by (simp add: kcrc32_cont_def tab_loop [OF tables(1)] crc_of_def)

lemma kcrc32c_cont_eq: "n \<le> length p \<Longrightarrow> (sse \<longrightarrow> sse42_ok cpu) \<Longrightarrow> kcrc32c_cont cpu sse crc p n = Some (crc_of CASTAGNOLI crc (take n p))"
  by (simp add: kcrc32c_cont_def Let_def k_crc32c_sw_def tab_loop [OF tables(2)] hw_eq crc_of_def)

lemma crc_of_append: "crc_of poly crc (xs @ ys) = crc_of poly (crc_of poly crc xs) ys"
  by (simp add: crc_of_def crc_bytes_append xor.assoc)

lemma crc_of_change: "bit poly 31 \<Longrightarrow> i < length bs \<Longrightarrow> v \<noteq> bs ! i \<Longrightarrow> crc_of poly crc (bs[i := v]) \<noteq> crc_of poly crc bs"
  by (simp add: crc_of_def xor_cancel crc_bytes_change)

lemma generators: "bit IEEE 31" "bit CASTAGNOLI 31"
  by (simp_all add: IEEE_def CASTAGNOLI_def)

text \<open>
  C27: the table-driven CRC-32 and CRC-32C of a buffer are the remainders of the bitwise division by the IEEE and the Castagnoli polynomial; the hardware and the software
  path of CRC-32C agree (with the SSE4.2 instructions as documented); and a checksum continued over a second buffer is the checksum of the two buffers in one.
\<close>

theorem kcrc_correct:
  assumes "n \<le> length p" "sse42_ok cpu"
  shows "kcrc32 p n = Some (crc_of IEEE 0 (take n p))
       \<and> kcrc32c cpu sse p n = Some (crc_of CASTAGNOLI 0 (take n p))
       \<and> kcrc32c_hw_test cpu p n = kcrc32c_sw_test p n
       \<and> (kcrc32 p n \<bind> (\<lambda>c. kcrc32_cont c q (length q))) = kcrc32 (take n p @ q) (n + length q)
       \<and> (kcrc32c cpu sse p n \<bind> (\<lambda>c. kcrc32c_cont cpu sse' c q (length q))) = kcrc32c cpu sse'' (take n p @ q) (n + length q)"
proof -
  have l: "n + length q \<le> length (take n p @ q)" "take (n + length q) (take n p @ q) = take n p @ q" using assms(1) by simp_all
  show ?thesis
    using assms l kcrc32_cont_eq [OF assms(1)] kcrc32c_cont_eq [OF assms(1)] kcrc32_cont_eq [of "length q" q] kcrc32c_cont_eq [of "length q" q]
      kcrc32_cont_eq [OF l(1)] kcrc32c_cont_eq [OF l(1)]
    by (simp add: kcrc32_def kcrc32c_def kcrc32c_hw_test_def kcrc32c_sw_test_def k_crc32c_sw_def tab_loop [OF tables(2)] hw_eq crc_of_append)
qed

definition documented_cpu :: sse42 where
  "documented_cpu = \<lparr>crc32q = \<lambda>c v. ucast (crc_bytes CASTAGNOLI (ucast c) (bytes_of v)), crc32b = crc_byte CASTAGNOLI\<rparr>"

lemma documented_cpu_ok: "sse42_ok documented_cpu"
  by (simp add: sse42_ok_def documented_cpu_def ucast_32_64)

definition check_input :: bytes where "check_input = [0x31, 0x32, 0x33, 0x34, 0x35, 0x36, 0x37, 0x38, 0x39]"

lemma crc_check_values: "crc_of IEEE 0 check_input = 0xCBF43926" "crc_of CASTAGNOLI 0 check_input = 0xE3069283"
  by (simp_all add: crc_of_def crc_bytes_def crc_byte_def crc_bits_8 crc_bit_def check_input_def IEEE_def CASTAGNOLI_def)

theorem kcrc_correct_witness:
  "kcrc32 check_input 9 = Some 0xCBF43926 \<and> kcrc32c documented_cpu True check_input 9 = Some 0xE3069283
   \<and> kcrc32c_hw_test documented_cpu check_input 9 = kcrc32c_sw_test check_input 9"
proof -
  have "length check_input = 9" by (simp add: check_input_def)
  then show ?thesis using kcrc_correct [of 9 check_input documented_cpu True "[]" True True, OF _ documented_cpu_ok] crc_check_values by simp
qed

text \<open>
  C28: a change confined to one byte of the data is always detected: neither checksum of the changed data is that of the original, whatever the checksum it continues,
  and whichever path computes either of them.
\<close>

theorem kcrc_detects_byte:
  assumes "n \<le> length p" "i < n" "v \<noteq> p ! i" "sse42_ok cpu"
  shows "kcrc32_cont crc (p[i := v]) n \<noteq> kcrc32_cont crc p n
       \<and> kcrc32c_cont cpu sse crc (p[i := v]) n \<noteq> kcrc32c_cont cpu sse' crc p n"
proof -
  have t: "take n (p[i := v]) = (take n p)[i := v]" using assms(2) by (simp add: take_update_swap)
  have "i < length (take n p)" "v \<noteq> take n p ! i" using assms(1-3) by simp_all
  then show ?thesis using assms(1,4) crc_of_change [OF generators(1)] crc_of_change [OF generators(2)] t
    by (simp add: kcrc32_cont_eq kcrc32c_cont_eq)
qed

theorem kcrc_detects_byte_witness:
  "kcrc32_cont 0 (check_input[3 := 0x35]) 9 \<noteq> kcrc32_cont 0 check_input 9
   \<and> kcrc32c_cont documented_cpu True 0 (check_input[3 := 0x35]) 9 \<noteq> kcrc32c_cont documented_cpu False 0 check_input 9"
  using kcrc_detects_byte [where n = 9 and p = check_input and i = 3 and v = "0x35" and cpu = documented_cpu, OF _ _ _ documented_cpu_ok] by (simp add: check_input_def)

end
