(* ===== verification/Ex_Avl.thy ===== *)
theory Ex_Avl
  imports Kernel_Prelude
begin

text \<open>
  \<open>src/kernel/ex/ex_avltable.c\<close>: the balanced generic table \<open>RTL_AVL_TABLE\<close>, at the level of its pointers. Nodes
  live in a heap from addresses to \<open>RTL_BALANCED_LINKS\<close>, 0 is the null pointer, and reading or writing a node that is not
  allocated is the value \<^term>\<open>None\<close>; so is a loop that does not end, since the loops over the links are
  partial functions. The compare routine of the caller is a function of the two elements, the node its
  allocate routine returns is an argument of the insertion, and its free routine takes the node out of the heap. Heights are
  integers: a cached \<open>int32_t\<close> height never comes near the bounds of its type.
\<close>

section \<open>Nodes and tables\<close>

datatype RTL_GENERIC_COMPARE_RESULTS = RtlGenericLessThan | RtlGenericGreaterThan | RtlGenericEqual

type_synonym RTL_AVL_COMPARE_ROUTINE = "bytes \<Rightarrow> bytes \<Rightarrow> RTL_GENERIC_COMPARE_RESULTS"

text \<open>A node with the element that follows it.\<close>

record RTL_BALANCED_LINKS =
  Parent :: nat
  LeftChild :: nat
  RightChild :: nat
  Height :: int
  Body :: bytes

type_synonym avl_heap = "nat \<rightharpoonup> RTL_BALANCED_LINKS"

record RTL_AVL_TABLE =
  Root :: nat
  NumberOfElements :: u32
  CompareRoutine :: "RTL_AVL_COMPARE_ROUTINE option"
  AllocateRoutine :: bool
  FreeRoutine :: bool
  TableContext :: nat
  EnumNext :: nat

definition sizeof_RTL_BALANCED_LINKS :: u32 where "sizeof_RTL_BALANCED_LINKS = 32"

definition avl_body :: "nat \<Rightarrow> nat" where
  "avl_body n = n + 32"

definition node_at :: "avl_heap \<Rightarrow> nat \<Rightarrow> RTL_BALANCED_LINKS option" where
  "node_at h n = (if n = 0 then None else h n)"

definition put_node :: "nat \<Rightarrow> (RTL_BALANCED_LINKS \<Rightarrow> RTL_BALANCED_LINKS) \<Rightarrow> avl_heap \<Rightarrow> avl_heap option" where
  "put_node n f h = do { x \<leftarrow> node_at h n; Some (h(n \<mapsto> f x)) }"

definition set_parent :: "nat \<Rightarrow> nat \<Rightarrow> avl_heap \<Rightarrow> avl_heap option" where
  "set_parent n p = put_node n (\<lambda>x. x\<lparr>Parent := p\<rparr>)"

definition set_left :: "nat \<Rightarrow> nat \<Rightarrow> avl_heap \<Rightarrow> avl_heap option" where
  "set_left n c = put_node n (\<lambda>x. x\<lparr>LeftChild := c\<rparr>)"

definition set_right :: "nat \<Rightarrow> nat \<Rightarrow> avl_heap \<Rightarrow> avl_heap option" where
  "set_right n c = put_node n (\<lambda>x. x\<lparr>RightChild := c\<rparr>)"

section \<open>Heights and rotations\<close>

definition avl_height :: "avl_heap \<Rightarrow> nat \<Rightarrow> int option" where
  "avl_height h n = (if n = 0 then Some 0 else do { x \<leftarrow> node_at h n; Some (Height x) })"

definition avl_max :: "int \<Rightarrow> int \<Rightarrow> int" where
  "avl_max a b = (if a > b then a else b)"

definition avl_update_height :: "nat \<Rightarrow> avl_heap \<Rightarrow> avl_heap option" where
  "avl_update_height n h = do {
     x \<leftarrow> node_at h n;
     hl \<leftarrow> avl_height h (LeftChild x);
     hr \<leftarrow> avl_height h (RightChild x);
     put_node n (\<lambda>x. x\<lparr>Height := 1 + avl_max hl hr\<rparr>) h }"

definition avl_balance :: "avl_heap \<Rightarrow> nat \<Rightarrow> int option" where
  "avl_balance h n =
     (if n = 0 then Some 0
      else do {
        x \<leftarrow> node_at h n;
        hr \<leftarrow> avl_height h (RightChild x);
        hl \<leftarrow> avl_height h (LeftChild x);
        Some (hr - hl) })"

definition avl_rotate_left :: "nat \<Rightarrow> avl_heap \<Rightarrow> (nat \<times> avl_heap) option" where
  "avl_rotate_left x h = do {
     nx \<leftarrow> node_at h x;
     let y = RightChild nx;
     ny \<leftarrow> node_at h y;
     let t2 = LeftChild ny;
     h \<leftarrow> set_left y x h;
     h \<leftarrow> set_parent x y h;
     h \<leftarrow> set_right x t2 h;
     h \<leftarrow> (if t2 \<noteq> 0 then set_parent t2 x h else Some h);
     h \<leftarrow> avl_update_height x h;
     h \<leftarrow> avl_update_height y h;
     Some (y, h) }"

definition avl_rotate_right :: "nat \<Rightarrow> avl_heap \<Rightarrow> (nat \<times> avl_heap) option" where
  "avl_rotate_right x h = do {
     nx \<leftarrow> node_at h x;
     let y = LeftChild nx;
     ny \<leftarrow> node_at h y;
     let t2 = RightChild ny;
     h \<leftarrow> set_right y x h;
     h \<leftarrow> set_parent x y h;
     h \<leftarrow> set_left x t2 h;
     h \<leftarrow> (if t2 \<noteq> 0 then set_parent t2 x h else Some h);
     h \<leftarrow> avl_update_height x h;
     h \<leftarrow> avl_update_height y h;
     Some (y, h) }"

definition avl_rebalance :: "nat \<Rightarrow> avl_heap \<Rightarrow> (nat \<times> avl_heap) option" where
  "avl_rebalance n h = do {
     h \<leftarrow> avl_update_height n h;
     bf \<leftarrow> avl_balance h n;
     x \<leftarrow> node_at h n;
     if bf < -1 then do {
       lb \<leftarrow> avl_balance h (LeftChild x);
       h \<leftarrow> (if lb > 0 then do {
               (c, h) \<leftarrow> avl_rotate_left (LeftChild x) h;
               h \<leftarrow> set_left n c h;
               set_parent c n h }
             else Some h);
       avl_rotate_right n h }
     else if bf > 1 then do {
       rb \<leftarrow> avl_balance h (RightChild x);
       h \<leftarrow> (if rb < 0 then do {
               (c, h) \<leftarrow> avl_rotate_right (RightChild x) h;
               h \<leftarrow> set_right n c h;
               set_parent c n h }
             else Some h);
       avl_rotate_left n h }
     else Some (n, h) }"

section \<open>Operations\<close>

definition RtlInitializeGenericTableAvl ::
  "RTL_AVL_TABLE option \<Rightarrow> RTL_AVL_COMPARE_ROUTINE option \<Rightarrow> bool \<Rightarrow> bool \<Rightarrow> nat \<Rightarrow> RTL_AVL_TABLE option" where
  "RtlInitializeGenericTableAvl table compare allocate free context =
     (case table of
        None \<Rightarrow> None
      | Some t \<Rightarrow> Some \<lparr>Root = 0, NumberOfElements = 0, CompareRoutine = compare, AllocateRoutine = allocate,
                       FreeRoutine = free, TableContext = context, EnumNext = 0\<rparr>)"

text \<open>\<open>while (n)\<close> of \<open>avl_find\<close>. A null compare routine faults when it is called.\<close>

partial_function (option) avl_find_from :: "RTL_AVL_COMPARE_ROUTINE option \<Rightarrow> avl_heap \<Rightarrow> bytes \<Rightarrow> nat \<Rightarrow> nat option" where
  "avl_find_from cmp h key n =
     (if n = 0 then Some 0
      else do {
        x \<leftarrow> node_at h n;
        f \<leftarrow> cmp;
        if f key (Body x) = RtlGenericLessThan then avl_find_from cmp h key (LeftChild x)
        else if f key (Body x) = RtlGenericGreaterThan then avl_find_from cmp h key (RightChild x)
        else Some n })"

definition avl_find :: "RTL_AVL_TABLE \<Rightarrow> avl_heap \<Rightarrow> bytes \<Rightarrow> nat option" where
  "avl_find table h key = avl_find_from (CompareRoutine table) h key (Root table)"

definition RtlLookupElementGenericTableAvl :: "RTL_AVL_TABLE option \<Rightarrow> avl_heap \<Rightarrow> bytes option \<Rightarrow> nat option" where
  "RtlLookupElementGenericTableAvl table h buffer =
     (case (table, buffer) of
        (Some t, Some key) \<Rightarrow> do {
          n \<leftarrow> avl_find t h key;
          Some (if n \<noteq> 0 then avl_body n else 0) }
      | _ \<Rightarrow> Some 0)"

partial_function (option) avl_insert_rec ::
  "RTL_AVL_COMPARE_ROUTINE option \<Rightarrow> nat \<Rightarrow> nat \<Rightarrow> avl_heap \<Rightarrow> (nat \<times> avl_heap) option" where
  "avl_insert_rec cmp root nn h =
     (if root = 0 then Some (nn, h)
      else do {
        f \<leftarrow> cmp;
        y \<leftarrow> node_at h nn;
        x \<leftarrow> node_at h root;
        if f (Body y) (Body x) = RtlGenericLessThan then do {
          (c, h) \<leftarrow> avl_insert_rec cmp (LeftChild x) nn h;
          h \<leftarrow> set_left root c h;
          h \<leftarrow> set_parent c root h;
          avl_rebalance root h }
        else do {
          (c, h) \<leftarrow> avl_insert_rec cmp (RightChild x) nn h;
          h \<leftarrow> set_right root c h;
          h \<leftarrow> set_parent c root h;
          avl_rebalance root h } })"

text \<open>\<open>nn\<close> is what the allocate routine returns. The result is the returned pointer, \<open>*new_element\<close>, the table and the heap.\<close>

definition RtlInsertElementGenericTableAvl ::
  "nat \<Rightarrow> RTL_AVL_TABLE option \<Rightarrow> avl_heap \<Rightarrow> bytes option \<Rightarrow> u32 \<Rightarrow> (nat \<times> bool \<times> RTL_AVL_TABLE option \<times> avl_heap) option" where
  "RtlInsertElementGenericTableAvl nn table h buffer sz =
     (case (table, buffer) of
        (Some t, Some b) \<Rightarrow>
          if sz = 0 \<or> CompareRoutine t = None \<or> \<not> AllocateRoutine t \<or> \<not> FreeRoutine t then Some (0, False, table, h)
          else if sz > 0xFFFFFFFF - sizeof_RTL_BALANCED_LINKS then Some (0, False, table, h)
          else do {
            existing \<leftarrow> avl_find t h b;
            if existing \<noteq> 0 then Some (avl_body existing, False, table, h)
            else if nn = 0 then Some (0, False, table, h)
            else do {
              el \<leftarrow> rd_bytes b 0 (unat sz);
              let h = h(nn \<mapsto> \<lparr>Parent = 0, LeftChild = 0, RightChild = 0, Height = 1, Body = el\<rparr>);
              (root, h) \<leftarrow> avl_insert_rec (CompareRoutine t) (Root t) nn h;
              h \<leftarrow> set_parent root 0 h;
              Some (avl_body nn, True, Some (t\<lparr>Root := root, NumberOfElements := NumberOfElements t + 1\<rparr>), h) } }
      | _ \<Rightarrow> Some (0, False, table, h))"

text \<open>\<open>while (n && n->LeftChild)\<close>\<close>

partial_function (option) avl_min :: "avl_heap \<Rightarrow> nat \<Rightarrow> nat option" where
  "avl_min h n =
     (if n = 0 then Some 0
      else do {
        x \<leftarrow> node_at h n;
        if LeftChild x = 0 then Some n else avl_min h (LeftChild x) })"

text \<open>Put \<open>x\<close> where \<open>y\<close> was below \<open>p\<close>, or at the root; the new root pointer and heap.\<close>

definition avl_relink :: "nat \<Rightarrow> nat \<Rightarrow> nat \<Rightarrow> nat \<Rightarrow> avl_heap \<Rightarrow> (nat \<times> avl_heap) option" where
  "avl_relink p y x root h =
     (if p = 0 then Some (x, h)
      else do {
        n \<leftarrow> node_at h p;
        h \<leftarrow> (if LeftChild n = y then set_left p x h else set_right p x h);
        Some (root, h) })"

text \<open>One round of the loop that retraces to the root: the next node, the root and the heap.\<close>

definition avl_retrace_step :: "nat \<Rightarrow> nat \<Rightarrow> avl_heap \<Rightarrow> (nat \<times> nat \<times> avl_heap) option" where
  "avl_retrace_step rebalance_from root h = do {
     x \<leftarrow> node_at h rebalance_from;
     let parent = Parent x;
     (new_sub, h) \<leftarrow> avl_rebalance rebalance_from h;
     if new_sub \<noteq> rebalance_from then do {
       (root, h) \<leftarrow> avl_relink parent rebalance_from new_sub root h;
       h \<leftarrow> set_parent new_sub parent h;
       Some (parent, root, h) }
     else Some (parent, root, h) }"

partial_function (option) avl_retrace :: "nat \<Rightarrow> nat \<Rightarrow> avl_heap \<Rightarrow> (nat \<times> avl_heap) option" where
  "avl_retrace rebalance_from root h =
     (if rebalance_from = 0 then Some (root, h)
      else do {
        s \<leftarrow> avl_retrace_step rebalance_from root h;
        avl_retrace (fst s) (fst (snd s)) (snd (snd s)) })"

text \<open>The successor \<open>y\<close> takes the slot of \<open>z\<close>.\<close>

definition avl_take_slot :: "nat \<Rightarrow> nat \<Rightarrow> nat \<Rightarrow> avl_heap \<Rightarrow> (nat \<times> avl_heap) option" where
  "avl_take_slot y z root h = do {
     nz \<leftarrow> node_at h z;
     h \<leftarrow> put_node y (\<lambda>x. x\<lparr>Parent := Parent nz, LeftChild := LeftChild nz, RightChild := RightChild nz, Height := Height nz\<rparr>) h;
     h \<leftarrow> (if LeftChild nz \<noteq> 0 then set_parent (LeftChild nz) y h else Some h);
     h \<leftarrow> (if RightChild nz \<noteq> 0 then set_parent (RightChild nz) y h else Some h);
     avl_relink (Parent nz) z y root h }"

definition RtlDeleteElementGenericTableAvl ::
  "RTL_AVL_TABLE option \<Rightarrow> avl_heap \<Rightarrow> bytes option \<Rightarrow> (bool \<times> RTL_AVL_TABLE option \<times> avl_heap) option" where
  "RtlDeleteElementGenericTableAvl table h buffer =
     (case (table, buffer) of
        (Some t, Some key) \<Rightarrow> do {
          z \<leftarrow> avl_find t h key;
          if z = 0 then Some (False, table, h)
          else do {
            nz \<leftarrow> node_at h z;
            y \<leftarrow> (if LeftChild nz \<noteq> 0 \<and> RightChild nz \<noteq> 0 then avl_min h (RightChild nz) else Some z);
            ny \<leftarrow> node_at h y;
            let x = (if LeftChild ny \<noteq> 0 then LeftChild ny else RightChild ny);
            let p = Parent ny;
            h \<leftarrow> (if x \<noteq> 0 then set_parent x p h else Some h);
            (root, h) \<leftarrow> avl_relink p y x (Root t) h;
            (root, h) \<leftarrow> (if y \<noteq> z then avl_take_slot y z root h else Some (root, h));
            let rebalance_from = (if y \<noteq> z \<and> p = z then y else p);
            if \<not> FreeRoutine t then None
            else do {
              let h = h(z := None);
              (root, h) \<leftarrow> avl_retrace rebalance_from root h;
              Some (True, Some (t\<lparr>Root := root, NumberOfElements := NumberOfElements t - 1, EnumNext := 0\<rparr>), h) } } }
      | _ \<Rightarrow> Some (False, table, h))"

section \<open>Enumeration\<close>

text \<open>\<open>while (n->Parent && n->Parent->RightChild == n) n = n->Parent; return n->Parent;\<close>\<close>

partial_function (option) avl_climb :: "avl_heap \<Rightarrow> nat \<Rightarrow> nat option" where
  "avl_climb h n = do {
     x \<leftarrow> node_at h n;
     if Parent x = 0 then Some 0
     else do {
       p \<leftarrow> node_at h (Parent x);
       if RightChild p = n then avl_climb h (Parent x) else Some (Parent x) } }"

definition avl_successor :: "avl_heap \<Rightarrow> nat \<Rightarrow> nat option" where
  "avl_successor h n = do {
     x \<leftarrow> node_at h n;
     if RightChild x \<noteq> 0 then avl_min h (RightChild x) else avl_climb h n }"

definition RtlEnumerateGenericTableAvl :: "RTL_AVL_TABLE option \<Rightarrow> avl_heap \<Rightarrow> bool \<Rightarrow> (nat \<times> RTL_AVL_TABLE option) option" where
  "RtlEnumerateGenericTableAvl table h restart =
     (case table of
        None \<Rightarrow> Some (0, None)
      | Some t \<Rightarrow> do {
          t \<leftarrow> (if restart then do { n \<leftarrow> avl_min h (Root t); Some (t\<lparr>EnumNext := n\<rparr>) } else Some t);
          let cur = EnumNext t;
          if cur = 0 then Some (0, Some t)
          else do {
            n \<leftarrow> avl_successor h cur;
            Some (avl_body cur, Some (t\<lparr>EnumNext := n\<rparr>)) } })"

definition RtlNumberGenericTableElementsAvl :: "RTL_AVL_TABLE option \<Rightarrow> u32" where
  "RtlNumberGenericTableElementsAvl table = (case table of None \<Rightarrow> 0 | Some t \<Rightarrow> NumberOfElements t)"

definition RtlIsGenericTableEmptyAvl :: "RTL_AVL_TABLE option \<Rightarrow> bool" where
  "RtlIsGenericTableEmptyAvl table \<longleftrightarrow> (case table of None \<Rightarrow> True | Some t \<Rightarrow> NumberOfElements t = 0)"

declare avl_find_from.simps [code] avl_insert_rec.simps [code] avl_min.simps [code] avl_retrace.simps [code] avl_climb.simps [code]

end
