(* ===== verification/Ex_Avl_Tree.thy ===== *)
theory Ex_Avl_Tree
  imports Ex_Avl "HOL-Library.Tree"
begin

text \<open>
  The trees the links of an AVL table form, as values: rebalancing, insertion and deletion on them, with deletion in the
  order the code works, along the path from the removed node to the root. What they do to the sequence of elements and to the
  balance is proved here; that the pointer operations compute them, in the theory of the heap.
\<close>

section \<open>Rebalancing\<close>

text \<open>A node is its address and its element.\<close>

type_synonym avl_tree = "(nat \<times> bytes) tree"

fun rot_left :: "'a tree \<Rightarrow> 'a tree" where
  "rot_left (Node a x (Node b y c)) = Node (Node a x b) y c"
| "rot_left t = t"

fun rot_right :: "'a tree \<Rightarrow> 'a tree" where
  "rot_right (Node (Node a x b) y c) = Node a x (Node b y c)"
| "rot_right t = t"

lemma rot_Leaf [simp]: "rot_left t = Leaf \<longleftrightarrow> t = Leaf" "rot_right t = Leaf \<longleftrightarrow> t = Leaf"
  by (cases t rule: rot_left.cases; simp) (cases t rule: rot_right.cases; simp)

fun right_heavy :: "'a tree \<Rightarrow> bool" where
  "right_heavy Leaf \<longleftrightarrow> False"
| "right_heavy (Node l x r) \<longleftrightarrow> height l < height r"

fun left_heavy :: "'a tree \<Rightarrow> bool" where
  "left_heavy Leaf \<longleftrightarrow> False"
| "left_heavy (Node l x r) \<longleftrightarrow> height r < height l"

definition rebal :: "'a tree \<Rightarrow> 'a \<Rightarrow> 'a tree \<Rightarrow> 'a tree" where
  "rebal l x r =
     (if height l > height r + 1 then rot_right (Node (if right_heavy l then rot_left l else l) x r)
      else if height r > height l + 1 then rot_left (Node l x (if left_heavy r then rot_right r else r))
      else Node l x r)"

lemma inorder_rot [simp]: "inorder (rot_left t) = inorder t" "inorder (rot_right t) = inorder t"
  by (cases t rule: rot_left.cases; simp) (cases t rule: rot_right.cases; simp)

lemma inorder_rot_right_Node [simp]: "inorder (rot_right (Node l x r)) = inorder l @ x # inorder r"
  "inorder (rot_left (Node l x r)) = inorder l @ x # inorder r"
  by simp_all

lemma inorder_rebal [simp]: "inorder (rebal l x r) = inorder l @ x # inorder r"
  by (simp add: rebal_def)

fun avl :: "'a tree \<Rightarrow> bool" where
  "avl Leaf \<longleftrightarrow> True"
| "avl (Node l x r) \<longleftrightarrow> height l \<le> height r + 1 \<and> height r \<le> height l + 1 \<and> avl l \<and> avl r"

lemma height_Node: "0 < height t \<Longrightarrow> \<exists>l x r. t = Node l x r"
  by (cases t) auto

lemma avl_rebal_left:
  assumes "avl l" "avl r" "height l = height r + 2"
  shows "avl (rebal l x r) \<and> height r + 2 \<le> height (rebal l x r) \<and> height (rebal l x r) \<le> height r + 3"
proof -
  obtain ll lx lr where l: "l = Node ll lx lr" using height_Node [of l] assms(3) by auto
  show ?thesis
  proof (cases "height ll < height lr")
    case True
    then obtain a y b where "lr = Node a y b" using height_Node [of lr] by auto
    then show ?thesis using assms l True by (auto simp: rebal_def max_def split: if_splits)
  next
    case False
    then show ?thesis using assms l by (auto simp: rebal_def max_def split: if_splits)
  qed
qed

lemma avl_rebal_right:
  assumes "avl l" "avl r" "height r = height l + 2"
  shows "avl (rebal l x r) \<and> height l + 2 \<le> height (rebal l x r) \<and> height (rebal l x r) \<le> height l + 3"
proof -
  obtain rl rx rr where r: "r = Node rl rx rr" using height_Node [of r] assms(3) by auto
  show ?thesis
  proof (cases "height rr < height rl")
    case True
    then obtain a y b where "rl = Node a y b" using height_Node [of rl] by auto
    then show ?thesis using assms r True by (auto simp: rebal_def max_def split: if_splits)
  next
    case False
    then show ?thesis using assms r by (auto simp: rebal_def max_def split: if_splits)
  qed
qed

lemma rebal_balanced: "height l \<le> height r + 1 \<Longrightarrow> height r \<le> height l + 1 \<Longrightarrow> rebal l x r = Node l x r"
  by (simp add: rebal_def)

text \<open>Replacing a subtree of a balanced tree by one whose height differs by one: rebalancing repairs the tree, and its
  height differs by at most one, in the same direction.\<close>

lemma rebal_grow:
  assumes "avl (Node l x r)" "avl t"
  shows "height l \<le> height t \<Longrightarrow> height t \<le> height l + 1 \<Longrightarrow>
      avl (rebal t x r) \<and> height (Node l x r) \<le> height (rebal t x r) \<and> height (rebal t x r) \<le> height (Node l x r) + 1"
    "height r \<le> height t \<Longrightarrow> height t \<le> height r + 1 \<Longrightarrow>
      avl (rebal l x t) \<and> height (Node l x r) \<le> height (rebal l x t) \<and> height (rebal l x t) \<le> height (Node l x r) + 1"
proof -
  show "avl (rebal t x r) \<and> height (Node l x r) \<le> height (rebal t x r) \<and> height (rebal t x r) \<le> height (Node l x r) + 1"
    if t: "height l \<le> height t" "height t \<le> height l + 1"
  proof (cases "height t \<le> height r + 1")
    case True
    then show ?thesis using assms t by (auto simp: rebal_balanced)
  next
    case False
    then have "height t = height r + 2" "height l = height r + 1" using assms t by auto
    then show ?thesis using assms avl_rebal_left [of t r x] by simp
  qed
  show "avl (rebal l x t) \<and> height (Node l x r) \<le> height (rebal l x t) \<and> height (rebal l x t) \<le> height (Node l x r) + 1"
    if t: "height r \<le> height t" "height t \<le> height r + 1"
  proof (cases "height t \<le> height l + 1")
    case True
    then show ?thesis using assms t by (auto simp: rebal_balanced)
  next
    case False
    then have "height t = height l + 2" "height r = height l + 1" using assms t by auto
    then show ?thesis using assms avl_rebal_right [of l t x] by simp
  qed
qed

lemma rebal_shrink:
  assumes "avl (Node l x r)" "avl t"
  shows "height t \<le> height l \<Longrightarrow> height l \<le> height t + 1 \<Longrightarrow>
      avl (rebal t x r) \<and> height (rebal t x r) \<le> height (Node l x r) \<and> height (Node l x r) \<le> height (rebal t x r) + 1"
    "height t \<le> height r \<Longrightarrow> height r \<le> height t + 1 \<Longrightarrow>
      avl (rebal l x t) \<and> height (rebal l x t) \<le> height (Node l x r) \<and> height (Node l x r) \<le> height (rebal l x t) + 1"
proof -
  show "avl (rebal t x r) \<and> height (rebal t x r) \<le> height (Node l x r) \<and> height (Node l x r) \<le> height (rebal t x r) + 1"
    if t: "height t \<le> height l" "height l \<le> height t + 1"
  proof (cases "height r \<le> height t + 1")
    case True
    then show ?thesis using assms t by (auto simp: rebal_balanced)
  next
    case False
    then have "height r = height t + 2" "height l = height t + 1" using assms t by auto
    then show ?thesis using assms avl_rebal_right [of t r x] by simp
  qed
  show "avl (rebal l x t) \<and> height (rebal l x t) \<le> height (Node l x r) \<and> height (Node l x r) \<le> height (rebal l x t) + 1"
    if t: "height t \<le> height r" "height r \<le> height t + 1"
  proof (cases "height l \<le> height t + 1")
    case True
    then show ?thesis using assms t by (auto simp: rebal_balanced)
  next
    case False
    then have "height l = height t + 2" "height r = height t + 1" using assms t by auto
    then show ?thesis using assms avl_rebal_left [of l t x] by simp
  qed
qed

section \<open>Paths\<close>

text \<open>A step of a path from a hole up to the root: the hole is the left child of \<open>x\<close>, or its right child.\<close>

datatype 'a step = InL 'a "'a tree" | InR "'a tree" 'a

fun plug :: "'a step list \<Rightarrow> 'a tree \<Rightarrow> 'a tree" where
  "plug [] t = t"
| "plug (InL x r # k) t = plug k (Node t x r)"
| "plug (InR l x # k) t = plug k (Node l x t)"

text \<open>The same, rebalancing at every step: what retracing to the root leaves.\<close>

fun up :: "'a step list \<Rightarrow> 'a tree \<Rightarrow> 'a tree" where
  "up [] t = t"
| "up (InL x r # k) t = up k (rebal t x r)"
| "up (InR l x # k) t = up k (rebal l x t)"

fun before :: "'a step list \<Rightarrow> 'a list" where
  "before [] = []"
| "before (InL x r # k) = before k"
| "before (InR l x # k) = before k @ inorder l @ [x]"

fun after :: "'a step list \<Rightarrow> 'a list" where
  "after [] = []"
| "after (InL x r # k) = x # inorder r @ after k"
| "after (InR l x # k) = after k"

lemma inorder_plug: "inorder (plug k t) = before k @ inorder t @ after k"
  by (induction k t rule: plug.induct) simp_all

lemma inorder_up: "inorder (up k t) = before k @ inorder t @ after k"
  by (induction k t rule: up.induct) simp_all

lemma plug_append: "plug (k @ k') t = plug k' (plug k t)"
  by (induction k t rule: plug.induct) simp_all

lemma before_append: "before (k @ k') = before k' @ before k" "after (k @ k') = after k @ after k'"
  by (induction k rule: before.induct) simp_all

lemma avl_plug: "avl (plug k t) \<Longrightarrow> avl t"
  by (induction k t rule: plug.induct) auto

lemma avl_plug_cong: "height t = height u \<Longrightarrow> avl t = avl u \<Longrightarrow> avl (plug k t) = avl (plug k u)"
  by (induction k arbitrary: t u rule: before.induct) auto

lemma avl_up:
  assumes "avl (plug k u)" "avl t" "height t \<le> height u" "height u \<le> height t + 1"
  shows "avl (up k t) \<and> height (up k t) \<le> height (plug k u) \<and> height (plug k u) \<le> height (up k t) + 1"
  using assms
proof (induction k arbitrary: t u rule: before.induct)
  case (2 x r k)
  have "avl (Node u x r)" by (rule avl_plug [of k]) (use 2(2) in simp)
  from rebal_shrink(1) [OF this 2(3-5)] 2(1) [of "Node u x r" "rebal t x r"] 2(2) show ?case by simp
next
  case (3 l x k)
  have "avl (Node l x u)" by (rule avl_plug [of k]) (use 3(2) in simp)
  from rebal_shrink(2) [OF this 3(3-5)] 3(1) [of "Node l x u" "rebal l x t"] 3(2) show ?case by simp
qed simp

section \<open>The operations on trees\<close>

fun ins :: "('a \<Rightarrow> bool) \<Rightarrow> 'a \<Rightarrow> 'a tree \<Rightarrow> 'a tree" where
  "ins lt x Leaf = Node Leaf x Leaf"
| "ins lt x (Node l y r) = (if lt y then rebal (ins lt x l) y r else rebal l y (ins lt x r))"

lemma avl_ins: "avl t \<Longrightarrow> avl (ins lt x t) \<and> height t \<le> height (ins lt x t) \<and> height (ins lt x t) \<le> height t + 1"
proof (induction t)
  case (Node l y r)
  then show ?case
    using rebal_grow(1) [OF Node.prems, of "ins lt x l"] rebal_grow(2) [OF Node.prems, of "ins lt x r"] by simp
qed simp

lemma sorted_mid: "sorted_wrt P (xs @ [y] @ ys) \<Longrightarrow>
    sorted_wrt P xs \<and> sorted_wrt P ys \<and> (\<forall>a \<in> set xs. P a y) \<and> (\<forall>b \<in> set ys. P y b)"
  by (simp add: sorted_wrt_append)

lemma inorder_ins:
  assumes "sorted_wrt (\<lambda>a b. lt a \<longrightarrow> lt b) (inorder t)"
  shows "inorder (ins lt x t) = filter (\<lambda>y. \<not> lt y) (inorder t) @ x # filter lt (inorder t)"
  using assms
proof (induction t)
  case (Node l y r)
  have s: "sorted_wrt (\<lambda>a b. lt a \<longrightarrow> lt b) (inorder l)" "sorted_wrt (\<lambda>a b. lt a \<longrightarrow> lt b) (inorder r)"
    "\<forall>a \<in> set (inorder l). lt a \<longrightarrow> lt y" "\<forall>b \<in> set (inorder r). lt y \<longrightarrow> lt b"
    using sorted_mid [OF Node.prems [unfolded inorder.simps]] by blast+
  show ?case
  proof (cases "lt y")
    case True
    then have "filter (\<lambda>y. \<not> lt y) (inorder r) = []" "filter lt (inorder r) = inorder r"
      using s(4) by (auto simp: filter_empty_conv filter_id_conv)
    then show ?thesis using True Node.IH(1) s(1) by simp
  next
    case False
    then have "filter (\<lambda>y. \<not> lt y) (inorder l) = inorder l" "filter lt (inorder l) = []"
      using s(3) by (auto simp: filter_empty_conv filter_id_conv)
    then show ?thesis using False Node.IH(2) s(2) by simp
  qed
qed simp

text \<open>The node with a given key and the path to it; the least node and the path to it.\<close>

fun locate :: "('a \<Rightarrow> RTL_GENERIC_COMPARE_RESULTS) \<Rightarrow> 'a tree \<Rightarrow> 'a step list \<Rightarrow> ('a tree \<times> 'a \<times> 'a tree \<times> 'a step list) option" where
  "locate c Leaf k = None"
| "locate c (Node l x r) k = (case c x of
     RtlGenericLessThan \<Rightarrow> locate c l (InL x r # k)
   | RtlGenericGreaterThan \<Rightarrow> locate c r (InR l x # k)
   | RtlGenericEqual \<Rightarrow> Some (l, x, r, k))"

fun least :: "'a tree \<Rightarrow> 'a \<Rightarrow> 'a tree \<Rightarrow> 'a step list \<Rightarrow> 'a \<times> 'a tree \<times> 'a step list" where
  "least Leaf x r k = (x, r, k)"
| "least (Node ll lx lr) x r k = least ll lx lr (InL x r # k)"

lemma locate_plug: "locate c t k = Some (l, x, r, k') \<Longrightarrow> plug k' (Node l x r) = plug k t \<and> c x = RtlGenericEqual"
  by (induction c t k rule: locate.induct) (auto split: RTL_GENERIC_COMPARE_RESULTS.splits)

lemma least_plug: "least l x r k = (y, yr, k') \<Longrightarrow> plug k' (Node Leaf y yr) = plug k (Node l x r)"
  by (induction l x r k rule: least.induct) auto

lemma least_path: "least l x r k = (y, yr, k') \<Longrightarrow> \<exists>k2. k' = k2 @ k \<and> before k2 = []"
proof (induction l x r k rule: least.induct)
  case (2 ll lx lr x r k)
  then obtain k2 where "k' = k2 @ InL x r # k" "before k2 = []" by auto
  then show ?case by (intro exI [of _ "k2 @ [InL x r]"]) (simp add: before_append)
qed simp

definition del_at :: "'a tree \<Rightarrow> 'a tree \<Rightarrow> 'a step list \<Rightarrow> 'a tree" where
  "del_at l r k = (case (l, r) of
     (Node _ _ _, Node rl rx rr) \<Rightarrow> (case least rl rx rr [] of (y, yr, k') \<Rightarrow> up (k' @ InR l y # k) yr)
   | (Leaf, _) \<Rightarrow> up k r
   | (_, Leaf) \<Rightarrow> up k l)"

lemma inorder_del_at: "inorder (del_at l r k) = before k @ inorder l @ inorder r @ after k"
proof (cases "l = Leaf \<or> r = Leaf")
  case True
  then show ?thesis by (cases l; cases r) (auto simp: del_at_def inorder_up)
next
  case False
  then obtain ll lx lr rl rx rr where lr: "l = Node ll lx lr" "r = Node rl rx rr" by (meson tree.exhaust)
  obtain y yr k' where m: "least rl rx rr [] = (y, yr, k')" by (metis prod_cases3)
  have "inorder r = y # inorder yr @ after k'"
    using least_plug [OF m] least_path [OF m] inorder_plug [of k' "Node Leaf y yr"] lr(2) by simp
  then show ?thesis using m lr least_path [OF m] by (simp add: del_at_def inorder_up before_append)
qed

lemma avl_del_at:
  assumes "avl (plug k (Node l x r))"
  shows "avl (del_at l r k)"
proof -
  have n: "avl (Node l x r)" by (rule avl_plug [OF assms])
  consider "l = Leaf" | "r = Leaf" "l \<noteq> Leaf" | ll lx lr rl rx rr where "l = Node ll lx lr" "r = Node rl rx rr"
    by (cases l; cases r) auto
  then show ?thesis
  proof cases
    case 1
    then show ?thesis using avl_up [OF assms, of r] n by (simp add: del_at_def)
  next
    case 2
    then show ?thesis using avl_up [OF assms, of l] n by (cases l) (simp_all add: del_at_def)
  next
    case 3
    obtain y yr k' where m: "least rl rx rr [] = (y, yr, k')" by (metis prod_cases3)
    have p: "plug (k' @ InR l y # k) (Node Leaf y yr) = plug k (Node l y r)" using least_plug [OF m] 3 by (simp add: plug_append)
    have "avl (plug k (Node l y r))" using assms by (simp add: avl_plug_cong [of "Node l x r" "Node l y r"])
    moreover have "avl (Node Leaf y yr)" using least_plug [OF m] n 3 avl_plug [of k' "Node Leaf y yr"] by simp
    ultimately show ?thesis using avl_up [of "k' @ InR l y # k" "Node Leaf y yr" yr] p m 3 by (simp add: del_at_def)
  qed
qed

end
