(* ===== verification/Ex_Avl_Facts.thy ===== *)
theory Ex_Avl_Facts
  imports Ex_Avl_Tree
begin

text \<open>
  The heap of an AVL table: which tree its links form, and that the pointer operations carry out the tree operations
  on it, leaving every other address alone. Along the way every read of a node and every loop is shown to succeed.
\<close>

section \<open>Trees in the heap\<close>

definition root_of :: "avl_tree \<Rightarrow> nat" where
  "root_of t = (case t of Leaf \<Rightarrow> 0 | Node l x r \<Rightarrow> fst x)"

lemma root_of_simps [simp]: "root_of Leaf = 0" "root_of (Node l x r) = fst x"
  by (simp_all add: root_of_def)

definition addrs :: "avl_tree \<Rightarrow> nat set" where
  "addrs t = fst ` set_tree t"

lemma addrs_simps [simp]: "addrs Leaf = {}" "addrs (Node l x r) = insert (fst x) (addrs l \<union> addrs r)"
  by (auto simp: addrs_def)

text \<open>\<open>rep h q t\<close>: the nodes of \<open>t\<close> are in the heap with the right children, parents, cached heights and elements, the parent
  of the root being \<open>q\<close>.\<close>

fun rep :: "avl_heap \<Rightarrow> nat \<Rightarrow> avl_tree \<Rightarrow> bool" where
  "rep h q Leaf \<longleftrightarrow> True"
| "rep h q (Node l x r) \<longleftrightarrow> fst x \<noteq> 0 \<and>
     h (fst x) = Some \<lparr>Parent = q, LeftChild = root_of l, RightChild = root_of r, Height = int (height (Node l x r)), Body = snd x\<rparr> \<and>
     rep h (fst x) l \<and> rep h (fst x) r"

text \<open>No address occurs twice.\<close>

fun separate :: "avl_tree \<Rightarrow> bool" where
  "separate Leaf \<longleftrightarrow> True"
| "separate (Node l x r) \<longleftrightarrow> fst x \<notin> addrs l \<and> fst x \<notin> addrs r \<and> addrs l \<inter> addrs r = {} \<and> separate l \<and> separate r"

lemma rep_cong: "(\<And>a. a \<in> addrs t \<Longrightarrow> h' a = h a) \<Longrightarrow> rep h' q t = rep h q t"
  by (induction h' q t rule: rep.induct) auto

lemma rep_upd [simp]: "a \<notin> addrs t \<Longrightarrow> rep (h(a := v)) q t = rep h q t"
  by (rule rep_cong) auto

lemma rep_root_0: "rep h q t \<Longrightarrow> root_of t = 0 \<longleftrightarrow> t = Leaf"
  by (cases t) auto

lemma rep_addr_0: "rep h q t \<Longrightarrow> 0 \<notin> addrs t"
  by (induction h q t rule: rep.induct) auto

lemma rep_in_heap: "rep h q t \<Longrightarrow> a \<in> addrs t \<Longrightarrow> h a \<noteq> None"
  by (induction h q t rule: rep.induct) auto

lemma root_in: "root_of t \<noteq> 0 \<Longrightarrow> root_of t \<in> addrs t"
  by (cases t) auto

lemma avl_height_rep: "rep h q t \<Longrightarrow> avl_height h (root_of t) = Some (int (height t))"
  by (cases t) (simp_all add: avl_height_def node_at_def)

lemma avl_max_int: "avl_max (int a) (int b) = int (max a b)"
  by (simp add: avl_max_def max_def)

text \<open>Giving a subtree another parent.\<close>

definition reparent :: "avl_tree \<Rightarrow> nat \<Rightarrow> avl_heap \<Rightarrow> avl_heap" where
  "reparent t p h = (case t of Leaf \<Rightarrow> h | Node l x r \<Rightarrow> h(fst x \<mapsto> (the (h (fst x)))\<lparr>Parent := p\<rparr>))"

lemma reparent_other: "a \<notin> addrs t \<Longrightarrow> reparent t p h a = h a"
  by (auto simp: reparent_def split: tree.split)

lemma rep_reparent: "rep h q t \<Longrightarrow> separate t \<Longrightarrow> rep (reparent t p h) p t"
  by (cases t) (auto simp: reparent_def)

lemma rep_reparent_other: "addrs u \<inter> addrs t = {} \<Longrightarrow> rep (reparent t p h) q u = rep h q u"
  by (rule rep_cong, rule reparent_other) blast

lemma set_parent_reparent: "rep h q t \<Longrightarrow> (if root_of t \<noteq> 0 then set_parent (root_of t) p h else Some h) = Some (reparent t p h)"
  by (cases t) (auto simp: set_parent_def put_node_def node_at_def reparent_def)

lemma set_parent_Node: "rep h q t \<Longrightarrow> t \<noteq> Leaf \<Longrightarrow> set_parent (root_of t) p h = Some (reparent t p h)"
  using set_parent_reparent [of h q t p] rep_root_0 [of h q t] by simp

lemma avl_update_height_rep:
  assumes "h n = Some x" "n \<noteq> 0" "rep h n l" "rep h n r" "LeftChild x = root_of l" "RightChild x = root_of r"
  shows "avl_update_height n h = Some (h(n \<mapsto> x\<lparr>Height := int (max (height l) (height r) + 1)\<rparr>))"
  using assms avl_height_rep [OF assms(3)] avl_height_rep [OF assms(4)]
  by (simp add: avl_update_height_def put_node_def node_at_def avl_max_int add.commute)

lemma avl_balance_rep:
  assumes "h n = Some x" "n \<noteq> 0" "rep h n l" "rep h n r" "LeftChild x = root_of l" "RightChild x = root_of r"
  shows "avl_balance h n = Some (int (height r) - int (height l))"
  using assms avl_height_rep [OF assms(3)] avl_height_rep [OF assms(4)] by (simp add: avl_balance_def node_at_def)

section \<open>Rotations\<close>

text \<open>\<open>hangs h q n l e r\<close>: a node whose subtrees are in order, but whose height may be out of date.\<close>

definition hangs :: "avl_heap \<Rightarrow> nat \<Rightarrow> avl_tree \<Rightarrow> nat \<times> bytes \<Rightarrow> avl_tree \<Rightarrow> bool" where
  "hangs h q l x r \<longleftrightarrow> fst x \<noteq> 0 \<and> (\<exists>H. h (fst x) = Some \<lparr>Parent = q, LeftChild = root_of l, RightChild = root_of r, Height = H, Body = snd x\<rparr>) \<and>
     rep h (fst x) l \<and> rep h (fst x) r \<and> separate (Node l x r)"

lemma avl_rotate_left_rep:
  assumes "hangs h q a x (Node b y c)"
  shows "\<exists>h' q'. avl_rotate_left (fst x) h = Some (fst y, h') \<and> rep h' q' (Node (Node a x b) y c) \<and>
    (\<forall>k. k \<notin> addrs (Node a x (Node b y c)) \<longrightarrow> h' k = h k)"
proof -
  obtain H where x: "fst x \<noteq> 0" "h (fst x) = Some \<lparr>Parent = q, LeftChild = root_of a, RightChild = fst y, Height = H, Body = snd x\<rparr>"
    and r: "rep h (fst x) a" "rep h (fst x) (Node b y c)" and s: "separate (Node a x (Node b y c))"
    using assms by (auto simp: hangs_def)
  let ?N = "\<lambda>l r H. \<lparr>Parent = fst y, LeftChild = root_of l, RightChild = root_of r, Height = H, Body = snd x\<rparr>"
  let ?Y = "\<lparr>Parent = fst x, LeftChild = fst x, RightChild = root_of c, Height = int (height (Node b y c)), Body = snd y\<rparr>"
  let ?h1 = "h(fst y \<mapsto> ?Y, fst x \<mapsto> ?N a b H)"
  let ?h2 = "reparent b (fst x) ?h1"
  let ?h3 = "?h2(fst x \<mapsto> ?N a b (int (max (height a) (height b) + 1)))"
  have y: "fst y \<noteq> 0" "h (fst y) = Some \<lparr>Parent = fst x, LeftChild = root_of b, RightChild = root_of c, Height = int (height (Node b y c)), Body = snd y\<rparr>"
      "rep h (fst y) b" "rep h (fst y) c" "fst x \<noteq> fst y"
    using r(2) s by auto
  have b1: "rep ?h1 (fst y) b" using y s by simp
  have h2x: "?h2 (fst x) = Some (?N a b H)" "?h2 (fst y) = Some ?Y" using s y(5) by (auto simp: reparent_other)
  have reps: "rep ?h2 (fst x) a" "rep ?h2 (fst x) b" "rep ?h2 (fst y) c"
    using r y s rep_reparent [OF b1] by (auto simp: rep_reparent_other Int_Un_distrib Int_commute)
  have u1: "avl_update_height (fst x) ?h2 = Some ?h3"
    using avl_update_height_rep [OF h2x(1) x(1) reps(1,2)] by simp
  have t: "rep ?h3 (fst y) (Node a x b)" using reps s x(1) by simp
  have c3: "rep ?h3 (fst y) c" using reps s by simp
  let ?h4 = "?h3(fst y \<mapsto> ?Y\<lparr>Height := int (max (height (Node a x b)) (height c) + 1)\<rparr>)"
  have "?h3 (fst y) = Some ?Y" using h2x y(5) by simp
  from avl_update_height_rep [OF this y(1) t c3] have u2: "avl_update_height (fst y) ?h3 = Some ?h4" by simp
  have "avl_rotate_left (fst x) h = Some (fst y, ?h4)"
  proof -
    have "avl_rotate_left (fst x) h = do { h \<leftarrow> (if root_of b \<noteq> 0 then set_parent (root_of b) (fst x) ?h1 else Some ?h1);
        h \<leftarrow> avl_update_height (fst x) h; h \<leftarrow> avl_update_height (fst y) h; Some (fst y, h) }"
      using x y by (simp add: avl_rotate_left_def node_at_def set_left_def set_right_def set_parent_def [of "fst x"] put_node_def Let_def split del: if_split cong: if_cong)
    then show ?thesis unfolding set_parent_reparent [OF b1] by (simp only: bind.bind_lunit u1 u2)
  qed
  moreover have "rep ?h4 (fst x) (Node (Node a x b) y c)"
    using t c3 y s by simp
  moreover have "\<forall>k. k \<notin> addrs (Node a x (Node b y c)) \<longrightarrow> ?h4 k = h k" by (auto simp: reparent_other)
  ultimately show ?thesis by blast
qed

lemma avl_rotate_right_rep:
  assumes "hangs h q (Node a y b) x c"
  shows "\<exists>h' q'. avl_rotate_right (fst x) h = Some (fst y, h') \<and> rep h' q' (Node a y (Node b x c)) \<and>
    (\<forall>k. k \<notin> addrs (Node (Node a y b) x c) \<longrightarrow> h' k = h k)"
proof -
  obtain H where x: "fst x \<noteq> 0" "h (fst x) = Some \<lparr>Parent = q, LeftChild = fst y, RightChild = root_of c, Height = H, Body = snd x\<rparr>"
    and r: "rep h (fst x) c" "rep h (fst x) (Node a y b)" and s: "separate (Node (Node a y b) x c)"
    using assms by (auto simp: hangs_def)
  let ?N = "\<lambda>l r H. \<lparr>Parent = fst y, LeftChild = root_of l, RightChild = root_of r, Height = H, Body = snd x\<rparr>"
  let ?Y = "\<lparr>Parent = fst x, LeftChild = root_of a, RightChild = fst x, Height = int (height (Node a y b)), Body = snd y\<rparr>"
  let ?h1 = "h(fst y \<mapsto> ?Y, fst x \<mapsto> ?N b c H)"
  let ?h2 = "reparent b (fst x) ?h1"
  let ?h3 = "?h2(fst x \<mapsto> ?N b c (int (max (height b) (height c) + 1)))"
  have y: "fst y \<noteq> 0" "h (fst y) = Some \<lparr>Parent = fst x, LeftChild = root_of a, RightChild = root_of b, Height = int (height (Node a y b)), Body = snd y\<rparr>"
      "rep h (fst y) b" "rep h (fst y) a" "fst x \<noteq> fst y"
    using r(2) s by auto
  have b1: "rep ?h1 (fst y) b" using y s by simp
  have h2x: "?h2 (fst x) = Some (?N b c H)" "?h2 (fst y) = Some ?Y" using s y(5) by (auto simp: reparent_other)
  have reps: "rep ?h2 (fst x) c" "rep ?h2 (fst x) b" "rep ?h2 (fst y) a"
    using r y s rep_reparent [OF b1] by (auto simp: rep_reparent_other Int_Un_distrib Int_commute)
  have u1: "avl_update_height (fst x) ?h2 = Some ?h3"
    using avl_update_height_rep [OF h2x(1) x(1) reps(2,1)] by simp
  have t: "rep ?h3 (fst y) (Node b x c)" using reps s x(1) by simp
  have c3: "rep ?h3 (fst y) a" using reps s by simp
  let ?h4 = "?h3(fst y \<mapsto> ?Y\<lparr>Height := int (max (height a) (height (Node b x c)) + 1)\<rparr>)"
  have "?h3 (fst y) = Some ?Y" using h2x y(5) by simp
  from avl_update_height_rep [OF this y(1) c3 t] have u2: "avl_update_height (fst y) ?h3 = Some ?h4" by simp
  have "avl_rotate_right (fst x) h = Some (fst y, ?h4)"
  proof -
    have "avl_rotate_right (fst x) h = do { h \<leftarrow> (if root_of b \<noteq> 0 then set_parent (root_of b) (fst x) ?h1 else Some ?h1);
        h \<leftarrow> avl_update_height (fst x) h; h \<leftarrow> avl_update_height (fst y) h; Some (fst y, h) }"
      using x y by (simp add: avl_rotate_right_def node_at_def set_left_def set_right_def set_parent_def [of "fst x"] put_node_def Let_def split del: if_split cong: if_cong)
    then show ?thesis unfolding set_parent_reparent [OF b1] by (simp only: bind.bind_lunit u1 u2)
  qed
  moreover have "rep ?h4 (fst x) (Node a y (Node b x c))"
    using t c3 y s by simp
  moreover have "\<forall>k. k \<notin> addrs (Node (Node a y b) x c) \<longrightarrow> ?h4 k = h k" by (auto simp: reparent_other)
  ultimately show ?thesis by blast
qed

lemma addrs_rot [simp]: "addrs (rot_left t) = addrs t" "addrs (rot_right t) = addrs t"
  by (simp_all add: addrs_def flip: set_inorder)

lemma addrs_inorder: "addrs t = fst ` set (inorder t)"
  by (simp add: addrs_def)

lemma addrs_rebal [simp]: "addrs (rebal l x r) = addrs (Node l x r)"
  by (simp add: addrs_inorder del: addrs_simps)

section \<open>Rebalancing\<close>

text \<open>Hanging a new subtree below a node.\<close>

lemma rehang_left:
  assumes "hangs h q l x r" "rep h2 q2 t" "t \<noteq> Leaf" "separate (Node t x r)" "\<forall>k. k \<notin> addrs t \<longrightarrow> h2 k = h k"
  shows "\<exists>h3. do { h \<leftarrow> set_left (fst x) (root_of t) h2; set_parent (root_of t) (fst x) h } = Some h3 \<and> hangs h3 q t x r \<and>
    (\<forall>k. k \<notin> addrs (Node t x r) \<longrightarrow> h3 k = h k)"
proof -
  obtain H where x: "fst x \<noteq> 0" "h (fst x) = Some \<lparr>Parent = q, LeftChild = root_of l, RightChild = root_of r, Height = H, Body = snd x\<rparr>"
    and r: "rep h (fst x) r" using assms(1) by (auto simp: hangs_def)
  let ?h = "h2(fst x \<mapsto> \<lparr>Parent = q, LeftChild = root_of t, RightChild = root_of r, Height = H, Body = snd x\<rparr>)"
  have t: "rep ?h q2 t" using assms(2,4) by simp
  have "rep h2 (fst x) r" using r assms(4,5) rep_cong [of r h2 h "fst x"] by auto
  then have "rep (reparent t (fst x) ?h) (fst x) r" using assms(4) by (simp add: rep_reparent_other Int_commute)
  moreover have "reparent t (fst x) ?h (fst x) = ?h (fst x)" using assms(4) by (simp add: reparent_other)
  ultimately have "hangs (reparent t (fst x) ?h) q t x r"
    using x(1) assms(4) rep_reparent [OF t] by (simp add: hangs_def)
  moreover have "\<forall>k. k \<notin> addrs (Node t x r) \<longrightarrow> reparent t (fst x) ?h k = h k" using assms(5) by (simp add: reparent_other)
  moreover have "set_left (fst x) (root_of t) h2 = Some ?h" using x assms(4,5) by (simp add: set_left_def put_node_def node_at_def)
  ultimately show ?thesis using set_parent_Node [OF t assms(3), of "fst x"] by auto
qed

lemma rehang_right:
  assumes "hangs h q l x r" "rep h2 q2 t" "t \<noteq> Leaf" "separate (Node l x t)" "\<forall>k. k \<notin> addrs t \<longrightarrow> h2 k = h k"
  shows "\<exists>h3. do { h \<leftarrow> set_right (fst x) (root_of t) h2; set_parent (root_of t) (fst x) h } = Some h3 \<and> hangs h3 q l x t \<and>
    (\<forall>k. k \<notin> addrs (Node l x t) \<longrightarrow> h3 k = h k)"
proof -
  obtain H where x: "fst x \<noteq> 0" "h (fst x) = Some \<lparr>Parent = q, LeftChild = root_of l, RightChild = root_of r, Height = H, Body = snd x\<rparr>"
    and l: "rep h (fst x) l" using assms(1) by (auto simp: hangs_def)
  let ?h = "h2(fst x \<mapsto> \<lparr>Parent = q, LeftChild = root_of l, RightChild = root_of t, Height = H, Body = snd x\<rparr>)"
  have t: "rep ?h q2 t" using assms(2,4) by simp
  have "rep h2 (fst x) l" using l assms(4,5) rep_cong [of l h2 h "fst x"] by auto
  then have "rep (reparent t (fst x) ?h) (fst x) l" using assms(4) by (simp add: rep_reparent_other)
  moreover have "reparent t (fst x) ?h (fst x) = ?h (fst x)" using assms(4) by (simp add: reparent_other)
  ultimately have "hangs (reparent t (fst x) ?h) q l x t"
    using x(1) assms(4) rep_reparent [OF t] by (simp add: hangs_def)
  moreover have "\<forall>k. k \<notin> addrs (Node l x t) \<longrightarrow> reparent t (fst x) ?h k = h k" using assms(5) by (simp add: reparent_other)
  moreover have "set_right (fst x) (root_of t) h2 = Some ?h" using x assms(4,5) by (simp add: set_right_def put_node_def node_at_def)
  ultimately show ?thesis using set_parent_Node [OF t assms(3), of "fst x"] by auto
qed

lemma rep_hangs: "rep h q (Node l x r) \<Longrightarrow> separate (Node l x r) \<Longrightarrow> hangs h q l x r"
  by (simp add: hangs_def)

lemma hangs_balance: "hangs h q l x r \<Longrightarrow> avl_balance h (fst x) = Some (int (height r) - int (height l))"
  unfolding hangs_def using avl_balance_rep [of h "fst x" _ l r] by auto

text \<open>What rebalancing a node gives: the tree, the parent of its root being that of the node unless there was a rotation.\<close>

lemma avl_rebalance_rep:
  assumes "hangs h q l x r"
  shows "\<exists>h' q'. avl_rebalance (fst x) h = Some (root_of (rebal l x r), h') \<and> rep h' q' (rebal l x r) \<and>
    (root_of (rebal l x r) = fst x \<longrightarrow> q' = q) \<and> (\<forall>k. k \<notin> addrs (Node l x r) \<longrightarrow> h' k = h k)"
proof -
  obtain H where x: "fst x \<noteq> 0" "h (fst x) = Some \<lparr>Parent = q, LeftChild = root_of l, RightChild = root_of r, Height = H, Body = snd x\<rparr>"
    and lr: "rep h (fst x) l" "rep h (fst x) r" and s: "separate (Node l x r)"
    using assms by (auto simp: hangs_def)
  let ?x = "\<lparr>Parent = q, LeftChild = root_of l, RightChild = root_of r, Height = int (height (Node l x r)), Body = snd x\<rparr>"
  let ?h1 = "h(fst x \<mapsto> ?x)"
  have u: "avl_update_height (fst x) h = Some ?h1" using avl_update_height_rep [OF x(2,1) lr] by (simp add: add.commute)
  have rep1: "rep ?h1 (fst x) l" "rep ?h1 (fst x) r" using lr s by simp_all
  have hang1: "hangs ?h1 q l x r" using x(1) rep1 s by (simp add: hangs_def)
  note bal = hangs_balance [OF hang1]
  consider (left) "height l > height r + 1" | (right) "height r > height l + 1" | (ok) "height l \<le> height r + 1" "height r \<le> height l + 1"
    by linarith
  then show ?thesis
  proof cases
    case left
    then obtain a y b where l: "l = Node a y b" using height_Node [of l] by auto
    have hy: "hangs ?h1 (fst x) a y b" using rep_hangs rep1(1) s by (simp add: l)
    let ?l = "if right_heavy l then rot_left l else l"
    have "\<exists>h2. (if 0 < int (height b) - int (height a) then do { (c, h) \<leftarrow> avl_rotate_left (root_of l) ?h1; h \<leftarrow> set_left (fst x) c h; set_parent c (fst x) h }
        else Some ?h1) = Some h2 \<and> hangs h2 q ?l x r \<and> (\<forall>k. k \<notin> addrs (Node l x r) \<longrightarrow> h2 k = ?h1 k)"
    proof (cases "right_heavy l")
      case True
      then have "height a < height b" using l by simp
      then obtain b1 z b2 where b: "b = Node b1 z b2" using height_Node [of b] by auto
      let ?t = "Node (Node a y b1) z b2"
      obtain h2 q2 where h2: "avl_rotate_left (fst y) ?h1 = Some (fst z, h2)" "rep h2 q2 ?t" "\<forall>k. k \<notin> addrs l \<longrightarrow> h2 k = ?h1 k"
        using avl_rotate_left_rep [OF hy [unfolded b]] l b by auto
      have "separate (Node ?t x r)" "\<forall>k. k \<notin> addrs ?t \<longrightarrow> h2 k = ?h1 k" using s l b h2(3) by auto
      from rehang_left [OF hang1 h2(2) _ this]
      obtain h3 where h3: "do { h \<leftarrow> set_left (fst x) (root_of ?t) h2; set_parent (root_of ?t) (fst x) h } = Some h3" "hangs h3 q ?t x r"
          "\<forall>k. k \<notin> addrs (Node ?t x r) \<longrightarrow> h3 k = ?h1 k" by auto
      show ?thesis using True h2(1) h3 l b by (intro exI [of _ h3]) auto
    next
      case False
      then show ?thesis using hang1 l by simp
    qed
    then obtain h2 where h2: "(if 0 < int (height b) - int (height a) then do { (c, h) \<leftarrow> avl_rotate_left (root_of l) ?h1; h \<leftarrow> set_left (fst x) c h; set_parent c (fst x) h }
        else Some ?h1) = Some h2" "hangs h2 q ?l x r" "\<forall>k. k \<notin> addrs (Node l x r) \<longrightarrow> h2 k = ?h1 k" by blast
    have "inorder ?l \<noteq> []" using l by simp
    then obtain a' y' b' where l': "?l = Node a' y' b'" by (cases ?l) auto
    have t: "rebal l x r = Node a' y' (Node b' x r)" using left l' by (simp add: rebal_def)
    obtain h3 q3 where h3: "avl_rotate_right (fst x) h2 = Some (fst y', h3)" "rep h3 q3 (rebal l x r)"
        "\<forall>k. k \<notin> addrs (Node ?l x r) \<longrightarrow> h3 k = h2 k"
      using avl_rotate_right_rep [OF h2(2) [unfolded l']] unfolding t l' by blast
    have "avl_rebalance (fst x) h = do { h \<leftarrow> (if 0 < int (height b) - int (height a)
        then do { (c, h) \<leftarrow> avl_rotate_left (root_of l) ?h1; h \<leftarrow> set_left (fst x) c h; set_parent c (fst x) h } else Some ?h1);
        avl_rotate_right (fst x) h }"
      using u bal x(1) left hangs_balance [OF hy] l by (simp add: avl_rebalance_def node_at_def split del: if_split cong: if_cong)
    then have "avl_rebalance (fst x) h = Some (root_of (rebal l x r), h3)" unfolding h2(1) using h3(1) t by simp
    moreover have "fst y' \<noteq> fst x" using h2(2) unfolding l' hangs_def by auto
    moreover have "addrs ?l = addrs l" by simp
    ultimately show ?thesis using h3(2,3) h2(3) t by (intro exI [of _ h3] exI [of _ q3]) (simp split del: if_split)
  next
    case right
    then obtain a y b where r: "r = Node a y b" using height_Node [of r] by auto
    have hy: "hangs ?h1 (fst x) a y b" using rep_hangs rep1(2) s by (simp add: r)
    let ?r = "if left_heavy r then rot_right r else r"
    have "\<exists>h2. (if int (height b) - int (height a) < 0 then do { (c, h) \<leftarrow> avl_rotate_right (root_of r) ?h1; h \<leftarrow> set_right (fst x) c h; set_parent c (fst x) h }
        else Some ?h1) = Some h2 \<and> hangs h2 q l x ?r \<and> (\<forall>k. k \<notin> addrs (Node l x r) \<longrightarrow> h2 k = ?h1 k)"
    proof (cases "left_heavy r")
      case True
      then have "height b < height a" using r by simp
      then obtain b1 z b2 where b: "a = Node b1 z b2" using height_Node [of a] by auto
      let ?t = "Node b1 z (Node b2 y b)"
      obtain h2 q2 where h2: "avl_rotate_right (fst y) ?h1 = Some (fst z, h2)" "rep h2 q2 ?t" "\<forall>k. k \<notin> addrs r \<longrightarrow> h2 k = ?h1 k"
        using avl_rotate_right_rep [OF hy [unfolded b]] r b by auto
      have "separate (Node l x ?t)" "\<forall>k. k \<notin> addrs ?t \<longrightarrow> h2 k = ?h1 k" using s r b h2(3) by auto
      from rehang_right [OF hang1 h2(2) _ this]
      obtain h3 where h3: "do { h \<leftarrow> set_right (fst x) (root_of ?t) h2; set_parent (root_of ?t) (fst x) h } = Some h3" "hangs h3 q l x ?t"
          "\<forall>k. k \<notin> addrs (Node l x ?t) \<longrightarrow> h3 k = ?h1 k" by auto
      show ?thesis using True h2(1) h3 r b by (intro exI [of _ h3]) auto
    next
      case False
      then show ?thesis using hang1 r by simp
    qed
    then obtain h2 where h2: "(if int (height b) - int (height a) < 0 then do { (c, h) \<leftarrow> avl_rotate_right (root_of r) ?h1; h \<leftarrow> set_right (fst x) c h; set_parent c (fst x) h }
        else Some ?h1) = Some h2" "hangs h2 q l x ?r" "\<forall>k. k \<notin> addrs (Node l x r) \<longrightarrow> h2 k = ?h1 k" by blast
    have "inorder ?r \<noteq> []" using r by simp
    then obtain a' y' b' where r': "?r = Node a' y' b'" by (cases ?r) auto
    have t: "rebal l x r = Node (Node l x a') y' b'" using right r' by (simp add: rebal_def)
    obtain h3 q3 where h3: "avl_rotate_left (fst x) h2 = Some (fst y', h3)" "rep h3 q3 (rebal l x r)"
        "\<forall>k. k \<notin> addrs (Node l x ?r) \<longrightarrow> h3 k = h2 k"
      using avl_rotate_left_rep [OF h2(2) [unfolded r']] unfolding t r' by blast
    have "avl_rebalance (fst x) h = do { h \<leftarrow> (if int (height b) - int (height a) < 0
        then do { (c, h) \<leftarrow> avl_rotate_right (root_of r) ?h1; h \<leftarrow> set_right (fst x) c h; set_parent c (fst x) h } else Some ?h1);
        avl_rotate_left (fst x) h }"
      using u bal x(1) right hangs_balance [OF hy] r by (simp add: avl_rebalance_def node_at_def split del: if_split cong: if_cong)
    then have "avl_rebalance (fst x) h = Some (root_of (rebal l x r), h3)" unfolding h2(1) using h3(1) t by simp
    moreover have "fst y' \<noteq> fst x" using h2(2) unfolding r' hangs_def by auto
    moreover have "addrs ?r = addrs r" by simp
    ultimately show ?thesis using h3(2,3) h2(3) t by (intro exI [of _ h3] exI [of _ q3]) (simp split del: if_split)
  next
    case ok
    then have "avl_rebalance (fst x) h = Some (fst x, ?h1)" using u bal x(1) by (simp add: avl_rebalance_def node_at_def)
    then show ?thesis using ok x(1) rep1 s by (intro exI [of _ ?h1] exI [of _ q]) (simp add: rebal_balanced)
  qed
qed

section \<open>Lookup and insertion\<close>

lemma separate_inorder: "separate t \<longleftrightarrow> distinct (map fst (inorder t))"
  by (induction t) (auto simp: addrs_inorder)

lemma separate_rebal [simp]: "separate (rebal l x r) = separate (Node l x r)"
  by (simp add: separate_inorder del: separate.simps)

lemma rebal_Leaf [simp]: "rebal l x r \<noteq> Leaf"
  by (simp add: rebal_def)

lemma avl_find_rep:
  "rep h q t \<Longrightarrow> avl_find_from (Some f) h key (root_of t) =
     Some (case locate (\<lambda>x. f key (snd x)) t k of None \<Rightarrow> 0 | Some (l, x, r, k') \<Rightarrow> fst x)"
proof (induction t arbitrary: q k)
  case Leaf
  then show ?case by (simp add: avl_find_from.simps)
next
  case (Node l x r)
  then show ?case
    using Node.IH(1) [of "fst x" "InL x r # k"] Node.IH(2) [of "fst x" "InR l x # k"]
    by (simp add: avl_find_from.simps [of _ _ _ "fst x"] node_at_def split: RTL_GENERIC_COMPARE_RESULTS.splits)
qed

lemma avl_insert_rec_rep:
  assumes "rep h q t" "separate t" "n \<noteq> 0" "n \<notin> addrs t"
    and "h n = Some \<lparr>Parent = 0, LeftChild = 0, RightChild = 0, Height = 1, Body = e\<rparr>"
  shows "let t' = ins (\<lambda>y. f e (snd y) = RtlGenericLessThan) (n, e) t in
    addrs t' = insert n (addrs t) \<and> separate t' \<and> t' \<noteq> Leaf \<and>
    (\<exists>h' q'. avl_insert_rec (Some f) (root_of t) n h = Some (root_of t', h') \<and> rep h' q' t' \<and> (\<forall>k. k \<notin> addrs t' \<longrightarrow> h' k = h k))"
  using assms
proof (induction t arbitrary: q)
  case Leaf
  then show ?case by (auto simp: avl_insert_rec.simps Let_def)
next
  case (Node l x r)
  let ?lt = "\<lambda>y. f e (snd y) = RtlGenericLessThan"
  have x: "fst x \<noteq> 0" "h (fst x) = Some \<lparr>Parent = q, LeftChild = root_of l, RightChild = root_of r, Height = int (height (Node l x r)), Body = snd x\<rparr>"
    "rep h (fst x) l" "rep h (fst x) r" "fst x \<noteq> n" "n \<notin> addrs l" "n \<notin> addrs r" "separate l" "separate r"
    using Node.prems by auto
  have hang: "hangs h q l x r" using Node.prems by (intro rep_hangs)
  have node: "node_at h (fst x) = h (fst x)" "node_at h n = h n" using x(1) Node.prems(3) by (simp_all add: node_at_def)
  show ?case
  proof (cases "?lt x")
    case True
    let ?l = "ins ?lt (n, e) l"
    obtain h1 q1 where ih: "addrs ?l = insert n (addrs l)" "separate ?l" "?l \<noteq> Leaf"
        "avl_insert_rec (Some f) (root_of l) n h = Some (root_of ?l, h1)" "rep h1 q1 ?l" "\<forall>k. k \<notin> addrs ?l \<longrightarrow> h1 k = h k"
      using Node.IH(1) [OF x(3,8) Node.prems(3) x(6) Node.prems(5)] unfolding Let_def by blast
    have s: "separate (Node ?l x r)" using ih(1,2) Node.prems(2) x by auto
    obtain h2 where h2: "do { h \<leftarrow> set_left (fst x) (root_of ?l) h1; set_parent (root_of ?l) (fst x) h } = Some h2" "hangs h2 q ?l x r"
        "\<forall>k. k \<notin> addrs (Node ?l x r) \<longrightarrow> h2 k = h k"
      using rehang_left [OF hang ih(5,3) s ih(6)] by blast
    obtain h3 q3 where h3: "avl_rebalance (fst x) h2 = Some (root_of (rebal ?l x r), h3)" "rep h3 q3 (rebal ?l x r)"
        "\<forall>k. k \<notin> addrs (Node ?l x r) \<longrightarrow> h3 k = h2 k"
      using avl_rebalance_rep [OF h2(2)] by blast
    have "avl_insert_rec (Some f) (fst x) n h = Some (root_of (rebal ?l x r), h3)"
      using x(1,2) True ih(4) h2(1) h3(1) Node.prems(5) node
      by (simp add: avl_insert_rec.simps [of _ "fst x"] Option.bind_eq_Some_conv) blast
    then show ?thesis using True ih(1) s h3(2,3) h2(3) by (auto simp: Let_def)
  next
    case False
    let ?r = "ins ?lt (n, e) r"
    obtain h1 q1 where ih: "addrs ?r = insert n (addrs r)" "separate ?r" "?r \<noteq> Leaf"
        "avl_insert_rec (Some f) (root_of r) n h = Some (root_of ?r, h1)" "rep h1 q1 ?r" "\<forall>k. k \<notin> addrs ?r \<longrightarrow> h1 k = h k"
      using Node.IH(2) [OF x(4,9) Node.prems(3) x(7) Node.prems(5)] unfolding Let_def by blast
    have s: "separate (Node l x ?r)" using ih(1,2) Node.prems(2) x by auto
    obtain h2 where h2: "do { h \<leftarrow> set_right (fst x) (root_of ?r) h1; set_parent (root_of ?r) (fst x) h } = Some h2" "hangs h2 q l x ?r"
        "\<forall>k. k \<notin> addrs (Node l x ?r) \<longrightarrow> h2 k = h k"
      using rehang_right [OF hang ih(5,3) s ih(6)] by blast
    obtain h3 q3 where h3: "avl_rebalance (fst x) h2 = Some (root_of (rebal l x ?r), h3)" "rep h3 q3 (rebal l x ?r)"
        "\<forall>k. k \<notin> addrs (Node l x ?r) \<longrightarrow> h3 k = h2 k"
      using avl_rebalance_rep [OF h2(2)] by blast
    have "avl_insert_rec (Some f) (fst x) n h = Some (root_of (rebal l x ?r), h3)"
      using x(1,2) False ih(4) h2(1) h3(1) Node.prems(5) node
      by (simp add: avl_insert_rec.simps [of _ "fst x"] Option.bind_eq_Some_conv) blast
    then show ?thesis using False ih(1) s h3(2,3) h2(3) by (auto simp: Let_def)
  qed
qed

end
