(* ===== verification/Ex_Avl_Paths.thy ===== *)
theory Ex_Avl_Paths
  imports Ex_Avl_Facts
begin

text \<open>
  Paths to the root in the heap of an AVL table, with cached heights that may be out of date, and on them the deletion:
  splicing a node out, putting its successor into its slot, and retracing to the root.
\<close>

section \<open>Paths in the heap\<close>

text \<open>The address of the lowest node of a path, or of what is above it.\<close>

definition bottom :: "nat \<Rightarrow> (nat \<times> bytes) step list \<Rightarrow> nat" where
  "bottom q k = (case k of [] \<Rightarrow> q | InL x r # _ \<Rightarrow> fst x | InR l x # _ \<Rightarrow> fst x)"

lemma bottom_simps [simp]: "bottom q [] = q" "bottom q (InL x r # k) = fst x" "bottom q (InR l x # k) = fst x"
  by (simp_all add: bottom_def)

text \<open>The topmost address of a path that ends in \<open>c\<close>.\<close>

fun apex :: "nat \<Rightarrow> (nat \<times> bytes) step list \<Rightarrow> nat" where
  "apex c [] = c"
| "apex c (InL x r # k) = apex (fst x) k"
| "apex c (InR l x # k) = apex (fst x) k"

fun seg :: "avl_heap \<Rightarrow> nat \<Rightarrow> nat \<Rightarrow> (nat \<times> bytes) step list \<Rightarrow> bool" where
  "seg h q c [] \<longleftrightarrow> True"
| "seg h q c (InL x r # k) \<longleftrightarrow> fst x \<noteq> 0 \<and>
     (\<exists>H. h (fst x) = Some \<lparr>Parent = bottom q k, LeftChild = c, RightChild = root_of r, Height = H, Body = snd x\<rparr>) \<and>
     rep h (fst x) r \<and> seg h q (fst x) k"
| "seg h q c (InR l x # k) \<longleftrightarrow> fst x \<noteq> 0 \<and>
     (\<exists>H. h (fst x) = Some \<lparr>Parent = bottom q k, LeftChild = root_of l, RightChild = c, Height = H, Body = snd x\<rparr>) \<and>
     rep h (fst x) l \<and> seg h q (fst x) k"

definition kaddrs :: "(nat \<times> bytes) step list \<Rightarrow> nat set" where
  "kaddrs k = fst ` (set (before k) \<union> set (after k))"

lemma kaddrs_simps [simp]: "kaddrs [] = {}" "kaddrs (InL x r # k) = insert (fst x) (addrs r \<union> kaddrs k)"
  "kaddrs (InR l x # k) = insert (fst x) (addrs l \<union> kaddrs k)"
  by (auto simp: kaddrs_def addrs_inorder)

lemma kaddrs_append [simp]: "kaddrs (k @ k') = kaddrs k \<union> kaddrs k'"
  by (auto simp: kaddrs_def before_append)

lemma addrs_plug: "addrs (plug k t) = addrs t \<union> kaddrs k"
  by (auto simp: addrs_inorder kaddrs_def inorder_plug)

lemma addrs_up: "addrs (up k t) = addrs t \<union> kaddrs k"
  by (auto simp: addrs_inorder kaddrs_def inorder_up)

lemma separate_plug: "separate (plug k t) \<longleftrightarrow> separate t \<and> separate (plug k Leaf) \<and> addrs t \<inter> kaddrs k = {}"
  by (auto simp: separate_inorder inorder_plug kaddrs_def addrs_inorder)

lemma separate_plug_InL: "separate (plug (InL x r # k) Leaf) \<longleftrightarrow> separate (plug k Leaf) \<and> separate r \<and> fst x \<notin> addrs r \<and> fst x \<notin> kaddrs k \<and>
    addrs r \<inter> kaddrs k = {}"
  by (auto simp: separate_plug [of k "Node Leaf x r"])

lemma separate_plug_InR: "separate (plug (InR l x # k) Leaf) \<longleftrightarrow> separate (plug k Leaf) \<and> separate l \<and> fst x \<notin> addrs l \<and> fst x \<notin> kaddrs k \<and>
    addrs l \<inter> kaddrs k = {}"
  by (auto simp: separate_plug [of k "Node l x Leaf"])

lemma seg_cong: "(\<And>a. a \<in> kaddrs k \<Longrightarrow> h' a = h a) \<Longrightarrow> seg h' q c k = seg h q c k"
proof (induction h' q c k rule: seg.induct)
  case (2 h' q c x r k)
  have "rep h' (fst x) r = rep h (fst x) r" by (rule rep_cong) (simp add: 2(2))
  then show ?case using 2 by simp
next
  case (3 h' q c l x k)
  have "rep h' (fst x) l = rep h (fst x) l" by (rule rep_cong) (simp add: 3(2))
  then show ?case using 3 by simp
qed simp

lemma seg_reparent_other: "addrs t \<inter> kaddrs k = {} \<Longrightarrow> seg (reparent t p h) q c k = seg h q c k"
  by (rule seg_cong, rule reparent_other) blast

lemma seg_upd [simp]: "a \<notin> kaddrs k \<Longrightarrow> seg (h(a := v)) q c k = seg h q c k"
  by (rule seg_cong) auto

lemma bottom_append: "bottom q (k @ k') = bottom (bottom q k') k"
  by (simp add: bottom_def split: list.split step.split)

lemma seg_append: "seg h q c (k @ k') \<longleftrightarrow> seg h (bottom q k') c k \<and> seg h q (apex c k) k'"
  by (induction h "bottom q k'" c k rule: seg.induct) (auto simp: bottom_append)

lemma apex_append: "apex c (k @ k') = apex (apex c k) k'"
  by (induction c k rule: apex.induct) auto

lemma rep_plug: "rep h q (plug k t) \<Longrightarrow> rep h (bottom q k) t \<and> seg h q (root_of t) k"
proof (induction k arbitrary: t rule: before.induct)
  case (2 x r k)
  from 2(1) [of "Node t x r"] 2(2) show ?case by auto
next
  case (3 l x k)
  from 3(1) [of "Node l x t"] 3(2) show ?case by auto
qed simp

lemma root_plug: "root_of (plug k t) = apex (root_of t) k"
  by (induction k t rule: plug.induct) auto

lemma apex_in: "k \<noteq> [] \<Longrightarrow> apex c k \<in> kaddrs k"
proof (induction c k rule: apex.induct)
  case (2 c x r k)
  then show ?case by (cases "k = []") auto
next
  case (3 c l x k)
  then show ?case by (cases "k = []") auto
qed simp

lemma bottom_in: "k \<noteq> [] \<Longrightarrow> bottom q k \<in> kaddrs k"
  by (cases k rule: before.cases) auto

lemma seg_addr_0: "seg h q c k \<Longrightarrow> 0 \<notin> kaddrs k"
  by (induction h q c k rule: seg.induct) (auto dest: rep_addr_0)

lemma apex_nonempty: "k \<noteq> [] \<Longrightarrow> apex c k = apex c' k"
  by (cases k rule: before.cases) auto

section \<open>Relinking\<close>

lemma avl_relink_seg:
  assumes "seg h 0 c k" "c \<noteq> 0" "c \<notin> kaddrs k" "separate (plug k Leaf)" 
  shows "\<exists>h'. avl_relink (bottom 0 k) c c' root h = Some (if k = [] then c' else root, h') \<and> seg h' 0 c' k \<and> (\<forall>a. a \<noteq> bottom 0 k \<longrightarrow> h' a = h a)"
proof (cases k rule: before.cases)
  case 1
  then show ?thesis by (simp add: avl_relink_def)
next
  case (2 x r k2)
  then obtain H where x: "fst x \<noteq> 0" "h (fst x) = Some \<lparr>Parent = bottom 0 k2, LeftChild = c, RightChild = root_of r, Height = H, Body = snd x\<rparr>"
    using assms(1) by auto
  show ?thesis
    using 2 x assms(1) assms(4) [unfolded 2 separate_plug_InL] by (simp add: avl_relink_def node_at_def set_left_def put_node_def)
next
  case (3 l x k2)
  then obtain H where x: "fst x \<noteq> 0" "h (fst x) = Some \<lparr>Parent = bottom 0 k2, LeftChild = root_of l, RightChild = c, Height = H, Body = snd x\<rparr>"
    using assms(1) by auto
  have "root_of l \<noteq> c" using root_in [of l] assms(2,3) 3 by auto
  then show ?thesis
    using 3 x assms(1) assms(4) [unfolded 3 separate_plug_InR] by (simp add: avl_relink_def node_at_def set_right_def put_node_def)
qed

text \<open>Another parent for the topmost node of a path.\<close>

lemma set_parent_top:
  assumes "seg h q (root_of t) k" "rep h (bottom q k) t" "separate (plug k t)"
  shows "\<exists>h'. (if apex (root_of t) k \<noteq> 0 then set_parent (apex (root_of t) k) p h else Some h) = Some h' \<and>
    seg h' p (root_of t) k \<and> rep h' (bottom p k) t \<and> (\<forall>a. a \<noteq> apex (root_of t) k \<or> a = 0 \<longrightarrow> h' a = h a)"
proof (cases k rule: rev_cases)
  case Nil
  have "reparent t p h a = h a" if "a \<noteq> root_of t \<or> a = 0" for a
    using that assms(2) by (cases t) (auto simp: reparent_def)
  then show ?thesis
    using Nil assms set_parent_reparent [OF assms(2), of p] rep_reparent [OF assms(2), of p] by auto
next
  case (snoc k2 st)
  define x where "x = (case st of InL x r \<Rightarrow> x | InR l x \<Rightarrow> x)"
  have apex: "apex (root_of t) k = fst x" "bottom q k = bottom (fst x) k2" for q
    using snoc by (cases st; simp add: x_def apex_append bottom_append)+
  obtain n where n: "h (fst x) = Some n" "fst x \<noteq> 0" using assms(1) snoc by (cases st) (auto simp: x_def seg_append)
  have sep: "fst x \<notin> addrs t" "fst x \<notin> kaddrs k2"
    using assms(3) snoc by (cases st; auto simp: x_def plug_append addrs_plug)+
  let ?h = "h(fst x \<mapsto> n\<lparr>Parent := p\<rparr>)"
  have "seg ?h p (root_of t) k"
    using assms(1,3) snoc n sep(2) by (cases st) (auto simp: x_def seg_append plug_append)
  moreover have "rep ?h (bottom p k) t" using assms(2) sep(1) apex(2) by simp
  moreover have "set_parent (fst x) p h = Some ?h" using n by (simp add: set_parent_def put_node_def node_at_def)
  ultimately show ?thesis using apex(1) n by auto
qed

lemma avl_min_rep: "rep h q (Node l x r) \<Longrightarrow> least l x r k = (y, yr, k') \<Longrightarrow> avl_min h (fst x) = Some (fst y)"
  by (induction l x r k arbitrary: q rule: least.induct) (auto simp: avl_min.simps node_at_def)

section \<open>Retracing\<close>

lemma avl_retrace_step_rep:
  assumes "hangs h (bottom 0 k) l x r" "seg h 0 (fst x) k" "separate (plug k (Node l x r))"
  shows "\<exists>h'. avl_retrace_step (fst x) (root_of (plug k (Node l x r))) h = Some (bottom 0 k, root_of (plug k (rebal l x r)), h') \<and>
    rep h' (bottom 0 k) (rebal l x r) \<and> seg h' 0 (root_of (rebal l x r)) k \<and> (\<forall>a. a \<notin> addrs (plug k (Node l x r)) \<longrightarrow> h' a = h a)"
proof -
  let ?t = "rebal l x r"
  obtain h1 q1 where h1: "avl_rebalance (fst x) h = Some (root_of ?t, h1)" "rep h1 q1 ?t" "root_of ?t = fst x \<longrightarrow> q1 = bottom 0 k"
      "\<forall>a. a \<notin> addrs (Node l x r) \<longrightarrow> h1 a = h a" using avl_rebalance_rep [OF assms(1)] by blast
  obtain n where n: "node_at h (fst x) = Some n" "Parent n = bottom 0 k" "fst x \<noteq> 0" using assms(1) by (auto simp: hangs_def node_at_def)
  have sep: "separate (plug k Leaf)" "addrs (Node l x r) \<inter> kaddrs k = {}" using assms(3) separate_plug by blast+
  then have k1: "seg h1 0 (fst x) k" using assms(2) h1(4) seg_cong [of k h1 h 0 "fst x"] by blast
  show ?thesis
  proof (cases "root_of ?t = fst x")
    case True
    then have "avl_retrace_step (fst x) (root_of (plug k (Node l x r))) h = Some (bottom 0 k, root_of (plug k ?t), h1)"
      using h1(1) n by (simp add: avl_retrace_step_def root_plug)
    then show ?thesis using True h1 k1 by (auto simp: addrs_plug)
  next
    case False
    have "fst x \<notin> kaddrs k" using sep(2) by auto
    then obtain h2 where h2: "avl_relink (bottom 0 k) (fst x) (root_of ?t) (root_of (plug k (Node l x r))) h1 =
          Some (if k = [] then root_of ?t else root_of (plug k (Node l x r)), h2)" "seg h2 0 (root_of ?t) k" "\<forall>a. a \<noteq> bottom 0 k \<longrightarrow> h2 a = h1 a"
      using avl_relink_seg [OF k1 n(3) _ sep(1), of "root_of ?t" "root_of (plug k (Node l x r))"] by blast
    have root: "(if k = [] then root_of ?t else root_of (plug k (Node l x r))) = root_of (plug k ?t)"
      using apex_nonempty [of k "root_of ?t" "fst x"] by (simp add: root_plug)
    have "bottom 0 k \<notin> addrs ?t" using bottom_in [of k 0] sep(2) rep_addr_0 [OF h1(2)] by (cases "k = []") auto
    then have "h2 a = h1 a" if "a \<in> addrs ?t" for a using that h2(3) by metis
    then have t2: "rep h2 q1 ?t" using h1(2) rep_cong [of ?t h2 h1 q1] by blast
    let ?h3 = "reparent ?t (bottom 0 k) h2"
    have "avl_retrace_step (fst x) (root_of (plug k (Node l x r))) h = Some (bottom 0 k, root_of (plug k ?t), ?h3)"
      using False h1(1) n h2(1) root set_parent_Node [OF t2, of "bottom 0 k"] by (simp add: avl_retrace_step_def Let_def)
    moreover have "rep ?h3 (bottom 0 k) ?t" using t2 assms(3) separate_plug [of k "Node l x r"] by (intro rep_reparent) (auto simp del: separate.simps)
    moreover have "seg ?h3 0 (root_of ?t) k" using h2(2) sep(2) by (simp add: seg_reparent_other)
    moreover have "?h3 a = h a" if "a \<notin> addrs (plug k (Node l x r))" for a
    proof -
      have "a \<noteq> bottom 0 k \<or> k = []" using that bottom_in [of k 0] by (auto simp: addrs_plug)
      moreover have "h2 a = h1 a" if "k = []" using h2(1) that by (simp add: avl_relink_def)
      ultimately show ?thesis using that h1(4) h2(3) by (auto simp: reparent_other addrs_plug)
    qed
    ultimately show ?thesis by blast
  qed
qed

lemma avl_retrace_rep:
  assumes "rep h (bottom 0 k) t" "seg h 0 (root_of t) k" "separate (plug k t)"
  shows "\<exists>h'. avl_retrace (bottom 0 k) (root_of (plug k t)) h = Some (root_of (up k t), h') \<and> rep h' 0 (up k t) \<and>
    (\<forall>a. a \<notin> addrs (plug k t) \<longrightarrow> h' a = h a)"
  using assms
proof (induction k arbitrary: t h rule: before.induct)
  case 1
  then show ?case by (simp add: avl_retrace.simps)
next
  case (2 x r k)
  have "hangs h (bottom 0 k) t x r" using 2(2-4) separate_plug [of k "Node t x r"] by (auto simp: hangs_def)
  from avl_retrace_step_rep [OF this] 2(3,4)
  obtain h1 where h1: "avl_retrace_step (fst x) (root_of (plug k (Node t x r))) h = Some (bottom 0 k, root_of (plug k (rebal t x r)), h1)"
      "rep h1 (bottom 0 k) (rebal t x r)" "seg h1 0 (root_of (rebal t x r)) k" "\<forall>a. a \<notin> addrs (plug k (Node t x r)) \<longrightarrow> h1 a = h a" by auto
  have "separate (plug k (rebal t x r))" using 2(4) separate_plug [of k "Node t x r"] separate_plug [of k "rebal t x r"] by (simp del: separate.simps)
  from 2(1) [OF h1(2,3) this] show ?case using 2(3) h1(1,4) by (auto simp: avl_retrace.simps [of "fst x"] addrs_plug)
next
  case (3 l x k)
  have "hangs h (bottom 0 k) l x t" using 3(2-4) separate_plug [of k "Node l x t"] by (auto simp: hangs_def)
  from avl_retrace_step_rep [OF this] 3(3,4)
  obtain h1 where h1: "avl_retrace_step (fst x) (root_of (plug k (Node l x t))) h = Some (bottom 0 k, root_of (plug k (rebal l x t)), h1)"
      "rep h1 (bottom 0 k) (rebal l x t)" "seg h1 0 (root_of (rebal l x t)) k" "\<forall>a. a \<notin> addrs (plug k (Node l x t)) \<longrightarrow> h1 a = h a" by auto
  have "separate (plug k (rebal l x t))" using 3(4) separate_plug [of k "Node l x t"] separate_plug [of k "rebal l x t"] by (simp del: separate.simps)
  from 3(1) [OF h1(2,3) this] show ?case using 3(3) h1(1,4) by (auto simp: avl_retrace.simps [of "fst x"] addrs_plug)
qed

section \<open>Deletion\<close>

text \<open>Splicing out a node with at most one child.\<close>

lemma splice_rep:
  assumes "rep h 0 (plug k (Node a y b))" "separate (plug k (Node a y b))" "a = Leaf \<or> b = Leaf"
  defines "u \<equiv> if a = Leaf then b else a"
  shows "\<exists>h'. do { h \<leftarrow> (if root_of u \<noteq> 0 then set_parent (root_of u) (bottom 0 k) h else Some h);
        avl_relink (bottom 0 k) (fst y) (root_of u) (root_of (plug k (Node a y b))) h } = Some (root_of (plug k u), h') \<and>
    rep h' (bottom 0 k) u \<and> seg h' 0 (root_of u) k \<and> (\<forall>c. c \<notin> addrs (plug k u) \<longrightarrow> h' c = h c)"
proof -
  have y: "rep h (bottom 0 k) (Node a y b)" "seg h 0 (fst y) k" using rep_plug [OF assms(1)] by auto
  have sep: "separate (Node a y b)" "separate (plug k Leaf)" "addrs (Node a y b) \<inter> kaddrs k = {}" using assms(2) separate_plug by blast+
  have u: "rep h (fst y) u" "separate u" "addrs u \<subseteq> addrs (Node a y b)" "fst y \<notin> addrs u" using y(1) sep(1) by (auto simp: u_def)
  let ?h1 = "reparent u (bottom 0 k) h"
  have k1: "seg ?h1 0 (fst y) k" using y(2) u(3) sep(3) by (subst seg_reparent_other) auto
  have "fst y \<noteq> 0" "fst y \<notin> kaddrs k" using y(1) sep(3) by auto
  then obtain h2 where h2: "avl_relink (bottom 0 k) (fst y) (root_of u) (root_of (plug k (Node a y b))) ?h1 =
        Some (if k = [] then root_of u else root_of (plug k (Node a y b)), h2)" "seg h2 0 (root_of u) k" "\<forall>c. c \<noteq> bottom 0 k \<longrightarrow> h2 c = ?h1 c"
    using avl_relink_seg [OF k1 _ _ sep(2), of "root_of u" "root_of (plug k (Node a y b))"] by blast
  have root: "(if k = [] then root_of u else root_of (plug k (Node a y b))) = root_of (plug k u)"
    using apex_nonempty [of k "root_of u" "fst y"] by (simp add: root_plug)
  have b0: "bottom 0 k \<notin> addrs u" using bottom_in [of k 0] sep(3) u(3) rep_addr_0 [OF u(1)] by (cases "k = []") auto
  have "rep h2 (bottom 0 k) u"
    using rep_reparent [OF u(1,2), of "bottom 0 k"] rep_cong [of u h2 ?h1 "bottom 0 k"] h2(3) b0 by metis
  moreover have "h2 c = h c" if "c \<notin> addrs (plug k u)" for c
  proof -
    have "c \<noteq> bottom 0 k \<or> k = []" using that bottom_in [of k 0] by (auto simp: addrs_plug)
    moreover have "h2 c = ?h1 c" if "k = []" using h2(1) that by (simp add: avl_relink_def)
    ultimately show ?thesis using that h2(3) by (auto simp: reparent_other addrs_plug)
  qed
  ultimately show ?thesis using set_parent_reparent [OF u(1), of "bottom 0 k"] h2(1,2) root by auto
qed

lemma avl_take_slot_rep:
  assumes seg: "seg h 0 (root_of t) (k1 @ InR l z # k)" and t: "rep h (bottom 0 (k1 @ InR l z # k)) t"
    and sep: "separate (plug (k1 @ InR l z # k) t)" and y: "fst y \<noteq> 0" "fst y \<notin> addrs (plug (k1 @ InR l z # k) t)" "h (fst y) = Some ny" "Body ny = snd y"
  shows "\<exists>h'. avl_take_slot (fst y) (fst z) (root_of (plug (k1 @ InR l z # k) t)) h = Some (root_of (plug (k1 @ InR l y # k) t), h') \<and>
    rep h' (bottom 0 (k1 @ InR l y # k)) t \<and> seg h' 0 (root_of t) (k1 @ InR l y # k) \<and>
    (\<forall>a. a \<notin> addrs (plug (k1 @ InR l y # k) t) \<longrightarrow> h' a = h a)"
proof -
  obtain H where z: "h (fst z) = Some \<lparr>Parent = bottom 0 k, LeftChild = root_of l, RightChild = apex (root_of t) k1, Height = H, Body = snd z\<rparr>" "fst z \<noteq> 0"
    and segs: "seg h (fst z) (root_of t) k1" "rep h (fst z) l" "seg h 0 (fst z) k" "rep h (bottom (fst z) k1) t"
    using seg t by (auto simp: seg_append bottom_append)
  have s: "separate (plug k1 t)" "separate l" "separate (plug k Leaf)" "fst z \<notin> addrs l" "fst z \<notin> addrs t" "fst z \<notin> kaddrs k1" "fst z \<notin> kaddrs k"
      "addrs l \<inter> addrs t = {}" "addrs l \<inter> kaddrs k1 = {}" "addrs l \<inter> kaddrs k = {}" "addrs t \<inter> kaddrs k = {}" "kaddrs k1 \<inter> kaddrs k = {}"
    using sep separate_plug [of k "Node l z (plug k1 t)"] by (auto simp: plug_append addrs_plug)
  have ny: "fst y \<noteq> fst z" "fst y \<notin> addrs l" "fst y \<notin> addrs t" "fst y \<notin> kaddrs k1" "fst y \<notin> kaddrs k" using y(2) by (auto simp: addrs_plug)
  let ?N = "\<lparr>Parent = bottom 0 k, LeftChild = root_of l, RightChild = apex (root_of t) k1, Height = H, Body = snd y\<rparr>"
  let ?h1 = "h(fst y \<mapsto> ?N)"
  let ?h2 = "reparent l (fst y) ?h1"
  have l1: "rep ?h1 (fst z) l" using segs(2) ny by simp
  have p1: "put_node (fst y) (\<lambda>x. x\<lparr>Parent := bottom 0 k, LeftChild := root_of l, RightChild := apex (root_of t) k1, Height := H\<rparr>) h = Some ?h1"
    using y by (cases ny) (simp add: put_node_def node_at_def)
  have two: "seg ?h2 (fst z) (root_of t) k1" "rep ?h2 (bottom (fst z) k1) t"
    using segs(1,4) ny s by (simp_all add: seg_reparent_other rep_reparent_other Int_commute)
  let ?c = "apex (root_of t) k1"
  obtain h3 where h3: "(if ?c \<noteq> 0 then set_parent ?c (fst y) ?h2 else Some ?h2) = Some h3"
      "seg h3 (fst y) (root_of t) k1" "rep h3 (bottom (fst y) k1) t" "\<forall>a. a \<noteq> ?c \<or> a = 0 \<longrightarrow> h3 a = ?h2 a"
    using set_parent_top [OF two s(1), of "fst y"] by blast
  have c: "?c = 0 \<or> ?c \<in> addrs (plug k1 t)" using root_in [of "plug k1 t"] by (auto simp: root_plug)
  have o3: "h3 a = ?h2 a" if "a \<notin> addrs (plug k1 t)" for a using that c h3(4) by metis
  have k2: "seg ?h2 0 (fst z) k" using segs(3) ny s by (simp add: seg_reparent_other)
  have "h3 a = ?h2 a" if "a \<in> kaddrs k" for a using that o3 [of a] s(11,12) by (auto simp: addrs_plug)
  then have "seg h3 0 (fst z) k" using k2 seg_cong [of k h3 ?h2 0 "fst z"] by blast
  then obtain h4 where h4: "avl_relink (bottom 0 k) (fst z) (fst y) (root_of (plug (k1 @ InR l z # k) t)) h3 =
        Some (if k = [] then fst y else root_of (plug (k1 @ InR l z # k) t), h4)" "seg h4 0 (fst y) k" "\<forall>a. a \<noteq> bottom 0 k \<longrightarrow> h4 a = h3 a"
    using avl_relink_seg [of h3 "fst z" k "fst y"] z(2) s(3,7) by blast
  have o4: "h4 a = h3 a" if "a \<notin> kaddrs k" for a
  proof (cases "k = []")
    case True
    then show ?thesis using h4(1) by (simp add: avl_relink_def)
  next
    case False
    then show ?thesis using that h4(3) bottom_in [of k 0] by metis
  qed
  have k4: "seg h4 (fst y) (root_of t) k1" "rep h4 (bottom (fst y) k1) t"
    using h3(2,3) o4 s(11,12) seg_cong [of k1 h4 h3] rep_cong [of t h4 h3] by blast+
  have "rep ?h2 (fst y) l" using rep_reparent [OF l1 s(2)] .
  moreover have "h4 a = ?h2 a" if "a \<in> addrs l" for a
  proof -
    have "a \<notin> addrs t" "a \<notin> kaddrs k1" "a \<notin> kaddrs k" using that s(8-10) by blast+
    then show ?thesis using o3 [of a] o4 [of a] by (simp add: addrs_plug)
  qed
  ultimately have l4: "rep h4 (fst y) l" using rep_cong [of l h4 ?h2] by blast
  have y4: "h4 (fst y) = Some ?N" using o3 [of "fst y"] o4 [of "fst y"] ny by (simp add: addrs_plug reparent_other)
  have "rep h4 (bottom 0 (k1 @ InR l y # k)) t" "seg h4 0 (root_of t) (k1 @ InR l y # k)"
    using k4 l4 y4 y(1) h4(2) by (simp_all add: seg_append bottom_append)
  moreover have "avl_take_slot (fst y) (fst z) (root_of (plug (k1 @ InR l z # k) t)) h = Some (root_of (plug (k1 @ InR l y # k) t), h4)"
  proof -
    have root: "(if k = [] then fst y else root_of (plug (k1 @ InR l z # k) t)) = root_of (plug (k1 @ InR l y # k) t)"
      using apex_nonempty [of k "fst z" "fst y"] by (simp add: root_plug apex_append)
    have "avl_take_slot (fst y) (fst z) (root_of (plug (k1 @ InR l z # k) t)) h = do {
        h \<leftarrow> (if root_of l \<noteq> 0 then set_parent (root_of l) (fst y) ?h1 else Some ?h1);
        h \<leftarrow> (if ?c \<noteq> 0 then set_parent ?c (fst y) h else Some h);
        avl_relink (bottom 0 k) (fst z) (fst y) (root_of (plug (k1 @ InR l z # k) t)) h }"
      using z p1 by (simp add: avl_take_slot_def node_at_def split del: if_split cong: if_cong)
    then show ?thesis by (simp only: set_parent_reparent [OF l1] bind.bind_lunit h3(1) h4(1) root)
  qed
  moreover have "h4 a = h a" if "a \<notin> addrs (plug (k1 @ InR l y # k) t)" for a
    using that o3 [of a] o4 [of a] by (auto simp: addrs_plug reparent_other)
  ultimately show ?thesis by blast
qed

lemma avl_delete_steps:
  assumes "avl_find T h key = Some z" "z \<noteq> 0" "node_at h z = Some nz"
    and "(if LeftChild nz \<noteq> 0 \<and> RightChild nz \<noteq> 0 then avl_min h (RightChild nz) else Some z) = Some y" "node_at h y = Some ny"
    and "(if LeftChild ny \<noteq> 0 then LeftChild ny else RightChild ny) = x" "Parent ny = p"
    and "(if x \<noteq> 0 then set_parent x p h else Some h) = Some h0" "avl_relink p y x (Root T) h0 = Some (r1, h1)"
    and "(if y \<noteq> z then avl_take_slot y z r1 h1 else Some (r1, h1)) = Some (r2, h2)" "FreeRoutine T"
    and "avl_retrace (if y \<noteq> z \<and> p = z then y else p) r2 (h2(z := None)) = Some (r3, h3)"
  shows "RtlDeleteElementGenericTableAvl (Some T) h (Some key) =
    Some (True, Some (T\<lparr>Root := r3, NumberOfElements := NumberOfElements T - 1, EnumNext := 0\<rparr>), h3)"
  using assms by (simp add: RtlDeleteElementGenericTableAvl_def Let_def split del: if_split cong: if_cong)

lemma avl_delete_simple:
  assumes "rep h 0 (plug k (Node l z r))" "separate (plug k (Node l z r))" "l = Leaf \<or> r = Leaf"
    and "Root T = root_of (plug k (Node l z r))" "FreeRoutine T" "avl_find T h key = Some (fst z)"
  shows "\<exists>h'. RtlDeleteElementGenericTableAvl (Some T) h (Some key) =
      Some (True, Some (T\<lparr>Root := root_of (del_at l r k), NumberOfElements := NumberOfElements T - 1, EnumNext := 0\<rparr>), h') \<and>
    rep h' 0 (del_at l r k) \<and> h' (fst z) = None \<and> (\<forall>a. a \<notin> addrs (plug k (Node l z r)) \<longrightarrow> h' a = h a)"
proof -
  let ?u = "if l = Leaf then r else l"
  have z: "rep h (bottom 0 k) (Node l z r)" using rep_plug [OF assms(1)] by simp
  have sep: "separate (Node l z r)" "separate (plug k Leaf)" "addrs (Node l z r) \<inter> kaddrs k = {}" using assms(2) separate_plug by blast+
  have del: "del_at l r k = up k ?u" using assms(3) by (cases l; cases r) (auto simp: del_at_def)
  obtain h0 h1 where h1: "(if root_of ?u \<noteq> 0 then set_parent (root_of ?u) (bottom 0 k) h else Some h) = Some h0"
      "avl_relink (bottom 0 k) (fst z) (root_of ?u) (root_of (plug k (Node l z r))) h0 = Some (root_of (plug k ?u), h1)"
      "rep h1 (bottom 0 k) ?u" "seg h1 0 (root_of ?u) k" "\<forall>c. c \<notin> addrs (plug k ?u) \<longrightarrow> h1 c = h c"
    using splice_rep [OF assms(1-3)] unfolding Option.bind_eq_Some_conv by blast
  let ?h2 = "h1(fst z := None)"
  have fz: "fst z \<notin> addrs (plug k ?u)" using sep by (auto simp: addrs_plug)
  have "rep ?h2 (bottom 0 k) ?u" "seg ?h2 0 (root_of ?u) k" using h1(3,4) fz by (simp_all add: addrs_plug)
  moreover have "separate (plug k ?u)" using sep separate_plug [of k ?u] by auto
  ultimately obtain h3 where h3: "avl_retrace (bottom 0 k) (root_of (plug k ?u)) ?h2 = Some (root_of (up k ?u), h3)" "rep h3 0 (up k ?u)"
      "\<forall>a. a \<notin> addrs (plug k ?u) \<longrightarrow> h3 a = ?h2 a" using avl_retrace_rep [of ?h2 k ?u] by blast
  have x: "(if root_of l \<noteq> 0 then root_of l else root_of r) = root_of ?u" using z rep_root_0 by (cases l) auto
  have two: "(if root_of l \<noteq> 0 \<and> root_of r \<noteq> 0 then avl_min h (root_of r) else Some (fst z)) = Some (fst z)" using assms(3) by auto
  let ?nz = "\<lparr>Parent = bottom 0 k, LeftChild = root_of l, RightChild = root_of r, Height = int (height (Node l z r)), Body = snd z\<rparr>"
  have "RtlDeleteElementGenericTableAvl (Some T) h (Some key) =
      Some (True, Some (T\<lparr>Root := root_of (del_at l r k), NumberOfElements := NumberOfElements T - 1, EnumNext := 0\<rparr>), h3)"
    by (rule avl_delete_steps [OF assms(6), where y = "fst z" and x = "root_of ?u" and p = "bottom 0 k" and nz = ?nz and ny = ?nz])
      (use z two h1(1,2) h3(1) del x assms(4,5) in \<open>simp_all add: node_at_def split del: if_split cong: if_cong\<close>)
  moreover have "\<forall>a. a \<notin> addrs (plug k (Node l z r)) \<longrightarrow> h3 a = h a" using h3(3) h1(5) by (auto simp: addrs_plug)
  ultimately show ?thesis using h3(2,3) fz del by auto
qed

lemma avl_delete_two:
  assumes "rep h 0 (plug k (Node l z (Node rl rx rr)))" "separate (plug k (Node l z (Node rl rx rr)))" "l \<noteq> Leaf"
    and "Root T = root_of (plug k (Node l z (Node rl rx rr)))" "FreeRoutine T" "avl_find T h key = Some (fst z)"
  shows "\<exists>h'. RtlDeleteElementGenericTableAvl (Some T) h (Some key) =
      Some (True, Some (T\<lparr>Root := root_of (del_at l (Node rl rx rr) k), NumberOfElements := NumberOfElements T - 1, EnumNext := 0\<rparr>), h') \<and>
    rep h' 0 (del_at l (Node rl rx rr) k) \<and> h' (fst z) = None \<and> (\<forall>a. a \<notin> addrs (plug k (Node l z (Node rl rx rr))) \<longrightarrow> h' a = h a)"
proof -
  let ?r = "Node rl rx rr"
  obtain y yr k1 where m: "least rl rx rr [] = (y, yr, k1)" by (metis prod_cases3)
  define K where "K = k1 @ InR l z # k"
  define K' where "K' = k1 @ InR l y # k"
  have t: "plug K (Node Leaf y yr) = plug k (Node l z ?r)" using least_plug [OF m] by (simp add: K_def plug_append)
  have del: "del_at l ?r k = up K' yr" using m assms(3) by (cases l) (auto simp: del_at_def K'_def)
  have z: "rep h (bottom 0 k) (Node l z ?r)" using rep_plug [OF assms(1)] by simp
  have y: "rep h (bottom 0 K) (Node Leaf y yr)" using rep_plug [of h 0 K "Node Leaf y yr"] assms(1) t by simp
  have sep: "separate (plug K (Node Leaf y yr))" using assms(2) t by simp
  obtain h0 h1 where h1: "(if root_of yr \<noteq> 0 then set_parent (root_of yr) (bottom 0 K) h else Some h) = Some h0"
      "avl_relink (bottom 0 K) (fst y) (root_of yr) (Root T) h0 = Some (root_of (plug K yr), h1)"
      "rep h1 (bottom 0 K) yr" "seg h1 0 (root_of yr) K" "\<forall>c. c \<notin> addrs (plug K yr) \<longrightarrow> h1 c = h c"
    using splice_rep [of h K Leaf y yr, simplified if_True simp_thms] assms(1,4) sep t unfolding Option.bind_eq_Some_conv by auto
  have sepK: "separate (plug K yr)" "fst y \<notin> addrs (plug K yr)"
    using sep separate_plug [of K "Node Leaf y yr"] separate_plug [of K yr] by (auto simp: addrs_plug)
  have y1: "h1 (fst y) = h (fst y)" using h1(5) sepK(2) by blast
  obtain h2 where h2: "avl_take_slot (fst y) (fst z) (root_of (plug K yr)) h1 = Some (root_of (plug K' yr), h2)"
      "rep h2 (bottom 0 K') yr" "seg h2 0 (root_of yr) K'" "\<forall>a. a \<notin> addrs (plug K' yr) \<longrightarrow> h2 a = h1 a"
    using avl_take_slot_rep [OF h1(4,3) [unfolded K_def] sepK(1) [unfolded K_def], of y] y sepK(2) y1 unfolding K_def K'_def by auto
  have ino: "inorder ?r = y # inorder yr @ after k1"
    using least_plug [OF m] least_path [OF m] inorder_plug [of k1 "Node Leaf y yr"] by simp
  have K': "separate (plug K' yr)" "fst z \<notin> addrs (plug K' yr)" "addrs (plug K' yr) \<subseteq> addrs (plug k (Node l z ?r))" "fst z \<noteq> fst y" "fst z \<notin> kaddrs k1"
  proof -
    have old: "inorder (plug k (Node l z ?r)) = before k @ inorder l @ z # y # inorder yr @ after k1 @ after k"
      using ino by (simp add: inorder_plug)
    have b1: "before k1 = []" using least_path [OF m] by auto
    then have new: "inorder (plug K' yr) = before k @ inorder l @ y # inorder yr @ after k1 @ after k"
      by (simp add: K'_def inorder_plug before_append)
    show "separate (plug K' yr)" "fst z \<notin> addrs (plug K' yr)" "addrs (plug K' yr) \<subseteq> addrs (plug k (Node l z ?r))"
        "fst z \<noteq> fst y" "fst z \<notin> kaddrs k1"
      using assms(2) b1 unfolding separate_inorder addrs_inorder old new kaddrs_def by auto
  qed
  let ?h3 = "h2(fst z := None)"
  have "rep ?h3 (bottom 0 K') yr" "seg ?h3 0 (root_of yr) K'" using h2(2,3) K'(2) by (simp_all add: addrs_plug)
  then obtain h4 where h4: "avl_retrace (bottom 0 K') (root_of (plug K' yr)) ?h3 = Some (root_of (up K' yr), h4)" "rep h4 0 (up K' yr)"
      "\<forall>a. a \<notin> addrs (plug K' yr) \<longrightarrow> h4 a = ?h3 a" using avl_retrace_rep [of ?h3 K' yr] K'(1) by blast
  have b: "(if fst y \<noteq> fst z \<and> bottom 0 K = fst z then fst y else bottom 0 K) = bottom 0 K'"
  proof (cases "k1 = []")
    case False
    then have "bottom (fst z) k1 = bottom (fst y) k1" by (cases k1 rule: before.cases) auto
    then show ?thesis using False bottom_in [of k1 "fst z"] K'(5) by (auto simp: K_def K'_def bottom_append)
  qed (use K'(4) in \<open>simp add: K_def K'_def\<close>)
  let ?nz = "\<lparr>Parent = bottom 0 k, LeftChild = root_of l, RightChild = fst rx, Height = int (height (Node l z ?r)), Body = snd z\<rparr>"
  let ?ny = "\<lparr>Parent = bottom 0 K, LeftChild = 0, RightChild = root_of yr, Height = int (height (Node Leaf y yr)), Body = snd y\<rparr>"
  have "RtlDeleteElementGenericTableAvl (Some T) h (Some key) =
      Some (True, Some (T\<lparr>Root := root_of (del_at l ?r k), NumberOfElements := NumberOfElements T - 1, EnumNext := 0\<rparr>), h4)"
  proof (rule avl_delete_steps [OF assms(6), where nz = ?nz and y = "fst y" and ny = ?ny and x = "root_of yr" and p = "bottom 0 K"])
    have "root_of l \<noteq> 0" "fst rx \<noteq> 0" using z rep_root_0 [of h "fst z" l] assms(3) by auto
    then show "(if LeftChild ?nz \<noteq> 0 \<and> RightChild ?nz \<noteq> 0 then avl_min h (RightChild ?nz) else Some (fst z)) = Some (fst y)"
      using avl_min_rep [OF _ m, of h "fst z"] z by simp
    show "avl_retrace (if fst y \<noteq> fst z \<and> bottom 0 K = fst z then fst y else bottom 0 K) (root_of (plug K' yr)) (h2(fst z := None)) =
        Some (root_of (del_at l ?r k), h4)" using h4(1) b del by simp
  qed (use z y h1(1,2) h2(1) K'(4) assms(5) in \<open>simp_all add: node_at_def\<close>)
  moreover have "h4 a = h a" if a: "a \<notin> addrs (plug k (Node l z ?r))" for a
  proof -
    have "addrs (plug K yr) \<subseteq> addrs (plug k (Node l z ?r))" unfolding t [symmetric] by (auto simp: addrs_plug)
    then have "a \<notin> addrs (plug K' yr)" "a \<noteq> fst z" "a \<notin> addrs (plug K yr)" using a K'(3) by (auto simp: addrs_plug)
    then show ?thesis using h4(3) h2(4) h1(5) by simp
  qed
  ultimately show ?thesis using h4(2,3) K'(2) del by auto
qed

section \<open>Enumeration\<close>

definition next_addr :: "(nat \<times> bytes) list \<Rightarrow> nat" where
  "next_addr xs = (case xs of [] \<Rightarrow> 0 | x # _ \<Rightarrow> fst x)"

lemma next_addr_simps [simp]: "next_addr [] = 0" "next_addr (x # xs) = fst x"
  by (simp_all add: next_addr_def)

lemma avl_climb_rep:
  "rep h 0 (plug k (Node l x r)) \<Longrightarrow> separate (plug k (Node l x r)) \<Longrightarrow> avl_climb h (fst x) = Some (next_addr (after k))"
proof (induction k arbitrary: l x r rule: before.induct)
  case 1
  then show ?case by (simp add: avl_climb.simps node_at_def)
next
  case (2 y r' k)
  have n: "rep h (bottom 0 k) (Node (Node l x r) y r')" using rep_plug [of h 0 k "Node (Node l x r) y r'"] 2(2) by simp
  moreover have "root_of r' \<noteq> fst x" using root_in [of r'] n 2(3) separate_plug [of k "Node (Node l x r) y r'"] by auto
  ultimately show ?case by (simp add: avl_climb.simps [of h "fst x"] node_at_def)
next
  case (3 l' y k)
  have n: "rep h (bottom 0 k) (Node l' y (Node l x r))" using rep_plug [of h 0 k "Node l' y (Node l x r)"] 3(2) by simp
  then show ?case using 3(1) [of l' y "Node l x r"] 3(2,3) by (simp add: avl_climb.simps [of h "fst x"] node_at_def)
qed

lemma avl_min_next: "rep h q t \<Longrightarrow> avl_min h (root_of t) = Some (next_addr (inorder t))"
proof (cases t)
  case (Node l x r)
  assume t: "rep h q t"
  obtain y yr k where m: "least l x r [] = (y, yr, k)" by (metis prod_cases3)
  then have "inorder t = y # inorder yr @ after k"
    using least_plug [OF m] least_path [OF m] inorder_plug [of k "Node Leaf y yr"] Node by simp
  then show ?thesis using avl_min_rep [OF _ m] t Node by simp
qed (simp add: avl_min.simps)

lemma avl_successor_rep:
  assumes "rep h 0 (plug k (Node l x r))" "separate (plug k (Node l x r))"
  shows "avl_successor h (fst x) = Some (next_addr (inorder r @ after k))"
proof -
  have n: "rep h (bottom 0 k) (Node l x r)" using rep_plug [OF assms(1)] by simp
  show ?thesis
  proof (cases r)
    case Leaf
    then show ?thesis using n avl_climb_rep [OF assms] by (simp add: avl_successor_def node_at_def)
  next
    case (Node rl rx rr)
    then have "next_addr (inorder r @ after k) = next_addr (inorder r)" by (cases "inorder r") auto
    then show ?thesis using n avl_min_next [of h "fst x" r] Node by (auto simp: avl_successor_def node_at_def)
  qed
qed

text \<open>Every position of the sequence is a node on some path.\<close>

lemma inorder_split: "inorder t = xs @ x # ys \<Longrightarrow> \<exists>k l r. plug k (Node l x r) = t \<and> ys = inorder r @ after k"
proof (induction t arbitrary: xs ys)
  case (Node l y r)
  then consider "xs = inorder l" "x = y" "ys = inorder r" | zs where "inorder l = xs @ x # zs" "ys = zs @ y # inorder r"
    | zs where "xs = inorder l @ y # zs" "inorder r = zs @ x # ys"
    by (auto simp: append_eq_append_conv2 append_eq_Cons_conv Cons_eq_append_conv)
  then show ?case
  proof cases
    case 1
    then show ?thesis by (intro exI [of _ "[]"]) auto
  next
    case 2
    then obtain k l' r' where k: "plug k (Node l' x r') = l" "zs = inorder r' @ after k" using Node.IH(1) by blast
    have "plug (k @ [InL y r]) (Node l' x r') = Node l y r" "ys = inorder r' @ after (k @ [InL y r])"
      using k 2 by (simp_all add: plug_append before_append)
    then show ?thesis by blast
  next
    case 3
    then obtain k l' r' where k: "plug k (Node l' x r') = r" "ys = inorder r' @ after k" using Node.IH(2) by blast
    have "plug (k @ [InR l y]) (Node l' x r') = Node l y r" "ys = inorder r' @ after (k @ [InR l y])"
      using k by (simp_all add: plug_append before_append)
    then show ?thesis by blast
  qed
qed simp

end
