(* ===== verification/Ex_Avl_Properties.thy ===== *)
theory Ex_Avl_Properties
  imports Ex_Avl_Paths
begin

text \<open>
  What the operations of an AVL table do, in terms of the sorted sequence of its nodes and elements. The compare
  routine of the caller is assumed to be an order; the node the allocate routine returns, not to be in use.
\<close>

section \<open>Tables and their contents\<close>

definition compare_order :: "RTL_AVL_COMPARE_ROUTINE \<Rightarrow> bool" where
  "compare_order f \<longleftrightarrow>
     (\<forall>a b. f a b = RtlGenericLessThan \<longleftrightarrow> f b a = RtlGenericGreaterThan) \<and>
     (\<forall>a b c. f a b = RtlGenericLessThan \<longrightarrow> f b c = RtlGenericLessThan \<longrightarrow> f a c = RtlGenericLessThan) \<and>
     (\<forall>a b c. f a b = RtlGenericEqual \<longrightarrow> f b c = RtlGenericLessThan \<longrightarrow> f a c = RtlGenericLessThan)"

text \<open>\<open>avl_table f T h xs\<close>: the links of table \<open>T\<close> in heap \<open>h\<close> form a height-balanced search tree whose nodes and elements are, in
  order, \<open>xs\<close>, with correct parents, heights and element count.\<close>

definition avl_table :: "RTL_AVL_COMPARE_ROUTINE \<Rightarrow> RTL_AVL_TABLE \<Rightarrow> avl_heap \<Rightarrow> (nat \<times> bytes) list \<Rightarrow> bool" where
  "avl_table f T h xs \<longleftrightarrow>
     CompareRoutine T = Some f \<and> AllocateRoutine T \<and> FreeRoutine T \<and> NumberOfElements T = of_nat (length xs) \<and>
     sorted_wrt (\<lambda>a b. f a b = RtlGenericLessThan) (map snd xs) \<and> distinct (map fst xs) \<and>
     (\<exists>t. Root T = root_of t \<and> rep h 0 t \<and> avl t \<and> inorder t = xs)"

abbreviation has_key :: "RTL_AVL_COMPARE_ROUTINE \<Rightarrow> bytes \<Rightarrow> nat \<times> bytes \<Rightarrow> bool" where
  "has_key f key x \<equiv> f key (snd x) = RtlGenericEqual"

lemma compareD:
  assumes "compare_order f"
  shows "f a b = RtlGenericLessThan \<longleftrightarrow> f b a = RtlGenericGreaterThan"
    "f a b = RtlGenericLessThan \<Longrightarrow> f b c = RtlGenericLessThan \<Longrightarrow> f a c = RtlGenericLessThan"
    "f a b = RtlGenericEqual \<Longrightarrow> f b c = RtlGenericLessThan \<Longrightarrow> f a c = RtlGenericLessThan"
  using assms unfolding compare_order_def by blast+

lemma greater_left:
  assumes "compare_order f" "f a b = RtlGenericLessThan"
  shows "f key b = RtlGenericGreaterThan \<or> f key b = RtlGenericEqual \<Longrightarrow> f key a = RtlGenericGreaterThan"
proof -
  assume k: "f key b = RtlGenericGreaterThan \<or> f key b = RtlGenericEqual"
  show ?thesis
  proof (cases "f key a")
    case RtlGenericLessThan
    with k show ?thesis using compareD(2) [OF assms(1) _ assms(2)] by auto
  next
    case RtlGenericEqual
    with k show ?thesis using compareD(3) [OF assms(1) _ assms(2)] by auto
  qed simp
qed

text \<open>At most one element has a given key, and the search finds it.\<close>

lemma locate_find:
  assumes "compare_order f" "sorted_wrt (\<lambda>a b. f a b = RtlGenericLessThan) (map snd (inorder t))"
  shows "map_option (\<lambda>(l, x, r, k'). x) (locate (\<lambda>x. f key (snd x)) t k) = find (has_key f key) (inorder t)"
  using assms(2)
proof (induction t arbitrary: k)
  case (Node l x r)
  have s: "sorted_wrt (\<lambda>a b. f a b = RtlGenericLessThan) (map snd (inorder l))" "sorted_wrt (\<lambda>a b. f a b = RtlGenericLessThan) (map snd (inorder r))"
    "\<forall>y \<in> set (inorder l). f (snd y) (snd x) = RtlGenericLessThan" "\<forall>y \<in> set (inorder r). f (snd x) (snd y) = RtlGenericLessThan"
    using Node.prems by (auto simp: sorted_wrt_append)
  have right: "find (has_key f key) (inorder r) = None" if "f key (snd x) = RtlGenericLessThan"
    using that s(4) compareD(2) [OF assms(1)] by (force simp: find_None_iff)
  have left: "find (has_key f key) (inorder l) = None" if "f key (snd x) \<noteq> RtlGenericLessThan"
    using that s(3) greater_left [OF assms(1), of _ "snd x" key] by (cases "f key (snd x)") (auto simp: find_None_iff)
  show ?case
    using Node.IH(1) [OF s(1), of "InL x r # k"] Node.IH(2) [OF s(2), of "InR l x # k"] left right
    by (cases "f key (snd x)") (auto simp: find_append split: option.splits)
qed simp

lemma avl_table_tree:
  assumes "avl_table f T h xs"
  obtains t where "Root T = root_of t" "rep h 0 t" "avl t" "inorder t = xs" "separate t" "addrs t = fst ` set xs"
  using assms by (auto simp: avl_table_def separate_inorder addrs_inorder)

lemma avl_find_table:
  assumes "compare_order f" "avl_table f T h xs"
  shows "avl_find T h key = Some (case find (has_key f key) xs of None \<Rightarrow> 0 | Some x \<Rightarrow> fst x)" "find (has_key f key) xs = Some x \<Longrightarrow> fst x \<noteq> 0"
proof -
  obtain t where t: "Root T = root_of t" "rep h 0 t" "inorder t = xs" using avl_table_tree [OF assms(2)] by metis
  have "map_option (\<lambda>(l, x, r, k'). x) (locate (\<lambda>x. f key (snd x)) t []) = find (has_key f key) xs"
    using locate_find [OF assms(1), of t key "[]"] assms(2) t(3) by (simp add: avl_table_def)
  then show "avl_find T h key = Some (case find (has_key f key) xs of None \<Rightarrow> 0 | Some x \<Rightarrow> fst x)"
    using avl_find_rep [OF t(2), of f key "[]"] assms(2) t(1)
    by (auto simp: avl_find_def avl_table_def split: option.splits)
  show "fst x \<noteq> 0" if "find (has_key f key) xs = Some x"
    using that rep_addr_0 [OF t(2)] t(3) by (metis addrs_inorder find_Some_iff image_eqI nth_mem)
qed

section \<open>Lookup, insertion and deletion\<close>

text \<open>Lookup. On a well-formed table the search ends, touches only nodes of the table, and returns the body of the one
  element that equals the key, or the null pointer if there is none.\<close>

theorem RtlLookupElementGenericTableAvl_correct:
  assumes "compare_order f" and "avl_table f T h xs"
  shows "RtlLookupElementGenericTableAvl (Some T) h (Some key) =
    Some (case find (has_key f key) xs of None \<Rightarrow> 0 | Some x \<Rightarrow> avl_body (fst x))"
  using avl_find_table [OF assms, of key] by (auto simp: RtlLookupElementGenericTableAvl_def split: option.splits)

lemma sorted_join:
  assumes "sorted_wrt R xs" "sorted_wrt R ys" "\<And>y. y \<in> set xs \<Longrightarrow> R y b" "\<And>z. z \<in> set ys \<Longrightarrow> R b z"
    "\<And>y z. y \<in> set xs \<Longrightarrow> z \<in> set ys \<Longrightarrow> R y z"
  shows "sorted_wrt R (xs @ b # ys)"
  using assms by (simp add: sorted_wrt_append)

lemma inserted_sorted:
  assumes "compare_order f" "sorted_wrt (\<lambda>a b. f a b = RtlGenericLessThan) (map snd xs)"
  shows "sorted_wrt (\<lambda>a b. f a b = RtlGenericLessThan)
    (map snd (filter (\<lambda>x. f b (snd x) = RtlGenericGreaterThan) xs @ (n, b) # filter (\<lambda>x. f b (snd x) = RtlGenericLessThan) xs))"
  unfolding map_append list.map snd_conv
proof (rule sorted_join)
  have s: "sorted_wrt (\<lambda>a b. f a b = RtlGenericLessThan) (map snd (filter P xs))" for P
    using assms(2) by (simp add: sorted_wrt_map sorted_wrt_filter)
  show "sorted_wrt (\<lambda>a b. f a b = RtlGenericLessThan) (map snd (filter (\<lambda>x. f b (snd x) = RtlGenericGreaterThan) xs))" by (rule s)
  show "sorted_wrt (\<lambda>a b. f a b = RtlGenericLessThan) (map snd (filter (\<lambda>x. f b (snd x) = RtlGenericLessThan) xs))" by (rule s)
  fix y assume y: "y \<in> set (map snd (filter (\<lambda>x. f b (snd x) = RtlGenericGreaterThan) xs))"
  then show yb: "f y b = RtlGenericLessThan" using compareD(1) [OF assms(1)] by auto
  fix z assume "z \<in> set (map snd (filter (\<lambda>x. f b (snd x) = RtlGenericLessThan) xs))"
  then show "f y z = RtlGenericLessThan" using compareD(2) [OF assms(1) yb] by auto
qed auto

lemma inorder_inserted:
  assumes "compare_order f" "sorted_wrt (\<lambda>a b. f a b = RtlGenericLessThan) (map snd (inorder t))" "find (has_key f b) (inorder t) = None"
  shows "inorder (ins (\<lambda>y. f b (snd y) = RtlGenericLessThan) x t) =
    filter (\<lambda>x. f b (snd x) = RtlGenericGreaterThan) (inorder t) @ x # filter (\<lambda>x. f b (snd x) = RtlGenericLessThan) (inorder t)"
proof -
  have "sorted_wrt (\<lambda>a c. f b (snd a) = RtlGenericLessThan \<longrightarrow> f b (snd c) = RtlGenericLessThan) (inorder t)"
    by (rule sorted_wrt_mono_rel [OF _ assms(2) [unfolded sorted_wrt_map]]) (use compareD(2) [OF assms(1)] in blast)
  from inorder_ins [OF this, of x]
  have "inorder (ins (\<lambda>y. f b (snd y) = RtlGenericLessThan) x t) =
    filter (\<lambda>y. \<not> f b (snd y) = RtlGenericLessThan) (inorder t) @ x # filter (\<lambda>x. f b (snd x) = RtlGenericLessThan) (inorder t)" .
  moreover have "filter (\<lambda>y. \<not> f b (snd y) = RtlGenericLessThan) (inorder t) = filter (\<lambda>x. f b (snd x) = RtlGenericGreaterThan) (inorder t)"
  proof (rule filter_cong [OF refl])
    fix y assume "y \<in> set (inorder t)"
    then have "\<not> has_key f b y" using assms(3) unfolding find_None_iff by blast
    then show "(\<not> f b (snd y) = RtlGenericLessThan) = (f b (snd y) = RtlGenericGreaterThan)" by (cases "f b (snd y)") auto
  qed
  ultimately show ?thesis by simp
qed

lemma filters_length:
  assumes "find (has_key f b) xs = None"
  shows "length (filter (\<lambda>x. f b (snd x) = RtlGenericGreaterThan) xs) + length (filter (\<lambda>x. f b (snd x) = RtlGenericLessThan) xs) = length xs"
  using assms
proof (induction xs)
  case (Cons x xs)
  then show ?case by (cases "f b (snd x)") (auto split: if_splits)
qed simp

abbreviation inserted :: "RTL_AVL_COMPARE_ROUTINE \<Rightarrow> nat \<Rightarrow> bytes \<Rightarrow> (nat \<times> bytes) list \<Rightarrow> (nat \<times> bytes) list" where
  "inserted f n b xs \<equiv>
     filter (\<lambda>x. f b (snd x) = RtlGenericGreaterThan) xs @ (n, b) # filter (\<lambda>x. f b (snd x) = RtlGenericLessThan) xs"

lemma insert_guards:
  assumes "0 < unat sz" "unat sz = length b" "unat sz < 4294967264"
  shows "sz \<noteq> 0" "\<not> sz > 0xFFFFFFFF - sizeof_RTL_BALANCED_LINKS" "rd_bytes b 0 (unat sz) = Some b"
  using assms by (auto simp: sizeof_RTL_BALANCED_LINKS_def word_less_nat_alt rd_bytes_Some_iff)

lemma avl_tableD:
  assumes "avl_table f T h xs"
  shows "CompareRoutine T = Some f" "AllocateRoutine T" "FreeRoutine T" "NumberOfElements T = of_nat (length xs)"
    "sorted_wrt (\<lambda>a b. f a b = RtlGenericLessThan) (map snd xs)" "distinct (map fst xs)"
  using assms by (simp_all add: avl_table_def)

lemma avl_insert_old:
  assumes "compare_order f" and "avl_table f T h xs" and "0 < unat sz" "unat sz = length b" "unat sz < 4294967264"
  shows "find (has_key f b) xs = Some x \<Longrightarrow> RtlInsertElementGenericTableAvl n (Some T) h (Some b) sz = Some (avl_body (fst x), False, Some T, h)"
    "find (has_key f b) xs = None \<Longrightarrow> RtlInsertElementGenericTableAvl 0 (Some T) h (Some b) sz = Some (0, False, Some T, h)"
  using avl_find_table [OF assms(1,2), of b] insert_guards [OF assms(3-5)] avl_tableD [OF assms(2)]
  by (simp_all add: RtlInsertElementGenericTableAvl_def)

lemma avl_insert_new:
  assumes "compare_order f" and "avl_table f T h xs" and sz: "0 < unat sz" "unat sz = length b" "unat sz < 4294967264"
    and n: "n \<noteq> 0" "n \<notin> fst ` set xs" and None: "find (has_key f b) xs = None"
  shows "\<exists>T' h'. RtlInsertElementGenericTableAvl n (Some T) h (Some b) sz = Some (avl_body n, True, Some T', h') \<and>
    avl_table f T' h' (inserted f n b xs) \<and> (\<forall>a. a \<noteq> n \<and> a \<notin> fst ` set xs \<longrightarrow> h' a = h a)"
proof -
  obtain t where t: "Root T = root_of t" "rep h 0 t" "avl t" "inorder t = xs" "separate t" "addrs t = fst ` set xs"
    using avl_table_tree [OF assms(2)] by blast
  note T = avl_tableD [OF assms(2)]
  let ?h1 = "h(n \<mapsto> \<lparr>Parent = 0, LeftChild = 0, RightChild = 0, Height = 1, Body = b\<rparr>)"
  let ?t = "ins (\<lambda>y. f b (snd y) = RtlGenericLessThan) (n, b) t"
  obtain h2 q where h2: "avl_insert_rec (Some f) (root_of t) n ?h1 = Some (root_of ?t, h2)" "rep h2 q ?t"
      "\<forall>k. k \<notin> addrs ?t \<longrightarrow> h2 k = ?h1 k" "addrs ?t = insert n (addrs t)" "separate ?t" "?t \<noteq> Leaf"
    using avl_insert_rec_rep [of ?h1 0 t n b f] t(2,5,6) n unfolding Let_def by auto
  let ?T = "T\<lparr>Root := root_of ?t, NumberOfElements := NumberOfElements T + 1\<rparr>" and ?h = "reparent ?t 0 h2"
  have "RtlInsertElementGenericTableAvl n (Some T) h (Some b) sz = Some (avl_body n, True, Some ?T, ?h)"
    using None n(1) avl_find_table [OF assms(1,2), of b] insert_guards [OF sz] T t(1) h2(1) set_parent_Node [OF h2(2,6), of 0]
    by (simp add: RtlInsertElementGenericTableAvl_def)
  moreover have "inorder ?t = inserted f n b xs" using inorder_inserted [OF assms(1), of t b "(n, b)"] T(5) None t(4) by simp
  moreover have "length (inserted f n b xs) = Suc (length xs)" using None filters_length [of f b xs] by simp
  moreover have "rep ?h 0 ?t" by (rule rep_reparent [OF h2(2,5)])
  moreover have "\<forall>a. a \<noteq> n \<and> a \<notin> fst ` set xs \<longrightarrow> ?h a = h a" using h2(3,4) t(6) by (simp add: reparent_other)
  moreover have "distinct (map fst (inorder ?t))" using h2(5) by (simp add: separate_inorder)
  moreover have "avl ?t" using avl_ins [OF t(3)] by blast
  moreover note inserted_sorted [OF assms(1) T(5), of b n]
  ultimately show ?thesis using None T(1-4) unfolding avl_table_def by auto
qed

text \<open>C30: insertion. With a compare routine that is an order and a buffer of the given size, \<open>RtlInsertElementGenericTableAvl\<close> returns the existing element if one
  has the key and changes nothing; it returns null if the allocation fails; otherwise the new node holds a copy of the buffer at its place in the order, the table is
  again a balanced search tree with correct links, heights and count, every other node keeps its address and element, and
  no address outside the table is written.\<close>

theorem RtlInsertElementGenericTableAvl_correct:
  assumes "compare_order f" and "avl_table f T h xs"
    and "0 < unat sz" "unat sz = length b" "unat sz < 4294967264" and "n \<noteq> 0 \<longrightarrow> n \<notin> fst ` set xs"
  shows "case find (has_key f b) xs of
      Some x \<Rightarrow> RtlInsertElementGenericTableAvl n (Some T) h (Some b) sz = Some (avl_body (fst x), False, Some T, h)
    | None \<Rightarrow>
        if n = 0 then RtlInsertElementGenericTableAvl n (Some T) h (Some b) sz = Some (0, False, Some T, h)
        else \<exists>T' h'. RtlInsertElementGenericTableAvl n (Some T) h (Some b) sz = Some (avl_body n, True, Some T', h') \<and>
          avl_table f T' h' (inserted f n b xs) \<and>
          (\<forall>a. a \<noteq> n \<and> a \<notin> fst ` set xs \<longrightarrow> h' a = h a)"
  using avl_insert_old(1) [OF assms(1-5), of _ n] avl_insert_old(2) [OF assms(1-5)] avl_insert_new [OF assms(1-5), of n] assms(6) by (auto split: option.split)

text \<open>A sorted sequence has one element with a key at most, so taking it out is filtering by the key.\<close>

lemma filter_other:
  assumes "compare_order f" "sorted_wrt (\<lambda>a b. f a b = RtlGenericLessThan) (map snd (xs @ z # ys))" "has_key f key z"
  shows "filter (\<lambda>x. \<not> has_key f key x) (xs @ z # ys) = xs @ ys"
proof -
  have "\<not> has_key f key x" if "x \<in> set xs" for x
    using that assms(2,3) greater_left [OF assms(1), of "snd x" "snd z" key] by (auto simp: sorted_wrt_append)
  moreover have "\<not> has_key f key y" if "y \<in> set ys" for y
    using that assms(2) compareD(3) [OF assms(1,3), of "snd y"] by (auto simp: sorted_wrt_append)
  ultimately show ?thesis using assms(3) by (simp add: filter_id_conv)
qed

lemma avl_delete_node:
  assumes "rep h 0 (plug k (Node l z r))" "separate (plug k (Node l z r))"
    and "Root T = root_of (plug k (Node l z r))" "FreeRoutine T" "avl_find T h key = Some (fst z)"
  shows "\<exists>h'. RtlDeleteElementGenericTableAvl (Some T) h (Some key) =
      Some (True, Some (T\<lparr>Root := root_of (del_at l r k), NumberOfElements := NumberOfElements T - 1, EnumNext := 0\<rparr>), h') \<and>
    rep h' 0 (del_at l r k) \<and> h' (fst z) = None \<and> (\<forall>a. a \<notin> addrs (plug k (Node l z r)) \<longrightarrow> h' a = h a)"
proof (cases "l = Leaf \<or> r = Leaf")
  case True
  then show ?thesis by (rule avl_delete_simple [OF assms(1,2) _ assms(3-5)])
next
  case False
  then obtain rl rx rr where "r = Node rl rx rr" "l \<noteq> Leaf" by (cases r) auto
  with avl_delete_two [of h k l z rl rx rr T key] assms show ?thesis by simp
qed

lemma avl_delete_table:
  assumes "compare_order f" and "avl_table f T h xs" and Some: "find (has_key f key) xs = Some z"
  shows "\<exists>T' h'. RtlDeleteElementGenericTableAvl (Some T) h (Some key) = Some (True, Some T', h') \<and>
    avl_table f T' h' (filter (\<lambda>x. \<not> has_key f key x) xs) \<and> h' (fst z) = None \<and> EnumNext T' = 0 \<and>
    (\<forall>a. a \<notin> fst ` set xs \<longrightarrow> h' a = h a)"
proof -
  obtain t where t: "Root T = root_of t" "rep h 0 t" "avl t" "inorder t = xs" "separate t" "addrs t = fst ` set xs"
    using avl_table_tree [OF assms(2)] by blast
  note T = avl_tableD [OF assms(2)]
  obtain l r k where loc: "locate (\<lambda>x. f key (snd x)) t [] = Some (l, z, r, k)"
    using locate_find [OF assms(1), of t key "[]"] T(5) t(4) Some by auto
  have k: "plug k (Node l z r) = t" "has_key f key z" using locate_plug [OF loc] by auto
  have xs: "xs = (before k @ inorder l) @ z # (inorder r @ after k)" using inorder_plug [of k "Node l z r"] k(1) t(4) by simp
  let ?xs = "filter (\<lambda>x. \<not> has_key f key x) xs"
  have f: "?xs = inorder (del_at l r k)"
    using filter_other [OF assms(1), of "before k @ inorder l" z "inorder r @ after k"] T(5) k(2) xs by (simp add: inorder_del_at)
  have "length xs = Suc (length ?xs)" unfolding f inorder_del_at by (subst xs) simp
  then have len: "NumberOfElements T - 1 = of_nat (length ?xs)" using T(4) by simp
  have d: "distinct (map fst ?xs)" "sorted_wrt (\<lambda>a b. f a b = RtlGenericLessThan) (map snd ?xs)"
    using T(5,6) by (simp_all add: distinct_map_filter sorted_wrt_map sorted_wrt_filter)
  have "avl (del_at l r k)" by (rule avl_del_at [of k l z r]) (use k(1) t(3) in simp)
  with f len d Some T(1-3) t(6) avl_delete_node [of h k l z r T key] k(1) t(1,2,5) avl_find_table(1) [OF assms(1,2), of key]
  show ?thesis unfolding avl_table_def by fastforce
qed

lemma avl_delete_absent:
  "compare_order f \<Longrightarrow> avl_table f T h xs \<Longrightarrow> find (has_key f key) xs = None \<Longrightarrow>
    RtlDeleteElementGenericTableAvl (Some T) h (Some key) = Some (False, Some T, h)"
  using avl_find_table(1) [of f T h xs key] by (simp add: RtlDeleteElementGenericTableAvl_def)

text \<open>C29: deletion. If an element has the key, \<open>RtlDeleteElementGenericTableAvl\<close> frees its node and returns true; what is left is a balanced search tree of
  exactly the other elements, each still at its address, with correct links, heights and count, an enumeration in progress is ended, and no address outside the table is
  written. Otherwise it returns false and changes nothing. The retracing loop always ends.\<close>

theorem RtlDeleteElementGenericTableAvl_correct:
  assumes "compare_order f" and "avl_table f T h xs"
  shows "case find (has_key f key) xs of
      None \<Rightarrow> RtlDeleteElementGenericTableAvl (Some T) h (Some key) = Some (False, Some T, h)
    | Some z \<Rightarrow> \<exists>T' h'. RtlDeleteElementGenericTableAvl (Some T) h (Some key) = Some (True, Some T', h') \<and>
        avl_table f T' h' (filter (\<lambda>x. \<not> has_key f key x) xs) \<and> h' (fst z) = None \<and> EnumNext T' = 0 \<and>
        (\<forall>a. a \<notin> fst ` set xs \<longrightarrow> h' a = h a)"
  using avl_delete_table [OF assms, of key] avl_delete_absent [OF assms, of key] by (auto split: option.split)

section \<open>Enumeration and depth\<close>

text \<open>\<open>n\<close> calls of the enumeration one after the other, the first with \<open>restart\<close>: the pointers returned and the table.\<close>

primrec enumerate_calls :: "nat \<Rightarrow> RTL_AVL_TABLE option \<Rightarrow> avl_heap \<Rightarrow> bool \<Rightarrow> (nat list \<times> RTL_AVL_TABLE option) option" where
  "enumerate_calls 0 T h restart = Some ([], T)"
| "enumerate_calls (Suc n) T h restart = do {
     (p, T) \<leftarrow> RtlEnumerateGenericTableAvl T h restart;
     (ps, T) \<leftarrow> enumerate_calls n T h False;
     Some (p # ps, T) }"

lemma avl_successor_table:
  assumes "avl_table f T h (xs @ x # ys)"
  shows "avl_successor h (fst x) = Some (next_addr ys)" "fst x \<noteq> 0"
proof -
  obtain t where t: "rep h 0 t" "inorder t = xs @ x # ys" "separate t" "addrs t = fst ` set (xs @ x # ys)"
    using avl_table_tree [OF assms] by metis
  obtain k l r where "plug k (Node l x r) = t" "ys = inorder r @ after k" using inorder_split [OF t(2)] by blast
  then show "avl_successor h (fst x) = Some (next_addr ys)" using avl_successor_rep [of h k l x r] t(1,3) by simp
  show "fst x \<noteq> 0" using rep_addr_0 [OF t(1)] t(4) by force
qed

lemma enumerate_rest:
  "avl_table f T h (xs @ ys) \<Longrightarrow>
    enumerate_calls (length ys + m) (Some (T\<lparr>EnumNext := next_addr ys\<rparr>)) h False =
      Some (map (\<lambda>x. avl_body (fst x)) ys @ replicate m 0, Some (T\<lparr>EnumNext := 0\<rparr>))"
proof (induction ys arbitrary: xs)
  case Nil
  show ?case by (induction m) (simp_all add: RtlEnumerateGenericTableAvl_def)
next
  case (Cons x ys)
  have "avl_table f T h ((xs @ [x]) @ ys)" using Cons.prems by simp
  from Cons.IH [OF this] show ?case using avl_successor_table [OF Cons.prems] by (simp add: RtlEnumerateGenericTableAvl_def)
qed

text \<open>C32: enumeration. A call with \<open>restart\<close> and the calls without it that follow return the body of every element, once and in
  ascending order, and then the null pointer for ever: the enumeration of an unchanged table ends after exactly as many calls as it
  has elements, and changes nothing of the table but the cursor.\<close>

theorem RtlEnumerateGenericTableAvl_complete:
  assumes "avl_table f T h xs"
  shows "enumerate_calls (length xs + Suc m) (Some T) h True =
    Some (map (\<lambda>x. avl_body (fst x)) xs @ replicate (Suc m) 0, Some (T\<lparr>EnumNext := 0\<rparr>))"
proof -
  have "avl_min h (Root T) = Some (next_addr xs)"
    using avl_table_tree [OF assms] avl_min_next by metis
  then have "enumerate_calls (Suc n) (Some T) h True = enumerate_calls (Suc n) (Some (T\<lparr>EnumNext := next_addr xs\<rparr>)) h False" for n
    by (simp add: RtlEnumerateGenericTableAvl_def)
  then show ?thesis using enumerate_rest [of f T h "[]" xs "Suc m"] assms by simp
qed

lemma avl_size: "avl t \<Longrightarrow> 2 ^ (height t div 2) \<le> size1 t"
proof (induction t rule: measure_induct_rule [of size])
  case (less t)
  show ?case
  proof (cases t)
    case (Node l x r)
    define m where "m = min (height l) (height r)"
    have "height t \<le> m + 2" using less.prems Node by (auto simp: m_def)
    then have "height t div 2 \<le> Suc (m div 2)" by simp
    then have "(2::nat) ^ (height t div 2) \<le> 2 ^ Suc (m div 2)" by (rule power_increasing) simp
    also have "\<dots> = 2 ^ (m div 2) + 2 ^ (m div 2)" by simp
    also have "\<dots> \<le> 2 ^ (height l div 2) + 2 ^ (height r div 2)"
      by (intro add_mono power_increasing div_le_mono) (simp_all add: m_def)
    also have "\<dots> \<le> size1 l + size1 r" using less.IH [of l] less.IH [of r] less.prems Node by (simp add: add_mono)
    finally show ?thesis using Node by simp
  qed simp
qed

lemma rep_height_le: "rep h q t \<Longrightarrow> x \<in> set (inorder t) \<Longrightarrow> \<exists>n. h (fst x) = Some n \<and> 1 \<le> Height n \<and> Height n \<le> int (height t)"
proof (induction t arbitrary: q)
  case (Node l y r)
  then consider "x = y" | "x \<in> set (inorder l)" | "x \<in> set (inorder r)" by auto
  then show ?case
  proof cases
    case 2
    with Node.IH(1) [of "fst y"] Node.prems(1) show ?thesis by force
  next
    case 3
    with Node.IH(2) [of "fst y"] Node.prems(1) show ?thesis by force
  qed (use Node.prems(1) in simp)
qed simp

lemma avl_height_bound:
  assumes "avl_table f T h xs" and "length xs < 2 ^ 32" and "x \<in> set xs"
  shows "\<exists>n. h (fst x) = Some n \<and> 1 \<le> Height n \<and> Height n \<le> 65 \<and> 2 ^ (nat (Height n) div 2) \<le> length xs + 1"
proof -
  obtain t where t: "rep h 0 t" "avl t" "inorder t = xs" using avl_table_tree [OF assms(1)] by metis
  obtain n where n: "h (fst x) = Some n" "1 \<le> Height n" "Height n \<le> int (height t)" using rep_height_le [OF t(1)] assms(3) t(3) by blast
  have "(2::nat) ^ (nat (Height n) div 2) \<le> 2 ^ (height t div 2)" using n(3) by (intro power_increasing div_le_mono) simp_all
  also have "\<dots> \<le> length xs + 1" using avl_size [OF t(2)] t(3) by (simp add: size1_size flip: length_inorder)
  finally have b: "(2::nat) ^ (nat (Height n) div 2) \<le> length xs + 1" .
  also have "\<dots> \<le> 2 ^ 32" using assms(2) by simp
  finally have "nat (Height n) div 2 \<le> 32" by (rule power_le_imp_le_exp [rotated]) simp
  then have "Height n \<le> 65" by linarith
  with n b show ?thesis by blast
qed

section \<open>The states a table can reach\<close>

text \<open>From an initialised empty table, any sequence of insertions, deletions and enumeration steps. The allocate routine returns
  null or memory that is not in use for a node.\<close>

inductive avl_reach :: "RTL_AVL_COMPARE_ROUTINE \<Rightarrow> RTL_AVL_TABLE \<Rightarrow> avl_heap \<Rightarrow> bool" for f where
  start: "RtlInitializeGenericTableAvl (Some T0) (Some f) True True c = Some T \<Longrightarrow> avl_reach f T h"
| insertion: "avl_reach f T h \<Longrightarrow> unat sz = length b \<Longrightarrow> (n \<noteq> 0 \<longrightarrow> h n = None) \<Longrightarrow>
    RtlInsertElementGenericTableAvl n (Some T) h (Some b) sz = Some (p, fresh, Some T', h') \<Longrightarrow> avl_reach f T' h'"
| deletion: "avl_reach f T h \<Longrightarrow> RtlDeleteElementGenericTableAvl (Some T) h (Some key) = Some (found, Some T', h') \<Longrightarrow> avl_reach f T' h'"
| enumeration: "avl_reach f T h \<Longrightarrow> RtlEnumerateGenericTableAvl (Some T) h restart = Some (p, Some T') \<Longrightarrow> avl_reach f T' h"

lemma avl_table_cursor: "avl_table f (T\<lparr>EnumNext := c\<rparr>) h xs = avl_table f T h xs"
  by (simp add: avl_table_def)

lemma insert_refused:
  "\<not> 0 < unat sz \<or> \<not> unat sz < 4294967264 \<Longrightarrow> RtlInsertElementGenericTableAvl n (Some T) h (Some b) sz = Some (0, False, Some T, h)"
  by (auto simp: RtlInsertElementGenericTableAvl_def sizeof_RTL_BALANCED_LINKS_def word_less_nat_alt unat_eq_0)

lemma enumerate_table:
  "RtlEnumerateGenericTableAvl (Some T) h restart = Some (p, Some T') \<Longrightarrow> \<exists>c. T' = T\<lparr>EnumNext := c\<rparr>"
  by (auto simp: RtlEnumerateGenericTableAvl_def bind_eq_Some_conv Let_def split: if_splits intro: exI [of _ "EnumNext T"])

lemma insertion_keeps_table:
  assumes "compare_order f" "avl_table f T h xs" "unat sz = length b" "n \<noteq> 0 \<longrightarrow> h n = None"
    "RtlInsertElementGenericTableAvl n (Some T) h (Some b) sz = Some (p, fresh, Some T', h')"
  shows "\<exists>ys. avl_table f T' h' ys"
proof (cases "0 < unat sz \<and> unat sz < 4294967264")
  case True
  obtain t where "rep h 0 t" "inorder t = xs" using avl_table_tree [OF assms(2)] by metis
  then have n: "n \<noteq> 0 \<Longrightarrow> n \<notin> fst ` set xs" using rep_height_le [of h 0 t] assms(4) by fastforce
  show ?thesis
  proof (cases "find (has_key f b) xs")
    case None
    then show ?thesis using avl_insert_new [OF assms(1-2) _ assms(3) _ _ n] avl_insert_old(2) [OF assms(1-2) _ assms(3)] True assms(2,5) by (cases "n = 0") auto
  next
    case (Some x)
    then show ?thesis using avl_insert_old(1) [OF assms(1-2) _ assms(3)] True assms(2,5) by auto
  qed
next
  case False
  then show ?thesis using insert_refused [of sz n T h b] assms(2,5) by auto
qed

lemma deletion_keeps_table:
  assumes "compare_order f" "avl_table f T h xs" "RtlDeleteElementGenericTableAvl (Some T) h (Some key) = Some (found, Some T', h')"
  shows "\<exists>ys. avl_table f T' h' ys"
  using avl_delete_table [OF assms(1,2), of key] avl_delete_absent [OF assms(1,2), of key] assms(2,3)
  by (cases "find (has_key f key) xs") auto

lemma avl_reach_table: "avl_reach f T h \<Longrightarrow> compare_order f \<Longrightarrow> \<exists>xs. avl_table f T h xs"
proof (induction rule: avl_reach.induct)
  case (start T0 c T h)
  then have "avl_table f T h []" by (auto simp: RtlInitializeGenericTableAvl_def avl_table_def intro: exI [of _ Leaf])
  then show ?case by blast
next
  case (insertion T h sz b n p fresh T' h')
  then show ?case using insertion_keeps_table by blast
next
  case (deletion T h key found T' h')
  then show ?case using deletion_keeps_table by blast
next
  case (enumeration T h restart p T')
  then show ?case using enumerate_table [OF enumeration(2)] avl_table_cursor by metis
qed

text \<open>C31: invariant. With a compare routine that is an order, in every state that initialisation and any sequence of insertions, deletions and enumeration steps
  can reach, the links form a balanced search tree with correct parents, heights and count. While the count fits its 32 bits, every cached height is between 1 and
  twice the logarithm of the number of elements plus one, hence at most 65: the recursion of \<open>avl_insert_rec\<close> is never
  deeper, and the \<open>int32_t\<close> height never overflows.\<close>

theorem avl_reachable_balanced:
  assumes "compare_order f" and "avl_reach f T h"
  shows "\<exists>xs. avl_table f T h xs \<and> (length xs < 2 ^ 32 \<longrightarrow> (\<forall>x \<in> set xs. \<exists>n. h (fst x) = Some n \<and>
    1 \<le> Height n \<and> Height n \<le> 65 \<and> 2 ^ (nat (Height n) div 2) \<le> length xs + 1))"
  using avl_reach_table [OF assms(2,1)] avl_height_bound by blast

section \<open>A concrete table\<close>

text \<open>Elements ordered by their first byte, and a table of two.\<close>

definition first_byte :: "bytes \<Rightarrow> u8" where
  "first_byte b = (case b of [] \<Rightarrow> 0 | c # _ \<Rightarrow> c)"

definition by_first_byte :: RTL_AVL_COMPARE_ROUTINE where
  "by_first_byte a b =
     (if first_byte a < first_byte b then RtlGenericLessThan
      else if first_byte b < first_byte a then RtlGenericGreaterThan else RtlGenericEqual)"

definition sample_heap :: avl_heap where
  "sample_heap = [100 \<mapsto> \<lparr>Parent = 0, LeftChild = 0, RightChild = 200, Height = 2, Body = [5]\<rparr>,
                  200 \<mapsto> \<lparr>Parent = 100, LeftChild = 0, RightChild = 0, Height = 1, Body = [9]\<rparr>]"

definition sample_table :: RTL_AVL_TABLE where
  "sample_table = \<lparr>Root = 100, NumberOfElements = 2, CompareRoutine = Some by_first_byte, AllocateRoutine = True,
                   FreeRoutine = True, TableContext = 0, EnumNext = 0\<rparr>"

lemma by_first_byte_order: "compare_order by_first_byte"
  unfolding compare_order_def by_first_byte_def by (auto split: if_splits)

lemma sample: "avl_table by_first_byte sample_table sample_heap [(100, [5]), (200, [9])]"
  unfolding avl_table_def
  by (intro conjI exI [of _ "Node Leaf (100, [5]) (Node Leaf (200, [9]) Leaf)"])
    (simp_all add: sample_table_def sample_heap_def by_first_byte_def first_byte_def)

theorem RtlLookupElementGenericTableAvl_correct_witness:
  "RtlLookupElementGenericTableAvl (Some sample_table) sample_heap (Some [9]) = Some 232"
  using RtlLookupElementGenericTableAvl_correct [OF by_first_byte_order sample, of "[9]"]
  by (simp add: by_first_byte_def first_byte_def avl_body_def)

theorem RtlInsertElementGenericTableAvl_correct_witness:
  "\<exists>T' h'. RtlInsertElementGenericTableAvl 300 (Some sample_table) sample_heap (Some [7]) 1 = Some (332, True, Some T', h') \<and>
     avl_table by_first_byte T' h' [(100, [5]), (300, [7]), (200, [9])]"
  using RtlInsertElementGenericTableAvl_correct [OF by_first_byte_order sample, of 1 "[7]" 300]
  by (auto simp: by_first_byte_def first_byte_def avl_body_def)

theorem RtlDeleteElementGenericTableAvl_correct_witness:
  "\<exists>T' h'. RtlDeleteElementGenericTableAvl (Some sample_table) sample_heap (Some [5]) = Some (True, Some T', h') \<and>
     avl_table by_first_byte T' h' [(200, [9])] \<and> h' 100 = None"
  using RtlDeleteElementGenericTableAvl_correct [OF by_first_byte_order sample, of "[5]"]
  by (auto simp: by_first_byte_def first_byte_def)

theorem RtlEnumerateGenericTableAvl_complete_witness:
  "enumerate_calls 4 (Some sample_table) sample_heap True = Some ([132, 232, 0, 0], Some sample_table)"
  using RtlEnumerateGenericTableAvl_complete [OF sample, of 1] by (simp add: avl_body_def sample_table_def numeral_eq_Suc)

definition singleton_table :: RTL_AVL_TABLE where
  "singleton_table = \<lparr>Root = 300, NumberOfElements = 1, CompareRoutine = Some by_first_byte, AllocateRoutine = True,
                      FreeRoutine = True, TableContext = 0, EnumNext = 0\<rparr>"

definition singleton_heap :: avl_heap where
  "singleton_heap = [300 \<mapsto> \<lparr>Parent = 0, LeftChild = 0, RightChild = 0, Height = 1, Body = [7]\<rparr>]"

lemma singleton_reach: "avl_reach by_first_byte singleton_table singleton_heap"
proof -
  let ?T = "singleton_table\<lparr>Root := 0, NumberOfElements := 0\<rparr>"
  have "avl_reach by_first_byte ?T Map.empty"
    by (rule avl_reach.start [of ?T _ 0]) (simp add: RtlInitializeGenericTableAvl_def singleton_table_def)
  then show ?thesis
  proof (rule avl_reach.insertion)
    show "RtlInsertElementGenericTableAvl 300 (Some ?T) Map.empty (Some [7]) 1 = Some (332, True, Some singleton_table, singleton_heap)"
      by (simp add: RtlInsertElementGenericTableAvl_def singleton_table_def singleton_heap_def sizeof_RTL_BALANCED_LINKS_def avl_find_def
        avl_find_from.simps avl_insert_rec.simps set_parent_def put_node_def node_at_def avl_body_def rd_bytes_def)
  qed simp_all
qed

theorem avl_reachable_balanced_witness:
  "\<exists>xs. avl_table by_first_byte singleton_table singleton_heap xs \<and> (length xs < 2 ^ 32 \<longrightarrow> (\<forall>x \<in> set xs. \<exists>n. singleton_heap (fst x) = Some n \<and>
    1 \<le> Height n \<and> Height n \<le> 65 \<and> 2 ^ (nat (Height n) div 2) \<le> length xs + 1))"
  by (rule avl_reachable_balanced [OF by_first_byte_order singleton_reach])

end
