(* ===== verification/Boot_Info.thy ===== *)
theory Boot_Info
  imports Kernel_Prelude
begin

text \<open>
  The boot handoff, \<open>include/kernel/boot_info.h\<close>: what the boot loader tells the kernel about memory, as far as the
  physical memory manager and the validators read it. The fixed arrays are lists of their declared length; reading \<open>n\<close> elements of an array
  that is shorter is the value \<^term>\<open>None\<close>. The linker symbols and \<open>sizeof(struct boot_info)\<close> are the record \<open>boot_layout\<close>.
\<close>

section \<open>Constants\<close>

definition BOOT_MMAP_MAX_ENTRIES :: u32 where "BOOT_MMAP_MAX_ENTRIES = 512"
definition BOOT_RT_MMAP_MAX :: u32 where "BOOT_RT_MMAP_MAX = 64"
definition BOOT_USB_MAX_DMA_PAGES :: u32 where "BOOT_USB_MAX_DMA_PAGES = 16"
definition BOOT_PAYLOAD_MAX :: u32 where "BOOT_PAYLOAD_MAX = 32"
definition BOOT_INFO_PHYS_ADDR :: u64 where "BOOT_INFO_PHYS_ADDR = 0x10000"
definition BOOT_INFO_EARLY_MAP_END :: u64 where "BOOT_INFO_EARLY_MAP_END = 0x100000000"

definition UEFI_MMAP_LOADER_CODE :: u32 where "UEFI_MMAP_LOADER_CODE = 1"
definition UEFI_MMAP_LOADER_DATA :: u32 where "UEFI_MMAP_LOADER_DATA = 2"
definition UEFI_MMAP_BOOT_SERVICES_CODE :: u32 where "UEFI_MMAP_BOOT_SERVICES_CODE = 3"
definition UEFI_MMAP_BOOT_SERVICES_DATA :: u32 where "UEFI_MMAP_BOOT_SERVICES_DATA = 4"
definition UEFI_MMAP_CONVENTIONAL :: u32 where "UEFI_MMAP_CONVENTIONAL = 7"

definition BOOT_CAP_PAYLOAD_DESCRIPTORS :: u64 where "BOOT_CAP_PAYLOAD_DESCRIPTORS = 1"
definition BOOT_CAP_RUNTIME_SERVICES :: u64 where "BOOT_CAP_RUNTIME_SERVICES = 2"
definition BOOT_CAP_TPM_EVENT_LOG :: u64 where "BOOT_CAP_TPM_EVENT_LOG = 8"
definition BOOT_FLAG_WARM_UPDATE :: u32 where "BOOT_FLAG_WARM_UPDATE = 4"

definition BOOT_PAYLOAD_NONE :: u32 where "BOOT_PAYLOAD_NONE = 0"
definition BOOT_PAYLOAD_MODULE :: u32 where "BOOT_PAYLOAD_MODULE = 1"
definition BOOT_PAYLOAD_RANDOM_SEED :: u32 where "BOOT_PAYLOAD_RANDOM_SEED = 7"
definition BOOT_PAYLOAD_WARM_UPDATE_STATE :: u32 where "BOOT_PAYLOAD_WARM_UPDATE_STATE = 9"
definition BOOT_PAYLOAD_HEADLESS_AUTHZ :: u32 where "BOOT_PAYLOAD_HEADLESS_AUTHZ = 10"

definition BOOT_PAYLOAD_FLAG_VALID :: u32 where "BOOT_PAYLOAD_FLAG_VALID = 1"
definition BOOT_PAYLOAD_FLAG_CHECKSUMMED :: u32 where "BOOT_PAYLOAD_FLAG_CHECKSUMMED = 2"
definition BOOT_PAYLOAD_FLAG_REQUIRED :: u32 where "BOOT_PAYLOAD_FLAG_REQUIRED = 4"
definition BOOT_PAYLOAD_FLAG_RESERVED :: u32 where "BOOT_PAYLOAD_FLAG_RESERVED = 8"

definition BOOT_PAYLOAD_FLAG_MASK_KNOWN :: u32 where
  "BOOT_PAYLOAD_FLAG_MASK_KNOWN =
     BOOT_PAYLOAD_FLAG_VALID OR BOOT_PAYLOAD_FLAG_CHECKSUMMED OR BOOT_PAYLOAD_FLAG_REQUIRED OR BOOT_PAYLOAD_FLAG_RESERVED"

text \<open>The continuation bits 8 to 13 of a warm-update descriptor.\<close>

definition BOOT_WARM_UPDATE_CONT_MASK_KNOWN :: u32 where "BOOT_WARM_UPDATE_CONT_MASK_KNOWN = 0x3F00"

section \<open>Structures\<close>

datatype boot_result_t = BOOT_OK | BOOT_DEGRADED | BOOT_FATAL | BOOT_DEFERRED

record boot_mmap_entry =
  base_addr :: u64
  me_length :: u64
  uefi_memory_type :: u32

record boot_rt_mem_entry =
  phys_addr :: u64
  num_pages :: u64

record boot_framebuffer =
  fb_addr :: u64
  fb_pitch :: u32
  fb_height :: u32

record boot_usb_controller =
  usb_active :: u8
  scratchpad_array_phys :: u64
  scratchpad_base_phys :: u64
  scratchpad_page_count :: u32
  dma_pages :: "u64 list"
  dma_page_count :: u32

record boot_payload_desc =
  pd_type :: u32
  pd_flags :: u32
  pd_phys_start :: u64
  pd_length :: u64
  pd_alignment :: u64
  pd_checksum :: u64
  pd_producer_id :: u32
  pd_reserved :: u32

record boot_info =
  mmap :: "boot_mmap_entry list"
  mmap_count :: u32
  fb :: boot_framebuffer
  fb_available :: u8
  rt_mmap :: "boot_rt_mem_entry list"
  rt_mmap_count :: u32
  tpm_event_log :: u64
  tpm_event_log_size :: u32
  usb_controller :: boot_usb_controller
  payload_descriptors :: "boot_payload_desc list"
  payload_count :: u32
  payload_overflow :: u32
  payload_total_bytes :: u64
  caps_present :: u64
  bi_flags :: u32
  kstack_base :: u64
  kstack_size :: u32
  kstack_guard_size :: u32

record boot_layout =
  kernel_start :: u64
  kernel_end :: u64
  sizeof_boot_info :: u64

text \<open>The arrays have their declared lengths.\<close>

definition info_arrays :: "boot_info \<Rightarrow> bool" where
  "info_arrays info \<longleftrightarrow> length (mmap info) = 512 \<and> length (rt_mmap info) = 64 \<and> length (dma_pages (usb_controller info)) = 16 \<and>
     length (payload_descriptors info) = 32"

section \<open>Loops with an early return\<close>

text \<open>The first \<open>n\<close> elements of an array, with their indices.\<close>

definition prefix_of :: "u32 \<Rightarrow> 'a list \<Rightarrow> (nat \<times> 'a) list option" where
  "prefix_of n xs = (if unat n \<le> length xs then Some (zip [0..<unat n] xs) else None)"

text \<open>A sequence of steps that may each return an error.\<close>

definition bindE :: "'e + 'a \<Rightarrow> ('a \<Rightarrow> 'e + 'b) \<Rightarrow> 'e + 'b" where
  "bindE m f = (case m of Inl e \<Rightarrow> Inl e | Inr x \<Rightarrow> f x)"

primrec each :: "('a \<Rightarrow> 's \<Rightarrow> 'e + 's) \<Rightarrow> 'a list \<Rightarrow> 's \<Rightarrow> 'e + 's" where
  "each f [] s = Inr s"
| "each f (x # xs) s = bindE (f x s) (each f xs)"

lemma bindE_simps [simp]: "bindE (Inl e) f = Inl e" "bindE (Inr x) f = f x"
  by (simp_all add: bindE_def)

lemma bindE_Inr: "bindE m f = Inr y \<longleftrightarrow> (\<exists>x. m = Inr x \<and> f x = Inr y)"
  by (cases m) auto

lemma each_append: "each f (xs @ ys) s = bindE (each f xs s) (each f ys)"
proof (induction xs arbitrary: s)
  case (Cons x xs)
  then show ?case by (cases "f x s") auto
qed simp

text \<open>If a loop does not return early, an invariant of its steps holds at the end, and every step succeeded.\<close>

lemma each_inv:
  assumes "each f xs s = Inr s'" "P [] s"
    and "\<And>ys x t t'. P ys t \<Longrightarrow> x \<in> set xs \<Longrightarrow> f x t = Inr t' \<Longrightarrow> P (ys @ [x]) t'"
  shows "P xs s'"
  using assms
proof (induction xs arbitrary: s' rule: rev_induct)
  case (snoc x xs)
  then obtain t where "each f xs s = Inr t" "f x t = Inr s'" by (auto simp: each_append bindE_Inr)
  with snoc show ?case by simp
qed simp

text \<open>Half-open ranges of addresses.\<close>

definition region :: "u64 \<Rightarrow> u64 \<Rightarrow> nat set" where
  "region start len = {unat start..<unat start + unat len}"

definition fits :: "u64 \<Rightarrow> u64 \<Rightarrow> bool" where
  "fits start len \<longleftrightarrow> unat start + unat len < 2 ^ 64"

lemma region_empty [simp]: "region start 0 = {}"
  by (simp add: region_def)

end
