(* ===== verification/Mm_Heap.thy ===== *)
theory Mm_Heap
  imports Mm_Pmm Boot_Info
begin

text \<open>
  \<open>src/kernel/mm/heap.c\<close>: the kernel heap, a first-fit allocator over one arena of contiguous frames. The arena is the list of its bytes: headers, redzones and user
  data share it, so that every store of the code is a store to these bytes; an access outside the arena is the value \<^term>\<open>None\<close>. Pointers are 64-bit addresses, and \<open>next\<close> is stored in
  the header as the code does. \<open>KeBugCheckEx\<close> does not return: it is a result of its own. The build is the default one, without \<open>KERNEL_TESTS\<close>, with \<open>HEAP_INIT_ON_ALLOC\<close> and without
  \<open>HEAP_ZERO_ON_FREE\<close>. Each operation is one step.
\<close>

section \<open>64-bit fields\<close>

definition enc64 :: "u64 \<Rightarrow> bytes" where
  "enc64 v = enc32 (ucast v) @ enc32 (ucast (drop_bit 32 v))"

definition rd64 :: "bytes \<Rightarrow> nat \<Rightarrow> u64 option" where
  "rd64 m i = do {
     lo \<leftarrow> rd32 m i;
     hi \<leftarrow> rd32 m (i + 4);
     Some (ucast lo OR push_bit 32 (ucast hi)) }"

definition wr64 :: "bytes \<Rightarrow> nat \<Rightarrow> u64 \<Rightarrow> bytes option" where
  "wr64 m i v = wr_bytes m i (enc64 v)"

section \<open>Constants and state\<close>

definition HEAP_INITIAL_PAGES :: nat where "HEAP_INITIAL_PAGES = 512"
definition HEAP_PAGE_SIZE :: u64 where "HEAP_PAGE_SIZE = 4096"
definition HEADER_SIZE :: u64 where "HEADER_SIZE = 48"
definition HEAP_COOKIE_SECRET :: u64 where "HEAP_COOKIE_SECRET = 0xDEADBEEFC0FFEE01"
definition HEAP_REDZONE_FRONT :: u64 where "HEAP_REDZONE_FRONT = 0xFEFEFEFEFEFEFEFE"
definition HEAP_REDZONE_BACK :: u64 where "HEAP_REDZONE_BACK = 0xBDBDBDBDBDBDBDBD"
definition HEAP_REDZONE_BACK_SIZE :: u64 where "HEAP_REDZONE_BACK_SIZE = 8"
definition KMALLOC_MAX :: u64 where "KMALLOC_MAX = 268435456"
definition MIN_BLOCK_SIZE :: u64 where "MIN_BLOCK_SIZE = 16"
definition HEAP_BITMAP_GRANULE :: u64 where "HEAP_BITMAP_GRANULE = MIN_BLOCK_SIZE"
definition HEAP_BITMAP_BITS :: u64 where "HEAP_BITMAP_BITS = 131072"

record heap =
  heap_start_block :: u64
  arena :: bytes
  total_heap_size :: u64
  used_bytes :: u64
  s_block_bitmap :: "u64 list"
  s_heap_poisoned :: bool

text \<open>The fields of \<open>struct block_header\<close> at their offsets.\<close>

definition off :: "heap \<Rightarrow> u64 \<Rightarrow> nat" where
  "off h p = unat (p - heap_start_block h)"

definition ld64 :: "u64 \<Rightarrow> heap \<Rightarrow> u64 option" where "ld64 p h = rd64 (arena h) (off h p)"

definition store :: "u64 \<Rightarrow> bytes \<Rightarrow> heap \<Rightarrow> heap option" where
  "store p bs h = do { m \<leftarrow> wr_bytes (arena h) (off h p) bs; Some (h\<lparr>arena := m\<rparr>) }"

definition st64 :: "u64 \<Rightarrow> u64 \<Rightarrow> heap \<Rightarrow> heap option" where "st64 p v h = store p (enc64 v) h"

definition b_size :: "u64 \<Rightarrow> heap \<Rightarrow> u64 option" where "b_size b h = ld64 b h"
definition b_next :: "u64 \<Rightarrow> heap \<Rightarrow> u64 option" where "b_next b h = ld64 (b + 8) h"
definition b_cookie :: "u64 \<Rightarrow> heap \<Rightarrow> u64 option" where "b_cookie b h = ld64 (b + 16) h"
definition b_req_size :: "u64 \<Rightarrow> heap \<Rightarrow> u64 option" where "b_req_size b h = ld64 (b + 24) h"
definition b_tag :: "u64 \<Rightarrow> heap \<Rightarrow> u32 option" where "b_tag b h = rd32 (arena h) (off h (b + 32))"
definition b_is_free :: "u64 \<Rightarrow> heap \<Rightarrow> u8 option" where "b_is_free b h = rd8 (arena h) (off h (b + 36))"
definition b_redzone_front :: "u64 \<Rightarrow> heap \<Rightarrow> u64 option" where "b_redzone_front b h = ld64 (b + 40) h"

definition set_size :: "u64 \<Rightarrow> u64 \<Rightarrow> heap \<Rightarrow> heap option" where "set_size b v = st64 b v"
definition set_next :: "u64 \<Rightarrow> u64 \<Rightarrow> heap \<Rightarrow> heap option" where "set_next b v = st64 (b + 8) v"
definition set_cookie :: "u64 \<Rightarrow> u64 \<Rightarrow> heap \<Rightarrow> heap option" where "set_cookie b v = st64 (b + 16) v"
definition set_req_size :: "u64 \<Rightarrow> u64 \<Rightarrow> heap \<Rightarrow> heap option" where "set_req_size b v = st64 (b + 24) v"
definition set_tag :: "u64 \<Rightarrow> u32 \<Rightarrow> heap \<Rightarrow> heap option" where "set_tag b v = store (b + 32) (enc32 v)"
definition set_is_free :: "u64 \<Rightarrow> u8 \<Rightarrow> heap \<Rightarrow> heap option" where "set_is_free b v = store (b + 36) [v]"
definition set_redzone_front :: "u64 \<Rightarrow> u64 \<Rightarrow> heap \<Rightarrow> heap option" where "set_redzone_front b v = st64 (b + 40) v"

section \<open>The block-start bitmap\<close>

definition heap_bm_index :: "u64 \<Rightarrow> heap \<Rightarrow> u64" where
  "heap_bm_index b h = (b - heap_start_block h) div HEAP_BITMAP_GRANULE"

text \<open>The store of one word of the bitmap; the code's guard keeps the index inside.\<close>

definition bm_put :: "bool \<Rightarrow> nat \<Rightarrow> heap \<Rightarrow> heap option" where
  "bm_put v i h =
     (let k = i div 64; w = push_bit (i mod 64) 1 in
      if k < length (s_block_bitmap h)
      then Some (h\<lparr>s_block_bitmap := (s_block_bitmap h)[k := if v then s_block_bitmap h ! k OR w else s_block_bitmap h ! k AND NOT w]\<rparr>)
      else None)"

definition heap_bm_set :: "u64 \<Rightarrow> heap \<Rightarrow> heap option" where
  "heap_bm_set b h = (let i = heap_bm_index b h in if i < HEAP_BITMAP_BITS then bm_put True (unat i) h else Some h)"

definition heap_bm_clear :: "u64 \<Rightarrow> heap \<Rightarrow> heap option" where
  "heap_bm_clear b h = (let i = heap_bm_index b h in if i < HEAP_BITMAP_BITS then bm_put False (unat i) h else Some h)"

definition heap_bm_test :: "u64 \<Rightarrow> heap \<Rightarrow> bool option" where
  "heap_bm_test b h =
     (let i = heap_bm_index b h in
      if i \<ge> HEAP_BITMAP_BITS then Some False
      else if unat i div 64 < length (s_block_bitmap h)
      then Some (drop_bit (unat i mod 64) (s_block_bitmap h ! (unat i div 64)) AND 1 \<noteq> 0)
      else None)"

section \<open>Faults\<close>

datatype heap_fault_class =
    HEAP_FAULT_NONE | HEAP_FAULT_WILD | HEAP_FAULT_MISALIGNED | HEAP_FAULT_COOKIE | HEAP_FAULT_REDZONE_FRONT | HEAP_FAULT_REDZONE_BACK | HEAP_FAULT_TAG

record heap_fault =
  f_cls :: heap_fault_class
  f_ptr :: u64
  f_got :: u64
  f_want :: u64

definition no_fault :: heap_fault where
  "no_fault = \<lparr>f_cls = HEAP_FAULT_NONE, f_ptr = 0, f_got = 0, f_want = 0\<rparr>"

definition heap_cookie_for :: "u64 \<Rightarrow> u64" where "heap_cookie_for b = HEAP_COOKIE_SECRET XOR b"

definition heap_redzone_back :: "u64 \<Rightarrow> heap \<Rightarrow> u64 option" where
  "heap_redzone_back b h = do { req \<leftarrow> b_req_size b h; Some (b + HEADER_SIZE + req) }"

definition heap_owns :: "u64 \<Rightarrow> heap \<Rightarrow> bool" where
  "heap_owns addr h \<longleftrightarrow> (if addr < heap_start_block h then False else if addr \<ge> heap_start_block h + total_heap_size h then False else True)"

datatype classified = Clean u64 | AlreadyFree | Corrupt heap_fault

definition heap_classify :: "u64 \<Rightarrow> heap \<Rightarrow> classified option" where
  "heap_classify p h =
     (if \<not> heap_owns p h then Some (Corrupt (no_fault\<lparr>f_cls := HEAP_FAULT_WILD, f_ptr := p\<rparr>))
      else if p AND 15 \<noteq> 0 then Some (Corrupt (no_fault\<lparr>f_cls := HEAP_FAULT_MISALIGNED, f_ptr := p\<rparr>))
      else if p < heap_start_block h + HEADER_SIZE then Some (Corrupt (no_fault\<lparr>f_cls := HEAP_FAULT_WILD, f_ptr := p\<rparr>))
      else do {
        let b = p - HEADER_SIZE;
        member \<leftarrow> heap_bm_test b h;
        if \<not> member then Some (Corrupt (no_fault\<lparr>f_cls := HEAP_FAULT_WILD, f_ptr := p\<rparr>))
        else do {
          is_free \<leftarrow> b_is_free b h;
          cookie \<leftarrow> b_cookie b h;
          if is_free \<noteq> 0 then
            Some (if cookie = 0 then AlreadyFree else Corrupt (no_fault\<lparr>f_cls := HEAP_FAULT_COOKIE, f_ptr := p, f_got := cookie, f_want := 0\<rparr>))
          else if cookie \<noteq> heap_cookie_for b
          then Some (Corrupt (no_fault\<lparr>f_cls := HEAP_FAULT_COOKIE, f_ptr := p, f_got := cookie, f_want := heap_cookie_for b\<rparr>))
          else do {
            req_size \<leftarrow> b_req_size b h;
            sz \<leftarrow> b_size b h;
            if req_size > sz \<or> sz - req_size < HEAP_REDZONE_BACK_SIZE
            then Some (Corrupt (no_fault\<lparr>f_cls := HEAP_FAULT_REDZONE_BACK, f_ptr := p, f_got := req_size, f_want := sz\<rparr>))
            else do {
              front \<leftarrow> b_redzone_front b h;
              if front \<noteq> HEAP_REDZONE_FRONT
              then Some (Corrupt (no_fault\<lparr>f_cls := HEAP_FAULT_REDZONE_FRONT, f_ptr := p, f_got := front, f_want := HEAP_REDZONE_FRONT\<rparr>))
              else do {
                rz \<leftarrow> heap_redzone_back b h;
                back \<leftarrow> ld64 rz h;
                if back \<noteq> HEAP_REDZONE_BACK
                then Some (Corrupt (no_fault\<lparr>f_cls := HEAP_FAULT_REDZONE_BACK, f_ptr := p, f_got := back, f_want := HEAP_REDZONE_BACK\<rparr>))
                else Some (Clean b) } } } } })"

section \<open>Splitting and coalescing\<close>

definition block_split :: "u64 \<Rightarrow> u64 \<Rightarrow> heap \<Rightarrow> heap option" where
  "block_split b sz h = do {
     bsz \<leftarrow> b_size b h;
     if bsz \<ge> sz + HEADER_SIZE + MIN_BLOCK_SIZE then do {
       let nb = b + HEADER_SIZE + sz;
       h \<leftarrow> set_size nb (bsz - sz - HEADER_SIZE) h;
       h \<leftarrow> set_is_free nb 1 h;
       h \<leftarrow> set_cookie nb 0 h;
       nx \<leftarrow> b_next b h;
       h \<leftarrow> set_next nb nx h;
       h \<leftarrow> heap_bm_set nb h;
       h \<leftarrow> set_size b sz h;
       set_next b nb h }
     else Some h }"

text \<open>One round of the coalescing loop: the next block to look at, or the end with the fault that was found.\<close>

definition coalesce_step :: "u64 \<Rightarrow> heap \<Rightarrow> ((u64 + heap_fault) \<times> heap) option" where
  "coalesce_step cur h = do {
     nxt \<leftarrow> b_next cur h;
     if nxt = 0 then Some (Inr no_fault, h)
     else do {
       nfree \<leftarrow> b_is_free nxt h;
       ncookie \<leftarrow> b_cookie nxt h;
       if nfree \<noteq> 0 \<and> ncookie \<noteq> 0
       then Some (Inr \<lparr>f_cls = HEAP_FAULT_COOKIE, f_ptr = nxt + HEADER_SIZE, f_got = ncookie, f_want = 0\<rparr>, h\<lparr>s_heap_poisoned := True\<rparr>)
       else do {
         cfree \<leftarrow> b_is_free cur h;
         ccookie \<leftarrow> b_cookie cur h;
         if cfree \<noteq> 0 \<and> ccookie = 0 \<and> nfree \<noteq> 0 \<and> ncookie = 0 then do {
           h \<leftarrow> heap_bm_clear nxt h;
           csz \<leftarrow> b_size cur h;
           nsz \<leftarrow> b_size nxt h;
           h \<leftarrow> set_size cur (csz + (HEADER_SIZE + nsz)) h;
           nn \<leftarrow> b_next nxt h;
           h \<leftarrow> set_next cur nn h;
           Some (Inl cur, h) }
         else do { c \<leftarrow> b_next cur h; Some (Inl c, h) } } } }"

partial_function (option) coalesce_loop :: "u64 \<Rightarrow> heap \<Rightarrow> (heap_fault \<times> heap) option" where
  "coalesce_loop cur h =
     (if cur = 0 then Some (no_fault, h)
      else do {
        (r, h) \<leftarrow> coalesce_step cur h;
        (case r of Inl c \<Rightarrow> coalesce_loop c h | Inr f \<Rightarrow> Some (f, h)) })"

declare coalesce_loop.simps [code]

definition coalesce_free_blocks :: "heap \<Rightarrow> (heap_fault \<times> heap) option" where
  "coalesce_free_blocks h = coalesce_loop (heap_start_block h) h"

section \<open>Allocation\<close>

definition need_for :: "u64 \<Rightarrow> u64" where
  "need_for req = (req + HEAP_REDZONE_BACK_SIZE + 15) AND NOT 15"

text \<open>The body of the search loop when the block fits.\<close>

definition claim_block :: "u64 \<Rightarrow> u64 \<Rightarrow> u64 \<Rightarrow> u32 \<Rightarrow> heap \<Rightarrow> (u64 \<times> heap) option" where
  "claim_block cur need req tag h = do {
     h \<leftarrow> block_split cur need h;
     h \<leftarrow> set_is_free cur 0 h;
     h \<leftarrow> set_req_size cur req h;
     h \<leftarrow> set_tag cur tag h;
     h \<leftarrow> set_cookie cur (heap_cookie_for cur) h;
     h \<leftarrow> set_redzone_front cur HEAP_REDZONE_FRONT h;
     rz \<leftarrow> heap_redzone_back cur h;
     h \<leftarrow> st64 rz HEAP_REDZONE_BACK h;
     sz \<leftarrow> b_size cur h;
     Some (cur + HEADER_SIZE, h\<lparr>used_bytes := used_bytes h + sz\<rparr>) }"

partial_function (option) kmalloc_search :: "u64 \<Rightarrow> u64 \<Rightarrow> u64 \<Rightarrow> u32 \<Rightarrow> heap \<Rightarrow> (u64 \<times> heap) option" where
  "kmalloc_search cur need req tag h =
     (if cur = 0 then Some (0, h)
      else do {
        is_free \<leftarrow> b_is_free cur h;
        cookie \<leftarrow> b_cookie cur h;
        sz \<leftarrow> b_size cur h;
        if is_free \<noteq> 0 \<and> cookie = 0 \<and> sz \<ge> need then claim_block cur need req tag h
        else do { c \<leftarrow> b_next cur h; kmalloc_search c need req tag h } })"

declare kmalloc_search.simps [code]

definition kmalloc_locked :: "u64 \<Rightarrow> u32 \<Rightarrow> heap \<Rightarrow> (u64 \<times> heap) option" where
  "kmalloc_locked req tag h =
     (if s_heap_poisoned h then Some (0, h)
      else kmalloc_search (heap_start_block h) (need_for req) req tag h)"

text \<open>Zeroing by words, then by bytes.\<close>

fun heap_fast_zero :: "u64 \<Rightarrow> nat \<Rightarrow> heap \<Rightarrow> heap option" where
  "heap_fast_zero p n h =
     (if n \<ge> 8 then do { h \<leftarrow> st64 p 0 h; heap_fast_zero (p + 8) (n - 8) h }
      else if n > 0 then do { h \<leftarrow> store p [0] h; heap_fast_zero (p + 1) (n - 1) h }
      else Some h)"

declare heap_fast_zero.simps [simp del]

definition kmalloc_tagged :: "u64 \<Rightarrow> u32 \<Rightarrow> heap \<Rightarrow> (u64 \<times> heap) option" where
  "kmalloc_tagged sz tag h =
     (if sz = 0 \<or> sz > KMALLOC_MAX then Some (0, h)
      else do {
        (p, h) \<leftarrow> kmalloc_locked sz tag h;
        if p \<noteq> 0 then do { h \<leftarrow> heap_fast_zero p (unat sz) h; Some (p, h) } else Some (p, h) })"

definition kmalloc :: "u64 \<Rightarrow> heap \<Rightarrow> (u64 \<times> heap) option" where
  "kmalloc sz h =
     (if sz = 0 then Some (0, h)
      else if sz > KMALLOC_MAX then Some (0, h)
      else do {
        (p, h) \<leftarrow> kmalloc_locked sz 0 h;
        if p \<noteq> 0 then do { h \<leftarrow> heap_fast_zero p (unat sz) h; Some (p, h) } else Some (p, h) })"

definition kmalloc_zeroed :: "u64 \<Rightarrow> heap \<Rightarrow> (u64 \<times> heap) option" where
  "kmalloc_zeroed sz h =
     (if sz = 0 \<or> sz > KMALLOC_MAX then Some (0, h)
      else do {
        (p, h) \<leftarrow> kmalloc_locked sz 0 h;
        if p \<noteq> 0 then do { h \<leftarrow> heap_fast_zero p (unat sz) h; Some (p, h) } else Some (p, h) })"

section \<open>Release\<close>

text \<open>\<open>want_tag\<close> is the tag to check, if any. The result is the fault.\<close>

definition kfree_locked :: "u64 \<Rightarrow> u32 option \<Rightarrow> heap \<Rightarrow> (heap_fault \<times> heap) option" where
  "kfree_locked p want_tag h =
     (if s_heap_poisoned h then Some (no_fault, h)
      else do {
        r \<leftarrow> heap_classify p h;
        (case r of
           AlreadyFree \<Rightarrow> Some (no_fault, h)
         | Corrupt f \<Rightarrow> Some (f, h\<lparr>s_heap_poisoned := True\<rparr>)
         | Clean b \<Rightarrow> do {
             tag \<leftarrow> b_tag b h;
             if want_tag \<noteq> None \<and> Some tag \<noteq> want_tag
             then Some (\<lparr>f_cls = HEAP_FAULT_TAG, f_ptr = p, f_got = ucast tag, f_want = ucast (the want_tag)\<rparr>, h\<lparr>s_heap_poisoned := True\<rparr>)
             else do {
               h \<leftarrow> set_cookie b 0 h;
               h \<leftarrow> set_is_free b 1 h;
               sz \<leftarrow> b_size b h;
               coalesce_free_blocks (h\<lparr>used_bytes := used_bytes h - sz\<rparr>) } }) })"

datatype 'a outcome = Done 'a heap | BugCheck heap_fault heap

definition kfree_checked :: "u64 \<Rightarrow> u32 option \<Rightarrow> heap \<Rightarrow> unit outcome option" where
  "kfree_checked p want_tag h =
     (if p = 0 then Some (Done () h)
      else do {
        (f, h) \<leftarrow> kfree_locked p want_tag h;
        Some (if f_cls f \<noteq> HEAP_FAULT_NONE then BugCheck f h else Done () h) })"

definition kfree :: "u64 \<Rightarrow> heap \<Rightarrow> unit outcome option" where "kfree p h = kfree_checked p None h"

definition kfree_tagged :: "u64 \<Rightarrow> u32 \<Rightarrow> heap \<Rightarrow> unit outcome option" where "kfree_tagged p tag h = kfree_checked p (Some tag) h"

section \<open>Reallocation\<close>

text \<open>The tail of both in-place branches: the new request size, its redzone, and the newly exposed bytes.\<close>

definition resize_in_place :: "u64 \<Rightarrow> u64 \<Rightarrow> u64 \<Rightarrow> u64 \<Rightarrow> heap \<Rightarrow> u64 outcome option" where
  "resize_in_place p b old_req new_size h = do {
     h \<leftarrow> set_req_size b new_size h;
     rz \<leftarrow> heap_redzone_back b h;
     h \<leftarrow> st64 rz HEAP_REDZONE_BACK h;
     h \<leftarrow> (if new_size > old_req then heap_fast_zero (p + old_req) (unat (new_size - old_req)) h else Some h);
     Some (Done p h) }"

definition copy_byte :: "u64 \<Rightarrow> u64 \<Rightarrow> nat \<Rightarrow> heap \<Rightarrow> heap option" where
  "copy_byte src dst i h = do { v \<leftarrow> rd8 (arena h) (off h (src + of_nat i)); store (dst + of_nat i) [v] h }"

text \<open>The last resort: a new block, a copy, and the release of the old block.\<close>

definition realloc_move :: "u64 \<Rightarrow> u64 \<Rightarrow> u64 \<Rightarrow> heap \<Rightarrow> u64 outcome option" where
  "realloc_move p b new_size h = do {
     tag \<leftarrow> b_tag b h;
     (new_ptr, h) \<leftarrow> kmalloc_locked new_size tag h;
     if new_ptr = 0 then Some (Done 0 h)
     else do {
       req_size \<leftarrow> b_req_size b h;
       let copy_size = (if req_size < new_size then req_size else new_size);
       h \<leftarrow> heap_fast_zero new_ptr (unat new_size) h;
       h \<leftarrow> for_upto 0 (unat copy_size) (copy_byte p new_ptr) h;
       (f, h) \<leftarrow> kfree_locked p None h;
       Some (if f_cls f \<noteq> HEAP_FAULT_NONE then BugCheck f h else Done new_ptr h) } }"

text \<open>The attempt to grow into the next block: the outcome if it settles the call.\<close>

definition realloc_grow :: "u64 \<Rightarrow> u64 \<Rightarrow> u64 \<Rightarrow> u64 \<Rightarrow> heap \<Rightarrow> u64 outcome option option" where
  "realloc_grow p b need new_size h = do {
     nx \<leftarrow> b_next b h;
     if nx = 0 then Some None
     else do {
       nfree \<leftarrow> b_is_free nx h;
       if nfree = 0 then Some None
       else do {
         ncookie \<leftarrow> b_cookie nx h;
         if ncookie \<noteq> 0
         then Some (Some (BugCheck \<lparr>f_cls = HEAP_FAULT_COOKIE, f_ptr = nx + HEADER_SIZE, f_got = ncookie, f_want = 0\<rparr> (h\<lparr>s_heap_poisoned := True\<rparr>)))
         else do {
           bsz \<leftarrow> b_size b h;
           nsz \<leftarrow> b_size nx h;
           let combined = bsz + HEADER_SIZE + nsz;
           if combined \<ge> need then do {
             old_req \<leftarrow> b_req_size b h;
             h \<leftarrow> heap_bm_clear nx h;
             let h = h\<lparr>used_bytes := used_bytes h - bsz\<rparr>;
             h \<leftarrow> set_size b combined h;
             nn \<leftarrow> b_next nx h;
             h \<leftarrow> set_next b nn h;
             h \<leftarrow> block_split b need h;
             sz \<leftarrow> b_size b h;
             let h = h\<lparr>used_bytes := used_bytes h + sz\<rparr>;
             r \<leftarrow> resize_in_place p b old_req new_size h;
             Some (Some r) }
           else Some None } } } }"

definition krealloc :: "u64 \<Rightarrow> u64 \<Rightarrow> heap \<Rightarrow> u64 outcome option" where
  "krealloc p new_size h =
     (if p = 0 then do { (q, h) \<leftarrow> kmalloc new_size h; Some (Done q h) }
      else if new_size = 0 then do {
        r \<leftarrow> kfree p h;
        Some (case r of Done _ h \<Rightarrow> Done 0 h | BugCheck f h \<Rightarrow> BugCheck f h) }
      else if new_size > KMALLOC_MAX then Some (Done 0 h)
      else if s_heap_poisoned h then Some (Done 0 h)
      else do {
        let need = need_for new_size;
        r \<leftarrow> heap_classify p h;
        (case r of
           AlreadyFree \<Rightarrow> Some (BugCheck (no_fault\<lparr>f_cls := HEAP_FAULT_COOKIE, f_ptr := p\<rparr>) (h\<lparr>s_heap_poisoned := True\<rparr>))
         | Corrupt f \<Rightarrow> Some (BugCheck f (h\<lparr>s_heap_poisoned := True\<rparr>))
         | Clean b \<Rightarrow> do {
             bsz \<leftarrow> b_size b h;
             if bsz \<ge> need then do { old_req \<leftarrow> b_req_size b h; resize_in_place p b old_req new_size h }
             else do {
               g \<leftarrow> realloc_grow p b need new_size h;
               (case g of Some r \<Rightarrow> Some r | None \<Rightarrow> realloc_move p b new_size h) } }) })"

section \<open>Queries\<close>

definition heap_get_total :: "heap \<Rightarrow> u64" where "heap_get_total h = total_heap_size h"
definition heap_get_used :: "heap \<Rightarrow> u64" where "heap_get_used h = used_bytes h"

partial_function (option) free_walk :: "u64 \<Rightarrow> u64 \<Rightarrow> heap \<Rightarrow> u64 option" where
  "free_walk cur acc h =
     (if cur = 0 then Some acc
      else do {
        is_free \<leftarrow> b_is_free cur h;
        sz \<leftarrow> b_size cur h;
        c \<leftarrow> b_next cur h;
        free_walk c (if is_free \<noteq> 0 then acc + sz else acc) h })"

declare free_walk.simps [code]

definition heap_get_free :: "heap \<Rightarrow> u64 option" where
  "heap_get_free h = (if s_heap_poisoned h then Some 0 else free_walk (heap_start_block h) 0 h)"

section \<open>Initialization\<close>

text \<open>The fallback: frame by frame, while they are contiguous. The result is the number of pages.\<close>

function partial_run :: "nat \<Rightarrow> u64 \<Rightarrow> pmm_state \<Rightarrow> (nat \<times> pmm_state) option" where
  "partial_run i base s =
     (if i < HEAP_INITIAL_PAGES then
        (case pmm_alloc_frame s of
            None \<Rightarrow> None
          | Some (f, s') \<Rightarrow>
              if f = 0 then Some (i, s')
              else if f \<noteq> base + of_nat i * HEAP_PAGE_SIZE then do { s'' \<leftarrow> pmm_free_frame f s'; Some (i, s'') }
              else partial_run (Suc i) base s')
      else Some (i, s))"
  by pat_completeness auto
termination
  by (relation "measure (\<lambda>(i, base, s). HEAP_INITIAL_PAGES - i)") auto

declare partial_run.simps [simp del]

text \<open>The zeroed arena with its first block. The bitmap is zero before.\<close>

definition heap_make :: "u64 \<Rightarrow> nat \<Rightarrow> heap option" where
  "heap_make base pages = do {
     let n = of_nat pages * HEAP_PAGE_SIZE;
     let h = \<lparr>heap_start_block = base, arena = replicate (unat n) 0, total_heap_size = n, used_bytes = 0,
              s_block_bitmap = replicate 2048 0, s_heap_poisoned = False\<rparr>;
     h \<leftarrow> set_size base (n - HEADER_SIZE) h;
     h \<leftarrow> set_is_free base 1 h;
     h \<leftarrow> set_next base 0 h;
     heap_bm_set base h }"

text \<open>The guard frame: part of the run on the first path, else claimed if it is the adjacent one. What \<open>vmm_install_guard_page\<close> does to the page tables is not modelled; its result
  is only logged.\<close>

definition claim_guard :: "u64 \<Rightarrow> pmm_state \<Rightarrow> pmm_state option" where
  "claim_guard heap_end s = do {
     (g, s) \<leftarrow> pmm_alloc_frame s;
     if g \<noteq> heap_end then (if g \<noteq> 0 then pmm_free_frame g s else Some s) else Some s }"

definition heap_verdict :: "heap \<Rightarrow> boot_result_t" where
  "heap_verdict h = (if heap_start_block h \<noteq> 0 \<and> total_heap_size h > 0 then BOOT_OK else BOOT_FATAL)"

definition heap_init :: "pmm_state \<Rightarrow> (boot_result_t \<times> pmm_state \<times> heap option) option" where
  "heap_init s = do {
     (base, s) \<leftarrow> pmm_alloc_contiguous (of_nat HEAP_INITIAL_PAGES + 1) s;
     if base \<noteq> 0 then do { h \<leftarrow> heap_make base HEAP_INITIAL_PAGES; Some (heap_verdict h, s, Some h) }
     else do {
       (base, s) \<leftarrow> pmm_alloc_frame s;
       if base = 0 then Some (BOOT_FATAL, s, None)
       else do {
         (pages, s) \<leftarrow> partial_run 1 base s;
         h \<leftarrow> heap_make base pages;
         s \<leftarrow> claim_guard (base + total_heap_size h) s;
         Some (heap_verdict h, s, Some h) } } }"

end
