(* ===== verification/Mm_Heap_Blocks.thy ===== *)
theory Mm_Heap_Blocks
  imports Mm_Heap
begin

text \<open>
  The arena as a list of blocks. A block is its header and its data area; the fields that the layout determines (size, link, cookie, free flag) are computed from the position of
  the block, so that a state of the heap is a function of its list of blocks. The accessors of the header fields are proved once on this form; the proofs of the operations only
  use these rules.
\<close>

section \<open>64-bit fields\<close>

lemma length_enc64 [simp]: "length (enc64 v) = 8"
  by (simp add: enc64_def)

lemma enc64_split: "ucast (ucast v :: u32) OR push_bit 32 (ucast (ucast (drop_bit 32 v) :: u32)) = (v :: u64)"
proof (rule bit_word_eqI)
  fix n assume "n < LENGTH(64)"
  then show "bit (ucast (ucast v :: u32) OR push_bit 32 (ucast (ucast (drop_bit 32 v) :: u32)) :: u64) n = bit v n"
    by (cases "n < 32") (auto simp: bit_simps)
qed

lemma rd32_at: "i = length xs \<Longrightarrow> rd32 (xs @ enc32 v @ ys) i = Some v"
  by (simp add: rd32_append_right rd32_enc32)

lemma rd8_at: "i = length xs \<Longrightarrow> rd8 (xs @ v # ys) i = Some v"
  by (simp add: rd8_append rd8_def)

lemma rd64_at:
  assumes "i = length xs"
  shows "rd64 (xs @ enc64 v @ ys) i = Some v"
proof -
  have "rd32 (xs @ enc32 (ucast v) @ enc32 (ucast (drop_bit 32 v)) @ ys) i = Some (ucast v)" using assms by (rule rd32_at)
  moreover have "rd32 ((xs @ enc32 (ucast v)) @ enc32 (ucast (drop_bit 32 v)) @ ys) (i + 4) = Some (ucast (drop_bit 32 v))"
    by (rule rd32_at) (simp add: assms)
  ultimately show ?thesis using enc64_split [of v] by (simp add: rd64_def enc64_def)
qed

lemma enc32_dec32: "enc32 (dec32 a b c d) = [a, b, c, d]"
proof -
  have "ucast (dec32 a b c d) = a" by (rule bit_word_eqI) (auto simp: dec32_def bit_simps dest: bit_imp_le_length)
  moreover have "ucast (drop_bit 8 (dec32 a b c d)) = b" by (rule bit_word_eqI) (auto simp: dec32_def bit_simps dest: bit_imp_le_length)
  moreover have "ucast (drop_bit 16 (dec32 a b c d)) = c" by (rule bit_word_eqI) (auto simp: dec32_def bit_simps dest: bit_imp_le_length)
  moreover have "ucast (drop_bit 24 (dec32 a b c d)) = d" by (rule bit_word_eqI) (auto simp: dec32_def bit_simps dest: bit_imp_le_length)
  ultimately show ?thesis by (simp add: enc32_def)
qed

lemma list_4: "length bs = 4 \<Longrightarrow> \<exists>a b c d. bs = [a, b, c, d]"
  by (simp add: numeral_eq_Suc length_Suc_conv) blast

lemma enc32_surj: "length bs = 4 \<Longrightarrow> \<exists>v. bs = enc32 v"
  using list_4 [of bs] enc32_dec32 by metis

lemma enc64_join: "enc64 (ucast lo OR push_bit 32 (ucast hi)) = enc32 lo @ enc32 hi"
proof -
  have "ucast (ucast lo OR push_bit 32 (ucast hi) :: u64) = lo"
    by (rule bit_word_eqI) (auto simp: bit_simps)
  moreover have "ucast (drop_bit 32 (ucast lo OR push_bit 32 (ucast hi) :: u64)) = hi"
    by (rule bit_word_eqI) (auto simp: bit_simps dest: bit_imp_le_length)
  ultimately show ?thesis by (simp add: enc64_def)
qed

lemma enc64_surj:
  assumes "length bs = 8"
  shows "\<exists>v. bs = enc64 v"
proof -
  obtain lo hi where "take 4 bs = enc32 lo" "drop 4 bs = enc32 hi" using enc32_surj [of "take 4 bs"] enc32_surj [of "drop 4 bs"] assms by auto
  then have "bs = enc64 (ucast lo OR push_bit 32 (ucast hi))" by (metis enc64_join append_take_drop_id)
  then show ?thesis by blast
qed

section \<open>Headers\<close>

record hdr =
  h_size :: u64
  h_next :: u64
  h_cookie :: u64
  h_req :: u64
  h_tag :: u32
  h_free :: u8
  h_pad :: "u8 \<times> u8 \<times> u8"
  h_front :: u64

fun pad_bytes :: "u8 \<times> u8 \<times> u8 \<Rightarrow> bytes" where "pad_bytes (a, b, c) = [a, b, c]"

definition enc_hdr :: "hdr \<Rightarrow> bytes" where
  "enc_hdr r = enc64 (h_size r) @ enc64 (h_next r) @ enc64 (h_cookie r) @ enc64 (h_req r) @ enc32 (h_tag r) @ h_free r # pad_bytes (h_pad r) @ enc64 (h_front r)"

definition dec_hdr :: "bytes \<Rightarrow> hdr" where
  "dec_hdr m = \<lparr>h_size = the (rd64 m 0), h_next = the (rd64 m 8), h_cookie = the (rd64 m 16), h_req = the (rd64 m 24), h_tag = the (rd32 m 32), h_free = m ! 36,
     h_pad = (m ! 37, m ! 38, m ! 39), h_front = the (rd64 m 40)\<rparr>"

lemma length_pad_bytes [simp]: "length (pad_bytes p) = 3"
  by (cases p) auto

lemma length_enc_hdr [simp]: "length (enc_hdr r) = 48"
  by (simp add: enc_hdr_def)

text \<open>Each field at its offset, for reading and for writing.\<close>

lemma hdr_reads:
  fixes pre rest r defines "m \<equiv> pre @ enc_hdr r @ rest"
  shows "rd64 m (length pre) = Some (h_size r)" "rd64 m (length pre + 8) = Some (h_next r)" "rd64 m (length pre + 16) = Some (h_cookie r)"
    "rd64 m (length pre + 24) = Some (h_req r)" "rd32 m (length pre + 32) = Some (h_tag r)" "rd8 m (length pre + 36) = Some (h_free r)"
    "rd64 m (length pre + 40) = Some (h_front r)"
proof -
  let ?s = "enc64 (h_size r)" and ?n = "enc64 (h_next r)" and ?c = "enc64 (h_cookie r)" and ?q = "enc64 (h_req r)" and ?t = "enc32 (h_tag r)"
  let ?f = "h_front r" and ?p = "pad_bytes (h_pad r)"
  show "rd64 m (length pre) = Some (h_size r)" unfolding m_def enc_hdr_def append_assoc by (rule rd64_at) simp
  show "rd64 m (length pre + 8) = Some (h_next r)"
    using rd64_at [of "length pre + 8" "pre @ ?s"] by (simp add: m_def enc_hdr_def)
  show "rd64 m (length pre + 16) = Some (h_cookie r)"
    using rd64_at [of "length pre + 16" "pre @ ?s @ ?n"] by (simp add: m_def enc_hdr_def)
  show "rd64 m (length pre + 24) = Some (h_req r)"
    using rd64_at [of "length pre + 24" "pre @ ?s @ ?n @ ?c"] by (simp add: m_def enc_hdr_def)
  show "rd32 m (length pre + 32) = Some (h_tag r)"
    using rd32_at [of "length pre + 32" "pre @ ?s @ ?n @ ?c @ ?q"] by (simp add: m_def enc_hdr_def)
  show "rd8 m (length pre + 36) = Some (h_free r)"
    using rd8_at [of "length pre + 36" "pre @ ?s @ ?n @ ?c @ ?q @ ?t"] by (simp add: m_def enc_hdr_def)
  show "rd64 m (length pre + 40) = Some (h_front r)"
    using rd64_at [of "length pre + 40" "pre @ ?s @ ?n @ ?c @ ?q @ ?t @ h_free r # ?p" ?f rest] by (simp add: m_def enc_hdr_def)
qed

lemma wr_at: "i = length xs \<Longrightarrow> length new = length old \<Longrightarrow> wr_bytes (xs @ old @ ys) i new = Some (xs @ new @ ys)"
  by (simp add: wr_bytes_at)

lemma hdr_writes:
  fixes pre rest r defines "m \<equiv> pre @ enc_hdr r @ rest"
  shows "wr_bytes m (length pre) (enc64 v) = Some (pre @ enc_hdr (r\<lparr>h_size := v\<rparr>) @ rest)"
    "wr_bytes m (length pre + 8) (enc64 v) = Some (pre @ enc_hdr (r\<lparr>h_next := v\<rparr>) @ rest)"
    "wr_bytes m (length pre + 16) (enc64 v) = Some (pre @ enc_hdr (r\<lparr>h_cookie := v\<rparr>) @ rest)"
    "wr_bytes m (length pre + 24) (enc64 v) = Some (pre @ enc_hdr (r\<lparr>h_req := v\<rparr>) @ rest)"
    "wr_bytes m (length pre + 32) (enc32 t) = Some (pre @ enc_hdr (r\<lparr>h_tag := t\<rparr>) @ rest)"
    "wr_bytes m (length pre + 36) [b] = Some (pre @ enc_hdr (r\<lparr>h_free := b\<rparr>) @ rest)"
    "wr_bytes m (length pre + 40) (enc64 v) = Some (pre @ enc_hdr (r\<lparr>h_front := v\<rparr>) @ rest)"
proof -
  let ?s = "enc64 (h_size r)" and ?n = "enc64 (h_next r)" and ?c = "enc64 (h_cookie r)" and ?q = "enc64 (h_req r)" and ?t = "enc32 (h_tag r)"
  let ?f = "enc64 (h_front r)" and ?p = "pad_bytes (h_pad r)"
  show "wr_bytes m (length pre) (enc64 v) = Some (pre @ enc_hdr (r\<lparr>h_size := v\<rparr>) @ rest)"
    using wr_at [of "length pre" pre "enc64 v" ?s] by (simp add: m_def enc_hdr_def)
  show "wr_bytes m (length pre + 8) (enc64 v) = Some (pre @ enc_hdr (r\<lparr>h_next := v\<rparr>) @ rest)"
    using wr_at [of "length pre + 8" "pre @ ?s" "enc64 v" ?n] by (simp add: m_def enc_hdr_def)
  show "wr_bytes m (length pre + 16) (enc64 v) = Some (pre @ enc_hdr (r\<lparr>h_cookie := v\<rparr>) @ rest)"
    using wr_at [of "length pre + 16" "pre @ ?s @ ?n" "enc64 v" ?c] by (simp add: m_def enc_hdr_def)
  show "wr_bytes m (length pre + 24) (enc64 v) = Some (pre @ enc_hdr (r\<lparr>h_req := v\<rparr>) @ rest)"
    using wr_at [of "length pre + 24" "pre @ ?s @ ?n @ ?c" "enc64 v" ?q] by (simp add: m_def enc_hdr_def)
  show "wr_bytes m (length pre + 32) (enc32 t) = Some (pre @ enc_hdr (r\<lparr>h_tag := t\<rparr>) @ rest)"
    using wr_at [of "length pre + 32" "pre @ ?s @ ?n @ ?c @ ?q" "enc32 t" ?t] by (simp add: m_def enc_hdr_def)
  show "wr_bytes m (length pre + 36) [b] = Some (pre @ enc_hdr (r\<lparr>h_free := b\<rparr>) @ rest)"
    using wr_at [of "length pre + 36" "pre @ ?s @ ?n @ ?c @ ?q @ ?t" "[b]" "[h_free r]"] by (simp add: m_def enc_hdr_def)
  show "wr_bytes m (length pre + 40) (enc64 v) = Some (pre @ enc_hdr (r\<lparr>h_front := v\<rparr>) @ rest)"
    using wr_at [of "length pre + 40" "pre @ ?s @ ?n @ ?c @ ?q @ ?t @ h_free r # ?p" "enc64 v" ?f] by (simp add: m_def enc_hdr_def)
qed

lemma dec_enc_hdr [simp]: "dec_hdr (enc_hdr r @ rest) = r"
proof -
  have len: "length (enc64 (h_size r) @ enc64 (h_next r) @ enc64 (h_cookie r) @ enc64 (h_req r) @ enc32 (h_tag r)) = 36" by simp
  obtain a b c where p: "h_pad r = (a, b, c)" by (cases "h_pad r") auto
  have "enc_hdr r @ rest = (enc64 (h_size r) @ enc64 (h_next r) @ enc64 (h_cookie r) @ enc64 (h_req r) @ enc32 (h_tag r)) @
      [h_free r, a, b, c] @ enc64 (h_front r) @ rest"
    by (simp add: enc_hdr_def p)
  then have "(enc_hdr r @ rest) ! 36 = h_free r" "(enc_hdr r @ rest) ! 37 = a" "(enc_hdr r @ rest) ! 38 = b" "(enc_hdr r @ rest) ! 39 = c"
    using len by (simp_all only: nth_append) simp_all
  then show ?thesis using hdr_reads [of "[]" r rest] p by (simp add: dec_hdr_def)
qed

lemma enc_hdr_surj:
  assumes "length bs = 48"
  shows "\<exists>r. bs = enc_hdr r"
proof -
  obtain s where s: "take 8 bs = enc64 s" using enc64_surj [of "take 8 bs"] assms by auto
  obtain n where n: "take 8 (drop 8 bs) = enc64 n" using enc64_surj [of "take 8 (drop 8 bs)"] assms by auto
  obtain c where c: "take 8 (drop 16 bs) = enc64 c" using enc64_surj [of "take 8 (drop 16 bs)"] assms by auto
  obtain q where q: "take 8 (drop 24 bs) = enc64 q" using enc64_surj [of "take 8 (drop 24 bs)"] assms by auto
  obtain t where t: "take 4 (drop 32 bs) = enc32 t" using enc32_surj [of "take 4 (drop 32 bs)"] assms by auto
  obtain f x y z where f: "take 4 (drop 36 bs) = [f, x, y, z]" using list_4 [of "take 4 (drop 36 bs)"] assms by auto
  obtain z' where z: "drop 40 bs = enc64 z'" using enc64_surj [of "drop 40 bs"] assms by auto
  have cut: "drop i bs = take n (drop i bs) @ drop (i + n) bs" for i n by (metis append_take_drop_id drop_drop add.commute)
  have "bs = take 8 bs @ take 8 (drop 8 bs) @ take 8 (drop 16 bs) @ take 8 (drop 24 bs) @ take 4 (drop 32 bs) @ take 4 (drop 36 bs) @ drop 40 bs"
    using cut [of 0 8] cut [of 8 8] cut [of 16 8] cut [of 24 8] cut [of 32 4] cut [of 36 4] by simp
  then have "bs = enc_hdr \<lparr>h_size = s, h_next = n, h_cookie = c, h_req = q, h_tag = t, h_free = f, h_pad = (x, y, z), h_front = z'\<rparr>"
    unfolding s n c q t f z by (simp add: enc_hdr_def)
  then show ?thesis by blast
qed

lemma enc_dec_hdr: "length bs = 48 \<Longrightarrow> enc_hdr (dec_hdr bs) = bs"
  using enc_hdr_surj [of bs] dec_enc_hdr [of _ "[]"] by force

section \<open>The accessors on a heap whose arena has a header in place\<close>

lemma off_at: "n < 2 ^ 64 \<Longrightarrow> off h (heap_start_block h + of_nat n) = n"
  by (simp add: off_def unat_of_nat_u64)

lemma off_plus: "n + unat k < 2 ^ 64 \<Longrightarrow> off h (heap_start_block h + of_nat n + k) = n + unat k"
  using off_at [of "n + unat k" h] by (simp add: add.assoc)

definition hdr_in :: "heap \<Rightarrow> u64 \<Rightarrow> bytes \<Rightarrow> hdr \<Rightarrow> bytes \<Rightarrow> bool" where
  "hdr_in h b pre r rest \<longleftrightarrow> arena h = pre @ enc_hdr r @ rest \<and> b = heap_start_block h + of_nat (length pre) \<and> length (arena h) < 2 ^ 63"

lemma hdr_in_off:
  assumes "hdr_in h b pre r rest" and "unat k < 48"
  shows "off h (b + k) = length pre + unat k"
proof -
  have "length pre < 2 ^ 63" using assms(1) by (auto simp: hdr_in_def)
  with assms show ?thesis using off_plus [of "length pre" k h] by (simp add: hdr_in_def)
qed

lemma b_reads:
  assumes "hdr_in h b pre r rest"
  shows "b_size b h = Some (h_size r)" "b_next b h = Some (h_next r)" "b_cookie b h = Some (h_cookie r)" "b_req_size b h = Some (h_req r)"
    "b_tag b h = Some (h_tag r)" "b_is_free b h = Some (h_free r)" "b_redzone_front b h = Some (h_front r)"
  using hdr_in_off [OF assms, of 0] hdr_in_off [OF assms, of 8] hdr_in_off [OF assms, of 16] hdr_in_off [OF assms, of 24]
    hdr_in_off [OF assms, of 32] hdr_in_off [OF assms, of 36] hdr_in_off [OF assms, of 40] hdr_reads [of pre r rest] assms
  by (simp_all add: b_size_def b_next_def b_cookie_def b_req_size_def b_tag_def b_is_free_def b_redzone_front_def ld64_def hdr_in_def)

lemma b_writes:
  assumes "hdr_in h b pre r rest"
  shows "set_size b v h = Some (h\<lparr>arena := pre @ enc_hdr (r\<lparr>h_size := v\<rparr>) @ rest\<rparr>)"
    "set_next b v h = Some (h\<lparr>arena := pre @ enc_hdr (r\<lparr>h_next := v\<rparr>) @ rest\<rparr>)"
    "set_cookie b v h = Some (h\<lparr>arena := pre @ enc_hdr (r\<lparr>h_cookie := v\<rparr>) @ rest\<rparr>)"
    "set_req_size b v h = Some (h\<lparr>arena := pre @ enc_hdr (r\<lparr>h_req := v\<rparr>) @ rest\<rparr>)"
    "set_tag b t h = Some (h\<lparr>arena := pre @ enc_hdr (r\<lparr>h_tag := t\<rparr>) @ rest\<rparr>)"
    "set_is_free b f h = Some (h\<lparr>arena := pre @ enc_hdr (r\<lparr>h_free := f\<rparr>) @ rest\<rparr>)"
    "set_redzone_front b v h = Some (h\<lparr>arena := pre @ enc_hdr (r\<lparr>h_front := v\<rparr>) @ rest\<rparr>)"
  using hdr_in_off [OF assms, of 0] hdr_in_off [OF assms, of 8] hdr_in_off [OF assms, of 16] hdr_in_off [OF assms, of 24]
    hdr_in_off [OF assms, of 32] hdr_in_off [OF assms, of 36] hdr_in_off [OF assms, of 40] hdr_writes [of pre r rest] assms
  by (simp_all add: set_size_def set_next_def set_cookie_def set_req_size_def set_tag_def set_is_free_def set_redzone_front_def st64_def store_def hdr_in_def)

section \<open>The bitmap as a set of block starts\<close>

definition bm_get :: "heap \<Rightarrow> nat \<Rightarrow> bool" where
  "bm_get h i \<longleftrightarrow> i < 131072 \<and> bit (s_block_bitmap h ! (i div 64)) (i mod 64)"

definition bm_of :: "nat set \<Rightarrow> u64 list" where
  "bm_of S = map (\<lambda>k. horner_sum of_bool 2 (map (\<lambda>i. 64 * k + i \<in> S) [0..<64])) [0..<2048]"

lemma length_bm_of [simp]: "length (bm_of S) = 2048"
  by (simp add: bm_of_def)

lemma bm_get_of: "bm_get (h\<lparr>s_block_bitmap := bm_of S\<rparr>) i \<longleftrightarrow> i < 131072 \<and> i \<in> S"
  by (auto simp: bm_get_def bm_of_def bit_horner_sum_bit_word_iff)

lemma bit_shl_64: "bit (push_bit k 1 :: u64) n \<longleftrightarrow> n = k \<and> n < 64"
  by (auto simp: bit_exp_iff)

lemma shr_and_1_64: "drop_bit k (w :: u64) AND 1 \<noteq> 0 \<longleftrightarrow> bit w k"
  by (simp add: and_one_eq odd_iff_mod_2_eq_one [symmetric] bit_iff_odd_drop_bit)

interpretation starts: bit_store "\<lambda>h. length (s_block_bitmap h) = 2048" "\<lambda>_. 131072" "\<lambda>h. h\<lparr>s_block_bitmap := []\<rparr>" bm_get bm_put
proof
  fix h :: heap and i :: nat and v assume len: "length (s_block_bitmap h) = 2048" and i: "i < 131072"
  let ?w = "push_bit (i mod 64) 1 :: u64" and ?o = "s_block_bitmap h ! (i div 64)"
  let ?h = "h\<lparr>s_block_bitmap := (s_block_bitmap h)[i div 64 := if v then ?o OR ?w else ?o AND NOT ?w]\<rparr>"
  have "bm_get ?h j = (if j = i then v else bm_get h j)" for j
  proof (cases "j div 64 = i div 64")
    case True
    then have "j mod 64 = i mod 64 \<longleftrightarrow> j = i" by (metis div_mult_mod_eq)
    moreover have "j < 131072" using True i div_less_iff_less_mult [of 64 i 2048] div_less_iff_less_mult [of 64 j 2048] by simp
    ultimately show ?thesis using True i len
      by (simp add: bm_get_def bit_or_iff bit_and_iff bit_not_iff bit_shl_64 del: push_bit_of_1)
  next
    case False
    then have "j \<noteq> i" by blast
    with False show ?thesis by (simp add: bm_get_def)
  qed
  moreover have "bm_put v i h = Some ?h" using i len by (simp add: bm_put_def Let_def)
  ultimately show "\<exists>h'. bm_put v i h = Some h' \<and> length (s_block_bitmap h') = 2048 \<and> h'\<lparr>s_block_bitmap := []\<rparr> = h\<lparr>s_block_bitmap := []\<rparr> \<and> 131072 = (131072 :: nat) \<and>
      (\<forall>j. bm_get h' j = (if j = i then v else bm_get h j))"
    using len by (intro exI [of _ ?h]) simp
next
  fix h k :: heap
  assume len: "length (s_block_bitmap h) = 2048" "length (s_block_bitmap k) = 2048" and f: "h\<lparr>s_block_bitmap := []\<rparr> = k\<lparr>s_block_bitmap := []\<rparr>"
    and g: "\<And>j. bm_get h j = bm_get k j"
  have "s_block_bitmap h = s_block_bitmap k"
  proof (rule nth_equalityI)
    show "length (s_block_bitmap h) = length (s_block_bitmap k)" using len by simp
    fix i assume i: "i < length (s_block_bitmap h)"
    show "s_block_bitmap h ! i = s_block_bitmap k ! i"
    proof (rule bit_word_eqI)
      fix n assume "n < LENGTH(64)"
      with i len g [of "64 * i + n"] show "bit (s_block_bitmap h ! i) n = bit (s_block_bitmap k ! i) n" by (simp add: bm_get_def)
    qed
  qed
  then show "h = k" using f by (cases h; cases k) simp
qed

lemma bm_put_of:
  assumes "s_block_bitmap h = bm_of S" and "i < 131072"
  shows "bm_put v i h = Some (h\<lparr>s_block_bitmap := bm_of (if v then insert i S else S - {i})\<rparr>)"
proof -
  let ?S = "if v then insert i S else S - {i}"
  have h: "h = h\<lparr>s_block_bitmap := bm_of S\<rparr>" using assms(1) by (cases h) simp
  obtain h' where h': "bm_put v i h = Some h'" "length (s_block_bitmap h') = 2048" "h'\<lparr>s_block_bitmap := []\<rparr> = h\<lparr>s_block_bitmap := []\<rparr>"
      "\<forall>j. bm_get h' j = (if j = i then v else bm_get h j)"
    using starts.put_ok [of h i v] assms by auto
  have "h' = h\<lparr>s_block_bitmap := bm_of ?S\<rparr>"
  proof (rule starts.ext)
    fix j
    have "bm_get h j \<longleftrightarrow> j < 131072 \<and> j \<in> S" using bm_get_of [where h = h and S = S and i = j] h by simp
    then show "bm_get h' j = bm_get (h\<lparr>s_block_bitmap := bm_of ?S\<rparr>) j" using h'(4) assms(2) by (simp add: bm_get_of)
  qed (use h' in simp_all)
  with h'(1) show ?thesis by simp
qed

lemma bm_index:
  assumes "o1 < 2 ^ 63"
  shows "unat (heap_bm_index (heap_start_block h + of_nat o1) h) = o1 div 16"
  using assms by (simp add: heap_bm_index_def HEAP_BITMAP_GRANULE_def MIN_BLOCK_SIZE_def unat_div unat_of_nat_u64)

lemma bm_index_less:
  assumes "o1 < 2097152"
  shows "heap_bm_index (heap_start_block h + of_nat o1) h < HEAP_BITMAP_BITS"
proof -
  have "unat (heap_bm_index (heap_start_block h + of_nat o1) h) = o1 div 16" by (rule bm_index) (use assms in simp)
  with assms show ?thesis by (simp add: word_less_nat_alt HEAP_BITMAP_BITS_def)
qed

lemma bm_ops:
  assumes "s_block_bitmap h = bm_of S" and "o1 < 2097152"
  shows "heap_bm_set (heap_start_block h + of_nat o1) h = Some (h\<lparr>s_block_bitmap := bm_of (insert (o1 div 16) S)\<rparr>)"
    and "heap_bm_clear (heap_start_block h + of_nat o1) h = Some (h\<lparr>s_block_bitmap := bm_of (S - {o1 div 16})\<rparr>)"
    and "heap_bm_test (heap_start_block h + of_nat o1) h = Some (o1 div 16 \<in> S)"
proof -
  note i = bm_index [of o1 h] bm_index_less [OF assms(2), of h]
  have lt: "o1 div 16 < 131072" using assms(2) by simp
  show "heap_bm_set (heap_start_block h + of_nat o1) h = Some (h\<lparr>s_block_bitmap := bm_of (insert (o1 div 16) S)\<rparr>)"
    using i assms bm_put_of [OF assms(1) lt, of True] by (simp add: heap_bm_set_def Let_def)
  show "heap_bm_clear (heap_start_block h + of_nat o1) h = Some (h\<lparr>s_block_bitmap := bm_of (S - {o1 div 16})\<rparr>)"
    using i assms bm_put_of [OF assms(1) lt, of False] by (simp add: heap_bm_clear_def Let_def)
  have "h = h\<lparr>s_block_bitmap := bm_of S\<rparr>" using assms(1) by (cases h) simp
  then have "bm_get h (o1 div 16) \<longleftrightarrow> o1 div 16 \<in> S" using bm_get_of [where h = h and S = S and i = "o1 div 16"] lt by simp
  then show "heap_bm_test (heap_start_block h + of_nat o1) h = Some (o1 div 16 \<in> S)"
    using i assms lt div_less_iff_less_mult [of 64 "o1 div 16" 2048]
    by (simp only: heap_bm_test_def Let_def shr_and_1_64 bm_get_def not_le [symmetric]) simp
qed

section \<open>Blocks\<close>

record blk =
  live :: bool
  req :: u64
  ptag :: u32
  pad3 :: "u8 \<times> u8 \<times> u8"
  front :: u64
  body :: bytes

definition blen :: "blk \<Rightarrow> nat" where "blen b = 48 + length (body b)"

definition blens :: "blk list \<Rightarrow> nat" where "blens bs = sum_list (map blen bs)"

definition hdr_of :: "u64 \<Rightarrow> nat \<Rightarrow> nat \<Rightarrow> blk \<Rightarrow> hdr" where
  "hdr_of base n k b = \<lparr>h_size = of_nat (length (body b)), h_next = if k + blen b = n then 0 else base + of_nat (k + blen b),
     h_cookie = if live b then heap_cookie_for (base + of_nat k) else 0, h_req = req b, h_tag = ptag b, h_free = if live b then 0 else 1,
     h_pad = pad3 b, h_front = front b\<rparr>"

fun flat :: "u64 \<Rightarrow> nat \<Rightarrow> nat \<Rightarrow> blk list \<Rightarrow> bytes" where
  "flat base n k [] = []"
| "flat base n k (b # bs) = enc_hdr (hdr_of base n k b) @ body b @ flat base n (k + blen b) bs"

text \<open>The offsets of the blocks, and the granules where they start.\<close>

fun offs :: "nat \<Rightarrow> blk list \<Rightarrow> nat list" where
  "offs k [] = []"
| "offs k (b # bs) = k # offs (k + blen b) bs"

definition grans :: "nat \<Rightarrow> blk list \<Rightarrow> nat set" where "grans k bs = (\<lambda>i. i div 16) ` set (offs k bs)"

definition live_bytes :: "blk list \<Rightarrow> nat" where "live_bytes bs = sum_list (map (\<lambda>b. length (body b)) (filter live bs))"

lemma blens_simps [simp]: "blens [] = 0" "blens (b # bs) = blen b + blens bs" "blens (xs @ ys) = blens xs + blens ys"
  by (simp_all add: blens_def)

lemma live_bytes_simps [simp]:
  "live_bytes [] = 0" "live_bytes (b # bs) = (if live b then length (body b) else 0) + live_bytes bs" "live_bytes (xs @ ys) = live_bytes xs + live_bytes ys"
  by (simp_all add: live_bytes_def)

lemma length_flat [simp]: "length (flat base n k bs) = blens bs"
  by (induction bs arbitrary: k) (simp_all add: blen_def)

lemma flat_append: "flat base n k (xs @ ys) = flat base n k xs @ flat base n (k + blens xs) ys"
  by (induction xs arbitrary: k) (simp_all add: add.assoc)

lemma offs_append: "offs k (xs @ ys) = offs k xs @ offs (k + blens xs) ys"
  by (induction xs arbitrary: k) (simp_all add: add.assoc)

lemma grans_simps [simp]:
  "grans k [] = {}" "grans k (b # bs) = insert (k div 16) (grans (k + blen b) bs)" "grans k (xs @ ys) = grans k xs \<union> grans (k + blens xs) ys"
  by (auto simp: grans_def offs_append)

section \<open>The state of a heap from its blocks\<close>

definition conc :: "u64 \<Rightarrow> nat \<Rightarrow> blk list \<Rightarrow> heap" where
  "conc base n bs = \<lparr>heap_start_block = base, arena = flat base n 0 bs, total_heap_size = of_nat n, used_bytes = of_nat (live_bytes bs),
     s_block_bitmap = bm_of (grans 0 bs), s_heap_poisoned = False\<rparr>"

text \<open>A block is well formed: its data area keeps the alignment; a live block holds its request and its sentinels.\<close>

definition blk_ok :: "blk \<Rightarrow> bool" where
  "blk_ok b \<longleftrightarrow> 16 dvd length (body b) \<and> body b \<noteq> [] \<and>
     (live b \<longrightarrow> front b = HEAP_REDZONE_FRONT \<and> unat (req b) + 8 \<le> length (body b) \<and> take 8 (drop (unat (req b)) (body b)) = enc64 HEAP_REDZONE_BACK)"

fun compact :: "blk list \<Rightarrow> bool" where
  "compact (a # b # bs) \<longleftrightarrow> (live a \<or> live b) \<and> compact (b # bs)"
| "compact bs \<longleftrightarrow> True"

definition arena_ok :: "u64 \<Rightarrow> nat \<Rightarrow> bool" where
  "arena_ok base n \<longleftrightarrow> base \<noteq> 0 \<and> 16 dvd unat base \<and> unat base + n < 2 ^ 64 \<and> n \<le> 2097152"

definition blocks_ok :: "u64 \<Rightarrow> nat \<Rightarrow> blk list \<Rightarrow> bool" where
  "blocks_ok base n bs \<longleftrightarrow> arena_ok base n \<and> bs \<noteq> [] \<and> blens bs = n \<and> (\<forall>b \<in> set bs. blk_ok b)"

text \<open>Reading the blocks off the arena.\<close>

definition blk_of :: "hdr \<Rightarrow> bytes \<Rightarrow> blk" where
  "blk_of r d = \<lparr>live = (h_free r = 0), req = h_req r, ptag = h_tag r, pad3 = h_pad r, front = h_front r, body = d\<rparr>"

function parse :: "bytes \<Rightarrow> blk list" where
  "parse m = (if length m < 48 then [] else
     let r = dec_hdr m; d = take (unat (h_size r)) (drop 48 m) in blk_of r d # parse (drop (48 + unat (h_size r)) m))"
  by pat_completeness auto
termination
  by (relation "measure length") auto

declare parse.simps [simp del]

definition blocks :: "heap \<Rightarrow> blk list" where "blocks h = parse (arena h)"

lemma blk_of_hdr_of [simp]: "blk_of (hdr_of base n k b) (body b) = b"
  by (simp add: blk_of_def hdr_of_def)

lemma parse_flat: "blens bs < 2 ^ 63 \<Longrightarrow> parse (flat base n k bs) = bs"
proof (induction bs arbitrary: k)
  case (Cons b bs)
  have "unat (h_size (hdr_of base n k b)) = length (body b)" using Cons.prems by (simp add: hdr_of_def blen_def unat_of_nat_u64)
  then show ?case using Cons by (subst parse.simps) (simp add: Let_def)
qed (simp add: parse.simps)

text \<open>The invariant of the heap.\<close>

definition heap_ok :: "heap \<Rightarrow> bool" where
  "heap_ok h \<longleftrightarrow> blocks_ok (heap_start_block h) (length (arena h)) (blocks h) \<and> compact (blocks h) \<and>
     h = conc (heap_start_block h) (length (arena h)) (blocks h)"

lemma blocks_conc: "blocks_ok base n bs \<Longrightarrow> blocks (conc base n bs) = bs"
  by (simp add: blocks_def conc_def parse_flat blocks_ok_def arena_ok_def)

lemma heap_ok_conc: "blocks_ok base n bs \<Longrightarrow> heap_ok (conc base n bs) \<longleftrightarrow> compact bs"
  by (simp add: heap_ok_def blocks_conc) (simp add: conc_def blocks_ok_def)

lemma heap_okE:
  assumes "heap_ok h"
  obtains base n bs where "h = conc base n bs" "blocks_ok base n bs" "compact bs" "blocks h = bs"
  using assms unfolding heap_ok_def by blast

end
