(* ===== verification/Mm_Heap_Facts.thy ===== *)
theory Mm_Heap_Facts
  imports Mm_Heap_Blocks
begin

text \<open>
  Each operation of the heap as a function on the list of blocks: splitting, first fit, coalescing, release and reallocation. The states are written with one constructor, so that the
  accessors rewrite them field by field.
\<close>

named_theorems heap_eval \<open>accessors on a state whose arena has the header in place\<close>

definition HS :: "u64 \<Rightarrow> bytes \<Rightarrow> u64 \<Rightarrow> u64 \<Rightarrow> u64 list \<Rightarrow> bool \<Rightarrow> heap" where
  "HS base m t u bm p = \<lparr>heap_start_block = base, arena = m, total_heap_size = t, used_bytes = u, s_block_bitmap = bm, s_heap_poisoned = p\<rparr>"

lemma HS_simps [simp]:
  "heap_start_block (HS base m t u bm p) = base" "arena (HS base m t u bm p) = m" "total_heap_size (HS base m t u bm p) = t" "used_bytes (HS base m t u bm p) = u"
  "s_block_bitmap (HS base m t u bm p) = bm" "s_heap_poisoned (HS base m t u bm p) = p"
  "(HS base m t u bm p)\<lparr>arena := m'\<rparr> = HS base m' t u bm p" "(HS base m t u bm p)\<lparr>used_bytes := u'\<rparr> = HS base m t u' bm p"
  "(HS base m t u bm p)\<lparr>s_block_bitmap := bm'\<rparr> = HS base m t u bm' p" "(HS base m t u bm p)\<lparr>s_heap_poisoned := p'\<rparr> = HS base m t u bm p'"
  by (simp_all add: HS_def)

lemma hdr_in_HS:
  "b = base + of_nat (length pre) \<Longrightarrow> length (pre @ enc_hdr r @ rest) < 2 ^ 63 \<Longrightarrow> hdr_in (HS base (pre @ enc_hdr r @ rest) t u bm p) b pre r rest"
  by (simp add: hdr_in_def)

lemmas reads1 [heap_eval] = b_reads [OF hdr_in_HS]
lemmas writes1 [heap_eval] = b_writes [OF hdr_in_HS, unfolded HS_simps]

lemma hdr_in_HS2:
  assumes "b = base + of_nat (length pre + 48 + length d)" "length (pre @ enc_hdr r @ d @ enc_hdr r2 @ rest) < 2 ^ 63"
  shows "hdr_in (HS base (pre @ enc_hdr r @ d @ enc_hdr r2 @ rest) t u bm p) b (pre @ enc_hdr r @ d) r2 rest"
  using assms by (simp add: hdr_in_def add.assoc)

lemmas reads2 [heap_eval] = b_reads [OF hdr_in_HS2]
lemmas writes2 [heap_eval] = b_writes [OF hdr_in_HS2, unfolded HS_simps append_assoc]

lemma bm_HS [heap_eval]:
  assumes "b = base + of_nat k" and "k < 2097152"
  shows "heap_bm_set b (HS base m t u (bm_of S) p) = Some (HS base m t u (bm_of (insert (k div 16) S)) p)"
    "heap_bm_clear b (HS base m t u (bm_of S) p) = Some (HS base m t u (bm_of (S - {k div 16})) p)"
    "heap_bm_test b (HS base m t u (bm_of S) p) = Some (k div 16 \<in> S)"
  using bm_ops [of "HS base m t u (bm_of S) p" S k] assms by simp_all

section \<open>Splitting\<close>

lemma block_split_byte:
  assumes "length pre + 48 + length d1 + 48 + length d2 + length rest \<le> 2097152" and "16 \<le> length d2"
    and "h_size r = of_nat (length d1 + 48 + length d2)"
  shows "block_split (base + of_nat (length pre)) (of_nat (length d1)) (HS base (pre @ enc_hdr r @ d1 @ enc_hdr rn @ d2 @ rest) t u (bm_of S) p) =
    Some (HS base (pre @ enc_hdr (r\<lparr>h_size := of_nat (length d1), h_next := base + of_nat (length pre + 48 + length d1)\<rparr>) @ d1 @
        enc_hdr (rn\<lparr>h_size := of_nat (length d2), h_free := 1, h_cookie := 0, h_next := h_next r\<rparr>) @ d2 @ rest) t u
      (bm_of (insert ((length pre + 48 + length d1) div 16) S)) p)"
proof -
  have le: "(of_nat (length d1) + HEADER_SIZE + MIN_BLOCK_SIZE :: u64) \<le> of_nat (length d1 + 48 + length d2)"
    using assms by (simp add: HEADER_SIZE_def MIN_BLOCK_SIZE_def word_le_nat_alt unat_word_ariths unat_of_nat_u64)
  have bm: "heap_bm_set (base + of_nat (length pre + 48 + length d1)) (HS base m t u (bm_of S) p) =
      Some (HS base m t u (bm_of (insert ((length pre + 48 + length d1) div 16) S)) p)" for m
    by (rule bm_HS) (use assms in simp_all)
  have nb: "base + of_nat (length pre) + HEADER_SIZE + of_nat (length d1) = base + of_nat (length pre + 48 + length d1)"
    by (simp add: HEADER_SIZE_def)
  have "of_nat (length d1 + 48 + length d2) - of_nat (length d1) - HEADER_SIZE = (of_nat (length d2) :: u64)"
    by (simp add: HEADER_SIZE_def)
  then show ?thesis
    using assms le by (simp add: block_split_def heap_eval nb bm del: of_nat_add)
qed

text \<open>On the list of blocks: the part that is kept, and the free block that is left over.\<close>

definition trim :: "nat \<Rightarrow> blk \<Rightarrow> blk" where
  "trim need b = (if need + 64 \<le> length (body b) then b\<lparr>body := take need (body b)\<rparr> else b)"

definition leftover :: "nat \<Rightarrow> blk \<Rightarrow> blk list" where
  "leftover need b = (if need + 64 \<le> length (body b)
     then [(blk_of (dec_hdr (take 48 (drop need (body b)))) (drop (need + 48) (body b)))\<lparr>live := False\<rparr>] else [])"

lemma trim_fields [simp]:
  "live (trim need b) = live b" "req (trim need b) = req b" "ptag (trim need b) = ptag b" "pad3 (trim need b) = pad3 b" "front (trim need b) = front b"
  by (simp_all add: trim_def)

lemma leftover_dead: "c \<in> set (leftover need b) \<Longrightarrow> \<not> live c"
  by (auto simp: leftover_def split: if_splits)

lemma live_bytes_leftover [simp]: "live_bytes (leftover need b) = 0"
  by (simp add: leftover_def)

lemma blens_split: "blen (trim need b) + blens (leftover need b) = blen b"
  by (auto simp: trim_def leftover_def blen_def blk_of_def)

lemma trim_length: "need \<le> length (body b) \<Longrightarrow> need \<le> length (body (trim need b))"
  by (simp add: trim_def)

lemma take_trim: "k \<le> need \<Longrightarrow> take k (body (trim need b)) = take k (body b)"
  by (simp add: trim_def)

lemma block_split_blocks:
  assumes "blens (xs @ b # ys) = n" "n \<le> 2097152" and "need \<le> length (body b)" and "blens xs div 16 \<in> S"
  shows "block_split (base + of_nat (blens xs)) (of_nat need) (HS base (flat base n 0 (xs @ b # ys)) t u (bm_of S) p) =
    Some (HS base (flat base n 0 (xs @ trim need b # leftover need b @ ys)) t u (bm_of (S \<union> grans (blens xs) (trim need b # leftover need b))) p)"
proof (cases "need + 64 \<le> length (body b)")
  case True
  let ?k = "blens xs" and ?d = "body b"
  let ?d1 = "take need ?d" and ?rn = "dec_hdr (take 48 (drop need ?d))" and ?d2 = "drop (need + 48) ?d"
  let ?b1 = "b\<lparr>body := ?d1\<rparr>" and ?b2 = "(blk_of ?rn ?d2)\<lparr>live := False\<rparr>" and ?r = "hdr_of base n ?k b"
  have len: "length ?d1 = need" "length ?d1 + 48 + length ?d2 = length ?d" using True by simp_all
  have d: "?d = ?d1 @ enc_hdr ?rn @ ?d2"
    using True by (simp add: enc_dec_hdr) (metis append_take_drop_id drop_drop add.commute)
  have "?k + blen ?b1 \<noteq> n" using True assms(1) by (simp add: blen_def)
  moreover have "?k + blen ?b1 + blen ?b2 = ?k + blen b" using True by (simp add: blen_def blk_of_def)
  ultimately have h1: "?r\<lparr>h_size := of_nat need, h_next := base + of_nat (?k + 48 + need)\<rparr> = hdr_of base n ?k ?b1"
    and h2: "?rn\<lparr>h_size := of_nat (length ?d2), h_free := 1, h_cookie := 0, h_next := h_next ?r\<rparr> = hdr_of base n (?k + blen ?b1) ?b2"
    using len(1) by (simp_all add: hdr_of_def blen_def blk_of_def add.assoc)
  have "block_split (base + of_nat ?k) (of_nat need) (HS base (flat base n 0 xs @ enc_hdr ?r @ ?d1 @ enc_hdr ?rn @ ?d2 @ flat base n (?k + blen b) ys) t u (bm_of S) p) =
      Some (HS base (flat base n 0 xs @ enc_hdr (hdr_of base n ?k ?b1) @ ?d1 @ enc_hdr (hdr_of base n (?k + blen ?b1) ?b2) @ ?d2 @ flat base n (?k + blen b) ys) t u
        (bm_of (insert ((?k + 48 + need) div 16) S)) p)"
    using block_split_byte [of "flat base n 0 xs" ?d1 ?d2 "flat base n (?k + blen b) ys" ?r base ?rn t u S p] True assms len
    unfolding h1 [symmetric] h2 [symmetric] by (simp add: hdr_of_def blen_def)
  moreover have "flat base n 0 (xs @ b # ys) = flat base n 0 xs @ enc_hdr ?r @ ?d1 @ enc_hdr ?rn @ ?d2 @ flat base n (?k + blen b) ys"
    using arg_cong [OF d, of "\<lambda>z. flat base n 0 xs @ enc_hdr ?r @ z @ flat base n (?k + blen b) ys"] by (simp add: flat_append)
  moreover have "flat base n 0 (xs @ trim need b # leftover need b @ ys) = flat base n 0 xs @ enc_hdr (hdr_of base n ?k ?b1) @ ?d1 @
      enc_hdr (hdr_of base n (?k + blen ?b1) ?b2) @ ?d2 @ flat base n (?k + blen b) ys"
    using True \<open>?k + blen ?b1 + blen ?b2 = ?k + blen b\<close> by (simp add: flat_append trim_def leftover_def blk_of_def add.assoc)
  moreover have "insert ((?k + 48 + need) div 16) S = S \<union> grans ?k (trim need b # leftover need b)"
    using True assms(4) by (auto simp: trim_def leftover_def blen_def add.assoc)
  ultimately show ?thesis by simp
next
  case False
  then have "trim need b = b" "leftover need b = []" by (simp_all add: trim_def leftover_def)
  moreover have "\<not> of_nat (length (body b)) \<ge> (of_nat need + HEADER_SIZE + MIN_BLOCK_SIZE :: u64)"
    using False assms by (simp add: HEADER_SIZE_def MIN_BLOCK_SIZE_def word_le_nat_alt unat_word_ariths unat_of_nat_u64 blen_def)
  moreover have "S \<union> {blens xs div 16} = S" using assms(4) by blast
  moreover have "length (body b) < 2097152" using assms by (simp add: blen_def)
  ultimately show ?thesis
    using assms by (simp add: block_split_def flat_append heap_eval hdr_of_def blen_def)
qed

section \<open>The data area\<close>

definition put_at :: "nat \<Rightarrow> bytes \<Rightarrow> bytes \<Rightarrow> bytes" where
  "put_at q v d = take q d @ v @ drop (q + length v) d"

lemma length_put_at [simp]: "q + length v \<le> length d \<Longrightarrow> length (put_at q v d) = length d"
  by (simp add: put_at_def)

lemma take_put_at: "k \<le> q \<Longrightarrow> q \<le> length d \<Longrightarrow> take k (put_at q v d) = take k d"
  by (simp add: put_at_def)

lemma drop_put_at: "q + length v \<le> k \<Longrightarrow> q + length v \<le> length d \<Longrightarrow> drop k (put_at q v d) = drop k d"
  by (simp add: put_at_def)

lemma slice_put_at: "q + length v \<le> length d \<Longrightarrow> take (length v) (drop q (put_at q v d)) = v"
  by (simp add: put_at_def)

lemma wr_put_at: "q + length v \<le> length d \<Longrightarrow> wr_bytes (pre @ d @ rest) (length pre + q) v = Some (pre @ put_at q v d @ rest)"
  by (simp add: wr_bytes_def put_at_def)

lemma store_body [heap_eval]:
  assumes "b = base + of_nat (length pre + 48 + q)" and "length pre + 48 + length d + length rest < 2 ^ 63" "q + length v \<le> length d"
  shows "store b v (HS base (pre @ enc_hdr r @ d @ rest) t u bm p) = Some (HS base (pre @ enc_hdr r @ put_at q v d @ rest) t u bm p)"
proof -
  have "off (HS base (pre @ enc_hdr r @ d @ rest) t u bm p) b = length (pre @ enc_hdr r) + q"
    using off_at [of "length pre + 48 + q" "HS base (pre @ enc_hdr r @ d @ rest) t u bm p"] assms by simp
  then show ?thesis using wr_put_at [of q v d "pre @ enc_hdr r" rest] assms(3) by (simp add: store_def)
qed

lemma st64_body [heap_eval]:
  "b = base + of_nat (length pre + 48 + q) \<Longrightarrow> length pre + 48 + length d + length rest < 2 ^ 63 \<Longrightarrow> q + 8 \<le> length d \<Longrightarrow>
    st64 b v (HS base (pre @ enc_hdr r @ d @ rest) t u bm p) = Some (HS base (pre @ enc_hdr r @ put_at q (enc64 v) d @ rest) t u bm p)"
  by (simp add: st64_def store_body)

lemma ld64_body [heap_eval]:
  assumes "b = base + of_nat (length pre + 48 + q)" and "length pre + 48 + length d + length rest < 2 ^ 63" "q + 8 \<le> length d"
  shows "ld64 b (HS base (pre @ enc_hdr r @ d @ rest) t u bm p) = rd64 (take 8 (drop q d)) 0"
proof -
  obtain v where v: "take 8 (drop q d) = enc64 v" using enc64_surj [of "take 8 (drop q d)"] assms(3) by auto
  have "d = take q d @ enc64 v @ drop (q + 8) d" unfolding v [symmetric] by (metis append_take_drop_id drop_drop add.commute)
  then have "pre @ enc_hdr r @ d @ rest = (pre @ enc_hdr r @ take q d) @ enc64 v @ (drop (q + 8) d @ rest)" by (metis append_assoc)
  moreover have "off (HS base (pre @ enc_hdr r @ d @ rest) t u bm p) b = length (pre @ enc_hdr r @ take q d)"
    using off_at [of "length pre + 48 + q" "HS base (pre @ enc_hdr r @ d @ rest) t u bm p"] assms by simp
  ultimately have "ld64 b (HS base (pre @ enc_hdr r @ d @ rest) t u bm p) = Some v"
    unfolding ld64_def by (simp only: HS_simps rd64_at)
  then show ?thesis using rd64_at [of 0 "[]" v "[]"] v by simp
qed

section \<open>Allocation\<close>

definition stamp :: "u64 \<Rightarrow> u32 \<Rightarrow> blk \<Rightarrow> blk" where
  "stamp n tag b = b\<lparr>live := True, req := n, ptag := tag, front := HEAP_REDZONE_FRONT, body := put_at (unat n) (enc64 HEAP_REDZONE_BACK) (body b)\<rparr>"

lemma stamp_fields [simp]: "live (stamp n tag b)" "req (stamp n tag b) = n" "ptag (stamp n tag b) = tag" "front (stamp n tag b) = HEAP_REDZONE_FRONT"
  by (simp_all add: stamp_def)

lemma blen_stamp: "unat n + 8 \<le> length (body b) \<Longrightarrow> length (body (stamp n tag b)) = length (body b)"
  by (simp add: stamp_def)

lemma claim_block_eq:
  assumes "blens (xs @ b # ys) = n" "n \<le> 2097152" and "need \<le> length (body b)" and "blens xs div 16 \<in> S" and "unat q + 8 \<le> need"
  shows "claim_block (base + of_nat (blens xs)) (of_nat need) q tag (HS base (flat base n 0 (xs @ b # ys)) t u (bm_of S) p) =
    Some (base + of_nat (blens xs + 48), HS base (flat base n 0 (xs @ stamp q tag (trim need b) # leftover need b @ ys)) t
      (u + of_nat (length (body (trim need b)))) (bm_of (S \<union> grans (blens xs) (trim need b # leftover need b))) p)"
proof -
  let ?k = "blens xs" and ?c = "trim need b"
  let ?r = "hdr_of base n ?k ?c" and ?ys = "leftover need b @ ys"
  have fits: "unat q + 8 \<le> length (body ?c)" using trim_length [OF assms(3)] assms(5) by simp
  then have bl: "blen (stamp q tag ?c) = blen ?c" by (simp add: blen_def blen_stamp)
  have hdr: "hdr_of base n ?k (stamp q tag ?c) =
      ?r\<lparr>h_free := 0, h_req := q, h_tag := tag, h_cookie := heap_cookie_for (base + of_nat ?k), h_front := HEAP_REDZONE_FRONT\<rparr>"
    using bl blen_stamp [OF fits, of tag] by (simp add: hdr_of_def) (simp add: stamp_def)
  have m: "flat base n 0 (xs @ ?c # ?ys) = flat base n 0 xs @ enc_hdr ?r @ body ?c @ flat base n (?k + blen ?c) ?ys" by (simp add: flat_append)
  have m': "flat base n 0 (xs @ stamp q tag ?c # ?ys) = flat base n 0 xs @ enc_hdr (hdr_of base n ?k (stamp q tag ?c)) @
      put_at (unat q) (enc64 HEAP_REDZONE_BACK) (body ?c) @ flat base n (?k + blen ?c) ?ys"
    by (simp add: flat_append bl) (simp add: stamp_def)
  have len: "?k + 48 + length (body ?c) + blens ?ys \<le> 2097152" using assms(1,2) blens_split [of need b] by (simp add: blen_def)
  have rz: "st64 (base + of_nat ?k + HEADER_SIZE + q) v (HS base (flat base n 0 xs @ enc_hdr r @ body ?c @ flat base n (?k + blen ?c) ?ys) t u bm p) =
      Some (HS base (flat base n 0 xs @ enc_hdr r @ put_at (unat q) (enc64 v) (body ?c) @ flat base n (?k + blen ?c) ?ys) t u bm p)" for v r t u bm p
    by (rule st64_body) (use len fits in \<open>simp_all add: HEADER_SIZE_def\<close>)
  show ?thesis
    using fits len unfolding claim_block_def block_split_blocks [OF assms(1-4)] heap_redzone_back_def m m' hdr
    by (simp add: heap_eval rz del: blens_simps) (simp add: HEADER_SIZE_def hdr_of_def)
qed

text \<open>The rounded size as a natural number.\<close>

definition need_nat :: "u64 \<Rightarrow> nat" where "need_nat q = (unat q + 23) div 16 * 16"

lemma need_nat_bounds: "unat q + 8 \<le> need_nat q" "16 dvd need_nat q" "need_nat q \<le> unat q + 23"
  unfolding need_nat_def by (presburger, simp, presburger)

lemma and_15: "w AND 15 = (w mod 16 :: u64)"
proof -
  have "w mod 16 = take_bit 4 w" by (simp add: take_bit_eq_mod)
  also have "\<dots> = w AND 15" by (simp add: take_bit_eq_mask mask_eq_exp_minus_1)
  finally show ?thesis ..
qed

lemma and_not_15: "w AND NOT 15 = w - w mod (16 :: u64)"
proof -
  have "w = (w AND NOT 15) + (w AND 15)"
    by (subst disjunctive_add_eq_or) (rule bit_word_eqI; auto simp: bit_simps)+
  then show ?thesis unfolding and_15 by (metis add_diff_cancel_right')
qed

lemma need_for_eq:
  assumes "q \<le> KMALLOC_MAX"
  shows "need_for q = of_nat (need_nat q)"
proof -
  have q: "unat q \<le> 268435456" using assms by (simp add: KMALLOC_MAX_def word_le_nat_alt)
  have u: "unat (q + 8 + 15) = unat q + 23" using q by (simp add: unat_word_ariths)
  have "unat (need_for q) = unat (q + 8 + 15) - unat (q + 8 + 15) mod 16"
    unfolding need_for_def HEAP_REDZONE_BACK_SIZE_def and_not_15 by (subst unat_sub) (simp_all add: unat_mod word_le_nat_alt)
  also have "\<dots> = need_nat q" unfolding u need_nat_def by (simp add: minus_mod_eq_div_mult)
  finally show ?thesis by (metis of_nat_unat ucast_id)
qed

text \<open>First fit on the list of blocks.\<close>

fun place :: "nat \<Rightarrow> u64 \<Rightarrow> u32 \<Rightarrow> nat \<Rightarrow> blk list \<Rightarrow> (nat \<times> blk list) option" where
  "place need q tag k [] = None"
| "place need q tag k (b # bs) =
     (if \<not> live b \<and> need \<le> length (body b) then Some (k, stamp q tag (trim need b) # leftover need b @ bs)
      else map_option (\<lambda>(i, bs). (i, b # bs)) (place need q tag (k + blen b) bs))"

lemma conc_HS: "conc base n bs = HS base (flat base n 0 bs) (of_nat n) (of_nat (live_bytes bs)) (bm_of (grans 0 bs)) False"
  by (simp add: conc_def HS_def)

lemma addr_nonzero:
  assumes "arena_ok base n" "k \<le> n"
  shows "base + of_nat k \<noteq> 0" "unat (base + of_nat k) = unat base + k"
proof -
  show u: "unat (base + of_nat k) = unat base + k"
    using assms by (simp add: arena_ok_def unat_word_ariths unat_of_nat_u64)
  have "unat base \<noteq> 0" using assms by (simp add: arena_ok_def unat_eq_0)
  then show "base + of_nat k \<noteq> 0" using u by (metis add_is_0 unat_0)
qed

lemma block_reads:
  assumes "blens (xs @ b # ys) = n" "n \<le> 2097152"
  shows "b_size (base + of_nat (blens xs)) (HS base (flat base n 0 (xs @ b # ys)) t u bm p) = Some (of_nat (length (body b)))"
    "b_next (base + of_nat (blens xs)) (HS base (flat base n 0 (xs @ b # ys)) t u bm p) = Some (if ys = [] then 0 else base + of_nat (blens (xs @ [b])))"
    "b_cookie (base + of_nat (blens xs)) (HS base (flat base n 0 (xs @ b # ys)) t u bm p) = Some (if live b then heap_cookie_for (base + of_nat (blens xs)) else 0)"
    "b_req_size (base + of_nat (blens xs)) (HS base (flat base n 0 (xs @ b # ys)) t u bm p) = Some (req b)"
    "b_tag (base + of_nat (blens xs)) (HS base (flat base n 0 (xs @ b # ys)) t u bm p) = Some (ptag b)"
    "b_is_free (base + of_nat (blens xs)) (HS base (flat base n 0 (xs @ b # ys)) t u bm p) = Some (if live b then 0 else 1)"
    "b_redzone_front (base + of_nat (blens xs)) (HS base (flat base n 0 (xs @ b # ys)) t u bm p) = Some (front b)"
proof -
  have "blens ys = 0 \<longleftrightarrow> ys = []" by (cases ys) (simp_all add: blen_def)
  then have "blens xs + blen b = n \<longleftrightarrow> ys = []" using assms(1) by auto
  moreover have "48 + blens xs + length (body b) + blens ys \<le> 2097152" using assms by (simp add: blen_def)
  ultimately show "b_size (base + of_nat (blens xs)) (HS base (flat base n 0 (xs @ b # ys)) t u bm p) = Some (of_nat (length (body b)))"
    "b_next (base + of_nat (blens xs)) (HS base (flat base n 0 (xs @ b # ys)) t u bm p) = Some (if ys = [] then 0 else base + of_nat (blens (xs @ [b])))"
    "b_cookie (base + of_nat (blens xs)) (HS base (flat base n 0 (xs @ b # ys)) t u bm p) = Some (if live b then heap_cookie_for (base + of_nat (blens xs)) else 0)"
    "b_req_size (base + of_nat (blens xs)) (HS base (flat base n 0 (xs @ b # ys)) t u bm p) = Some (req b)"
    "b_tag (base + of_nat (blens xs)) (HS base (flat base n 0 (xs @ b # ys)) t u bm p) = Some (ptag b)"
    "b_is_free (base + of_nat (blens xs)) (HS base (flat base n 0 (xs @ b # ys)) t u bm p) = Some (if live b then 0 else 1)"
    "b_redzone_front (base + of_nat (blens xs)) (HS base (flat base n 0 (xs @ b # ys)) t u bm p) = Some (front b)"
    by (simp_all add: flat_append heap_eval hdr_of_def)
qed

lemma kmalloc_search_eq:
  assumes "arena_ok base n" and "blens (xs @ ys) = n" and "ys \<noteq> []" and "unat q + 8 \<le> need" "need < 2 ^ 32"
  shows "kmalloc_search (base + of_nat (blens xs)) (of_nat need) q tag (conc base n (xs @ ys)) =
    Some (case place need q tag (blens xs) ys of None \<Rightarrow> (0, conc base n (xs @ ys)) | Some (i, zs) \<Rightarrow> (base + of_nat (i + 48), conc base n (xs @ zs)))"
  using assms(2,3)
proof (induction ys arbitrary: xs)
  case (Cons b ys)
  have n: "n \<le> 2097152" using assms(1) by (simp add: arena_ok_def)
  have nz: "base + of_nat (blens xs) \<noteq> 0" by (rule addr_nonzero(1) [OF assms(1)]) (use Cons.prems in simp)
  have len: "length (body b) < 2 ^ 32" using Cons.prems n by (simp add: blen_def)
  have ge: "(of_nat need :: u64) \<le> of_nat (length (body b)) \<longleftrightarrow> need \<le> length (body b)"
    using len assms(5) by (simp add: word_le_nat_alt unat_of_nat_u64)
  note rds = block_reads [OF Cons.prems(1) n]
  show ?case
  proof (cases "\<not> live b \<and> need \<le> length (body b)")
    case True
    let ?c = "trim need b"
    have fits: "unat q + 8 \<le> length (body ?c)" using trim_length [of need b] True assms(4) by simp
    have bl: "blen (stamp q tag ?c) = blen ?c" using fits by (simp add: blen_def blen_stamp)
    have S: "grans 0 (xs @ b # ys) \<union> grans (blens xs) (?c # leftover need b) = grans 0 (xs @ stamp q tag ?c # leftover need b @ ys)"
      using blens_split [of need b] by (auto simp: bl add.assoc)
    have u: "of_nat (live_bytes (xs @ b # ys)) + of_nat (length (body ?c)) = (of_nat (live_bytes (xs @ stamp q tag ?c # leftover need b @ ys)) :: u64)"
      using True fits by (simp add: blen_stamp)
    have in_S: "blens xs div 16 \<in> grans 0 (xs @ b # ys)" by simp
    show ?thesis
      using True nz ge claim_block_eq [OF Cons.prems(1) n _ in_S assms(4), of base tag "of_nat n" "of_nat (live_bytes (xs @ b # ys))" False]
      unfolding S u by (subst kmalloc_search.simps) (simp add: conc_HS rds)
  next
    case False
    have step: "kmalloc_search (base + of_nat (blens xs)) (of_nat need) q tag (conc base n (xs @ b # ys)) =
        kmalloc_search (if ys = [] then 0 else base + of_nat (blens (xs @ [b]))) (of_nat need) q tag (conc base n (xs @ b # ys))"
      using False nz ge by (subst kmalloc_search.simps) (auto simp: conc_HS rds simp del: blens_simps)
    show ?thesis
    proof (cases "ys = []")
      case True
      then show ?thesis unfolding step using False by (subst kmalloc_search.simps) auto
    next
      case ne: False
      show ?thesis using Cons.IH [of "xs @ [b]"] Cons.prems(1) ne False unfolding step by (auto split: option.splits)
    qed
  qed
qed simp

section \<open>Coalescing\<close>

definition join :: "u64 \<Rightarrow> nat \<Rightarrow> nat \<Rightarrow> blk \<Rightarrow> blk \<Rightarrow> blk" where
  "join base n k a b = a\<lparr>body := body a @ enc_hdr (hdr_of base n (k + blen a) b) @ body b\<rparr>"

function coalesced :: "u64 \<Rightarrow> nat \<Rightarrow> nat \<Rightarrow> blk list \<Rightarrow> blk list" where
  "coalesced base n k (a # b # bs) =
     (if \<not> live a \<and> \<not> live b then coalesced base n k (join base n k a b # bs) else a # coalesced base n (k + blen a) (b # bs))"
| "coalesced base n k [] = []"
| "coalesced base n k [a] = [a]"
  by pat_completeness auto
termination
  by (relation "measure (\<lambda>(base, n, k, bs). length bs)") auto

lemma join_fields [simp]: "live (join base n k a b) = live a" "blen (join base n k a b) = blen a + blen b"
  "req (join base n k a b) = req a" "ptag (join base n k a b) = ptag a" "front (join base n k a b) = front a"
  by (simp_all add: join_def blen_def)

lemma offs_bounds: "i \<in> set (offs k bs) \<Longrightarrow> k \<le> i \<and> i + 48 \<le> k + blens bs"
  by (induction bs arbitrary: k) (fastforce simp: blen_def)+

lemma div16_gap: "i + 16 \<le> j \<Longrightarrow> i div 16 < j div (16 :: nat)"
  using div_le_mono [of "i + 16" j 16] by simp

lemma grans_join:
  "grans 0 (xs @ a # b # ys) - {(blens xs + blen a) div 16} = grans 0 (xs @ join base n (blens xs) a b # ys)"
proof -
  let ?j = "blens xs + blen a"
  have "i div 16 \<noteq> ?j div 16" if "i \<in> set (offs 0 xs)" for i
    using offs_bounds [OF that] div16_gap [of i ?j] by (simp add: blen_def)
  moreover have "i div 16 \<noteq> ?j div 16" if "i \<in> set (offs (?j + blen b) ys)" for i
    using offs_bounds [OF that] div16_gap [of ?j i] by (simp add: blen_def)
  moreover have "blens xs div 16 \<noteq> ?j div 16" using div16_gap [of "blens xs" ?j] by (simp add: blen_def)
  ultimately show ?thesis by (auto simp: grans_def offs_append add.assoc)
qed

lemma write_size_next:
  assumes "blens (xs @ a # b # ys) = n" "n \<le> 2097152"
  shows "set_size (base + of_nat (blens xs)) (of_nat (length (body a)) + (HEADER_SIZE + of_nat (length (body b)))) (HS base (flat base n 0 (xs @ a # b # ys)) t u bm p) =
    Some (HS base (flat base n 0 xs @ enc_hdr ((hdr_of base n (blens xs) a)\<lparr>h_size := of_nat (length (body a) + 48 + length (body b))\<rparr>) @
      body a @ flat base n (blens xs + blen a) (b # ys)) t u bm p)"
    (is "?goal1")
    and "set_next (base + of_nat (blens xs)) (if ys = [] then 0 else base + of_nat (blens (xs @ [a, b])))
      (HS base (flat base n 0 xs @ enc_hdr ((hdr_of base n (blens xs) a)\<lparr>h_size := of_nat (length (body a) + 48 + length (body b))\<rparr>) @
      body a @ flat base n (blens xs + blen a) (b # ys)) t u bm p) = Some (HS base (flat base n 0 (xs @ join base n (blens xs) a b # ys)) t u bm p)" (is "?goal2")
    and "b_next (base + of_nat (blens (xs @ [a]))) (HS base (flat base n 0 xs @ enc_hdr ((hdr_of base n (blens xs) a)\<lparr>h_size := of_nat (length (body a) + 48 + length (body b))\<rparr>) @
      body a @ flat base n (blens xs + blen a) (b # ys)) t u bm p) = Some (if ys = [] then 0 else base + of_nat (blens (xs @ [a, b])))" (is "?goal3")
proof -
  have len: "blens xs + 48 + length (body a) + 48 + length (body b) + blens ys \<le> 2097152" using assms by (simp add: blen_def)
  then show ?goal1 by (simp add: flat_append heap_eval HEADER_SIZE_def blen_def add.assoc)
  have "blens ys = 0 \<longleftrightarrow> ys = []" by (cases ys) (simp_all add: blen_def)
  then have e: "blens xs + blen a + blen b = n \<longleftrightarrow> ys = []" using assms(1) by auto
  let ?j = "join base n (blens xs) a b"
  have "(hdr_of base n (blens xs) a)\<lparr>h_size := of_nat (length (body a) + 48 + length (body b)), h_next := if ys = [] then 0 else base + of_nat (blens (xs @ [a, b]))\<rparr> =
      hdr_of base n (blens xs) ?j"
    using e by (simp add: hdr_of_def add.assoc) (simp add: join_def)
  moreover have "blens xs + (48 + (length (body a) + (blen b + blens ys))) \<le> 2097152" using len by (simp add: blen_def)
  moreover have "flat base n 0 (xs @ ?j # ys) = flat base n 0 xs @ enc_hdr (hdr_of base n (blens xs) ?j) @ body a @ flat base n (blens xs + blen a) (b # ys)"
    by (simp add: flat_append add.assoc) (simp add: join_def)
  ultimately show ?goal2 by (simp only:) (simp add: heap_eval del: of_nat_add flat.simps blens_simps(3))
  show ?goal3 using len e by (simp add: heap_eval blen_def hdr_of_def add.assoc del: of_nat_add)
qed

lemma coalesce_step_eq:
  assumes "arena_ok base n" and "blens (xs @ a # b # ys) = n"
  shows "coalesce_step (base + of_nat (blens xs)) (conc base n (xs @ a # b # ys)) =
    Some (if \<not> live a \<and> \<not> live b then (Inl (base + of_nat (blens xs)), conc base n (xs @ join base n (blens xs) a b # ys))
      else (Inl (base + of_nat (blens (xs @ [a]))), conc base n (xs @ a # b # ys)))"
proof -
  have n: "n \<le> 2097152" using assms(1) by (simp add: arena_ok_def)
  have b2: "blens ((xs @ [a]) @ b # ys) = n" using assms(2) by simp
  note ra = block_reads [OF assms(2) n] and rb = block_reads [OF b2 n, unfolded append_assoc append_Cons append_Nil]
  have nz: "base + of_nat (blens (xs @ [a])) \<noteq> 0" by (rule addr_nonzero(1) [OF assms(1)]) (use assms(2) in simp)
  show ?thesis
  proof (cases "\<not> live a \<and> \<not> live b")
    case True
    have lt: "blens (xs @ [a]) < 2097152" using assms(2) n by (simp add: blen_def)
    have clr: "heap_bm_clear (base + of_nat (blens (xs @ [a]))) (HS base m t u (bm_of (grans 0 (xs @ a # b # ys))) p) =
        Some (HS base m t u (bm_of (grans 0 (xs @ join base n (blens xs) a b # ys))) p)" for m t u p
      using bm_HS(2) [OF refl lt] grans_join [of xs a b ys base n] by (simp del: grans_simps)
    have lb: "live_bytes (xs @ a # b # ys) = live_bytes (xs @ join base n (blens xs) a b # ys)" using True by simp
    show ?thesis
      using True nz unfolding coalesce_step_def conc_HS
      by (simp add: ra rb clr write_size_next [OF assms(2) n] lb del: blens_simps grans_simps live_bytes_simps flat.simps of_nat_add)
  next
    case False
    then show ?thesis
      using nz unfolding coalesce_step_def conc_HS by (auto simp: ra rb simp del: blens_simps grans_simps live_bytes_simps)
  qed
qed

lemma coalesce_step_last:
  assumes "arena_ok base n" and "blens (xs @ [a]) = n"
  shows "coalesce_step (base + of_nat (blens xs)) (conc base n (xs @ [a])) = Some (Inr no_fault, conc base n (xs @ [a]))"
  using block_reads(2) [OF assms(2)] assms(1) by (simp add: coalesce_step_def conc_HS arena_ok_def)

lemma coalesce_loop_eq:
  assumes "arena_ok base n" and "blens (xs @ ys) = n" and "ys \<noteq> []" and "k = blens xs"
  shows "coalesce_loop (base + of_nat k) (conc base n (xs @ ys)) = Some (no_fault, conc base n (xs @ coalesced base n k ys))"
  using assms
proof (induction base n k ys arbitrary: xs rule: coalesced.induct)
  case (1 base n k a b bs)
  have nz: "base + of_nat (blens xs) \<noteq> 0" by (rule addr_nonzero(1) [OF 1(3)]) (use 1(4) in simp)
  note st = coalesce_step_eq [OF 1(3,4)]
  show ?case
  proof (cases "\<not> live a \<and> \<not> live b")
    case True
    have "coalesce_loop (base + of_nat k) (conc base n (xs @ join base n k a b # bs)) =
        Some (no_fault, conc base n (xs @ coalesced base n k (join base n k a b # bs)))"
      using 1(1) [OF True 1(3), of xs] 1(4,6) by (simp add: add.assoc)
    then show ?thesis using True nz st 1(6) by (subst coalesce_loop.simps) simp
  next
    case False
    have "coalesce_loop (base + of_nat (k + blen a)) (conc base n ((xs @ [a]) @ b # bs)) =
        Some (no_fault, conc base n ((xs @ [a]) @ coalesced base n (k + blen a) (b # bs)))"
      using 1(2) [OF False 1(3), of "xs @ [a]"] 1(4,6) by simp
    then show ?thesis using False nz st 1(6) by (subst coalesce_loop.simps) (auto simp: add.assoc)
  qed
next
  case (3 base n k a)
  have nz: "base + of_nat (blens xs) \<noteq> 0" by (rule addr_nonzero(1) [OF 3(1)]) (use 3(2) in simp)
  then show ?case using coalesce_step_last [OF 3(1,2)] 3(4) by (subst coalesce_loop.simps) simp
qed simp

lemma coalesce_free_blocks_eq:
  assumes "arena_ok base n" and "blens bs = n" and "bs \<noteq> []"
  shows "coalesce_free_blocks (conc base n bs) = Some (no_fault, conc base n (coalesced base n 0 bs))"
  using coalesce_loop_eq [OF assms(1), of "[]" bs 0] assms by (simp add: coalesce_free_blocks_def conc_HS)

section \<open>Zeroing\<close>

lemma enc64_0: "enc64 0 = replicate 8 0"
  by (simp add: enc64_def enc32_def numeral_eq_Suc)

lemma put_at_put_at: "q + length v + length w \<le> length d \<Longrightarrow> put_at (q + length v) w (put_at q v d) = put_at q (v @ w) d"
  by (simp add: put_at_def ac_simps)

lemma put_at_Nil [simp]: "put_at q [] d = d"
  by (simp add: put_at_def)

lemma heap_fast_zero_byte:
  assumes "length pre + 48 + length d + length rest < 2 ^ 63" and "q + m \<le> length d"
  shows "heap_fast_zero (base + of_nat (length pre + 48 + q)) m (HS base (pre @ enc_hdr r @ d @ rest) t u bm p) =
    Some (HS base (pre @ enc_hdr r @ put_at q (replicate m 0) d @ rest) t u bm p)"
  using assms
proof (induction m arbitrary: q d rule: less_induct)
  case (less m)
  consider "8 \<le> m" | "m < 8" "0 < m" | "m = 0" by linarith
  then show ?case
  proof cases
    case 1
    let ?d = "put_at q (replicate 8 0) d"
    have len: "length ?d = length d" by (rule length_put_at) (use less.prems 1 in simp)
    have "put_at (q + 8) (replicate (m - 8) 0) ?d = put_at q (replicate 8 0 @ replicate (m - 8) 0) d"
      using put_at_put_at [of q "replicate 8 0" "replicate (m - 8) 0" d] less.prems 1 by simp
    then have "put_at (q + 8) (replicate (m - 8) 0) ?d = put_at q (replicate m 0) d" using 1 by (simp add: replicate_add [symmetric])
    moreover have "heap_fast_zero (base + of_nat (length pre + 48 + (q + 8))) (m - 8) (HS base (pre @ enc_hdr r @ ?d @ rest) t u bm p) =
        Some (HS base (pre @ enc_hdr r @ put_at (q + 8) (replicate (m - 8) 0) ?d @ rest) t u bm p)"
      by (rule less.IH) (use less.prems 1 len in simp_all)
    moreover have "st64 (base + of_nat (length pre + 48 + q)) 0 (HS base (pre @ enc_hdr r @ d @ rest) t u bm p) = Some (HS base (pre @ enc_hdr r @ ?d @ rest) t u bm p)"
      using st64_body [OF refl, of pre d rest q base 0] less.prems 1 by (simp add: enc64_0)
    ultimately show ?thesis using 1 by (subst heap_fast_zero.simps) (simp add: add.assoc)
  next
    case 2
    let ?d = "put_at q [0] d"
    have len: "length ?d = length d" by (rule length_put_at) (use less.prems 2 in simp)
    have "put_at (q + 1) (replicate (m - 1) 0) ?d = put_at q ([0] @ replicate (m - 1) 0) d"
      using put_at_put_at [of q "[0]" "replicate (m - 1) 0" d] less.prems 2 by simp
    then have "put_at (q + 1) (replicate (m - 1) 0) ?d = put_at q (replicate m 0) d" using 2 by (cases m) simp_all
    moreover have "heap_fast_zero (base + of_nat (length pre + 48 + (q + 1))) (m - 1) (HS base (pre @ enc_hdr r @ ?d @ rest) t u bm p) =
        Some (HS base (pre @ enc_hdr r @ put_at (q + 1) (replicate (m - 1) 0) ?d @ rest) t u bm p)"
      by (rule less.IH) (use less.prems 2 len in simp_all)
    moreover have "store (base + of_nat (length pre + 48 + q)) [0] (HS base (pre @ enc_hdr r @ d @ rest) t u bm p) = Some (HS base (pre @ enc_hdr r @ ?d @ rest) t u bm p)"
      using store_body [OF refl, of pre d rest q "[0]" base] less.prems 2 by simp
    ultimately show ?thesis using 2 by (subst heap_fast_zero.simps) (simp add: ac_simps)
  next
    case 3
    then show ?thesis by (subst heap_fast_zero.simps) simp
  qed
qed

lemma flat_body:
  "length d = length (body b) \<Longrightarrow>
    flat base n 0 (xs @ b\<lparr>body := d\<rparr> # ys) = flat base n 0 xs @ enc_hdr (hdr_of base n (blens xs) b) @ d @ flat base n (blens xs + blen b) ys"
  by (simp add: flat_append hdr_of_def blen_def)

lemma conc_body:
  "length d = length (body b) \<Longrightarrow>
    conc base n (xs @ b\<lparr>body := d\<rparr> # ys) = HS base (flat base n 0 xs @ enc_hdr (hdr_of base n (blens xs) b) @ d @ flat base n (blens xs + blen b) ys)
      (of_nat n) (of_nat (live_bytes (xs @ b # ys))) (bm_of (grans 0 (xs @ b # ys))) False"
  by (simp only: conc_HS flat_body) (simp add: blen_def)

lemma heap_fast_zero_eq:
  assumes "blens (xs @ b # ys) = n" "n \<le> 2097152" and "q + m \<le> length (body b)"
  shows "heap_fast_zero (base + of_nat (blens xs + 48 + q)) m (conc base n (xs @ b # ys)) = Some (conc base n (xs @ b\<lparr>body := put_at q (replicate m 0) (body b)\<rparr> # ys))"
proof -
  have "conc base n (xs @ b # ys) = conc base n (xs @ b\<lparr>body := body b\<rparr> # ys)" by simp
  also have "\<dots> = HS base (flat base n 0 xs @ enc_hdr (hdr_of base n (blens xs) b) @ body b @ flat base n (blens xs + blen b) ys)
      (of_nat n) (of_nat (live_bytes (xs @ b # ys))) (bm_of (grans 0 (xs @ b # ys))) False" by (rule conc_body) simp
  finally show ?thesis
    using heap_fast_zero_byte [of "flat base n 0 xs" "body b" "flat base n (blens xs + blen b) ys" q m base] conc_body [of "put_at q (replicate m 0) (body b)" b base n xs ys] assms
    by (simp add: blen_def)
qed

section \<open>Classification\<close>

lemma owns_conc:
  assumes "arena_ok base n" and "k < n"
  shows "heap_owns (base + of_nat k) (conc base n bs)"
proof -
  have "unat (base + of_nat k) = unat base + k" "unat (base + of_nat n) = unat base + n" using addr_nonzero(2) [OF assms(1)] assms(2) by simp_all
  then show ?thesis using assms(2) by (simp add: heap_owns_def conc_def word_less_nat_alt not_le not_less word_le_nat_alt)
qed

lemma blens_dvd: "\<forall>b \<in> set bs. blk_ok b \<Longrightarrow> 16 dvd blens bs"
  by (induction bs) (auto simp: blen_def blk_ok_def intro!: dvd_add)

lemma aligned_iff: "p AND 15 = 0 \<longleftrightarrow> 16 dvd unat (p :: u64)"
proof -
  have "unat (p AND 15) = unat p mod 16" by (simp add: and_15 unat_mod)
  then show ?thesis by (simp add: dvd_eq_mod_eq_0) (metis unat_eq_0)
qed

text \<open>The checks that come before the header is read pass for the start of a data area.\<close>

lemma user_ptr_checks:
  assumes "arena_ok base n" "blens (xs @ b # ys) = n" "body b \<noteq> []" "\<forall>c \<in> set xs. blk_ok c"
  shows "heap_owns (base + of_nat (blens xs + 48)) (conc base n (xs @ b # ys))" "(base + of_nat (blens xs + 48)) AND 15 = 0"
    "\<not> base + of_nat (blens xs + 48) < heap_start_block (conc base n (xs @ b # ys)) + HEADER_SIZE"
    "heap_bm_test (base + of_nat (blens xs)) (conc base n (xs @ b # ys)) = Some True"
proof -
  let ?k = "blens xs" and ?p = "base + of_nat (blens xs + 48)"
  have n: "n \<le> 2097152" using assms(1) by (simp add: arena_ok_def)
  have "0 < length (body b)" using assms(3) by simp
  then have le: "?k + 48 \<le> n" "?k + 48 < n" using assms(2) by (simp_all add: blen_def del: length_greater_0_conv)
  note u = addr_nonzero(2) [OF assms(1) le(1)]
  have "16 dvd unat ?p" using u blens_dvd [OF assms(4)] assms(1) by (simp add: arena_ok_def)
  then show "?p AND 15 = 0" by (simp add: aligned_iff)
  have "unat (base + of_nat 48) = unat base + 48" by (rule addr_nonzero(2) [OF assms(1)]) (use le in simp)
  then show "\<not> ?p < heap_start_block (conc base n (xs @ b # ys)) + HEADER_SIZE" using u by (simp add: conc_def HEADER_SIZE_def word_less_nat_alt)
  show "heap_bm_test (base + of_nat ?k) (conc base n (xs @ b # ys)) = Some True"
    unfolding conc_HS by (subst bm_HS(3) [OF refl]) (use le n in auto)
  show "heap_owns ?p (conc base n (xs @ b # ys))" by (rule owns_conc [OF assms(1) le(2)])
qed

lemma ptr_sub: "base + of_nat (k + 48) - HEADER_SIZE = base + of_nat k"
  by (simp add: HEADER_SIZE_def)

lemma classify_free:
  assumes "blocks_ok base n (xs @ b # ys)" "\<not> live b"
  shows "heap_classify (base + of_nat (blens xs + 48)) (conc base n (xs @ b # ys)) = Some AlreadyFree"
proof -
  have ok: "arena_ok base n" "blens (xs @ b # ys) = n" "body b \<noteq> []" "\<forall>c \<in> set xs. blk_ok c" "n \<le> 2097152"
    using assms by (auto simp: blocks_ok_def blk_ok_def arena_ok_def)
  show ?thesis unfolding heap_classify_def Let_def ptr_sub
    using user_ptr_checks [OF ok(1-4)] assms(2)
      block_reads [OF ok(2,5), of base "of_nat n" "of_nat (live_bytes (xs @ b # ys))" "bm_of (grans 0 (xs @ b # ys))" False, folded conc_HS]
    by (simp del: of_nat_add blens_simps grans_simps)
qed

text \<open>The sentinels of a live block, whatever their values are.\<close>

lemma classify_live:
  assumes "arena_ok base n" "blens (xs @ b # ys) = n" "\<forall>c \<in> set xs. blk_ok c" and "live b" "unat (req b) + 8 \<le> length (body b)"
    and "take 8 (drop (unat (req b)) (body b)) = enc64 v"
  defines "p \<equiv> base + of_nat (blens xs + 48)"
  shows "heap_classify p (conc base n (xs @ b # ys)) = Some
    (if front b \<noteq> HEAP_REDZONE_FRONT then Corrupt \<lparr>f_cls = HEAP_FAULT_REDZONE_FRONT, f_ptr = p, f_got = front b, f_want = HEAP_REDZONE_FRONT\<rparr>
     else if v \<noteq> HEAP_REDZONE_BACK then Corrupt \<lparr>f_cls = HEAP_FAULT_REDZONE_BACK, f_ptr = p, f_got = v, f_want = HEAP_REDZONE_BACK\<rparr>
     else Clean (base + of_nat (blens xs)))"
proof -
  let ?h = "conc base n (xs @ b # ys)" and ?k = "blens xs"
  have n: "n \<le> 2097152" using assms(1) by (simp add: arena_ok_def)
  have body: "body b \<noteq> []" using assms(5) by auto
  have len: "?k + 48 + length (body b) + blens ys \<le> 2097152" using assms(2) n by (simp add: blen_def)
  have fits: "\<not> (req b > of_nat (length (body b)) \<or> of_nat (length (body b)) - req b < HEAP_REDZONE_BACK_SIZE)"
  proof -
    have l: "unat (of_nat (length (body b)) :: u64) = length (body b)" using len by (simp add: unat_of_nat_u64)
    then have "req b \<le> of_nat (length (body b))" using assms(5) by (simp add: word_le_nat_alt)
    then have "unat (of_nat (length (body b)) - req b) = length (body b) - unat (req b)" using l by (simp add: unat_sub)
    then show ?thesis using assms(5) l by (simp add: word_less_nat_alt HEAP_REDZONE_BACK_SIZE_def)
  qed
  have a: "base + of_nat ?k + HEADER_SIZE + req b = base + of_nat (length (flat base n 0 xs) + 48 + unat (req b))" by (simp add: HEADER_SIZE_def)
  have "ld64 (base + of_nat ?k + HEADER_SIZE + req b) (HS base (flat base n 0 xs @ enc_hdr (hdr_of base n ?k b) @ body b @ flat base n (?k + blen b) ys)
      (of_nat n) (of_nat (live_bytes (xs @ b # ys))) (bm_of (grans 0 (xs @ b # ys))) False) = rd64 (take 8 (drop (unat (req b)) (body b))) 0"
    by (rule ld64_body [OF a]) (use len assms(5) in simp_all)
  then have bk: "ld64 (base + of_nat ?k + HEADER_SIZE + req b) ?h = Some v"
    using assms(6) rd64_at [of 0 "[]" v "[]"] by (simp add: conc_HS flat_append)
  show ?thesis unfolding heap_classify_def Let_def p_def ptr_sub
    using user_ptr_checks [OF assms(1,2) body assms(3)] fits bk assms(4)
      block_reads [OF assms(2) n, of base "of_nat n" "of_nat (live_bytes (xs @ b # ys))" "bm_of (grans 0 (xs @ b # ys))" False, folded conc_HS]
    by (simp add: heap_redzone_back_def no_fault_def del: of_nat_add blens_simps grans_simps)
qed

lemma classify_block:
  assumes "blocks_ok base n (xs @ b # ys)"
  shows "heap_classify (base + of_nat (blens xs + 48)) (conc base n (xs @ b # ys)) = Some (if live b then Clean (base + of_nat (blens xs)) else AlreadyFree)"
proof (cases "live b")
  case True
  then have "arena_ok base n" "blens (xs @ b # ys) = n" "\<forall>c \<in> set xs. blk_ok c" "unat (req b) + 8 \<le> length (body b)"
      "take 8 (drop (unat (req b)) (body b)) = enc64 HEAP_REDZONE_BACK" "front b = HEAP_REDZONE_FRONT"
    using assms by (simp_all add: blocks_ok_def blk_ok_def)
  from classify_live [OF this(1-3) True this(4,5)] this(6) True show ?thesis by simp
qed (use classify_free [OF assms] in simp)

text \<open>A pointer that is not the start of a data area is refused before its header is read.\<close>

lemma offs_dvd: "\<forall>b \<in> set bs. blk_ok b \<Longrightarrow> 16 dvd k \<Longrightarrow> i \<in> set (offs k bs) \<Longrightarrow> 16 dvd i"
proof (induction bs arbitrary: k)
  case (Cons b bs)
  have "16 dvd k + blen b" using Cons.prems by (auto simp: blen_def blk_ok_def intro!: dvd_add)
  with Cons show ?case by auto
qed simp

lemma classify_other:
  assumes "blocks_ok base n bs" and "\<And>k. k \<in> set (offs 0 bs) \<Longrightarrow> p \<noteq> base + of_nat (k + 48)"
  shows "heap_classify p (conc base n bs) =
    Some (Corrupt (no_fault\<lparr>f_cls := if heap_owns p (conc base n bs) \<and> p AND 15 \<noteq> 0 then HEAP_FAULT_MISALIGNED else HEAP_FAULT_WILD, f_ptr := p\<rparr>))"
proof (cases "heap_owns p (conc base n bs) \<and> p AND 15 = 0 \<and> \<not> p < base + HEADER_SIZE")
  case True
  have ok: "arena_ok base n" "\<forall>b \<in> set bs. blk_ok b" "blens bs = n" "bs \<noteq> []" using assms(1) by (simp_all add: blocks_ok_def)
  let ?k = "unat p - unat base"
  have n: "unat base + n < 2 ^ 64" "n \<le> 2097152" "16 dvd unat base" using ok(1) by (simp_all add: arena_ok_def)
  have "48 \<le> n" using ok(3,4) by (cases bs) (simp_all add: blen_def)
  then have "unat (base + HEADER_SIZE) = unat base + 48" using addr_nonzero(2) [OF ok(1), of 48] by (simp add: HEADER_SIZE_def)
  then have lo: "unat base + 48 \<le> unat p" using True by (simp add: word_less_nat_alt)
  have "unat (base + of_nat n) = unat base + n" by (rule addr_nonzero(2) [OF ok(1)]) simp
  then have hi: "unat p < unat base + n" using True by (auto simp: heap_owns_def conc_def word_less_nat_alt word_le_nat_alt split: if_splits)
  have "unat (base + of_nat ?k) = unat p" using addr_nonzero(2) [OF ok(1), of ?k] lo hi by simp
  then have p: "p = base + of_nat (?k - 48 + 48)" using lo by (simp add: word_unat_eq_iff)
  then have "?k - 48 \<notin> set (offs 0 bs)" using assms(2) by blast
  moreover have "16 dvd ?k - 48" using True n(3) by (simp add: aligned_iff dvd_diff_nat)
  ultimately have "(?k - 48) div 16 \<notin> grans 0 bs"
    using offs_dvd [OF ok(2), of 0] by (auto simp: grans_def)
  moreover have sub: "p - HEADER_SIZE = base + of_nat (?k - 48)" by (subst p) (simp add: HEADER_SIZE_def)
  moreover have "?k - 48 < 2097152" using hi n(2) by simp
  ultimately have "heap_bm_test (p - HEADER_SIZE) (conc base n bs) = Some False" unfolding conc_HS sub by (subst bm_HS(3) [OF refl]) simp_all
  then show ?thesis using True by (simp add: heap_classify_def)
qed (auto simp: heap_classify_def conc_def no_fault_def)

end
