(* ===== verification/Mm_Heap_Regions.thy ===== *)
theory Mm_Heap_Regions
  imports Mm_Heap_Facts
begin

text \<open>
  What the clients of the heap hold: the map from the pointers they were given to the pool tag and the bytes they may use. Every operation is a replacement of a run of blocks by another run of the same
  length, and one lemma says what such a replacement does to the map.
\<close>

section \<open>Held regions\<close>

type_synonym region = "u32 \<times> bytes"

definition contents :: "blk \<Rightarrow> region" where "contents b = (ptag b, take (unat (req b)) (body b))"

fun cells :: "nat \<Rightarrow> blk list \<Rightarrow> (nat \<times> region) list" where
  "cells k [] = []"
| "cells k (b # bs) = (if live b then [(k + 48, contents b)] else []) @ cells (k + blen b) bs"

definition hold :: "blk list \<Rightarrow> nat \<Rightarrow> region option" where "hold bs = map_of (cells 0 bs)"

definition regions :: "heap \<Rightarrow> u64 \<Rightarrow> region option" where "regions h p = hold (blocks h) (off h p)"

lemma cells_append: "cells k (xs @ ys) = cells k xs @ cells (k + blens xs) ys"
  by (induction xs arbitrary: k) (simp_all add: add.assoc)

lemma cells_dead [simp]: "\<forall>b \<in> set bs. \<not> live b \<Longrightarrow> cells k bs = []"
  by (induction bs arbitrary: k) simp_all

lemma cells_leftover [simp]: "cells k (leftover need b) = []"
  using leftover_dead by (intro cells_dead) blast

lemma cells_key: "(j, c) \<in> set (cells k bs) \<Longrightarrow> \<exists>i \<in> set (offs k bs). j = i + 48"
  by (induction bs arbitrary: k) (fastforce split: if_splits)+

lemma hold_replace:
  assumes "cells (blens xs) ms = (case v of None \<Rightarrow> [] | Some c \<Rightarrow> [(blens xs + 48, c)])"
    and "cells (blens xs) ms' = (case v' of None \<Rightarrow> [] | Some c \<Rightarrow> [(blens xs + 48, c)])"
    and "blens ms' = blens ms" and "ms \<noteq> []"
  shows "hold (xs @ ms' @ ys) = (hold (xs @ ms @ ys))(blens xs + 48 := v')" "hold (xs @ ms @ ys) (blens xs + 48) = v"
proof -
  let ?k = "blens xs" and ?A = "cells 0 xs" and ?C = "cells (blens xs + blens ms) ys"
  have "48 \<le> blens ms" using assms(4) by (cases ms) (simp_all add: blen_def)
  then have C: "map_of ?C (?k + 48) = None"
    using cells_key offs_bounds by (fastforce simp: map_of_eq_None_iff)
  have A: "map_of ?A (?k + 48) = None"
    using cells_key offs_bounds by (fastforce simp: map_of_eq_None_iff)
  have eq: "hold (xs @ ms @ ys) = (map_of ?C ++ map_of (cells ?k ms)) ++ map_of ?A"
      "hold (xs @ ms' @ ys) = (map_of ?C ++ map_of (cells ?k ms')) ++ map_of ?A"
    using assms(3) by (simp_all add: hold_def cells_append map_add_def fun_eq_iff split: option.splits)
  show "hold (xs @ ms' @ ys) = (hold (xs @ ms @ ys))(?k + 48 := v')"
    unfolding eq assms(1,2) using A C by (cases v; cases v') (auto simp: fun_eq_iff map_add_def split: option.splits)
  show "hold (xs @ ms @ ys) (?k + 48) = v"
    unfolding eq assms(1) using A C by (cases v) (auto simp: map_add_def split: option.splits)
qed

lemma hold_coalesced [simp]: "hold (coalesced base n 0 bs) = hold bs"
proof -
  have "cells k (coalesced base n k bs) = cells k bs" for k
    by (induction base n k bs rule: coalesced.induct) (simp_all add: add.assoc)
  then show ?thesis by (simp add: hold_def)
qed

text \<open>The block of a held region.\<close>

lemma cells_block:
  "(j, c) \<in> set (cells k bs) \<Longrightarrow> \<exists>xs b ys. bs = xs @ b # ys \<and> live b \<and> j = k + blens xs + 48 \<and> c = contents b"
proof (induction bs arbitrary: k)
  case (Cons b bs)
  show ?case
  proof (cases "(j, c) \<in> set (cells (k + blen b) bs)")
    case True
    with Cons.IH obtain xs d ys where "bs = xs @ d # ys" "live d" "j = k + blen b + blens xs + 48" "c = contents d" by blast
    then show ?thesis by (intro exI [of _ "b # xs"]) auto
  next
    case False
    then show ?thesis using Cons.prems by (intro exI [of _ "[]"]) (auto split: if_splits)
  qed
qed simp

lemma hold_block:
  assumes "hold bs j = Some c"
  obtains xs b ys where "bs = xs @ b # ys" "live b" "j = blens xs + 48" "c = contents b"
  using assms cells_block [of j c 0 bs] by (auto simp: hold_def dest!: map_of_SomeD)

section \<open>What coalescing keeps\<close>

lemma coalesced_blens [simp]: "blens (coalesced base n k bs) = blens bs"
  by (induction base n k bs rule: coalesced.induct) simp_all

lemma coalesced_Nil [simp]: "coalesced base n k bs = [] \<longleftrightarrow> bs = []"
  by (induction base n k bs rule: coalesced.induct) simp_all

lemma join_ok: "blk_ok a \<Longrightarrow> blk_ok b \<Longrightarrow> \<not> live a \<Longrightarrow> blk_ok (join base n k a b)"
  by (auto simp: blk_ok_def join_def intro!: dvd_add)

lemma coalesced_ok: "\<forall>b \<in> set bs. blk_ok b \<Longrightarrow> \<forall>b \<in> set (coalesced base n k bs). blk_ok b"
  by (induction base n k bs rule: coalesced.induct) (auto simp: join_ok)

lemma coalesced_hd: "bs \<noteq> [] \<Longrightarrow> live (hd (coalesced base n k bs)) = live (hd bs)"
  by (induction base n k bs rule: coalesced.induct) simp_all

lemma compact_Cons: "compact (a # bs) \<longleftrightarrow> (bs = [] \<or> live a \<or> live (hd bs)) \<and> compact bs"
  by (cases bs) auto

lemma coalesced_compact: "compact (coalesced base n k bs)"
  by (induction base n k bs rule: coalesced.induct) (auto simp: compact_Cons coalesced_hd)

lemma blocks_ok_coalesced: "blocks_ok base n bs \<Longrightarrow> blocks_ok base n (coalesced base n 0 bs)"
  using coalesced_ok by (auto simp: blocks_ok_def)

end
