(* ===== verification/Mm_Heap_Ops.thy ===== *)
theory Mm_Heap_Ops
  imports Mm_Heap_Regions
begin

text \<open>
  The entry points of the heap on the list of blocks: what each returns, which run of blocks it replaces, and that the invariant is kept.
\<close>

section \<open>Release\<close>

lemma release_stores:
  assumes "blens (xs @ b # ys) = n" "n \<le> 2097152"
  shows "\<exists>h. set_cookie (base + of_nat (blens xs)) 0 (conc base n (xs @ b # ys)) = Some h \<and>
    set_is_free (base + of_nat (blens xs)) 1 h = Some (HS base (flat base n 0 (xs @ b\<lparr>live := False\<rparr> # ys)) (of_nat n)
      (of_nat (live_bytes (xs @ b # ys))) (bm_of (grans 0 (xs @ b # ys))) False)"
proof -
  have "blens xs + 48 + length (body b) + blens ys \<le> 2097152" using assms by (simp add: blen_def)
  moreover have "(hdr_of base n (blens xs) b)\<lparr>h_cookie := 0, h_free := 1\<rparr> = hdr_of base n (blens xs) (b\<lparr>live := False\<rparr>)"
    by (simp add: hdr_of_def blen_def)
  moreover have "blen (b\<lparr>live := False\<rparr>) = blen b" by (simp add: blen_def)
  ultimately show ?thesis by (simp add: conc_HS flat_append heap_eval)
qed

lemma kfree_locked_eq:
  assumes "blocks_ok base n (xs @ b # ys)" and "live b" and "want = None \<or> want = Some (ptag b)"
  shows "kfree_locked (base + of_nat (blens xs + 48)) want (conc base n (xs @ b # ys)) =
    Some (no_fault, conc base n (coalesced base n 0 (xs @ b\<lparr>live := False\<rparr> # ys)))"
proof -
  let ?d = "b\<lparr>live := False\<rparr>" and ?L = "xs @ b # ys"
  have ok: "arena_ok base n" "blens ?L = n" using assms(1) by (simp_all add: blocks_ok_def)
  then have n: "n \<le> 2097152" by (simp add: arena_ok_def)
  obtain h where h: "set_cookie (base + of_nat (blens xs)) 0 (conc base n ?L) = Some h"
      "set_is_free (base + of_nat (blens xs)) 1 h = Some (HS base (flat base n 0 (xs @ ?d # ys)) (of_nat n) (of_nat (live_bytes ?L)) (bm_of (grans 0 ?L)) False)"
    using release_stores [OF ok(2) n] by blast
  have bl: "blens (xs @ ?d # ys) = n" "blen ?d = blen b" using ok(2) by (simp_all add: blen_def)
  have state: "HS base (flat base n 0 (xs @ ?d # ys)) (of_nat n) (of_nat (live_bytes ?L) - of_nat (length (body b))) (bm_of (grans 0 ?L)) False =
      conc base n (xs @ ?d # ys)"
    using assms(2) by (simp add: conc_HS bl(2))
  have "kfree_locked (base + of_nat (blens xs + 48)) want (conc base n ?L) = coalesce_free_blocks (conc base n (xs @ ?d # ys))"
    using h assms(2,3) classify_block [OF assms(1)] block_reads(5) [OF ok(2) n] block_reads(1) [OF bl(1) n] state
    by (auto simp: kfree_locked_def conc_HS [of base n ?L] simp del: of_nat_add blens_simps flat.simps live_bytes_simps grans_simps)
  then show ?thesis using coalesce_free_blocks_eq [OF ok(1) bl(1)] by simp
qed

lemma release_ok: "blocks_ok base n (xs @ b # ys) \<Longrightarrow> blocks_ok base n (xs @ b\<lparr>live := False\<rparr> # ys)"
  by (auto simp: blocks_ok_def blk_ok_def blen_def)

lemma hold_release:
  "live b \<Longrightarrow> hold (xs @ b\<lparr>live := False\<rparr> # ys) = (hold (xs @ b # ys))(blens xs + 48 := None)"
  using hold_replace(1) [of xs "[b]" "Some (contents b)" "[b\<lparr>live := False\<rparr>]" None ys] by (simp add: blen_def)

section \<open>Allocation\<close>

lemma place_None: "place need q tag k bs = None \<longleftrightarrow> (\<forall>b \<in> set bs. live b \<or> length (body b) < need)"
  by (induction bs arbitrary: k) auto

lemma place_Some:
  "place need q tag k bs = Some (i, zs) \<Longrightarrow> \<exists>xs b ys. bs = xs @ b # ys \<and> i = k + blens xs \<and> \<not> live b \<and> need \<le> length (body b) \<and>
    (\<forall>c \<in> set xs. live c \<or> length (body c) < need) \<and> zs = xs @ stamp q tag (trim need b) # leftover need b @ ys"
proof (induction bs arbitrary: k zs)
  case (Cons b bs)
  show ?case
  proof (cases "\<not> live b \<and> need \<le> length (body b)")
    case True
    then show ?thesis using Cons.prems by (intro exI [of _ "[]"]) auto
  next
    case False
    then obtain zs' where p: "place need q tag (k + blen b) bs = Some (i, zs')" and zs: "zs = b # zs'" using Cons.prems by auto
    from Cons.IH [OF p] obtain xs c ys where "bs = xs @ c # ys" "i = k + blen b + blens xs" "\<not> live c" "need \<le> length (body c)"
        "\<forall>c \<in> set xs. live c \<or> length (body c) < need" "zs' = xs @ stamp q tag (trim need c) # leftover need c @ ys"
      by blast
    with False zs show ?thesis by (intro exI [of _ "b # xs"] exI [of _ c] exI [of _ ys]) auto
  qed
qed simp

text \<open>The blocks after an allocation, before and after the region is cleared.\<close>

definition cleared :: "u64 \<Rightarrow> u32 \<Rightarrow> blk \<Rightarrow> blk" where
  "cleared q tag b = (stamp q tag b)\<lparr>body := put_at 0 (replicate (unat q) 0) (body (stamp q tag b))\<rparr>"

lemma fits_trim: "need_nat q \<le> length (body b) \<Longrightarrow> unat q + 8 \<le> length (body (trim (need_nat q) b))"
  using trim_length [of "need_nat q" b] need_nat_bounds(1) [of q] by simp

lemma enc64_not_Nil [simp]: "enc64 v \<noteq> []"
  using length_enc64 [of v] by (metis list.size(3) zero_neq_numeral)

lemma stamp_ok:
  assumes "unat q + 8 \<le> length (body b)" and "16 dvd length (body b)"
  shows "blk_ok (stamp q tag b)"
  using assms slice_put_at [of "unat q" "enc64 HEAP_REDZONE_BACK" "body b"] by (auto simp: blk_ok_def stamp_def put_at_def)

lemma cleared_fields:
  assumes "unat q + 8 \<le> length (body b)"
  shows "live (cleared q tag b)" "req (cleared q tag b) = q" "ptag (cleared q tag b) = tag" "length (body (cleared q tag b)) = length (body b)"
    "take (unat q) (body (cleared q tag b)) = replicate (unat q) 0" "16 dvd length (body b) \<Longrightarrow> blk_ok (cleared q tag b)"
proof -
  show "live (cleared q tag b)" "req (cleared q tag b) = q" "ptag (cleared q tag b) = tag" by (simp_all add: cleared_def)
  show len: "length (body (cleared q tag b)) = length (body b)" using assms by (simp add: cleared_def blen_stamp)
  show "take (unat q) (body (cleared q tag b)) = replicate (unat q) 0" by (simp add: cleared_def put_at_def)
  assume d: "16 dvd length (body b)"
  have "drop (unat q) (body (cleared q tag b)) = drop (unat q) (body (stamp q tag b))" using assms by (simp add: cleared_def drop_put_at blen_stamp)
  then show "blk_ok (cleared q tag b)" using stamp_ok [OF assms d, of tag] len d assms by (auto simp: blk_ok_def cleared_def blen_stamp)
qed

lemma leftover_ok: "blk_ok b \<Longrightarrow> 16 dvd need \<Longrightarrow> c \<in> set (leftover need b) \<Longrightarrow> blk_ok c"
  by (auto simp: leftover_def blk_ok_def blk_of_def split: if_splits)

lemma trim_dvd: "blk_ok b \<Longrightarrow> 16 dvd need \<Longrightarrow> 16 dvd length (body (trim need b))"
  by (auto simp: trim_def blk_ok_def)

text \<open>A free block is replaced by a live one and what is left of it.\<close>

lemma replace_ok:
  assumes "blocks_ok base n (xs @ ms @ ys)" and "blens ms' = blens ms" and "ms' \<noteq> []" and "\<forall>c \<in> set ms'. blk_ok c"
  shows "blocks_ok base n (xs @ ms' @ ys)"
  using assms by (auto simp: blocks_ok_def)

lemma compact_append: "compact (xs @ ys) \<longleftrightarrow> compact xs \<and> compact ys \<and> (xs = [] \<or> ys = [] \<or> live (last xs) \<or> live (hd ys))"
  by (induction xs) (auto simp: compact_Cons)

lemma leftover_cases: "leftover need b = [] \<or> (\<exists>c. leftover need b = [c] \<and> \<not> live c)"
  by (simp add: leftover_def)

lemma compact_place:
  assumes "compact (xs @ b # ys)" and "\<not> live b" and "live c"
  shows "compact (xs @ c # leftover need b @ ys)"
  using assms leftover_cases [of need b] by (auto simp: compact_append compact_Cons)

lemma kmalloc_locked_eq:
  assumes "blocks_ok base n bs" and "q \<le> KMALLOC_MAX"
  shows "kmalloc_locked q tag (conc base n bs) =
    Some (case place (need_nat q) q tag 0 bs of None \<Rightarrow> (0, conc base n bs) | Some (i, zs) \<Rightarrow> (base + of_nat (i + 48), conc base n zs))"
proof -
  have ok: "arena_ok base n" "blens ([] @ bs) = n" "bs \<noteq> []" using assms(1) by (simp_all add: blocks_ok_def)
  have "unat q \<le> 268435456" using assms(2) by (simp add: KMALLOC_MAX_def word_le_nat_alt)
  then have lt: "need_nat q < 2 ^ 32" using need_nat_bounds(3) [of q] by simp
  show ?thesis using kmalloc_search_eq [OF ok need_nat_bounds(1) lt, of tag] need_for_eq [OF assms(2)]
    by (simp add: kmalloc_locked_def conc_HS split: option.splits)
qed

lemma kmalloc_tagged_eq:
  assumes "blocks_ok base n bs" and "q \<noteq> 0" "q \<le> KMALLOC_MAX"
  shows "(\<forall>b \<in> set bs. live b \<or> length (body b) < need_nat q) \<and> kmalloc_tagged q tag (conc base n bs) = Some (0, conc base n bs) \<or>
    (\<exists>xs b ys. bs = xs @ b # ys \<and> \<not> live b \<and> need_nat q \<le> length (body b) \<and> (\<forall>c \<in> set xs. live c \<or> length (body c) < need_nat q) \<and>
      kmalloc_tagged q tag (conc base n bs) = Some (base + of_nat (blens xs + 48),
        conc base n (xs @ cleared q tag (trim (need_nat q) b) # leftover (need_nat q) b @ ys)))"
proof (cases "place (need_nat q) q tag 0 bs")
  case None
  then have "kmalloc_tagged q tag (conc base n bs) = Some (0, conc base n bs)"
    using kmalloc_locked_eq [OF assms(1,3), of tag] assms(2,3) by (simp add: kmalloc_tagged_def not_less)
  with None show ?thesis by (simp add: place_None)
next
  case (Some r)
  then obtain i zs where p: "place (need_nat q) q tag 0 bs = Some (i, zs)" by (cases r) auto
  from place_Some [OF p] obtain xs b ys where s: "bs = xs @ b # ys" "i = blens xs" "\<not> live b" "need_nat q \<le> length (body b)"
      "\<forall>c \<in> set xs. live c \<or> length (body c) < need_nat q" "zs = xs @ stamp q tag (trim (need_nat q) b) # leftover (need_nat q) b @ ys"
    by auto
  let ?t = "trim (need_nat q) b"
  have fits: "unat q + 8 \<le> length (body ?t)" by (rule fits_trim [OF s(4)])
  have ok: "arena_ok base n" "blens bs = n" using assms(1) by (simp_all add: blocks_ok_def)
  then have n: "n \<le> 2097152" by (simp add: arena_ok_def)
  have bl: "blens (xs @ stamp q tag ?t # leftover (need_nat q) b @ ys) = n"
    using ok(2) s(1) blens_split [of "need_nat q" b] blen_stamp [OF fits, of tag] by (simp add: blen_def)
  have z: "heap_fast_zero (base + of_nat (blens xs + 48)) (unat q) (conc base n zs) = Some (conc base n (xs @ cleared q tag ?t # leftover (need_nat q) b @ ys))"
    using heap_fast_zero_eq [OF bl n, of 0 "unat q" base] fits unfolding s(6) cleared_def by (simp add: blen_stamp)
  have "base + of_nat (blens xs + 48) \<noteq> 0" by (rule addr_nonzero(1) [OF ok(1)]) (use ok(2) s(1) in \<open>simp add: blen_def\<close>)
  then have "kmalloc_tagged q tag (conc base n bs) = Some (base + of_nat (blens xs + 48), conc base n (xs @ cleared q tag ?t # leftover (need_nat q) b @ ys))"
    using kmalloc_locked_eq [OF assms(1,3), of tag] p s(2) z assms(2,3) by (simp add: kmalloc_tagged_def not_less)
  then show ?thesis using s by blast
qed

lemma allocated:
  fixes tag :: u32
  assumes "blocks_ok base n (xs @ b # ys)" and "\<not> live b" and "need_nat q \<le> length (body b)"
  defines "zs \<equiv> xs @ cleared q tag (trim (need_nat q) b) # leftover (need_nat q) b @ ys"
  shows "blocks_ok base n zs" "compact (xs @ b # ys) \<Longrightarrow> compact zs"
    "hold zs = (hold (xs @ b # ys))(blens xs + 48 \<mapsto> (tag, replicate (unat q) 0))" "hold (xs @ b # ys) (blens xs + 48) = None"
proof -
  let ?t = "trim (need_nat q) b" and ?l = "leftover (need_nat q) b"
  let ?ms' = "cleared q tag ?t # ?l"
  have b: "blk_ok b" using assms(1) by (simp add: blocks_ok_def)
  note c = cleared_fields [OF fits_trim [OF assms(3)], of tag]
  have bl: "blens ?ms' = blens [b]" using c(4) blens_split [of "need_nat q" b] by (simp add: blen_def)
  have "\<forall>c \<in> set ?ms'. blk_ok c" using c(6) trim_dvd [OF b need_nat_bounds(2)] leftover_ok [OF b need_nat_bounds(2)] by auto
  then show "blocks_ok base n zs" using replace_ok [of base n xs "[b]" ys ?ms'] assms(1) bl by (simp add: zs_def)
  show "compact (xs @ b # ys) \<Longrightarrow> compact zs" unfolding zs_def by (rule compact_place) (use assms(2) c(1) in simp_all)
  show "hold zs = (hold (xs @ b # ys))(blens xs + 48 \<mapsto> (tag, replicate (unat q) 0))" "hold (xs @ b # ys) (blens xs + 48) = None"
    using hold_replace [of xs "[b]" None ?ms' "Some (tag, replicate (unat q) 0)" ys] bl c assms(2) by (simp_all add: zs_def contents_def)
qed

section \<open>Reallocation\<close>

definition resized :: "u64 \<Rightarrow> blk \<Rightarrow> blk" where
  "resized q b = (let d = put_at (unat q) (enc64 HEAP_REDZONE_BACK) (body b) in
     b\<lparr>req := q, body := if unat (req b) < unat q then put_at (unat (req b)) (replicate (unat q - unat (req b)) 0) d else d\<rparr>)"

lemma resized_fields:
  assumes "unat q + 8 \<le> length (body b)" and "unat (req b) \<le> length (body b)"
  shows "live (resized q b) = live b" "req (resized q b) = q" "ptag (resized q b) = ptag b" "front (resized q b) = front b" "length (body (resized q b)) = length (body b)"
    "take (unat q) (body (resized q b)) = take (unat q) (take (unat (req b)) (body b)) @ replicate (unat q - unat (req b)) 0"
    "take 8 (drop (unat q) (body (resized q b))) = enc64 HEAP_REDZONE_BACK"
proof -
  show "live (resized q b) = live b" "req (resized q b) = q" "ptag (resized q b) = ptag b" "front (resized q b) = front b" by (simp_all add: resized_def Let_def)
  show "length (body (resized q b)) = length (body b)" using assms by (simp add: resized_def Let_def)
  show "take (unat q) (body (resized q b)) = take (unat q) (take (unat (req b)) (body b)) @ replicate (unat q - unat (req b)) 0"
    using assms by (simp add: resized_def Let_def put_at_def min_def)
  show "take 8 (drop (unat q) (body (resized q b))) = enc64 HEAP_REDZONE_BACK"
    using assms slice_put_at [of "unat q" "enc64 HEAP_REDZONE_BACK" "body b"] by (simp add: resized_def Let_def drop_put_at)
qed

lemma req_write:
  assumes "blens (xs @ b # ys) = n" "n \<le> 2097152"
  shows "set_req_size (base + of_nat (blens xs)) q (conc base n (xs @ b # ys)) = Some (conc base n (xs @ b\<lparr>req := q\<rparr> # ys))"
proof -
  have "blens xs + 48 + length (body b) + blens ys \<le> 2097152" using assms by (simp add: blen_def)
  moreover have "(hdr_of base n (blens xs) b)\<lparr>h_req := q\<rparr> = hdr_of base n (blens xs) (b\<lparr>req := q\<rparr>)" "blen (b\<lparr>req := q\<rparr>) = blen b"
    by (simp_all add: hdr_of_def blen_def)
  ultimately show ?thesis by (simp add: conc_HS flat_append heap_eval)
qed

lemma st64_conc:
  assumes "blens (xs @ b # ys) = n" "n \<le> 2097152" and "q + 8 \<le> length (body b)"
  shows "st64 (base + of_nat (blens xs + 48 + q)) v (conc base n (xs @ b # ys)) = Some (conc base n (xs @ b\<lparr>body := put_at q (enc64 v) (body b)\<rparr> # ys))"
proof -
  have len: "length (flat base n 0 xs) + 48 + length (body b) + length (flat base n (blens xs + blen b) ys) < 2 ^ 63" using assms by (simp add: blen_def)
  show ?thesis
    using st64_body [OF refl len assms(3)] conc_body [of "put_at q (enc64 v) (body b)" b base n xs ys] conc_body [of "body b" b base n xs ys] assms(3) by simp
qed

lemma resize_in_place_eq:
  assumes "blens (xs @ b # ys) = n" "n \<le> 2097152" and "unat q + 8 \<le> length (body b)"
  shows "resize_in_place (base + of_nat (blens xs + 48)) (base + of_nat (blens xs)) (req b) q (conc base n (xs @ b # ys)) =
    Some (Done (base + of_nat (blens xs + 48)) (conc base n (xs @ resized q b # ys)))"
proof -
  let ?b1 = "b\<lparr>req := q\<rparr>" and ?d = "put_at (unat q) (enc64 HEAP_REDZONE_BACK) (body b)"
  let ?b2 = "?b1\<lparr>body := ?d\<rparr>"
  have b1: "blens (xs @ ?b1 # ys) = n" and b2: "blens (xs @ ?b2 # ys) = n" using assms by (simp_all add: blen_def)
  have rz: "heap_redzone_back (base + of_nat (blens xs)) (conc base n (xs @ ?b1 # ys)) = Some (base + of_nat (blens xs + 48 + unat q))"
    using block_reads(4) [OF b1 assms(2)] by (simp add: heap_redzone_back_def conc_HS HEADER_SIZE_def)
  have st: "st64 (base + of_nat (blens xs + 48 + unat q)) HEAP_REDZONE_BACK (conc base n (xs @ ?b1 # ys)) = Some (conc base n (xs @ ?b2 # ys))"
    using st64_conc [OF b1 assms(2), of "unat q"] assms(3) by simp
  have z: "heap_fast_zero (base + of_nat (blens xs + 48) + req b) (unat (q - req b)) (conc base n (xs @ ?b2 # ys)) =
      Some (conc base n (xs @ resized q b # ys))" if lt: "req b < q"
  proof -
    have u: "unat (req b) < unat q" "unat (q - req b) = unat q - unat (req b)" using lt by (simp_all add: word_less_nat_alt unat_sub order.strict_implies_order)
    have "?b2\<lparr>body := put_at (unat (req b)) (replicate (unat (q - req b)) 0) (body ?b2)\<rparr> = resized q b"
      using u by (simp add: resized_def Let_def)
    moreover have "base + of_nat (blens xs + 48) + req b = base + of_nat (blens xs + 48 + unat (req b))" by simp
    ultimately show ?thesis using heap_fast_zero_eq [OF b2 assms(2), of "unat (req b)" "unat (q - req b)" base] u assms(3) by (simp only:) simp
  qed
  have "?b2 = resized q b" if "\<not> req b < q" using that by (simp add: resized_def Let_def word_less_nat_alt)
  then show ?thesis
    using req_write [OF assms(1,2), of base q] rz st z by (cases "req b < q") (simp_all add: resize_in_place_def del: of_nat_add)
qed

text \<open>Growing into the next free block.\<close>

lemma realloc_grow_eq:
  assumes "arena_ok base n" and "blens (xs @ b # c # ys) = n" and "live b" "\<not> live c" and "need_nat q < 2 ^ 32"
  defines "j \<equiv> join base n (blens xs) b c"
  shows "realloc_grow (base + of_nat (blens xs + 48)) (base + of_nat (blens xs)) (of_nat (need_nat q)) q (conc base n (xs @ b # c # ys)) =
    Some (if need_nat q \<le> length (body j)
      then Some (Done (base + of_nat (blens xs + 48)) (conc base n (xs @ resized q (trim (need_nat q) j) # leftover (need_nat q) j @ ys))) else None)"
proof -
  let ?L = "xs @ b # c # ys" and ?k = "blens xs" and ?need = "need_nat q"
  have n: "n \<le> 2097152" using assms(1) by (simp add: arena_ok_def)
  have b2: "blens ((xs @ [b]) @ c # ys) = n" using assms(2) by simp
  note rb = block_reads [OF assms(2) n] and rc = block_reads [OF b2 n, unfolded append_assoc append_Cons append_Nil]
  have nz: "base + of_nat (blens (xs @ [b])) \<noteq> 0" by (rule addr_nonzero(1) [OF assms(1)]) (use assms(2) in simp)
  have bj: "length (body j) = length (body b) + 48 + length (body c)" by (simp add: j_def join_def)
  then have lj: "length (body j) < 2 ^ 32" using assms(2) n by (simp add: blen_def)
  have comb: "of_nat (length (body b)) + HEADER_SIZE + of_nat (length (body c)) = (of_nat (length (body b)) + (HEADER_SIZE + of_nat (length (body c))) :: u64)"
    by (simp add: add.assoc)
  have ge: "of_nat ?need \<le> (of_nat (length (body b)) + (HEADER_SIZE + of_nat (length (body c))) :: u64) \<longleftrightarrow> ?need \<le> length (body j)"
  proof -
    have "(of_nat (length (body b)) + (HEADER_SIZE + of_nat (length (body c))) :: u64) = of_nat (length (body j))" by (simp add: bj HEADER_SIZE_def)
    then show ?thesis using lj assms(5) by (simp add: word_le_nat_alt unat_of_nat_u64)
  qed
  show ?thesis
  proof (cases "?need \<le> length (body j)")
    case False
    then show ?thesis using assms(3,4) nz ge unfolding realloc_grow_def conc_HS
      by (simp add: rb rc comb del: blens_simps grans_simps live_bytes_simps flat.simps of_nat_add)
  next
    case True
    let ?l = "xs @ trim ?need j # leftover ?need j @ ys"
    have lt: "blens (xs @ [b]) < 2097152" using assms(2) n by (simp add: blen_def)
    have clr: "heap_bm_clear (base + of_nat (blens (xs @ [b]))) (HS base m t u (bm_of (grans 0 ?L)) p) = Some (HS base m t u (bm_of (grans 0 (xs @ j # ys))) p)" for m t u p
      using bm_HS(2) [OF refl lt] grans_join [of xs b c ys base n] by (simp add: j_def del: grans_simps)
    have bl: "blens (xs @ j # ys) = n" using assms(2) by (simp add: j_def)
    have bl2: "blens ?l = n" using bl blens_split [of ?need j] by simp
    have in_S: "?k div 16 \<in> grans 0 (xs @ j # ys)" by simp
    note sp = block_split_blocks [OF bl n True in_S]
    have S: "grans 0 (xs @ j # ys) \<union> grans ?k (trim ?need j # leftover ?need j) = grans 0 ?l"
      using blens_split [of ?need j] by (auto simp: add.assoc)
    have u: "of_nat (live_bytes ?L) - of_nat (length (body b)) + of_nat (length (body (trim ?need j))) = (of_nat (live_bytes ?l) :: u64)"
      using assms(3,4) by (simp add: j_def)
    have fits: "unat q + 8 \<le> length (body (trim ?need j))" by (rule fits_trim [OF True])
    have rq: "req b = req (trim ?need j)" by (simp add: j_def)
    note rl = block_reads [OF bl2 n, of base] and w = write_size_next [OF assms(2) n, of base, folded j_def]
    show ?thesis using assms(3,4) nz ge True unfolding realloc_grow_def conc_HS Let_def
      by (simp add: rb rc comb clr w sp S rl u [symmetric] del: blens_simps grans_simps live_bytes_simps flat.simps of_nat_add)
        (simp add: u resize_in_place_eq [OF bl2 n fits, folded rq] conc_HS [symmetric] del: blens_simps grans_simps live_bytes_simps flat.simps of_nat_add)
  qed
qed

text \<open>Copying from one block to another.\<close>

lemma off_conc: "k < 2 ^ 63 \<Longrightarrow> off (conc base n bs) (base + of_nat k) = k"
  using off_at [of k "conc base n bs"] by (simp add: conc_def)

lemma rd8_conc:
  assumes "blens (xs @ b # ys) = n" "n \<le> 2097152" and "i < length (body b)"
  shows "rd8 (arena (conc base n (xs @ b # ys))) (off (conc base n (xs @ b # ys)) (base + of_nat (blens xs + 48) + of_nat i)) = Some (body b ! i)"
proof -
  let ?h = "conc base n (xs @ b # ys)" and ?pre = "flat base n 0 xs @ enc_hdr (hdr_of base n (blens xs) b)"
  have "off ?h (base + of_nat (blens xs + 48) + of_nat i) = length ?pre + i"
    using off_conc [of "blens xs + 48 + i" base n "xs @ b # ys"] assms by (simp add: blen_def add.assoc)
  moreover have "arena ?h = ?pre @ body b @ flat base n (blens xs + blen b) ys" by (simp add: conc_def flat_append)
  ultimately show ?thesis using assms(3) by (simp add: rd8_append rd8_def nth_append)
qed

lemma store_conc:
  assumes "blens (xs @ b # ys) = n" "n \<le> 2097152" and "q + length v \<le> length (body b)"
  shows "store (base + of_nat (blens xs + 48 + q)) v (conc base n (xs @ b # ys)) = Some (conc base n (xs @ b\<lparr>body := put_at q v (body b)\<rparr> # ys))"
proof -
  have len: "length (flat base n 0 xs) + 48 + length (body b) + length (flat base n (blens xs + blen b) ys) < 2 ^ 63" using assms by (simp add: blen_def)
  show ?thesis
    using store_body [OF refl len assms(3)] conc_body [of "put_at q v (body b)" b base n xs ys] conc_body [of "body b" b base n xs ys] assms(3) by simp
qed

lemma put_at_take_Suc:
  assumes "i < length x" "i < length d"
  shows "put_at i [x ! i] (put_at 0 (take i x) d) = put_at 0 (take (Suc i) x) d"
  using assms by (simp add: put_at_def take_Suc_conv_app_nth)

lemma copy_loop:
  assumes "blens (xs @ c # ys) = n" "n \<le> 2097152" and "m \<le> length (body b)" "m \<le> length (body c)"
    and b: "\<And>d. length d = length (body c) \<Longrightarrow> \<exists>as bs. xs @ c\<lparr>body := d\<rparr> # ys = as @ b # bs \<and> blens as = k"
  shows "for_upto 0 m (copy_byte (base + of_nat (k + 48)) (base + of_nat (blens xs + 48))) (conc base n (xs @ c # ys)) =
    Some (conc base n (xs @ c\<lparr>body := put_at 0 (take m (body b)) (body c)\<rparr> # ys))"
proof -
  let ?f = "copy_byte (base + of_nat (k + 48)) (base + of_nat (blens xs + 48))"
  let ?s = "\<lambda>i. conc base n (xs @ c\<lparr>body := put_at 0 (take i (body b)) (body c)\<rparr> # ys)"
  have "\<exists>s'. for_upto 0 m ?f (conc base n (xs @ c # ys)) = Some s' \<and> s' = ?s m"
  proof (rule for_upto_inv)
    fix i t assume i: "i < m" and t: "t = ?s i"
    let ?d = "put_at 0 (take i (body b)) (body c)"
    have len: "length ?d = length (body c)" using i assms by (simp add: put_at_def)
    then obtain as bs where L: "xs @ c\<lparr>body := ?d\<rparr> # ys = as @ b # bs" "blens as = k" using b by blast
    have bl: "blens (xs @ c\<lparr>body := ?d\<rparr> # ys) = n" using assms(1) len by (simp add: blen_def)
    then have "blens (as @ b # bs) = n" using L(1) by simp
    then have r: "rd8 (arena (?s i)) (off (?s i) (base + of_nat (k + 48) + of_nat i)) = Some (body b ! i)"
      using rd8_conc [of as b bs n i base] assms(2,3) i L by simp
    have "store (base + of_nat (blens xs + 48 + i)) [body b ! i] (?s i) = Some (?s (Suc i))"
      using store_conc [OF bl assms(2), of i "[body b ! i]" base] put_at_take_Suc [of i "body b" "body c"] i assms(3,4) len by simp
    then show "\<exists>t'. ?f i t = Some t' \<and> t' = ?s (Suc i)" using r t by (simp add: copy_byte_def add.assoc)
  qed simp_all
  then show ?thesis by blast
qed

lemma two_blocks:
  assumes "as @ b # bs = xs @ f # ys" and "b \<noteq> f"
  shows "(\<exists>ms. as = xs @ f # ms \<and> ys = ms @ b # bs) \<or> (\<exists>ms. xs = as @ b # ms \<and> bs = ms @ f # ys)"
  using assms by (auto simp: append_eq_append_conv2 append_eq_Cons_conv Cons_eq_append_conv)

lemma still_there:
  assumes "as @ b # bs = xs @ f # ys" and "b \<noteq> f" and "blens ms = blen f"
  shows "\<exists>as' bs'. xs @ ms @ ys = as' @ b # bs' \<and> blens as' = blens as"
  using two_blocks [OF assms(1,2)]
proof (elim disjE exE conjE)
  fix zs assume "as = xs @ f # zs" "ys = zs @ b # bs"
  then show ?thesis using assms(3) by (intro exI [of _ "xs @ ms @ zs"] exI [of _ bs]) simp
next
  fix zs assume "xs = as @ b # zs" "bs = zs @ f # ys"
  then show ?thesis by (intro exI [of _ as] exI [of _ "zs @ ms @ ys"]) simp
qed

text \<open>Moving to a new block.\<close>

definition resize_bytes :: "nat \<Rightarrow> bytes \<Rightarrow> bytes" where
  "resize_bytes q c = take q c @ replicate (q - length c) 0"

lemma take_copied:
  fixes tag :: u32
  assumes "unat q + 8 \<le> length (body t)" "unat r \<le> length d"
  defines "c \<equiv> cleared q tag t"
  shows "take (unat q) (put_at 0 (take (min (unat r) (unat q)) d) (body c)) = resize_bytes (unat q) (take (unat r) d)"
    "drop (unat q) (put_at 0 (take (min (unat r) (unat q)) d) (body c)) = drop (unat q) (body c)"
proof -
  note f = cleared_fields [OF assms(1), of tag, folded c_def]
  let ?m = "min (unat r) (unat q)"
  have "take (unat q - ?m) (drop ?m (body c)) = drop ?m (take (unat q) (body c))" by (simp add: drop_take)
  also have "\<dots> = replicate (unat q - ?m) 0" unfolding f(5) by simp
  finally have z: "take (unat q - ?m) (drop ?m (body c)) = replicate (unat q - ?m) 0" .
  have l: "length (take ?m d) = ?m" using assms(2) by simp
  show "take (unat q) (put_at 0 (take ?m d) (body c)) = resize_bytes (unat q) (take (unat r) d)"
    unfolding put_at_def resize_bytes_def using l z assms(2) by (auto simp: min_def split: if_splits)
  show "drop (unat q) (put_at 0 (take ?m d) (body c)) = drop (unat q) (body c)"
    by (rule drop_put_at) (use l f(4) assms(1) in simp_all)
qed

definition copied :: "u64 \<Rightarrow> blk \<Rightarrow> blk \<Rightarrow> blk" where
  "copied q b c = c\<lparr>body := put_at 0 (take (min (unat (req b)) (unat q)) (body b)) (body c)\<rparr>"

lemma moved:
  fixes tag :: u32
  assumes "blocks_ok base n (xs @ f # ys)" and "\<not> live f" and "need_nat q \<le> length (body f)" and "unat (req b) \<le> length (body b)"
  defines "c \<equiv> copied q b (cleared q tag (trim (need_nat q) f))"
  shows "blens (c # leftover (need_nat q) f) = blen f" "blocks_ok base n (xs @ c # leftover (need_nat q) f @ ys)"
    "hold (xs @ c # leftover (need_nat q) f @ ys) = (hold (xs @ f # ys))(blens xs + 48 \<mapsto> (tag, resize_bytes (unat q) (take (unat (req b)) (body b))))"
    "hold (xs @ f # ys) (blens xs + 48) = None"
proof -
  let ?t = "trim (need_nat q) f" and ?l = "leftover (need_nat q) f"
  note fits = fits_trim [OF assms(3)]
  note k = cleared_fields [OF fits, of tag] and tc = take_copied [OF fits assms(4), of tag]
  have f: "blk_ok f" using assms(1) by (simp add: blocks_ok_def)
  have c: "live c" "req c = q" "length (body c) = length (body ?t)" "front c = front (cleared q tag ?t)" "ptag c = tag"
    using k fits assms(4) by (simp_all add: c_def copied_def)
  have "blk_ok (cleared q tag ?t)" using k(6) trim_dvd [OF f need_nat_bounds(2)] by blast
  then have okc: "blk_ok c" using tc(2) c k(1-4) by (auto simp: blk_ok_def c_def copied_def)
  show bl: "blens (c # ?l) = blen f" using c(3) blens_split [of "need_nat q" f] by (simp add: blen_def)
  then show "blocks_ok base n (xs @ c # ?l @ ys)"
    using replace_ok [of base n xs "[f]" ys "c # ?l"] assms(1) okc leftover_ok [OF f need_nat_bounds(2)] by simp
  have "take (unat q) (body c) = resize_bytes (unat q) (take (unat (req b)) (body b))" using tc(1) by (simp add: c_def copied_def)
  then show "hold (xs @ c # ?l @ ys) = (hold (xs @ f # ys))(blens xs + 48 \<mapsto> (tag, resize_bytes (unat q) (take (unat (req b)) (body b))))"
    "hold (xs @ f # ys) (blens xs + 48) = None"
    using hold_replace [of xs "[f]" None "c # ?l" "Some (tag, resize_bytes (unat q) (take (unat (req b)) (body b)))" ys] bl c assms(2) by (simp_all add: contents_def)
qed

lemma req_fits: "blk_ok b \<Longrightarrow> live b \<Longrightarrow> unat (req b) + 8 \<le> length (body b)"
  by (simp add: blk_ok_def)

text \<open>The old block is where it was, so its release finds it.\<close>

lemma realloc_move_found:
  assumes "blocks_ok base n (as @ b # bs)" and "live b" and "q \<noteq> 0" "q \<le> KMALLOC_MAX"
    and s: "as @ b # bs = xs @ f # ys" "\<not> live f" "need_nat q \<le> length (body f)"
    and p: "place (need_nat q) q (ptag b) 0 (as @ b # bs) = Some (blens xs, xs @ stamp q (ptag b) (trim (need_nat q) f) # leftover (need_nat q) f @ ys)"
  defines "c \<equiv> copied q b (cleared q (ptag b) (trim (need_nat q) f))"
  shows "\<exists>as' bs'. xs @ c # leftover (need_nat q) f @ ys = as' @ b # bs' \<and> blens as' = blens as \<and>
    realloc_move (base + of_nat (blens as + 48)) (base + of_nat (blens as)) q (conc base n (as @ b # bs)) =
      Some (Done (base + of_nat (blens xs + 48)) (conc base n (coalesced base n 0 (as' @ b\<lparr>live := False\<rparr> # bs'))))"
proof -
  let ?t = "trim (need_nat q) f" and ?l = "leftover (need_nat q) f" and ?p = "base + of_nat (blens as + 48)" and ?hb = "base + of_nat (blens as)"
  let ?c0 = "cleared q (ptag b) ?t" and ?s0 = "stamp q (ptag b) ?t" and ?m = "min (unat (req b)) (unat q)"
  have ok: "arena_ok base n" "blens (as @ b # bs) = n" "blk_ok b" using assms(1) by (simp_all add: blocks_ok_def)
  then have n: "n \<le> 2097152" by (simp add: arena_ok_def)
  have rb: "unat (req b) \<le> length (body b)" using req_fits [OF ok(3) assms(2)] by simp
  have ne: "b \<noteq> f" using assms(2) s(2) by blast
  note fits = fits_trim [OF s(3)]
  note k = cleared_fields [OF fits, of "ptag b"] and mv = moved(1-3) [OF assms(1) [unfolded s(1)] s(2,3) rb, where tag = "ptag b", folded c_def]
  have bl: "blens (xs @ ?s0 # ?l @ ys) = n" "blens (xs @ ?c0 # ?l @ ys) = n"
    using ok(2) unfolding s(1) using blens_split [of "need_nat q" f] blen_stamp [OF fits, of "ptag b"] k(4) by (simp_all add: blen_def)
  have still: "\<exists>as' bs'. xs @ d # ?l @ ys = as' @ b # bs' \<and> blens as' = blens as" if "length (body d) = length (body ?t)" for d
    using still_there [OF s(1) ne, of "d # ?l"] blens_split [of "need_nat q" f] that by (simp add: blen_def)
  have rq: "b_req_size ?hb (conc base n (xs @ ?s0 # ?l @ ys)) = Some (req b)"
  proof -
    obtain as' bs' where e: "xs @ ?s0 # ?l @ ys = as' @ b # bs'" "blens as' = blens as" using still [of ?s0] blen_stamp [OF fits, of "ptag b"] by auto
    then show ?thesis using block_reads(4) [of as' b bs' n] bl(1) n by (simp add: conc_HS)
  qed
  have z: "heap_fast_zero (base + of_nat (blens xs + 48)) (unat q) (conc base n (xs @ ?s0 # ?l @ ys)) = Some (conc base n (xs @ ?c0 # ?l @ ys))"
    using heap_fast_zero_eq [OF bl(1) n, of 0 "unat q" base] fits unfolding cleared_def by (simp add: blen_stamp)
  have cp: "for_upto 0 ?m (copy_byte ?p (base + of_nat (blens xs + 48))) (conc base n (xs @ ?c0 # ?l @ ys)) = Some (conc base n (xs @ c # ?l @ ys))"
    unfolding c_def copied_def by (rule copy_loop [OF bl(2) n]) (use still k(4) rb fits in auto)
  obtain as' bs' where e: "xs @ c # ?l @ ys = as' @ b # bs'" "blens as' = blens as" using still [of c] k(4) rb fits by (auto simp: c_def copied_def)
  have fr: "kfree_locked ?p None (conc base n (as' @ b # bs')) = Some (no_fault, conc base n (coalesced base n 0 (as' @ b\<lparr>live := False\<rparr> # bs')))"
    using kfree_locked_eq [of base n as' b bs' None] mv(2) e assms(2) by simp
  have tag: "b_tag ?hb (conc base n (as @ b # bs)) = Some (ptag b)" using block_reads(5) [OF ok(2) n] by (simp add: conc_HS)
  have nz: "base + of_nat (blens xs + 48) \<noteq> 0"
    by (rule addr_nonzero(1) [OF ok(1)]) (use ok(2) s(1) in \<open>simp add: blen_def\<close>)
  have mn: "unat (if req b < q then req b else q) = ?m" by (simp add: word_less_nat_alt min_def)
  have "realloc_move ?p ?hb q (conc base n (as @ b # bs)) = Some (Done (base + of_nat (blens xs + 48)) (conc base n (coalesced base n 0 (as' @ b\<lparr>live := False\<rparr> # bs'))))"
    using kmalloc_locked_eq [OF assms(1,4), of "ptag b"] p tag nz rq z cp fr e(1) mn
    by (simp add: realloc_move_def Let_def no_fault_def del: of_nat_add)
  then show ?thesis using e by blast
qed

lemma realloc_move_eq:
  assumes "blocks_ok base n (as @ b # bs)" and "live b" and "q \<noteq> 0" "q \<le> KMALLOC_MAX"
  defines "L \<equiv> as @ b # bs" and "old \<equiv> take (unat (req b)) (body b)"
  shows "(\<forall>f \<in> set L. live f \<or> length (body f) < need_nat q) \<and>
      realloc_move (base + of_nat (blens as + 48)) (base + of_nat (blens as)) q (conc base n L) = Some (Done 0 (conc base n L)) \<or>
    (\<exists>k zs. realloc_move (base + of_nat (blens as + 48)) (base + of_nat (blens as)) q (conc base n L) = Some (Done (base + of_nat (k + 48)) (conc base n zs)) \<and>
      blocks_ok base n zs \<and> compact zs \<and> k + 48 \<le> n \<and> hold L (k + 48) = None \<and>
      hold zs = (hold L)(k + 48 \<mapsto> (ptag b, resize_bytes (unat q) old), blens as + 48 := None))"
proof -
  let ?p = "base + of_nat (blens as + 48)" and ?hb = "base + of_nat (blens as)" and ?need = "need_nat q"
  have ok: "arena_ok base n" "blens L = n" "blk_ok b" "L \<noteq> []" using assms(1) by (simp_all add: blocks_ok_def L_def)
  then have n: "n \<le> 2097152" by (simp add: arena_ok_def)
  have tag: "b_tag ?hb (conc base n L) = Some (ptag b)" using block_reads(5) ok(2) n by (simp add: L_def conc_HS)
  have okL: "blocks_ok base n L" using assms(1) by (simp add: L_def)
  note al = kmalloc_locked_eq [OF okL assms(4), of "ptag b"]
  show ?thesis
  proof (cases "place ?need q (ptag b) 0 L")
    case None
    then have "realloc_move ?p ?hb q (conc base n L) = Some (Done 0 (conc base n L))" using al tag by (simp add: realloc_move_def)
    with None show ?thesis by (simp add: place_None)
  next
    case (Some r)
    then obtain i ws where p: "place ?need q (ptag b) 0 L = Some (i, ws)" by (cases r) auto
    from place_Some [OF p] obtain xs f ys where s: "L = xs @ f # ys" "i = blens xs" "\<not> live f" "?need \<le> length (body f)"
        "ws = xs @ stamp q (ptag b) (trim ?need f) # leftover ?need f @ ys"
      by auto
    let ?c = "copied q b (cleared q (ptag b) (trim ?need f))" and ?l = "leftover ?need f"
    have rb: "unat (req b) \<le> length (body b)" using req_fits [OF ok(3) assms(2)] by simp
    note mv = moved(1-3) [OF okL [unfolded s(1)] s(3,4) rb, where tag = "ptag b"] moved(4) [OF okL [unfolded s(1)] s(3,4) rb]
    obtain as' bs' where e: "xs @ ?c # ?l @ ys = as' @ b # bs'" "blens as' = blens as"
        "realloc_move ?p ?hb q (conc base n L) = Some (Done (base + of_nat (blens xs + 48)) (conc base n (coalesced base n 0 (as' @ b\<lparr>live := False\<rparr> # bs'))))"
      using realloc_move_found [OF assms(1-4) s(1) [unfolded L_def] s(3,4)] p s(2,5) unfolding L_def by auto
    let ?zs = "coalesced base n 0 (as' @ b\<lparr>live := False\<rparr> # bs')"
    have "blocks_ok base n ?zs" using blocks_ok_coalesced release_ok mv(2) e(1) by simp
    moreover have "hold ?zs = (hold L)(blens xs + 48 \<mapsto> (ptag b, resize_bytes (unat q) old), blens as + 48 := None)"
      using hold_release [OF assms(2), of as' bs'] mv(3) e(1,2) by (simp add: s(1) old_def)
    moreover have "blens xs + 48 \<le> n" using ok(2) s(1) by (simp add: blen_def)
    ultimately show ?thesis using e(3) mv(4) coalesced_compact s(1) by blast
  qed
qed

end
