(* ===== verification/Mm_Heap_Store.thy ===== *)
theory Mm_Heap_Store
  imports Mm_Heap_Ops
begin

text \<open>
  The heap as an object store: what each entry point does to the map of held regions. The client's view is an abstract store; the heap simulates it step by step, and what follows for every
  run is proved once in the locale \<open>simulation\<close>.
\<close>

section \<open>From blocks to the heap\<close>

lemma regions_conc: "blocks_ok base n bs \<Longrightarrow> regions (conc base n bs) p = hold bs (unat (p - base))"
  by (simp add: regions_def blocks_conc off_def) (simp add: conc_def)

lemma ptr_iff:
  assumes "j < 2 ^ 64"
  shows "unat (p - base) = j \<longleftrightarrow> p = base + (of_nat j :: u64)"
proof
  assume "unat (p - base) = j"
  then have "of_nat j = p - base" by auto
  then show "p = base + of_nat j" by simp
next
  assume "p = base + of_nat j"
  then show "unat (p - base) = j" using assms by (simp add: unat_of_nat_u64)
qed

lemma regions_upd2:
  assumes "blocks_ok base n bs" "blocks_ok base n zs" and "hold zs = (hold bs)(i := v, j := w)" and "i < 2 ^ 64" "j < 2 ^ 64"
  shows "regions (conc base n zs) = (regions (conc base n bs))(base + of_nat i := v, base + of_nat j := w)"
proof
  fix p show "regions (conc base n zs) p = ((regions (conc base n bs))(base + of_nat i := v, base + of_nat j := w)) p"
    using ptr_iff [OF assms(4), of p base] ptr_iff [OF assms(5), of p base] assms(1-3) by (simp add: regions_conc)
qed

lemma regions_upd:
  assumes "blocks_ok base n bs" "blocks_ok base n zs" and "hold zs = (hold bs)(j := v)" and "j < 2 ^ 64"
  shows "regions (conc base n zs) = (regions (conc base n bs))(base + of_nat j := v)"
  using regions_upd2 [OF assms(1,2) _ assms(4,4), of v v] assms(3) by simp

lemma regions_addr: "blocks_ok base n bs \<Longrightarrow> j < 2 ^ 64 \<Longrightarrow> regions (conc base n bs) (base + of_nat j) = hold bs j"
  by (simp add: regions_conc unat_of_nat_u64)

lemma regions_block:
  assumes "heap_ok h" and "regions h p = Some c"
  obtains base n xs b ys where "h = conc base n (xs @ b # ys)" "blocks_ok base n (xs @ b # ys)" "compact (xs @ b # ys)" "live b"
    "p = base + of_nat (blens xs + 48)" "c = contents b" "blocks h = xs @ b # ys"
proof -
  obtain base n bs where h: "h = conc base n bs" "blocks_ok base n bs" "compact bs" "blocks h = bs" using assms(1) by (rule heap_okE)
  then have "hold bs (unat (p - base)) = Some c" using assms(2) by (simp add: regions_conc)
  then obtain xs b ys where b: "bs = xs @ b # ys" "live b" "unat (p - base) = blens xs + 48" "c = contents b" by (rule hold_block)
  have "p = base + of_nat (unat (p - base))" by simp
  then have "p = base + of_nat (blens xs + 48)" using b(3) by simp
  then show thesis using that h b by blast
qed

text \<open>The arena stays where it is.\<close>

definition arena_of :: "heap \<Rightarrow> u64 \<times> nat" where "arena_of h = (heap_start_block h, length (arena h))"

lemma arena_of_conc: "blocks_ok base n bs \<Longrightarrow> arena_of (conc base n bs) = (base, n)"
  by (simp add: arena_of_def conc_def blocks_ok_def)

lemma blk_end: "blocks_ok base n (xs @ b # ys) \<Longrightarrow> blens xs + 48 + length (body b) \<le> n"
  by (simp add: blocks_ok_def blen_def)

lemma small_off: "blocks_ok base n bs \<Longrightarrow> k \<le> n \<Longrightarrow> k < 2 ^ 64"
  by (simp add: blocks_ok_def arena_ok_def)

section \<open>Release\<close>

lemma region_nonzero: "heap_ok h \<Longrightarrow> regions h p = Some c \<Longrightarrow> p \<noteq> 0"
proof (erule (1) regions_block)
  fix base n xs b ys assume "blocks_ok base n (xs @ b # ys)" "p = base + of_nat (blens xs + 48)"
  then show "p \<noteq> 0" using addr_nonzero(1) [of base n "blens xs + 48"] by (simp add: blocks_ok_def blen_def)
qed

lemma kfree_checked_held:
  assumes "heap_ok h" and "regions h p = Some (t, c)"
  shows "\<exists>h'. heap_ok h' \<and> arena_of h' = arena_of h \<and> regions h' = (regions h)(p := None) \<and> (\<forall>w. kfree_checked p w h =
    Some (if w = None \<or> w = Some t then Done () h'
      else BugCheck \<lparr>f_cls = HEAP_FAULT_TAG, f_ptr = p, f_got = ucast t, f_want = ucast (the w)\<rparr> (h\<lparr>s_heap_poisoned := True\<rparr>)))"
proof -
  obtain base n xs b ys where b: "h = conc base n (xs @ b # ys)" "blocks_ok base n (xs @ b # ys)" "live b" "p = base + of_nat (blens xs + 48)" "(t, c) = contents b"
    using assms(1,2) by (rule regions_block)
  let ?zs = "coalesced base n 0 (xs @ b\<lparr>live := False\<rparr> # ys)"
  have n: "blens (xs @ b # ys) = n" "n \<le> 2097152" using b(2) by (simp_all add: blocks_ok_def arena_ok_def)
  have ok: "blocks_ok base n ?zs" by (rule blocks_ok_coalesced [OF release_ok [OF b(2)]])
  have nz: "p \<noteq> 0" by (rule region_nonzero [OF assms(1,2)])
  have t: "ptag b = t" using b(5) by (simp add: contents_def)
  have "kfree_checked p w h = Some (Done () (conc base n ?zs))" if "w = None \<or> w = Some t" for w
    using kfree_locked_eq [OF b(2,3), of w] that t nz b(1,4) by (simp add: kfree_checked_def no_fault_def del: of_nat_add)
  moreover have "kfree_checked p w h = Some (BugCheck \<lparr>f_cls = HEAP_FAULT_TAG, f_ptr = p, f_got = ucast t, f_want = ucast (the w)\<rparr> (h\<lparr>s_heap_poisoned := True\<rparr>))"
    if "\<not> (w = None \<or> w = Some t)" for w
    using classify_block [OF b(2)] block_reads(5) [OF n] that t nz b(1,3,4)
    by (auto simp: kfree_checked_def kfree_locked_def conc_HS simp del: of_nat_add blens_simps)
  moreover have "heap_ok (conc base n ?zs)" using heap_ok_conc [OF ok] coalesced_compact by blast
  moreover have "regions (conc base n ?zs) = (regions h)(p := None)"
    unfolding b(1,4) by (rule regions_upd [OF b(2) ok]) (use hold_release [OF b(3)] small_off [OF b(2)] blk_end [OF b(2)] in simp_all)
  moreover have "arena_of (conc base n ?zs) = arena_of h" using arena_of_conc [OF ok] arena_of_conc [OF b(2)] b(1) by simp
  ultimately show ?thesis by (intro exI [of _ "conc base n ?zs"]) simp
qed

text \<open>The pointers that start a data area, held or free.\<close>

definition block_ptrs :: "heap \<Rightarrow> u64 list" where
  "block_ptrs h = map (\<lambda>k. heap_start_block h + of_nat (k + 48)) (offs 0 (blocks h))"

lemma offs_split: "k \<in> set (offs i bs) \<Longrightarrow> \<exists>xs b ys. bs = xs @ b # ys \<and> k = i + blens xs"
proof (induction bs arbitrary: i)
  case (Cons b bs)
  show ?case
  proof (cases "k = i")
    case True
    then show ?thesis by (intro exI [of _ "[]"] exI [of _ b] exI [of _ bs]) simp
  next
    case False
    then obtain xs c ys where "bs = xs @ c # ys" "k = i + blen b + blens xs" using Cons.IH [of "i + blen b"] Cons.prems by auto
    then show ?thesis by (intro exI [of _ "b # xs"]) auto
  qed
qed simp

lemma classify_heap:
  assumes "heap_ok h"
  shows "heap_classify p h =
    (if p \<notin> set (block_ptrs h) then Some (Corrupt (no_fault\<lparr>f_cls := if heap_owns p h \<and> p AND 15 \<noteq> 0 then HEAP_FAULT_MISALIGNED else HEAP_FAULT_WILD, f_ptr := p\<rparr>))
     else Some (if regions h p = None then AlreadyFree else Clean (p - HEADER_SIZE)))"
proof -
  obtain base n bs where h: "h = conc base n bs" "blocks_ok base n bs" "blocks h = bs" using assms by (rule heap_okE)
  show ?thesis
  proof (cases "p \<in> set (block_ptrs h)")
    case True
    then obtain k where "k \<in> set (offs 0 bs)" "p = base + of_nat (k + 48)" by (auto simp: block_ptrs_def h(3)) (simp add: h(1) conc_def)
    then obtain xs b ys where b: "bs = xs @ b # ys" "p = base + of_nat (blens xs + 48)" using offs_split [of k 0 bs] by auto
    have "regions h p = hold bs (blens xs + 48)"
      unfolding h(1) b(2) by (rule regions_addr [OF h(2)]) (use h(2) blk_end [of base n xs b ys] small_off [OF h(2)] b(1) in simp)
    also have "\<dots> = (if live b then Some (contents b) else None)"
      using hold_replace(2) [of xs "[b]" "if live b then Some (contents b) else None" "[b]" "if live b then Some (contents b) else None" ys] b(1) by simp
    finally have "regions h p = None \<longleftrightarrow> \<not> live b" by simp
    then show ?thesis using True classify_block [of base n xs b ys] h b by (simp add: ptr_sub del: of_nat_add)
  next
    case False
    then have "p \<noteq> base + of_nat (k + 48)" if "k \<in> set (offs 0 bs)" for k
      using that unfolding block_ptrs_def h(3) by (auto simp: h(1) conc_def)
    then show ?thesis using classify_other [OF h(2)] False unfolding h(1) by simp
  qed
qed

section \<open>Allocation\<close>

text \<open>The free blocks that can take a request.\<close>

definition fitting :: "heap \<Rightarrow> u64 \<Rightarrow> blk list" where
  "fitting h q = filter (\<lambda>b. \<not> live b \<and> need_nat q \<le> length (body b)) (blocks h)"

lemma kmalloc_tagged_heap:
  assumes "heap_ok h"
  shows "\<exists>p h'. kmalloc_tagged q tag h = Some (p, h') \<and> heap_ok h' \<and> arena_of h' = arena_of h \<and>
    (if q = 0 \<or> q > KMALLOC_MAX \<or> fitting h q = [] then p = 0 \<and> h' = h
     else p \<noteq> 0 \<and> 16 dvd unat p \<and> regions h p = None \<and> regions h' = (regions h)(p \<mapsto> (tag, replicate (unat q) 0)))"
proof -
  obtain base n bs where h: "h = conc base n bs" "blocks_ok base n bs" "compact bs" "blocks h = bs" using assms by (rule heap_okE)
  show ?thesis
  proof (cases "q = 0 \<or> q > KMALLOC_MAX")
    case True
    then have "kmalloc_tagged q tag h = Some (0, h)" by (auto simp: kmalloc_tagged_def)
    then show ?thesis using True assms by auto
  next
    case False
    then have q: "q \<noteq> 0" "q \<le> KMALLOC_MAX" by auto
    from kmalloc_tagged_eq [OF h(2) q, of tag] show ?thesis
    proof (elim disjE conjE exE)
      assume a: "\<forall>b \<in> set bs. live b \<or> length (body b) < need_nat q" and k: "kmalloc_tagged q tag (conc base n bs) = Some (0, conc base n bs)"
      have "fitting h q = []" using a by (auto simp: fitting_def h(4) filter_empty_conv)
      then show ?thesis using k assms h(1) by simp
    next
      fix xs b ys
      let ?c = "cleared q tag (trim (need_nat q) b)" and ?j = "blens xs + 48"
      let ?zs = "xs @ ?c # leftover (need_nat q) b @ ys"
      assume a: "bs = xs @ b # ys" "\<not> live b" "need_nat q \<le> length (body b)"
        and k: "kmalloc_tagged q tag (conc base n bs) = Some (base + of_nat ?j, conc base n ?zs)"
      have "fitting h q \<noteq> []" using a by (auto simp: fitting_def h(4) filter_empty_conv)
      moreover note l = allocated [OF h(2) [unfolded a(1)] a(2,3)]
      have ok: "arena_ok base n" "blens bs = n" "\<forall>c \<in> set xs. blk_ok c" using h(2) a(1) by (simp_all add: blocks_ok_def)
      have j: "?j \<le> n" using blk_end [OF h(2) [unfolded a(1)]] by simp
      have "16 dvd unat (base + of_nat ?j)" using addr_nonzero(2) [OF ok(1) j] blens_dvd [OF ok(3)] ok(1) by (simp add: arena_ok_def)
      moreover have "base + of_nat ?j \<noteq> 0" by (rule addr_nonzero(1) [OF ok(1) j])
      moreover have "regions h (base + of_nat ?j) = None"
        using regions_addr [OF h(2) small_off [OF h(2) j]] l(4) a(1) h(1) by simp
      moreover have "regions (conc base n ?zs) = (regions h)(base + of_nat ?j \<mapsto> (tag, replicate (unat q) 0))"
        unfolding h(1) by (rule regions_upd [OF h(2) l(1)]) (use l(3) a(1) small_off [OF h(2) j] in simp_all)
      moreover have "heap_ok (conc base n ?zs)" using heap_ok_conc [OF l(1)] l(2) h(3) a(1) by simp
      moreover have "arena_of (conc base n ?zs) = arena_of h" using arena_of_conc [OF l(1)] arena_of_conc [OF h(2)] h(1) by simp
      ultimately show ?thesis using k q h(1) by (simp add: not_less)
    qed
  qed
qed

lemma kmalloc_is_tagged: "kmalloc q h = kmalloc_tagged q 0 h" "kmalloc_zeroed q h = kmalloc_tagged q 0 h"
  by (simp_all add: kmalloc_def kmalloc_zeroed_def kmalloc_tagged_def)

section \<open>Reallocation\<close>

lemma trim_resized_ok:
  assumes "16 dvd length (body j)" "body j \<noteq> []" "live j" "front j = HEAP_REDZONE_FRONT" "need_nat q \<le> length (body j)" "unat (req j) \<le> need_nat q"
  defines "c \<equiv> resized q (trim (need_nat q) j)"
  shows "blk_ok c" "blens (c # leftover (need_nat q) j) = blen j" "live c"
    "contents c = (ptag j, resize_bytes (unat q) (take (unat (req j)) (body j)))"
proof -
  let ?t = "trim (need_nat q) j"
  have fits: "unat q + 8 \<le> length (body ?t)" by (rule fits_trim [OF assms(5)])
  have r: "unat (req ?t) \<le> length (body ?t)" using assms(6) trim_length [OF assms(5)] by simp
  note f = resized_fields [OF fits r, folded c_def]
  have d: "16 dvd length (body ?t)" using assms(1) need_nat_bounds(2) [of q] by (simp add: trim_def)
  then show "blk_ok c" using f fits assms(4) by (auto simp: blk_ok_def)
  show "blens (c # leftover (need_nat q) j) = blen j" using blens_split [of "need_nat q" j] f(5) by (simp add: blen_def)
  show "live c" using f assms(3) by simp
  have "take (unat (req j)) (body ?t) = take (unat (req j)) (body j)" by (rule take_trim [OF assms(6)])
  moreover have "unat (req j) \<le> length (body j)" using assms(5,6) by simp
  ultimately show "contents c = (ptag j, resize_bytes (unat q) (take (unat (req j)) (body j)))"
    using f(2,3,6) by (simp add: resize_bytes_def contents_def)
qed

lemma need_nat_less:
  assumes "q \<le> KMALLOC_MAX"
  shows "need_nat q < 2 ^ 32"
proof -
  have "unat q \<le> 268435456" using assms by (simp add: KMALLOC_MAX_def word_le_nat_alt)
  then show ?thesis using need_nat_bounds(3) [of q] by simp
qed

lemma conc_poison: "\<not> s_heap_poisoned (conc base n bs)"
  by (simp add: conc_def)

lemma krealloc_live:
  assumes "blocks_ok base n (as @ b # bs)" and "live b" and "q \<noteq> 0" "q \<le> KMALLOC_MAX"
  shows "krealloc (base + of_nat (blens as + 48)) q (conc base n (as @ b # bs)) =
    (if need_nat q \<le> length (body b) then resize_in_place (base + of_nat (blens as + 48)) (base + of_nat (blens as)) (req b) q (conc base n (as @ b # bs))
     else do {
       g \<leftarrow> realloc_grow (base + of_nat (blens as + 48)) (base + of_nat (blens as)) (of_nat (need_nat q)) q (conc base n (as @ b # bs));
       (case g of Some r \<Rightarrow> Some r | None \<Rightarrow> realloc_move (base + of_nat (blens as + 48)) (base + of_nat (blens as)) q (conc base n (as @ b # bs))) })"
proof -
  have ok: "arena_ok base n" "blens (as @ b # bs) = n" "n \<le> 2097152" using assms(1) by (simp_all add: blocks_ok_def arena_ok_def)
  have mx: "(KMALLOC_MAX < q) = False" using assms(4) by auto
  have lt: "need_nat q < 2 ^ 32" by (rule need_nat_less [OF assms(4)])
  have len: "length (body b) < 2 ^ 32" using ok(2,3) by (simp add: blen_def)
  have ge: "(of_nat (need_nat q) :: u64) \<le> of_nat (length (body b)) \<longleftrightarrow> need_nat q \<le> length (body b)"
    using len lt by (simp add: word_le_nat_alt unat_of_nat_u64)
  have nz: "base + of_nat (blens as + 48) \<noteq> 0" by (rule addr_nonzero(1) [OF ok(1)]) (use ok(2) in \<open>simp add: blen_def\<close>)
  show ?thesis
    using classify_block [OF assms(1)] assms(2-4) nz ge need_for_eq [OF assms(4)]
      block_reads [OF ok(2,3), of base "of_nat n" "of_nat (live_bytes (as @ b # bs))" "bm_of (grans 0 (as @ b # bs))" False, folded conc_HS]
    unfolding krealloc_def Let_def by (simp add: mx conc_poison del: of_nat_add blens_simps)
qed

lemma realloc_grow_none:
  assumes "blocks_ok base n (as @ b # bs)" and "bs = [] \<or> live (hd bs)"
  shows "realloc_grow p (base + of_nat (blens as)) need q (conc base n (as @ b # bs)) = Some None"
proof (cases bs)
  case Nil
  then show ?thesis using block_reads(2) [of as b bs n] assms(1) by (simp add: realloc_grow_def conc_HS blocks_ok_def arena_ok_def)
next
  case (Cons c cs)
  have ok: "arena_ok base n" "blens (as @ b # bs) = n" "n \<le> 2097152" using assms(1) by (simp_all add: blocks_ok_def arena_ok_def)
  then have bl: "blens ((as @ [b]) @ c # cs) = n" using Cons by simp
  have nz: "base + of_nat (blens (as @ [b])) \<noteq> 0" by (rule addr_nonzero(1) [OF ok(1)]) (use ok(2) in simp)
  show ?thesis
    using nz assms(2) Cons block_reads(2) [OF ok(2,3)] block_reads(6) [OF bl ok(3)] by (simp add: realloc_grow_def conc_HS del: blens_simps of_nat_add)
qed

text \<open>The blocks after a reallocation that succeeds in place: the block, or the block and the free one after it, are replaced.\<close>

lemma in_place:
  assumes "blocks_ok base n (as @ ms @ ys)" "compact (as @ ms @ ys)" and "ms = [b] \<and> c = resized q b \<and> ls = [] \<and> need_nat q \<le> length (body b) \<or>
      (\<exists>f. ms = [b, f] \<and> \<not> live f \<and> need_nat q \<le> length (body (join base n (blens as) b f)) \<and> length (body b) < need_nat q \<and>
        c = resized q (trim (need_nat q) (join base n (blens as) b f)) \<and> ls = leftover (need_nat q) (join base n (blens as) b f))"
    and "live b"
  shows "blocks_ok base n (as @ c # ls @ ys) \<and> compact (as @ c # ls @ ys) \<and>
    hold (as @ c # ls @ ys) = (hold (as @ ms @ ys))(blens as + 48 \<mapsto> (ptag b, resize_bytes (unat q) (take (unat (req b)) (body b))))"
proof -
  let ?old = "take (unat (req b)) (body b)"
  have b: "blk_ok b" "unat (req b) + 8 \<le> length (body b)" using assms(1,3,4) by (auto simp: blocks_ok_def dest: req_fits)
  have "blk_ok c \<and> (\<forall>l \<in> set ls. blk_ok l) \<and> blens (c # ls) = blens ms \<and> live c \<and> contents c = (ptag b, resize_bytes (unat q) ?old) \<and>
      compact (as @ c # ls @ ys) \<and> cells (blens as) ms = [(blens as + 48, contents b)] \<and> cells (blens as + blen c) ls = []"
    using assms(3)
  proof (elim disjE exE conjE)
    assume s: "ms = [b]" "c = resized q b" "ls = []" "need_nat q \<le> length (body b)"
    have fits: "unat q + 8 \<le> length (body b)" using need_nat_bounds(1) [of q] s(4) by simp
    note f = resized_fields [OF fits, folded s(2)]
    have "blk_ok c" using f b fits assms(4) by (auto simp: blk_ok_def)
    then show ?thesis using f b assms(2,4) s(1,3) by (auto simp: blen_def resize_bytes_def compact_append compact_Cons contents_def)
  next
    fix f let ?j = "join base n (blens as) b f"
    assume s: "ms = [b, f]" "\<not> live f" "need_nat q \<le> length (body ?j)" "length (body b) < need_nat q" "c = resized q (trim (need_nat q) ?j)" "ls = leftover (need_nat q) ?j"
    have f: "blk_ok f" using assms(1) s(1) by (simp add: blocks_ok_def)
    have j: "16 dvd length (body ?j)" "body ?j \<noteq> []" "live ?j" "front ?j = HEAP_REDZONE_FRONT" "unat (req ?j) \<le> need_nat q"
      using b f s(4) assms(4) by (auto simp: blk_ok_def join_def intro!: dvd_add)
    note t = trim_resized_ok [OF j(1-4) s(3) j(5), folded s(5)]
    have lo: "\<forall>l \<in> set ls. blk_ok l" using j(1) need_nat_bounds(2) [of q] unfolding s(6) by (auto simp: leftover_def blk_ok_def blk_of_def split: if_splits)
    have tk: "take (unat (req ?j)) (body ?j) = ?old" using b(2) by (simp add: join_def)
    have "compact (as @ c # ls @ ys)" using assms(2,4) s(1,2) t(3) leftover_cases [of "need_nat q" ?j] s(6) by (auto simp: compact_append compact_Cons)
    then show ?thesis using t lo tk s(1,2,6) assms(4) by simp
  qed
  moreover have "ms \<noteq> []" using assms(3) by auto
  ultimately show ?thesis
    using replace_ok [OF assms(1), of "c # ls"] hold_replace(1) [of as ms "Some (contents b)" "c # ls" "Some (ptag b, resize_bytes (unat q) ?old)" ys] by auto
qed

definition resize_result :: "heap \<Rightarrow> u64 \<Rightarrow> u64 \<Rightarrow> region \<Rightarrow> u64 \<Rightarrow> heap \<Rightarrow> bool" where
  "resize_result h p q c r h' \<longleftrightarrow> heap_ok h' \<and> arena_of h' = arena_of h \<and>
     (r = 0 \<and> h' = h \<and> (q > KMALLOC_MAX \<or> fitting h q = []) \<or>
      r \<noteq> 0 \<and> (r = p \<or> regions h r = None) \<and> regions h' = (regions h)(p := None, r \<mapsto> (fst c, resize_bytes (unat q) (snd c))))"

lemma in_place_heap:
  assumes "blocks_ok base n (as @ ms @ ys)" "compact (as @ ms @ ys)" and "blocks_ok base n zs \<and> compact zs \<and>
      hold zs = (hold (as @ ms @ ys))(blens as + 48 \<mapsto> d)" and "ms \<noteq> []" "d = (fst c, resize_bytes (unat q) (snd c))" "p = base + of_nat (blens as + 48)"
  shows "resize_result (conc base n (as @ ms @ ys)) p q c p (conc base n zs)"
proof -
  have j: "blens as + 48 \<le> n" using assms(1,4) by (cases ms) (simp_all add: blocks_ok_def blen_def)
  have "regions (conc base n zs) = (regions (conc base n (as @ ms @ ys)))(p \<mapsto> d)"
    unfolding assms(6) by (rule regions_upd [OF assms(1)]) (use assms(3) small_off [OF assms(1) j] in auto)
  moreover have "heap_ok (conc base n zs)" using heap_ok_conc [of base n zs] assms(3) by blast
  moreover have "p \<noteq> 0" unfolding assms(6) by (rule addr_nonzero(1) [OF _ j]) (use assms(1) in \<open>simp add: blocks_ok_def\<close>)
  moreover have "arena_of (conc base n zs) = arena_of (conc base n (as @ ms @ ys))" using arena_of_conc [of base n zs] arena_of_conc [OF assms(1)] assms(3) by simp
  ultimately show ?thesis using assms(5) by (simp add: resize_result_def)
qed

lemma krealloc_heap:
  assumes "heap_ok h" and "regions h p = Some c" and "q \<noteq> 0"
  shows "\<exists>r h'. krealloc p q h = Some (Done r h') \<and> resize_result h p q c r h'"
proof (cases "q > KMALLOC_MAX")
  case True
  then show ?thesis using assms region_nonzero [OF assms(1,2)] by (simp add: krealloc_def resize_result_def)
next
  case False
  then have mx: "q \<le> KMALLOC_MAX" by simp
  obtain base n as b bs where b: "h = conc base n (as @ b # bs)" "blocks_ok base n (as @ b # bs)" "compact (as @ b # bs)" "live b"
      "p = base + of_nat (blens as + 48)" "c = contents b" "blocks h = as @ b # bs"
    using assms(1,2) by (rule regions_block)
  let ?d = "(fst c, resize_bytes (unat q) (snd c))"
  have fc: "ptag b = fst c" "take (unat (req b)) (body b) = snd c" using b(6) by (simp_all add: contents_def)
  have ok: "arena_ok base n" "blens (as @ b # bs) = n" "n \<le> 2097152" using b(2) by (simp_all add: blocks_ok_def arena_ok_def)
  note kr = krealloc_live [OF b(2,4) assms(3) mx, folded b(1,5)]
  have move: ?thesis if "krealloc p q h = realloc_move p (base + of_nat (blens as)) q h"
    using realloc_move_eq [OF b(2,4) assms(3) mx, folded b(1,5), unfolded fc]
  proof (elim disjE conjE exE)
    assume a: "\<forall>f \<in> set (as @ b # bs). live f \<or> length (body f) < need_nat q" "realloc_move p (base + of_nat (blens as)) q h = Some (Done 0 h)"
    have "fitting h q = []" using a(1) unfolding fitting_def b(7) by (auto simp: filter_empty_conv)
    then show ?thesis using that a(2) assms(1) by (simp add: resize_result_def)
  next
    fix k zs assume a: "realloc_move p (base + of_nat (blens as)) q h = Some (Done (base + of_nat (k + 48)) (conc base n zs))" "blocks_ok base n zs" "compact zs"
      "k + 48 \<le> n" "hold (as @ b # bs) (k + 48) = None" "hold zs = (hold (as @ b # bs))(k + 48 \<mapsto> ?d, blens as + 48 := None)"
    have lt: "blens as + 48 < 2 ^ 64" "k + 48 < 2 ^ 64" using small_off [OF b(2)] blk_end [OF b(2)] a(4) by simp_all
    have "hold (as @ b # bs) (blens as + 48) = Some c" using assms(2) regions_addr [OF b(2) lt(1)] b(1,5) by simp
    then have ne: "k + 48 \<noteq> blens as + 48" using a(5) by auto
    then have np: "p \<noteq> base + of_nat (k + 48)" using ptr_iff [OF lt(2), of p base] ptr_iff [OF lt(1), of p base] b(5) by auto
    have "regions h (base + of_nat (k + 48)) = None" using regions_addr [OF b(2) small_off [OF b(2) a(4)]] a(5) b(1) by simp
    moreover have "base + of_nat (k + 48) \<noteq> 0" by (rule addr_nonzero(1) [OF ok(1) a(4)])
    moreover have "regions (conc base n zs) = (regions h)(p := None, base + of_nat (k + 48) \<mapsto> ?d)"
      using regions_upd2 [OF b(2) a(2,6) lt(2,1)] np b(1,5) by (subst fun_upd_twist) simp_all
    moreover have "heap_ok (conc base n zs)" using heap_ok_conc [OF a(2)] a(3) by blast
    moreover have "arena_of (conc base n zs) = arena_of h" using arena_of_conc [OF a(2)] arena_of_conc [OF b(2)] b(1) by simp
    ultimately show ?thesis using that a(1) by (simp add: resize_result_def del: of_nat_add)
  qed
  show ?thesis
  proof (cases "need_nat q \<le> length (body b)")
    case True
    have fits: "unat q + 8 \<le> length (body b)" using need_nat_bounds(1) [of q] True by simp
    have "krealloc p q h = Some (Done p (conc base n (as @ resized q b # bs)))" using kr True resize_in_place_eq [OF ok(2,3) fits, of base, folded b(1,5)] by simp
    moreover have "resize_result h p q c p (conc base n (as @ resized q b # bs))"
      using in_place_heap [of base n as "[b]" bs "as @ resized q b # bs" ?d c q p] in_place [of base n as "[b]" bs b "resized q b" q "[]"] True b fc by simp
    ultimately show ?thesis by blast
  next
    case small: False
    show ?thesis
    proof (cases "bs = [] \<or> live (hd bs)")
      case True
      show ?thesis by (rule move) (use kr small realloc_grow_none [OF b(2) True] b(1,5) in simp)
    next
      case False
      then obtain f ys where f: "bs = f # ys" "\<not> live f" by (cases bs) auto
      let ?j = "join base n (blens as) b f"
      let ?zs = "as @ resized q (trim (need_nat q) ?j) # leftover (need_nat q) ?j @ ys"
      note g = realloc_grow_eq [OF ok(1) ok(2) [unfolded f(1)] b(4) f(2) need_nat_less [OF mx], folded f(1), folded b(1,5)]
      show ?thesis
      proof (cases "need_nat q \<le> length (body ?j)")
        case True
        have "krealloc p q h = Some (Done p (conc base n ?zs))" using kr small g True by simp
        moreover have "resize_result h p q c p (conc base n ?zs)"
          using in_place_heap [of base n as "[b, f]" ys ?zs ?d c q p]
            in_place [of base n as "[b, f]" ys b "resized q (trim (need_nat q) ?j)" q "leftover (need_nat q) ?j"] True small f b fc by simp
        ultimately show ?thesis by blast
      next
        case False
        show ?thesis by (rule move) (use kr small g False in simp)
      qed
    qed
  qed
qed

section \<open>The client's own stores\<close>

lemma put_at_single: "i < length d \<Longrightarrow> put_at i [v] d = d[i := v]"
  by (simp add: put_at_def upd_conv_take_nth_drop)

lemma store_held:
  assumes "heap_ok h" and "regions h p = Some (t, c)" and "i < length c"
  shows "\<exists>h'. store (p + of_nat i) [v] h = Some h' \<and> heap_ok h' \<and> arena_of h' = arena_of h \<and> regions h' = (regions h)(p \<mapsto> (t, c[i := v]))"
proof -
  obtain base n xs b ys where b: "h = conc base n (xs @ b # ys)" "blocks_ok base n (xs @ b # ys)" "compact (xs @ b # ys)" "live b"
      "p = base + of_nat (blens xs + 48)" "(t, c) = contents b"
    using assms(1,2) by (rule regions_block)
  have c: "t = ptag b" "c = take (unat (req b)) (body b)" using b(6) by (simp_all add: contents_def)
  let ?b = "b\<lparr>body := (body b)[i := v]\<rparr>"
  have n: "blens (xs @ b # ys) = n" "n \<le> 2097152" using b(2) by (simp_all add: blocks_ok_def arena_ok_def)
  have i: "i < unat (req b)" "i < length (body b)" using assms(3) c(2) by simp_all
  have st: "store (p + of_nat i) [v] h = Some (conc base n (xs @ ?b # ys))"
    using store_conc [OF n, of i "[v]" base] i b(1,5) by (simp add: put_at_single add.assoc)
  have "take 8 (drop (unat (req b)) ((body b)[i := v])) = take 8 (drop (unat (req b)) (body b))" using i(1) by simp
  moreover have "blk_ok b" using b(2) by (simp add: blocks_ok_def)
  ultimately have "blk_ok ?b" by (simp add: blk_ok_def)
  then have ok: "blocks_ok base n (xs @ ?b # ys)" using replace_ok [of base n xs "[b]" ys "[?b]"] b(2) by (simp add: blen_def)
  moreover have "compact (xs @ ?b # ys)" using b(3,4) by (auto simp: compact_append compact_Cons)
  ultimately have "heap_ok (conc base n (xs @ ?b # ys))" using heap_ok_conc by blast
  moreover have "hold (xs @ ?b # ys) = (hold (xs @ b # ys))(blens xs + 48 \<mapsto> (t, c[i := v]))"
    using hold_replace(1) [of xs "[b]" "Some (t, c)" "[?b]" "Some (t, c[i := v])" ys] b(4,6) c by (simp add: blen_def take_update_swap contents_def)
  then have "regions (conc base n (xs @ ?b # ys)) = (regions h)(p \<mapsto> (t, c[i := v]))"
    unfolding b(1,5) by (rule regions_upd [OF b(2) ok]) (use small_off [OF b(2)] blk_end [OF b(2)] in simp)
  moreover have "arena_of (conc base n (xs @ ?b # ys)) = arena_of h" using arena_of_conc [OF ok] arena_of_conc [OF b(2)] b(1) by simp
  ultimately show ?thesis using st by blast
qed

section \<open>Separation\<close>

lemma region_bounds:
  assumes "heap_ok h" and "regions h p = Some (t, c)"
  shows "16 dvd unat p" "unat (heap_start_block h) + 48 \<le> unat p" "unat p + length c + 8 \<le> unat (heap_start_block h) + length (arena h)"
proof -
  obtain base n xs b ys where b: "h = conc base n (xs @ b # ys)" "blocks_ok base n (xs @ b # ys)" "live b" "p = base + of_nat (blens xs + 48)"
      "(t, c) = contents b"
    using assms(1,2) by (rule regions_block)
  have ok: "arena_ok base n" "blk_ok b" "\<forall>c \<in> set xs. blk_ok c" "blens (xs @ b # ys) = n" using b(2) by (simp_all add: blocks_ok_def)
  have e: "blens xs + 48 \<le> n" "blens xs + 48 + length (body b) \<le> n" using blk_end [OF b(2)] by simp_all
  have u: "unat p = unat base + (blens xs + 48)" unfolding b(4) by (rule addr_nonzero(2) [OF ok(1) e(1)])
  have a: "heap_start_block h = base" "length (arena h) = n" using ok(4) by (simp_all add: b(1) conc_def)
  show "16 dvd unat p" using u blens_dvd [OF ok(3)] ok(1) by (simp add: arena_ok_def)
  show "unat (heap_start_block h) + 48 \<le> unat p" using u a by simp
  show "unat p + length c + 8 \<le> unat (heap_start_block h) + length (arena h)" using u a e req_fits [OF ok(2) b(3)] b(5) by (simp add: contents_def)
qed

lemma regions_apart:
  assumes "heap_ok h" and "regions h p = Some (t, c)" "regions h q = Some (t', d)" and "p \<noteq> q"
  shows "unat p + length c + 56 \<le> unat q \<or> unat q + length d + 56 \<le> unat p"
proof -
  obtain base n xs b ys where b: "h = conc base n (xs @ b # ys)" "blocks_ok base n (xs @ b # ys)" "live b" "p = base + of_nat (blens xs + 48)"
      "(t, c) = contents b" "blocks h = xs @ b # ys"
    using assms(1,2) by (rule regions_block)
  obtain base' n' as a bs where a: "h = conc base' n' (as @ a # bs)" "blocks_ok base' n' (as @ a # bs)" "live a" "q = base' + of_nat (blens as + 48)"
      "(t', d) = contents a" "blocks h = as @ a # bs"
    using assms(1,3) by (rule regions_block)
  have eq: "base' = base" "n' = n" using a(1) b(1) a(2) b(2) by (simp_all add: conc_def blocks_ok_def) (metis a(6) b(6) blens_simps(2,3))
  have ok: "arena_ok base n" "blk_ok b" "blk_ok a" using b(2) a(2) eq by (simp_all add: blocks_ok_def)
  have u: "unat p = unat base + (blens xs + 48)" "unat q = unat base + (blens as + 48)"
    unfolding b(4) a(4) eq using addr_nonzero(2) [OF ok(1), of "blens xs + 48"] addr_nonzero(2) [OF ok(1), of "blens as + 48"] blk_end [OF b(2)] blk_end [OF a(2)] eq by simp_all
  have l: "length c + 8 \<le> length (body b)" "length d + 8 \<le> length (body a)" using req_fits [OF ok(2) b(3)] req_fits [OF ok(3) a(3)] b(5) a(5) by (simp_all add: contents_def)
  have "xs @ b # ys = as @ a # bs" "blens xs \<noteq> blens as" using a(6) b(6) assms(4) b(4) a(4) eq by auto
  then have "blens xs + blen b \<le> blens as \<or> blens as + blen a \<le> blens xs"
    by (auto simp: append_eq_append_conv2 append_eq_Cons_conv Cons_eq_append_conv)
  then show ?thesis using u l by (auto simp: blen_def)
qed

section \<open>Simulation\<close>

text \<open>The runs of a client that only makes enabled calls, and the runs of a specification.\<close>

inductive runs :: "('o \<Rightarrow> 's \<Rightarrow> ('r \<times> 's) option) \<Rightarrow> ('o \<Rightarrow> 's \<Rightarrow> bool) \<Rightarrow> 's \<Rightarrow> 's \<Rightarrow> bool" for run1 en s where
  runs_refl: "runs run1 en s s"
| runs_step: "runs run1 en s t \<Longrightarrow> en a t \<Longrightarrow> run1 a t = Some (r, u) \<Longrightarrow> runs run1 en s u"

inductive spec_runs :: "('o \<Rightarrow> 'a \<Rightarrow> 'r \<Rightarrow> 'a \<Rightarrow> bool) \<Rightarrow> 'a \<Rightarrow> 'a \<Rightarrow> bool" for spec x where
  spec_refl: "spec_runs spec x x"
| spec_step: "spec_runs spec x y \<Longrightarrow> spec a y r z \<Longrightarrow> spec_runs spec x z"

locale simulation =
  fixes inv :: "'s \<Rightarrow> bool" and view :: "'s \<Rightarrow> 'a" and enabled :: "'o \<Rightarrow> 'a \<Rightarrow> bool"
    and run1 :: "'o \<Rightarrow> 's \<Rightarrow> ('r \<times> 's) option" and spec :: "'o \<Rightarrow> 'a \<Rightarrow> 'r \<Rightarrow> 'a \<Rightarrow> bool"
  assumes sim: "inv s \<Longrightarrow> enabled a (view s) \<Longrightarrow> \<exists>r t. run1 a s = Some (r, t) \<and> inv t \<and> spec a (view s) r (view t)"
begin

text \<open>The invariant holds at every reachable state, every enabled call returns there, and every run is a run of the specification.\<close>

lemma runs_inv: "runs run1 (\<lambda>a s. enabled a (view s)) s t \<Longrightarrow> inv s \<Longrightarrow> inv t"
proof (induction rule: runs.induct)
  case (runs_step t a r u)
  then show ?case using sim [of t a] by auto
qed

lemma runs_refine: "runs run1 (\<lambda>a s. enabled a (view s)) s t \<Longrightarrow> inv s \<Longrightarrow> spec_runs spec (view s) (view t)"
proof (induction rule: runs.induct)
  case (runs_step t a r u)
  then have "inv t" using runs_inv by blast
  then show ?case using runs_step sim [of t a] spec_step by fastforce
qed (rule spec_refl)

lemma runs_progress:
  "runs run1 (\<lambda>a s. enabled a (view s)) s t \<Longrightarrow> inv s \<Longrightarrow> enabled a (view t) \<Longrightarrow> \<exists>r u. run1 a t = Some (r, u) \<and> spec a (view t) r (view u)"
  using runs_inv sim by blast

end

text \<open>The calls of a client of the heap, and the store they act on.\<close>

datatype heap_request = Alloc u64 u32 | Free u64 | FreeTagged u64 u32 | Resize u64 u64 | Put u64 nat u8

fun returned :: "'a outcome option \<Rightarrow> ('a \<times> heap) option" where
  "returned (Some (Done r h)) = Some (r, h)"
| "returned _ = None"

fun heap_call :: "heap_request \<Rightarrow> heap \<Rightarrow> (u64 \<times> heap) option" where
  "heap_call (Alloc q tag) h = kmalloc_tagged q tag h"
| "heap_call (Free p) h = map_option (\<lambda>(_, h). (0, h)) (returned (kfree p h))"
| "heap_call (FreeTagged p t) h = map_option (\<lambda>(_, h). (0, h)) (returned (kfree_tagged p t h))"
| "heap_call (Resize p q) h = returned (krealloc p q h)"
| "heap_call (Put p i v) h = map_option (\<lambda>h. (0, h)) (store (p + of_nat i) [v] h)"

text \<open>A call is made correctly when its pointer is held (or null), its tag is the block's, and a store stays inside the region.\<close>

fun can_call :: "heap_request \<Rightarrow> (u64 \<Rightarrow> region option) \<Rightarrow> bool" where
  "can_call (Alloc q tag) M \<longleftrightarrow> True"
| "can_call (Free p) M \<longleftrightarrow> p = 0 \<or> M p \<noteq> None"
| "can_call (FreeTagged p t) M \<longleftrightarrow> p = 0 \<or> map_option fst (M p) = Some t"
| "can_call (Resize p q) M \<longleftrightarrow> p = 0 \<or> M p \<noteq> None"
| "can_call (Put p i v) M \<longleftrightarrow> (case M p of None \<Rightarrow> False | Some (t, c) \<Rightarrow> i < length c)"

definition alloc_step :: "u64 \<Rightarrow> u32 \<Rightarrow> (u64 \<Rightarrow> region option) \<Rightarrow> u64 \<Rightarrow> (u64 \<Rightarrow> region option) \<Rightarrow> bool" where
  "alloc_step q tag M r M' \<longleftrightarrow> r = 0 \<and> M' = M \<or> r \<noteq> 0 \<and> 16 dvd unat r \<and> q \<noteq> 0 \<and> M r = None \<and> M' = M(r \<mapsto> (tag, replicate (unat q) 0))"

fun store_spec :: "heap_request \<Rightarrow> (u64 \<Rightarrow> region option) \<Rightarrow> u64 \<Rightarrow> (u64 \<Rightarrow> region option) \<Rightarrow> bool" where
  "store_spec (Alloc q tag) M r M' \<longleftrightarrow> alloc_step q tag M r M'"
| "store_spec (Free p) M r M' \<longleftrightarrow> r = 0 \<and> M' = M(p := None)"
| "store_spec (FreeTagged p t) M r M' \<longleftrightarrow> r = 0 \<and> M' = M(p := None)"
| "store_spec (Resize p q) M r M' \<longleftrightarrow>
     (case M p of
        None \<Rightarrow> alloc_step q 0 M r M'
      | Some (t, c) \<Rightarrow>
          if q = 0 then r = 0 \<and> M' = M(p := None)
          else r = 0 \<and> M' = M \<or> r \<noteq> 0 \<and> (r = p \<or> M r = None) \<and> M' = M(p := None, r \<mapsto> (t, resize_bytes (unat q) c)))"
| "store_spec (Put p i v) M r M' \<longleftrightarrow> r = 0 \<and> M' = M(p := map_option (\<lambda>(t, c). (t, c[i := v])) (M p))"

lemma region_null: "heap_ok h \<Longrightarrow> regions h 0 = None"
  using region_nonzero [of h 0] by (cases "regions h 0") auto

lemma kfree_null: "kfree_checked 0 w h = Some (Done () h)"
  by (simp add: kfree_checked_def)

lemma alloc_call:
  assumes "heap_ok h"
  shows "\<exists>r h'. kmalloc_tagged q tag h = Some (r, h') \<and> heap_ok h' \<and> arena_of h' = arena_of h \<and> alloc_step q tag (regions h) r (regions h')"
  using kmalloc_tagged_heap [OF assms, of q tag] unfolding alloc_step_def by (metis (full_types))

lemma free_call:
  assumes "heap_ok h" and "p = 0 \<or> (\<exists>t c. regions h p = Some (t, c) \<and> (w = None \<or> w = Some t))"
  shows "\<exists>h'. kfree_checked p w h = Some (Done () h') \<and> heap_ok h' \<and> arena_of h' = arena_of h \<and> regions h' = (regions h)(p := None)"
proof (cases "p = 0")
  case True
  then show ?thesis using assms(1) region_null [OF assms(1)] by (simp add: kfree_null fun_upd_idem)
next
  case False
  then obtain t c where c: "regions h p = Some (t, c)" "w = None \<or> w = Some t" using assms(2) by blast
  then show ?thesis using kfree_checked_held [OF assms(1) c(1)] by auto
qed

lemma resize_call:
  assumes "heap_ok h" and "p = 0 \<or> regions h p \<noteq> None"
  shows "\<exists>r h'. krealloc p q h = Some (Done r h') \<and> heap_ok h' \<and> arena_of h' = arena_of h \<and> store_spec (Resize p q) (regions h) r (regions h')"
proof (cases "regions h p")
  case None
  then have "p = 0" using assms(2) by simp
  then show ?thesis using alloc_call [OF assms(1), of q 0] None by (auto simp: krealloc_def kmalloc_is_tagged)
next
  case (Some x)
  then obtain t c where c: "regions h p = Some (t, c)" by (cases x) auto
  show ?thesis
  proof (cases "q = 0")
    case True
    obtain h' where "kfree_checked p None h = Some (Done () h')" "heap_ok h'" "arena_of h' = arena_of h" "regions h' = (regions h)(p := None)"
      using free_call [of h p None] assms(1) c by blast
    then show ?thesis using True c region_nonzero [OF assms(1) c] by (simp add: krealloc_def kfree_def)
  next
    case False
    then obtain r h' where "krealloc p q h = Some (Done r h')" "resize_result h p q (t, c) r h'" using krealloc_heap [OF assms(1) c] by blast
    then show ?thesis using c False by (auto simp: resize_result_def)
  qed
qed

interpretation heap_sim: simulation "\<lambda>h. heap_ok h \<and> arena_of h = x" regions can_call heap_call store_spec for x
proof
  fix h a assume h: "heap_ok h \<and> arena_of h = x" and en: "can_call a (regions h)"
  then have ok: "heap_ok h" and x: "x = arena_of h" by simp_all
  show "\<exists>r t. heap_call a h = Some (r, t) \<and> (heap_ok t \<and> arena_of t = x) \<and> store_spec a (regions h) r (regions t)"
  proof (cases a)
    case (Alloc q tag)
    then show ?thesis using alloc_call [OF ok] x by simp
  next
    case (Free p)
    then show ?thesis using free_call [OF ok, of p None] en x by (auto simp: kfree_def)
  next
    case (FreeTagged p t)
    then show ?thesis using free_call [OF ok, of p "Some t"] en x by (auto simp: kfree_tagged_def)
  next
    case (Resize p q)
    then have "p = 0 \<or> regions h p \<noteq> None" using en by simp
    then obtain r t where "krealloc p q h = Some (Done r t)" "heap_ok t" "arena_of t = x" "store_spec (Resize p q) (regions h) r (regions t)"
      using resize_call [OF ok] x by blast
    then show ?thesis using Resize by (simp del: store_spec.simps)
  next
    case (Put p i v)
    then obtain t c where "regions h p = Some (t, c)" "i < length c" using en by (auto split: option.splits)
    then show ?thesis using store_held [OF ok, of p t c i v] Put x by auto
  qed
qed

end
