(* ===== verification/Mm_Pmm_Facts.thy ===== *)
theory Mm_Pmm_Facts
  imports Mm_Pmm
begin

text \<open>
  The frame bitmap as the set of frames in use: marking, allocation and release as operations on that set, and the count of used frames. The
  bitmap is a \<open>bit_store\<close>; a state is determined by its set of used frames and the padding bits of the last byte, which no
  operation touches.
\<close>

section \<open>The set of used frames\<close>

definition frame_used :: "pmm_state \<Rightarrow> nat \<Rightarrow> bool" where
  "frame_used s f \<longleftrightarrow> f < 8 * length (bitmap s) \<and> bit (bitmap s ! (f div 8)) (f mod 8)"

definition used :: "pmm_state \<Rightarrow> nat set" where
  "used s = {f. f < unat (total_frames s) \<and> frame_used s f}"

definition padding :: "pmm_state \<Rightarrow> nat set" where
  "padding s = {f. unat (total_frames s) \<le> f \<and> frame_used s f}"

definition pmm_shape :: "pmm_state \<Rightarrow> bool" where
  "pmm_shape s \<longleftrightarrow> unat (bitmap_size s) = (unat (total_frames s) + 7) div 8 \<and> length (bitmap s) = unat (bitmap_size s)"

text \<open>The invariant: the bitmap covers the frames, there are no more than the 4 GiB cap allows, and the counter is right.\<close>

definition pmm_ok :: "pmm_state \<Rightarrow> bool" where
  "pmm_ok s \<longleftrightarrow> pmm_shape s \<and> unat (total_frames s) \<le> 2 ^ 20 \<and> used_frames s = of_nat (card (used s))"

text \<open>\<open>s'\<close> is \<open>s\<close> with \<open>U\<close> as the used frames.\<close>

definition to_used :: "pmm_state \<Rightarrow> nat set \<Rightarrow> pmm_state \<Rightarrow> bool" where
  "to_used s U s' \<longleftrightarrow> pmm_ok s' \<and> bitmap_size s' = bitmap_size s \<and> total_frames s' = total_frames s \<and> padding s' = padding s \<and> used s' = U"

lemma shape_byte: "pmm_shape s \<Longrightarrow> f < unat (total_frames s) \<Longrightarrow> f div 8 < length (bitmap s)"
  unfolding pmm_shape_def by simp

lemma push_bit_8: "bit (push_bit k 1 :: u8) n \<longleftrightarrow> n = k \<and> n < 8"
  by (auto simp: bit_exp_iff)

lemma frame_index: "f div 8 = g div 8 \<and> f mod 8 = g mod 8 \<longleftrightarrow> f = (g :: nat)"
  by (metis div_mult_mod_eq)

lemma wr8_ok: "i < length m \<Longrightarrow> wr8 m i v = Some (m[i := v])"
  by (simp add: wr8_def wr_bytes_def upd_conv_take_nth_drop)

lemma write_frame:
  assumes "pmm_shape s" and "f < unat (total_frames s)"
  shows "\<exists>m. (if v then bitmap_set else bitmap_clear) f s = Some (s\<lparr>bitmap := m\<rparr>) \<and> length m = length (bitmap s) \<and>
    (\<forall>g. frame_used (s\<lparr>bitmap := m\<rparr>) g = (if g = f then v else frame_used s g))"
proof -
  note d = shape_byte [OF assms]
  let ?b = "bitmap s ! (f div 8)" and ?k = "push_bit (f mod 8) 1 :: u8"
  let ?m = "(bitmap s)[f div 8 := if v then ?b OR ?k else ?b AND NOT ?k]"
  have "frame_used (s\<lparr>bitmap := ?m\<rparr>) g = (if g = f then v else frame_used s g)" for g
  proof (cases "g div 8 = f div 8")
    case True
    then have "g < 8 * length (bitmap s)" "g mod 8 = f mod 8 \<longleftrightarrow> g = f" using d frame_index [of g f] by simp_all
    then show ?thesis using True d
      by (simp add: frame_used_def bit_or_iff bit_and_iff bit_not_iff push_bit_8 del: push_bit_of_1)
  next
    case False
    then have "g \<noteq> f" by blast
    with False show ?thesis by (simp add: frame_used_def)
  qed
  moreover have "(if v then bitmap_set else bitmap_clear) f s = Some (s\<lparr>bitmap := ?m\<rparr>)"
    using d by (simp add: bitmap_set_def bitmap_clear_def rd8_ok wr8_ok)
  ultimately show ?thesis by (intro exI [of _ ?m]) simp
qed

interpretation frames: bit_store pmm_shape "\<lambda>s. unat (total_frames s)" "\<lambda>s. (bitmap_size s, total_frames s, used_frames s, padding s)"
  frame_used "\<lambda>v. if v then bitmap_set else bitmap_clear"
proof
  fix s f v assume "pmm_shape s" "f < unat (total_frames s)"
  from write_frame [OF this, of v] this(2) \<open>pmm_shape s\<close>
  show "\<exists>s'. (if v then bitmap_set else bitmap_clear) f s = Some s' \<and> pmm_shape s' \<and>
      (bitmap_size s', total_frames s', used_frames s', padding s') = (bitmap_size s, total_frames s, used_frames s, padding s) \<and>
      unat (total_frames s') = unat (total_frames s) \<and> (\<forall>j. frame_used s' j = (if j = f then v else frame_used s j))"
    by (auto simp: pmm_shape_def padding_def)
next
  fix s t :: pmm_state
  assume s: "pmm_shape s" "pmm_shape t" "(bitmap_size s, total_frames s, used_frames s, padding s) = (bitmap_size t, total_frames t, used_frames t, padding t)"
    and g: "\<And>j. frame_used s j = frame_used t j"
  have "bitmap s = bitmap t"
  proof (rule nth_equalityI)
    show len: "length (bitmap s) = length (bitmap t)" using s by (simp add: pmm_shape_def)
    fix i assume i: "i < length (bitmap s)"
    show "bitmap s ! i = bitmap t ! i"
    proof (rule bit_word_eqI)
      fix n assume "n < LENGTH(8)"
      then show "bit (bitmap s ! i) n = bit (bitmap t ! i) n" using g [of "8 * i + n"] i len by (simp add: frame_used_def)
    qed
  qed
  then show "s = t" using s(3) by simp
qed

lemma used_ones: "used s = frames.ones s"
  by (simp add: used_def frames.ones_def)

lemma finite_used [simp]: "finite (used s)"
  by (simp add: used_ones)

lemma used_less: "f \<in> used s \<Longrightarrow> f < unat (total_frames s)"
  by (simp add: used_def)

lemma frame_used_iff: "frame_used s f \<longleftrightarrow> f \<in> used s \<or> f \<in> padding s"
  by (auto simp: used_def padding_def)

text \<open>A state is determined by its used frames.\<close>

lemma to_used_unique:
  assumes "to_used s U s1" "to_used s U s2"
  shows "s1 = s2"
proof (rule frames.ext)
  show "pmm_shape s1" "pmm_shape s2" using assms by (simp_all add: to_used_def pmm_ok_def)
  show "(bitmap_size s1, total_frames s1, used_frames s1, padding s1) = (bitmap_size s2, total_frames s2, used_frames s2, padding s2)"
    using assms by (simp add: to_used_def pmm_ok_def)
  fix j
  have "used s1 = used s2" "padding s1 = padding s2" using assms by (simp_all add: to_used_def)
  then show "frame_used s1 j = frame_used s2 j" by (simp add: frame_used_iff)
qed

lemma to_used_refl: "pmm_ok s \<Longrightarrow> to_used s (used s) s"
  by (simp add: to_used_def)

lemma to_used_trans: "to_used s U s1 \<Longrightarrow> to_used s1 V s2 \<Longrightarrow> to_used s V s2"
  by (simp add: to_used_def)

section \<open>One frame\<close>

lemma bitmap_test_eq:
  assumes "pmm_shape s" and "f < unat (total_frames s)"
  shows "\<exists>t. bitmap_test f s = Some t \<and> (t = 0 \<longleftrightarrow> f \<notin> used s)"
proof -
  have "f < 8 * length (bitmap s)" using shape_byte [OF assms] by simp
  then have "f \<in> used s \<longleftrightarrow> bit (bitmap s ! (f div 8)) (f mod 8)" using assms(2) by (simp add: used_def frame_used_def)
  then show ?thesis
    using shape_byte [OF assms] and_exp_eq_0_iff_not_bit [of "bitmap s ! (f div 8)" "f mod 8"]
    by (simp add: bitmap_test_def rd8_ok push_bit_of_1)
qed

lemma set_frame:
  assumes "pmm_ok s" and "f < unat (total_frames s)" "f \<notin> used s"
  shows "\<exists>s'. bitmap_set f s = Some s' \<and> to_used s (insert f (used s)) (s'\<lparr>used_frames := used_frames s' + 1\<rparr>)"
proof -
  have ok: "pmm_shape s" using assms(1) by (simp add: pmm_ok_def)
  obtain s' where s': "bitmap_set f s = Some s'" "pmm_shape s'" "bitmap_size s' = bitmap_size s" "total_frames s' = total_frames s"
      "used_frames s' = used_frames s" "padding s' = padding s"
    using frames.put_ok [OF ok assms(2), of True] by auto
  have "used s' = insert f (used s)" using frames.put_ones [OF ok assms(2), of True s'] s'(1) by (simp add: used_ones)
  then have "to_used s (insert f (used s)) (s'\<lparr>used_frames := used_frames s' + 1\<rparr>)"
    using assms s' by (simp add: to_used_def pmm_ok_def pmm_shape_def used_def padding_def frame_used_def)
  with s'(1) show ?thesis by blast
qed

lemma clear_frame:
  assumes "pmm_ok s" and "f \<in> used s"
  shows "\<exists>s'. bitmap_clear f s = Some s' \<and> to_used s (used s - {f}) (s'\<lparr>used_frames := used_frames s' - 1\<rparr>)"
proof -
  have ok: "pmm_shape s" and f: "f < unat (total_frames s)" using assms by (simp_all add: pmm_ok_def used_def)
  obtain s' where s': "bitmap_clear f s = Some s'" "pmm_shape s'" "bitmap_size s' = bitmap_size s" "total_frames s' = total_frames s"
      "used_frames s' = used_frames s" "padding s' = padding s"
    using frames.put_ok [OF ok f, of False] by auto
  have u: "used s' = used s - {f}" using frames.put_ones [OF ok f, of False s'] s'(1) by (simp add: used_ones)
  have "card (used s) = Suc (card (used s - {f}))" using assms(2) by (metis card.remove finite_used)
  then have "to_used s (used s - {f}) (s'\<lparr>used_frames := used_frames s' - 1\<rparr>)"
    using assms s' u by (simp add: to_used_def pmm_ok_def pmm_shape_def used_def padding_def frame_used_def)
  with s'(1) show ?thesis by blast
qed

lemma mark_frame_used_eq:
  assumes "pmm_ok s" and "f < unat (total_frames s)"
  shows "\<exists>s'. mark_frame_used f s = Some s' \<and> to_used s (insert f (used s)) s'"
proof -
  obtain t where t: "bitmap_test f s = Some t" "t = 0 \<longleftrightarrow> f \<notin> used s" using bitmap_test_eq [of s f] assms by (auto simp: pmm_ok_def)
  show ?thesis
  proof (cases "f \<in> used s")
    case True
    then show ?thesis using t to_used_refl [OF assms(1)] by (simp add: mark_frame_used_def insert_absorb)
  next
    case False
    then show ?thesis using t set_frame [OF assms False] by (auto simp: mark_frame_used_def)
  qed
qed

lemma mark_frame_free_eq:
  assumes "pmm_ok s" and "f < unat (total_frames s)"
  shows "\<exists>s'. mark_frame_free f s = Some s' \<and> to_used s (used s - {f}) s'"
proof -
  obtain t where t: "bitmap_test f s = Some t" "t = 0 \<longleftrightarrow> f \<notin> used s" using bitmap_test_eq [of s f] assms by (auto simp: pmm_ok_def)
  show ?thesis
  proof (cases "f \<in> used s")
    case True
    then show ?thesis using t clear_frame [OF assms(1) True] by (auto simp: mark_frame_free_def)
  next
    case False
    then show ?thesis using t to_used_refl [OF assms(1)] by (simp add: mark_frame_free_def)
  qed
qed

section \<open>Regions\<close>

lemma mark_used_loop:
  assumes "pmm_ok s" and "hi \<le> unat (total_frames s)"
  shows "\<exists>s'. for_upto lo hi mark_frame_used s = Some s' \<and> to_used s (used s \<union> {lo..<hi}) s'"
proof (cases "lo \<le> hi")
  case True
  show ?thesis
  proof (rule for_upto_inv [where P = "\<lambda>k t. to_used s (used s \<union> {lo..<k}) t", OF True])
    show "to_used s (used s \<union> {lo..<lo}) s" using to_used_refl [OF assms(1)] by simp
    fix k t assume k: "lo \<le> k" "k < hi" "to_used s (used s \<union> {lo..<k}) t"
    then have t: "pmm_ok t" "k < unat (total_frames t)" "used t = used s \<union> {lo..<k}" using assms(2) by (simp_all add: to_used_def)
    have "insert k (used s \<union> {lo..<k}) = used s \<union> {lo..<Suc k}" using k(1) by auto
    then show "\<exists>t'. mark_frame_used k t = Some t' \<and> to_used s (used s \<union> {lo..<Suc k}) t'"
      using mark_frame_used_eq [OF t(1,2)] t(3) to_used_trans [OF k(3)] by auto
  qed
qed (use to_used_refl [OF assms(1)] in simp)

lemma mark_free_loop:
  assumes "pmm_ok s" and "hi \<le> unat (total_frames s)"
  shows "\<exists>s'. for_upto lo hi mark_frame_free s = Some s' \<and> to_used s (used s - {lo..<hi}) s'"
proof (cases "lo \<le> hi")
  case True
  show ?thesis
  proof (rule for_upto_inv [where P = "\<lambda>k t. to_used s (used s - {lo..<k}) t", OF True])
    show "to_used s (used s - {lo..<lo}) s" using to_used_refl [OF assms(1)] by simp
    fix k t assume k: "lo \<le> k" "k < hi" "to_used s (used s - {lo..<k}) t"
    then have t: "pmm_ok t" "k < unat (total_frames t)" "used t = used s - {lo..<k}" using assms(2) by (simp_all add: to_used_def)
    have "used s - {lo..<k} - {k} = used s - {lo..<Suc k}" using k(1) by auto
    then show "\<exists>t'. mark_frame_free k t = Some t' \<and> to_used s (used s - {lo..<Suc k}) t'"
      using mark_frame_free_eq [OF t(1,2)] t(3) to_used_trans [OF k(3)] by auto
  qed
qed (use to_used_refl [OF assms(1)] in simp)

text \<open>The frames that a byte range touches, and those that lie inside it.\<close>

definition touched :: "nat \<Rightarrow> nat \<Rightarrow> nat set" where
  "touched base len = {f. base div 4096 \<le> f \<and> f < (base + len + 4095) div 4096}"

definition inside :: "nat \<Rightarrow> nat \<Rightarrow> nat set" where
  "inside base len = {f. base div 4096 \<le> f \<and> f < (base + len) div 4096}"

lemma pmm_mark_region_used_eq:
  assumes "pmm_ok s" and "unat base + unat len + 4095 < 2 ^ 64"
  shows "\<exists>s'. pmm_mark_region_used base len s = Some s' \<and>
    to_used s (used s \<union> (touched (unat base) (unat len) \<inter> {..<unat (total_frames s)})) s'"
proof -
  let ?e = "(base + len + PMM_FRAME_SIZE - 1) div PMM_FRAME_SIZE"
  have "unat (base + len + PMM_FRAME_SIZE - 1) = unat base + unat len + 4095"
  proof -
    have "base + len + PMM_FRAME_SIZE - 1 = of_nat (unat base + unat len + 4095)" by (simp add: PMM_FRAME_SIZE_def algebra_simps)
    then show ?thesis using assms(2) unat_of_nat_u64 by metis
  qed
  then have e: "unat ?e = (unat base + unat len + 4095) div 4096" by (simp add: unat_div PMM_FRAME_SIZE_def)
  let ?hi = "min (unat ?e) (unat (total_frames s))"
  have "touched (unat base) (unat len) \<inter> {..<unat (total_frames s)} = {unat base div 4096..<?hi}"
    unfolding e by (auto simp: touched_def)
  moreover have "unat (if ?e > total_frames s then total_frames s else ?e) = ?hi" by (simp add: word_less_nat_alt min_def)
  moreover have "unat (base div PMM_FRAME_SIZE) = unat base div 4096" by (simp add: unat_div PMM_FRAME_SIZE_def)
  ultimately show ?thesis
    using mark_used_loop [OF assms(1), of ?hi "unat base div 4096"] unfolding pmm_mark_region_used_def Let_def by simp
qed

lemma pmm_mark_region_free_eq:
  assumes "pmm_ok s" and "unat base + unat len < 2 ^ 64"
  shows "\<exists>s'. pmm_mark_region_free base len s = Some s' \<and>
    to_used s (used s - (inside (unat base) (unat len) \<inter> {..<unat (total_frames s)})) s'"
proof -
  let ?e = "(base + len) div PMM_FRAME_SIZE"
  have e: "unat ?e = (unat base + unat len) div 4096" using assms(2) by (simp add: unat_div PMM_FRAME_SIZE_def unat_plus_if_size word_size)
  let ?hi = "min (unat ?e) (unat (total_frames s))"
  have "inside (unat base) (unat len) \<inter> {..<unat (total_frames s)} = {unat base div 4096..<?hi}"
    unfolding e by (auto simp: inside_def)
  moreover have "unat (if ?e > total_frames s then total_frames s else ?e) = ?hi" by (simp add: word_less_nat_alt min_def)
  moreover have "unat (base div PMM_FRAME_SIZE) = unat base div 4096" by (simp add: unat_div PMM_FRAME_SIZE_def)
  ultimately show ?thesis
    using mark_free_loop [OF assms(1), of ?hi "unat base div 4096"] unfolding pmm_mark_region_free_def Let_def by simp
qed

section \<open>Allocation\<close>

text \<open>\<open>n\<close> free frames from \<open>r\<close> on.\<close>

definition run_free :: "pmm_state \<Rightarrow> nat \<Rightarrow> nat \<Rightarrow> bool" where
  "run_free s n r \<longleftrightarrow> r + n \<le> unat (total_frames s) \<and> {r..<r + n} \<inter> used s = {}"

text \<open>What an allocation of \<open>n\<close> frames does: it takes the first run, or fails and changes nothing.\<close>

definition take_spec :: "pmm_state \<Rightarrow> nat \<Rightarrow> u64 \<times> pmm_state \<Rightarrow> bool" where
  "take_spec s n res \<longleftrightarrow>
     (if \<exists>r. run_free s n r
      then let r = (LEAST r. run_free s n r) in fst res = of_nat r * PMM_FRAME_SIZE \<and> to_used s (used s \<union> {r..<r + n}) (snd res)
      else res = (0, s))"

lemma take_specI:
  assumes "run_free s n r" "\<And>r'. r' < r \<Longrightarrow> \<not> run_free s n r'" "to_used s (used s \<union> {r..<r + n}) s'"
  shows "take_spec s n (of_nat r * PMM_FRAME_SIZE, s')"
proof -
  have "(LEAST r. run_free s n r) = r" by (rule Least_equality) (use assms in \<open>auto simp: not_less [symmetric]\<close>)
  then show ?thesis using assms by (auto simp: take_spec_def Let_def)
qed

lemma take_spec_none: "(\<And>r. \<not> run_free s n r) \<Longrightarrow> take_spec s n (0, s)"
  by (simp add: take_spec_def)

lemma run_free_1 [simp]: "run_free s (Suc 0) r \<longleftrightarrow> r < unat (total_frames s) \<and> r \<notin> used s"
  by (auto simp: run_free_def)

lemma alloc_bit_eq:
  assumes "pmm_ok s" and "\<And>f. f < 8 * i + b \<Longrightarrow> f < unat (total_frames s) \<Longrightarrow> f \<in> used s" and "b \<le> 8"
  shows "\<exists>r. alloc_bit i b s = Some r \<and>
    (case r of Some res \<Rightarrow> take_spec s 1 res | None \<Rightarrow> \<forall>f. f < 8 * i + 8 \<longrightarrow> f < unat (total_frames s) \<longrightarrow> f \<in> used s)"
  using assms(2,3)
proof (induction "8 - b" arbitrary: b)
  case 0
  then show ?case by (simp add: alloc_bit.simps)
next
  case (Suc d)
  let ?f = "i * 8 + b"
  have b8: "b < 8" using Suc.hyps(2) by simp
  show ?case
  proof (cases "unat (total_frames s) \<le> ?f")
    case True
    then have "take_spec s 1 (0, s)" using Suc.prems(1) by (intro take_spec_none) auto
    then show ?thesis using True b8 by (simp add: alloc_bit.simps)
  next
    case False
    then obtain t where t: "bitmap_test ?f s = Some t" "t = 0 \<longleftrightarrow> ?f \<notin> used s" using bitmap_test_eq [of s ?f] assms(1) by (auto simp: pmm_ok_def)
    show ?thesis
    proof (cases "?f \<in> used s")
      case True
      have "\<exists>r. alloc_bit i (Suc b) s = Some r \<and>
          (case r of Some res \<Rightarrow> take_spec s 1 res | None \<Rightarrow> \<forall>f. f < 8 * i + 8 \<longrightarrow> f < unat (total_frames s) \<longrightarrow> f \<in> used s)"
      proof (rule Suc.hyps(1))
        show "f \<in> used s" if "f < 8 * i + Suc b" "f < unat (total_frames s)" for f
          using that Suc.prems(1) [of f] True by (cases "f = ?f") auto
      qed (use Suc.hyps(2) in simp_all)
      then show ?thesis using True t b8 False by (simp add: alloc_bit.simps [of i b] Let_def)
    next
      case free: False
      obtain s' where s': "bitmap_set ?f s = Some s'" "to_used s (insert ?f (used s)) (s'\<lparr>used_frames := used_frames s' + 1\<rparr>)"
        using set_frame [OF assms(1) _ free] False by auto
      have "take_spec s 1 (of_nat ?f * PMM_FRAME_SIZE, s'\<lparr>used_frames := used_frames s' + 1\<rparr>)"
        by (rule take_specI) (use Suc.prems(1) False free s'(2) in \<open>auto\<close>)
      then show ?thesis using free t s'(1) b8 False by (simp add: alloc_bit.simps [of i b] Let_def)
    qed
  qed
qed

lemma alloc_byte_eq:
  assumes "pmm_ok s" and "\<And>f. f < 8 * i \<Longrightarrow> f < unat (total_frames s) \<Longrightarrow> f \<in> used s"
  shows "\<exists>res. alloc_byte i s = Some res \<and> take_spec s 1 res"
  using assms(2)
proof (induction "unat (bitmap_size s) - i" arbitrary: i)
  case 0
  have "unat (total_frames s) \<le> 8 * i" using 0(1) assms(1) by (auto simp: pmm_ok_def pmm_shape_def)
  then have "take_spec s 1 (0, s)" using 0(2) by (intro take_spec_none) auto
  then show ?case using 0(1) by (simp add: alloc_byte.simps)
next
  case (Suc d)
  then have i: "i < unat (bitmap_size s)" "i < length (bitmap s)" using assms(1) by (auto simp: pmm_ok_def pmm_shape_def)
  have go: ?case if "alloc_byte i s = alloc_byte (Suc i) s" "\<forall>f. f < 8 * i + 8 \<longrightarrow> f < unat (total_frames s) \<longrightarrow> f \<in> used s"
    using Suc.hyps(1) [of "Suc i"] Suc.hyps(2) that by simp
  show ?case
  proof (cases "bitmap s ! i = 0xFF")
    case True
    have "f \<in> used s" if "f < 8 * i + 8" "f < unat (total_frames s)" for f
    proof (cases "f < 8 * i")
      case False
      then have "f div 8 = i" using that(1) by simp
      moreover have "bit (0xFF :: u8) (f mod 8)" using bit_mask_iff [of 8 "f mod 8", where 'a = u8] by (simp add: mask_eq_exp_minus_1)
      ultimately show ?thesis using that True i(2) by (simp add: used_def frame_used_def)
    qed (use Suc.prems that in blast)
    then show ?thesis using go i True by (simp add: alloc_byte.simps [of i] rd8_ok)
  next
    case False
    obtain r where r: "alloc_bit i 0 s = Some r"
        "case r of Some res \<Rightarrow> take_spec s 1 res | None \<Rightarrow> \<forall>f. f < 8 * i + 8 \<longrightarrow> f < unat (total_frames s) \<longrightarrow> f \<in> used s"
      using alloc_bit_eq [OF assms(1), of i 0] Suc.prems by auto
    show ?thesis
    proof (cases r)
      case None
      then show ?thesis using go r i False by (simp add: alloc_byte.simps [of i] rd8_ok)
    next
      case (Some res)
      then show ?thesis using r i False by (simp add: alloc_byte.simps [of i] rd8_ok)
    qed
  qed
qed

lemma claim_loop:
  assumes "pmm_ok s" "run_free s n r"
  shows "\<exists>s'. for_upto 0 n (claim_frame r) s = Some s' \<and> to_used s (used s \<union> {r..<r + n}) s'"
proof (rule for_upto_inv [where P = "\<lambda>k t. to_used s (used s \<union> {r..<r + k}) t"])
  show "to_used s (used s \<union> {r..<r + 0}) s" using to_used_refl [OF assms(1)] by simp
  fix k t assume k: "0 \<le> k" "k < n" "to_used s (used s \<union> {r..<r + k}) t"
  have t: "pmm_ok t" "r + k < unat (total_frames t)" "used t = used s \<union> {r..<r + k}" using k assms(2) by (simp_all add: to_used_def run_free_def)
  have "r + k \<in> {r..<r + n}" using k(2) by simp
  then have "r + k \<notin> used s" using assms(2) unfolding run_free_def by blast
  then have "r + k \<notin> used t" using t(3) by simp
  moreover have "insert (r + k) (used s \<union> {r..<r + k}) = used s \<union> {r..<r + Suc k}" by auto
  ultimately show "\<exists>t'. claim_frame r k t = Some t' \<and> to_used s (used s \<union> {r..<r + Suc k}) t'"
    using set_frame [OF t(1,2)] t(3) to_used_trans [OF k(3)] by (auto simp: claim_frame_def)
qed simp

lemma scan_run_eq:
  assumes "pmm_ok s" and "rs + rl = f" "f \<le> unat (total_frames s)" "rl < n" "{rs..<f} \<inter> used s = {}" "\<And>r. r < rs \<Longrightarrow> \<not> run_free s n r"
  shows "\<exists>res. scan_run n f rs rl s = Some res \<and> take_spec s n res"
  using assms(2-)
proof (induction "unat (total_frames s) - f" arbitrary: f rs rl)
  case 0
  have "\<not> run_free s n r" for r using 0 by (cases "r < rs") (auto simp: run_free_def)
  then show ?case using 0 take_spec_none by (simp add: scan_run.simps)
next
  case (Suc d)
  then have f: "f < unat (total_frames s)" by simp
  then obtain t where t: "bitmap_test f s = Some t" "t = 0 \<longleftrightarrow> f \<notin> used s" using bitmap_test_eq [of s f] assms(1) by (auto simp: pmm_ok_def)
  show ?case
  proof (cases "f \<in> used s")
    case True
    have "\<exists>res. scan_run n (Suc f) (Suc f) 0 s = Some res \<and> take_spec s n res"
    proof (rule Suc.hyps(1))
      show "\<not> run_free s n r" if "r < Suc f" for r
      proof (cases "r < rs")
        case False
        then have "f \<in> {r..<r + n}" using that Suc.prems(1,3) by auto
        then show ?thesis using True by (auto simp: run_free_def)
      qed (use Suc.prems(5) in blast)
    qed (use Suc.hyps(2) Suc.prems f in auto)
    then show ?thesis using True t f by (simp add: scan_run.simps [of n f])
  next
    case False
    have free: "{rs..<Suc f} \<inter> used s = {}" using Suc.prems(1,4) False by (auto simp: less_Suc_eq)
    show ?thesis
    proof (cases "n \<le> Suc rl")
      case True
      then have n: "rs + n = Suc f" using Suc.prems(1,3) by simp
      then have r: "run_free s n rs" using free f by (simp add: run_free_def)
      obtain s' where "for_upto 0 n (claim_frame rs) s = Some s'" "to_used s (used s \<union> {rs..<rs + n}) s'" using claim_loop [OF assms(1) r] by blast
      then show ?thesis using take_specI [OF r Suc.prems(5)] True False t f by (simp add: scan_run.simps [of n f])
    next
      case more: False
      have "\<exists>res. scan_run n (Suc f) rs (Suc rl) s = Some res \<and> take_spec s n res"
        by (rule Suc.hyps(1)) (use Suc.hyps(2) Suc.prems f free more in auto)
      then show ?thesis using more False t f by (simp add: scan_run.simps [of n f])
    qed
  qed
qed

lemma pmm_alloc_frame_eq: "pmm_ok s \<Longrightarrow> \<exists>res. pmm_alloc_frame s = Some res \<and> take_spec s 1 res"
  unfolding pmm_alloc_frame_def by (rule alloc_byte_eq) simp_all

lemma pmm_alloc_contiguous_eq:
  assumes "pmm_ok s" "n \<noteq> 0"
  shows "\<exists>res. pmm_alloc_contiguous n s = Some res \<and> take_spec s (unat n) res"
proof (cases "n = 1")
  case True
  then show ?thesis using pmm_alloc_frame_eq [OF assms(1)] by (simp add: pmm_alloc_contiguous_def)
next
  case False
  then show ?thesis
    using scan_run_eq [OF assms(1), of 0 0 0 "unat n"] assms(2) by (simp add: pmm_alloc_contiguous_def unat_gt_0)
qed

section \<open>Release\<close>

lemma frame_addr:
  assumes "f < 2 ^ 20"
  shows "unat (of_nat f * PMM_FRAME_SIZE) = f * 4096" "unat (of_nat f * PMM_FRAME_SIZE div PMM_FRAME_SIZE) = f"
    "of_nat f * PMM_FRAME_SIZE = 0 \<longleftrightarrow> f = 0"
proof -
  have "of_nat f * PMM_FRAME_SIZE = (of_nat (f * 4096) :: u64)" by (simp add: PMM_FRAME_SIZE_def)
  then show u: "unat (of_nat f * PMM_FRAME_SIZE) = f * 4096" using assms unat_of_nat_u64 [of "f * 4096"] by simp
  then show "unat (of_nat f * PMM_FRAME_SIZE div PMM_FRAME_SIZE) = f" by (simp add: unat_div) (simp add: PMM_FRAME_SIZE_def)
  show "of_nat f * PMM_FRAME_SIZE = 0 \<longleftrightarrow> f = 0" using u by (simp add: unat_eq_zero [symmetric] del: unat_eq_zero)
qed

lemma pmm_free_frame_eq:
  assumes "pmm_ok s" "f < 2 ^ 20"
  shows "\<exists>s'. pmm_free_frame (of_nat f * PMM_FRAME_SIZE) s = Some s' \<and> to_used s (used s - {f}) s'"
proof (cases "f < unat (total_frames s)")
  case True
  then show ?thesis using mark_frame_free_eq [OF assms(1) True] frame_addr(2) [OF assms(2)]
    by (simp add: pmm_free_frame_def Let_def word_le_nat_alt)
next
  case False
  then have "used s - {f} = used s" using used_less by blast
  with False show ?thesis using to_used_refl [OF assms(1)] frame_addr(2) [OF assms(2)]
    by (simp add: pmm_free_frame_def Let_def word_le_nat_alt)
qed

lemma pmm_free_contiguous_eq:
  assumes "pmm_ok s" "r + unat n \<le> 2 ^ 20" "0 < r"
  shows "\<exists>s'. pmm_free_contiguous (of_nat r * PMM_FRAME_SIZE) n s = Some s' \<and> to_used s (used s - {r..<r + unat n}) s'"
proof (cases "n = 0")
  case True
  then show ?thesis using to_used_refl [OF assms(1)] by (simp add: pmm_free_contiguous_def)
next
  case False
  have "\<exists>s'. for_upto 0 (unat n) (\<lambda>i. pmm_free_frame (of_nat r * PMM_FRAME_SIZE + of_nat i * PMM_FRAME_SIZE)) s = Some s' \<and>
      to_used s (used s - {r..<r + unat n}) s'"
  proof (rule for_upto_inv [where P = "\<lambda>k t. to_used s (used s - {r..<r + k}) t"])
    show "to_used s (used s - {r..<r + 0}) s" using to_used_refl [OF assms(1)] by simp
    fix k t assume k: "0 \<le> k" "k < unat n" "to_used s (used s - {r..<r + k}) t"
    have "used s - {r..<r + k} - {r + k} = used s - {r..<r + Suc k}" by auto
    moreover have "of_nat r * PMM_FRAME_SIZE + of_nat k * PMM_FRAME_SIZE = of_nat (r + k) * PMM_FRAME_SIZE" by (simp add: algebra_simps)
    ultimately show "\<exists>t'. pmm_free_frame (of_nat r * PMM_FRAME_SIZE + of_nat k * PMM_FRAME_SIZE) t = Some t' \<and> to_used s (used s - {r..<r + Suc k}) t'"
      using pmm_free_frame_eq [of t "r + k"] k assms(2) to_used_trans [OF k(3)] by (auto simp: to_used_def)
  qed simp
  moreover have "0 < unat n" using False by (simp add: unat_gt_0)
  then have "r < 2 ^ 20" using assms(2) by linarith
  moreover from this have "of_nat r * PMM_FRAME_SIZE \<noteq> (0 :: u64)" using frame_addr(3) [of r] assms(3) by blast
  ultimately show ?thesis using False by (simp add: pmm_free_contiguous_def)
qed

section \<open>Clients of the allocator\<close>

text \<open>With frame 0 reserved, address 0 means failure and nothing else.\<close>

lemma alloc_take:
  assumes "pmm_ok s" "0 \<in> used s" "0 < n" "take_spec s n (addr, s')"
  shows "addr = 0 \<and> s' = s \<and> (\<forall>r. \<not> run_free s n r) \<or>
    (\<exists>r. 0 < r \<and> r + n \<le> 2 ^ 20 \<and> addr = of_nat r * PMM_FRAME_SIZE \<and> addr \<noteq> 0 \<and> run_free s n r \<and> r = (LEAST r. run_free s n r) \<and>
      to_used s (used s \<union> {r..<r + n}) s')"
proof (cases "\<exists>r. run_free s n r")
  case False
  then show ?thesis using assms(4) by (simp add: take_spec_def)
next
  case True
  define r where "r = (LEAST r. run_free s n r)"
  have r: "run_free s n r" unfolding r_def by (rule LeastI_ex [OF True])
  have "0 \<notin> {r..<r + n}" using r assms(2) by (auto simp: run_free_def)
  then have "0 < r" using assms(3) by auto
  moreover have "r + n \<le> 2 ^ 20" using r assms(1) by (simp add: run_free_def pmm_ok_def)
  moreover have "addr = of_nat r * PMM_FRAME_SIZE" "to_used s (used s \<union> {r..<r + n}) s'"
    using assms(4) True by (simp_all add: take_spec_def Let_def r_def)
  moreover from this have "addr \<noteq> 0" using frame_addr(3) [of r] calculation(1,2) assms(3) by auto
  ultimately show ?thesis using r r_def by blast
qed

lemma run_in_hhdm:
  assumes "0 < r" "0 < unat n" "r + unat n \<le> 2 ^ 20"
  shows "mm_phys_extent_in_hhdm (of_nat r * PMM_FRAME_SIZE) (n * PMM_FRAME_SIZE)"
    "mm_phys_to_hhdm (of_nat r * PMM_FRAME_SIZE) = of_nat r * PMM_FRAME_SIZE + MM_HHDM_BASE" "of_nat r * PMM_FRAME_SIZE + MM_HHDM_BASE \<noteq> 0"
proof -
  have u: "unat (of_nat r * PMM_FRAME_SIZE) = r * 4096" "unat (n * PMM_FRAME_SIZE) = unat n * 4096"
    using frame_addr(1) [of r] frame_addr(1) [of "unat n"] assms by simp_all
  then have e: "unat (of_nat r * PMM_FRAME_SIZE + n * PMM_FRAME_SIZE) = (r + unat n) * 4096" using assms(3) by (simp add: unat_plus_if_size word_size)
  have p: "mm_phys_in_hhdm (of_nat r * PMM_FRAME_SIZE)"
    using u(1) assms frame_addr(3) [of r] by (simp add: mm_phys_in_hhdm_def MM_HHDM_SIZE_def word_less_nat_alt)
  then show "mm_phys_extent_in_hhdm (of_nat r * PMM_FRAME_SIZE) (n * PMM_FRAME_SIZE)"
    using u e assms frame_addr(3) [of "unat n"] by (simp add: mm_phys_extent_in_hhdm_def MM_HHDM_SIZE_def word_less_nat_alt word_le_nat_alt)
  show "mm_phys_to_hhdm (of_nat r * PMM_FRAME_SIZE) = of_nat r * PMM_FRAME_SIZE + MM_HHDM_BASE" using p by (simp add: mm_phys_to_hhdm_def)
  have "unat (of_nat r * PMM_FRAME_SIZE + MM_HHDM_BASE) = r * 4096 + unat MM_HHDM_BASE"
    using u(1) assms(2,3) by (simp add: unat_plus_if_size word_size MM_HHDM_BASE_def)
  then show "of_nat r * PMM_FRAME_SIZE + MM_HHDM_BASE \<noteq> 0" using assms(1) by (metis add_is_0 mult_is_0 neq0_conv unat_0 zero_neq_numeral)
qed

lemma pages_pos: "n \<noteq> 0 \<Longrightarrow> 0 < (unat (n :: u64) + 4095) div 4096"
proof -
  assume "n \<noteq> 0"
  then have "4096 \<le> unat n + 4095" by (simp add: unat_gt_0 Suc_le_eq)
  then show ?thesis by (simp add: div_greater_zero_iff)
qed

lemma pmm_alloc_pages_hhdm_eq:
  assumes "pmm_ok s" "0 \<in> used s" "n \<noteq> 0" "n \<le> -1 - (PMM_FRAME_SIZE - 1)"
  defines "pages \<equiv> (unat n + 4095) div 4096"
  shows "if \<exists>r. run_free s pages r
    then \<exists>s' r. r = (LEAST r. run_free s pages r) \<and> 0 < r \<and> r + pages \<le> 2 ^ 20 \<and> run_free s pages r \<and> to_used s (used s \<union> {r..<r + pages}) s' \<and>
      pmm_alloc_pages_hhdm n s = Some (of_nat r * PMM_FRAME_SIZE + MM_HHDM_BASE, Some (of_nat r * PMM_FRAME_SIZE, of_nat pages), s')
    else pmm_alloc_pages_hhdm n s = Some (0, None, s)"
proof -
  let ?p = "(n + PMM_FRAME_SIZE - 1) div PMM_FRAME_SIZE"
  have "unat n + 4095 < 2 ^ 64" using assms(4) by (simp add: PMM_FRAME_SIZE_def word_le_nat_alt)
  moreover have "n + PMM_FRAME_SIZE - 1 = of_nat (unat n + 4095)" by (simp add: PMM_FRAME_SIZE_def)
  ultimately have "unat (n + PMM_FRAME_SIZE - 1) = unat n + 4095" using unat_of_nat_u64 by metis
  then have p1: "unat ?p = pages" by (simp add: pages_def unat_div) (simp add: PMM_FRAME_SIZE_def)
  then have p: "unat ?p = pages" "?p = of_nat pages" by auto
  have pos: "0 < pages" using pages_pos [OF assms(3)] by (simp add: pages_def)
  then have "?p \<noteq> 0" using p by auto
  then obtain addr s' where a: "pmm_alloc_contiguous ?p s = Some (addr, s')" "take_spec s pages (addr, s')"
    using pmm_alloc_contiguous_eq [OF assms(1)] p by (metis surj_pair)
  have guard: "\<not> n > -1 - (PMM_FRAME_SIZE - 1)" using assms(4) by simp
  from alloc_take [OF assms(1,2) pos a(2)] show ?thesis
  proof
    assume "addr = 0 \<and> s' = s \<and> (\<forall>r. \<not> run_free s pages r)"
    then show ?thesis using a(1) assms(3) guard by (simp add: pmm_alloc_pages_hhdm_def Let_def)
  next
    assume "\<exists>r. 0 < r \<and> r + pages \<le> 2 ^ 20 \<and> addr = of_nat r * PMM_FRAME_SIZE \<and> addr \<noteq> 0 \<and> run_free s pages r \<and> r = (LEAST r. run_free s pages r) \<and>
      to_used s (used s \<union> {r..<r + pages}) s'"
    then obtain r where r: "0 < r" "r + pages \<le> 2 ^ 20" "addr = of_nat r * PMM_FRAME_SIZE" "addr \<noteq> 0" "run_free s pages r" "r = (LEAST r. run_free s pages r)"
      "to_used s (used s \<union> {r..<r + pages}) s'" by blast
    note h = run_in_hhdm [of r ?p]
    have "pmm_alloc_pages_hhdm n s = Some (of_nat r * PMM_FRAME_SIZE + MM_HHDM_BASE, Some (of_nat r * PMM_FRAME_SIZE, ?p), s')"
      using h r(1-4) pos p(1) a(1) assms(3) guard by (simp add: pmm_alloc_pages_hhdm_def Let_def)
    then show ?thesis using r p(2) by auto
  qed
qed

text \<open>The frames of an allocation, given its address and count.\<close>

definition block :: "u64 \<times> u64 \<Rightarrow> nat set" where
  "block b = {unat (fst b) div 4096..<unat (fst b) div 4096 + unat (snd b)}"

text \<open>What clients can do from state \<open>s0\<close> on: allocate in the three ways, and release what they hold. The last argument is the list of allocations that
  are held.\<close>

inductive pmm_run :: "pmm_state \<Rightarrow> pmm_state \<Rightarrow> (u64 \<times> u64) list \<Rightarrow> bool" for s0 where
  start: "pmm_run s0 s0 []"
| frame: "pmm_run s0 s L \<Longrightarrow> pmm_alloc_frame s = Some (addr, s') \<Longrightarrow> pmm_run s0 s' (if addr = 0 then L else (addr, 1) # L)"
| contiguous: "pmm_run s0 s L \<Longrightarrow> pmm_alloc_contiguous n s = Some (addr, s') \<Longrightarrow> pmm_run s0 s' (if addr = 0 then L else (addr, n) # L)"
| pages: "pmm_run s0 s L \<Longrightarrow> pmm_alloc_pages_hhdm n s = Some (virt, out, s') \<Longrightarrow> pmm_run s0 s' (case out of None \<Rightarrow> L | Some b \<Rightarrow> b # L)"
| release: "pmm_run s0 s L \<Longrightarrow> (addr, n) \<in> set L \<Longrightarrow> pmm_free_contiguous addr n s = Some s' \<Longrightarrow> pmm_run s0 s' (remove1 (addr, n) L)"

definition held :: "pmm_state \<Rightarrow> pmm_state \<Rightarrow> (u64 \<times> u64) list \<Rightarrow> bool" where
  "held s0 s L \<longleftrightarrow>
     pmm_ok s \<and> total_frames s = total_frames s0 \<and> used s = used s0 \<union> (\<Union>b \<in> set L. block b) \<and>
     sorted_wrt (\<lambda>b c. block b \<inter> block c = {}) L \<and>
     (\<forall>b \<in> set L. block b \<inter> used s0 = {} \<and> block b \<noteq> {} \<and>
       (\<exists>r. 0 < r \<and> r + unat (snd b) \<le> 2 ^ 20 \<and> fst b = of_nat r * PMM_FRAME_SIZE))"

lemma block_addr: "r + unat n \<le> 2 ^ 20 \<Longrightarrow> 0 < unat n \<Longrightarrow> block (of_nat r * PMM_FRAME_SIZE, n) = {r..<r + unat n}"
  using frame_addr(1) [of r] by (simp add: block_def)

lemma held_take:
  assumes "held s0 s L" "to_used s (used s \<union> {r..<r + unat n}) s'" "run_free s (unat n) r" "0 < r" "r + unat n \<le> 2 ^ 20" "0 < unat n"
  shows "held s0 s' ((of_nat r * PMM_FRAME_SIZE, n) # L)"
proof -
  note b = block_addr [OF assms(5,6)]
  have "{r..<r + unat n} \<inter> used s = {}" using assms(3) by (simp add: run_free_def)
  moreover have "used s = used s0 \<union> (\<Union>b \<in> set L. block b)" using assms(1) by (simp add: held_def)
  ultimately have "{r..<r + unat n} \<inter> used s0 = {}" "\<forall>c \<in> set L. {r..<r + unat n} \<inter> block c = {}" by auto
  then show ?thesis using assms b unfolding held_def to_used_def by auto
qed

lemma sorted_remove1:
  assumes "sorted_wrt (\<lambda>b c. P b \<inter> P c = {}) L" "x \<in> set L" "P x \<noteq> {}" "\<And>c. c \<in> set L \<Longrightarrow> P c \<noteq> {}"
  shows "sorted_wrt (\<lambda>b c. P b \<inter> P c = {}) (remove1 x L)" "\<Union> (P ` set (remove1 x L)) = \<Union> (P ` set L) - P x"
  using assms
proof (induction L)
  case (Cons y L)
  {
    case 1
    then show ?case using Cons.IH(1) set_remove1_subset [of x L] by (cases "x = y") auto
  next
    case 2
    show ?case
    proof (cases "x = y")
      case True
      then have "\<forall>c \<in> set L. P y \<inter> P c = {}" using 2(1) by simp
      then show ?thesis using True by auto
    next
      case False
      then have "x \<in> set L" "P y \<inter> P x = {}" using 2 by auto
      then show ?thesis using False Cons.IH(2) 2 by auto
    qed
  }
qed simp_all

lemma held_release:
  assumes "held s0 s L" "(addr, n) \<in> set L" "pmm_free_contiguous addr n s = Some s'"
  shows "held s0 s' (remove1 (addr, n) L)"
proof -
  obtain r where r: "0 < r" "r + unat n \<le> 2 ^ 20" "addr = of_nat r * PMM_FRAME_SIZE" using assms(1,2) by (fastforce simp: held_def)
  have ne: "block c \<noteq> {}" if "c \<in> set L" for c using assms(1) that by (simp add: held_def)
  have n: "0 < unat n" using ne [OF assms(2)] by (auto simp: block_def)
  note b = block_addr [OF r(2) n, folded r(3)]
  have ok: "pmm_ok s" and s: "sorted_wrt (\<lambda>b c. block b \<inter> block c = {}) L" and u: "used s = used s0 \<union> \<Union> (block ` set L)" and d: "block (addr, n) \<inter> used s0 = {}"
    using assms(1,2) by (auto simp: held_def)
  have "to_used s (used s - block (addr, n)) s'"
    using pmm_free_contiguous_eq [OF ok r(2,1)] assms(3) r(3) b by auto
  moreover have "used s - block (addr, n) = used s0 \<union> \<Union> (block ` set (remove1 (addr, n) L))"
    using sorted_remove1(2) [OF s assms(2) ne [OF assms(2)] ne] u d by auto
  ultimately show ?thesis
    using sorted_remove1(1) [OF s assms(2) ne [OF assms(2)] ne] assms(1) set_remove1_subset [of "(addr, n)" L]
    unfolding held_def to_used_def by auto
qed

lemma held_alloc:
  assumes "held s0 s L" "0 \<in> used s0" "0 < unat n" "take_spec s (unat n) (addr, s')"
  shows "held s0 s' (if addr = 0 then L else (addr, n) # L)"
proof -
  have "pmm_ok s" "0 \<in> used s" using assms(1,2) by (auto simp: held_def)
  from alloc_take [OF this assms(3,4)] show ?thesis using held_take [OF assms(1)] assms(1,3) by auto
qed

lemma pmm_run_held:
  assumes "pmm_run s0 s L" "pmm_ok s0" "0 \<in> used s0"
  shows "held s0 s L"
  using assms(1)
proof (induction rule: pmm_run.induct)
  case start
  then show ?case using assms(2) by (simp add: held_def)
next
  case (frame s L addr s')
  then show ?case using pmm_alloc_frame_eq [of s] held_alloc [OF frame(3) assms(3), of 1] by (auto simp: held_def)
next
  case (contiguous s L n addr s')
  show ?case
  proof (cases "n = 0")
    case True
    then show ?thesis using contiguous by (auto simp: pmm_alloc_contiguous_def)
  next
    case False
    moreover have "pmm_ok s" using contiguous(3) by (simp add: held_def)
    ultimately show ?thesis
      using pmm_alloc_contiguous_eq [of s n] contiguous(2) held_alloc [OF contiguous(3) assms(3), of n] by (auto simp: unat_gt_0)
  qed
next
  case (pages s L n virt out s')
  have ok: "pmm_ok s" "0 \<in> used s" using pages(3) assms(3) by (auto simp: held_def)
  show ?case
  proof (cases "n = 0 \<or> n > -1 - (PMM_FRAME_SIZE - 1)")
    case True
    then have "pmm_alloc_pages_hhdm n s = Some (0, None, s)" by (auto simp: pmm_alloc_pages_hhdm_def PMM_FRAME_SIZE_def)
    then have "out = None" "s' = s" using pages(2) by simp_all
    then show ?thesis using pages(3) by simp
  next
    case False
    then have n: "n \<noteq> 0" "n \<le> -1 - (PMM_FRAME_SIZE - 1)" by (simp_all add: not_less)
    let ?p = "(unat n + 4095) div 4096"
    have "0 < ?p" by (rule pages_pos [OF n(1)])
    moreover have "unat (of_nat ?p :: u64) = ?p" if "r + ?p \<le> 2 ^ 20" for r using that by (intro unat_of_nat_u64) simp
    ultimately show ?thesis
      using pmm_alloc_pages_hhdm_eq [OF ok n] pages(2,3) held_take [OF pages(3), of _ "of_nat ?p"] by (auto split: if_splits)
  qed
next
  case (release s L addr n s')
  then show ?case using held_release by blast
qed

end
