(* ===== verification/Mm_Heap_Init.thy ===== *)
theory Mm_Heap_Init
  imports Mm_Heap_Store Mm_Pmm_Facts
begin

text \<open>
  \<open>heap_init\<close>: the arena comes from the physical memory manager, as one run of frames or, on the fallback path, frame by frame. The heap that is made satisfies the invariant and
  lies in frames that were free.
\<close>

section \<open>The first block\<close>

definition first_block :: "nat \<Rightarrow> blk" where
  "first_block n = \<lparr>live = False, req = 0, ptag = 0, pad3 = (0, 0, 0), front = 0, body = replicate (n - 48) 0\<rparr>"

lemma zero_enc32: "enc32 0 = replicate 4 0"
  by (simp add: enc32_def numeral_eq_Suc)

definition zero_hdr :: hdr where
  "zero_hdr = \<lparr>h_size = 0, h_next = 0, h_cookie = 0, h_req = 0, h_tag = 0, h_free = 0, h_pad = (0, 0, 0), h_front = 0\<rparr>"

lemma enc_zero_hdr: "enc_hdr zero_hdr = replicate 48 0"
  by (simp add: enc_hdr_def zero_hdr_def enc64_0 zero_enc32 numeral_eq_Suc)

lemma bm_of_empty: "bm_of {} = replicate 2048 0"
proof (rule nth_equalityI)
  fix i assume "i < length (bm_of {})"
  then show "bm_of {} ! i = replicate 2048 0 ! i" by (intro bit_word_eqI) (simp add: bm_of_def bit_horner_sum_bit_word_iff)
qed simp

lemma first_block_ok:
  assumes "arena_ok base n" "4096 dvd n" "0 < n"
  shows "blocks_ok base n [first_block n]" "heap_ok (conc base n [first_block n])" "regions (conc base n [first_block n]) = Map.empty"
proof -
  obtain k where k: "n = 4096 * k" using assms(2) by (rule dvdE)
  then have "0 < k" using assms(3) by simp
  then have "48 < n" using k by simp
  moreover have "n - 48 = 16 * (256 * k - 3)" using k by simp
  then have "16 dvd n - 48" by (metis dvd_triv_left)
  ultimately show ok: "blocks_ok base n [first_block n]" using assms(1) by (simp add: blocks_ok_def first_block_def blen_def blk_ok_def)
  then show "heap_ok (conc base n [first_block n])" by (simp add: heap_ok_conc)
  show "regions (conc base n [first_block n]) = Map.empty" using ok by (auto simp: fun_eq_iff regions_conc hold_def first_block_def)
qed

lemma heap_make_eq:
  assumes "arena_ok base (pages * 4096)" and "0 < pages"
  shows "heap_make base pages = Some (conc base (pages * 4096) [first_block (pages * 4096)])"
proof -
  let ?n = "pages * 4096"
  have n: "?n \<le> 2097152" "48 < ?n" using assms by (simp_all add: arena_ok_def)
  have w: "of_nat pages * HEAP_PAGE_SIZE = (of_nat ?n :: u64)" "unat (of_nat ?n :: u64) = ?n"
    using n(1) by (simp add: HEAP_PAGE_SIZE_def, subst unat_of_nat_u64) simp_all
  have m: "replicate ?n (0 :: u8) = [] @ enc_hdr zero_hdr @ replicate (?n - 48) 0"
    using n(2) by (simp add: enc_zero_hdr replicate_add [symmetric])
  have h: "\<lparr>heap_start_block = base, arena = replicate ?n 0, total_heap_size = of_nat ?n, used_bytes = 0, s_block_bitmap = replicate 2048 0, s_heap_poisoned = False\<rparr> =
      HS base ([] @ enc_hdr zero_hdr @ replicate (?n - 48) 0) (of_nat ?n) 0 (bm_of {}) False"
    unfolding m bm_of_empty HS_def ..
  have hdr: "zero_hdr\<lparr>h_size := of_nat ?n - HEADER_SIZE, h_free := 1, h_next := 0\<rparr> = hdr_of base ?n 0 (first_block ?n)"
    using n(2) by (simp add: zero_hdr_def hdr_of_def first_block_def blen_def HEADER_SIZE_def of_nat_diff)
  have bm: "heap_bm_set base (HS base mm t u (bm_of {}) p) = Some (HS base mm t u (bm_of {0}) p)" for mm t u p
    using bm_HS(1) [of base base 0] by simp
  have g: "grans 0 [first_block ?n] = {0}" "live_bytes [first_block ?n] = 0" by (simp_all add: first_block_def)
  have b: "flat base ?n 0 [first_block ?n] = [] @ enc_hdr (hdr_of base ?n 0 (first_block ?n)) @ replicate (?n - 48) 0" by (simp add: first_block_def)
  show ?thesis
    unfolding heap_make_def Let_def w h conc_HS b hdr [symmetric] g using n
    by (simp add: heap_eval bm del: append_Nil)
qed

section \<open>The frames of the arena\<close>

lemma frame_addr_eq:
  assumes "f \<le> 2 ^ 20" "g \<le> 2 ^ 20"
  shows "of_nat f * PMM_FRAME_SIZE = (of_nat g * PMM_FRAME_SIZE :: u64) \<longleftrightarrow> f = g"
proof -
  have "unat (of_nat (k * 4096) :: u64) = k * 4096" if "k \<le> 2 ^ 20" for k using that by (intro unat_of_nat_u64) simp
  from this [OF assms(1)] this [OF assms(2)] show ?thesis by (simp add: PMM_FRAME_SIZE_def word_unat_eq_iff)
qed

lemma page_addr: "of_nat r * PMM_FRAME_SIZE + of_nat i * HEAP_PAGE_SIZE = (of_nat (r + i) * PMM_FRAME_SIZE :: u64)"
  by (simp add: PMM_FRAME_SIZE_def HEAP_PAGE_SIZE_def algebra_simps)

text \<open>One frame, taken if it is the one that is wanted and given back otherwise.\<close>

lemma next_frame:
  assumes "pmm_ok s" "0 \<in> used s" "g \<le> 2 ^ 20"
  shows "\<exists>f s'. pmm_alloc_frame s = Some (f, s') \<and>
    (f = 0 \<and> s' = s \<and> (\<forall>r. \<not> run_free s 1 r) \<or>
     f \<noteq> 0 \<and> f = of_nat g * PMM_FRAME_SIZE \<and> g < 2 ^ 20 \<and> g \<notin> used s \<and> to_used s (insert g (used s)) s' \<or>
     f \<noteq> 0 \<and> f \<noteq> of_nat g * PMM_FRAME_SIZE \<and> (\<exists>s''. pmm_free_frame f s' = Some s'' \<and> to_used s (used s) s''))"
proof -
  obtain f s' where a: "pmm_alloc_frame s = Some (f, s')" "take_spec s 1 (f, s')" using pmm_alloc_frame_eq [OF assms(1)] by (metis surj_pair)
  from alloc_take [OF assms(1,2) _ a(2)] consider "f = 0 \<and> s' = s \<and> (\<forall>r. \<not> run_free s 1 r)"
    | r where "0 < r" "r + 1 \<le> 2 ^ 20" "f = of_nat r * PMM_FRAME_SIZE" "f \<noteq> 0" "run_free s 1 r" "to_used s (used s \<union> {r..<r + 1}) s'" by fastforce
  then show ?thesis
  proof cases
    case 1
    then show ?thesis using a(1) by simp
  next
    case (2 r)
    have fr: "r \<notin> used s" using 2(5) by (auto simp: run_free_def)
    have u: "to_used s (insert r (used s)) s'" using 2(6) by simp
    show ?thesis
    proof (cases "r = g")
      case True
      then show ?thesis using a(1) 2 fr u by auto
    next
      case False
      have "pmm_ok s'" "used s' = insert r (used s)" using u by (simp_all add: to_used_def)
      then obtain s'' where "pmm_free_frame f s' = Some s''" "to_used s' (used s) s''"
        using pmm_free_frame_eq [of s' r] 2(2,3) fr by auto
      moreover from this have "to_used s (used s) s''" using u to_used_trans by blast
      moreover have "f \<noteq> of_nat g * PMM_FRAME_SIZE" using frame_addr_eq [of r g] False 2(2,3) assms(3) by simp
      ultimately show ?thesis using a(1) 2(4) by blast
    qed
  qed
qed

definition got_run :: "pmm_state \<Rightarrow> nat \<Rightarrow> nat \<Rightarrow> pmm_state \<Rightarrow> bool" where
  "got_run s0 r k s \<longleftrightarrow> 0 < r \<and> r + k \<le> 2 ^ 20 \<and> {r..<r + k} \<inter> used s0 = {} \<and> to_used s0 (used s0 \<union> {r..<r + k}) s"

lemma got_run_Suc:
  assumes "got_run s0 r k s" "r + k \<notin> used s" "r + k < 2 ^ 20" "to_used s (insert (r + k) (used s)) s'"
  shows "got_run s0 r (Suc k) s'"
proof -
  have u: "used s = used s0 \<union> {r..<r + k}" using assms(1) by (simp add: got_run_def to_used_def)
  have "insert (r + k) (used s) = used s0 \<union> {r..<r + Suc k}" unfolding u by auto
  then have "to_used s0 (used s0 \<union> {r..<r + Suc k}) s'" using assms(1,4) to_used_trans by (metis got_run_def)
  moreover have "{r..<r + Suc k} \<inter> used s0 = {}" using assms(1,2) u by (auto simp: got_run_def less_Suc_eq)
  ultimately show ?thesis using assms(1,3) by (simp add: got_run_def)
qed

lemma got_run_same: "got_run s0 r k s \<Longrightarrow> to_used s (used s) s' \<Longrightarrow> got_run s0 r k s'"
  by (auto simp: got_run_def to_used_def)

lemma partial_run_eq:
  assumes "pmm_ok s0" "0 \<in> used s0" "got_run s0 r i s" "i \<le> HEAP_INITIAL_PAGES"
  shows "\<exists>k s'. partial_run i (of_nat r * PMM_FRAME_SIZE) s = Some (k, s') \<and> i \<le> k \<and> k \<le> HEAP_INITIAL_PAGES \<and> got_run s0 r k s'"
  using assms(3,4)
proof (induction "HEAP_INITIAL_PAGES - i" arbitrary: i s)
  case 0
  then show ?case by (subst partial_run.simps) auto
next
  case (Suc d)
  then have lt: "i < HEAP_INITIAL_PAGES" by simp
  have s: "pmm_ok s" "0 \<in> used s" "r + i \<le> 2 ^ 20" using Suc.prems(1) assms(2) by (simp_all add: got_run_def to_used_def)
  obtain f s' where a: "pmm_alloc_frame s = Some (f, s')"
      and c: "f = 0 \<and> s' = s \<and> (\<forall>r. \<not> run_free s 1 r) \<or>
     f \<noteq> 0 \<and> f = of_nat (r + i) * PMM_FRAME_SIZE \<and> r + i < 2 ^ 20 \<and> r + i \<notin> used s \<and> to_used s (insert (r + i) (used s)) s' \<or>
     f \<noteq> 0 \<and> f \<noteq> of_nat (r + i) * PMM_FRAME_SIZE \<and> (\<exists>s''. pmm_free_frame f s' = Some s'' \<and> to_used s (used s) s'')"
    using next_frame [OF s] by blast
  from c consider "f = 0" "s' = s" | "f \<noteq> 0" "f = of_nat (r + i) * PMM_FRAME_SIZE" "r + i < 2 ^ 20" "r + i \<notin> used s" "to_used s (insert (r + i) (used s)) s'"
    | s'' where "f \<noteq> 0" "f \<noteq> of_nat (r + i) * PMM_FRAME_SIZE" "pmm_free_frame f s' = Some s''" "to_used s (used s) s''"
    by blast
  then show ?case
  proof cases
    case 1
    then show ?thesis using lt a Suc.prems by (subst partial_run.simps) (auto simp: page_addr)
  next
    case 2
    have d: "d = HEAP_INITIAL_PAGES - Suc i" using Suc.hyps(2) by simp
    have "got_run s0 r (Suc i) s'" by (rule got_run_Suc [OF Suc.prems(1) 2(4,3,5)])
    then obtain k t where "partial_run (Suc i) (of_nat r * PMM_FRAME_SIZE) s' = Some (k, t)" "Suc i \<le> k" "k \<le> HEAP_INITIAL_PAGES" "got_run s0 r k t"
      using Suc.hyps(1) [OF d, of s'] lt by auto
    then show ?thesis using lt a 2(1,2) by (subst partial_run.simps) (auto simp: page_addr)
  next
    case (3 s'')
    then have "got_run s0 r i s''" using got_run_same Suc.prems(1) by blast
    then show ?thesis using lt a 3 by (subst partial_run.simps) (auto simp: page_addr)
  qed
qed

lemma claim_guard_eq:
  assumes "pmm_ok s0" "0 \<in> used s0" "got_run s0 r k s"
  shows "\<exists>s' j. claim_guard (of_nat (r + k) * PMM_FRAME_SIZE) s = Some s' \<and> (j = k \<or> j = Suc k) \<and> got_run s0 r j s'"
proof -
  have s: "pmm_ok s" "0 \<in> used s" "r + k \<le> 2 ^ 20" using assms(2,3) by (simp_all add: got_run_def to_used_def)
  obtain f s' where a: "pmm_alloc_frame s = Some (f, s')"
      and c: "f = 0 \<and> s' = s \<and> (\<forall>r. \<not> run_free s 1 r) \<or>
     f \<noteq> 0 \<and> f = of_nat (r + k) * PMM_FRAME_SIZE \<and> r + k < 2 ^ 20 \<and> r + k \<notin> used s \<and> to_used s (insert (r + k) (used s)) s' \<or>
     f \<noteq> 0 \<and> f \<noteq> of_nat (r + k) * PMM_FRAME_SIZE \<and> (\<exists>s''. pmm_free_frame f s' = Some s'' \<and> to_used s (used s) s'')"
    using next_frame [OF s] by blast
  from c show ?thesis
  proof (elim disjE conjE exE)
    assume "f = 0" "s' = s"
    then show ?thesis using a assms(3) by (auto simp: claim_guard_def)
  next
    assume "f = of_nat (r + k) * PMM_FRAME_SIZE" "r + k < 2 ^ 20" "r + k \<notin> used s" "to_used s (insert (r + k) (used s)) s'"
    then show ?thesis using a got_run_Suc [OF assms(3), of s'] by (auto simp: claim_guard_def)
  next
    fix s'' assume "f \<noteq> 0" "f \<noteq> of_nat (r + k) * PMM_FRAME_SIZE" "pmm_free_frame f s' = Some s''" "to_used s (used s) s''"
    then show ?thesis using a got_run_same [OF assms(3)] by (auto simp: claim_guard_def)
  qed
qed

lemma arena_frames:
  assumes "0 < r" "r + k \<le> 2 ^ 20" "k \<le> 512"
  shows "arena_ok (of_nat r * PMM_FRAME_SIZE) (k * 4096)"
proof -
  have u: "unat (of_nat (r * 4096) :: u64) = r * 4096" using assms by (intro unat_of_nat_u64) simp
  have e: "of_nat r * PMM_FRAME_SIZE = (of_nat (r * 4096) :: u64)" by (simp add: PMM_FRAME_SIZE_def)
  have "(of_nat (r * 4096) :: u64) \<noteq> 0" using u assms(1) by (metis mult_eq_0_iff unat_0 zero_neq_numeral less_numeral_extra(3))
  moreover have "16 dvd r * 4096" by simp
  ultimately show ?thesis unfolding e using u assms by (simp add: arena_ok_def del: of_nat_mult)
qed

text \<open>What a successful initialization gives: \<open>k\<close> frames from \<open>r\<close> on, all free before, hold an empty heap; at most the next frame is taken besides.\<close>

definition heap_made :: "pmm_state \<Rightarrow> nat \<Rightarrow> nat \<Rightarrow> pmm_state \<Rightarrow> heap \<Rightarrow> bool" where
  "heap_made s r k s' h \<longleftrightarrow> 0 < k \<and> k \<le> 512 \<and> (got_run s r k s' \<or> got_run s r (Suc k) s') \<and> heap_ok h \<and> regions h = Map.empty \<and>
     heap_start_block h = of_nat r * PMM_FRAME_SIZE \<and> length (arena h) = k * 4096"

lemma made_from:
  assumes "0 < r" "r + k \<le> 2 ^ 20" "0 < k" "k \<le> 512" "got_run s r k s' \<or> got_run s r (Suc k) s'"
  defines "h \<equiv> conc (of_nat r * PMM_FRAME_SIZE) (k * 4096) [first_block (k * 4096)]"
  shows "heap_make (of_nat r * PMM_FRAME_SIZE) k = Some h" "heap_made s r k s' h" "heap_verdict h = BOOT_OK" "total_heap_size h = of_nat (k * 4096)"
proof -
  note a = arena_frames [OF assms(1,2,4)]
  have f: "4096 dvd k * 4096" "0 < k * 4096" using assms(3) by simp_all
  note b = first_block_ok [OF a f]
  show "heap_make (of_nat r * PMM_FRAME_SIZE) k = Some h" unfolding h_def by (rule heap_make_eq [OF a assms(3)])
  have "length (arena h) = k * 4096" using b(1) by (simp add: h_def conc_def blocks_ok_def blen_def)
  then show "heap_made s r k s' h" using assms(3,4,5) b(2,3) unfolding heap_made_def h_def by (simp add: conc_def)
  show t: "total_heap_size h = of_nat (k * 4096)" by (simp add: h_def conc_def)
  have "unat (of_nat (k * 4096) :: u64) = k * 4096" using assms(4) by (intro unat_of_nat_u64) simp
  then have "0 < total_heap_size h" unfolding t using assms(3) by (simp add: word_less_nat_alt del: of_nat_mult)
  then show "heap_verdict h = BOOT_OK" using a by (simp add: heap_verdict_def arena_ok_def) (simp add: h_def conc_def)
qed

lemma heap_init_eq:
  assumes "pmm_ok s" "0 \<in> used s"
  shows "heap_init s = Some (BOOT_FATAL, s, None) \<and> {..<unat (total_frames s)} \<subseteq> used s \<or>
    (\<exists>r k s' h. heap_init s = Some (BOOT_OK, s', Some h) \<and> heap_made s r k s' h \<and> ((\<exists>f. run_free s 513 f) \<longrightarrow> k = 512 \<and> got_run s r 513 s'))"
proof -
  have c: "(of_nat HEAP_INITIAL_PAGES + 1 :: u64) = 513" "unat (513 :: u64) = 513" by (simp_all add: HEAP_INITIAL_PAGES_def)
  obtain base t where a: "pmm_alloc_contiguous 513 s = Some (base, t)" "take_spec s 513 (base, t)"
    using pmm_alloc_contiguous_eq [OF assms(1), of 513] by auto
  from alloc_take [OF assms zero_less_numeral a(2)] show ?thesis
  proof (elim disjE exE conjE)
    fix r assume r: "0 < r" "r + 513 \<le> 2 ^ 20" "base = of_nat r * PMM_FRAME_SIZE" "base \<noteq> 0" "run_free s 513 r" "to_used s (used s \<union> {r..<r + 513}) t"
    then have g: "got_run s r (Suc 512) t" by (simp add: got_run_def run_free_def)
    note m = made_from [of r 512 s t]
    show ?thesis using r(1-4) g a(1) m unfolding heap_init_def c by (auto simp: HEAP_INITIAL_PAGES_def)
  next
    assume z: "base = 0" "t = s" "\<forall>r. \<not> run_free s 513 r"
    obtain f u where f: "pmm_alloc_frame s = Some (f, u)" "take_spec s 1 (f, u)" using pmm_alloc_frame_eq [OF assms(1)] by (metis surj_pair)
    from alloc_take [OF assms zero_less_one f(2)] show ?thesis
    proof (elim disjE exE conjE)
      assume n: "f = 0" "u = s" "\<forall>r. \<not> run_free s 1 r"
      have "{..<unat (total_frames s)} \<subseteq> used s" using n(3) by auto
      then show ?thesis using a(1) f(1) z(1,2) n(1,2) unfolding heap_init_def c by simp
    next
      fix r assume r: "0 < r" "r + 1 \<le> 2 ^ 20" "f = of_nat r * PMM_FRAME_SIZE" "f \<noteq> 0" "run_free s 1 r" "to_used s (used s \<union> {r..<r + 1}) u"
      then have g: "got_run s r 1 u" by (simp add: got_run_def)
      obtain k v where k: "partial_run 1 f u = Some (k, v)" "1 \<le> k" "k \<le> HEAP_INITIAL_PAGES" "got_run s r k v"
        using partial_run_eq [OF assms g] r(3) by (auto simp: HEAP_INITIAL_PAGES_def)
      obtain w j where w: "claim_guard (of_nat (r + k) * PMM_FRAME_SIZE) v = Some w" "j = k \<or> j = Suc k" "got_run s r j w"
        using claim_guard_eq [OF assms k(4)] by blast
      have k': "0 < k" "k \<le> 512" "r + k \<le> 2 ^ 20" using k by (simp_all add: HEAP_INITIAL_PAGES_def got_run_def)
      have "got_run s r k w \<or> got_run s r (Suc k) w" using w by blast
      note m = made_from [OF r(1) k'(3,1,2) this]
      have "of_nat r * PMM_FRAME_SIZE + of_nat (k * 4096) = (of_nat (r + k) * PMM_FRAME_SIZE :: u64)" by (simp add: PMM_FRAME_SIZE_def algebra_simps)
      then have "heap_init s = Some (BOOT_OK, w, Some (conc (of_nat r * PMM_FRAME_SIZE) (k * 4096) [first_block (k * 4096)]))"
        using a(1) z(1,2) f(1) r(3,4) k(1) w(1) m(1,3,4) unfolding heap_init_def c by simp
      then show ?thesis using m(2) z(3) by blast
    qed
  qed
qed

end
