(* ===== verification/Boot_Payload.thy ===== *)
theory Boot_Payload
  imports Boot_Info
begin

text \<open>
  \<open>src/kernel/main/boot_payload.c\<close>: the validator of the payload descriptors in the boot handoff, the length contract and the budget of
  payload reservations (\<open>include/boot/boot_payload_limits.h\<close>), and the lookup. A function with an \<open>out_error\<close> parameter returns the
  error beside its result. The functions that only format log messages are left out.
\<close>

section \<open>Ranges\<close>

definition is_power_of_two_u64 :: "u64 \<Rightarrow> bool" where
  "is_power_of_two_u64 x \<longleftrightarrow> (if x = 0 then False else x AND (x - 1) = 0)"

definition ranges_overlap :: "u64 \<Rightarrow> u64 \<Rightarrow> u64 \<Rightarrow> u64 \<Rightarrow> bool" where
  "ranges_overlap a_start a_len b_start b_len \<longleftrightarrow>
     (if a_len = 0 \<or> b_len = 0 then False
      else let a_end = a_start + a_len; b_end = b_start + b_len in a_start < b_end \<and> b_start < a_end)"

definition range_end_overflows :: "u64 \<Rightarrow> u64 \<Rightarrow> bool" where
  "range_end_overflows start len \<longleftrightarrow> (if len = 0 then False else len > -1 - start)"

section \<open>Types and limits\<close>

definition descriptor_is_empty_slot :: "boot_payload_desc \<Rightarrow> bool" where
  "descriptor_is_empty_slot d \<longleftrightarrow>
     pd_type d = BOOT_PAYLOAD_NONE \<and> pd_flags d = 0 \<and> pd_phys_start d = 0 \<and> pd_length d = 0 \<and> pd_alignment d = 0 \<and>
     pd_checksum d = 0 \<and> pd_producer_id d = 0 \<and> pd_reserved d = 0"

definition type_is_known :: "u32 \<Rightarrow> bool" where
  "type_is_known t \<longleftrightarrow> t \<in> {BOOT_PAYLOAD_NONE, BOOT_PAYLOAD_MODULE, 2, 3, 4, 5, 6, BOOT_PAYLOAD_RANDOM_SEED, 8,
     BOOT_PAYLOAD_WARM_UPDATE_STATE, BOOT_PAYLOAD_HEADLESS_AUTHZ}"

text \<open>The smallest and the largest length that may be pinned; a maximum of 0 means never.\<close>

definition payload_limits :: "u32 \<Rightarrow> (u64 \<times> u64) option" where
  "payload_limits t =
     (if t = 1 \<or> t = 2 \<or> t = 3 then Some (1, 268435456)
      else if t = 4 \<or> t = 5 \<or> t = 6 \<or> t = 8 then Some (0, 0)
      else if t = 7 then Some (32, 16384)
      else if t = 9 then Some (4096, 67108864)
      else if t = 10 then Some (152, 152)
      else None)"

definition boot_payload_length_reservable :: "u32 \<Rightarrow> u64 \<Rightarrow> bool" where
  "boot_payload_length_reservable t len \<longleftrightarrow>
     (if \<not> type_is_known t then False
      else if t = BOOT_PAYLOAD_NONE then False
      else if len = 0 then False
      else case payload_limits t of
          Some (lo, hi) \<Rightarrow> hi \<noteq> 0 \<and> len \<ge> lo \<and> len \<le> hi
        | None \<Rightarrow> False)"

definition BOOT_PAYLOAD_RESERVE_TOTAL_MAX :: u64 where "BOOT_PAYLOAD_RESERVE_TOTAL_MAX = 805306368"

definition BOOT_PAYLOAD_TYPE_IS_REPEATABLE :: "u32 \<Rightarrow> bool" where
  "BOOT_PAYLOAD_TYPE_IS_REPEATABLE t \<longleftrightarrow> t = 1 \<or> t = 7"

definition boot_payload_budget_admits :: "u64 \<Rightarrow> u64 \<Rightarrow> bool" where
  "boot_payload_budget_admits reserved_total len \<longleftrightarrow>
     (if reserved_total > BOOT_PAYLOAD_RESERVE_TOTAL_MAX then False
      else len \<le> BOOT_PAYLOAD_RESERVE_TOTAL_MAX - reserved_total)"

section \<open>Validation\<close>

datatype boot_payload_error =
    BOOT_PAYLOAD_ERR_OK | BOOT_PAYLOAD_ERR_COUNT_OOR | BOOT_PAYLOAD_ERR_PREFIX_VIOLATED | BOOT_PAYLOAD_ERR_RANGE_WRAP
  | BOOT_PAYLOAD_ERR_OVERLAP_BOOT_INFO | BOOT_PAYLOAD_ERR_OVERLAP_RT_MMAP | BOOT_PAYLOAD_ERR_OVERLAP_USB_DMA
  | BOOT_PAYLOAD_ERR_OVERLAP_FB | BOOT_PAYLOAD_ERR_ALIGNMENT | BOOT_PAYLOAD_ERR_UNKNOWN_REQUIRED | BOOT_PAYLOAD_ERR_UNKNOWN_FLAGS
  | BOOT_PAYLOAD_ERR_TOTAL_MISMATCH | BOOT_PAYLOAD_ERR_OVERFLOW_TRUNCATED | BOOT_PAYLOAD_ERR_NONE_NOT_EMPTY
  | BOOT_PAYLOAD_ERR_DESCRIPTOR_OVERLAP | BOOT_PAYLOAD_ERR_MISSING_VALID_FLAG

text \<open>The loops of \<open>payload_overlap_check\<close> over the runtime regions and the DMA pages.\<close>

definition overlap_rt :: "u64 \<Rightarrow> u64 \<Rightarrow> nat \<times> boot_rt_mem_entry \<Rightarrow> unit \<Rightarrow> boot_payload_error + unit" where
  "overlap_rt start len e u =
     (let rt = snd e in
      if num_pages rt > -1 div 4096 then Inl BOOT_PAYLOAD_ERR_OVERLAP_RT_MMAP
      else let rt_len = num_pages rt * 4096 in
        if rt_len = 0 then Inr ()
        else if range_end_overflows (phys_addr rt) rt_len then Inl BOOT_PAYLOAD_ERR_OVERLAP_RT_MMAP
        else if ranges_overlap start len (phys_addr rt) rt_len then Inl BOOT_PAYLOAD_ERR_OVERLAP_RT_MMAP
        else Inr ())"

definition overlap_usb :: "u64 \<Rightarrow> u64 \<Rightarrow> nat \<times> u64 \<Rightarrow> unit \<Rightarrow> boot_payload_error + unit" where
  "overlap_usb start len e u =
     (let dma_start = snd e in
      if dma_start = 0 then Inr ()
      else if range_end_overflows dma_start 4096 then Inl BOOT_PAYLOAD_ERR_OVERLAP_USB_DMA
      else if ranges_overlap start len dma_start 4096 then Inl BOOT_PAYLOAD_ERR_OVERLAP_USB_DMA
      else Inr ())"

definition overlap_fb :: "boot_info \<Rightarrow> u64 \<Rightarrow> u64 \<Rightarrow> boot_payload_error + unit" where
  "overlap_fb info start len =
     (if fb_available info \<noteq> 0 \<and> fb_addr (fb info) \<noteq> 0 \<and> fb_pitch (fb info) \<noteq> 0 \<and> fb_height (fb info) \<noteq> 0 then
        let pitch = ucast (fb_pitch (fb info)) :: u64; height = ucast (fb_height (fb info)) :: u64 in
        if height \<noteq> 0 \<and> pitch > -1 div height then Inl BOOT_PAYLOAD_ERR_OVERLAP_FB
        else let fb_len = pitch * height in
          if range_end_overflows (fb_addr (fb info)) fb_len then Inl BOOT_PAYLOAD_ERR_OVERLAP_FB
          else if ranges_overlap start len (fb_addr (fb info)) fb_len then Inl BOOT_PAYLOAD_ERR_OVERLAP_FB
          else Inr ()
      else Inr ())"

definition payload_overlap_check :: "boot_layout \<Rightarrow> boot_info \<Rightarrow> u64 \<Rightarrow> u64 \<Rightarrow> (boot_payload_error + unit) option" where
  "payload_overlap_check lay info start len =
     (if ranges_overlap start len BOOT_INFO_PHYS_ADDR (sizeof_boot_info lay) then Some (Inl BOOT_PAYLOAD_ERR_OVERLAP_BOOT_INFO)
      else if kernel_end lay > kernel_start lay \<and>
              (range_end_overflows (kernel_start lay) (kernel_end lay - kernel_start lay) \<or>
               ranges_overlap start len (kernel_start lay) (kernel_end lay - kernel_start lay))
      then Some (Inl BOOT_PAYLOAD_ERR_OVERLAP_BOOT_INFO)
      else if rt_mmap_count info > BOOT_RT_MMAP_MAX then Some (Inl BOOT_PAYLOAD_ERR_OVERLAP_RT_MMAP)
      else do {
        rts \<leftarrow> prefix_of (rt_mmap_count info) (rt_mmap info);
        case each (overlap_rt start len) rts () of
          Inl e \<Rightarrow> Some (Inl e)
        | Inr _ \<Rightarrow>
            if dma_page_count (usb_controller info) > BOOT_USB_MAX_DMA_PAGES then Some (Inl BOOT_PAYLOAD_ERR_OVERLAP_USB_DMA)
            else do {
              pages \<leftarrow> prefix_of (dma_page_count (usb_controller info)) (dma_pages (usb_controller info));
              case each (overlap_usb start len) pages () of
                Inl e \<Rightarrow> Some (Inl e)
              | Inr _ \<Rightarrow> Some (overlap_fb info start len) } })"

text \<open>The inner loop over the descriptors before this one.\<close>

definition overlaps_earlier :: "boot_payload_desc \<Rightarrow> boot_payload_desc list \<Rightarrow> bool" where
  "overlaps_earlier d es \<longleftrightarrow>
     (\<exists>e \<in> set es. \<not> descriptor_is_empty_slot e \<and> ranges_overlap (pd_phys_start d) (pd_length d) (pd_phys_start e) (pd_length e))"

text \<open>The checks of one occupied slot before its ranges, and after them; \<open>tot\<close> is the running sum.\<close>

definition slot_shape :: "boot_info \<Rightarrow> nat \<Rightarrow> boot_payload_desc \<Rightarrow> boot_payload_error + unit" where
  "slot_shape info i d =
     (if i \<ge> unat (payload_count info) then Inl BOOT_PAYLOAD_ERR_PREFIX_VIOLATED
      else if \<not> (pd_type d = BOOT_PAYLOAD_WARM_UPDATE_STATE \<and> pd_flags d = 0) \<and> pd_flags d AND BOOT_PAYLOAD_FLAG_VALID = 0
      then Inl BOOT_PAYLOAD_ERR_MISSING_VALID_FLAG
      else if pd_length d > -1 - pd_phys_start d then Inl BOOT_PAYLOAD_ERR_RANGE_WRAP
      else if pd_alignment d \<noteq> 0 \<and> \<not> is_power_of_two_u64 (pd_alignment d) then Inl BOOT_PAYLOAD_ERR_ALIGNMENT
      else if pd_alignment d \<noteq> 0 \<and> pd_phys_start d AND (pd_alignment d - 1) \<noteq> 0 then Inl BOOT_PAYLOAD_ERR_ALIGNMENT
      else Inr ())"

definition slot_policy :: "boot_payload_desc \<Rightarrow> u64 \<Rightarrow> boot_payload_error + u64" where
  "slot_policy d tot =
     (let legal_flag_mask = (if pd_type d = BOOT_PAYLOAD_WARM_UPDATE_STATE
                             then BOOT_PAYLOAD_FLAG_MASK_KNOWN OR BOOT_WARM_UPDATE_CONT_MASK_KNOWN else BOOT_PAYLOAD_FLAG_MASK_KNOWN)
      in if pd_flags d AND BOOT_PAYLOAD_FLAG_REQUIRED \<noteq> 0 \<and> \<not> type_is_known (pd_type d) then Inl BOOT_PAYLOAD_ERR_UNKNOWN_REQUIRED
         else if pd_flags d AND BOOT_PAYLOAD_FLAG_REQUIRED \<noteq> 0 \<and> pd_flags d AND NOT legal_flag_mask \<noteq> 0 then Inl BOOT_PAYLOAD_ERR_UNKNOWN_FLAGS
         else if pd_length d > -1 - tot then Inl BOOT_PAYLOAD_ERR_TOTAL_MISMATCH
         else Inr (tot + pd_length d))"

definition validate_slot :: "boot_layout \<Rightarrow> boot_info \<Rightarrow> nat \<Rightarrow> u64 \<Rightarrow> (boot_payload_error + u64) option" where
  "validate_slot lay info i tot =
     (if i < length (payload_descriptors info) then
        let d = payload_descriptors info ! i in
        if pd_type d = BOOT_PAYLOAD_NONE then
          Some (if \<not> descriptor_is_empty_slot d then Inl BOOT_PAYLOAD_ERR_NONE_NOT_EMPTY else Inr tot)
        else case slot_shape info i d of
            Inl e \<Rightarrow> Some (Inl e)
          | Inr _ \<Rightarrow> do {
              ov \<leftarrow> payload_overlap_check lay info (pd_phys_start d) (pd_length d);
              case ov of
                Inl e \<Rightarrow> Some (Inl e)
              | Inr _ \<Rightarrow>
                  if overlaps_earlier d (take i (payload_descriptors info)) then Some (Inl BOOT_PAYLOAD_ERR_DESCRIPTOR_OVERLAP)
                  else Some (slot_policy d tot) }
      else None)"

function validate_slots :: "boot_layout \<Rightarrow> boot_info \<Rightarrow> nat \<Rightarrow> u64 \<Rightarrow> (boot_payload_error + u64) option" where
  "validate_slots lay info i tot =
     (if i < unat BOOT_PAYLOAD_MAX then
        (case validate_slot lay info i tot of
            None \<Rightarrow> None
          | Some (Inl e) \<Rightarrow> Some (Inl e)
          | Some (Inr tot') \<Rightarrow> validate_slots lay info (Suc i) tot')
      else Some (Inr tot))"
  by pat_completeness auto
termination
  by (relation "measure (\<lambda>(lay, info, i, tot). unat BOOT_PAYLOAD_MAX - i)") auto

declare validate_slots.simps [simp del]

definition boot_payload_validate :: "boot_layout \<Rightarrow> boot_info option \<Rightarrow> (boot_result_t \<times> boot_payload_error) option" where
  "boot_payload_validate lay info_ptr =
     (case info_ptr of
        None \<Rightarrow> Some (BOOT_FATAL, BOOT_PAYLOAD_ERR_COUNT_OOR)
      | Some info \<Rightarrow>
          if payload_count info > BOOT_PAYLOAD_MAX then Some (BOOT_FATAL, BOOT_PAYLOAD_ERR_COUNT_OOR)
          else if payload_overflow info \<noteq> 0 then Some (BOOT_FATAL, BOOT_PAYLOAD_ERR_OVERFLOW_TRUNCATED)
          else do {
            r \<leftarrow> validate_slots lay info 0 0;
            case r of
              Inl e \<Rightarrow> Some (BOOT_FATAL, e)
            | Inr tot \<Rightarrow>
                if payload_total_bytes info \<noteq> tot then Some (BOOT_FATAL, BOOT_PAYLOAD_ERR_TOTAL_MISMATCH)
                else Some (BOOT_OK, BOOT_PAYLOAD_ERR_OK) })"

section \<open>Lookup\<close>

text \<open>The index of the \<open>index\<close>-th valid descriptor of a type; \<open>seen\<close> counts the ones passed.\<close>

primrec find_slot :: "u32 \<Rightarrow> u32 \<Rightarrow> (nat \<times> boot_payload_desc) list \<Rightarrow> u32 \<Rightarrow> nat option" where
  "find_slot t index [] seen = None"
| "find_slot t index (x # xs) seen =
     (if pd_type (snd x) \<noteq> t then find_slot t index xs seen
      else if pd_flags (snd x) AND BOOT_PAYLOAD_FLAG_VALID = 0 then find_slot t index xs seen
      else if seen = index then Some (fst x)
      else find_slot t index xs (seen + 1))"

definition boot_payload_find :: "boot_info option \<Rightarrow> u32 \<Rightarrow> u32 \<Rightarrow> nat option option" where
  "boot_payload_find info_ptr t index =
     (case info_ptr of
        None \<Rightarrow> Some None
      | Some info \<Rightarrow>
          if t = BOOT_PAYLOAD_NONE then Some None
          else if payload_count info > BOOT_PAYLOAD_MAX then Some None
          else do {
            ds \<leftarrow> prefix_of (payload_count info) (payload_descriptors info);
            Some (find_slot t index ds 0) })"

end
