(* ===== verification/Boot_Payload_Facts.thy ===== *)
theory Boot_Payload_Facts
  imports Boot_Payload
begin

text \<open>
  What the payload validator guarantees: whatever the handoff says, it reads only the arrays it is given, and the descriptors it
  accepts describe address ranges that do not wrap and overlap neither each other nor any of the regions it compares them with.
\<close>

section \<open>Ranges as sets of addresses\<close>

lemma unat_u64_less: "unat (w :: u64) < 2 ^ 64"
  using unsigned_less [of w, where 'a = nat] by simp

lemma not_fits: "len > -1 - start \<longleftrightarrow> \<not> fits start (len :: u64)"
proof -
  have "unat (-1 :: u64) = 2 ^ 64 - 1" by (simp add: unsigned_minus_1_eq_mask mask_eq_exp_minus_1)
  then have "unat (-1 - start) = 2 ^ 64 - 1 - unat start" by (simp add: unat_sub)
  then show ?thesis using unat_u64_less [of start] by (auto simp: word_less_nat_alt fits_def)
qed

lemma range_end_overflows_iff: "range_end_overflows start len \<longleftrightarrow> \<not> fits start len"
  using not_fits [of start len] unat_u64_less [of start] by (auto simp: range_end_overflows_def fits_def)

lemma unat_end: "fits start len \<Longrightarrow> unat (start + len) = unat start + unat len"
  by (simp add: fits_def unat_plus_if_size word_size)

lemma ranges_overlap_iff:
  assumes "fits a al" "fits b bl"
  shows "ranges_overlap a al b bl \<longleftrightarrow> region a al \<inter> region b bl \<noteq> {}"
proof (cases "al = 0 \<or> bl = 0")
  case True
  then show ?thesis by (auto simp: ranges_overlap_def region_def)
next
  case False
  then have pos: "0 < unat al" "0 < unat bl" by (simp_all add: unat_gt_0)
  have "ranges_overlap a al b bl \<longleftrightarrow> unat a < unat b + unat bl \<and> unat b < unat a + unat al"
    using False unat_end [OF assms(1)] unat_end [OF assms(2)] by (simp add: ranges_overlap_def Let_def word_less_nat_alt)
  also have "\<dots> \<longleftrightarrow> max (unat a) (unat b) \<in> region a al \<inter> region b bl" using pos by (auto simp: region_def max_def)
  also have "\<dots> \<longleftrightarrow> region a al \<inter> region b bl \<noteq> {}" using pos by (auto simp: region_def max_def)
  finally show ?thesis .
qed

lemma sum_unit [simp]: "(\<forall>e. m \<noteq> Inl e) \<longleftrightarrow> m = Inr ()"
  by (cases m) auto

lemma each_unit:
  assumes "each f xs () = Inr ()" "x \<in> set xs"
  shows "f x () = Inr ()"
proof -
  have "\<forall>x \<in> set xs. f x () = Inr ()"
    by (rule each_inv [where P = "\<lambda>ys _. \<forall>y \<in> set ys. f y () = Inr ()", OF assms(1)]) auto
  then show ?thesis using assms(2) by blast
qed

lemma prefix_of_Some: "info_arrays info \<Longrightarrow> rt_mmap_count info \<le> BOOT_RT_MMAP_MAX \<Longrightarrow> \<exists>rts. prefix_of (rt_mmap_count info) (rt_mmap info) = Some rts"
    "info_arrays info \<Longrightarrow> dma_page_count (usb_controller info) \<le> BOOT_USB_MAX_DMA_PAGES \<Longrightarrow>
      \<exists>ps. prefix_of (dma_page_count (usb_controller info)) (dma_pages (usb_controller info)) = Some ps"
  by (simp_all add: prefix_of_def info_arrays_def word_le_nat_alt BOOT_RT_MMAP_MAX_def BOOT_USB_MAX_DMA_PAGES_def)

lemma prefix_of_values: "prefix_of n xs = Some ys \<Longrightarrow> snd ` set ys = set (take (unat n) xs)"
  by (auto simp: prefix_of_def set_zip in_set_conv_nth split: if_splits) (force+)

section \<open>The regions a payload is compared with\<close>

text \<open>They are the handoff structure, the kernel image, the listed regions of the runtime services, one page for each listed DMA page of the USB controller, and the frame buffer. Other memory that the
  kernel keeps is not among them: the event log of the TPM, the scratchpad of the USB controller and what its array has behind the first page, and the boot stack. Those are compared
  later, by \<open>add_region\<close>, for payloads that ask to be reserved.\<close>

definition fb_region :: "boot_info \<Rightarrow> (u64 \<times> u64) set" where
  "fb_region info = (if fb_available info \<noteq> 0 \<and> fb_addr (fb info) \<noteq> 0 \<and> fb_pitch (fb info) \<noteq> 0 \<and> fb_height (fb info) \<noteq> 0
     then {(fb_addr (fb info), ucast (fb_pitch (fb info)) * ucast (fb_height (fb info)))} else {})"

definition compared :: "boot_layout \<Rightarrow> boot_info \<Rightarrow> (u64 \<times> u64) set" where
  "compared lay info =
     {(BOOT_INFO_PHYS_ADDR, sizeof_boot_info lay)} \<union>
     (if kernel_end lay > kernel_start lay then {(kernel_start lay, kernel_end lay - kernel_start lay)} else {}) \<union>
     (\<lambda>rt. (phys_addr rt, num_pages rt * 4096)) ` set (take (unat (rt_mmap_count info)) (rt_mmap info)) \<union>
     (\<lambda>p. (p, 4096)) ` {p \<in> set (take (unat (dma_page_count (usb_controller info))) (dma_pages (usb_controller info))). p \<noteq> 0} \<union>
     fb_region info"

lemma guarded_overlap:
  assumes "fits start len" "\<not> range_end_overflows a l" "\<not> ranges_overlap start len a l"
  shows "region start len \<inter> region a l = {}"
  using assms ranges_overlap_iff by (simp add: range_end_overflows_iff)

lemma overlap_rt_ok: "overlap_rt start len x () = Inr () \<Longrightarrow> fits start len \<Longrightarrow>
    region start len \<inter> region (phys_addr (snd x)) (num_pages (snd x) * 4096) = {}"
  by (cases "num_pages (snd x) * 4096 = 0") (auto simp: overlap_rt_def Let_def guarded_overlap split: if_splits)

lemma overlap_usb_ok: "overlap_usb start len x () = Inr () \<Longrightarrow> fits start len \<Longrightarrow> snd x \<noteq> 0 \<Longrightarrow> region start len \<inter> region (snd x) 4096 = {}"
  by (auto simp: overlap_usb_def Let_def guarded_overlap split: if_splits)

lemma overlap_fb_ok: "overlap_fb info start len = Inr () \<Longrightarrow> fits start len \<Longrightarrow> r \<in> fb_region info \<Longrightarrow> region start len \<inter> region (fst r) (snd r) = {}"
  by (auto simp: overlap_fb_def fb_region_def Let_def guarded_overlap split: if_splits)

lemma payload_overlap_check_total: "info_arrays info \<Longrightarrow> \<exists>r. payload_overlap_check lay info start len = Some r"
  using prefix_of_Some [of info] by (auto simp: payload_overlap_check_def Let_def not_less split: sum.split)

lemma payload_overlap_check_ok:
  assumes "payload_overlap_check lay info start len = Some (Inr ())" "fits start len" "unat (sizeof_boot_info lay) \<le> 65535" "r \<in> compared lay info"
  shows "region start len \<inter> region (fst r) (snd r) = {}"
proof -
  obtain rts ps where p: "prefix_of (rt_mmap_count info) (rt_mmap info) = Some rts" "each (overlap_rt start len) rts () = Inr ()"
      "prefix_of (dma_page_count (usb_controller info)) (dma_pages (usb_controller info)) = Some ps" "each (overlap_usb start len) ps () = Inr ()"
      "overlap_fb info start len = Inr ()"
    using assms(1) by (auto simp: payload_overlap_check_def bind_eq_Some_conv split: if_splits sum.splits)
  have k: "\<not> ranges_overlap start len BOOT_INFO_PHYS_ADDR (sizeof_boot_info lay)"
    "kernel_end lay > kernel_start lay \<Longrightarrow> \<not> range_end_overflows (kernel_start lay) (kernel_end lay - kernel_start lay) \<and>
      \<not> ranges_overlap start len (kernel_start lay) (kernel_end lay - kernel_start lay)"
    using assms(1) by (auto simp: payload_overlap_check_def split: if_splits)
  have b: "fits BOOT_INFO_PHYS_ADDR (sizeof_boot_info lay)" using assms(3) by (simp add: fits_def BOOT_INFO_PHYS_ADDR_def)
  from assms(4) consider "r = (BOOT_INFO_PHYS_ADDR, sizeof_boot_info lay)"
    | "kernel_end lay > kernel_start lay" "r = (kernel_start lay, kernel_end lay - kernel_start lay)"
    | x where "x \<in> set rts" "r = (phys_addr (snd x), num_pages (snd x) * 4096)" | x where "x \<in> set ps" "snd x \<noteq> 0" "r = (snd x, 4096)" | "r \<in> fb_region info"
    unfolding compared_def prefix_of_values [OF p(1), symmetric] prefix_of_values [OF p(3), symmetric] by (auto split: if_splits)
  then show ?thesis
  proof cases
    case 1
    then show ?thesis using k(1) b assms(2) ranges_overlap_iff by simp
  next
    case 2
    then show ?thesis using k(2) guarded_overlap [OF assms(2)] by simp
  next
    case 3
    then show ?thesis using overlap_rt_ok [OF each_unit [OF p(2) 3(1)] assms(2)] by simp
  next
    case 4
    then show ?thesis using overlap_usb_ok [OF each_unit [OF p(4) 4(1)] assms(2)] by simp
  next
    case 5
    then show ?thesis by (rule overlap_fb_ok [OF p(5) assms(2)])
  qed
qed

section \<open>Accepted descriptors\<close>

text \<open>What is required of slot \<open>i\<close>.\<close>

definition slot_ok :: "boot_layout \<Rightarrow> boot_info \<Rightarrow> nat \<Rightarrow> bool" where
  "slot_ok lay info i \<longleftrightarrow>
     (let d = payload_descriptors info ! i; range = region (pd_phys_start d) (pd_length d) in
      if pd_type d = BOOT_PAYLOAD_NONE then descriptor_is_empty_slot d
      else i < unat (payload_count info) \<and> fits (pd_phys_start d) (pd_length d) \<and>
        (pd_alignment d \<noteq> 0 \<longrightarrow> is_power_of_two_u64 (pd_alignment d) \<and> pd_phys_start d AND (pd_alignment d - 1) = 0) \<and>
        (pd_flags d AND BOOT_PAYLOAD_FLAG_VALID \<noteq> 0 \<or> pd_type d = BOOT_PAYLOAD_WARM_UPDATE_STATE \<and> pd_flags d = 0) \<and>
        (pd_flags d AND BOOT_PAYLOAD_FLAG_REQUIRED \<noteq> 0 \<longrightarrow> type_is_known (pd_type d)) \<and>
        (\<forall>(a, l) \<in> compared lay info. range \<inter> region a l = {}) \<and>
        (\<forall>j < i. let e = payload_descriptors info ! j in range \<inter> region (pd_phys_start e) (pd_length e) = {}))"

lemma slot_shape_ok:
  "slot_shape info i d = Inr () \<longleftrightarrow> i < unat (payload_count info) \<and> fits (pd_phys_start d) (pd_length d) \<and>
    (pd_alignment d \<noteq> 0 \<longrightarrow> is_power_of_two_u64 (pd_alignment d) \<and> pd_phys_start d AND (pd_alignment d - 1) = 0) \<and>
    (pd_flags d AND BOOT_PAYLOAD_FLAG_VALID \<noteq> 0 \<or> pd_type d = BOOT_PAYLOAD_WARM_UPDATE_STATE \<and> pd_flags d = 0)"
  unfolding slot_shape_def not_fits by auto

lemma slot_policy_ok:
  assumes "slot_policy d tot = Inr tot'"
  shows "unat tot' = unat tot + unat (pd_length d)" "pd_flags d AND BOOT_PAYLOAD_FLAG_REQUIRED \<noteq> 0 \<longrightarrow> type_is_known (pd_type d)"
  using assms unfolding slot_policy_def Let_def not_fits by (auto simp: unat_end split: if_splits)

lemma empty_region: "descriptor_is_empty_slot e \<Longrightarrow> region (pd_phys_start e) (pd_length e) = {}"
  by (simp add: descriptor_is_empty_slot_def)

lemma slot_fits: "slot_ok lay info j \<Longrightarrow> fits (pd_phys_start (payload_descriptors info ! j)) (pd_length (payload_descriptors info ! j))"
  by (auto simp: slot_ok_def Let_def descriptor_is_empty_slot_def fits_def split: if_splits)

lemma validate_slot_ok:
  assumes "validate_slot lay info i tot = Some (Inr tot')" "unat (sizeof_boot_info lay) \<le> 65535" "\<And>j. j < i \<Longrightarrow> slot_ok lay info j"
  shows "slot_ok lay info i" "unat tot' = unat tot + unat (pd_length (payload_descriptors info ! i))"
proof -
  let ?d = "payload_descriptors info ! i"
  have i: "i < length (payload_descriptors info)" using assms(1) by (simp add: validate_slot_def split: if_splits)
  have "slot_ok lay info i \<and> unat tot' = unat tot + unat (pd_length ?d)"
  proof (cases "pd_type ?d = BOOT_PAYLOAD_NONE")
    case True
    then have "descriptor_is_empty_slot ?d" "tot' = tot" using assms(1) i by (auto simp: validate_slot_def Let_def split: if_splits)
    then show ?thesis using True by (simp add: slot_ok_def descriptor_is_empty_slot_def)
  next
    case False
    have st: "slot_shape info i ?d = Inr ()" "payload_overlap_check lay info (pd_phys_start ?d) (pd_length ?d) = Some (Inr ())"
        "\<not> overlaps_earlier ?d (take i (payload_descriptors info))" "slot_policy ?d tot = Inr tot'"
      using assms(1) i False by (auto simp: validate_slot_def Let_def bind_eq_Some_conv split: sum.splits if_splits)
    note sh = st(1) [unfolded slot_shape_ok]
    have f: "fits (pd_phys_start ?d) (pd_length ?d)" using sh by blast
    have "region (pd_phys_start ?d) (pd_length ?d) \<inter> region (pd_phys_start e) (pd_length e) = {}" if "j < i" "e = payload_descriptors info ! j" for j e
    proof (cases "descriptor_is_empty_slot e")
      case True
      then show ?thesis by (simp add: empty_region)
    next
      case False
      have "e \<in> set (take i (payload_descriptors info))" using that i by (auto simp: in_set_conv_nth)
      then have "\<not> ranges_overlap (pd_phys_start ?d) (pd_length ?d) (pd_phys_start e) (pd_length e)"
        using st(3) False by (auto simp: overlaps_earlier_def)
      then show ?thesis using ranges_overlap_iff [OF f] slot_fits [OF assms(3) [OF that(1)]] that(2) by blast
    qed
    then have "\<forall>j < i. region (pd_phys_start ?d) (pd_length ?d) \<inter>
        region (pd_phys_start (payload_descriptors info ! j)) (pd_length (payload_descriptors info ! j)) = {}" by blast
    moreover have "\<forall>(a, l) \<in> compared lay info. region (pd_phys_start ?d) (pd_length ?d) \<inter> region a l = {}"
      using payload_overlap_check_ok [OF st(2) f assms(2)] by fastforce
    ultimately show ?thesis using False sh slot_policy_ok [OF st(4)] unfolding slot_ok_def Let_def by simp
  qed
  then show "slot_ok lay info i" "unat tot' = unat tot + unat (pd_length ?d)" by blast+
qed

lemma validate_slots_ok:
  assumes "validate_slots lay info i tot = Some (Inr tot')" "i \<le> 32" "unat (sizeof_boot_info lay) \<le> 65535" "\<And>j. j < i \<Longrightarrow> slot_ok lay info j"
    and "unat tot = (\<Sum>j < i. unat (pd_length (payload_descriptors info ! j)))"
  shows "(\<forall>j < 32. slot_ok lay info j) \<and> unat tot' = (\<Sum>j < 32. unat (pd_length (payload_descriptors info ! j)))"
  using assms(1,2,4,5)
proof (induction "32 - i" arbitrary: i tot)
  case 0
  then show ?case by (simp add: validate_slots.simps BOOT_PAYLOAD_MAX_def)
next
  case (Suc n)
  then have "i < 32" by simp
  then obtain t where t: "validate_slot lay info i tot = Some (Inr t)" "validate_slots lay info (Suc i) t = Some (Inr tot')"
    using Suc.prems(1) by (auto simp: validate_slots.simps [of lay info i] BOOT_PAYLOAD_MAX_def split: option.splits sum.splits)
  note v = validate_slot_ok [OF t(1) assms(3) Suc.prems(3)]
  have "slot_ok lay info j" if "j < Suc i" for j using that v(1) Suc.prems(3) by (cases "j = i") auto
  with Suc.hyps t(2) v(2) Suc.prems(4) show ?case by (intro Suc.hyps(1) [of "Suc i" t]) auto
qed

lemma validate_slots_total: "info_arrays info \<Longrightarrow> \<exists>r. validate_slots lay info i tot = Some r"
proof (induction "32 - i" arbitrary: i tot)
  case 0
  then show ?case by (simp add: validate_slots.simps BOOT_PAYLOAD_MAX_def)
next
  case (Suc n)
  let ?d = "payload_descriptors info ! i"
  have i: "i < length (payload_descriptors info)" using Suc.prems Suc.hyps(2) by (simp add: info_arrays_def)
  obtain ov where "payload_overlap_check lay info (pd_phys_start ?d) (pd_length ?d) = Some ov"
    using payload_overlap_check_total [OF Suc.prems] by blast
  then have "\<exists>r. validate_slot lay info i tot = Some r"
    using i by (cases "slot_shape info i ?d"; cases ov) (simp_all add: validate_slot_def Let_def)
  then obtain r where "validate_slot lay info i tot = Some r" by blast
  then show ?case using Suc.hyps(1) [of "Suc i"] Suc.hyps(2) Suc.prems
    by (cases r) (simp_all add: validate_slots.simps [of lay info i])
qed

lemma boot_payload_validate_accepts:
  assumes "boot_payload_validate lay (Some info) = Some (BOOT_OK, e)" "unat (sizeof_boot_info lay) \<le> 65535"
  shows "(\<forall>i < 32. slot_ok lay info i)" "unat (payload_total_bytes info) = (\<Sum>i < 32. unat (pd_length (payload_descriptors info ! i)))"
proof -
  obtain r where r: "validate_slots lay info 0 0 = Some r" using assms(1) by (auto simp: boot_payload_validate_def bind_eq_Some_conv split: if_splits)
  then have "validate_slots lay info 0 0 = Some (Inr (payload_total_bytes info))"
    using assms(1) by (cases r) (auto simp: boot_payload_validate_def split: if_splits)
  from validate_slots_ok [OF this _ assms(2)]
  show "(\<forall>i < 32. slot_ok lay info i)" "unat (payload_total_bytes info) = (\<Sum>i < 32. unat (pd_length (payload_descriptors info ! i)))" by simp_all
qed

lemma boot_payload_validate_total: "info_arrays info \<Longrightarrow> \<exists>r. boot_payload_validate lay (Some info) = Some r"
proof -
  assume "info_arrays info"
  then obtain r where "validate_slots lay info 0 0 = Some r" using validate_slots_total by blast
  then show ?thesis by (cases r) (simp_all add: boot_payload_validate_def)
qed

text \<open>C12: payload validation. Whatever the boot handoff contains, \<open>boot_payload_validate\<close> reads only inside its arrays and returns; and if it accepts, then every slot of type \<open>BOOT_PAYLOAD_NONE\<close>
  is all zero, every other one lies below \<open>payload_count\<close>, the range of every payload does not wrap, honours its alignment, and
  is disjoint from the handoff structure, the kernel image, every listed region of the runtime services, the page at every listed DMA address and the frame buffer, no two payloads overlap, and
  the advertised total is the exact sum of the lengths. Nothing is said of the event log of the TPM, the USB scratchpad, the part of its array behind the first page and the boot stack: the code does
  not compare payloads with them here.\<close>

theorem boot_payload_validate_safe:
  assumes "info_arrays info" and "unat (sizeof_boot_info lay) \<le> 65535"
  shows "\<exists>res e. boot_payload_validate lay (Some info) = Some (res, e) \<and>
    (res = BOOT_OK \<longrightarrow> (\<forall>i < 32. slot_ok lay info i) \<and>
      unat (payload_total_bytes info) = (\<Sum>i < 32. unat (pd_length (payload_descriptors info ! i))))"
proof -
  obtain res e where "boot_payload_validate lay (Some info) = Some (res, e)" using boot_payload_validate_total [OF assms(1)] by fast
  then show ?thesis using boot_payload_validate_accepts [OF _ assms(2)] by blast
qed

section \<open>A sample handoff\<close>

text \<open>One initial RAM disk of a page at 32 MiB, 64 MiB of memory, and a boot stack at 48 MiB.\<close>

definition empty_slot :: boot_payload_desc where
  "empty_slot = \<lparr>pd_type = 0, pd_flags = 0, pd_phys_start = 0, pd_length = 0, pd_alignment = 0, pd_checksum = 0, pd_producer_id = 0, pd_reserved = 0\<rparr>"

definition sample_info :: boot_info where
  "sample_info =
     \<lparr>mmap = \<lparr>base_addr = 0, me_length = 0x4000000, uefi_memory_type = 7\<rparr> # replicate 511 \<lparr>base_addr = 0, me_length = 0, uefi_memory_type = 0\<rparr>,
      mmap_count = 1, fb = \<lparr>fb_addr = 0, fb_pitch = 0, fb_height = 0\<rparr>, fb_available = 0,
      rt_mmap = replicate 64 \<lparr>phys_addr = 0, num_pages = 0\<rparr>, rt_mmap_count = 0, tpm_event_log = 0, tpm_event_log_size = 0,
      usb_controller = \<lparr>usb_active = 0, scratchpad_array_phys = 0, scratchpad_base_phys = 0, scratchpad_page_count = 0,
        dma_pages = replicate 16 0, dma_page_count = 0\<rparr>,
      payload_descriptors = \<lparr>pd_type = 2, pd_flags = 9, pd_phys_start = 0x2000000, pd_length = 0x1000, pd_alignment = 0x1000, pd_checksum = 0,
        pd_producer_id = 1, pd_reserved = 0\<rparr> # replicate 31 empty_slot,
      payload_count = 1, payload_overflow = 0, payload_total_bytes = 0x1000, caps_present = 1, bi_flags = 0,
      kstack_base = 0x3000000, kstack_size = 0x40000, kstack_guard_size = 0x1000\<rparr>"

definition sample_layout :: boot_layout where
  "sample_layout = \<lparr>kernel_start = 0x100000, kernel_end = 0x500000, sizeof_boot_info = 40000\<rparr>"

lemma sample_arrays: "info_arrays sample_info"
  by (simp add: info_arrays_def sample_info_def)

lemma sample_validates: "boot_payload_validate sample_layout (Some sample_info) = Some (BOOT_OK, BOOT_PAYLOAD_ERR_OK)"
  by code_simp

text \<open>The event log of the TPM is not compared: a payload that lies on it is accepted.\<close>

lemma tpm_log_not_compared:
  "boot_payload_validate sample_layout (Some (sample_info\<lparr>tpm_event_log := 0x2000000, tpm_event_log_size := 0x1000, caps_present := 1 OR BOOT_CAP_TPM_EVENT_LOG\<rparr>)) =
    Some (BOOT_OK, BOOT_PAYLOAD_ERR_OK)"
  by code_simp

theorem boot_payload_validate_safe_witness:
  "slot_ok sample_layout sample_info 0 \<and> slot_ok sample_layout sample_info 1 \<and>
    unat (payload_total_bytes sample_info) = (\<Sum>i < 32. unat (pd_length (payload_descriptors sample_info ! i)))"
  using boot_payload_validate_safe [OF sample_arrays, of sample_layout] sample_validates by (simp add: sample_layout_def)

end
