(* ===== verification/Boot_Warm.thy ===== *)
theory Boot_Warm
  imports Boot_Payload_Facts
begin

text \<open>
  \<open>src/kernel/main/boot_warm_update.c\<close>: which warm-update descriptor, if any, a boot may act on. The answer is computed once, sealed, and
  read by both boot phases. The static \<open>s_sel\<close> with \<open>s_sel_sealed\<close> is an optional record, \<^term>\<open>None\<close> before the seal. \<open>verbose\<close>, which only
  governs log messages, is left out.
\<close>

section \<open>One descriptor\<close>

datatype boot_warm_update_decision = BOOT_WARM_UPDATE_COLD_FALLBACK | BOOT_WARM_UPDATE_ACCEPTED

datatype boot_warm_update_error =
    BOOT_WARM_UPDATE_ERR_OK | BOOT_WARM_UPDATE_ERR_NULL_DESC | BOOT_WARM_UPDATE_ERR_WRONG_TYPE | BOOT_WARM_UPDATE_ERR_UNKNOWN_CONT_FLAG
  | BOOT_WARM_UPDATE_ERR_UNALIGNED | BOOT_WARM_UPDATE_ERR_EMPTY | BOOT_WARM_UPDATE_ERR_MISSING_FLAGS
  | BOOT_WARM_UPDATE_ERR_LENGTH_CONTRACT | BOOT_WARM_UPDATE_ERR_RANGE_WRAP

definition warm_update_evaluate :: "boot_payload_desc option \<Rightarrow> boot_warm_update_decision \<times> boot_warm_update_error" where
  "warm_update_evaluate desc =
     (case desc of
        None \<Rightarrow> (BOOT_WARM_UPDATE_COLD_FALLBACK, BOOT_WARM_UPDATE_ERR_NULL_DESC)
      | Some d \<Rightarrow>
          if pd_type d \<noteq> BOOT_PAYLOAD_WARM_UPDATE_STATE then (BOOT_WARM_UPDATE_COLD_FALLBACK, BOOT_WARM_UPDATE_ERR_WRONG_TYPE)
          else if pd_length d = 0 then (BOOT_WARM_UPDATE_COLD_FALLBACK, BOOT_WARM_UPDATE_ERR_EMPTY)
          else if \<not> boot_payload_length_reservable (pd_type d) (pd_length d)
          then (BOOT_WARM_UPDATE_COLD_FALLBACK, BOOT_WARM_UPDATE_ERR_LENGTH_CONTRACT)
          else if pd_flags d AND (BOOT_PAYLOAD_FLAG_VALID OR BOOT_PAYLOAD_FLAG_RESERVED) \<noteq> BOOT_PAYLOAD_FLAG_VALID OR BOOT_PAYLOAD_FLAG_RESERVED
          then (BOOT_WARM_UPDATE_COLD_FALLBACK, BOOT_WARM_UPDATE_ERR_MISSING_FLAGS)
          else if pd_length d > -1 - pd_phys_start d then (BOOT_WARM_UPDATE_COLD_FALLBACK, BOOT_WARM_UPDATE_ERR_RANGE_WRAP)
          else if pd_phys_start d AND 0xFFF \<noteq> 0 \<or> pd_length d AND 0xFFF \<noteq> 0
          then (BOOT_WARM_UPDATE_COLD_FALLBACK, BOOT_WARM_UPDATE_ERR_UNALIGNED)
          else let cont_range = pd_flags d AND 0xFFFFFF00; unknown_cont = cont_range AND NOT BOOT_WARM_UPDATE_CONT_MASK_KNOWN in
            if unknown_cont \<noteq> 0 then (BOOT_WARM_UPDATE_COLD_FALLBACK, BOOT_WARM_UPDATE_ERR_UNKNOWN_CONT_FLAG)
            else (BOOT_WARM_UPDATE_ACCEPTED, BOOT_WARM_UPDATE_ERR_OK))"

definition boot_warm_update_consume :: "boot_payload_desc option \<Rightarrow> boot_warm_update_decision \<times> boot_warm_update_error" where
  "boot_warm_update_consume desc = warm_update_evaluate desc"

section \<open>The selection\<close>

datatype boot_warm_update_selection = BOOT_WARM_UPDATE_SELECT_NONE | BOOT_WARM_UPDATE_SELECT_ONE | BOOT_WARM_UPDATE_SELECT_AMBIGUOUS

record boot_warm_update_sel =
  ws_verdict :: boot_warm_update_selection
  ws_index :: nat
  ws_candidate_count :: nat
  ws_error :: boot_warm_update_error
  ws_mismatch :: bool
  ws_pinned :: bool
  ws_flags :: u32
  ws_checksum :: u64
  ws_phys_start :: u64
  ws_length :: u64

definition sel_none :: boot_warm_update_sel where
  "sel_none = \<lparr>ws_verdict = BOOT_WARM_UPDATE_SELECT_NONE, ws_index = 0, ws_candidate_count = 0, ws_error = BOOT_WARM_UPDATE_ERR_NULL_DESC,
     ws_mismatch = False, ws_pinned = False, ws_flags = 0, ws_checksum = 0, ws_phys_start = 0, ws_length = 0\<rparr>"

text \<open>The scan: the number of candidates, and the first of them.\<close>

primrec warm_scan :: "(nat \<times> boot_payload_desc) list \<Rightarrow> nat \<Rightarrow> nat \<Rightarrow> nat \<times> nat" where
  "warm_scan [] n chosen = (n, chosen)"
| "warm_scan (x # xs) n chosen =
     (if pd_type (snd x) \<noteq> BOOT_PAYLOAD_WARM_UPDATE_STATE then warm_scan xs n chosen
      else warm_scan xs (Suc n) (if n = 0 then fst x else chosen))"

text \<open>The decision over the active descriptors.\<close>

definition warm_pick :: "boot_info \<Rightarrow> nat \<times> nat \<Rightarrow> boot_warm_update_sel" where
  "warm_pick info scan =
     (let out = sel_none\<lparr>ws_candidate_count := fst scan\<rparr>; chosen = snd scan; d = payload_descriptors info ! chosen; w = warm_update_evaluate (Some d) in
      if fst scan = 0 then out
      else if fst scan > 1 then out\<lparr>ws_verdict := BOOT_WARM_UPDATE_SELECT_AMBIGUOUS, ws_error := BOOT_WARM_UPDATE_ERR_OK\<rparr>
      else if fst w \<noteq> BOOT_WARM_UPDATE_ACCEPTED then out\<lparr>ws_error := snd w\<rparr>
      else out\<lparr>ws_error := snd w, ws_verdict := BOOT_WARM_UPDATE_SELECT_ONE, ws_index := chosen, ws_phys_start := pd_phys_start d,
             ws_length := pd_length d, ws_flags := pd_flags d, ws_checksum := pd_checksum d\<rparr>)"

definition warm_update_compute :: "boot_info option \<Rightarrow> boot_warm_update_sel option" where
  "warm_update_compute info_ptr =
     (case info_ptr of
        None \<Rightarrow> Some sel_none
      | Some info \<Rightarrow>
          if bi_flags info AND BOOT_FLAG_WARM_UPDATE = 0 then Some sel_none
          else if caps_present info AND BOOT_CAP_PAYLOAD_DESCRIPTORS = 0 then Some sel_none
          else if payload_count info > BOOT_PAYLOAD_MAX then Some sel_none
          else do {
            ds \<leftarrow> prefix_of (payload_count info) (payload_descriptors info);
            Some (warm_pick info (warm_scan ds 0 0)) })"

text \<open>What the later phase compares with the seal.\<close>

definition sel_differs :: "boot_warm_update_sel \<Rightarrow> boot_warm_update_sel \<Rightarrow> bool" where
  "sel_differs now s \<longleftrightarrow>
     ws_verdict now \<noteq> ws_verdict s \<or> ws_index now \<noteq> ws_index s \<or> ws_candidate_count now \<noteq> ws_candidate_count s \<or>
     ws_error now \<noteq> ws_error s \<or> ws_flags now \<noteq> ws_flags s \<or> ws_checksum now \<noteq> ws_checksum s \<or>
     ws_phys_start now \<noteq> ws_phys_start s \<or> ws_length now \<noteq> ws_length s"

definition boot_warm_update_selection_get ::
  "boot_info option \<Rightarrow> boot_warm_update_sel option \<Rightarrow> (boot_warm_update_sel \<times> boot_warm_update_sel option) option" where
  "boot_warm_update_selection_get info sealed =
     (case sealed of
        None \<Rightarrow> do { s \<leftarrow> warm_update_compute info; Some (s, Some s) }
      | Some s \<Rightarrow>
          if ws_mismatch s then Some (s, sealed)
          else do {
            now \<leftarrow> warm_update_compute info;
            let s = (if sel_differs now s then s\<lparr>ws_mismatch := True\<rparr> else s);
            Some (s, Some s) })"

definition boot_warm_update_selection_mark_pinned :: "boot_warm_update_sel option \<Rightarrow> boot_warm_update_sel option" where
  "boot_warm_update_selection_mark_pinned sealed =
     (case sealed of
        None \<Rightarrow> None
      | Some s \<Rightarrow> if ws_verdict s = BOOT_WARM_UPDATE_SELECT_ONE then Some (s\<lparr>ws_pinned := True\<rparr>) else sealed)"

section \<open>What a selection guarantees\<close>

definition warm_candidates :: "boot_info \<Rightarrow> nat set" where
  "warm_candidates info = {i. i < unat (payload_count info) \<and> pd_type (payload_descriptors info ! i) = BOOT_PAYLOAD_WARM_UPDATE_STATE}"

lemma warm_scan_eq:
  "warm_scan xs n c =
    (n + length (filter (\<lambda>x. pd_type (snd x) = BOOT_PAYLOAD_WARM_UPDATE_STATE) xs),
     if n = 0 then (case filter (\<lambda>x. pd_type (snd x) = BOOT_PAYLOAD_WARM_UPDATE_STATE) xs of [] \<Rightarrow> c | x # _ \<Rightarrow> fst x) else c)"
  by (induction xs arbitrary: n c) auto

lemma evaluate_accepted:
  assumes "warm_update_evaluate (Some d) = (BOOT_WARM_UPDATE_ACCEPTED, e)"
  shows "pd_type d = BOOT_PAYLOAD_WARM_UPDATE_STATE" "4096 \<le> unat (pd_length d)" "unat (pd_length d) \<le> 67108864" "fits (pd_phys_start d) (pd_length d)"
    "pd_flags d AND BOOT_PAYLOAD_FLAG_RESERVED \<noteq> 0"
proof -
  note a = assms [unfolded warm_update_evaluate_def Let_def, simplified]
  show t: "pd_type d = BOOT_PAYLOAD_WARM_UPDATE_STATE" using a by (simp split: if_splits)
  have "boot_payload_length_reservable (pd_type d) (pd_length d)" using a by (simp split: if_splits)
  then show "4096 \<le> unat (pd_length d)" "unat (pd_length d) \<le> 67108864"
    using t by (auto simp: boot_payload_length_reservable_def payload_limits_def BOOT_PAYLOAD_WARM_UPDATE_STATE_def word_le_nat_alt split: if_splits)
  have "\<not> pd_length d > -1 - pd_phys_start d" using a by (simp split: if_splits)
  then show "fits (pd_phys_start d) (pd_length d)" unfolding not_fits by simp
  have "pd_flags d AND (BOOT_PAYLOAD_FLAG_VALID OR BOOT_PAYLOAD_FLAG_RESERVED) = BOOT_PAYLOAD_FLAG_VALID OR BOOT_PAYLOAD_FLAG_RESERVED"
    using a by (simp split: if_splits)
  then have "(pd_flags d AND 9) AND 8 = 9 AND 8" by (simp add: BOOT_PAYLOAD_FLAG_VALID_def BOOT_PAYLOAD_FLAG_RESERVED_def)
  then show "pd_flags d AND BOOT_PAYLOAD_FLAG_RESERVED \<noteq> 0" by (simp add: BOOT_PAYLOAD_FLAG_RESERVED_def and.assoc)
qed

text \<open>A selection never changes after the seal, whatever handoff later calls present: only the mismatch and the pinned flag do.\<close>

definition same_selection :: "boot_warm_update_sel \<Rightarrow> boot_warm_update_sel \<Rightarrow> bool" where
  "same_selection a b \<longleftrightarrow> \<not> sel_differs a b"

lemma same_selection_refl [simp]: "same_selection s s"
  by (simp add: same_selection_def sel_differs_def)

lemma same_selection_trans: "same_selection a b \<Longrightarrow> same_selection b c \<Longrightarrow> same_selection a c"
  by (simp add: same_selection_def sel_differs_def)

lemma selection_get_sealed:
  "boot_warm_update_selection_get info (Some s) = Some (r, sealed) \<Longrightarrow> sealed = Some r \<and> same_selection r s \<and> ws_pinned r = ws_pinned s \<and>
    (ws_mismatch s \<longrightarrow> ws_mismatch r)"
  by (auto simp: boot_warm_update_selection_get_def same_selection_def sel_differs_def bind_eq_Some_conv Let_def split: if_splits)

lemma pick_one:
  assumes "ws_verdict (warm_pick info c) = BOOT_WARM_UPDATE_SELECT_ONE"
  shows "fst c = 1" "\<exists>e. warm_update_evaluate (Some (payload_descriptors info ! snd c)) = (BOOT_WARM_UPDATE_ACCEPTED, e)"
    "ws_index (warm_pick info c) = snd c" "ws_length (warm_pick info c) = pd_length (payload_descriptors info ! snd c)"
    "ws_phys_start (warm_pick info c) = pd_phys_start (payload_descriptors info ! snd c)"
  using assms by (cases "warm_update_evaluate (Some (payload_descriptors info ! snd c))", auto simp: warm_pick_def Let_def sel_none_def split: if_splits)+

lemma compute_one:
  assumes "warm_update_compute (Some info) = Some s" "ws_verdict s = BOOT_WARM_UPDATE_SELECT_ONE"
  shows "\<exists>ds. prefix_of (payload_count info) (payload_descriptors info) = Some ds \<and> s = warm_pick info (warm_scan ds 0 0)"
  using assms by (auto simp: warm_update_compute_def sel_none_def bind_eq_Some_conv split: if_splits)

lemma selection_one:
  assumes "warm_update_compute (Some info) = Some s" "ws_verdict s = BOOT_WARM_UPDATE_SELECT_ONE"
  shows "4096 \<le> unat (ws_length s)" "unat (ws_length s) \<le> 67108864" "fits (ws_phys_start s) (ws_length s)"
proof -
  obtain d e where "warm_update_evaluate (Some d) = (BOOT_WARM_UPDATE_ACCEPTED, e)" "ws_length s = pd_length d" "ws_phys_start s = pd_phys_start d"
    using compute_one [OF assms] pick_one assms(2) by metis
  with evaluate_accepted show "4096 \<le> unat (ws_length s)" "unat (ws_length s) \<le> 67108864" "fits (ws_phys_start s) (ws_length s)" by metis+
qed

end
