(* ===== verification/Mm_Reserved.thy ===== *)
theory Mm_Reserved
  imports Boot_Warm Mm_Pmm
begin

text \<open>
  \<open>src/kernel/mm/boot_reserved.c\<close>, the table of physical regions that the memory manager must not hand out, and the validation of the kernel's boot
  stack of \<open>src/kernel/mm/boot_stack.c\<close>. The static table with its count is the list of its entries. After a fatal error the boot stops, so an
  error carries no table. The functions that print or dump the table are left out.
\<close>

section \<open>The boot stack\<close>

record boot_stack_info =
  bs_base :: u64
  bs_size :: u64
  bs_guard_size :: u64
  bs_valid :: bool

datatype boot_stack_error =
    BOOT_STACK_ERR_OK | BOOT_STACK_ERR_ABSENT | BOOT_STACK_ERR_UNALIGNED | BOOT_STACK_ERR_SIZE_RANGE | BOOT_STACK_ERR_SIZE_GRAIN
  | BOOT_STACK_ERR_GUARD_GRAIN | BOOT_STACK_ERR_USABLE_SHORT | BOOT_STACK_ERR_WRAP | BOOT_STACK_ERR_ABOVE_MAP | BOOT_STACK_ERR_GUARD_ABSENT
  | BOOT_STACK_ERR_USER_WINDOW | BOOT_STACK_ERR_LOW_MEM | BOOT_STACK_ERR_KERNEL_IMAGE

definition BOOT_KSTACK_GUARD_BYTES :: u64 where "BOOT_KSTACK_GUARD_BYTES = 4096"
definition BOOT_KSTACK_MIN_USABLE :: u64 where "BOOT_KSTACK_MIN_USABLE = 131072"
definition BOOT_KSTACK_MAX_SIZE :: u64 where "BOOT_KSTACK_MAX_SIZE = 1048576"
definition USER_PT_WINDOW_BASE :: u64 where "USER_PT_WINDOW_BASE = 0x800000"
definition USER_PT_WINDOW_SIZE :: u64 where "USER_PT_WINDOW_SIZE = 0x200000"
definition USER_PT_WINDOW_END :: u64 where "USER_PT_WINDOW_END = USER_PT_WINDOW_BASE + USER_PT_WINDOW_SIZE"

definition boot_stack_check :: "u64 \<Rightarrow> u64 \<Rightarrow> u64 \<Rightarrow> boot_stack_error" where
  "boot_stack_check base sz guard_size =
     (if base = 0 then BOOT_STACK_ERR_ABSENT
      else if base AND (PMM_FRAME_SIZE - 1) \<noteq> 0 then BOOT_STACK_ERR_UNALIGNED
      else if sz = 0 \<or> sz > BOOT_KSTACK_MAX_SIZE then BOOT_STACK_ERR_SIZE_RANGE
      else if sz AND (PMM_FRAME_SIZE - 1) \<noteq> 0 then BOOT_STACK_ERR_SIZE_GRAIN
      else if guard_size = 0 then BOOT_STACK_ERR_GUARD_ABSENT
      else if guard_size \<noteq> BOOT_KSTACK_GUARD_BYTES then BOOT_STACK_ERR_GUARD_GRAIN
      else if sz \<le> guard_size \<or> sz - guard_size < BOOT_KSTACK_MIN_USABLE then BOOT_STACK_ERR_USABLE_SHORT
      else if base + sz < base then BOOT_STACK_ERR_WRAP
      else if base + sz > BOOT_INFO_EARLY_MAP_END then BOOT_STACK_ERR_ABOVE_MAP
      else if base < 0x100000 then BOOT_STACK_ERR_LOW_MEM
      else if base < USER_PT_WINDOW_END \<and> base + sz > USER_PT_WINDOW_BASE then BOOT_STACK_ERR_USER_WINDOW
      else BOOT_STACK_ERR_OK)"

text \<open>\<open>*out\<close> on success, and \<open>*out_err\<close>.\<close>

definition boot_stack_validate :: "u64 \<Rightarrow> u64 \<Rightarrow> u64 \<Rightarrow> boot_stack_info option \<times> boot_stack_error" where
  "boot_stack_validate base sz guard_size =
     (let err = boot_stack_check base sz guard_size in
      if err \<noteq> BOOT_STACK_ERR_OK then (None, err)
      else (Some \<lparr>bs_base = base, bs_size = sz, bs_guard_size = guard_size, bs_valid = True\<rparr>, err))"

definition boot_stack_image_envelope_end :: "u64 \<Rightarrow> u64 \<Rightarrow> u64" where
  "boot_stack_image_envelope_end kend phys_cap =
     (let e = (kend + PMM_FRAME_SIZE - 1) AND NOT (PMM_FRAME_SIZE - 1) in e + phys_cap div 32768 + PMM_FRAME_SIZE)"

definition boot_stack_overlaps :: "boot_stack_info option \<Rightarrow> u64 \<Rightarrow> u64 \<Rightarrow> bool" where
  "boot_stack_overlaps si start len \<longleftrightarrow>
     (case si of
        None \<Rightarrow> False
      | Some k \<Rightarrow>
          if \<not> bs_valid k then False
          else if len = 0 then False
          else if start + len < start then False
          else bs_base k < start + len \<and> bs_base k + bs_size k > start)"

definition boot_stack_contains :: "boot_stack_info option \<Rightarrow> u64 \<Rightarrow> u64 \<Rightarrow> bool" where
  "boot_stack_contains si addr len \<longleftrightarrow>
     (case si of
        None \<Rightarrow> False
      | Some k \<Rightarrow>
          if \<not> bs_valid k then False
          else if len = 0 then False
          else if addr + len < addr then False
          else addr \<ge> bs_base k + bs_guard_size k \<and> addr + len \<le> bs_base k + bs_size k)"

text \<open>\<open>boot_halt\<close> is the error; \<open>rsp\<close> is the stack pointer.\<close>

definition boot_stack_init :: "boot_layout \<Rightarrow> u64 \<Rightarrow> boot_info option \<Rightarrow> string + boot_stack_info" where
  "boot_stack_init lay rsp info_ptr =
     (case info_ptr of
        None \<Rightarrow> Inl ''boot_stack_init: NULL boot_info''
      | Some info \<Rightarrow>
          (case fst (boot_stack_validate (kstack_base info) (ucast (kstack_size info)) (ucast (kstack_guard_size info))) of
             None \<Rightarrow> Inl ''boot_stack_init: invalid kernel stack handoff''
           | Some si \<Rightarrow>
               let img_lo = 0x100000; img_hi = boot_stack_image_envelope_end (kernel_end lay) PMM_PHYS_ADDR_CAP in
               if boot_stack_overlaps (Some si) img_lo (img_hi - img_lo)
               then Inl ''boot_stack_init: kernel stack overlaps the kernel image''
               else if \<not> boot_stack_contains (Some si) rsp 8
               then Inl ''boot_stack_init: RSP outside the published kernel stack''
               else Inr si))"

section \<open>The table\<close>

datatype boot_reserved_kind =
    BOOT_RESERVED_NONE | BOOT_RESERVED_BOOT_INFO | BOOT_RESERVED_USB_DMA_PAGE | BOOT_RESERVED_USB_SCRATCHPAD | BOOT_RESERVED_TPM_EVENT_LOG
  | BOOT_RESERVED_FRAMEBUFFER | BOOT_RESERVED_RT_MMAP | BOOT_RESERVED_PAYLOAD | BOOT_RESERVED_BOOT_STACK

record boot_reserved_region =
  br_phys_start :: u64
  br_length :: u64
  br_kind :: boot_reserved_kind
  br_source_index :: nat

datatype boot_reserved_error =
    BOOT_RESERVED_ERR_OK | BOOT_RESERVED_ERR_COUNT_OOR | BOOT_RESERVED_ERR_RANGE_WRAP | BOOT_RESERVED_ERR_OVERLAP | BOOT_RESERVED_ERR_NULL_INFO
  | BOOT_RESERVED_ERR_ZERO_LENGTH

type_synonym reserved_table = "boot_reserved_region list"

definition BOOT_RESERVED_MAX :: nat where "BOOT_RESERVED_MAX = 128"

definition add_region :: "u64 \<Rightarrow> u64 \<Rightarrow> boot_reserved_kind \<Rightarrow> nat \<Rightarrow> reserved_table \<Rightarrow> boot_reserved_error + reserved_table" where
  "add_region start len kind idx t =
     (if len = 0 then Inl BOOT_RESERVED_ERR_ZERO_LENGTH
      else if range_end_overflows start len then Inl BOOT_RESERVED_ERR_RANGE_WRAP
      else if length t \<ge> BOOT_RESERVED_MAX then Inl BOOT_RESERVED_ERR_COUNT_OOR
      else if \<exists>e \<in> set t. ranges_overlap start len (br_phys_start e) (br_length e) then Inl BOOT_RESERVED_ERR_OVERLAP
      else Inr (t @ [\<lparr>br_phys_start = start, br_length = len, br_kind = kind, br_source_index = idx\<rparr>]))"

definition add_or_fatal :: "u64 \<Rightarrow> u64 \<Rightarrow> boot_reserved_kind \<Rightarrow> nat \<Rightarrow> reserved_table \<Rightarrow> boot_reserved_error + reserved_table" where
  "add_or_fatal start len kind idx t = add_region start len kind idx t"

definition boot_reserved_payload_is_pinned :: "nat \<Rightarrow> u64 \<Rightarrow> u64 \<Rightarrow> reserved_table \<Rightarrow> bool" where
  "boot_reserved_payload_is_pinned idx start len t \<longleftrightarrow>
     (\<exists>r \<in> set t. br_kind r = BOOT_RESERVED_PAYLOAD \<and> br_source_index r = idx \<and> br_phys_start r = start \<and> br_length r = len)"

definition warm_range_is_applicable :: "pmm_state \<Rightarrow> u64 \<Rightarrow> u64 \<Rightarrow> bool" where
  "warm_range_is_applicable s start len \<longleftrightarrow>
     (if pmm_get_total_frames s = 0 then False
      else (start + len - 1) div PMM_FRAME_SIZE < pmm_get_total_frames s)"

section \<open>Population\<close>

text \<open>The DMA pages of the USB controller and its scratchpad.\<close>

definition add_dma_page :: "boot_usb_controller \<Rightarrow> nat \<times> u64 \<Rightarrow> reserved_table \<Rightarrow> boot_reserved_error + reserved_table" where
  "add_dma_page usb x t =
     (let u = fst x; page = snd x;
          have_scratchpad = (scratchpad_base_phys usb \<noteq> 0 \<and> scratchpad_page_count usb > 0);
          sp_array_len = (if scratchpad_array_phys usb \<noteq> 0 \<and> scratchpad_page_count usb > 0
                          then (ucast (scratchpad_page_count usb) * 8 + 4095) AND NOT 4095 else (0 :: u64))
      in if page = 0 then Inr t
         else if have_scratchpad \<and> page = scratchpad_base_phys usb then Inr t
         else if sp_array_len \<noteq> 0 \<and> page = scratchpad_array_phys usb
         then add_or_fatal page sp_array_len BOOT_RESERVED_USB_DMA_PAGE u t
         else add_or_fatal page 4096 BOOT_RESERVED_USB_DMA_PAGE u t)"

definition populate_usb :: "boot_info \<Rightarrow> reserved_table \<Rightarrow> (boot_reserved_error + reserved_table) option" where
  "populate_usb info t =
     (let usb = usb_controller info in
      if usb_active usb \<noteq> 0 \<and> dma_page_count usb > 0 then do {
        let n = (if dma_page_count usb > BOOT_USB_MAX_DMA_PAGES then BOOT_USB_MAX_DMA_PAGES else dma_page_count usb);
        pages \<leftarrow> prefix_of n (dma_pages usb);
        Some (bindE (each (add_dma_page usb) pages t) (\<lambda>t.
          if scratchpad_base_phys usb \<noteq> 0 \<and> scratchpad_page_count usb > 0
          then add_or_fatal (scratchpad_base_phys usb) (ucast (scratchpad_page_count usb) * 4096) BOOT_RESERVED_USB_SCRATCHPAD 0 t
          else Inr t)) }
      else Some (Inr t))"

definition populate_tpm :: "boot_info \<Rightarrow> reserved_table \<Rightarrow> boot_reserved_error + reserved_table" where
  "populate_tpm info t =
     (if tpm_event_log info \<noteq> 0 \<and> tpm_event_log_size info > 0 \<and> caps_present info AND BOOT_CAP_TPM_EVENT_LOG \<noteq> 0
      then add_or_fatal (tpm_event_log info) (ucast (tpm_event_log_size info)) BOOT_RESERVED_TPM_EVENT_LOG 0 t
      else Inr t)"

definition populate_fb :: "boot_info \<Rightarrow> reserved_table \<Rightarrow> boot_reserved_error + reserved_table" where
  "populate_fb info t =
     (if fb_available info \<noteq> 0 \<and> fb_addr (fb info) \<noteq> 0 \<and> fb_pitch (fb info) > 0 \<and> fb_height (fb info) > 0
      then add_or_fatal (fb_addr (fb info)) (ucast (fb_pitch (fb info)) * ucast (fb_height (fb info))) BOOT_RESERVED_FRAMEBUFFER 0 t
      else Inr t)"

definition add_rt :: "nat \<times> boot_rt_mem_entry \<Rightarrow> reserved_table \<Rightarrow> boot_reserved_error + reserved_table" where
  "add_rt x t =
     (let rt = snd x in
      if phys_addr rt = 0 \<or> num_pages rt = 0 then Inr t
      else if num_pages rt > -1 div 4096 then Inl BOOT_RESERVED_ERR_RANGE_WRAP
      else add_or_fatal (phys_addr rt) (num_pages rt * 4096) BOOT_RESERVED_RT_MMAP (fst x) t)"

definition populate_rt :: "boot_info \<Rightarrow> reserved_table \<Rightarrow> (boot_reserved_error + reserved_table) option" where
  "populate_rt info t =
     (if rt_mmap_count info > BOOT_RT_MMAP_MAX then Some (Inl BOOT_RESERVED_ERR_COUNT_OOR)
      else if caps_present info AND BOOT_CAP_RUNTIME_SERVICES \<noteq> 0 then do {
        rts \<leftarrow> prefix_of (rt_mmap_count info) (rt_mmap info);
        Some (each add_rt rts t) }
      else Some (Inr t))"

text \<open>The payload loop: the table, the bytes reserved so far and the types pinned so far.\<close>

type_synonym payload_pass = "reserved_table \<times> u64 \<times> u32 list"

definition add_payload :: "boot_warm_update_sel \<Rightarrow> bool \<Rightarrow> nat \<times> boot_payload_desc \<Rightarrow> payload_pass \<Rightarrow> boot_reserved_error + payload_pass" where
  "add_payload warm required x st =
     (let i = fst x; d = snd x; t = fst st; reserved_bytes = fst (snd st); seen = snd (snd st);
          is_required = (pd_flags d AND BOOT_PAYLOAD_FLAG_REQUIRED \<noteq> 0)
      in if required \<noteq> is_required then Inr st
         else if pd_flags d AND BOOT_PAYLOAD_FLAG_RESERVED = 0 then Inr st
         else if pd_length d = 0 then Inr st
         else if pd_type d = BOOT_PAYLOAD_WARM_UPDATE_STATE \<or> ws_verdict warm = BOOT_WARM_UPDATE_SELECT_ONE \<and> i = ws_index warm then Inr st
         else if \<not> boot_payload_length_reservable (pd_type d) (pd_length d) then Inr st
         else if \<not> BOOT_PAYLOAD_TYPE_IS_REPEATABLE (pd_type d) \<and> pd_type d \<in> set seen then Inr st
         else if \<not> boot_payload_budget_admits reserved_bytes (pd_length d) then Inr st
         else bindE (add_or_fatal (pd_phys_start d) (pd_length d) BOOT_RESERVED_PAYLOAD i t) (\<lambda>t.
           Inr (t, reserved_bytes + pd_length d,
             if \<not> BOOT_PAYLOAD_TYPE_IS_REPEATABLE (pd_type d) \<and> length seen < unat BOOT_PAYLOAD_MAX then seen @ [pd_type d] else seen)))"

definition populate_payloads :: "boot_warm_update_sel \<Rightarrow> boot_info \<Rightarrow> reserved_table \<Rightarrow> (boot_reserved_error + reserved_table) option" where
  "populate_payloads warm info t =
     (if caps_present info AND BOOT_CAP_PAYLOAD_DESCRIPTORS \<noteq> 0 then do {
        ds \<leftarrow> prefix_of (payload_count info) (payload_descriptors info);
        Some (bindE (bindE (each (add_payload warm True) ds (t, 0, [])) (each (add_payload warm False) ds)) (\<lambda>st. Inr (fst st))) }
      else Some (Inr t))"

definition populate_warm :: "pmm_state \<Rightarrow> boot_warm_update_sel \<Rightarrow> reserved_table \<Rightarrow> boot_reserved_error + reserved_table" where
  "populate_warm s warm t =
     (if ws_verdict warm = BOOT_WARM_UPDATE_SELECT_ONE \<and> warm_range_is_applicable s (ws_phys_start warm) (ws_length warm)
      then add_or_fatal (ws_phys_start warm) (ws_length warm) BOOT_RESERVED_PAYLOAD (ws_index warm) t
      else Inr t)"

definition populate_stack :: "boot_info \<Rightarrow> reserved_table \<Rightarrow> boot_reserved_error + reserved_table" where
  "populate_stack info t =
     (if kstack_base info \<noteq> 0 \<and> kstack_size info \<noteq> 0
      then add_or_fatal (kstack_base info) (ucast (kstack_size info)) BOOT_RESERVED_BOOT_STACK 0 t
      else Inr t)"

text \<open>The steps of the population in their order; those that read an array may fault. The result is the table and the sealed selection.\<close>

definition thenE :: "('e + 'a) option \<Rightarrow> ('a \<Rightarrow> ('e + 'b) option) \<Rightarrow> ('e + 'b) option" where
  "thenE m f = (case m of None \<Rightarrow> None | Some (Inl e) \<Rightarrow> Some (Inl e) | Some (Inr x) \<Rightarrow> f x)"

definition boot_reserved_populate_from_info ::
  "boot_layout \<Rightarrow> pmm_state \<Rightarrow> boot_info option \<Rightarrow> boot_warm_update_sel option \<Rightarrow> reserved_table \<Rightarrow>
     (boot_reserved_error + reserved_table \<times> boot_warm_update_sel option) option" where
  "boot_reserved_populate_from_info lay s info_ptr sealed t =
     (case info_ptr of
        None \<Rightarrow> Some (Inl BOOT_RESERVED_ERR_NULL_INFO)
      | Some info \<Rightarrow>
          thenE (Some (add_or_fatal BOOT_INFO_PHYS_ADDR (sizeof_boot_info lay) BOOT_RESERVED_BOOT_INFO 0 t)) (\<lambda>t.
          thenE (populate_usb info t) (\<lambda>t.
          thenE (Some (populate_tpm info t)) (\<lambda>t.
          thenE (Some (populate_fb info t)) (\<lambda>t.
          thenE (populate_rt info t) (\<lambda>t.
          if payload_count info > BOOT_PAYLOAD_MAX then Some (Inl BOOT_RESERVED_ERR_COUNT_OOR)
          else do {
            (warm, sealed) \<leftarrow> boot_warm_update_selection_get (Some info) sealed;
            thenE (populate_payloads warm info t) (\<lambda>t.
            thenE (Some (populate_warm s warm t)) (\<lambda>t.
            thenE (Some (populate_stack info t)) (\<lambda>t.
            Some (Inr (t,
              if ws_verdict warm = BOOT_WARM_UPDATE_SELECT_ONE \<and> warm_range_is_applicable s (ws_phys_start warm) (ws_length warm)
              then boot_warm_update_selection_mark_pinned sealed else sealed))))) }))))))"

section \<open>Application\<close>

primrec boot_reserved_apply :: "reserved_table \<Rightarrow> pmm_state \<Rightarrow> pmm_state option" where
  "boot_reserved_apply [] s = Some s"
| "boot_reserved_apply (e # es) s = do { s \<leftarrow> pmm_mark_region_used (br_phys_start e) (br_length e) s; boot_reserved_apply es s }"

text \<open>One more than the index of the first payload that overlaps the range, or 0.\<close>

primrec first_collision :: "u64 \<Rightarrow> u64 \<Rightarrow> nat \<Rightarrow> reserved_table \<Rightarrow> nat" where
  "first_collision start len i [] = 0"
| "first_collision start len i (e # es) =
     (if br_kind e \<noteq> BOOT_RESERVED_PAYLOAD then first_collision start len (Suc i) es
      else if ranges_overlap (br_phys_start e) (br_length e) start len then i + 1
      else first_collision start len (Suc i) es)"

definition boot_reserved_check_payloads_disjoint :: "u64 \<Rightarrow> u64 \<Rightarrow> reserved_table \<Rightarrow> nat" where
  "boot_reserved_check_payloads_disjoint start len t = (if len = 0 then 0 else first_collision start len 0 t)"

definition boot_reserved_count :: "reserved_table \<Rightarrow> nat" where "boot_reserved_count t = length t"

definition boot_reserved_get :: "nat \<Rightarrow> reserved_table \<Rightarrow> boot_reserved_region option" where
  "boot_reserved_get idx t = (if idx \<ge> length t then None else Some (t ! idx))"

end
