(* ===== verification/Mm_Init.thy ===== *)
theory Mm_Init
  imports Mm_Reserved
begin

text \<open>
  \<open>pmm_init\<close> of \<open>src/kernel/mm/pmm.c\<close>: building the frame bitmap from the memory map of the boot handoff. The handoff \<open>g_boot_info\<close>, the validated boot stack,
  the stack pointer, the sealed warm-update selection and the reservation table are arguments. \<open>boot_halt\<close> does not return.
\<close>

datatype init_result = Halt string | Return boot_result_t "pmm_state option" reserved_table "boot_warm_update_sel option"

section \<open>The memory map\<close>

definition usable_type :: "u32 \<Rightarrow> bool" where
  "usable_type utype \<longleftrightarrow>
     utype = UEFI_MMAP_CONVENTIONAL \<or> utype = UEFI_MMAP_LOADER_CODE \<or> utype = UEFI_MMAP_LOADER_DATA \<or>
     utype = UEFI_MMAP_BOOT_SERVICES_CODE \<or> utype = UEFI_MMAP_BOOT_SERVICES_DATA"

definition entry_wraps :: "boot_mmap_entry \<Rightarrow> bool" where
  "entry_wraps e \<longleftrightarrow> (if me_length e = 0 then False else base_addr e + me_length e < base_addr e)"

definition raise_ceiling :: "u64 \<Rightarrow> boot_mmap_entry \<Rightarrow> u64" where
  "raise_ceiling highest_addr e =
     (if usable_type (uefi_memory_type e) then
        let region_end = base_addr e + me_length e in
        if region_end > highest_addr then region_end else highest_addr
      else highest_addr)"

definition tracked_ceiling :: "boot_mmap_entry list \<Rightarrow> u64" where
  "tracked_ceiling es =
     (let highest_addr = foldl raise_ceiling 0 es in
      if highest_addr > PMM_PHYS_ADDR_CAP then PMM_PHYS_ADDR_CAP else highest_addr)"

text \<open>Every frame used.\<close>

definition pmm_all_used :: "u64 \<Rightarrow> pmm_state" where
  "pmm_all_used highest_addr =
     (let n = highest_addr div PMM_FRAME_SIZE; sz = (n + 7) div 8
      in \<lparr>bitmap = replicate (unat sz) 0xFF, bitmap_size = sz, total_frames = n, used_frames = n\<rparr>)"

primrec free_usable :: "boot_mmap_entry list \<Rightarrow> pmm_state \<Rightarrow> pmm_state option" where
  "free_usable [] s = Some s"
| "free_usable (e # es) s = do {
     s \<leftarrow> (if usable_type (uefi_memory_type e) then pmm_mark_region_free (base_addr e) (me_length e) s else Some s);
     free_usable es s }"

section \<open>Reservations\<close>

definition bitmap_end_of :: "u64 \<Rightarrow> u64 \<Rightarrow> u64" where
  "bitmap_end_of kernel_end_phys sz = (kernel_end_phys + sz + PMM_FRAME_SIZE - 1) AND NOT (PMM_FRAME_SIZE - 1)"

definition reserve_internal :: "u64 \<Rightarrow> u64 \<Rightarrow> pmm_state \<Rightarrow> pmm_state option" where
  "reserve_internal kernel_end_phys bitmap_end s = do {
     s \<leftarrow> pmm_mark_region_used 0 0x100000 s;
     s \<leftarrow> pmm_mark_region_used 0x100000 (kernel_end_phys - 0x100000) s;
     s \<leftarrow> pmm_mark_region_used kernel_end_phys (bitmap_end - kernel_end_phys) s;
     pmm_mark_region_used USER_PT_WINDOW_BASE USER_PT_WINDOW_SIZE s }"

text \<open>The check of the user window only writes a log message, but it reads the bitmap.\<close>

definition verify_window :: "pmm_state \<Rightarrow> unit option" where
  "verify_window s = do {
     t \<leftarrow> bitmap_test (unat (USER_PT_WINDOW_BASE div PMM_FRAME_SIZE)) s;
     if t = 0 then Some ()
     else do { _ \<leftarrow> bitmap_test (unat ((USER_PT_WINDOW_END - PMM_FRAME_SIZE) div PMM_FRAME_SIZE)) s; Some () } }"

definition payloads_collide :: "u64 \<Rightarrow> u64 \<Rightarrow> reserved_table \<Rightarrow> bool" where
  "payloads_collide kernel_end_phys bitmap_end t \<longleftrightarrow>
     boot_reserved_check_payloads_disjoint 0 0x100000 t \<noteq> 0 \<or>
     boot_reserved_check_payloads_disjoint 0x100000 (kernel_end_phys - 0x100000) t \<noteq> 0 \<or>
     boot_reserved_check_payloads_disjoint kernel_end_phys (bitmap_end - kernel_end_phys) t \<noteq> 0 \<or>
     boot_reserved_check_payloads_disjoint USER_PT_WINDOW_BASE USER_PT_WINDOW_SIZE t \<noteq> 0"

section \<open>The acceptance check\<close>

text \<open>Whether every frame of the boot stack from \<open>f\<close> on is marked.\<close>

function stack_reserved :: "nat \<Rightarrow> nat \<Rightarrow> pmm_state \<Rightarrow> bool option" where
  "stack_reserved f f_end s =
     (if f < f_end then
        if f \<ge> unat (total_frames s) then Some False
        else (case bitmap_test f s of
            None \<Rightarrow> None
          | Some t \<Rightarrow> if t = 0 then Some False else stack_reserved (Suc f) f_end s)
      else Some True)"
  by pat_completeness auto
termination
  by (relation "measure (\<lambda>(f, f_end, s). f_end - f)") auto

declare stack_reserved.simps [simp del]

definition rsp_reserved :: "u64 \<Rightarrow> pmm_state \<Rightarrow> bool option" where
  "rsp_reserved rsp s =
     (let f_lo = (rsp - 8) div PMM_FRAME_SIZE; f_hi = rsp div PMM_FRAME_SIZE in
      if f_hi \<ge> total_frames s then Some False
      else do {
        lo \<leftarrow> bitmap_test (unat f_lo) s;
        if lo = 0 then Some False
        else do { hi \<leftarrow> bitmap_test (unat f_hi) s; Some (hi \<noteq> 0) } })"

definition acceptance_check :: "boot_stack_info \<Rightarrow> u64 \<Rightarrow> pmm_state \<Rightarrow> bool option" where
  "acceptance_check ks rsp s = do {
     ok \<leftarrow> (if bs_valid ks
            then stack_reserved (unat (bs_base ks div PMM_FRAME_SIZE)) (unat ((bs_base ks + bs_size ks) div PMM_FRAME_SIZE)) s
            else Some True);
     if \<not> ok then Some False else rsp_reserved rsp s }"

section \<open>Initialization\<close>

text \<open>From the filled bitmap to the result.\<close>

definition pmm_build ::
  "boot_layout \<Rightarrow> boot_stack_info \<Rightarrow> u64 \<Rightarrow> boot_info \<Rightarrow> boot_warm_update_sel option \<Rightarrow> reserved_table \<Rightarrow> boot_mmap_entry list \<Rightarrow> u64 \<Rightarrow>
     pmm_state \<Rightarrow> init_result option" where
  "pmm_build lay ks rsp info sealed t es bitmap_end s = do {
     s \<leftarrow> free_usable es s;
     s \<leftarrow> reserve_internal (kernel_end lay) bitmap_end s;
     verify_window s;
     r \<leftarrow> boot_reserved_populate_from_info lay s (Some info) sealed t;
     case r of
       Inl e \<Rightarrow> Some (Return BOOT_FATAL (Some s) t sealed)
     | Inr ts \<Rightarrow>
         if payloads_collide (kernel_end lay) bitmap_end (fst ts) then Some (Return BOOT_FATAL (Some s) (fst ts) (snd ts))
         else do {
           s \<leftarrow> boot_reserved_apply (fst ts) s;
           ok \<leftarrow> acceptance_check ks rsp s;
           if \<not> ok then Some (Return BOOT_FATAL (Some s) (fst ts) (snd ts))
           else Some (Return (if total_frames s > 0 \<and> total_frames s > used_frames s then BOOT_OK else BOOT_FATAL) (Some s) (fst ts) (snd ts)) } }"

definition pmm_init ::
  "boot_layout \<Rightarrow> boot_stack_info \<Rightarrow> u64 \<Rightarrow> boot_info \<Rightarrow> boot_warm_update_sel option \<Rightarrow> reserved_table \<Rightarrow> init_result option" where
  "pmm_init lay ks rsp info sealed t =
     (if mmap_count info > BOOT_MMAP_MAX_ENTRIES then Some (Halt ''pmm_init: mmap_count exceeds cap'')
      else do {
        xs \<leftarrow> prefix_of (mmap_count info) (mmap info);
        let es = map snd xs;
        if list_ex entry_wraps es then Some (Halt ''pmm_init: mmap entry wraps'')
        else
          let s = pmm_all_used (tracked_ceiling es);
              bitmap_end = bitmap_end_of (kernel_end lay) (bitmap_size s)
          in if bs_valid ks \<and> boot_stack_overlaps (Some ks) 0x100000 (kernel_end lay - 0x100000) then Some (Return BOOT_FATAL None t sealed)
             else if bs_valid ks \<and> boot_stack_overlaps (Some ks) (kernel_end lay) (bitmap_end - kernel_end lay) then Some (Return BOOT_FATAL None t sealed)
             else pmm_build lay ks rsp info sealed t es bitmap_end s })"

end
