(* ===== verification/Mm_Init_Facts.thy ===== *)
theory Mm_Init_Facts
  imports Mm_Init Mm_Pmm_Facts
begin

text \<open>
  What the boot handoff leaves behind: a table of disjoint reserved regions within its bounds, and a frame bitmap in which no frame of a reserved region is free
  and every free frame is usable memory. With the allocator this says that the memory a client gets is never memory somebody else relies on.
\<close>

section \<open>The reservation table\<close>

definition entry_region :: "boot_reserved_region \<Rightarrow> nat set" where
  "entry_region e = region (br_phys_start e) (br_length e)"

definition table_inv :: "reserved_table \<Rightarrow> bool" where
  "table_inv t \<longleftrightarrow> length t \<le> BOOT_RESERVED_MAX \<and> (\<forall>e \<in> set t. br_length e \<noteq> 0 \<and> fits (br_phys_start e) (br_length e)) \<and>
     sorted_wrt (\<lambda>a b. entry_region a \<inter> entry_region b = {}) t"

definition extends :: "reserved_table \<Rightarrow> reserved_table \<Rightarrow> bool" where
  "extends t t' \<longleftrightarrow> (\<exists>u. t' = t @ u) \<and> (table_inv t \<longrightarrow> table_inv t')"

lemma extends_refl [simp]: "extends t t"
  by (simp add: extends_def)

lemma extends_trans: "extends t u \<Longrightarrow> extends u v \<Longrightarrow> extends t v"
  by (auto simp: extends_def)

lemma extends_set: "extends t t' \<Longrightarrow> e \<in> set t \<Longrightarrow> e \<in> set t'"
  by (auto simp: extends_def)

lemma add_region_ok:
  assumes "add_region start len kind idx t = Inr t'"
  shows "t' = t @ [\<lparr>br_phys_start = start, br_length = len, br_kind = kind, br_source_index = idx\<rparr>]" "extends t t'"
proof -
  show t': "t' = t @ [\<lparr>br_phys_start = start, br_length = len, br_kind = kind, br_source_index = idx\<rparr>]"
    using assms by (auto simp: add_region_def split: if_splits)
  have g: "len \<noteq> 0" "fits start len" "length t < BOOT_RESERVED_MAX" "\<And>e. e \<in> set t \<Longrightarrow> \<not> ranges_overlap start len (br_phys_start e) (br_length e)"
    using assms by (auto simp: add_region_def range_end_overflows_iff split: if_splits)
  have "table_inv t'" if "table_inv t"
  proof -
    have "entry_region e \<inter> region start len = {}" if "e \<in> set t" for e
      using g(4) [OF that] ranges_overlap_iff [OF g(2), of "br_phys_start e" "br_length e"] \<open>table_inv t\<close> that
      by (auto simp: table_inv_def entry_region_def)
    then show ?thesis using that g by (auto simp: table_inv_def t' sorted_wrt_append entry_region_def)
  qed
  then show "extends t t'" using t' by (auto simp: extends_def)
qed

lemmas add_ok = add_region_ok [folded add_or_fatal_def]

text \<open>The payload entries, and the bytes that some entries pin.\<close>

definition payloads :: "reserved_table \<Rightarrow> reserved_table" where
  "payloads t = filter (\<lambda>e. br_kind e = BOOT_RESERVED_PAYLOAD) t"

definition pinned_bytes :: "reserved_table \<Rightarrow> nat" where
  "pinned_bytes t = (\<Sum>e \<leftarrow> t. unat (br_length e))"

text \<open>A step that adds entries of other kinds only.\<close>

definition quiet :: "reserved_table \<Rightarrow> reserved_table \<Rightarrow> bool" where
  "quiet t t' \<longleftrightarrow> extends t t' \<and> payloads t' = payloads t"

lemma quiet_refl [simp]: "quiet t t"
  by (simp add: quiet_def)

lemma quiet_trans: "quiet t u \<Longrightarrow> quiet u v \<Longrightarrow> quiet t v"
  using extends_trans by (auto simp: quiet_def)

lemma add_quiet: "add_or_fatal start len kind idx t = Inr t' \<Longrightarrow> kind \<noteq> BOOT_RESERVED_PAYLOAD \<Longrightarrow> quiet t t'"
  using add_ok [of start len kind idx t t'] by (simp add: quiet_def payloads_def)

lemma each_quiet:
  assumes "each f xs t = Inr t'" "\<And>x t t'. f x t = Inr t' \<Longrightarrow> quiet t t'"
  shows "quiet t t'"
  by (rule each_inv [where P = "\<lambda>_ u. quiet t u", OF assms(1)]) (use assms(2) quiet_trans in \<open>auto\<close>)

section \<open>Population\<close>

lemma thenE_Some: "thenE m f = Some (Inr y) \<longleftrightarrow> (\<exists>x. m = Some (Inr x) \<and> f x = Some (Inr y))"
  by (auto simp: thenE_def split: option.splits sum.splits)

lemma add_dma_page_ok: "add_dma_page usb x t = Inr t' \<Longrightarrow> quiet t t'"
  by (auto simp: add_dma_page_def Let_def dest: add_quiet split: if_splits)

lemma populate_usb_ok:
  assumes "populate_usb info t = Some (Inr t')"
  shows "quiet t t'"
proof (cases "usb_active (usb_controller info) \<noteq> 0 \<and> dma_page_count (usb_controller info) > 0")
  case True
  then obtain ps u where u: "each (add_dma_page (usb_controller info)) ps t = Inr u"
      "(if scratchpad_base_phys (usb_controller info) \<noteq> 0 \<and> scratchpad_page_count (usb_controller info) > 0
        then add_or_fatal (scratchpad_base_phys (usb_controller info)) (ucast (scratchpad_page_count (usb_controller info)) * 4096) BOOT_RESERVED_USB_SCRATCHPAD 0 u
        else Inr u) = Inr t'"
    using assms by (auto simp: populate_usb_def Let_def bind_eq_Some_conv bindE_Inr simp del: word_neq_0_conv split del: if_split)
  have "quiet t u" by (rule each_quiet [OF u(1)]) (rule add_dma_page_ok)
  moreover have "quiet u t'" using u(2) by (auto dest: add_quiet split: if_splits)
  ultimately show ?thesis by (rule quiet_trans)
qed (use assms in \<open>auto simp: populate_usb_def Let_def\<close>)

lemma populate_tpm_ok: "populate_tpm info t = Inr t' \<Longrightarrow> quiet t t'"
  by (auto simp: populate_tpm_def dest: add_quiet split: if_splits)

lemma populate_fb_ok: "populate_fb info t = Inr t' \<Longrightarrow> quiet t t'"
  by (auto simp: populate_fb_def dest: add_quiet split: if_splits)

lemma add_rt_ok: "add_rt x t = Inr t' \<Longrightarrow> quiet t t'"
  by (auto simp: add_rt_def Let_def dest: add_quiet split: if_splits)

lemma populate_rt_ok: "populate_rt info t = Some (Inr t') \<Longrightarrow> quiet t t'"
  using each_quiet [OF _ add_rt_ok] by (auto simp: populate_rt_def bind_eq_Some_conv split: if_splits)

text \<open>The entry of the selected warm-update payload: there is one exactly if one is selected and lies in tracked memory.\<close>

definition warm_entries :: "pmm_state \<Rightarrow> boot_warm_update_sel \<Rightarrow> reserved_table" where
  "warm_entries s w = (if ws_verdict w = BOOT_WARM_UPDATE_SELECT_ONE \<and> warm_range_is_applicable s (ws_phys_start w) (ws_length w)
     then [\<lparr>br_phys_start = ws_phys_start w, br_length = ws_length w, br_kind = BOOT_RESERVED_PAYLOAD, br_source_index = ws_index w\<rparr>] else [])"

lemma populate_warm_ok:
  assumes "populate_warm s w t = Inr t'"
  shows "extends t t'" "payloads t' = payloads t @ warm_entries s w"
proof -
  show "extends t t'" using assms by (auto simp: populate_warm_def dest: add_ok(2) split: if_splits)
  show "payloads t' = payloads t @ warm_entries s w"
    using assms by (auto simp: populate_warm_def warm_entries_def payloads_def dest!: add_ok(1) split: if_splits)
qed

definition has_range :: "u64 \<Rightarrow> u64 \<Rightarrow> reserved_table \<Rightarrow> bool" where
  "has_range start len t \<longleftrightarrow> (\<exists>e \<in> set t. br_phys_start e = start \<and> br_length e = len)"

lemma has_range_extends: "has_range start len t \<Longrightarrow> extends t t' \<Longrightarrow> has_range start len t'"
  by (auto simp: has_range_def extends_def)

lemma add_has_range: "add_or_fatal start len kind idx t = Inr t' \<Longrightarrow> has_range start len t'"
  by (auto simp: has_range_def dest: add_ok(1))

lemma populate_stack_ok:
  assumes "populate_stack info t = Inr t'"
  shows "quiet t t'" "kstack_base info \<noteq> 0 \<Longrightarrow> kstack_size info \<noteq> 0 \<Longrightarrow> has_range (kstack_base info) (ucast (kstack_size info)) t'"
  using assms by (auto simp: populate_stack_def dest: add_quiet add_has_range split: if_splits)

text \<open>An entry of the payload loop: a descriptor of the handoff that asks to be reserved and keeps to the limit of its type, other than the warm-update payload.\<close>

definition normal_payload :: "boot_warm_update_sel \<Rightarrow> boot_info \<Rightarrow> boot_reserved_region \<Rightarrow> bool" where
  "normal_payload w info e \<longleftrightarrow> (let i = br_source_index e; d = payload_descriptors info ! i in
     i < unat (payload_count info) \<and> br_phys_start e = pd_phys_start d \<and> br_length e = pd_length d \<and> pd_flags d AND BOOT_PAYLOAD_FLAG_RESERVED \<noteq> 0 \<and>
     boot_payload_length_reservable (pd_type d) (pd_length d) \<and> pd_type d \<noteq> BOOT_PAYLOAD_WARM_UPDATE_STATE \<and>
     (ws_verdict w = BOOT_WARM_UPDATE_SELECT_ONE \<longrightarrow> i \<noteq> ws_index w))"

definition pass_inv :: "boot_warm_update_sel \<Rightarrow> boot_info \<Rightarrow> reserved_table \<Rightarrow> payload_pass \<Rightarrow> bool" where
  "pass_inv w info t st \<longleftrightarrow> extends t (fst st) \<and> unat (fst (snd st)) \<le> unat BOOT_PAYLOAD_RESERVE_TOTAL_MAX \<and>
     (\<exists>ps. payloads (fst st) = payloads t @ ps \<and> pinned_bytes ps = unat (fst (snd st)) \<and> (\<forall>e \<in> set ps. normal_payload w info e))"

lemma budget_sum:
  assumes "boot_payload_budget_admits a b"
  shows "unat (a + b) = unat a + unat b" "unat (a + b) \<le> unat BOOT_PAYLOAD_RESERVE_TOTAL_MAX"
proof -
  have "unat b \<le> unat BOOT_PAYLOAD_RESERVE_TOTAL_MAX - unat a" "a \<le> BOOT_PAYLOAD_RESERVE_TOTAL_MAX"
    using assms by (auto simp: boot_payload_budget_admits_def word_le_nat_alt unat_sub not_less split: if_splits)
  then have s: "unat a + unat b \<le> unat BOOT_PAYLOAD_RESERVE_TOTAL_MAX" by (simp add: word_le_nat_alt)
  then have "unat a + unat b < 2 ^ 64" by (simp add: BOOT_PAYLOAD_RESERVE_TOTAL_MAX_def)
  then show "unat (a + b) = unat a + unat b" by (simp add: unat_plus_if_size word_size)
  with s show "unat (a + b) \<le> unat BOOT_PAYLOAD_RESERVE_TOTAL_MAX" by simp
qed

lemma add_payload_ok:
  assumes "pass_inv w info t st" "add_payload w req x st = Inr st'" "fst x < unat (payload_count info)" "snd x = payload_descriptors info ! fst x"
  shows "pass_inv w info t st'"
proof (cases "st' = st")
  case False
  let ?d = "snd x" and ?e = "\<lparr>br_phys_start = pd_phys_start (snd x), br_length = pd_length (snd x), br_kind = BOOT_RESERVED_PAYLOAD, br_source_index = fst x\<rparr>"
  obtain u where u: "add_or_fatal (pd_phys_start ?d) (pd_length ?d) BOOT_RESERVED_PAYLOAD (fst x) (fst st) = Inr u" "fst st' = u"
      "fst (snd st') = fst (snd st) + pd_length ?d" "boot_payload_budget_admits (fst (snd st)) (pd_length ?d)"
    and g: "pd_flags ?d AND BOOT_PAYLOAD_FLAG_RESERVED \<noteq> 0" "boot_payload_length_reservable (pd_type ?d) (pd_length ?d)" "pd_type ?d \<noteq> BOOT_PAYLOAD_WARM_UPDATE_STATE"
      "ws_verdict w = BOOT_WARM_UPDATE_SELECT_ONE \<longrightarrow> fst x \<noteq> ws_index w"
    using assms(2) False unfolding add_payload_def Let_def by (auto simp: bindE_Inr split: if_splits)
  obtain ps where ps: "extends t (fst st)" "payloads (fst st) = payloads t @ ps" "pinned_bytes ps = unat (fst (snd st))" "\<forall>e \<in> set ps. normal_payload w info e"
    using assms(1) by (auto simp: pass_inv_def)
  have "normal_payload w info ?e" using g assms(3,4) by (simp add: normal_payload_def)
  moreover have "payloads u = payloads t @ (ps @ [?e])" using add_ok(1) [OF u(1)] ps(2) by (simp add: payloads_def)
  moreover have "pinned_bytes (ps @ [?e]) = unat (fst (snd st'))" using ps(3) budget_sum(1) [OF u(4)] u(3) by (simp add: pinned_bytes_def)
  ultimately show ?thesis
    using ps(4) u(2,3) budget_sum(2) [OF u(4)] extends_trans [OF ps(1) add_ok(2) [OF u(1)]] unfolding pass_inv_def by (intro conjI exI [of _ "ps @ [?e]"]) auto
qed (use assms in simp)

lemma prefix_entry: "prefix_of n xs = Some ys \<Longrightarrow> y \<in> set ys \<Longrightarrow> fst y < unat n \<and> snd y = xs ! fst y"
  by (auto simp: prefix_of_def set_zip split: if_splits)

lemma populate_payloads_ok:
  assumes "populate_payloads w info t = Some (Inr t')"
  shows "extends t t' \<and> (\<exists>ps. payloads t' = payloads t @ ps \<and> pinned_bytes ps \<le> unat BOOT_PAYLOAD_RESERVE_TOTAL_MAX \<and> (\<forall>e \<in> set ps. normal_payload w info e))"
proof (cases "caps_present info AND BOOT_CAP_PAYLOAD_DESCRIPTORS \<noteq> 0")
  case True
  then obtain ds st1 st2 where ds: "prefix_of (payload_count info) (payload_descriptors info) = Some ds" and
      st: "each (add_payload w True) ds (t, 0, []) = Inr st1" "each (add_payload w False) ds st1 = Inr st2" "t' = fst st2"
    using assms by (auto simp: populate_payloads_def bind_eq_Some_conv bindE_Inr)
  have step: "pass_inv w info t u \<Longrightarrow> x \<in> set ds \<Longrightarrow> add_payload w req x u = Inr u' \<Longrightarrow> pass_inv w info t u'" for req x u u'
    using add_payload_ok prefix_entry [OF ds] by blast
  have "pass_inv w info t (t, 0, [])" by (simp add: pass_inv_def pinned_bytes_def)
  then have "pass_inv w info t st1" by (rule each_inv [where P = "\<lambda>_ st. pass_inv w info t st", OF st(1)]) (rule step)
  then have "pass_inv w info t st2" by (rule each_inv [where P = "\<lambda>_ st. pass_inv w info t st", OF st(2)]) (rule step)
  then show ?thesis unfolding pass_inv_def st(3) by auto
next
  case False
  then have "t' = t" using assms by (simp add: populate_payloads_def)
  then show ?thesis by (intro conjI exI [of _ "[]"]) (simp_all add: pinned_bytes_def)
qed

text \<open>The whole population.\<close>

lemma populate_ok:
  assumes "boot_reserved_populate_from_info lay s (Some info) sealed t = Some (Inr (t', sealed'))"
  shows "\<exists>warm q. boot_warm_update_selection_get (Some info) sealed = Some (warm, q) \<and> extends t t' \<and>
    has_range BOOT_INFO_PHYS_ADDR (sizeof_boot_info lay) t' \<and>
    (kstack_base info \<noteq> 0 \<and> kstack_size info \<noteq> 0 \<longrightarrow> has_range (kstack_base info) (ucast (kstack_size info)) t') \<and>
    (\<exists>ps. payloads t' = payloads t @ ps @ warm_entries s warm \<and> pinned_bytes ps \<le> unat BOOT_PAYLOAD_RESERVE_TOTAL_MAX \<and> (\<forall>e \<in> set ps. normal_payload warm info e))"
proof -
  obtain t1 t2 t3 t4 t5 t6 t7 warm q where
      t1: "add_or_fatal BOOT_INFO_PHYS_ADDR (sizeof_boot_info lay) BOOT_RESERVED_BOOT_INFO 0 t = Inr t1" and
      t2: "populate_usb info t1 = Some (Inr t2)" and t3: "populate_tpm info t2 = Inr t3" and t4: "populate_fb info t3 = Inr t4" and
      t5: "populate_rt info t4 = Some (Inr t5)" and w: "boot_warm_update_selection_get (Some info) sealed = Some (warm, q)" and
      t6: "populate_payloads warm info t5 = Some (Inr t6)" and t7: "populate_warm s warm t6 = Inr t7" and t8: "populate_stack info t7 = Inr t'"
    using assms by (auto simp: boot_reserved_populate_from_info_def thenE_Some bind_eq_Some_conv split: if_splits)
  have q: "quiet t t1" "quiet t1 t2" "quiet t2 t3" "quiet t3 t4" "quiet t4 t5" "quiet t7 t'"
    using add_quiet [OF t1] populate_usb_ok [OF t2] populate_tpm_ok [OF t3] populate_fb_ok [OF t4] populate_rt_ok [OF t5] populate_stack_ok(1) [OF t8] by simp_all
  then have "quiet t1 t5" "quiet t t5" using quiet_trans by blast+
  moreover have "extends t5 t6" "extends t6 t7" using populate_payloads_ok [OF t6] populate_warm_ok(1) [OF t7] by simp_all
  ultimately have e: "extends t t'" "extends t1 t'" using q(6) extends_trans unfolding quiet_def by blast+
  have "\<exists>ps. payloads t' = payloads t @ ps @ warm_entries s warm \<and> pinned_bytes ps \<le> unat BOOT_PAYLOAD_RESERVE_TOTAL_MAX \<and> (\<forall>e \<in> set ps. normal_payload warm info e)"
    using \<open>quiet t t5\<close> q(6) populate_payloads_ok [OF t6] populate_warm_ok(2) [OF t7] by (auto simp: quiet_def)
  then show ?thesis using w e has_range_extends [OF add_has_range [OF t1] e(2)] populate_stack_ok(2) [OF t8] by blast
qed

lemma prefix_total: "unat n \<le> length xs \<Longrightarrow> \<exists>ys. prefix_of n xs = Some ys"
  by (simp add: prefix_of_def)

lemma thenE_total: "\<exists>r. m = Some r \<Longrightarrow> (\<And>x. \<exists>r. f x = Some r) \<Longrightarrow> \<exists>r. thenE m f = Some r"
  by (auto simp: thenE_def split: sum.splits)

lemma compute_total: "info_arrays info \<Longrightarrow> \<exists>r. warm_update_compute (Some info) = Some r"
  using prefix_total [of "payload_count info" "payload_descriptors info"]
  by (auto simp: warm_update_compute_def info_arrays_def BOOT_PAYLOAD_MAX_def word_le_nat_alt not_less)

lemma selection_get_total: "info_arrays info \<Longrightarrow> \<exists>r. boot_warm_update_selection_get (Some info) sealed = Some r"
  using compute_total by (fastforce simp: boot_warm_update_selection_get_def Let_def split: option.splits)

lemma populate_usb_total: "info_arrays info \<Longrightarrow> \<exists>r. populate_usb info t = Some r"
  using prefix_total [of "if dma_page_count (usb_controller info) > BOOT_USB_MAX_DMA_PAGES then BOOT_USB_MAX_DMA_PAGES else dma_page_count (usb_controller info)" "dma_pages (usb_controller info)"]
  by (auto simp: populate_usb_def Let_def info_arrays_def BOOT_USB_MAX_DMA_PAGES_def word_le_nat_alt word_less_nat_alt not_less split: if_splits)

lemma populate_rt_total: "info_arrays info \<Longrightarrow> \<exists>r. populate_rt info t = Some r"
  using prefix_total [of "rt_mmap_count info" "rt_mmap info"]
  by (auto simp: populate_rt_def info_arrays_def BOOT_RT_MMAP_MAX_def word_le_nat_alt not_less)

lemma populate_payloads_total: "info_arrays info \<Longrightarrow> \<not> payload_count info > BOOT_PAYLOAD_MAX \<Longrightarrow> \<exists>r. populate_payloads w info t = Some r"
  using prefix_total [of "payload_count info" "payload_descriptors info"]
  by (auto simp: populate_payloads_def info_arrays_def BOOT_PAYLOAD_MAX_def word_le_nat_alt not_less)

lemma populate_total:
  assumes "info_arrays info"
  shows "\<exists>r. boot_reserved_populate_from_info lay s (Some info) sealed t = Some r"
proof -
  obtain warm q where "boot_warm_update_selection_get (Some info) sealed = Some (warm, q)" using selection_get_total [OF assms] by (metis surj_pair)
  then show ?thesis
    using populate_usb_total [OF assms] populate_rt_total [OF assms] populate_payloads_total [OF assms]
    by (auto simp: boot_reserved_populate_from_info_def intro!: thenE_total)
qed

end
