(* ===== verification/Mm_Init_Frames.thy ===== *)
theory Mm_Init_Frames
  imports Mm_Init_Facts
begin

text \<open>
  \<open>pmm_init\<close> frame by frame: which frames are free when it returns \<open>BOOT_OK\<close>, that it returns, and what that gives the clients of the allocator.
\<close>

section \<open>Marking\<close>

text \<open>What \<open>pmm_mark_region_used\<close> does, which is less than its name says: it marks the frames the range touches, but none at all when rounding the end up to a frame wraps around. This only
  describes the effect of the call; the frames a region reserves are all that it touches, \<open>reserved_frames\<close> below.\<close>

definition marks :: "u64 \<Rightarrow> u64 \<Rightarrow> nat set" where
  "marks base len = (if unat base + unat len + 4095 < 2 ^ 64 then touched (unat base) (unat len) else {})"

lemma mark_wrapped:
  assumes "fits base len" "\<not> unat base + unat len + 4095 < 2 ^ 64"
  shows "pmm_mark_region_used base len s = Some s"
proof -
  have e: "base + len + PMM_FRAME_SIZE - 1 = (base + len) + 4095" by (simp add: PMM_FRAME_SIZE_def)
  have "unat (base + len) = unat base + unat len" by (rule unat_end [OF assms(1)])
  then have "unat (base + len + PMM_FRAME_SIZE - 1) < 4096"
    using assms unfolding fits_def e unat_plus_if_size [of "base + len"] by (simp add: word_size)
  then have "(base + len + PMM_FRAME_SIZE - 1) div PMM_FRAME_SIZE = 0" by (intro iffD2 [OF word_unat_eq_iff]) (simp add: unat_div PMM_FRAME_SIZE_def)
  then show ?thesis by (simp add: pmm_mark_region_used_def Let_def)
qed

lemma mark_eq:
  assumes "pmm_ok s" "fits base len"
  shows "\<exists>s'. pmm_mark_region_used base len s = Some s' \<and> to_used s (used s \<union> marks base len \<inter> {..<unat (total_frames s)}) s'"
proof (cases "unat base + unat len + 4095 < 2 ^ 64")
  case True
  then show ?thesis using pmm_mark_region_used_eq [OF assms(1) True] by (simp add: marks_def)
next
  case False
  then show ?thesis using mark_wrapped [OF assms(2) False] to_used_refl [OF assms(1)] by (simp add: marks_def)
qed

text \<open>Any range at all can be marked, and marking takes no frame out of use.\<close>

lemma mark_any: "pmm_ok s \<Longrightarrow> \<exists>s' V. pmm_mark_region_used base len s = Some s' \<and> to_used s (used s \<union> V) s'"
proof -
  assume ok: "pmm_ok s"
  let ?e = "(base + len + PMM_FRAME_SIZE - 1) div PMM_FRAME_SIZE"
  have "unat (if ?e > total_frames s then total_frames s else ?e) \<le> unat (total_frames s)" by (simp add: word_le_nat_alt [symmetric] not_less)
  from mark_used_loop [OF ok this] show ?thesis unfolding pmm_mark_region_used_def Let_def by blast
qed

section \<open>The stages of the construction\<close>

lemma bit_FF: "k < 8 \<Longrightarrow> bit (0xFF :: u8) k"
  using bit_mask_iff [of 8 k, where 'a = u8] by (simp add: mask_eq_exp_minus_1)

lemma tracked_ceiling_cap: "unat (tracked_ceiling es) \<le> 2 ^ 32"
  by (auto simp: tracked_ceiling_def Let_def PMM_PHYS_ADDR_CAP_def word_le_nat_alt word_less_nat_alt not_less split: if_splits)

lemma all_used_ok:
  assumes "unat h \<le> 2 ^ 32"
  shows "pmm_ok (pmm_all_used h)" "used (pmm_all_used h) = {..<unat h div 4096}" "unat (total_frames (pmm_all_used h)) = unat h div 4096"
    "unat (bitmap_size (pmm_all_used h)) \<le> 2 ^ 17"
proof -
  let ?s = "pmm_all_used h"
  show n: "unat (total_frames ?s) = unat h div 4096" by (simp add: pmm_all_used_def Let_def unat_div PMM_FRAME_SIZE_def)
  have le: "unat h div 4096 \<le> 2 ^ 20" using assms by simp
  have tf: "total_frames ?s = of_nat (unat h div 4096)" using arg_cong [OF n, of "of_nat :: nat \<Rightarrow> u64"] by simp
  have "total_frames ?s + 7 = of_nat (unat h div 4096 + 7)" unfolding tf by simp
  then have "unat (total_frames ?s + 7) = unat h div 4096 + 7" using le unat_of_nat_u64 [of "unat h div 4096 + 7"] by simp
  then have sz: "unat (bitmap_size ?s) = (unat h div 4096 + 7) div 8" by (simp add: pmm_all_used_def Let_def unat_div)
  then show "unat (bitmap_size ?s) \<le> 2 ^ 17" using le by simp
  have b: "bitmap ?s = replicate (unat (bitmap_size ?s)) 0xFF" by (simp add: pmm_all_used_def Let_def)
  show u: "used ?s = {..<unat h div 4096}"
  proof -
    have "frame_used ?s f" if "f < unat h div 4096" for f
    proof -
      have "f div 8 < unat (bitmap_size ?s)" using that sz by simp
      then show ?thesis using b bit_FF [of "f mod 8"] by (simp add: frame_used_def)
    qed
    then show ?thesis using n by (auto simp: used_def)
  qed
  have "used_frames ?s = total_frames ?s" by (simp add: pmm_all_used_def Let_def)
  then show "pmm_ok ?s" using n sz le u tf b by (simp add: pmm_ok_def pmm_shape_def)
qed

text \<open>The frames that the usable entries of the memory map cover.\<close>

definition usable_frames :: "boot_mmap_entry list \<Rightarrow> nat set" where
  "usable_frames es = (\<Union>e \<in> {e \<in> set es. usable_type (uefi_memory_type e)}. inside (unat (base_addr e)) (unat (me_length e)))"

lemma entry_fits: "\<not> entry_wraps e \<Longrightarrow> unat (base_addr e) + unat (me_length e) < 2 ^ 64"
proof -
  assume "\<not> entry_wraps e"
  then have "me_length e = 0 \<or> unat (base_addr e) \<le> unat (base_addr e + me_length e)" by (auto simp: entry_wraps_def word_le_nat_alt not_less split: if_splits)
  then show ?thesis using unat_u64_less [of "base_addr e"] unat_u64_less [of "me_length e"] by (auto simp: unat_plus_if_size word_size split: if_splits)
qed

lemma free_usable_eq:
  assumes "pmm_ok s" "\<not> list_ex entry_wraps es"
  shows "\<exists>s'. free_usable es s = Some s' \<and> to_used s (used s - usable_frames es \<inter> {..<unat (total_frames s)}) s'"
  using assms
proof (induction es arbitrary: s)
  case Nil
  then show ?case using to_used_refl by (simp add: usable_frames_def)
next
  case (Cons e es)
  let ?A = "(if usable_type (uefi_memory_type e) then inside (unat (base_addr e)) (unat (me_length e)) else {})"
  have u: "usable_frames (e # es) = ?A \<union> usable_frames es" by (auto simp: usable_frames_def)
  obtain s1 where s1: "(if usable_type (uefi_memory_type e) then pmm_mark_region_free (base_addr e) (me_length e) s else Some s) = Some s1"
      "to_used s (used s - ?A \<inter> {..<unat (total_frames s)}) s1"
    using pmm_mark_region_free_eq [OF Cons.prems(1), of "base_addr e" "me_length e"] entry_fits [of e] Cons.prems(2) to_used_refl [OF Cons.prems(1)]
    by (cases "usable_type (uefi_memory_type e)") auto
  obtain s2 where s2: "free_usable es s1 = Some s2" "to_used s1 (used s1 - usable_frames es \<inter> {..<unat (total_frames s1)}) s2"
    using Cons.IH [of s1] s1(2) Cons.prems(2) by (auto simp: to_used_def)
  have "used s1 - usable_frames es \<inter> {..<unat (total_frames s1)} = used s - usable_frames (e # es) \<inter> {..<unat (total_frames s)}"
    using s1(2) unfolding u to_used_def by auto
  then show ?case using s1 s2 to_used_trans [OF s1(2)] by auto
qed

section \<open>Reservations\<close>

lemma and_not_4095: "unat ((x :: u64) AND NOT 4095) = unat x div 4096 * 4096"
proof -
  have "x AND NOT (mask 12) = push_bit 12 (drop_bit 12 x)"
    by (rule bit_word_eqI) (auto simp: bit_simps)
  then have "x AND NOT 4095 = push_bit 12 (drop_bit 12 x)" by (simp add: mask_eq_exp_minus_1)
  moreover have "unat (push_bit 12 (drop_bit 12 x)) = unat x div 4096 * 4096"
    using unat_u64_less [of x] by (simp add: push_bit_eq_mult drop_bit_eq_div unat_word_ariths(2) unat_div)
  ultimately show ?thesis by simp
qed

text \<open>The kernel is linked at 1 MiB and ends below 4 GiB, as its identity map needs.\<close>

definition layout_ok :: "boot_layout \<Rightarrow> bool" where
  "layout_ok lay \<longleftrightarrow> 2 ^ 20 \<le> unat (kernel_end lay) \<and> unat (kernel_end lay) < 2 ^ 32"

text \<open>The frames of the low memory, of the kernel image, of the bitmap behind it and of the window for user page tables.\<close>

definition internal_frames :: "u64 \<Rightarrow> nat \<Rightarrow> nat set" where
  "internal_frames kend sz = {f. f < 256} \<union> {f. 256 \<le> f \<and> f * 4096 < unat kend + sz} \<union> {f. 2048 \<le> f \<and> f < 2560}"

lemma bitmap_end_eq:
  assumes "unat kend < 2 ^ 32" "unat sz \<le> 2 ^ 17"
  shows "unat (bitmap_end_of kend sz) = (unat kend + unat sz + 4095) div 4096 * 4096"
proof -
  have "kend + sz + PMM_FRAME_SIZE - 1 = of_nat (unat kend + unat sz + 4095)" by (simp add: PMM_FRAME_SIZE_def algebra_simps)
  moreover have "unat kend + unat sz + 4095 < 2 ^ 64" using assms by simp
  ultimately have "unat (kend + sz + PMM_FRAME_SIZE - 1) = unat kend + unat sz + 4095" using unat_of_nat_u64 by metis
  moreover have "PMM_FRAME_SIZE - 1 = 4095" by (simp add: PMM_FRAME_SIZE_def)
  ultimately show ?thesis unfolding bitmap_end_of_def by (simp only: and_not_4095)
qed

lemma ceil_frames: "f < (x + 4095) div 4096 \<longleftrightarrow> f * 4096 < (x :: nat)"
  by (simp add: less_eq_div_iff_mult_less_eq flip: Suc_le_eq)

lemma touched_eq: "touched base len = {f. base div 4096 \<le> f \<and> f * 4096 < base + len}"
  by (simp add: touched_def ceil_frames)

lemma image_frames:
  assumes "2 ^ 20 \<le> k" "k \<le> e" "\<And>f. f * 4096 < e \<longleftrightarrow> f * 4096 < k + sz"
  shows "touched (2 ^ 20) (k - 2 ^ 20) \<union> touched k (e - k) = {f. 256 \<le> f \<and> f * 4096 < k + sz}"
proof (intro set_eqI)
  fix f :: nat
  have "256 \<le> k div 4096" using assms(1) by simp
  moreover have "k div 4096 \<le> f" if "\<not> f * 4096 < k" using that by simp
  ultimately show "f \<in> touched (2 ^ 20) (k - 2 ^ 20) \<union> touched k (e - k) \<longleftrightarrow> f \<in> {f. 256 \<le> f \<and> f * 4096 < k + sz}"
    using assms(1,2) by (cases "f * 4096 < k") (auto simp: touched_eq assms(3))
qed

lemma mark_known:
  assumes "pmm_ok s" "unat base = b" "unat len = l" "b + l < 2 ^ 63"
  shows "\<exists>s'. pmm_mark_region_used base len s = Some s' \<and> to_used s (used s \<union> touched b l \<inter> {..<unat (total_frames s)}) s'"
  using pmm_mark_region_used_eq [OF assms(1), of base len] assms(2-) by simp

lemma reserve_internal_eq:
  assumes "pmm_ok s" "2 ^ 20 \<le> unat kend" "unat kend < 2 ^ 32" "unat sz \<le> 2 ^ 17"
  shows "\<exists>s'. reserve_internal kend (bitmap_end_of kend sz) s = Some s' \<and>
    to_used s (used s \<union> internal_frames kend (unat sz) \<inter> {..<unat (total_frames s)}) s'"
proof -
  let ?e = "bitmap_end_of kend sz" and ?k = "unat kend"
  note e = bitmap_end_eq [OF assms(3,4)]
  have ke: "?k \<le> unat ?e" "unat ?e < 2 ^ 33"
    unfolding e using assms div_times_less_eq_dividend [of "?k + unat sz + 4095" 4096] by simp_all
  have l: "unat (kend - 0x100000) = ?k - 2 ^ 20" "unat (?e - kend) = unat ?e - ?k" using assms ke by (simp_all add: unat_sub word_le_nat_alt)
  have b: "2 ^ 20 + (?k - 2 ^ 20) < 2 ^ 63" using assms(2,3) by simp
  obtain s1 where s1: "pmm_mark_region_used 0 0x100000 s = Some s1" "to_used s (used s \<union> touched 0 (2 ^ 20) \<inter> {..<unat (total_frames s)}) s1"
    using mark_known [OF assms(1), of 0 0 "0x100000" "2 ^ 20"] by auto
  obtain s2 where s2: "pmm_mark_region_used 0x100000 (kend - 0x100000) s1 = Some s2"
      "to_used s1 (used s1 \<union> touched (2 ^ 20) (?k - 2 ^ 20) \<inter> {..<unat (total_frames s1)}) s2"
    using mark_known [of s1 "0x100000", OF _ _ l(1) b] s1(2) by (auto simp: to_used_def)
  obtain s3 where s3: "pmm_mark_region_used kend (?e - kend) s2 = Some s3" "to_used s2 (used s2 \<union> touched ?k (unat ?e - ?k) \<inter> {..<unat (total_frames s2)}) s3"
    using mark_known [of s2 kend, OF _ refl l(2)] s2(2) ke l(2) by (auto simp: to_used_def)
  obtain s4 where s4: "pmm_mark_region_used USER_PT_WINDOW_BASE USER_PT_WINDOW_SIZE s3 = Some s4"
      "to_used s3 (used s3 \<union> touched 0x800000 0x200000 \<inter> {..<unat (total_frames s3)}) s4"
    using mark_known [of s3 USER_PT_WINDOW_BASE "0x800000" USER_PT_WINDOW_SIZE "0x200000"] s3(2)
    by (auto simp: to_used_def USER_PT_WINDOW_BASE_def USER_PT_WINDOW_SIZE_def)
  have t: "touched 0 (2 ^ 20) = {f. f < 256}" "touched 0x800000 0x200000 = {f. 2048 \<le> f \<and> f < 2560}" by (auto simp: touched_eq)
  have "f * 4096 < unat ?e \<longleftrightarrow> f * 4096 < ?k + unat sz" for f unfolding e ceil_frames [symmetric] by simp
  then have "touched (2 ^ 20) (?k - 2 ^ 20) \<union> touched ?k (unat ?e - ?k) = {f. 256 \<le> f \<and> f * 4096 < ?k + unat sz}"
    by (rule image_frames [OF assms(2) ke(1)])
  then have "touched 0 (2 ^ 20) \<union> touched (2 ^ 20) (?k - 2 ^ 20) \<union> touched ?k (unat ?e - ?k) \<union> touched 0x800000 0x200000 = internal_frames kend (unat sz)"
    unfolding t internal_frames_def by blast
  then have "used s4 = used s \<union> internal_frames kend (unat sz) \<inter> {..<unat (total_frames s)}"
    using s1(2) s2(2) s3(2) s4(2) unfolding to_used_def by auto
  then have "to_used s (used s \<union> internal_frames kend (unat sz) \<inter> {..<unat (total_frames s)}) s4"
    using s1(2) s2(2) s3(2) s4(2) by (simp add: to_used_def)
  then show ?thesis using s1(1) s2(1) s3(1) s4(1) by (simp add: reserve_internal_def)
qed

lemma apply_eq:
  assumes "pmm_ok s" "\<forall>e \<in> set t. fits (br_phys_start e) (br_length e)"
  shows "\<exists>s'. boot_reserved_apply t s = Some s' \<and>
    to_used s (used s \<union> (\<Union>e \<in> set t. marks (br_phys_start e) (br_length e)) \<inter> {..<unat (total_frames s)}) s'"
  using assms
proof (induction t arbitrary: s)
  case Nil
  then show ?case using to_used_refl by simp
next
  case (Cons e t)
  let ?M = "\<lambda>e. marks (br_phys_start e) (br_length e)" and ?T = "{..<unat (total_frames s)}"
  obtain s1 where s1: "pmm_mark_region_used (br_phys_start e) (br_length e) s = Some s1" "to_used s (used s \<union> ?M e \<inter> ?T) s1"
    using mark_eq [OF Cons.prems(1), of "br_phys_start e" "br_length e"] Cons.prems(2) by auto
  obtain s2 where s2: "boot_reserved_apply t s1 = Some s2" "to_used s1 (used s1 \<union> (\<Union>e \<in> set t. ?M e) \<inter> {..<unat (total_frames s1)}) s2"
    using Cons.IH [of s1] s1(2) Cons.prems(2) by (auto simp: to_used_def)
  have "used s1 \<union> (\<Union>e \<in> set t. ?M e) \<inter> {..<unat (total_frames s1)} = used s \<union> (\<Union>e \<in> set (e # t). ?M e) \<inter> ?T"
    using s1(2) by (auto simp: to_used_def)
  then show ?case using s1(1) s2 to_used_trans [OF s1(2) s2(2)] by simp
qed

section \<open>The acceptance check\<close>

lemma stack_reserved_eq:
  assumes "pmm_ok s"
  shows "stack_reserved f f_end s = Some ({f..<f_end} \<subseteq> used s)"
proof (induction "f_end - f" arbitrary: f)
  case 0
  then show ?case by (simp add: stack_reserved.simps)
next
  case (Suc d)
  then have l: "f < f_end" "stack_reserved (Suc f) f_end s = Some ({Suc f..<f_end} \<subseteq> used s)" by simp_all
  have i: "{f..<f_end} = insert f {Suc f..<f_end}" using l(1) by auto
  show ?case
  proof (cases "f < unat (total_frames s)")
    case True
    then obtain t where "bitmap_test f s = Some t" "t = 0 \<longleftrightarrow> f \<notin> used s" using bitmap_test_eq [of s f] assms by (auto simp: pmm_ok_def)
    then show ?thesis using l i True by (simp add: stack_reserved.simps [of f])
  next
    case False
    then have "f \<notin> used s" using used_less by blast
    then show ?thesis using l(1) i False by (simp add: stack_reserved.simps [of f])
  qed
qed

lemma rsp_reserved_eq:
  assumes "pmm_ok s" "8 \<le> unat rsp"
  shows "rsp_reserved rsp s = Some (unat rsp div 4096 \<in> used s \<and> (unat rsp - 8) div 4096 \<in> used s)"
proof -
  have u: "unat ((rsp - 8) div PMM_FRAME_SIZE) = (unat rsp - 8) div 4096" "unat (rsp div PMM_FRAME_SIZE) = unat rsp div 4096"
    using assms(2) by (simp_all add: unat_div PMM_FRAME_SIZE_def unat_sub word_le_nat_alt)
  have le: "(unat rsp - 8) div 4096 \<le> unat rsp div 4096" by (simp add: div_le_mono)
  show ?thesis
  proof (cases "unat rsp div 4096 < unat (total_frames s)")
    case True
    then obtain lo hi where "bitmap_test ((unat rsp - 8) div 4096) s = Some lo" "lo = 0 \<longleftrightarrow> (unat rsp - 8) div 4096 \<notin> used s"
        "bitmap_test (unat rsp div 4096) s = Some hi" "hi = 0 \<longleftrightarrow> unat rsp div 4096 \<notin> used s"
      using bitmap_test_eq [of s "(unat rsp - 8) div 4096"] bitmap_test_eq [of s "unat rsp div 4096"] assms(1) le by (auto simp: pmm_ok_def)
    then show ?thesis using True u by (auto simp: rsp_reserved_def Let_def word_le_nat_alt)
  next
    case False
    then have "unat rsp div 4096 \<notin> used s" using used_less by blast
    then show ?thesis using False u by (simp add: rsp_reserved_def Let_def word_le_nat_alt)
  qed
qed

lemma verify_window_total: "pmm_ok s \<Longrightarrow> 2560 \<le> unat (total_frames s) \<Longrightarrow> verify_window s = Some ()"
  using bitmap_test_eq [of s 2048] bitmap_test_eq [of s 2559]
  by (auto simp: verify_window_def pmm_ok_def USER_PT_WINDOW_BASE_def USER_PT_WINDOW_END_def USER_PT_WINDOW_SIZE_def PMM_FRAME_SIZE_def unat_div)

section \<open>The result of the initialization\<close>

text \<open>The memory map that is read, and the frames that are kept from the allocator: the internal ones and those of the table's regions.\<close>

definition active_map :: "boot_info \<Rightarrow> boot_mmap_entry list" where
  "active_map info = take (unat (mmap_count info)) (mmap info)"

definition reserved_frames :: "boot_layout \<Rightarrow> pmm_state \<Rightarrow> reserved_table \<Rightarrow> nat set" where
  "reserved_frames lay s t = internal_frames (kernel_end lay) (unat (bitmap_size s)) \<union> (\<Union>e \<in> set t. touched (unat (br_phys_start e)) (unat (br_length e)))"

text \<open>No region of the table ends in the last 4095 bytes of the address space. On hardware no region does, since physical addresses have at most 52 bits; the code does not check it.\<close>

definition ends_round :: "reserved_table \<Rightarrow> bool" where
  "ends_round t \<longleftrightarrow> (\<forall>e \<in> set t. unat (br_phys_start e) + unat (br_length e) + 4095 < 2 ^ 64)"

lemma marks_touched: "ends_round t \<Longrightarrow> (\<Union>e \<in> set t. marks (br_phys_start e) (br_length e)) = (\<Union>e \<in> set t. touched (unat (br_phys_start e)) (unat (br_length e)))"
  by (simp add: ends_round_def marks_def)

lemma build_stages:
  assumes "layout_ok lay" "\<not> list_ex entry_wraps es"
  defines "s0 \<equiv> pmm_all_used (tracked_ceiling es)"
  shows "\<exists>s1 s2. free_usable es s0 = Some s1 \<and> reserve_internal (kernel_end lay) (bitmap_end_of (kernel_end lay) (bitmap_size s0)) s1 = Some s2 \<and>
    to_used s0 ({..<unat (tracked_ceiling es) div 4096} - (usable_frames es - internal_frames (kernel_end lay) (unat (bitmap_size s0)))) s2"
proof -
  note ok = all_used_ok [OF tracked_ceiling_cap, of es, folded s0_def]
  obtain s1 where s1: "free_usable es s0 = Some s1" "to_used s0 (used s0 - usable_frames es \<inter> {..<unat (total_frames s0)}) s1"
    using free_usable_eq [OF ok(1) assms(2)] by blast
  then have "pmm_ok s1" by (simp add: to_used_def)
  then obtain s2 where s2: "reserve_internal (kernel_end lay) (bitmap_end_of (kernel_end lay) (bitmap_size s0)) s1 = Some s2"
      "to_used s1 (used s1 \<union> internal_frames (kernel_end lay) (unat (bitmap_size s0)) \<inter> {..<unat (total_frames s1)}) s2"
    using reserve_internal_eq [of s1 "kernel_end lay" "bitmap_size s0"] assms(1) ok(4) by (auto simp: layout_ok_def)
  have "used s1 \<union> internal_frames (kernel_end lay) (unat (bitmap_size s0)) \<inter> {..<unat (total_frames s1)} =
      {..<unat (tracked_ceiling es) div 4096} - (usable_frames es - internal_frames (kernel_end lay) (unat (bitmap_size s0)))"
    using s1(2) ok(2,3) by (auto simp: to_used_def)
  then show ?thesis using s1 s2 to_used_trans [OF s1(2) s2(2)] by auto
qed

lemma prefix_map: "prefix_of n xs = Some ys \<Longrightarrow> map snd ys = take (unat n) xs"
  by (auto simp: prefix_of_def map_snd_zip_take min_def split: if_splits)

lemma pmm_init_build:
  assumes "pmm_init lay ks rsp info sealed t = Some (Return BOOT_OK (Some s) t' w)"
  defines "es \<equiv> active_map info"
  shows "\<not> list_ex entry_wraps es" "unat (mmap_count info) \<le> 512"
    "pmm_build lay ks rsp info sealed t es (bitmap_end_of (kernel_end lay) (bitmap_size (pmm_all_used (tracked_ceiling es)))) (pmm_all_used (tracked_ceiling es)) =
      Some (Return BOOT_OK (Some s) t' w)"
  using assms(1) prefix_map [of "mmap_count info" "mmap info"] unfolding es_def active_map_def
  by (auto simp: pmm_init_def Let_def bind_eq_Some_conv BOOT_MMAP_MAX_ENTRIES_def word_less_nat_alt not_less split: if_splits)

lemma populated_table: "boot_reserved_populate_from_info lay s (Some info) sealed [] = Some (Inr (t, w)) \<Longrightarrow> table_inv t"
  using populate_ok by (fastforce simp: extends_def table_inv_def)

lemma apply_populated:
  assumes "pmm_ok s" "boot_reserved_populate_from_info lay s' (Some info) sealed [] = Some (Inr (t, w))"
  shows "\<exists>s''. boot_reserved_apply t s = Some s'' \<and> pmm_ok s'' \<and>
    to_used s (used s \<union> (\<Union>e \<in> set t. marks (br_phys_start e) (br_length e)) \<inter> {..<unat (total_frames s)}) s''"
  using apply_eq [OF assms(1), of t] populated_table [OF assms(2)] by (auto simp: table_inv_def to_used_def)

lemma acceptance_total: "pmm_ok s \<Longrightarrow> 8 \<le> unat rsp \<Longrightarrow> \<exists>ok. acceptance_check ks rsp s = Some ok"
  by (auto simp: acceptance_check_def stack_reserved_eq rsp_reserved_eq)

lemma pmm_init_result:
  assumes "pmm_init lay ks rsp info sealed [] = Some (Return BOOT_OK (Some s) t w)" "layout_ok lay"
  defines "es \<equiv> active_map info"
  shows "\<exists>s2. boot_reserved_populate_from_info lay s2 (Some info) sealed [] = Some (Inr (t, w)) \<and> pmm_ok s \<and>
    unat (total_frames s) = unat (tracked_ceiling es) div 4096 \<and> used_frames s < total_frames s \<and>
    used s = {..<unat (total_frames s)} - (usable_frames es - (internal_frames (kernel_end lay) (unat (bitmap_size s)) \<union> (\<Union>e \<in> set t. marks (br_phys_start e) (br_length e)))) \<and>
    acceptance_check ks rsp s = Some True \<and> \<not> payloads_collide (kernel_end lay) (bitmap_end_of (kernel_end lay) (bitmap_size s)) t"
proof -
  let ?s0 = "pmm_all_used (tracked_ceiling es)"
  note b = pmm_init_build [OF assms(1), folded es_def] and ok = all_used_ok [OF tracked_ceiling_cap, of es]
  obtain s1 s2 where s: "free_usable es ?s0 = Some s1" "reserve_internal (kernel_end lay) (bitmap_end_of (kernel_end lay) (bitmap_size ?s0)) s1 = Some s2"
      "to_used ?s0 ({..<unat (tracked_ceiling es) div 4096} - (usable_frames es - internal_frames (kernel_end lay) (unat (bitmap_size ?s0)))) s2"
    using build_stages [OF assms(2) b(1)] by blast
  obtain y where y: "boot_reserved_populate_from_info lay s2 (Some info) sealed [] = Some y"
    using b(3) s(1,2) by (auto simp: pmm_build_def bind_eq_Some_conv)
  have r: "boot_reserved_populate_from_info lay s2 (Some info) sealed [] = Some (Inr (t, w))" "boot_reserved_apply t s2 = Some s"
      "acceptance_check ks rsp s = Some True" "used_frames s < total_frames s"
      "\<not> payloads_collide (kernel_end lay) (bitmap_end_of (kernel_end lay) (bitmap_size ?s0)) t"
    using b(3) s(1,2) y by (cases y; auto simp: pmm_build_def bind_eq_Some_conv split: if_splits)+
  have "pmm_ok s2" using s(3) by (simp add: to_used_def)
  then have "to_used s2 (used s2 \<union> (\<Union>e \<in> set t. marks (br_phys_start e) (br_length e)) \<inter> {..<unat (total_frames s2)}) s"
    using apply_populated [OF _ r(1)] r(2) by fastforce
  then have "pmm_ok s" "total_frames s = total_frames ?s0" "bitmap_size s = bitmap_size ?s0"
      "used s = {..<unat (tracked_ceiling es) div 4096} -
        (usable_frames es - (internal_frames (kernel_end lay) (unat (bitmap_size s)) \<union> (\<Union>e \<in> set t. marks (br_phys_start e) (br_length e))))"
    using s(3) ok(3) by (auto simp: to_used_def)
  then show ?thesis using r ok(3) by auto
qed

lemma pmm_init_used:
  assumes "pmm_init lay ks rsp info sealed [] = Some (Return BOOT_OK (Some s) t w)" "layout_ok lay" "ends_round t"
  shows "pmm_ok s" "used s = {..<unat (total_frames s)} - (usable_frames (active_map info) - reserved_frames lay s t)"
  using pmm_init_result [OF assms(1,2)] unfolding reserved_frames_def marks_touched [OF assms(3)] by blast+

text \<open>Frame 0 is never free, so the address 0 can mean failure.\<close>

lemma pmm_init_zero:
  assumes "pmm_init lay ks rsp info sealed [] = Some (Return BOOT_OK (Some s) t w)" "layout_ok lay"
  shows "0 \<in> used s"
proof -
  note r = pmm_init_result [OF assms]
  have u: "used s = {..<unat (total_frames s)} -
      (usable_frames (active_map info) - (internal_frames (kernel_end lay) (unat (bitmap_size s)) \<union> (\<Union>e \<in> set t. marks (br_phys_start e) (br_length e))))"
    and "used_frames s < total_frames s" using r by blast+
  from this(2) have "0 < unat (total_frames s)" by (simp add: word_less_nat_alt)
  moreover have "0 \<in> internal_frames (kernel_end lay) (unat (bitmap_size s))" by (simp add: internal_frames_def)
  ultimately show ?thesis unfolding u by blast
qed

end
