(* ===== verification/Mm_Properties.thy ===== *)
theory Mm_Properties
  imports Mm_Init_Frames
begin

text \<open>
  The properties of the boot handoff and of the physical memory manager, and a sample boot that their witnesses share.
\<close>

section \<open>The allocator\<close>

text \<open>C33: contiguous allocation. \<open>pmm_alloc_contiguous\<close> never reads or writes outside the bitmap. If there is a run of \<open>n\<close> free frames it returns the address of the lowest one, and
  exactly its frames become used, with the counter exact; otherwise it returns 0 and changes nothing. Releasing the block with
  \<open>pmm_free_contiguous\<close> gives back the very state before, bitmap and counter.\<close>

theorem pmm_alloc_contiguous_correct:
  assumes "pmm_ok s" "0 \<in> used s" "n \<noteq> 0"
  shows "\<exists>addr s'. pmm_alloc_contiguous n s = Some (addr, s') \<and>
    (if \<exists>r. run_free s (unat n) r
     then \<exists>r. r = (LEAST r. run_free s (unat n) r) \<and> unat addr = r * 4096 \<and> addr \<noteq> 0 \<and> pmm_ok s' \<and> used s' = used s \<union> {r..<r + unat n} \<and>
       pmm_get_used_frames s' = pmm_get_used_frames s + n \<and> pmm_free_contiguous addr n s' = Some s
     else addr = 0 \<and> s' = s)"
proof -
  have pos: "0 < unat n" using assms(3) by (simp add: unat_gt_0)
  obtain addr s' where a: "pmm_alloc_contiguous n s = Some (addr, s')" "take_spec s (unat n) (addr, s')"
    using pmm_alloc_contiguous_eq [OF assms(1,3)] by (metis surj_pair)
  from alloc_take [OF assms(1,2) pos a(2)] show ?thesis
  proof
    assume "addr = 0 \<and> s' = s \<and> (\<forall>r. \<not> run_free s (unat n) r)"
    then show ?thesis using a(1) by auto
  next
    assume "\<exists>r. 0 < r \<and> r + unat n \<le> 2 ^ 20 \<and> addr = of_nat r * PMM_FRAME_SIZE \<and> addr \<noteq> 0 \<and> run_free s (unat n) r \<and> r = (LEAST r. run_free s (unat n) r) \<and>
      to_used s (used s \<union> {r..<r + unat n}) s'"
    then obtain r where r: "0 < r" "r + unat n \<le> 2 ^ 20" "addr = of_nat r * PMM_FRAME_SIZE" "addr \<noteq> 0" "run_free s (unat n) r"
      "r = (LEAST r. run_free s (unat n) r)" "to_used s (used s \<union> {r..<r + unat n}) s'" by blast
    have addr: "unat addr = r * 4096" using frame_addr(1) [of r] r(2,3) pos by simp
    have free: "{r..<r + unat n} \<inter> used s = {}" using r(5) by (simp add: run_free_def)
    then have "card (used s \<union> {r..<r + unat n}) = card (used s) + unat n" by (subst card_Un_disjoint) auto
    then have count: "pmm_get_used_frames s' = pmm_get_used_frames s + n" using r(7) assms(1) by (simp add: pmm_get_used_frames_def to_used_def pmm_ok_def)
    obtain s'' where s'': "pmm_free_contiguous addr n s' = Some s''" "to_used s' (used s' - {r..<r + unat n}) s''"
      using pmm_free_contiguous_eq [of s' r n] r by (auto simp: to_used_def)
    have "used s' - {r..<r + unat n} = used s" using r(7) free by (auto simp: to_used_def)
    then have "s'' = s" using to_used_trans [OF r(7) s''(2)] to_used_refl [OF assms(1)] to_used_unique by metis
    then show ?thesis using a(1) addr r count s'' by (auto simp: to_used_def)
  qed
qed

text \<open>Ten frames, the first, the second and the fourth in use.\<close>

definition sample_pmm :: pmm_state where
  "sample_pmm = \<lparr>bitmap = [0x0B, 0], bitmap_size = 2, total_frames = 10, used_frames = 3\<rparr>"

lemma sample_pmm_frames: "frame_used sample_pmm f \<longleftrightarrow> f \<in> {0, 1, 3}"
proof -
  have "frame_used sample_pmm f \<longleftrightarrow> f < 16 \<and> frame_used sample_pmm f" by (auto simp: frame_used_def sample_pmm_def)
  also have "\<dots> \<longleftrightarrow> f \<in> set (filter (frame_used sample_pmm) [0..<16])" by auto
  also have "filter (frame_used sample_pmm) [0..<16] = [0, 1, 3]" by code_simp
  finally show ?thesis by simp
qed

lemma sample_pmm_used: "used sample_pmm = {0, 1, 3}"
  by (auto simp: used_def sample_pmm_frames) (auto simp: sample_pmm_def)

lemma sample_pmm_ok: "pmm_ok sample_pmm"
  unfolding pmm_ok_def sample_pmm_used by (simp add: pmm_shape_def) (simp add: sample_pmm_def)

theorem pmm_alloc_contiguous_correct_witness:
  "\<exists>s'. pmm_alloc_contiguous 2 sample_pmm = Some (0x4000, s') \<and> used s' = {0, 1, 3, 4, 5} \<and> pmm_free_contiguous 0x4000 2 s' = Some sample_pmm"
proof -
  have "run_free sample_pmm 2 r \<longleftrightarrow> 4 \<le> r \<and> r \<le> 8" for r
    unfolding run_free_def sample_pmm_used by (auto simp: sample_pmm_def)
  then have e: "\<exists>r. run_free sample_pmm 2 r" and l: "(LEAST r. run_free sample_pmm 2 r) = 4" by (auto intro: Least_equality)
  obtain addr s' where s': "pmm_alloc_contiguous 2 sample_pmm = Some (addr, s')" "unat addr = 4 * 4096" "used s' = used sample_pmm \<union> {4..<4 + unat (2 :: u64)}"
      "pmm_free_contiguous addr 2 s' = Some sample_pmm"
    using pmm_alloc_contiguous_correct [OF sample_pmm_ok, of 2] e l by (auto simp: sample_pmm_used)
  then have "addr = 0x4000" by (simp add: word_unat_eq_iff)
  moreover have "used s' = {0, 1, 3, 4, 5}" using s'(3) sample_pmm_used by auto
  ultimately show ?thesis using s' by auto
qed

text \<open>C34: exclusive ownership. Whatever clients do from a state \<open>s0\<close> on, allocating in the three ways and releasing what they hold in any order: the used frames are those of \<open>s0\<close>
  and those of the blocks that are held, no two held blocks share a frame, no block contains a frame that was in use at the start, and
  the invariant of the bitmap and its counter is kept.\<close>

theorem pmm_run_exclusive:
  assumes "pmm_run s0 s L" "pmm_ok s0" "0 \<in> used s0"
  shows "pmm_ok s \<and> used s = used s0 \<union> (\<Union>b \<in> set L. block b) \<and>
    (\<forall>i < length L. \<forall>j < length L. i \<noteq> j \<longrightarrow> block (L ! i) \<inter> block (L ! j) = {}) \<and> (\<forall>b \<in> set L. block b \<inter> used s0 = {} \<and> block b \<noteq> {})"
proof -
  have h: "held s0 s L" by (rule pmm_run_held [OF assms])
  then have "block (L ! i) \<inter> block (L ! j) = {}" if "i < j" "j < length L" for i j
    using that sorted_wrt_nth_less [of "\<lambda>b c. block b \<inter> block c = {}" L i j] by (simp add: held_def)
  then have "block (L ! i) \<inter> block (L ! j) = {}" if "i < length L" "j < length L" "i \<noteq> j" for i j
    using that by (metis inf_commute linorder_neqE_nat)
  then show ?thesis using h unfolding held_def by blast
qed

theorem pmm_run_exclusive_witness:
  "\<exists>s L. pmm_run sample_pmm s L \<and> length L = 2 \<and> block (L ! 0) \<inter> block (L ! 1) = {} \<and> 0 \<notin> block (L ! 0)"
proof -
  let ?s1 = "\<lparr>bitmap = [0x0F, 0], bitmap_size = 2, total_frames = 10, used_frames = 4\<rparr>"
    and ?s2 = "\<lparr>bitmap = [0x7F, 0], bitmap_size = 2, total_frames = 10, used_frames = 7\<rparr>"
  have s1: "pmm_alloc_frame sample_pmm = Some (0x2000, ?s1)" by code_simp
  have s2: "pmm_alloc_contiguous 3 ?s1 = Some (0x4000, ?s2)" by code_simp
  have r: "pmm_run sample_pmm ?s2 [(0x4000, 3), (0x2000, 1)]"
    using pmm_run.contiguous [OF pmm_run.frame [OF pmm_run.start s1] s2] by simp
  let ?L = "[(0x4000, 3), (0x2000, 1)] :: (u64 \<times> u64) list"
  have z: "0 \<in> used sample_pmm" by (simp add: sample_pmm_used)
  note e = pmm_run_exclusive [OF r sample_pmm_ok z]
  have d: "\<forall>i < length ?L. \<forall>j < length ?L. i \<noteq> j \<longrightarrow> block (?L ! i) \<inter> block (?L ! j) = {}" using e by blast
  have "block (?L ! 0) \<inter> block (?L ! 1) = {}" by (rule d [rule_format]) simp_all
  moreover have "0 \<notin> block (?L ! 0)" using e z by simp blast
  moreover have "length ?L = 2" by simp
  ultimately show ?thesis using r by blast
qed

section \<open>Initialization\<close>



text \<open>C35: the initialization returns. For any handoff whose arrays have their declared lengths, and at least 10 MiB of usable memory, \<open>pmm_init\<close> ends without an access outside the
  bitmap or an array: with a halt, an error or success. (With less memory the check of the user window reads behind the bitmap.)\<close>

theorem pmm_init_returns:
  assumes "info_arrays info" "layout_ok lay" "8 \<le> unat rsp" "10 * 2 ^ 20 \<le> unat (tracked_ceiling (active_map info))"
  shows "\<exists>r. pmm_init lay ks rsp info sealed [] = Some r"
proof (cases "mmap_count info > BOOT_MMAP_MAX_ENTRIES \<or> list_ex entry_wraps (active_map info)")
  case True
  then show ?thesis using assms(1) prefix_map [of "mmap_count info" "mmap info"]
    by (auto simp: pmm_init_def prefix_of_def info_arrays_def BOOT_MMAP_MAX_ENTRIES_def word_less_nat_alt active_map_def not_less)
next
  case False
  let ?es = "active_map info"
  let ?s0 = "pmm_all_used (tracked_ceiling ?es)"
  note ok = all_used_ok [OF tracked_ceiling_cap, of ?es]
  obtain s1 s2 where s: "free_usable ?es ?s0 = Some s1" "reserve_internal (kernel_end lay) (bitmap_end_of (kernel_end lay) (bitmap_size ?s0)) s1 = Some s2"
      "pmm_ok s2" "total_frames s2 = total_frames ?s0"
    using build_stages [OF assms(2)] False by (fastforce simp: to_used_def)
  have v: "verify_window s2 = Some ()" using verify_window_total [OF s(3)] s(4) ok(3) assms(4) by simp
  obtain y where y: "boot_reserved_populate_from_info lay s2 (Some info) sealed [] = Some y" using populate_total [OF assms(1)] by blast
  have "\<exists>r. pmm_build lay ks rsp info sealed [] ?es (bitmap_end_of (kernel_end lay) (bitmap_size ?s0)) ?s0 = Some r"
  proof (cases y)
    case (Inr ts)
    then obtain t w where ts: "ts = (t, w)" "boot_reserved_populate_from_info lay s2 (Some info) sealed [] = Some (Inr (t, w))" using y by (cases ts) simp
    then obtain s3 where s3: "boot_reserved_apply t s2 = Some s3" "pmm_ok s3" using apply_populated [OF s(3)] by blast
    obtain ok where "acceptance_check ks rsp s3 = Some ok" using acceptance_total [OF s3(2) assms(3)] by blast
    then show ?thesis using s v ts s3 by (simp add: pmm_build_def)
  qed (use s v y in \<open>simp add: pmm_build_def\<close>)
  moreover have "\<exists>xs. prefix_of (mmap_count info) (mmap info) = Some xs \<and> map snd xs = ?es"
    using False assms(1) prefix_total [of "mmap_count info" "mmap info"] prefix_map [of "mmap_count info" "mmap info"]
    by (auto simp: info_arrays_def BOOT_MMAP_MAX_ENTRIES_def word_less_nat_alt not_less active_map_def)
  ultimately show ?thesis using False by (auto simp: pmm_init_def Let_def)
qed

section \<open>A sample boot\<close>

text \<open>The sample handoff: 64 MiB, a payload at 32 MiB and the boot stack at 48 MiB.\<close>

definition sample_stack :: boot_stack_info where
  "sample_stack = \<lparr>bs_base = 0x3000000, bs_size = 0x40000, bs_guard_size = 0x1000, bs_valid = True\<rparr>"



lemma sample_map: "active_map sample_info = [\<lparr>base_addr = 0, me_length = 0x4000000, uefi_memory_type = 7\<rparr>]"
  by (simp add: active_map_def sample_info_def)

lemma sample_ceiling: "tracked_ceiling (active_map sample_info) = 0x4000000"
  unfolding sample_map by code_simp



lemma sample_layout_ok: "layout_ok sample_layout"
  by (simp add: layout_ok_def sample_layout_def)






theorem pmm_init_returns_witness:
  "\<exists>r. pmm_init sample_layout sample_stack 0x3020000 sample_info None [] = Some r"
  by (rule pmm_init_returns [OF sample_arrays sample_layout_ok]) (simp_all add: sample_ceiling)

section \<open>The table and the selection\<close>

text \<open>A history of the selection: calls of \<open>boot_warm_update_selection_get\<close> with whatever handoff, and of \<open>boot_warm_update_selection_mark_pinned\<close>. The first argument
  is the handoff of the call that sealed it.\<close>

inductive warm_history :: "boot_info option \<Rightarrow> boot_warm_update_sel \<Rightarrow> boot_warm_update_sel \<Rightarrow> bool" for first where
  seal: "boot_warm_update_selection_get first None = Some (r, Some s) \<Longrightarrow> warm_history first s s"
| get: "warm_history first s0 s \<Longrightarrow> boot_warm_update_selection_get info (Some s) = Some (r, Some s') \<Longrightarrow> warm_history first s0 s'"
| pin: "warm_history first s0 s \<Longrightarrow> boot_warm_update_selection_mark_pinned (Some s) = Some s' \<Longrightarrow> warm_history first s0 s'"

lemma seal_compute: "boot_warm_update_selection_get first None = Some (r, Some s) \<Longrightarrow> warm_update_compute first = Some s"
  by (auto simp: boot_warm_update_selection_get_def bind_eq_Some_conv)

lemma compute_flags: "warm_update_compute first = Some s \<Longrightarrow> \<not> ws_mismatch s \<and> \<not> ws_pinned s"
  by (auto simp: warm_update_compute_def sel_none_def bind_eq_Some_conv warm_pick_def Let_def split: option.splits if_splits)

lemma pin_same: "boot_warm_update_selection_mark_pinned (Some s) = Some s' \<Longrightarrow>
    same_selection s' s \<and> ws_mismatch s' = ws_mismatch s \<and> (ws_pinned s' \<longrightarrow> ws_pinned s \<or> ws_verdict s' = BOOT_WARM_UPDATE_SELECT_ONE)"
  by (auto simp: boot_warm_update_selection_mark_pinned_def same_selection_def sel_differs_def split: if_splits)

lemma warm_history_same:
  "warm_history first s0 s \<Longrightarrow> warm_update_compute first = Some s0 \<and> same_selection s s0 \<and> (ws_pinned s \<longrightarrow> ws_verdict s = BOOT_WARM_UPDATE_SELECT_ONE)"
proof (induction rule: warm_history.induct)
  case (seal r s)
  then show ?case using seal_compute [OF seal] compute_flags [OF seal_compute [OF seal]] by simp
next
  case (get s0 s info r s')
  then have "same_selection s' s" "ws_pinned s' = ws_pinned s" using selection_get_sealed by blast+
  then show ?case using get.IH same_selection_trans [of s' s s0] by (auto simp: same_selection_def sel_differs_def)
next
  case (pin s0 s s')
  then show ?case using pin_same [of s s'] same_selection_trans [of s' s s0] by (auto simp: same_selection_def sel_differs_def)
qed

lemma same_one:
  assumes "warm_update_compute first = Some s0" "same_selection s s0" "ws_verdict s = BOOT_WARM_UPDATE_SELECT_ONE"
  shows "4096 \<le> unat (ws_length s)" "unat (ws_length s) \<le> 64 * 2 ^ 20" "fits (ws_phys_start s) (ws_length s)"
proof -
  have one: "ws_verdict s0 = BOOT_WARM_UPDATE_SELECT_ONE" and eq: "ws_length s = ws_length s0" "ws_phys_start s = ws_phys_start s0"
    using assms(2,3) by (auto simp: same_selection_def sel_differs_def)
  from one assms(1) obtain info where "first = Some info" by (cases first) (auto simp: warm_update_compute_def sel_none_def)
  then show "4096 \<le> unat (ws_length s)" "unat (ws_length s) \<le> 64 * 2 ^ 20" "fits (ws_phys_start s) (ws_length s)"
    using selection_one [of info s0] one assms(1) eq by simp_all
qed

text \<open>The selection as a phase of the boot finds it: not sealed yet, or sealed by an earlier call.\<close>

definition sealed_ok :: "boot_warm_update_sel option \<Rightarrow> bool" where
  "sealed_ok sealed \<longleftrightarrow> (\<forall>s. sealed = Some s \<longrightarrow> (\<exists>first s0. warm_history first s0 s))"

lemma sealed_ok_get:
  assumes "boot_warm_update_selection_get (Some info) sealed = Some (warm, q)" "sealed_ok sealed"
  shows "sealed_ok q" "ws_verdict warm = BOOT_WARM_UPDATE_SELECT_ONE \<Longrightarrow> unat (ws_length warm) \<le> 64 * 2 ^ 20"
proof -
  have "q = Some warm \<and> (\<exists>first s0. warm_history first s0 warm)"
  proof (cases sealed)
    case None
    then have "q = Some warm" using assms(1) by (auto simp: boot_warm_update_selection_get_def bind_eq_Some_conv)
    then show ?thesis using assms(1) None warm_history.seal by blast
  next
    case (Some s)
    then have q: "q = Some warm" using assms(1) selection_get_sealed by blast
    then show ?thesis using assms Some warm_history.get unfolding sealed_ok_def by blast
  qed
  then obtain first s0 where h: "q = Some warm" "warm_history first s0 warm" by blast
  then show "sealed_ok q" by (auto simp: sealed_ok_def)
  show "unat (ws_length warm) \<le> 64 * 2 ^ 20" if "ws_verdict warm = BOOT_WARM_UPDATE_SELECT_ONE"
    using warm_history_same [OF h(2)] same_one(2) that by blast
qed

text \<open>C36: bounded reservation. Whatever payloads the handoff lists, and whether or not the selection of the warm-update payload was sealed before, as the boot does it, a population that starts from the
  empty table has as its payload entries first those of the payload loop, each a descriptor of the handoff that asks to be reserved and keeps to the limit of its type, together at most 768 MiB and none of
  them a warm-update payload; and then, exactly if one is selected and lies in tracked memory, the entry of the selected warm-update payload, of at most 64 MiB. The table keeps to its 128
  entries, and no two entries overlap.\<close>

theorem boot_reserved_bounded:
  assumes "boot_reserved_populate_from_info lay s (Some info) sealed [] = Some (Inr (t, w))" "sealed_ok sealed"
  shows "\<exists>warm q ps ws. boot_warm_update_selection_get (Some info) sealed = Some (warm, q) \<and> filter (\<lambda>e. br_kind e = BOOT_RESERVED_PAYLOAD) t = ps @ ws \<and>
    (\<Sum>e \<leftarrow> ps. unat (br_length e)) \<le> 768 * 2 ^ 20 \<and> (\<forall>e \<in> set ps. normal_payload warm info e) \<and>
    (if ws_verdict warm = BOOT_WARM_UPDATE_SELECT_ONE \<and> warm_range_is_applicable s (ws_phys_start warm) (ws_length warm)
     then ws = [\<lparr>br_phys_start = ws_phys_start warm, br_length = ws_length warm, br_kind = BOOT_RESERVED_PAYLOAD, br_source_index = ws_index warm\<rparr>] \<and>
       unat (ws_length warm) \<le> 64 * 2 ^ 20
     else ws = []) \<and>
    length t \<le> 128 \<and> sorted_wrt (\<lambda>a b. entry_region a \<inter> entry_region b = {}) t"
proof -
  obtain warm q ps where w: "boot_warm_update_selection_get (Some info) sealed = Some (warm, q)" "payloads t = ps @ warm_entries s warm"
      "pinned_bytes ps \<le> unat BOOT_PAYLOAD_RESERVE_TOTAL_MAX" "\<forall>e \<in> set ps. normal_payload warm info e"
    using populate_ok [OF assms(1)] by (auto simp: payloads_def [of "[]"])
  have "ws_verdict warm = BOOT_WARM_UPDATE_SELECT_ONE \<Longrightarrow> unat (ws_length warm) \<le> 64 * 2 ^ 20" using sealed_ok_get(2) [OF w(1) assms(2)] by simp
  moreover have "(\<Sum>e \<leftarrow> ps. unat (br_length e)) \<le> 768 * 2 ^ 20" using w(3) by (simp add: pinned_bytes_def BOOT_PAYLOAD_RESERVE_TOTAL_MAX_def)
  moreover have "length t \<le> 128 \<and> sorted_wrt (\<lambda>a b. entry_region a \<inter> entry_region b = {}) t"
    using populated_table [OF assms(1)] by (simp add: table_inv_def BOOT_RESERVED_MAX_def)
  ultimately show ?thesis using w(1,2,4)
    by (intro exI [of _ warm] exI [of _ q] exI [of _ ps] exI [of _ "warm_entries s warm"]) (simp add: warm_entries_def payloads_def)
qed

text \<open>C37: one selection per boot. Whatever handoffs later calls present, and in whatever order the phases call, the verdict, the index and the range of the warm-update selection stay
  those that the first handoff defined. Only an accepted selection is ever marked as pinned: one candidate, well-formed, of at most 64 MiB, without wrap-around.\<close>

theorem warm_selection_sealed:
  assumes "warm_history first s0 s"
  shows "warm_update_compute first = Some s0 \<and> same_selection s s0 \<and>
    (ws_pinned s \<longrightarrow> ws_verdict s = BOOT_WARM_UPDATE_SELECT_ONE \<and> 4096 \<le> unat (ws_length s) \<and> unat (ws_length s) \<le> 64 * 2 ^ 20 \<and> fits (ws_phys_start s) (ws_length s))"
proof -
  have h: "warm_update_compute first = Some s0" "same_selection s s0" "ws_pinned s \<longrightarrow> ws_verdict s = BOOT_WARM_UPDATE_SELECT_ONE"
    using warm_history_same [OF assms] by blast+
  then show ?thesis using same_one [OF h(1,2)] by blast
qed

text \<open>The sample handoff with a warm-update payload of two pages.\<close>

definition warm_info :: boot_info where
  "warm_info = sample_info\<lparr>bi_flags := BOOT_FLAG_WARM_UPDATE,
     payload_descriptors := [\<lparr>pd_type = BOOT_PAYLOAD_WARM_UPDATE_STATE, pd_flags = 9, pd_phys_start = 0x2000000, pd_length = 0x2000, pd_alignment = 0x1000,
       pd_checksum = 0, pd_producer_id = 1, pd_reserved = 0\<rparr>] @ replicate 31 empty_slot\<rparr>"

definition warm_sel :: boot_warm_update_sel where
  "warm_sel = \<lparr>ws_verdict = BOOT_WARM_UPDATE_SELECT_ONE, ws_index = 0, ws_candidate_count = 1, ws_error = BOOT_WARM_UPDATE_ERR_OK, ws_mismatch = False,
     ws_pinned = False, ws_flags = 9, ws_checksum = 0, ws_phys_start = 0x2000000, ws_length = 0x2000\<rparr>"

lemma warm_sealed: "warm_history (Some warm_info) warm_sel warm_sel"
proof -
  have "boot_warm_update_selection_get (Some warm_info) None = Some (warm_sel, Some warm_sel)" by code_simp
  then show ?thesis by (rule warm_history.seal)
qed

definition warm_table :: reserved_table where
  "warm_table =
     [\<lparr>br_phys_start = 0x10000, br_length = 40000, br_kind = BOOT_RESERVED_BOOT_INFO, br_source_index = 0\<rparr>,
      \<lparr>br_phys_start = 0x2000000, br_length = 0x2000, br_kind = BOOT_RESERVED_PAYLOAD, br_source_index = 0\<rparr>,
      \<lparr>br_phys_start = 0x3000000, br_length = 0x40000, br_kind = BOOT_RESERVED_BOOT_STACK, br_source_index = 0\<rparr>]"

theorem boot_reserved_bounded_witness:
  "\<exists>ps. boot_reserved_populate_from_info sample_layout (pmm_all_used 0x4000000) (Some warm_info) (Some warm_sel) [] =
      Some (Inr (warm_table, Some (warm_sel\<lparr>ws_pinned := True\<rparr>))) \<and>
    filter (\<lambda>e. br_kind e = BOOT_RESERVED_PAYLOAD) warm_table =
      ps @ [\<lparr>br_phys_start = 0x2000000, br_length = 0x2000, br_kind = BOOT_RESERVED_PAYLOAD, br_source_index = 0\<rparr>] \<and>
    (\<Sum>e \<leftarrow> ps. unat (br_length e)) \<le> 768 * 2 ^ 20"
proof -
  have g: "boot_warm_update_selection_get (Some warm_info) (Some warm_sel) = Some (warm_sel, Some warm_sel)" by code_simp
  have p: "boot_reserved_populate_from_info sample_layout (pmm_all_used 0x4000000) (Some warm_info) (Some warm_sel) [] =
      Some (Inr (warm_table, Some (warm_sel\<lparr>ws_pinned := True\<rparr>)))" by code_simp
  have ok: "sealed_ok (Some warm_sel)" using warm_sealed by (auto simp: sealed_ok_def)
  have a: "warm_range_is_applicable (pmm_all_used 0x4000000) 0x2000000 0x2000"
    by (simp add: warm_range_is_applicable_def pmm_get_total_frames_def pmm_all_used_def Let_def PMM_FRAME_SIZE_def)
  from boot_reserved_bounded [OF p ok] p show ?thesis using a by (auto simp: g) (auto simp: warm_sel_def)
qed

theorem warm_selection_sealed_witness:
  "warm_history (Some warm_info) warm_sel (warm_sel\<lparr>ws_pinned := True, ws_mismatch := True\<rparr>) \<and>
    unat (ws_length warm_sel) \<le> 64 * 2 ^ 20"
proof -
  have "boot_warm_update_selection_get (Some warm_info) None = Some (warm_sel, Some warm_sel)" by code_simp
  then have "warm_history (Some warm_info) warm_sel warm_sel" by (rule warm_history.seal)
  moreover have "boot_warm_update_selection_mark_pinned (Some warm_sel) = Some (warm_sel\<lparr>ws_pinned := True\<rparr>)" by code_simp
  ultimately have "warm_history (Some warm_info) warm_sel (warm_sel\<lparr>ws_pinned := True\<rparr>)" by (rule warm_history.pin)
  moreover have "boot_warm_update_selection_get (Some sample_info) (Some (warm_sel\<lparr>ws_pinned := True\<rparr>)) =
      Some (warm_sel\<lparr>ws_pinned := True, ws_mismatch := True\<rparr>, Some (warm_sel\<lparr>ws_pinned := True, ws_mismatch := True\<rparr>))" by code_simp
  ultimately have h: "warm_history (Some warm_info) warm_sel (warm_sel\<lparr>ws_pinned := True, ws_mismatch := True\<rparr>)" by (rule warm_history.get)
  from warm_selection_sealed [OF this] have "unat (ws_length (warm_sel\<lparr>ws_pinned := True, ws_mismatch := True\<rparr>)) \<le> 64 * 2 ^ 20" by simp
  then show ?thesis using h by simp
qed

section \<open>The boot stack\<close>

lemma page_aligned: "(x :: u64) AND (PMM_FRAME_SIZE - 1) = 0 \<longleftrightarrow> 4096 dvd unat x"
proof -
  have "x AND (PMM_FRAME_SIZE - 1) = take_bit 12 x" by (simp add: PMM_FRAME_SIZE_def take_bit_eq_mask mask_eq_exp_minus_1)
  moreover have "unat (take_bit 12 x) = unat x mod 4096" by (simp add: take_bit_eq_mod unat_mod)
  ultimately show ?thesis by (metis dvd_eq_mod_eq_0 unat_0 unat_eq_zero)
qed

lemma stack_check_ok:
  assumes "boot_stack_check base sz guard = BOOT_STACK_ERR_OK"
  shows "4096 dvd unat base" "4096 dvd unat sz" "guard = 4096" "131072 + 4096 \<le> unat sz" "unat sz \<le> 2 ^ 20" "2 ^ 20 \<le> unat base"
    "unat (base + sz) = unat base + unat sz" "unat base + unat sz \<le> 2 ^ 32" "unat base + unat sz \<le> 0x800000 \<or> 0xA00000 \<le> unat base"
proof -
  note a = assms [unfolded boot_stack_check_def, simplified]
  show "4096 dvd unat base" "4096 dvd unat sz" using a by (simp_all add: page_aligned split: if_splits)
  show g: "guard = 4096" using a by (simp add: BOOT_KSTACK_GUARD_BYTES_def split: if_splits)
  have gt: "\<not> sz \<le> guard" "\<not> sz - guard < BOOT_KSTACK_MIN_USABLE" "\<not> sz > BOOT_KSTACK_MAX_SIZE" using a by (simp_all split: if_splits)
  then have "unat (sz - guard) = unat sz - 4096" "4096 < unat sz" unfolding g by (simp_all add: unat_sub word_le_nat_alt)
  then show "131072 + 4096 \<le> unat sz" using gt(2) by (simp add: word_less_nat_alt BOOT_KSTACK_MIN_USABLE_def not_less)
  show sz: "unat sz \<le> 2 ^ 20" using gt(3) by (simp add: word_less_nat_alt BOOT_KSTACK_MAX_SIZE_def not_less)
  have b: "\<not> base + sz < base" "\<not> base + sz > BOOT_INFO_EARLY_MAP_END" "\<not> base < 0x100000" "\<not> (base < USER_PT_WINDOW_END \<and> base + sz > USER_PT_WINDOW_BASE)"
    using a by (simp_all split: if_splits)
  show "2 ^ 20 \<le> unat base" using b(3) by (simp add: word_less_nat_alt not_less)
  show e: "unat (base + sz) = unat base + unat sz" using b(1) sz unat_u64_less [of base] by (simp add: unat_plus_if_size word_size word_less_nat_alt not_less split: if_splits)
  show "unat base + unat sz \<le> 2 ^ 32" using b(2) e by (simp add: word_less_nat_alt BOOT_INFO_EARLY_MAP_END_def not_less)
  show "unat base + unat sz \<le> 0x800000 \<or> 0xA00000 \<le> unat base"
    using b(4) e by (auto simp: word_less_nat_alt USER_PT_WINDOW_END_def USER_PT_WINDOW_BASE_def USER_PT_WINDOW_SIZE_def not_less)
qed

lemma envelope_end:
  assumes "unat kend < 2 ^ 32"
  shows "unat (boot_stack_image_envelope_end kend PMM_PHYS_ADDR_CAP) = (unat kend + 4095) div 4096 * 4096 + 2 ^ 17 + 4096"
proof -
  have "bitmap_end_of kend 0 = (kend + PMM_FRAME_SIZE - 1) AND NOT (PMM_FRAME_SIZE - 1)" by (simp add: bitmap_end_of_def)
  then have "boot_stack_image_envelope_end kend PMM_PHYS_ADDR_CAP = bitmap_end_of kend 0 + 135168"
    by (simp add: boot_stack_image_envelope_end_def Let_def PMM_PHYS_ADDR_CAP_def) (simp add: PMM_FRAME_SIZE_def)
  moreover have "unat (bitmap_end_of kend 0) = (unat kend + 4095) div 4096 * 4096" using bitmap_end_eq [OF assms, of 0] by simp
  moreover have "(unat kend + 4095) div 4096 * 4096 + 135168 < 2 ^ 64"
    using order.strict_trans1 [OF div_times_less_eq_dividend [of "unat kend + 4095" 4096], of "2 ^ 33"] assms by simp
  ultimately show ?thesis by (simp add: unat_plus_if_size word_size)
qed

text \<open>The boot stack. If \<open>boot_stack_init\<close> accepts the published stack, then the stack is page-aligned, has at least 128 KiB above its guard page, lies between 1 MiB and
  4 GiB, touches neither the window for user page tables nor the kernel image nor any bitmap that \<open>pmm_init\<close> can place behind it, and the stack pointer is inside it, above the guard.\<close>

theorem boot_stack_init_safe:
  assumes "boot_stack_init lay rsp (Some info) = Inr si" "layout_ok lay"
  shows "bs_valid si \<and> bs_base si = kstack_base info \<and> 4096 dvd unat (bs_base si) \<and> 4096 dvd unat (bs_size si) \<and> 131072 \<le> unat (bs_size si) - unat (bs_guard_size si) \<and>
    region (bs_base si) (bs_size si) \<subseteq> {2 ^ 20..<2 ^ 32} \<and> region (bs_base si) (bs_size si) \<inter> region USER_PT_WINDOW_BASE USER_PT_WINDOW_SIZE = {} \<and>
    region (bs_base si) (bs_size si) \<inter> {2 ^ 20..<unat (kernel_end lay) + 2 ^ 17} = {} \<and>
    unat (bs_base si) + unat (bs_guard_size si) \<le> unat rsp \<and> unat rsp + 8 \<le> unat (bs_base si) + unat (bs_size si)"
proof -
  let ?b = "kstack_base info" and ?n = "ucast (kstack_size info) :: u64" and ?g = "ucast (kstack_guard_size info) :: u64"
  let ?e = "boot_stack_image_envelope_end (kernel_end lay) PMM_PHYS_ADDR_CAP"
  have si: "si = \<lparr>bs_base = ?b, bs_size = ?n, bs_guard_size = ?g, bs_valid = True\<rparr>" and c: "boot_stack_check ?b ?n ?g = BOOT_STACK_ERR_OK"
    and o: "\<not> boot_stack_overlaps (Some si) 0x100000 (?e - 0x100000)" and r: "boot_stack_contains (Some si) rsp 8"
    using assms(1) by (auto simp: boot_stack_init_def boot_stack_validate_def Let_def split: if_splits)
  note k = stack_check_ok [OF c]
  have e: "unat ?e = (unat (kernel_end lay) + 4095) div 4096 * 4096 + 2 ^ 17 + 4096" using envelope_end assms(2) by (simp add: layout_ok_def)
  have ge: "unat (kernel_end lay) + 2 ^ 17 \<le> unat ?e" unfolding e by linarith
  then have "2 ^ 20 < unat ?e" using assms(2) by (simp add: layout_ok_def)
  then have "?e - 0x100000 \<noteq> 0" "\<not> ?e < 0x100000" by (auto simp: word_less_nat_alt)
  then have "\<not> (?b < ?e \<and> ?b + ?n > 0x100000)" using o by (simp add: boot_stack_overlaps_def si)
  then have img: "unat (kernel_end lay) + 2 ^ 17 \<le> unat ?b" using ge k by (auto simp: word_less_nat_alt not_less)
  have rsp: "?b + ?g \<le> rsp" "rsp + 8 \<le> ?b + ?n" "\<not> rsp + 8 < rsp" using r by (auto simp: boot_stack_contains_def si split: if_splits)
  have "unat (?b + ?g) = unat ?b + 4096" unfolding k(3) using k(4,7,8) by (simp add: unat_plus_if_size word_size)
  moreover have "unat (rsp + 8) = unat rsp + 8" using rsp(3) by (simp add: unat_plus_if_size word_size word_less_nat_alt split: if_splits)
  ultimately have "unat ?b + 4096 \<le> unat rsp" "unat rsp + 8 \<le> unat ?b + unat ?n" using rsp(1,2) k(7) by (simp_all add: word_le_nat_alt)
  then show ?thesis using k img unfolding si by (auto simp: region_def USER_PT_WINDOW_BASE_def USER_PT_WINDOW_SIZE_def)
qed

theorem boot_stack_init_safe_witness:
  "boot_stack_init sample_layout 0x3020000 (Some sample_info) = Inr sample_stack \<and>
    region (bs_base sample_stack) (bs_size sample_stack) \<inter> {2 ^ 20..<unat (kernel_end sample_layout) + 2 ^ 17} = {}"
proof -
  have b: "boot_stack_init sample_layout 0x3020000 (Some sample_info) = Inr sample_stack" by code_simp
  from boot_stack_init_safe [OF this sample_layout_ok] b show ?thesis by blast
qed

end
