(* ===== verification/Mm_Heap_Properties.thy ===== *)
theory Mm_Heap_Properties
  imports Mm_Heap_Init Mm_Properties
begin

text \<open>
  The properties of the kernel heap, for every state that satisfies the invariant, and the witnesses on an arena of one page.
\<close>

section \<open>Overwritten sentinels\<close>

lemma enc64_changed:
  assumes "i < 8" "v \<noteq> enc64 w ! i"
  shows "\<exists>u. (enc64 w)[i := v] = enc64 u \<and> u \<noteq> w"
proof -
  obtain u where u: "(enc64 w)[i := v] = enc64 u" using enc64_surj [of "(enc64 w)[i := v]"] by auto
  have "enc64 u ! i = v" unfolding u [symmetric] using assms(1) by simp
  then show ?thesis using u assms(2) by auto
qed

lemma enc_hdr_front_changed:
  assumes "i < 8" "(enc64 (h_front r))[i := v] = enc64 u"
  shows "(enc_hdr r)[40 + i := v] = enc_hdr (r\<lparr>h_front := u\<rparr>)"
proof -
  let ?P = "enc64 (h_size r) @ enc64 (h_next r) @ enc64 (h_cookie r) @ enc64 (h_req r) @ enc32 (h_tag r) @ h_free r # pad_bytes (h_pad r)"
  have "enc_hdr r = ?P @ enc64 (h_front r)" "enc_hdr (r\<lparr>h_front := u\<rparr>) = ?P @ enc64 u" "length ?P = 40" by (simp_all add: enc_hdr_def)
  then show ?thesis using assms(2) list_update_append [of ?P "enc64 (h_front r)" "40 + i" v] by simp
qed

text \<open>One byte of either sentinel of a block: the state is the one with that block changed.\<close>

lemma smash_front:
  assumes "blocks_ok base n (xs @ b # ys)" "live b" "i < 8" "v \<noteq> arena (conc base n (xs @ b # ys)) ! (blens xs + 40 + i)"
  shows "\<exists>u. u \<noteq> HEAP_REDZONE_FRONT \<and> (conc base n (xs @ b # ys))\<lparr>arena := (arena (conc base n (xs @ b # ys)))[blens xs + 40 + i := v]\<rparr> = conc base n (xs @ b\<lparr>front := u\<rparr> # ys)"
proof -
  let ?r = "hdr_of base n (blens xs) b" and ?A = "flat base n 0 xs" and ?Z = "body b @ flat base n (blens xs + blen b) ys"
  have f: "front b = HEAP_REDZONE_FRONT" using assms(1,2) by (simp add: blocks_ok_def blk_ok_def)
  have m: "arena (conc base n (xs @ b # ys)) = ?A @ enc_hdr ?r @ ?Z" by (simp add: conc_def flat_append)
  have e: "enc_hdr ?r ! (40 + i) = enc64 (front b) ! i"
  proof -
    let ?P = "enc64 (h_size ?r) @ enc64 (h_next ?r) @ enc64 (h_cookie ?r) @ enc64 (h_req ?r) @ enc32 (h_tag ?r) @ h_free ?r # pad_bytes (h_pad ?r)"
    have "enc_hdr ?r = ?P @ enc64 (front b)" "length ?P = 40" by (simp_all add: enc_hdr_def hdr_of_def)
    then show ?thesis by (metis nth_append_length_plus)
  qed
  have "v \<noteq> enc64 (front b) ! i" using assms(3,4) unfolding m by (simp add: nth_append add.assoc e [symmetric])
  then obtain u where u: "(enc64 (front b))[i := v] = enc64 u" "u \<noteq> front b" using enc64_changed [OF assms(3)] by blast
  have "(?A @ enc_hdr ?r @ ?Z)[blens xs + 40 + i := v] = ?A @ (enc_hdr ?r)[40 + i := v] @ ?Z"
    using assms(3) by (simp add: list_update_append add.assoc)
  also have "(enc_hdr ?r)[40 + i := v] = enc_hdr (hdr_of base n (blens xs) (b\<lparr>front := u\<rparr>))"
    using enc_hdr_front_changed [OF assms(3), of ?r v u] u(1) by (simp add: hdr_of_def blen_def)
  also have "?A @ enc_hdr (hdr_of base n (blens xs) (b\<lparr>front := u\<rparr>)) @ ?Z = flat base n 0 (xs @ b\<lparr>front := u\<rparr> # ys)" by (simp add: flat_append blen_def)
  finally show ?thesis using u(2) f m by (intro exI [of _ u]) (simp add: conc_def blen_def)
qed

lemma smash_body:
  assumes "blocks_ok base n (xs @ b # ys)" "i < length (body b)"
  shows "(conc base n (xs @ b # ys))\<lparr>arena := (arena (conc base n (xs @ b # ys)))[blens xs + 48 + i := v]\<rparr> = conc base n (xs @ b\<lparr>body := (body b)[i := v]\<rparr> # ys)"
    "arena (conc base n (xs @ b # ys)) ! (blens xs + 48 + i) = body b ! i"
proof -
  let ?r = "hdr_of base n (blens xs) b" and ?A = "flat base n 0 xs" and ?Z = "flat base n (blens xs + blen b) ys"
  have m: "arena (conc base n (xs @ b # ys)) = ?A @ enc_hdr ?r @ body b @ ?Z" by (simp add: conc_def flat_append)
  show "arena (conc base n (xs @ b # ys)) ! (blens xs + 48 + i) = body b ! i" unfolding m using assms(2) by (simp add: nth_append add.assoc)
  have "(arena (conc base n (xs @ b # ys)))[blens xs + 48 + i := v] = ?A @ enc_hdr ?r @ (body b)[i := v] @ ?Z"
    unfolding m using assms(2) by (simp add: list_update_append add.assoc)
  then show "(conc base n (xs @ b # ys))\<lparr>arena := (arena (conc base n (xs @ b # ys)))[blens xs + 48 + i := v]\<rparr> = conc base n (xs @ b\<lparr>body := (body b)[i := v]\<rparr> # ys)"
    using conc_body [of "(body b)[i := v]" b base n xs ys] by (simp add: conc_HS)
qed

lemma smash_back:
  assumes "blocks_ok base n (xs @ b # ys)" "live b" "i < 8" "v \<noteq> body b ! (unat (req b) + i)"
  shows "\<exists>u. u \<noteq> HEAP_REDZONE_BACK \<and> take 8 (drop (unat (req b)) ((body b)[unat (req b) + i := v])) = enc64 u"
proof -
  let ?q = "unat (req b)"
  have b: "?q + 8 \<le> length (body b)" "take 8 (drop ?q (body b)) = enc64 HEAP_REDZONE_BACK" using assms(1,2) by (simp_all add: blocks_ok_def blk_ok_def)
  have "enc64 HEAP_REDZONE_BACK ! i = body b ! (?q + i)" unfolding b(2) [symmetric] using assms(3) b(1) by simp
  then obtain u where u: "(enc64 HEAP_REDZONE_BACK)[i := v] = enc64 u" "u \<noteq> HEAP_REDZONE_BACK" using enc64_changed [OF assms(3)] assms(4) by metis
  have "take 8 (drop ?q ((body b)[?q + i := v])) = (take 8 (drop ?q (body b)))[i := v]" by (simp add: drop_update_swap take_update_swap)
  then show ?thesis using u b(2) by auto
qed

lemma smashed_classify:
  assumes "heap_ok h" "regions h p = Some (t, c)" "i < 8" "k = off h p - 8 + i \<or> k = off h p + length c + i" "v \<noteq> arena h ! k"
  shows "\<exists>f. heap_classify p (h\<lparr>arena := (arena h)[k := v]\<rparr>) = Some (Corrupt f) \<and> f_cls f \<in> {HEAP_FAULT_REDZONE_FRONT, HEAP_FAULT_REDZONE_BACK} \<and> f_ptr f = p"
proof -
  obtain base n xs b ys where b: "h = conc base n (xs @ b # ys)" "blocks_ok base n (xs @ b # ys)" "live b" "p = base + of_nat (blens xs + 48)" "(t, c) = contents b"
    using assms(1,2) by (rule regions_block)
  have ok: "arena_ok base n" "blens (xs @ b # ys) = n" "\<forall>c \<in> set xs. blk_ok c" "unat (req b) + 8 \<le> length (body b)"
      "take 8 (drop (unat (req b)) (body b)) = enc64 HEAP_REDZONE_BACK"
    using b(2,3) by (simp_all add: blocks_ok_def blk_ok_def)
  have o: "off h p = blens xs + 48" unfolding b(1,4) by (rule off_conc) (use blk_end [OF b(2)] small_off [OF b(2)] ok(1) in \<open>simp add: arena_ok_def\<close>)
  have c: "length c = unat (req b)" using b(5) ok(4) by (simp add: contents_def)
  from assms(4) show ?thesis
  proof
    assume "k = off h p - 8 + i"
    then have k: "k = blens xs + 40 + i" using o by simp
    obtain u where u: "u \<noteq> HEAP_REDZONE_FRONT" "h\<lparr>arena := (arena h)[k := v]\<rparr> = conc base n (xs @ b\<lparr>front := u\<rparr> # ys)"
      using smash_front [OF b(2,3) assms(3), of v] assms(5) unfolding k b(1) by blast
    show ?thesis unfolding u(2) b(4)
      using classify_live [of base n xs "b\<lparr>front := u\<rparr>" ys HEAP_REDZONE_BACK] ok b(3) u(1) by (simp add: blen_def del: of_nat_add)
  next
    assume "k = off h p + length c + i"
    then have k: "k = blens xs + 48 + (unat (req b) + i)" using o c by simp
    have i: "unat (req b) + i < length (body b)" using ok(4) assms(3) by simp
    have "v \<noteq> body b ! (unat (req b) + i)" using assms(5) smash_body(2) [OF b(2) i] unfolding k b(1) by simp
    then obtain u where u: "u \<noteq> HEAP_REDZONE_BACK" "take 8 (drop (unat (req b)) ((body b)[unat (req b) + i := v])) = enc64 u"
      using smash_back [OF b(2,3) assms(3)] by blast
    have h: "h\<lparr>arena := (arena h)[k := v]\<rparr> = conc base n (xs @ b\<lparr>body := (body b)[unat (req b) + i := v]\<rparr> # ys)"
      using smash_body(1) [OF b(2) i, of v] unfolding k b(1) .
    have "front b = HEAP_REDZONE_FRONT" using b(2,3) by (simp add: blocks_ok_def blk_ok_def)
    then show ?thesis unfolding h b(4)
      using classify_live [of base n xs "b\<lparr>body := (body b)[unat (req b) + i := v]\<rparr>" ys u] ok b(3) u by (simp add: blen_def del: of_nat_add)
  qed
qed

section \<open>Accounting\<close>

definition free_bytes :: "blk list \<Rightarrow> nat" where "free_bytes bs = sum_list (map (\<lambda>b. length (body b)) (filter (\<lambda>b. \<not> live b) bs))"

lemma free_bytes_simps [simp]: "free_bytes [] = 0" "free_bytes (b # bs) = (if live b then 0 else length (body b)) + free_bytes bs"
  by (simp_all add: free_bytes_def)

lemma bytes_total: "blens bs = live_bytes bs + free_bytes bs + 48 * length bs"
  by (induction bs) (simp_all add: blen_def)

lemma free_walk_eq:
  assumes "arena_ok base n" "blens (xs @ ys) = n" "ys \<noteq> []"
  shows "free_walk (base + of_nat (blens xs)) acc (conc base n (xs @ ys)) = Some (acc + of_nat (free_bytes ys))"
  using assms(2,3)
proof (induction ys arbitrary: xs acc)
  case (Cons b ys)
  have n: "n \<le> 2097152" using assms(1) by (simp add: arena_ok_def)
  have nz: "base + of_nat (blens xs) \<noteq> 0" by (rule addr_nonzero(1) [OF assms(1)]) (use Cons.prems in simp)
  let ?acc = "if live b then acc else acc + of_nat (length (body b))"
  have step: "free_walk (base + of_nat (blens xs)) acc (conc base n (xs @ b # ys)) =
      free_walk (if ys = [] then 0 else base + of_nat (blens (xs @ [b]))) ?acc (conc base n (xs @ b # ys))"
    using nz block_reads [OF Cons.prems(1) n] by (subst free_walk.simps) (auto simp: conc_HS simp del: blens_simps)
  show ?case
  proof (cases "ys = []")
    case True
    then show ?thesis unfolding step by (subst free_walk.simps) simp
  next
    case False
    then show ?thesis using Cons.IH [of "xs @ [b]" ?acc] Cons.prems(1) unfolding step by simp
  qed
qed simp

lemma heap_get_free_eq:
  assumes "heap_ok h"
  shows "heap_get_free h = Some (of_nat (free_bytes (blocks h)))"
proof -
  obtain base n bs where h: "h = conc base n bs" "blocks_ok base n bs" "blocks h = bs" using assms by (rule heap_okE)
  have "arena_ok base n" "blens ([] @ bs) = n" "bs \<noteq> []" using h(2) by (simp_all add: blocks_ok_def)
  from free_walk_eq [OF this, of 0] show ?thesis unfolding h(3) by (simp add: heap_get_free_def h(1) conc_poison) (simp add: conc_def)
qed

section \<open>The empty heap\<close>

text \<open>A heap in which nothing is held is one free block: no block is live, and two free blocks are never neighbours.\<close>

lemma none_held:
  assumes "heap_ok h" "regions h = Map.empty"
  obtains b where "blocks h = [b]" "\<not> live b" "length (arena h) = 48 + length (body b)"
proof -
  obtain base n bs where h: "h = conc base n bs" "blocks_ok base n bs" "compact bs" "blocks h = bs" using assms(1) by (rule heap_okE)
  have dead: "\<not> live b" if m: "b \<in> set bs" for b
  proof
    assume l: "live b"
    from split_list [OF m] obtain xs ys where s: "bs = xs @ b # ys" by blast
    have "hold bs (blens xs + 48) = Some (contents b)" using hold_replace(2) [of xs "[b]" "Some (contents b)" "[b]" "Some (contents b)" ys] l s by simp
    then have "regions h (base + of_nat (blens xs + 48)) = Some (contents b)"
      unfolding h(1) using regions_addr [OF h(2) small_off [OF h(2), of "blens xs + 48"]] blk_end [of base n xs b ys] h(2) s by simp
    then show False using assms(2) by simp
  qed
  obtain a as where a: "bs = a # as" using h(2) by (cases bs) (simp_all add: blocks_ok_def)
  have "as = []"
  proof (rule ccontr)
    assume "as \<noteq> []"
    then obtain c cs where bs: "bs = a # c # cs" using a by (cases as) simp_all
    have "\<not> live a" by (rule dead) (simp add: bs)
    moreover have "\<not> live c" by (rule dead) (simp add: bs)
    ultimately show False using h(3) unfolding bs by simp
  qed
  then show thesis using that [of a] a h dead by (simp add: conc_def blen_def)
qed

lemma kmalloc_none_held:
  assumes "heap_ok h" "regions h = Map.empty"
  shows "\<exists>p h'. kmalloc q h = Some (p, h') \<and> (p \<noteq> 0 \<longleftrightarrow> q \<noteq> 0 \<and> q \<le> KMALLOC_MAX \<and> need_nat q + 48 \<le> length (arena h))"
proof -
  obtain b where b: "blocks h = [b]" "\<not> live b" "length (arena h) = 48 + length (body b)" by (rule none_held [OF assms])
  then have f: "fitting h q \<noteq> [] \<longleftrightarrow> need_nat q + 48 \<le> length (arena h)" by (simp add: fitting_def)
  obtain p h' where "kmalloc_tagged q 0 h = Some (p, h')"
      "if q = 0 \<or> q > KMALLOC_MAX \<or> fitting h q = [] then p = 0 \<and> h' = h
       else p \<noteq> 0 \<and> 16 dvd unat p \<and> regions h p = None \<and> regions h' = (regions h)(p \<mapsto> (0, replicate (unat q) 0))"
    using kmalloc_tagged_heap [OF assms(1), of q 0] by blast
  then show ?thesis using f kmalloc_is_tagged(1) by (auto split: if_splits)
qed

section \<open>The properties\<close>

text \<open>A heap of one page at 1 MiB, for the witnesses.\<close>

definition sample_heap :: heap where "sample_heap = conc 0x100000 4096 [first_block 4096]"

lemma sample_heap_ok: "heap_ok sample_heap" "regions sample_heap = Map.empty"
  unfolding sample_heap_def by (rule first_block_ok; simp add: arena_ok_def)+

lemma sample_blocks: "blocks sample_heap = [first_block 4096]"
  unfolding sample_heap_def by (rule blocks_conc [OF first_block_ok(1)]) (simp_all add: arena_ok_def)

lemma sample_fitting: "need_nat q \<le> 4048 \<Longrightarrow> fitting sample_heap q \<noteq> []"
  unfolding fitting_def sample_blocks by (simp add: first_block_def)

lemma sample_held:
  obtains p h where "kmalloc_tagged 100 7 sample_heap = Some (p, h)" "heap_ok h" "regions h = [p \<mapsto> (7, replicate 100 0)]" "p \<noteq> 0"
proof -
  have "need_nat 100 \<le> 4048" by (simp add: need_nat_def)
  then have "fitting sample_heap 100 \<noteq> []" by (rule sample_fitting)
  moreover obtain p h where "kmalloc_tagged 100 7 sample_heap = Some (p, h)" "heap_ok h"
      "if (100 :: u64) = 0 \<or> (100 :: u64) > KMALLOC_MAX \<or> fitting sample_heap 100 = [] then p = 0 \<and> h = sample_heap
     else p \<noteq> 0 \<and> 16 dvd unat p \<and> regions sample_heap p = None \<and> regions h = (regions sample_heap)(p \<mapsto> (7, replicate (unat (100 :: u64)) 0))"
    using kmalloc_tagged_heap [OF sample_heap_ok(1), of 100 7] by blast
  ultimately show thesis using that sample_heap_ok(2) by (simp add: KMALLOC_MAX_def split: if_splits)
qed

text \<open>C11: allocation. \<open>kmalloc_tagged\<close> never reads or writes outside the arena and keeps the invariant of the heap. It fails, and changes nothing, exactly when the size is 0 or over
  the cap or no free block can take the rounded size; otherwise it returns a 16-aligned pointer that nobody held, whose region is zero, with its tag, and every other held region keeps its bytes. \<open>kmalloc\<close>
  and \<open>kmalloc_zeroed\<close> are \<open>kmalloc_tagged\<close> with tag 0.\<close>

theorem kmalloc_correct:
  assumes "heap_ok h"
  shows "(\<exists>p h'. kmalloc_tagged q tag h = Some (p, h') \<and> heap_ok h' \<and> arena_of h' = arena_of h \<and>
      (if q = 0 \<or> q > KMALLOC_MAX \<or> fitting h q = [] then p = 0 \<and> h' = h
       else p \<noteq> 0 \<and> 16 dvd unat p \<and> regions h p = None \<and> regions h' = (regions h)(p \<mapsto> (tag, replicate (unat q) 0)))) \<and>
    kmalloc q h = kmalloc_tagged q 0 h \<and> kmalloc_zeroed q h = kmalloc_tagged q 0 h"
  using kmalloc_tagged_heap [OF assms] kmalloc_is_tagged by blast

theorem kmalloc_correct_witness:
  "\<exists>p h. kmalloc_tagged 100 7 sample_heap = Some (p, h) \<and> p \<noteq> 0 \<and> regions h = [p \<mapsto> (7, replicate 100 0)]"
proof -
  have "need_nat 100 \<le> 4048" by (simp add: need_nat_def)
  then have "fitting sample_heap 100 \<noteq> []" by (rule sample_fitting)
  then show ?thesis using kmalloc_correct [OF sample_heap_ok(1), of 100 7] sample_heap_ok(2) by (auto simp: KMALLOC_MAX_def)
qed

text \<open>C10: release. What \<open>kfree\<close> and \<open>kfree_tagged\<close> do for every pointer: null is ignored, and so is the data pointer of a block of the list that is free; a held region is given up, its block is
  merged with its free neighbours and every other region keeps its bytes; a wrong pool tag, a misaligned pointer and any other pointer poison the heap and stop the system with the fault that names the pointer.
  A pointer that was freed before is one of the ignored ones only as long as its block has not been merged into the block before it. After that its header is gone, and freeing it again
  stops the system as for a wild pointer: a double free is not always ignored, as \<open>double_free_not_silent\<close> shows.\<close>

theorem kfree_correct:
  assumes "heap_ok h"
  shows "case regions h p of
      Some (t, c) \<Rightarrow> \<exists>h'. kfree p h = Some (Done () h') \<and> heap_ok h' \<and> regions h' = (regions h)(p := None) \<and>
        kfree_tagged p w h = Some (if w = t then Done () h'
          else BugCheck \<lparr>f_cls = HEAP_FAULT_TAG, f_ptr = p, f_got = ucast t, f_want = ucast w\<rparr> (h\<lparr>s_heap_poisoned := True\<rparr>))
    | None \<Rightarrow> kfree p h = Some (if p = 0 \<or> p \<in> set (block_ptrs h) then Done () h
          else BugCheck \<lparr>f_cls = if heap_owns p h \<and> p AND 15 \<noteq> 0 then HEAP_FAULT_MISALIGNED else HEAP_FAULT_WILD, f_ptr = p, f_got = 0, f_want = 0\<rparr> (h\<lparr>s_heap_poisoned := True\<rparr>)) \<and>
        kfree_tagged p w h = kfree p h"
proof (cases "regions h p")
  case None
  have np: "\<not> s_heap_poisoned h" using assms by (rule heap_okE) (simp add: conc_poison)
  show ?thesis using None np classify_heap [OF assms, of p]
    by (simp add: kfree_def kfree_tagged_def kfree_checked_def kfree_locked_def no_fault_def)
next
  case (Some x)
  then obtain t c where c: "regions h p = Some (t, c)" by (cases x) auto
  show ?thesis using kfree_checked_held [OF assms c] c unfolding kfree_def kfree_tagged_def by auto
qed

lemma free_absorbed:
  assumes "heap_ok h" "regions h = Map.empty" "p \<noteq> 0" "16 dvd unat p" "p \<noteq> heap_start_block h + 48"
  shows "kfree p h = Some (BugCheck \<lparr>f_cls = HEAP_FAULT_WILD, f_ptr = p, f_got = 0, f_want = 0\<rparr> (h\<lparr>s_heap_poisoned := True\<rparr>))"
proof -
  obtain b where "blocks h = [b]" by (rule none_held [OF assms(1,2)])
  then have "p \<notin> set (block_ptrs h)" using assms(5) by (simp add: block_ptrs_def)
  moreover have "\<not> s_heap_poisoned h" using assms(1) by (rule heap_okE) (simp add: conc_poison)
  ultimately show ?thesis using classify_heap [OF assms(1), of p] assms(3,4) by (simp add: kfree_def kfree_checked_def kfree_locked_def no_fault_def aligned_iff)
qed

lemma sample_two:
  obtains p h q h' where "kmalloc_tagged 100 7 sample_heap = Some (p, h)" "kmalloc_tagged 32 9 h = Some (q, h')" "heap_ok h'" "p \<noteq> q" "p \<noteq> 0" "q \<noteq> 0"
    "16 dvd unat p" "16 dvd unat q" "regions h' = [p \<mapsto> (7, replicate 100 0), q \<mapsto> (9, replicate 32 0)]"
proof -
  have n: "need_nat 100 = 112" "need_nat 32 = 48" by (simp_all add: need_nat_def)
  let ?f = "first_block 4096"
  have ok: "blocks_ok 0x100000 4096 [?f]" by (rule first_block_ok(1)) (simp_all add: arena_ok_def)
  have f: "\<not> live ?f" "length (body ?f) = 4048" by (simp_all add: first_block_def)
  let ?zs = "cleared 100 7 (trim (need_nat 100) ?f) # leftover (need_nat 100) ?f"
  let ?h = "conc 0x100000 4096 ?zs" and ?p = "0x100000 + 48 :: u64"
  have p: "kmalloc_tagged 100 7 sample_heap = Some (?p, ?h)"
    using kmalloc_tagged_eq [OF ok, of 100 7] f n by (auto simp: sample_heap_def KMALLOC_MAX_def Cons_eq_append_conv)
  have z: "blocks_ok 0x100000 4096 ?zs" using allocated(1) [where base = "0x100000" and n = 4096 and xs = "[]" and b = ?f and ys = "[]" and q = 100 and tag = 7] ok f n by simp
  have "fitting ?h 32 \<noteq> []" unfolding fitting_def blocks_conc [OF z] using f n by (auto simp: leftover_def blk_of_def filter_empty_conv)
  moreover have h: "heap_ok ?h" "alloc_step 100 7 (regions sample_heap) ?p (regions ?h)" using alloc_call [OF sample_heap_ok(1), of 100 7] p by auto
  ultimately obtain q h' where q: "kmalloc_tagged 32 9 ?h = Some (q, h')" "q \<noteq> 0" "heap_ok h'" "alloc_step 32 9 (regions ?h) q (regions h')"
    using kmalloc_tagged_heap [OF h(1), of 32 9] alloc_call [OF h(1), of 32 9] by (auto simp: KMALLOC_MAX_def)
  show thesis
    by (rule that [OF p q(1)]) (use h q sample_heap_ok(2) in \<open>auto simp: alloc_step_def\<close>)
qed

lemma double_free_not_silent:
  "\<exists>p h q h' h1 h2 r. kmalloc_tagged 100 7 sample_heap = Some (p, h) \<and> kmalloc_tagged 32 9 h = Some (q, h') \<and> kfree p h' = Some (Done () h1) \<and> kfree q h1 = Some (Done () h2) \<and>
    r \<in> {p, q} \<and> kfree r h2 = Some (BugCheck \<lparr>f_cls = HEAP_FAULT_WILD, f_ptr = r, f_got = 0, f_want = 0\<rparr> (h2\<lparr>s_heap_poisoned := True\<rparr>))"
proof -
  obtain p h q h' where p: "kmalloc_tagged 100 7 sample_heap = Some (p, h)" "kmalloc_tagged 32 9 h = Some (q, h')" "heap_ok h'" "p \<noteq> q" "p \<noteq> 0" "q \<noteq> 0"
    "16 dvd unat p" "16 dvd unat q" "regions h' = [p \<mapsto> (7, replicate 100 0), q \<mapsto> (9, replicate 32 0)]" by (rule sample_two)
  obtain h1 where h1: "kfree_checked p None h' = Some (Done () h1)" "heap_ok h1" "regions h1 = [q \<mapsto> (9, replicate 32 0)]"
    using free_call [OF p(3), of p None] p(4,9) by (auto simp: fun_upd_twist)
  obtain h2 where h2: "kfree_checked q None h1 = Some (Done () h2)" "heap_ok h2" "regions h2 = Map.empty"
    using free_call [OF h1(2), of q None] h1(3) by auto
  obtain r where r: "r \<in> {p, q}" "r \<noteq> heap_start_block h2 + 48" using p(4) by blast
  then have "r \<noteq> 0" "16 dvd unat r" using p by auto
  from free_absorbed [OF h2(2,3) this r(2)] h1(1) h2(1) p(1,2) r(1) show ?thesis unfolding kfree_def by blast
qed

theorem kfree_correct_witness:
  "\<exists>p h h'. kmalloc_tagged 100 7 sample_heap = Some (p, h) \<and> kfree p h = Some (Done () h') \<and> regions h' = Map.empty \<and> kfree_tagged p 7 h = Some (Done () h')"
proof -
  obtain p h where p: "kmalloc_tagged 100 7 sample_heap = Some (p, h)" "heap_ok h" "regions h = [p \<mapsto> (7, replicate 100 0)]" by (rule sample_held)
  show ?thesis using kfree_correct [OF p(2), of p 7] p(1,3) by auto
qed

text \<open>C4: reallocation. For a held region, \<open>krealloc\<close> to \<open>q\<close> bytes returns the region with its tag and with the old bytes up to the shorter length, the rest zero, at the same address or at one that nobody
  held, and the old pointer is given up; if it fails the heap is unchanged, and it fails only over the cap or when no free block can take the size. All other regions keep their bytes. For a pointer
  that is not held the system is stopped before anything is changed.\<close>

theorem krealloc_correct:
  assumes "heap_ok h" "p \<noteq> 0" "q \<noteq> 0"
  shows "case regions h p of
      Some (t, c) \<Rightarrow> \<exists>r h'. krealloc p q h = Some (Done r h') \<and> heap_ok h' \<and> arena_of h' = arena_of h \<and>
        (r = 0 \<and> h' = h \<and> (q > KMALLOC_MAX \<or> fitting h q = []) \<or>
         r \<noteq> 0 \<and> (r = p \<or> regions h r = None) \<and> regions h' = (regions h)(p := None, r \<mapsto> (t, resize_bytes (unat q) c)))
    | None \<Rightarrow> krealloc p q h = Some (if q > KMALLOC_MAX then Done 0 h
        else BugCheck \<lparr>f_cls = if p \<in> set (block_ptrs h) then HEAP_FAULT_COOKIE else if heap_owns p h \<and> p AND 15 \<noteq> 0 then HEAP_FAULT_MISALIGNED else HEAP_FAULT_WILD,
          f_ptr = p, f_got = 0, f_want = 0\<rparr> (h\<lparr>s_heap_poisoned := True\<rparr>))"
proof (cases "regions h p")
  case None
  have np: "\<not> s_heap_poisoned h" using assms(1) by (rule heap_okE) (simp add: conc_poison)
  show ?thesis using None np classify_heap [OF assms(1), of p] assms(2,3) by (simp add: krealloc_def Let_def no_fault_def)
next
  case (Some x)
  then obtain t c where c: "regions h p = Some (t, c)" by (cases x) auto
  obtain r h' where "krealloc p q h = Some (Done r h')" "resize_result h p q (t, c) r h'" using krealloc_heap [OF assms(1) c assms(3)] by blast
  then show ?thesis using c by (auto simp: resize_result_def)
qed

theorem krealloc_correct_witness:
  "\<exists>p h r h'. kmalloc_tagged 100 7 sample_heap = Some (p, h) \<and> krealloc p 60 h = Some (Done r h') \<and>
    (r = 0 \<and> h' = h \<and> fitting h 60 = [] \<or> regions h' = [r \<mapsto> (7, replicate 60 0)])"
proof -
  obtain p h where p: "kmalloc_tagged 100 7 sample_heap = Some (p, h)" "heap_ok h" "regions h = [p \<mapsto> (7, replicate 100 0)]" "p \<noteq> 0" by (rule sample_held)
  have "resize_bytes 60 (replicate 100 0) = replicate 60 0" by (simp add: resize_bytes_def)
  then show ?thesis using krealloc_correct [OF p(2,4), of 60] p(1,3) by (auto simp: KMALLOC_MAX_def)
qed

text \<open>C9: overruns are caught. If any byte of the eight before or of the eight after a held region has been changed, \<open>kfree\<close> and \<open>krealloc\<close> of that region stop the system with a redzone
  fault for the pointer, and the heap is poisoned with nothing else changed.\<close>

theorem heap_overrun_caught:
  assumes "heap_ok h" "regions h p = Some (t, c)" "i < 8" "k = off h p - 8 + i \<or> k = off h p + length c + i" "v \<noteq> arena h ! k" "q \<noteq> 0" "q \<le> KMALLOC_MAX"
  shows "\<exists>f. f_cls f \<in> {HEAP_FAULT_REDZONE_FRONT, HEAP_FAULT_REDZONE_BACK} \<and> f_ptr f = p \<and>
    kfree p (h\<lparr>arena := (arena h)[k := v]\<rparr>) = Some (BugCheck f (h\<lparr>arena := (arena h)[k := v], s_heap_poisoned := True\<rparr>)) \<and>
    krealloc p q (h\<lparr>arena := (arena h)[k := v]\<rparr>) = Some (BugCheck f (h\<lparr>arena := (arena h)[k := v], s_heap_poisoned := True\<rparr>))"
proof -
  obtain f where f: "heap_classify p (h\<lparr>arena := (arena h)[k := v]\<rparr>) = Some (Corrupt f)" "f_cls f \<in> {HEAP_FAULT_REDZONE_FRONT, HEAP_FAULT_REDZONE_BACK}" "f_ptr f = p"
    using smashed_classify [OF assms(1-5)] by blast
  have np: "\<not> s_heap_poisoned h" using assms(1) by (rule heap_okE) (simp add: conc_poison)
  have mx: "\<not> q > KMALLOC_MAX" using assms(7) by simp
  show ?thesis using f np region_nonzero [OF assms(1,2)] assms(6) mx
    by (intro exI [of _ f]) (auto simp: kfree_def kfree_checked_def kfree_locked_def krealloc_def Let_def)
qed

theorem heap_overrun_caught_witness:
  "\<exists>p h f. kmalloc_tagged 100 7 sample_heap = Some (p, h) \<and> f_ptr f = p \<and>
    kfree p (h\<lparr>arena := (arena h)[off h p + 100 := arena h ! (off h p + 100) + 1]\<rparr>) =
      Some (BugCheck f (h\<lparr>arena := (arena h)[off h p + 100 := arena h ! (off h p + 100) + 1], s_heap_poisoned := True\<rparr>))"
proof -
  obtain p h where p: "kmalloc_tagged 100 7 sample_heap = Some (p, h)" "heap_ok h" "regions h = [p \<mapsto> (7, replicate 100 0)]" by (rule sample_held)
  then have "regions h p = Some (7, replicate 100 0)" by simp
  from heap_overrun_caught [OF p(2) this, of 0 "off h p + 100" "arena h ! (off h p + 100) + 1" 1] p(1) show ?thesis by (auto simp: KMALLOC_MAX_def)
qed

text \<open>Accounting. What \<open>heap_get_used\<close> and \<open>heap_get_free\<close> report are the data areas of the live and of the free blocks, and with the 48-byte headers they make up the arena.\<close>

theorem heap_accounting:
  assumes "heap_ok h"
  shows "\<exists>f. heap_get_free h = Some f \<and> unat f = free_bytes (blocks h) \<and> unat (heap_get_used h) = live_bytes (blocks h) \<and>
    unat (heap_get_total h) = unat (heap_get_used h) + unat f + 48 * length (blocks h)"
proof -
  obtain base n bs where h: "h = conc base n bs" "blocks_ok base n bs" "blocks h = bs" using assms by (rule heap_okE)
  have n: "blens bs = n" "n \<le> 2097152" using h(2) by (simp_all add: blocks_ok_def arena_ok_def)
  then have t: "n = live_bytes bs + free_bytes bs + 48 * length bs" using bytes_total [of bs] by simp
  have w: "unat (of_nat n :: u64) = n" "unat (of_nat (live_bytes bs) :: u64) = live_bytes bs" "unat (of_nat (free_bytes bs) :: u64) = free_bytes bs"
    by (rule unat_of_nat_u64, use t n(2) in simp)+
  have g: "heap_get_used h = of_nat (live_bytes bs)" "heap_get_total h = of_nat n" by (simp_all add: h(1) conc_def heap_get_used_def heap_get_total_def)
  show ?thesis using heap_get_free_eq [OF assms] t w unfolding g h(3) by (intro exI [of _ "of_nat (free_bytes bs)"]) (simp del: of_nat_add)
qed

theorem heap_accounting_witness: "\<exists>f. heap_get_free sample_heap = Some f \<and> unat f = 4048 \<and> unat (heap_get_used sample_heap) = 0"
  using heap_accounting [OF sample_heap_ok(1)] unfolding sample_blocks by (simp add: first_block_def) blast

text \<open>C38: initialization. From any good state of the physical memory manager, \<open>heap_init\<close> returns: fatally, changing nothing, exactly if no frame is free; otherwise with a heap that satisfies the invariant, holds nothing,
  and lies in \<open>k\<close> consecutive frames that were free and are used now, at most the guard frame after them being taken besides. If 513 consecutive frames are free the arena has the full 512 and the guard frame
  is taken.\<close>

theorem heap_init_correct:
  assumes "pmm_ok s" "0 \<in> used s"
  shows "\<exists>v s' ho. heap_init s = Some (v, s', ho) \<and> pmm_ok s' \<and>
    (case ho of
       None \<Rightarrow> v = BOOT_FATAL \<and> s' = s \<and> {..<unat (total_frames s)} \<subseteq> used s
     | Some h \<Rightarrow> v = BOOT_OK \<and> heap_ok h \<and> regions h = Map.empty \<and>
         (\<exists>r k j. 0 < k \<and> k \<le> 512 \<and> (j = k \<or> j = Suc k) \<and> unat (heap_start_block h) = r * 4096 \<and> length (arena h) = k * 4096 \<and>
           {r..<r + j} \<inter> used s = {} \<and> used s' = used s \<union> {r..<r + j} \<and> ((\<exists>f. run_free s 513 f) \<longrightarrow> k = 512 \<and> j = 513)))"
  using heap_init_eq [OF assms]
proof (elim disjE exE conjE)
  assume "heap_init s = Some (BOOT_FATAL, s, None)" "{..<unat (total_frames s)} \<subseteq> used s"
  then show ?thesis using assms(1) by simp
next
  fix r k s' h assume a: "heap_init s = Some (BOOT_OK, s', Some h)" "heap_made s r k s' h" "(\<exists>f. run_free s 513 f) \<longrightarrow> k = 512 \<and> got_run s r 513 s'"
  then obtain j where j: "got_run s r j s'" "j = k \<or> j = Suc k" "(\<exists>f. run_free s 513 f) \<longrightarrow> j = 513" by (auto simp: heap_made_def)
  have "unat (heap_start_block h) = r * 4096" using a(2) j(1) frame_addr(1) [of r] by (auto simp: heap_made_def got_run_def)
  then have "0 < k \<and> k \<le> 512 \<and> (j = k \<or> j = Suc k) \<and> unat (heap_start_block h) = r * 4096 \<and> length (arena h) = k * 4096 \<and>
           {r..<r + j} \<inter> used s = {} \<and> used s' = used s \<union> {r..<r + j} \<and> ((\<exists>f. run_free s 513 f) \<longrightarrow> k = 512 \<and> j = 513)"
    using a(2,3) j by (auto simp: heap_made_def got_run_def to_used_def)
  moreover have "pmm_ok s'" "heap_ok h" "regions h = Map.empty" using a(2) j(1) by (simp_all add: heap_made_def got_run_def to_used_def)
  ultimately show ?thesis using a(1) by (intro exI [of _ BOOT_OK] exI [of _ s'] exI [of _ "Some h"]) auto
qed

theorem heap_init_correct_witness: "\<exists>s' h. heap_init sample_pmm = Some (BOOT_OK, s', Some h) \<and> heap_ok h \<and> regions h = Map.empty \<and> pmm_ok s'"
proof -
  have "2 \<notin> used sample_pmm" "2 < unat (total_frames sample_pmm)" "0 \<in> used sample_pmm" by (simp_all add: sample_pmm_used) (simp add: sample_pmm_def)
  then have "\<not> {..<unat (total_frames sample_pmm)} \<subseteq> used sample_pmm" by auto
  then show ?thesis using heap_init_correct [OF sample_pmm_ok \<open>0 \<in> used sample_pmm\<close>] by (auto split: option.splits)
qed

text \<open>C3: the heap is an object store. Whatever its clients do from the boot on, allocating, resizing, writing inside the regions they hold and giving up regions they hold: every such call returns, with the
  effect that the abstract store of held regions has, so a region always has the bytes its holder wrote last. The regions lie in frames that \<open>heap_init\<close> got from the physical memory manager and that
  were free before.\<close>

theorem heap_boot_store:
  assumes "pmm_ok s" "0 \<in> used s" "heap_init s = Some (v, s', Some h0)" "runs heap_call (\<lambda>a h. can_call a (regions h)) h0 h"
  shows "heap_ok h \<and> spec_runs store_spec Map.empty (regions h) \<and>
    (\<forall>a. can_call a (regions h) \<longrightarrow> (\<exists>r h'. heap_call a h = Some (r, h') \<and> store_spec a (regions h) r (regions h'))) \<and>
    (\<forall>p t c i. regions h p = Some (t, c) \<longrightarrow> i < length c \<longrightarrow> (unat p + i) div 4096 \<in> used s' - used s)"
proof -
  obtain r k where h0: "heap_made s r k s' h0" using heap_init_eq [OF assms(1,2)] assms(3) by auto
  then have ok: "heap_ok h0 \<and> arena_of h0 = arena_of h0" "regions h0 = Map.empty" by (simp_all add: heap_made_def)
  have h: "heap_ok h" "arena_of h = arena_of h0" using heap_sim.runs_inv [OF assms(4) ok(1)] by simp_all
  have "(unat p + i) div 4096 \<in> used s' - used s" if p: "regions h p = Some (t, c)" "i < length c" for p t c i
  proof -
    have b: "heap_start_block h = of_nat r * PMM_FRAME_SIZE" "length (arena h) = k * 4096" using h(2) h0 by (simp_all add: arena_of_def heap_made_def)
    obtain j where j: "got_run s r j s'" "k \<le> j" "0 < k" using h0 by (auto simp: heap_made_def)
    have "{r..<r + k} \<subseteq> {r..<r + j}" using j(2) by auto
    then have g: "r + k \<le> 2 ^ 20" "{r..<r + k} \<inter> used s = {}" "{r..<r + k} \<subseteq> used s'" "0 < k"
      using j unfolding got_run_def to_used_def by (simp, blast, blast, simp)
    have "unat (heap_start_block h) = r * 4096" using frame_addr(1) [of r] g(1,4) b(1) by simp
    then have "r * 4096 \<le> unat p + i" "unat p + i < (r + k) * 4096" using region_bounds [OF h(1) p(1)] p(2) b(2) by simp_all
    then have "r \<le> (unat p + i) div 4096" "(unat p + i) div 4096 < r + k" by (simp_all add: less_eq_div_iff_mult_less_eq less_mult_imp_div_less)
    then show ?thesis using g(2,3) by auto
  qed
  moreover have "spec_runs store_spec Map.empty (regions h)" using heap_sim.runs_refine [OF assms(4) ok(1)] ok(2) by simp
  moreover have "\<exists>r h'. heap_call a h = Some (r, h') \<and> store_spec a (regions h) r (regions h')" if "can_call a (regions h)" for a
    using heap_sim.runs_progress [OF assms(4) ok(1) that] .
  ultimately show ?thesis using h(1) by blast
qed

theorem heap_boot_store_witness:
  "\<exists>s' h0 p h. heap_init sample_pmm = Some (BOOT_OK, s', Some h0) \<and> heap_call (Alloc 100 7) h0 = Some (p, h) \<and> heap_ok h \<and> spec_runs store_spec Map.empty (regions h)"
proof -
  have u: "2 \<notin> used sample_pmm" "2 < unat (total_frames sample_pmm)" "0 \<in> used sample_pmm" by (simp_all add: sample_pmm_used) (simp add: sample_pmm_def)
  then have "\<not> {..<unat (total_frames sample_pmm)} \<subseteq> used sample_pmm" by auto
  then obtain s' h0 where i: "heap_init sample_pmm = Some (BOOT_OK, s', Some h0)" "heap_ok h0"
    using heap_init_eq [OF sample_pmm_ok u(3)] by (auto simp: heap_made_def)
  obtain p h where a: "heap_call (Alloc 100 7) h0 = Some (p, h)" using alloc_call [OF i(2), of 100 7] by auto
  have "runs heap_call (\<lambda>a h. can_call a (regions h)) h0 h" by (rule runs_step [where ?run1.0 = heap_call and a = "Alloc 100 7", OF runs_refl [where s = h0] _ a]) simp
  from heap_boot_store [OF sample_pmm_ok u(3) i(1) this] show ?thesis using i(1) a by blast
qed

text \<open>C39: nothing is lost. Whatever the clients do from the boot on, once everything that was allocated has been given up, whatever the order of the calls was, the arena is one free block again, as large as
  after \<open>heap_init\<close>: no byte counts as used, all but one header counts as free, and a request succeeds exactly if it is not 0, keeps to the cap, and its rounded size and one header fit into the arena.\<close>

theorem heap_all_returned:
  assumes "pmm_ok s" "0 \<in> used s" "heap_init s = Some (v, s', Some h0)" "runs heap_call (\<lambda>a h. can_call a (regions h)) h0 h" "regions h = Map.empty"
  shows "length (arena h) = length (arena h0) \<and> length (blocks h) = 1 \<and> heap_get_used h = 0 \<and> heap_get_free h = Some (of_nat (length (arena h0) - 48)) \<and>
    (\<forall>q. \<exists>p h'. kmalloc q h = Some (p, h') \<and> (p \<noteq> 0 \<longleftrightarrow> q \<noteq> 0 \<and> q \<le> KMALLOC_MAX \<and> need_nat q + 48 \<le> length (arena h0)))"
proof -
  obtain r k where h0: "heap_made s r k s' h0" using heap_init_eq [OF assms(1,2)] assms(3) by auto
  then have "heap_ok h0 \<and> arena_of h0 = arena_of h0" by (simp add: heap_made_def)
  then have h: "heap_ok h" "arena_of h = arena_of h0" using heap_sim.runs_inv [OF assms(4)] by simp_all
  then have a: "length (arena h) = length (arena h0)" by (simp add: arena_of_def)
  obtain b where b: "blocks h = [b]" "\<not> live b" "length (arena h) = 48 + length (body b)" by (rule none_held [OF h(1) assms(5)])
  obtain base n bs where c: "h = conc base n bs" "blocks h = bs" using h(1) by (rule heap_okE)
  then have "heap_get_used h = 0" using b(1,2) by (simp add: heap_get_used_def conc_def)
  moreover have "heap_get_free h = Some (of_nat (length (arena h0) - 48))" using heap_get_free_eq [OF h(1)] b a by simp
  ultimately show ?thesis using a b(1) kmalloc_none_held [OF h(1) assms(5)] by simp
qed

theorem heap_all_returned_witness:
  "\<exists>s' h0 p h1 h p' h'. heap_init sample_pmm = Some (BOOT_OK, s', Some h0) \<and> heap_call (Alloc 100 7) h0 = Some (p, h1) \<and> heap_call (Free p) h1 = Some (0, h) \<and>
    length (blocks h) = 1 \<and> kmalloc 100 h = Some (p', h')"
proof -
  have u: "2 \<notin> used sample_pmm" "2 < unat (total_frames sample_pmm)" "0 \<in> used sample_pmm" by (simp_all add: sample_pmm_used) (simp add: sample_pmm_def)
  then have "\<not> {..<unat (total_frames sample_pmm)} \<subseteq> used sample_pmm" by auto
  then obtain s' h0 where i: "heap_init sample_pmm = Some (BOOT_OK, s', Some h0)" "heap_ok h0" "regions h0 = Map.empty"
    using heap_init_eq [OF sample_pmm_ok u(3)] by (auto simp: heap_made_def)
  obtain p h1 where a: "heap_call (Alloc 100 7) h0 = Some (p, h1)" "heap_ok h1" "alloc_step 100 7 (regions h0) p (regions h1)" using alloc_call [OF i(2), of 100 7] by auto
  have p: "p = 0 \<or> (\<exists>t c. regions h1 p = Some (t, c) \<and> (None = None \<or> None = Some t))" and r: "(regions h1)(p := None) = Map.empty"
    using a(3) i(3) by (auto simp: alloc_step_def split: if_splits)
  obtain h where f: "kfree_checked p None h1 = Some (Done () h)" "regions h = (regions h1)(p := None)" using free_call [OF a(2), of p None] p by blast
  then have fr: "heap_call (Free p) h1 = Some (0, h)" by (simp add: kfree_def)
  have "runs heap_call (\<lambda>a h. can_call a (regions h)) h0 h1" by (rule runs_step [where ?run1.0 = heap_call and a = "Alloc 100 7", OF runs_refl [where s = h0] _ a(1)]) simp
  then have run: "runs heap_call (\<lambda>a h. can_call a (regions h)) h0 h" by (rule runs_step [where ?run1.0 = heap_call and a = "Free p", OF _ _ fr]) (use p in auto)
  have e: "regions h = Map.empty" using f(2) r by simp
  have "length (blocks h) = 1" "\<exists>p h'. kmalloc 100 h = Some (p, h')" using heap_all_returned [OF sample_pmm_ok u(3) i(1) run e] by blast+
  then show ?thesis using i(1) a(1) fr by blast
qed

end
