(* ===== verification/Spec2Isabelle.thy ===== *)
theory Spec2Isabelle
  imports Sec_Assign_Facts Sec_Token_Facts Ex_Bitmap_Facts Ob_Properties Kcodec_Facts Kchecksum_Facts Ex_Avl_Properties Mm_Heap_Properties
begin

text \<open>
  Verification of the kernel of Impossible OS (\<open>src/kernel\<close>), an operating system in C with a security
  model and an object manager in the style of Windows NT.

  \<^bold>\<open>The program.\<close> A thread acts under an \<^emph>\<open>access token\<close>: security identifiers of a user and of groups, privileges and an integrity
  level. Objects (files, events, processes, ...) are allocated by the \<^emph>\<open>object manager\<close>, carry a \<^emph>\<open>security descriptor\<close> with its access control
  lists, and are used through \<^emph>\<open>handles\<close>, slots of per-process handle tables that record the access granted at open time. Registered
  \<^emph>\<open>callbacks\<close> may take rights away when a handle is created or duplicated. New objects get a descriptor assembled
  from what the creator passes, what the parent container hands down, and defaults. At boot, the kernel validates what the loader hands over and
  builds the \<^emph>\<open>physical memory manager\<close> from it, which hands out frames of memory, and the \<^emph>\<open>kernel heap\<close> on top of it, which hands out blocks of bytes. Below, the \<^emph>\<open>executive\<close> provides bitmaps and balanced trees,
  a codec turns bytes into text, and checksums guard stored data.

  \<^bold>\<open>Modelling conventions\<close> (\<open>Kernel_Prelude\<close>). Functions keep their C names. Machine integers are words of their width;
  loop counters that the code bounds by a buffer are natural numbers. A buffer is a list of bytes; a read or write outside it
  is the value \<^term>\<open>None\<close> of the option monad, so that \<open>= Some r\<close> includes the absence of out-of-bounds accesses. A null pointer is \<^term>\<open>None\<close> (or
  0, where pointers are numbers). Structures are records; state that functions share is a record passed along. \<open>for (i = a; i < n; i++)\<close> is \<open>for_upto\<close>, which
  ends by its measure. Locks are not modelled: each operation is one step, except the duplication of a handle, which drops its locks in between: there, what
  callbacks that re-enter the object manager and other processors do to the state are arguments of the definition. Log messages are left out.
  Results of allocators and of code outside the modelled files are arguments.

  \<^bold>\<open>Theories and sources.\<close>
  \<^item> \<open>Libc_Format\<close>: the integer conversions and the bounded store of \<open>libc/string.c\<close> that the security formatters use.
  \<^item> \<open>Sec_Sid\<close>: \<open>security/sid.c\<close>. SIDs are their bytes. The bounded length function reads only vouched-for
    bytes, equality is equality of bytes, the text form is exact and bounded.
  \<^item> \<open>Sec_Acl\<close>, \<open>Sec_Acl_Facts\<close>, \<open>Sec_Sd\<close>: \<open>security/acl.c\<close>. An ACL is abstracted to the list of its entries; validation accepts exactly the well-formed ones, lookups
    stay inside, appending adds one entry. Absolute and self-relative descriptors convert into each other
    without loss and without leaving their buffers; the conversion is proved over the locale \<open>bounded_component\<close>, which SIDs and ACLs interpret.
  \<^item> \<open>Sec_Privileges\<close>: \<open>security/luid.c\<close>, \<open>security/privileges.c\<close>: unique identifiers, and the privilege check, which fails closed.
  \<^item> \<open>Sec_Mic\<close>: \<open>security/mic.c\<close>: the mandatory integrity check decides as the label and policy say, and a malformed SACL denies.
  \<^item> \<open>Sec_Token\<close>, \<open>Sec_Token_Facts\<close>: \<open>security/token.c\<close>: creation, duplication, adjustment, queries. The array loops refine functions on lists; no sequence of
    operations derives a token with more rights (rule induction over \<open>derives\<close>).
  \<^item> \<open>Sec_Assign\<close>, \<open>Sec_Assign_Facts\<close>: \<open>security/assign_security.c\<close>, \<open>security/default_sds.c\<close>: the descriptor of a new object is the one its sources define.
  \<^item> \<open>Bit_Store\<close>, \<open>Ex_Bitmap\<close>, \<open>Ex_Bitmap_Facts\<close>: \<open>ex/ex_bitmap.c\<close>: masked word operations equal bit-by-bit loops (locale \<open>bit_store\<close>), counts
    and run searches are exact. The search loop ends by the number of bits left.
  \<^item> \<open>Ex_Avl\<close>, \<open>Ex_Avl_Tree\<close>, \<open>Ex_Avl_Facts\<close>, \<open>Ex_Avl_Paths\<close>, \<open>Ex_Avl_Properties\<close>: \<open>ex/ex_avltable.c\<close> over an explicit heap of nodes with parent pointers. \<open>rep\<close>
    relates a heap to a functional tree; insertion, deletion by relinking, retracing and enumeration are proved to compute the tree operations. The loops over links are
    partial functions, and every theorem states that they return.
  \<^item> \<open>Kcodec\<close>, \<open>Kcodec_Facts\<close>: \<open>kcodec.c\<close>: base64 and hexadecimal against the definition of RFC 4648, and the round trips.
  \<^item> \<open>Kchecksum\<close>, \<open>Kchecksum_Facts\<close>: \<open>kchecksum.c\<close>: CRC-32 and CRC-32C by table and by the SSE4.2 instructions against the bitwise division by the polynomials; one changed byte is always detected.
  \<^item> \<open>Ob_Callback\<close>, \<open>Ob_Callback_Facts\<close>: \<open>ob/ob_callback.c\<close>: the registry stays sorted, callbacks run in its order and only strip rights.
  \<^item> \<open>Nt_Types\<close>, \<open>Ob_Object\<close>, \<open>Ob_Handle\<close>: \<open>ob/ob.c\<close>, \<open>ob/handle_table.c\<close>. \<open>Ob_Handle_Facts\<close>, \<open>Ob_Reach\<close>, \<open>Ob_Duplicate\<close>: every operation
    keeps the invariant that handles name live objects and that counts are exact, and a duplication leaves exactly what the interference left, with or without the new handle. \<open>Ob_Manager\<close>: the reachable states, and the locale \<open>handle_store\<close>, the interface of a table of handles
    as a finite map, interpreted on the tables. \<open>Ob_Properties\<close>: the properties. The fuel of \<open>grow_to\<close>, the
    slot wanted plus two, suffices since each round grows the array.
  \<^item> \<open>Mm_Pmm\<close>, \<open>Mm_Pmm_Facts\<close>: \<open>mm/pmm.c\<close>: the frame bitmap as the set of used frames (an interpretation of \<open>bit_store\<close>). Allocation takes the lowest free run,
    release undoes it; \<open>pmm_run\<close> is the step relation of the allocator's clients.
  \<^item> \<open>Boot_Info\<close>, \<open>Boot_Payload\<close>, \<open>Boot_Payload_Facts\<close>, \<open>Boot_Warm\<close>: \<open>boot_info.h\<close>, \<open>main/boot_payload.c\<close>, \<open>main/boot_warm_update.c\<close>: the validator of the handoff's payloads, their length
    contract and budget, and the warm-update selection that is sealed once. The validator compares payloads with fewer regions than the kernel keeps; \<open>compared\<close> lists them.
  \<^item> \<open>Mm_Reserved\<close>, \<open>Mm_Init\<close>: \<open>mm/boot_reserved.c\<close>, \<open>mm/boot_stack.c\<close>, \<open>pmm_init\<close>: the table of reserved regions, the boot stack, and the construction of the bitmap.
    \<open>Mm_Init_Facts\<close> has the invariant of the table, \<open>Mm_Init_Frames\<close> computes which frames each stage marks, \<open>Mm_Properties\<close> has the properties and a sample boot. What is
    said of the frames of reserved regions is said for tables in which no region ends in the last 4095 bytes of the address space (\<open>ends_round\<close>): for such a region
    the code marks nothing (\<open>mark_wrapped\<close>). The result of a population that fails has no table and no selection; the boot stops there.
  \<^item> \<open>Mm_Heap\<close>: \<open>mm/heap.c\<close>, the first-fit allocator over the bytes of its arena, with headers, links, cookies and redzones stored in them. \<open>Mm_Heap_Blocks\<close>: a heap is a function of its list of blocks;
    the bitmap of block starts is an interpretation of \<open>bit_store\<close>. \<open>Mm_Heap_Facts\<close>, \<open>Mm_Heap_Regions\<close>, \<open>Mm_Heap_Ops\<close>: each operation as an operation on that list and on the map of held regions.
    \<open>Mm_Heap_Store\<close>: the entry points, and the locale \<open>simulation\<close>, interpreted on the heap and an abstract store. \<open>Mm_Heap_Init\<close>: \<open>heap_init\<close> over the physical memory manager.
    \<open>Mm_Heap_Properties\<close>: the properties. The walks over the links are partial functions; the theorems state that they return.

  \<^bold>\<open>How the parts meet.\<close> \<open>Ob_Object\<close> attaches the default descriptors of \<open>Sec_Assign\<close> to objects and
  \<open>Ob_Handle\<close> runs the callbacks of \<open>Ob_Callback\<close> on every handle it creates; the token services open handles to tokens. The properties of \<open>Ob_Properties\<close> hold for any callbacks that are functions of what they
  are shown, and that of duplication also for callbacks that re-enter the object manager.
  \<open>pmm_init\<close> frees what the memory map calls usable, asks \<open>boot_reserved\<close> for the regions to keep, which asks the warm-update selection and the payload limits, and the allocator then works on
  the result: the safety property of \<open>Mm_Properties\<close> spans all of them. \<open>heap_init\<close> takes its arena
  from that allocator, and the refinement property of \<open>Mm_Heap_Properties\<close> follows the heap from there through every run of its clients.

  \<^bold>\<open>Not modelled.\<close> Code whose content is hardware state, interrupts or lock-free interleavings (scheduler, page tables and with them the guard pages of the boot stack and of the heap, SMP,
  drivers, SLISTs, rundown protection), callbacks that re-enter the object manager when a handle is created or after one is published, the file systems and network stack, the object bodies (events, jobs, sections, ...) and the
  namespace, quota accounting, graphics, user programs, tests and the fault injection that test builds add, and vendored libraries.
\<close>

end
